(* ===== verification/Kernel_Prelude.thy ===== *)
theory Kernel_Prelude
  imports Main "HOL-Library.Monad_Syntax" "HOL-Library.Word"
begin

section \<open>Conventions and lemmas shared by every component\<close>

text \<open>
  A kernel routine returns a value of type \<open>'a kresult\<close>. \<open>Some v\<close> is a normal return with the
  value (and the new state) \<open>v\<close>; \<open>None\<close> is a call that never returns: a failed \<open>assert\<close>, an
  explicit \<open>panic\<close>, or a pointer loop that runs forever. Error codes of the C code stay what they
  are there, negative integers, so that each early \<open>return -E_XXX\<close> is a branch of the model.
  Statements are sequenced with the \<open>do\<close> notation of \<open>Monad_Syntax\<close>.
\<close>

type_synonym 'a kresult = "'a option"

definition kassert :: "bool \<Rightarrow> unit kresult" where
  "kassert b = (if b then Some () else None)"

abbreviation (input) kpanic :: "'a kresult" where
  "kpanic \<equiv> None"

named_theorems kernel_simps \<open>unfolding rules of the kernel's statement combinators\<close>
named_theorems link_simps \<open>effect of the list operations on the link fields\<close>

lemma kassert_simps [simp]:
  "kassert True = Some ()" "kassert False = None"
  by (simp_all add: kassert_def)

lemma kassert_bind [simp]: "kassert b \<bind> f = (if b then f () else None)"
  by (simp add: kassert_def)

lemma kassert_eq_Some [simp]: "kassert b = Some u \<longleftrightarrow> b"
  by (simp add: kassert_def)

lemma bind_kassert_eq_Some: "kassert b \<bind> f = Some v \<longleftrightarrow> b \<and> f () = Some v"
  by simp

subsection \<open>Error codes (libs/error.h)\<close>

definition E_UNSPECIFIED :: int where "E_UNSPECIFIED = 1"
definition E_BAD_PROC :: int where "E_BAD_PROC = 2"
definition E_INVAL :: int where "E_INVAL = 3"
definition E_NO_MEM :: int where "E_NO_MEM = 4"
definition E_NO_FREE_PROC :: int where "E_NO_FREE_PROC = 5"
definition E_KILLED :: int where "E_KILLED = 9"
definition E_TOO_BIG :: int where "E_TOO_BIG = 12"
definition E_NO_DEV :: int where "E_NO_DEV = 13"
definition E_NA_DEV :: int where "E_NA_DEV = 14"
definition E_BUSY :: int where "E_BUSY = 15"
definition E_NOENT :: int where "E_NOENT = 16"
definition E_ISDIR :: int where "E_ISDIR = 17"
definition E_NOTDIR :: int where "E_NOTDIR = 18"
definition E_UNIMP :: int where "E_UNIMP = 20"
definition E_MAX_OPEN :: int where "E_MAX_OPEN = 22"
definition E_EXISTS :: int where "E_EXISTS = 23"

lemmas error_code_defs = E_UNSPECIFIED_def E_BAD_PROC_def E_INVAL_def E_NO_MEM_def
  E_NO_FREE_PROC_def E_KILLED_def E_TOO_BIG_def E_NO_DEV_def E_NA_DEV_def E_BUSY_def E_NOENT_def
  E_ISDIR_def E_NOTDIR_def E_UNIMP_def E_MAX_OPEN_def E_EXISTS_def

subsection \<open>Unsigned C integers kept in \<open>nat\<close>\<close>

text \<open>
  Where a field is an unsigned integer of \<open>w\<close> bits and only its arithmetic matters, the model
  keeps it in \<open>nat\<close> and writes the conversion to the field's width at every store: \<open>u32\<close> for
  \<open>unsigned int\<close>, \<open>u64\<close> for \<open>size_t\<close> and \<open>uintptr_t\<close>. Subtraction wraps around.
\<close>

definition u32 :: "nat \<Rightarrow> nat" where "u32 x = x mod 2 ^ 32"
definition u64 :: "nat \<Rightarrow> nat" where "u64 x = x mod 2 ^ 64"
definition sub32 :: "nat \<Rightarrow> nat \<Rightarrow> nat" where "sub32 x y = (x + 2 ^ 32 - y mod 2 ^ 32) mod 2 ^ 32"
definition sub64 :: "nat \<Rightarrow> nat \<Rightarrow> nat" where "sub64 x y = (x + 2 ^ 64 - y mod 2 ^ 64) mod 2 ^ 64"

lemma u32_id [simp]: "x < 2 ^ 32 \<Longrightarrow> u32 x = x"
  by (simp add: u32_def)

lemma u32_less [simp]: "u32 x < 4294967296"
  by (simp add: u32_def)

lemma u64_id [simp]: "x < 2 ^ 64 \<Longrightarrow> u64 x = x"
  by (simp add: u64_def)

lemma u64_less [simp]: "u64 x < 18446744073709551616"
  by (simp add: u64_def)

lemma sub32_id: "y \<le> x \<Longrightarrow> x < 2 ^ 32 \<Longrightarrow> sub32 x y = x - y"
  by (simp add: sub32_def mod_if)

lemma sub64_id: "y \<le> x \<Longrightarrow> x < 2 ^ 64 \<Longrightarrow> sub64 x y = x - y"
  by (simp add: sub64_def mod_if)

text \<open>\<open>ROUNDDOWN\<close> and \<open>ROUNDUP\<close> of libs/defs.h on 64-bit values.\<close>

definition ROUNDDOWN :: "nat \<Rightarrow> nat \<Rightarrow> nat" where
  "ROUNDDOWN a n = a - a mod n"

definition ROUNDUP :: "nat \<Rightarrow> nat \<Rightarrow> nat" where
  "ROUNDUP a n = ROUNDDOWN (u64 (a + n - 1)) n"

lemma ROUNDDOWN_le [simp]: "ROUNDDOWN a n \<le> a"
  by (simp add: ROUNDDOWN_def)

lemma ROUNDDOWN_dvd [simp]: "n dvd ROUNDDOWN a n"
  by (simp add: ROUNDDOWN_def dvd_minus_mod)

lemma ROUNDDOWN_gt: "0 < n \<Longrightarrow> a < ROUNDDOWN a n + n"
  using mod_less_divisor [of n a] mod_less_eq_dividend [of a n]
  unfolding ROUNDDOWN_def by linarith

lemma ROUNDUP_eq: "0 < n \<Longrightarrow> a + n \<le> 2 ^ 64 \<Longrightarrow> ROUNDUP a n = ROUNDDOWN (a + n - 1) n"
  by (simp add: ROUNDUP_def)

lemma ROUNDUP_ge: "0 < n \<Longrightarrow> a + n \<le> 2 ^ 64 \<Longrightarrow> a \<le> ROUNDUP a n"
  using ROUNDDOWN_gt [of n "a + n - 1"] ROUNDUP_eq [of n a] by linarith

lemma ROUNDUP_less: "0 < n \<Longrightarrow> a + n \<le> 2 ^ 64 \<Longrightarrow> ROUNDUP a n < a + n"
  using ROUNDDOWN_le [of "a + n - 1" n] ROUNDUP_eq [of n a] by linarith

lemma ROUNDUP_dvd [simp]: "n dvd ROUNDUP a n"
  by (simp add: ROUNDUP_def)

subsection \<open>Lists\<close>

lemma find_append: "find P (xs @ ys) = (case find P xs of None \<Rightarrow> find P ys | Some x \<Rightarrow> Some x)"
  by (induction xs) auto

lemma in_set_tlD: "x \<in> set (tl xs) \<Longrightarrow> x \<in> set xs"
  by (cases xs) auto

lemma last_Cons_append: "last (c # xs @ ys) = last (last (c # xs) # ys)"
  by (induction xs arbitrary: c) auto

lemma distinct_split_unique:
  "distinct zs \<Longrightarrow> zs = xs @ x # ys \<Longrightarrow> zs = xs' @ x # ys' \<Longrightarrow> xs = xs' \<and> ys = ys'"
  by (induction xs arbitrary: xs' zs) (fastforce simp: Cons_eq_append_conv)+

end
