(* ===== verification/Kernel_List.thy ===== *)
theory Kernel_List
  imports Kernel_Prelude
begin

section \<open>The kernel's doubly linked lists (libs/list.h)\<close>

text \<open>
  A \<open>list_entry_t\<close> is an address; the link fields of all entries form two maps from addresses to
  addresses, so that aliasing is visible. Each component chooses its own type of addresses: a list
  head and the \<open>xxx_link\<close> members embedded in its structures, which makes \<open>le2xxx\<close> the projection
  of the constructor. The operations are those of list.h, assignment for assignment.
\<close>

record 'a links =
  nxt :: "'a \<Rightarrow> 'a"
  prv :: "'a \<Rightarrow> 'a"

definition set_nxt :: "'a \<Rightarrow> 'a \<Rightarrow> 'a links \<Rightarrow> 'a links" where
  "set_nxt a v h = h\<lparr>nxt := (nxt h)(a := v)\<rparr>"

definition set_prv :: "'a \<Rightarrow> 'a \<Rightarrow> 'a links \<Rightarrow> 'a links" where
  "set_prv a v h = h\<lparr>prv := (prv h)(a := v)\<rparr>"

definition list_init :: "'a \<Rightarrow> 'a links \<Rightarrow> 'a links" where
  "list_init elm h = set_prv elm elm (set_nxt elm elm h)"

text \<open>The two internal routines \<open>__list_add\<close> and \<open>__list_del\<close>.\<close>

definition priv_list_add :: "'a \<Rightarrow> 'a \<Rightarrow> 'a \<Rightarrow> 'a links \<Rightarrow> 'a links" where
  "priv_list_add elm prev next h =
     (let h1 = set_prv next elm h;
          h2 = set_nxt prev elm h1;
          h3 = set_nxt elm next h2
      in set_prv elm prev h3)"

definition priv_list_del :: "'a \<Rightarrow> 'a \<Rightarrow> 'a links \<Rightarrow> 'a links" where
  "priv_list_del prev next h = set_prv next prev (set_nxt prev next h)"

definition list_add_before :: "'a \<Rightarrow> 'a \<Rightarrow> 'a links \<Rightarrow> 'a links" where
  "list_add_before listelm elm h = priv_list_add elm (prv h listelm) listelm h"

definition list_add_after :: "'a \<Rightarrow> 'a \<Rightarrow> 'a links \<Rightarrow> 'a links" where
  "list_add_after listelm elm h = priv_list_add elm listelm (nxt h listelm) h"

definition list_add :: "'a \<Rightarrow> 'a \<Rightarrow> 'a links \<Rightarrow> 'a links" where
  "list_add listelm elm h = list_add_after listelm elm h"

definition list_del :: "'a \<Rightarrow> 'a links \<Rightarrow> 'a links" where
  "list_del listelm h = priv_list_del (prv h listelm) (nxt h listelm) h"

definition list_del_init :: "'a \<Rightarrow> 'a links \<Rightarrow> 'a links" where
  "list_del_init listelm h = list_init listelm (list_del listelm h)"

definition list_empty :: "'a \<Rightarrow> 'a links \<Rightarrow> bool" where
  "list_empty l h \<longleftrightarrow> nxt h l = l"

definition list_next :: "'a \<Rightarrow> 'a links \<Rightarrow> 'a" where
  "list_next listelm h = nxt h listelm"

definition list_prev :: "'a \<Rightarrow> 'a links \<Rightarrow> 'a" where
  "list_prev listelm h = prv h listelm"

lemma link_fields [link_simps]:
  "nxt (set_nxt a v h) = (nxt h)(a := v)" "prv (set_nxt a v h) = prv h"
  "prv (set_prv a v h) = (prv h)(a := v)" "nxt (set_prv a v h) = nxt h"
  by (simp_all add: set_nxt_def set_prv_def)

lemma list_fields [link_simps]:
  "nxt (list_init e h) = (nxt h)(e := e)"
  "prv (list_init e h) = (prv h)(e := e)"
  "nxt (list_add_after l e h) = ((nxt h)(l := e))(e := nxt h l)"
  "prv (list_add_after l e h) = ((prv h)(nxt h l := e))(e := l)"
  "nxt (list_add_before l e h) = ((nxt h)(prv h l := e))(e := l)"
  "prv (list_add_before l e h) = ((prv h)(l := e))(e := prv h l)"
  "nxt (list_del e h) = (nxt h)(prv h e := nxt h e)"
  "prv (list_del e h) = (prv h)(nxt h e := prv h e)"
  by (simp_all add: list_init_def list_add_after_def list_add_before_def list_del_def
      priv_list_add_def priv_list_del_def link_fields Let_def)

lemma list_add_fields [link_simps]: "list_add l e h = list_add_after l e h"
  by (simp add: list_add_def)

subsection \<open>Abstraction: a circular list with its head\<close>

text \<open>
  \<open>chain h zs\<close>: each entry of \<open>zs\<close> leads to the next one through \<open>nxt\<close>, and back through \<open>prv\<close>.
  \<open>dlist h c xs\<close>: the list with head \<open>c\<close> holds the entries \<open>xs\<close>, in this order.
\<close>

fun chain :: "'a links \<Rightarrow> 'a list \<Rightarrow> bool" where
  "chain h (x # y # zs) \<longleftrightarrow> nxt h x = y \<and> prv h y = x \<and> chain h (y # zs)"
| "chain h zs \<longleftrightarrow> True"

definition dlist :: "'a links \<Rightarrow> 'a \<Rightarrow> 'a list \<Rightarrow> bool" where
  "dlist h c xs \<longleftrightarrow> distinct (c # xs) \<and> chain h (c # xs @ [c])"

lemma chain_append:
  "xs \<noteq> [] \<Longrightarrow> ys \<noteq> [] \<Longrightarrow>
   chain h (xs @ ys) \<longleftrightarrow>
     chain h xs \<and> nxt h (last xs) = hd ys \<and> prv h (hd ys) = last xs \<and> chain h ys"
  by (induction h xs rule: chain.induct; cases ys; simp)

lemma chain_cong:
  "(\<And>x. x \<in> set (butlast zs) \<Longrightarrow> nxt h' x = nxt h x) \<Longrightarrow>
   (\<And>x. x \<in> set (tl zs) \<Longrightarrow> prv h' x = prv h x) \<Longrightarrow> chain h' zs = chain h zs"
  by (induction h zs rule: chain.induct) (auto split: if_splits)

lemma dlist_split_iff:
  "dlist h c (xs @ ys) \<longleftrightarrow> distinct (c # xs @ ys) \<and> chain h (c # xs) \<and> chain h (ys @ [c]) \<and>
     nxt h (last (c # xs)) = hd (ys @ [c]) \<and> prv h (hd (ys @ [c])) = last (c # xs)"
  using chain_append [of "c # xs" "ys @ [c]" h] by (auto simp: dlist_def)

lemma dlist_frame:
  "dlist h c xs \<Longrightarrow> (\<And>x. x \<in> set (c # xs) \<Longrightarrow> nxt h' x = nxt h x \<and> prv h' x = prv h x) \<Longrightarrow>
   dlist h' c xs"
  using chain_cong [of "c # xs @ [c]" h' h] by (auto simp: dlist_def butlast_append)

lemma dlist_distinct: "dlist h c xs \<Longrightarrow> distinct xs \<and> c \<notin> set xs"
  by (simp add: dlist_def)

lemma last_hd_disjoint:
  "distinct (c # xs @ ys) \<Longrightarrow> last (c # xs) \<notin> set ys \<and> last (c # xs) \<notin> set (butlast (c # xs)) \<and>
     hd (ys @ [c]) \<notin> set xs \<and> hd (ys @ [c]) \<notin> set (tl (ys @ [c]))"
  by (cases ys; cases xs rule: rev_cases) auto

lemma dlist_insert:
  assumes d: "dlist h c (xs @ ys)" and x: "x \<notin> set (c # xs @ ys)"
    and h': "nxt h' = ((nxt h)(last (c # xs) := x))(x := hd (ys @ [c]))"
      "prv h' = ((prv h)(hd (ys @ [c]) := x))(x := last (c # xs))"
  shows "dlist h' c (xs @ x # ys)"
proof -
  have dist: "distinct (c # xs @ ys)" using d by (simp add: dlist_def)
  have ne: "last (c # xs) \<noteq> x" "hd (ys @ [c]) \<noteq> x"
    using x by (auto split: if_splits simp: hd_append)
  have "chain h' (c # xs) = chain h (c # xs)" "chain h' (ys @ [c]) = chain h (ys @ [c])"
    using last_hd_disjoint [OF dist] x
    by (intro chain_cong; auto simp: h' butlast_append dest: in_set_butlastD in_set_tlD split: if_splits)+
  moreover have "chain h' ((c # xs) @ [x] @ ys @ [c]) \<longleftrightarrow> chain h' (c # xs) \<and> chain h' (ys @ [c])"
    using ne chain_append [of "c # xs" "[x] @ ys @ [c]" h'] chain_append [of "[x]" "ys @ [c]" h']
    by (auto simp: h')
  ultimately show ?thesis
    using d [unfolded dlist_split_iff] x unfolding dlist_def by auto
qed

lemma dlist_remove:
  assumes d: "dlist h c (xs @ x # ys)"
    and h': "nxt h' = (nxt h)(last (c # xs) := hd (ys @ [c]))"
      "prv h' = (prv h)(hd (ys @ [c]) := last (c # xs))"
  shows "dlist h' c (xs @ ys)"
proof -
  have dist: "distinct (c # xs @ ys)" using d by (auto simp: dlist_def)
  have "chain h' (c # xs) = chain h (c # xs)" "chain h' (ys @ [c]) = chain h (ys @ [c])"
    using last_hd_disjoint [OF dist]
    by (intro chain_cong; auto simp: h' butlast_append split: if_splits)+
  moreover have "chain h (ys @ [c])"
    using d dlist_split_iff [of h c "xs @ [x]" ys] by simp
  ultimately show ?thesis
    using d dist by (auto simp: dlist_split_iff h')
qed


subsection \<open>Effect of each operation on the abstraction\<close>

lemma list_init_dlist: "dlist (list_init c h) c []"
  by (simp add: dlist_def link_simps)

lemma list_empty_iff: "dlist h c xs \<Longrightarrow> list_empty c h \<longleftrightarrow> xs = []"
  by (cases xs) (auto simp: dlist_def list_empty_def)

lemma list_next_dlist: "dlist h c (xs @ ys) \<Longrightarrow> list_next (last (c # xs)) h = hd (ys @ [c])"
  by (simp add: dlist_split_iff list_next_def)

lemma list_prev_dlist: "dlist h c (xs @ ys) \<Longrightarrow> list_prev (hd (ys @ [c])) h = last (c # xs)"
  by (simp add: dlist_split_iff list_prev_def)

lemma list_add_after_dlist:
  assumes "dlist h c (xs @ ys)" and "x \<notin> set (c # xs @ ys)"
  shows "dlist (list_add_after (last (c # xs)) x h) c (xs @ x # ys)"
  using assms(1) by (intro dlist_insert [OF assms]) (simp_all add: dlist_split_iff link_simps)

lemma list_add_before_dlist:
  assumes "dlist h c (xs @ ys)" and "x \<notin> set (c # xs @ ys)"
  shows "dlist (list_add_before (hd (ys @ [c])) x h) c (xs @ x # ys)"
  using assms(1) by (intro dlist_insert [OF assms]) (simp_all add: dlist_split_iff link_simps)

lemma dlist_neighbours:
  assumes "dlist h c (xs @ x # ys)"
  shows "prv h x = last (c # xs)" "nxt h x = hd (ys @ [c])"
proof -
  show "prv h x = last (c # xs)" using assms by (simp add: dlist_split_iff)
  show "nxt h x = hd (ys @ [c])" using assms dlist_split_iff [of h c "xs @ [x]" ys] by simp
qed

lemma list_del_dlist:
  assumes "dlist h c (xs @ x # ys)"
  shows "dlist (list_del x h) c (xs @ ys)"
  by (rule dlist_remove [OF assms]) (simp_all add: link_simps dlist_neighbours [OF assms])

text \<open>Which links an operation may write: the entries next to the point of change.\<close>

lemma list_add_after_frame:
  assumes "dlist h c (xs @ ys)" and "z \<notin> set (x # c # xs @ ys)"
  shows "nxt (list_add_after (last (c # xs)) x h) z = nxt h z"
    "prv (list_add_after (last (c # xs)) x h) z = prv h z"
  using assms by (auto simp: dlist_split_iff link_simps hd_append split: if_splits)

lemma list_add_before_frame:
  assumes "dlist h c (xs @ ys)" and "z \<notin> set (x # c # xs @ ys)"
  shows "nxt (list_add_before (hd (ys @ [c])) x h) z = nxt h z"
    "prv (list_add_before (hd (ys @ [c])) x h) z = prv h z"
  using assms by (auto simp: dlist_split_iff link_simps hd_append split: if_splits)

lemma list_del_frame:
  assumes "dlist h c (xs @ x # ys)" and "z \<notin> set (c # xs @ ys)"
  shows "nxt (list_del x h) z = nxt h z" "prv (list_del x h) z = prv h z"
  using assms(2) by (auto simp: link_simps dlist_neighbours [OF assms(1)] hd_append split: if_splits)

lemma list_init_frame:
  "z \<noteq> x \<Longrightarrow> nxt (list_init x h) z = nxt h z" "z \<noteq> x \<Longrightarrow> prv (list_init x h) z = prv h z"
  by (simp_all add: link_simps)

subsection \<open>The contract clients rely on\<close>

text \<open>
  \<open>kernel_list\<close> is what a client of list.h may use: the operations, an abstraction relation, and
  the law of each operation. The queue discipline of run queues and wait queues (insert before the
  head, take what follows the head, delete with re-initialisation) is derived once, inside.
\<close>

locale kernel_list =
  fixes init :: "'a \<Rightarrow> 'h \<Rightarrow> 'h"
    and add_after :: "'a \<Rightarrow> 'a \<Rightarrow> 'h \<Rightarrow> 'h"
    and add_before :: "'a \<Rightarrow> 'a \<Rightarrow> 'h \<Rightarrow> 'h"
    and del :: "'a \<Rightarrow> 'h \<Rightarrow> 'h"
    and del_init :: "'a \<Rightarrow> 'h \<Rightarrow> 'h"
    and empty :: "'a \<Rightarrow> 'h \<Rightarrow> bool"
    and succ_of :: "'a \<Rightarrow> 'h \<Rightarrow> 'a"
    and pred_of :: "'a \<Rightarrow> 'h \<Rightarrow> 'a"
    and holds :: "'h \<Rightarrow> 'a \<Rightarrow> 'a list \<Rightarrow> bool"
    and same :: "'h \<Rightarrow> 'h \<Rightarrow> 'a \<Rightarrow> bool"
  assumes init_holds: "holds (init c h) c []"
    and empty_holds: "holds h c xs \<Longrightarrow> empty c h \<longleftrightarrow> xs = []"
    and succ_holds: "holds h c (xs @ ys) \<Longrightarrow> succ_of (last (c # xs)) h = hd (ys @ [c])"
    and pred_holds: "holds h c (xs @ ys) \<Longrightarrow> pred_of (hd (ys @ [c])) h = last (c # xs)"
    and add_after_holds: "holds h c (xs @ ys) \<Longrightarrow> x \<notin> set (c # xs @ ys) \<Longrightarrow>
        holds (add_after (last (c # xs)) x h) c (xs @ x # ys)"
    and add_before_holds: "holds h c (xs @ ys) \<Longrightarrow> x \<notin> set (c # xs @ ys) \<Longrightarrow>
        holds (add_before (hd (ys @ [c])) x h) c (xs @ x # ys)"
    and del_holds: "holds h c (xs @ x # ys) \<Longrightarrow> holds (del x h) c (xs @ ys)"
    and del_init_eq: "del_init x h = init x (del x h)"
    and holds_distinct: "holds h c xs \<Longrightarrow> distinct (c # xs)"
    and holds_frame: "holds h c xs \<Longrightarrow> (\<And>z. z \<in> set (c # xs) \<Longrightarrow> same h' h z) \<Longrightarrow> holds h' c xs"
    and init_same: "z \<noteq> x \<Longrightarrow> same (init x h) h z"
    and add_before_same: "holds h c (xs @ ys) \<Longrightarrow> z \<notin> set (x # c # xs @ ys) \<Longrightarrow>
        same (add_before (hd (ys @ [c])) x h) h z"
    and del_same: "holds h c (xs @ x # ys) \<Longrightarrow> z \<notin> set (c # xs @ ys) \<Longrightarrow> same (del x h) h z"
begin

lemma enqueue_tail:
  assumes "holds h c xs" and "x \<notin> set (c # xs)"
  shows "holds (add_before c x h) c (xs @ [x])"
  using add_before_holds [of h c xs "[]" x] assms by simp

lemma front: "holds h c xs \<Longrightarrow> succ_of c h = hd (xs @ [c])"
  using succ_holds [of h c "[]" xs] by simp

lemma front_Cons: "holds h c (x # xs) \<Longrightarrow> succ_of c h = x"
  using front by fastforce

lemma rear: "holds h c xs \<Longrightarrow> pred_of c h = last (c # xs)"
  using pred_holds [of h c xs "[]"] by simp

lemma next_in: "holds h c (xs @ x # ys) \<Longrightarrow> succ_of x h = hd (ys @ [c])"
  using succ_holds [of h c "xs @ [x]" ys] by simp

lemma prev_in: "holds h c (xs @ x # ys) \<Longrightarrow> pred_of x h = last (c # xs)"
  using pred_holds [of h c xs "x # ys"] by simp

lemma del_init_holds:
  assumes "holds h c (xs @ x # ys)"
  shows "holds (del_init x h) c (xs @ ys)" and "holds (del_init x h) x []"
proof -
  have "holds (del x h) c (xs @ ys)" by (rule del_holds [OF assms])
  moreover have "x \<notin> set (c # xs @ ys)" using holds_distinct [OF assms] by auto
  ultimately show "holds (del_init x h) c (xs @ ys)"
    unfolding del_init_eq by (elim holds_frame) (metis init_same)
  show "holds (del_init x h) x []" unfolding del_init_eq by (rule init_holds)
qed

lemma enqueue_others:
  assumes "holds h c xs" and "holds h d zs" and "set (d # zs) \<inter> set (x # c # xs) = {}"
  shows "holds (add_before c x h) d zs"
proof (rule holds_frame [OF assms(2)])
  fix z assume "z \<in> set (d # zs)"
  then have "z \<notin> set (x # c # xs)" using assms(3) by blast
  then show "same (add_before c x h) h z"
    using add_before_same [of h c xs "[]" z x] assms(1) by simp
qed

lemma del_init_others:
  assumes "holds h c (xs @ x # ys)" and "holds h d zs"
    and "set (d # zs) \<inter> set (c # xs @ x # ys) = {}"
  shows "holds (del_init x h) d zs"
proof -
  have "holds (del x h) d zs"
  proof (rule holds_frame [OF assms(2)])
    fix z assume "z \<in> set (d # zs)"
    then have "z \<notin> set (c # xs @ ys)" using assms(3) by auto
    then show "same (del x h) h z" by (rule del_same [OF assms(1)])
  qed
  moreover have "x \<notin> set (d # zs)" using assms(3) by auto
  ultimately show ?thesis
    unfolding del_init_eq by (elim holds_frame) (metis init_same)
qed

text \<open>FIFO order: what was enqueued on a list comes out after what was there.\<close>

lemma fifo_round:
  assumes "holds h c (x # xs)" and "y \<notin> set (c # x # xs)"
  shows "holds (del_init (succ_of c (add_before c y h)) (add_before c y h)) c (xs @ [y])"
proof -
  have q: "holds (add_before c y h) c ([] @ x # xs @ [y])"
    using enqueue_tail [OF assms] by simp
  then have "succ_of c (add_before c y h) = x" by (intro front_Cons) simp
  then show ?thesis using del_init_holds(1) [OF q] by simp
qed

end

interpretation ll: kernel_list list_init list_add_after list_add_before list_del list_del_init
  list_empty list_next list_prev dlist "\<lambda>h' h z. nxt h' z = nxt h z \<and> prv h' z = prv h z"
proof (unfold_locales, goal_cases)
  case 1 show ?case by (rule list_init_dlist)
next
  case 2 then show ?case by (rule list_empty_iff)
next
  case 3 then show ?case by (rule list_next_dlist)
next
  case 4 then show ?case by (rule list_prev_dlist)
next
  case 5 then show ?case by (rule list_add_after_dlist)
next
  case 6 then show ?case by (rule list_add_before_dlist)
next
  case 7 then show ?case by (rule list_del_dlist)
next
  case 8 show ?case by (simp add: list_del_init_def)
next
  case 9 then show ?case by (simp add: dlist_def)
next
  case 10 then show ?case by (rule dlist_frame)
next
  case 11 then show ?case by (simp add: list_init_frame)
next
  case 12 then show ?case by (intro conjI list_add_before_frame)
next
  case 13 then show ?case by (intro conjI list_del_frame)
qed

end
