(* ===== verification/Phys_Page.thy ===== *)
theory Phys_Page
  imports Kernel_List
begin

section \<open>Page descriptors and the state of a list-based physical memory manager\<close>

text \<open>
  kern/mm/memlayout.h and kern/mm/pmm.h. A \<open>struct Page *\<close> is the index of the descriptor in the
  array \<open>pages\<close>; pointer comparison and pointer arithmetic are those of the indices. The members
  \<open>pra_page_link\<close> and \<open>pra_vaddr\<close> are never used by the allocators and are left out. \<open>page_link\<close> is
  the address \<open>Page_link p\<close> in the link maps of \<open>Kernel_List\<close>.
\<close>

record Page =
  ref :: int
  flags :: "64 word"
  property :: nat  \<comment> \<open>\<open>unsigned int\<close>: stores go through \<open>u32\<close>\<close>

datatype pmm_le = Free_list | Page_link nat

fun le2page :: "pmm_le \<Rightarrow> nat" where
  "le2page (Page_link p) = p"

record pmm =
  pages :: "nat \<Rightarrow> Page"
  links :: "pmm_le links"
  nr_free :: nat  \<comment> \<open>\<open>unsigned int\<close>\<close>

definition PG_reserved :: nat where "PG_reserved = 0"
definition PG_property :: nat where "PG_property = 1"

definition upd_page :: "nat \<Rightarrow> (Page \<Rightarrow> Page) \<Rightarrow> pmm \<Rightarrow> pmm" where
  "upd_page p f s = s\<lparr>pages := (pages s)(p := f (pages s p))\<rparr>"

definition SetPageReserved :: "nat \<Rightarrow> pmm \<Rightarrow> pmm" where
  "SetPageReserved p = upd_page p (\<lambda>d. d\<lparr>flags := set_bit PG_reserved (flags d)\<rparr>)"

definition PageReserved :: "nat \<Rightarrow> pmm \<Rightarrow> bool" where
  "PageReserved p s = bit (flags (pages s p)) PG_reserved"

definition SetPageProperty :: "nat \<Rightarrow> pmm \<Rightarrow> pmm" where
  "SetPageProperty p = upd_page p (\<lambda>d. d\<lparr>flags := set_bit PG_property (flags d)\<rparr>)"

definition ClearPageProperty :: "nat \<Rightarrow> pmm \<Rightarrow> pmm" where
  "ClearPageProperty p = upd_page p (\<lambda>d. d\<lparr>flags := unset_bit PG_property (flags d)\<rparr>)"

definition PageProperty :: "nat \<Rightarrow> pmm \<Rightarrow> bool" where
  "PageProperty p s = bit (flags (pages s p)) PG_property"

definition set_page_ref :: "nat \<Rightarrow> int \<Rightarrow> pmm \<Rightarrow> pmm" where
  "set_page_ref p v = upd_page p (\<lambda>d. d\<lparr>ref := v\<rparr>)"

definition page_ref :: "nat \<Rightarrow> pmm \<Rightarrow> int" where
  "page_ref p s = ref (pages s p)"

definition page_ref_inc :: "nat \<Rightarrow> pmm \<Rightarrow> int \<times> pmm" where
  "page_ref_inc p s =
     (let s1 = upd_page p (\<lambda>d. d\<lparr>ref := ref d + 1\<rparr>) s in (page_ref p s1, s1))"

definition page_ref_dec :: "nat \<Rightarrow> pmm \<Rightarrow> int \<times> pmm" where
  "page_ref_dec p s =
     (let s1 = upd_page p (\<lambda>d. d\<lparr>ref := ref d - 1\<rparr>) s in (page_ref p s1, s1))"

definition set_property :: "nat \<Rightarrow> nat \<Rightarrow> pmm \<Rightarrow> pmm" where
  "set_property p n = upd_page p (\<lambda>d. d\<lparr>property := u32 n\<rparr>)"

definition property_of :: "nat \<Rightarrow> pmm \<Rightarrow> nat" where
  "property_of p s = property (pages s p)"

definition upd_links :: "(pmm_le links \<Rightarrow> pmm_le links) \<Rightarrow> pmm \<Rightarrow> pmm" where
  "upd_links f s = s\<lparr>links := f (links s)\<rparr>"

named_theorems page_simps \<open>reading back page descriptors after an update\<close>

lemma page_fields [page_simps]:
  "links (upd_page p f s) = links s" "nr_free (upd_page p f s) = nr_free s"
  "pages (upd_page p f s) = (pages s)(p := f (pages s p))"
  "links (upd_links g s) = g (links s)" "nr_free (upd_links g s) = nr_free s"
  "pages (upd_links g s) = pages s"
  by (simp_all add: upd_page_def upd_links_def)

lemmas page_op_defs = SetPageReserved_def PageReserved_def SetPageProperty_def
  ClearPageProperty_def PageProperty_def set_page_ref_def set_property_def property_of_def
  PG_reserved_def PG_property_def

lemma page_op_fields [page_simps]:
  "links (SetPageProperty p s) = links s" "nr_free (SetPageProperty p s) = nr_free s"
  "links (ClearPageProperty p s) = links s" "nr_free (ClearPageProperty p s) = nr_free s"
  "links (set_property p n s) = links s" "nr_free (set_property p n s) = nr_free s"
  "links (set_page_ref p v s) = links s" "nr_free (set_page_ref p v s) = nr_free s"
  by (simp_all add: page_op_defs page_fields)

lemma property_of_simps [page_simps]:
  "property_of q (set_property p n s) = (if q = p then u32 n else property_of q s)"
  "property_of q (SetPageProperty p s) = property_of q s"
  "property_of q (ClearPageProperty p s) = property_of q s"
  "property_of q (set_page_ref p v s) = property_of q s"
  "property_of q (upd_links g s) = property_of q s"
  "property_of q (s\<lparr>nr_free := m\<rparr>) = property_of q s"
  "property_of q (s\<lparr>links := h\<rparr>) = property_of q s"
  by (simp_all add: page_op_defs page_fields)

lemma PageProperty_simps [page_simps]:
  "PageProperty q (set_property p n s) = PageProperty q s"
  "PageProperty q (SetPageProperty p s) \<longleftrightarrow> q = p \<or> PageProperty q s"
  "PageProperty q (ClearPageProperty p s) \<longleftrightarrow> q \<noteq> p \<and> PageProperty q s"
  "PageProperty q (set_page_ref p v s) = PageProperty q s"
  "PageProperty q (upd_links g s) = PageProperty q s"
  "PageProperty q (s\<lparr>nr_free := m\<rparr>) = PageProperty q s"
  "PageProperty q (s\<lparr>links := h\<rparr>) = PageProperty q s"
  by (auto simp: page_op_defs page_fields bit_simps)

lemma PageReserved_simps [page_simps]:
  "PageReserved q (set_property p n s) = PageReserved q s"
  "PageReserved q (SetPageProperty p s) = PageReserved q s"
  "PageReserved q (ClearPageProperty p s) = PageReserved q s"
  "PageReserved q (set_page_ref p v s) = PageReserved q s"
  "PageReserved q (upd_links g s) = PageReserved q s"
  "PageReserved q (s\<lparr>nr_free := m\<rparr>) = PageReserved q s"
  "PageReserved q (s\<lparr>links := h\<rparr>) = PageReserved q s"
  by (auto simp: page_op_defs page_fields bit_simps)

end
