(* ===== verification/Pmm_Manager.thy ===== *)
theory Pmm_Manager
  imports Phys_Page
begin

section \<open>The contract of a physical memory manager (kern/mm/pmm.h)\<close>

text \<open>
  \<open>struct pmm_manager\<close> is the interface behind \<open>alloc_pages\<close> and \<open>free_pages\<close>. A manager is specified
  by the set of free pages it represents: \<open>rep s F\<close>. The client's view is a run of allocations and
  releases in which the client keeps the blocks it holds and releases only those.
\<close>

definition block :: "nat \<times> nat \<Rightarrow> nat set" where
  "block b = {fst b..<fst b + snd b}"

inductive pmm_run ::
  "(nat \<Rightarrow> 's \<Rightarrow> (nat option \<times> 's) kresult) \<Rightarrow> (nat \<Rightarrow> nat \<Rightarrow> 's \<Rightarrow> 's kresult) \<Rightarrow> (nat \<Rightarrow> 's \<Rightarrow> bool) \<Rightarrow>
   's \<Rightarrow> 's \<Rightarrow> (nat \<times> nat) list \<Rightarrow> bool"
  for alloc free releasable s0
where
  run_start: "pmm_run alloc free releasable s0 s0 []"
| run_alloc: "pmm_run alloc free releasable s0 s held \<Longrightarrow> 0 < n \<Longrightarrow> alloc n s = Some (r, s') \<Longrightarrow>
    pmm_run alloc free releasable s0 s' (case r of None \<Rightarrow> held | Some p \<Rightarrow> (p, n) # held)"
| run_free: "pmm_run alloc free releasable s0 s (as @ (p, n) # bs) \<Longrightarrow> releasable p s \<Longrightarrow>
    free p n s = Some s' \<Longrightarrow> pmm_run alloc free releasable s0 s' (as @ bs)"

definition held_set :: "(nat \<times> nat) list \<Rightarrow> nat set" where
  "held_set held = (\<Union>b\<in>set held. block b)"

fun held_disjoint :: "(nat \<times> nat) list \<Rightarrow> bool" where
  "held_disjoint [] \<longleftrightarrow> True"
| "held_disjoint (b # bs) \<longleftrightarrow> 0 < snd b \<and> block b \<inter> held_set bs = {} \<and> held_disjoint bs"

lemma held_set_simps [simp]:
  "held_set [] = {}" "held_set (b # bs) = block b \<union> held_set bs"
  "held_set (as @ bs) = held_set as \<union> held_set bs"
  by (auto simp: held_set_def)

lemma held_disjoint_append:
  "held_disjoint (as @ bs) \<longleftrightarrow> held_disjoint as \<and> held_disjoint bs \<and> held_set as \<inter> held_set bs = {}"
  by (induction as) auto

lemma finite_held_set [simp]: "finite (held_set held)"
  by (induction held) (auto simp: block_def)

lemma card_held_set: "held_disjoint held \<Longrightarrow> card (held_set held) = sum_list (map snd held)"
  by (induction held) (auto simp: card_Un_disjoint block_def)

locale pmm_manager =
  fixes init :: "'s \<Rightarrow> 's"
    and init_memmap :: "nat \<Rightarrow> nat \<Rightarrow> 's \<Rightarrow> 's kresult"
    and alloc_pages :: "nat \<Rightarrow> 's \<Rightarrow> (nat option \<times> 's) kresult"
    and free_pages :: "nat \<Rightarrow> nat \<Rightarrow> 's \<Rightarrow> 's kresult"
    and nr_free_pages :: "'s \<Rightarrow> nat"
    and rep :: "'s \<Rightarrow> nat set \<Rightarrow> bool"
    and reserved :: "nat \<Rightarrow> 's \<Rightarrow> bool"
    and marked :: "nat \<Rightarrow> 's \<Rightarrow> bool"
    and releasable :: "nat \<Rightarrow> 's \<Rightarrow> bool"
    and limit :: nat
  assumes init_rep: "(\<And>p. \<not> marked p s) \<Longrightarrow> rep (init s) {}"
    and memmap_rep: "rep s F \<Longrightarrow> 0 < n \<Longrightarrow> card F + n < limit \<Longrightarrow> {b..<b + n} \<inter> F = {} \<Longrightarrow>
        (\<And>q. q \<in> {b..<b + n} \<Longrightarrow> reserved q s) \<Longrightarrow> releasable b s \<Longrightarrow>
        b + n \<notin> F \<Longrightarrow> (\<And>q. Suc q = b \<Longrightarrow> q \<notin> F) \<Longrightarrow>
        \<exists>t. init_memmap b n s = Some t \<and> rep t (F \<union> {b..<b + n})"
    and rep_finite: "rep s F \<Longrightarrow> finite F"
    and rep_count: "rep s F \<Longrightarrow> nr_free_pages s = card F"
    and rep_unreserved: "rep s F \<Longrightarrow> q \<in> F \<Longrightarrow> \<not> reserved q s"
    and alloc_fails: "rep s F \<Longrightarrow> 0 < n \<Longrightarrow> (\<And>p. \<not> {p..<p + n} \<subseteq> F) \<Longrightarrow> alloc_pages n s = Some (None, s)"
    and alloc_succeeds: "rep s F \<Longrightarrow> 0 < n \<Longrightarrow> {p..<p + n} \<subseteq> F \<Longrightarrow>
        \<exists>b t. alloc_pages n s = Some (Some b, t) \<and> {b..<b + n} \<subseteq> F \<and> rep t (F - {b..<b + n}) \<and>
          (\<forall>q. reserved q t \<longrightarrow> reserved q s)"
    and free_rep: "rep s F \<Longrightarrow> 0 < n \<Longrightarrow> card F + n < limit \<Longrightarrow> {b..<b + n} \<inter> F = {} \<Longrightarrow>
        (\<And>q. q \<in> {b..<b + n} \<Longrightarrow> \<not> reserved q s) \<Longrightarrow> releasable b s \<Longrightarrow>
        \<exists>t. free_pages b n s = Some t \<and> rep t (F \<union> {b..<b + n}) \<and> (\<forall>q. reserved q t \<longrightarrow> reserved q s)"
begin

lemma alloc_total: "rep s F \<Longrightarrow> 0 < n \<Longrightarrow> alloc_pages n s \<noteq> None"
  using alloc_fails alloc_succeeds by (metis option.distinct(1))

lemma alloc_cases:
  assumes "rep s F" "0 < n" "alloc_pages n s = Some (r, t)"
  obtains "r = None" "t = s" "\<And>p. \<not> {p..<p + n} \<subseteq> F"
  | b where "r = Some b" "{b..<b + n} \<subseteq> F" "rep t (F - {b..<b + n})" "\<And>q. reserved q t \<Longrightarrow> reserved q s"
proof (cases "\<exists>p. {p..<p + n} \<subseteq> F")
  case True
  then obtain p where "{p..<p + n} \<subseteq> F" by blast
  then show ?thesis using alloc_succeeds [of s F n p] assms that(2) by auto
next
  case False
  then show ?thesis using alloc_fails [of s F n] assms that(1) by auto
qed

lemma alloc_free_round:
  assumes "rep s F" "0 < n" "card F < limit" "alloc_pages n s = Some (Some b, t)" "releasable b t"
  shows "\<exists>u. free_pages b n t = Some u \<and> rep u F"
  using assms(1,2,4)
proof (cases rule: alloc_cases)
  case (2 c)
  have fin: "finite F" by (rule rep_finite [OF assms(1)])
  have "card (F - {b..<b + n}) + n = card F"
    using 2 fin card_mono [OF fin 2(2)] by (simp add: card_Diff_subset)
  moreover have "F - {b..<b + n} \<union> {b..<b + n} = F" using 2 by auto
  moreover have "q \<in> {b..<b + n} \<Longrightarrow> \<not> reserved q t" for q
    using 2 rep_unreserved [OF assms(1)] by blast
  ultimately show ?thesis
    using free_rep [of t "F - {b..<b + n}" n b] 2 assms by auto
qed simp

lemma run_inv:
  assumes "pmm_run alloc_pages free_pages releasable s0 s held" and "rep s0 F0" "card F0 < limit"
  shows "\<exists>F. rep s F \<and> F \<union> held_set held = F0 \<and> F \<inter> held_set held = {} \<and> held_disjoint held \<and>
    (\<forall>q\<in>held_set held. \<not> reserved q s)"
  using assms
proof induction
  case run_start
  then show ?case by auto
next
  case (run_alloc s held n r t)
  then obtain F where F: "rep s F" "F \<union> held_set held = F0" "F \<inter> held_set held = {}" "held_disjoint held"
    "\<forall>q\<in>held_set held. \<not> reserved q s" by blast
  from F(1) run_alloc.hyps(2,3) show ?case
  proof (cases rule: alloc_cases)
    case 1
    then show ?thesis using F by auto
  next
    case (2 b)
    then have "F - block (b, n) \<union> held_set ((b, n) # held) = F0" using F(2) by (auto simp: block_def)
    moreover have "\<not> reserved q t" if "q \<in> held_set ((b, n) # held)" for q
      using that 2(2,4) F(5) rep_unreserved [OF F(1), of q] by (auto simp: block_def)
    moreover have "block (b, n) \<inter> held_set held = {}" using 2(2) F(3) by (auto simp: block_def)
    ultimately show ?thesis
      using 2(1,3) F(3,4) run_alloc.hyps(2)
      by (intro exI [of _ "F - {b..<b + n}"]) (auto simp: block_def)
  qed
next
  case (run_free s as p n bs t)
  then obtain F where F: "rep s F" "F \<union> held_set (as @ (p, n) # bs) = F0"
    "F \<inter> held_set (as @ (p, n) # bs) = {}" "held_disjoint (as @ (p, n) # bs)"
    "\<forall>q\<in>held_set (as @ (p, n) # bs). \<not> reserved q s" by blast
  have d: "{p..<p + n} \<inter> F = {}" using F(3) by (auto simp: block_def)
  have "card (F \<union> {p..<p + n}) \<le> card F0"
    using F(2) rep_finite [OF assms(2)] by (intro card_mono) (auto simp: block_def)
  then have "card F + n < limit"
    using d rep_finite [OF F(1)] assms(3) by (simp add: card_Un_disjoint Int_commute)
  then obtain u where u: "free_pages p n s = Some u" "rep u (F \<union> {p..<p + n})" "\<forall>q. reserved q u \<longrightarrow> reserved q s"
    using free_rep [OF F(1) _ _ d] F(4,5) run_free.hyps(2) by (auto simp: held_disjoint_append block_def)
  moreover have "F \<union> {p..<p + n} \<union> held_set (as @ bs) = F0" using F(2) by (auto simp: block_def)
  moreover have "(F \<union> {p..<p + n}) \<inter> held_set (as @ bs) = {}"
    using F(3,4) by (auto simp: held_disjoint_append block_def)
  ultimately show ?case
    using run_free.hyps(3) F(4,5) by (intro exI [of _ "F \<union> {p..<p + n}"]) (auto simp: held_disjoint_append)
qed

text \<open>No page is handed out twice, none is lost, and a release of a held block returns.\<close>

lemma run_safe:
  assumes "pmm_run alloc_pages free_pages releasable s0 s held" and "rep s0 F0" "card F0 < limit"
  shows "held_disjoint held" and "held_set held \<subseteq> F0"
    and "nr_free_pages s + sum_list (map snd held) = nr_free_pages s0"
    and "(p, n) \<in> set held \<Longrightarrow> releasable p s \<Longrightarrow> free_pages p n s \<noteq> None"
proof -
  obtain F where F: "rep s F" "F \<union> held_set held = F0" "F \<inter> held_set held = {}" "held_disjoint held"
    "\<forall>q\<in>held_set held. \<not> reserved q s" using run_inv [OF assms] by blast
  show "held_disjoint held" "held_set held \<subseteq> F0" using F by auto
  have "card F0 = card F + card (held_set held)"
    using F(2,3) rep_finite [OF F(1)] by (metis card_Un_disjoint finite_held_set)
  then show "nr_free_pages s + sum_list (map snd held) = nr_free_pages s0"
    using F assms(2) by (simp add: rep_count card_held_set)
  show "free_pages p n s \<noteq> None" if m: "(p, n) \<in> set held" and r: "releasable p s"
  proof -
    have sub: "{p..<p + n} \<subseteq> held_set held" using m by (force simp: held_set_def block_def)
    have "0 < n" using F(4) m by (auto simp: in_set_conv_decomp held_disjoint_append)
    moreover have d: "{p..<p + n} \<inter> F = {}" using sub F(3) by auto
    moreover have "card (F \<union> {p..<p + n}) \<le> card F0"
      using F(2) sub rep_finite [OF assms(2)] by (intro card_mono) auto
    then have "card F + n < limit"
      using d rep_finite [OF F(1)] assms(3) by (simp add: card_Un_disjoint Int_commute)
    ultimately show ?thesis using free_rep [OF F(1), of n p] F(5) sub r by blast
  qed
qed

end

end
