(* ===== verification/First_Fit.thy ===== *)
theory First_Fit
  imports Pmm_Manager
begin

section \<open>First-fit physical memory manager (kern/mm/default_pmm.c)\<close>

text \<open>
  The allocator of the final kernel. The free list is the pointer structure of list.h, so the loops
  that walk it are written as loops over links and may run forever on a damaged list.
\<close>

subsection \<open>Operations\<close>

definition default_init :: "pmm \<Rightarrow> pmm" where
  "default_init s = (upd_links (list_init Free_list) s)\<lparr>nr_free := 0\<rparr>"

text \<open>The loop \<open>for (; p != base + n; p ++)\<close> of \<open>default_init_memmap\<close>.\<close>

fun init_pages_loop :: "nat \<Rightarrow> nat \<Rightarrow> pmm \<Rightarrow> pmm kresult" where
  "init_pages_loop p 0 s = Some s"
| "init_pages_loop p (Suc k) s = do {
     kassert (PageReserved p s);
     let s = upd_page p (\<lambda>d. d\<lparr>flags := 0, property := 0\<rparr>) s;
     let s = set_page_ref p 0 s;
     init_pages_loop (Suc p) k s
   }"

text \<open>
  The insertion loop shared by \<open>default_init_memmap\<close> and \<open>default_free_pages\<close>:
  \<open>while ((le = list_next(le)) != &free_list)\<close> with its two branches. The second branch has no
  \<open>break\<close>.
\<close>

partial_function (option) insert_loop ::
  "nat \<Rightarrow> pmm_le \<Rightarrow> pmm_le links \<Rightarrow> pmm_le links kresult" where
  "insert_loop base le h =
     (let le = list_next le h in
      if le = Free_list then Some h
      else if base < le2page le then Some (list_add_before le (Page_link base) h)
      else if list_next le h = Free_list
        then insert_loop base le (list_add le (Page_link base) h)
      else insert_loop base le h)"

definition link_block :: "nat \<Rightarrow> pmm_le links \<Rightarrow> pmm_le links kresult" where
  "link_block base h =
     (if list_empty Free_list h then Some (list_add Free_list (Page_link base) h)
      else insert_loop base Free_list h)"

definition default_init_memmap :: "nat \<Rightarrow> nat \<Rightarrow> pmm \<Rightarrow> pmm kresult" where
  "default_init_memmap base n s = do {
     kassert (n > 0);
     s \<leftarrow> init_pages_loop base n s;
     let s = set_property base n s;
     let s = SetPageProperty base s;
     let s = s\<lparr>nr_free := u32 (nr_free s + n)\<rparr>;
     h \<leftarrow> link_block base (links s);
     Some (s\<lparr>links := h\<rparr>)
   }"

text \<open>The search loop of \<open>default_alloc_pages\<close>; \<open>None\<close> inside is the C null pointer.\<close>

partial_function (option) first_fit_loop ::
  "nat \<Rightarrow> pmm_le \<Rightarrow> pmm \<Rightarrow> nat option kresult" where
  "first_fit_loop n le s =
     (let le = list_next le (links s) in
      if le = Free_list then Some None
      else if n \<le> property_of (le2page le) s then Some (Some (le2page le))
      else first_fit_loop n le s)"

text \<open>The block \<open>if (page != NULL) { ... }\<close>: unlink the block and put its tail back.\<close>

definition take_block :: "nat \<Rightarrow> nat \<Rightarrow> pmm \<Rightarrow> pmm" where
  "take_block n page s =
     (let prev = list_prev (Page_link page) (links s);
          s = upd_links (list_del (Page_link page)) s;
          s = (if n < property_of page s
               then let p = page + n;
                        s = set_property p (property_of page s - n) s;
                        s = SetPageProperty p s
                    in upd_links (list_add prev (Page_link p)) s
               else s);
          s = s\<lparr>nr_free := sub32 (nr_free s) n\<rparr>
      in ClearPageProperty page s)"

definition default_alloc_pages :: "nat \<Rightarrow> pmm \<Rightarrow> (nat option \<times> pmm) kresult" where
  "default_alloc_pages n s = do {
     kassert (n > 0);
     if n > nr_free s then Some (None, s)
     else do {
       page \<leftarrow> first_fit_loop n Free_list s;
       case page of
         None \<Rightarrow> Some (None, s)
       | Some page \<Rightarrow> Some (Some page, take_block n page s)
     }
   }"

fun free_pages_loop :: "nat \<Rightarrow> nat \<Rightarrow> pmm \<Rightarrow> pmm kresult" where
  "free_pages_loop p 0 s = Some s"
| "free_pages_loop p (Suc k) s = do {
     kassert (\<not> PageReserved p s \<and> \<not> PageProperty p s);
     let s = upd_page p (\<lambda>d. d\<lparr>flags := 0\<rparr>) s;
     let s = set_page_ref p 0 s;
     free_pages_loop (Suc p) k s
   }"

text \<open>Merging with the block before; the result is the head of the block \<open>base\<close> now lies in.\<close>

definition merge_prev :: "nat \<Rightarrow> pmm \<Rightarrow> nat \<times> pmm" where
  "merge_prev base s =
     (let le = list_prev (Page_link base) (links s) in
      if le \<noteq> Free_list
      then let p = le2page le in
           if p + property_of p s = base
           then let s = set_property p (property_of p s + property_of base s) s;
                    s = ClearPageProperty base s;
                    s = upd_links (list_del (Page_link base)) s
                in (p, s)
           else (base, s)
      else (base, s))"

definition merge_next :: "nat \<Rightarrow> pmm \<Rightarrow> pmm" where
  "merge_next base s =
     (let le = list_next (Page_link base) (links s) in
      if le \<noteq> Free_list
      then let p = le2page le in
           if base + property_of base s = p
           then let s = set_property base (property_of base s + property_of p s) s;
                    s = ClearPageProperty p s
                in upd_links (list_del (Page_link p)) s
           else s
      else s)"

definition default_free_pages :: "nat \<Rightarrow> nat \<Rightarrow> pmm \<Rightarrow> pmm kresult" where
  "default_free_pages base n s = do {
     kassert (n > 0);
     s \<leftarrow> free_pages_loop base n s;
     let s = set_property base n s;
     let s = SetPageProperty base s;
     let s = s\<lparr>nr_free := u32 (nr_free s + n)\<rparr>;
     h \<leftarrow> link_block base (links s);
     let s = s\<lparr>links := h\<rparr>;
     let (base, s) = merge_prev base s;
     Some (merge_next base s)
   }"

definition default_nr_free_pages :: "pmm \<Rightarrow> nat" where
  "default_nr_free_pages s = nr_free s"


subsection \<open>Invariant of the free list\<close>

text \<open>
  \<open>pmm_inv s xs\<close>: the free list holds the blocks headed by \<open>xs\<close>, in address order and without
  overlap; their heads and only they carry \<open>PG_property\<close>; \<open>nr_free\<close> counts their pages.
  \<open>free_set\<close> is the set of free pages, \<open>coalesced\<close> says that no two blocks are adjacent.
\<close>

definition free_set :: "pmm \<Rightarrow> nat list \<Rightarrow> nat set" where
  "free_set s xs = (\<Union>p\<in>set xs. {p..<p + property_of p s})"

definition coalesced :: "pmm \<Rightarrow> nat list \<Rightarrow> bool" where
  "coalesced s xs \<longleftrightarrow> sorted_wrt (\<lambda>p q. p + property_of p s < q) xs"

definition pmm_inv :: "pmm \<Rightarrow> nat list \<Rightarrow> bool" where
  "pmm_inv s xs \<longleftrightarrow>
     dlist (links s) Free_list (map Page_link xs) \<and>
     sorted_wrt (\<lambda>p q. p + property_of p s \<le> q) xs \<and>
     (\<forall>p\<in>set xs. 0 < property_of p s) \<and>
     (\<forall>p. PageProperty p s \<longleftrightarrow> p \<in> set xs) \<and>
     nr_free s = sum_list (map (\<lambda>p. property_of p s) xs) \<and>
     nr_free s < 2 ^ 32"

lemma pmm_inv_parts:
  assumes "pmm_inv s xs"
  shows "dlist (links s) Free_list (map Page_link xs)"
    "sorted_wrt (\<lambda>p q. p + property_of p s \<le> q) xs" "p \<in> set xs \<Longrightarrow> 0 < property_of p s"
    "PageProperty p s \<longleftrightarrow> p \<in> set xs" "nr_free s = sum_list (map (\<lambda>p. property_of p s) xs)"
    "nr_free s < 2 ^ 32"
  using assms by (auto simp: pmm_inv_def)

lemma pmm_inv_property_le:
  "pmm_inv s xs \<Longrightarrow> p \<in> set xs \<Longrightarrow> property_of p s \<le> nr_free s"
  using member_le_sum_list [of "property_of p s" "map (\<lambda>p. property_of p s) xs"]
  by (auto simp: pmm_inv_def)

lemma map_Page_link_eq: "map Page_link xs = map Page_link ys \<longleftrightarrow> xs = ys"
  by (simp add: inj_map_eq_map inj_def)

lemma last_map_Page_link:
  "last (Free_list # map Page_link xs) = (if xs = [] then Free_list else Page_link (last xs))"
  by (simp add: last_map)

subsection \<open>Allocation\<close>

lemma first_fit_loop_eq:
  assumes "dlist (links s) Free_list (map Page_link (as @ bs))"
  shows "first_fit_loop n (last (Free_list # map Page_link as)) s =
         Some (find (\<lambda>p. n \<le> property_of p s) bs)"
  using assms
proof (induction bs arbitrary: as)
  case Nil
  then show ?case
    using ll.succ_holds [of "links s" Free_list "map Page_link as" "[]"]
    by (subst first_fit_loop.simps) simp
next
  case (Cons b bs)
  have "list_next (last (Free_list # map Page_link as)) (links s) = Page_link b"
    using ll.succ_holds [of "links s" Free_list "map Page_link as" "map Page_link (b # bs)"] Cons.prems
    by simp
  moreover have "first_fit_loop n (Page_link b) s = Some (find (\<lambda>p. n \<le> property_of p s) bs)"
    using Cons.IH [of "as @ [b]"] Cons.prems by simp
  ultimately show ?case by (subst first_fit_loop.simps) simp
qed

lemma sorted_wrt_le_distinct:
  "sorted_wrt (\<lambda>p q. p + f p \<le> q) xs \<Longrightarrow> (\<And>p. p \<in> set xs \<Longrightarrow> 0 < f p) \<Longrightarrow> distinct (xs :: nat list)"
  by (induction xs) fastforce+

lemma take_block_links:
  assumes d: "dlist (links s) Free_list (map Page_link (as @ p # bs))"
    and new: "n < property_of p s \<Longrightarrow> p + n \<notin> set (as @ bs)"
  shows "dlist (links (take_block n p s)) Free_list
           (map Page_link (as @ (if n < property_of p s then [p + n] else []) @ bs))"
proof -
  let ?m = "map Page_link"
  have pr: "list_prev (Page_link p) (links s) = last (Free_list # ?m as)"
    using ll.prev_in [of "links s" Free_list "?m as" "Page_link p" "?m bs"] d by simp
  have del: "dlist (list_del (Page_link p) (links s)) Free_list (?m as @ ?m bs)"
    using ll.del_holds [of "links s" Free_list "?m as" "Page_link p" "?m bs"] d by simp
  show ?thesis
  proof (cases "n < property_of p s")
    case True
    then have "dlist (list_add (last (Free_list # ?m as)) (Page_link (p + n))
        (list_del (Page_link p) (links s))) Free_list (?m as @ Page_link (p + n) # ?m bs)"
      unfolding list_add_def using new by (intro ll.add_after_holds [OF del]) auto
    then show ?thesis using True by (simp add: take_block_def Let_def page_simps pr)
  next
    case False
    then show ?thesis using del by (simp add: take_block_def Let_def page_simps)
  qed
qed

lemma pmm_inv_split:
  assumes "pmm_inv s (as @ p # bs)"
  shows "a \<in> set as \<Longrightarrow> a + property_of a s \<le> p" "b \<in> set bs \<Longrightarrow> p + property_of p s \<le> b"
    "sorted_wrt (\<lambda>p q. p + property_of p s \<le> q) (as @ bs)"
    "q \<in> set (as @ p # bs) \<Longrightarrow> 0 < property_of q s"
    "p \<notin> set (as @ bs)" "property_of p s < 2 ^ 32"
    "0 < n \<Longrightarrow> n < property_of p s \<Longrightarrow> p + n \<notin> set (as @ bs)"
proof -
  note parts = pmm_inv_parts [OF assms]
  show le: "a + property_of a s \<le> p" if "a \<in> set as" for a
    using parts(2) that by (auto simp: sorted_wrt_append)
  show ge: "p + property_of p s \<le> b" if "b \<in> set bs" for b
    using parts(2) that by (auto simp: sorted_wrt_append)
  show "sorted_wrt (\<lambda>p q. p + property_of p s \<le> q) (as @ bs)"
    using parts(2) by (auto simp: sorted_wrt_append)
  show pos: "0 < property_of q s" if "q \<in> set (as @ p # bs)" for q
    using parts(3) that by blast
  show "property_of p s < 2 ^ 32"
    using pmm_inv_property_le [OF assms, of p] parts(6) by simp
  show "p \<notin> set (as @ bs)" using le ge pos by fastforce
  show "p + n \<notin> set (as @ bs)" if "0 < n" "n < property_of p s"
    using le ge pos that by fastforce
qed

lemma take_block_fields:
  assumes "property_of p s < 2 ^ 32"
  shows "property_of q (take_block n p s) =
      (if n < property_of p s \<and> q = p + n then property_of p s - n else property_of q s)"
    "PageProperty q (take_block n p s) \<longleftrightarrow>
      q \<noteq> p \<and> (n < property_of p s \<and> q = p + n \<or> PageProperty q s)"
    "nr_free (take_block n p s) = sub32 (nr_free s) n"
    "PageReserved q (take_block n p s) = PageReserved q s"
  using assms by (auto simp: take_block_def Let_def page_simps)

lemma sorted_wrt_replace:
  "sorted_wrt P (as @ p # bs) \<Longrightarrow> (\<And>a b. a \<in> set (as @ bs) \<Longrightarrow> P a b \<Longrightarrow> Q a b) \<Longrightarrow>
   (\<And>a. a \<in> set as \<Longrightarrow> P a p \<Longrightarrow> Q a p') \<Longrightarrow> (\<And>b. b \<in> set bs \<Longrightarrow> P p b \<Longrightarrow> Q p' b) \<Longrightarrow>
   sorted_wrt Q (as @ p' # bs)"
  by (auto simp: sorted_wrt_append intro: sorted_wrt_mono_rel [rotated])

lemma sorted_wrt_drop_mid:
  "sorted_wrt P (as @ p # bs) \<Longrightarrow> (\<And>a b. a \<in> set (as @ bs) \<Longrightarrow> P a b \<Longrightarrow> Q a b) \<Longrightarrow>
   sorted_wrt Q (as @ bs)"
  by (auto simp: sorted_wrt_append intro: sorted_wrt_mono_rel [rotated])

definition cut_block :: "nat \<Rightarrow> pmm \<Rightarrow> nat list \<Rightarrow> nat \<Rightarrow> nat list \<Rightarrow> nat list" where
  "cut_block n s as p bs = as @ (if n < property_of p s then [p + n] else []) @ bs"

lemma take_block_old:
  assumes "pmm_inv s (as @ p # bs)" "0 < n" "q \<in> set (as @ bs)"
  shows "property_of q (take_block n p s) = property_of q s"
  using assms pmm_inv_split(6,7) [OF assms(1)] by (auto simp: take_block_fields(1))

lemma take_block_sum:
  assumes inv: "pmm_inv s (as @ p # bs)" and n: "0 < n" "n \<le> property_of p s"
  shows "sum_list (map (\<lambda>q. property_of q (take_block n p s)) (cut_block n s as p bs)) = nr_free s - n"
proof -
  have maps: "map (\<lambda>q. property_of q (take_block n p s)) as = map (\<lambda>q. property_of q s) as"
    "map (\<lambda>q. property_of q (take_block n p s)) bs = map (\<lambda>q. property_of q s) bs"
    using take_block_old [OF inv n(1)] by auto
  show ?thesis
    unfolding cut_block_def map_append sum_list_append maps
    using pmm_inv_parts(5) [OF inv] n pmm_inv_split(6) [OF inv] by (auto simp: take_block_fields(1))
qed

lemma take_block_inv:
  assumes inv: "pmm_inv s (as @ p # bs)" and n: "0 < n" "n \<le> property_of p s"
  shows "pmm_inv (take_block n p s) (cut_block n s as p bs)"
proof -
  note sp = pmm_inv_split [OF inv] and parts = pmm_inv_parts [OF inv]
  have srt: "sorted_wrt (\<lambda>u v. u + property_of u (take_block n p s) \<le> v) (cut_block n s as p bs)"
  proof (cases "n < property_of p s")
    case True
    have "sorted_wrt (\<lambda>u v. u + property_of u (take_block n p s) \<le> v) (as @ (p + n) # bs)"
      using True n sp(6) take_block_old [OF inv n(1)]
      by (intro sorted_wrt_replace [OF parts(2)]) (auto simp: take_block_fields(1))
    then show ?thesis using True by (simp add: cut_block_def)
  next
    case False
    have "sorted_wrt (\<lambda>u v. u + property_of u (take_block n p s) \<le> v) (as @ bs)"
      using take_block_old [OF inv n(1)] by (intro sorted_wrt_drop_mid [OF parts(2)]) auto
    then show ?thesis using False by (simp add: cut_block_def)
  qed
  have "nr_free (take_block n p s) = nr_free s - n"
    using pmm_inv_property_le [OF inv, of p] n parts(6) sp(6)
    by (simp add: take_block_fields(3) sub32_id)
  moreover have "dlist (links (take_block n p s)) Free_list (map Page_link (cut_block n s as p bs))"
    unfolding cut_block_def using take_block_links [OF parts(1)] sp(7) n by blast
  moreover have "\<forall>q\<in>set (cut_block n s as p bs). 0 < property_of q (take_block n p s)"
    using sp(4,6) by (auto simp: cut_block_def take_block_fields(1))
  moreover have "\<forall>q. PageProperty q (take_block n p s) \<longleftrightarrow> q \<in> set (cut_block n s as p bs)"
    using parts(4) sp(5,6) n by (auto simp: cut_block_def take_block_fields(2))
  ultimately show ?thesis
    unfolding pmm_inv_def using srt take_block_sum [OF inv n] parts(6) by simp
qed

lemma free_set_append: "free_set s (xs @ ys) = free_set s xs \<union> free_set s ys"
  by (auto simp: free_set_def)

lemma free_set_Cons: "free_set s (p # ys) = {p..<p + property_of p s} \<union> free_set s ys"
  by (auto simp: free_set_def)

lemma free_set_Nil: "free_set s [] = {}"
  by (simp add: free_set_def)

lemmas free_set_simps = free_set_append free_set_Cons free_set_Nil

lemma free_set_cong: "(\<And>q. q \<in> set xs \<Longrightarrow> property_of q s' = property_of q s) \<Longrightarrow> free_set s' xs = free_set s xs"
  by (simp add: free_set_def)

lemma free_set_outside:
  assumes "pmm_inv s (as @ p # bs)"
  shows "free_set s (as @ bs) \<inter> {p..<p + property_of p s} = {}"
  using pmm_inv_split(1,2) [OF assms] by (fastforce simp: free_set_def)

lemma take_block_free_set:
  assumes inv: "pmm_inv s (as @ p # bs)" and n: "0 < n" "n \<le> property_of p s"
  shows "free_set (take_block n p s) (cut_block n s as p bs) = free_set s (as @ p # bs) - {p..<p + n}"
proof -
  have old: "free_set (take_block n p s) as = free_set s as" "free_set (take_block n p s) bs = free_set s bs"
    using take_block_old [OF inv n(1)] by (auto intro!: free_set_cong)
  have mid: "free_set (take_block n p s) (if n < property_of p s then [p + n] else []) =
      {p..<p + property_of p s} - {p..<p + n}"
    using n pmm_inv_split(6) [OF inv] by (auto simp: free_set_simps take_block_fields(1))
  have "{p..<p + n} \<subseteq> {p..<p + property_of p s}" using n by auto
  then have "free_set s (as @ bs) \<inter> {p..<p + n} = {}"
    using free_set_outside [OF inv] by blast
  then show ?thesis
    unfolding cut_block_def free_set_append mid old free_set_Cons by (auto simp: free_set_append)
qed

lemma take_block_coalesced:
  assumes inv: "pmm_inv s (as @ p # bs)" and n: "0 < n" "n \<le> property_of p s"
    and c: "coalesced s (as @ p # bs)"
  shows "coalesced (take_block n p s) (cut_block n s as p bs)"
proof (cases "n < property_of p s")
  case True
  have "sorted_wrt (\<lambda>u v. u + property_of u (take_block n p s) < v) (as @ (p + n) # bs)"
    using True n pmm_inv_split(6) [OF inv] take_block_old [OF inv n(1)]
    by (intro sorted_wrt_replace [OF c [unfolded coalesced_def]]) (auto simp: take_block_fields(1))
  then show ?thesis using True by (simp add: cut_block_def coalesced_def)
next
  case False
  have "sorted_wrt (\<lambda>u v. u + property_of u (take_block n p s) < v) (as @ bs)"
    using take_block_old [OF inv n(1)]
    by (intro sorted_wrt_drop_mid [OF c [unfolded coalesced_def]]) auto
  then show ?thesis using False by (simp add: cut_block_def coalesced_def)
qed

lemma default_alloc_pages_eq:
  assumes inv: "pmm_inv s xs" and n: "0 < n"
  shows "default_alloc_pages n s =
    (case find (\<lambda>p. n \<le> property_of p s) xs of
       None \<Rightarrow> Some (None, s) | Some p \<Rightarrow> Some (Some p, take_block n p s))"
proof (cases "n > nr_free s")
  case True
  then have "find (\<lambda>p. n \<le> property_of p s) xs = None"
    using pmm_inv_property_le [OF inv] by (fastforce simp: find_None_iff)
  then show ?thesis using True n by (simp add: default_alloc_pages_def)
next
  case False
  have "first_fit_loop n Free_list s = Some (find (\<lambda>p. n \<le> property_of p s) xs)"
    using first_fit_loop_eq [of s "[]" xs n] pmm_inv_parts(1) [OF inv] by simp
  then show ?thesis using False n by (simp add: default_alloc_pages_def split: option.splits)
qed


subsection \<open>Release\<close>

lemma insert_loop_before:
  assumes "dlist h Free_list (map Page_link (as @ cs @ d # ds))"
    and "\<And>c. c \<in> set cs \<Longrightarrow> c \<le> base" and "base < d"
  shows "insert_loop base (last (Free_list # map Page_link as)) h =
         Some (list_add_before (Page_link d) (Page_link base) h)"
  using assms
proof (induction cs arbitrary: as)
  case Nil
  then have "list_next (last (Free_list # map Page_link as)) h = Page_link d"
    using ll.succ_holds [of h Free_list "map Page_link as" "map Page_link (d # ds)"] by simp
  then show ?case using Nil by (subst insert_loop.simps) simp
next
  case (Cons c cs)
  have n1: "list_next (last (Free_list # map Page_link as)) h = Page_link c"
    using ll.succ_holds [of h Free_list "map Page_link as" "map Page_link (c # cs @ d # ds)"] Cons.prems
    by simp
  have n2: "list_next (Page_link c) h \<noteq> Free_list"
    using ll.next_in [of h Free_list "map Page_link as" "Page_link c" "map Page_link (cs @ d # ds)"]
      Cons.prems(1) by (auto simp: hd_append hd_map split: if_splits)
  have "insert_loop base (last (Free_list # map Page_link (as @ [c]))) h =
      Some (list_add_before (Page_link d) (Page_link base) h)"
    using Cons.prems by (intro Cons.IH) auto
  then show ?case using n1 n2 Cons.prems(2) [of c] by (subst insert_loop.simps) auto
qed

lemma link_block_dlist:
  assumes d: "dlist h Free_list (map Page_link (as @ bs))"
    and as: "\<And>a. a \<in> set as \<Longrightarrow> a < base" and bs: "\<And>b. b \<in> set bs \<Longrightarrow> base < b"
    and nonlast: "bs \<noteq> [] \<or> as = []"
  shows "\<exists>h'. link_block base h = Some h' \<and> dlist h' Free_list (map Page_link (as @ base # bs))"
proof (cases bs)
  case Nil
  then have e: "as = []" "bs = []" using nonlast by auto
  have "dlist (list_add_after (last (Free_list # [])) (Page_link base) h) Free_list ([] @ Page_link base # [])"
    using d e by (intro ll.add_after_holds) auto
  then show ?thesis
    using e d ll.empty_holds [of h Free_list "[]"] by (simp add: link_block_def list_add_def)
next
  case (Cons b bs')
  have "\<not> list_empty Free_list h" using ll.empty_holds [OF d] Cons by simp
  moreover have "insert_loop base Free_list h = Some (list_add_before (Page_link b) (Page_link base) h)"
    using insert_loop_before [of h "[]" as b bs' base] d as bs Cons by (force simp: less_imp_le)
  moreover have "dlist (list_add_before (hd (map Page_link bs @ [Free_list])) (Page_link base) h) Free_list
      (map Page_link as @ Page_link base # map Page_link bs)"
    using d as bs by (intro ll.add_before_holds) (auto simp: image_iff)
  ultimately show ?thesis using Cons by (simp add: link_block_def)
qed

lemma free_pages_loop_eq:
  assumes "\<And>q. q \<in> {p..<p + k} \<Longrightarrow> \<not> PageReserved q s \<and> \<not> PageProperty q s"
  shows "free_pages_loop p k s =
    Some (s\<lparr>pages := (\<lambda>q. if q \<in> {p..<p + k} then (pages s q)\<lparr>flags := 0, ref := 0\<rparr> else pages s q)\<rparr>)"
  using assms
proof (induction k arbitrary: p s)
  case 0
  then show ?case by simp
next
  case (Suc k)
  let ?s = "set_page_ref p 0 (upd_page p (\<lambda>d. d\<lparr>flags := 0\<rparr>) s)"
  have ps: "pages ?s = (pages s)(p := (pages s p)\<lparr>flags := 0, ref := 0\<rparr>)"
    by (simp add: page_op_defs page_fields)
  have "free_pages_loop (Suc p) k ?s = Some (?s\<lparr>pages := (\<lambda>q. if q \<in> {Suc p..<Suc p + k}
      then (pages ?s q)\<lparr>flags := 0, ref := 0\<rparr> else pages ?s q)\<rparr>)"
  proof (rule Suc.IH)
    fix q assume "q \<in> {Suc p..<Suc p + k}"
    then show "\<not> PageReserved q ?s \<and> \<not> PageProperty q ?s"
      using Suc.prems [of q] by (simp add: PageReserved_def PageProperty_def ps)
  qed
  also have "\<dots> = Some (s\<lparr>pages := (\<lambda>q. if q \<in> {p..<p + Suc k}
      then (pages s q)\<lparr>flags := 0, ref := 0\<rparr> else pages s q)\<rparr>)"
    unfolding ps by (auto simp: fun_eq_iff set_page_ref_def upd_page_def)
  finally show ?case using Suc.prems [of p] by simp
qed

text \<open>
  Both \<open>default_init_memmap\<close> and \<open>default_free_pages\<close> mark the block and link it: from a state \<open>t\<close>
  that agrees with \<open>s\<close> outside the new block they reach a state that satisfies the invariant.
\<close>

lemma link_state:
  assumes inv: "pmm_inv s (as @ bs)" and n: "0 < n" "nr_free s + n < 2 ^ 32"
    and t: "\<And>q. q \<notin> {base..<base + n} \<Longrightarrow> property_of q t = property_of q s"
      "\<And>q. PageProperty q t = PageProperty q s" "links t = links s" "nr_free t = nr_free s"
    and as: "\<And>a. a \<in> set as \<Longrightarrow> a + property_of a s \<le> base"
    and bs: "\<And>b. b \<in> set bs \<Longrightarrow> base + n \<le> b" and nonlast: "bs \<noteq> [] \<or> as = []"
  obtains h s1 where "link_block base (links s) = Some h"
    "s1 = (SetPageProperty base (set_property base n t))\<lparr>nr_free := u32 (nr_free s + n), links := h\<rparr>"
    "pmm_inv s1 (as @ base # bs)" "property_of base s1 = n"
    "\<And>q. q \<in> set (as @ bs) \<Longrightarrow> property_of q s1 = property_of q s" "nr_free s1 = nr_free s + n"
proof -
  note parts = pmm_inv_parts [OF inv]
  have a1: "\<And>a. a \<in> set as \<Longrightarrow> a < base" using as parts(3) by fastforce
  have b1: "\<And>b. b \<in> set bs \<Longrightarrow> base < b" using bs n by fastforce
  obtain h where h: "link_block base (links s) = Some h" "dlist h Free_list (map Page_link (as @ base # bs))"
    using link_block_dlist [of "links s" as bs base] parts(1) a1 b1 nonlast by blast
  define s1 where "s1 = (SetPageProperty base (set_property base n t))\<lparr>nr_free := u32 (nr_free s + n), links := h\<rparr>"
  have pb: "property_of base s1 = n" using n by (simp add: s1_def page_simps)
  have pr: "property_of q s1 = property_of q s" if "q \<in> set (as @ bs)" for q
  proof -
    have "q \<noteq> base" "q \<notin> {base..<base + n}" using that a1 bs n by fastforce+
    then show ?thesis using t(1) by (simp add: s1_def page_simps)
  qed
  have maps: "map (\<lambda>q. property_of q s1) as = map (\<lambda>q. property_of q s) as"
    "map (\<lambda>q. property_of q s1) bs = map (\<lambda>q. property_of q s) bs"
    using pr by auto
  have "sorted_wrt (\<lambda>u v. u + property_of u s1 \<le> v) (as @ base # bs)"
    using parts(2) as bs pr pb unfolding sorted_wrt_append
    by (auto simp: sorted_wrt_append intro: sorted_wrt_mono_rel [rotated])
  moreover have "\<forall>q\<in>set (as @ base # bs). 0 < property_of q s1"
    using pr pb parts(3) n by (metis Un_iff insert_iff list.set(2) set_append)
  moreover have "\<forall>q. PageProperty q s1 \<longleftrightarrow> q \<in> set (as @ base # bs)"
    using parts(4) by (auto simp: s1_def page_simps t)
  ultimately have "pmm_inv s1 (as @ base # bs)"
    unfolding pmm_inv_def map_append list.map sum_list_append maps
    using parts(5,6) h(2) n pb by (auto simp: s1_def page_simps t)
  moreover have "nr_free s1 = nr_free s + n" using n by (simp add: s1_def)
  ultimately show ?thesis using that [OF h(1) s1_def] pr pb by blast
qed

lemma free_link_state:
  assumes inv: "pmm_inv s (as @ bs)" and n: "0 < n" "nr_free s + n < 2 ^ 32"
    and ok: "\<And>q. q \<in> {base..<base + n} \<Longrightarrow> \<not> PageReserved q s \<and> \<not> PageProperty q s"
    and as: "\<And>a. a \<in> set as \<Longrightarrow> a + property_of a s \<le> base"
    and bs: "\<And>b. b \<in> set bs \<Longrightarrow> base + n \<le> b" and nonlast: "bs \<noteq> [] \<or> as = []"
  obtains s1 where
    "default_free_pages base n s = (let (b, s2) = merge_prev base s1 in Some (merge_next b s2))"
    "pmm_inv s1 (as @ base # bs)" "property_of base s1 = n"
    "\<And>q. q \<in> set (as @ bs) \<Longrightarrow> property_of q s1 = property_of q s" "nr_free s1 = nr_free s + n"
proof -
  define t where "t = s\<lparr>pages := (\<lambda>q. if q \<in> {base..<base + n} then (pages s q)\<lparr>flags := 0, ref := 0\<rparr>
    else pages s q)\<rparr>"
  have t: "property_of q t = property_of q s" "PageProperty q t = PageProperty q s" "links t = links s"
    "nr_free t = nr_free s" for q
    using ok [of q] by (auto simp: t_def property_of_def PageProperty_def)
  obtain h s1 where h: "link_block base (links s) = Some h" and
    s1: "s1 = (SetPageProperty base (set_property base n t))\<lparr>nr_free := u32 (nr_free s + n), links := h\<rparr>"
    "pmm_inv s1 (as @ base # bs)" "property_of base s1 = n"
    "\<And>q. q \<in> set (as @ bs) \<Longrightarrow> property_of q s1 = property_of q s" "nr_free s1 = nr_free s + n"
    using link_state [OF inv n _ _ _ _ as bs nonlast, where t = t] t by metis
  have "free_pages_loop base n s = Some t"
    unfolding t_def using ok by (rule free_pages_loop_eq)
  then have "default_free_pages base n s = (let (b, s2) = merge_prev base s1 in Some (merge_next b s2))"
    using n h(1) by (simp add: default_free_pages_def Let_def page_simps t s1(1))
  then show ?thesis using that s1 by blast
qed

lemma init_pages_loop_eq:
  assumes "\<And>q. q \<in> {p..<p + k} \<Longrightarrow> PageReserved q s"
  shows "init_pages_loop p k s = Some (s\<lparr>pages := (\<lambda>q. if q \<in> {p..<p + k}
    then (pages s q)\<lparr>flags := 0, property := 0, ref := 0\<rparr> else pages s q)\<rparr>)"
  using assms
proof (induction k arbitrary: p s)
  case 0
  then show ?case by simp
next
  case (Suc k)
  let ?s = "set_page_ref p 0 (upd_page p (\<lambda>d. d\<lparr>flags := 0, property := 0\<rparr>) s)"
  have ps: "pages ?s = (pages s)(p := (pages s p)\<lparr>flags := 0, property := 0, ref := 0\<rparr>)"
    by (simp add: page_op_defs page_fields)
  have "init_pages_loop (Suc p) k ?s = Some (?s\<lparr>pages := (\<lambda>q. if q \<in> {Suc p..<Suc p + k}
      then (pages ?s q)\<lparr>flags := 0, property := 0, ref := 0\<rparr> else pages ?s q)\<rparr>)"
  proof (rule Suc.IH)
    fix q assume "q \<in> {Suc p..<Suc p + k}"
    then show "PageReserved q ?s" using Suc.prems [of q] by (simp add: PageReserved_def ps)
  qed
  also have "\<dots> = Some (s\<lparr>pages := (\<lambda>q. if q \<in> {p..<p + Suc k}
      then (pages s q)\<lparr>flags := 0, property := 0, ref := 0\<rparr> else pages s q)\<rparr>)"
    unfolding ps by (auto simp: fun_eq_iff set_page_ref_def upd_page_def)
  finally show ?case using Suc.prems [of p] by simp
qed

lemma init_memmap_state:
  assumes inv: "pmm_inv s (as @ bs)" and n: "0 < n" "nr_free s + n < 2 ^ 32"
    and ok: "\<And>q. q \<in> {base..<base + n} \<Longrightarrow> PageReserved q s \<and> \<not> PageProperty q s"
    and as: "\<And>a. a \<in> set as \<Longrightarrow> a + property_of a s \<le> base"
    and bs: "\<And>b. b \<in> set bs \<Longrightarrow> base + n \<le> b" and nonlast: "bs \<noteq> [] \<or> as = []"
  obtains s1 where "default_init_memmap base n s = Some s1"
    "pmm_inv s1 (as @ base # bs)" "property_of base s1 = n"
    "\<And>q. q \<in> set (as @ bs) \<Longrightarrow> property_of q s1 = property_of q s" "nr_free s1 = nr_free s + n"
    "\<And>q. PageReserved q s1 \<longleftrightarrow> PageReserved q s \<and> q \<notin> {base..<base + n}"
proof -
  define t where "t = s\<lparr>pages := (\<lambda>q. if q \<in> {base..<base + n}
    then (pages s q)\<lparr>flags := 0, property := 0, ref := 0\<rparr> else pages s q)\<rparr>"
  have t: "q \<notin> {base..<base + n} \<Longrightarrow> property_of q t = property_of q s" "PageProperty q t = PageProperty q s"
    "links t = links s" "nr_free t = nr_free s"
    "PageReserved q t \<longleftrightarrow> PageReserved q s \<and> q \<notin> {base..<base + n}" for q
    using ok [of q] by (auto simp: t_def property_of_def PageProperty_def PageReserved_def)
  obtain h s1 where h: "link_block base (links s) = Some h" and
    s1: "s1 = (SetPageProperty base (set_property base n t))\<lparr>nr_free := u32 (nr_free s + n), links := h\<rparr>"
    "pmm_inv s1 (as @ base # bs)" "property_of base s1 = n"
    "\<And>q. q \<in> set (as @ bs) \<Longrightarrow> property_of q s1 = property_of q s" "nr_free s1 = nr_free s + n"
    using link_state [OF inv n t(1-4) as bs nonlast] by metis
  have "init_pages_loop base n s = Some t"
    unfolding t_def using ok by (intro init_pages_loop_eq) blast
  then have "default_init_memmap base n s = Some s1"
    using n h(1) by (simp add: default_init_memmap_def Let_def page_simps t s1(1))
  moreover have "PageReserved q s1 \<longleftrightarrow> PageReserved q s \<and> q \<notin> {base..<base + n}" for q
    by (simp add: s1(1) page_simps t(5))
  ultimately show ?thesis using that s1 by blast
qed

text \<open>
  Merging with a neighbour only changes how the free pages are grouped: the pages and their number
  stay, and the list loses the head of the second block.
\<close>

lemma join_blocks:
  assumes inv: "pmm_inv s (as @ p # q # bs)" and adj: "p + property_of p s = q"
    and t: "\<And>x. property_of x t = (if x = p then property_of p s + property_of q s else property_of x s)"
      "\<And>x. PageProperty x t \<longleftrightarrow> x \<noteq> q \<and> PageProperty x s" "nr_free t = nr_free s"
      "links t = list_del (Page_link q) (links s)"
  shows "pmm_inv t (as @ p # bs)" and "free_set t (as @ p # bs) = free_set s (as @ p # q # bs)"
proof -
  note parts = pmm_inv_parts [OF inv] and sp = pmm_inv_split [OF inv]
  have sq: "b \<in> set bs \<Longrightarrow> q + property_of q s \<le> b" for b
    using pmm_inv_split(2) [of s "as @ [p]" q bs] inv by simp
  have np: "p \<notin> set as" "p \<notin> set bs" "q \<notin> set as" "q \<notin> set bs" "p \<noteq> q"
    using sp(5) pmm_inv_split(5) [of s "as @ [p]" q bs] inv by auto
  have maps: "map (\<lambda>x. property_of x t) as = map (\<lambda>x. property_of x s) as"
    "map (\<lambda>x. property_of x t) bs = map (\<lambda>x. property_of x s) bs"
    using np by (auto simp: t)
  have "dlist (links t) Free_list (map Page_link (as @ p # bs))"
    using ll.del_holds [of "links s" Free_list "map Page_link (as @ [p])" "Page_link q" "map Page_link bs"]
      parts(1) by (simp add: t)
  moreover have "sorted_wrt (\<lambda>u v. u + property_of u t \<le> v) (as @ p # bs)"
    using sp(1) sq adj np sp(3)
    by (auto simp: sorted_wrt_append t add.assoc [symmetric] intro: sorted_wrt_mono_rel [rotated])
  moreover have "\<forall>x\<in>set (as @ p # bs). 0 < property_of x t"
    using parts(3) by (auto simp: t)
  moreover have "\<forall>x. PageProperty x t \<longleftrightarrow> x \<in> set (as @ p # bs)"
    using parts(4) np by (auto simp: t)
  moreover have "nr_free t = sum_list (map (\<lambda>x. property_of x t) (as @ p # bs))"
    unfolding map_append list.map sum_list_append maps using parts(5) by (simp add: t)
  ultimately show "pmm_inv t (as @ p # bs)" unfolding pmm_inv_def using parts(6) t(3) by simp
  have fs: "free_set t as = free_set s as" "free_set t bs = free_set s bs"
    using np by (auto intro!: free_set_cong simp: t)
  have "{p..<p + property_of p t} = {p..<p + property_of p s} \<union> {q..<q + property_of q s}"
    using adj by (auto simp: t)
  then show "free_set t (as @ p # bs) = free_set s (as @ p # q # bs)"
    unfolding free_set_append free_set_Cons fs by blast
qed

lemma pmm_inv_two: "pmm_inv s (as @ p # q # bs) \<Longrightarrow> property_of p s + property_of q s < 2 ^ 32"
  using pmm_inv_parts(5,6) [of s "as @ p # q # bs"] by simp

lemma coalesced_Nil [simp]: "coalesced s []"
  by (simp add: coalesced_def)

lemma coalesced_append:
  "coalesced s (xs @ ys) \<longleftrightarrow> coalesced s xs \<and> coalesced s ys \<and>
     (\<forall>x\<in>set xs. \<forall>y\<in>set ys. x + property_of x s < y)"
  by (simp add: coalesced_def sorted_wrt_append)

lemma coalesced_cong:
  "(\<And>x. x \<in> set xs \<Longrightarrow> property_of x t = property_of x s) \<Longrightarrow> coalesced t xs = coalesced s xs"
  unfolding coalesced_def by (intro iffI; erule sorted_wrt_mono_rel [rotated]; simp)

lemma coalesced_Cons:
  "coalesced s (x # ys) \<longleftrightarrow> (\<forall>y\<in>set ys. x + property_of x s < y) \<and> coalesced s ys"
  by (simp add: coalesced_def)

lemma merge_prev_inv:
  assumes inv: "pmm_inv s (as @ base # bs)"
  obtains as' b t where "merge_prev base s = (b, t)" "pmm_inv t (as' @ b # bs)"
    "free_set t (as' @ b # bs) = free_set s (as @ base # bs)" "nr_free t = nr_free s"
    "\<And>x. x \<in> set bs \<Longrightarrow> property_of x t = property_of x s"
    "coalesced s as \<Longrightarrow> coalesced t (as' @ [b])" "b + property_of b t = base + property_of base s"
proof (cases as rule: rev_cases)
  case Nil
  then have "list_prev (Page_link base) (links s) = Free_list"
    using ll.prev_in [of "links s" Free_list "[]" "Page_link base"] pmm_inv_parts(1) [OF inv] by simp
  then show ?thesis
    using that [of base s "[]"] inv Nil by (simp add: merge_prev_def coalesced_def)
next
  case (snoc cs p)
  have lp: "list_prev (Page_link base) (links s) = Page_link p"
    using ll.prev_in [of "links s" Free_list "map Page_link as" "Page_link base"] pmm_inv_parts(1) [OF inv]
    by (simp add: snoc)
  have inv': "pmm_inv s (cs @ p # base # bs)" using inv snoc by simp
  show ?thesis
  proof (cases "p + property_of p s = base")
    case True
    define t where "t = upd_links (list_del (Page_link base)) (ClearPageProperty base
        (set_property p (property_of p s + property_of base s) s))"
    have eq: "merge_prev base s = (p, t)" using lp True by (simp add: merge_prev_def t_def Let_def page_simps)
    have tp: "property_of x t = (if x = p then property_of p s + property_of base s else property_of x s)" for x
      using pmm_inv_two [OF inv'] by (simp add: t_def page_simps)
    have j: "pmm_inv t (cs @ p # bs)" "free_set t (cs @ p # bs) = free_set s (cs @ p # base # bs)"
      by (rule join_blocks [OF inv' True tp]; auto simp: t_def page_simps)+
    have np: "p \<notin> set (cs @ bs)" using pmm_inv_split(5) [OF inv'] by auto
    have "coalesced t (cs @ [p])" if "coalesced s as"
    proof -
      have "coalesced t cs = coalesced s cs" using np by (intro coalesced_cong) (auto simp: tp)
      then show ?thesis using that np by (auto simp: snoc coalesced_append coalesced_Cons tp)
    qed
    moreover have "nr_free t = nr_free s" by (simp add: t_def page_simps)
    moreover have "x \<in> set bs \<Longrightarrow> property_of x t = property_of x s" for x using np tp by auto
    moreover have "p + property_of p t = base + property_of base s" using True by (simp add: tp)
    ultimately show ?thesis using that [OF eq j(1)] j(2) snoc by simp
  next
    case False
    then have eq: "merge_prev base s = (base, s)" using lp by (simp add: merge_prev_def Let_def)
    have "p + property_of p s < base" using pmm_inv_split(1) [OF inv, of p] False snoc by fastforce
    moreover have "x + property_of x s < base" if "x \<in> set cs" for x
      using pmm_inv_split(1) [OF inv', of x] pmm_inv_split(1) [OF inv, of p] pmm_inv_split(4) [OF inv, of p]
        that snoc by fastforce
    ultimately have "coalesced s as \<Longrightarrow> coalesced s (as @ [base])"
      by (auto simp: snoc coalesced_append coalesced_Cons)
    then show ?thesis using that [OF eq] inv by simp
  qed
qed

lemma merge_next_inv:
  assumes inv: "pmm_inv s (as @ base # bs)"
  obtains bs' where "pmm_inv (merge_next base s) (as @ base # bs')"
    "free_set (merge_next base s) (as @ base # bs') = free_set s (as @ base # bs)"
    "nr_free (merge_next base s) = nr_free s"
    "coalesced s (as @ [base]) \<Longrightarrow> coalesced s bs \<Longrightarrow> coalesced (merge_next base s) (as @ base # bs')"
proof (cases bs)
  case Nil
  then have "list_next (Page_link base) (links s) = Free_list"
    using ll.next_in [of "links s" Free_list "map Page_link as" "Page_link base" "[]"]
      pmm_inv_parts(1) [OF inv] by simp
  then show ?thesis
    using that [of "[]"] inv Nil by (simp add: merge_next_def)
next
  case (Cons p cs)
  have ln: "list_next (Page_link base) (links s) = Page_link p"
    using ll.next_in [of "links s" Free_list "map Page_link as" "Page_link base" "map Page_link bs"]
      pmm_inv_parts(1) [OF inv] Cons by simp
  have inv': "pmm_inv s (as @ base # p # cs)" and inv2: "pmm_inv s ((as @ [base]) @ p # cs)"
    using inv Cons by simp_all
  have b: "a \<in> set as \<Longrightarrow> a + property_of a s \<le> base" for a using pmm_inv_split(1) [OF inv] .
  show ?thesis
  proof (cases "base + property_of base s = p")
    case True
    define t where "t = merge_next base s"
    have te: "t = upd_links (list_del (Page_link p)) (ClearPageProperty p
        (set_property base (property_of base s + property_of p s) s))"
      using ln True by (simp add: merge_next_def t_def Let_def page_simps)
    have tp: "property_of x t = (if x = base then property_of base s + property_of p s else property_of x s)" for x
      using pmm_inv_two [OF inv'] by (simp add: te page_simps)
    have j: "pmm_inv t (as @ base # cs)" "free_set t (as @ base # cs) = free_set s (as @ base # p # cs)"
      by (rule join_blocks [OF inv' True tp]; auto simp: te page_simps)+
    have np: "base \<notin> set (as @ cs)" using pmm_inv_split(5) [OF inv'] by auto
    have "coalesced t (as @ base # cs)" if "coalesced s (as @ [base])" "coalesced s bs"
    proof -
      have "coalesced t as = coalesced s as" "coalesced t cs = coalesced s cs"
        using np by (auto intro!: coalesced_cong simp: tp)
      then show ?thesis using that np True b pmm_inv_split(4) [OF inv]
        by (fastforce simp: Cons coalesced_append coalesced_Cons tp)
    qed
    then show ?thesis
      using that [of cs] j Cons by (auto simp: t_def [symmetric] te page_simps)
  next
    case False
    then have eq: "merge_next base s = s" using ln by (simp add: merge_next_def Let_def)
    have "base + property_of base s < p" using pmm_inv_split(2) [OF inv', of p] False by simp
    moreover have "base + property_of base s < x" if "x \<in> set cs" for x
      using calculation pmm_inv_split(2) [OF inv2, of x] that by simp
    ultimately have "coalesced s (as @ [base]) \<Longrightarrow> coalesced s bs \<Longrightarrow> coalesced s (as @ base # bs)"
      using b by (fastforce simp: Cons coalesced_append coalesced_Cons)
    then show ?thesis using that [of bs] eq inv by simp
  qed
qed

lemma free_split:
  assumes inv: "pmm_inv s xs" and n: "0 < n" and dis: "{base..<base + n} \<inter> free_set s xs = {}"
  obtains as bs where "xs = as @ bs" "\<And>a. a \<in> set as \<Longrightarrow> a + property_of a s \<le> base"
    "\<And>b. b \<in> set bs \<Longrightarrow> base + n \<le> b"
proof
  let ?P = "\<lambda>p. p < base"
  show "xs = takeWhile ?P xs @ dropWhile ?P xs" by simp
  note parts = pmm_inv_parts [OF inv]
  have own: "{x..<x + property_of x s} \<subseteq> free_set s xs" if "x \<in> set xs" for x
    using that by (auto simp: free_set_def)
  show "a + property_of a s \<le> base" if "a \<in> set (takeWhile ?P xs)" for a
  proof (rule ccontr)
    assume "\<not> a + property_of a s \<le> base"
    then have "base \<in> {a..<a + property_of a s}" using set_takeWhileD [OF that] by auto
    then have "base \<in> free_set s xs" using own [of a] set_takeWhileD [OF that] by blast
    moreover have "base \<in> {base..<base + n}" using n by simp
    ultimately show False using dis by blast
  qed
  show "base + n \<le> b" if b: "b \<in> set (dropWhile ?P xs)" for b
  proof -
    obtain c cs where c: "dropWhile ?P xs = c # cs" using b by (cases "dropWhile ?P xs") auto
    then have "base \<le> c" using hd_dropWhile [of ?P xs] by auto
    moreover have "sorted_wrt (\<lambda>p q. p + property_of p s \<le> q) (takeWhile ?P xs @ c # cs)"
      using parts(2) c by (metis takeWhile_dropWhile_id)
    then have "c \<le> b" using b c unfolding sorted_wrt_append by fastforce
    moreover have "b \<in> free_set s xs"
      using own [of b] parts(3) [of b] set_dropWhileD [OF b] by auto
    ultimately show ?thesis using dis by (meson disjoint_iff atLeastLessThan_iff le_trans not_le)
  qed
qed

lemma default_free_pages_inv:
  assumes inv: "pmm_inv s xs" and n: "0 < n" "nr_free s + n < 2 ^ 32"
    and dis: "{base..<base + n} \<inter> free_set s xs = {}"
    and res: "\<And>q. q \<in> {base..<base + n} \<Longrightarrow> \<not> PageReserved q s"
    and tail: "xs \<noteq> [] \<Longrightarrow> base < last xs"
  obtains t ys where "default_free_pages base n s = Some t" "pmm_inv t ys"
    "free_set t ys = free_set s xs \<union> {base..<base + n}" "nr_free t = nr_free s + n"
    "coalesced s xs \<Longrightarrow> coalesced t ys"
proof -
  obtain as bs where sp: "xs = as @ bs" "\<And>a. a \<in> set as \<Longrightarrow> a + property_of a s \<le> base"
    "\<And>b. b \<in> set bs \<Longrightarrow> base + n \<le> b"
    using free_split [OF inv n(1) dis] by blast
  have ok: "\<not> PageReserved q s \<and> \<not> PageProperty q s" if "q \<in> {base..<base + n}" for q
    using that res dis pmm_inv_parts(3,4) [OF inv] by (fastforce simp: free_set_def)
  have nl: "bs \<noteq> [] \<or> as = []" using tail sp(1,2) by (metis add_leD1 append.right_neutral last_in_set not_le)
  obtain s1 where s1: "default_free_pages base n s = (let (b, s2) = merge_prev base s1 in Some (merge_next b s2))"
    "pmm_inv s1 (as @ base # bs)" "property_of base s1 = n"
    "\<And>q. q \<in> set (as @ bs) \<Longrightarrow> property_of q s1 = property_of q s" "nr_free s1 = nr_free s + n"
    by (rule free_link_state [OF inv [unfolded sp(1)] n ok sp(2,3) nl]; (assumption | (rule that; simp)))
  have old: "free_set s1 as = free_set s as" "free_set s1 bs = free_set s bs"
    "coalesced s1 as = coalesced s as" "coalesced s1 bs = coalesced s bs"
    by (auto intro!: free_set_cong coalesced_cong s1(4))
  obtain as' b t where m1: "merge_prev base s1 = (b, t)" "pmm_inv t (as' @ b # bs)"
    "free_set t (as' @ b # bs) = free_set s1 (as @ base # bs)" "nr_free t = nr_free s1"
    "\<And>x. x \<in> set bs \<Longrightarrow> property_of x t = property_of x s1"
    "coalesced s1 as \<Longrightarrow> coalesced t (as' @ [b])"
    by (rule merge_prev_inv [OF s1(2)]) (rule that; simp)
  have "coalesced t bs = coalesced s bs" using m1(5) old by (simp cong: coalesced_cong)
  moreover obtain bs' where m2: "pmm_inv (merge_next b t) (as' @ b # bs')"
    "free_set (merge_next b t) (as' @ b # bs') = free_set t (as' @ b # bs)"
    "nr_free (merge_next b t) = nr_free t"
    "coalesced t (as' @ [b]) \<Longrightarrow> coalesced t bs \<Longrightarrow> coalesced (merge_next b t) (as' @ b # bs')"
    by (rule merge_next_inv [OF m1(2)]) (rule that; simp)
  moreover have "free_set s1 (as @ base # bs) = free_set s xs \<union> {base..<base + n}"
    using s1(3) by (auto simp: sp(1) free_set_append free_set_Cons old)
  ultimately show ?thesis
    using that [of "merge_next b t" "as' @ b # bs'"] m1 s1 old by (auto simp: sp(1) coalesced_append)
qed


subsection \<open>Contract: the set of free pages\<close>

text \<open>
  \<open>ff_rep s F\<close>: the manager represents the free set \<open>F\<close>. \<open>below_tail\<close> is the position a block must
  have for the insertion loop to stop at a \<open>break\<close>: the list is empty or its last head lies above.
\<close>

definition ff_rep :: "pmm \<Rightarrow> nat set \<Rightarrow> bool" where
  "ff_rep s F \<longleftrightarrow> (\<exists>xs. pmm_inv s xs \<and> coalesced s xs \<and> free_set s xs = F) \<and>
     (\<forall>q\<in>F. \<not> PageReserved q s)"

definition below_tail :: "nat \<Rightarrow> pmm \<Rightarrow> bool" where
  "below_tail b s \<longleftrightarrow> list_empty Free_list (links s) \<or> b < le2page (list_prev Free_list (links s))"

lemma below_tail_iff:
  assumes "pmm_inv s xs"
  shows "below_tail b s \<longleftrightarrow> xs = [] \<or> b < last xs"
proof -
  note d = pmm_inv_parts(1) [OF assms]
  have "list_prev Free_list (links s) = last (Free_list # map Page_link xs)" by (rule ll.rear [OF d])
  then show ?thesis
    using ll.empty_holds [OF d] by (auto simp: below_tail_def last_map)
qed

lemma card_free_set:
  assumes "pmm_inv s xs"
  shows "finite (free_set s xs)" "card (free_set s xs) = nr_free s"
proof -
  show "finite (free_set s xs)" by (simp add: free_set_def)
  have "card (free_set s ys) = sum_list (map (\<lambda>p. property_of p s) ys)"
    if "sorted_wrt (\<lambda>p q. p + property_of p s \<le> q) ys" for ys
    using that
  proof (induction ys)
    case (Cons y ys)
    have "{y..<y + property_of y s} \<inter> free_set s ys = {}"
      using Cons.prems by (fastforce simp: free_set_def)
    moreover have "finite (free_set s ys)" by (simp add: free_set_def)
    ultimately show ?case using Cons by (simp add: free_set_Cons card_Un_disjoint)
  qed (simp add: free_set_Nil)
  then show "card (free_set s xs) = nr_free s"
    using pmm_inv_parts(2,5) [OF assms] by simp
qed

text \<open>In a coalesced list, a run of free pages lies inside one block.\<close>

lemma coalesced_run:
  assumes c: "coalesced s xs" and n: "0 < n" and r: "{p..<p + n} \<subseteq> free_set s xs"
  shows "\<exists>x\<in>set xs. x \<le> p \<and> p + n \<le> x + property_of x s"
  using n r
proof (induction n)
  case (Suc n)
  show ?case
  proof (cases n)
    case 0
    then have "p \<in> free_set s xs" using Suc.prems(2) by auto
    then show ?thesis using 0 by (auto simp: free_set_def Suc_le_eq)
  next
    case (Suc m)
    then obtain x where x: "x \<in> set xs" "x \<le> p" "p + n \<le> x + property_of x s"
      using Suc.IH Suc.prems by fastforce
    have "p + n \<in> free_set s xs" using Suc.prems(2) by auto
    then obtain y where y: "y \<in> set xs" "y \<le> p + n" "p + n < y + property_of y s"
      by (auto simp: free_set_def)
    have "x = y \<or> x + property_of x s < y \<or> y + property_of y s < x"
      using c x(1) y(1) unfolding coalesced_def
      by (metis (no_types, lifting) in_set_conv_nth nat_neq_iff sorted_wrt_nth_less)
    then show ?thesis using x y by auto
  qed
qed simp

lemma alloc_find:
  assumes inv: "pmm_inv s xs" and c: "coalesced s xs" and n: "0 < n"
  shows "find (\<lambda>p. n \<le> property_of p s) xs = None \<longleftrightarrow> (\<forall>p. \<not> {p..<p + n} \<subseteq> free_set s xs)"
proof
  assume "find (\<lambda>p. n \<le> property_of p s) xs = None"
  then have *: "\<forall>x\<in>set xs. property_of x s < n" by (auto simp: find_None_iff)
  show "\<forall>p. \<not> {p..<p + n} \<subseteq> free_set s xs"
  proof (intro allI notI)
    fix p assume "{p..<p + n} \<subseteq> free_set s xs"
    from coalesced_run [OF c n this] obtain x where "x \<in> set xs" "n \<le> property_of x s" by fastforce
    then show False using * by auto
  qed
next
  assume *: "\<forall>p. \<not> {p..<p + n} \<subseteq> free_set s xs"
  have "\<not> n \<le> property_of x s" if "x \<in> set xs" for x
  proof
    assume "n \<le> property_of x s"
    then have "{x..<x + n} \<subseteq> free_set s xs" using that by (force simp: free_set_def)
    then show False using * by blast
  qed
  then show "find (\<lambda>p. n \<le> property_of p s) xs = None" by (auto simp: find_None_iff)
qed

lemma take_block_rep:
  assumes inv: "pmm_inv s xs" and c: "coalesced s xs" and n: "0 < n"
    and p: "p \<in> set xs" "n \<le> property_of p s" and un: "\<forall>q\<in>free_set s xs. \<not> PageReserved q s"
  shows "{p..<p + n} \<subseteq> free_set s xs" "ff_rep (take_block n p s) (free_set s xs - {p..<p + n})"
    "PageReserved q (take_block n p s) = PageReserved q s"
proof -
  obtain as bs where xs: "xs = as @ p # bs" using p(1) by (meson split_list)
  show "{p..<p + n} \<subseteq> free_set s xs" using p by (force simp: free_set_def)
  have r: "PageReserved q (take_block n p s) = PageReserved q s" for q
    using take_block_fields(4) pmm_inv_split(6) inv xs by blast
  then show "PageReserved q (take_block n p s) = PageReserved q s" .
  show "ff_rep (take_block n p s) (free_set s xs - {p..<p + n})"
    unfolding ff_rep_def
    using take_block_inv [OF inv [unfolded xs] n p(2)] take_block_free_set [OF inv [unfolded xs] n p(2)]
      take_block_coalesced [OF inv [unfolded xs] n p(2) c [unfolded xs]] un r by (auto simp: xs)
qed


lemma default_free_pages_reserved:
  assumes "default_free_pages base n s = Some t" and "PageReserved q t"
  shows "PageReserved q s"
proof -
  have loop: "free_pages_loop p k u = Some v \<Longrightarrow> PageReserved q v \<Longrightarrow> PageReserved q u" for p k u v
  proof (induction k arbitrary: p u)
    case (Suc k)
    let ?u = "set_page_ref p 0 (upd_page p (\<lambda>d. d\<lparr>flags := 0\<rparr>) u)"
    have "PageReserved q ?u" using Suc by (auto split: if_splits simp: Let_def)
    then show ?case by (simp add: PageReserved_def page_fields set_page_ref_def split: if_splits)
  qed simp
  have mp: "PageReserved q (snd (merge_prev b u)) = PageReserved q u" for b u
    by (simp add: merge_prev_def Let_def page_simps)
  have mn: "PageReserved q (merge_next b u) = PageReserved q u" for b u
    by (simp add: merge_next_def Let_def page_simps)
  obtain u h b w where u: "free_pages_loop base n s = Some u" "t = merge_next b w"
    "merge_prev base ((SetPageProperty base (set_property base n u))
        \<lparr>nr_free := u32 (nr_free u + n), links := h\<rparr>) = (b, w)"
    using assms(1) by (auto simp: default_free_pages_def Let_def page_simps split: if_splits bind_splits prod.splits)
  have "PageReserved q w" using assms(2) by (simp add: u(2) mn)
  then have "PageReserved q u"
    using mp [of base "(SetPageProperty base (set_property base n u))\<lparr>nr_free := u32 (nr_free u + n), links := h\<rparr>"]
    by (simp add: u(3) page_simps)
  then show ?thesis using loop u(1) by blast
qed

lemma default_free_pages_rep:
  assumes rep: "ff_rep s F" and n: "0 < n" "card F + n < 2 ^ 32" and dis: "{b..<b + n} \<inter> F = {}"
    and res: "\<And>q. q \<in> {b..<b + n} \<Longrightarrow> \<not> PageReserved q s" and tail: "below_tail b s"
  shows "\<exists>t. default_free_pages b n s = Some t \<and> ff_rep t (F \<union> {b..<b + n}) \<and>
    (\<forall>q. PageReserved q t \<longrightarrow> PageReserved q s)"
proof -
  obtain xs where xs: "pmm_inv s xs" "coalesced s xs" "free_set s xs = F" and un: "\<forall>q\<in>F. \<not> PageReserved q s"
    using rep by (auto simp: ff_rep_def)
  have lt: "nr_free s + n < 2 ^ 32" using card_free_set(2) [OF xs(1)] xs(3) n by simp
  obtain t ys where t: "default_free_pages b n s = Some t" "pmm_inv t ys"
    "free_set t ys = free_set s xs \<union> {b..<b + n}" "nr_free t = nr_free s + n" "coalesced t ys"
    using default_free_pages_inv [OF xs(1) n(1) lt, of b] dis res tail xs(2,3) below_tail_iff [OF xs(1)]
    by metis
  moreover have "\<not> PageReserved q t" if "q \<in> F \<union> {b..<b + n}" for q
    using that default_free_pages_reserved [OF t(1), of q] un res by blast
  ultimately show ?thesis
    using default_free_pages_reserved [OF t(1)] xs(3) unfolding ff_rep_def by blast
qed

lemma default_init_memmap_rep:
  assumes rep: "ff_rep s F" and n: "0 < n" "card F + n < 2 ^ 32" and dis: "{b..<b + n} \<inter> F = {}"
    and res: "\<And>q. q \<in> {b..<b + n} \<Longrightarrow> PageReserved q s" and tail: "below_tail b s"
    and gap: "b + n \<notin> F" "\<And>q. Suc q = b \<Longrightarrow> q \<notin> F"
  shows "\<exists>t. default_init_memmap b n s = Some t \<and> ff_rep t (F \<union> {b..<b + n})"
proof -
  obtain xs where xs: "pmm_inv s xs" "coalesced s xs" "free_set s xs = F" and un: "\<forall>q\<in>F. \<not> PageReserved q s"
    using rep by (auto simp: ff_rep_def)
  obtain as bs where sp: "xs = as @ bs" "\<And>a. a \<in> set as \<Longrightarrow> a + property_of a s \<le> b"
    "\<And>x. x \<in> set bs \<Longrightarrow> b + n \<le> x"
    using free_split [OF xs(1) n(1), of b] dis xs(3) by blast
  have inv: "pmm_inv s (as @ bs)" using xs(1) sp(1) by simp
  have own: "x \<in> set xs \<Longrightarrow> y < property_of x s \<Longrightarrow> x + y \<in> F" for x y
    unfolding xs(3) [symmetric] free_set_def by (auto intro!: bexI [of _ x])
  have pos: "x \<in> set xs \<Longrightarrow> 0 < property_of x s" for x using pmm_inv_parts(3) [OF xs(1)] .
  have ok: "PageReserved q s \<and> \<not> PageProperty q s" if "q \<in> {b..<b + n}" for q
    using that res dis pos own [of q 0] pmm_inv_parts(4) [OF xs(1), of q] by auto
  have nl: "bs \<noteq> [] \<or> as = []"
    using tail sp(1,2) below_tail_iff [OF xs(1)] by (metis add_leD1 append.right_neutral last_in_set not_le)
  have ga: "a + property_of a s < b" if "a \<in> set as" for a
  proof (rule ccontr)
    assume "\<not> a + property_of a s < b"
    then have "Suc (a + (property_of a s - 1)) = b" using sp(2) [OF that] pos [of a] that sp(1) by simp
    then show False using gap(2) own [of a "property_of a s - 1"] pos [of a] that sp(1) by simp
  qed
  have gb: "b + n < x" if "x \<in> set bs" for x
    using sp(3) [OF that] gap(1) own [of x 0] pos [of x] that sp(1) by (cases "b + n = x") auto
  have lt: "nr_free s + n < 2 ^ 32" using card_free_set(2) [OF xs(1)] xs(3) n by simp
  obtain t where t: "default_init_memmap b n s = Some t" "pmm_inv t (as @ b # bs)" "property_of b t = n"
    "\<And>q. q \<in> set (as @ bs) \<Longrightarrow> property_of q t = property_of q s" "nr_free t = nr_free s + n"
    "\<And>q. PageReserved q t \<longleftrightarrow> PageReserved q s \<and> q \<notin> {b..<b + n}"
    by (rule init_memmap_state [OF inv n(1) lt ok sp(2,3) nl]; (assumption | (rule that; simp)))
  have old: "free_set t as = free_set s as" "free_set t bs = free_set s bs"
    "coalesced t as = coalesced s as" "coalesced t bs = coalesced s bs"
    by (auto intro!: free_set_cong coalesced_cong t(4))
  have "coalesced t (as @ b # bs)"
    using xs(2) ga gb t(3,4) by (fastforce simp: sp(1) coalesced_append coalesced_Cons old)
  moreover have "free_set t (as @ b # bs) = F \<union> {b..<b + n}"
    using xs(3) t(3) by (auto simp: sp(1) free_set_append free_set_Cons old)
  ultimately show ?thesis using t(1,2,6) un unfolding ff_rep_def by blast
qed

lemma default_init_rep: "(\<And>p. \<not> PageProperty p s) \<Longrightarrow> ff_rep (default_init s) {}"
  unfolding ff_rep_def default_init_def
  by (rule conjI, rule exI [of _ "[]"])
    (simp_all add: pmm_inv_def page_simps ll.init_holds free_set_Nil)

interpretation ff: pmm_manager default_init default_init_memmap default_alloc_pages default_free_pages
  default_nr_free_pages ff_rep PageReserved PageProperty below_tail "2 ^ 32"
proof (unfold_locales, goal_cases)
  case (1 s)
  then show ?case by (rule default_init_rep)
next
  case (2 s F n b)
  then show ?case by (intro default_init_memmap_rep) auto
next
  case (3 s F)
  then show ?case by (auto simp: ff_rep_def card_free_set(1))
next
  case (4 s F)
  then show ?case by (auto simp: ff_rep_def default_nr_free_pages_def card_free_set(2))
next
  case (5 s F q)
  then show ?case by (auto simp: ff_rep_def)
next
  case (6 s F n)
  then obtain xs where xs: "pmm_inv s xs" "coalesced s xs" "free_set s xs = F" by (auto simp: ff_rep_def)
  then have "find (\<lambda>p. n \<le> property_of p s) xs = None" using 6 by (simp add: alloc_find)
  then show ?case using default_alloc_pages_eq [OF xs(1) 6(2)] by simp
next
  case (7 s F n p)
  then obtain xs where xs: "pmm_inv s xs" "coalesced s xs" "free_set s xs = F"
    and un: "\<forall>q\<in>free_set s xs. \<not> PageReserved q s" by (auto simp: ff_rep_def)
  then obtain x where x: "find (\<lambda>p. n \<le> property_of p s) xs = Some x"
    using alloc_find [OF xs(1,2) 7(2)] 7(3) by blast
  then have "x \<in> set xs" "n \<le> property_of x s" by (auto simp: find_Some_iff)
  then show ?case
    using take_block_rep [OF xs(1,2) 7(2) _ _ un] default_alloc_pages_eq [OF xs(1) 7(2)] x xs(3) by auto
next
  case (8 s F n b)
  then show ?case by (intro default_free_pages_rep) auto
qed


subsection \<open>Concrete states\<close>

text \<open>The state the boot code leaves: every descriptor reserved, then one region of \<open>n\<close> pages.\<close>

definition boot_state :: pmm where
  "boot_state = \<lparr>pages = (\<lambda>p. \<lparr>ref = 0, flags = 1, property = 0\<rparr>),
     links = \<lparr>nxt = (\<lambda>e. e), prv = (\<lambda>e. e)\<rparr>, nr_free = 0\<rparr>"

definition boot_pmm :: "nat \<Rightarrow> pmm kresult" where
  "boot_pmm n = default_init_memmap 0 n (default_init boot_state)"

lemma boot_pmm_rep:
  assumes "0 < n" "n < 2 ^ 32"
  shows "\<exists>s. boot_pmm n = Some s \<and> ff_rep s {0..<n}"
proof -
  have "ff_rep (default_init boot_state) {}"
    by (rule ff.init_rep) (simp add: boot_state_def PageProperty_def PG_property_def bit_1_iff)
  moreover have "PageReserved q (default_init boot_state)" for q
    by (simp add: default_init_def page_simps boot_state_def PageReserved_def PG_reserved_def bit_1_iff upd_links_def)
  moreover have "below_tail 0 (default_init boot_state)"
    by (simp add: below_tail_def default_init_def page_simps list_empty_def link_simps)
  ultimately show ?thesis
    using ff.memmap_rep [of "default_init boot_state" "{}" n 0] assms by (simp add: boot_pmm_def)
qed

text \<open>A free list of two blocks, \<open>0..1\<close> and \<open>5..7\<close>.\<close>

definition two_blocks :: pmm where
  "two_blocks = \<lparr>pages = (\<lambda>p. \<lparr>ref = 0, flags = (if p = 0 \<or> p = 5 then 2 else 0),
       property = (if p = 0 then 2 else 3)\<rparr>),
     links = \<lparr>nxt = (\<lambda>e. if e = Free_list then Page_link 0 else if e = Page_link 0 then Page_link 5 else Free_list),
              prv = (\<lambda>e. if e = Free_list then Page_link 5 else if e = Page_link 5 then Page_link 0 else Free_list)\<rparr>,
     nr_free = 5\<rparr>"

lemma two_blocks_inv: "pmm_inv two_blocks [0, 5]" "coalesced two_blocks [0, 5]"
proof -
  have "bit (2 :: 64 word) 1" by simp
  then show "pmm_inv two_blocks [0, 5]"
    by (simp add: pmm_inv_def two_blocks_def dlist_def property_of_def PageProperty_def PG_property_def)
  show "coalesced two_blocks [0, 5]" by (simp add: coalesced_def two_blocks_def property_of_def)
qed

lemma two_blocks_fields:
  "free_set two_blocks [0, 5] = {0, 1, 5, 6, 7}" "nr_free two_blocks = 5" "\<not> PageReserved q two_blocks"
  by (auto simp: free_set_def two_blocks_def property_of_def PageReserved_def PG_reserved_def)

lemmas pmm_eval = default_init_def default_init_memmap_def default_alloc_pages_def default_free_pages_def
  insert_loop.simps first_fit_loop.simps link_block_def take_block_def merge_prev_def merge_next_def
  page_op_defs upd_page_def upd_links_def bit_simps list_add_def list_add_after_def list_add_before_def
  list_del_def priv_list_add_def priv_list_del_def set_nxt_def set_prv_def list_init_def list_empty_def
  list_next_def list_prev_def sub32_def

lemma init_pages_loop_rec:
  "init_pages_loop p k s = (if k = 0 then Some s else
     if PageReserved p s
     then init_pages_loop (p + 1) (k - 1) (set_page_ref p 0 (upd_page p (\<lambda>d. d\<lparr>flags := 0, property := 0\<rparr>) s))
     else None)"
  by (cases k) (auto simp: Let_def)

lemma free_pages_loop_rec:
  "free_pages_loop p k s = (if k = 0 then Some s else
     if \<not> PageReserved p s \<and> \<not> PageProperty p s
     then free_pages_loop (p + 1) (k - 1) (set_page_ref p 0 (upd_page p (\<lambda>d. d\<lparr>flags := 0\<rparr>) s))
     else None)"
  by (cases k) (auto simp: Let_def)

definition tail_script :: "pmm \<Rightarrow> (nat option list \<times> pmm) kresult" where
  "tail_script s0 = do {
     (p1, s1) \<leftarrow> default_alloc_pages 1 s0;
     (p2, s2) \<leftarrow> default_alloc_pages 2 s1;
     (p3, s3) \<leftarrow> default_alloc_pages 2 s2;
     s4 \<leftarrow> default_free_pages 0 1 s3;
     s5 \<leftarrow> default_free_pages 1 2 s4;
     (p4, s6) \<leftarrow> default_alloc_pages 2 s5;
     s7 \<leftarrow> default_free_pages 3 2 s6;
     (p5, s8) \<leftarrow> default_alloc_pages 2 s7;
     Some ([p1, p2, p3, p4, p5], s8)
   }"

lemma tail_script_result:
  "\<exists>s. do {s \<leftarrow> boot_pmm 5; tail_script s} = Some ([Some 0, Some 1, Some 3, Some 1, Some 1], s)"
  by (simp add: boot_pmm_def boot_state_def tail_script_def Let_def pmm_eval init_pages_loop_rec
      free_pages_loop_rec)

lemma tail_script_run:
  assumes "tail_script s0 = Some ([Some 0, Some 1, Some 3, Some 1, Some 1], s8)"
  shows "pmm_run default_alloc_pages default_free_pages (\<lambda>_ _. True) s0 s8 [(1, 2), (1, 2)]"
proof -
  let ?R = "pmm_run default_alloc_pages default_free_pages (\<lambda>_ _. True) s0"
  obtain s1 s2 s3 s4 s5 s6 s7 where st:
    "default_alloc_pages 1 s0 = Some (Some 0, s1)" "default_alloc_pages 2 s1 = Some (Some 1, s2)"
    "default_alloc_pages 2 s2 = Some (Some 3, s3)" "default_free_pages 0 1 s3 = Some s4"
    "default_free_pages 1 2 s4 = Some s5" "default_alloc_pages 2 s5 = Some (Some 1, s6)"
    "default_free_pages 3 2 s6 = Some s7" "default_alloc_pages 2 s7 = Some (Some 1, s8)"
    using assms by (auto simp: tail_script_def bind_eq_Some_conv)
  have "?R s1 [(0, 1)]" using run_alloc [OF run_start, of 1 _ s0 "Some 0" s1] st(1) by simp
  then have "?R s2 [(1, 2), (0, 1)]" using run_alloc [of _ _ _ _ s1 _ 2 "Some 1" s2] st(2) by fastforce
  then have "?R s3 [(3, 2), (1, 2), (0, 1)]" using run_alloc [of _ _ _ _ s2 _ 2 "Some 3" s3] st(3) by fastforce
  then have "?R s4 [(3, 2), (1, 2)]" using run_free [of _ _ _ _ s3 "[(3, 2), (1, 2)]" 0 1 "[]" s4] st(4) by simp
  then have "?R s5 [(3, 2)]" using run_free [of _ _ _ _ s4 "[(3, 2)]" 1 2 "[]" s5] st(5) by simp
  then have "?R s6 [(1, 2), (3, 2)]" using run_alloc [of _ _ _ _ s5 _ 2 "Some 1" s6] st(6) by fastforce
  then have "?R s7 [(1, 2)]" using run_free [of _ _ _ _ s6 "[(1, 2)]" 3 2 "[]" s7] st(7) by simp
  then show ?thesis using run_alloc [of _ _ _ _ s7 _ 2 "Some 1" s8] st(8) by fastforce
qed

text \<open>At the tail of the list the block is linked to itself: the loop has no \<open>break\<close> there.\<close>

lemma insert_loop_tail:
  assumes "dlist h Free_list (map Page_link (as @ x # cs))"
    and "\<And>c. c \<in> set (x # cs) \<Longrightarrow> c < base"
  shows "insert_loop base (last (Free_list # map Page_link as)) h =
    Some (list_add (Page_link base) (Page_link base)
      (list_add (Page_link (last (x # cs))) (Page_link base) h))"
  using assms
proof (induction cs arbitrary: as x)
  case Nil
  have n1: "list_next (last (Free_list # map Page_link as)) h = Page_link x"
    using ll.succ_holds [of h Free_list "map Page_link as" "map Page_link [x]"] Nil.prems by simp
  have n2: "nxt h (Page_link x) = Free_list"
    using ll.next_in [of h Free_list "map Page_link as" "Page_link x" "[]"] Nil.prems
    by (simp add: list_next_def)
  have "x \<noteq> base" using Nil.prems(2) by fastforce
  then show ?case
    using n1 n2 Nil.prems(2) [of x] by (simp add: insert_loop.simps list_next_def link_simps Let_def)
next
  case (Cons c cs)
  have n1: "list_next (last (Free_list # map Page_link as)) h = Page_link x"
    using ll.succ_holds [of h Free_list "map Page_link as" "map Page_link (x # c # cs)"] Cons.prems by simp
  have n2: "list_next (Page_link x) h = Page_link c"
    using ll.next_in [of h Free_list "map Page_link as" "Page_link x" "map Page_link (c # cs)"] Cons.prems by simp
  have "insert_loop base (last (Free_list # map Page_link (as @ [x]))) h =
    Some (list_add (Page_link base) (Page_link base)
      (list_add (Page_link (last (c # cs))) (Page_link base) h))"
    using Cons.prems by (intro Cons.IH) auto
  then show ?case using n1 n2 Cons.prems(2) [of x] by (subst insert_loop.simps) simp
qed

subsection \<open>Properties\<close>

text \<open>
  C1: on a well-formed, coalesced free list \<open>default_alloc_pages\<close> returns. It hands out the first block
  that is large enough, cut to size, takes exactly those pages from the free set and from the count and
  keeps the list well formed and coalesced; it returns NULL, changing nothing, exactly when no \<open>n\<close>
  contiguous pages are free.
\<close>

theorem default_alloc_pages_correct:
  assumes "pmm_inv s xs" and "coalesced s xs" and "0 < n"
  shows "\<exists>r t ys. default_alloc_pages n s = Some (r, t) \<and> pmm_inv t ys \<and> coalesced t ys \<and>
    (case r of
       None \<Rightarrow> t = s \<and> (\<forall>p. \<not> {p..<p + n} \<subseteq> free_set s xs)
     | Some p \<Rightarrow> find (\<lambda>p. n \<le> property_of p s) xs = Some p \<and> {p..<p + n} \<subseteq> free_set s xs \<and>
         free_set t ys = free_set s xs - {p..<p + n} \<and> default_nr_free_pages t = default_nr_free_pages s - n)"
proof (cases "find (\<lambda>p. n \<le> property_of p s) xs")
  case None
  then show ?thesis using alloc_find [OF assms] default_alloc_pages_eq [OF assms(1,3)] assms(1,2) by auto
next
  case (Some p)
  then have p: "p \<in> set xs" "n \<le> property_of p s" by (auto simp: find_Some_iff)
  obtain as bs where xs: "xs = as @ p # bs" using p(1) by (meson split_list)
  note inv = assms(1) [unfolded xs]
  have "{p..<p + n} \<subseteq> free_set s xs" using p by (force simp: free_set_def)
  moreover have "nr_free (take_block n p s) = nr_free s - n"
    using take_block_fields(3) pmm_inv_split(6) [OF inv] pmm_inv_property_le [OF assms(1) p(1)] p(2)
      pmm_inv_parts(6) [OF inv] by (simp add: sub32_id)
  ultimately show ?thesis
    using take_block_inv [OF inv assms(3) p(2)] take_block_free_set [OF inv assms(3) p(2)]
      take_block_coalesced [OF inv assms(3) p(2) assms(2) [unfolded xs]]
      default_alloc_pages_eq [OF assms(1,3)] Some
    by (intro exI [of _ "Some p"] exI [of _ "take_block n p s"] exI [of _ "cut_block n s as p bs"])
      (simp add: default_nr_free_pages_def xs)
qed

theorem default_alloc_pages_correct_witness:
  "\<exists>t ys. default_alloc_pages 3 two_blocks = Some (Some 5, t) \<and> pmm_inv t ys \<and>
     free_set t ys = {0, 1} \<and> default_nr_free_pages t = 2"
proof -
  have f: "find (\<lambda>p. 3 \<le> property_of p two_blocks) [0, 5] = Some 5"
    by (simp add: two_blocks_def property_of_def)
  have d: "{0, 1, 5, 6, 7} - {5..<5 + 3} = {0, 1 :: nat}" by auto
  have sub: "{5..<5 + 3} \<subseteq> {0, 1, 5, 6, 7 :: nat}" by auto
  obtain r t ys where r: "default_alloc_pages 3 two_blocks = Some (r, t)" "pmm_inv t ys"
    "case r of None \<Rightarrow> t = two_blocks \<and> (\<forall>p. \<not> {p..<p + 3} \<subseteq> free_set two_blocks [0, 5])
     | Some p \<Rightarrow> find (\<lambda>p. 3 \<le> property_of p two_blocks) [0, 5] = Some p \<and>
         {p..<p + 3} \<subseteq> free_set two_blocks [0, 5] \<and>
         free_set t ys = free_set two_blocks [0, 5] - {p..<p + 3} \<and>
         default_nr_free_pages t = default_nr_free_pages two_blocks - 3"
    using default_alloc_pages_correct [OF two_blocks_inv, of 3] by fastforce
  have "r = Some 5" using r(3) sub unfolding two_blocks_fields f
    by (cases r; simp only: option.case; blast)
  then have "free_set t ys = {0, 1}" "default_nr_free_pages t = 2"
    using r(3) by (simp_all only: two_blocks_fields f option.case d default_nr_free_pages_def)
  then show ?thesis using r(1,2) \<open>r = Some 5\<close> by blast
qed

text \<open>
  C2: releasing a block that is not free, not reserved and below the last free block returns; the free
  set gains exactly these pages, the count grows by \<open>n\<close>, and the list stays well formed and, when it was
  coalesced, coalesced: both neighbours are merged.
\<close>

theorem default_free_pages_correct:
  assumes "pmm_inv s xs" and "0 < n" and "default_nr_free_pages s + n < 2 ^ 32"
    and "{base..<base + n} \<inter> free_set s xs = {}" and "\<forall>q\<in>{base..<base + n}. \<not> PageReserved q s"
    and "below_tail base s"
  shows "\<exists>t ys. default_free_pages base n s = Some t \<and> pmm_inv t ys \<and>
    free_set t ys = free_set s xs \<union> {base..<base + n} \<and>
    default_nr_free_pages t = default_nr_free_pages s + n \<and> (coalesced s xs \<longrightarrow> coalesced t ys)"
proof -
  have "xs \<noteq> [] \<Longrightarrow> base < last xs" using below_tail_iff [OF assms(1)] assms(6) by simp
  then show ?thesis
    using default_free_pages_inv [OF assms(1,2) _ assms(4)] assms(3,5)
    unfolding default_nr_free_pages_def by (metis (no_types))
qed

theorem default_free_pages_correct_witness:
  "\<exists>t ys. default_free_pages 2 3 two_blocks = Some t \<and> pmm_inv t ys \<and> free_set t ys = {0..<8} \<and>
     default_nr_free_pages t = 8 \<and> coalesced t ys"
proof -
  have "{0, 1, 5, 6, 7} \<union> {2..<2 + 3} = {0..<8 :: nat}" by auto
  moreover have "below_tail 2 two_blocks" by (simp add: below_tail_def two_blocks_def list_prev_def)
  moreover have "{2..<2 + 3} \<inter> {0, 1, 5, 6, 7} = ({} :: nat set)" by auto
  ultimately show ?thesis
    using default_free_pages_correct [OF two_blocks_inv(1), of 3 2] two_blocks_inv(2)
    by (simp add: two_blocks_fields default_nr_free_pages_def)
qed

text \<open>
  C3: in every run of allocations and of releases of held blocks below the last free block, the blocks
  held are pairwise disjoint parts of the initial memory, the count of free pages and the sizes of the
  held blocks add up to the initial count, and the next release of a held block returns.
\<close>

theorem default_pmm_run_safe:
  assumes "pmm_run default_alloc_pages default_free_pages below_tail s0 s held"
    and "ff_rep s0 F0" and "card F0 < 2 ^ 32"
  shows "held_disjoint held \<and> held_set held \<subseteq> F0 \<and>
    default_nr_free_pages s + sum_list (map snd held) = default_nr_free_pages s0 \<and>
    (\<forall>p n. (p, n) \<in> set held \<longrightarrow> below_tail p s \<longrightarrow> default_free_pages p n s \<noteq> None)"
  using ff.run_safe [OF assms] by blast

theorem default_pmm_run_safe_witness:
  "\<exists>s0 s p. boot_pmm 7 = Some s0 \<and> default_alloc_pages 3 s0 = Some (Some p, s) \<and>
     held_disjoint [(p, 3)] \<and> default_nr_free_pages s + 3 = default_nr_free_pages s0"
proof -
  obtain s0 where s0: "boot_pmm 7 = Some s0" "ff_rep s0 {0..<7}" using boot_pmm_rep [of 7] by auto
  then obtain p s where ps: "default_alloc_pages 3 s0 = Some (Some p, s)"
    using ff.alloc_succeeds [OF s0(2), of 3 0] by auto
  have "pmm_run default_alloc_pages default_free_pages below_tail s0 s [(p, 3)]"
    using run_alloc [where alloc = default_alloc_pages and r = "Some p" and held = "[]" and n = 3,
        OF run_start _ ps] by simp
  from default_pmm_run_safe [OF this s0(2)] show ?thesis using s0(1) ps by auto
qed

text \<open>
  C4: the restriction to blocks below the last free block is needed. After \<open>default_free_pages\<close> (or
  \<open>default_init_memmap\<close>) links a block behind every other one, the predecessor of the new entry is the
  entry itself, so that a later \<open>list_del\<close> leaves it in the list; from boot with five pages, a client
  that releases only what it holds gets the same two pages twice.
\<close>

theorem default_tail_release_double_alloc:
  "(\<forall>h xs base. dlist h Free_list (map Page_link xs) \<and> xs \<noteq> [] \<and> (\<forall>x\<in>set xs. x < base) \<longrightarrow>
      (\<exists>h'. link_block base h = Some h' \<and> list_prev (Page_link base) h' = Page_link base)) \<and>
   (\<exists>s0 s held. boot_pmm 5 = Some s0 \<and> ff_rep s0 {0..<5} \<and>
      pmm_run default_alloc_pages default_free_pages (\<lambda>_ _. True) s0 s held \<and> \<not> held_disjoint held)"
proof (intro conjI allI impI, goal_cases)
  case (1 h xs base)
  then obtain x cs where xs: "xs = x # cs" by (cases xs) auto
  have "\<not> list_empty Free_list h" using ll.empty_holds [of h Free_list "map Page_link xs"] 1 xs by simp
  then show ?case
    using insert_loop_tail [of h "[]" x cs base] 1 xs
    by (simp add: link_block_def list_prev_def link_simps)
next
  case 2
  obtain s0 where s0: "boot_pmm 5 = Some s0" "ff_rep s0 {0..<5}" using boot_pmm_rep [of 5] by auto
  then obtain s where "tail_script s0 = Some ([Some 0, Some 1, Some 3, Some 1, Some 1], s)"
    using tail_script_result by auto
  from tail_script_run [OF this] show ?case
    using s0 by (intro exI [of _ s0] exI [of _ s] exI [of _ "[(1, 2), (1, 2)]"]) (simp add: block_def)
qed

theorem default_tail_release_double_alloc_witness:
  "\<exists>h'. link_block 9 (links two_blocks) = Some h' \<and> list_prev (Page_link 9) h' = Page_link 9"
  using conjunct1 [OF default_tail_release_double_alloc,
      THEN spec, THEN spec, THEN spec, of "links two_blocks" "[0, 5]" 9]
    pmm_inv_parts(1) [OF two_blocks_inv(1)] by simp

end
