(* ===== verification/Best_Fit.thy ===== *)
theory Best_Fit
  imports First_Fit
begin

section \<open>Best-fit physical memory manager (Lab2_best_fit_pmm.c)\<close>

text \<open>
  The manager of the second lab. Its release and initialisation code is that of \<open>First_Fit\<close>, statement
  for statement, so the definitions use the same loops; the search of \<open>best_fit_alloc_pages\<close> keeps the
  smallest block seen so far and stops early at an exact fit.
\<close>

definition best_fit_init :: "pmm \<Rightarrow> pmm" where
  "best_fit_init s = (upd_links (list_init Free_list) s)\<lparr>nr_free := 0\<rparr>"

definition best_fit_init_memmap :: "nat \<Rightarrow> nat \<Rightarrow> pmm \<Rightarrow> pmm kresult" where
  "best_fit_init_memmap base n s = do {
     kassert (n > 0);
     s \<leftarrow> init_pages_loop base n s;
     let s = set_property base n s;
     let s = SetPageProperty base s;
     let s = s\<lparr>nr_free := u32 (nr_free s + n)\<rparr>;
     h \<leftarrow> link_block base (links s);
     Some (s\<lparr>links := h\<rparr>)
   }"

partial_function (option) best_fit_loop ::
  "nat \<Rightarrow> pmm_le \<Rightarrow> nat option \<Rightarrow> nat \<Rightarrow> pmm \<Rightarrow> nat option kresult" where
  "best_fit_loop n le page min_size s =
     (let le = list_next le (links s) in
      if le = Free_list then Some page
      else let p = le2page le in
           if n \<le> property_of p s \<and> property_of p s < min_size
           then let page = Some p; min_size = property_of p s in
                if min_size = n then Some page else best_fit_loop n le page min_size s
           else best_fit_loop n le page min_size s)"

definition best_fit_alloc_pages :: "nat \<Rightarrow> pmm \<Rightarrow> (nat option \<times> pmm) kresult" where
  "best_fit_alloc_pages n s = do {
     kassert (n > 0);
     if n > nr_free s then Some (None, s)
     else do {
       page \<leftarrow> best_fit_loop n Free_list None (u32 (nr_free s + 1)) s;
       case page of
         None \<Rightarrow> Some (None, s)
       | Some page \<Rightarrow> Some (Some page, take_block n page s)
     }
   }"

definition best_fit_free_pages :: "nat \<Rightarrow> nat \<Rightarrow> pmm \<Rightarrow> pmm kresult" where
  "best_fit_free_pages base n s = do {
     kassert (n > 0);
     s \<leftarrow> free_pages_loop base n s;
     let s = set_property base n s;
     let s = SetPageProperty base s;
     let s = s\<lparr>nr_free := u32 (nr_free s + n)\<rparr>;
     h \<leftarrow> link_block base (links s);
     let s = s\<lparr>links := h\<rparr>;
     let (base, s) = merge_prev base s;
     Some (merge_next base s)
   }"

definition best_fit_nr_free_pages :: "pmm \<Rightarrow> nat" where
  "best_fit_nr_free_pages s = nr_free s"

lemma best_fit_shared:
  "best_fit_init = default_init" "best_fit_init_memmap = default_init_memmap"
  "best_fit_free_pages = default_free_pages" "best_fit_nr_free_pages = default_nr_free_pages"
  by (simp_all add: fun_eq_iff best_fit_init_def default_init_def best_fit_init_memmap_def
      default_init_memmap_def best_fit_free_pages_def default_free_pages_def best_fit_nr_free_pages_def
      default_nr_free_pages_def)

subsection \<open>The search\<close>

text \<open>What the loop computes on the list of heads, and why it is the smallest block that fits.\<close>

fun best_of :: "nat \<Rightarrow> (nat \<Rightarrow> nat) \<Rightarrow> nat option \<Rightarrow> nat \<Rightarrow> nat list \<Rightarrow> nat option" where
  "best_of n f best m [] = best"
| "best_of n f best m (x # xs) =
     (if n \<le> f x \<and> f x < m then if f x = n then Some x else best_of n f (Some x) (f x) xs
      else best_of n f best m xs)"

lemma best_fit_loop_eq:
  assumes "dlist (links s) Free_list (map Page_link (as @ bs))"
  shows "best_fit_loop n (last (Free_list # map Page_link as)) best m s =
         Some (best_of n (\<lambda>p. property_of p s) best m bs)"
  using assms
proof (induction bs arbitrary: as best m)
  case Nil
  then show ?case
    using ll.succ_holds [of "links s" Free_list "map Page_link as" "[]"]
    by (subst best_fit_loop.simps) simp
next
  case (Cons b bs)
  have nx: "list_next (last (Free_list # map Page_link as)) (links s) = Page_link b"
    using ll.succ_holds [of "links s" Free_list "map Page_link as" "map Page_link (b # bs)"] Cons.prems
    by simp
  have "best_fit_loop n (Page_link b) best m s = Some (best_of n (\<lambda>p. property_of p s) best m bs)" for best m
    using Cons.IH [of "as @ [b]"] Cons.prems by simp
  then show ?case using nx by (subst best_fit_loop.simps) (simp add: Let_def)
qed

definition is_best :: "nat \<Rightarrow> (nat \<Rightarrow> nat) \<Rightarrow> nat list \<Rightarrow> nat option \<Rightarrow> bool" where
  "is_best n f xs r \<longleftrightarrow> (case r of
     None \<Rightarrow> \<forall>x\<in>set xs. f x < n
   | Some p \<Rightarrow> p \<in> set xs \<and> n \<le> f p \<and> (\<forall>x\<in>set xs. n \<le> f x \<longrightarrow> f p \<le> f x))"

lemma best_of_is_best:
  assumes "is_best n f as best" and "case best of None \<Rightarrow> \<forall>x\<in>set xs. f x < m | Some p \<Rightarrow> m = f p"
  shows "is_best n f (as @ xs) (best_of n f best m xs)"
  using assms
proof (induction xs arbitrary: as best m)
  case (Cons x xs)
  show ?case
  proof (cases "n \<le> f x \<and> f x < m")
    case True
    then have "is_best n f (as @ [x]) (Some x)"
      using Cons.prems by (cases best) (fastforce simp: is_best_def)+
    then show ?thesis
      using True Cons.IH [of "as @ [x]" "Some x" "f x"] by (auto simp: is_best_def)
  next
    case False
    then have "is_best n f (as @ [x]) best"
      using Cons.prems by (auto simp: is_best_def split: option.splits)
    then show ?thesis
      using False Cons.IH [of "as @ [x]" best m] Cons.prems(2) by (auto split: option.splits)
  qed
qed simp

lemma best_fit_alloc_pages_eq:
  assumes inv: "pmm_inv s xs" and n: "0 < n" and lt: "nr_free s + 1 < 2 ^ 32"
  obtains r where "is_best n (\<lambda>p. property_of p s) xs r"
    "best_fit_alloc_pages n s = (case r of None \<Rightarrow> Some (None, s) | Some p \<Rightarrow> Some (Some p, take_block n p s))"
proof (cases "n > nr_free s")
  case True
  then have "is_best n (\<lambda>p. property_of p s) xs None"
    using pmm_inv_property_le [OF inv] by (fastforce simp: is_best_def)
  then show ?thesis using that [of None] True n by (simp add: best_fit_alloc_pages_def)
next
  case False
  let ?r = "best_of n (\<lambda>p. property_of p s) None (nr_free s + 1) xs"
  have "is_best n (\<lambda>p. property_of p s) ([] @ xs) ?r"
    using pmm_inv_property_le [OF inv] by (intro best_of_is_best) (auto simp: is_best_def less_Suc_eq_le)
  moreover have "best_fit_loop n Free_list None (nr_free s + 1) s = Some ?r"
    using best_fit_loop_eq [of s "[]" xs n] pmm_inv_parts(1) [OF inv] by simp
  ultimately show ?thesis
    using that [of ?r] False n lt by (simp add: best_fit_alloc_pages_def split: option.splits)
qed

text \<open>\<open>bf_rep\<close>: as \<open>ff_rep\<close>, for a memory whose page count leaves room for \<open>nr_free + 1\<close>.\<close>

definition bf_rep :: "pmm \<Rightarrow> nat set \<Rightarrow> bool" where
  "bf_rep s F \<longleftrightarrow> ff_rep s F \<and> card F + 1 < 2 ^ 32"

lemma is_best_None_iff:
  assumes "pmm_inv s xs" "coalesced s xs" "0 < n" "is_best n (\<lambda>p. property_of p s) xs r"
  shows "r = None \<longleftrightarrow> (\<forall>p. \<not> {p..<p + n} \<subseteq> free_set s xs)"
proof -
  have "r = None \<longleftrightarrow> find (\<lambda>p. n \<le> property_of p s) xs = None"
    using assms(4) by (cases r) (auto simp: is_best_def find_None_iff not_le)
  then show ?thesis using alloc_find [OF assms(1-3)] by simp
qed

lemma best_fit_alloc_rep:
  assumes rep: "bf_rep s F" and n: "0 < n"
  obtains xs r where "pmm_inv s xs" "coalesced s xs" "free_set s xs = F" "is_best n (\<lambda>p. property_of p s) xs r"
    "best_fit_alloc_pages n s = (case r of None \<Rightarrow> Some (None, s) | Some p \<Rightarrow> Some (Some p, take_block n p s))"
    "\<forall>q\<in>F. \<not> PageReserved q s"
proof -
  obtain xs where xs: "pmm_inv s xs" "coalesced s xs" "free_set s xs = F" and un: "\<forall>q\<in>F. \<not> PageReserved q s"
    using rep by (auto simp: bf_rep_def ff_rep_def)
  have "nr_free s + 1 < 2 ^ 32" using rep xs card_free_set(2) [OF xs(1)] by (simp add: bf_rep_def)
  then show ?thesis
    by (rule best_fit_alloc_pages_eq [OF xs(1) n]) (rule that [OF xs], assumption+, rule un)
qed


lemma bf_rep_iff: "bf_rep s F \<longleftrightarrow> ff_rep s F \<and> card F < 2 ^ 32 - 1"
  by (auto simp: bf_rep_def)

interpretation bf: pmm_manager best_fit_init best_fit_init_memmap best_fit_alloc_pages best_fit_free_pages
  best_fit_nr_free_pages bf_rep PageReserved PageProperty below_tail "2 ^ 32 - 1"
proof (unfold_locales, unfold best_fit_shared, goal_cases)
  case (1 s)
  then show ?case using ff.init_rep by (simp add: bf_rep_def)
next
  case (2 s F n b)
  have "card (F \<union> {b..<b + n}) \<le> card F + n" using card_Un_le [of F "{b..<b + n}"] by simp
  then show ?case using 2 ff.memmap_rep [of s F n b] by (auto simp: bf_rep_iff)
next
  case (3 s F)
  then show ?case using ff.rep_finite by (auto simp: bf_rep_def)
next
  case (4 s F)
  then show ?case using ff.rep_count by (auto simp: bf_rep_def)
next
  case (5 s F q)
  then show ?case using ff.rep_unreserved by (auto simp: bf_rep_def)
next
  case (6 s F n)
  from 6(1,2) show ?case
  proof (rule best_fit_alloc_rep)
    fix xs r assume a: "pmm_inv s xs" "coalesced s xs" "free_set s xs = F" "is_best n (\<lambda>p. property_of p s) xs r"
      "best_fit_alloc_pages n s = (case r of None \<Rightarrow> Some (None, s) | Some p \<Rightarrow> Some (Some p, take_block n p s))"
    then have "r = None" using is_best_None_iff [OF a(1,2) 6(2) a(4)] 6(3) by blast
    then show ?thesis using a(5) by simp
  qed
next
  case (7 s F n p)
  from 7(1,2) show ?case
  proof (rule best_fit_alloc_rep)
    fix xs r assume a: "pmm_inv s xs" "coalesced s xs" "free_set s xs = F" "is_best n (\<lambda>p. property_of p s) xs r"
      "best_fit_alloc_pages n s = (case r of None \<Rightarrow> Some (None, s) | Some p \<Rightarrow> Some (Some p, take_block n p s))"
      and un: "\<forall>q\<in>F. \<not> PageReserved q s"
    obtain x where x: "r = Some x" using is_best_None_iff [OF a(1,2) 7(2) a(4)] 7(3) a(3) by blast
    then have "x \<in> set xs" "n \<le> property_of x s" using a(4) by (auto simp: is_best_def)
    note t = take_block_rep [OF a(1,2) 7(2) this, unfolded a(3), OF un]
    have "card (F - {x..<x + n}) \<le> card F" using ff.rep_finite [of s F] 7(1) by (intro card_mono) (auto simp: bf_rep_def)
    then have "bf_rep (take_block n x s) (F - {x..<x + n})" using t(2) 7(1) by (simp add: bf_rep_def)
    then show ?thesis using a(5) x t(1,3) by auto
  qed
next
  case (8 s F n b)
  have "card (F \<union> {b..<b + n}) \<le> card F + n" using card_Un_le [of F "{b..<b + n}"] by simp
  then show ?case using 8 ff.free_rep [of s F n b] by (auto simp: bf_rep_iff)
qed

subsection \<open>Properties\<close>

text \<open>
  C5: on a well-formed, coalesced free list \<open>best_fit_alloc_pages\<close> returns; it hands out a block no other
  block that is large enough is smaller than, and NULL exactly when no \<open>n\<close> contiguous pages are free.
\<close>

theorem best_fit_alloc_pages_correct:
  assumes "pmm_inv s xs" and "coalesced s xs" and "0 < n" and "best_fit_nr_free_pages s + 1 < 2 ^ 32"
  shows "\<exists>r t. best_fit_alloc_pages n s = Some (r, t) \<and>
    (case r of
       None \<Rightarrow> t = s \<and> (\<forall>p. \<not> {p..<p + n} \<subseteq> free_set s xs)
     | Some p \<Rightarrow> p \<in> set xs \<and> n \<le> property_of p s \<and>
         (\<forall>q\<in>set xs. n \<le> property_of q s \<longrightarrow> property_of p s \<le> property_of q s) \<and>
         (\<exists>ys. pmm_inv t ys \<and> coalesced t ys \<and> free_set t ys = free_set s xs - {p..<p + n}))"
proof -
  obtain r where r: "is_best n (\<lambda>p. property_of p s) xs r"
    "best_fit_alloc_pages n s = (case r of None \<Rightarrow> Some (None, s) | Some p \<Rightarrow> Some (Some p, take_block n p s))"
    using best_fit_alloc_pages_eq [OF assms(1,3)] assms(4) unfolding best_fit_nr_free_pages_def by blast
  show ?thesis
  proof (cases r)
    case None
    then show ?thesis using r is_best_None_iff [OF assms(1-3) r(1)] by simp
  next
    case (Some p)
    then have p: "p \<in> set xs" "n \<le> property_of p s" using r(1) by (auto simp: is_best_def)
    obtain as bs where xs: "xs = as @ p # bs" using p(1) by (meson split_list)
    note inv = assms(1) [unfolded xs]
    have "\<exists>ys. pmm_inv (take_block n p s) ys \<and> coalesced (take_block n p s) ys \<and>
        free_set (take_block n p s) ys = free_set s xs - {p..<p + n}"
      using take_block_inv [OF inv assms(3) p(2)] take_block_free_set [OF inv assms(3) p(2)]
        take_block_coalesced [OF inv assms(3) p(2) assms(2) [unfolded xs]] unfolding xs by blast
    then show ?thesis using r Some by (simp add: is_best_def)
  qed
qed

theorem best_fit_alloc_pages_correct_witness:
  "\<exists>r t. best_fit_alloc_pages 3 two_blocks = Some (r, t) \<and> r = Some 5"
proof -
  have n5: "best_fit_nr_free_pages two_blocks + 1 < 2 ^ 32"
    by (simp add: best_fit_nr_free_pages_def two_blocks_fields)
  obtain r t where r: "best_fit_alloc_pages 3 two_blocks = Some (r, t)"
    "case r of None \<Rightarrow> t = two_blocks \<and> (\<forall>p. \<not> {p..<p + 3} \<subseteq> free_set two_blocks [0, 5])
     | Some p \<Rightarrow> p \<in> set [0, 5] \<and> 3 \<le> property_of p two_blocks \<and>
         (\<forall>q\<in>set [0, 5]. 3 \<le> property_of q two_blocks \<longrightarrow> property_of p two_blocks \<le> property_of q two_blocks) \<and>
         (\<exists>ys. pmm_inv t ys \<and> coalesced t ys \<and> free_set t ys = free_set two_blocks [0, 5] - {p..<p + 3})"
    using best_fit_alloc_pages_correct [OF two_blocks_inv _ n5, of 3] by auto
  have "{5..<5 + 3} \<subseteq> {0, 1, 5, 6, 7 :: nat}" by auto
  then have "r \<noteq> None" using r(2) unfolding two_blocks_fields by (cases r; simp only: option.case; blast)
  then show ?thesis using r by (auto simp: two_blocks_def property_of_def)
qed

text \<open>
  C6: a client of the best-fit manager is as safe as one of the first-fit manager: in every run whose
  releases lie below the last free block, held blocks are disjoint and no page is lost.
\<close>

theorem best_fit_run_safe:
  assumes "pmm_run best_fit_alloc_pages best_fit_free_pages below_tail s0 s held"
    and "bf_rep s0 F0"
  shows "held_disjoint held \<and> held_set held \<subseteq> F0 \<and>
    best_fit_nr_free_pages s + sum_list (map snd held) = best_fit_nr_free_pages s0 \<and>
    (\<forall>p n. (p, n) \<in> set held \<longrightarrow> below_tail p s \<longrightarrow> best_fit_free_pages p n s \<noteq> None)"
proof -
  have "card F0 < 2 ^ 32 - 1" using assms(2) by (simp add: bf_rep_iff)
  from bf.run_safe [OF assms this] show ?thesis by blast
qed

theorem best_fit_run_safe_witness:
  "\<exists>s0 s p. boot_pmm 7 = Some s0 \<and> best_fit_alloc_pages 3 s0 = Some (Some p, s) \<and>
     best_fit_nr_free_pages s + 3 = best_fit_nr_free_pages s0"
proof -
  obtain s0 where s0: "boot_pmm 7 = Some s0" "bf_rep s0 {0..<7}"
    using boot_pmm_rep [of 7] by (auto simp: bf_rep_def)
  then obtain p s where ps: "best_fit_alloc_pages 3 s0 = Some (Some p, s)"
    using bf.alloc_succeeds [OF s0(2), of 3 0] by auto
  have "pmm_run best_fit_alloc_pages best_fit_free_pages below_tail s0 s [(p, 3)]"
    using run_alloc [where alloc = best_fit_alloc_pages and r = "Some p" and held = "[]" and n = 3,
        OF run_start _ ps] by simp
  from best_fit_run_safe [OF this s0(2)] show ?thesis using s0(1) ps by auto
qed

end
