(* ===== verification/Proc_Struct.thy ===== *)
theory Proc_Struct
  imports Kernel_List
begin

section \<open>Processes and the state of the process subsystem\<close>

text \<open>
  kern/process/proc.h, kern/schedule/sched.h, kern/sync/wait.h, kern/sync/sem.h. Pointers to a
  structure are natural numbers, \<open>None\<close> is \<open>NULL\<close>; the structures live in maps indexed by them. All
  list entries of the subsystem are addresses of one type \<open>kle\<close>, one constructor for each list head and
  for each \<open>list_entry_t\<close> member, and their link fields are one pair of maps, so that a list operation
  that wrote outside its list would be visible. A context holds what \<open>alloc_proc\<close> and \<open>copy_thread\<close> put there; the
  registers that \<open>switch_to\<close>, in assembler, saves in it are not modelled.
\<close>

datatype proc_state = PROC_UNINIT | PROC_SLEEPING | PROC_RUNNABLE | PROC_ZOMBIE

text \<open>\<open>struct context\<close>: \<open>ra\<close>, \<open>sp\<close> and the twelve registers \<open>s0\<close> to \<open>s11\<close>. \<open>tf\<close> is the address of the trap frame.\<close>

record saved_context =
  ctx_ra :: nat
  ctx_sp :: nat
  ctx_s :: "nat list"

definition zero_context :: saved_context where "zero_context = \<lparr>ctx_ra = 0, ctx_sp = 0, ctx_s = replicate 12 0\<rparr>"

record proc_struct =
  state :: proc_state
  pid :: int
  runs :: int
  kstack :: nat
  need_resched :: bool
  parent :: "nat option"
  mm :: "nat option"
  ctx :: saved_context
  tf :: "nat option"
  pgdir :: nat
  pflags :: "32 word"
  pname :: string
  exit_code :: int
  wait_state :: "32 word"
  cptr :: "nat option"
  yptr :: "nat option"
  optr :: "nat option"
  rq :: "nat option"
  time_slice :: int
  lab6_stride :: "32 word"
  lab6_priority :: "32 word"
  filesp :: "nat option"

definition PF_EXITING :: "32 word" where "PF_EXITING = 0x00000001"
definition WT_INTERRUPTED :: "32 word" where "WT_INTERRUPTED = 0x80000000"
definition WT_CHILD :: "32 word" where "WT_CHILD = 0x80000001"
definition WT_KSEM :: "32 word" where "WT_KSEM = 0x00000100"
definition WT_TIMER :: "32 word" where "WT_TIMER = 0x80000002"
definition WT_KBD :: "32 word" where "WT_KBD = 0x80000004"
definition MAX_PROCESS :: int where "MAX_PROCESS = 4096"
definition MAX_PID :: int where "MAX_PID = MAX_PROCESS * 2"

datatype kle =
    Run_list | Run_link nat
  | Timer_list | Timer_link nat
  | Proc_list | List_link nat
  | Hash_list nat | Hash_link nat
  | Wait_head nat | Wait_link nat

text \<open>\<open>le2proc\<close>, \<open>le2timer\<close> and \<open>le2wait\<close>: the structure an entry is embedded in.\<close>

fun le2proc :: "kle \<Rightarrow> nat" where
  "le2proc (Run_link p) = p"
| "le2proc (List_link p) = p"
| "le2proc (Hash_link p) = p"

fun le2timer :: "kle \<Rightarrow> nat" where
  "le2timer (Timer_link t) = t"

fun le2wait :: "kle \<Rightarrow> nat" where
  "le2wait (Wait_link w) = w"

record skew_heap =
  par :: "nat \<Rightarrow> nat option"
  lft :: "nat \<Rightarrow> nat option"
  rgt :: "nat \<Rightarrow> nat option"

record run_queue =
  proc_num :: nat  \<comment> \<open>\<open>unsigned int\<close>\<close>
  max_time_slice :: int
  lab6_run_pool :: "nat option"

record timer =
  expires :: nat  \<comment> \<open>\<open>unsigned int\<close>\<close>
  tproc :: "nat option"

record wait =
  wproc :: "nat option"
  wakeup_flags :: "32 word"
  wait_queue :: "nat option"

record kst =
  procs :: "nat \<Rightarrow> proc_struct"
  klinks :: "kle links"
  pool :: skew_heap
  run_q :: run_queue
  current :: "nat option"
  idleproc :: "nat option"
  initproc :: "nat option"
  satp :: nat
  timers :: "nat \<Rightarrow> timer"
  waits :: "nat \<Rightarrow> wait"
  sem_value :: "nat \<Rightarrow> int"
  nr_process :: int
  last_pid :: int
  next_safe :: int

text \<open>The only run queue is \<open>__rq\<close> of sched.c; \<open>the_rq\<close> is its address.\<close>

definition the_rq :: nat where "the_rq = 0"

definition upd_proc :: "nat \<Rightarrow> (proc_struct \<Rightarrow> proc_struct) \<Rightarrow> kst \<Rightarrow> kst" where
  "upd_proc p f s = s\<lparr>procs := (procs s)(p := f (procs s p))\<rparr>"

definition upd_klinks :: "(kle links \<Rightarrow> kle links) \<Rightarrow> kst \<Rightarrow> kst" where
  "upd_klinks f s = s\<lparr>klinks := f (klinks s)\<rparr>"

definition upd_rq :: "(run_queue \<Rightarrow> run_queue) \<Rightarrow> kst \<Rightarrow> kst" where
  "upd_rq f s = s\<lparr>run_q := f (run_q s)\<rparr>"

named_theorems kst_simps \<open>reading back the state of the process subsystem\<close>

lemma upd_fields [kst_simps]:
  "procs (upd_proc p f s) = (procs s)(p := f (procs s p))" "klinks (upd_proc p f s) = klinks s"
  "pool (upd_proc p f s) = pool s" "run_q (upd_proc p f s) = run_q s" "current (upd_proc p f s) = current s"
  "idleproc (upd_proc p f s) = idleproc s" "timers (upd_proc p f s) = timers s"
  "waits (upd_proc p f s) = waits s" "sem_value (upd_proc p f s) = sem_value s"
  "procs (upd_klinks g s) = procs s" "klinks (upd_klinks g s) = g (klinks s)" "pool (upd_klinks g s) = pool s"
  "run_q (upd_klinks g s) = run_q s" "current (upd_klinks g s) = current s"
  "idleproc (upd_klinks g s) = idleproc s" "timers (upd_klinks g s) = timers s"
  "waits (upd_klinks g s) = waits s" "sem_value (upd_klinks g s) = sem_value s"
  "procs (upd_rq k s) = procs s" "klinks (upd_rq k s) = klinks s" "pool (upd_rq k s) = pool s"
  "run_q (upd_rq k s) = k (run_q s)" "current (upd_rq k s) = current s" "idleproc (upd_rq k s) = idleproc s"
  "timers (upd_rq k s) = timers s" "waits (upd_rq k s) = waits s" "sem_value (upd_rq k s) = sem_value s"
  by (simp_all add: upd_proc_def upd_klinks_def upd_rq_def)

end
