(* ===== verification/Sched.thy ===== *)
theory Sched
  imports Proc_Struct
begin

section \<open>The core scheduler (kern/schedule/sched.c)\<close>

text \<open>
  \<open>sched_class\<close> is the structure of function pointers of sched.h; the core calls through it. A context
  switch is \<open>proc_run\<close>: it makes \<open>next\<close> the current process and loads its page table. What a process
  does after its own call of \<open>schedule\<close> returns happens when it is switched to again.
\<close>

subsection \<open>Operations\<close>

record sched_class =
  sc_name :: string
  sc_init :: "kst \<Rightarrow> kst"
  sc_enqueue :: "nat \<Rightarrow> kst \<Rightarrow> kst kresult"
  sc_dequeue :: "nat \<Rightarrow> kst \<Rightarrow> kst kresult"
  sc_pick_next :: "kst \<Rightarrow> (nat option \<times> kst) kresult"
  sc_proc_tick :: "nat \<Rightarrow> kst \<Rightarrow> kst kresult"

definition MAX_TIME_SLICE :: int where "MAX_TIME_SLICE = 5"

definition sched_class_enqueue :: "sched_class \<Rightarrow> nat \<Rightarrow> kst \<Rightarrow> kst kresult" where
  "sched_class_enqueue cls p s = (if Some p \<noteq> idleproc s then sc_enqueue cls p s else Some s)"

definition sched_class_dequeue :: "sched_class \<Rightarrow> nat \<Rightarrow> kst \<Rightarrow> kst kresult" where
  "sched_class_dequeue cls p s = sc_dequeue cls p s"

definition sched_class_pick_next :: "sched_class \<Rightarrow> kst \<Rightarrow> (nat option \<times> kst) kresult" where
  "sched_class_pick_next cls s = sc_pick_next cls s"

definition sched_class_proc_tick :: "sched_class \<Rightarrow> nat \<Rightarrow> kst \<Rightarrow> kst kresult" where
  "sched_class_proc_tick cls p s =
     (if Some p \<noteq> idleproc s then sc_proc_tick cls p s
      else Some (upd_proc p (\<lambda>d. d\<lparr>need_resched := True\<rparr>) s))"

definition sched_init :: "sched_class \<Rightarrow> kst \<Rightarrow> kst" where
  "sched_init cls s =
     (let s = upd_klinks (list_init Timer_list) s;
          s = upd_rq (\<lambda>q. q\<lparr>max_time_slice := MAX_TIME_SLICE\<rparr>) s
      in sc_init cls s)"

definition wakeup_proc :: "sched_class \<Rightarrow> nat \<Rightarrow> kst \<Rightarrow> kst kresult" where
  "wakeup_proc cls p s = do {
     kassert (state (procs s p) \<noteq> PROC_ZOMBIE);
     if state (procs s p) \<noteq> PROC_RUNNABLE
     then let s = upd_proc p (\<lambda>d. d\<lparr>state := PROC_RUNNABLE, wait_state := 0\<rparr>) s in
          if Some p \<noteq> current s then sched_class_enqueue cls p s else Some s
     else Some s
   }"

definition proc_run :: "nat \<Rightarrow> kst \<Rightarrow> kst" where
  "proc_run p s =
     (if Some p \<noteq> current s then s\<lparr>current := Some p, satp := pgdir (procs s p)\<rparr> else s)"

definition schedule :: "sched_class \<Rightarrow> kst \<Rightarrow> kst kresult" where
  "schedule cls s = do {
     cur \<leftarrow> current s;
     let s = upd_proc cur (\<lambda>d. d\<lparr>need_resched := False\<rparr>) s;
     s \<leftarrow> (if state (procs s cur) = PROC_RUNNABLE then sched_class_enqueue cls cur s else Some s);
     (next, s) \<leftarrow> sched_class_pick_next cls s;
     s \<leftarrow> (case next of Some p \<Rightarrow> sched_class_dequeue cls p s | None \<Rightarrow> Some s);
     next \<leftarrow> (case next of Some p \<Rightarrow> Some p | None \<Rightarrow> idleproc s);
     let s = upd_proc next (\<lambda>d. d\<lparr>runs := runs d + 1\<rparr>) s;
     Some (if Some next \<noteq> current s then proc_run next s else s)
   }"

subsection \<open>The contract of a scheduling class\<close>

text \<open>
  \<open>core\<close> is what a scheduling class must leave alone, \<open>queue_part\<close> is all that it may read or write.
  \<open>ready s R\<close>: the class has exactly the processes \<open>R\<close> queued; \<open>detached p s\<close>: process \<open>p\<close> may be queued.
\<close>

definition core :: "kst \<Rightarrow> (nat \<Rightarrow> proc_state \<times> 32 word \<times> int \<times> nat) \<times> nat option \<times> nat option" where
  "core s = (\<lambda>p. (state (procs s p), wait_state (procs s p), runs (procs s p), pgdir (procs s p)),
             current s, idleproc s)"

definition queue_part ::
  "kst \<Rightarrow> kle links \<times> skew_heap \<times> run_queue \<times> (nat \<Rightarrow> nat option \<times> int \<times> 32 word \<times> 32 word)" where
  "queue_part s = (klinks s, pool s, run_q s,
     \<lambda>p. (rq (procs s p), time_slice (procs s p), lab6_stride (procs s p), lab6_priority (procs s p)))"

text \<open>
  \<open>keeps s t\<close>: between \<open>s\<close> and \<open>t\<close> only the run queue's own data and the scheduling fields of processes
  changed. Lists made of other entries (\<open>foreign\<close>) stay as they are.
\<close>

definition foreign :: "kle list \<Rightarrow> bool" where
  "foreign zs \<longleftrightarrow> Run_list \<notin> set zs \<and> (\<forall>p. Run_link p \<notin> set zs)"

definition identity :: "proc_struct \<Rightarrow> int \<times> nat \<times> nat option \<times> nat option \<times> 32 word \<times> string \<times> int \<times>
    (nat option \<times> nat option \<times> nat option) \<times> nat option" where
  "identity d = (pid d, kstack d, parent d, mm d, pflags d, pname d, exit_code d, (cptr d, yptr d, optr d), filesp d)"

definition keeps :: "kst \<Rightarrow> kst \<Rightarrow> bool" where
  "keeps s t \<longleftrightarrow> timers t = timers s \<and> waits t = waits s \<and> sem_value t = sem_value s \<and>
     initproc t = initproc s \<and> nr_process t = nr_process s \<and> last_pid t = last_pid s \<and> next_safe t = next_safe s \<and>
     (\<forall>p. identity (procs t p) = identity (procs s p)) \<and>
     (\<forall>d zs. foreign (d # zs) \<longrightarrow> dlist (klinks s) d zs \<longrightarrow> dlist (klinks t) d zs)"

lemma keeps_refl [simp]: "keeps s s"
  by (simp add: keeps_def)

lemma keeps_trans: "keeps s t \<Longrightarrow> keeps t u \<Longrightarrow> keeps s u"
  by (simp add: keeps_def)

lemma keepsD:
  assumes "keeps s t"
  shows "timers t = timers s" "waits t = waits s" "sem_value t = sem_value s"
    "foreign (d # zs) \<Longrightarrow> dlist (klinks s) d zs \<Longrightarrow> dlist (klinks t) d zs"
    "identity (procs t p) = identity (procs s p)"
  using assms by (simp_all add: keeps_def)

text \<open>Updates outside what \<open>keeps\<close> protects.\<close>

lemma keeps_updates [simp]:
  "(\<And>d. identity (f d) = identity d) \<Longrightarrow> keeps s (upd_proc p f t) = keeps s t"
  "keeps s (upd_rq g t) = keeps s t" "keeps s (t\<lparr>pool := h\<rparr>) = keeps s t"
  "keeps s (proc_run n t) = keeps s t"
  by (auto simp: keeps_def kst_simps upd_proc_def upd_rq_def proc_run_def)

lemma keeps_links:
  "(\<And>d zs. foreign (d # zs) \<Longrightarrow> dlist (klinks t) d zs \<Longrightarrow> dlist (g (klinks t)) d zs) \<Longrightarrow> keeps s t \<Longrightarrow>
   keeps s (upd_klinks g t)"
  by (auto simp: keeps_def upd_klinks_def)

lemma foreign_run_enqueue:
  "dlist h Run_list (map Run_link xs) \<Longrightarrow> foreign (d # zs) \<Longrightarrow> dlist h d zs \<Longrightarrow>
   dlist (list_add_before Run_list (Run_link p) h) d zs"
  by (erule ll.enqueue_others) (auto simp: foreign_def)

lemma foreign_run_dequeue:
  "dlist h Run_list (map Run_link xs @ Run_link p # map Run_link ys) \<Longrightarrow> foreign (d # zs) \<Longrightarrow> dlist h d zs \<Longrightarrow>
   dlist (list_del_init (Run_link p) h) d zs"
  by (erule ll.del_init_others) (auto simp: foreign_def)

text \<open>
  \<open>run_same s t\<close>: the data of the run queue is the same, up to links of entries of other lists.
\<close>

definition run_entries :: "kle list \<Rightarrow> bool" where
  "run_entries zs \<longleftrightarrow> set zs \<subseteq> insert Run_list (range Run_link)"

definition run_same :: "kst \<Rightarrow> kst \<Rightarrow> bool" where
  "run_same s t \<longleftrightarrow> pool t = pool s \<and> run_q t = run_q s \<and>
     (\<forall>p. rq (procs t p) = rq (procs s p) \<and> time_slice (procs t p) = time_slice (procs s p) \<and>
       lab6_stride (procs t p) = lab6_stride (procs s p) \<and> lab6_priority (procs t p) = lab6_priority (procs s p)) \<and>
     (\<forall>d zs. run_entries (d # zs) \<longrightarrow> dlist (klinks s) d zs \<longrightarrow> dlist (klinks t) d zs)"

lemma queue_part_run_same: "queue_part t = queue_part s \<Longrightarrow> run_same s t"
  by (auto simp: run_same_def queue_part_def fun_eq_iff)

text \<open>The invariant of the core also bounds the number of processes, which \<open>proc_num\<close> counts in 32 bits.\<close>

lemma core_eqD:
  assumes "core t = core s"
  shows "state (procs t p) = state (procs s p)" "wait_state (procs t p) = wait_state (procs s p)"
    "runs (procs t p) = runs (procs s p)" "pgdir (procs t p) = pgdir (procs s p)"
    "current t = current s" "idleproc t = idleproc s"
  using assms by (auto simp: core_def fun_eq_iff)

text \<open>
  The invariant of the core over the finitely many allocated processes \<open>A\<close>: queued are exactly the runnable
  processes other than the current one and the idle process.
\<close>

locale sched_class =
  fixes cls :: sched_class
    and ready :: "kst \<Rightarrow> nat set \<Rightarrow> bool"
    and detached :: "nat \<Rightarrow> kst \<Rightarrow> bool"
  assumes enqueue_ok: "ready s R \<Longrightarrow> p \<notin> R \<Longrightarrow> detached p s \<Longrightarrow> finite R \<Longrightarrow> card (insert p R) < 2 ^ 32 \<Longrightarrow>
      \<exists>t. sc_enqueue cls p s = Some t \<and> ready t (insert p R) \<and> core t = core s \<and> keeps s t \<and>
        (\<forall>q. q \<notin> insert p R \<longrightarrow> detached q s \<longrightarrow> detached q t)"
    and dequeue_ok: "ready s R \<Longrightarrow> p \<in> R \<Longrightarrow>
      \<exists>t. sc_dequeue cls p s = Some t \<and> ready t (R - {p}) \<and> core t = core s \<and> keeps s t \<and> detached p t \<and>
        (\<forall>q. q \<notin> R \<longrightarrow> detached q s \<longrightarrow> detached q t)"
    and pick_ok: "ready s R \<Longrightarrow>
      \<exists>r t. sc_pick_next cls s = Some (r, t) \<and> ready t R \<and> core t = core s \<and> keeps s t \<and>
        (case r of None \<Rightarrow> R = {} | Some p \<Rightarrow> p \<in> R) \<and> (\<forall>q. detached q s \<longrightarrow> detached q t)"
    and ready_same: "run_same s t \<Longrightarrow> ready s R \<Longrightarrow> ready t R"
    and detached_same: "run_same s t \<Longrightarrow> detached q s \<Longrightarrow> detached q t"

definition waiting_set :: "nat set \<Rightarrow> kst \<Rightarrow> nat set" where
  "waiting_set A s = {p \<in> A. state (procs s p) = PROC_RUNNABLE \<and> Some p \<noteq> current s \<and> Some p \<noteq> idleproc s}"

definition sched_inv ::
  "(kst \<Rightarrow> nat set \<Rightarrow> bool) \<Rightarrow> (nat \<Rightarrow> kst \<Rightarrow> bool) \<Rightarrow> nat set \<Rightarrow> kst \<Rightarrow> bool" where
  "sched_inv ready detached A s \<longleftrightarrow> finite A \<and> card A < 2 ^ 32 \<and> ready s (waiting_set A s) \<and>
     (\<forall>p\<in>A. p \<notin> waiting_set A s \<longrightarrow> detached p s) \<and>
     (\<exists>c\<in>A. current s = Some c) \<and> (\<exists>i\<in>A. idleproc s = Some i \<and> state (procs s i) = PROC_RUNNABLE)"

definition runnable_set :: "nat set \<Rightarrow> kst \<Rightarrow> nat set" where
  "runnable_set A s = {p \<in> A. state (procs s p) = PROC_RUNNABLE \<and> Some p \<noteq> idleproc s}"

context sched_class
begin

abbreviation inv :: "nat set \<Rightarrow> kst \<Rightarrow> bool" where
  "inv \<equiv> sched_inv ready detached"

lemma ready_part: "queue_part t = queue_part s \<Longrightarrow> ready s R \<Longrightarrow> ready t R"
  by (erule ready_same [OF queue_part_run_same])

lemma detached_part: "queue_part t = queue_part s \<Longrightarrow> detached q s \<Longrightarrow> detached q t"
  by (erule detached_same [OF queue_part_run_same])

text \<open>A change outside the run queue that leaves the states of the processes keeps the invariant.\<close>

lemma inv_same:
  assumes "inv A s" "run_same s t" "\<And>p. p \<in> A \<Longrightarrow> Some p \<noteq> current s \<Longrightarrow> state (procs t p) = state (procs s p)"
    "current t = current s" "idleproc t = idleproc s" "\<And>c. current s = Some c \<Longrightarrow> Some c \<noteq> idleproc s \<or> state (procs t c) = PROC_RUNNABLE"
  shows "inv A t"
proof -
  have "waiting_set A t = waiting_set A s" using assms(3-5) by (auto simp: waiting_set_def)
  moreover have "\<exists>i\<in>A. idleproc t = Some i \<and> state (procs t i) = PROC_RUNNABLE"
    using assms(1,3-6) unfolding sched_inv_def by (metis (no_types, lifting))
  ultimately show ?thesis
    using assms(1,4) ready_same [OF assms(2)] detached_same [OF assms(2)] by (simp add: sched_inv_def)
qed

lemma inv_unchanged:
  assumes "inv A s" "run_same s t" "\<And>p. state (procs t p) = state (procs s p)"
    "current t = current s" "idleproc t = idleproc s"
  shows "inv A t"
proof (rule inv_same [OF assms(1,2)])
  fix c assume "current s = Some c"
  then show "Some c \<noteq> idleproc s \<or> state (procs t c) = PROC_RUNNABLE"
    using assms(1,3) unfolding sched_inv_def by auto
qed (use assms in auto)

lemma queue_bound:
  assumes "inv A s" "p \<in> A"
  shows "finite (waiting_set A s)" "card (insert p (waiting_set A s)) < 2 ^ 32"
proof -
  have fin: "finite A" and lt: "card A < 2 ^ 32" using assms(1) by (auto simp: sched_inv_def)
  show "finite (waiting_set A s)" using fin by (simp add: waiting_set_def)
  have "card (insert p (waiting_set A s)) \<le> card A"
    using assms(2) by (intro card_mono [OF fin]) (auto simp: waiting_set_def)
  then show "card (insert p (waiting_set A s)) < 2 ^ 32" using lt by linarith
qed

lemma wakeup_inv:
  assumes i: "inv A s" and p: "p \<in> A" "state (procs s p) \<noteq> PROC_ZOMBIE"
  shows "\<exists>t. wakeup_proc cls p s = Some t \<and> inv A t \<and> current t = current s \<and> idleproc t = idleproc s \<and> keeps s t \<and>
    (\<forall>q. state (procs t q) = (if q = p then PROC_RUNNABLE else state (procs s q))) \<and>
    (\<forall>q. wait_state (procs t q) =
      (if q = p \<and> state (procs s p) \<noteq> PROC_RUNNABLE then 0 else wait_state (procs s q)))"
proof (cases "state (procs s p) = PROC_RUNNABLE")
  case True
  then show ?thesis using i p by (auto simp: wakeup_proc_def)
next
  case False
  define u where "u = upd_proc p (\<lambda>d. d\<lparr>state := PROC_RUNNABLE, wait_state := 0\<rparr>) s"
  have u: "queue_part u = queue_part s" "current u = current s" "idleproc u = idleproc s"
    "state (procs u q) = (if q = p then PROC_RUNNABLE else state (procs s q))"
    "wait_state (procs u q) = (if q = p then 0 else wait_state (procs s q))" "keeps s u" for q
    by (auto simp: u_def queue_part_def kst_simps identity_def)
  have w: "wakeup_proc cls p s =
      (if Some p \<noteq> current s then sched_class_enqueue cls p u else Some u)"
    using False p by (simp add: wakeup_proc_def u_def kst_simps Let_def)
  have np: "p \<notin> waiting_set A s" using False by (simp add: waiting_set_def)
  have idle: "idleproc s \<noteq> Some p" using i False by (auto simp: sched_inv_def)
  have ru: "ready u (waiting_set A s)" using i ready_part [OF u(1)] by (simp add: sched_inv_def)
  have du: "\<And>q. q \<in> A \<Longrightarrow> q \<notin> waiting_set A s \<Longrightarrow> detached q u"
    using i detached_part [OF u(1)] by (simp add: sched_inv_def)
  show ?thesis
  proof (cases "Some p = current s")
    case True
    then have "waiting_set A u = waiting_set A s" by (auto simp: waiting_set_def u)
    then show ?thesis using w True ru du i u False by (auto simp: sched_inv_def)
  next
    case curr: False
    have ws: "waiting_set A u = insert p (waiting_set A s)"
      using curr idle p(1) by (auto simp: waiting_set_def u)
    obtain t where t: "sc_enqueue cls p u = Some t" "ready t (insert p (waiting_set A s))" "core t = core u"
      "\<forall>q. q \<notin> insert p (waiting_set A s) \<longrightarrow> detached q u \<longrightarrow> detached q t" "keeps u t"
      using enqueue_ok [OF ru np du] np p queue_bound [OF i p(1)] by blast
    note ct = core_eqD [OF t(3)]
    have "waiting_set A t = insert p (waiting_set A s)" using ws by (simp add: waiting_set_def ct)
    then have "inv A t" using t(2,4) du i u ct by (auto simp: sched_inv_def)
    moreover have "keeps s t" using keeps_trans u(6) t(5) by blast
    ultimately show ?thesis using w curr idle t(1) ct u False by (auto simp: sched_class_enqueue_def)
  qed
qed

text \<open>The first half of \<open>schedule\<close>: a current process that is still runnable goes back to the queue.\<close>

lemma requeue_current:
  assumes i: "inv A s" and c: "current s = Some c"
    and u: "u = upd_proc c (\<lambda>d. d\<lparr>need_resched := False\<rparr>) s"
  obtains v where
    "(if state (procs u c) = PROC_RUNNABLE then sched_class_enqueue cls c u else Some u) = Some v"
    "ready v (runnable_set A s)" "core v = core s"
    "\<forall>q\<in>A. q \<notin> runnable_set A s \<longrightarrow> detached q v" "keeps s v"
proof -
  have qu: "queue_part u = queue_part s" "core u = core s" and ku: "keeps s u"
    by (auto simp: u queue_part_def core_def kst_simps identity_def)
  note cu = core_eqD [OF qu(2)]
  have cA: "c \<in> A" using i c by (auto simp: sched_inv_def)
  have ru: "ready u (waiting_set A s)" and du: "\<And>q. q \<in> A \<Longrightarrow> q \<notin> waiting_set A s \<Longrightarrow> detached q u"
    using i ready_part [OF qu(1)] detached_part [OF qu(1)] by (auto simp: sched_inv_def)
  show ?thesis
  proof (cases "state (procs s c) = PROC_RUNNABLE \<and> Some c \<noteq> idleproc s")
    case True
    then have ins: "insert c (waiting_set A s) = runnable_set A s" and nc: "c \<notin> waiting_set A s"
      using cA c by (auto simp: runnable_set_def waiting_set_def)
    obtain v where v: "sc_enqueue cls c u = Some v" "ready v (insert c (waiting_set A s))" "core v = core u"
      "\<forall>q. q \<notin> insert c (waiting_set A s) \<longrightarrow> detached q u \<longrightarrow> detached q v" "keeps u v"
      using enqueue_ok [OF ru nc du] cA nc queue_bound [OF i cA] by blast
    then show ?thesis
      using that [of v] True qu(2) du keeps_trans [OF ku v(5)]
      by (auto simp: sched_class_enqueue_def cu ins [symmetric])
  next
    case False
    then have "waiting_set A s = runnable_set A s"
      using c by (auto simp: runnable_set_def waiting_set_def)
    then show ?thesis
      using that [of u] False ru du qu(2) ku by (auto simp: sched_class_enqueue_def cu)
  qed
qed

lemma schedule_inv:
  assumes i: "inv A s"
  shows "\<exists>t n. schedule cls s = Some t \<and> inv A t \<and> current t = Some n \<and> state (procs t n) = PROC_RUNNABLE \<and>
    (if runnable_set A s = {} then Some n = idleproc s else n \<in> runnable_set A s) \<and>
    runs (procs t n) = runs (procs s n) + 1 \<and>
    (current s \<noteq> Some n \<longrightarrow> satp t = pgdir (procs s n)) \<and> keeps s t \<and> idleproc t = idleproc s \<and>
    (\<forall>q. state (procs t q) = state (procs s q) \<and> wait_state (procs t q) = wait_state (procs s q))"
proof -
  obtain c where c: "current s = Some c" "c \<in> A" using i by (auto simp: sched_inv_def)
  obtain d where d: "idleproc s = Some d" "d \<in> A" "state (procs s d) = PROC_RUNNABLE"
    using i by (auto simp: sched_inv_def)
  let ?u = "upd_proc c (\<lambda>d. d\<lparr>need_resched := False\<rparr>) s"
  obtain v where v: "(if state (procs ?u c) = PROC_RUNNABLE then sched_class_enqueue cls c ?u else Some ?u) = Some v"
    "ready v (runnable_set A s)" "core v = core s" "\<forall>q\<in>A. q \<notin> runnable_set A s \<longrightarrow> detached q v" "keeps s v"
    by (rule requeue_current [OF i c(1) refl]) (rule that; assumption)
  obtain r w where w: "sc_pick_next cls v = Some (r, w)" "ready w (runnable_set A s)" "core w = core v"
    "case r of None \<Rightarrow> runnable_set A s = {} | Some p \<Rightarrow> p \<in> runnable_set A s"
    "\<forall>q. detached q v \<longrightarrow> detached q w" "keeps v w"
    using pick_ok [OF v(2)] by blast
  define n where "n = (case r of Some p \<Rightarrow> p | None \<Rightarrow> d)"
  have n: "r = None \<Longrightarrow> n = d" "\<And>a. r = Some a \<Longrightarrow> n = a" by (auto simp: n_def)
  obtain x where x: "(case r of Some p \<Rightarrow> sc_dequeue cls p w | None \<Rightarrow> Some w) = Some x"
    "ready x (runnable_set A s - {n})" "core x = core s"
    "\<And>q. q \<in> A \<Longrightarrow> q \<notin> runnable_set A s - {n} \<Longrightarrow> detached q x" "keeps w x"
  proof (cases r)
    case None
    then show ?thesis using that [of w] w v by (auto simp: n_def)
  next
    case (Some p)
    then have p: "p \<in> runnable_set A s" using w(4) by simp
    obtain x where "sc_dequeue cls p w = Some x" "ready x (runnable_set A s - {p})" "core x = core w"
      "detached p x" "\<forall>q. q \<notin> runnable_set A s \<longrightarrow> detached q w \<longrightarrow> detached q x" "keeps w x"
      using dequeue_ok [OF w(2) p] by blast
    then show ?thesis using that [of x] w(3,5) v(3,4) Some by (auto simp: n_def)
  qed
  note cx = core_eqD [OF x(3)] and cw = core_eqD [OF w(3)] and cv = core_eqD [OF v(3)]
  define y where "y = upd_proc n (\<lambda>d. d\<lparr>runs := runs d + 1\<rparr>) x"
  define t where "t = (if Some n \<noteq> current y then proc_run n y else y)"
  have t: "queue_part t = queue_part x" "current t = Some n" "idleproc t = idleproc s"
    "\<And>q. state (procs t q) = state (procs s q)" "runs (procs t n) = runs (procs s n) + 1"
    "current s \<noteq> Some n \<longrightarrow> satp t = pgdir (procs s n)"
    "\<And>q. wait_state (procs t q) = wait_state (procs s q)"
    by (auto simp: t_def y_def queue_part_def proc_run_def kst_simps cx)
  have "keeps s x" using v(5) w(6) x(5) keeps_trans by blast
  then have kt: "keeps s t" by (auto simp: t_def y_def identity_def)
  have nr: "if runnable_set A s = {} then Some n = idleproc s else n \<in> runnable_set A s"
    using w(4) d by (auto simp: n_def split: option.splits)
  have nA: "n \<in> A \<and> state (procs s n) = PROC_RUNNABLE"
  proof (cases "runnable_set A s = {}")
    case True
    then show ?thesis using nr d by simp
  next
    case False
    then have "n \<in> runnable_set A s" using nr by simp
    then show ?thesis by (simp add: runnable_set_def)
  qed
  have "waiting_set A t = runnable_set A s - {n}" by (auto simp: waiting_set_def runnable_set_def t)
  then have "inv A t"
    using i x(2,4) ready_part [OF t(1)] detached_part [OF t(1)] nA t(2-4) d
    unfolding sched_inv_def by auto
  moreover have "idleproc x = Some d" using cx d by simp
  then have "schedule cls s = Some t"
    unfolding t_def y_def using c(1) v(1) w(1) x(1) n
    by (cases r; simp only: schedule_def sched_class_pick_next_def sched_class_dequeue_def Let_def
        option.case bind.bind_lunit prod.case; simp)
  ultimately show ?thesis using t nr nA kt by auto
qed

end

end
