(* ===== verification/Skew_Heap.thy ===== *)
theory Skew_Heap
  imports Proc_Struct "HOL-Library.Tree" "HOL-Library.Multiset"
begin

section \<open>Skew heaps with parent pointers (libs/skew_heap.h)\<close>

text \<open>
  The run pool of the stride scheduler. The three pointer fields of all nodes are the maps \<open>par\<close>, \<open>lft\<close>,
  \<open>rgt\<close>; \<open>cmp\<close> is the comparison function the caller passes. The recursion of \<open>skew_heap_merge\<close> follows
  pointers, so that termination is a theorem about well-formed heaps.
\<close>

subsection \<open>Operations\<close>

definition set_par :: "nat \<Rightarrow> nat option \<Rightarrow> skew_heap \<Rightarrow> skew_heap" where
  "set_par x v h = h\<lparr>par := (par h)(x := v)\<rparr>"

definition set_left :: "nat \<Rightarrow> nat option \<Rightarrow> skew_heap \<Rightarrow> skew_heap" where
  "set_left x v h = h\<lparr>lft := (lft h)(x := v)\<rparr>"

definition set_right :: "nat \<Rightarrow> nat option \<Rightarrow> skew_heap \<Rightarrow> skew_heap" where
  "set_right x v h = h\<lparr>rgt := (rgt h)(x := v)\<rparr>"

definition skew_heap_init :: "nat \<Rightarrow> skew_heap \<Rightarrow> skew_heap" where
  "skew_heap_init a h = set_left a None (set_right a None (set_par a None h))"

definition link_child :: "nat \<Rightarrow> nat option \<Rightarrow> nat option \<Rightarrow> skew_heap \<Rightarrow> skew_heap" where
  "link_child a l r h =
     (let h = set_left a l h; h = set_right a r h
      in case l of None \<Rightarrow> h | Some c \<Rightarrow> set_par c (Some a) h)"

partial_function (option) skew_heap_merge ::
  "(nat \<Rightarrow> nat \<Rightarrow> int) \<Rightarrow> nat option \<Rightarrow> nat option \<Rightarrow> skew_heap \<Rightarrow> (nat option \<times> skew_heap) kresult" where
  "skew_heap_merge cmp a b h =
     (case a of None \<Rightarrow> Some (b, h)
      | Some x \<Rightarrow> (case b of None \<Rightarrow> Some (a, h)
         | Some y \<Rightarrow>
           if cmp x y = -1
           then let r = lft h x in do {
                  (l, h) \<leftarrow> skew_heap_merge cmp (rgt h x) b h;
                  Some (a, link_child x l r h)
                }
           else let r = lft h y in do {
                  (l, h) \<leftarrow> skew_heap_merge cmp a (rgt h y) h;
                  Some (b, link_child y l r h)
                }))"

definition skew_heap_insert ::
  "(nat \<Rightarrow> nat \<Rightarrow> int) \<Rightarrow> nat option \<Rightarrow> nat \<Rightarrow> skew_heap \<Rightarrow> (nat option \<times> skew_heap) kresult" where
  "skew_heap_insert cmp a b h = skew_heap_merge cmp a (Some b) (skew_heap_init b h)"

definition skew_heap_remove ::
  "(nat \<Rightarrow> nat \<Rightarrow> int) \<Rightarrow> nat option \<Rightarrow> nat \<Rightarrow> skew_heap \<Rightarrow> (nat option \<times> skew_heap) kresult" where
  "skew_heap_remove cmp a b h = (let p = par h b in do {
     (rep, h) \<leftarrow> skew_heap_merge cmp (lft h b) (rgt h b) h;
     let h = (case rep of None \<Rightarrow> h | Some c \<Rightarrow> set_par c p h);
     case p of
       Some q \<Rightarrow> Some (a, if lft h q = Some b then set_left q rep h else set_right q rep h)
     | None \<Rightarrow> Some (rep, h)
   })"

subsection \<open>The tree a heap represents\<close>

text \<open>\<open>heap_at h p r t\<close>: the pointer \<open>r\<close> leads to the tree \<open>t\<close>, whose root has the parent \<open>p\<close>.\<close>

fun heap_at :: "skew_heap \<Rightarrow> nat option \<Rightarrow> nat option \<Rightarrow> nat tree \<Rightarrow> bool" where
  "heap_at h p r Leaf \<longleftrightarrow> r = None"
| "heap_at h p r (Node t1 x t2) \<longleftrightarrow> r = Some x \<and> par h x = p \<and>
     heap_at h (Some x) (lft h x) t1 \<and> heap_at h (Some x) (rgt h x) t2"

fun tmerge :: "(nat \<Rightarrow> nat \<Rightarrow> int) \<Rightarrow> nat tree \<Rightarrow> nat tree \<Rightarrow> nat tree" where
  "tmerge cmp Leaf t = t"
| "tmerge cmp (Node l1 x r1) Leaf = Node l1 x r1"
| "tmerge cmp (Node l1 x r1) (Node l2 y r2) =
     (if cmp x y = -1 then Node (tmerge cmp r1 (Node l2 y r2)) x l1
      else Node (tmerge cmp (Node l1 x r1) r2) y l2)"

fun tremove :: "(nat \<Rightarrow> nat \<Rightarrow> int) \<Rightarrow> nat \<Rightarrow> nat tree \<Rightarrow> nat tree" where
  "tremove cmp b Leaf = Leaf"
| "tremove cmp b (Node l x r) =
     (if x = b then tmerge cmp l r
      else if b \<in> set_tree l then Node (tremove cmp b l) x r
      else Node l x (tremove cmp b r))"

definition root_is :: "nat option \<Rightarrow> nat tree \<Rightarrow> bool" where
  "root_is r t \<longleftrightarrow> (case t of Leaf \<Rightarrow> r = None | Node _ x _ \<Rightarrow> r = Some x)"

lemma heap_at_root: "heap_at h p r t \<Longrightarrow> root_is r t"
  by (cases t) (auto simp: root_is_def)

lemma heap_at_in: "heap_at h p (Some c) t \<Longrightarrow> c \<in> set_tree t"
  by (cases t) auto

lemma tmerge_set [simp]: "set_tree (tmerge cmp t1 t2) = set_tree t1 \<union> set_tree t2"
  by (induction cmp t1 t2 rule: tmerge.induct) auto

lemma tmerge_mset: "mset (inorder (tmerge cmp t1 t2)) = mset (inorder t1) + mset (inorder t2)"
  by (induction cmp t1 t2 rule: tmerge.induct) auto

lemma tmerge_distinct:
  "distinct (inorder t1) \<Longrightarrow> distinct (inorder t2) \<Longrightarrow> set_tree t1 \<inter> set_tree t2 = {} \<Longrightarrow>
   distinct (inorder (tmerge cmp t1 t2))"
  by (induction cmp t1 t2 rule: tmerge.induct) auto

lemma heap_at_frame:
  "heap_at h p r t \<Longrightarrow> (\<And>z. z \<in> set_tree t \<Longrightarrow> lft h' z = lft h z \<and> rgt h' z = rgt h z \<and> par h' z = par h z) \<Longrightarrow>
   heap_at h' p r t"
  by (induction t arbitrary: p r) auto

text \<open>Only the root's parent field may differ: the tree is the same with another parent.\<close>

lemma heap_at_reparent:
  "heap_at h p r t \<Longrightarrow> distinct (inorder t) \<Longrightarrow>
   heap_at (case r of None \<Rightarrow> h | Some c \<Rightarrow> set_par c q h) q r t"
proof (cases t)
  case (Node l x r')
  assume a: "heap_at h p r t" "distinct (inorder t)"
  have "heap_at (set_par x q h) (Some x) (lft h x) l" "heap_at (set_par x q h) (Some x) (rgt h x) r'"
    using a Node by (auto intro!: heap_at_frame [of h] simp: set_par_def)
  then show ?thesis using a Node by (simp add: set_par_def)
qed simp

subsection \<open>Merge, insert and remove refine the operations on trees\<close>

text \<open>
  \<open>same_but h' h S\<close>: only fields of nodes in \<open>S\<close> differ. The root a merge returns keeps the parent field
  it had; the caller sets it.
\<close>

definition same_but :: "skew_heap \<Rightarrow> skew_heap \<Rightarrow> nat set \<Rightarrow> bool" where
  "same_but h' h S \<longleftrightarrow> (\<forall>z. z \<notin> S \<longrightarrow> lft h' z = lft h z \<and> rgt h' z = rgt h z \<and> par h' z = par h z)"

lemma heap_at_same_but:
  "heap_at h p r t \<Longrightarrow> same_but h' h S \<Longrightarrow> set_tree t \<inter> S = {} \<Longrightarrow> heap_at h' p r t"
  by (erule heap_at_frame) (auto simp: same_but_def)

lemma same_but_link:
  assumes "same_but h' h S" "x \<in> S'" "S \<subseteq> S'" "\<And>c. l = Some c \<Longrightarrow> c \<in> S'"
  shows "same_but (link_child x l r h') h S'"
  using assms by (auto simp: same_but_def link_child_def set_left_def set_right_def set_par_def Let_def
      split: option.splits)

lemma link_child_heap:
  assumes l: "heap_at h q l t1" "distinct (inorder t1)" and r: "heap_at h (Some x) r t2"
    and dis: "x \<notin> set_tree t1" "x \<notin> set_tree t2" "set_tree t1 \<inter> set_tree t2 = {}"
  shows "heap_at (link_child x l r h) (par h x) (Some x) (Node t1 x t2)"
proof -
  let ?h = "set_right x r (set_left x l h)"
  have "heap_at ?h q l t1" using l(1) dis(1)
    by (elim heap_at_frame) (auto simp: set_left_def set_right_def)
  then have l': "heap_at (link_child x l r h) (Some x) l t1"
    using heap_at_reparent [OF _ l(2), of ?h q l "Some x"] by (simp add: link_child_def Let_def)
  have sub: "l = Some c \<Longrightarrow> c \<in> set_tree t1" for c using heap_at_root [OF l(1)] by (cases t1) (auto simp: root_is_def)
  have "heap_at (link_child x l r h) (Some x) r t2"
    using r dis sub by (elim heap_at_frame)
      (fastforce simp: link_child_def Let_def set_left_def set_right_def set_par_def split: option.splits)
  then show ?thesis
    using l' sub dis by (auto simp: link_child_def Let_def set_left_def set_right_def set_par_def split: option.splits)
qed

lemma skew_heap_merge_tree:
  assumes "heap_at h p1 a t1" "heap_at h p2 b t2" "distinct (inorder t1)" "distinct (inorder t2)"
    "set_tree t1 \<inter> set_tree t2 = {}"
  shows "\<exists>r h' p. skew_heap_merge cmp a b h = Some (r, h') \<and> heap_at h' p r (tmerge cmp t1 t2) \<and>
    p \<in> {p1, p2} \<and> same_but h' h (set_tree t1 \<union> set_tree t2)"
  using assms
proof (induction cmp t1 t2 arbitrary: a b p1 p2 h rule: tmerge.induct)
  case (1 cmp t)
  then show ?case by (subst skew_heap_merge.simps) (auto simp: same_but_def)
next
  case (2 cmp l1 x r1)
  then show ?case by (subst skew_heap_merge.simps) (auto simp: same_but_def)
next
  case (3 cmp l1 x r1 l2 y r2)
  have ab: "a = Some x" "b = Some y" using "3.prems" by auto
  have dis: "set_tree r1 \<inter> set_tree (Node l2 y r2) = {}" "set_tree (Node l1 x r1) \<inter> set_tree r2 = {}"
    "set_tree l1 \<inter> set_tree (Node l2 y r2) = {}" "set_tree (Node l1 x r1) \<inter> set_tree l2 = {}"
    using "3.prems"(5) by (simp_all, blast+)
  show ?case
  proof (cases "cmp x y = -1")
    case True
    obtain l h1 p where m: "skew_heap_merge cmp (rgt h x) b h = Some (l, h1)"
      "heap_at h1 p l (tmerge cmp r1 (Node l2 y r2))" "same_but h1 h (set_tree r1 \<union> set_tree (Node l2 y r2))"
      using "3.IH"(1) [OF True, of h "Some x" "rgt h x" p2 b] "3.prems" dis(1) by auto
    have "heap_at h1 (Some x) (lft h x) l1"
      using "3.prems" dis(3) by (intro heap_at_same_but [OF _ m(3)]) auto
    moreover have px: "par h1 x = p1" using m(3) "3.prems" by (auto simp: same_but_def)
    moreover have "distinct (inorder (tmerge cmp r1 (Node l2 y r2)))"
      using "3.prems" by (intro tmerge_distinct) auto
    ultimately have "heap_at (link_child x l (lft h x) h1) p1 (Some x) (Node (tmerge cmp r1 (Node l2 y r2)) x l1)"
      using link_child_heap [OF m(2), of x "lft h x" l1] "3.prems" by auto
    moreover have "same_but (link_child x l (lft h x) h1) h (set_tree (Node l1 x r1) \<union> set_tree (Node l2 y r2))"
      using heap_at_root [OF m(2)] m(3)
      by (intro same_but_link [OF m(3)]) (auto simp: root_is_def split: tree.splits if_splits dest!: arg_cong [of _ _ set_tree])
    ultimately show ?thesis using True m(1) ab by (subst skew_heap_merge.simps) auto
  next
    case False
    obtain l h1 p where m: "skew_heap_merge cmp a (rgt h y) h = Some (l, h1)"
      "heap_at h1 p l (tmerge cmp (Node l1 x r1) r2)" "same_but h1 h (set_tree (Node l1 x r1) \<union> set_tree r2)"
      using "3.IH"(2) [OF False, of h p1 a "Some y" "rgt h y"] "3.prems" dis(2) by auto
    have "heap_at h1 (Some y) (lft h y) l2"
      using "3.prems" dis(4) by (intro heap_at_same_but [OF _ m(3)]) auto
    moreover have px: "par h1 y = p2" using m(3) "3.prems" by (auto simp: same_but_def)
    moreover have "distinct (inorder (tmerge cmp (Node l1 x r1) r2))"
      using "3.prems" by (intro tmerge_distinct) auto
    ultimately have "heap_at (link_child y l (lft h y) h1) p2 (Some y) (Node (tmerge cmp (Node l1 x r1) r2) y l2)"
      using link_child_heap [OF m(2), of y "lft h y" l2] "3.prems" by auto
    moreover have "same_but (link_child y l (lft h y) h1) h (set_tree (Node l1 x r1) \<union> set_tree (Node l2 y r2))"
      using heap_at_root [OF m(2)] m(3)
      by (intro same_but_link [OF m(3)]) (auto simp: root_is_def split: tree.splits if_splits dest!: arg_cong [of _ _ set_tree])
    ultimately show ?thesis using False m(1) ab by (subst skew_heap_merge.simps) auto
  qed
qed

lemma skew_heap_insert_tree:
  assumes "heap_at h None a t" "distinct (inorder t)" "b \<notin> set_tree t"
  shows "\<exists>r h'. skew_heap_insert cmp a b h = Some (r, h') \<and>
    heap_at h' None r (tmerge cmp t (Node Leaf b Leaf)) \<and> same_but h' h (insert b (set_tree t))"
proof -
  let ?h = "skew_heap_init b h"
  have i: "same_but ?h h {b}" "heap_at ?h None (Some b) (Node Leaf b Leaf)"
    by (auto simp: same_but_def skew_heap_init_def set_left_def set_right_def set_par_def)
  have "heap_at ?h None a t" using assms by (intro heap_at_same_but [OF assms(1) i(1)]) auto
  then show ?thesis
    using skew_heap_merge_tree [of ?h None a t None "Some b" "Node Leaf b Leaf" cmp] assms i
    by (fastforce simp: skew_heap_insert_def same_but_def)
qed

text \<open>The subtree at a node, and what replacing it does to the whole tree.\<close>

fun subtree :: "nat \<Rightarrow> nat tree \<Rightarrow> nat tree" where
  "subtree b Leaf = Leaf"
| "subtree b (Node l x r) = (if x = b then Node l x r else if b \<in> set_tree l then subtree b l else subtree b r)"

lemma subtree_set: "set_tree (subtree b t) \<subseteq> set_tree t"
  by (induction t) auto

lemma subtree_heap:
  "heap_at h p r t \<Longrightarrow> b \<in> set_tree t \<Longrightarrow> distinct (inorder t) \<Longrightarrow>
   \<exists>l r'. subtree b t = Node l b r' \<and> heap_at h (par h b) (Some b) (subtree b t) \<and> distinct (inorder (subtree b t))"
  by (induction t arbitrary: p r) auto

lemma parent_in_tree:
  "heap_at h p r t \<Longrightarrow> b \<in> set_tree t \<Longrightarrow> r \<noteq> Some b \<Longrightarrow> distinct (inorder t) \<Longrightarrow>
   \<exists>q\<in>set_tree t. par h b = Some q \<and> q \<notin> set_tree (subtree b t)"
proof (induction t arbitrary: p r)
  case (Node l x r')
  then have nb: "x \<noteq> b" by auto
  have dl: "set_tree l \<inter> set_tree r' = {}" "x \<notin> set_tree l" "x \<notin> set_tree r'"
    using Node.prems(4) by auto
  consider (l) "b \<in> set_tree l" | (r) "b \<in> set_tree r'" "b \<notin> set_tree l" using Node.prems(2) nb by auto
  then show ?case
  proof cases
    case l
    show ?thesis
    proof (cases "lft h x = Some b")
      case True
      then have "par h b = Some x" using Node.prems(1) l by (cases l) auto
      then show ?thesis using l nb dl subtree_set [of b l] by auto
    next
      case False
      then show ?thesis using Node.IH(1) [of "Some x" "lft h x"] Node.prems l nb by auto
    qed
  next
    case r
    show ?thesis
    proof (cases "rgt h x = Some b")
      case True
      then have "par h b = Some x" using Node.prems(1) r by (cases r') auto
      then show ?thesis using r nb dl subtree_set [of b r'] by auto
    next
      case False
      then show ?thesis using Node.IH(2) [of "Some x" "rgt h x"] Node.prems r nb by auto
    qed
  qed
qed simp

lemma replace_subtree:
  assumes "heap_at h q r t" "distinct (inorder t)" "b \<in> set_tree t" "r \<noteq> Some b" "par h b = Some p"
    and rep: "heap_at h' (Some p) rep (tremove cmp b (subtree b t))"
    and out: "\<And>z. z \<notin> insert p (set_tree (subtree b t)) \<Longrightarrow>
        lft h' z = lft h z \<and> rgt h' z = rgt h z \<and> par h' z = par h z"
    and pp: "par h' p = par h p" "lft h' p = (if lft h p = Some b then rep else lft h p)"
      "rgt h' p = (if lft h p = Some b then rgt h p else rep)"
  shows "heap_at h' q r (tremove cmp b t)"
  using assms(1-4) rep out
proof (induction t arbitrary: q r)
  case (Node l x r')
  then have nb: "x \<noteq> b" by auto
  have dis: "set_tree l \<inter> set_tree r' = {}" "x \<notin> set_tree l" "x \<notin> set_tree r'" "distinct (inorder l)" "distinct (inorder r')"
    using Node.prems(2) by auto
  have ha: "heap_at h (Some x) (lft h x) l" "heap_at h (Some x) (rgt h x) r'" "par h x = q" "r = Some x"
    using Node.prems(1) by auto
  consider (l) "b \<in> set_tree l" | (r) "b \<in> set_tree r'" "b \<notin> set_tree l" using Node.prems(3) nb by auto
  then show ?case
  proof cases
    case l
    then have st: "subtree b (Node l x r') = subtree b l" using nb by simp
    have sl: "set_tree (subtree b l) \<subseteq> set_tree l" by (rule subtree_set)
    show ?thesis
    proof (cases "lft h x = Some b")
      case True
      then obtain l1 l2 where lb: "l = Node l1 b l2" and px: "p = x" using ha(1) l assms(5) by (cases l) auto
      have "heap_at h' (Some x) (rgt h x) r'"
        using dis px Node.prems(6) sl unfolding st by (intro heap_at_frame [OF ha(2)]) fastforce
      then show ?thesis
        using Node.prems(5) pp True px lb nb ha unfolding st by auto
    next
      case False
      have pl: "p \<in> set_tree l" using parent_in_tree [OF ha(1) l False dis(4)] assms(5) by auto
      then have xp: "x \<noteq> p" using dis by auto
      have "heap_at h' (Some x) (lft h x) (tremove cmp b l)"
        using Node.IH(1) [OF ha(1) dis(4) l False] Node.prems(5,6) unfolding st by blast
      moreover have "heap_at h' (Some x) (rgt h x) r'"
        using dis pl Node.prems(6) sl unfolding st by (intro heap_at_frame [OF ha(2)]) fastforce
      moreover have "lft h' x = lft h x \<and> rgt h' x = rgt h x \<and> par h' x = par h x"
        using Node.prems(6) [of x] xp dis sl unfolding st by auto
      ultimately show ?thesis using l nb ha by auto
    qed
  next
    case r
    then have st: "subtree b (Node l x r') = subtree b r'" using nb by simp
    have sr: "set_tree (subtree b r') \<subseteq> set_tree r'" by (rule subtree_set)
    have nl: "lft h x \<noteq> Some b" using r ha(1) by (cases l) auto
    show ?thesis
    proof (cases "rgt h x = Some b")
      case True
      then obtain l1 l2 where lb: "r' = Node l1 b l2" and px: "p = x" using ha(2) r assms(5) by (cases r') auto
      have "heap_at h' (Some x) (lft h x) l"
        using dis px Node.prems(6) sr unfolding st by (intro heap_at_frame [OF ha(1)]) fastforce
      then show ?thesis
        using Node.prems(5) pp True px lb nb nl r ha unfolding st by auto
    next
      case False
      have pr: "p \<in> set_tree r'" using parent_in_tree [OF ha(2) r(1) False dis(5)] assms(5) by auto
      then have xp: "x \<noteq> p" using dis by auto
      have "heap_at h' (Some x) (rgt h x) (tremove cmp b r')"
        using Node.IH(2) [OF ha(2) dis(5) r(1) False] Node.prems(5,6) unfolding st by blast
      moreover have "heap_at h' (Some x) (lft h x) l"
        using dis pr Node.prems(6) sr unfolding st by (intro heap_at_frame [OF ha(1)]) fastforce
      moreover have "lft h' x = lft h x \<and> rgt h' x = rgt h x \<and> par h' x = par h x"
        using Node.prems(6) [of x] xp dis sr unfolding st by auto
      ultimately show ?thesis using r nb ha by auto
    qed
  qed
qed simp

lemma skew_heap_remove_tree:
  assumes h: "heap_at h None a t" and d: "distinct (inorder t)" and b: "b \<in> set_tree t"
  shows "\<exists>r h'. skew_heap_remove cmp a b h = Some (r, h') \<and> heap_at h' None r (tremove cmp b t)"
proof -
  obtain l r' where sb: "subtree b t = Node l b r'" "heap_at h (par h b) (Some b) (Node l b r')"
    "distinct (inorder (Node l b r'))"
    using subtree_heap [OF h b d] by auto
  have "set_tree l \<inter> set_tree r' = {}" "distinct (inorder l)" "distinct (inorder r')"
    using sb(3) by auto
  then obtain rep h1 p where m: "skew_heap_merge cmp (lft h b) (rgt h b) h = Some (rep, h1)"
    "heap_at h1 p rep (tmerge cmp l r')" "same_but h1 h (set_tree l \<union> set_tree r')" "distinct (inorder (tmerge cmp l r'))"
    using skew_heap_merge_tree [of h "Some b" "lft h b" l "Some b" "rgt h b" r' cmp] sb(2) tmerge_distinct by auto
  define h2 where "h2 = (case rep of None \<Rightarrow> h1 | Some c \<Rightarrow> set_par c (par h b) h1)"
  have h2: "heap_at h2 (par h b) rep (tmerge cmp l r')"
    unfolding h2_def by (rule heap_at_reparent [OF m(2,4)])
  have rin: "rep = Some c \<Longrightarrow> c \<in> set_tree l \<union> set_tree r'" for c
    using heap_at_in m(2) tmerge_set [of cmp l r'] by blast
  have s2: "same_but h2 h (set_tree l \<union> set_tree r')"
    using m(3) rin by (fastforce simp: h2_def same_but_def set_par_def split: option.splits)
  show ?thesis
  proof (cases "a = Some b")
    case True
    then have "par h b = None" "t = Node l b r'" using h sb(1) by (cases t; auto)+
    then show ?thesis using m(1) h2 by (cases rep) (simp_all add: skew_heap_remove_def h2_def)
  next
    case False
    then obtain q where q: "q \<in> set_tree t" "par h b = Some q" "q \<notin> set_tree (subtree b t)"
      using parent_in_tree [OF h b False d] by auto
    then have qn: "q \<noteq> b" "q \<notin> set_tree l" "q \<notin> set_tree r'" using sb(1) by auto
    define h' where "h' = (if lft h2 q = Some b then set_left q rep h2 else set_right q rep h2)"
    have q2: "lft h2 q = lft h q" "rgt h2 q = rgt h q" "par h2 q = par h q"
      using s2 qn by (auto simp: same_but_def)
    have f: "par h' z = par h2 z" "z \<noteq> q \<Longrightarrow> lft h' z = lft h2 z" "z \<noteq> q \<Longrightarrow> rgt h' z = rgt h2 z" for z
      by (auto simp: h'_def set_left_def set_right_def)
    have rep: "heap_at h' (Some q) rep (tremove cmp b (subtree b t))"
    proof -
      have "heap_at h' (Some q) rep (tmerge cmp l r')"
        by (rule heap_at_frame [OF h2 [unfolded q(2)]]) (metis Un_iff qn(2,3) f tmerge_set)
      then show ?thesis by (simp add: sb(1))
    qed
    have "heap_at h' None a (tremove cmp b t)"
    proof (rule replace_subtree [OF h d b False q(2) rep])
      fix z assume "z \<notin> insert q (set_tree (subtree b t))"
      then show "lft h' z = lft h z \<and> rgt h' z = rgt h z \<and> par h' z = par h z"
        using s2 by (auto simp: f sb(1) same_but_def)
    qed (auto simp: f q2, auto simp: h'_def q2 set_left_def set_right_def)
    then show ?thesis
      using m(1) q(2) unfolding h'_def h2_def
      by (cases rep) (auto simp: skew_heap_remove_def Let_def split: if_splits)
  qed
qed

lemma tremove_mset:
  "b \<in> set_tree t \<Longrightarrow> mset (inorder (tremove cmp b t)) = mset (inorder t) - {#b#}"
proof (induction t)
  case (Node l x r)
  show ?case
  proof (cases "x = b")
    case True
    then show ?thesis by (simp add: tmerge_mset)
  next
    case nb: False
    show ?thesis
    proof (cases "b \<in> set_tree l")
      case True
      then have "b \<in># mset (inorder l)" by simp
      then show ?thesis using True nb Node.IH(1) by simp
    next
      case False
      then have "b \<in># mset (inorder r)" using Node.prems nb by simp
      then show ?thesis using False nb Node by simp
    qed
  qed
qed simp

lemma tremove_set:
  assumes "distinct (inorder t)" "b \<in> set_tree t"
  shows "set_tree (tremove cmp b t) = set_tree t - {b}" "distinct (inorder (tremove cmp b t))"
proof -
  have m: "mset (inorder (tremove cmp b t)) = mset (remove1 b (inorder t))" using tremove_mset assms(2) by simp
  then have "set (inorder (tremove cmp b t)) = set (remove1 b (inorder t))" by (metis set_mset_mset)
  then show "set_tree (tremove cmp b t) = set_tree t - {b}" using assms(1) by simp
  show "distinct (inorder (tremove cmp b t))"
    using mset_eq_imp_distinct_iff [OF m] assms(1) by (simp add: distinct_remove1)
qed

subsection \<open>Heap order\<close>

text \<open>
  \<open>key\<close> ranks the nodes; \<open>agrees cmp key S\<close> says that the comparison returns \<open>-1\<close> exactly when the first
  argument has the smaller key.
\<close>

definition agrees :: "(nat \<Rightarrow> nat \<Rightarrow> int) \<Rightarrow> (nat \<Rightarrow> nat) \<Rightarrow> nat set \<Rightarrow> bool" where
  "agrees cmp key S \<longleftrightarrow> (\<forall>x\<in>S. \<forall>y\<in>S. cmp x y = -1 \<longleftrightarrow> key x < key y)"

fun heap_ordered :: "(nat \<Rightarrow> nat) \<Rightarrow> nat tree \<Rightarrow> bool" where
  "heap_ordered key Leaf \<longleftrightarrow> True"
| "heap_ordered key (Node l x r) \<longleftrightarrow>
     (\<forall>y\<in>set_tree l \<union> set_tree r. key x \<le> key y) \<and> heap_ordered key l \<and> heap_ordered key r"

lemma agrees_mono: "agrees cmp key T \<Longrightarrow> S \<subseteq> T \<Longrightarrow> agrees cmp key S"
  by (auto simp: agrees_def)

lemma tmerge_ordered:
  "heap_ordered key t1 \<Longrightarrow> heap_ordered key t2 \<Longrightarrow> agrees cmp key (set_tree t1 \<union> set_tree t2) \<Longrightarrow>
   heap_ordered key (tmerge cmp t1 t2)"
proof (induction cmp t1 t2 rule: tmerge.induct)
  case (3 cmp l1 x r1 l2 y r2)
  have c: "cmp x y = -1 \<longleftrightarrow> key x < key y" using "3.prems"(3) by (auto simp: agrees_def)
  have sub: "agrees cmp key (set_tree r1 \<union> set_tree (Node l2 y r2))" "agrees cmp key (set_tree (Node l1 x r1) \<union> set_tree r2)"
    by (rule agrees_mono [OF "3.prems"(3)]; auto)+
  show ?case
  proof (cases "cmp x y = -1")
    case True
    then have "key x \<le> key y" using c by simp
    then have "\<forall>z\<in>set_tree (Node l2 y r2). key x \<le> key z" using "3.prems"(2) by (auto intro: order_trans)
    moreover have "heap_ordered key (tmerge cmp r1 (Node l2 y r2))"
      using "3.IH"(1) [OF True _ "3.prems"(2) sub(1)] "3.prems"(1) by simp
    ultimately show ?thesis using True "3.prems"(1) by auto
  next
    case False
    then have "key y \<le> key x" using c by simp
    then have "\<forall>z\<in>set_tree (Node l1 x r1). key y \<le> key z" using "3.prems"(1) by (auto intro: order_trans)
    moreover have "heap_ordered key (tmerge cmp (Node l1 x r1) r2)"
      using "3.IH"(2) [OF False "3.prems"(1) _ sub(2)] "3.prems"(2) by simp
    ultimately show ?thesis using False "3.prems"(2) by auto
  qed
qed auto

lemma tremove_subset: "set_tree (tremove cmp b t) \<subseteq> set_tree t"
  by (induction t) auto

lemma tremove_ordered:
  "heap_ordered key t \<Longrightarrow> agrees cmp key (set_tree t) \<Longrightarrow> heap_ordered key (tremove cmp b t)"
proof (induction t)
  case (Node l x r)
  have "agrees cmp key (set_tree l)" "agrees cmp key (set_tree r)" "agrees cmp key (set_tree l \<union> set_tree r)"
    by (rule agrees_mono [OF Node.prems(2)]; auto)+
  then show ?case
    using Node tremove_subset [of cmp b l] tremove_subset [of cmp b r] by (auto intro: tmerge_ordered)
qed simp

lemma heap_root_min: "heap_ordered key (Node l x r) \<Longrightarrow> y \<in> set_tree (Node l x r) \<Longrightarrow> key x \<le> key y"
  by auto

lemma heap_ordered_cong:
  "heap_ordered key t \<Longrightarrow> (\<And>x. x \<in> set_tree t \<Longrightarrow> key' x = key x) \<Longrightarrow> heap_ordered key' t"
  by (induction t) auto

end
