(* ===== verification/Stride.thy ===== *)
theory Stride
  imports Sched Skew_Heap
begin

section \<open>The stride scheduling class (kern/schedule/default_sched_stride.c)\<close>

text \<open>
  Strides are 32-bit and wrap around; \<open>proc_stride_comp_f\<close> compares them through the sign of their
  difference. A division by a zero priority is undefined in C and modelled as a call that does not return.
\<close>

subsection \<open>Operations\<close>

definition BIG_STRIDE :: "32 word" where "BIG_STRIDE = push_bit 30 1"

definition proc_stride_comp_f :: "kst \<Rightarrow> nat \<Rightarrow> nat \<Rightarrow> int" where
  "proc_stride_comp_f s p q =
     (let c = sint (lab6_stride (procs s p) - lab6_stride (procs s q)) in
      if c > 0 then 1 else if c = 0 then 0 else -1)"

definition stride_init :: "kst \<Rightarrow> kst" where
  "stride_init s =
     (let s = upd_klinks (list_init Run_list) s;
          s = upd_rq (\<lambda>q. q\<lparr>lab6_run_pool := None\<rparr>) s
      in upd_rq (\<lambda>q. q\<lparr>proc_num := 0\<rparr>) s)"

definition stride_enqueue :: "nat \<Rightarrow> kst \<Rightarrow> kst kresult" where
  "stride_enqueue p s = do {
     (r, h) \<leftarrow> skew_heap_insert (proc_stride_comp_f s) (lab6_run_pool (run_q s)) p (pool s);
     let s = upd_rq (\<lambda>q. q\<lparr>lab6_run_pool := r\<rparr>) (s\<lparr>pool := h\<rparr>);
     let s = (if time_slice (procs s p) = 0 \<or> time_slice (procs s p) > max_time_slice (run_q s)
              then upd_proc p (\<lambda>d. d\<lparr>time_slice := max_time_slice (run_q s)\<rparr>) s else s);
     let s = upd_proc p (\<lambda>d. d\<lparr>rq := Some the_rq\<rparr>) s;
     Some (upd_rq (\<lambda>q. q\<lparr>proc_num := u32 (proc_num q + 1)\<rparr>) s)
   }"

definition stride_dequeue :: "nat \<Rightarrow> kst \<Rightarrow> kst kresult" where
  "stride_dequeue p s = do {
     kassert (rq (procs s p) = Some the_rq \<and> proc_num (run_q s) > 0);
     (r, h) \<leftarrow> skew_heap_remove (proc_stride_comp_f s) (lab6_run_pool (run_q s)) p (pool s);
     let s = upd_rq (\<lambda>q. q\<lparr>lab6_run_pool := r\<rparr>) (s\<lparr>pool := h\<rparr>);
     Some (upd_rq (\<lambda>q. q\<lparr>proc_num := sub32 (proc_num q) 1\<rparr>) s)
   }"

definition stride_pick_next :: "kst \<Rightarrow> (nat option \<times> kst) kresult" where
  "stride_pick_next s =
     (case lab6_run_pool (run_q s) of
        None \<Rightarrow> Some (None, s)
      | Some p \<Rightarrow> do {
          kassert (lab6_priority (procs s p) \<noteq> 0);
          let s = upd_proc p (\<lambda>d. d\<lparr>lab6_stride := lab6_stride d + BIG_STRIDE div lab6_priority d\<rparr>) s;
          Some (Some p, s)
        })"

definition stride_proc_tick :: "nat \<Rightarrow> kst \<Rightarrow> kst kresult" where
  "stride_proc_tick p s =
     (let s = (if time_slice (procs s p) > 0
               then upd_proc p (\<lambda>d. d\<lparr>time_slice := time_slice d - 1\<rparr>) s else s)
      in Some (if time_slice (procs s p) = 0 then upd_proc p (\<lambda>d. d\<lparr>need_resched := True\<rparr>) s else s))"

definition stride_sched_class :: sched_class where
  "stride_sched_class = \<lparr>sc_name = ''stride_scheduler'', sc_init = stride_init, sc_enqueue = stride_enqueue,
     sc_dequeue = stride_dequeue, sc_pick_next = stride_pick_next, sc_proc_tick = stride_proc_tick\<rparr>"

definition lab6_set_priority :: "32 word \<Rightarrow> kst \<Rightarrow> kst kresult" where
  "lab6_set_priority priority s = do {
     cur \<leftarrow> current s;
     Some (upd_proc cur (\<lambda>d. d\<lparr>lab6_priority := (if priority = 0 then 1 else priority)\<rparr>) s)
   }"

subsection \<open>The run pool\<close>

definition pool_is :: "kst \<Rightarrow> nat tree \<Rightarrow> bool" where
  "pool_is s t \<longleftrightarrow> heap_at (pool s) None (lab6_run_pool (run_q s)) t \<and> distinct (inorder t) \<and>
     (\<forall>p\<in>set_tree t. rq (procs s p) = Some the_rq \<and> lab6_priority (procs s p) \<noteq> 0) \<and>
     proc_num (run_q s) = card (set_tree t) \<and> card (set_tree t) < 2 ^ 32"

lemma stride_enqueue_pool:
  assumes "pool_is s t" "p \<notin> set_tree t" "card (insert p (set_tree t)) < 2 ^ 32" "lab6_priority (procs s p) \<noteq> 0"
  obtains u where "stride_enqueue p s = Some u" "core u = core s" "keeps s u"
    "pool_is u (tmerge (proc_stride_comp_f s) t (Node Leaf p Leaf))"
    "\<forall>q. lab6_priority (procs u q) = lab6_priority (procs s q) \<and> lab6_stride (procs u q) = lab6_stride (procs s q)"
proof -
  obtain r h where ins: "skew_heap_insert (proc_stride_comp_f s) (lab6_run_pool (run_q s)) p (pool s) = Some (r, h)"
    "heap_at h None r (tmerge (proc_stride_comp_f s) t (Node Leaf p Leaf))"
    using skew_heap_insert_tree [of "pool s" "lab6_run_pool (run_q s)" t p "proc_stride_comp_f s"] assms(1,2)
    by (auto simp: pool_is_def)
  obtain u where u: "stride_enqueue p s = Some u" by (auto simp: stride_enqueue_def ins Let_def)
  then have f: "pool u = h" "lab6_run_pool (run_q u) = r" "proc_num (run_q u) = u32 (proc_num (run_q s) + 1)"
    "\<And>q. rq (procs u q) = (if q = p then Some the_rq else rq (procs s q))" "core u = core s"
    "\<forall>q. lab6_priority (procs u q) = lab6_priority (procs s q) \<and> lab6_stride (procs u q) = lab6_stride (procs s q)"
    "keeps s u"
    using ins by (auto simp: stride_enqueue_def Let_def kst_simps core_def fun_eq_iff identity_def)
  have "distinct (inorder (tmerge (proc_stride_comp_f s) t (Node Leaf p Leaf)))"
    using assms(1,2) by (intro tmerge_distinct) (auto simp: pool_is_def)
  moreover have "card (insert p (set_tree t)) = Suc (card (set_tree t))" using assms(2) by simp
  ultimately have "pool_is u (tmerge (proc_stride_comp_f s) t (Node Leaf p Leaf))"
    using assms ins(2) f by (auto simp: pool_is_def)
  then show ?thesis using that u f by blast
qed

lemma stride_dequeue_pool:
  assumes "pool_is s t" "p \<in> set_tree t"
  obtains u where "stride_dequeue p s = Some u" "core u = core s" "keeps s u"
    "pool_is u (tremove (proc_stride_comp_f s) p t)" "\<forall>q. procs u q = procs s q"
proof -
  obtain r h where rem: "skew_heap_remove (proc_stride_comp_f s) (lab6_run_pool (run_q s)) p (pool s) = Some (r, h)"
    "heap_at h None r (tremove (proc_stride_comp_f s) p t)"
    using skew_heap_remove_tree [of "pool s" "lab6_run_pool (run_q s)" t p "proc_stride_comp_f s"] assms
    by (auto simp: pool_is_def)
  have d: "distinct (inorder t)" using assms(1) by (simp add: pool_is_def)
  have pos: "0 < card (set_tree t)" using assms(2) by (metis card_gt_0_iff empty_iff finite_set_tree)
  have ok: "rq (procs s p) = Some the_rq" "proc_num (run_q s) > 0"
    using assms pos by (auto simp: pool_is_def)
  obtain u where u: "stride_dequeue p s = Some u" by (auto simp: stride_dequeue_def ok rem Let_def)
  then have f: "pool u = h" "lab6_run_pool (run_q u) = r" "proc_num (run_q u) = sub32 (proc_num (run_q s)) 1"
    "\<forall>q. procs u q = procs s q" "core u = core s" "keeps s u"
    using ok rem by (auto simp: stride_dequeue_def Let_def kst_simps core_def fun_eq_iff)
  note tr = tremove_set [OF d assms(2), of "proc_stride_comp_f s"]
  have "card (set_tree (tremove (proc_stride_comp_f s) p t)) = card (set_tree t) - 1"
    using tr assms(2) by simp
  then have "pool_is u (tremove (proc_stride_comp_f s) p t)"
    using assms(1) rem(2) f tr pos by (auto simp: pool_is_def sub32_id)
  then show ?thesis using that u f by blast
qed

lemma stride_pick_pool:
  assumes "pool_is s t"
  shows "case t of
      Leaf \<Rightarrow> stride_pick_next s = Some (None, s)
    | Node l p r \<Rightarrow> stride_pick_next s = Some (Some p,
        upd_proc p (\<lambda>d. d\<lparr>lab6_stride := lab6_stride d + BIG_STRIDE div lab6_priority d\<rparr>) s)"
  using assms heap_at_root [of "pool s" None "lab6_run_pool (run_q s)" t]
  by (auto simp: pool_is_def stride_pick_next_def root_is_def split: tree.splits)

subsection \<open>The contract of a scheduling class\<close>

definition stride_ready :: "kst \<Rightarrow> nat set \<Rightarrow> bool" where
  "stride_ready s R \<longleftrightarrow> (\<exists>t. pool_is s t \<and> set_tree t = R)"

definition stride_detached :: "nat \<Rightarrow> kst \<Rightarrow> bool" where
  "stride_detached p s \<longleftrightarrow> lab6_priority (procs s p) \<noteq> 0"

interpretation stride: sched_class stride_sched_class stride_ready stride_detached
proof (unfold_locales, goal_cases)
  case (1 s R p)
  then obtain t where t: "pool_is s t" "set_tree t = R" by (auto simp: stride_ready_def)
  obtain u where u: "stride_enqueue p s = Some u" "core u = core s" "keeps s u"
    "pool_is u (tmerge (proc_stride_comp_f s) t (Node Leaf p Leaf))"
    "\<forall>q. lab6_priority (procs u q) = lab6_priority (procs s q) \<and> lab6_stride (procs u q) = lab6_stride (procs s q)"
    using stride_enqueue_pool [OF t(1), of p] 1 t(2) by (auto simp: stride_detached_def)
  have "stride_ready u (insert p R)" unfolding stride_ready_def using u(4) t(2) by fastforce
  then show ?case using u by (simp add: stride_sched_class_def stride_detached_def)
next
  case (2 s R p)
  then obtain t where t: "pool_is s t" "set_tree t = R" by (auto simp: stride_ready_def)
  obtain u where u: "stride_dequeue p s = Some u" "core u = core s" "keeps s u"
    "pool_is u (tremove (proc_stride_comp_f s) p t)" "\<forall>q. procs u q = procs s q"
    using stride_dequeue_pool [OF t(1), of p] 2 t(2) by auto
  have "distinct (inorder t)" using t(1) by (simp add: pool_is_def)
  then have "stride_ready u (R - {p})"
    unfolding stride_ready_def using u(4) tremove_set(1) [of t p] t(2) 2(2) by auto
  moreover have "stride_detached p u" using u(5) t 2(2) by (auto simp: stride_detached_def pool_is_def)
  ultimately show ?case using u by (auto simp: stride_sched_class_def stride_detached_def)
next
  case (3 s R)
  then obtain t where t: "pool_is s t" "set_tree t = R" by (auto simp: stride_ready_def)
  show ?case
  proof (cases t)
    case Leaf
    then show ?thesis using stride_pick_pool [OF t(1)] 3 t(2) by (simp add: stride_sched_class_def)
  next
    case (Node l p r)
    let ?u = "upd_proc p (\<lambda>d. d\<lparr>lab6_stride := lab6_stride d + BIG_STRIDE div lab6_priority d\<rparr>) s"
    have "pool_is ?u t" using t(1) by (auto simp: pool_is_def kst_simps)
    then have "stride_ready ?u R" using t(2) by (auto simp: stride_ready_def)
    moreover have "core ?u = core s" by (auto simp: core_def kst_simps)
    moreover have "\<forall>q. stride_detached q s \<longrightarrow> stride_detached q ?u" by (auto simp: stride_detached_def kst_simps)
    moreover have "keeps s ?u" by (simp add: identity_def)
    moreover have "p \<in> R" using Node t(2) by auto
    ultimately show ?thesis using stride_pick_pool [OF t(1)] Node by (simp add: stride_sched_class_def)
  qed
next
  case (4 t s R)
  then show ?case by (auto simp: stride_ready_def pool_is_def run_same_def)
next
  case (5 t s q)
  then show ?case by (auto simp: stride_detached_def run_same_def)
qed

subsection \<open>The smallest stride runs first, across wrap-around\<close>

text \<open>
  \<open>stride_key s b p\<close> is the distance of the stride of \<open>p\<close> above a base \<open>b\<close>, modulo \<open>2\<^sup>3\<^sup>2\<close>. While all distances
  are at most \<open>BIG_STRIDE\<close>, the comparison of sched class agrees with them.
\<close>

definition stride_key :: "kst \<Rightarrow> 32 word \<Rightarrow> nat \<Rightarrow> nat" where
  "stride_key s b p = unat (lab6_stride (procs s p) - b)"

definition stride_inv :: "kst \<Rightarrow> 32 word \<Rightarrow> nat tree \<Rightarrow> bool" where
  "stride_inv s b t \<longleftrightarrow> pool_is s t \<and> heap_ordered (stride_key s b) t \<and>
     (\<forall>p\<in>set_tree t. stride_key s b p \<le> 2 ^ 30)"

lemma sint_32: "sint (w :: 32 word) = (if uint w < 2 ^ 31 then uint w else uint w - 2 ^ 32)"
proof -
  have le: "uint w < 2 ^ 32" using uint_lt2p [of w] by simp
  have "take_bit 32 (uint w) = uint w" using take_bit_int_eq_self [of "uint w" 32] le by simp
  moreover have "uint w div 2 ^ 31 = (if uint w < 2 ^ 31 then 0 else 1)"
    using le int_div_pos_eq [of "uint w" "2 ^ 31" 1 "uint w - 2 ^ 31"] by simp
  then have "bit (uint w) 31 \<longleftrightarrow> \<not> uint w < 2 ^ 31"
    unfolding bit_iff_odd by simp
  ultimately show ?thesis
    by (simp add: sint_uint signed_take_bit_eq_take_bit_minus)
qed

lemma uint_le_of_unat: "unat w \<le> n \<Longrightarrow> uint w \<le> int n"
  using nat_le_iff [of "uint w" n] by (simp only: unat_eq_nat_uint)

lemma uint_less_of_unat: "unat x < unat y \<Longrightarrow> uint x < uint (y :: 'a::len word)" for x :: "'a::len word"
  using word_less_nat_alt [of x y] word_less_alt [of x y] by simp

lemma sint_diff_neg:
  fixes x y :: "32 word"
  assumes "unat x \<le> 2 ^ 30" "unat y \<le> 2 ^ 30"
  shows "sint (x - y) < 0 \<longleftrightarrow> unat x < unat y"
proof (cases "y \<le> x")
  case True
  then have "unat (x - y) = unat x - unat y" by (simp add: unat_sub)
  then have "unat (x - y) \<le> 2 ^ 30" using assms by linarith
  then have "uint (x - y) < 2 ^ 31" using uint_le_of_unat [of "x - y" "2 ^ 30"] by simp
  then have "sint (x - y) = uint (x - y)" by (simp add: sint_32)
  moreover have "0 \<le> uint (x - y)" by simp
  ultimately show ?thesis using True by (simp add: word_le_nat_alt)
next
  case False
  then have lt: "unat x < unat y" by (simp add: word_le_nat_alt)
  then have lt': "uint x < uint y" by (rule uint_less_of_unat)
  have yb: "uint y \<le> 2 ^ 30" using assms uint_le_of_unat [of y "2 ^ 30"] by simp
  have "uint (x - y) = uint x - uint y + 2 ^ 32"
    using lt' uint_sub_if' [of x y] by simp
  moreover have "(2 :: int) ^ 32 = 2 ^ 31 + 2 ^ 30 + 2 ^ 30" by simp
  then have "\<not> uint x - uint y + 2 ^ 32 < 2 ^ 31"
    using yb uint_ge_0 [of x] zero_le_power [of "2 :: int" 30] by linarith
  ultimately have "sint (x - y) = uint x - uint y" by (simp add: sint_32)
  then show ?thesis using lt' lt by simp
qed

lemma stride_agrees:
  assumes "\<forall>p\<in>S. stride_key s b p \<le> 2 ^ 30"
  shows "agrees (proc_stride_comp_f s) (stride_key s b) S"
proof -
  have "proc_stride_comp_f s p q = -1 \<longleftrightarrow> sint (lab6_stride (procs s p) - lab6_stride (procs s q)) < 0" for p q
    by (auto simp: proc_stride_comp_f_def Let_def)
  moreover have "lab6_stride (procs s p) - lab6_stride (procs s q) =
      (lab6_stride (procs s p) - b) - (lab6_stride (procs s q) - b)" for p q by simp
  ultimately show ?thesis
    using assms sint_diff_neg unfolding agrees_def stride_key_def by metis
qed

text \<open>Measuring from the smallest stride instead keeps the order and the bound.\<close>

lemma stride_rebase:
  assumes "stride_key s b p \<le> stride_key s b q"
  shows "stride_key s (lab6_stride (procs s p)) q = stride_key s b q - stride_key s b p"
proof -
  have "lab6_stride (procs s q) - lab6_stride (procs s p) =
      (lab6_stride (procs s q) - b) - (lab6_stride (procs s p) - b)" by simp
  then show ?thesis
    using assms unat_sub [of "lab6_stride (procs s p) - b" "lab6_stride (procs s q) - b"]
    by (simp add: stride_key_def word_le_nat_alt)
qed

lemma stride_rebase_mono:
  "stride_key s b p \<le> stride_key s b x \<Longrightarrow> stride_key s b x \<le> stride_key s b y \<Longrightarrow>
   stride_key s (lab6_stride (procs s p)) x \<le> stride_key s (lab6_stride (procs s p)) y"
  using stride_rebase [of s b p x] stride_rebase [of s b p y] by simp

lemma heap_ordered_rebase:
  "heap_ordered (stride_key s b) t \<Longrightarrow> (\<And>q. q \<in> set_tree t \<Longrightarrow> stride_key s b p \<le> stride_key s b q) \<Longrightarrow>
   heap_ordered (stride_key s (lab6_stride (procs s p))) t"
  by (induction t) (auto intro: stride_rebase_mono)

lemma stride_round_inv:
  assumes inv: "stride_inv s b (Node l p r)"
  shows "\<exists>u v w t'. stride_pick_next s = Some (Some p, u) \<and> stride_dequeue p u = Some v \<and>
    stride_enqueue p v = Some w \<and> set_tree t' = set_tree (Node l p r) \<and>
    stride_inv w (lab6_stride (procs s p)) t' \<and>
    lab6_stride (procs w p) = lab6_stride (procs s p) + BIG_STRIDE div lab6_priority (procs s p)"
proof -
  let ?b = "lab6_stride (procs s p)" and ?t = "Node l p r"
  define u where "u = upd_proc p (\<lambda>d. d\<lparr>lab6_stride := lab6_stride d + BIG_STRIDE div lab6_priority d\<rparr>) s"
  have pool: "pool_is s ?t" and dist: "distinct (inorder ?t)"
    using inv by (auto simp: stride_inv_def pool_is_def)
  have min: "stride_key s b p \<le> stride_key s b q" if "q \<in> set_tree ?t" for q
    using inv that heap_root_min unfolding stride_inv_def by blast
  have pick: "stride_pick_next s = Some (Some p, u)" using stride_pick_pool [OF pool] by (simp add: u_def)
  have pu: "pool_is u ?t" using pool by (auto simp: pool_is_def u_def kst_simps)
  have su: "lab6_stride (procs u q) = lab6_stride (procs s q)" if "q \<noteq> p" for q
    using that by (simp add: u_def kst_simps)
  have sup: "lab6_stride (procs u p) = ?b + BIG_STRIDE div lab6_priority (procs s p)"
    "lab6_priority (procs u p) = lab6_priority (procs s p)" by (simp_all add: u_def kst_simps)
  have pn: "p \<notin> set_tree l" "p \<notin> set_tree r" "set_tree l \<inter> set_tree r = {}" using dist by auto
  have kq: "stride_key u ?b q = stride_key s ?b q" if "q \<in> set_tree l \<union> set_tree r" for q
  proof -
    have "q \<noteq> p" using that pn by auto
    then show ?thesis by (simp add: stride_key_def su)
  qed
  have bound: "stride_key s ?b q \<le> 2 ^ 30" if "q \<in> set_tree ?t" for q
    using stride_rebase [OF min [OF that]] inv that unfolding stride_inv_def by (metis diff_le_self le_trans)
  have bp: "stride_key u ?b p \<le> 2 ^ 30"
    using div_le_dividend [of "unat BIG_STRIDE" "unat (lab6_priority (procs s p))"]
    by (simp add: stride_key_def sup unat_div BIG_STRIDE_def)
  obtain v where v: "stride_dequeue p u = Some v" "pool_is v (tremove (proc_stride_comp_f u) p ?t)"
    "\<forall>q. procs v q = procs u q"
    using stride_dequeue_pool [OF pu, of p] by auto
  let ?t1 = "tmerge (proc_stride_comp_f u) l r"
  have t1: "tremove (proc_stride_comp_f u) p ?t = ?t1" by simp
  have kv: "stride_key v = stride_key u" "proc_stride_comp_f v = proc_stride_comp_f u"
    using v(3) by (simp_all add: stride_key_def proc_stride_comp_f_def fun_eq_iff)
  have all: "\<forall>q\<in>set_tree ?t. stride_key u ?b q \<le> 2 ^ 30" using bound kq bp by auto
  have "heap_ordered (stride_key s ?b) ?t"
    using heap_ordered_rebase [of s b ?t p] min inv by (simp add: stride_inv_def)
  then have "heap_ordered (stride_key u ?b) l" "heap_ordered (stride_key u ?b) r"
    using kq by (auto elim!: heap_ordered_cong)
  then have ho: "heap_ordered (stride_key u ?b) ?t1"
    using all by (intro tmerge_ordered stride_agrees) auto
  have prio: "lab6_priority (procs v p) \<noteq> 0" using pu v(3) by (simp add: pool_is_def)
  have "insert p (set_tree ?t1) = set_tree ?t" by auto
  then have lt: "card (insert p (set_tree ?t1)) < 2 ^ 32" using pool unfolding pool_is_def by (simp only:)
  obtain w where w: "stride_enqueue p v = Some w" "pool_is w (tmerge (proc_stride_comp_f v) ?t1 (Node Leaf p Leaf))"
    "\<forall>q. lab6_priority (procs w q) = lab6_priority (procs v q) \<and> lab6_stride (procs w q) = lab6_stride (procs v q)"
  proof -
    have "p \<notin> set_tree ?t1" using pn by simp
    from stride_enqueue_pool [OF v(2) [unfolded t1] this lt prio] show ?thesis using that by metis
  qed
  let ?t' = "tmerge (proc_stride_comp_f u) ?t1 (Node Leaf p Leaf)"
  have kw: "stride_key w = stride_key u" using w(3) v(3) by (simp add: stride_key_def fun_eq_iff)
  have "heap_ordered (stride_key u ?b) ?t'"
    by (rule tmerge_ordered [OF ho _ stride_agrees]) (use all in auto)
  then have "stride_inv w ?b ?t'" using w(2) all by (auto simp: stride_inv_def kw kv)
  then show ?thesis using pick v(1) w(1,3) v(3) sup by (intro exI [of _ u] exI [of _ v] exI [of _ w] exI [of _ ?t']) auto
qed

subsection \<open>Properties\<close>

text \<open>
  C11: while the strides of the queued processes lie within \<open>BIG_STRIDE\<close> of each other (modulo \<open>2\<^sup>3\<^sup>2\<close>),
  \<open>stride_pick_next\<close> picks a process of smallest stride and advances it by \<open>BIG_STRIDE\<close> divided by its
  priority; after it has been dequeued and queued again the pool is a well-formed heap of the same
  processes, and the strides again lie within \<open>BIG_STRIDE\<close> of each other, also when they wrap around.
\<close>

theorem stride_round:
  assumes "stride_inv s b t" and "t \<noteq> Leaf"
  shows "\<exists>p u v w t'. stride_pick_next s = Some (Some p, u) \<and> p \<in> set_tree t \<and>
    (\<forall>q\<in>set_tree t. stride_key s b p \<le> stride_key s b q) \<and>
    stride_dequeue p u = Some v \<and> stride_enqueue p v = Some w \<and> set_tree t' = set_tree t \<and>
    stride_inv w (lab6_stride (procs s p)) t' \<and>
    lab6_stride (procs w p) = lab6_stride (procs s p) + BIG_STRIDE div lab6_priority (procs s p)"
proof -
  obtain l p r where t: "t = Node l p r" using assms(2) by (cases t) auto
  have "heap_ordered (stride_key s b) (Node l p r)" using assms(1) by (simp add: stride_inv_def t)
  then have "\<forall>q\<in>set_tree t. stride_key s b p \<le> stride_key s b q" by (auto simp: t)
  moreover have "p \<in> set_tree t" by (simp add: t)
  ultimately show ?thesis using stride_round_inv [OF assms(1) [unfolded t]] unfolding t by blast
qed

text \<open>Two processes in the pool, the second one past the wrap-around.\<close>

definition two_strides :: kst where
  "two_strides = \<lparr>procs = (\<lambda>p. \<lparr>state = PROC_RUNNABLE, pid = 0, runs = 0, kstack = 0, need_resched = False,
       parent = None, mm = None, ctx = zero_context, tf = None, pgdir = 0, pflags = 0, pname = [], exit_code = 0, wait_state = 0, cptr = None,
       yptr = None, optr = None, rq = Some the_rq, time_slice = 0,
       lab6_stride = (if p = 1 then 0xFFFFFFF0 else 0x10), lab6_priority = 2, filesp = None\<rparr>),
     klinks = \<lparr>nxt = (\<lambda>e. e), prv = (\<lambda>e. e)\<rparr>,
     pool = \<lparr>par = (\<lambda>p. if p = 2 then Some 1 else None), lft = (\<lambda>p. if p = 1 then Some 2 else None), rgt = (\<lambda>_. None)\<rparr>,
     run_q = \<lparr>proc_num = 2, max_time_slice = 5, lab6_run_pool = Some 1\<rparr>, current = None, idleproc = None,
     initproc = None, satp = 0, timers = (\<lambda>_. \<lparr>expires = 0, tproc = None\<rparr>),
     waits = (\<lambda>_. \<lparr>wproc = None, wakeup_flags = 0, wait_queue = None\<rparr>), sem_value = (\<lambda>_. 0),
     nr_process = 0, last_pid = 1, next_safe = 1\<rparr>"

theorem stride_round_witness:
  "\<exists>u. stride_pick_next two_strides = Some (Some 1, u)"
proof -
  let ?t = "Node (Node Leaf 2 Leaf) 1 Leaf :: nat tree"
  have "(0x10 :: 32 word) - 0xFFFFFFF0 = 0x20" by simp
  then have "stride_inv two_strides 0xFFFFFFF0 ?t"
    by (simp add: stride_inv_def pool_is_def two_strides_def stride_key_def)
  from stride_round [OF this] show ?thesis
    by (auto simp: two_strides_def stride_pick_next_def)
qed

end
