(* ===== verification/Sched_Lists.thy ===== *)
theory Sched_Lists
  imports Stride
begin

section \<open>Scheduling classes on the run list: round robin, FIFO, shortest job first\<close>

text \<open>
  lab8/kern/schedule/default_sched.c (the class the final kernel installs) and the two classes of lab 6,
  sched_fifo.c and sched_sjf.c. The first asserts that the entry is unlinked, the other two that the
  process belongs to no run queue.
\<close>

subsection \<open>Round robin\<close>

definition RR_init :: "kst \<Rightarrow> kst" where
  "RR_init s = upd_rq (\<lambda>q. q\<lparr>proc_num := 0\<rparr>) (upd_klinks (list_init Run_list) s)"

definition RR_enqueue :: "nat \<Rightarrow> kst \<Rightarrow> kst kresult" where
  "RR_enqueue p s = do {
     kassert (list_empty (Run_link p) (klinks s));
     let s = upd_klinks (list_add_before Run_list (Run_link p)) s;
     let s = (if time_slice (procs s p) = 0 \<or> time_slice (procs s p) > max_time_slice (run_q s)
              then upd_proc p (\<lambda>d. d\<lparr>time_slice := max_time_slice (run_q s)\<rparr>) s else s);
     let s = upd_proc p (\<lambda>d. d\<lparr>rq := Some the_rq\<rparr>) s;
     Some (upd_rq (\<lambda>q. q\<lparr>proc_num := u32 (proc_num q + 1)\<rparr>) s)
   }"

definition RR_dequeue :: "nat \<Rightarrow> kst \<Rightarrow> kst kresult" where
  "RR_dequeue p s = do {
     kassert (\<not> list_empty (Run_link p) (klinks s) \<and> rq (procs s p) = Some the_rq);
     let s = upd_klinks (list_del_init (Run_link p)) s;
     Some (upd_rq (\<lambda>q. q\<lparr>proc_num := sub32 (proc_num q) 1\<rparr>) s)
   }"

definition RR_pick_next :: "kst \<Rightarrow> (nat option \<times> kst) kresult" where
  "RR_pick_next s =
     (let le = list_next Run_list (klinks s) in
      if le \<noteq> Run_list then Some (Some (le2proc le), s) else Some (None, s))"

definition RR_proc_tick :: "nat \<Rightarrow> kst \<Rightarrow> kst kresult" where
  "RR_proc_tick p s =
     (let s = (if time_slice (procs s p) > 0
               then upd_proc p (\<lambda>d. d\<lparr>time_slice := time_slice d - 1\<rparr>) s else s)
      in Some (if time_slice (procs s p) = 0 then upd_proc p (\<lambda>d. d\<lparr>need_resched := True\<rparr>) s else s))"

definition default_sched_class :: sched_class where
  "default_sched_class = \<lparr>sc_name = ''RR_scheduler'', sc_init = RR_init, sc_enqueue = RR_enqueue,
     sc_dequeue = RR_dequeue, sc_pick_next = RR_pick_next, sc_proc_tick = RR_proc_tick\<rparr>"

subsection \<open>FIFO\<close>

definition FIFO_init :: "kst \<Rightarrow> kst" where
  "FIFO_init s =
     (let s = upd_klinks (list_init Run_list) s;
          s = upd_rq (\<lambda>q. q\<lparr>proc_num := 0\<rparr>) s;
          s = (if max_time_slice (run_q s) \<le> 0 then upd_rq (\<lambda>q. q\<lparr>max_time_slice := 1\<rparr>) s else s)
      in upd_rq (\<lambda>q. q\<lparr>lab6_run_pool := None\<rparr>) s)"

definition FIFO_enqueue :: "nat \<Rightarrow> kst \<Rightarrow> kst kresult" where
  "FIFO_enqueue p s = do {
     kassert (rq (procs s p) = None);
     let s = upd_klinks (list_add_before Run_list (Run_link p)) s;
     let s = upd_proc p (\<lambda>d. d\<lparr>time_slice :=
               (if max_time_slice (run_q s) > 0 then max_time_slice (run_q s) else 1)\<rparr>) s;
     let s = upd_proc p (\<lambda>d. d\<lparr>rq := Some the_rq\<rparr>) s;
     Some (upd_rq (\<lambda>q. q\<lparr>proc_num := u32 (proc_num q + 1)\<rparr>) s)
   }"

definition FIFO_dequeue :: "nat \<Rightarrow> kst \<Rightarrow> kst kresult" where
  "FIFO_dequeue p s = do {
     kassert (rq (procs s p) = Some the_rq);
     let s = upd_klinks (list_del_init (Run_link p)) s;
     let s = upd_proc p (\<lambda>d. d\<lparr>rq := None\<rparr>) s;
     Some (if proc_num (run_q s) > 0 then upd_rq (\<lambda>q. q\<lparr>proc_num := sub32 (proc_num q) 1\<rparr>) s else s)
   }"

definition FIFO_pick_next :: "kst \<Rightarrow> (nat option \<times> kst) kresult" where
  "FIFO_pick_next s =
     (if list_empty Run_list (klinks s) then Some (None, s)
      else let le = list_next Run_list (klinks s) in Some (Some (le2proc le), s))"

definition FIFO_proc_tick :: "nat \<Rightarrow> kst \<Rightarrow> kst kresult" where
  "FIFO_proc_tick p s =
     (let s = (if time_slice (procs s p) > 0
               then upd_proc p (\<lambda>d. d\<lparr>time_slice := time_slice d - 1\<rparr>) s else s)
      in Some (if time_slice (procs s p) = 0 then upd_proc p (\<lambda>d. d\<lparr>need_resched := True\<rparr>) s else s))"

definition fifo_sched_class :: sched_class where
  "fifo_sched_class = \<lparr>sc_name = ''FIFO_scheduler'', sc_init = FIFO_init, sc_enqueue = FIFO_enqueue,
     sc_dequeue = FIFO_dequeue, sc_pick_next = FIFO_pick_next, sc_proc_tick = FIFO_proc_tick\<rparr>"

subsection \<open>Shortest job first\<close>

text \<open>The loop \<open>for (; le != &rq->run_list; le = list_next(le))\<close> of \<open>SJF_pick_next\<close>.\<close>

partial_function (option) sjf_loop :: "kle \<Rightarrow> nat option \<Rightarrow> kst \<Rightarrow> nat option kresult" where
  "sjf_loop le best s =
     (if le = Run_list then Some best
      else let p = le2proc le;
               best = (case best of
                   None \<Rightarrow> Some p
                 | Some b \<Rightarrow> if runs (procs s p) < runs (procs s b) then Some p else Some b)
           in sjf_loop (list_next le (klinks s)) best s)"

definition SJF_init :: "kst \<Rightarrow> kst" where
  "SJF_init s =
     (let s = upd_klinks (list_init Run_list) s;
          s = upd_rq (\<lambda>q. q\<lparr>proc_num := 0\<rparr>) s;
          s = (if max_time_slice (run_q s) \<le> 0 then upd_rq (\<lambda>q. q\<lparr>max_time_slice := 1\<rparr>) s else s)
      in upd_rq (\<lambda>q. q\<lparr>lab6_run_pool := None\<rparr>) s)"

definition SJF_enqueue :: "nat \<Rightarrow> kst \<Rightarrow> kst kresult" where
  "SJF_enqueue p s = do {
     kassert (rq (procs s p) = None);
     let s = upd_klinks (list_add_before Run_list (Run_link p)) s;
     let s = upd_proc p (\<lambda>d. d\<lparr>time_slice :=
               (if max_time_slice (run_q s) > 0 then max_time_slice (run_q s) else 1)\<rparr>) s;
     let s = upd_proc p (\<lambda>d. d\<lparr>rq := Some the_rq\<rparr>) s;
     Some (upd_rq (\<lambda>q. q\<lparr>proc_num := u32 (proc_num q + 1)\<rparr>) s)
   }"

definition SJF_dequeue :: "nat \<Rightarrow> kst \<Rightarrow> kst kresult" where
  "SJF_dequeue p s = do {
     kassert (rq (procs s p) = Some the_rq);
     let s = upd_klinks (list_del_init (Run_link p)) s;
     let s = upd_proc p (\<lambda>d. d\<lparr>rq := None\<rparr>) s;
     Some (if proc_num (run_q s) > 0 then upd_rq (\<lambda>q. q\<lparr>proc_num := sub32 (proc_num q) 1\<rparr>) s else s)
   }"

definition SJF_pick_next :: "kst \<Rightarrow> (nat option \<times> kst) kresult" where
  "SJF_pick_next s =
     (if list_empty Run_list (klinks s) then Some (None, s)
      else do {
        best \<leftarrow> sjf_loop (list_next Run_list (klinks s)) None s;
        Some (best, s)
      })"

definition SJF_proc_tick :: "nat \<Rightarrow> kst \<Rightarrow> kst kresult" where
  "SJF_proc_tick p s =
     (let s = (if time_slice (procs s p) > 0
               then upd_proc p (\<lambda>d. d\<lparr>time_slice := time_slice d - 1\<rparr>) s else s)
      in Some (if time_slice (procs s p) = 0 then upd_proc p (\<lambda>d. d\<lparr>need_resched := True\<rparr>) s else s))"

definition sjf_sched_class :: sched_class where
  "sjf_sched_class = \<lparr>sc_name = ''SJF_scheduler'', sc_init = SJF_init, sc_enqueue = SJF_enqueue,
     sc_dequeue = SJF_dequeue, sc_pick_next = SJF_pick_next, sc_proc_tick = SJF_proc_tick\<rparr>"

lemma sjf_shares_fifo:
  "SJF_enqueue = FIFO_enqueue" "SJF_dequeue = FIFO_dequeue" "SJF_init = FIFO_init"
  by (simp_all add: fun_eq_iff SJF_enqueue_def FIFO_enqueue_def SJF_dequeue_def FIFO_dequeue_def
      SJF_init_def FIFO_init_def)

subsection \<open>The run list\<close>

text \<open>
  \<open>run_list_is s xs\<close>: the run list holds the processes \<open>xs\<close> in this order, each points to the run queue,
  and the counter is right.
\<close>

definition run_list_is :: "kst \<Rightarrow> nat list \<Rightarrow> bool" where
  "run_list_is s xs \<longleftrightarrow> dlist (klinks s) Run_list (map Run_link xs) \<and>
     (\<forall>p\<in>set xs. rq (procs s p) = Some the_rq) \<and> proc_num (run_q s) = length xs mod 2 ^ 32"

lemma run_entries_simps [simp]: "run_entries (Run_list # map Run_link xs)" "run_entries [Run_link p]"
  by (auto simp: run_entries_def)

lemma run_list_is_same: "run_same s t \<Longrightarrow> run_list_is s xs \<Longrightarrow> run_list_is t xs"
  by (auto simp: run_list_is_def run_same_def)

lemma run_list_is_part:
  "queue_part t = queue_part s \<Longrightarrow> run_list_is s xs \<Longrightarrow> run_list_is t xs"
  by (erule run_list_is_same [OF queue_part_run_same])

lemma run_list_enqueue:
  assumes "run_list_is s xs" and "p \<notin> set xs"
    and "klinks t = list_add_before Run_list (Run_link p) (klinks s)"
    and "\<And>q. rq (procs t q) = (if q = p then Some the_rq else rq (procs s q))"
    and "proc_num (run_q t) = u32 (proc_num (run_q s) + 1)"
  shows "run_list_is t (xs @ [p])"
proof -
  have "dlist (klinks t) Run_list (map Run_link xs @ [Run_link p])"
    unfolding assms(3) using assms(1,2) by (intro ll.enqueue_tail) (auto simp: run_list_is_def)
  then show ?thesis using assms by (auto simp: run_list_is_def u32_def mod_Suc_eq)
qed

lemma mod_pred: "0 < m \<Longrightarrow> (Suc n mod m + (m - 1)) mod m = n mod (m :: nat)"
  using mod_add_left_eq [of "Suc n" m "m - 1"] by simp

lemma sub32_length: "sub32 (Suc n mod 2 ^ 32) 1 = n mod 2 ^ 32"
proof -
  have "Suc n mod 2 ^ 32 + 2 ^ 32 - 1 mod 2 ^ 32 = Suc n mod 2 ^ 32 + (2 ^ 32 - 1)" by simp
  then show ?thesis unfolding sub32_def by (simp only:) (rule mod_pred, simp)
qed

lemma run_list_dequeue:
  assumes "run_list_is s (xs @ p # ys)"
    and "klinks t = list_del_init (Run_link p) (klinks s)"
    and "\<And>q. q \<noteq> p \<Longrightarrow> rq (procs t q) = rq (procs s q)"
    and "proc_num (run_q t) = sub32 (proc_num (run_q s)) 1"
  shows "run_list_is t (xs @ ys)" and "dlist (klinks t) (Run_link p) []"
proof -
  have d: "dlist (klinks s) Run_list (map Run_link xs @ Run_link p # map Run_link ys)"
    using assms(1) by (simp add: run_list_is_def)
  note del = ll.del_init_holds [OF d, folded assms(2)]
  have "p \<notin> set (xs @ ys)" using ll.holds_distinct [OF d] by auto
  then have "\<forall>q\<in>set (xs @ ys). rq (procs t q) = Some the_rq"
    using assms(1,3) unfolding run_list_is_def by (metis Un_iff list.set_intros(2) set_append)
  moreover have "proc_num (run_q t) = length (xs @ ys) mod 2 ^ 32"
    using assms(1,4) sub32_length [of "length xs + length ys"] by (simp add: run_list_is_def)
  ultimately show "run_list_is t (xs @ ys)"
    using del(1) unfolding run_list_is_def by simp
  show "dlist (klinks t) (Run_link p) []" by (rule del(2))
qed

lemma run_link_others:
  assumes "run_list_is s xs" and "dlist (klinks s) (Run_link q) []" and "q \<notin> set (p # xs)"
  shows "dlist (list_add_before Run_list (Run_link p) (klinks s)) (Run_link q) []"
  using assms by (intro ll.enqueue_others) (auto simp: run_list_is_def)

lemma run_link_others_del:
  assumes "run_list_is s (xs @ p # ys)" and "dlist (klinks s) (Run_link q) []" and "q \<notin> set (xs @ p # ys)"
  shows "dlist (list_del_init (Run_link p) (klinks s)) (Run_link q) []"
  using assms by (intro ll.del_init_others [of _ Run_list "map Run_link xs" _ "map Run_link ys"])
    (auto simp: run_list_is_def)

lemma run_list_first:
  assumes "run_list_is s xs"
  shows "list_next Run_list (klinks s) = (case xs of [] \<Rightarrow> Run_list | x # _ \<Rightarrow> Run_link x)"
    "list_empty Run_list (klinks s) \<longleftrightarrow> xs = []"
  using ll.front [of "klinks s" Run_list "map Run_link xs"] ll.empty_holds [of "klinks s" Run_list "map Run_link xs"]
    assms by (auto simp: run_list_is_def split: list.splits)

subsection \<open>Round robin implements the contract\<close>

definition rr_ready :: "kst \<Rightarrow> nat set \<Rightarrow> bool" where
  "rr_ready s R \<longleftrightarrow> (\<exists>xs. run_list_is s xs \<and> set xs = R)"

definition rr_detached :: "nat \<Rightarrow> kst \<Rightarrow> bool" where
  "rr_detached p s \<longleftrightarrow> dlist (klinks s) (Run_link p) []"

text \<open>The effect of the operations on the run list, in order.\<close>

lemma RR_enqueue_list:
  assumes "run_list_is s xs" and "p \<notin> set xs" and "rr_detached p s"
  obtains t where "RR_enqueue p s = Some t" "run_list_is t (xs @ [p])" "core t = core s" "keeps s t"
    "\<And>q. q \<notin> set (p # xs) \<Longrightarrow> rr_detached q s \<Longrightarrow> rr_detached q t"
proof -
  have e: "list_empty (Run_link p) (klinks s)"
    using assms(3) ll.empty_holds [of "klinks s" "Run_link p" "[]"] by (simp add: rr_detached_def)
  obtain t where t: "RR_enqueue p s = Some t" by (auto simp: RR_enqueue_def e Let_def)
  then have f: "klinks t = list_add_before Run_list (Run_link p) (klinks s)"
    "\<And>q. rq (procs t q) = (if q = p then Some the_rq else rq (procs s q))"
    "proc_num (run_q t) = u32 (proc_num (run_q s) + 1)" "core t = core s"
    using e by (auto simp: RR_enqueue_def Let_def kst_simps core_def fun_eq_iff)
  have "keeps s t"
    using t e assms(1) by (auto simp: RR_enqueue_def Let_def identity_def run_list_is_def foreign_run_enqueue
        intro!: keeps_links split: if_splits)
  moreover
  have "rr_detached q t" if "q \<notin> set (p # xs)" "rr_detached q s" for q
    using run_link_others [OF assms(1), of q p] that f(1) by (simp add: rr_detached_def)
  ultimately show ?thesis using that [OF t run_list_enqueue [OF assms(1,2) f(1-3)] f(4)] by blast
qed

lemma RR_dequeue_list:
  assumes "run_list_is s (xs @ p # ys)"
  obtains t where "RR_dequeue p s = Some t" "run_list_is t (xs @ ys)" "core t = core s" "keeps s t" "rr_detached p t"
    "\<And>q. q \<notin> set (xs @ p # ys) \<Longrightarrow> rr_detached q s \<Longrightarrow> rr_detached q t"
proof -
  have d: "dlist (klinks s) Run_list (map Run_link xs @ Run_link p # map Run_link ys)" "rq (procs s p) = Some the_rq"
    using assms by (auto simp: run_list_is_def)
  have "list_next (Run_link p) (klinks s) \<noteq> Run_link p"
    using ll.next_in [OF d(1)] ll.holds_distinct [OF d(1)] by (cases ys) auto
  then have e: "\<not> list_empty (Run_link p) (klinks s)" by (simp add: list_next_def list_empty_def)
  obtain t where t: "RR_dequeue p s = Some t" by (auto simp: RR_dequeue_def e d(2) Let_def)
  then have f: "klinks t = list_del_init (Run_link p) (klinks s)" "\<And>q. rq (procs t q) = rq (procs s q)"
    "proc_num (run_q t) = sub32 (proc_num (run_q s)) 1" "core t = core s"
    using e d by (auto simp: RR_dequeue_def Let_def kst_simps core_def fun_eq_iff)
  have kt: "keeps s t"
    using t e d by (auto simp: RR_dequeue_def Let_def foreign_run_dequeue [OF d(1)] intro!: keeps_links)
  have "rr_detached q t" if "q \<notin> set (xs @ p # ys)" "rr_detached q s" for q
    using run_link_others_del [OF assms, of q] that f(1) by (simp add: rr_detached_def)
  then show ?thesis
    using that [OF t _ f(4) kt] run_list_dequeue [OF assms f(1) f(2) f(3)] by (simp add: rr_detached_def)
qed

lemma RR_pick_list:
  assumes "run_list_is s xs"
  shows "RR_pick_next s = Some (case xs of [] \<Rightarrow> None | x # _ \<Rightarrow> Some x, s)"
  using run_list_first [OF assms] by (auto simp: RR_pick_next_def split: list.splits)

lemma rr_same:
  "run_same s t \<Longrightarrow> rr_ready s R \<Longrightarrow> rr_ready t R"
  "run_same s t \<Longrightarrow> rr_detached q s \<Longrightarrow> rr_detached q t"
  using run_list_is_same [of s t] by (auto simp: rr_ready_def rr_detached_def run_same_def)

lemmas rr_part = rr_same [OF queue_part_run_same]

interpretation rr: sched_class default_sched_class rr_ready rr_detached
proof (unfold_locales, goal_cases)
  case (1 s R p)
  then obtain xs where xs: "run_list_is s xs" "set xs = R" by (auto simp: rr_ready_def)
  obtain t where "RR_enqueue p s = Some t" "run_list_is t (xs @ [p])" "core t = core s" "keeps s t"
    "\<And>q. q \<notin> set (p # xs) \<Longrightarrow> rr_detached q s \<Longrightarrow> rr_detached q t"
    using RR_enqueue_list [of s xs p] xs 1 by blast
  then show ?case using xs(2) by (auto simp: default_sched_class_def rr_ready_def intro!: exI [of _ "xs @ [p]"])
next
  case (2 s R p)
  then obtain xs where xs: "run_list_is s xs" "set xs = R" by (auto simp: rr_ready_def)
  then obtain as bs where ab: "xs = as @ p # bs" using 2(2) by (meson split_list)
  have d: "distinct xs" using xs(1) dlist_distinct [of "klinks s" Run_list "map Run_link xs"]
    by (simp add: run_list_is_def distinct_map)
  obtain t where "RR_dequeue p s = Some t" "run_list_is t (as @ bs)" "core t = core s" "keeps s t" "rr_detached p t"
    "\<And>q. q \<notin> set (as @ p # bs) \<Longrightarrow> rr_detached q s \<Longrightarrow> rr_detached q t"
    using RR_dequeue_list [of s as p bs] xs(1) ab by blast
  moreover have "set (as @ bs) = R - {p}" using d xs(2) ab by auto
  ultimately show ?case using xs(2) ab by (auto simp: default_sched_class_def rr_ready_def)
next
  case (3 s R)
  then obtain xs where xs: "run_list_is s xs" "set xs = R" by (auto simp: rr_ready_def)
  then show ?case using 3 RR_pick_list [OF xs(1)] by (auto simp: default_sched_class_def split: list.splits)
next
  case (4 t s R)
  then show ?case by (rule rr_same)
next
  case (5 t s q)
  then show ?case by (rule rr_same)
qed


subsection \<open>FIFO and shortest job first implement the contract\<close>

text \<open>These two keep no exact count when it reaches zero, so the count is not part of their contract.\<close>

definition linked_list_is :: "kst \<Rightarrow> nat list \<Rightarrow> bool" where
  "linked_list_is s xs \<longleftrightarrow> dlist (klinks s) Run_list (map Run_link xs) \<and>
     (\<forall>p\<in>set xs. rq (procs s p) = Some the_rq)"

definition fifo_ready :: "kst \<Rightarrow> nat set \<Rightarrow> bool" where
  "fifo_ready s R \<longleftrightarrow> (\<exists>xs. linked_list_is s xs \<and> set xs = R)"

definition fifo_detached :: "nat \<Rightarrow> kst \<Rightarrow> bool" where
  "fifo_detached p s \<longleftrightarrow> rq (procs s p) = None"

lemma FIFO_enqueue_list:
  assumes "linked_list_is s xs" and "p \<notin> set xs" and "fifo_detached p s"
  obtains t where "FIFO_enqueue p s = Some t" "linked_list_is t (xs @ [p])" "core t = core s" "keeps s t"
    "\<forall>q. q \<noteq> p \<longrightarrow> rq (procs t q) = rq (procs s q)"
proof -
  obtain t where t: "FIFO_enqueue p s = Some t"
    using assms(3) by (auto simp: FIFO_enqueue_def fifo_detached_def Let_def)
  then have f: "klinks t = list_add_before Run_list (Run_link p) (klinks s)"
    "\<And>q. rq (procs t q) = (if q = p then Some the_rq else rq (procs s q))" "core t = core s"
    using assms(3) by (auto simp: FIFO_enqueue_def fifo_detached_def Let_def kst_simps core_def fun_eq_iff)
  have "dlist (klinks t) Run_list (map Run_link xs @ [Run_link p])"
    unfolding f(1) using assms(1,2) by (intro ll.enqueue_tail) (auto simp: linked_list_is_def)
  moreover have "keeps s t"
    using t assms(1,3) by (auto simp: FIFO_enqueue_def fifo_detached_def Let_def identity_def linked_list_is_def
        foreign_run_enqueue intro!: keeps_links)
  ultimately show ?thesis using that [OF t _ f(3)] f(2) assms by (auto simp: linked_list_is_def)
qed

lemma FIFO_dequeue_list:
  assumes "linked_list_is s (xs @ p # ys)"
  obtains t where "FIFO_dequeue p s = Some t" "linked_list_is t (xs @ ys)" "core t = core s" "keeps s t"
    "rq (procs t p) = None" "\<forall>q. q \<noteq> p \<longrightarrow> rq (procs t q) = rq (procs s q)"
proof -
  have d: "dlist (klinks s) Run_list (map Run_link xs @ Run_link p # map Run_link ys)" "rq (procs s p) = Some the_rq"
    using assms by (auto simp: linked_list_is_def)
  obtain t where t: "FIFO_dequeue p s = Some t" by (auto simp: FIFO_dequeue_def d(2) Let_def)
  then have f: "klinks t = list_del_init (Run_link p) (klinks s)"
    "\<And>q. rq (procs t q) = (if q = p then None else rq (procs s q))" "core t = core s"
    using d(2) by (auto simp: FIFO_dequeue_def Let_def kst_simps core_def fun_eq_iff split: if_splits)
  have "p \<notin> set (xs @ ys)" using ll.holds_distinct [OF d(1)] by auto
  then have "\<forall>q\<in>set (xs @ ys). rq (procs t q) = Some the_rq"
    using assms f(2) by (auto simp: linked_list_is_def)
  then have "linked_list_is t (xs @ ys)"
    using ll.del_init_holds(1) [OF d(1)] f(1) by (simp add: linked_list_is_def)
  moreover have "keeps s t"
    using t d(2) by (auto simp: FIFO_dequeue_def Let_def identity_def foreign_run_dequeue [OF d(1)] intro!: keeps_links)
  ultimately show ?thesis using that [OF t _ f(3)] f(2) by simp
qed

lemma linked_list_first:
  assumes "linked_list_is s xs"
  shows "list_next Run_list (klinks s) = hd (map Run_link xs @ [Run_list])"
    "list_empty Run_list (klinks s) \<longleftrightarrow> xs = []" "distinct xs"
  using ll.front [of "klinks s" Run_list "map Run_link xs"] ll.empty_holds [of "klinks s" Run_list "map Run_link xs"]
    dlist_distinct [of "klinks s" Run_list "map Run_link xs"] assms
  by (auto simp: linked_list_is_def distinct_map)

lemma linked_list_is_same: "run_same s t \<Longrightarrow> linked_list_is s xs \<Longrightarrow> linked_list_is t xs"
  by (auto simp: linked_list_is_def run_same_def)

lemma fifo_same:
  "run_same s t \<Longrightarrow> fifo_ready s R \<Longrightarrow> fifo_ready t R"
  "run_same s t \<Longrightarrow> fifo_detached q s \<Longrightarrow> fifo_detached q t"
  using linked_list_is_same [of s t] by (auto simp: fifo_ready_def fifo_detached_def run_same_def)

lemma fifo_enqueue_ok:
  assumes "fifo_ready s R" "p \<notin> R" "fifo_detached p s"
  shows "\<exists>t. FIFO_enqueue p s = Some t \<and> fifo_ready t (insert p R) \<and> core t = core s \<and> keeps s t \<and>
    (\<forall>q. q \<notin> insert p R \<longrightarrow> fifo_detached q s \<longrightarrow> fifo_detached q t)"
proof -
  obtain xs where xs: "linked_list_is s xs" "set xs = R" using assms by (auto simp: fifo_ready_def)
  obtain t where "FIFO_enqueue p s = Some t" "linked_list_is t (xs @ [p])" "core t = core s" "keeps s t"
    "\<forall>q. q \<noteq> p \<longrightarrow> rq (procs t q) = rq (procs s q)"
    using FIFO_enqueue_list [of s xs p] xs assms by blast
  then show ?thesis
    using xs(2) by (auto simp: fifo_ready_def fifo_detached_def intro!: exI [of _ "xs @ [p]"])
qed

lemma fifo_dequeue_ok:
  assumes "fifo_ready s R" "p \<in> R"
  shows "\<exists>t. FIFO_dequeue p s = Some t \<and> fifo_ready t (R - {p}) \<and> core t = core s \<and> keeps s t \<and> fifo_detached p t \<and>
    (\<forall>q. q \<notin> R \<longrightarrow> fifo_detached q s \<longrightarrow> fifo_detached q t)"
proof -
  obtain xs where xs: "linked_list_is s xs" "set xs = R" using assms by (auto simp: fifo_ready_def)
  then obtain as bs where ab: "xs = as @ p # bs" using assms(2) by (meson split_list)
  obtain t where "FIFO_dequeue p s = Some t" "linked_list_is t (as @ bs)" "core t = core s" "keeps s t"
    "rq (procs t p) = None" "\<forall>q. q \<noteq> p \<longrightarrow> rq (procs t q) = rq (procs s q)"
    using FIFO_dequeue_list [of s as p bs] xs(1) ab by blast
  moreover have "set (as @ bs) = R - {p}" using linked_list_first(3) [OF xs(1)] xs(2) ab by auto
  ultimately show ?thesis using xs(2) ab assms(2)
    by (auto simp: fifo_ready_def fifo_detached_def)
qed

interpretation fifo: sched_class fifo_sched_class fifo_ready fifo_detached
proof (unfold_locales, goal_cases)
  case (1 s R p)
  then show ?case using fifo_enqueue_ok by (simp add: fifo_sched_class_def)
next
  case (2 s R p)
  then show ?case using fifo_dequeue_ok by (simp add: fifo_sched_class_def)
next
  case (3 s R)
  then obtain xs where xs: "linked_list_is s xs" "set xs = R" by (auto simp: fifo_ready_def)
  have "FIFO_pick_next s = Some (case xs of [] \<Rightarrow> None | x # _ \<Rightarrow> Some x, s)"
    using linked_list_first [OF xs(1)] by (cases xs) (auto simp: FIFO_pick_next_def)
  then show ?case using 3 xs(2) by (auto simp: fifo_sched_class_def split: list.splits)
next
  case (4 t s R)
  then show ?case by (rule fifo_same)
next
  case (5 t s q)
  then show ?case by (rule fifo_same)
qed

text \<open>The search of \<open>SJF_pick_next\<close> on the list: a left fold that keeps the first minimum.\<close>

definition fewest :: "(nat \<Rightarrow> int) \<Rightarrow> nat list \<Rightarrow> nat option \<Rightarrow> bool" where
  "fewest f xs r \<longleftrightarrow> (case r of None \<Rightarrow> xs = [] | Some p \<Rightarrow> p \<in> set xs \<and> (\<forall>x\<in>set xs. f p \<le> f x))"

lemma sjf_loop_fewest:
  assumes "dlist (klinks s) Run_list (map Run_link (as @ bs))" and "fewest (\<lambda>p. runs (procs s p)) as best"
  shows "\<exists>r. sjf_loop (hd (map Run_link bs @ [Run_list])) best s = Some r \<and>
    fewest (\<lambda>p. runs (procs s p)) (as @ bs) r"
  using assms
proof (induction bs arbitrary: as best)
  case Nil
  then show ?case by (subst sjf_loop.simps) simp
next
  case (Cons b bs)
  let ?best = "case best of None \<Rightarrow> Some b
    | Some c \<Rightarrow> if runs (procs s b) < runs (procs s c) then Some b else Some c"
  have "list_next (Run_link b) (klinks s) = hd (map Run_link bs @ [Run_list])"
    using ll.next_in [of "klinks s" Run_list "map Run_link as" "Run_link b" "map Run_link bs"] Cons.prems(1)
    by simp
  moreover have "fewest (\<lambda>p. runs (procs s p)) (as @ [b]) ?best"
    using Cons.prems(2) by (force simp: fewest_def split: option.splits)
  then obtain r where "sjf_loop (hd (map Run_link bs @ [Run_list])) ?best s = Some r"
    "fewest (\<lambda>p. runs (procs s p)) (as @ b # bs) r"
    using Cons.IH [of "as @ [b]" ?best] Cons.prems(1) by auto
  ultimately show ?case by (subst sjf_loop.simps) (simp add: Let_def)
qed

lemma SJF_pick_list:
  assumes "linked_list_is s xs"
  shows "\<exists>r. SJF_pick_next s = Some (r, s) \<and> fewest (\<lambda>p. runs (procs s p)) xs r"
proof (cases "xs = []")
  case True
  then show ?thesis using linked_list_first [OF assms] by (simp add: SJF_pick_next_def fewest_def)
next
  case False
  then show ?thesis
    using linked_list_first [OF assms] sjf_loop_fewest [of s "[]" xs None] assms
    by (auto simp: SJF_pick_next_def fewest_def linked_list_is_def)
qed

interpretation sjf: sched_class sjf_sched_class fifo_ready fifo_detached
proof (unfold_locales, goal_cases)
  case (1 s R p)
  then show ?case using fifo_enqueue_ok by (simp add: sjf_sched_class_def sjf_shares_fifo)
next
  case (2 s R p)
  then show ?case using fifo_dequeue_ok by (simp add: sjf_sched_class_def sjf_shares_fifo)
next
  case (3 s R)
  then obtain xs where xs: "linked_list_is s xs" "set xs = R" by (auto simp: fifo_ready_def)
  from SJF_pick_list [OF xs(1)] obtain r where
    "SJF_pick_next s = Some (r, s)" "fewest (\<lambda>p. runs (procs s p)) xs r" by blast
  then show ?case using 3 xs(2) by (auto simp: sjf_sched_class_def fewest_def split: option.splits)
next
  case (4 t s R)
  then show ?case by (rule fifo_same)
next
  case (5 t s q)
  then show ?case by (rule fifo_same)
qed

subsection \<open>Round robin is fair\<close>

lemma RR_schedule_rotate:
  assumes q: "run_list_is s (x # xs)" and c: "current s = Some c" "state (procs s c) = PROC_RUNNABLE"
    "Some c \<noteq> idleproc s" "c \<notin> set (x # xs)" "rr_detached c s"
  shows "\<exists>t. schedule default_sched_class s = Some t \<and> run_list_is t (xs @ [c]) \<and> current t = Some x \<and>
    rr_detached x t \<and> (\<forall>p. state (procs t p) = state (procs s p)) \<and> idleproc t = idleproc s"
proof -
  define u where "u = upd_proc c (\<lambda>d. d\<lparr>need_resched := False\<rparr>) s"
  have qu: "queue_part u = queue_part s" "core u = core s"
    by (auto simp: u_def queue_part_def core_def kst_simps)
  note cu = core_eqD [OF qu(2)]
  obtain v where v: "RR_enqueue c u = Some v" "run_list_is v (x # xs @ [c])" "core v = core u"
    using RR_enqueue_list [of u "x # xs" c] run_list_is_part [OF qu(1) q] rr_part(2) [OF qu(1) c(5)] c(4)
    by (metis append_Cons)
  note cv = core_eqD [OF v(3)]
  obtain w where w: "RR_dequeue x v = Some w" "run_list_is w (xs @ [c])" "core w = core v" "rr_detached x w"
    using RR_dequeue_list [of v "[]" x "xs @ [c]"] v(2) by (metis append_Nil)
  note cw = core_eqD [OF w(3)]
  define y where "y = upd_proc x (\<lambda>d. d\<lparr>runs := runs d + 1\<rparr>) w"
  have cx: "current y = Some c" "x \<noteq> c" using c cw cv cu by (auto simp: y_def kst_simps)
  have e: "schedule default_sched_class s = Some (proc_run x y)"
    using c(1-3) v(1) w(1) RR_pick_list [OF v(2)] cx
    by (simp add: schedule_def sched_class_enqueue_def sched_class_pick_next_def sched_class_dequeue_def
        default_sched_class_def Let_def u_def [symmetric] y_def [symmetric] cu)
  have t: "queue_part (proc_run x y) = queue_part w" "current (proc_run x y) = Some x"
    "idleproc (proc_run x y) = idleproc s" "\<And>p. state (procs (proc_run x y) p) = state (procs s p)"
    using cx by (auto simp: proc_run_def queue_part_def y_def kst_simps cw cv cu)
  show ?thesis
    using e t run_list_is_part [OF t(1) w(2)] rr_part(2) [OF t(1) w(4)] by blast
qed

fun schedule_times :: "nat \<Rightarrow> kst \<Rightarrow> kst kresult" where
  "schedule_times 0 s = Some s"
| "schedule_times (Suc k) s = do { s \<leftarrow> schedule default_sched_class s; schedule_times k s }"

lemma RR_turn:
  assumes "run_list_is s xs" "current s = Some c" "\<forall>p\<in>set (c # xs). state (procs s p) = PROC_RUNNABLE"
    "\<forall>p\<in>set (c # xs). Some p \<noteq> idleproc s" "c \<notin> set xs" "rr_detached c s" "k < length xs"
  shows "\<exists>t. schedule_times (Suc k) s = Some t \<and> current t = Some (xs ! k)"
  using assms
proof (induction k arbitrary: s xs c)
  case 0
  then obtain x ys where "xs = x # ys" by (cases xs) auto
  then show ?case using RR_schedule_rotate [of s x ys c] 0 by auto
next
  case (Suc k)
  then obtain x ys where xs: "xs = x # ys" by (cases xs) auto
  have d: "distinct xs"
    using Suc.prems(1) dlist_distinct [of "klinks s" Run_list "map Run_link xs"]
    by (simp add: run_list_is_def distinct_map)
  obtain t where t: "schedule default_sched_class s = Some t" "run_list_is t (ys @ [c])" "current t = Some x"
    "rr_detached x t" "\<forall>p. state (procs t p) = state (procs s p)" "idleproc t = idleproc s"
    using RR_schedule_rotate [of s x ys c] Suc.prems xs by auto
  have "\<exists>u. schedule_times (Suc k) t = Some u \<and> current u = Some ((ys @ [c]) ! k)"
    using t xs d Suc.prems by (intro Suc.IH [of t "ys @ [c]" x]) auto
  then show ?case using t(1) xs Suc.prems(7) by (auto simp: nth_append)
qed

subsection \<open>Properties\<close>

text \<open>The scheduling classes of the repository, each with its reading of the queue.\<close>

definition kernel_class :: "sched_class \<Rightarrow> (kst \<Rightarrow> nat set \<Rightarrow> bool) \<Rightarrow> (nat \<Rightarrow> kst \<Rightarrow> bool) \<Rightarrow> bool" where
  "kernel_class cls ready detached \<longleftrightarrow> (cls, ready, detached) \<in> {(default_sched_class, rr_ready, rr_detached),
      (fifo_sched_class, fifo_ready, fifo_detached), (sjf_sched_class, fifo_ready, fifo_detached),
      (stride_sched_class, stride_ready, stride_detached)}"

lemma kernel_class_rr [simp]: "kernel_class default_sched_class rr_ready rr_detached"
  by (simp add: kernel_class_def)

lemma four_classes:
  assumes "kernel_class cls ready detached"
  shows "sched_class cls ready detached"
  using assms unfolding kernel_class_def
  using rr.sched_class_axioms fifo.sched_class_axioms sjf.sched_class_axioms stride.sched_class_axioms
  by auto

text \<open>
  C7: with any of the four scheduling classes, \<open>schedule\<close> returns from every state in which exactly the
  runnable processes other than the current and the idle one are queued, and keeps this true; the new
  current process is runnable, is the idle process only when no other process can run, has its run count
  increased and its page table loaded.
\<close>

theorem schedule_runs_runnable:
  assumes "kernel_class cls ready detached"
    and "sched_inv ready detached A s"
  shows "\<exists>t n. schedule cls s = Some t \<and> sched_inv ready detached A t \<and> current t = Some n \<and>
    state (procs t n) = PROC_RUNNABLE \<and>
    (if runnable_set A s = {} then Some n = idleproc s else n \<in> runnable_set A s) \<and>
    runs (procs t n) = runs (procs s n) + 1 \<and> (current s \<noteq> Some n \<longrightarrow> satp t = pgdir (procs s n))"
  using sched_class.schedule_inv [OF four_classes [OF assms(1)] assms(2)] by blast

text \<open>A state with idle process 0 running and process 1 waiting in the run list.\<close>

definition demo_proc :: proc_struct where
  "demo_proc = \<lparr>state = PROC_RUNNABLE, pid = 0, runs = 0, kstack = 0, need_resched = True, parent = None,
     mm = None, ctx = zero_context, tf = None, pgdir = 0, pflags = 0, pname = [], exit_code = 0, wait_state = 0, cptr = None, yptr = None,
     optr = None, rq = None, time_slice = 0, lab6_stride = 0, lab6_priority = 1, filesp = None\<rparr>"

definition demo_kst :: kst where
  "demo_kst = \<lparr>procs = (\<lambda>p. if p = 0 then demo_proc
       else if p = 1 then demo_proc\<lparr>rq := Some the_rq\<rparr>
       else demo_proc\<lparr>state := PROC_SLEEPING, wait_state := WT_TIMER\<rparr>),
     klinks = \<lparr>nxt = (\<lambda>e. if e = Run_list then Run_link 1 else if e = Run_link 1 then Run_list else e),
               prv = (\<lambda>e. if e = Run_list then Run_link 1 else if e = Run_link 1 then Run_list else e)\<rparr>,
     pool = \<lparr>par = (\<lambda>_. None), lft = (\<lambda>_. None), rgt = (\<lambda>_. None)\<rparr>,
     run_q = \<lparr>proc_num = 1, max_time_slice = 5, lab6_run_pool = None\<rparr>, current = Some 0, idleproc = Some 0,
     initproc = Some 1, satp = 0, timers = (\<lambda>_. \<lparr>expires = 0, tproc = None\<rparr>),
     waits = (\<lambda>_. \<lparr>wproc = None, wakeup_flags = 0, wait_queue = None\<rparr>), sem_value = (\<lambda>_. 0),
     nr_process = 2, last_pid = 1, next_safe = MAX_PID\<rparr>"

lemma demo_lists: "run_list_is demo_kst [1]" "linked_list_is demo_kst [1]"
  by (simp_all add: run_list_is_def linked_list_is_def demo_kst_def dlist_def)

lemma demo_waiting: "waiting_set {0, 1, 2} demo_kst = {1}" "runnable_set {0, 1, 2} demo_kst = {1}"
  by (auto simp: waiting_set_def runnable_set_def demo_kst_def demo_proc_def)

lemma demo_sched_inv: "sched_inv rr_ready rr_detached {0, 1, 2} demo_kst"
proof -
  have "rr_ready demo_kst {1}" using demo_lists(1) by (auto simp: rr_ready_def intro!: exI [of _ "[1]"])
  moreover have "rr_detached 0 demo_kst" "rr_detached 2 demo_kst"
    by (simp_all add: rr_detached_def dlist_def demo_kst_def)
  ultimately show ?thesis
    unfolding sched_inv_def demo_waiting by (auto simp: demo_kst_def demo_proc_def)
qed

theorem schedule_runs_runnable_witness:
  "\<exists>t. schedule default_sched_class demo_kst = Some t \<and> current t = Some 1 \<and> state (procs t 1) = PROC_RUNNABLE"
  using schedule_runs_runnable [OF kernel_class_rr demo_sched_inv] unfolding demo_waiting by auto

text \<open>
  C8: \<open>wakeup_proc\<close> on a process that is not a zombie returns, makes it runnable and keeps exactly the
  runnable processes queued, with any of the four classes; on a zombie it stops at its assertion.
\<close>

theorem wakeup_proc_queues:
  assumes "kernel_class cls ready detached"
    and "sched_inv ready detached A s" and "p \<in> A"
  shows "if state (procs s p) = PROC_ZOMBIE then wakeup_proc cls p s = None
    else \<exists>t. wakeup_proc cls p s = Some t \<and> sched_inv ready detached A t \<and>
      state (procs t p) = PROC_RUNNABLE \<and> current t = current s"
  using sched_class.wakeup_inv [OF four_classes [OF assms(1)] assms(2,3)] by (auto simp: wakeup_proc_def)

theorem wakeup_proc_queues_witness:
  "\<exists>t. wakeup_proc default_sched_class 2 demo_kst = Some t \<and> sched_inv rr_ready rr_detached {0, 1, 2} t"
  using wakeup_proc_queues [OF kernel_class_rr demo_sched_inv, of 2]
  by (auto simp: demo_kst_def demo_proc_def)

text \<open>
  C9: round robin is fair. If the current process and the queued ones stay runnable, the process at
  position \<open>k\<close> of the run list is the current one after \<open>k + 1\<close> calls of \<open>schedule\<close>.
\<close>

theorem RR_fair:
  assumes "run_list_is s xs" and "current s = Some c"
    and "\<forall>p\<in>set (c # xs). state (procs s p) = PROC_RUNNABLE \<and> Some p \<noteq> idleproc s"
    and "c \<notin> set xs" and "rr_detached c s" and "k < length xs"
  shows "\<exists>t. schedule_times (Suc k) s = Some t \<and> current t = Some (xs ! k)"
  using RR_turn [OF assms(1,2) _ _ assms(4,5,6)] assms(3) by simp

theorem RR_fair_witness:
  "\<exists>t. schedule_times 1 (demo_kst\<lparr>current := Some 3, procs := (\<lambda>_. demo_proc\<lparr>rq := Some the_rq\<rparr>)\<rparr>) = Some t \<and>
     current t = Some 1"
proof -
  let ?s = "demo_kst\<lparr>current := Some 3, procs := (\<lambda>_. demo_proc\<lparr>rq := Some the_rq\<rparr>)\<rparr>"
  have "run_list_is ?s [1]" by (simp add: run_list_is_def demo_kst_def dlist_def)
  moreover have "rr_detached 3 ?s" by (simp add: rr_detached_def dlist_def demo_kst_def)
  ultimately show ?thesis
    using RR_fair [of ?s "[1]" 3 0] by (simp add: demo_kst_def demo_proc_def)
qed

text \<open>
  \<open>SJF_pick_next\<close> returns, changes nothing and picks a queued process with the fewest runs, and none
  exactly when the queue is empty.
\<close>

lemma SJF_pick_next_fewest:
  assumes "linked_list_is s xs"
  shows "\<exists>r. SJF_pick_next s = Some (r, s) \<and>
    (case r of None \<Rightarrow> xs = []
     | Some p \<Rightarrow> p \<in> set xs \<and> (\<forall>q\<in>set xs. runs (procs s p) \<le> runs (procs s q)))"
  using SJF_pick_list [OF assms] unfolding fewest_def by blast

end
