(* ===== verification/Timer.thy ===== *)
theory Timer
  imports Sched_Lists
begin

unbundle bit_operations_syntax

section \<open>Timers (kern/schedule/sched.c) and sleeping (do_sleep of kern/process/proc.c)\<close>

text \<open>
  The timer list is a delta queue: \<open>expires\<close> counts the ticks after the timer before it. The abstraction is
  the list of timers with their deadlines, the sums of the deltas.
\<close>

subsection \<open>Operations\<close>

definition upd_timer :: "nat \<Rightarrow> (timer \<Rightarrow> timer) \<Rightarrow> kst \<Rightarrow> kst" where
  "upd_timer t f s = s\<lparr>timers := (timers s)(t := f (timers s t))\<rparr>"

definition timer_init :: "nat \<Rightarrow> nat option \<Rightarrow> nat \<Rightarrow> kst \<Rightarrow> kst" where
  "timer_init t p e s =
     (let s = upd_timer t (\<lambda>d. d\<lparr>expires := u32 e\<rparr>) s;
          s = upd_timer t (\<lambda>d. d\<lparr>tproc := p\<rparr>) s
      in upd_klinks (list_init (Timer_link t)) s)"

partial_function (option) add_timer_loop :: "nat \<Rightarrow> kle \<Rightarrow> kst \<Rightarrow> (kle \<times> kst) kresult" where
  "add_timer_loop t le s =
     (if le = Timer_list then Some (le, s)
      else let next = le2timer le in
           if expires (timers s t) < expires (timers s next)
           then Some (le, upd_timer next (\<lambda>d. d\<lparr>expires := expires d - expires (timers s t)\<rparr>) s)
           else let s = upd_timer t (\<lambda>d. d\<lparr>expires := expires d - expires (timers s next)\<rparr>) s
                in add_timer_loop t (list_next le (klinks s)) s)"

definition add_timer :: "nat \<Rightarrow> kst \<Rightarrow> kst kresult" where
  "add_timer t s = do {
     kassert (expires (timers s t) > 0 \<and> tproc (timers s t) \<noteq> None);
     kassert (list_empty (Timer_link t) (klinks s));
     (le, s) \<leftarrow> add_timer_loop t (list_next Timer_list (klinks s)) s;
     Some (upd_klinks (list_add_before le (Timer_link t)) s)
   }"

definition del_timer :: "nat \<Rightarrow> kst \<Rightarrow> kst" where
  "del_timer t s =
     (if \<not> list_empty (Timer_link t) (klinks s)
      then let s = (if expires (timers s t) \<noteq> 0
                    then let le = list_next (Timer_link t) (klinks s) in
                         if le \<noteq> Timer_list
                         then upd_timer (le2timer le)
                                (\<lambda>d. d\<lparr>expires := u32 (expires d + expires (timers s t))\<rparr>) s
                         else s
                    else s)
           in upd_klinks (list_del_init (Timer_link t)) s
      else s)"

partial_function (option) run_timer_loop :: "sched_class \<Rightarrow> nat \<Rightarrow> kle \<Rightarrow> kst \<Rightarrow> kst kresult" where
  "run_timer_loop cls t le s =
     (if expires (timers s t) = 0
      then let le = list_next le (klinks s) in do {
             p \<leftarrow> tproc (timers s t);
             kassert (wait_state (procs s p) \<noteq> 0 \<longrightarrow> wait_state (procs s p) AND WT_INTERRUPTED \<noteq> 0);
             s \<leftarrow> wakeup_proc cls p s;
             let s = del_timer t s;
             if le = Timer_list then Some s else run_timer_loop cls (le2timer le) le s
           }
      else Some s)"

definition run_timer_list :: "sched_class \<Rightarrow> kst \<Rightarrow> kst kresult" where
  "run_timer_list cls s = do {
     let le = list_next Timer_list (klinks s);
     s \<leftarrow> (if le \<noteq> Timer_list
           then let t = le2timer le in do {
                  kassert (expires (timers s t) \<noteq> 0);
                  let s = upd_timer t (\<lambda>d. d\<lparr>expires := expires d - 1\<rparr>) s;
                  run_timer_loop cls t le s
                }
           else Some s);
     case current s of Some c \<Rightarrow> sched_class_proc_tick cls c s | None \<Rightarrow> Some s
   }"

text \<open>
  \<open>do_sleep\<close> up to its call of \<open>schedule\<close>, with the timer \<open>t\<close> on the caller's stack, and what it does when
  the process runs again.
\<close>

definition do_sleep :: "sched_class \<Rightarrow> nat \<Rightarrow> nat \<Rightarrow> kst \<Rightarrow> kst kresult" where
  "do_sleep cls t time s =
     (if time = 0 then Some s
      else do {
        cur \<leftarrow> current s;
        let s = timer_init t (Some cur) time s;
        let s = upd_proc cur (\<lambda>d. d\<lparr>state := PROC_SLEEPING, wait_state := WT_TIMER\<rparr>) s;
        s \<leftarrow> add_timer t s;
        schedule cls s
      })"

definition do_sleep_resume :: "nat \<Rightarrow> kst \<Rightarrow> kst" where
  "do_sleep_resume t s = del_timer t s"

subsection \<open>Deadlines\<close>

fun deadlines :: "(nat \<Rightarrow> nat) \<Rightarrow> nat \<Rightarrow> nat list \<Rightarrow> (nat \<times> nat) list" where
  "deadlines f acc [] = []"
| "deadlines f acc (t # ts) = (t, acc + f t) # deadlines f (acc + f t) ts"

definition timer_list_is :: "kst \<Rightarrow> nat list \<Rightarrow> bool" where
  "timer_list_is s ts \<longleftrightarrow> dlist (klinks s) Timer_list (map Timer_link ts)"

definition deadlines_of :: "kst \<Rightarrow> nat list \<Rightarrow> (nat \<times> nat) list" where
  "deadlines_of s ts = deadlines (\<lambda>t. expires (timers s t)) 0 ts"

lemma upd_timer_fields [kst_simps]:
  "timers (upd_timer t f s) = (timers s)(t := f (timers s t))" "klinks (upd_timer t f s) = klinks s"
  "procs (upd_timer t f s) = procs s" "run_q (upd_timer t f s) = run_q s" "pool (upd_timer t f s) = pool s"
  "current (upd_timer t f s) = current s" "idleproc (upd_timer t f s) = idleproc s"
  by (simp_all add: upd_timer_def)

lemma deadlines_append:
  "deadlines f acc (as @ bs) = deadlines f acc as @ deadlines f (acc + sum_list (map f as)) bs"
  by (induction as arbitrary: acc) (auto simp: add.assoc)

lemma deadlines_cong: "(\<And>t. t \<in> set ts \<Longrightarrow> f t = g t) \<Longrightarrow> deadlines f acc ts = deadlines g acc ts"
  by (induction ts arbitrary: acc) auto

lemma deadlines_bounds: "(x, d) \<in> set (deadlines f acc ts) \<Longrightarrow> acc \<le> d"
  by (induction ts arbitrary: acc) fastforce+

lemma deadlines_last:
  "(x, d) \<in> set (deadlines f acc ts) \<Longrightarrow> d \<le> acc + sum_list (map f ts)"
  by (induction ts arbitrary: acc) fastforce+

text \<open>
  The search of \<open>add_timer\<close>: it passes the timers \<open>as\<close> whose deltas sum to at most \<open>e\<close> and stops at a timer
  due later, whose delta it shortens.
\<close>

lemma add_timer_loop_spec:
  assumes "dlist (klinks s) Timer_list (map Timer_link (cs @ ts))" and "t \<notin> set ts"
  shows "\<exists>as bs s' e'. ts = as @ bs \<and>
    add_timer_loop t (hd (map Timer_link ts @ [Timer_list])) s = Some (hd (map Timer_link bs @ [Timer_list]), s') \<and>
    sum_list (map (\<lambda>x. expires (timers s x)) as) + e' = expires (timers s t) \<and>
    expires (timers s' t) = e' \<and> (bs \<noteq> [] \<longrightarrow> e' < expires (timers s (hd bs))) \<and>
    (\<forall>x. x \<noteq> t \<longrightarrow> expires (timers s' x) =
       (if bs \<noteq> [] \<and> x = hd bs then expires (timers s x) - e' else expires (timers s x))) \<and>
    klinks s' = klinks s \<and> procs s' = procs s"
  using assms
proof (induction ts arbitrary: cs s)
  case Nil
  then show ?case by (subst add_timer_loop.simps) auto
next
  case (Cons x ts)
  show ?case
  proof (cases "expires (timers s t) < expires (timers s x)")
    case True
    then show ?thesis
      using Cons.prems by (intro exI [of _ "[]"] exI [of _ "x # ts"])
        (auto simp: add_timer_loop.simps kst_simps Let_def)
  next
    case False
    let ?s = "upd_timer t (\<lambda>d. d\<lparr>expires := expires d - expires (timers s x)\<rparr>) s"
    have nx: "list_next (Timer_link x) (klinks s) = hd (map Timer_link ts @ [Timer_list])"
      using ll.next_in [of "klinks s" Timer_list "map Timer_link cs" "Timer_link x" "map Timer_link ts"] Cons.prems
      by simp
    have d: "dlist (klinks ?s) Timer_list (map Timer_link ((cs @ [x]) @ ts))" "t \<notin> set ts"
      using Cons.prems by (auto simp: kst_simps)
    obtain as bs s' e' where ih: "ts = as @ bs"
      "add_timer_loop t (hd (map Timer_link ts @ [Timer_list])) ?s = Some (hd (map Timer_link bs @ [Timer_list]), s')"
      "sum_list (map (\<lambda>x. expires (timers ?s x)) as) + e' = expires (timers ?s t)"
      "expires (timers s' t) = e'" "bs \<noteq> [] \<longrightarrow> e' < expires (timers ?s (hd bs))"
      "\<forall>x. x \<noteq> t \<longrightarrow> expires (timers s' x) =
         (if bs \<noteq> [] \<and> x = hd bs then expires (timers ?s x) - e' else expires (timers ?s x))"
      "klinks s' = klinks ?s" "procs s' = procs ?s"
      using Cons.IH [OF d] by blast
    have nt: "t \<notin> set as" "bs \<noteq> [] \<Longrightarrow> hd bs \<noteq> t" using d(2) ih(1) by auto
    have eq: "map (\<lambda>x. expires (timers ?s x)) as = map (\<lambda>x. expires (timers s x)) as"
      using nt(1) by (auto simp: kst_simps)
    have "add_timer_loop t (hd (map Timer_link (x # ts) @ [Timer_list])) s =
        Some (hd (map Timer_link bs @ [Timer_list]), s')"
      using False ih(2) nx by (subst add_timer_loop.simps) (simp add: Let_def kst_simps)
    moreover have "sum_list (map (\<lambda>x. expires (timers s x)) (x # as)) + e' = expires (timers s t)"
      using ih(3) False unfolding eq by (simp add: kst_simps)
    ultimately show ?thesis
      using ih(1,4-8) nt by (intro exI [of _ "x # as"] exI [of _ bs] exI [of _ s'] exI [of _ e'])
        (auto simp: kst_simps)
  qed
qed

lemma timer_list_distinct: "timer_list_is s ts \<Longrightarrow> distinct ts"
  using dlist_distinct [of "klinks s" Timer_list "map Timer_link ts"] by (simp add: timer_list_is_def distinct_map)

lemma deadlines_of_append:
  "deadlines_of s (as @ bs) = deadlines_of s as @
     deadlines (\<lambda>t. expires (timers s t)) (sum_list (map (\<lambda>t. expires (timers s t)) as)) bs"
  by (simp add: deadlines_of_def deadlines_append)

lemma length_deadlines [simp]: "length (deadlines f acc ts) = length ts"
  by (induction ts arbitrary: acc) auto

text \<open>Moving \<open>e\<close> ticks from the first timer of a list to its start leaves every deadline.\<close>

lemma deadlines_shift:
  assumes "\<And>x. x \<in> set bs \<Longrightarrow> g x = (if x = hd bs then f x - e else f x)" "distinct bs" "bs \<noteq> [] \<Longrightarrow> e \<le> f (hd bs)"
  shows "deadlines g (acc + e) bs = deadlines f acc bs"
proof (cases bs)
  case (Cons b cs)
  have "deadlines g (acc + f b) cs = deadlines f (acc + f b) cs"
    using assms(1,2) Cons by (intro deadlines_cong) auto
  moreover have "g b = f b - e" using assms(1) Cons by simp
  ultimately show ?thesis using assms(3) Cons by (simp add: add.assoc)
qed simp

lemma add_timer_spec:
  assumes d: "timer_list_is s ts" and t: "t \<notin> set ts" "dlist (klinks s) (Timer_link t) []"
    "0 < expires (timers s t)" "tproc (timers s t) \<noteq> None"
  obtains u as bs where "add_timer t s = Some u" "ts = as @ bs" "timer_list_is u (as @ t # bs)"
    "deadlines_of u (as @ t # bs) =
       deadlines_of s as @ (t, expires (timers s t)) # drop (length as) (deadlines_of s ts)"
    "\<forall>(x, d)\<in>set (deadlines_of s as). d \<le> expires (timers s t)"
    "\<forall>(x, d)\<in>set (drop (length as) (deadlines_of s ts)). expires (timers s t) < d" "procs u = procs s"
proof -
  let ?f = "\<lambda>x. expires (timers s x)"
  have e: "list_empty (Timer_link t) (klinks s)" using ll.empty_holds [OF t(2)] by simp
  have fr: "list_next Timer_list (klinks s) = hd (map Timer_link ts @ [Timer_list])"
    using ll.front [of "klinks s" Timer_list "map Timer_link ts"] d by (simp add: timer_list_is_def)
  obtain as bs s' e' where l: "ts = as @ bs"
    "add_timer_loop t (hd (map Timer_link ts @ [Timer_list])) s = Some (hd (map Timer_link bs @ [Timer_list]), s')"
    "sum_list (map ?f as) + e' = ?f t" "expires (timers s' t) = e'" "bs \<noteq> [] \<longrightarrow> e' < ?f (hd bs)"
    "\<forall>x. x \<noteq> t \<longrightarrow> expires (timers s' x) = (if bs \<noteq> [] \<and> x = hd bs then ?f x - e' else ?f x)"
    "klinks s' = klinks s" "procs s' = procs s"
  proof -
    have "dlist (klinks s) Timer_list (map Timer_link ([] @ ts))" using d by (simp add: timer_list_is_def)
    from add_timer_loop_spec [OF this t(1)] show ?thesis using that by blast
  qed
  let ?u = "upd_klinks (list_add_before (hd (map Timer_link bs @ [Timer_list])) (Timer_link t)) s'"
  have a: "add_timer t s = Some ?u" using e t l(2) fr by (auto simp: add_timer_def)
  have "dlist (klinks ?u) Timer_list (map Timer_link as @ Timer_link t # map Timer_link bs)"
    using d t(1) l(1,7) unfolding timer_list_is_def
    by (simp add: kst_simps) (rule ll.add_before_holds; auto)
  then have tl: "timer_list_is ?u (as @ t # bs)" by (simp add: timer_list_is_def)
  have dist: "distinct (as @ bs)" using timer_list_distinct [OF d] l(1) by simp
  let ?g = "\<lambda>x. expires (timers ?u x)"
  have g: "?g t = e'" "\<And>x. x \<in> set as \<Longrightarrow> ?g x = ?f x"
    "\<And>x. x \<in> set bs \<Longrightarrow> ?g x = (if x = hd bs then ?f x - e' else ?f x)"
  proof -
    have gu: "?g x = expires (timers s' x)" for x by (simp add: kst_simps)
    show "?g t = e'" using gu l(4) by simp
    show "?g x = ?f x" if "x \<in> set as" for x
    proof -
      have x: "x \<noteq> t" "\<not> (bs \<noteq> [] \<and> x = hd bs)" using that dist t(1) l(1) by (auto dest: hd_in_set)
      have "expires (timers s' x) = ?f x" using l(6) x(1) unfolding if_not_P [OF x(2)] by (metis x(2))
      then show ?thesis using gu by simp
    qed
    show "?g x = (if x = hd bs then ?f x - e' else ?f x)" if "x \<in> set bs" for x
    proof -
      have "x \<noteq> t" "bs \<noteq> []" using that t(1) l(1) by auto
      then show ?thesis using l(6) gu by simp
    qed
  qed
  have S: "sum_list (map ?g as) = sum_list (map ?f as)" using g(2) by (simp cong: map_cong)
  have "deadlines ?g (sum_list (map ?f as) + e') bs = deadlines ?f (sum_list (map ?f as)) bs"
    using g(3) dist l(5) by (intro deadlines_shift) auto
  moreover have "deadlines ?g 0 as = deadlines ?f 0 as" using g(2) by (rule deadlines_cong)
  ultimately have dl: "deadlines_of ?u (as @ t # bs) = deadlines_of s as @ (t, ?f t) # drop (length as) (deadlines_of s ts)"
    using l(3) g(1) S unfolding l(1) deadlines_of_append by (simp add: deadlines_of_def)
  have "\<forall>(x, d)\<in>set (deadlines_of s as). d \<le> ?f t"
    using deadlines_last [of _ _ ?f 0 as] l(3) by (fastforce simp: deadlines_of_def)
  moreover have "\<forall>(x, d)\<in>set (drop (length as) (deadlines_of s ts)). ?f t < d"
  proof (cases bs)
    case (Cons b cs)
    then show ?thesis
      using deadlines_bounds [of _ _ ?f "sum_list (map ?f as) + ?f b" cs] l(3,5)
      unfolding l(1) deadlines_of_append by (fastforce simp: deadlines_of_def)
  qed (simp add: l(1) deadlines_of_append, simp add: deadlines_of_def)
  ultimately show ?thesis using that [OF a l(1) tl dl] l(8) by (simp add: kst_simps)
qed

lemma timer_linked:
  assumes "timer_list_is s (as @ t # bs)"
  shows "\<not> list_empty (Timer_link t) (klinks s)" "list_next (Timer_link t) (klinks s) = hd (map Timer_link bs @ [Timer_list])"
proof -
  have d: "dlist (klinks s) Timer_list (map Timer_link as @ Timer_link t # map Timer_link bs)"
    using assms by (simp add: timer_list_is_def)
  show n: "list_next (Timer_link t) (klinks s) = hd (map Timer_link bs @ [Timer_list])" by (rule ll.next_in [OF d])
  have "hd (map Timer_link bs @ [Timer_list]) \<noteq> Timer_link t" using timer_list_distinct [OF assms] by (cases bs) auto
  then show "\<not> list_empty (Timer_link t) (klinks s)" using n by (simp add: list_next_def list_empty_def)
qed

lemma del_timer_spec:
  assumes d: "timer_list_is s (as @ t # bs)" and lt: "\<forall>(x, d)\<in>set (deadlines_of s (as @ t # bs)). d < 2 ^ 32"
  shows "timer_list_is (del_timer t s) (as @ bs)" "dlist (klinks (del_timer t s)) (Timer_link t) []"
    "deadlines_of (del_timer t s) (as @ bs) = deadlines_of s as @ drop (Suc (length as)) (deadlines_of s (as @ t # bs))"
    "procs (del_timer t s) = procs s" "klinks (del_timer t s) = list_del_init (Timer_link t) (klinks s)"
proof -
  let ?f = "\<lambda>x. expires (timers s x)" and ?u = "del_timer t s"
  note ln = timer_linked [OF d]
  have dist: "distinct (as @ t # bs)" by (rule timer_list_distinct [OF d])
  show k: "klinks ?u = list_del_init (Timer_link t) (klinks s)" "procs ?u = procs s"
    using ln by (simp_all add: del_timer_def Let_def kst_simps)
  have dl: "dlist (klinks s) Timer_list (map Timer_link as @ Timer_link t # map Timer_link bs)"
    using d by (simp add: timer_list_is_def)
  show "timer_list_is ?u (as @ bs)" "dlist (klinks ?u) (Timer_link t) []"
    using ll.del_init_holds [OF dl] by (simp_all add: timer_list_is_def k)
  have g: "expires (timers ?u x) = (if bs \<noteq> [] \<and> x = hd bs then ?f x + ?f t else ?f x)" for x
  proof (cases bs)
    case Nil
    then show ?thesis using ln by (simp add: del_timer_def Let_def kst_simps)
  next
    case (Cons b cs)
    have "(b, sum_list (map ?f as) + ?f t + ?f b) \<in> set (deadlines_of s (as @ t # bs))"
      by (simp add: deadlines_of_append Cons)
    then have "?f b + ?f t < 2 ^ 32" using lt by fastforce
    then show ?thesis using ln Cons by (auto simp: del_timer_def Let_def kst_simps)
  qed
  have ga: "\<And>x. x \<in> set as \<Longrightarrow> expires (timers ?u x) = ?f x" using g dist by (auto simp: hd_in_set)
  have "deadlines (\<lambda>x. expires (timers ?u x)) 0 as = deadlines ?f 0 as" using ga by (rule deadlines_cong)
  moreover have "sum_list (map (\<lambda>x. expires (timers ?u x)) as) = sum_list (map ?f as)"
    using ga by (simp cong: map_cong)
  moreover have "deadlines (\<lambda>x. expires (timers ?u x)) acc bs = deadlines ?f (acc + ?f t) bs" for acc
  proof (rule deadlines_shift [symmetric])
    fix x assume "x \<in> set bs"
    then show "?f x = (if x = hd bs then expires (timers ?u x) - ?f t else expires (timers ?u x))"
      unfolding g by auto
  next
    show "distinct bs" using dist by simp
  next
    assume "bs \<noteq> []"
    then show "?f t \<le> expires (timers ?u (hd bs))" unfolding g by simp
  qed
  ultimately show "deadlines_of ?u (as @ bs) = deadlines_of s as @ drop (Suc (length as)) (deadlines_of s (as @ t # bs))"
    unfolding deadlines_of_append by (simp add: deadlines_of_def)
qed

subsection \<open>A clock tick\<close>

text \<open>Waking a process on the round-robin scheduler touches the run list only.\<close>

lemma wakeup_effect:
  assumes i: "sched_inv rr_ready rr_detached A s" and p: "p \<in> A" "state (procs s p) \<noteq> PROC_ZOMBIE"
    and ts: "timer_list_is s ts"
  obtains u where "wakeup_proc default_sched_class p s = Some u" "sched_inv rr_ready rr_detached A u"
    "timer_list_is u ts" "timers u = timers s" "current u = current s"
    "\<forall>q. state (procs u q) = (if q = p then PROC_RUNNABLE else state (procs s q))"
    "\<forall>q. wait_state (procs u q) = 0 \<or> wait_state (procs u q) = wait_state (procs s q)"
proof -
  obtain u where u: "wakeup_proc default_sched_class p s = Some u" "sched_inv rr_ready rr_detached A u"
    "current u = current s" "keeps s u"
    "\<forall>q. state (procs u q) = (if q = p then PROC_RUNNABLE else state (procs s q))"
    "\<forall>q. wait_state (procs u q) =
      (if q = p \<and> state (procs s p) \<noteq> PROC_RUNNABLE then 0 else wait_state (procs s q))"
    using rr.wakeup_inv [OF i p] by blast
  have "timer_list_is u ts"
    using keepsD(4) [OF u(4), of Timer_list "map Timer_link ts"] ts by (auto simp: timer_list_is_def foreign_def)
  then show ?thesis using that [OF u(1,2) _ keepsD(1) [OF u(4)] u(3)] u(5,6) by simp
qed

text \<open>Removing a timer leaves the run list alone.\<close>

lemma del_timer_sched:
  assumes i: "sched_inv rr_ready rr_detached A s" and d: "timer_list_is s (t # ts)" and e: "expires (timers s t) = 0"
  shows "sched_inv rr_ready rr_detached A (del_timer t s)" "timer_list_is (del_timer t s) ts"
    "timers (del_timer t s) = timers s" "procs (del_timer t s) = procs s" "current (del_timer t s) = current s"
proof -
  let ?u = "del_timer t s"
  have u: "?u = upd_klinks (list_del_init (Timer_link t)) s"
    using timer_linked [of s "[]" t ts] d e by (simp add: del_timer_def)
  then show "timers ?u = timers s" "procs ?u = procs s" "current ?u = current s" by (simp_all add: kst_simps)
  have dl: "dlist (klinks s) Timer_list ([] @ Timer_link t # map Timer_link ts)" using d by (simp add: timer_list_is_def)
  show "timer_list_is ?u ts" using ll.del_init_holds(1) [OF dl] by (simp add: timer_list_is_def u kst_simps)
  have r: "run_list_is ?u xs" if "run_list_is s xs" for xs
    using ll.del_init_others [OF dl, of Run_list "map Run_link xs"] that
    by (auto simp: run_list_is_def u kst_simps)
  have dt: "rr_detached q ?u" if "rr_detached q s" for q
    using ll.del_init_others [OF dl, of "Run_link q" "[]"] that by (auto simp: rr_detached_def u kst_simps)
  have "waiting_set A ?u = waiting_set A s" by (simp add: waiting_set_def u kst_simps)
  then show "sched_inv rr_ready rr_detached A ?u"
    using i r dt by (auto simp: sched_inv_def rr_ready_def u kst_simps)
qed

definition wakeable :: "nat set \<Rightarrow> kst \<Rightarrow> nat \<Rightarrow> bool" where
  "wakeable A s t \<longleftrightarrow> (\<exists>p\<in>A. tproc (timers s t) = Some p \<and> state (procs s p) \<noteq> PROC_ZOMBIE \<and>
     (wait_state (procs s p) = 0 \<or> wait_state (procs s p) AND WT_INTERRUPTED \<noteq> 0))"

text \<open>The loop wakes the owners of the leading timers whose delta is zero and unlinks those timers.\<close>

lemma run_timer_loop_spec:
  assumes "sched_inv rr_ready rr_detached A s" "timer_list_is s (t # zs @ rest)"
    "\<forall>x\<in>set (t # zs). expires (timers s x) = 0 \<and> wakeable A s x" "rest \<noteq> [] \<longrightarrow> expires (timers s (hd rest)) \<noteq> 0"
  shows "\<exists>u. run_timer_loop default_sched_class t (Timer_link t) s = Some u \<and>
    sched_inv rr_ready rr_detached A u \<and> timer_list_is u rest \<and> timers u = timers s \<and> current u = current s \<and>
    (\<forall>q. state (procs u q) =
      (if \<exists>x\<in>set (t # zs). tproc (timers s x) = Some q then PROC_RUNNABLE else state (procs s q)))"
  using assms
proof (induction zs arbitrary: s t)
  case (Nil s t)
  obtain p where p: "p \<in> A" "tproc (timers s t) = Some p" "state (procs s p) \<noteq> PROC_ZOMBIE"
    "wait_state (procs s p) \<noteq> 0 \<longrightarrow> wait_state (procs s p) AND WT_INTERRUPTED \<noteq> 0"
    using Nil.prems(3) by (auto simp: wakeable_def)
  obtain u where u: "wakeup_proc default_sched_class p s = Some u" "sched_inv rr_ready rr_detached A u"
    "timer_list_is u (t # rest)" "timers u = timers s" "current u = current s"
    "\<forall>q. state (procs u q) = (if q = p then PROC_RUNNABLE else state (procs s q))"
    by (rule wakeup_effect [OF Nil.prems(1) p(1,3), of "t # rest"]) (use Nil.prems(2) in \<open>auto intro: that\<close>)
  have e: "expires (timers u t) = 0" using Nil.prems(3) u(4) by simp
  note dt = del_timer_sched [OF u(2,3) e]
  have nx: "list_next (Timer_link t) (klinks s) = hd (map Timer_link rest @ [Timer_list])"
    using timer_linked(2) [of s "[]" t rest] Nil.prems(2) by simp
  have "run_timer_loop default_sched_class t (Timer_link t) s = Some (del_timer t u)"
  proof (cases rest)
    case Nil
    then show ?thesis
      using Nil.prems(3) nx p u(1) by (subst run_timer_loop.simps) (simp add: Let_def)
  next
    case (Cons b cs)
    have "run_timer_loop default_sched_class b (Timer_link b) (del_timer t u) = Some (del_timer t u)"
      using Nil.prems(4) Cons dt(3) u(4) by (subst run_timer_loop.simps) simp
    then show ?thesis
      using Nil.prems(3) nx p u(1) Cons by (subst run_timer_loop.simps) (simp add: Let_def)
  qed
  then show ?case using dt u(4-6) p(2) by (intro exI [of _ "del_timer t u"]) auto
next
  case (Cons z zs s t)
  obtain p where p: "p \<in> A" "tproc (timers s t) = Some p" "state (procs s p) \<noteq> PROC_ZOMBIE"
    "wait_state (procs s p) \<noteq> 0 \<longrightarrow> wait_state (procs s p) AND WT_INTERRUPTED \<noteq> 0"
    using Cons.prems(3) by (auto simp: wakeable_def)
  obtain u where u: "wakeup_proc default_sched_class p s = Some u" "sched_inv rr_ready rr_detached A u"
    "timer_list_is u (t # z # zs @ rest)" "timers u = timers s" "current u = current s"
    "\<forall>q. state (procs u q) = (if q = p then PROC_RUNNABLE else state (procs s q))"
    "\<forall>q. wait_state (procs u q) = 0 \<or> wait_state (procs u q) = wait_state (procs s q)"
    by (rule wakeup_effect [OF Cons.prems(1) p(1,3), of "t # z # zs @ rest"])
      (use Cons.prems(2) in \<open>auto intro: that\<close>)
  have e: "expires (timers u t) = 0" using Cons.prems(3) u(4) by simp
  note dt = del_timer_sched [OF u(2,3) e]
  have wk: "wakeable A (del_timer t u) x" if x: "x \<in> set (z # zs)" for x
  proof -
    obtain q where "q \<in> A" "tproc (timers s x) = Some q" "state (procs s q) \<noteq> PROC_ZOMBIE"
      "wait_state (procs s q) = 0 \<or> wait_state (procs s q) AND WT_INTERRUPTED \<noteq> 0"
    proof -
      have "wakeable A s x" using Cons.prems(3) x by auto
      with that show ?thesis unfolding wakeable_def by blast
    qed
    then show ?thesis using u(4,6) u(7) [rule_format, of q] by (auto simp: wakeable_def dt)
  qed
  obtain v where v: "run_timer_loop default_sched_class z (Timer_link z) (del_timer t u) = Some v"
    "sched_inv rr_ready rr_detached A v" "timer_list_is v rest" "timers v = timers (del_timer t u)"
    "current v = current (del_timer t u)"
    "\<forall>q. state (procs v q) = (if \<exists>x\<in>set (z # zs). tproc (timers (del_timer t u) x) = Some q
       then PROC_RUNNABLE else state (procs (del_timer t u) q))"
    using Cons.IH [OF dt(1), of z] dt(2,3) u(4) wk Cons.prems(3,4) by auto
  have "list_next (Timer_link t) (klinks s) = Timer_link z"
    using timer_linked(2) [of s "[]" t "z # zs @ rest"] Cons.prems(2) by simp
  then have "run_timer_loop default_sched_class t (Timer_link t) s = Some v"
    using Cons.prems(3) p u(1) v(1) by (subst run_timer_loop.simps) (simp add: Let_def)
  then show ?case using v(2-6) u(4-6) p(2) by (intro exI [of _ v]) (auto simp: dt)
qed

lemma proc_tick_effect:
  assumes "sched_inv rr_ready rr_detached A s"
  obtains u where
    "(case current s of Some c \<Rightarrow> sched_class_proc_tick default_sched_class c s | None \<Rightarrow> Some s) = Some u"
    "sched_inv rr_ready rr_detached A u" "klinks u = klinks s" "timers u = timers s"
    "\<forall>q. state (procs u q) = state (procs s q)"
proof -
  obtain c where c: "current s = Some c" using assms by (auto simp: sched_inv_def)
  obtain u where u: "sched_class_proc_tick default_sched_class c s = Some u"
    by (cases "Some c \<noteq> idleproc s")
      (auto simp: sched_class_proc_tick_def default_sched_class_def RR_proc_tick_def Let_def)
  then have f: "klinks u = klinks s" "timers u = timers s" "run_q u = run_q s" "current u = current s"
    "idleproc u = idleproc s" "\<And>q. state (procs u q) = state (procs s q)" "\<And>q. rq (procs u q) = rq (procs s q)"
    by (auto simp: sched_class_proc_tick_def default_sched_class_def RR_proc_tick_def Let_def kst_simps
        split: if_splits)
  have "waiting_set A u = waiting_set A s" by (simp add: waiting_set_def f)
  then have "sched_inv rr_ready rr_detached A u"
    using assms by (simp add: sched_inv_def rr_ready_def rr_detached_def run_list_is_def f)
  then show ?thesis using that [of u] c u f by simp
qed

lemma deadlines_pred: "map (\<lambda>(x, d). (x, d - 1)) (deadlines f (Suc acc) ts) = deadlines f acc ts"
  by (induction ts arbitrary: acc) auto

lemma deadlines_later:
  "ts \<noteq> [] \<longrightarrow> 0 < f (hd ts) \<Longrightarrow> (x, d) \<in> set (deadlines f acc ts) \<Longrightarrow> acc < d"
  by (cases ts) (auto dest: deadlines_bounds)

lemma deadlines_zero: "\<forall>z\<in>set zs. f z = 0 \<Longrightarrow> deadlines f acc zs = map (\<lambda>z. (z, acc)) zs"
  by (induction zs) auto

text \<open>The list part of a tick: due timers are gone and the others are one tick closer.\<close>

definition not_due :: "(nat \<times> nat) list \<Rightarrow> (nat \<times> nat) list" where
  "not_due ds = filter (\<lambda>(x, d). d \<noteq> 1) ds"

lemma tick_split:
  assumes "\<forall>z\<in>set zs. f z = 0" "f t = 1"
  shows "deadlines f 0 (t # zs @ rest) = (t, 1) # map (\<lambda>z. (z, 1)) zs @ deadlines f 1 rest"
proof -
  have S: "sum_list (map f zs) = 0" using assms(1) by (simp add: sum_list_eq_0_iff)
  have "deadlines f 1 (zs @ rest) = deadlines f 1 zs @ deadlines f 1 rest"
    using deadlines_append [of f 1 zs rest] unfolding S by simp
  then show ?thesis using deadlines_zero [OF assms(1)] assms(2) by simp
qed

lemma tick_deadlines:
  assumes "\<forall>z\<in>set zs. f z = 0" "f t = 1" "rest \<noteq> [] \<longrightarrow> 0 < f (hd rest)"
  shows "not_due (deadlines f 0 (t # zs @ rest)) = deadlines f 1 rest"
proof -
  have "d \<noteq> 1" if "(x, d) \<in> set (deadlines f 1 rest)" for x d
    using deadlines_later [of rest f x d 1, OF assms(3) that] by simp
  then have "filter (\<lambda>(x, d). d \<noteq> 1) (deadlines f 1 rest) = deadlines f 1 rest"
    by (auto simp: filter_id_conv)
  then show ?thesis unfolding tick_split [of zs f t, OF assms(1,2)] by (simp add: not_due_def)
qed

lemma run_timer_list_spec:
  assumes i: "sched_inv rr_ready rr_detached A s" and d: "timer_list_is s ts"
    and h: "ts \<noteq> [] \<longrightarrow> expires (timers s (hd ts)) \<noteq> 0" and w: "\<forall>x\<in>set ts. wakeable A s x"
  shows "\<exists>u rest. run_timer_list default_sched_class s = Some u \<and> sched_inv rr_ready rr_detached A u \<and>
    timer_list_is u rest \<and> deadlines_of u rest = map (\<lambda>(x, d). (x, d - 1)) (not_due (deadlines_of s ts)) \<and>
    (\<forall>q. state (procs u q) =
      (if \<exists>x. (x, 1) \<in> set (deadlines_of s ts) \<and> tproc (timers s x) = Some q then PROC_RUNNABLE
       else state (procs s q)))"
proof (cases ts)
  case Nil
  have "list_next Timer_list (klinks s) = Timer_list"
    using ll.front [of "klinks s" Timer_list "[]"] d Nil by (simp add: timer_list_is_def)
  moreover obtain u where
    "(case current s of Some c \<Rightarrow> sched_class_proc_tick default_sched_class c s | None \<Rightarrow> Some s) = Some u"
    "sched_inv rr_ready rr_detached A u" "klinks u = klinks s" "timers u = timers s"
    "\<forall>q. state (procs u q) = state (procs s q)"
    by (rule proc_tick_effect [OF i])
  ultimately show ?thesis
    using d Nil by (intro exI [of _ u] exI [of _ "[]"])
      (simp add: run_timer_list_def deadlines_of_def not_due_def timer_list_is_def)
next
  case (Cons t ys)
  let ?f = "\<lambda>x. expires (timers s x)"
  define s1 where "s1 = upd_timer t (\<lambda>d. d\<lparr>expires := expires d - 1\<rparr>) s"
  have nx: "list_next Timer_list (klinks s) = Timer_link t"
    using ll.front_Cons [of "klinks s" Timer_list "Timer_link t" "map Timer_link ys"] d Cons by (simp add: timer_list_is_def)
  have ft: "0 < ?f t" using h Cons by simp
  have nt: "t \<notin> set ys" using timer_list_distinct [OF d] Cons by simp
  have f1: "expires (timers s1 x) = (if x = t then ?f t - 1 else ?f x)" "tproc (timers s1 x) = tproc (timers s x)" for x
    by (auto simp: s1_def kst_simps)
  have i1: "sched_inv rr_ready rr_detached A s1" and d1: "timer_list_is s1 ts"
    using i d by (simp_all add: sched_inv_def rr_ready_def rr_detached_def run_list_is_def waiting_set_def
        timer_list_is_def s1_def kst_simps)
  have w1: "\<forall>x\<in>set ts. wakeable A s1 x" using w f1(2) by (simp add: wakeable_def s1_def kst_simps)
  have p1: "procs s1 = procs s" by (simp add: s1_def kst_simps)
  have run: "run_timer_list default_sched_class s = do { s \<leftarrow> run_timer_loop default_sched_class t (Timer_link t) s1;
      case current s of Some c \<Rightarrow> sched_class_proc_tick default_sched_class c s | None \<Rightarrow> Some s }"
    using nx ft by (simp add: run_timer_list_def s1_def Let_def)
  define zs rest where "zs = takeWhile (\<lambda>x. ?f x = 0) ys" and "rest = (if ?f t = 1 then dropWhile (\<lambda>x. ?f x = 0) ys else ts)"
  obtain v where v: "run_timer_loop default_sched_class t (Timer_link t) s1 = Some v"
    "sched_inv rr_ready rr_detached A v" "timer_list_is v rest" "timers v = timers s1"
    "\<forall>q. state (procs v q) = (if \<exists>x. (x, 1) \<in> set (deadlines_of s ts) \<and> tproc (timers s x) = Some q
       then PROC_RUNNABLE else state (procs s q))"
    "deadlines_of v rest = map (\<lambda>(x, d). (x, d - 1)) (not_due (deadlines_of s ts))"
  proof (cases "?f t = 1")
    case True
    have ys: "ys = zs @ rest" using True by (simp add: zs_def rest_def)
    have z0: "\<forall>z\<in>set zs. ?f z = 0" by (auto simp: zs_def dest: set_takeWhileD)
    have r0: "rest \<noteq> [] \<longrightarrow> 0 < ?f (hd rest)" using True hd_dropWhile [of "\<lambda>x. ?f x = 0" ys] by (auto simp: rest_def)
    have dts: "deadlines_of s ts = deadlines ?f 0 (t # zs @ rest)" by (simp add: deadlines_of_def Cons ys)
    have due: "(x, 1) \<in> set (deadlines_of s ts) \<longleftrightarrow> x \<in> set (t # zs)" for x
    proof -
      have "(x, 1) \<notin> set (deadlines ?f 1 rest)" using deadlines_later [of rest ?f x 1 1, OF r0] by blast
      then show ?thesis unfolding dts tick_split [of zs ?f t, OF z0 True] by auto
    qed
    have "\<forall>x\<in>set (t # zs). expires (timers s1 x) = 0 \<and> wakeable A s1 x"
      using z0 True w1 ys Cons nt by (auto simp: f1)
    moreover have "rest \<noteq> [] \<longrightarrow> expires (timers s1 (hd rest)) \<noteq> 0"
      using r0 nt ys by (auto simp: f1)
    ultimately obtain v where v: "run_timer_loop default_sched_class t (Timer_link t) s1 = Some v"
      "sched_inv rr_ready rr_detached A v" "timer_list_is v rest" "timers v = timers s1"
      "\<forall>q. state (procs v q) = (if \<exists>x\<in>set (t # zs). tproc (timers s1 x) = Some q then PROC_RUNNABLE else state (procs s1 q))"
      using run_timer_loop_spec [OF i1, of t zs rest] d1 Cons ys by auto
    have "deadlines (\<lambda>x. expires (timers s1 x)) 0 rest = deadlines ?f 0 rest"
      using nt ys by (intro deadlines_cong) (auto simp: f1)
    then have "deadlines_of v rest = map (\<lambda>(x, d). (x, d - 1)) (not_due (deadlines_of s ts))"
      using tick_deadlines [OF z0 True r0] deadlines_pred [of ?f 0 rest] dts by (simp add: deadlines_of_def v(4))
    moreover have "\<forall>q. state (procs v q) = (if \<exists>x. (x, 1) \<in> set (deadlines_of s ts) \<and> tproc (timers s x) = Some q
       then PROC_RUNNABLE else state (procs s q))" using v(5) due f1(2) p1 by auto
    ultimately show ?thesis using that [OF v(1-4)] by blast
  next
    case False
    then have nz: "expires (timers s1 t) \<noteq> 0" using ft by (simp add: f1)
    have loop: "run_timer_loop default_sched_class t (Timer_link t) s1 = Some s1"
      using nz by (subst run_timer_loop.simps) simp
    have ge: "(x, d) \<in> set (deadlines_of s ts) \<Longrightarrow> 1 < d" for x d
      using ft False deadlines_bounds [of x d ?f "?f t" ys] by (auto simp: deadlines_of_def Cons)
    then have nd: "not_due (deadlines_of s ts) = deadlines_of s ts"
      by (fastforce simp: not_due_def filter_id_conv)
    have "deadlines (\<lambda>x. expires (timers s1 x)) (?f t - 1) ys = deadlines ?f (?f t - 1) ys"
      using nt by (intro deadlines_cong) (auto simp: f1)
    then have "deadlines_of s1 ts = map (\<lambda>(x, d). (x, d - 1)) (deadlines_of s ts)"
      using deadlines_pred [of ?f "?f t - 1" ys] ft by (simp add: deadlines_of_def Cons f1)
    moreover have "\<forall>x. (x, 1) \<notin> set (deadlines_of s ts)" using ge by fastforce
    ultimately show ?thesis
      using that [OF loop i1 _ refl] d1 False p1 nd by (simp add: rest_def)
  qed
  obtain u where "(case current v of Some c \<Rightarrow> sched_class_proc_tick default_sched_class c v | None \<Rightarrow> Some v) = Some u"
    "sched_inv rr_ready rr_detached A u" "klinks u = klinks v" "timers u = timers v"
    "\<forall>q. state (procs u q) = state (procs v q)"
    by (rule proc_tick_effect [OF v(2)])
  then show ?thesis
    using run v by (intro exI [of _ u] exI [of _ rest]) (auto simp: timer_list_is_def deadlines_of_def)
qed

subsection \<open>Properties\<close>

text \<open>
  C12: \<open>add_timer\<close> of an unlinked timer returns and inserts it with its own deadline, after every timer
  that is due no later and before the others, whose deadlines do not change; \<open>del_timer\<close> of a linked timer
  removes exactly this timer, leaves the other deadlines and unlinks the entry.
\<close>

theorem timer_queue_correct:
  assumes "timer_list_is s ts" and "t \<notin> set ts" and "dlist (klinks s) (Timer_link t) []"
    and "0 < expires (timers s t)" and "tproc (timers s t) \<noteq> None"
    and "timer_list_is v (as @ x # bs)" and "\<forall>(y, d)\<in>set (deadlines_of v (as @ x # bs)). d < 2 ^ 32"
  shows "(\<exists>u as bs. add_timer t s = Some u \<and> ts = as @ bs \<and> timer_list_is u (as @ t # bs) \<and>
      deadlines_of u (as @ t # bs) =
        deadlines_of s as @ (t, expires (timers s t)) # drop (length as) (deadlines_of s ts) \<and>
      (\<forall>(y, d)\<in>set (deadlines_of s as). d \<le> expires (timers s t)) \<and>
      (\<forall>(y, d)\<in>set (drop (length as) (deadlines_of s ts)). expires (timers s t) < d)) \<and>
    timer_list_is (del_timer x v) (as @ bs) \<and>
    deadlines_of (del_timer x v) (as @ bs) =
      deadlines_of v as @ drop (Suc (length as)) (deadlines_of v (as @ x # bs)) \<and>
    list_empty (Timer_link x) (klinks (del_timer x v))"
proof -
  obtain u as' bs' where "add_timer t s = Some u" "ts = as' @ bs'" "timer_list_is u (as' @ t # bs')"
    "deadlines_of u (as' @ t # bs') =
      deadlines_of s as' @ (t, expires (timers s t)) # drop (length as') (deadlines_of s ts)"
    "\<forall>(y, d)\<in>set (deadlines_of s as'). d \<le> expires (timers s t)"
    "\<forall>(y, d)\<in>set (drop (length as') (deadlines_of s ts)). expires (timers s t) < d"
    by (rule add_timer_spec [OF assms(1-5)])
  then show ?thesis
    using del_timer_spec [OF assms(6,7)] ll.empty_holds [of "klinks (del_timer x v)" "Timer_link x" "[]"] by blast
qed

text \<open>Timers 4 and 5 due after 3 and 10 ticks; timer 6 is not linked.\<close>

definition demo_timers :: kst where
  "demo_timers = demo_kst\<lparr>
     klinks := \<lparr>nxt = (nxt (klinks demo_kst))(Timer_list := Timer_link 4, Timer_link 4 := Timer_link 5,
                 Timer_link 5 := Timer_list),
               prv = (prv (klinks demo_kst))(Timer_list := Timer_link 5, Timer_link 5 := Timer_link 4,
                 Timer_link 4 := Timer_list)\<rparr>,
     timers := (\<lambda>t. if t = 4 then \<lparr>expires = 1, tproc = Some 2\<rparr> else \<lparr>expires = 7, tproc = Some 2\<rparr>)\<rparr>"

lemma demo_timers_list: "timer_list_is demo_timers [4, 5]" "dlist (klinks demo_timers) (Timer_link 6) []"
  by (simp_all add: timer_list_is_def dlist_def demo_timers_def demo_kst_def)

lemma demo_timers_deadlines: "deadlines_of demo_timers [4, 5] = [(4, 1), (5, 8)]"
  by (simp add: deadlines_of_def demo_timers_def)

lemma demo_timers_sched: "sched_inv rr_ready rr_detached {0, 1, 2} demo_timers"
proof -
  have "waiting_set {0, 1, 2} demo_timers = {1}"
    using demo_waiting(1) by (simp add: waiting_set_def demo_timers_def)
  moreover have "run_list_is demo_timers [1]"
    by (simp add: run_list_is_def dlist_def demo_timers_def demo_kst_def)
  then have "rr_ready demo_timers {1}" by (auto simp: rr_ready_def intro!: exI [of _ "[1]"])
  moreover have "rr_detached 0 demo_timers" "rr_detached 2 demo_timers"
    by (simp_all add: rr_detached_def dlist_def demo_timers_def demo_kst_def)
  ultimately show ?thesis
    unfolding sched_inv_def by (auto simp: demo_timers_def demo_kst_def demo_proc_def)
qed

theorem timer_queue_correct_witness:
  "timer_list_is (del_timer 4 demo_timers) [5] \<and> deadlines_of (del_timer 4 demo_timers) [5] = [(5, 8)]"
proof -
  have a: "timer_list_is demo_timers ([] @ 4 # [5])" using demo_timers_list by simp
  have b: "\<forall>(y, d)\<in>set (deadlines_of demo_timers ([] @ 4 # [5])). d < 2 ^ 32" by (simp add: demo_timers_deadlines)
  have "0 < expires (timers demo_timers 6)" "tproc (timers demo_timers 6) \<noteq> None" by (simp_all add: demo_timers_def)
  moreover have "deadlines_of demo_timers [] = []" by (simp add: deadlines_of_def)
  ultimately show ?thesis
    using timer_queue_correct [OF demo_timers_list(1) _ demo_timers_list(2) _ _ a b]
    by (simp add: demo_timers_deadlines)
qed

text \<open>
  C13: a clock tick (\<open>run_timer_list\<close>, on the round-robin class) returns; it makes runnable exactly the
  owners of the timers due at this tick, unlinks those timers, and brings every other deadline one tick
  closer; exactly the runnable processes stay queued.
\<close>

theorem run_timer_list_ticks:
  assumes "sched_inv rr_ready rr_detached A s" and "timer_list_is s ts"
    and "ts \<noteq> [] \<longrightarrow> expires (timers s (hd ts)) \<noteq> 0" and "\<forall>x\<in>set ts. wakeable A s x"
  shows "\<exists>u rest. run_timer_list default_sched_class s = Some u \<and> sched_inv rr_ready rr_detached A u \<and>
    timer_list_is u rest \<and> deadlines_of u rest = map (\<lambda>(x, d). (x, d - 1)) (not_due (deadlines_of s ts)) \<and>
    (\<forall>q. state (procs u q) =
      (if \<exists>x. (x, 1) \<in> set (deadlines_of s ts) \<and> tproc (timers s x) = Some q then PROC_RUNNABLE
       else state (procs s q)))"
  by (rule run_timer_list_spec [OF assms])

theorem run_timer_list_ticks_witness:
  "\<exists>u rest. run_timer_list default_sched_class demo_timers = Some u \<and> timer_list_is u rest \<and>
     deadlines_of u rest = [(5, 7)] \<and> state (procs u 2) = PROC_RUNNABLE"
proof -
  have "wakeable {0, 1, 2} demo_timers x" for x
  proof -
    have "WT_TIMER AND WT_INTERRUPTED \<noteq> 0" by (simp add: WT_TIMER_def WT_INTERRUPTED_def)
    then show ?thesis
      by (auto simp: wakeable_def demo_timers_def demo_kst_def demo_proc_def)
  qed
  moreover have "expires (timers demo_timers (hd [4, 5])) \<noteq> 0" by (simp add: demo_timers_def)
  moreover have "tproc (timers demo_timers 4) = Some 2" by (simp add: demo_timers_def)
  ultimately show ?thesis
    using run_timer_list_ticks [OF demo_timers_sched demo_timers_list(1)]
    unfolding demo_timers_deadlines not_due_def by auto
qed

end
