(* ===== verification/Sync.thy ===== *)
theory Sync
  imports Sched_Lists
begin

section \<open>Wait queues, semaphores and monitors (kern/sync)\<close>

text \<open>
  A wait queue is named by a number \<open>q\<close>, its list head is \<open>Wait_head q\<close>; the semaphore with that queue has
  the value \<open>sem_value s q\<close>. A \<open>wait_t\<close> is a number \<open>w\<close> with the entry \<open>Wait_link w\<close>. \<open>__down\<close> blocks in the
  middle: it is split at its call of \<open>schedule\<close> into \<open>down_begin\<close> and \<open>down_resume\<close>, which runs when the
  process has become current again.
\<close>

subsection \<open>Wait queues (wait.c)\<close>

definition upd_wait :: "nat \<Rightarrow> (wait \<Rightarrow> wait) \<Rightarrow> kst \<Rightarrow> kst" where
  "upd_wait w f s = s\<lparr>waits := (waits s)(w := f (waits s w))\<rparr>"

definition wait_init :: "nat \<Rightarrow> nat option \<Rightarrow> kst \<Rightarrow> kst" where
  "wait_init w proc s =
     (let s = upd_wait w (\<lambda>d. d\<lparr>wproc := proc\<rparr>) s;
          s = upd_wait w (\<lambda>d. d\<lparr>wakeup_flags := WT_INTERRUPTED\<rparr>) s
      in upd_klinks (list_init (Wait_link w)) s)"

definition wait_queue_init :: "nat \<Rightarrow> kst \<Rightarrow> kst" where
  "wait_queue_init q s = upd_klinks (list_init (Wait_head q)) s"

definition wait_queue_add :: "nat \<Rightarrow> nat \<Rightarrow> kst \<Rightarrow> kst kresult" where
  "wait_queue_add q w s = do {
     kassert (list_empty (Wait_link w) (klinks s) \<and> wproc (waits s w) \<noteq> None);
     let s = upd_wait w (\<lambda>d. d\<lparr>wait_queue := Some q\<rparr>) s;
     Some (upd_klinks (list_add_before (Wait_head q) (Wait_link w)) s)
   }"

definition wait_queue_del :: "nat \<Rightarrow> nat \<Rightarrow> kst \<Rightarrow> kst kresult" where
  "wait_queue_del q w s = do {
     kassert (\<not> list_empty (Wait_link w) (klinks s) \<and> wait_queue (waits s w) = Some q);
     Some (upd_klinks (list_del_init (Wait_link w)) s)
   }"

definition wait_queue_next :: "nat \<Rightarrow> nat \<Rightarrow> kst \<Rightarrow> nat option kresult" where
  "wait_queue_next q w s = do {
     kassert (\<not> list_empty (Wait_link w) (klinks s) \<and> wait_queue (waits s w) = Some q);
     let le = list_next (Wait_link w) (klinks s);
     Some (if le \<noteq> Wait_head q then Some (le2wait le) else None)
   }"

definition wait_queue_prev :: "nat \<Rightarrow> nat \<Rightarrow> kst \<Rightarrow> nat option kresult" where
  "wait_queue_prev q w s = do {
     kassert (\<not> list_empty (Wait_link w) (klinks s) \<and> wait_queue (waits s w) = Some q);
     let le = list_prev (Wait_link w) (klinks s);
     Some (if le \<noteq> Wait_head q then Some (le2wait le) else None)
   }"

definition wait_queue_first :: "nat \<Rightarrow> kst \<Rightarrow> nat option" where
  "wait_queue_first q s =
     (let le = list_next (Wait_head q) (klinks s) in
      if le \<noteq> Wait_head q then Some (le2wait le) else None)"

definition wait_queue_last :: "nat \<Rightarrow> kst \<Rightarrow> nat option" where
  "wait_queue_last q s =
     (let le = list_prev (Wait_head q) (klinks s) in
      if le \<noteq> Wait_head q then Some (le2wait le) else None)"

definition wait_queue_empty :: "nat \<Rightarrow> kst \<Rightarrow> bool" where
  "wait_queue_empty q s = list_empty (Wait_head q) (klinks s)"

definition wait_in_queue :: "nat \<Rightarrow> kst \<Rightarrow> bool" where
  "wait_in_queue w s \<longleftrightarrow> \<not> list_empty (Wait_link w) (klinks s)"

definition wakeup_wait :: "sched_class \<Rightarrow> nat \<Rightarrow> nat \<Rightarrow> 32 word \<Rightarrow> bool \<Rightarrow> kst \<Rightarrow> kst kresult" where
  "wakeup_wait cls q w flags del s = do {
     s \<leftarrow> (if del then wait_queue_del q w s else Some s);
     let s = upd_wait w (\<lambda>d. d\<lparr>wakeup_flags := flags\<rparr>) s;
     p \<leftarrow> wproc (waits s w);
     wakeup_proc cls p s
   }"

definition wakeup_first :: "sched_class \<Rightarrow> nat \<Rightarrow> 32 word \<Rightarrow> bool \<Rightarrow> kst \<Rightarrow> kst kresult" where
  "wakeup_first cls q flags del s =
     (case wait_queue_first q s of Some w \<Rightarrow> wakeup_wait cls q w flags del s | None \<Rightarrow> Some s)"

text \<open>The two \<open>do ... while\<close> loops of \<open>wakeup_queue\<close>, entered with the wait \<open>w\<close>.\<close>

partial_function (option) wakeup_del_loop :: "sched_class \<Rightarrow> nat \<Rightarrow> 32 word \<Rightarrow> nat \<Rightarrow> kst \<Rightarrow> kst kresult" where
  "wakeup_del_loop cls q flags w s = do {
     s \<leftarrow> wakeup_wait cls q w flags True s;
     case wait_queue_first q s of Some w \<Rightarrow> wakeup_del_loop cls q flags w s | None \<Rightarrow> Some s
   }"

partial_function (option) wakeup_keep_loop :: "sched_class \<Rightarrow> nat \<Rightarrow> 32 word \<Rightarrow> nat \<Rightarrow> kst \<Rightarrow> kst kresult" where
  "wakeup_keep_loop cls q flags w s = do {
     s \<leftarrow> wakeup_wait cls q w flags False s;
     n \<leftarrow> wait_queue_next q w s;
     case n of Some w \<Rightarrow> wakeup_keep_loop cls q flags w s | None \<Rightarrow> Some s
   }"

definition wakeup_queue :: "sched_class \<Rightarrow> nat \<Rightarrow> 32 word \<Rightarrow> bool \<Rightarrow> kst \<Rightarrow> kst kresult" where
  "wakeup_queue cls q flags del s =
     (case wait_queue_first q s of
        None \<Rightarrow> Some s
      | Some w \<Rightarrow> if del then wakeup_del_loop cls q flags w s else wakeup_keep_loop cls q flags w s)"

definition wait_current_set :: "nat \<Rightarrow> nat \<Rightarrow> 32 word \<Rightarrow> kst \<Rightarrow> kst kresult" where
  "wait_current_set q w flags s = do {
     cur \<leftarrow> current s;
     let s = wait_init w (Some cur) s;
     let s = upd_proc cur (\<lambda>d. d\<lparr>state := PROC_SLEEPING\<rparr>) s;
     let s = upd_proc cur (\<lambda>d. d\<lparr>wait_state := flags\<rparr>) s;
     wait_queue_add q w s
   }"

definition wait_current_del :: "nat \<Rightarrow> nat \<Rightarrow> kst \<Rightarrow> kst kresult" where
  "wait_current_del q w s = (if wait_in_queue w s then wait_queue_del q w s else Some s)"

subsection \<open>Semaphores (sem.c)\<close>

definition set_sem :: "nat \<Rightarrow> int \<Rightarrow> kst \<Rightarrow> kst" where
  "set_sem q v s = s\<lparr>sem_value := (sem_value s)(q := v)\<rparr>"

definition sem_init :: "nat \<Rightarrow> int \<Rightarrow> kst \<Rightarrow> kst" where
  "sem_init q v s = wait_queue_init q (set_sem q v s)"

definition priv_up :: "sched_class \<Rightarrow> nat \<Rightarrow> 32 word \<Rightarrow> kst \<Rightarrow> kst kresult" where
  "priv_up cls q flags s =
     (case wait_queue_first q s of
        None \<Rightarrow> Some (set_sem q (sem_value s q + 1) s)
      | Some w \<Rightarrow> do {
          p \<leftarrow> wproc (waits s w);
          kassert (wait_state (procs s p) = flags);
          wakeup_wait cls q w flags True s
        })"

text \<open>\<open>Inl\<close>: \<open>__down\<close> has returned 0; \<open>Inr\<close>: the caller is blocked and another process runs.\<close>

definition down_begin :: "sched_class \<Rightarrow> nat \<Rightarrow> nat \<Rightarrow> 32 word \<Rightarrow> kst \<Rightarrow> (kst + kst) kresult" where
  "down_begin cls q w flags s =
     (if sem_value s q > 0 then Some (Inl (set_sem q (sem_value s q - 1) s))
      else do {
        s \<leftarrow> wait_current_set q w flags s;
        s \<leftarrow> schedule cls s;
        Some (Inr s)
      })"

definition down_resume :: "nat \<Rightarrow> nat \<Rightarrow> 32 word \<Rightarrow> kst \<Rightarrow> (32 word \<times> kst) kresult" where
  "down_resume q w flags s = do {
     s \<leftarrow> wait_current_del q w s;
     Some (if wakeup_flags (waits s w) \<noteq> flags then wakeup_flags (waits s w) else 0, s)
   }"

definition up :: "sched_class \<Rightarrow> nat \<Rightarrow> kst \<Rightarrow> kst kresult" where
  "up cls q s = priv_up cls q WT_KSEM s"

definition down :: "sched_class \<Rightarrow> nat \<Rightarrow> nat \<Rightarrow> kst \<Rightarrow> (kst + kst) kresult" where
  "down cls q w s = down_begin cls q w WT_KSEM s"

definition down_finish :: "nat \<Rightarrow> nat \<Rightarrow> kst \<Rightarrow> kst kresult" where
  "down_finish q w s = do {
     (flags, s) \<leftarrow> down_resume q w WT_KSEM s;
     kassert (flags = 0);
     Some s
   }"

definition try_down :: "nat \<Rightarrow> kst \<Rightarrow> bool \<times> kst" where
  "try_down q s =
     (if sem_value s q > 0 then (True, set_sem q (sem_value s q - 1) s) else (False, s))"

subsection \<open>Reading back\<close>

lemma sync_fields [kst_simps]:
  "procs (upd_wait w f s) = procs s" "klinks (upd_wait w f s) = klinks s" "current (upd_wait w f s) = current s"
  "idleproc (upd_wait w f s) = idleproc s" "sem_value (upd_wait w f s) = sem_value s"
  "waits (upd_wait w f s) = (waits s)(w := f (waits s w))" "run_q (upd_wait w f s) = run_q s"
  "pool (upd_wait w f s) = pool s" "timers (upd_wait w f s) = timers s"
  "procs (set_sem q v s) = procs s" "klinks (set_sem q v s) = klinks s" "current (set_sem q v s) = current s"
  "idleproc (set_sem q v s) = idleproc s" "sem_value (set_sem q v s) = (sem_value s)(q := v)"
  "waits (set_sem q v s) = waits s" "run_q (set_sem q v s) = run_q s" "pool (set_sem q v s) = pool s"
  "timers (set_sem q v s) = timers s"
  by (simp_all add: upd_wait_def set_sem_def)

text \<open>\<open>wait_list_is s q ws\<close>: the queue \<open>q\<close> holds the waits \<open>ws\<close>, oldest first.\<close>

definition wait_list_is :: "kst \<Rightarrow> nat \<Rightarrow> nat list \<Rightarrow> bool" where
  "wait_list_is s q ws \<longleftrightarrow> dlist (klinks s) (Wait_head q) (map Wait_link ws)"

lemma wait_queue_first_list:
  assumes "wait_list_is s q ws"
  shows "wait_queue_first q s = (case ws of [] \<Rightarrow> None | w # _ \<Rightarrow> Some w)"
  using ll.front [of "klinks s" "Wait_head q" "map Wait_link ws"] assms
  by (auto simp: wait_list_is_def wait_queue_first_def Let_def split: list.splits)

lemma wait_linked:
  assumes "wait_list_is s q (as @ w # bs)"
  shows "\<not> list_empty (Wait_link w) (klinks s)"
proof -
  have d: "dlist (klinks s) (Wait_head q) (map Wait_link as @ Wait_link w # map Wait_link bs)"
    using assms by (simp add: wait_list_is_def)
  have "list_next (Wait_link w) (klinks s) \<noteq> Wait_link w"
    using ll.next_in [OF d] ll.holds_distinct [OF d] by (cases bs) auto
  then show ?thesis by (simp add: list_next_def list_empty_def)
qed

lemma foreign_wait [simp]: "foreign (Wait_head q # map Wait_link ws)" "foreign [Wait_link w]"
  by (auto simp: foreign_def)

lemma keeps_wait_list: "keeps s t \<Longrightarrow> wait_list_is s q ws \<Longrightarrow> wait_list_is t q ws"
  unfolding wait_list_is_def by (erule keepsD) simp_all

subsection \<open>Wait-queue operations keep the run queue and every other list\<close>

text \<open>
  \<open>away q ws zs\<close>: the entries \<open>zs\<close> have nothing to do with the queue \<open>q\<close> holding \<open>ws\<close>. The relation
  \<open>wait_keeps q W s t\<close> collects what an operation on the queue \<open>q\<close> with waits in \<open>W\<close> leaves alone.
\<close>

definition away :: "nat \<Rightarrow> nat set \<Rightarrow> kle list \<Rightarrow> bool" where
  "away q W zs \<longleftrightarrow> Wait_head q \<notin> set zs \<and> (\<forall>w\<in>W. Wait_link w \<notin> set zs)"

definition links_away :: "nat \<Rightarrow> nat set \<Rightarrow> kst \<Rightarrow> kst \<Rightarrow> bool" where
  "links_away q W s t \<longleftrightarrow> (\<forall>d zs. away q W (d # zs) \<longrightarrow> dlist (klinks s) d zs \<longrightarrow> dlist (klinks t) d zs)"

lemma away_run: "run_entries zs \<Longrightarrow> away q W zs"
  by (auto simp: run_entries_def away_def)

lemma run_same_away:
  assumes "links_away q W s t" "pool t = pool s" "run_q t = run_q s"
    "\<And>p. rq (procs t p) = rq (procs s p) \<and> time_slice (procs t p) = time_slice (procs s p) \<and>
      lab6_stride (procs t p) = lab6_stride (procs s p) \<and> lab6_priority (procs t p) = lab6_priority (procs s p)"
  shows "run_same s t"
  using assms away_run unfolding run_same_def links_away_def by blast

lemma wait_del_links:
  assumes "wait_list_is s q (as @ w # bs)"
  shows "wait_list_is (upd_klinks (list_del_init (Wait_link w)) s) q (as @ bs)"
    "dlist (klinks (upd_klinks (list_del_init (Wait_link w)) s)) (Wait_link w) []"
    "links_away q (set (as @ w # bs)) s (upd_klinks (list_del_init (Wait_link w)) s)"
proof -
  have d: "dlist (klinks s) (Wait_head q) (map Wait_link as @ Wait_link w # map Wait_link bs)"
    using assms by (simp add: wait_list_is_def)
  show "wait_list_is (upd_klinks (list_del_init (Wait_link w)) s) q (as @ bs)"
    "dlist (klinks (upd_klinks (list_del_init (Wait_link w)) s)) (Wait_link w) []"
    using ll.del_init_holds [OF d] by (simp_all add: wait_list_is_def kst_simps)
  show "links_away q (set (as @ w # bs)) s (upd_klinks (list_del_init (Wait_link w)) s)"
    unfolding links_away_def away_def
    by (auto simp: kst_simps intro!: ll.del_init_others [OF d])
qed

lemma wait_add_links:
  assumes "wait_list_is s q ws" "w \<notin> set ws"
  shows "wait_list_is (upd_klinks (list_add_before (Wait_head q) (Wait_link w)) (upd_klinks (list_init (Wait_link w)) s)) q (ws @ [w])"
    "links_away q (set (w # ws)) s (upd_klinks (list_add_before (Wait_head q) (Wait_link w)) (upd_klinks (list_init (Wait_link w)) s))"
proof -
  let ?h = "list_init (Wait_link w) (klinks s)"
  have fr: "dlist ?h d zs" if "dlist (klinks s) d zs" "Wait_link w \<notin> set (d # zs)" for d zs
    using that(2) by (intro ll.holds_frame [OF that(1)]) (metis ll.init_same)
  have d: "dlist ?h (Wait_head q) (map Wait_link ws)"
    using assms by (intro fr) (auto simp: wait_list_is_def)
  show "wait_list_is (upd_klinks (list_add_before (Wait_head q) (Wait_link w)) (upd_klinks (list_init (Wait_link w)) s)) q (ws @ [w])"
    using ll.enqueue_tail [OF d, of "Wait_link w"] assms(2) by (auto simp: wait_list_is_def kst_simps)
  show "links_away q (set (w # ws)) s (upd_klinks (list_add_before (Wait_head q) (Wait_link w)) (upd_klinks (list_init (Wait_link w)) s))"
    unfolding links_away_def away_def
    by (auto simp: kst_simps intro!: ll.enqueue_others [OF d] fr)
qed

text \<open>
  The semaphore invariant: the value is not negative, and zero while someone waits; each wait belongs to a
  process that sleeps for this semaphore, and no process waits twice.
\<close>

definition waiter :: "kst \<Rightarrow> nat \<Rightarrow> nat \<Rightarrow> nat set \<Rightarrow> bool" where
  "waiter s q w A \<longleftrightarrow> wait_queue (waits s w) = Some q \<and>
     (\<exists>p\<in>A. wproc (waits s w) = Some p \<and> state (procs s p) = PROC_SLEEPING \<and> wait_state (procs s p) = WT_KSEM)"

definition sem_inv :: "nat set \<Rightarrow> kst \<Rightarrow> nat \<Rightarrow> nat list \<Rightarrow> bool" where
  "sem_inv A s q ws \<longleftrightarrow> wait_list_is s q ws \<and> 0 \<le> sem_value s q \<and> (ws \<noteq> [] \<longrightarrow> sem_value s q = 0) \<and>
     (\<forall>w\<in>set ws. waiter s q w A) \<and> distinct (map (\<lambda>w. wproc (waits s w)) ws)"

lemma sem_inv_distinct: "sem_inv A s q ws \<Longrightarrow> distinct ws"
  by (auto simp: sem_inv_def distinct_map)

context sched_class
begin

lemma up_inv:
  assumes i: "inv A s" and si: "sem_inv A s q ws"
  shows "\<exists>t. up cls q s = Some t \<and> inv A t \<and> current t = current s \<and> idleproc t = idleproc s \<and>
    sem_inv A t q (tl ws) \<and> (\<forall>r. r \<noteq> q \<longrightarrow> sem_value t r = sem_value s r) \<and>
    (case ws of
       [] \<Rightarrow> sem_value t q = sem_value s q + 1 \<and> procs t = procs s \<and> waits t = waits s
     | w # _ \<Rightarrow> sem_value t q = sem_value s q \<and> dlist (klinks t) (Wait_link w) [] \<and>
         wakeup_flags (waits t w) = WT_KSEM \<and> (\<forall>v. wproc (waits t v) = wproc (waits s v)) \<and>
         (\<forall>v. v \<noteq> w \<longrightarrow> waits t v = waits s v) \<and>
         (\<forall>p. state (procs t p) = (if wproc (waits s w) = Some p then PROC_RUNNABLE else state (procs s p)) \<and>
           wait_state (procs t p) = (if wproc (waits s w) = Some p then 0 else wait_state (procs s p)))) \<and>
    (\<forall>d zs. foreign (d # zs) \<longrightarrow> away q (set ws) (d # zs) \<longrightarrow> dlist (klinks s) d zs \<longrightarrow> dlist (klinks t) d zs)"
proof (cases ws)
  case Nil
  let ?t = "set_sem q (sem_value s q + 1) s"
  have "up cls q s = Some ?t"
    using wait_queue_first_list [of s q ws] si Nil by (simp add: up_def priv_up_def sem_inv_def)
  moreover have "inv A ?t" by (rule inv_unchanged [OF i]) (auto simp: run_same_def kst_simps)
  moreover have "sem_inv A ?t q []" using si Nil by (auto simp: sem_inv_def wait_list_is_def kst_simps)
  ultimately show ?thesis using Nil by (auto simp: kst_simps)
next
  case (Cons w ws')
  have wl: "wait_list_is s q ([] @ w # ws')" using si Cons by (simp add: sem_inv_def)
  obtain p where p: "wait_queue (waits s w) = Some q" "p \<in> A" "wproc (waits s w) = Some p"
    "state (procs s p) = PROC_SLEEPING" "wait_state (procs s p) = WT_KSEM"
    using si Cons by (auto simp: sem_inv_def waiter_def)
  define u where "u = upd_wait w (\<lambda>d. d\<lparr>wakeup_flags := WT_KSEM\<rparr>) (upd_klinks (list_del_init (Wait_link w)) s)"
  note dl = wait_del_links [OF wl]
  have up: "up cls q s = wakeup_proc cls p u"
    using wait_queue_first_list [of s q ws] wl Cons p wait_linked [OF wl]
    by (simp add: up_def priv_up_def wakeup_wait_def wait_queue_del_def u_def kst_simps)
  have la: "links_away q (set ws) s u" using dl(3) Cons by (simp add: links_away_def u_def kst_simps)
  have "run_same s u" using la by (rule run_same_away) (auto simp: u_def kst_simps)
  then have iu: "inv A u"
    by (rule inv_unchanged [OF i]) (auto simp: u_def kst_simps)
  have "state (procs u p) \<noteq> PROC_ZOMBIE" "state (procs u p) \<noteq> PROC_RUNNABLE" using p by (simp_all add: u_def kst_simps)
  then obtain t where t: "wakeup_proc cls p u = Some t" "inv A t" "current t = current u" "idleproc t = idleproc u"
    "keeps u t" "\<forall>r. state (procs t r) = (if r = p then PROC_RUNNABLE else state (procs u r))"
    "\<forall>r. wait_state (procs t r) = (if r = p then 0 else wait_state (procs u r))"
    using wakeup_inv [OF iu p(2)] by auto
  have w': "wait_list_is u q ws'" using dl(1) by (simp add: u_def wait_list_is_def kst_simps)
  have dist: "w \<notin> set ws'" using sem_inv_distinct [OF si] Cons by simp
  have op: "wproc (waits s v) \<noteq> Some p" if "v \<in> set ws'" for v
    using si Cons that p(3) by (force simp: sem_inv_def)
  have wt: "waits t v = (if v = w then (waits s w)\<lparr>wakeup_flags := WT_KSEM\<rparr> else waits s v)" for v
    using keepsD(2) [OF t(5)] by (simp add: u_def kst_simps)
  have sv: "sem_value t = sem_value s" using keepsD(3) [OF t(5)] by (simp add: u_def kst_simps)
  have ps: "procs u = procs s" by (simp add: u_def kst_simps)
  have "waiter t q v A" if "v \<in> set ws'" for v
  proof -
    have "waiter s q v A" using si that Cons by (simp add: sem_inv_def)
    moreover have "v \<noteq> w" using that dist by auto
    ultimately show ?thesis using op [OF that] t(6,7) ps by (auto simp: waiter_def wt)
  qed
  moreover have "wait_list_is t q ws'" by (rule keeps_wait_list [OF t(5) w'])
  moreover have eqm: "map (\<lambda>v. wproc (waits t v)) ws' = map (\<lambda>v. wproc (waits s v)) ws'" by (auto simp: wt)
  have "distinct (map (\<lambda>v. wproc (waits t v)) ws')" unfolding eqm using si Cons by (simp add: sem_inv_def)
  ultimately have "sem_inv A t q ws'" using si Cons sv by (simp add: sem_inv_def)
  moreover have "dlist (klinks t) (Wait_link w) []"
    using keepsD(4) [OF t(5) foreign_wait(2)] dl(2) by (simp add: u_def kst_simps)
  moreover have "dlist (klinks t) d zs" if "foreign (d # zs)" "away q (set ws) (d # zs)" "dlist (klinks s) d zs" for d zs
    using keepsD(4) [OF t(5) that(1)] la that by (simp add: links_away_def)
  ultimately show ?thesis
    using up t p(3) Cons sv ps by (auto simp: wt) (simp_all add: u_def kst_simps)
qed


lemma sleeper_not_current:
  "sem_inv A s q ws \<Longrightarrow> state (procs s c) = PROC_RUNNABLE \<Longrightarrow> v \<in> set ws \<Longrightarrow> wproc (waits s v) \<noteq> Some c"
  by (force simp: sem_inv_def waiter_def)

lemma down_blocks:
  assumes i: "inv A s" and si: "sem_inv A s q ws" and c: "current s = Some c" "c \<in> A" "Some c \<noteq> idleproc s"
    "state (procs s c) = PROC_RUNNABLE" and w: "w \<notin> set ws" and v: "sem_value s q = 0"
  shows "\<exists>t n. down cls q w s = Some (Inr t) \<and> inv A t \<and> sem_inv A t q (ws @ [w]) \<and>
    current t = Some n \<and> state (procs t n) = PROC_RUNNABLE \<and> n \<noteq> c \<and> idleproc t = idleproc s \<and> sem_value t q = 0 \<and>
    wproc (waits t w) = Some c \<and> (\<forall>v. v \<noteq> w \<longrightarrow> waits t v = waits s v) \<and> sem_value t = sem_value s \<and>
    (\<forall>p. p \<noteq> c \<longrightarrow> state (procs t p) = state (procs s p) \<and> wait_state (procs t p) = wait_state (procs s p)) \<and>
    (\<forall>d zs. foreign (d # zs) \<longrightarrow> away q (set (w # ws)) (d # zs) \<longrightarrow> dlist (klinks s) d zs \<longrightarrow> dlist (klinks t) d zs)"
proof -
  define x where "x = upd_klinks (list_add_before (Wait_head q) (Wait_link w)) (upd_klinks (list_init (Wait_link w)) s)"
  define u where "u = (x\<lparr>waits := (waits s)(w := (waits s w)\<lparr>wproc := Some c, wakeup_flags := WT_INTERRUPTED, wait_queue := Some q\<rparr>)\<rparr>)
    \<lparr>procs := (procs s)(c := (procs s c)\<lparr>state := PROC_SLEEPING, wait_state := WT_KSEM\<rparr>)\<rparr>"
  have wl: "wait_list_is s q ws" using si by (simp add: sem_inv_def)
  note al = wait_add_links [OF wl w, folded x_def]
  have set_u: "wait_current_set q w WT_KSEM s = Some u"
    using c(1) by (simp add: wait_current_set_def wait_queue_add_def wait_init_def Let_def kst_simps list_empty_def
        link_simps u_def x_def upd_wait_def upd_proc_def upd_klinks_def)
  have uf: "klinks u = klinks x" "current u = Some c" "idleproc u = idleproc s" "sem_value u = sem_value s"
    "state (procs u p) = (if p = c then PROC_SLEEPING else state (procs s p))"
    "wait_state (procs u p) = (if p = c then WT_KSEM else wait_state (procs s p))"
    "waits u v = (if v = w then (waits s w)\<lparr>wproc := Some c, wakeup_flags := WT_INTERRUPTED, wait_queue := Some q\<rparr> else waits s v)" for p v
    using c(1) by (simp_all add: u_def x_def kst_simps)
  have la: "links_away q (set (w # ws)) s u" using al(2) by (simp add: links_away_def uf(1))
  have "run_same s u" using la by (rule run_same_away) (auto simp: u_def x_def kst_simps)
  then have iu: "inv A u" using c by (intro inv_same [OF i]) (auto simp: uf)
  obtain t n where t: "schedule cls u = Some t" "inv A t" "current t = Some n" "state (procs t n) = PROC_RUNNABLE"
    "keeps u t" "idleproc t = idleproc u"
    "\<forall>p. state (procs t p) = state (procs u p) \<and> wait_state (procs t p) = wait_state (procs u p)"
    using schedule_inv [OF iu] by blast
  have nc: "n \<noteq> c" using t(4,7) uf(5) [of c] by auto
  have wt: "waits t = waits u" "sem_value t = sem_value s" using keepsD(2,3) [OF t(5)] by (simp_all add: uf(4))
  have "waiter t q v A" if "v \<in> set (ws @ [w])" for v
  proof (cases "v = w")
    case True
    then show ?thesis using c(2) t(7) by (auto simp: waiter_def wt uf)
  next
    case False
    then have vs: "v \<in> set ws" using that by simp
    then have "waiter s q v A" using si by (simp add: sem_inv_def)
    then show ?thesis
      using sleeper_not_current [OF si c(4) vs] False t(7) by (auto simp: waiter_def wt uf)
  qed
  moreover have "wait_list_is t q (ws @ [w])"
    using keeps_wait_list [OF t(5), of q "ws @ [w]"] al(1) by (simp add: wait_list_is_def uf(1))
  moreover have "distinct (map (\<lambda>v. wproc (waits t v)) (ws @ [w]))"
  proof -
    have "map (\<lambda>v. wproc (waits t v)) ws = map (\<lambda>v. wproc (waits s v)) ws" using w by (auto simp: wt uf)
    moreover have "wproc (waits t w) = Some c" by (simp add: wt uf)
    moreover have "Some c \<notin> (\<lambda>v. wproc (waits s v)) ` set ws" using sleeper_not_current [OF si c(4)] by (metis imageE)
    moreover have "distinct (map (\<lambda>v. wproc (waits s v)) ws)" using si by (simp add: sem_inv_def)
    ultimately show ?thesis by (simp only: map_append distinct_append) simp
  qed
  ultimately have "sem_inv A t q (ws @ [w])" using v by (simp add: sem_inv_def wt(2))
  moreover have "dlist (klinks t) d zs" if "foreign (d # zs)" "away q (set (w # ws)) (d # zs)" "dlist (klinks s) d zs" for d zs
    using keepsD(4) [OF t(5) that(1)] la that unfolding links_away_def by blast
  moreover have "down cls q w s = Some (Inr t)"
    using v set_u t(1) by (simp add: down_def down_begin_def)
  ultimately show ?thesis using t nc v by (auto simp: wt uf)
qed

lemma down_passes:
  assumes i: "inv A s" and si: "sem_inv A s q ws" and v: "sem_value s q > 0"
  shows "down cls q w s = Some (Inl (set_sem q (sem_value s q - 1) s))" "inv A (set_sem q (sem_value s q - 1) s)"
    "sem_inv A (set_sem q (sem_value s q - 1) s) q ws"
proof -
  show "down cls q w s = Some (Inl (set_sem q (sem_value s q - 1) s))"
    using v by (simp add: down_def down_begin_def)
  show "inv A (set_sem q (sem_value s q - 1) s)"
    by (rule inv_unchanged [OF i]) (auto simp: run_same_def kst_simps)
  have "ws = []" using si v by (auto simp: sem_inv_def)
  then show "sem_inv A (set_sem q (sem_value s q - 1) s) q ws"
    using si v by (simp add: sem_inv_def wait_list_is_def kst_simps)
qed

end

subsection \<open>Runs of processes that use one semaphore\<close>

text \<open>
  \<open>sem_run cls q s0 s H B\<close>: from \<open>s0\<close> the processes have reached \<open>s\<close>; \<open>H\<close> are those that have returned from
  \<open>down\<close> and not yet called \<open>up\<close>, \<open>B\<close> those inside a blocked \<open>down\<close>, each with its \<open>wait_t\<close>. The current
  process takes each step: it enters \<open>down\<close>, resumes a blocked one, calls \<open>up\<close>, or is preempted.
\<close>

inductive sem_run :: "sched_class \<Rightarrow> nat \<Rightarrow> kst \<Rightarrow> kst \<Rightarrow> nat list \<Rightarrow> (nat \<times> nat) list \<Rightarrow> bool"
  for cls q s0
where
  sem_start: "sem_run cls q s0 s0 [] []"
| sem_pass: "sem_run cls q s0 s H B \<Longrightarrow> current s = Some c \<Longrightarrow> Some c \<noteq> idleproc s \<Longrightarrow> c \<notin> fst ` set B \<Longrightarrow>
    w \<notin> snd ` set B \<Longrightarrow> down cls q w s = Some (Inl t) \<Longrightarrow> sem_run cls q s0 t (c # H) B"
| sem_block: "sem_run cls q s0 s H B \<Longrightarrow> current s = Some c \<Longrightarrow> Some c \<noteq> idleproc s \<Longrightarrow> c \<notin> fst ` set B \<Longrightarrow>
    w \<notin> snd ` set B \<Longrightarrow> down cls q w s = Some (Inr t) \<Longrightarrow> sem_run cls q s0 t H ((c, w) # B)"
| sem_resume: "sem_run cls q s0 s H (B @ (c, w) # C) \<Longrightarrow> current s = Some c \<Longrightarrow> down_finish q w s = Some t \<Longrightarrow>
    sem_run cls q s0 t (c # H) (B @ C)"
| sem_up: "sem_run cls q s0 s (H @ c # G) B \<Longrightarrow> current s = Some c \<Longrightarrow> c \<notin> fst ` set B \<Longrightarrow> up cls q s = Some t \<Longrightarrow>
    sem_run cls q s0 t (H @ G) B"
| sem_yield: "sem_run cls q s0 s H B \<Longrightarrow> schedule cls s = Some t \<Longrightarrow> sem_run cls q s0 t H B"

text \<open>
  Each blocked wait is still queued, or it has been granted: unlinked, with the flags \<open>down\<close> expects.
\<close>

definition granted :: "kst \<Rightarrow> nat list \<Rightarrow> nat \<Rightarrow> bool" where
  "granted s ws w \<longleftrightarrow> w \<notin> set ws \<and> dlist (klinks s) (Wait_link w) [] \<and> wakeup_flags (waits s w) = WT_KSEM"

definition run_inv :: "(kst \<Rightarrow> nat set \<Rightarrow> bool) \<Rightarrow> (nat \<Rightarrow> kst \<Rightarrow> bool) \<Rightarrow> nat set \<Rightarrow> nat \<Rightarrow> int \<Rightarrow> kst \<Rightarrow>
    nat list \<Rightarrow> (nat \<times> nat) list \<Rightarrow> nat list \<Rightarrow> bool" where
  "run_inv ready detached A q n s H B ws \<longleftrightarrow> sched_inv ready detached A s \<and> sem_inv A s q ws \<and>
     (\<forall>c. current s = Some c \<longrightarrow> state (procs s c) = PROC_RUNNABLE) \<and>
     distinct (map snd B) \<and> set ws \<subseteq> snd ` set B \<and>
     (\<forall>(c, w)\<in>set B. if w \<in> set ws then wproc (waits s w) = Some c else granted s ws w) \<and>
     sem_value s q + int (length H) + int (length B) - int (length ws) = n"

lemma granted_finish:
  assumes "granted s ws w"
  shows "down_finish q w s = Some s"
proof -
  have "list_empty (Wait_link w) (klinks s)"
    using assms ll.empty_holds [of "klinks s" "Wait_link w" "[]"] by (simp add: granted_def)
  then show ?thesis
    using assms by (simp add: down_finish_def down_resume_def wait_current_del_def wait_in_queue_def granted_def)
qed

context sched_class
begin

abbreviation rinv :: "nat set \<Rightarrow> nat \<Rightarrow> int \<Rightarrow> kst \<Rightarrow> nat list \<Rightarrow> (nat \<times> nat) list \<Rightarrow> nat list \<Rightarrow> bool" where
  "rinv \<equiv> run_inv ready detached"

lemma rinvD:
  assumes "rinv A q n s H B ws"
  shows "inv A s" "sem_inv A s q ws" "current s = Some c \<Longrightarrow> state (procs s c) = PROC_RUNNABLE"
    "distinct (map snd B)" "set ws \<subseteq> snd ` set B"
    "(c, w) \<in> set B \<Longrightarrow> w \<in> set ws \<Longrightarrow> wproc (waits s w) = Some c"
    "(c, w) \<in> set B \<Longrightarrow> w \<notin> set ws \<Longrightarrow> granted s ws w"
    "sem_value s q + int (length H) + int (length B) - int (length ws) = n"
  using assms by (auto simp: run_inv_def split: if_splits)

text \<open>A process inside a blocked \<open>down\<close> that has become current has been granted.\<close>

lemma resumed_granted:
  assumes "rinv A q n s H B ws" "(c, w) \<in> set B" "current s = Some c"
  shows "granted s ws w"
proof (cases "w \<in> set ws")
  case True
  then show ?thesis
    using sleeper_not_current [OF rinvD(2) [OF assms(1)] rinvD(3) [OF assms(1,3)] True] rinvD(6) [OF assms(1,2) True]
    by simp
qed (rule rinvD(7) [OF assms(1,2)])

lemma granted_step:
  assumes "granted s ws w" "set ws' \<subseteq> set ws" "\<And>d zs. d = Wait_link w \<Longrightarrow> zs = [] \<Longrightarrow> dlist (klinks s) d zs \<Longrightarrow> dlist (klinks t) d zs"
    "waits t w = waits s w"
  shows "granted t ws' w"
  using assms by (auto simp: granted_def)

lemma rinv_pass:
  assumes r: "rinv A q n s H B ws" and d: "down cls q w s = Some (Inl t)"
  shows "rinv A q n t (c # H) B ws"
proof -
  have v: "sem_value s q > 0" using d by (auto simp: down_def down_begin_def split: if_splits bind_splits)
  note dp = down_passes [OF rinvD(1) [OF r] rinvD(2) [OF r] v]
  have t: "t = set_sem q (sem_value s q - 1) s" using d dp(1) by simp
  show ?thesis using dp(2,3) r by (auto simp: t run_inv_def kst_simps granted_def)
qed

lemma rinv_block:
  assumes r: "rinv A q n s H B ws" and c: "current s = Some c" "Some c \<noteq> idleproc s"
    and w: "w \<notin> snd ` set B" and d: "down cls q w s = Some (Inr t)"
  shows "rinv A q n t H ((c, w) # B) (ws @ [w])"
proof -
  note rd = rinvD [OF r]
  have v: "sem_value s q = 0"
    using d rd(2) by (auto simp: down_def down_begin_def sem_inv_def split: if_splits)
  have cA: "c \<in> A" using rd(1) c(1) by (auto simp: sched_inv_def)
  have wn: "w \<notin> set ws" using w rd(5) by auto
  obtain m where t: "inv A t" "sem_inv A t q (ws @ [w])" "current t = Some m" "state (procs t m) = PROC_RUNNABLE"
    "sem_value t q = 0" "wproc (waits t w) = Some c" "\<forall>v. v \<noteq> w \<longrightarrow> waits t v = waits s v"
    "\<forall>d zs. foreign (d # zs) \<longrightarrow> away q (set (w # ws)) (d # zs) \<longrightarrow> dlist (klinks s) d zs \<longrightarrow> dlist (klinks t) d zs"
    using down_blocks [OF rd(1,2) c(1) cA c(2) rd(3) [OF c(1)] wn v] d by auto
  have "if x \<in> set (ws @ [w]) then wproc (waits t x) = Some b else granted t (ws @ [w]) x"
    if bx: "(b, x) \<in> set ((c, w) # B)" for b x
  proof (cases "x = w")
    case True
    then show ?thesis using t(6) w bx by (force simp: image_iff)
  next
    case False
    then have xB: "(b, x) \<in> set B" using bx by simp
    show ?thesis
    proof (cases "x \<in> set ws")
      case True
      then show ?thesis using rd(6) [OF xB] t(7) False by simp
    next
      case xn: False
      have "away q (set (w # ws)) [Wait_link x]" using False xn by (auto simp: away_def)
      then show ?thesis using rd(7) [OF xB xn] t(7,8) False xn by (auto simp: granted_def)
    qed
  qed
  then show ?thesis using t(1-5) rd(4,5,8) w v by (auto simp: run_inv_def)
qed

lemma rinv_resume:
  assumes r: "rinv A q n s H (B @ (c, w) # C) ws" and c: "current s = Some c" and d: "down_finish q w s = Some t"
  shows "rinv A q n t (c # H) (B @ C) ws"
proof -
  note rd = rinvD [OF r]
  have g: "granted s ws w" using resumed_granted [OF r _ c] by simp
  then have t: "t = s" using granted_finish [OF g, of q] d by simp
  have "w \<notin> set ws" using g by (simp add: granted_def)
  then show ?thesis using r by (auto simp: t run_inv_def)
qed

lemma rinv_up:
  assumes r: "rinv A q n s (H @ c # G) B ws" and u: "up cls q s = Some t"
  shows "rinv A q n t (H @ G) B (tl ws)"
proof -
  note rd = rinvD [OF r]
  obtain t' where t': "up cls q s = Some t'" "inv A t'" "current t' = current s" "sem_inv A t' q (tl ws)"
    "case ws of
       [] \<Rightarrow> sem_value t' q = sem_value s q + 1 \<and> procs t' = procs s \<and> waits t' = waits s
     | w # _ \<Rightarrow> sem_value t' q = sem_value s q \<and> dlist (klinks t') (Wait_link w) [] \<and>
         wakeup_flags (waits t' w) = WT_KSEM \<and> (\<forall>v. wproc (waits t' v) = wproc (waits s v)) \<and>
         (\<forall>v. v \<noteq> w \<longrightarrow> waits t' v = waits s v) \<and>
         (\<forall>p. state (procs t' p) = (if wproc (waits s w) = Some p then PROC_RUNNABLE else state (procs s p)) \<and>
           wait_state (procs t' p) = (if wproc (waits s w) = Some p then 0 else wait_state (procs s p)))"
    "\<forall>d zs. foreign (d # zs) \<longrightarrow> away q (set ws) (d # zs) \<longrightarrow> dlist (klinks s) d zs \<longrightarrow> dlist (klinks t') d zs"
    using up_inv [OF rd(1,2)] by blast
  have t: "t = t'" using u t'(1) by simp
  show ?thesis
  proof (cases ws)
    case Nil
    have "granted t ws x" if "(b, x) \<in> set B" for b x
      using rd(7) [OF that] t'(5,6) Nil t by (auto simp: granted_def away_def)
    then show ?thesis using t' rd(3,4,8) Nil t by (auto simp: run_inv_def)
  next
    case (Cons w ws')
    have dist: "w \<notin> set ws'" using sem_inv_distinct [OF rd(2)] Cons by simp
    have st: "if x \<in> set ws' then wproc (waits t x) = Some b else granted t ws' x" if bx: "(b, x) \<in> set B" for b x
    proof (cases "x \<in> set ws")
      case True
      have "wproc (waits t x) = Some b" using rd(6) [OF bx True] t'(5) Cons t by simp
      moreover have "granted t ws' w" using t'(5) Cons t dist by (simp add: granted_def)
      ultimately show ?thesis using True Cons by auto
    next
      case False
      have "away q (set ws) [Wait_link x]" using False by (auto simp: away_def)
      then show ?thesis using rd(7) [OF bx False] t'(5,6) Cons False t by (auto simp: granted_def)
    qed
    have "\<forall>(b, x)\<in>set B. if x \<in> set ws' then wproc (waits t x) = Some b else granted t ws' x"
      using st by blast
    moreover have "sem_value t q + int (length (H @ G)) + int (length B) - int (length ws') = n"
      using t'(5) rd(8) Cons t by simp
    moreover have "\<forall>d. current t = Some d \<longrightarrow> state (procs t d) = PROC_RUNNABLE"
      using t'(3,5) rd(3) Cons t by simp
    moreover have "set ws' \<subseteq> snd ` set B" using rd(5) Cons by auto
    moreover have tlw: "tl ws = ws'" using Cons by simp
    ultimately show ?thesis using t'(2,4) rd(4) unfolding run_inv_def t tlw by (simp split del: if_split)
  qed
qed

lemma rinv_yield:
  assumes r: "rinv A q n s H B ws" and d: "schedule cls s = Some t"
  shows "rinv A q n t H B ws"
proof -
  note rd = rinvD [OF r]
  obtain m where t: "inv A t" "current t = Some m" "state (procs t m) = PROC_RUNNABLE" "keeps s t"
    "\<forall>p. state (procs t p) = state (procs s p) \<and> wait_state (procs t p) = wait_state (procs s p)"
    using schedule_inv [OF rd(1)] d by auto
  note kp = keepsD [OF t(4)]
  have "sem_inv A t q ws"
    using rd(2) keeps_wait_list [OF t(4)] t(5) by (auto simp: sem_inv_def waiter_def kp(2,3))
  then show ?thesis
    using r t kp(4) [OF foreign_wait(2)] by (auto simp: run_inv_def kp(2,3) granted_def)
qed

lemma sem_run_inv:
  assumes "sem_run cls q s0 s H B" "inv A s0" "sem_inv A s0 q []"
    "\<forall>c. current s0 = Some c \<longrightarrow> state (procs s0 c) = PROC_RUNNABLE"
  shows "\<exists>ws. rinv A q (sem_value s0 q) s H B ws"
  using assms
proof (induction rule: sem_run.induct)
  case sem_start
  then show ?case by (auto simp: run_inv_def)
next
  case (sem_pass s H B c w t)
  then show ?case using rinv_pass by blast
next
  case (sem_block s H B c w t)
  then show ?case using rinv_block by blast
next
  case (sem_resume s H B c w C t)
  then show ?case using rinv_resume by blast
next
  case (sem_up s H c G B t)
  then show ?case using rinv_up by blast
next
  case (sem_yield s H B t)
  then show ?case using rinv_yield by blast
qed

text \<open>No step of a run stops at an assertion: each of the calls returns.\<close>

lemma sem_run_progress:
  assumes r: "rinv A q n s H B ws" and c: "current s = Some c"
  shows "up cls q s \<noteq> None" "schedule cls s \<noteq> None"
    "(c, w) \<in> set B \<Longrightarrow> down_finish q w s \<noteq> None"
    "Some c \<noteq> idleproc s \<Longrightarrow> w \<notin> snd ` set B \<Longrightarrow> down cls q w s \<noteq> None"
proof -
  note rd = rinvD [OF r]
  show "up cls q s \<noteq> None" using up_inv [OF rd(1,2)] by auto
  show "schedule cls s \<noteq> None" using schedule_inv [OF rd(1)] by auto
  show "down_finish q w s \<noteq> None" if "(c, w) \<in> set B"
    using granted_finish [OF resumed_granted [OF r that c]] by simp
  show "down cls q w s \<noteq> None" if "Some c \<noteq> idleproc s" "w \<notin> snd ` set B"
  proof (cases "sem_value s q > 0")
    case True
    then show ?thesis by (simp add: down_def down_begin_def)
  next
    case False
    have v: "sem_value s q = 0" using False rd(2) by (simp add: sem_inv_def)
    have "c \<in> A" using rd(1) c by (auto simp: sched_inv_def)
    moreover have "w \<notin> set ws" using that(2) rd(5) by auto
    moreover note idl = that(1)
    ultimately obtain t where "down cls q w s = Some (Inr t)"
      using down_blocks [OF rd(1) rd(2) c] rd(3) [OF c] v by blast
    then show ?thesis by simp
  qed
qed

end

subsection \<open>Waking a whole queue\<close>

text \<open>\<open>wait_ok\<close>: every wait of the queue belongs to a process of \<open>A\<close> that is not a zombie.\<close>

definition wait_ok :: "nat set \<Rightarrow> kst \<Rightarrow> nat \<Rightarrow> nat list \<Rightarrow> bool" where
  "wait_ok A s q ws \<longleftrightarrow> wait_list_is s q ws \<and> (\<forall>w\<in>set ws. wait_queue (waits s w) = Some q \<and>
     (\<exists>p\<in>A. wproc (waits s w) = Some p \<and> state (procs s p) \<noteq> PROC_ZOMBIE))"

lemma wait_list_distinct: "wait_list_is s q ws \<Longrightarrow> distinct ws"
  using ll.holds_distinct [of "klinks s" "Wait_head q" "map Wait_link ws"] by (auto simp: wait_list_is_def distinct_map)

context sched_class
begin

lemma wakeup_wait_first:
  assumes i: "inv A s" and wo: "wait_ok A s q (w # ws)"
  shows "\<exists>t. wakeup_wait cls q w f True s = Some t \<and> inv A t \<and> current t = current s \<and> wait_ok A t q ws \<and>
    (\<forall>v. waits t v = (if v = w then (waits s w)\<lparr>wakeup_flags := f\<rparr> else waits s v)) \<and>
    (\<forall>p. state (procs t p) = (if wproc (waits s w) = Some p then PROC_RUNNABLE else state (procs s p)))"
proof -
  have wl: "wait_list_is s q ([] @ w # ws)" using wo by (simp add: wait_ok_def)
  obtain p where p: "wait_queue (waits s w) = Some q" "p \<in> A" "wproc (waits s w) = Some p"
    "state (procs s p) \<noteq> PROC_ZOMBIE"
    using wo by (auto simp: wait_ok_def)
  define u where "u = upd_wait w (\<lambda>d. d\<lparr>wakeup_flags := f\<rparr>) (upd_klinks (list_del_init (Wait_link w)) s)"
  note dl = wait_del_links [OF wl]
  have up: "wakeup_wait cls q w f True s = wakeup_proc cls p u"
    using p wait_linked [OF wl] by (simp add: wakeup_wait_def wait_queue_del_def u_def kst_simps)
  have "links_away q (set (w # ws)) s u" using dl(3) by (simp add: links_away_def u_def kst_simps)
  then have "run_same s u" by (rule run_same_away) (auto simp: u_def kst_simps)
  then have iu: "inv A u" by (rule inv_unchanged [OF i]) (auto simp: u_def kst_simps)
  have "state (procs u p) \<noteq> PROC_ZOMBIE" using p by (simp add: u_def kst_simps)
  then obtain t where t: "wakeup_proc cls p u = Some t" "inv A t" "current t = current u" "keeps u t"
    "\<forall>r. state (procs t r) = (if r = p then PROC_RUNNABLE else state (procs u r))"
    using wakeup_inv [OF iu p(2)] by auto
  have wt: "waits t v = (if v = w then (waits s w)\<lparr>wakeup_flags := f\<rparr> else waits s v)" for v
    using keepsD(2) [OF t(4)] by (simp add: u_def kst_simps)
  have ps: "procs u = procs s" "current u = current s" by (simp_all add: u_def kst_simps)
  have w': "wait_list_is u q ws" using dl(1) by (simp add: u_def wait_list_is_def kst_simps)
  have "w \<notin> set ws" using wait_list_distinct [OF wl] by simp
  then have "wait_ok A t q ws"
    using wo keeps_wait_list [OF t(4) w'] t(5) ps by (fastforce simp: wait_ok_def wt)
  then show ?thesis using up t p(3) ps by (auto simp: wt)
qed

lemma wakeup_del_loop_all:
  assumes "inv A s" "wait_ok A s q (w # ws)"
  shows "\<exists>t. wakeup_del_loop cls q f w s = Some t \<and> inv A t \<and> current t = current s \<and> wait_ok A t q [] \<and>
    (\<forall>v. waits t v = (if v \<in> set (w # ws) then (waits s v)\<lparr>wakeup_flags := f\<rparr> else waits s v)) \<and>
    (\<forall>p. state (procs t p) = (if \<exists>v\<in>set (w # ws). wproc (waits s v) = Some p then PROC_RUNNABLE else state (procs s p)))"
  using assms
proof (induction ws arbitrary: w s)
  case Nil
  obtain t where t: "wakeup_wait cls q w f True s = Some t" "inv A t" "current t = current s" "wait_ok A t q []"
    "\<forall>v. waits t v = (if v = w then (waits s w)\<lparr>wakeup_flags := f\<rparr> else waits s v)"
    "\<forall>p. state (procs t p) = (if wproc (waits s w) = Some p then PROC_RUNNABLE else state (procs s p))"
    using wakeup_wait_first [OF Nil] by blast
  have "wait_queue_first q t = None" using t(4) wait_queue_first_list [of t q "[]"] by (simp add: wait_ok_def)
  then show ?case using t by (subst wakeup_del_loop.simps) simp
next
  case (Cons x ws)
  obtain t where t: "wakeup_wait cls q w f True s = Some t" "inv A t" "current t = current s" "wait_ok A t q (x # ws)"
    "\<forall>v. waits t v = (if v = w then (waits s w)\<lparr>wakeup_flags := f\<rparr> else waits s v)"
    "\<forall>p. state (procs t p) = (if wproc (waits s w) = Some p then PROC_RUNNABLE else state (procs s p))"
    using wakeup_wait_first [OF Cons.prems] by blast
  have d: "distinct (w # x # ws)"
    using Cons.prems(2) wait_list_distinct [of s q "w # x # ws"] unfolding wait_ok_def by blast
  have "wait_queue_first q t = Some x" using t(4) wait_queue_first_list [of t q "x # ws"] by (simp add: wait_ok_def)
  then have e: "wakeup_del_loop cls q f w s = wakeup_del_loop cls q f x t" using t(1) by (subst wakeup_del_loop.simps) simp
  obtain r where r: "wakeup_del_loop cls q f x t = Some r" "inv A r" "current r = current t" "wait_ok A r q []"
    "\<forall>v. waits r v = (if v \<in> set (x # ws) then (waits t v)\<lparr>wakeup_flags := f\<rparr> else waits t v)"
    "\<forall>p. state (procs r p) = (if \<exists>v\<in>set (x # ws). wproc (waits t v) = Some p then PROC_RUNNABLE else state (procs t p))"
    using Cons.IH [OF t(2,4)] by blast
  have "waits r v = (if v \<in> set (w # x # ws) then (waits s v)\<lparr>wakeup_flags := f\<rparr> else waits s v)" for v
    using r(5) t(5) d by auto
  moreover have "state (procs r p) = (if \<exists>v\<in>set (w # x # ws). wproc (waits s v) = Some p then PROC_RUNNABLE else state (procs s p))" for p
    using r(6) t(5,6) d by auto
  ultimately show ?case using e r t(3) by auto
qed

end

subsection \<open>Properties\<close>

lemma sem_init_inv:
  assumes "kernel_class cls ready detached" "sched_inv ready detached A s"
  shows "sched_inv ready detached A (sem_init q n s)"
proof (rule sched_class.inv_unchanged [OF four_classes [OF assms(1)] assms(2)])
  have "dlist (list_init (Wait_head q) (klinks s)) d zs"
    if "Wait_head q \<notin> set (d # zs)" "dlist (klinks s) d zs" for d zs
    using that(1) by (intro ll.holds_frame [OF that(2)]) (metis ll.init_same)
  then have "links_away q {} s (sem_init q n s)"
    by (simp add: links_away_def away_def sem_init_def wait_queue_init_def kst_simps)
  then show "run_same s (sem_init q n s)"
    by (rule run_same_away) (auto simp: sem_init_def wait_queue_init_def kst_simps)
qed (auto simp: sem_init_def wait_queue_init_def kst_simps)

lemma sem_init_sem_inv: "0 \<le> n \<Longrightarrow> sem_inv A (sem_init q n s) q []"
  by (simp add: sem_inv_def wait_list_is_def sem_init_def wait_queue_init_def kst_simps ll.init_holds)

text \<open>The state of the demonstration after a switch to process 1, with a semaphore 7 of value \<open>n\<close>.\<close>

lemma demo_switched:
  assumes "0 \<le> n"
  obtains t where "schedule default_sched_class (sem_init 7 n demo_kst) = Some t"
    "sched_inv rr_ready rr_detached {0, 1, 2} t" "sem_inv {0, 1, 2} t 7 []" "current t = Some 1"
    "state (procs t 1) = PROC_RUNNABLE" "idleproc t = Some 0" "sem_value t 7 = n"
proof -
  let ?s = "sem_init 7 n demo_kst"
  have s: "procs ?s = procs demo_kst" "idleproc ?s = Some 0" "sem_value ?s 7 = n"
    by (simp_all add: sem_init_def wait_queue_init_def kst_simps demo_kst_def)
  have r: "runnable_set {0, 1, 2} ?s = {1}" using demo_waiting(2) s by (simp add: runnable_set_def demo_kst_def)
  obtain t where t: "schedule default_sched_class ?s = Some t" "sched_inv rr_ready rr_detached {0, 1, 2} t"
    "current t = Some 1" "state (procs t 1) = PROC_RUNNABLE" "keeps ?s t" "idleproc t = idleproc ?s"
    using rr.schedule_inv [OF sem_init_inv [OF kernel_class_rr demo_sched_inv, of 7 n]] unfolding r by auto
  have v: "sem_value t 7 = n" using keepsD(3) [OF t(5)] s by simp
  have "sem_inv {0, 1, 2} t 7 []"
    using sem_init_sem_inv [OF assms, of "{0, 1, 2}" 7 demo_kst] keeps_wait_list [OF t(5), of 7 "[]"] v assms
    by (simp add: sem_inv_def)
  with t v s show ?thesis by (intro that) simp_all
qed

lemma demo_blocked:
  obtains t where "sched_inv rr_ready rr_detached {0, 1, 2} t" "wait_ok {0, 1, 2} t 7 [5]"
    "wproc (waits t 5) = Some 1"
proof -
  obtain s where s: "sched_inv rr_ready rr_detached {0, 1, 2} s" "sem_inv {0, 1, 2} s 7 []" "current s = Some 1"
    "state (procs s 1) = PROC_RUNNABLE" "idleproc s = Some 0" "sem_value s 7 = 0"
    by (rule demo_switched [of 0]) auto
  obtain t where t: "sched_inv rr_ready rr_detached {0, 1, 2} t" "sem_inv {0, 1, 2} t 7 [5]" "wproc (waits t 5) = Some 1"
    using rr.down_blocks [OF s(1-3) _ _ s(4), of 5] s(5,6) by auto
  then have "wait_ok {0, 1, 2} t 7 [5]" by (auto simp: wait_ok_def sem_inv_def waiter_def)
  with t show ?thesis by (rule_tac that)
qed

text \<open>
  C14: a semaphore initialised with \<open>n\<close> and used by any interleaving of processes that call \<open>down\<close> and \<open>up\<close>
  and are preempted: its value stays between 0 and \<open>n\<close>, at most \<open>n\<close> processes are past \<open>down\<close> without having
  called \<open>up\<close> (mutual exclusion for \<open>n = 1\<close>), a positive value leaves nobody queued, and the next call of
  \<open>up\<close>, \<open>down\<close> or \<open>schedule\<close>, or the return of a blocked \<open>down\<close> that has become current, hits no assertion.
\<close>

theorem semaphore_safe:
  assumes "kernel_class cls ready detached" and "sched_inv ready detached A s0" and "0 \<le> n"
    and "current s0 = Some c0" and "state (procs s0 c0) = PROC_RUNNABLE"
    and "sem_run cls q (sem_init q n s0) s H B"
  shows "\<exists>ws. sem_inv A s q ws \<and> set ws \<subseteq> snd ` set B \<and> 0 \<le> sem_value s q \<and>
    sem_value s q + int (length H) \<le> n \<and>
    (\<exists>c. current s = Some c \<and> up cls q s \<noteq> None \<and> schedule cls s \<noteq> None \<and>
      (\<forall>w. (c, w) \<in> set B \<longrightarrow> down_finish q w s \<noteq> None) \<and>
      (\<forall>w. Some c \<noteq> idleproc s \<and> w \<notin> snd ` set B \<longrightarrow> down cls q w s \<noteq> None))"
proof -
  note sc = four_classes [OF assms(1)]
  let ?s = "sem_init q n s0"
  have v: "sem_value ?s q = n" "current ?s = Some c0" "state (procs ?s c0) = PROC_RUNNABLE"
    using assms(4,5) by (simp_all add: sem_init_def wait_queue_init_def kst_simps)
  obtain ws where r: "run_inv ready detached A q n s H B ws"
    using sched_class.sem_run_inv [OF sc assms(6) sem_init_inv [OF assms(1,2)] sem_init_sem_inv [OF assms(3)]] v
    by auto
  note rd = sched_class.rinvD [OF sc r]
  obtain c where c: "current s = Some c" using rd(1) by (auto simp: sched_inv_def)
  have "length ws \<le> length B"
    using card_mono [OF _ rd(5)] distinct_card [OF sem_inv_distinct [OF rd(2)]] distinct_card [OF rd(4)] by simp
  then have "sem_value s q + int (length H) \<le> n" using rd(8) by linarith
  then show ?thesis
    using rd(2,5) c sched_class.sem_run_progress [OF sc r c] by (auto simp: sem_inv_def)
qed

theorem semaphore_safe_witness:
  "\<exists>s. sem_run default_sched_class 7 (sem_init 7 1 demo_kst) s [1] [] \<and> sem_value s 7 + 1 \<le> 1 \<and>
     up default_sched_class 7 s \<noteq> None"
proof -
  obtain t where t: "schedule default_sched_class (sem_init 7 1 demo_kst) = Some t" "current t = Some 1"
    "idleproc t = Some 0" "sem_value t 7 = 1"
    by (rule demo_switched [of 1]) auto
  have "down default_sched_class 7 5 t = Some (Inl (set_sem 7 0 t))"
    using t(4) by (simp add: down_def down_begin_def)
  then have r: "sem_run default_sched_class 7 (sem_init 7 1 demo_kst) (set_sem 7 0 t) [1] []"
    using sem_pass [OF sem_yield [OF sem_start t(1)] t(2), of 5] t(3) by simp
  have "current demo_kst = Some 0" "state (procs demo_kst 0) = PROC_RUNNABLE"
    by (simp_all add: demo_kst_def demo_proc_def)
  then show ?thesis
    using semaphore_safe [OF kernel_class_rr demo_sched_inv _ _ _ r] r by auto
qed

text \<open>
  \<open>up\<close> and \<open>down\<close> on a queue with the waits \<open>ws\<close>: \<open>up\<close> raises the value if nobody waits, and otherwise
  hands the semaphore to the first waiter, which becomes runnable and leaves the queue; \<open>down\<close> lowers a
  positive value, and otherwise puts the caller to sleep at the end of the queue and runs another process.
\<close>

lemma up_down_fifo:
  assumes "kernel_class cls ready detached" and "sched_inv ready detached A s" and "sem_inv A s q ws"
    and "current s = Some c" and "Some c \<noteq> idleproc s" and "state (procs s c) = PROC_RUNNABLE" and "w \<notin> set ws"
  shows "(\<exists>t. up cls q s = Some t \<and> sched_inv ready detached A t \<and> sem_inv A t q (tl ws) \<and>
      (case ws of [] \<Rightarrow> sem_value t q = sem_value s q + 1
       | v # _ \<Rightarrow> sem_value t q = sem_value s q \<and> (\<forall>p. wproc (waits s v) = Some p \<longrightarrow> state (procs t p) = PROC_RUNNABLE)))
    \<and> (if 0 < sem_value s q
      then down cls q w s = Some (Inl (set_sem q (sem_value s q - 1) s))
      else \<exists>t d. down cls q w s = Some (Inr t) \<and> sched_inv ready detached A t \<and> sem_inv A t q (ws @ [w]) \<and>
        wproc (waits t w) = Some c \<and> current t = Some d \<and> d \<noteq> c)"
proof (rule conjI)
  note sc = four_classes [OF assms(1)]
  show "\<exists>t. up cls q s = Some t \<and> sched_inv ready detached A t \<and> sem_inv A t q (tl ws) \<and>
      (case ws of [] \<Rightarrow> sem_value t q = sem_value s q + 1
       | v # _ \<Rightarrow> sem_value t q = sem_value s q \<and> (\<forall>p. wproc (waits s v) = Some p \<longrightarrow> state (procs t p) = PROC_RUNNABLE))"
    using sched_class.up_inv [OF sc assms(2,3)] by (cases ws) fastforce+
  have "c \<in> A" using assms(2,4) by (auto simp: sched_inv_def)
  moreover have "\<not> 0 < sem_value s q \<Longrightarrow> sem_value s q = 0" using assms(3) by (simp add: sem_inv_def)
  ultimately show "if 0 < sem_value s q
      then down cls q w s = Some (Inl (set_sem q (sem_value s q - 1) s))
      else \<exists>t d. down cls q w s = Some (Inr t) \<and> sched_inv ready detached A t \<and> sem_inv A t q (ws @ [w]) \<and>
        wproc (waits t w) = Some c \<and> current t = Some d \<and> d \<noteq> c"
    using sched_class.down_passes(1) [OF sc assms(2,3)] sched_class.down_blocks [OF sc assms(2-4) _ assms(5-7)]
    by (cases "0 < sem_value s q") (simp, fastforce)
qed

text \<open>
  \<open>wakeup_queue\<close> with the waits to be removed returns; every process waiting on the queue is runnable with
  the given flags in its wait, the queue is empty and no other process has changed its state.
\<close>

lemma wakeup_queue_wakes_all:
  assumes "kernel_class cls ready detached" and "sched_inv ready detached A s" and "wait_ok A s q ws"
  shows "\<exists>t. wakeup_queue cls q f True s = Some t \<and> sched_inv ready detached A t \<and> wait_list_is t q [] \<and>
    (\<forall>v\<in>set ws. wakeup_flags (waits t v) = f) \<and>
    (\<forall>p. state (procs t p) = (if \<exists>v\<in>set ws. wproc (waits s v) = Some p then PROC_RUNNABLE else state (procs s p)))"
proof (cases ws)
  case Nil
  then show ?thesis
    using assms(2,3) wait_queue_first_list [of s q ws] by (auto simp: wakeup_queue_def wait_ok_def)
next
  case (Cons w ws')
  have "wait_queue_first q s = Some w"
    using Cons assms(3) wait_queue_first_list [of s q ws] by (simp add: wait_ok_def)
  then show ?thesis
    using sched_class.wakeup_del_loop_all [OF four_classes [OF assms(1)] assms(2), of q w ws' f] assms(3) Cons
    by (fastforce simp: wakeup_queue_def wait_ok_def)
qed

end
