(* ===== verification/Proc_Table.thy ===== *)
theory Proc_Table
  imports Sync
begin

unbundle bit_operations_syntax

section \<open>The process table (kern/process/proc.c)\<close>

text \<open>
  The list and the hash table of all processes, the family links, pid allocation and the operations that
  only touch process descriptors. The memory side of fork, exit and wait is in \<open>Proc_Memory\<close>. The function
  static variables of \<open>get_pid\<close> are the fields \<open>last_pid\<close> and \<open>next_safe\<close> of the state.
\<close>

subsection \<open>Descriptors\<close>

definition PROC_NAME_LEN :: nat where "PROC_NAME_LEN = 15"

text \<open>\<open>name\<close> stands for the bytes found at the argument pointer.\<close>

definition set_proc_name :: "nat \<Rightarrow> string \<Rightarrow> kst \<Rightarrow> kst" where
  "set_proc_name proc name = upd_proc proc (\<lambda>d. d\<lparr>pname :=
     take PROC_NAME_LEN name @ replicate (PROC_NAME_LEN + 1 - length (take PROC_NAME_LEN name)) (CHR 0x00)\<rparr>)"

definition get_proc_name :: "nat \<Rightarrow> kst \<Rightarrow> string" where
  "get_proc_name proc s = take PROC_NAME_LEN (pname (procs s proc)) @ [CHR 0x00]"

text \<open>\<open>kmalloced\<close> is what \<open>kmalloc\<close> has returned; \<open>boot_pgdir_pa\<close> the physical address of the boot page table.\<close>

definition alloc_proc :: "nat \<Rightarrow> nat option \<Rightarrow> kst \<Rightarrow> nat option \<times> kst" where
  "alloc_proc boot_pgdir_pa kmalloced s =
     (case kmalloced of
        None \<Rightarrow> (None, s)
      | Some proc \<Rightarrow>
          (let s = upd_proc proc (\<lambda>d. d\<lparr>state := PROC_UNINIT, pid := - 1, runs := 0, kstack := 0,
                 need_resched := False, parent := None, mm := None, ctx := zero_context, tf := None,
                 pgdir := boot_pgdir_pa, pflags := 0,
                 pname := replicate PROC_NAME_LEN (CHR 0x00) @ drop PROC_NAME_LEN (pname d),
                 wait_state := 0, cptr := None, optr := None, yptr := None, rq := None\<rparr>) s;
               s = upd_klinks (list_init (Run_link proc)) s;
               s = upd_proc proc (\<lambda>d. d\<lparr>time_slice := 0\<rparr>) s;
               s = s\<lparr>pool := \<lparr>par = (par (pool s))(proc := None), lft = (lft (pool s))(proc := None),
                     rgt = (rgt (pool s))(proc := None)\<rparr>\<rparr>;
               s = upd_proc proc (\<lambda>d. d\<lparr>lab6_stride := 0, lab6_priority := 0, filesp := None\<rparr>) s
           in (Some proc, s)))"

subsection \<open>Family links and the process list\<close>

definition set_links :: "nat \<Rightarrow> kst \<Rightarrow> kst kresult" where
  "set_links proc s = do {
     let s = upd_klinks (list_add Proc_list (List_link proc)) s;
     let s = upd_proc proc (\<lambda>d. d\<lparr>yptr := None\<rparr>) s;
     par \<leftarrow> parent (procs s proc);
     let s = upd_proc proc (\<lambda>d. d\<lparr>optr := cptr (procs s par)\<rparr>) s;
     let s = (case optr (procs s proc) of
                Some old \<Rightarrow> upd_proc old (\<lambda>d. d\<lparr>yptr := Some proc\<rparr>) s
              | None \<Rightarrow> s);
     let s = upd_proc par (\<lambda>d. d\<lparr>cptr := Some proc\<rparr>) s;
     Some (s\<lparr>nr_process := nr_process s + 1\<rparr>)
   }"

definition remove_links :: "nat \<Rightarrow> kst \<Rightarrow> kst kresult" where
  "remove_links proc s = do {
     let s = upd_klinks (list_del (List_link proc)) s;
     let s = (case optr (procs s proc) of
                Some old \<Rightarrow> upd_proc old (\<lambda>d. d\<lparr>yptr := yptr (procs s proc)\<rparr>) s
              | None \<Rightarrow> s);
     s \<leftarrow> (case yptr (procs s proc) of
             Some young \<Rightarrow> Some (upd_proc young (\<lambda>d. d\<lparr>optr := optr (procs s proc)\<rparr>) s)
           | None \<Rightarrow> do {
               par \<leftarrow> parent (procs s proc);
               Some (upd_proc par (\<lambda>d. d\<lparr>cptr := optr (procs s proc)\<rparr>) s)
             });
     Some (s\<lparr>nr_process := nr_process s - 1\<rparr>)
   }"

subsection \<open>Process identifiers\<close>

text \<open>The \<open>while\<close> loop of \<open>get_pid\<close> at the entry \<open>le\<close>; \<open>goto repeat\<close> restarts it at the list head.\<close>

partial_function (option) get_pid_loop :: "kle \<Rightarrow> kst \<Rightarrow> kst kresult" where
  "get_pid_loop le s =
     (let le = list_next le (klinks s) in
      if le = Proc_list then Some s
      else let proc = le2proc le in
        if pid (procs s proc) = last_pid s
        then let s = s\<lparr>last_pid := last_pid s + 1\<rparr> in
          if last_pid s \<ge> next_safe s
          then let s = (if last_pid s \<ge> MAX_PID then s\<lparr>last_pid := 1\<rparr> else s);
                   s = s\<lparr>next_safe := MAX_PID\<rparr>
               in get_pid_loop Proc_list s
          else get_pid_loop le s
        else if pid (procs s proc) > last_pid s \<and> next_safe s > pid (procs s proc)
        then get_pid_loop le (s\<lparr>next_safe := pid (procs s proc)\<rparr>)
        else get_pid_loop le s)"

definition get_pid :: "kst \<Rightarrow> (int \<times> kst) kresult" where
  "get_pid s = do {
     let s = s\<lparr>last_pid := last_pid s + 1\<rparr>;
     s \<leftarrow> (if last_pid s \<ge> MAX_PID
           then let s = s\<lparr>last_pid := 1\<rparr>; s = s\<lparr>next_safe := MAX_PID\<rparr> in get_pid_loop Proc_list s
           else if last_pid s \<ge> next_safe s
           then let s = s\<lparr>next_safe := MAX_PID\<rparr> in get_pid_loop Proc_list s
           else Some s);
     Some (last_pid s, s)
   }"

definition HASH_SHIFT :: nat where "HASH_SHIFT = 10"
definition HASH_LIST_SIZE :: nat where "HASH_LIST_SIZE = push_bit HASH_SHIFT 1"

definition hash32 :: "32 word \<Rightarrow> nat \<Rightarrow> 32 word" where
  "hash32 val bits = (let hash = val * 0x9e370001 in drop_bit (32 - bits) hash)"

definition pid_hashfn :: "int \<Rightarrow> nat" where
  "pid_hashfn x = unat (hash32 (word_of_int x) HASH_SHIFT)"

definition hash_proc :: "nat \<Rightarrow> kst \<Rightarrow> kst" where
  "hash_proc proc s =
     upd_klinks (list_add (Hash_list (pid_hashfn (pid (procs s proc)))) (Hash_link proc)) s"

definition unhash_proc :: "nat \<Rightarrow> kst \<Rightarrow> kst" where
  "unhash_proc proc s = upd_klinks (list_del (Hash_link proc)) s"

partial_function (option) find_proc_loop :: "kle \<Rightarrow> kle \<Rightarrow> int \<Rightarrow> kst \<Rightarrow> nat option kresult" where
  "find_proc_loop list le n s =
     (let le = list_next le (klinks s) in
      if le = list then Some None
      else let proc = le2proc le in
        if pid (procs s proc) = n then Some (Some proc) else find_proc_loop list le n s)"

definition find_proc :: "int \<Rightarrow> kst \<Rightarrow> nat option kresult" where
  "find_proc n s =
     (if 0 < n \<and> n < MAX_PID
      then let list = Hash_list (pid_hashfn n) in find_proc_loop list list n s
      else Some None)"

definition do_yield :: "kst \<Rightarrow> (int \<times> kst) kresult" where
  "do_yield s = do {
     cur \<leftarrow> current s;
     Some (0, upd_proc cur (\<lambda>d. d\<lparr>need_resched := True\<rparr>) s)
   }"

definition do_kill :: "sched_class \<Rightarrow> int \<Rightarrow> kst \<Rightarrow> (int \<times> kst) kresult" where
  "do_kill cls n s = do {
     proc \<leftarrow> find_proc n s;
     (case proc of
        Some proc \<Rightarrow>
          if pflags (procs s proc) AND PF_EXITING = 0
          then do {
            let s = upd_proc proc (\<lambda>d. d\<lparr>pflags := pflags d OR PF_EXITING\<rparr>) s;
            s \<leftarrow> (if wait_state (procs s proc) AND WT_INTERRUPTED \<noteq> 0 then wakeup_proc cls proc s else Some s);
            Some (0, s)
          }
          else Some (- E_KILLED, s)
      | None \<Rightarrow> Some (- E_INVAL, s))
   }"

text \<open>One turn of the endless loop of \<open>cpu_idle\<close>.\<close>

definition cpu_idle_turn :: "sched_class \<Rightarrow> kst \<Rightarrow> kst kresult" where
  "cpu_idle_turn cls s = do {
     cur \<leftarrow> current s;
     (if need_resched (procs s cur) then schedule cls s else Some s)
   }"

subsection \<open>The part of \<open>do_exit\<close> and \<open>do_wait\<close> that walks the family links\<close>

text \<open>\<open>while (current->cptr != NULL)\<close> of \<open>do_exit\<close>: the children are handed to \<open>initproc\<close>.\<close>

partial_function (option) reparent_loop :: "sched_class \<Rightarrow> kst \<Rightarrow> kst kresult" where
  "reparent_loop cls s = do {
     cur \<leftarrow> current s;
     (case cptr (procs s cur) of
        None \<Rightarrow> Some s
      | Some proc \<Rightarrow> do {
          let s = upd_proc cur (\<lambda>d. d\<lparr>cptr := optr (procs s proc)\<rparr>) s;
          let s = upd_proc proc (\<lambda>d. d\<lparr>yptr := None\<rparr>) s;
          ini \<leftarrow> initproc s;
          let s = upd_proc proc (\<lambda>d. d\<lparr>optr := cptr (procs s ini)\<rparr>) s;
          s \<leftarrow> (if optr (procs s proc) \<noteq> None
                then do {
                  old \<leftarrow> cptr (procs s ini);
                  Some (upd_proc old (\<lambda>d. d\<lparr>yptr := Some proc\<rparr>) s)
                }
                else Some s);
          let s = upd_proc proc (\<lambda>d. d\<lparr>parent := initproc s\<rparr>) s;
          let s = upd_proc ini (\<lambda>d. d\<lparr>cptr := Some proc\<rparr>) s;
          s \<leftarrow> (if state (procs s proc) = PROC_ZOMBIE
                then if wait_state (procs s ini) = WT_CHILD then wakeup_proc cls ini s else Some s
                else Some s);
          reparent_loop cls s
        })
   }"

text \<open>The critical section of \<open>do_exit\<close>: wake a waiting parent, then hand over the children.\<close>

definition exit_notify :: "sched_class \<Rightarrow> kst \<Rightarrow> kst kresult" where
  "exit_notify cls s = do {
     cur \<leftarrow> current s;
     proc \<leftarrow> parent (procs s cur);
     s \<leftarrow> (if wait_state (procs s proc) = WT_CHILD then wakeup_proc cls proc s else Some s);
     reparent_loop cls s
   }"

text \<open>
  The search of \<open>do_wait\<close>: the pair is the zombie found, if any, and \<open>haskid\<close>. The loop runs over the
  children from \<open>proc\<close> on.
\<close>

partial_function (option) zombie_loop :: "nat option \<Rightarrow> bool \<Rightarrow> kst \<Rightarrow> (nat option \<times> bool) kresult" where
  "zombie_loop proc haskid s =
     (case proc of
        None \<Rightarrow> Some (None, haskid)
      | Some p \<Rightarrow>
          if state (procs s p) = PROC_ZOMBIE then Some (Some p, True)
          else zombie_loop (optr (procs s p)) True s)"

definition wait_search :: "int \<Rightarrow> kst \<Rightarrow> (nat option \<times> bool) kresult" where
  "wait_search n s = do {
     cur \<leftarrow> current s;
     (if n \<noteq> 0
      then do {
        proc \<leftarrow> find_proc n s;
        Some (case proc of
                Some p \<Rightarrow>
                  if parent (procs s p) = Some cur
                  then if state (procs s p) = PROC_ZOMBIE then (Some p, True) else (None, True)
                  else (None, False)
              | None \<Rightarrow> (None, False))
      }
      else zombie_loop (cptr (procs s cur)) False s)
   }"

subsection \<open>Pid allocation\<close>

text \<open>\<open>proc_list_is s ps\<close>: the process list holds \<open>ps\<close>.\<close>

definition proc_list_is :: "kst \<Rightarrow> nat list \<Rightarrow> bool" where
  "proc_list_is s ps \<longleftrightarrow> dlist (klinks s) Proc_list (map List_link ps)"

text \<open>
  \<open>pid_window s ps\<close>: between two calls no listed process has a pid from \<open>last_pid\<close> (exclusive) to
  \<open>next_safe\<close>; \<open>clear_of s xs\<close>: no process of \<open>xs\<close> has one from \<open>last_pid\<close> (inclusive) on.
\<close>

definition pid_window :: "kst \<Rightarrow> nat list \<Rightarrow> bool" where
  "pid_window s ps \<longleftrightarrow> 1 \<le> last_pid s \<and> next_safe s \<le> MAX_PID \<and>
     (\<forall>p\<in>set ps. \<not> (last_pid s < pid (procs s p) \<and> pid (procs s p) < next_safe s))"

definition clear_of :: "kst \<Rightarrow> nat list \<Rightarrow> bool" where
  "clear_of s xs \<longleftrightarrow> (\<forall>p\<in>set xs. \<not> (last_pid s \<le> pid (procs s p) \<and> pid (procs s p) < next_safe s))"

text \<open>The distance from \<open>l\<close> upwards to a free pid \<open>f\<close>, around the end of the range.\<close>

definition pid_dist :: "int \<Rightarrow> int \<Rightarrow> nat" where
  "pid_dist f l = nat (if l \<le> f then f - l else f + MAX_PID - l)"

lemma get_pid_loop_ok:
  assumes "proc_list_is s ps" "ps = as @ bs" and "1 \<le> f" "f < MAX_PID" "\<forall>p\<in>set ps. pid (procs s p) \<noteq> f"
    and "1 \<le> last_pid s" "last_pid s < next_safe s" "next_safe s \<le> MAX_PID" "clear_of s as"
  shows "\<exists>l n. get_pid_loop (last (Proc_list # map List_link as)) s = Some (s\<lparr>last_pid := l, next_safe := n\<rparr>) \<and>
    1 \<le> l \<and> l < n \<and> n \<le> MAX_PID \<and> clear_of (s\<lparr>last_pid := l, next_safe := n\<rparr>) ps"
  using assms
proof (induction "pid_dist f (last_pid s) * Suc (length ps) + length bs" arbitrary: s as bs rule: less_induct)
  case less
  have d: "dlist (klinks s) Proc_list (map List_link as @ map List_link bs)"
    using less.prems(1,2) by (simp add: proc_list_is_def)
  have nx: "list_next (last (Proc_list # map List_link as)) (klinks s) = hd (map List_link bs @ [Proc_list])"
    by (rule ll.succ_holds [OF d])
  show ?case
  proof (cases bs)
    case Nil
    then have "get_pid_loop (last (Proc_list # map List_link as)) s = Some s"
      using nx by (subst get_pid_loop.simps) simp
    then show ?thesis
      using less.prems Nil by (intro exI [of _ "last_pid s"] exI [of _ "next_safe s"]) simp
  next
    case (Cons b bs')
    have step: "last (Proc_list # map List_link (as @ [b])) = List_link b" by simp
    have split: "ps = (as @ [b]) @ bs'" using less.prems(2) Cons by simp
    note unf = get_pid_loop.simps [of "last (Proc_list # map List_link as)" s, unfolded nx Let_def]
    consider (eq) "pid (procs s b) = last_pid s" | (near) "pid (procs s b) \<noteq> last_pid s"
        "pid (procs s b) > last_pid s \<and> next_safe s > pid (procs s b)"
      | (far) "pid (procs s b) \<noteq> last_pid s" "\<not> (pid (procs s b) > last_pid s \<and> next_safe s > pid (procs s b))"
      by blast
    then show ?thesis
    proof cases
      case eq
      have nf: "last_pid s \<noteq> f" using less.prems(2,5) Cons eq by auto
      show ?thesis
      proof (cases "last_pid s + 1 \<ge> next_safe s")
        case True
        let ?l = "if last_pid s + 1 \<ge> MAX_PID then 1 else last_pid s + 1"
        let ?t = "s\<lparr>last_pid := ?l, next_safe := MAX_PID\<rparr>"
        have e: "get_pid_loop (last (Proc_list # map List_link as)) s = get_pid_loop (last (Proc_list # map List_link [])) ?t"
          using True eq Cons by (subst unf) simp
        have "pid_dist f ?l < pid_dist f (last_pid s)"
          using nf less.prems(3,4,6-8) by (auto simp: pid_dist_def)
        then have m: "pid_dist f (last_pid ?t) * Suc (length ps) + length ps < pid_dist f (last_pid s) * Suc (length ps) + length bs"
          using mult_le_mono1 [of "Suc (pid_dist f ?l)" "pid_dist f (last_pid s)" "Suc (length ps)"] by simp
        show ?thesis unfolding e
          using less.hyps [OF m, of "[]"] less.prems by (simp add: proc_list_is_def clear_of_def MAX_PID_def MAX_PROCESS_def)
      next
        case False
        let ?t = "s\<lparr>last_pid := last_pid s + 1\<rparr>"
        have e: "get_pid_loop (last (Proc_list # map List_link as)) s = get_pid_loop (last (Proc_list # map List_link (as @ [b]))) ?t"
          using False eq Cons by (subst unf) simp
        have "pid_dist f (last_pid ?t) \<le> pid_dist f (last_pid s)"
          using nf less.prems(3,4,6-8) by (auto simp: pid_dist_def)
        then have m: "pid_dist f (last_pid ?t) * Suc (length ps) + length bs' < pid_dist f (last_pid s) * Suc (length ps) + length bs"
          using Cons mult_le_mono1 [of "pid_dist f (last_pid ?t)" "pid_dist f (last_pid s)" "Suc (length ps)"] by simp
        show ?thesis unfolding e
          using less.hyps [OF m _ split] less.prems False eq by (simp add: proc_list_is_def clear_of_def)
      qed
    next
      case near
      let ?t = "s\<lparr>next_safe := pid (procs s b)\<rparr>"
      have e: "get_pid_loop (last (Proc_list # map List_link as)) s = get_pid_loop (last (Proc_list # map List_link (as @ [b]))) ?t"
        using near Cons by (subst unf) simp
      have c: "clear_of ?t (as @ [b])" using less.prems(9) near by (fastforce simp: clear_of_def)
      have m: "pid_dist f (last_pid ?t) * Suc (length ps) + length bs' < pid_dist f (last_pid s) * Suc (length ps) + length bs"
        using Cons by simp
      show ?thesis unfolding e
        using less.hyps [OF m _ split less.prems(3,4) _ _ _ _ c] less.prems near
        by (simp add: proc_list_is_def clear_of_def [of "s\<lparr>last_pid := l, next_safe := n\<rparr>" for l n])
    next
      case far
      have e: "get_pid_loop (last (Proc_list # map List_link as)) s = get_pid_loop (last (Proc_list # map List_link (as @ [b]))) s"
        using far Cons by (subst unf) auto
      have m: "pid_dist f (last_pid s) * Suc (length ps) + length bs' < pid_dist f (last_pid s) * Suc (length ps) + length bs"
        using Cons by simp
      show ?thesis unfolding e
        using less.hyps [OF m less.prems(1) split less.prems(3-8)] less.prems(9) far by (fastforce simp: clear_of_def)
    qed
  qed
qed

lemma get_pid_ok:
  assumes l: "proc_list_is s ps" and f: "1 \<le> f" "f < MAX_PID" "\<forall>p\<in>set ps. pid (procs s p) \<noteq> f"
    and w: "pid_window s ps"
  shows "\<exists>r t. get_pid s = Some (r, t) \<and> t = s\<lparr>last_pid := r, next_safe := next_safe t\<rparr> \<and>
    1 \<le> r \<and> r < MAX_PID \<and> (\<forall>p\<in>set ps. pid (procs s p) \<noteq> r) \<and> pid_window t ps"
proof -
  let ?start = "if last_pid s + 1 \<ge> MAX_PID then 1 else last_pid s + 1"
  let ?u = "s\<lparr>last_pid := ?start, next_safe := MAX_PID\<rparr>"
  show ?thesis
  proof (cases "last_pid s + 1 < MAX_PID \<and> last_pid s + 1 < next_safe s")
    case True
    then have "get_pid s = Some (last_pid s + 1, s\<lparr>last_pid := last_pid s + 1\<rparr>)" by (simp add: get_pid_def)
    then show ?thesis using True w by (auto simp: pid_window_def)
  next
    case False
    have "1 \<le> ?start" "?start < MAX_PID"
      using w by (auto simp: pid_window_def MAX_PID_def MAX_PROCESS_def)
    then have "\<exists>r n. get_pid_loop (last (Proc_list # map List_link [])) ?u = Some (?u\<lparr>last_pid := r, next_safe := n\<rparr>) \<and>
        1 \<le> r \<and> r < n \<and> n \<le> MAX_PID \<and> clear_of (?u\<lparr>last_pid := r, next_safe := n\<rparr>) ps"
      using l f by (intro get_pid_loop_ok [of ?u ps "[]" ps f]) (simp_all add: proc_list_is_def clear_of_def)
    then obtain r n where r: "get_pid_loop (last (Proc_list # map List_link [])) ?u = Some (?u\<lparr>last_pid := r, next_safe := n\<rparr>)"
      "1 \<le> r" "r < n" "n \<le> MAX_PID" "clear_of (?u\<lparr>last_pid := r, next_safe := n\<rparr>) ps"
      by blast
    have "get_pid s = Some (r, s\<lparr>last_pid := r, next_safe := n\<rparr>)"
      using False r(1) by (auto simp: get_pid_def Let_def)
    then show ?thesis using r(2-5) by (fastforce simp: clear_of_def pid_window_def)
  qed
qed

text \<open>With fewer processes than pids there is a free one.\<close>

lemma free_pid_exists:
  assumes "length ps < nat (MAX_PID - 1)"
  shows "\<exists>f. 1 \<le> f \<and> f < MAX_PID \<and> (\<forall>p\<in>set ps. g p \<noteq> f)"
proof -
  have "card (g ` set ps) \<le> length ps" by (meson card_image_le card_length finite_set le_trans)
  then have "card (g ` set ps) < card {1..<MAX_PID}" using assms by simp
  then have "\<not> {1..<MAX_PID} \<subseteq> g ` set ps" using card_mono [of "g ` set ps" "{1..<MAX_PID}"] by auto
  then show ?thesis by force
qed

subsection \<open>The hash table\<close>

lemma pid_hashfn_bound: "pid_hashfn n < HASH_LIST_SIZE"
proof -
  have "unat (drop_bit 22 w) < 1024" for w :: "32 word"
  proof -
    have "unat (drop_bit 22 w) = drop_bit 22 (unat w)" by (simp only: unat_drop_bit_eq)
    then have "unat (drop_bit 22 w) = unat w div 2 ^ 22" by (simp only: drop_bit_eq_div)
    moreover have "unat w < 2 ^ 32" using unsigned_less [of w, where 'a = nat] by simp
    ultimately show ?thesis by (simp add: less_mult_imp_div_less)
  qed
  then show ?thesis by (simp add: pid_hashfn_def hash32_def HASH_SHIFT_def HASH_LIST_SIZE_def Let_def)
qed

text \<open>\<open>hash_table_is s B\<close>: the bucket \<open>i\<close> holds the processes \<open>B i\<close>, whose pids hash to \<open>i\<close>.\<close>

definition hash_table_is :: "kst \<Rightarrow> (nat \<Rightarrow> nat list) \<Rightarrow> bool" where
  "hash_table_is s B \<longleftrightarrow> (\<forall>i<HASH_LIST_SIZE. dlist (klinks s) (Hash_list i) (map Hash_link (B i)) \<and>
     (\<forall>p\<in>set (B i). pid_hashfn (pid (procs s p)) = i))"

definition hashed :: "(nat \<Rightarrow> nat list) \<Rightarrow> nat set" where
  "hashed B = (\<Union>i<HASH_LIST_SIZE. set (B i))"

lemma find_proc_loop_ok:
  assumes "dlist (klinks s) (Hash_list i) (map Hash_link (as @ bs))"
  shows "find_proc_loop (Hash_list i) (last (Hash_list i # map Hash_link as)) n s =
    Some (find (\<lambda>p. pid (procs s p) = n) bs)"
  using assms
proof (induction bs arbitrary: as)
  case Nil
  then show ?case
    using ll.succ_holds [of "klinks s" "Hash_list i" "map Hash_link as" "[]"]
    by (subst find_proc_loop.simps) simp
next
  case (Cons b bs)
  have nx: "list_next (last (Hash_list i # map Hash_link as)) (klinks s) = Hash_link b"
    using ll.succ_holds [of "klinks s" "Hash_list i" "map Hash_link as" "map Hash_link (b # bs)"] Cons.prems by simp
  show ?case
    unfolding find_proc_loop.simps [of "Hash_list i" "last (Hash_list i # map Hash_link as)" n s, unfolded nx Let_def]
    using Cons.IH [of "as @ [b]"] Cons.prems by simp
qed

lemma find_proc_ok:
  assumes t: "hash_table_is s B" and d: "inj_on (\<lambda>p. pid (procs s p)) (hashed B)"
  shows "\<exists>r. find_proc n s = Some r \<and>
    (case r of
       Some p \<Rightarrow> p \<in> hashed B \<and> pid (procs s p) = n \<and> 0 < n \<and> n < MAX_PID
     | None \<Rightarrow> (0 < n \<and> n < MAX_PID \<longrightarrow> (\<forall>p\<in>hashed B. pid (procs s p) \<noteq> n)))"
proof (cases "0 < n \<and> n < MAX_PID")
  case True
  let ?i = "pid_hashfn n"
  have "dlist (klinks s) (Hash_list ?i) (map Hash_link ([] @ B ?i))"
    using t pid_hashfn_bound by (simp add: hash_table_is_def)
  then have e: "find_proc n s = Some (find (\<lambda>p. pid (procs s p) = n) (B ?i))"
    using True find_proc_loop_ok [of s ?i "[]" "B ?i" n] by (simp add: find_proc_def Let_def)
  show ?thesis
  proof (cases "find (\<lambda>p. pid (procs s p) = n) (B ?i)")
    case None
    then have "\<forall>p\<in>hashed B. pid (procs s p) \<noteq> n"
      using t by (auto simp: find_None_iff hashed_def hash_table_is_def)
    then show ?thesis using e None by simp
  next
    case (Some p)
    then have "p \<in> set (B ?i)" "pid (procs s p) = n" by (auto simp: find_Some_iff)
    then show ?thesis using e True Some pid_hashfn_bound [of n] by (auto simp: hashed_def)
  qed
qed (auto simp: find_proc_def)

lemma hash_bucket:
  assumes "hash_table_is s B" "i < HASH_LIST_SIZE"
  shows "dlist (klinks s) (Hash_list i) (map Hash_link (B i))" "p \<in> set (B i) \<Longrightarrow> pid_hashfn (pid (procs s p)) = i"
  using assms by (simp_all add: hash_table_is_def)

lemma hash_proc_ok:
  assumes t: "hash_table_is s B" and p: "p \<notin> hashed B"
  defines "i \<equiv> pid_hashfn (pid (procs s p))"
  shows "hash_table_is (hash_proc p s) (B(i := p # B i))" "hashed (B(i := p # B i)) = insert p (hashed B)"
proof -
  have i: "i < HASH_LIST_SIZE" unfolding i_def by (rule pid_hashfn_bound)
  have n: "p \<notin> set (B j)" if "j < HASH_LIST_SIZE" for j using p that by (auto simp: hashed_def)
  show "hashed (B(i := p # B i)) = insert p (hashed B)" using i by (auto simp: hashed_def split: if_splits)
  have same: "dlist (klinks (hash_proc p s)) d zs"
    if "dlist (klinks s) d zs" "Hash_list i \<notin> set (d # zs)" "Hash_link p \<notin> set (d # zs)"
      "\<forall>x\<in>set (B i). Hash_link x \<notin> set (d # zs)" for d zs
  proof (rule ll.holds_frame [OF that(1)])
    fix z assume z: "z \<in> set (d # zs)"
    have h: "dlist (klinks s) (Hash_list i) ([] @ map Hash_link (B i))" using t i by (simp add: hash_table_is_def)
    show "nxt (klinks (hash_proc p s)) z = nxt (klinks s) z \<and> prv (klinks (hash_proc p s)) z = prv (klinks s) z"
      using list_add_after_frame [OF h, of z "Hash_link p"] z that(2-4)
      by (auto simp: hash_proc_def i_def [symmetric] kst_simps list_add_fields)
  qed
  show "hash_table_is (hash_proc p s) (B(i := p # B i))"
    unfolding hash_table_is_def
  proof (intro allI impI conjI)
    fix j assume j: "j < HASH_LIST_SIZE"
    show "\<forall>q\<in>set ((B(i := p # B i)) j). pid_hashfn (pid (procs (hash_proc p s) q)) = j"
      using t j by (auto simp: hash_table_is_def hash_proc_def kst_simps i_def)
    show "dlist (klinks (hash_proc p s)) (Hash_list j) (map Hash_link ((B(i := p # B i)) j))"
    proof (cases "j = i")
      case True
      then show ?thesis
        using ll.add_after_holds [of "klinks s" "Hash_list i" "[]" "map Hash_link (B i)" "Hash_link p"] t i n [OF i]
        by (auto simp: hash_table_is_def hash_proc_def kst_simps list_add_fields i_def)
    next
      case False
      have "\<forall>x\<in>set (B i). x \<notin> set (B j)"
        using hash_bucket(2) [OF t i] hash_bucket(2) [OF t j] False by blast
      then show ?thesis using t j False n [OF j] by (auto simp: hash_table_is_def intro!: same)
    qed
  qed
qed

lemma unhash_proc_ok:
  assumes t: "hash_table_is s B" and i: "i < HASH_LIST_SIZE" and b: "B i = xs @ p # ys"
  shows "hash_table_is (unhash_proc p s) (B(i := xs @ ys))"
proof -
  have h: "dlist (klinks s) (Hash_list i) (map Hash_link xs @ Hash_link p # map Hash_link ys)"
    using hash_bucket(1) [OF t i] b by simp
  have other: "dlist (klinks (unhash_proc p s)) (Hash_list j) (map Hash_link (B j))"
    if "j < HASH_LIST_SIZE" "j \<noteq> i" for j
  proof (rule ll.holds_frame)
    show "dlist (klinks s) (Hash_list j) (map Hash_link (B j))" using t that(1) by (simp add: hash_table_is_def)
    fix z assume "z \<in> set (Hash_list j # map Hash_link (B j))"
    moreover have "\<forall>x\<in>set (B i). x \<notin> set (B j)"
      using hash_bucket(2) [OF t i] hash_bucket(2) [OF t that(1)] that(2) by blast
    ultimately have "z \<notin> set (Hash_list i # map Hash_link xs @ map Hash_link ys)" using b that(2) by auto
    then show "nxt (klinks (unhash_proc p s)) z = nxt (klinks s) z \<and> prv (klinks (unhash_proc p s)) z = prv (klinks s) z"
      using list_del_frame [OF h] by (simp add: unhash_proc_def kst_simps)
  qed
  then show ?thesis
    using t ll.del_holds [OF h] b unfolding hash_table_is_def
    by (auto simp: unhash_proc_def kst_simps)
qed

subsection \<open>Family links\<close>

definition first :: "nat list \<Rightarrow> nat option" where
  "first cs = (case cs of [] \<Rightarrow> None | c # _ \<Rightarrow> Some c)"

definition last_or :: "nat option \<Rightarrow> nat list \<Rightarrow> nat option" where
  "last_or y cs = (if cs = [] then y else Some (last cs))"

text \<open>
  \<open>sibs ps y cs z\<close>: the \<open>optr\<close> and \<open>yptr\<close> fields link the siblings \<open>cs\<close>, youngest first, between \<open>y\<close> and \<open>z\<close>.
  \<open>children_from s p y cs\<close>: \<open>cs\<close> are the children of \<open>p\<close>; the youngest has \<open>yptr\<close> \<open>y\<close>.
\<close>

fun sibs :: "(nat \<Rightarrow> proc_struct) \<Rightarrow> nat option \<Rightarrow> nat list \<Rightarrow> nat option \<Rightarrow> bool" where
  "sibs ps y [] z \<longleftrightarrow> True"
| "sibs ps y (c # cs) z \<longleftrightarrow> yptr (ps c) = y \<and> optr (ps c) = (if cs = [] then z else first cs) \<and> sibs ps (Some c) cs z"

definition children_from :: "kst \<Rightarrow> nat \<Rightarrow> nat option \<Rightarrow> nat list \<Rightarrow> bool" where
  "children_from s p y cs \<longleftrightarrow> cptr (procs s p) = first cs \<and> sibs (procs s) y cs None \<and> distinct cs \<and>
     (\<forall>c\<in>set cs. parent (procs s c) = Some p)"

abbreviation children :: "kst \<Rightarrow> nat \<Rightarrow> nat list \<Rightarrow> bool" where
  "children s p cs \<equiv> children_from s p None cs"

lemma first_simps [simp]: "first [] = None" "first (c # cs) = Some c"
  by (simp_all add: first_def)

lemma sibs_append:
  "sibs ps y (as @ bs) z \<longleftrightarrow> sibs ps y as (if bs = [] then z else first bs) \<and> sibs ps (last_or y as) bs z"
  by (induction as arbitrary: y) (auto simp: last_or_def first_def split: list.splits)

lemma sibs_cong:
  "(\<And>c. c \<in> set cs \<Longrightarrow> yptr (ps' c) = yptr (ps c) \<and> optr (ps' c) = optr (ps c)) \<Longrightarrow> sibs ps' y cs z = sibs ps y cs z"
  by (induction cs arbitrary: y) auto

lemma sibs_head:
  assumes "sibs ps y cs z" "distinct cs" "cs \<noteq> []"
    "\<And>c. c \<in> set cs \<Longrightarrow> optr (ps' c) = optr (ps c) \<and> (c \<noteq> hd cs \<longrightarrow> yptr (ps' c) = yptr (ps c))"
    "yptr (ps' (hd cs)) = y'"
  shows "sibs ps' y' cs z"
proof (cases cs)
  case (Cons c ds)
  then have "sibs ps' (Some c) ds z = sibs ps (Some c) ds z"
    using assms(2,4) by (intro sibs_cong) auto
  then show ?thesis using assms Cons by auto
qed (use assms in simp)

lemma sibs_last:
  assumes "sibs ps y (cs @ [l]) z" "distinct (cs @ [l])"
    "\<And>c. c \<in> set (cs @ [l]) \<Longrightarrow> yptr (ps' c) = yptr (ps c) \<and> (c \<noteq> l \<longrightarrow> optr (ps' c) = optr (ps c))"
    "optr (ps' l) = z'"
  shows "sibs ps' y (cs @ [l]) z'"
proof -
  have "sibs ps' y cs (Some l) = sibs ps y cs (Some l)"
    using assms(2,3) by (intro sibs_cong) auto
  then show ?thesis using assms by (simp add: sibs_append)
qed

lemma proc_list_add:
  assumes "proc_list_is s ps" "p \<notin> set ps"
  shows "proc_list_is (upd_klinks (list_add Proc_list (List_link p)) s) (p # ps)"
  using ll.add_after_holds [of "klinks s" Proc_list "[]" "map List_link ps" "List_link p"] assms
  by (auto simp: proc_list_is_def kst_simps list_add_fields)

lemma set_links_ok:
  assumes l: "proc_list_is s ps" "p \<notin> set ps" and par: "parent (procs s p) = Some r" "r \<noteq> p"
    and c: "children s r cs" "p \<notin> set cs"
  shows "\<exists>t. set_links p s = Some t \<and> proc_list_is t (p # ps) \<and> children t r (p # cs) \<and>
    nr_process t = nr_process s + 1 \<and>
    (\<forall>q ds. q \<noteq> r \<and> q \<noteq> p \<and> p \<notin> set ds \<and> set ds \<inter> set cs = {} \<longrightarrow> children s q ds \<longrightarrow> children t q ds)"
proof -
  let ?u = "upd_klinks (list_add Proc_list (List_link p)) s"
  define old where "old = first cs"
  define t where "t = (upd_proc r (\<lambda>d. d\<lparr>cptr := Some p\<rparr>) ((case old of Some o' \<Rightarrow> upd_proc o' (\<lambda>d. d\<lparr>yptr := Some p\<rparr>)
      | None \<Rightarrow> id) (upd_proc p (\<lambda>d. d\<lparr>yptr := None, optr := old\<rparr>) ?u)))\<lparr>nr_process := nr_process s + 1\<rparr>"
  have np: "nr_process (upd_proc x f v) = nr_process v" "nr_process (upd_klinks g v) = nr_process v" for x f v g
    by (simp_all add: upd_proc_def upd_klinks_def)
  have cp: "cptr (procs s r) = old" using c(1) by (simp add: children_from_def old_def)
  have e: "set_links p s = Some t"
    using par cp by (auto simp: set_links_def Let_def t_def kst_simps np upd_proc_def upd_klinks_def split: option.splits)
  have y: "yptr (procs t q) = (if q = p \<and> old \<noteq> Some p then None else if old = Some q then Some p else yptr (procs s q))"
    and o: "optr (procs t q) = (if q = p then old else optr (procs s q))"
    and rest: "parent (procs t q) = parent (procs s q)" "cptr (procs t q) = (if q = r then Some p else cptr (procs s q))" for q
    by (auto simp: t_def kst_simps split: option.splits)
  have pl: "proc_list_is t (p # ps)"
    using proc_list_add [OF l] by (auto simp: t_def proc_list_is_def kst_simps split: option.splits)
  have "sibs (procs t) (Some p) cs None"
  proof (cases cs)
    case (Cons x xs)
    show ?thesis
      by (rule sibs_head [of "procs s" None]) (use c Cons old_def in \<open>auto simp: children_from_def y o\<close>)
  qed simp
  then have ch: "children t r (p # cs)"
    using c par by (auto simp: children_from_def y o rest old_def first_def split: list.splits)
  have "children t q ds" if q: "q \<noteq> r" "q \<noteq> p" "p \<notin> set ds" "set ds \<inter> set cs = {}" "children s q ds" for q ds
  proof -
    have "old \<noteq> Some x" if "x \<in> set ds" for x using q(4) that by (auto simp: old_def first_def split: list.splits)
    then have "sibs (procs t) None ds None = sibs (procs s) None ds None" using q(3) by (intro sibs_cong) (auto simp: y o)
    then show ?thesis using q by (simp add: children_from_def rest)
  qed
  then show ?thesis using e pl ch by (auto simp: t_def)
qed

lemma nr_process_upd [kst_simps]:
  "nr_process (upd_proc x f v) = nr_process v" "nr_process (upd_klinks g v) = nr_process v"
  "initproc (upd_proc x f v) = initproc v" "initproc (upd_klinks g v) = initproc v"
  by (simp_all add: upd_proc_def upd_klinks_def)

lemma remove_links_ok:
  assumes l: "proc_list_is s (ps @ p # qs)" and par: "parent (procs s p) = Some r" "r \<noteq> p"
    and c: "children s r (as @ p # bs)"
  shows "\<exists>t. remove_links p s = Some t \<and> proc_list_is t (ps @ qs) \<and> children t r (as @ bs) \<and>
    nr_process t = nr_process s - 1 \<and>
    (\<forall>q ds. q \<noteq> r \<and> set ds \<inter> set (as @ bs) = {} \<longrightarrow> children s q ds \<longrightarrow> children t q ds)"
proof -
  have sp: "yptr (procs s p) = last_or None as" "optr (procs s p) = first bs" "p \<notin> set as" "p \<notin> set bs" "distinct (as @ bs)"
    "sibs (procs s) None as (Some p)" "sibs (procs s) (Some p) bs None" "cptr (procs s r) = first (as @ [p])"
    using c by (simp_all add: children_from_def sibs_append) (cases as; simp)
  define u where "u = upd_klinks (list_del (List_link p)) s"
  define v where "v = (case first bs of Some o' \<Rightarrow> upd_proc o' (\<lambda>d. d\<lparr>yptr := last_or None as\<rparr>) u | None \<Rightarrow> u)"
  define t where "t = (case last_or None as of
      Some y \<Rightarrow> upd_proc y (\<lambda>d. d\<lparr>optr := first bs\<rparr>) v
    | None \<Rightarrow> upd_proc r (\<lambda>d. d\<lparr>cptr := first bs\<rparr>) v)\<lparr>nr_process := nr_process s - 1\<rparr>"
  have ne: "first bs \<noteq> Some p" "last_or None as \<noteq> Some p"
    using sp(3,4) by (auto simp: first_def last_or_def split: list.splits)
  have e: "remove_links p s = Some t"
    using sp(1,2) par ne
    by (cases "first bs"; cases "last_or None as") (simp_all add: remove_links_def Let_def t_def v_def u_def kst_simps)
  have asn: "as = [] \<longleftrightarrow> last_or None as = None" by (simp add: last_or_def)
  have y: "yptr (procs t q) = (if first bs = Some q then last_or None as else yptr (procs s q))"
    and o: "optr (procs t q) = (if last_or None as = Some q then first bs else optr (procs s q))"
    and rest: "parent (procs t q) = parent (procs s q)" 
      "cptr (procs t q) = (if as = [] \<and> q = r then first bs else cptr (procs s q))" for q
    by (cases "first bs"; cases "last_or None as"; simp add: t_def v_def u_def kst_simps asn)+
  have fb: "first bs \<noteq> Some x" if "x \<in> set as" for x
    using sp(5) that by (cases bs) auto
  have la: "last_or None as \<noteq> Some x" if "x \<in> set bs" for x
    using sp(5) that by (cases as rule: rev_cases) (auto simp: last_or_def)
  have "sibs (procs t) None as (first bs)"
  proof (cases as rule: rev_cases)
    case (snoc as' a)
    show ?thesis unfolding snoc
    proof (rule sibs_last [of "procs s" None as' a "Some p"])
      show "yptr (procs t x) = yptr (procs s x) \<and> (x \<noteq> a \<longrightarrow> optr (procs t x) = optr (procs s x))"
        if "x \<in> set (as' @ [a])" for x
        using fb [of x] that snoc by (simp add: y o last_or_def)
      show "optr (procs t a) = first bs" using snoc by (simp add: o last_or_def)
      show "sibs (procs s) None (as' @ [a]) (Some p)" "distinct (as' @ [a])" using sp(5,6) snoc by simp_all
    qed
  qed simp
  moreover have "sibs (procs t) (last_or None as) bs None"
  proof (cases bs)
    case (Cons b bs')
    show ?thesis
    proof (rule sibs_head [OF sp(7)])
      show "optr (procs t x) = optr (procs s x) \<and> (x \<noteq> hd bs \<longrightarrow> yptr (procs t x) = yptr (procs s x))"
        if "x \<in> set bs" for x
        using la [OF that] Cons by (simp add: y o)
    qed (use Cons sp(5) in \<open>simp_all add: y\<close>)
  qed simp
  ultimately have "sibs (procs t) None (as @ bs) None"
    by (cases "bs = []") (auto simp: sibs_append)
  moreover have "cptr (procs t r) = first (as @ bs)" using sp(8) by (cases as) (simp_all add: rest)
  ultimately have ch: "children t r (as @ bs)"
    using c sp(5) by (auto simp: children_from_def rest)
  have pl: "proc_list_is t (ps @ qs)"
    using ll.del_holds [of "klinks s" Proc_list "map List_link ps" "List_link p" "map List_link qs"] l
    by (auto simp: t_def v_def u_def proc_list_is_def kst_simps split: option.splits)
  have "children t q ds" if q: "q \<noteq> r" "set ds \<inter> set (as @ bs) = {}" "children s q ds" for q ds
  proof -
    have "first bs \<noteq> Some x \<and> last_or None as \<noteq> Some x" if "x \<in> set ds" for x
      using q(2) that by (auto simp: first_def last_or_def split: list.splits)
    then have "sibs (procs t) None ds None = sibs (procs s) None ds None" by (intro sibs_cong) (auto simp: y o)
    then show ?thesis using q by (simp add: children_from_def rest)
  qed
  then show ?thesis using e pl ch by (auto simp: t_def)
qed

subsection \<open>The searches of \<open>do_wait\<close>\<close>

lemma zombie_loop_ok:
  assumes "sibs (procs s) y cs None"
  shows "zombie_loop (first cs) h s = Some (find (\<lambda>c. state (procs s c) = PROC_ZOMBIE) cs, h \<or> cs \<noteq> [])"
  using assms
proof (induction cs arbitrary: y h)
  case Nil
  then show ?case by (subst zombie_loop.simps) simp
next
  case (Cons c cs)
  then have "optr (procs s c) = first cs" by (auto split: if_splits)
  then show ?case using Cons by (subst zombie_loop.simps) auto
qed

lemma wait_search_any:
  assumes "current s = Some c" "children s c cs"
  shows "wait_search 0 s = Some (find (\<lambda>k. state (procs s k) = PROC_ZOMBIE) cs, cs \<noteq> [])"
  using assms zombie_loop_ok [of s None cs False] by (simp add: wait_search_def children_from_def)

lemma wait_search_pid:
  assumes "current s = Some c" "find_proc n s = Some r" "n \<noteq> 0"
  shows "wait_search n s = Some (case r of
     Some p \<Rightarrow> (if parent (procs s p) = Some c \<and> state (procs s p) = PROC_ZOMBIE then Some p else None,
       parent (procs s p) = Some c)
   | None \<Rightarrow> (None, False))"
  using assms by (auto simp: wait_search_def split: option.splits)

subsection \<open>Handing the children of an exiting process to \<open>initproc\<close>\<close>

lemma keeps_children: "keeps s t \<Longrightarrow> children_from s p y cs \<Longrightarrow> children_from t p y cs"
  unfolding children_from_def keeps_def identity_def
  by (auto intro: sibs_cong [THEN iffD2])

text \<open>The relinking of one child \<open>c\<close> of \<open>cur\<close> to \<open>ini\<close>, without the wake-up.\<close>

definition relink :: "nat \<Rightarrow> nat \<Rightarrow> nat \<Rightarrow> nat option \<Rightarrow> nat option \<Rightarrow> kst \<Rightarrow> kst" where
  "relink cur ini c nx old s =
     (let u = upd_proc c (\<lambda>d. d\<lparr>yptr := None\<rparr>) (upd_proc cur (\<lambda>d. d\<lparr>cptr := nx\<rparr>) s);
          u = upd_proc c (\<lambda>d. d\<lparr>optr := old\<rparr>) u;
          u = (case old of None \<Rightarrow> u | Some o' \<Rightarrow> upd_proc o' (\<lambda>d. d\<lparr>yptr := Some c\<rparr>) u)
      in upd_proc ini (\<lambda>d. d\<lparr>cptr := Some c\<rparr>) (upd_proc c (\<lambda>d. d\<lparr>parent := Some ini\<rparr>) u))"

lemma relink_fields:
  "cptr (procs (relink cur ini c nx old s) q) = (if q = ini then Some c else if q = cur then nx else cptr (procs s q))"
  "yptr (procs (relink cur ini c nx old s) q) =
     (if old = Some q then Some c else if q = c then None else yptr (procs s q))"
  "optr (procs (relink cur ini c nx old s) q) = (if q = c then old else optr (procs s q))"
  "parent (procs (relink cur ini c nx old s) q) = (if q = c then Some ini else parent (procs s q))"
  by (cases old; simp add: relink_def Let_def kst_simps)+

lemma relink_same [kst_simps]:
  "state (procs (relink cur ini c nx old s) q) = state (procs s q)"
  "wait_state (procs (relink cur ini c nx old s) q) = wait_state (procs s q)"
  "pid (procs (relink cur ini c nx old s) q) = pid (procs s q)"
  "klinks (relink cur ini c nx old s) = klinks s" "current (relink cur ini c nx old s) = current s"
  "idleproc (relink cur ini c nx old s) = idleproc s" "initproc (relink cur ini c nx old s) = initproc s"
  by (cases old; simp add: relink_def Let_def kst_simps)+

lemma relink_run_same: "run_same s (relink cur ini c nx old s)"
  by (cases old; simp add: run_same_def relink_def Let_def kst_simps)

lemma reparent_unfold:
  assumes "current s = Some cur" "initproc s = Some ini" "ini \<noteq> cur" "ini \<noteq> c" "cptr (procs s cur) = Some c"
    and "cptr (procs s ini) = old" "optr (procs s c) = nx"
  shows "reparent_loop cls s = do {
     v \<leftarrow> (let u = relink cur ini c nx old s in
           if state (procs u c) = PROC_ZOMBIE \<and> wait_state (procs u ini) = WT_CHILD then wakeup_proc cls ini u else Some u);
     reparent_loop cls v }"
proof -
  have o: "cptr (procs (upd_proc c (\<lambda>d. d\<lparr>yptr := None\<rparr>) (upd_proc cur (\<lambda>d. d\<lparr>cptr := nx\<rparr>) s)) ini) = old"
    using assms(3,4,6) by (auto simp: kst_simps)
  show ?thesis
    unfolding reparent_loop.simps [of cls s] relink_def
    using assms o by (cases old) (simp_all add: Let_def kst_simps)
qed

lemma relink_children:
  assumes c: "children_from s cur y (c # cs)" "children s ini ds" and ne: "ini \<noteq> cur" "c \<notin> set ds" "set cs \<inter> set ds = {}"
  shows "children_from (relink cur ini c (first cs) (first ds) s) cur (Some c) cs"
    "children (relink cur ini c (first cs) (first ds) s) ini (c # ds)"
proof -
  let ?t = "relink cur ini c (first cs) (first ds) s"
  have fd: "first ds \<noteq> Some x" if "x \<notin> set ds" for x using that by (cases ds) auto
  note p = relink_fields
  have cs: "c \<notin> set cs" "distinct cs" "sibs (procs s) (Some c) cs None" "\<forall>x\<in>set cs. parent (procs s x) = Some cur"
    using c(1) by (simp_all add: children_from_def)
  have "sibs (procs ?t) (Some c) cs None = sibs (procs s) (Some c) cs None"
    using cs(1) ne(3) fd by (intro sibs_cong) (auto simp: p)
  then show "children_from ?t cur (Some c) cs"
    using cs ne(1) by (auto simp: children_from_def p)
  have "sibs (procs ?t) (Some c) ds None"
  proof (cases "ds = []")
    case False
    have s: "sibs (procs s) None ds None" "distinct ds" using c(2) by (simp_all add: children_from_def)
    show ?thesis
    proof (rule sibs_head [OF s False])
      show "yptr (procs ?t (hd ds)) = Some c" using False by (cases ds) (simp_all add: p)
      show "optr (procs ?t x) = optr (procs s x) \<and> (x \<noteq> hd ds \<longrightarrow> yptr (procs ?t x) = yptr (procs s x))"
        if "x \<in> set ds" for x
        using that ne(2) by (cases ds) (auto simp: p)
    qed
  qed simp
  then show "children ?t ini (c # ds)"
    using c(2) ne(2) fd [OF ne(2)] by (auto simp: children_from_def p)
qed

context sched_class
begin

lemma reparent_ok:
  assumes "inv A s" "current s = Some cur" "initproc s = Some ini" "ini \<in> A" "ini \<noteq> cur"
    "state (procs s ini) \<noteq> PROC_ZOMBIE" "children_from s cur y cs" "children s ini ds"
    "set cs \<inter> set ds = {}" "ini \<notin> set cs"
  shows "\<exists>t. reparent_loop cls s = Some t \<and> inv A t \<and> current t = Some cur \<and> initproc t = Some ini \<and>
    cptr (procs t cur) = None \<and> children t ini (rev cs @ ds) \<and>
    (\<forall>q. state (procs t q) = (if q = ini \<and> wait_state (procs s ini) = WT_CHILD \<and> (\<exists>c\<in>set cs. state (procs s c) = PROC_ZOMBIE)
       then PROC_RUNNABLE else state (procs s q))) \<and>
    (\<forall>q. pid (procs t q) = pid (procs s q)) \<and>
    (\<forall>d zs. foreign (d # zs) \<longrightarrow> dlist (klinks s) d zs \<longrightarrow> dlist (klinks t) d zs)"
  using assms
proof (induction cs arbitrary: s y ds)
  case Nil
  then have "reparent_loop cls s = Some s" by (subst reparent_loop.simps) (simp add: children_from_def)
  then show ?case using Nil by (auto simp: children_from_def)
next
  case (Cons c cs)
  define u where "u = relink cur ini c (first cs) (first ds) s"
  have cp: "cptr (procs s cur) = Some c" "optr (procs s c) = first cs" "cptr (procs s ini) = first ds"
    using Cons.prems(7,8) by (auto simp: children_from_def)
  have cd: "c \<notin> set ds" "set cs \<inter> set ds = {}" "ini \<notin> set cs" "c \<notin> set cs" "ini \<noteq> c"
    using Cons.prems(7,9,10) by (auto simp: children_from_def)
  note ch = relink_children [OF Cons.prems(7,8,5) cd(1,2), folded u_def]
  have iu: "inv A u"
    unfolding u_def by (rule inv_unchanged [OF Cons.prems(1) relink_run_same]) (simp_all add: kst_simps)
  have up: "state (procs u q) = state (procs s q)" "wait_state (procs u q) = wait_state (procs s q)"
    "pid (procs u q) = pid (procs s q)" "klinks u = klinks s" "current u = Some cur" "initproc u = Some ini" for q
    using Cons.prems(2,3) by (simp_all add: u_def kst_simps)
  obtain v where v: "(if state (procs u c) = PROC_ZOMBIE \<and> wait_state (procs u ini) = WT_CHILD
      then wakeup_proc cls ini u else Some u) = Some v" "inv A v" "keeps u v" "current v = current u"
    "\<forall>q. state (procs v q) = (if q = ini \<and> state (procs s c) = PROC_ZOMBIE \<and> wait_state (procs s ini) = WT_CHILD
       then PROC_RUNNABLE else state (procs s q))"
    "wait_state (procs v ini) = WT_CHILD \<longrightarrow> wait_state (procs s ini) = WT_CHILD"
    "wait_state (procs s ini) = WT_CHILD \<longrightarrow> wait_state (procs v ini) = WT_CHILD \<or> state (procs s c) = PROC_ZOMBIE"
  proof (cases "state (procs u c) = PROC_ZOMBIE \<and> wait_state (procs u ini) = WT_CHILD")
    case True
    then show ?thesis
      using wakeup_inv [OF iu Cons.prems(4)] Cons.prems(6) up(1,2) by (auto intro!: that split: if_splits)
  next
    case False
    then show ?thesis using iu up by (intro that [of u]) auto
  qed
  have loop: "reparent_loop cls s = reparent_loop cls v"
    using reparent_unfold [OF Cons.prems(2,3,5) cd(5) cp(1,3,2)] v(1) by (simp add: u_def [symmetric])
  note kv = keepsD [OF v(3)]
  have pv: "pid (procs v q) = pid (procs s q)" for q using kv(5) [of q] up(3) by (simp add: identity_def)
  have ini_v: "initproc v = Some ini" using v(3) up(6) by (simp add: keeps_def)
  have nz: "state (procs v ini) \<noteq> PROC_ZOMBIE" using v(5) Cons.prems(6) by simp
  obtain t where t: "reparent_loop cls v = Some t" "inv A t" "current t = Some cur" "initproc t = Some ini"
    "cptr (procs t cur) = None" "children t ini (rev cs @ c # ds)"
    "\<forall>q. state (procs t q) = (if q = ini \<and> wait_state (procs v ini) = WT_CHILD \<and> (\<exists>c\<in>set cs. state (procs v c) = PROC_ZOMBIE)
       then PROC_RUNNABLE else state (procs v q))"
    "\<forall>q. pid (procs t q) = pid (procs v q)"
    "\<forall>d zs. foreign (d # zs) \<longrightarrow> dlist (klinks v) d zs \<longrightarrow> dlist (klinks t) d zs"
    using Cons.IH [of v "Some c" "c # ds"] v(2,4) up(5) ini_v Cons.prems(4,5) nz cd
      keeps_children [OF v(3) ch(1)] keeps_children [OF v(3) ch(2)] by auto
  have "state (procs v x) = state (procs s x)" if "x \<in> set cs" for x using v(5) cd(3) that by auto
  then have st: "state (procs t q) = (if q = ini \<and> wait_state (procs s ini) = WT_CHILD \<and>
      (\<exists>x\<in>set (c # cs). state (procs s x) = PROC_ZOMBIE) then PROC_RUNNABLE else state (procs s q))" for q
    using t(7) v(5-7) by auto
  have "dlist (klinks t) d zs" if "foreign (d # zs)" "dlist (klinks s) d zs" for d zs
    using t(9) kv(4) [OF that(1)] that up(4) by simp
  then show ?case using loop t st pv by simp
qed

end

subsection \<open>Properties\<close>

text \<open>
  C17: \<open>get_pid\<close> returns, whatever the order of the process list, as long as the list leaves a pid free (do_fork
  keeps it below \<open>MAX_PROCESS\<close>): the result is between 1 and \<open>MAX_PID - 1\<close> and no listed process has it; only
  the two static variables change, and the window they keep stays free for the following calls.
\<close>

theorem get_pid_fresh:
  assumes "proc_list_is s ps" and "int (length ps) \<le> MAX_PROCESS" and "pid_window s ps"
  shows "\<exists>r t. get_pid s = Some (r, t) \<and> t = s\<lparr>last_pid := r, next_safe := next_safe t\<rparr> \<and>
    1 \<le> r \<and> r < MAX_PID \<and> (\<forall>p\<in>set ps. pid (procs s p) \<noteq> r) \<and> pid_window t ps"
proof -
  have "length ps < nat (MAX_PID - 1)" using assms(2) by (simp add: MAX_PID_def MAX_PROCESS_def)
  then obtain f where "1 \<le> f" "f < MAX_PID" "\<forall>p\<in>set ps. pid (procs s p) \<noteq> f"
    using free_pid_exists [of ps "\<lambda>p. pid (procs s p)"] by blast
  then show ?thesis using get_pid_ok [OF assms(1) _ _ _ assms(3)] by blast
qed

definition demo_pids :: kst where
  "demo_pids = demo_kst\<lparr>procs := (\<lambda>p. demo_proc\<lparr>pid := int p\<rparr>), last_pid := 8191, next_safe := 8192,
     klinks := list_add Proc_list (List_link 2) (list_add Proc_list (List_link 1) (list_init Proc_list (klinks demo_kst)))\<rparr>"

lemma demo_pids_list: "proc_list_is demo_pids [2, 1]"
  by (simp add: proc_list_is_def dlist_def demo_pids_def link_simps)

theorem get_pid_fresh_witness:
  "\<exists>r t. get_pid demo_pids = Some (r, t) \<and> 3 \<le> r \<and> r < MAX_PID"
  using get_pid_fresh [OF demo_pids_list]
  by (fastforce simp: pid_window_def demo_pids_def MAX_PID_def MAX_PROCESS_def)

lemma do_kill_found:
  assumes "find_proc n s = Some (Some p)"
  shows "do_kill cls n s =
    (if pflags (procs s p) AND PF_EXITING = 0
     then map_option (Pair 0)
       (if wait_state (procs s p) AND WT_INTERRUPTED \<noteq> 0
        then wakeup_proc cls p (upd_proc p (\<lambda>d. d\<lparr>pflags := pflags d OR PF_EXITING\<rparr>) s)
        else Some (upd_proc p (\<lambda>d. d\<lparr>pflags := pflags d OR PF_EXITING\<rparr>) s))
     else Some (- E_KILLED, s))"
  by (simp add: do_kill_def assms Let_def kst_simps map_conv_bind_option comp_def)

text \<open>
  C18: \<open>do_kill\<close> finds the process with the given pid through the hash table: with none the result is
  \<open>-E_INVAL\<close>, for one already marked \<open>-E_KILLED\<close>, both without effect; otherwise it is marked, and woken if its
  wait can be interrupted. The process queue stays exact.
\<close>

theorem do_kill_correct:
  assumes "kernel_class cls ready detached" and "sched_inv ready detached A s" and "hash_table_is s B"
    and "inj_on (\<lambda>p. pid (procs s p)) (hashed B)" and "hashed B \<subseteq> A"
    and "\<forall>p\<in>hashed B. state (procs s p) = PROC_ZOMBIE \<longrightarrow> wait_state (procs s p) AND WT_INTERRUPTED = 0"
    and "0 < n" and "n < MAX_PID"
  shows "\<exists>r t. do_kill cls n s = Some (r, t) \<and> sched_inv ready detached A t \<and>
    ((\<forall>p\<in>hashed B. pid (procs s p) \<noteq> n) \<longrightarrow> r = - E_INVAL \<and> t = s) \<and>
    (\<forall>p\<in>hashed B. pid (procs s p) = n \<longrightarrow>
      (if pflags (procs s p) AND PF_EXITING \<noteq> 0 then r = - E_KILLED \<and> t = s
       else r = 0 \<and> pflags (procs t p) = pflags (procs s p) OR PF_EXITING \<and>
         (wait_state (procs s p) AND WT_INTERRUPTED \<noteq> 0 \<longrightarrow> state (procs t p) = PROC_RUNNABLE)))"
proof -
  note sc = four_classes [OF assms(1)]
  obtain r where r: "find_proc n s = Some r"
    "case r of Some p \<Rightarrow> p \<in> hashed B \<and> pid (procs s p) = n \<and> 0 < n \<and> n < MAX_PID
      | None \<Rightarrow> (0 < n \<and> n < MAX_PID \<longrightarrow> (\<forall>p\<in>hashed B. pid (procs s p) \<noteq> n))"
    using find_proc_ok [OF assms(3,4)] by blast
  show ?thesis
  proof (cases r)
    case None
    then show ?thesis using r assms(2,7,8) by (auto simp: do_kill_def)
  next
    case (Some p)
    then have p: "p \<in> hashed B" "pid (procs s p) = n" "p \<in> A" using r(2) assms(5) by auto
    have only: "q = p" if "q \<in> hashed B" "pid (procs s q) = n" for q
      using assms(4) p that by (auto dest: inj_onD)
    define u where "u = upd_proc p (\<lambda>d. d\<lparr>pflags := pflags d OR PF_EXITING\<rparr>) s"
    have iu: "sched_inv ready detached A u"
      by (rule sched_class.inv_unchanged [OF sc assms(2)]) (auto simp: run_same_def u_def kst_simps)
    have up: "state (procs u p) = state (procs s p)" "wait_state (procs u p) = wait_state (procs s p)"
      "pflags (procs u p) = pflags (procs s p) OR PF_EXITING"
      by (simp_all add: u_def kst_simps)
    have "\<exists>r t. do_kill cls n s = Some (r, t) \<and> sched_inv ready detached A t \<and>
      (if pflags (procs s p) AND PF_EXITING \<noteq> 0 then r = - E_KILLED \<and> t = s
       else r = 0 \<and> pflags (procs t p) = pflags (procs s p) OR PF_EXITING \<and>
         (wait_state (procs s p) AND WT_INTERRUPTED \<noteq> 0 \<longrightarrow> state (procs t p) = PROC_RUNNABLE))"
    proof (cases "pflags (procs s p) AND PF_EXITING = 0 \<and> wait_state (procs s p) AND WT_INTERRUPTED \<noteq> 0")
      case True
      then have "state (procs u p) \<noteq> PROC_ZOMBIE" using assms(6) p(1) up(1) by auto
      then obtain t where t: "wakeup_proc cls p u = Some t" "sched_inv ready detached A t" "keeps u t"
        "state (procs t p) = PROC_RUNNABLE"
        using sched_class.wakeup_inv [OF sc iu p(3)] by auto
      have "pflags (procs t p) = pflags (procs s p) OR PF_EXITING"
        using keepsD(5) [OF t(3), of p] up(3) by (simp add: identity_def)
      then show ?thesis using True r(1) Some t by (simp add: do_kill_found u_def)
    next
      case False
      then show ?thesis
        using r(1) Some iu up(3) assms(2) by (cases "pflags (procs s p) AND PF_EXITING = 0") (simp_all add: do_kill_found u_def)
    qed
    then show ?thesis using p(1,2) only by blast
  qed
qed

lemma demo_hash: "hash_table_is demo_kst (\<lambda>_. [])"
  by (simp add: hash_table_is_def dlist_def demo_kst_def)

theorem do_kill_correct_witness:
  "\<exists>t. do_kill default_sched_class 2 (hash_proc 2 (upd_proc 2 (\<lambda>d. d\<lparr>pid := 2\<rparr>) demo_kst)) = Some (0, t) \<and>
     state (procs t 2) = PROC_RUNNABLE"
proof -
  let ?u = "upd_proc 2 (\<lambda>d. d\<lparr>pid := 2\<rparr>) demo_kst"
  let ?B = "(\<lambda>_. [])(pid_hashfn 2 := [2])"
  have "hash_table_is ?u (\<lambda>_. [])" using demo_hash by (simp add: hash_table_is_def kst_simps)
  then have h: "hash_table_is (hash_proc 2 ?u) ?B" "hashed ?B = {2}"
    using hash_proc_ok [of ?u "\<lambda>_. []" 2] by (simp_all add: hashed_def kst_simps)
  have i: "sched_inv rr_ready rr_detached {0, 1, 2} (hash_proc 2 ?u)"
  proof (rule rr.inv_unchanged [OF demo_sched_inv])
    have "dlist (klinks (hash_proc 2 ?u)) d zs" if "run_entries (d # zs)" "dlist (klinks demo_kst) d zs" for d zs
      using that(1) by (intro ll.holds_frame [OF that(2)])
        (auto simp: hash_proc_def kst_simps link_simps run_entries_def demo_kst_def)
    then show "run_same demo_kst (hash_proc 2 ?u)" by (simp add: run_same_def hash_proc_def kst_simps)
  qed (simp_all add: hash_proc_def kst_simps)
  have s: "state (procs (hash_proc 2 ?u) 2) = PROC_SLEEPING" "pid (procs (hash_proc 2 ?u) 2) = 2"
    "wait_state (procs (hash_proc 2 ?u) 2) = WT_TIMER" "pflags (procs (hash_proc 2 ?u) 2) = 0"
    by (simp_all add: hash_proc_def kst_simps demo_kst_def demo_proc_def)
  have w: "WT_TIMER AND WT_INTERRUPTED \<noteq> 0" by (simp add: WT_TIMER_def WT_INTERRUPTED_def)
  show ?thesis
    using do_kill_correct [OF kernel_class_rr i h(1), of 2] h(2) s w
    by (auto simp: MAX_PID_def MAX_PROCESS_def)
qed

text \<open>
  C19: the critical section of \<open>do_exit\<close> returns: the parent is woken if it waits for a child, the children
  become children of \<open>initproc\<close>, youngest last first, and \<open>initproc\<close> is woken if it waits and one of them is
  a zombie; nothing else becomes runnable and the process queue stays exact.
\<close>

theorem exit_notify_hands_over:
  assumes "kernel_class cls ready detached" and "sched_inv ready detached A s"
    and "current s = Some c" and "initproc s = Some ini" and "ini \<in> A" and "ini \<noteq> c"
    and "parent (procs s c) = Some p" and "p \<in> A"
    and "state (procs s p) \<noteq> PROC_ZOMBIE" and "state (procs s ini) \<noteq> PROC_ZOMBIE"
    and "children s c cs" and "children s ini ds" and "set cs \<inter> set ds = {}" and "ini \<notin> set cs" and "p \<notin> set cs"
  shows "\<exists>t. exit_notify cls s = Some t \<and> sched_inv ready detached A t \<and> current t = Some c \<and>
    cptr (procs t c) = None \<and> children t ini (rev cs @ ds) \<and>
    (\<forall>q. state (procs t q) =
      (if q = p \<and> wait_state (procs s p) = WT_CHILD \<or>
          q = ini \<and> wait_state (procs s ini) = WT_CHILD \<and> (\<exists>k\<in>set cs. state (procs s k) = PROC_ZOMBIE)
       then PROC_RUNNABLE else state (procs s q)))"
proof -
  note sc = four_classes [OF assms(1)]
  obtain u where u: "(if wait_state (procs s p) = WT_CHILD then wakeup_proc cls p s else Some s) = Some u"
    "sched_inv ready detached A u" "keeps s u" "current u = current s"
    "\<forall>q. state (procs u q) = (if q = p \<and> wait_state (procs s p) = WT_CHILD then PROC_RUNNABLE else state (procs s q))"
    "wait_state (procs u ini) = WT_CHILD \<longrightarrow> wait_state (procs s ini) = WT_CHILD"
    "wait_state (procs s ini) = WT_CHILD \<longrightarrow> wait_state (procs u ini) = WT_CHILD \<or> ini = p"
  proof (cases "wait_state (procs s p) = WT_CHILD")
    case True
    then show ?thesis
      using sched_class.wakeup_inv [OF sc assms(2,8,9)] by (auto intro!: that split: if_splits)
  next
    case False
    then show ?thesis using assms(2) by (intro that [of s]) auto
  qed
  have ini: "initproc u = Some ini" using u(3) assms(4) by (simp add: keeps_def)
  have "state (procs u ini) \<noteq> PROC_ZOMBIE" using u(5) assms(10) by simp
  then obtain t where t: "reparent_loop cls u = Some t" "sched_inv ready detached A t" "current t = Some c"
    "cptr (procs t c) = None" "children t ini (rev cs @ ds)"
    "\<forall>q. state (procs t q) = (if q = ini \<and> wait_state (procs u ini) = WT_CHILD \<and> (\<exists>k\<in>set cs. state (procs u k) = PROC_ZOMBIE)
       then PROC_RUNNABLE else state (procs u q))"
    using sched_class.reparent_ok [OF sc u(2), of c ini None cs ds] u(4) ini assms(3-6,13,14)
      keeps_children [OF u(3) assms(11)] keeps_children [OF u(3) assms(12)] by auto
  have "state (procs u k) = state (procs s k)" if "k \<in> set cs" for k using u(5) assms(15) that by auto
  then have "state (procs t q) =
      (if q = p \<and> wait_state (procs s p) = WT_CHILD \<or>
          q = ini \<and> wait_state (procs s ini) = WT_CHILD \<and> (\<exists>k\<in>set cs. state (procs s k) = PROC_ZOMBIE)
       then PROC_RUNNABLE else state (procs s q))" for q
  proof -
    have ex: "(\<exists>k\<in>set cs. state (procs u k) = PROC_ZOMBIE) \<longleftrightarrow> (\<exists>k\<in>set cs. state (procs s k) = PROC_ZOMBIE)"
      using \<open>\<And>k. k \<in> set cs \<Longrightarrow> state (procs u k) = state (procs s k)\<close> by simp
    show ?thesis
    proof (cases "ini = p \<and> q = p")
      case True
      then show ?thesis
        using t(6) [rule_format, of q] u(5) [rule_format, of q] u(6) unfolding ex by (simp split: if_splits)
    next
      case False
      then show ?thesis
        using t(6) [rule_format, of q] u(5) [rule_format, of q] u(6,7) unfolding ex
        by (cases "q = ini"; auto split: if_splits)
    qed
  qed
  moreover have "exit_notify cls s = Some t"
    using assms(3,7) u(1) t(1) by (simp add: exit_notify_def)
  ultimately show ?thesis using t by blast
qed

definition demo_family :: kst where
  "demo_family = upd_proc 0 (\<lambda>d. d\<lparr>parent := Some 1, cptr := Some 2\<rparr>)
     (upd_proc 2 (\<lambda>d. d\<lparr>parent := Some 0\<rparr>) (upd_proc 1 (\<lambda>d. d\<lparr>wait_state := WT_CHILD\<rparr>) demo_kst))"

theorem exit_notify_hands_over_witness:
  "\<exists>t. exit_notify default_sched_class demo_family = Some t \<and> cptr (procs t 0) = None \<and> children t 1 [2]"
proof -
  have i: "sched_inv rr_ready rr_detached {0, 1, 2} demo_family"
    by (rule rr.inv_unchanged [OF demo_sched_inv]) (auto simp: run_same_def demo_family_def kst_simps)
  have d: "current demo_family = Some 0" "initproc demo_family = Some 1" "parent (procs demo_family 0) = Some 1"
    "state (procs demo_family 1) = PROC_RUNNABLE" "children demo_family 0 [2]" "children demo_family 1 []"
    by (simp_all add: demo_family_def kst_simps demo_kst_def demo_proc_def children_from_def)
  show ?thesis
    using exit_notify_hands_over [OF kernel_class_rr i d(1,2) _ _ d(3) _ _ _ d(5,6)] d(4) by simp blast
qed

end
