(* ===== verification/Page_Table.thy ===== *)
theory Page_Table
  imports First_Fit
begin

unbundle bit_operations_syntax

section \<open>Page tables (kern/mm/pmm.c, kern/mm/pmm.h, kern/mm/mmu.h)\<close>

text \<open>
  Sv39 page tables. Physical memory is a map from frame numbers to 512 words of 64 bits; a pointer into a
  table is a pair of a frame number and an index, the kernel virtual address \<open>KADDR(pa)\<close> of a page aligned
  \<open>pa\<close> is its frame number, and \<open>KADDR\<close> keeps its panic on frames from \<open>npage\<close> on. A \<open>struct Page *\<close> is
  its index in \<open>pages\<close>, whose descriptors are in the state \<open>pm\<close> of the physical memory manager, which is
  \<open>default_pmm_manager\<close>. Linear addresses are natural numbers. TLB flushes have no effect on this state.
\<close>

subsection \<open>Constants and address arithmetic\<close>

definition PGSIZE :: nat where "PGSIZE = 4096"
definition PGSHIFT :: nat where "PGSHIFT = 12"
definition PTXSHIFT :: nat where "PTXSHIFT = 12"
definition PDX0SHIFT :: nat where "PDX0SHIFT = 21"
definition PDX1SHIFT :: nat where "PDX1SHIFT = 30"
definition PTE_PPN_SHIFT :: nat where "PTE_PPN_SHIFT = 10"
definition NPTEENTRY :: nat where "NPTEENTRY = 512"
definition NPDEENTRY :: nat where "NPDEENTRY = 512"
definition PTSIZE :: nat where "PTSIZE = PGSIZE * NPTEENTRY"
definition PDSIZE :: nat where "PDSIZE = PTSIZE * NPDEENTRY"
definition USERBASE :: nat where "USERBASE = 0x00200000"
definition USERTOP :: nat where "USERTOP = 0x80000000"
definition KERNBASE :: nat where "KERNBASE = 0xFFFFFFFFC0200000"
definition KERNTOP :: nat where "KERNTOP = KERNBASE + 0x7E00000"
definition nbase :: nat where "nbase = 0x80000000 div PGSIZE"

definition PTE_V :: "64 word" where "PTE_V = 0x001"
definition PTE_R :: "64 word" where "PTE_R = 0x002"
definition PTE_W :: "64 word" where "PTE_W = 0x004"
definition PTE_X :: "64 word" where "PTE_X = 0x008"
definition PTE_U :: "64 word" where "PTE_U = 0x010"
definition PTE_USER :: "64 word" where "PTE_USER = PTE_R OR PTE_W OR PTE_X OR PTE_U OR PTE_V"

definition USER_ACCESS :: "nat \<Rightarrow> nat \<Rightarrow> bool" where
  "USER_ACCESS start end' \<longleftrightarrow> USERBASE \<le> start \<and> start < end' \<and> end' \<le> USERTOP"

text \<open>
  The kernel maps physical memory linearly at \<open>PHYSICAL_MEMORY_OFFSET\<close>. A kernel address of the model is the address
  in the code less that offset, so that user addresses, which end at \<open>USERTOP\<close>, and kernel addresses never meet.
\<close>

definition PHYSICAL_MEMORY_OFFSET :: nat where "PHYSICAL_MEMORY_OFFSET = 0xFFFFFFFF40000000"

definition KERN_ACCESS :: "nat \<Rightarrow> nat \<Rightarrow> bool" where
  "KERN_ACCESS start end' \<longleftrightarrow>
     KERNBASE \<le> start + PHYSICAL_MEMORY_OFFSET \<and> start < end' \<and> end' + PHYSICAL_MEMORY_OFFSET \<le> KERNTOP"

definition PDX1 :: "nat \<Rightarrow> nat" where "PDX1 la = drop_bit PDX1SHIFT la AND 0x1FF"
definition PDX0 :: "nat \<Rightarrow> nat" where "PDX0 la = drop_bit PDX0SHIFT la AND 0x1FF"
definition PTX :: "nat \<Rightarrow> nat" where "PTX la = drop_bit PTXSHIFT la AND 0x1FF"
definition PPN :: "nat \<Rightarrow> nat" where "PPN la = drop_bit PTXSHIFT la"
definition PGOFF :: "nat \<Rightarrow> nat" where "PGOFF la = la AND 0xFFF"

definition PTE_ADDR :: "64 word \<Rightarrow> nat" where
  "PTE_ADDR pte = unat (push_bit (PTXSHIFT - PTE_PPN_SHIFT) (pte AND NOT 0x3FF))"

definition PDE_ADDR :: "64 word \<Rightarrow> nat" where "PDE_ADDR pde = PTE_ADDR pde"

definition pte_create :: "nat \<Rightarrow> 64 word \<Rightarrow> 64 word" where
  "pte_create ppn type = push_bit PTE_PPN_SHIFT (word_of_nat ppn) OR PTE_V OR type"

subsection \<open>State and page descriptors\<close>

record vmst =
  pm :: pmm
  frame :: "nat \<Rightarrow> nat \<Rightarrow> 64 word"
  npage :: nat

definition valid :: "64 word \<Rightarrow> bool" where "valid e \<longleftrightarrow> e AND PTE_V \<noteq> 0"

definition page2ppn :: "nat \<Rightarrow> nat" where "page2ppn page = page + nbase"
definition page2pa :: "nat \<Rightarrow> nat" where "page2pa page = u64 (push_bit PGSHIFT (page2ppn page))"

definition KADDR :: "nat \<Rightarrow> vmst \<Rightarrow> nat kresult" where
  "KADDR pa s = (if PPN pa \<ge> npage s then None else Some (PPN pa))"

text \<open>An index before \<open>pages\<close> is not a page: the model stops there.\<close>

definition pa2page :: "nat \<Rightarrow> vmst \<Rightarrow> nat kresult" where
  "pa2page pa s = (if PPN pa \<ge> npage s \<or> PPN pa < nbase then None else Some (PPN pa - nbase))"

definition page2kva :: "nat \<Rightarrow> vmst \<Rightarrow> nat kresult" where "page2kva page s = KADDR (page2pa page) s"

definition pte2page :: "64 word \<Rightarrow> vmst \<Rightarrow> nat kresult" where
  "pte2page pte s = (if \<not> valid pte then None else pa2page (PTE_ADDR pte) s)"

definition pde2page :: "64 word \<Rightarrow> vmst \<Rightarrow> nat kresult" where "pde2page pde s = pa2page (PDE_ADDR pde) s"

definition alloc_page :: "vmst \<Rightarrow> (nat option \<times> vmst) kresult" where
  "alloc_page s = do { (page, p) \<leftarrow> default_alloc_pages 1 (pm s); Some (page, s\<lparr>pm := p\<rparr>) }"

definition free_page :: "nat \<Rightarrow> vmst \<Rightarrow> vmst kresult" where
  "free_page page s = do { p \<leftarrow> default_free_pages page 1 (pm s); Some (s\<lparr>pm := p\<rparr>) }"

definition upd_pm :: "(pmm \<Rightarrow> pmm) \<Rightarrow> vmst \<Rightarrow> vmst" where "upd_pm f s = s\<lparr>pm := f (pm s)\<rparr>"

definition entry :: "nat \<times> nat \<Rightarrow> vmst \<Rightarrow> 64 word" where "entry e s = frame s (fst e) (snd e)"

definition set_entry :: "nat \<times> nat \<Rightarrow> 64 word \<Rightarrow> vmst \<Rightarrow> vmst" where
  "set_entry e v s = s\<lparr>frame := (frame s)(fst e := (frame s (fst e))(snd e := v))\<rparr>"

definition set_frame :: "nat \<Rightarrow> (nat \<Rightarrow> 64 word) \<Rightarrow> vmst \<Rightarrow> vmst" where
  "set_frame f ws s = s\<lparr>frame := (frame s)(f := ws)\<rparr>"

subsection \<open>Walking and building page tables\<close>

text \<open>
  One level of \<open>get_pte\<close>: the entry \<open>e\<close> of a page directory is made valid if need be. The result says whether
  it is valid now; the code has these statements twice, for \<open>pdep1\<close> and for \<open>pdep0\<close>.
\<close>

definition pde_fill :: "nat \<times> nat \<Rightarrow> bool \<Rightarrow> vmst \<Rightarrow> (bool \<times> vmst) kresult" where
  "pde_fill e create s =
     (if \<not> valid (entry e s)
      then if \<not> create then Some (False, s)
      else do {
        (page, s) \<leftarrow> alloc_page s;
        (case page of
           None \<Rightarrow> Some (False, s)
         | Some page \<Rightarrow> do {
             let s = upd_pm (set_page_ref page 1) s;
             let pa = page2pa page;
             f \<leftarrow> KADDR pa s;
             let s = set_frame f (\<lambda>_. 0) s;
             Some (True, set_entry e (pte_create (page2ppn page) (PTE_U OR PTE_V)) s)
           })
      }
      else Some (True, s))"

definition get_pte :: "nat \<Rightarrow> nat \<Rightarrow> bool \<Rightarrow> vmst \<Rightarrow> ((nat \<times> nat) option \<times> vmst) kresult" where
  "get_pte pgdir la create s = do {
     let pdep1 = (pgdir, PDX1 la);
     (ok, s) \<leftarrow> pde_fill pdep1 create s;
     (if \<not> ok then Some (None, s) else do {
        f1 \<leftarrow> KADDR (PDE_ADDR (entry pdep1 s)) s;
        let pdep0 = (f1, PDX0 la);
        (ok, s) \<leftarrow> pde_fill pdep0 create s;
        (if \<not> ok then Some (None, s) else do {
           f0 \<leftarrow> KADDR (PDE_ADDR (entry pdep0 s)) s;
           Some (Some (f0, PTX la), s)
        })
     })
   }"

definition get_page :: "nat \<Rightarrow> nat \<Rightarrow> vmst \<Rightarrow> (nat option \<times> vmst) kresult" where
  "get_page pgdir la s = do {
     (ptep, s) \<leftarrow> get_pte pgdir la False s;
     (case ptep of
        Some e \<Rightarrow> if valid (entry e s) then do { p \<leftarrow> pte2page (entry e s) s; Some (Some p, s) } else Some (None, s)
      | None \<Rightarrow> Some (None, s))
   }"

definition page_remove_pte :: "nat \<times> nat \<Rightarrow> vmst \<Rightarrow> vmst kresult" where
  "page_remove_pte ptep s =
     (if valid (entry ptep s)
      then do {
        page \<leftarrow> pte2page (entry ptep s) s;
        let s = upd_pm (snd \<circ> page_ref_dec page) s;
        s \<leftarrow> (if page_ref page (pm s) = 0 then free_page page s else Some s);
        Some (set_entry ptep 0 s)
      }
      else Some s)"

definition page_remove :: "nat \<Rightarrow> nat \<Rightarrow> vmst \<Rightarrow> vmst kresult" where
  "page_remove pgdir la s = do {
     (ptep, s) \<leftarrow> get_pte pgdir la False s;
     (case ptep of Some e \<Rightarrow> page_remove_pte e s | None \<Rightarrow> Some s)
   }"

definition page_insert :: "nat \<Rightarrow> nat \<Rightarrow> nat \<Rightarrow> 64 word \<Rightarrow> vmst \<Rightarrow> (int \<times> vmst) kresult" where
  "page_insert pgdir page la perm s = do {
     (ptep, s) \<leftarrow> get_pte pgdir la True s;
     (case ptep of
        None \<Rightarrow> Some (- E_NO_MEM, s)
      | Some e \<Rightarrow> do {
          let s = upd_pm (snd \<circ> page_ref_inc page) s;
          s \<leftarrow> (if valid (entry e s)
                then do {
                  p \<leftarrow> pte2page (entry e s) s;
                  (if p = page then Some (upd_pm (snd \<circ> page_ref_dec page) s) else page_remove_pte e s)
                }
                else Some s);
          Some (0, set_entry e (pte_create (page2ppn page) (PTE_V OR perm)) s)
        })
   }"

definition pgdir_alloc_page :: "nat \<Rightarrow> nat \<Rightarrow> 64 word \<Rightarrow> vmst \<Rightarrow> (nat option \<times> vmst) kresult" where
  "pgdir_alloc_page pgdir la perm s = do {
     (page, s) \<leftarrow> alloc_page s;
     (case page of
        None \<Rightarrow> Some (None, s)
      | Some page \<Rightarrow> do {
          (r, s) \<leftarrow> page_insert pgdir page la perm s;
          (if r \<noteq> 0 then do { s \<leftarrow> free_page page s; Some (None, s) }
           else do { kassert (page_ref page (pm s) = 1); Some (Some page, s) })
        })
   }"

text \<open>\<open>unmap_range\<close>: the \<open>do ... while\<close> loop at \<open>start\<close>; \<open>continue\<close> goes to its condition.\<close>

partial_function (option) unmap_loop :: "nat \<Rightarrow> nat \<Rightarrow> nat \<Rightarrow> vmst \<Rightarrow> vmst kresult" where
  "unmap_loop pgdir start end' s = do {
     (ptep, s) \<leftarrow> get_pte pgdir start False s;
     (start, s) \<leftarrow> (case ptep of
         None \<Rightarrow> Some (ROUNDDOWN (u64 (start + PTSIZE)) PTSIZE, s)
       | Some e \<Rightarrow> do {
           s \<leftarrow> (if entry e s \<noteq> 0 then page_remove_pte e s else Some s);
           Some (u64 (start + PGSIZE), s)
         });
     (if start \<noteq> 0 \<and> start < end' then unmap_loop pgdir start end' s else Some s)
   }"

definition unmap_range :: "nat \<Rightarrow> nat \<Rightarrow> nat \<Rightarrow> vmst \<Rightarrow> vmst kresult" where
  "unmap_range pgdir start end' s = do {
     kassert (start mod PGSIZE = 0 \<and> end' mod PGSIZE = 0);
     kassert (USER_ACCESS start end');
     unmap_loop pgdir start end' s
   }"

text \<open>\<open>exit_range\<close>: the inner loop over the entries of one second-level directory, then the outer loop.\<close>

partial_function (option) exit_pd0_loop ::
    "nat \<Rightarrow> nat \<Rightarrow> nat \<Rightarrow> nat \<Rightarrow> bool \<Rightarrow> vmst \<Rightarrow> (bool \<times> vmst) kresult" where
  "exit_pd0_loop pd0 d1start end' d0start free_pd0 s = do {
     let pde0 = entry (pd0, PDX0 d0start) s;
     (free_pd0, s) \<leftarrow>
       (if valid pde0
        then do {
          p \<leftarrow> pde2page pde0 s;
          pt \<leftarrow> page2kva p s;
          (if list_all (\<lambda>i. \<not> valid (entry (pt, i) s)) [0..<NPTEENTRY]
           then do { s \<leftarrow> free_page p s; Some (free_pd0, set_entry (pd0, PDX0 d0start) 0 s) }
           else Some (free_pd0, s))
        }
        else Some (False, s));
     let d0start = u64 (d0start + PTSIZE);
     (if d0start \<noteq> 0 \<and> d0start < u64 (d1start + PDSIZE) \<and> d0start < end'
      then exit_pd0_loop pd0 d1start end' d0start free_pd0 s
      else Some (free_pd0, s))
   }"

partial_function (option) exit_loop :: "nat \<Rightarrow> nat \<Rightarrow> nat \<Rightarrow> nat \<Rightarrow> vmst \<Rightarrow> vmst kresult" where
  "exit_loop pgdir d1start d0start end' s = do {
     let pde1 = entry (pgdir, PDX1 d1start) s;
     s \<leftarrow>
       (if valid pde1
        then do {
          p \<leftarrow> pde2page pde1 s;
          pd0 \<leftarrow> page2kva p s;
          (free_pd0, s) \<leftarrow> exit_pd0_loop pd0 d1start end' d0start True s;
          (if free_pd0
           then do { s \<leftarrow> free_page p s; Some (set_entry (pgdir, PDX1 d1start) 0 s) }
           else Some s)
        }
        else Some s);
     let d1start = u64 (d1start + PDSIZE);
     let d0start = d1start;
     (if d1start \<noteq> 0 \<and> d1start < end' then exit_loop pgdir d1start d0start end' s else Some s)
   }"

definition exit_range :: "nat \<Rightarrow> nat \<Rightarrow> nat \<Rightarrow> vmst \<Rightarrow> vmst kresult" where
  "exit_range pgdir start end' s = do {
     kassert (start mod PGSIZE = 0 \<and> end' mod PGSIZE = 0);
     kassert (USER_ACCESS start end');
     exit_loop pgdir (ROUNDDOWN start PDSIZE) (ROUNDDOWN start PTSIZE) end' s
   }"

text \<open>\<open>copy_range\<close>: one page per turn, as in \<open>unmap_range\<close>.\<close>

partial_function (option) copy_loop :: "nat \<Rightarrow> nat \<Rightarrow> nat \<Rightarrow> nat \<Rightarrow> vmst \<Rightarrow> (int \<times> vmst) kresult" where
  "copy_loop to from start end' s = do {
     (ptep, s) \<leftarrow> get_pte from start False s;
     (case ptep of
        None \<Rightarrow>
          (let start = ROUNDDOWN (u64 (start + PTSIZE)) PTSIZE in
           if start \<noteq> 0 \<and> start < end' then copy_loop to from start end' s else Some (0, s))
      | Some e \<Rightarrow>
          if valid (entry e s)
          then do {
            (nptep, s) \<leftarrow> get_pte to start True s;
            (case nptep of
               None \<Rightarrow> Some (- E_NO_MEM, s)
             | Some ne \<Rightarrow> do {
                 let perm = entry e s AND PTE_USER;
                 page \<leftarrow> pte2page (entry e s) s;
                 (np, s) \<leftarrow> alloc_page s;
                 new \<leftarrow> np;
                 src \<leftarrow> page2kva page s;
                 dst \<leftarrow> page2kva new s;
                 let s = set_frame dst (frame s src) s;
                 (ret, s) \<leftarrow> page_insert to new start perm s;
                 kassert (ret = 0);
                 let start = u64 (start + PGSIZE);
                 (if start \<noteq> 0 \<and> start < end' then copy_loop to from start end' s else Some (0, s))
               })
          }
          else (let start = u64 (start + PGSIZE) in
                if start \<noteq> 0 \<and> start < end' then copy_loop to from start end' s else Some (0, s)))
   }"

definition copy_range :: "nat \<Rightarrow> nat \<Rightarrow> nat \<Rightarrow> nat \<Rightarrow> vmst \<Rightarrow> (int \<times> vmst) kresult" where
  "copy_range to from start end' s = do {
     kassert (start mod PGSIZE = 0 \<and> end' mod PGSIZE = 0);
     kassert (USER_ACCESS start end');
     copy_loop to from start end' s
   }"

fun boot_map_loop :: "nat \<Rightarrow> nat \<Rightarrow> nat \<Rightarrow> nat \<Rightarrow> 64 word \<Rightarrow> vmst \<Rightarrow> vmst kresult" where
  "boot_map_loop pgdir la 0 pa perm s = Some s"
| "boot_map_loop pgdir la (Suc n) pa perm s = do {
     (ptep, s) \<leftarrow> get_pte pgdir la True s;
     e \<leftarrow> ptep;
     let s = set_entry e (pte_create (drop_bit PGSHIFT pa) (PTE_V OR perm)) s;
     boot_map_loop pgdir (u64 (la + PGSIZE)) n (u64 (pa + PGSIZE)) perm s
   }"

definition boot_map_segment :: "nat \<Rightarrow> nat \<Rightarrow> nat \<Rightarrow> nat \<Rightarrow> 64 word \<Rightarrow> vmst \<Rightarrow> vmst kresult" where
  "boot_map_segment pgdir la size' pa perm s = do {
     kassert (PGOFF la = PGOFF pa);
     let n = ROUNDUP (u64 (size' + PGOFF la)) PGSIZE div PGSIZE;
     boot_map_loop pgdir (ROUNDDOWN la PGSIZE) n (ROUNDDOWN pa PGSIZE) perm s
   }"

definition boot_alloc_page :: "vmst \<Rightarrow> (nat \<times> vmst) kresult" where
  "boot_alloc_page s = do {
     (p, s) \<leftarrow> alloc_page s;
     page \<leftarrow> p;
     f \<leftarrow> page2kva page s;
     Some (f, s)
   }"

end
