(* ===== verification/Page_Table_Proofs.thy ===== *)
theory Page_Table_Proofs
  imports Page_Table
begin

section \<open>The tree of page tables and its operations\<close>

text \<open>
  Address arithmetic, single pages of the manager, the tree of tables with the invariants \<open>vm_mem\<close> (the
  memory and its free pages) and \<open>pt_ok\<close> (one address space), and what each operation does to the mapping
  \<open>pte_at\<close>: \<open>get_pte\<close>, \<open>page_remove_pte\<close>, \<open>page_insert\<close>, \<open>copy_range\<close>.
\<close>

lemma and_511: "(x::nat) AND 0x1FF = x mod 512"
  using take_bit_eq_mask [of 9 x] by (simp add: take_bit_eq_mod mask_eq_exp_minus_1)

lemma and_4095: "(x::nat) AND 0xFFF = x mod 4096"
  using take_bit_eq_mask [of 12 x] by (simp add: take_bit_eq_mod mask_eq_exp_minus_1)

lemma index_eq:
  "PDX1 la = la div 2 ^ 30 mod 512" "PDX0 la = la div 2 ^ 21 mod 512" "PTX la = la div 4096 mod 512"
  "PPN la = la div 4096" "PGOFF la = la mod 4096"
  by (simp_all add: PDX1_def PDX0_def PTX_def PPN_def PGOFF_def PDX1SHIFT_def PDX0SHIFT_def PTXSHIFT_def
      and_511 and_4095 drop_bit_eq_div)

lemma low_bits_clear: "push_bit 10 (w::64 word) AND NOT 0x3FF = push_bit 10 w"
proof (rule bit_word_eqI)
  fix n assume "n < LENGTH(64)"
  have "(0x3FF::64 word) = mask 10" by (simp add: mask_eq_exp_minus_1)
  then have m: "NOT (0x3FF::64 word) = NOT (mask 10)" by (rule arg_cong)
  show "bit (push_bit 10 w AND NOT 0x3FF) n = bit (push_bit 10 w) n"
    unfolding m using \<open>n < LENGTH(64)\<close> by (auto simp: bit_simps)
qed

definition perm_bits :: "64 word \<Rightarrow> bool" where "perm_bits t \<longleftrightarrow> t AND NOT 0x3FF = 0"

lemma pte_create_addr:
  assumes "perm_bits t" "ppn < 2 ^ 44"
  shows "PTE_ADDR (pte_create ppn t) = ppn * 4096" "PPN (PTE_ADDR (pte_create ppn t)) = ppn" "valid (pte_create ppn t)"
proof -
  have v: "PTE_V AND NOT 0x3FF = 0" by (simp add: PTE_V_def)
  have "(push_bit 10 (word_of_nat ppn) OR PTE_V OR t) AND NOT 0x3FF = push_bit 10 (word_of_nat ppn :: 64 word)"
    unfolding bit.conj_disj_distrib2 low_bits_clear v assms(1) [unfolded perm_bits_def] by simp
  then have "PTE_ADDR (pte_create ppn t) = unat (push_bit 12 (word_of_nat ppn :: 64 word))"
    unfolding PTE_ADDR_def pte_create_def PTXSHIFT_def PTE_PPN_SHIFT_def by (simp only: push_bit_push_bit) simp
  also have "\<dots> = ppn * 4096"
    using assms(2) by (simp add: push_bit_eq_mult unat_mult_lem take_bit_eq_mod unat_word_ariths unat_of_nat)
  finally show a: "PTE_ADDR (pte_create ppn t) = ppn * 4096" .
  then show "PPN (PTE_ADDR (pte_create ppn t)) = ppn" by (simp add: index_eq)
  have "bit (pte_create ppn t) 0" by (simp add: pte_create_def PTE_V_def bit_simps)
  then have "bit (pte_create ppn t AND PTE_V) 0" by (simp add: PTE_V_def bit_simps)
  then show "valid (pte_create ppn t)" unfolding valid_def by (intro notI) simp
qed

subsection \<open>Single pages of the manager\<close>

lemma upd_page_ref [simp]: "ref (pages (upd_links g s) q) = ref (pages s q)"
  by (simp add: page_fields)

lemma default_alloc_ref:
  assumes "default_alloc_pages n s = Some (r, t)"
  shows "ref (pages t q) = ref (pages s q)"
  using assms
  by (auto simp: default_alloc_pages_def take_block_def Let_def page_op_defs page_fields
      split: if_splits bind_splits option.splits)

lemma default_free_ref:
  assumes "default_free_pages b n s = Some t"
  shows "ref (pages t q) = (if q \<in> {b..<b + n} then 0 else ref (pages s q))"
proof -
  have loop: "free_pages_loop p k u = Some v \<Longrightarrow> ref (pages v q) = (if q \<in> {p..<p + k} then 0 else ref (pages u q))" for p k u v
  proof (induction k arbitrary: p u)
    case (Suc k)
    then show ?case by (fastforce simp: Let_def page_op_defs page_fields split: if_splits)
  qed simp
  have mp: "ref (pages (snd (merge_prev b u)) q) = ref (pages u q)" for b u
    by (simp add: merge_prev_def Let_def page_op_defs page_fields)
  have mn: "ref (pages (merge_next b u) q) = ref (pages u q)" for b u
    by (simp add: merge_next_def Let_def page_op_defs page_fields)
  obtain u h c w where u: "free_pages_loop b n s = Some u" "t = merge_next c w"
    "merge_prev b ((SetPageProperty b (set_property b n u))\<lparr>nr_free := u32 (nr_free u + n), links := h\<rparr>) = (c, w)"
    using assms by (auto simp: default_free_pages_def Let_def page_simps split: if_splits bind_splits prod.splits)
  have "ref (pages t q) = ref (pages u q)"
    using mn [of c w] mp [of b "(SetPageProperty b (set_property b n u))\<lparr>nr_free := u32 (nr_free u + n), links := h\<rparr>"] u(2,3)
    by (simp add: page_op_defs page_fields)
  then show ?thesis using loop [OF u(1)] by simp
qed

lemma set_ref_ref: "ref (pages (set_page_ref p v s) q) = (if q = p then v else ref (pages s q))"
  by (simp add: set_page_ref_def page_fields)

lemma ff_rep_ref: "ff_rep (set_page_ref p v s) F = ff_rep s F"
proof -
  have "pmm_inv (set_page_ref p v s) xs = pmm_inv s xs" "coalesced (set_page_ref p v s) xs = coalesced s xs"
    "free_set (set_page_ref p v s) xs = free_set s xs" for xs
    by (simp_all add: pmm_inv_def coalesced_def free_set_def page_simps)
  then show ?thesis by (simp add: ff_rep_def page_simps)
qed

lemma alloc_page_ok:
  assumes "ff_rep (pm s) F"
  shows "F = {} \<and> alloc_page s = Some (None, s) \<or>
    (\<exists>b\<in>F. \<exists>t. alloc_page s = Some (Some b, t) \<and> ff_rep (pm t) (F - {b}) \<and> frame t = frame s \<and> npage t = npage s \<and>
      (\<forall>q. ref (pages (pm t) q) = ref (pages (pm s) q)) \<and> (\<forall>q. PageReserved q (pm t) \<longrightarrow> PageReserved q (pm s)))"
proof (cases "F = {}")
  case True
  have "default_alloc_pages 1 (pm s) = Some (None, pm s)"
    by (rule ff.alloc_fails [OF assms]) (use True in auto)
  then show ?thesis using True by (simp add: alloc_page_def)
next
  case False
  then obtain p where "{p..<p + 1} \<subseteq> F" by auto
  then obtain b t where t: "default_alloc_pages 1 (pm s) = Some (Some b, t)" "{b..<b + 1} \<subseteq> F"
    "ff_rep t (F - {b..<b + 1})" "\<forall>q. PageReserved q t \<longrightarrow> PageReserved q (pm s)"
    using ff.alloc_succeeds [OF assms, of 1 p] by auto
  have "b \<in> F" "F - {b..<b + 1} = F - {b}" using t(2) by auto
  moreover have "alloc_page s = Some (Some b, s\<lparr>pm := t\<rparr>)" using t(1) by (simp add: alloc_page_def)
  ultimately show ?thesis using t(3,4) default_alloc_ref [OF t(1)] by auto
qed

named_theorems vm_simps \<open>reading back the state of the virtual memory subsystem\<close>

lemma vm_fields [vm_simps]:
  "pm (set_entry e v s) = pm s" "npage (set_entry e v s) = npage s"
  "entry e' (set_entry e v s) = (if e' = e then v else entry e' s)"
  "pm (set_frame f ws s) = pm s" "npage (set_frame f ws s) = npage s"
  "entry e (set_frame f ws s) = (if fst e = f then ws (snd e) else entry e s)"
  "pm (upd_pm g s) = g (pm s)" "npage (upd_pm g s) = npage s" "frame (upd_pm g s) = frame s"
  "entry e (upd_pm g s) = entry e s"
  "frame (set_entry e v s) = (frame s)(fst e := (frame s (fst e))(snd e := v))"
  "frame (set_frame f ws s) = (frame s)(f := ws)"
  by (auto simp: set_entry_def set_frame_def upd_pm_def entry_def prod_eq_iff)

subsection \<open>The tree of tables\<close>

text \<open>\<open>node s r p\<close>: the frame of the table reached from the root \<open>r\<close> along the indices \<open>p\<close>.\<close>

definition sub :: "vmst \<Rightarrow> nat \<Rightarrow> nat \<Rightarrow> nat option" where
  "sub s f a = (if valid (entry (f, a) s) then Some (PPN (PTE_ADDR (entry (f, a) s))) else None)"

fun node :: "vmst \<Rightarrow> nat \<Rightarrow> nat list \<Rightarrow> nat option" where
  "node s f [] = Some f"
| "node s f (a # p) = (case sub s f a of None \<Rightarrow> None | Some g \<Rightarrow> node s g p)"

definition paths :: "nat list set" where "paths = {p. length p \<le> 2}"

definition tables :: "vmst \<Rightarrow> nat \<Rightarrow> nat set" where
  "tables s r = {f. \<exists>p\<in>paths. node s r p = Some f}"

definition path_of :: "nat \<Rightarrow> nat list" where "path_of la = [PDX1 la, PDX0 la]"

definition pte_at :: "vmst \<Rightarrow> nat \<Rightarrow> nat \<Rightarrow> 64 word" where
  "pte_at s r la = (case node s r (path_of la) of None \<Rightarrow> 0 | Some f \<Rightarrow> entry (f, PTX la) s)"

text \<open>
  The invariant: \<open>F\<close> are the free pages, all tables are frames of memory outside \<open>F\<close>, and no table is
  reached along two paths.
\<close>

definition vm_mem :: "vmst \<Rightarrow> nat set \<Rightarrow> bool" where
  "vm_mem s F \<longleftrightarrow> ff_rep (pm s) F \<and> npage s \<le> 2 ^ 32 \<and> (\<forall>p\<in>F. p + nbase < npage s \<and> ref (pages (pm s) p) = 0)"

definition pt_ok :: "vmst \<Rightarrow> nat set \<Rightarrow> nat \<Rightarrow> bool" where
  "pt_ok s F r \<longleftrightarrow> (\<forall>f\<in>tables s r. nbase \<le> f \<and> f < npage s \<and> f - nbase \<notin> F) \<and>
     (\<forall>p\<in>paths. \<forall>q\<in>paths. \<forall>f. node s r p = Some f \<longrightarrow> node s r q = Some f \<longrightarrow> p = q)"

lemma node_snoc: "node s r (p @ [a]) = (case node s r p of None \<Rightarrow> None | Some f \<Rightarrow> sub s f a)"
  by (induction p arbitrary: r) (auto split: option.splits)

lemma node_table: "node s r p = Some f \<Longrightarrow> p \<in> paths \<Longrightarrow> f \<in> tables s r"
  by (auto simp: tables_def)

lemma path_cases:
  assumes "q \<in> paths"
  obtains "q = []" | x where "q = [x]" | x y where "q = [x, y]"
  using assms by (cases q; cases "tl q") (auto simp: paths_def)

lemma node_cong:
  assumes "\<And>f a. f \<in> tables s r \<Longrightarrow> entry (f, a) t = entry (f, a) s" "q \<in> paths"
  shows "node t r q = node s r q"
proof -
  have s: "sub t f a = sub s f a" if "f \<in> tables s r" for f a using assms(1) [OF that] by (simp add: sub_def)
  have r: "r \<in> tables s r" using node_table [of s r "[]"] by (simp add: paths_def)
  have g: "g \<in> tables s r" if "sub s r x = Some g" for g x
    using node_table [of s r "[x]" g] that by (simp add: paths_def)
  from assms(2) show ?thesis by (cases rule: path_cases) (auto simp: s [OF r] s [OF g] split: option.splits)
qed

text \<open>A directory entry that becomes valid and points to a new, cleared table.\<close>

lemma node_add:
  assumes u: "\<And>p q f. p \<in> paths \<Longrightarrow> q \<in> paths \<Longrightarrow> node s r p = Some f \<Longrightarrow> node s r q = Some f \<Longrightarrow> p = q"
    and p: "node s r p = Some f" "p @ [a] \<in> paths" "sub s f a = None"
    and g: "g \<notin> tables s r" "\<And>b. sub t g b = None" "sub t f a = Some g"
    and e: "\<And>h b. h \<noteq> g \<Longrightarrow> (h, b) \<noteq> (f, a) \<Longrightarrow> sub t h b = sub s h b" and q: "q \<in> paths"
  shows "node t r q = (if q = p @ [a] then Some g else node s r q)"
proof -
  have pp: "p \<in> paths" using p(2) by (simp add: paths_def)
  have r: "r \<noteq> g" "f \<noteq> g" using g(1) node_table [of s r "[]" r] node_table [OF p(1) pp] by (auto simp: paths_def)
  have gx: "h \<noteq> g" if "sub s r x = Some h" for h x
    using node_table [of s r "[x]" h] g(1) that by (auto simp: paths_def)
  have rf: "r = f \<longleftrightarrow> p = []" using u [of "[]" p r] p(1) pp by (auto simp: paths_def)
  have fx: "h = f \<longleftrightarrow> p = [x]" if "sub s r x = Some h" for h x
    using u [of "[x]" p h] p(1) pp that by (auto simp: paths_def split: option.splits)
  have len: "length p \<le> 1" using p(2) by (simp add: paths_def)
  have step1: "sub t r x = (if p = [] \<and> x = a then Some g else sub s r x)" for x
    using e [OF r(1), of x] g(3) rf by (cases "p = []") auto
  have step2: "sub t h y = (if p = [x] \<and> y = a then Some g else sub s h y)" if "sub s r x = Some h" for h x y
    using e [OF gx [OF that], of y] g(3) fx [OF that] by (cases "p = [x]") auto
  have no: "sub s r a = None" if "p = []" using p(1,3) that by simp
  from q show ?thesis
  proof (cases rule: path_cases)
    case (3 x y)
    then show ?thesis
      using len step1 [of x] step2 [of x _ y] g(2) no p(1) by (cases p) (auto split: option.splits)
  qed (use len step1 p(1) in \<open>auto split: option.splits\<close>)
qed

text \<open>
  \<open>vm_grow s F t F' r\<close>: from \<open>s\<close> to \<open>t\<close> only tables below \<open>r\<close> were added, in pages taken from \<open>F\<close>; no mapping
  has changed, and no frame outside the tables and \<open>F\<close>.
\<close>

definition page_frames :: "nat set \<Rightarrow> nat set" where "page_frames F = (\<lambda>x. x + nbase) ` F"

definition vm_grow :: "vmst \<Rightarrow> nat set \<Rightarrow> vmst \<Rightarrow> nat set \<Rightarrow> nat \<Rightarrow> bool" where
  "vm_grow s F t F' r \<longleftrightarrow> vm_mem t F' \<and> pt_ok t F' r \<and> F' \<subseteq> F \<and> npage t = npage s \<and>
     (\<forall>q\<in>paths. node s r q \<noteq> None \<longrightarrow> node t r q = node s r q) \<and>
     tables t r \<subseteq> tables s r \<union> page_frames (F - F') \<and>
     (\<forall>g b. g \<notin> tables s r \<longrightarrow> g \<notin> page_frames F \<longrightarrow> entry (g, b) t = entry (g, b) s) \<and>
     (\<forall>x. x \<notin> F - F' \<longrightarrow> ref (pages (pm t) x) = ref (pages (pm s) x)) \<and>
     (\<forall>x. PageReserved x (pm t) \<longrightarrow> PageReserved x (pm s)) \<and>
     (\<forall>la. pte_at t r la = pte_at s r la)"

lemma vm_growD:
  assumes "vm_grow s F t F' r"
  shows "vm_mem t F'" "pt_ok t F' r" "F' \<subseteq> F" "npage t = npage s"
    "q \<in> paths \<Longrightarrow> node s r q = Some f \<Longrightarrow> node t r q = Some f" "tables t r \<subseteq> tables s r \<union> page_frames (F - F')"
    "g \<notin> tables s r \<Longrightarrow> g \<notin> page_frames F \<Longrightarrow> entry (g, b) t = entry (g, b) s"
    "x \<notin> F - F' \<Longrightarrow> ref (pages (pm t) x) = ref (pages (pm s) x)"
    "PageReserved x (pm t) \<Longrightarrow> PageReserved x (pm s)" "pte_at t r la = pte_at s r la"
  using assms by (simp_all add: vm_grow_def)

lemma vm_grow_refl: "vm_mem s F \<Longrightarrow> pt_ok s F r \<Longrightarrow> vm_grow s F s F r"
  by (auto simp: vm_grow_def)

lemma vm_grow_trans:
  assumes a: "vm_grow s F t F' r" and b: "vm_grow t F' u F'' r"
  shows "vm_grow s F u F'' r"
proof -
  note A = vm_growD [OF a] and B = vm_growD [OF b]
  have "entry (g, c) u = entry (g, c) s" if "g \<notin> tables s r" "g \<notin> page_frames F" for g c
  proof -
    have "g \<notin> tables t r" "g \<notin> page_frames F'" using that A(3,6) by (auto simp: page_frames_def)
    then show ?thesis using A(7) [OF that] B(7) by simp
  qed
  moreover have "tables u r \<subseteq> tables s r \<union> page_frames (F - F'')"
    using A(3,6) B(3,6) by (fastforce simp: page_frames_def)
  moreover have "node u r q = node s r q" if "q \<in> paths" "node s r q \<noteq> None" for q
    using A(5) [OF that(1)] B(5) [OF that(1)] that(2) by auto
  moreover have "ref (pages (pm u) x) = ref (pages (pm s) x)" if "x \<notin> F - F''" for x
  proof -
    have "x \<notin> F - F'" "x \<notin> F' - F''" using that A(3) B(3) by auto
    then show ?thesis using A(8) B(8) by simp
  qed
  ultimately show ?thesis
    using A(3,4) B(1-4) A(9,10) B(9,10) by (auto simp: vm_grow_def)
qed

lemma pde_fill_ok:
  assumes m: "vm_mem s F" and t: "pt_ok s F r" and p: "node s r p = Some f" "p @ [a] \<in> paths"
  shows "\<exists>ok t F'. pde_fill (f, a) create s = Some (ok, t) \<and> vm_grow s F t F' r \<and>
    (ok \<longleftrightarrow> node t r (p @ [a]) \<noteq> None) \<and> (\<not> create \<longrightarrow> t = s) \<and> (create \<longrightarrow> \<not> ok \<longrightarrow> F' = {}) \<and> card (F - F') \<le> 1 \<and>
    (node s r (p @ [a]) \<noteq> None \<longrightarrow> t = s \<and> F' = F)"
proof -
  have pp: "p \<in> paths" using p(2) by (simp add: paths_def)
  have ft: "f \<in> tables s r" by (rule node_table [OF p(1) pp])
  have here: "node s r (p @ [a]) = sub s f a" using p(1) by (simp add: node_snoc)
  show ?thesis
  proof (cases "valid (entry (f, a) s) \<or> \<not> create")
    case True
    then have "pde_fill (f, a) create s = Some (valid (entry (f, a) s), s)" by (auto simp: pde_fill_def)
    then show ?thesis using vm_grow_refl [OF m t] here True by (auto simp: sub_def)
  next
    case nv: False
    have ff: "ff_rep (pm s) F" using m by (simp add: vm_mem_def)
    show ?thesis
      using alloc_page_ok [OF ff]
    proof (elim disjE)
      assume n: "F = {} \<and> alloc_page s = Some (None, s)"
      then have "pde_fill (f, a) create s = Some (False, s)" using nv by (simp add: pde_fill_def)
      then show ?thesis using vm_grow_refl [OF m t] here nv n by (auto simp: sub_def)
    next
      assume "\<exists>b\<in>F. \<exists>t. alloc_page s = Some (Some b, t) \<and> ff_rep (pm t) (F - {b}) \<and> frame t = frame s \<and> npage t = npage s \<and>
        (\<forall>q. ref (pages (pm t) q) = ref (pages (pm s) q)) \<and> (\<forall>q. PageReserved q (pm t) \<longrightarrow> PageReserved q (pm s))"
      then obtain b u where u: "b \<in> F" "alloc_page s = Some (Some b, u)" "ff_rep (pm u) (F - {b})" "frame u = frame s"
        "npage u = npage s" "\<And>q. ref (pages (pm u) q) = ref (pages (pm s) q)"
        "\<And>q. PageReserved q (pm u) \<Longrightarrow> PageReserved q (pm s)" by blast
      let ?g = "b + nbase"
      let ?t = "set_entry (f, a) (pte_create ?g (PTE_U OR PTE_V)) (set_frame ?g (\<lambda>_. 0) (upd_pm (set_page_ref b 1) u))"
      have bd: "?g < npage s" "npage s \<le> 2 ^ 32" using m u(1) by (simp_all add: vm_mem_def)
      have pa: "page2pa b = ?g * 4096"
        using bd by (simp add: page2pa_def page2ppn_def PGSHIFT_def push_bit_eq_mult)
      have e: "pde_fill (f, a) create s = Some (True, ?t)"
        using nv u(2,5) bd by (simp add: pde_fill_def KADDR_def pa index_eq page2ppn_def Let_def vm_fields)
      have gt: "?g \<notin> tables s r" using t u(1) by (auto simp: pt_ok_def)
      have fg: "f \<noteq> ?g" using ft gt by auto
      have perm: "perm_bits (PTE_U OR PTE_V)" by (simp add: perm_bits_def PTE_U_def PTE_V_def)
      note pc = pte_create_addr [OF perm, of ?g]
      have g44: "?g < 2 ^ 44" using bd by simp
      have en: "entry (h, c) ?t = (if (h, c) = (f, a) then pte_create ?g (PTE_U OR PTE_V) else if h = ?g then 0 else entry (h, c) s)" for h c
        using u(4) by (auto simp: vm_fields entry_def)
      have v0: "\<not> valid 0" by (simp add: valid_def)
      have nd: "node ?t r q = (if q = p @ [a] then Some ?g else node s r q)" if "q \<in> paths" for q
      proof (rule node_add [OF _ p(1,2) _ gt _ _ _ that])
        show "p' = q'" if "p' \<in> paths" "q' \<in> paths" "node s r p' = Some f'" "node s r q' = Some f'" for p' q' f'
          using t that by (auto simp: pt_ok_def)
        show "sub ?t ?g c = None" for c using fg v0 by (simp add: sub_def en)
        show "sub ?t f a = Some ?g" using pc(2,3) [OF g44] by (simp add: sub_def en)
        show "sub ?t h c = sub s h c" if "h \<noteq> ?g" "(h, c) \<noteq> (f, a)" for h c using that by (auto simp: sub_def en)
        show "sub s f a = None" using nv by (simp add: sub_def)
      qed
      have hn: "node s r (p @ [a]) = None" using here nv by (simp add: sub_def)
      have tb: "tables ?t r = insert ?g (tables s r)"
      proof (intro set_eqI iffI)
        fix h assume "h \<in> insert ?g (tables s r)"
        then consider "h = ?g" | q where "q \<in> paths" "node s r q = Some h" "q \<noteq> p @ [a]"
          using hn by (force simp: tables_def)
        then show "h \<in> tables ?t r"
        proof cases
          case 1
          then show ?thesis using nd [OF p(2)] p(2) node_table [of ?t r "p @ [a]"] by simp
        next
          case (2 q)
          then show ?thesis using nd [of q] node_table [of ?t r q] by simp
        qed
      next
        fix h assume "h \<in> tables ?t r"
        then show "h \<in> insert ?g (tables s r)" using nd by (auto simp: tables_def split: if_splits)
      qed
      have mem: "vm_mem ?t (F - {b})"
        using m u(3,5,6) by (auto simp: vm_mem_def vm_fields ff_rep_ref set_ref_ref)
      have "pt_ok ?t (F - {b}) r"
      proof -
        have "nbase \<le> h \<and> h < npage ?t \<and> h - nbase \<notin> F - {b}" if "h \<in> tables ?t r" for h
          using that t bd(1) u(5) unfolding tb pt_ok_def by (auto simp: vm_fields)
        moreover have "x = y" if "x \<in> paths" "y \<in> paths" "node ?t r x = Some h" "node ?t r y = Some h" for x y h
          using that t gt node_table [of s r _ ?g] nd unfolding pt_ok_def by (metis option.inject)
        ultimately show ?thesis unfolding pt_ok_def by blast
      qed
      moreover have "pte_at ?t r la = pte_at s r la" for la
      proof (cases "path_of la = p @ [a]")
        case True
        have pth: "path_of la \<in> paths" by (simp add: path_of_def paths_def)
        show ?thesis using nd [OF pth] True here nv fg by (simp add: pte_at_def sub_def en)
      next
        case False
        have pth: "path_of la \<in> paths" by (simp add: path_of_def paths_def)
        have "h \<noteq> f \<and> h \<noteq> ?g" if "node s r (path_of la) = Some h" for h
        proof
          have ne: "path_of la \<noteq> p" using p(2) by (auto simp: path_of_def paths_def)
          have u: "\<forall>p\<in>paths. \<forall>q\<in>paths. \<forall>f. node s r p = Some f \<longrightarrow> node s r q = Some f \<longrightarrow> p = q"
            using t by (simp add: pt_ok_def)
          show "h \<noteq> f" using u pth pp p(1) that ne by blast
          show "h \<noteq> ?g" using gt node_table [OF that pth] by blast
        qed
        then show ?thesis using nd [OF pth] False by (auto simp: pte_at_def en split: option.splits)
      qed
      moreover have "node ?t r q = node s r q" if "q \<in> paths" "node s r q \<noteq> None" for q
        using nd [OF that(1)] that(2) here nv by (auto simp: sub_def)
      moreover have "entry (h, c) ?t = entry (h, c) s" if "h \<notin> tables s r" "h \<notin> page_frames F" for h c
        using that ft u(1) en [of h c] by (auto simp: page_frames_def)
      moreover have "ref (pages (pm ?t) x) = ref (pages (pm s) x)" if "x \<noteq> b" for x
        using that u(6) by (simp add: vm_fields set_page_ref_def page_fields)
      moreover have "PageReserved x (pm s)" if "PageReserved x (pm ?t)" for x
        using u(7) that by (simp add: vm_fields page_simps)
      moreover have "F - (F - {b}) = {b}" using u(1) by auto
      moreover have "npage ?t = npage s" using u(5) by (simp add: vm_fields)
      ultimately have "vm_grow s F ?t (F - {b}) r"
        using mem tb unfolding vm_grow_def by (auto simp: page_frames_def)
      moreover have "node ?t r (p @ [a]) \<noteq> None" using nd [OF p(2)] by simp
      moreover have "card (F - (F - {b})) \<le> 1" using u(1) by (simp add: double_diff)
      ultimately show ?thesis using e nv hn by blast
    qed
  qed
qed

lemma tables_range: "pt_ok s F r \<Longrightarrow> f \<in> tables s r \<Longrightarrow> nbase \<le> f \<and> f < npage s \<and> f - nbase \<notin> F"
  by (simp add: pt_ok_def)

lemma child_addr:
  assumes "pt_ok s F r" "node s r p = Some f" "p @ [a] \<in> paths" "node s r (p @ [a]) \<noteq> None"
  shows "\<exists>g. node s r (p @ [a]) = Some g \<and> KADDR (PDE_ADDR (entry (f, a) s)) s = Some g"
proof -
  obtain g where g: "sub s f a = Some g" using assms(2,4) by (auto simp: node_snoc)
  then have "node s r (p @ [a]) = Some g" using assms(2) by (simp add: node_snoc)
  moreover have "g < npage s" using tables_range [OF assms(1) node_table [OF calculation assms(3)]] by simp
  ultimately show ?thesis using g by (auto simp: sub_def KADDR_def PDE_ADDR_def split: if_splits)
qed

definition leaf :: "vmst \<Rightarrow> nat \<Rightarrow> nat \<Rightarrow> (nat \<times> nat) option" where
  "leaf s r la = (case node s r (path_of la) of None \<Rightarrow> None | Some f \<Rightarrow> Some (f, PTX la))"

lemma get_pte_ok:
  assumes m: "vm_mem s F" and t: "pt_ok s F r"
  shows "\<exists>t F'. get_pte r la create s = Some (leaf t r la, t) \<and> vm_grow s F t F' r \<and>
    (\<not> create \<longrightarrow> t = s) \<and> (create \<longrightarrow> leaf t r la = None \<longrightarrow> F' = {}) \<and> card (F - F') \<le> 2 \<and>
    (leaf s r la \<noteq> None \<longrightarrow> t = s \<and> F' = F)"
proof -
  have pths: "[] @ [PDX1 la] \<in> paths" "[PDX1 la] @ [PDX0 la] \<in> paths" by (simp_all add: paths_def)
  have pl: "path_of la = [PDX1 la] @ [PDX0 la]" by (simp add: path_of_def)
  obtain ok u G where u: "pde_fill (r, PDX1 la) create s = Some (ok, u)" "vm_grow s F u G r"
    "ok \<longleftrightarrow> node u r ([] @ [PDX1 la]) \<noteq> None" "\<not> create \<longrightarrow> u = s" "create \<longrightarrow> \<not> ok \<longrightarrow> G = {}" "card (F - G) \<le> 1"
    "node s r ([] @ [PDX1 la]) \<noteq> None \<longrightarrow> u = s \<and> G = F"
    using pde_fill_ok [OF m t node.simps(1) pths(1)] by blast
  note U = vm_growD [OF u(2)]
  have old: "node s r ([] @ [PDX1 la]) \<noteq> None \<and> node s r (path_of la) \<noteq> None" if "leaf s r la \<noteq> None"
    using that by (auto simp: leaf_def path_of_def split: option.splits)
  show ?thesis
  proof (cases ok)
    case False
    then have n: "leaf u r la = None" using u(3) by (simp add: leaf_def path_of_def split: option.splits)
    moreover have "leaf s r la = None" using False u(3,7) old by (metis (full_types))
    ultimately show ?thesis using False u by (auto simp: get_pte_def Let_def)
  next
    case True
    then obtain f1 where f1: "node u r [PDX1 la] = Some f1" "KADDR (PDE_ADDR (entry (r, PDX1 la) u)) u = Some f1"
      using child_addr [OF U(2), of "[]" r "PDX1 la"] u(3) pths by auto
    obtain ok2 v H where v: "pde_fill (f1, PDX0 la) create u = Some (ok2, v)" "vm_grow u G v H r"
      "ok2 \<longleftrightarrow> node v r (path_of la) \<noteq> None" "\<not> create \<longrightarrow> v = u" "create \<longrightarrow> \<not> ok2 \<longrightarrow> H = {}" "card (G - H) \<le> 1"
      "node u r (path_of la) \<noteq> None \<longrightarrow> v = u \<and> H = G"
      using pde_fill_ok [OF U(1,2) f1(1) pths(2), of create, folded pl] by blast
    note V = vm_growD [OF v(2)]
    have tr: "vm_grow s F v H r" by (rule vm_grow_trans [OF u(2) v(2)])
    have "finite F" using m ff.rep_finite [of "pm s" F] by (simp add: vm_mem_def)
    then have "card (F - H) \<le> card (F - G) + card (G - H)"
      using card_Un_le [of "F - G" "G - H"] card_mono [of "(F - G) \<union> (G - H)" "F - H"] U(3) finite_subset by fastforce
    then have cd: "card (F - H) \<le> 2" using u(6) v(6) by linarith
    have keep: "v = s \<and> H = F" if "leaf s r la \<noteq> None"
      using old [OF that] u(7) v(7) by auto
    show ?thesis
    proof (cases ok2)
      case False
      then have "leaf v r la = None" using v(3) by (simp add: leaf_def)
      then show ?thesis using False True u(1,4) f1 v(1,4,5) tr cd keep by (auto simp: get_pte_def Let_def)
    next
      case ok2: True
      have "node v r [PDX1 la] = Some f1" using V(5) [OF _ f1(1)] by (simp add: paths_def)
      then obtain f0 where f0: "node v r (path_of la) = Some f0" "KADDR (PDE_ADDR (entry (f1, PDX0 la) v)) v = Some f0"
        using child_addr [OF V(2), of "[PDX1 la]" f1 "PDX0 la"] v(3) ok2 pths unfolding pl by auto
      then have "leaf v r la = Some (f0, PTX la)" by (simp add: leaf_def)
      then show ?thesis using True ok2 u(1,4) f1 v(1,4) f0 tr cd keep by (auto simp: get_pte_def Let_def)
    qed
  qed
qed

text \<open>Writing an entry of a last-level table changes one mapping and no table.\<close>

definition same_page :: "nat \<Rightarrow> nat \<Rightarrow> bool" where
  "same_page la la' \<longleftrightarrow> path_of la = path_of la' \<and> PTX la = PTX la'"

lemma same_page_iff: "la < 2 ^ 39 \<Longrightarrow> la' < 2 ^ 39 \<Longrightarrow> same_page la la' \<longleftrightarrow> la div 4096 = la' div 4096"
proof -
  assume b: "la < 2 ^ 39" "la' < 2 ^ 39"
  have e: "x div 2 ^ 30 = x div 4096 div 512 div 512" "x div 2 ^ 21 = x div 4096 div 512" for x :: nat
    by (simp_all add: div_mult2_eq [symmetric])
  have d: "x div 4096 = (x div 2 ^ 30 mod 512) * 2 ^ 18 + (x div 2 ^ 21 mod 512) * 512 + x div 4096 mod 512"
    if "x < 2 ^ 39" for x :: nat
  proof -
    let ?y = "x div 4096"
    have "x div 2 ^ 30 < 512" using that by (simp add: less_mult_imp_div_less)
    then have m: "?y div 512 div 512 mod 512 = ?y div 512 div 512" unfolding e by simp
    have gen: "y = a * 2 ^ 18 + d * 512 + c" if "y = b * 512 + c" "b = a * 512 + d" for y a b c d :: nat
      using that by simp
    show ?thesis unfolding e m
      by (rule gen [of _ "?y div 512"]) (simp_all only: div_mult_mod_eq)
  qed
  show ?thesis
  proof
    assume "same_page la la'"
    then have eqs: "la div 2 ^ 30 mod 512 = la' div 2 ^ 30 mod 512" "la div 2 ^ 21 mod 512 = la' div 2 ^ 21 mod 512"
      "la div 4096 mod 512 = la' div 4096 mod 512"
      by (simp_all add: same_page_def path_of_def index_eq)
    show "la div 4096 = la' div 4096"
      by (subst d [OF b(1)], subst d [OF b(2)]) (simp only: eqs)
  next
    assume "la div 4096 = la' div 4096"
    then show "same_page la la'" unfolding same_page_def path_of_def index_eq e by simp
  qed
qed

lemma pth [simp]: "path_of la \<in> paths"
  by (simp add: path_of_def paths_def)

lemma set_leaf:
  assumes t: "pt_ok s F r" and l: "leaf s r la = Some e"
  shows "q \<in> paths \<Longrightarrow> node (set_entry e v s) r q = node s r q"
    "pt_ok (set_entry e v s) F r" "tables (set_entry e v s) r = tables s r"
    "pte_at (set_entry e v s) r la' = (if same_page la la' then v else pte_at s r la')"
proof -
  obtain f where f: "node s r (path_of la) = Some f" "e = (f, PTX la)" using l by (auto simp: leaf_def split: option.splits)
  have u: "p = q" if "p \<in> paths" "q \<in> paths" "node s r p = Some h" "node s r q = Some h" for p q h
    using t that by (auto simp: pt_ok_def)
  have s: "sub (set_entry e v s) h b = sub s h b" if "h \<noteq> f" for h b using that f(2) by (simp add: sub_def vm_fields)
  have rf: "r \<noteq> f" using u [of "[]" "path_of la" r] f(1) by (auto simp: paths_def path_of_def)
  have gf: "g \<noteq> f" if "sub s r x = Some g" for g x
    using u [of "[x]" "path_of la" g] f(1) that by (auto simp: paths_def path_of_def)
  have nd: "node (set_entry e v s) r q = node s r q" if "q \<in> paths" for q
    using that by (cases rule: path_cases) (auto simp: s [OF rf] s [OF gf] split: option.splits)
  then show "q \<in> paths \<Longrightarrow> node (set_entry e v s) r q = node s r q" by simp
  show tb: "tables (set_entry e v s) r = tables s r" by (auto simp: tables_def nd)
  show "pt_ok (set_entry e v s) F r" using t nd by (simp add: pt_ok_def tb vm_fields)
  show "pte_at (set_entry e v s) r la' = (if same_page la la' then v else pte_at s r la')"
    unfolding pte_at_def nd [OF pth]
    using u [of "path_of la" "path_of la'"] f by (auto simp: same_page_def vm_fields split: option.splits)
qed

subsection \<open>Releasing and mapping a page\<close>

lemma below_tailI:
  assumes "ff_rep s F" "b \<notin> F" "F = {} \<or> (\<exists>p\<in>F. b < p)"
  shows "below_tail b s"
proof -
  obtain xs where xs: "pmm_inv s xs" "free_set s xs = F" using assms(1) by (auto simp: ff_rep_def)
  show ?thesis
  proof (cases "xs = []")
    case False
    then have "last xs \<in> F" using xs pmm_inv_parts(3) [OF xs(1), of "last xs"] by (force simp: free_set_def)
    then obtain p h where p: "b < p" "h \<in> set xs" "h \<le> p" "p < h + property_of h s"
      using assms(3) xs(2) by (auto simp: free_set_def)
    have "b < h"
    proof (rule ccontr)
      assume "\<not> b < h"
      then have "b \<in> F" using p xs(2) by (auto simp: free_set_def)
      then show False using assms(2) by simp
    qed
    moreover have "h \<le> last xs"
      using p(2) pmm_inv_parts(2) [OF xs(1)] by (cases xs rule: rev_cases) (auto simp: sorted_wrt_append dest: bspec)
    ultimately show ?thesis by (simp add: below_tail_iff [OF xs(1)])
  qed (simp add: below_tail_iff [OF xs(1)])
qed

text \<open>\<open>release_ok s F r q\<close>: the page \<open>q\<close> is in use, not as a table, and can go back to the manager.\<close>

definition release_ok :: "vmst \<Rightarrow> nat set \<Rightarrow> nat \<Rightarrow> nat \<Rightarrow> bool" where
  "release_ok s F r q \<longleftrightarrow> 1 \<le> page_ref q (pm s) \<and> q \<notin> F \<and> q + nbase \<notin> tables s r \<and> q + nbase < npage s \<and>
     \<not> PageReserved q (pm s) \<and> (page_ref q (pm s) = 1 \<longrightarrow> F = {} \<or> (\<exists>p\<in>F. q < p))"

lemma vm_mem_card: "vm_mem s F \<Longrightarrow> card F + 1 < 2 ^ 32"
proof -
  assume m: "vm_mem s F"
  then have "F \<subseteq> {..<npage s - nbase}" by (auto simp: vm_mem_def)
  then have "card F \<le> npage s - nbase" using card_mono [of "{..<npage s - nbase}" F] by simp
  moreover have "npage s \<le> 2 ^ 32" using m by (simp add: vm_mem_def)
  ultimately show ?thesis by (simp add: nbase_def PGSIZE_def)
qed

lemma free_page_ok:
  assumes m: "vm_mem s F" and q: "q \<notin> F" "q + nbase < npage s" "\<not> PageReserved q (pm s)" "F = {} \<or> (\<exists>p\<in>F. q < p)"
  shows "\<exists>t. free_page q s = Some t \<and> vm_mem t (insert q F) \<and> frame t = frame s \<and> npage t = npage s \<and>
    (\<forall>x. ref (pages (pm t) x) = (if x = q then 0 else ref (pages (pm s) x))) \<and>
    (\<forall>x. PageReserved x (pm t) \<longrightarrow> PageReserved x (pm s))"
proof -
  have f: "ff_rep (pm s) F" using m by (simp add: vm_mem_def)
  obtain t where t: "default_free_pages q 1 (pm s) = Some t" "ff_rep t (F \<union> {q..<q + 1})"
    "\<forall>x. PageReserved x t \<longrightarrow> PageReserved x (pm s)"
    using ff.free_rep [OF f, of 1 q] vm_mem_card [OF m] q below_tailI [OF f q(1,4)] by auto
  have "F \<union> {q..<q + 1} = insert q F" by auto
  then show ?thesis
    using t m q(2) default_free_ref [OF t(1)] by (auto simp: free_page_def vm_mem_def)
qed

lemma pte_page:
  assumes "PPN (PTE_ADDR v) = q + nbase" "valid v" "q + nbase < npage s"
  shows "pte2page v s = Some q"
  using assms by (simp add: pte2page_def pa2page_def)

lemma leaf_entry: "leaf s r la = Some e \<Longrightarrow> entry e s = pte_at s r la"
  by (auto simp: leaf_def pte_at_def split: option.splits)

lemma pt_frame:
  assumes "\<And>e. entry e t = entry e s" "npage t = npage s"
  shows "tables t r = tables s r" "pte_at t r la = pte_at s r la" "leaf t r la = leaf s r la"
    "pt_ok t F r = pt_ok s F r"
proof -
  have n: "node t r q = node s r q" if "q \<in> paths" for q using assms(1) that by (intro node_cong) auto
  show "tables t r = tables s r" by (auto simp: tables_def n)
  then show "pt_ok t F r = pt_ok s F r" using n assms(2) by (simp add: pt_ok_def)
  show "pte_at t r la = pte_at s r la" "leaf t r la = leaf s r la"
    by (simp_all add: pte_at_def leaf_def n assms(1) split: option.splits)
qed

lemma page_remove_pte_ok:
  assumes m: "vm_mem s F" and t: "pt_ok s F r" and l: "leaf s r la = Some e"
    and v: "valid (pte_at s r la)" "PPN (PTE_ADDR (pte_at s r la)) = q + nbase" and q: "release_ok s F r q"
  shows "\<exists>t F'. page_remove_pte e s = Some t \<and> F' = (if page_ref q (pm s) = 1 then insert q F else F) \<and>
    vm_mem t F' \<and> pt_ok t F' r \<and> npage t = npage s \<and> tables t r = tables s r \<and>
    (\<forall>la'. pte_at t r la' = (if same_page la la' then 0 else pte_at s r la')) \<and> leaf t r la = Some e \<and>
    (\<forall>e'. entry e' t = (if e' = e then 0 else entry e' s)) \<and>
    (\<forall>x. ref (pages (pm t) x) = (if x = q then ref (pages (pm s) x) - 1 else ref (pages (pm s) x)))"
proof -
  define u where "u = upd_pm (snd \<circ> page_ref_dec q) s"
  have pu: "pm u = set_page_ref q (page_ref q (pm s) - 1) (pm s)"
    by (simp add: u_def vm_fields page_ref_dec_def page_ref_def set_page_ref_def upd_page_def Let_def)
  have uf: "vm_mem u F" "page_ref q (pm u) = page_ref q (pm s) - 1" "npage u = npage s" "entry e' u = entry e' s"
    "PageReserved q (pm u) = PageReserved q (pm s)" for e'
  proof -
    show n: "npage u = npage s" "entry e' u = entry e' s" for e' by (simp_all add: u_def vm_fields)
    show "vm_mem u F" using m n q by (auto simp: vm_mem_def pu ff_rep_ref set_ref_ref release_ok_def)
    show "page_ref q (pm u) = page_ref q (pm s) - 1" by (simp add: pu page_ref_def set_page_ref_def page_fields)
    show "PageReserved q (pm u) = PageReserved q (pm s)" by (simp add: pu page_simps)
  qed
  have ru: "ref (pages (pm u) x) = (if x = q then ref (pages (pm s) x) - 1 else ref (pages (pm s) x))" for x
    by (simp add: pu set_page_ref_def page_fields page_ref_def)
  have e: "pte2page (entry e s) s = Some q"
    using v q by (intro pte_page) (simp_all add: leaf_entry [OF l] release_ok_def)
  obtain w F' where w: "(if page_ref q (pm u) = 0 then free_page q u else Some u) = Some w"
    "F' = (if page_ref q (pm s) = 1 then insert q F else F)" "vm_mem w F'" "frame w = frame u" "npage w = npage u"
    "\<forall>x. ref (pages (pm w) x) = ref (pages (pm u) x)"
  proof (cases "page_ref q (pm s) = 1")
    case True
    then obtain w where "free_page q u = Some w" "vm_mem w (insert q F)" "frame w = frame u" "npage w = npage u"
      "\<forall>x. ref (pages (pm w) x) = (if x = q then 0 else ref (pages (pm u) x))"
      using free_page_ok [OF uf(1), of q] q uf(3,5) by (auto simp: release_ok_def)
    then show ?thesis using True uf(2) ru by (intro that [of w "insert q F"]) (auto simp: page_ref_def)
  next
    case False
    then show ?thesis using uf(1,2) by (intro that [of u F]) auto
  qed
  have we: "entry e' w = entry e' s" for e' using w(4) uf(4) [of e'] by (simp add: entry_def)
  have nw: "npage w = npage s" using w(5) uf(3) by simp
  note fr = pt_frame [OF we nw]
  have "pt_ok w F' r"
    using t q tables_range [OF t] unfolding pt_ok_def fr(1) by (auto simp: w(2) release_ok_def nw node_cong [OF we])
  note sl = set_leaf [OF this fr(3) [of r la, unfolded l], where v = 0]
  have r: "page_remove_pte e s = Some (set_entry e 0 w)"
    using v(1) e w(1)
    by (cases "page_ref q (pm u) = 0") (simp_all add: page_remove_pte_def leaf_entry [OF l] Let_def flip: u_def)
  have "vm_mem (set_entry e 0 w) F'" using w(3) by (simp add: vm_mem_def vm_fields)
  moreover have "leaf (set_entry e 0 w) r la = Some e"
    using l fr(3) [of r la] sl(1) [OF pth] by (simp add: leaf_def)
  ultimately show ?thesis
    using r w(2) sl(2-4) fr(1,2) w(6) ru nw by (auto simp: vm_fields we)
qed

lemma pte_at_valid_leaf: "valid (pte_at s r la) \<Longrightarrow> leaf s r la \<noteq> None"
  by (auto simp: pte_at_def leaf_def valid_def split: option.splits)

lemma upd_ref_ok:
  assumes "vm_mem s F" "pt_ok s F r" "x \<notin> F" and u: "u = upd_pm (set_page_ref x k) s"
  shows "vm_mem u F" "pt_ok u F r" "tables u r = tables s r" "pte_at u r la = pte_at s r la" "leaf u r la = leaf s r la"
    "entry e u = entry e s" "npage u = npage s" "ref (pages (pm u) y) = (if y = x then k else ref (pages (pm s) y))"
    "PageReserved y (pm u) = PageReserved y (pm s)"
proof -
  have n: "entry e u = entry e s" "npage u = npage s" for e by (simp_all add: u vm_fields)
  show "entry e u = entry e s" "npage u = npage s" by (fact n)+
  show "tables u r = tables s r" "pte_at u r la = pte_at s r la" "leaf u r la = leaf s r la"
    by (rule pt_frame; simp add: n)+
  show "pt_ok u F r" using assms(2) pt_frame(4) [of u s F r] n by blast
  show "vm_mem u F"
    using assms(1,3) by (auto simp: vm_mem_def u vm_fields ff_rep_ref set_ref_ref)
  show "ref (pages (pm u) y) = (if y = x then k else ref (pages (pm s) y))"
    by (simp add: u vm_fields set_page_ref_def page_fields)
  show "PageReserved y (pm u) = PageReserved y (pm s)" by (simp add: u vm_fields page_simps)
qed

lemma ref_inc: "upd_pm (snd \<circ> page_ref_inc x) s = upd_pm (set_page_ref x (page_ref x (pm s) + 1)) s"
  and ref_dec: "upd_pm (snd \<circ> page_ref_dec x) s = upd_pm (set_page_ref x (page_ref x (pm s) - 1)) s"
  by (simp_all add: upd_pm_def page_ref_inc_def page_ref_dec_def page_ref_def set_page_ref_def upd_page_def Let_def)

text \<open>The page an address is mapped to.\<close>

definition mapped :: "vmst \<Rightarrow> nat \<Rightarrow> nat \<Rightarrow> nat option" where
  "mapped s r la = (if valid (pte_at s r la) then Some (PPN (PTE_ADDR (pte_at s r la)) - nbase) else None)"

definition mapping_ok :: "vmst \<Rightarrow> nat \<Rightarrow> nat \<Rightarrow> bool" where
  "mapping_ok s r la \<longleftrightarrow> (valid (pte_at s r la) \<longrightarrow>
     nbase \<le> PPN (PTE_ADDR (pte_at s r la)) \<and> PPN (PTE_ADDR (pte_at s r la)) < npage s)"

lemma insert_tail:
  assumes "vm_mem s F" "pt_ok s F r" "leaf s r la = Some e" "t = set_entry e v s"
  shows "vm_mem t F" "pt_ok t F r" "tables t r = tables s r" "npage t = npage s"
    "pte_at t r la' = (if same_page la la' then v else pte_at s r la')" "pm t = pm s"
    "g \<notin> tables s r \<Longrightarrow> entry (g, b) t = entry (g, b) s"
proof -
  note sl = set_leaf [OF assms(2,3), where v = v]
  show "vm_mem t F" using assms(1) by (simp add: assms(4) vm_mem_def vm_fields)
  show "pt_ok t F r" "tables t r = tables s r" "pte_at t r la' = (if same_page la la' then v else pte_at s r la')"
    using sl(2-4) by (simp_all add: assms(4))
  show "npage t = npage s" "pm t = pm s" by (simp_all add: assms(4) vm_fields)
  obtain f where "node s r (path_of la) = Some f" "e = (f, PTX la)"
    using assms(3) by (auto simp: leaf_def split: option.splits)
  then show "entry (g, b) t = entry (g, b) s" if "g \<notin> tables s r"
    using that node_table [of s r "path_of la" f] by (auto simp: assms(4) vm_fields)
qed

lemma page_insert_new:
  assumes m: "vm_mem s F" and t: "pt_ok s F r" and p: "page \<notin> F" and nv: "mapped s r la = None"
  shows "\<exists>ret t F'. page_insert r page la perm s = Some (ret, t) \<and> vm_mem t F' \<and> pt_ok t F' r \<and> F' \<subseteq> F \<and>
    npage t = npage s \<and> tables t r \<subseteq> tables s r \<union> page_frames (F - F') \<and>
    (\<forall>g b. g \<notin> tables s r \<longrightarrow> g \<notin> page_frames F \<longrightarrow> entry (g, b) t = entry (g, b) s) \<and>
    (\<forall>x. PageReserved x (pm t) \<longrightarrow> PageReserved x (pm s)) \<and>
    (if ret = 0
     then (\<forall>la'. pte_at t r la' = (if same_page la la' then pte_create (page + nbase) (PTE_V OR perm) else pte_at s r la')) \<and>
       (\<forall>x. x \<notin> F - F' \<longrightarrow> ref (pages (pm t) x) = ref (pages (pm s) x) + (if x = page then 1 else 0))
     else ret = - E_NO_MEM \<and> F' = {} \<and> (\<forall>la'. pte_at t r la' = pte_at s r la') \<and>
       (\<forall>x. x \<notin> F - F' \<longrightarrow> ref (pages (pm t) x) = ref (pages (pm s) x))) \<and>
    (leaf s r la \<noteq> None \<longrightarrow> ret = 0 \<and> F' = F)"
proof -
  obtain u F' where u: "get_pte r la True s = Some (leaf u r la, u)" "vm_grow s F u F' r" "leaf u r la = None \<longrightarrow> F' = {}"
    "leaf s r la \<noteq> None \<longrightarrow> u = s \<and> F' = F"
    using get_pte_ok [OF m t, of la True] unfolding simp_thms by (elim exE conjE) (rule that; assumption)
  note U = vm_growD [OF u(2)]
  show ?thesis
  proof (cases "leaf u r la")
    case None
    then have "page_insert r page la perm s = Some (- E_NO_MEM, u)" using u(1) by (simp add: page_insert_def)
    then show ?thesis using U None u(3,4) by (auto simp: E_NO_MEM_def)
  next
    case (Some e)
    define w where "w = upd_pm (set_page_ref page (page_ref page (pm u) + 1)) u"
    define x where "x = set_entry e (pte_create (page + nbase) (PTE_V OR perm)) w"
    have "page \<notin> F'" using p U(3) by auto
    note W = upd_ref_ok [OF U(1,2) this w_def]
    have lw: "leaf w r la = Some e" using W(5) Some by simp
    note X = insert_tail [OF W(1,2) lw x_def]
    have "\<not> valid (entry e w)"
      using nv by (simp add: W(6) leaf_entry [OF Some] U(10) mapped_def split: if_splits)
    then have "page_insert r page la perm s = Some (0, x)"
      using u(1) Some by (simp add: page_insert_def ref_inc page2ppn_def flip: w_def x_def)
    moreover have "entry (g, b) x = entry (g, b) s" if "g \<notin> tables s r" "g \<notin> page_frames F" for g b
    proof -
      have "g \<notin> tables u r" using that U(3,6) by (auto simp: page_frames_def)
      then show ?thesis using U(7) [OF that] X(7) W(3,6) by simp
    qed
    moreover have "ref (pages (pm x) y) = ref (pages (pm s) y) + (if y = page then 1 else 0)" if "y \<notin> F - F'" for y
      using U(8) [OF that] W(8) X(6) by (auto simp: page_ref_def)
    ultimately show ?thesis
      using U X W u(4) by (intro exI [of _ 0] exI [of _ x] exI [of _ F']) auto
  qed
qed

subsection \<open>Copying a range of pages\<close>

text \<open>Another address space whose tables were not written.\<close>

lemma other_space:
  assumes "\<forall>g\<in>tables s r. \<forall>b. entry (g, b) t = entry (g, b) s" and "npage t = npage s"
  shows "tables t r = tables s r" "pte_at t r la = pte_at s r la" "leaf t r la = leaf s r la"
    "pt_ok s F r \<Longrightarrow> F' \<subseteq> F \<Longrightarrow> pt_ok t F' r"
proof -
  have n: "node t r q = node s r q" if "q \<in> paths" for q using assms(1) that by (intro node_cong) auto
  show tb: "tables t r = tables s r" by (auto simp: tables_def n)
  show "pt_ok s F r \<Longrightarrow> F' \<subseteq> F \<Longrightarrow> pt_ok t F' r" using n assms(2) by (fastforce simp: pt_ok_def tb)
  show "pte_at t r la = pte_at s r la"
    using assms(1) node_table [of s r "path_of la"] by (auto simp: pte_at_def n split: option.splits)
  show "leaf t r la = leaf s r la" by (simp add: leaf_def n)
qed

lemma page2kva_ok: "vm_mem s F \<Longrightarrow> p + nbase < npage s \<Longrightarrow> page2kva p s = Some (p + nbase)"
  by (simp add: page2kva_def page2pa_def page2ppn_def KADDR_def PGSHIFT_def push_bit_eq_mult index_eq vm_mem_def)

definition user_perm :: "64 word \<Rightarrow> 64 word" where "user_perm v = v AND PTE_USER"

text \<open>One turn of \<open>copy_loop\<close> at a mapped page.\<close>

lemma copy_page:
  assumes m: "vm_mem s F" and to: "pt_ok s F to" and fr: "pt_ok s F from" and dis: "tables s to \<inter> tables s from = {}"
    and v: "valid (pte_at s from la)" and q: "PPN (PTE_ADDR (pte_at s from la)) = q + nbase" "q + nbase < npage s"
      "q \<notin> F" "q + nbase \<notin> tables s to"
    and nm: "mapped s to la = None" and cF: "3 \<le> card F"
  shows "\<exists>t F' n. copy_loop to from la end' s =
      (if u64 (la + PGSIZE) \<noteq> 0 \<and> u64 (la + PGSIZE) < end' then copy_loop to from (u64 (la + PGSIZE)) end' t else Some (0, t)) \<and>
    vm_mem t F' \<and> pt_ok t F' to \<and> F' \<subseteq> F \<and> card F \<le> card F' + 3 \<and> n \<in> F \<and> n \<notin> F' \<and> npage t = npage s \<and>
    tables t to \<subseteq> tables s to \<union> page_frames (F - F') \<and> n + nbase \<notin> tables t to \<and>
    (\<forall>la'. pte_at t to la' = (if same_page la la'
       then pte_create (n + nbase) (PTE_V OR user_perm (pte_at s from la)) else pte_at s to la')) \<and>
    (\<forall>b. entry (n + nbase, b) t = entry (q + nbase, b) s) \<and>
    (\<forall>g b. g \<notin> tables s to \<longrightarrow> g \<notin> page_frames F \<longrightarrow> entry (g, b) t = entry (g, b) s)"
proof -
  obtain e where le: "leaf s from la = Some e" using pte_at_valid_leaf [OF v] by auto
  have get: "get_pte from la False s = Some (Some e, s)" using get_pte_ok [OF m fr, of la False] le by auto
  obtain u G where u: "get_pte to la True s = Some (leaf u to la, u)" "vm_grow s F u G to"
    "leaf u to la = None \<longrightarrow> G = {}" "card (F - G) \<le> 2"
    using get_pte_ok [OF m to, of la True] unfolding simp_thms by (elim exE conjE) (rule that; assumption)
  note U = vm_growD [OF u(2)]
  have fin: "finite F" using m ff.rep_finite [of "pm s" F] by (simp add: vm_mem_def)
  have cG: "card F \<le> card G + 2" using u(4) card_Diff_subset [of G F] U(3) fin finite_subset [OF U(3)] by auto
  then have G1: "G \<noteq> {}" using cF by auto
  then obtain ne where ne: "leaf u to la = Some ne" using u(3) by auto
  have ft: "g \<notin> page_frames F" if "g \<in> tables s from" for g
    using tables_range [OF fr that] by (auto simp: page_frames_def)
  have sf: "\<forall>g\<in>tables s from. \<forall>b. entry (g, b) u = entry (g, b) s"
    using U(7) ft dis by blast
  note of_u = other_space [OF sf U(4)]
  have eu: "entry e u = pte_at s from la" using leaf_entry [of u "from" la e] of_u(2,3) le by simp
  obtain n w where w: "n \<in> G" "alloc_page u = Some (Some n, w)" "ff_rep (pm w) (G - {n})" "frame w = frame u"
    "npage w = npage u" "\<And>y. ref (pages (pm w) y) = ref (pages (pm u) y)"
    using alloc_page_ok [of u G] U(1) G1 by (auto simp: vm_mem_def)
  have nn: "n + nbase < npage s" "n + nbase \<notin> tables u to"
    using U(1,4) w(1) tables_range [OF U(2), of "n + nbase"] by (auto simp: vm_mem_def)
  have mw: "vm_mem w (G - {n})" using U(1) w(3,5,6) by (simp add: vm_mem_def)
  have ew: "entry d w = entry d u" for d by (simp add: entry_def w(4))
  define x where "x = set_frame (n + nbase) (frame w (q + nbase)) w"
  have mx: "vm_mem x (G - {n})" using mw by (simp add: x_def vm_mem_def vm_fields)
  have ex: "entry (g, b) x = (if g = n + nbase then entry (q + nbase, b) w else entry (g, b) w)" for g b
    by (simp add: x_def vm_fields entry_def)
  have nx: "npage x = npage u" by (simp add: x_def vm_fields w(5))
  have tx: "\<forall>g\<in>tables u to. \<forall>b. entry (g, b) x = entry (g, b) u" using nn(2) by (auto simp: ex ew)
  note of_x = other_space [OF tx nx]
  have px: "pt_ok x (G - {n}) to" using of_x(4) [OF U(2)] by auto
  have nmx: "mapped x to la = None" using nm U(10) of_x(2) by (simp add: mapped_def split: if_splits)
  have lx: "leaf x to la \<noteq> None" using of_x(3) ne by simp
  obtain t where t: "page_insert to n la (user_perm (pte_at s from la)) x = Some (0, t)" "vm_mem t (G - {n})" "pt_ok t (G - {n}) to"
    "npage t = npage x" "tables t to \<subseteq> tables x to"
    "\<forall>g b. g \<notin> tables x to \<longrightarrow> g \<notin> page_frames (G - {n}) \<longrightarrow> entry (g, b) t = entry (g, b) x"
    "\<forall>la'. pte_at t to la' = (if same_page la la' then pte_create (n + nbase) (PTE_V OR user_perm (pte_at s from la)) else pte_at x to la')"
    using page_insert_new [OF mx px _ nmx, of n "user_perm (pte_at s from la)"] lx by (auto simp: page_frames_def)
  have kva: "page2kva q w = Some (q + nbase)" "page2kva n w = Some (n + nbase)"
    using page2kva_ok [OF mw] q(2) nn(1) w(5) U(4) by simp_all
  have vq: "pte2page (pte_at s from la) u = Some q" using pte_page [OF q(1) v] q(2) U(4) by (simp add: pte2page_def pa2page_def)
  have "copy_loop to from la end' s =
      (if u64 (la + PGSIZE) \<noteq> 0 \<and> u64 (la + PGSIZE) < end' then copy_loop to from (u64 (la + PGSIZE)) end' t else Some (0, t))"
    by (subst copy_loop.simps)
      (simp add: get leaf_entry [OF le] v u(1) ne eu vq w(2) kva t(1) user_perm_def [symmetric] Let_def flip: x_def)
  moreover have "entry (g, b) t = entry (g, b) s" if "g \<notin> tables s to" "g \<notin> page_frames F" for g b
  proof -
    have "g \<noteq> n + nbase" "g \<notin> page_frames (G - {n})" using that(2) w(1) U(3) by (auto simp: page_frames_def)
    moreover have "g \<notin> tables x to" using that U(3,6) of_x(1) by (auto simp: page_frames_def)
    ultimately show ?thesis using t(6) U(7) [OF that] by (simp add: ex ew)
  qed
  moreover have "entry (n + nbase, b) t = entry (q + nbase, b) s" for b
  proof -
    have "n + nbase \<notin> page_frames (G - {n})" by (auto simp: page_frames_def)
    then have "entry (n + nbase, b) t = entry (q + nbase, b) u" using t(6) nn(2) of_x(1) by (simp add: ex ew)
    moreover have "q + nbase \<notin> page_frames F" using q(3) by (auto simp: page_frames_def)
    ultimately show ?thesis using U(7) [OF q(4)] by simp
  qed
  moreover have "card F \<le> card (G - {n}) + 3"
    using cG w(1) finite_subset [OF U(3) fin] by (simp add: card_Diff_singleton)
  moreover have "tables t to \<subseteq> tables s to \<union> page_frames (F - (G - {n}))"
    using t(5) of_x(1) U(6) by (auto simp: page_frames_def)
  moreover have "n + nbase \<notin> tables t to" using t(5) of_x(1) nn(2) by blast
  moreover have "pte_at t to la' = (if same_page la la'
      then pte_create (n + nbase) (PTE_V OR user_perm (pte_at s from la)) else pte_at s to la')" for la'
    using t(7) of_x(2) U(10) by simp
  ultimately show ?thesis
    using t(2-4) w(1) U(3,4) nx by (intro exI [of _ t] exI [of _ "G - {n}"] exI [of _ n]) auto
qed

text \<open>The pages of \<open>[start, end)\<close> that can be copied, and what a copy means.\<close>

definition copyable :: "vmst \<Rightarrow> nat set \<Rightarrow> nat \<Rightarrow> nat \<Rightarrow> nat \<Rightarrow> bool" where
  "copyable s F to from la \<longleftrightarrow> mapped s to la = None \<and> (valid (pte_at s from la) \<longrightarrow>
     (\<exists>q. PPN (PTE_ADDR (pte_at s from la)) = q + nbase \<and> q + nbase < npage s \<and> q \<notin> F \<and> q + nbase \<notin> tables s to))"

definition page_copied :: "vmst \<Rightarrow> vmst \<Rightarrow> nat set \<Rightarrow> nat \<Rightarrow> nat \<Rightarrow> nat \<Rightarrow> bool" where
  "page_copied s t N to from la \<longleftrightarrow>
     (if valid (pte_at s from la)
      then \<exists>n\<in>N. pte_at t to la = pte_create (n + nbase) (PTE_V OR user_perm (pte_at s from la)) \<and>
        (\<forall>b. entry (n + nbase, b) t = entry (PPN (PTE_ADDR (pte_at s from la)), b) s)
      else pte_at t to la = pte_at s to la)"

definition copy_done :: "vmst \<Rightarrow> nat set \<Rightarrow> nat \<Rightarrow> nat \<Rightarrow> nat \<Rightarrow> nat \<Rightarrow> vmst \<Rightarrow> nat set \<Rightarrow> bool" where
  "copy_done s F to from start end' t F' \<longleftrightarrow> vm_mem t F' \<and> pt_ok t F' to \<and> F' \<subseteq> F \<and> npage t = npage s \<and>
     tables t to \<subseteq> tables s to \<union> page_frames (F - F') \<and>
     (\<forall>g b. g \<notin> tables s to \<longrightarrow> g \<notin> page_frames F \<longrightarrow> entry (g, b) t = entry (g, b) s) \<and>
     (\<forall>la<2 ^ 39. la < start \<or> end' \<le> la \<longrightarrow> pte_at t to la = pte_at s to la) \<and>
     (\<forall>la. start \<le> la \<longrightarrow> la < end' \<longrightarrow> 4096 dvd la \<longrightarrow> page_copied s t (F - F') to from la)"

lemma copy_done_refl:
  assumes "vm_mem s F" "pt_ok s F to" "\<And>la. start \<le> la \<Longrightarrow> la < end' \<Longrightarrow> 4096 dvd la \<Longrightarrow> \<not> valid (pte_at s from la)"
  shows "copy_done s F to from start end' s F"
  using assms by (auto simp: copy_done_def page_copied_def)

lemma copy_done_skip:
  assumes "copy_done s F to from start' end' t F'" "start \<le> start'" "end' \<le> 2 ^ 39"
    "\<And>la. start \<le> la \<Longrightarrow> la < start' \<Longrightarrow> la < end' \<Longrightarrow> 4096 dvd la \<Longrightarrow> \<not> valid (pte_at s from la)"
  shows "copy_done s F to from start end' t F'"
proof -
  have "page_copied s t (F - F') to from la" if "start \<le> la" "la < end'" "4096 dvd la" for la
  proof (cases "la < start'")
    case True
    then show ?thesis using assms(1,3) assms(4) [OF that(1) True that(2,3)] that(2) by (simp add: copy_done_def page_copied_def)
  qed (use assms(1) that in \<open>simp add: copy_done_def\<close>)
  then show ?thesis using assms(1,2) by (auto simp: copy_done_def)
qed

lemma path_of_block: "la div 2 ^ 21 = la' div 2 ^ 21 \<Longrightarrow> path_of la = path_of la'"
proof -
  assume "la div 2 ^ 21 = la' div 2 ^ 21"
  moreover have "x div 2 ^ 30 = x div 2 ^ 21 div 2 ^ 9" for x :: nat by (simp add: div_mult2_eq [symmetric])
  ultimately show ?thesis unfolding path_of_def index_eq by simp
qed

lemma no_leaf_block: "leaf s r la = None \<Longrightarrow> la div 2 ^ 21 = la' div 2 ^ 21 \<Longrightarrow> \<not> valid (pte_at s r la')"
  using path_of_block [of la la'] by (auto simp: leaf_def pte_at_def valid_def split: option.splits)


definition valid_pages :: "vmst \<Rightarrow> nat \<Rightarrow> nat \<Rightarrow> nat \<Rightarrow> nat set" where
  "valid_pages s r start end' = {la. start \<le> la \<and> la < end' \<and> 4096 dvd la \<and> valid (pte_at s r la)}"

lemma valid_pages_fin [simp]: "finite (valid_pages s r a b)" by (auto simp: valid_pages_def)

lemma valid_pages_skip:
  assumes "\<And>la. start \<le> la \<Longrightarrow> la < start' \<Longrightarrow> la < end' \<Longrightarrow> 4096 dvd la \<Longrightarrow> \<not> valid (pte_at s r la)" "start \<le> start'"
  shows "valid_pages s r start' end' = valid_pages s r start end'"
  using assms by (force simp: valid_pages_def)

lemma next_page: "4096 dvd (x::nat) \<Longrightarrow> 4096 dvd y \<Longrightarrow> x \<le> y \<Longrightarrow> y < x + 4096 \<Longrightarrow> y = x"
  by (elim dvdE) auto

lemma next_block:
  assumes "4096 dvd start" "start < 2 ^ 39"
  shows "ROUNDDOWN (u64 (start + PTSIZE)) PTSIZE = start div 2 ^ 21 * 2 ^ 21 + 2 ^ 21"
proof -
  have "u64 (start + PTSIZE) = start + 2 ^ 21" using assms by (simp add: PTSIZE_def PGSIZE_def NPTEENTRY_def)
  then show ?thesis by (simp add: ROUNDDOWN_def PTSIZE_def PGSIZE_def NPTEENTRY_def)
      (metis Nat.add_diff_assoc2 mod_less_eq_dividend minus_mod_eq_div_mult)
qed

lemma copy_done_step:
  assumes d: "copy_done t F1 to from (la + 4096) end' u F2" and la: "la < 2 ^ 39" "4096 dvd la" "la < end'" "end' \<le> 2 ^ 39" "4096 dvd end'"
    and t: "F1 \<subseteq> F" "n \<in> F" "n \<notin> F1" "npage t = npage s" "tables t to \<subseteq> tables s to \<union> page_frames (F - F1)" "n + nbase \<notin> tables t to"
    and p: "\<forall>la'. pte_at t to la' = (if same_page la la'
       then pte_create (n + nbase) (PTE_V OR user_perm (pte_at s from la)) else pte_at s to la')"
    and c: "\<forall>b. entry (n + nbase, b) t = entry (PPN (PTE_ADDR (pte_at s from la)), b) s"
    and e: "\<forall>g b. g \<notin> tables s to \<longrightarrow> g \<notin> page_frames F \<longrightarrow> entry (g, b) t = entry (g, b) s"
    and f: "\<And>la. pte_at t from la = pte_at s from la"
    and ok: "\<forall>la'. la \<le> la' \<and> la' < end' \<and> 4096 dvd la' \<longrightarrow> copyable s F to from la'"
    and v: "valid (pte_at s from la)"
  shows "copy_done s F to from la end' u F2"
proof -
  note D = d [unfolded copy_done_def]
  have out: "entry (g, b) u = entry (g, b) s" if "g \<notin> tables s to" "g \<notin> page_frames F" for g b
  proof -
    have "g \<notin> page_frames F1" "g \<notin> tables t to" using that t(1,5) by (auto simp: page_frames_def)
    then show ?thesis using D e that by auto
  qed
  have elsewhere: "pte_at u to la' = pte_at s to la'" if "la' < la \<or> end' \<le> la'" "la' < 2 ^ 39" for la'
  proof -
    have "\<not> same_page la la'" using that la by (auto simp: same_page_iff elim!: dvdE)
    then show ?thesis using D p that by auto
  qed
  have copied: "page_copied s u (F - F2) to from la'" if "la \<le> la'" "la' < end'" "4096 dvd la'" for la'
  proof (cases "la' = la")
    case True
    have "pte_at u to la = pte_at t to la" using D la by auto
    moreover have "n + nbase \<notin> page_frames F1" using t(3) by (auto simp: page_frames_def)
    then have "entry (n + nbase, b) u = entry (n + nbase, b) t" for b using D t(6) by auto
    moreover have "n \<in> F - F2" using D t by auto
    ultimately show ?thesis using True v p c by (auto simp: page_copied_def same_page_def intro!: bexI [of _ n])
  next
    case False
    then have "la + 4096 \<le> la'" using next_page [OF la(2) that(3)] that(1) by fastforce
    then have pc: "page_copied t u (F1 - F2) to from la'" using D that by auto
    have "\<not> same_page la la'" using False that la by (auto simp: same_page_iff elim!: dvdE)
    then have pt: "pte_at t to la' = pte_at s to la'" using p by simp
    have cp: "copyable s F to from la'" using ok that by simp
    show ?thesis
    proof (cases "valid (pte_at s from la')")
      case True
      then obtain q where q: "PPN (PTE_ADDR (pte_at s from la')) = q + nbase" "q \<notin> F" "q + nbase \<notin> tables s to"
        using cp by (auto simp: copyable_def)
      then have "entry (q + nbase, b) t = entry (q + nbase, b) s" for b using e by (auto simp: page_frames_def)
      then show ?thesis using pc True q(1) f t(1) by (auto simp: page_copied_def)
    next
      case False
      then show ?thesis using pc pt f by (simp add: page_copied_def)
    qed
  qed
  have "page_frames (F - F1) \<union> page_frames (F1 - F2) \<subseteq> page_frames (F - F2)"
    using D t(1) by (auto simp: page_frames_def)
  then have "tables u to \<subseteq> tables s to \<union> page_frames (F - F2)" using D t(5) by blast
  then show ?thesis unfolding copy_done_def using D t(1,4) out elsewhere copied by auto
qed


lemma copy_loop_ok:
  assumes "vm_mem s F" "pt_ok s F to" "pt_ok s F from" "tables s to \<inter> tables s from = {}"
    "\<forall>la. start \<le> la \<and> la < end' \<and> 4096 dvd la \<longrightarrow> copyable s F to from la"
    "3 * card (valid_pages s from start end') \<le> card F"
    "4096 dvd start" "4096 dvd end'" "start < end'" "end' \<le> 2 ^ 39"
  shows "\<exists>t F'. copy_loop to from start end' s = Some (0, t) \<and> copy_done s F to from start end' t F'"
  using assms
proof (induction "end' - start" arbitrary: s F start rule: less_induct)
  case less
  note m = less.prems(1) and tt = less.prems(2) and tf = less.prems(3) and dj = less.prems(4) and ok = less.prems(5)
    and al = less.prems(7,8) and se = less.prems(9) and e39 = less.prems(10)
  have skip: ?case if n: "copy_loop to from start end' s =
      (if nx \<noteq> 0 \<and> nx < end' then copy_loop to from nx end' s else Some (0, s))"
    and nx: "start < nx" "4096 dvd nx"
    and inv: "\<And>la. start \<le> la \<Longrightarrow> la < nx \<Longrightarrow> la < end' \<Longrightarrow> 4096 dvd la \<Longrightarrow> \<not> valid (pte_at s from la)" for nx
  proof (cases "nx < end'")
    case True
    have "end' - nx < end' - start" using nx True by simp
    from less.hyps [OF this m tt tf dj _ _ nx(2) al(2) True e39]
    obtain t F' where "copy_loop to from nx end' s = Some (0, t)" "copy_done s F to from nx end' t F'"
      using ok less.prems(6) valid_pages_skip [of start nx end' s "from"] inv nx(1) by (auto simp: less_imp_le)
    moreover have "copy_done s F to from start end' t F'"
      by (rule copy_done_skip [OF \<open>copy_done s F to from nx end' t F'\<close>]) (use nx e39 inv in auto)
    ultimately show ?thesis using n nx True by auto
  next
    case False
    have "copy_done s F to from start end' s F" by (rule copy_done_refl [OF m tt]) (use inv False in auto)
    then show ?thesis using n False by auto
  qed
  have s39: "start < 2 ^ 39" using se e39 by simp
  have get: "get_pte from start False s = Some (leaf s from start, s)"
    using get_pte_ok [OF m tf, of start False] by auto
  have sp: "u64 (start + PGSIZE) = start + 4096" using s39 by (simp add: PGSIZE_def)
  show ?case
  proof (cases "leaf s from start")
    case None
    have "\<not> valid (pte_at s from la)" if "start \<le> la" "la < start div 2 ^ 21 * 2 ^ 21 + 2 ^ 21" for la
      by (rule no_leaf_block [OF None]) (use that in \<open>simp add: div_nat_eqI dividend_less_div_times\<close>)
    moreover have "copy_loop to from start end' s =
      (if start div 2 ^ 21 * 2 ^ 21 + 2 ^ 21 \<noteq> 0 \<and> start div 2 ^ 21 * 2 ^ 21 + 2 ^ 21 < end'
       then copy_loop to from (start div 2 ^ 21 * 2 ^ 21 + 2 ^ 21) end' s else Some (0, s))"
      unfolding next_block [OF al(1) s39, symmetric] by (subst copy_loop.simps) (simp add: get None)
    moreover have "start < start div 2 ^ 21 * 2 ^ 21 + 2 ^ 21" by (simp add: dividend_less_div_times)
    moreover have "4096 dvd start div 2 ^ 21 * 2 ^ 21 + (2::nat) ^ 21" by (simp add: dvd_mult)
    ultimately show ?thesis by (intro skip) assumption+
  next
    case (Some e)
    show ?thesis
    proof (cases "valid (pte_at s from start)")
      case False
      have "\<not> valid (pte_at s from la)" if "start \<le> la" "la < start + 4096" "4096 dvd la" for la
        using next_page [OF al(1) that(3,1,2)] False by simp
      moreover have "copy_loop to from start end' s =
        (if start + 4096 \<noteq> 0 \<and> start + 4096 < end' then copy_loop to from (start + 4096) end' s else Some (0, s))"
        by (subst copy_loop.simps) (simp add: get Some leaf_entry [OF Some] False sp)
      moreover have "start < start + 4096" "4096 dvd start + 4096" using al(1) by simp_all
      ultimately show ?thesis by (intro skip [of "start + 4096"]) simp_all
    next
      case True
      then obtain q where q: "PPN (PTE_ADDR (pte_at s from start)) = q + nbase" "q + nbase < npage s"
        "q \<notin> F" "q + nbase \<notin> tables s to" and nm: "mapped s to start = None"
        using ok al se by (auto simp: copyable_def)
      let ?V = "valid_pages s from start end'"
      have sV: "start \<in> ?V" using True se al by (auto simp: valid_pages_def)
      then have "0 < card ?V" by (auto simp: card_gt_0_iff)
      then have c3: "3 \<le> card F" using less.prems(6) by linarith
      obtain t F1 n where t: "copy_loop to from start end' s =
          (if u64 (start + PGSIZE) \<noteq> 0 \<and> u64 (start + PGSIZE) < end' then copy_loop to from (u64 (start + PGSIZE)) end' t else Some (0, t))"
        "vm_mem t F1" "pt_ok t F1 to" "F1 \<subseteq> F" "card F \<le> card F1 + 3" "n \<in> F" "n \<notin> F1" "npage t = npage s"
        "tables t to \<subseteq> tables s to \<union> page_frames (F - F1)" "n + nbase \<notin> tables t to"
        "\<forall>la'. pte_at t to la' = (if same_page start la'
           then pte_create (n + nbase) (PTE_V OR user_perm (pte_at s from start)) else pte_at s to la')"
        "\<forall>b. entry (n + nbase, b) t = entry (q + nbase, b) s"
        "\<forall>g b. g \<notin> tables s to \<longrightarrow> g \<notin> page_frames F \<longrightarrow> entry (g, b) t = entry (g, b) s"
        using copy_page [OF m tt tf dj True q nm c3, of end'] unfolding simp_thms by (elim exE conjE) (rule that; assumption)
      have ff: "g \<notin> page_frames F" if "g \<in> tables s from" for g
        using tables_range [OF tf that] by (auto simp: page_frames_def)
      have sf: "\<forall>g\<in>tables s from. \<forall>b. entry (g, b) t = entry (g, b) s" using t(13) dj ff by blast
      note o = other_space [OF sf t(8)]
      have step: "copy_done t F1 to from (start + 4096) end' u F2 \<Longrightarrow> copy_done s F to from start end' u F2" for u F2
        by (rule copy_done_step [OF _ s39 al(1) se e39 al(2) t(4,6-11) _ t(13) o(2) ok True])
          (use t(12) q(1) in auto)
      show ?thesis
      proof (cases "start + 4096 < end'")
        case False
        have "copy_done t F1 to from (start + 4096) end' t F1" by (rule copy_done_refl [OF t(2,3)]) (use False in auto)
        then show ?thesis using step t(1) False sp by auto
      next
        case nx: True
        have dec: "end' - (start + 4096) < end' - start" using nx by simp
        have fr1: "pt_ok t F1 from" using o(4) [OF tf t(4)] .
        have dj1: "tables t to \<inter> tables t from = {}" using t(9) dj ff o(1) by (auto simp: page_frames_def)
        have ok1: "copyable t F1 to from la" if "start + 4096 \<le> la" "la < end'" "4096 dvd la" for la
        proof -
          have "\<not> same_page start la" using that e39 s39 al by (auto simp: same_page_iff elim!: dvdE)
          then have p: "pte_at t to la = pte_at s to la" using t(11) by simp
          have c: "copyable s F to from la" using ok that by simp
          have x: "q \<notin> F1 \<and> q + nbase \<notin> tables t to" if "q \<notin> F" "q + nbase \<notin> tables s to" for q
            using that t(4) subsetD [OF t(9), of "q + nbase"] by (auto simp: page_frames_def)
          show ?thesis using c t(8) p o(2) x by (auto simp: copyable_def mapped_def split: if_splits)
        qed
        have V: "valid_pages t from (start + 4096) end' = ?V - {start}"
          using next_page [OF al(1)] by (fastforce simp: valid_pages_def o(2))
        have "3 * card (valid_pages t from (start + 4096) end') \<le> card F1"
          using less.prems(6) t(5) sV unfolding V by (simp add: card_Diff_singleton)
        from less.hyps [OF dec t(2,3) fr1 dj1 _ this _ al(2) nx e39] obtain u F2 where
          "copy_loop to from (start + 4096) end' t = Some (0, u)" "copy_done t F1 to from (start + 4096) end' u F2"
          using ok1 al by auto
        then show ?thesis using step t(1) nx sp by auto
      qed
    qed
  qed
qed


subsection \<open>Mapping and looking up\<close>

lemma get_page_ok:
  assumes "vm_mem s F" "pt_ok s F r" "mapping_ok s r la"
  shows "get_page r la s = Some (mapped s r la, s)"
proof -
  have g: "get_pte r la False s = Some (leaf s r la, s)" using get_pte_ok [OF assms(1,2), of la False] by auto
  show ?thesis
  proof (cases "valid (pte_at s r la)")
    case True
    then obtain e where e: "leaf s r la = Some e" using pte_at_valid_leaf by blast
    have "PPN (PTE_ADDR (pte_at s r la)) = (PPN (PTE_ADDR (pte_at s r la)) - nbase) + nbase"
      "PPN (PTE_ADDR (pte_at s r la)) < npage s" using assms(3) True by (simp_all add: mapping_ok_def)
    then have "pte2page (entry e s) s = Some (PPN (PTE_ADDR (pte_at s r la)) - nbase)"
      using True leaf_entry [OF e] by (intro pte_page) simp_all
    then show ?thesis using g e True by (simp add: get_page_def mapped_def leaf_entry [OF e])
  next
    case False
    then show ?thesis using g by (auto simp: get_page_def mapped_def leaf_entry split: option.splits)
  qed
qed

definition replaced_ok :: "vmst \<Rightarrow> nat set \<Rightarrow> nat \<Rightarrow> nat \<Rightarrow> nat \<Rightarrow> bool" where
  "replaced_ok s F r page la \<longleftrightarrow> (\<forall>q. mapped s r la = Some q \<longrightarrow> mapping_ok s r la \<and> (q \<noteq> page \<longrightarrow> release_ok s F r q))"

text \<open>What a successful \<open>page_insert\<close> does to the reference counts.\<close>

definition moved_refs :: "vmst \<Rightarrow> vmst \<Rightarrow> nat \<Rightarrow> nat option \<Rightarrow> nat \<Rightarrow> bool" where
  "moved_refs s t page old x \<longleftrightarrow> page_ref x (pm t) =
     page_ref x (pm s) + (if x = page then 1 else 0) - (if old = Some x then 1 else 0)"

definition insert_done :: "vmst \<Rightarrow> nat set \<Rightarrow> nat \<Rightarrow> nat \<Rightarrow> nat \<Rightarrow> 64 word \<Rightarrow> int \<Rightarrow> vmst \<Rightarrow> nat set \<Rightarrow> bool" where
  "insert_done s F r page la perm ret t F' \<longleftrightarrow> vm_mem t F' \<and> pt_ok t F' r \<and> npage t = npage s \<and>
     (if ret = 0
      then (\<forall>la'. pte_at t r la' = (if same_page la la' then pte_create (page + nbase) (PTE_V OR perm) else pte_at s r la')) \<and>
        (\<forall>x. x \<notin> F - F' \<longrightarrow> moved_refs s t page (mapped s r la) x) \<and>
        F' - F = {q. mapped s r la = Some q \<and> q \<noteq> page \<and> page_ref q (pm s) = 1}
      else ret = - E_NO_MEM \<and> F' = {} \<and> (\<forall>la'. pte_at t r la' = pte_at s r la') \<and>
        (\<forall>x. x \<notin> F - F' \<longrightarrow> page_ref x (pm t) = page_ref x (pm s)))"

lemma page_insert_ok:
  assumes m: "vm_mem s F" and t: "pt_ok s F r" and p: "page \<notin> F" and old: "replaced_ok s F r page la"
  shows "\<exists>ret t F'. page_insert r page la perm s = Some (ret, t) \<and> insert_done s F r page la perm ret t F'"
proof (cases "mapped s r la")
  case None
  obtain ret t F' where "page_insert r page la perm s = Some (ret, t) \<and> vm_mem t F' \<and> pt_ok t F' r \<and> F' \<subseteq> F \<and>
    npage t = npage s \<and> tables t r \<subseteq> tables s r \<union> page_frames (F - F') \<and>
    (\<forall>g b. g \<notin> tables s r \<longrightarrow> g \<notin> page_frames F \<longrightarrow> entry (g, b) t = entry (g, b) s) \<and>
    (\<forall>x. PageReserved x (pm t) \<longrightarrow> PageReserved x (pm s)) \<and>
    (if ret = 0
     then (\<forall>la'. pte_at t r la' = (if same_page la la' then pte_create (page + nbase) (PTE_V OR perm) else pte_at s r la')) \<and>
       (\<forall>x. x \<notin> F - F' \<longrightarrow> ref (pages (pm t) x) = ref (pages (pm s) x) + (if x = page then 1 else 0))
     else ret = - E_NO_MEM \<and> F' = {} \<and> (\<forall>la'. pte_at t r la' = pte_at s r la') \<and>
       (\<forall>x. x \<notin> F - F' \<longrightarrow> ref (pages (pm t) x) = ref (pages (pm s) x))) \<and>
    (leaf s r la \<noteq> None \<longrightarrow> ret = 0 \<and> F' = F)"
    using page_insert_new [OF m t p None, of perm] by (elim exE) (rule that)
  then show ?thesis using None
    by (intro exI [of _ ret] exI [of _ t] exI [of _ F']) (auto simp: insert_done_def moved_refs_def page_ref_def)
next
  case (Some q)
  then have v: "valid (pte_at s r la)" and q: "PPN (PTE_ADDR (pte_at s r la)) = q + nbase" "q + nbase < npage s"
    and ro: "q \<noteq> page \<Longrightarrow> release_ok s F r q"
    using old by (auto simp: mapped_def replaced_ok_def mapping_ok_def split: if_splits)
  obtain e where e: "leaf s r la = Some e" using pte_at_valid_leaf [OF v] by auto
  have g: "get_pte r la True s = Some (Some e, s)" using get_pte_ok [OF m t, of la True] e by auto
  define w where "w = upd_pm (set_page_ref page (page_ref page (pm s) + 1)) s"
  note W = upd_ref_ok [OF m t p w_def]
  have lw: "leaf w r la = Some e" using W(5) e by simp
  have vw: "valid (entry e w)" "pte2page (entry e w) w = Some q"
    using v pte_page [of "pte_at s r la" q w] q by (simp_all add: W(6,7) leaf_entry [OF e])
  show ?thesis
  proof (cases "q = page")
    case True
    define u where "u = upd_pm (set_page_ref page (page_ref page (pm w) - 1)) w"
    define x where "x = set_entry e (pte_create (page + nbase) (PTE_V OR perm)) u"
    note U = upd_ref_ok [OF W(1,2) p u_def]
    have lu: "leaf u r la = Some e" using U(5) lw by simp
    note X = insert_tail [OF U(1,2) lu x_def]
    have "page_insert r page la perm s = Some (0, x)"
      using g vw True by (simp add: page_insert_def ref_inc ref_dec page2ppn_def flip: w_def u_def x_def)
    moreover have "page_ref y (pm x) = page_ref y (pm s)" for y using U(8) W(8) X(6) by (simp add: page_ref_def)
    ultimately show ?thesis using X U W Some True
      by (intro exI [of _ 0] exI [of _ x] exI [of _ F]) (auto simp: insert_done_def moved_refs_def)
  next
    case False
    have rw: "release_ok w F r q" using ro [OF False] False W by (simp add: release_ok_def page_ref_def)
    have vq: "valid (pte_at w r la)" "PPN (PTE_ADDR (pte_at w r la)) = q + nbase" using v q W(4) by simp_all
    have rq: "page_ref q (pm w) = page_ref q (pm s)" using W(8) False by (simp add: page_ref_def)
    obtain u F' where u: "page_remove_pte e w = Some u" "F' = (if page_ref q (pm w) = 1 then insert q F else F)"
      "vm_mem u F'" "pt_ok u F' r" "npage u = npage w" "tables u r = tables w r"
      "\<forall>la'. pte_at u r la' = (if same_page la la' then 0 else pte_at w r la')" "leaf u r la = Some e"
      "\<forall>e'. entry e' u = (if e' = e then 0 else entry e' w)"
      "\<forall>x. ref (pages (pm u) x) = (if x = q then ref (pages (pm w) x) - 1 else ref (pages (pm w) x))"
      using page_remove_pte_ok [OF W(1,2) lw vq rw] unfolding simp_thms by (elim exE conjE) (rule that; assumption)
    define x where "x = set_entry e (pte_create (page + nbase) (PTE_V OR perm)) u"
    note X = insert_tail [OF u(3,4,8) x_def]
    have "page_insert r page la perm s = Some (0, x)"
      using g vw False u(1) by (simp add: page_insert_def ref_inc ref_dec page2ppn_def flip: w_def x_def)
    moreover have "moved_refs s x page (Some q) y" for y
      using u(10) W(8) X(6) False by (simp add: page_ref_def moved_refs_def)
    moreover have "F' - F = {p. p = q \<and> page_ref q (pm s) = 1}"
      using u(2) rq ro [OF False] by (auto simp: release_ok_def)
    ultimately show ?thesis using X u(5,7) W(4,7) Some False
      by (intro exI [of _ 0] exI [of _ x] exI [of _ F']) (auto simp: insert_done_def)
  qed
qed

end
