(* ===== verification/Page_Table_Properties.thy ===== *)
theory Page_Table_Properties
  imports Page_Table_Proofs
begin
unbundle bit_operations_syntax

section \<open>Properties of the page tables\<close>

text \<open>
  The entry format, \<open>page_insert\<close>, \<open>page_remove\<close>, \<open>copy_range\<close> and \<open>exit_range\<close>, each with a concrete memory
  that meets its hypotheses.
\<close>

text \<open>
  The memory of the witnesses: eleven pages, the free ones being those of \<open>two_blocks\<close>; an address space
  rooted at page 8 whose tables are pages 2 and 3 and which maps page 4 at \<open>USERBASE\<close>; an empty one at page 9.
\<close>

definition one_page :: vmst where
  "one_page = \<lparr>pm = set_page_ref 4 1 two_blocks,
     frame = (\<lambda>f i.
       if f = nbase + 8 \<and> i = 0 then pte_create (nbase + 2) PTE_V
       else if f = nbase + 2 \<and> i = 1 then pte_create (nbase + 3) PTE_V
       else if f = nbase + 3 \<and> i = 0 then pte_create (nbase + 4) (PTE_R OR PTE_W OR PTE_U)
       else 0),
     npage = nbase + 11\<rparr>"

lemma perm_bits_consts [simp]: "perm_bits PTE_V" "perm_bits (PTE_R OR PTE_W OR PTE_U)" "perm_bits (PTE_V OR PTE_R)" "perm_bits (PTE_V OR (PTE_R OR PTE_W OR PTE_U))"
  by (simp_all add: perm_bits_def PTE_V_def PTE_R_def PTE_W_def PTE_U_def)

lemma nbase_bound: "k < 1000 \<Longrightarrow> nbase + k < 2 ^ 44"
  by (simp add: nbase_def PGSIZE_def)

lemma low_page_entry:
  assumes "perm_bits t" "k < 1000"
  shows "PPN (PTE_ADDR (pte_create (nbase + k) t)) = nbase + k" "valid (pte_create (nbase + k) t)"
  using pte_create_addr(2,3) [OF assms(1) nbase_bound [OF assms(2)]] by simp_all

lemma one_page_sub: "sub one_page f a =
    (if f = nbase + 8 \<and> a = 0 then Some (nbase + 2) else if f = nbase + 2 \<and> a = 1 then Some (nbase + 3)
     else if f = nbase + 3 \<and> a = 0 then Some (nbase + 4) else None)"
  by (auto simp: sub_def entry_def one_page_def low_page_entry simp del: add_2_eq_Suc') (simp_all add: valid_def)

lemma one_page_mem: "vm_mem one_page {0, 1, 5, 6, 7}"
proof -
  have "ff_rep two_blocks {0, 1, 5, 6, 7}"
    unfolding ff_rep_def using two_blocks_inv two_blocks_fields by blast
  then show ?thesis
    by (auto simp: vm_mem_def one_page_def ff_rep_ref set_ref_ref nbase_def PGSIZE_def two_blocks_def)
qed

lemma one_page_node: "q \<in> paths \<Longrightarrow> node one_page (nbase + 8) q = Some f \<longleftrightarrow>
    (q = [] \<and> f = nbase + 8 \<or> q = [0] \<and> f = nbase + 2 \<or> q = [0, 1] \<and> f = nbase + 3)"
  by (cases rule: path_cases) (auto simp: one_page_sub split: option.splits if_splits)

lemma one_page_node9: "q \<in> paths \<Longrightarrow> node one_page (nbase + 9) q = Some f \<longleftrightarrow> q = [] \<and> f = nbase + 9"
  by (cases rule: path_cases) (auto simp: one_page_sub split: option.splits if_splits)

lemma one_page_ok: "pt_ok one_page {0, 1, 5, 6, 7} (nbase + 8)" "pt_ok one_page {0, 1, 5, 6, 7} (nbase + 9)"
    "tables one_page (nbase + 8) = {nbase + 8, nbase + 2, nbase + 3}" "tables one_page (nbase + 9) = {nbase + 9}"
proof -
  have p: "[] \<in> paths" "[0] \<in> paths" "[0, 1] \<in> paths" by (simp_all add: paths_def)
  show t: "tables one_page (nbase + 8) = {nbase + 8, nbase + 2, nbase + 3}" "tables one_page (nbase + 9) = {nbase + 9}"
    unfolding tables_def Bex_def using one_page_node one_page_node9 p by blast+
  show "pt_ok one_page {0, 1, 5, 6, 7} (nbase + 8)" "pt_ok one_page {0, 1, 5, 6, 7} (nbase + 9)"
    unfolding pt_ok_def t using one_page_node one_page_node9 by (auto simp: one_page_def)
qed

lemma one_page_path: "path_of USERBASE = [0, 1]" "PTX USERBASE = 0"
  by (simp_all add: path_of_def index_eq USERBASE_def)

lemma one_page_pte: "pte_at one_page (nbase + 8) USERBASE = pte_create (nbase + 4) (PTE_R OR PTE_W OR PTE_U)"
    "pte_at one_page (nbase + 9) la = 0"
proof -
  have "node one_page (nbase + 8) [0, 1] = Some (nbase + 3)" by (simp add: one_page_sub)
  then show "pte_at one_page (nbase + 8) USERBASE = pte_create (nbase + 4) (PTE_R OR PTE_W OR PTE_U)"
    by (simp add: pte_at_def one_page_path) (simp add: entry_def one_page_def)
  show "pte_at one_page (nbase + 9) la = 0" by (simp add: pte_at_def path_of_def one_page_sub)
qed

lemma one_page_release: "release_ok one_page {0, 1, 5, 6, 7} (nbase + 8) 4"
  by (simp add: release_ok_def one_page_ok)
    (simp add: one_page_def page_ref_def set_ref_ref page_simps two_blocks_fields)

lemma one_page_mapped: "mapped one_page (nbase + 8) USERBASE = Some 4" "mapping_ok one_page (nbase + 8) USERBASE"
  by (simp_all add: mapped_def mapping_ok_def one_page_pte low_page_entry) (simp add: one_page_def)

text \<open>
  An entry made by \<open>pte_create\<close> from a page number and flag bits reads back as this page number, is
  valid, and carries the flags; \<open>PTE_ADDR\<close> is the address of the page.
\<close>

lemma pte_create_roundtrip:
  assumes "perm_bits t" "ppn < 2 ^ 44"
  shows "PPN (PTE_ADDR (pte_create ppn t)) = ppn \<and> PTE_ADDR (pte_create ppn t) = ppn * PGSIZE \<and>
    valid (pte_create ppn t) \<and> pte_create ppn t AND 0x3FF = PTE_V OR t"
proof -
  have m: "(0x3FF :: 64 word) = mask 10" by (simp add: mask_eq_exp_minus_1)
  have "push_bit 10 w AND 0x3FF = 0" for w :: "64 word"
    unfolding m by (rule bit_eqI) (auto simp: bit_simps)
  moreover have "t AND 0x3FF = t"
  proof -
    have "t = (t AND 0x3FF) OR (t AND NOT 0x3FF)" by (simp flip: bit.conj_disj_distrib)
    then show ?thesis using assms(1) by (simp add: perm_bits_def)
  qed
  ultimately have "pte_create ppn t AND 0x3FF = PTE_V OR t"
    by (simp add: pte_create_def PTE_PPN_SHIFT_def bit.conj_disj_distrib2) (simp add: PTE_V_def)
  then show ?thesis using pte_create_addr [OF assms] by (simp add: PGSIZE_def del: One_nat_def)
qed



text \<open>
  \<open>page_remove\<close> of a mapped address returns; the address is unmapped, \<open>get_page\<close> finds nothing there, every
  other mapping stays, the page loses one reference, and it becomes free exactly when that was the last.
\<close>

lemma page_remove_unmaps:
  assumes "vm_mem s F" "pt_ok s F r" "mapped s r la = Some q" "mapping_ok s r la" "release_ok s F r q"
  shows "\<exists>t F'. page_remove r la s = Some t \<and> vm_mem t F' \<and> pt_ok t F' r \<and> get_page r la t = Some (None, t) \<and>
    (\<forall>la'. \<not> same_page la la' \<longrightarrow> pte_at t r la' = pte_at s r la') \<and>
    (\<forall>x. page_ref x (pm t) = page_ref x (pm s) - (if x = q then 1 else 0)) \<and>
    F' = (if page_ref q (pm s) = 1 then insert q F else F)"
proof -
  have v: "valid (pte_at s r la)" "PPN (PTE_ADDR (pte_at s r la)) = q + nbase"
    using assms(3,4) by (auto simp: mapped_def mapping_ok_def split: if_splits)
  obtain e where e: "leaf s r la = Some e" using pte_at_valid_leaf [OF v(1)] by auto
  have g: "get_pte r la False s = Some (Some e, s)" using get_pte_ok [OF assms(1,2), of la False] e by auto
  obtain t F' where t: "page_remove_pte e s = Some t" "F' = (if page_ref q (pm s) = 1 then insert q F else F)"
    "vm_mem t F'" "pt_ok t F' r" "npage t = npage s" "tables t r = tables s r"
    "\<forall>la'. pte_at t r la' = (if same_page la la' then 0 else pte_at s r la')" "leaf t r la = Some e"
    "\<forall>e'. entry e' t = (if e' = e then 0 else entry e' s)"
    "\<forall>x. ref (pages (pm t) x) = (if x = q then ref (pages (pm s) x) - 1 else ref (pages (pm s) x))"
    using page_remove_pte_ok [OF assms(1,2) e v assms(5)] unfolding simp_thms by (elim exE conjE) (rule that; assumption)
  have z: "pte_at t r la = 0" using t(7) by (simp add: same_page_def)
  have "get_page r la t = Some (None, t)"
    using get_page_ok [OF t(3,4), of la] z by (simp add: mapping_ok_def mapped_def valid_def)
  then show ?thesis using t g e by (intro exI [of _ t] exI [of _ F']) (auto simp: page_remove_def page_ref_def)
qed


lemma one_page_valid: "valid_pages one_page (nbase + 8) USERBASE (USERBASE + 4096) = {USERBASE}"
proof -
  have "la = USERBASE" if "USERBASE \<le> la" "la < USERBASE + 4096" "4096 dvd la" for la
    by (rule next_page) (use that in \<open>simp_all add: USERBASE_def\<close>)
  then show ?thesis using one_page_mapped(1) by (auto simp: valid_pages_def mapped_def USERBASE_def split: if_splits)
qed



lemma exit_range_block:
  assumes "start mod PTSIZE = 0" "USER_ACCESS start (start + PTSIZE)"
  shows "exit_range r start (start + PTSIZE) s = exit_loop r (ROUNDDOWN start PDSIZE) start (start + PTSIZE) s"
proof -
  have "start mod PGSIZE = 0" "(start + PTSIZE) mod PGSIZE = 0"
    using assms(1) dvd_trans [of PGSIZE PTSIZE start] by (auto simp: PTSIZE_def mod_eq_0_iff_dvd)
  then show ?thesis using assms by (simp add: exit_range_def ROUNDDOWN_def)
qed

lemma exit_pd0_slot:
  assumes m: "vm_mem s F" and e0: "valid (entry (pd, PDX0 start) s)" "PPN (PTE_ADDR (entry (pd, PDX0 start) s)) = pt + nbase"
    and n: "pt + nbase < npage s" and empty: "\<forall>i<512. \<not> valid (entry (pt + nbase, i) s)"
    and st: "USER_ACCESS start (start + PTSIZE)" and u: "free_page pt s = Some u"
  shows "exit_pd0_loop pd d1 (start + PTSIZE) start True s = Some (True, set_entry (pd, PDX0 start) 0 u)"
proof -
  have p: "pde2page (entry (pd, PDX0 start) s) s = Some pt"
    using e0 n by (simp add: pde2page_def PDE_ADDR_def pa2page_def)
  have k: "page2kva pt s = Some (pt + nbase)" using page2kva_ok [OF m n] .
  have l: "list_all (\<lambda>i. \<not> valid (entry (pt + nbase, i) s)) [0..<NPTEENTRY]"
    using empty by (simp add: list_all_iff NPTEENTRY_def)
  have n: "\<not> (u64 (start + PTSIZE) \<noteq> 0 \<and> u64 (start + PTSIZE) < u64 (d1 + PDSIZE) \<and> u64 (start + PTSIZE) < start + PTSIZE)"
    using st by (simp add: PTSIZE_def PGSIZE_def NPTEENTRY_def USER_ACCESS_def USERTOP_def)
  show ?thesis by (subst exit_pd0_loop.simps) (simp only: p n e0(1) Let_def, simp add: k l u)
qed

lemma block_last_turn:
  assumes "start mod PTSIZE = 0" "USER_ACCESS start (start + PTSIZE)"
  shows "PDX1 (ROUNDDOWN start PDSIZE) = PDX1 start"
    "\<not> (u64 (ROUNDDOWN start PDSIZE + PDSIZE) \<noteq> 0 \<and> u64 (ROUNDDOWN start PDSIZE + PDSIZE) < start + PTSIZE)"
proof -
  show "PDX1 (ROUNDDOWN start PDSIZE) = PDX1 start"
    by (simp add: index_eq ROUNDDOWN_def PDSIZE_def PTSIZE_def PGSIZE_def NPTEENTRY_def NPDEENTRY_def minus_mod_eq_mult_div)
  obtain k where k: "start = PTSIZE * k" using assms(1) by (auto simp: mod_eq_0_iff_dvd)
  have "k mod 512 + 1 \<le> 512" using mod_less_divisor [of 512 k] by linarith
  then have "PTSIZE * (k mod 512 + 1) \<le> PTSIZE * 512" by (rule mult_le_mono2)
  then have "start mod PDSIZE + PTSIZE \<le> PDSIZE"
    by (simp add: k PDSIZE_def NPDEENTRY_def algebra_simps flip: mult_mod_right)
  then have "start + PTSIZE \<le> ROUNDDOWN start PDSIZE + PDSIZE"
    using mod_less_eq_dividend [of start PDSIZE] by (simp add: ROUNDDOWN_def)
  moreover have "ROUNDDOWN start PDSIZE + PDSIZE < 2 ^ 64"
    using assms(2) le_less_trans [OF ROUNDDOWN_le, of start "2 ^ 31" PDSIZE]
    by (simp add: PDSIZE_def PTSIZE_def PGSIZE_def NPTEENTRY_def NPDEENTRY_def USER_ACCESS_def USERTOP_def)
  ultimately show "\<not> (u64 (ROUNDDOWN start PDSIZE + PDSIZE) \<noteq> 0 \<and> u64 (ROUNDDOWN start PDSIZE + PDSIZE) < start + PTSIZE)"
    by simp
qed

text \<open>
  C24: releasing an empty table releases its directory with it. When a range is one second-level slot whose
  table is empty, \<open>exit_range\<close> frees the table and then the directory that holds the slot, and clears the
  first-level entry, whatever the other entries of the directory are: the tables they point to can no longer
  be reached.
\<close>

theorem exit_range_drops_directory:
  assumes "vm_mem s F" "pt_ok s F r"
    and dirs: "node s r [PDX1 start] = Some (pd + nbase)" "node s r (path_of start) = Some (pt + nbase)"
    and empty: "\<forall>i<512. \<not> valid (entry (pt + nbase, i) s)"
    and range: "start mod PTSIZE = 0" "USER_ACCESS start (start + PTSIZE)"
    and free: "\<not> PageReserved pd (pm s)" "\<not> PageReserved pt (pm s)" "\<exists>p\<in>F. pd < p \<and> pt < p"
  shows "\<exists>t. exit_range r start (start + PTSIZE) s = Some t \<and> vm_mem t (insert pd (insert pt F)) \<and>
    node t r [PDX1 start] = None \<and>
    (\<forall>i. i \<noteq> PDX0 start \<longrightarrow> entry (pd + nbase, i) t = entry (pd + nbase, i) s)"
proof -
  let ?d1 = "ROUNDDOWN start PDSIZE" and ?fin = "start + PTSIZE"
  have pths: "[PDX1 start] \<in> paths" "path_of start \<in> paths" "[] \<in> paths" by (simp_all add: paths_def path_of_def)
  have inj: "p = q" if "p \<in> paths" "q \<in> paths" "node s r p = Some f" "node s r q = Some f" for p q f
    using assms(2) that by (auto simp: pt_ok_def)
  have ne: "pd \<noteq> pt" "r \<noteq> pd + nbase" "r \<noteq> pt + nbase"
    using inj [OF pths(1,2), of "pt + nbase"] inj [OF pths(3,1), of r] inj [OF pths(3,2), of r] dirs
    by (auto simp: path_of_def)
  note R = tables_range [OF assms(2)]
  have rg: "pd + nbase < npage s" "pd \<notin> F" "pt + nbase < npage s" "pt \<notin> F"
    using R [of "pd + nbase"] R [of "pt + nbase"] node_table [OF dirs(1) pths(1)] node_table [OF dirs(2) pths(2)] by auto
  have e1: "valid (entry (r, PDX1 start) s)" "PPN (PTE_ADDR (entry (r, PDX1 start) s)) = pd + nbase"
    using dirs(1) by (auto simp: sub_def split: if_splits)
  have e0: "valid (entry (pd + nbase, PDX0 start) s)" "PPN (PTE_ADDR (entry (pd + nbase, PDX0 start) s)) = pt + nbase"
    using dirs by (auto simp: sub_def path_of_def split: if_splits)
  obtain u where u: "free_page pt s = Some u" "vm_mem u (insert pt F)" "frame u = frame s" "npage u = npage s"
    "\<forall>x. PageReserved x (pm u) \<longrightarrow> PageReserved x (pm s)"
    using free_page_ok [OF assms(1) rg(4,3) free(2)] free(3) by blast
  define w where "w = set_entry (pd + nbase, PDX0 start) 0 u"
  have w: "vm_mem w (insert pt F)" "npage w = npage s" "pm w = pm u"
    using u by (simp_all add: w_def vm_mem_def vm_fields)
  obtain x where x: "free_page pd w = Some x" "vm_mem x (insert pd (insert pt F))" "frame x = frame w" "npage x = npage w"
    using free_page_ok [OF w(1), of pd] rg ne(1) w(2,3) u(5) free by auto
  define y where "y = set_entry (r, PDX1 start) 0 x"
  have inner: "exit_pd0_loop (pd + nbase) ?d1 ?fin start True s = Some (True, w)"
    unfolding w_def by (rule exit_pd0_slot [OF assms(1) e0 rg(3) empty range(2) u(1)])
  have p: "pde2page (entry (r, PDX1 start) s) s = Some pd"
    using e1 rg(1) by (simp add: pde2page_def PDE_ADDR_def pa2page_def)
  have out: "exit_loop r ?d1 start ?fin s = Some y"
    using p page2kva_ok [OF assms(1) rg(1)] inner x(1) block_last_turn [OF range] e1(1)
    by (subst exit_loop.simps) (simp only: block_last_turn(1) Let_def, simp flip: y_def)
  have "vm_mem y (insert pd (insert pt F))" using x(2) by (simp add: y_def vm_mem_def vm_fields)
  moreover have "node y r [PDX1 start] = None" by (simp add: y_def sub_def vm_fields valid_def)
  moreover have "entry (pd + nbase, i) y = entry (pd + nbase, i) s" if "i \<noteq> PDX0 start" for i
    using that ne(2) x(3) u(3) by (simp add: y_def w_def vm_fields entry_def)
  ultimately show ?thesis using exit_range_block [OF range] out by auto
qed

text \<open>The table of \<open>USERBASE\<close> is empty; another table of the same directory is in use.\<close>

definition two_tables :: vmst where
  "two_tables = set_entry (nbase + 2, 7) (pte_create (nbase + 10) PTE_V) (set_entry (nbase + 3, 0) 0 one_page)"

lemma two_tables_sub: "sub two_tables f a =
    (if f = nbase + 2 \<and> a = 7 then Some (nbase + 10) else if f = nbase + 3 \<and> a = 0 then None else sub one_page f a)"
  by (auto simp: sub_def two_tables_def vm_fields low_page_entry) (simp_all add: valid_def)

lemma two_tables_node: "q \<in> paths \<Longrightarrow> node two_tables (nbase + 8) q = Some f \<longleftrightarrow>
    (q = [] \<and> f = nbase + 8 \<or> q = [0] \<and> f = nbase + 2 \<or> q = [0, 1] \<and> f = nbase + 3 \<or> q = [0, 7] \<and> f = nbase + 10)"
  by (cases rule: path_cases) (auto simp: one_page_sub two_tables_sub split: option.splits if_splits)

theorem exit_range_drops_directory_witness:
  "\<exists>t. exit_range (nbase + 8) USERBASE (USERBASE + PTSIZE) two_tables = Some t \<and>
     node two_tables (nbase + 8) [0, 7] = Some (nbase + 10) \<and>
     vm_mem t {2, 3, 0, 1, 5, 6, 7} \<and> node t (nbase + 8) [0] = None \<and>
     entry (nbase + 2, 7) t = entry (nbase + 2, 7) two_tables"
proof -
  have p: "[] \<in> paths" "[0] \<in> paths" "[0, 1] \<in> paths" "[0, 7] \<in> paths" by (simp_all add: paths_def)
  have m: "vm_mem two_tables {0, 1, 5, 6, 7}" using one_page_mem by (simp add: two_tables_def vm_mem_def vm_fields)
  have t: "tables two_tables (nbase + 8) = {nbase + 8, nbase + 2, nbase + 3, nbase + 10}"
    unfolding tables_def Bex_def using two_tables_node p by blast
  have ok: "pt_ok two_tables {0, 1, 5, 6, 7} (nbase + 8)"
    unfolding pt_ok_def t using two_tables_node by (auto simp: two_tables_def vm_fields one_page_def)
  have dir: "PDX1 USERBASE = 0" "PDX0 USERBASE = 1" by (simp_all add: index_eq USERBASE_def)
  have n: "node two_tables (nbase + 8) [PDX1 USERBASE] = Some (2 + nbase)"
    "node two_tables (nbase + 8) (path_of USERBASE) = Some (3 + nbase)"
    using two_tables_node [OF p(2)] two_tables_node [OF p(3)] by (simp_all only: dir one_page_path) (simp_all add: add.commute)
  have e: "\<forall>i<512. \<not> valid (entry (3 + nbase, i) two_tables)"
  proof (intro allI impI)
    fix i
    have "sub two_tables (3 + nbase) i = None" by (simp add: two_tables_sub one_page_sub)
    then show "\<not> valid (entry (3 + nbase, i) two_tables)" by (simp add: sub_def split: if_splits)
  qed
  have r: "\<not> PageReserved q (pm two_tables)" for q
    by (simp add: two_tables_def vm_fields one_page_def page_simps two_blocks_fields)
  have g: "USERBASE mod PTSIZE = 0" "USER_ACCESS USERBASE (USERBASE + PTSIZE)"
    by (simp_all add: USERBASE_def PTSIZE_def PGSIZE_def NPTEENTRY_def USER_ACCESS_def USERTOP_def)
  obtain t where "exit_range (nbase + 8) USERBASE (USERBASE + PTSIZE) two_tables = Some t"
    "vm_mem t (insert 2 (insert 3 {0, 1, 5, 6, 7}))" "node t (nbase + 8) [PDX1 USERBASE] = None"
    "\<forall>i. i \<noteq> PDX0 USERBASE \<longrightarrow> entry (2 + nbase, i) t = entry (2 + nbase, i) two_tables"
    using exit_range_drops_directory [OF m ok n e g r r] by auto
  moreover have "node two_tables (nbase + 8) [0, 7] = Some (nbase + 10)" using two_tables_node [OF p(4)] by simp
  ultimately show ?thesis unfolding dir by (intro exI [of _ t]) (simp add: add.commute)
qed

end
