(* ===== verification/Slob.thy ===== *)
theory Slob
  imports Page_Table_Proofs
begin

unbundle bit_operations_syntax

section \<open>The kernel heap (kern/mm/kmalloc.c)\<close>

text \<open>
  \<open>kmalloc\<close> over the SLOB allocator. A kernel address is the number of its byte; the linear map of the kernel
  makes the page with frame number \<open>f\<close> start at \<open>f * PGSIZE\<close>. \<open>slobs\<close> and \<open>bigs\<close> give the \<open>slob_t\<close> and the
  \<open>bigblock_t\<close> at an address; the two views of the same bytes are never used at the same time, as a
  \<open>bigblock_t\<close> is freed with its size given. \<open>arena\<close> is the address of the static block of that name. The
  spin locks are \<open>local_intr_save\<close> and have no effect on the state.
\<close>

subsection \<open>State\<close>

record slob_block =
  units :: int
  snext :: nat

record bigblock =
  border :: int
  bpages :: nat
  bnext :: "nat option"

record hpst =
  vm :: vmst
  slobs :: "nat \<Rightarrow> slob_block"
  slobfree :: nat
  bigs :: "nat \<Rightarrow> bigblock"
  bigblocks :: "nat option"
  arena :: nat

definition SLOB_UNIT :: nat where "SLOB_UNIT = 16"
definition SIZEOF_BIGBLOCK :: nat where "SIZEOF_BIGBLOCK = 24"
definition SLOB_UNITS :: "nat \<Rightarrow> int" where "SLOB_UNITS size' = int ((size' + SLOB_UNIT - 1) div SLOB_UNIT)"

definition ALIGN :: "nat \<Rightarrow> nat \<Rightarrow> nat" where
  "ALIGN addr size' =
     unat ((word_of_nat addr + word_of_nat size' - 1 :: 64 word) AND NOT (word_of_nat size' - 1))"

definition upd_slob :: "nat \<Rightarrow> (slob_block \<Rightarrow> slob_block) \<Rightarrow> hpst \<Rightarrow> hpst" where
  "upd_slob a f s = s\<lparr>slobs := (slobs s)(a := f (slobs s a))\<rparr>"

definition set_units :: "nat \<Rightarrow> int \<Rightarrow> hpst \<Rightarrow> hpst" where "set_units a v = upd_slob a (\<lambda>d. d\<lparr>units := v\<rparr>)"
definition set_snext :: "nat \<Rightarrow> nat \<Rightarrow> hpst \<Rightarrow> hpst" where "set_snext a v = upd_slob a (\<lambda>d. d\<lparr>snext := v\<rparr>)"
definition un :: "nat \<Rightarrow> hpst \<Rightarrow> int" where "un a s = units (slobs s a)"
definition nx :: "nat \<Rightarrow> hpst \<Rightarrow> nat" where "nx a s = snext (slobs s a)"

definition upd_big :: "nat \<Rightarrow> (bigblock \<Rightarrow> bigblock) \<Rightarrow> hpst \<Rightarrow> hpst" where
  "upd_big a f s = s\<lparr>bigs := (bigs s)(a := f (bigs s a))\<rparr>"

text \<open>\<open>b + n\<close> for a \<open>slob_t *\<close>\<close>

definition slob_plus :: "nat \<Rightarrow> int \<Rightarrow> nat" where "slob_plus b n = nat (int b + int SLOB_UNIT * n)"

subsection \<open>Blocks\<close>

definition slob_get_free_pages :: "nat \<Rightarrow> hpst \<Rightarrow> (nat option \<times> hpst) kresult" where
  "slob_get_free_pages order s = do {
     (page, p) \<leftarrow> default_alloc_pages (2 ^ order) (pm (vm s));
     let s = s\<lparr>vm := (vm s)\<lparr>pm := p\<rparr>\<rparr>;
     (case page of
        None \<Rightarrow> Some (None, s)
      | Some page \<Rightarrow> do { f \<leftarrow> page2kva page (vm s); Some (Some (f * PGSIZE), s) })
   }"

definition slob_free_pages :: "nat \<Rightarrow> nat \<Rightarrow> hpst \<Rightarrow> hpst kresult" where
  "slob_free_pages kva order s = do {
     page \<leftarrow> pa2page kva (vm s);
     p \<leftarrow> default_free_pages page (2 ^ order) (pm (vm s));
     Some (s\<lparr>vm := (vm s)\<lparr>pm := p\<rparr>\<rparr>)
   }"

partial_function (option) slob_find :: "nat \<Rightarrow> nat \<Rightarrow> hpst \<Rightarrow> nat option" where
  "slob_find b cur s =
     (if \<not> (b > cur \<and> b < nx cur s)
      then if cur \<ge> nx cur s \<and> (b > cur \<or> b < nx cur s) then Some cur else slob_find b (nx cur s) s
      else Some cur)"

definition slob_free :: "nat option \<Rightarrow> nat \<Rightarrow> hpst \<Rightarrow> hpst kresult" where
  "slob_free blk size' s = (case blk of
     None \<Rightarrow> Some s
   | Some b \<Rightarrow> do {
       let s = (if size' \<noteq> 0 then set_units b (SLOB_UNITS size') s else s);
       cur \<leftarrow> slob_find b (slobfree s) s;
       let s = (if slob_plus b (un b s) = nx cur s
                then let s = set_units b (un b s + un (nx cur s) s) s in set_snext b (nx (nx cur s) s) s
                else set_snext b (nx cur s) s);
       let s = (if slob_plus cur (un cur s) = b
                then let s = set_units cur (un cur s + un b s) s in set_snext cur (nx b s) s
                else set_snext cur b s);
       Some (s\<lparr>slobfree := cur\<rparr>)
     })"

text \<open>
  The loop of \<open>slob_alloc\<close>, at a value of \<open>prev\<close> and \<open>cur\<close>. \<open>slob_split\<close> cuts the head of the block off when it
  has to be aligned; \<open>slob_take\<close> unlinks the block or its first part.
\<close>

definition slob_split :: "nat \<Rightarrow> int \<Rightarrow> nat \<Rightarrow> hpst \<Rightarrow> hpst" where
  "slob_split cur delta aligned s =
     (let s = set_units aligned (un cur s - delta) s;
          s = set_snext aligned (nx cur s) s;
          s = set_snext cur aligned s
      in set_units cur delta s)"

definition slob_take :: "int \<Rightarrow> nat \<Rightarrow> nat \<Rightarrow> hpst \<Rightarrow> hpst" where
  "slob_take n prev cur s =
     (let s = (if un cur s = n then set_snext prev (nx cur s) s
               else let s = set_snext prev (slob_plus cur n) s;
                        s = set_units (nx prev s) (un cur s - n) s;
                        s = set_snext (nx prev s) (nx cur s) s
                    in set_units cur n s)
      in s\<lparr>slobfree := prev\<rparr>)"

partial_function (option) slob_scan :: "nat \<Rightarrow> nat \<Rightarrow> nat \<Rightarrow> nat \<Rightarrow> hpst \<Rightarrow> (nat option \<times> hpst) option" where
  "slob_scan size' align prev cur s =
     (let n = SLOB_UNITS size';
          aligned = (if align \<noteq> 0 then ALIGN cur align else 0);
          delta = (if align \<noteq> 0 then (int aligned - int cur) div int SLOB_UNIT else 0)
      in if un cur s \<ge> n + delta
         then let (prev, cur, s) = (if delta \<noteq> 0 then (cur, aligned, slob_split cur delta aligned s) else (prev, cur, s))
              in Some (Some cur, slob_take n prev cur s)
         else if cur = slobfree s
         then if size' = PGSIZE then Some (None, s)
              else do {
                (page, s) \<leftarrow> slob_get_free_pages 0 s;
                (case page of
                   None \<Rightarrow> Some (None, s)
                 | Some page \<Rightarrow> do {
                     s \<leftarrow> slob_free (Some page) PGSIZE s;
                     let cur = slobfree s;
                     slob_scan size' align cur (nx cur s) s
                   })
              }
         else slob_scan size' align cur (nx cur s) s)"

definition slob_alloc :: "nat \<Rightarrow> nat \<Rightarrow> hpst \<Rightarrow> (nat option \<times> hpst) kresult" where
  "slob_alloc size' align s = do {
     kassert (size' + SLOB_UNIT < PGSIZE);
     let prev = slobfree s;
     slob_scan size' align prev (nx prev s) s
   }"

subsection \<open>kmalloc and kfree\<close>

function find_order_loop :: "int \<Rightarrow> nat \<Rightarrow> nat" where
  "find_order_loop size' order = (if size' > 4096 then find_order_loop (drop_bit 1 size') (order + 1) else order)"
  by auto
termination by (relation "measure (\<lambda>(z, _). nat z)") (auto simp: drop_bit_eq_div)

declare find_order_loop.simps [simp del]

definition find_order :: "int \<Rightarrow> nat" where "find_order size' = find_order_loop size' 0"

text \<open>The conversion of the \<open>size_t\<close> argument to \<open>int\<close> is \<open>sint\<close> of its low 32 bits.\<close>

definition kmalloc :: "nat \<Rightarrow> hpst \<Rightarrow> (nat option \<times> hpst) kresult" where
  "kmalloc size' s =
     (if size' < PGSIZE - SLOB_UNIT
      then do {
        (m, s) \<leftarrow> slob_alloc (size' + SLOB_UNIT) 0 s;
        Some (map_option (\<lambda>m. slob_plus m 1) m, s)
      }
      else do {
        (bb, s) \<leftarrow> slob_alloc SIZEOF_BIGBLOCK 0 s;
        (case bb of
           None \<Rightarrow> Some (None, s)
         | Some bb \<Rightarrow> do {
             let order = find_order (sint (word_of_nat size' :: 32 word));
             let s = upd_big bb (\<lambda>d. d\<lparr>border := int order\<rparr>) s;
             (pg, s) \<leftarrow> slob_get_free_pages order s;
             let s = upd_big bb (\<lambda>d. d\<lparr>bpages := (case pg of Some pg \<Rightarrow> pg | None \<Rightarrow> 0)\<rparr>) s;
             (case pg of
                Some pg \<Rightarrow>
                  (let s = upd_big bb (\<lambda>d. d\<lparr>bnext := bigblocks s\<rparr>) s;
                       s = s\<lparr>bigblocks := Some bb\<rparr>
                   in Some (Some pg, s))
              | None \<Rightarrow> do { s \<leftarrow> slob_free (Some bb) SIZEOF_BIGBLOCK s; Some (None, s) })
           })
      })"

text \<open>The walk along \<open>bigblocks\<close>; \<open>last\<close> is \<open>None\<close> for \<open>&bigblocks\<close> and \<open>Some b\<close> for \<open>&b->next\<close>.\<close>

partial_function (option) big_find ::
    "nat \<Rightarrow> nat option \<Rightarrow> nat option \<Rightarrow> hpst \<Rightarrow> (nat option \<times> nat) option option" where
  "big_find blk last' bb s = (case bb of
     None \<Rightarrow> Some None
   | Some b \<Rightarrow> if bpages (bigs s b) = blk then Some (Some (last', b))
               else big_find blk (Some b) (bnext (bigs s b)) s)"

definition kfree :: "nat option \<Rightarrow> hpst \<Rightarrow> hpst kresult" where
  "kfree blk s = (case blk of
     None \<Rightarrow> Some s
   | Some blk \<Rightarrow> do {
       found \<leftarrow> (if blk AND (PGSIZE - 1) = 0 then big_find blk None (bigblocks s) s else Some None);
       (case found of
          Some (last', bb) \<Rightarrow> do {
            let s = (case last' of
                       None \<Rightarrow> s\<lparr>bigblocks := bnext (bigs s bb)\<rparr>
                     | Some p \<Rightarrow> upd_big p (\<lambda>d. d\<lparr>bnext := bnext (bigs s bb)\<rparr>) s);
            s \<leftarrow> slob_free_pages blk (nat (border (bigs s bb))) s;
            slob_free (Some bb) SIZEOF_BIGBLOCK s
          }
        | None \<Rightarrow> slob_free (Some (slob_plus blk (- 1))) 0 s)
     })"

definition ksize :: "nat option \<Rightarrow> hpst \<Rightarrow> nat kresult" where
  "ksize blk s = (case blk of
     None \<Rightarrow> Some 0
   | Some blk \<Rightarrow> do {
       found \<leftarrow> (if blk AND (PGSIZE - 1) = 0 then big_find blk None (bigblocks s) s else Some None);
       Some (case found of
               Some (_, bb) \<Rightarrow> u32 (push_bit (nat (border (bigs s bb))) PGSIZE)
             | None \<Rightarrow> u32 (nat (un (slob_plus blk (- 1)) s) * SLOB_UNIT))
     })"

end
