(* ===== verification/Slob_Proofs.thy ===== *)
theory Slob_Proofs
  imports Slob "HOL-Library.Multiset"
begin

fun rpath :: "hpst \<Rightarrow> nat \<Rightarrow> nat list \<Rightarrow> nat \<Rightarrow> bool" where
  "rpath s a [] b \<longleftrightarrow> nx a s = b"
| "rpath s a (x # xs) b \<longleftrightarrow> nx a s = x \<and> rpath s x xs b"

definition span :: "nat \<Rightarrow> hpst \<Rightarrow> nat set" where "span x s = {x..<x + 16 * nat (un x s)}"

definition slob_inv :: "hpst \<Rightarrow> nat list \<Rightarrow> bool" where
  "slob_inv s ys \<longleftrightarrow> rpath s (arena s) ys (arena s) \<and> un (arena s) s = 1 \<and> slobfree s \<in> set (arena s # ys) \<and>
     (\<forall>y\<in>set ys. arena s + 16 < y \<and> 1 \<le> un y s) \<and> sorted_wrt (\<lambda>x y. x + 16 * nat (un x s) \<le> y) ys"

definition heap_free :: "hpst \<Rightarrow> nat list \<Rightarrow> nat set" where "heap_free s ys = (\<Union>y\<in>set ys. span y s)"

named_theorems slob_simps \<open>reading back the state of the heap\<close>

lemma slob_fields [slob_simps]:
  "un x (set_units a v s) = (if x = a then v else un x s)" "nx x (set_units a v s) = nx x s"
  "un x (set_snext a w s) = un x s" "nx x (set_snext a w s) = (if x = a then w else nx x s)"
  "arena (set_units a v s) = arena s" "arena (set_snext a w s) = arena s"
  "vm (set_units a v s) = vm s" "vm (set_snext a w s) = vm s"
  "slobfree (set_units a v s) = slobfree s" "slobfree (set_snext a w s) = slobfree s"
  "bigs (set_units a v s) = bigs s" "bigs (set_snext a w s) = bigs s"
  "bigblocks (set_units a v s) = bigblocks s" "bigblocks (set_snext a w s) = bigblocks s"
  "un x (s\<lparr>slobfree := c\<rparr>) = un x s" "nx x (s\<lparr>slobfree := c\<rparr>) = nx x s"
  "un x (s\<lparr>vm := m\<rparr>) = un x s" "nx x (s\<lparr>vm := m\<rparr>) = nx x s"
  by (simp_all add: set_units_def set_snext_def upd_slob_def un_def nx_def)

lemma rpath_append: "rpath s a (xs @ y # ys) b \<longleftrightarrow> rpath s a xs y \<and> rpath s y ys b"
  by (induction xs arbitrary: a) auto

lemma rpath_cong: "(\<And>x. x = a \<or> x \<in> set xs \<Longrightarrow> nx x t = nx x s) \<Longrightarrow> rpath t a xs b = rpath s a xs b"
  by (induction xs arbitrary: a) auto

lemma rpath_from: "rpath s b xs d \<Longrightarrow> nx c t = nx b s \<Longrightarrow> (\<And>x. x \<in> set xs \<Longrightarrow> nx x t = nx x s) \<Longrightarrow> rpath t c xs d"
  by (cases xs) (auto simp: rpath_cong [of _ _ t s])

lemma rpath_next: "rpath s a xs b \<Longrightarrow> nx a s = hd (xs @ [b])"
  by (cases xs) auto

lemma rotate:
  assumes "rpath s a ys a" "c \<in> set (a # ys)"
  shows "\<exists>zs. rpath s c zs c \<and> mset (c # zs) = mset (a # ys)"
proof (cases "c = a")
  case False
  then obtain us vs where "ys = us @ c # vs" using assms(2) by (auto dest: split_list)
  then show ?thesis using assms(1) by (intro exI [of _ "vs @ a # us"]) (auto simp: rpath_append)
qed (use assms in auto)

lemma block_in_free:
  assumes "slob_inv s ys" "y \<in> set ys" shows "y \<in> heap_free s ys"
proof -
  have "1 \<le> un y s" using assms by (simp add: slob_inv_def)
  then show ?thesis using assms(2) by (auto simp: heap_free_def span_def intro!: bexI [of _ y])
qed

subsection \<open>Finding the place of a block\<close>

definition stops :: "nat \<Rightarrow> hpst \<Rightarrow> nat \<Rightarrow> bool" where
  "stops b s c \<longleftrightarrow> c < b \<and> b < nx c s \<or> nx c s \<le> c \<and> (c < b \<or> b < nx c s)"

lemma slob_find_step: "slob_find b c s = (if stops b s c then Some c else slob_find b (nx c s) s)"
  by (subst slob_find.simps) (auto simp: stops_def)

lemma slob_find_walk: "rpath s c zs d \<Longrightarrow> \<exists>x\<in>set (c # zs). stops b s x \<Longrightarrow>
    \<exists>x\<in>set (c # zs). slob_find b c s = Some x \<and> stops b s x"
proof (induction zs arbitrary: c)
  case (Cons z zs)
  show ?case
  proof (cases "stops b s c")
    case False
    then show ?thesis using Cons.IH [of z] Cons.prems slob_find_step [of b c s] by auto
  qed (auto simp: slob_find_step [of b c s])
qed (auto simp: slob_find_step)

text \<open>The place of \<open>b\<close> in the list from the arena.\<close>

definition place :: "hpst \<Rightarrow> nat list \<Rightarrow> nat \<Rightarrow> nat \<Rightarrow> nat list \<Rightarrow> nat list \<Rightarrow> bool" where
  "place s ys b c us vs \<longleftrightarrow> arena s # ys = us @ c # vs \<and> c < b \<and> (\<forall>v\<in>set vs. b < v)"

lemma inv_sorted: "slob_inv s ys \<Longrightarrow> sorted_wrt (<) (arena s # ys)"
  using sorted_wrt_mono_rel [of ys "\<lambda>x y. x + 16 * nat (un x s) \<le> y" "(<)"] by (fastforce simp: slob_inv_def)

lemma inv_next:
  assumes "slob_inv s ys" "arena s # ys = us @ c # vs"
  shows "rpath s c vs (arena s)" "us \<noteq> [] \<Longrightarrow> rpath s (arena s) (tl us) c" "nx c s = hd (vs @ [arena s])"
proof -
  show "rpath s c vs (arena s)" using assms by (cases us) (auto simp: slob_inv_def rpath_append)
  then show "nx c s = hd (vs @ [arena s])" by (rule rpath_next)
  show "us \<noteq> [] \<Longrightarrow> rpath s (arena s) (tl us) c" using assms by (cases us) (auto simp: slob_inv_def rpath_append)
qed

lemma stops_place:
  assumes i: "slob_inv s ys" and b: "arena s < b" "b \<notin> set ys" and sp: "arena s # ys = us @ c # vs"
  shows "stops b s c \<longleftrightarrow> place s ys b c us vs"
proof -
  have so: "sorted_wrt (<) (us @ c # vs)" using inv_sorted [OF i] sp by simp
  have n: "nx c s = hd (vs @ [arena s])" using inv_next(3) [OF i sp] .
  have ac: "arena s \<le> c" using sp so by (cases us) auto
  show ?thesis
  proof (cases vs)
    case Nil
    then show ?thesis using n ac b sp by (auto simp: stops_def place_def)
  next
    case (Cons v ws)
    then have "c < v" "\<forall>w\<in>set ws. v < w" using so by (auto simp: sorted_wrt_append)
    then show ?thesis using n ac b sp Cons by (auto simp: stops_def place_def intro: less_trans)
  qed
qed

lemma place_exists:
  assumes i: "slob_inv s ys" and b: "arena s < b" "b \<notin> set ys"
  shows "\<exists>c us vs. place s ys b c us vs"
proof -
  let ?L = "arena s # ys"
  let ?us = "takeWhile (\<lambda>x. x < b) ?L" and ?vs = "dropWhile (\<lambda>x. x < b) ?L"
  have so: "sorted_wrt (<) (?us @ ?vs)" using inv_sorted [OF i] by (simp del: takeWhile.simps dropWhile.simps)
  have ne: "?us \<noteq> []" using b(1) by simp
  have "b < v" if v: "v \<in> set ?vs" for v
  proof -
    obtain v0 ws where d: "?vs = v0 # ws" using v by (cases ?vs) (simp_all only: list.set empty_iff)
    then have "\<not> v0 < b" using hd_dropWhile [of "\<lambda>x. x < b" ?L] by (simp only: list.sel list.distinct) simp
    moreover have "sorted_wrt (<) (v0 # ws)" using so unfolding d by (simp only: sorted_wrt_append)
    then have "v = v0 \<or> v0 < v" using v unfolding d by simp blast
    moreover have "v \<in> set ?L" using v by (rule set_dropWhileD)
    moreover have "b \<notin> set ?L" using b by simp
    ultimately show ?thesis by (metis less_trans linorder_neqE_nat)
  qed
  moreover have "last ?us < b" using set_takeWhileD [OF last_in_set [OF ne]] by simp
  moreover have "?L = butlast ?us @ last ?us # ?vs"
    using takeWhile_dropWhile_id [of "\<lambda>x. x < b" ?L] append_butlast_last_id [OF ne]
    by (metis append.assoc append_Cons append_Nil)
  ultimately show ?thesis unfolding place_def by blast
qed

lemma slob_find_place:
  assumes i: "slob_inv s ys" and b: "arena s < b" "b \<notin> set ys"
  shows "\<exists>c us vs. slob_find b (slobfree s) s = Some c \<and> place s ys b c us vs"
proof -
  obtain zs where zs: "rpath s (slobfree s) zs (slobfree s)" "set (slobfree s # zs) = set (arena s # ys)"
    using rotate [of s "arena s" ys "slobfree s"] i by (auto simp: slob_inv_def simp del: mset.simps dest: mset_eq_setD)
  obtain c us vs where "place s ys b c us vs" using place_exists [OF assms] by blast
  then have "stops b s c" "c \<in> set (arena s # ys)"
    using stops_place [OF assms] by (auto simp: place_def)
  then obtain x where x: "x \<in> set (arena s # ys)" "slob_find b (slobfree s) s = Some x" "stops b s x"
    using slob_find_walk [OF zs(1), of b] zs(2) by blast
  obtain us vs where "arena s # ys = us @ x # vs" using x(1) by (meson split_list)
  then show ?thesis using stops_place [OF assms] x by blast
qed


subsection \<open>Returning a block\<close>

definition join_next :: "nat \<Rightarrow> nat \<Rightarrow> hpst \<Rightarrow> hpst" where
  "join_next b cur s = (if slob_plus b (un b s) = nx cur s
     then let s = set_units b (un b s + un (nx cur s) s) s in set_snext b (nx (nx cur s) s) s
     else set_snext b (nx cur s) s)"

definition join_prev :: "nat \<Rightarrow> nat \<Rightarrow> hpst \<Rightarrow> hpst" where
  "join_prev b cur s = (if slob_plus cur (un cur s) = b
     then let s = set_units cur (un cur s + un b s) s in set_snext cur (nx b s) s
     else set_snext cur b s)"

lemma slob_free_joins:
  "slob_free (Some b) size' s = (let s = (if size' \<noteq> 0 then set_units b (SLOB_UNITS size') s else s) in
     do { cur \<leftarrow> slob_find b (slobfree s) s; Some ((join_prev b cur (join_next b cur s))\<lparr>slobfree := cur\<rparr>) })"
  by (simp add: slob_free_def join_next_def join_prev_def Let_def)

lemma slob_plus_eq: "0 \<le> n \<Longrightarrow> slob_plus b n = b + 16 * nat n"
  by (simp add: slob_plus_def SLOB_UNIT_def nat_add_distrib nat_mult_distrib)

lemma joins_others [slob_simps]:
  "vm (join_next b c s) = vm s" "vm (join_prev b c s) = vm s" "arena (join_next b c s) = arena s"
  "arena (join_prev b c s) = arena s" "bigs (join_next b c s) = bigs s" "bigs (join_prev b c s) = bigs s"
  "bigblocks (join_next b c s) = bigblocks s" "bigblocks (join_prev b c s) = bigblocks s"
  "x \<noteq> b \<Longrightarrow> un x (join_next b c s) = un x s" "x \<noteq> b \<Longrightarrow> nx x (join_next b c s) = nx x s"
  "x \<noteq> c \<Longrightarrow> un x (join_prev b c s) = un x s" "x \<noteq> c \<Longrightarrow> nx x (join_prev b c s) = nx x s"
  by (simp_all add: join_next_def join_prev_def Let_def slob_simps)

lemma span_split: "0 \<le> un x s \<Longrightarrow> un x t = un x s + m \<Longrightarrow> 0 \<le> m \<Longrightarrow>
    span x t = span x s \<union> {x + 16 * nat (un x s)..<x + 16 * nat (un x s) + 16 * nat m}"
  by (auto simp: span_def nat_add_distrib)

lemma join_next_ok:
  assumes i: "slob_inv s ys" and p: "place s ys b c us vs" and n: "1 \<le> un b s" and d: "span b s \<inter> heap_free s ys = {}"
    and a: "arena s + 16 < b"
  shows "\<exists>ws. rpath (join_next b c s) b ws (arena s) \<and> set ws \<subseteq> set vs \<and> un b s \<le> un b (join_next b c s) \<and>
    sorted_wrt (\<lambda>x y. x + 16 * nat (un x s) \<le> y) ws \<and> (\<forall>w\<in>set ws. b + 16 * nat (un b (join_next b c s)) \<le> w) \<and>
    span b (join_next b c s) \<union> heap_free s ws = span b s \<union> heap_free s vs"
proof -
  let ?t = "join_next b c s"
  have sp: "arena s # ys = us @ c # vs" "c < b" and vb: "\<forall>v\<in>set vs. b < v" using p by (auto simp: place_def)
  have vy: "set vs \<subseteq> set ys" using sp(1) by (cases us) auto
  have so: "sorted_wrt (\<lambda>x y. x + 16 * nat (un x s) \<le> y) vs"
    using i sp(1) by (cases us) (auto simp: slob_inv_def sorted_wrt_append)
  have up: "1 \<le> un v s" if "v \<in> set vs" for v using i vy that by (auto simp: slob_inv_def)
  have bv: "b + 16 * nat (un b s) \<le> v" if "v \<in> set vs" for v
  proof (rule ccontr)
    assume "\<not> b + 16 * nat (un b s) \<le> v"
    then have "v \<in> span b s" using vb that by (auto simp: span_def)
    moreover have "v \<in> heap_free s ys" using up [OF that] vy that by (auto simp: heap_free_def span_def)
    ultimately show False using d by blast
  qed
  note n3 = inv_next(3) [OF i sp(1)] and r = inv_next(1) [OF i sp(1)]
  show ?thesis
  proof (cases "slob_plus b (un b s) = nx c s")
    case True
    then have e: "b + 16 * nat (un b s) = hd (vs @ [arena s])" using n n3 by (simp add: slob_plus_eq)
    then obtain v ws where vs: "vs = v # ws" using a by (cases vs) auto
    have v: "nx c s = v" "v = b + 16 * nat (un b s)" "b < v" using e n3 vs vb by auto
    have u: "un b ?t = un b s + un v s" "nx b ?t = nx v s" using True v by (simp_all add: join_next_def slob_simps)
    have "rpath s v ws (arena s)" using r vs by simp
    then have "rpath ?t b ws (arena s)"
      by (rule rpath_from) (use u vb vs in \<open>auto simp: slob_simps\<close>)
    moreover have "1 \<le> un v s" using up vs by simp
    moreover have "span b ?t = span b s \<union> span v s"
      using span_split [of b s ?t "un v s"] n \<open>1 \<le> un v s\<close> u(1) v(2) by (simp add: span_def)
    moreover have "\<forall>w\<in>set ws. b + 16 * nat (un b s + un v s) \<le> w"
      using so vs v(2) n \<open>1 \<le> un v s\<close> by (auto simp: nat_add_distrib)
    ultimately show ?thesis using vs so n u(1) by (intro exI [of _ ws]) (auto simp: heap_free_def)
  next
    case False
    then have u: "un b ?t = un b s" "nx b ?t = nx c s" by (simp_all add: join_next_def slob_simps)
    have "rpath ?t b vs (arena s)"
      by (rule rpath_from [OF r]) (use u vb in \<open>auto simp: slob_simps\<close>)
    then show ?thesis using u so bv n by (intro exI [of _ vs]) (auto simp: span_def)
  qed
qed

lemma heap_free_cong: "(\<And>x. x \<in> set xs \<Longrightarrow> un x t = un x s) \<Longrightarrow> heap_free t xs = heap_free s xs"
  by (auto simp: heap_free_def span_def)

lemma heap_free_simps [simp]: "heap_free s [] = {}" "heap_free s (x # xs) = span x s \<union> heap_free s xs"
    "heap_free s (xs @ zs) = heap_free s xs \<union> heap_free s zs"
  by (auto simp: heap_free_def)


lemma un_arena_pos: "slob_inv s ys \<Longrightarrow> x \<in> set (arena s # ys) \<Longrightarrow> 1 \<le> un x s"
  by (auto simp: slob_inv_def)

text \<open>Replacing the part of the list behind \<open>c\<close>.\<close>

lemma heap_free_arena: "slob_inv s ys \<Longrightarrow> heap_free s ys = heap_free s (arena s # ys) - span (arena s) s"
  by (fastforce simp: heap_free_def span_def slob_inv_def)

lemma inv_sorted_units:
  assumes "slob_inv s ys" shows "sorted_wrt (\<lambda>x y. x + 16 * nat (un x s) \<le> y) (arena s # ys)"
  using assms by (force simp: slob_inv_def)

lemma relist:
  assumes i: "slob_inv s ys" and sp: "arena s # ys = us @ c # vs" and at: "arena t = arena s" "slobfree t = c"
    and old: "\<And>x. x \<in> set us \<Longrightarrow> un x t = un x s \<and> nx x t = nx x s"
    and p: "rpath t c cs (arena s)" and so: "sorted_wrt (\<lambda>x y. x + 16 * nat (un x t) \<le> y) (c # cs)"
    and uc: "1 \<le> un c t" "c = arena s \<Longrightarrow> un c t = 1" and cs: "\<And>x. x \<in> set cs \<Longrightarrow> arena s + 16 < x \<and> 1 \<le> un x t"
  shows "\<exists>zs. slob_inv t zs \<and> heap_free t zs = heap_free s us \<union> span c t \<union> heap_free t cs - span (arena s) s \<and>
    arena s # zs = us @ c # cs"
proof -
  define zs where "zs = (if us = [] then cs else tl us @ c # cs)"
  have z: "arena s # zs = us @ c # cs" using sp by (cases us) (auto simp: zs_def)
  have "rpath t (arena s) zs (arena s)"
  proof (cases us)
    case (Cons a' us')
    then have "rpath s (arena s) us' c" "a' = arena s" using inv_next(2) [OF i sp] sp by auto
    then have "rpath t (arena s) us' c" using old Cons rpath_cong [of "arena s" us' t s c] by auto
    then show ?thesis using p Cons by (simp add: zs_def rpath_append)
  qed (use p sp in \<open>simp add: zs_def\<close>)
  moreover have "c \<le> y" if "y \<in> set cs" for y using so that by auto
  then have "sorted_wrt (\<lambda>x y. x + 16 * nat (un x t) \<le> y) (us @ c # cs)"
  proof -
    have "sorted_wrt (\<lambda>x y. x + 16 * nat (un x s) \<le> y) (us @ [c])"
      using inv_sorted_units [OF i] unfolding sp by (simp add: sorted_wrt_append)
    then show ?thesis using so old \<open>\<And>y. y \<in> set cs \<Longrightarrow> c \<le> y\<close>
      by (auto simp: sorted_wrt_append intro: le_trans sorted_wrt_mono_rel [rotated])
  qed
  then have "sorted_wrt (\<lambda>x y. x + 16 * nat (un x t) \<le> y) zs" by (simp flip: z)
  moreover have "un (arena s) t = 1" using uc(2) old [of "arena s"] i sp by (cases us) (auto simp: slob_inv_def)
  moreover have "arena s + 16 < y \<and> 1 \<le> un y t" if "y \<in> set zs" for y
  proof -
    have "y \<in> set us \<and> y \<in> set ys \<or> y = c \<and> c \<in> set ys \<or> y \<in> set cs"
      using that sp by (cases us) (auto simp: zs_def)
    then show ?thesis using i old cs uc by (auto simp: slob_inv_def)
  qed
  moreover have "slobfree t \<in> set (arena s # zs)" unfolding z at by simp
  ultimately have inv: "slob_inv t zs" by (auto simp: slob_inv_def at)
  have "heap_free t us = heap_free s us" by (rule heap_free_cong) (use old in simp)
  then have "heap_free t (arena t # zs) = heap_free s us \<union> span c t \<union> heap_free t cs" unfolding at z by (simp add: Un_assoc)
  moreover have "span (arena t) t = span (arena s) s" using inv i by (simp add: span_def slob_inv_def at)
  ultimately show ?thesis using inv heap_free_arena [OF inv] z by metis
qed

lemma free_block_ok:
  assumes i: "slob_inv s ys" and n: "1 \<le> un b s" and d: "span b s \<inter> heap_free s ys = {}" and a: "arena s + 16 < b"
  shows "\<exists>t zs. slob_free (Some b) 0 s = Some t \<and> slob_inv t zs \<and> heap_free t zs = heap_free s ys \<union> span b s \<and>
    vm t = vm s \<and> arena t = arena s \<and> bigs t = bigs s \<and> bigblocks t = bigblocks s \<and>
    (\<forall>x. x \<notin> heap_free s ys \<union> span b s \<longrightarrow> x \<noteq> arena s \<longrightarrow> un x t = un x s) \<and> (\<exists>y\<in>set zs. un b s \<le> un y t)"
proof -
  have bs: "b \<in> span b s" using n by (simp add: span_def)
  have yf: "y \<in> heap_free s ys" if "y \<in> set ys" for y
    using that i by (auto simp: heap_free_def span_def slob_inv_def intro!: bexI [of _ y])
  have ny: "b \<notin> set ys" using yf bs d by blast
  obtain c us vs where c: "slob_find b (slobfree s) s = Some c" and p: "place s ys b c us vs"
    using slob_find_place [OF i _ ny] a by auto
  define u where "u = join_next b c s"
  define t where "t = (join_prev b c u)\<lparr>slobfree := c\<rparr>"
  obtain ws where w: "rpath u b ws (arena s)" "set ws \<subseteq> set vs" "un b s \<le> un b u"
    "sorted_wrt (\<lambda>x y. x + 16 * nat (un x s) \<le> y) ws" "\<forall>w\<in>set ws. b + 16 * nat (un b u) \<le> w"
    "span b u \<union> heap_free s ws = span b s \<union> heap_free s vs"
    using join_next_ok [OF i p n d a] unfolding u_def [symmetric] by blast
  have wu: "1 \<le> un b u" using w(3) n by simp
  have sp: "arena s # ys = us @ c # vs" "c < b" "\<forall>v\<in>set vs. b < v" using p by (auto simp: place_def)
  have so: "sorted_wrt (<) (us @ c # vs)" using inv_sorted [OF i] sp(1) by simp
  have lt: "\<And>x. x \<in> set us \<Longrightarrow> x < c" "\<And>x. x \<in> set ws \<Longrightarrow> b < x" using so sp(3) w(2) by (auto simp: sorted_wrt_append)
  have uc: "1 \<le> un c s" using un_arena_pos [OF i, of c] sp(1) by (metis in_set_conv_decomp)
  have os: "\<And>x. x \<noteq> b \<Longrightarrow> un x u = un x s" "\<And>x. x \<noteq> b \<Longrightarrow> nx x u = nx x s" by (simp_all add: u_def slob_simps)
  have ot: "\<And>x. x \<noteq> c \<Longrightarrow> un x t = un x u" "\<And>x. x \<noteq> c \<Longrightarrow> nx x t = nx x u" by (simp_all add: t_def slob_simps)
  have free: "slob_free (Some b) 0 s = Some t" using c by (simp add: slob_free_joins t_def u_def Let_def)
  have other: "vm t = vm s" "arena t = arena s" "bigs t = bigs s" "bigblocks t = bigblocks s" "slobfree t = c"
    by (simp_all add: t_def u_def slob_simps)
  have frame: "un x t = un x s" if "x \<notin> heap_free s ys \<union> span b s" "x \<noteq> arena s" for x
  proof -
    have "c \<in> set (arena s # ys)" by (simp only: sp(1)) simp
    then have "x \<noteq> c" using that yf by auto
    moreover have "x \<noteq> b" using that bs by auto
    ultimately show ?thesis using os ot by simp
  qed
  have wss: "heap_free t ws = heap_free s ws" by (rule heap_free_cong) (use lt(2) sp(2) os(1) ot(1) in \<open>metis less_asym less_irrefl\<close>)
  define cs where "cs = (if slob_plus c (un c s) = b then ws else b # ws)"
  have cy: "c = arena s \<or> c \<in> set ys" using sp(1) by (cases us) auto
  have cb: "c + 16 * nat (un c s) \<le> b"
  proof (cases "c = arena s")
    case True
    then show ?thesis using i a by (simp add: slob_inv_def)
  next
    case False
    then have "span c s \<subseteq> heap_free s ys" using cy by (auto simp: heap_free_def)
    then show ?thesis using bs d sp(2) by (force simp: span_def)
  qed
  have ct: "un c u = un c s" "c \<noteq> b" using os(1) sp(2) by auto
  have wn: "c \<notin> set ws" "b \<notin> set ws" using lt(2) sp(2) by (auto dest: less_asym)
  have wsx: "un x t = un x s" "nx x t = nx x u" if "x \<in> set ws" for x
    using that wn ot os(1) by metis+
  have gw: "arena s + 16 < x \<and> 1 \<le> un x s" if "x \<in> set ws" for x
    using that w(2) i sp(1) by (cases us) (auto simp: slob_inv_def)
  have sw: "sorted_wrt (\<lambda>x y. x + 16 * nat (un x t) \<le> y) ws"
    using w(4) wsx(1) by (auto intro: sorted_wrt_mono_rel [rotated])
  have main: "rpath t c cs (arena s) \<and> 1 \<le> un c t \<and> sorted_wrt (\<lambda>x y. x + 16 * nat (un x t) \<le> y) (c # cs) \<and>
     span c t \<union> heap_free t cs = span c s \<union> span b s \<union> heap_free s vs \<and> (c = arena s \<longrightarrow> un c t = 1) \<and>
     (\<forall>x\<in>set cs. arena s + 16 < x \<and> 1 \<le> un x t) \<and> (c \<noteq> arena s \<and> un b s \<le> un c t \<or> b \<in> set cs \<and> un b s \<le> un b t)"
  proof (cases "slob_plus c (un c s) = b")
    case True
    then have e: "c + 16 * nat (un c s) = b" using uc by (simp add: slob_plus_eq)
    then have ca: "c \<noteq> arena s" using i a by (auto simp: slob_inv_def)
    have tc: "un c t = un c s + un b u" "nx c t = nx b u" using True by (simp_all add: t_def join_prev_def ct slob_simps)
    have "rpath t c ws (arena s)" by (rule rpath_from [OF w(1) tc(2)]) (rule wsx(2))
    moreover have "span c t = span c s \<union> span b u"
      using span_split [of c s t "un b u"] uc wu e tc(1) by (simp add: span_def)
    moreover have "\<forall>x\<in>set ws. c + 16 * nat (un c t) \<le> x" using wu w(5) uc e tc(1) by (auto simp: nat_add_distrib)
    moreover have "cs = ws" using True by (simp add: cs_def)
    ultimately show ?thesis using wu w(3,6) uc tc(1) ca gw wsx(1) sw wss by auto
  next
    case False
    then have tc: "un c t = un c s" "nx c t = b" by (simp_all add: t_def join_prev_def ct slob_simps)
    have tb: "un b t = un b u" "nx b t = nx b u" using ot ct(2) by auto
    have "rpath t b ws (arena s)" by (rule rpath_from [OF w(1) tb(2)]) (rule wsx(2))
    moreover have "span c t = span c s" "span b t = span b u" using tc tb by (simp_all add: span_def)
    moreover have "cs = b # ws" using False by (simp add: cs_def)
    moreover have "c = arena s \<longrightarrow> un c s = 1" using i by (simp add: slob_inv_def)
    ultimately show ?thesis using wu w(3,5,6) uc tc tb gw wsx(1) sw wss cb a lt(2) by (auto intro: le_trans less_imp_le)
  qed
  have old: "un x t = un x s \<and> nx x t = nx x s" if "x \<in> set us" for x
    using lt(1) [OF that] sp(2) os ot by (metis less_asym less_irrefl)
  have m: "rpath t c cs (arena s)" "sorted_wrt (\<lambda>x y. x + 16 * nat (un x t) \<le> y) (c # cs)" "1 \<le> un c t"
    "c = arena s \<Longrightarrow> un c t = 1" "\<And>x. x \<in> set cs \<Longrightarrow> arena s + 16 < x \<and> 1 \<le> un x t"
    using main by blast+
  obtain zs where zs: "slob_inv t zs" "heap_free t zs = heap_free s us \<union> span c t \<union> heap_free t cs - span (arena s) s"
    "arena s # zs = us @ c # cs"
    using relist [OF i sp(1) other(2,5) old m] by blast
  have "heap_free s ys = heap_free s us \<union> span c s \<union> heap_free s vs - span (arena s) s"
    unfolding heap_free_arena [OF i] sp(1) by auto
  moreover have "span b s \<inter> span (arena s) s = {}" using a i by (auto simp: span_def slob_inv_def)
  ultimately have "heap_free t zs = heap_free s ys \<union> span b s" using zs(2) main by blast
  moreover have "\<exists>y\<in>set zs. un b s \<le> un y t"
  proof -
    have "set (arena s # zs) = set us \<union> {c} \<union> set cs" by (simp only: zs(3)) auto
    moreover obtain y where "y = c \<or> y \<in> set cs" "y \<noteq> arena s" "un b s \<le> un y t"
      using main a by (metis not_add_less1)
    ultimately show ?thesis by auto
  qed
  ultimately show ?thesis using free other frame zs(1) by blast
qed


subsection \<open>Taking a block\<close>

lemma inv_pred:
  assumes i: "slob_inv s ys" and sp: "ys = as @ cur # bs" and p: "prev \<in> set (arena s # ys)" "nx prev s = cur"
  shows "\<exists>us. arena s # ys = us @ prev # cur # bs"
proof -
  obtain us vs where u: "arena s # ys = us @ prev # vs" using p(1) by (meson split_list)
  have "cur \<noteq> arena s" using i sp by (auto simp: slob_inv_def)
  then obtain ws where w: "vs = cur # ws" using inv_next(3) [OF i u] p(2) by (cases vs) auto
  have "distinct (arena s # ys)" using inv_sorted [OF i] by (auto simp: strict_sorted_iff)
  moreover have "(us @ [prev]) @ cur # ws = (arena s # as) @ cur # bs" using u w sp by simp
  moreover have "distinct ((us @ [prev]) @ cur # ws)" using \<open>distinct _\<close> u w by simp
  ultimately have "ws = bs" using distinct_split_unique by metis
  then show ?thesis using u w by blast
qed

lemma take_block_ok:
  assumes i: "slob_inv s ys" and c: "cur \<in> set ys" and p: "prev \<in> set (arena s # ys)" "nx prev s = cur"
    and n: "1 \<le> n" "n \<le> un cur s"
  shows "\<exists>zs. slob_inv (slob_take n prev cur s) zs \<and>
    heap_free (slob_take n prev cur s) zs = heap_free s ys - {cur..<cur + 16 * nat n} \<and>
    un cur (slob_take n prev cur s) = n \<and> {cur..<cur + 16 * nat n} \<subseteq> heap_free s ys \<and>
    (\<forall>x. x \<notin> heap_free s ys \<longrightarrow> un x (slob_take n prev cur s) = un x s)"
proof -
  let ?t = "slob_take n prev cur s"
  define nb where "nb = cur + 16 * nat n"
  obtain as bs where "ys = as @ cur # bs" using c by (meson split_list)
  then obtain us where us: "arena s # ys = us @ prev # cur # bs" using inv_pred [OF i _ p] by blast
  have so: "sorted_wrt (\<lambda>x y. x + 16 * nat (un x s) \<le> y) (us @ prev # cur # bs)"
    using inv_sorted_units [OF i] us by simp
  have st: "sorted_wrt (<) (us @ prev # cur # bs)" using inv_sorted [OF i] us by simp
  have lt: "prev < cur" "\<And>x. x \<in> set us \<Longrightarrow> x < prev" "\<And>x. x \<in> set bs \<Longrightarrow> cur < x"
    using st by (auto simp: sorted_wrt_append)
  have cb: "cur < nb" "nb \<le> cur + 16 * nat (un cur s)" using n by (auto simp: nb_def)
  have bc: "cur + 16 * nat (un cur s) \<le> x" if "x \<in> set bs" for x using so that by (auto simp: sorted_wrt_append)
  have by': "set bs \<subseteq> set ys" using us by (cases us) auto
  have rc: "rpath s cur bs (arena s)" using inv_next(1) [OF i us] by simp
  have sp: "slob_plus cur n = nb" using n by (simp add: slob_plus_eq nb_def)
  define cs where "cs = (if un cur s = n then bs else nb # bs)"
  have o: "un x ?t = un x s" "nx y ?t = nx y s"
    if "x \<noteq> cur" "x \<noteq> nb \<or> un cur s = n" "y \<noteq> prev" "y \<noteq> nb \<or> un cur s = n" for x y
    using that sp by (auto simp: slob_take_def Let_def slob_simps)
  have un_c: "un cur ?t = n" using cb by (auto simp: slob_take_def Let_def slob_simps)
  have main: "rpath ?t prev cs (arena s) \<and> heap_free ?t cs = {nb..<cur + 16 * nat (un cur s)} \<union> heap_free s bs \<and>
      sorted_wrt (\<lambda>x y. x + 16 * nat (un x ?t) \<le> y) cs \<and> (\<forall>x\<in>set cs. cur < x \<and> 1 \<le> un x ?t)"
  proof (cases "un cur s = n")
    case True
    have a: "nx prev ?t = nx cur s" using True by (simp add: slob_take_def Let_def slob_simps)
    have "prev \<notin> set bs" using lt(1,3) by (auto dest: less_asym)
    then have "rpath ?t prev bs (arena s)"
      by (intro rpath_from [OF rc a]) (auto simp: slob_take_def Let_def slob_simps True)
    moreover have u: "un x ?t = un x s" for x using True by (simp add: slob_take_def Let_def slob_simps)
    moreover have "sorted_wrt (\<lambda>x y. x + 16 * nat (un x ?t) \<le> y) bs" using so by (simp add: u sorted_wrt_append)
    moreover have "1 \<le> un x s" if "x \<in> set bs" for x using i by' that by (auto simp: slob_inv_def)
    ultimately show ?thesis using True lt heap_free_cong [of bs ?t s] by (auto simp: cs_def nb_def)
  next
    case False
    have nbs: "nb \<notin> set bs" "nb \<noteq> prev" "prev \<notin> set bs" "cur \<notin> set bs"
      using bc cb n False lt by (fastforce simp: nb_def)+
    have f: "nx prev ?t = nb" "nx nb ?t = nx cur s" "un nb ?t = un cur s - n" "\<And>x. x \<in> set bs \<Longrightarrow> nx x ?t = nx x s \<and> un x ?t = un x s"
      using False lt(1) cb(1) nbs by (auto simp: slob_take_def Let_def slob_simps sp)
    have "rpath ?t nb bs (arena s)" by (rule rpath_from [OF rc f(2)]) (simp add: f(4))
    moreover have "heap_free ?t bs = heap_free s bs" by (rule heap_free_cong) (simp add: f(4))
    moreover have e: "nb + 16 * nat (un cur s - n) = cur + 16 * nat (un cur s)" using n by (simp add: nb_def nat_diff_distrib)
    then have "span nb ?t = {nb..<cur + 16 * nat (un cur s)}" by (simp add: span_def f(3))
    moreover have "sorted_wrt (\<lambda>x y. x + 16 * nat (un x s) \<le> y) bs" using so by (simp add: sorted_wrt_append)
    then have "sorted_wrt (\<lambda>x y. x + 16 * nat (un x ?t) \<le> y) (nb # bs)"
      using bc e f(3,4) by (auto intro: sorted_wrt_mono_rel [rotated])
    moreover have "1 \<le> un x s" if "x \<in> set bs" for x using i by' that by (auto simp: slob_inv_def)
    ultimately show ?thesis using False f cb lt(3) n by (auto simp: cs_def)
  qed
  have up: "un prev ?t = un prev s" using o(1) [of prev cur] lt(1) cb(1) by auto
  have uspan: "span prev ?t = span prev s" by (simp add: span_def up)
  have ca: "arena s + 16 < cur" using i c by (simp add: slob_inv_def)
  obtain zs where z: "slob_inv ?t zs" "heap_free ?t zs = heap_free s us \<union> span prev ?t \<union> heap_free ?t cs - span (arena s) s"
  proof (rule exE [OF relist [OF i us, of ?t cs]])
    show "arena ?t = arena s" "slobfree ?t = prev" by (simp_all add: slob_take_def Let_def slob_simps)
    show "un x ?t = un x s \<and> nx x ?t = nx x s" if "x \<in> set us" for x
      using o [of x x] lt(1) lt(2) [OF that] cb(1) by auto
    have "prev + 16 * nat (un prev s) \<le> cur" using so by (simp add: sorted_wrt_append)
    then show "sorted_wrt (\<lambda>x y. x + 16 * nat (un x ?t) \<le> y) (prev # cs)" using main up by fastforce
    show "1 \<le> un prev ?t" using un_arena_pos [OF i p(1)] up by simp
    show "prev = arena s \<Longrightarrow> un prev ?t = 1" using i up by (simp add: slob_inv_def)
    show "\<And>x. x \<in> set cs \<Longrightarrow> arena s + 16 < x \<and> 1 \<le> un x ?t" using main ca by fastforce
  qed (use main in auto)
  have h: "heap_free s ys = heap_free s us \<union> span prev s \<union> span cur s \<union> heap_free s bs - span (arena s) s"
    unfolding heap_free_arena [OF i] us by auto
  have "heap_free s us \<inter> {cur..<nb} = {}" "span prev s \<inter> {cur..<nb} = {}"
    using so by (fastforce simp: heap_free_def span_def sorted_wrt_append)+
  moreover have "heap_free s bs \<inter> {cur..<nb} = {}" using bc cb(2) by (fastforce simp: heap_free_def span_def)
  moreover have "span cur s = {cur..<nb} \<union> {nb..<cur + 16 * nat (un cur s)}" using cb by (auto simp: span_def)
  moreover have "{cur..<nb} \<inter> span (arena s) s = {}" using ca i by (auto simp: span_def slob_inv_def)
  ultimately have "heap_free ?t zs = heap_free s ys - {cur..<nb}" "{cur..<nb} \<subseteq> heap_free s ys"
    using z(2) h main uspan by auto
  moreover have "un x ?t = un x s" if x: "x \<notin> heap_free s ys" for x
  proof (rule o(1) [where y = cur])
    show "x \<noteq> cur" using x \<open>{cur..<nb} \<subseteq> heap_free s ys\<close> cb(1) by auto
    show "x \<noteq> nb \<or> un cur s = n"
    proof (rule ccontr)
      assume "\<not> (x \<noteq> nb \<or> un cur s = n)"
      then have "x \<in> span cur s" using cb n by (auto simp: span_def nb_def)
      then show False using x c by (auto simp: heap_free_def)
    qed
    show "cur \<noteq> prev" "cur \<noteq> nb \<or> un cur s = n" using lt(1) cb(1) by auto
  qed
  ultimately show ?thesis using z(1) un_c by (auto simp: nb_def)
qed


subsection \<open>The scan\<close>

lemma slob_scan_hit:
  assumes "rpath s prev zs (slobfree s)" "slobfree s \<notin> set zs" "\<exists>c\<in>set (zs @ [slobfree s]). SLOB_UNITS size' \<le> un c s"
  shows "\<exists>p c. slob_scan size' 0 prev (nx prev s) s = Some (Some c, slob_take (SLOB_UNITS size') p c s) \<and>
    c \<in> set (zs @ [slobfree s]) \<and> p \<in> set (prev # zs) \<and> nx p s = c \<and> SLOB_UNITS size' \<le> un c s"
  using assms
proof (induction zs arbitrary: prev)
  case Nil
  then show ?case by (subst slob_scan.simps) auto
next
  case (Cons z zs)
  show ?case
  proof (cases "SLOB_UNITS size' \<le> un z s")
    case True
    then show ?thesis using Cons.prems by (subst slob_scan.simps) auto
  next
    case False
    moreover have "slob_scan size' 0 prev (nx prev s) s = slob_scan size' 0 z (nx z s) s"
      using Cons.prems False by (subst slob_scan.simps) auto
    ultimately show ?thesis using Cons.IH [of z] Cons.prems by auto
  qed
qed

lemma slob_scan_miss:
  assumes "rpath s prev zs (slobfree s)" "slobfree s \<notin> set zs" "\<And>c. c \<in> set (zs @ [slobfree s]) \<Longrightarrow> un c s < SLOB_UNITS size'"
    "size' \<noteq> PGSIZE"
  shows "slob_scan size' 0 prev (nx prev s) s = do {
      (page, s) \<leftarrow> slob_get_free_pages 0 s;
      (case page of
         None \<Rightarrow> Some (None, s)
       | Some page \<Rightarrow> do { s \<leftarrow> slob_free (Some page) PGSIZE s; slob_scan size' 0 (slobfree s) (nx (slobfree s) s) s })
    }"
  using assms
proof (induction zs arbitrary: prev)
  case Nil
  then show ?case by (subst slob_scan.simps) (auto simp: Let_def cong: option.case_cong)
next
  case (Cons z zs)
  moreover have "slob_scan size' 0 prev (nx prev s) s = slob_scan size' 0 z (nx z s) s"
    using Cons.prems(1,2) Cons.prems(3) [of z] by (subst slob_scan.simps) auto
  ultimately show ?case by auto
qed

lemma inv_rotate:
  assumes "slob_inv s ys"
  obtains zs where "rpath s (slobfree s) zs (slobfree s)" "slobfree s \<notin> set zs" "set (zs @ [slobfree s]) = set (arena s # ys)"
proof -
  obtain zs where zs: "rpath s (slobfree s) zs (slobfree s)" "mset (slobfree s # zs) = mset (arena s # ys)"
    using rotate [of s "arena s" ys "slobfree s"] assms by (auto simp: slob_inv_def simp del: mset.simps)
  have "distinct (slobfree s # zs)"
    using inv_sorted [OF assms] zs(2) by (metis mset_eq_imp_distinct_iff strict_sorted_iff)
  moreover have "set (slobfree s # zs) = set (arena s # ys)" using zs(2) by (rule mset_eq_setD)
  ultimately show ?thesis using zs(1) that by simp
qed

text \<open>A search that meets a block that is large enough takes one.\<close>

lemma slob_scan_take:
  assumes i: "slob_inv s ys" and n: "2 \<le> SLOB_UNITS size'" and f: "\<exists>y\<in>set ys. SLOB_UNITS size' \<le> un y s"
  shows "\<exists>c t zs. slob_scan size' 0 (slobfree s) (nx (slobfree s) s) s = Some (Some c, t) \<and> slob_inv t zs \<and>
    heap_free t zs = heap_free s ys - {c..<c + 16 * nat (SLOB_UNITS size')} \<and> un c t = SLOB_UNITS size' \<and>
    {c..<c + 16 * nat (SLOB_UNITS size')} \<subseteq> heap_free s ys \<and> (\<forall>x. x \<notin> heap_free s ys \<longrightarrow> un x t = un x s) \<and>
    vm t = vm s \<and> arena t = arena s \<and> bigs t = bigs s \<and> bigblocks t = bigblocks s"
proof -
  obtain zs where zs: "rpath s (slobfree s) zs (slobfree s)" "slobfree s \<notin> set zs" "set (zs @ [slobfree s]) = set (arena s # ys)"
    by (rule inv_rotate [OF i])
  obtain p c where pc: "slob_scan size' 0 (slobfree s) (nx (slobfree s) s) s = Some (Some c, slob_take (SLOB_UNITS size') p c s)"
    "c \<in> set (arena s # ys)" "p \<in> set (arena s # ys)" "nx p s = c" "SLOB_UNITS size' \<le> un c s"
  proof -
    have "\<exists>c\<in>set (zs @ [slobfree s]). SLOB_UNITS size' \<le> un c s" unfolding zs(3) using f by auto
    moreover have "set (slobfree s # zs) = set (arena s # ys)" using zs(3) by simp
    ultimately show thesis using slob_scan_hit [OF zs(1,2), of size'] that unfolding zs(3) by blast
  qed
  have "c \<in> set ys" using pc(2,5) n i by (auto simp: slob_inv_def)
  moreover have "vm (slob_take m p c s) = vm s \<and> arena (slob_take m p c s) = arena s \<and>
      bigs (slob_take m p c s) = bigs s \<and> bigblocks (slob_take m p c s) = bigblocks s" for m
    by (simp add: slob_take_def Let_def slob_simps)
  ultimately show ?thesis
    using pc(1) take_block_ok [OF i _ pc(3,4) _ pc(5)] n by (intro exI [of _ c] exI [of _ "slob_take (SLOB_UNITS size') p c s"]) auto
qed

end
