(* ===== verification/Kernel_Heap.thy ===== *)
theory Kernel_Heap
  imports Slob_Proofs Page_Table_Properties
begin

section \<open>The heap as an allocator\<close>

text \<open>
  \<open>slob_alloc\<close> and \<open>slob_free\<close> on the sets of free bytes and free pages, the interface of the heap, its
  implementation by \<open>kmalloc\<close> and \<open>kfree\<close>, and the properties of the allocator.
\<close>

subsection \<open>The heap and the pages\<close>

definition page_bytes :: "nat set \<Rightarrow> nat set" where
  "page_bytes F = (\<Union>p\<in>F. {(p + nbase) * PGSIZE..<(p + nbase) * PGSIZE + PGSIZE})"

text \<open>
  The heap \<open>s\<close> with the free pages \<open>F\<close> and the free bytes \<open>H\<close>: a well-formed block list covers \<open>H\<close>, no byte
  of a free page is in it, and all pages lie above the arena.
\<close>

definition heap_ok :: "hpst \<Rightarrow> nat set \<Rightarrow> nat set \<Rightarrow> bool" where
  "heap_ok s F H \<longleftrightarrow> (\<exists>ys. slob_inv s ys \<and> heap_free s ys = H) \<and> vm_mem (vm s) F \<and> H \<inter> page_bytes F = {} \<and>
     (\<forall>p\<in>F. arena s + 16 < (p + nbase) * PGSIZE)"

definition unit_bytes :: "nat \<Rightarrow> nat \<Rightarrow> nat set" where
  "unit_bytes c size' = {c..<c + 16 * nat (SLOB_UNITS size')}"

text \<open>What does not belong to the heap keeps its header.\<close>

definition same_headers :: "hpst \<Rightarrow> nat set \<Rightarrow> hpst \<Rightarrow> bool" where
  "same_headers s H t \<longleftrightarrow> arena t = arena s \<and> (\<forall>x. x \<notin> H \<longrightarrow> x \<noteq> arena s \<longrightarrow> un x t = un x s)"

definition same_vm :: "hpst \<Rightarrow> hpst \<Rightarrow> bool" where
  "same_vm s t \<longleftrightarrow> frame (vm t) = frame (vm s) \<and> npage (vm t) = npage (vm s) \<and>
     (\<forall>q. PageReserved q (pm (vm t)) \<longrightarrow> PageReserved q (pm (vm s))) \<and>
     (\<forall>q. ref (pages (pm (vm t)) q) = ref (pages (pm (vm s)) q))"

lemma get_page_ok1:
  assumes m: "vm_mem (vm s) F"
  shows "F = {} \<and> slob_get_free_pages 0 s = Some (None, s) \<or>
    (\<exists>p\<in>F. \<exists>v. slob_get_free_pages 0 s = Some (Some ((p + nbase) * PGSIZE), s\<lparr>vm := v\<rparr>) \<and> vm_mem v (F - {p}) \<and>
       same_vm s (s\<lparr>vm := v\<rparr>))"
proof (cases "F = {}")
  case True
  then have "alloc_page (vm s) = Some (None, vm s)" using alloc_page_ok [of "vm s" F] m by (auto simp: vm_mem_def)
  then show ?thesis using True by (auto simp: slob_get_free_pages_def alloc_page_def bind_eq_Some_conv)
next
  case False
  then obtain p v where v: "p \<in> F" "alloc_page (vm s) = Some (Some p, v)" "ff_rep (pm v) (F - {p})" "frame v = frame (vm s)"
    "npage v = npage (vm s)" "\<forall>q. ref (pages (pm v) q) = ref (pages (pm (vm s)) q)"
    "\<forall>q. PageReserved q (pm v) \<longrightarrow> PageReserved q (pm (vm s))"
    using alloc_page_ok [of "vm s" F] m by (auto simp: vm_mem_def)
  have mv: "vm_mem v (F - {p})" using m v by (auto simp: vm_mem_def)
  have "page2kva p v = Some (p + nbase)" using page2kva_ok [OF mv] m v(1,5) by (auto simp: vm_mem_def)
  then have "slob_get_free_pages 0 s = Some (Some ((p + nbase) * PGSIZE), s\<lparr>vm := v\<rparr>)"
    using v(2) by (auto simp: slob_get_free_pages_def alloc_page_def bind_eq_Some_conv)
  then show ?thesis using v(1,4-7) mv by (auto simp: same_vm_def)
qed

lemma slob_inv_cong: "slob_inv (s\<lparr>vm := v\<rparr>) ys = slob_inv s ys" "heap_free (s\<lparr>vm := v\<rparr>) ys = heap_free s ys"
proof -
  have "rpath (s\<lparr>vm := v\<rparr>) a ys b = rpath s a ys b" for a b by (rule rpath_cong) (simp add: slob_simps)
  then show "slob_inv (s\<lparr>vm := v\<rparr>) ys = slob_inv s ys" by (simp add: slob_inv_def slob_simps)
  show "heap_free (s\<lparr>vm := v\<rparr>) ys = heap_free s ys" by (rule heap_free_cong) (simp add: slob_simps)
qed

text \<open>Freeing a block outside the heap whose size is in its header.\<close>

lemma slob_free_ok:
  assumes h: "heap_ok s F H" and n: "1 \<le> un b s" and d: "span b s \<inter> H = {}" "span b s \<inter> page_bytes F = {}" and a: "arena s + 16 < b"
  shows "\<exists>t. slob_free (Some b) 0 s = Some t \<and> heap_ok t F (H \<union> span b s) \<and> vm t = vm s \<and> bigs t = bigs s \<and>
    bigblocks t = bigblocks s \<and> same_headers s (H \<union> span b s) t \<and>
    (\<exists>zs. slob_inv t zs \<and> heap_free t zs = H \<union> span b s \<and> (\<exists>y\<in>set zs. un b s \<le> un y t))"
proof -
  obtain ys where ys: "slob_inv s ys" "heap_free s ys = H" using h by (auto simp: heap_ok_def)
  obtain t zs where "slob_free (Some b) 0 s = Some t" "slob_inv t zs" "heap_free t zs = H \<union> span b s"
    "vm t = vm s" "arena t = arena s" "bigs t = bigs s" "bigblocks t = bigblocks s"
    "\<forall>x. x \<notin> H \<union> span b s \<longrightarrow> x \<noteq> arena s \<longrightarrow> un x t = un x s" "\<exists>y\<in>set zs. un b s \<le> un y t"
    using free_block_ok [OF ys(1) n _ a] d(1) ys(2) by blast
  then show ?thesis using h d(2) by (intro exI [of _ t] conjI exI [of _ zs]) (auto simp: heap_ok_def same_headers_def)
qed

text \<open>With the size given, the header is written first.\<close>

lemma slob_free_sized:
  assumes h: "heap_ok s F H" and n: "0 < size'" and d: "unit_bytes b size' \<inter> H = {}" "unit_bytes b size' \<inter> page_bytes F = {}"
    and a: "arena s + 16 < b"
  shows "\<exists>t. slob_free (Some b) size' s = Some t \<and> heap_ok t F (H \<union> unit_bytes b size') \<and> vm t = vm s \<and> bigs t = bigs s \<and>
    bigblocks t = bigblocks s \<and> same_headers s (H \<union> unit_bytes b size') t \<and>
    (\<exists>zs. slob_inv t zs \<and> heap_free t zs = H \<union> unit_bytes b size' \<and> (\<exists>y\<in>set zs. SLOB_UNITS size' \<le> un y t))"
proof -
  let ?u = "set_units b (SLOB_UNITS size') s"
  have p: "1 \<le> SLOB_UNITS size'" using n by (simp add: SLOB_UNITS_def SLOB_UNIT_def)
  have sp: "span b ?u = unit_bytes b size'" by (simp add: span_def unit_bytes_def slob_simps)
  have bu: "b \<in> unit_bytes b size'" using p by (simp add: unit_bytes_def)
  obtain ys where ys: "slob_inv s ys" "heap_free s ys = H" using h by (auto simp: heap_ok_def)
  have nb: "b \<notin> set ys"
  proof
    assume "b \<in> set ys"
    then have "b \<in> H" using block_in_free [OF ys(1)] ys(2) by blast
    then show False using d(1) bu by blast
  qed
  have rp: "rpath ?u (arena s) ys (arena s)"
    using ys(1) rpath_cong [of "arena s" ys ?u s "arena s"] by (simp add: slob_simps slob_inv_def)
  have "sorted_wrt (\<lambda>x y. x + 16 * nat (un x ?u) \<le> y) ys"
    using ys(1) nb by (auto simp: slob_inv_def slob_simps intro: sorted_wrt_mono_rel [rotated])
  then have "slob_inv ?u ys" using ys(1) nb a rp by (auto simp: slob_inv_def slob_simps)
  moreover have "heap_free ?u ys = heap_free s ys" by (rule heap_free_cong) (use nb in \<open>auto simp: slob_simps\<close>)
  then have "heap_free ?u ys = H" using ys(2) by simp
  ultimately have hu: "heap_ok ?u F H" using h by (auto simp: heap_ok_def slob_simps)
  have "slob_free (Some b) size' s = slob_free (Some b) 0 ?u" using n by (simp add: slob_free_joins Let_def)
  moreover obtain t where t: "slob_free (Some b) 0 ?u = Some t" "heap_ok t F (H \<union> span b ?u)" "vm t = vm ?u" "bigs t = bigs ?u"
    "bigblocks t = bigblocks ?u" "same_headers ?u (H \<union> span b ?u) t"
    "\<exists>zs. slob_inv t zs \<and> heap_free t zs = H \<union> span b ?u \<and> (\<exists>y\<in>set zs. un b ?u \<le> un y t)"
    using slob_free_ok [OF hu, of b] p d a sp by (auto simp: slob_simps)
  ultimately show ?thesis using bu unfolding sp by (auto simp: slob_simps same_headers_def)
qed

lemma page_bytes_in: "p \<in> F \<Longrightarrow> unit_bytes ((p + nbase) * PGSIZE) PGSIZE \<subseteq> page_bytes F"
    "unit_bytes ((p + nbase) * PGSIZE) PGSIZE = page_bytes {p}"
  by (auto simp: page_bytes_def unit_bytes_def SLOB_UNITS_def SLOB_UNIT_def PGSIZE_def)

lemma page_bytes_iff: "x \<in> page_bytes F \<longleftrightarrow> (\<exists>p\<in>F. x div PGSIZE = p + nbase)"
proof -
  have "(p + nbase) * PGSIZE \<le> x \<and> x < (p + nbase) * PGSIZE + PGSIZE \<longleftrightarrow> x div PGSIZE = p + nbase" for p
  proof -
    have "0 < PGSIZE" by (simp add: PGSIZE_def)
    then show ?thesis by (metis add.commute div_nat_eqI dividend_less_div_times div_times_less_eq_dividend mult.commute mult_Suc_right)
  qed
  then show ?thesis by (auto simp: page_bytes_def)
qed

lemma page_bytes_disjoint: "A \<inter> B = {} \<Longrightarrow> page_bytes A \<inter> page_bytes B = {}"
  by (fastforce simp: page_bytes_iff)

text \<open>\<open>slob_alloc\<close>: a block of the heap, grown by at most one page.\<close>

definition alloc_done :: "hpst \<Rightarrow> nat set \<Rightarrow> nat set \<Rightarrow> nat \<Rightarrow> nat option \<Rightarrow> hpst \<Rightarrow> nat set \<Rightarrow> nat set \<Rightarrow> bool" where
  "alloc_done s F H size' r t F' H' \<longleftrightarrow> heap_ok t F' H' \<and> F' \<subseteq> F \<and> bigs t = bigs s \<and> bigblocks t = bigblocks s \<and> same_vm s t \<and>
     same_headers s (H \<union> page_bytes F) t \<and>
     (case r of
        None \<Rightarrow> F = {} \<and> t = s
      | Some c \<Rightarrow> unit_bytes c size' \<subseteq> H \<union> page_bytes (F - F') \<and> H' = H \<union> page_bytes (F - F') - unit_bytes c size' \<and>
          un c t = SLOB_UNITS size')"

lemma scan_take_ok:
  assumes h: "heap_ok s F H" and n: "2 \<le> SLOB_UNITS size'" and i: "slob_inv s ys" "heap_free s ys = H"
    and f: "\<exists>y\<in>set ys. SLOB_UNITS size' \<le> un y s"
  shows "\<exists>c t. slob_scan size' 0 (slobfree s) (nx (slobfree s) s) s = Some (Some c, t) \<and>
    alloc_done s F H size' (Some c) t F (H - unit_bytes c size')"
proof -
  obtain c t zs where t: "slob_scan size' 0 (slobfree s) (nx (slobfree s) s) s = Some (Some c, t)" "slob_inv t zs"
    "heap_free t zs = heap_free s ys - unit_bytes c size'" "un c t = SLOB_UNITS size'" "unit_bytes c size' \<subseteq> heap_free s ys"
    "\<forall>x. x \<notin> heap_free s ys \<longrightarrow> un x t = un x s" "vm t = vm s" "arena t = arena s" "bigs t = bigs s" "bigblocks t = bigblocks s"
    using slob_scan_take [OF i(1) n f] unfolding unit_bytes_def by blast
  have "heap_ok t F (H - unit_bytes c size')" using h t i(2) by (auto simp: heap_ok_def)
  then have "alloc_done s F H size' (Some c) t F (H - unit_bytes c size')"
    using t i(2) by (auto simp: alloc_done_def same_headers_def same_vm_def page_bytes_def)
  then show ?thesis using t(1) by blast
qed

lemma slob_alloc_ok:
  assumes h: "heap_ok s F H" and n: "2 \<le> SLOB_UNITS size'" "size' + SLOB_UNIT < PGSIZE"
  shows "\<exists>r t F' H'. slob_alloc size' 0 s = Some (r, t) \<and> alloc_done s F H size' r t F' H'"
proof -
  obtain ys where i: "slob_inv s ys" "heap_free s ys = H" using h by (auto simp: heap_ok_def)
  have al: "slob_alloc size' 0 s = slob_scan size' 0 (slobfree s) (nx (slobfree s) s) s"
    using n by (simp add: slob_alloc_def Let_def)
  show ?thesis
  proof (cases "\<exists>y\<in>set ys. SLOB_UNITS size' \<le> un y s")
    case True
    then show ?thesis using scan_take_ok [OF h n(1) i] al by metis
  next
    case False
    obtain zs where zs: "rpath s (slobfree s) zs (slobfree s)" "slobfree s \<notin> set zs" "set (zs @ [slobfree s]) = set (arena s # ys)"
      by (rule inv_rotate [OF i(1)])
    have small: "un c s < SLOB_UNITS size'" if "c \<in> set (zs @ [slobfree s])" for c
      using that False n(1) i(1) unfolding zs(3) by (auto simp: slob_inv_def)
    have miss: "slob_alloc size' 0 s = do {
        (page, s) \<leftarrow> slob_get_free_pages 0 s;
        (case page of
           None \<Rightarrow> Some (None, s)
         | Some page \<Rightarrow> do { s \<leftarrow> slob_free (Some page) PGSIZE s; slob_scan size' 0 (slobfree s) (nx (slobfree s) s) s })
      }"
      using slob_scan_miss [OF zs(1,2) small] n(2) al by simp
    have mv: "vm_mem (vm s) F" using h by (simp add: heap_ok_def)
    show ?thesis
    proof (cases "F = {}")
      case True
      then have "slob_alloc size' 0 s = Some (None, s)" using get_page_ok1 [OF mv] miss by auto
      then show ?thesis using True h
        by (intro exI [of _ None] exI [of _ s]) (auto simp: alloc_done_def same_vm_def same_headers_def)
    next
      case False
      then obtain p v where p: "p \<in> F" "slob_get_free_pages 0 s = Some (Some ((p + nbase) * PGSIZE), s\<lparr>vm := v\<rparr>)"
        "vm_mem v (F - {p})" "same_vm s (s\<lparr>vm := v\<rparr>)" using get_page_ok1 [OF mv] by auto
      let ?b = "(p + nbase) * PGSIZE" and ?s1 = "s\<lparr>vm := v\<rparr>"
      have sub: "page_bytes (F - {p}) \<subseteq> page_bytes F" "page_bytes {p} \<subseteq> page_bytes F" using p(1) by (auto simp: page_bytes_def)
      have h1: "heap_ok ?s1 (F - {p}) H"
        using h p(3) sub i by (auto simp: heap_ok_def slob_inv_cong)
      have d: "unit_bytes ?b PGSIZE \<inter> H = {}" "unit_bytes ?b PGSIZE \<inter> page_bytes (F - {p}) = {}"
        using h sub page_bytes_disjoint [of "{p}" "F - {p}"] by (auto simp: page_bytes_in heap_ok_def)
      have pa: "arena ?s1 + 16 < ?b" "0 < PGSIZE" using h p(1) by (auto simp: heap_ok_def PGSIZE_def)
      obtain t1 ws where t1: "slob_free (Some ?b) PGSIZE ?s1 = Some t1" "heap_ok t1 (F - {p}) (H \<union> page_bytes {p})"
        "vm t1 = v" "bigs t1 = bigs s" "bigblocks t1 = bigblocks s" "same_headers ?s1 (H \<union> page_bytes {p}) t1"
        "slob_inv t1 ws" "heap_free t1 ws = H \<union> page_bytes {p}" "\<exists>y\<in>set ws. SLOB_UNITS PGSIZE \<le> un y t1"
        using slob_free_sized [OF h1 pa(2) d pa(1)] by (auto simp: page_bytes_in)
      have "SLOB_UNITS size' \<le> SLOB_UNITS PGSIZE"
        using n(2) by (auto simp: SLOB_UNITS_def SLOB_UNIT_def PGSIZE_def intro!: div_le_mono)
      then have f: "\<exists>y\<in>set ws. SLOB_UNITS size' \<le> un y t1" using t1(9) by (meson order_trans)
      obtain c t where t: "slob_scan size' 0 (slobfree t1) (nx (slobfree t1) t1) t1 = Some (Some c, t)"
        "alloc_done t1 (F - {p}) (H \<union> page_bytes {p}) size' (Some c) t (F - {p}) (H \<union> page_bytes {p} - unit_bytes c size')"
        using scan_take_ok [OF t1(2) n(1) t1(7,8) f] by auto
      have "F - (F - {p}) = {p}" using p(1) by auto
      then have "alloc_done s F H size' (Some c) t (F - {p}) (H \<union> page_bytes {p} - unit_bytes c size')"
        using t(2) t1(3-6) p(1,4) sub by (auto simp: alloc_done_def same_headers_def same_vm_def slob_simps page_bytes_def)
      moreover have "slob_alloc size' 0 s = Some (Some c, t)" using miss p(2) t1(1) t(1) by simp
      ultimately show ?thesis by blast
    qed
  qed
qed


subsection \<open>The interface of the heap\<close>

text \<open>
  What the clients of the heap rely on: \<open>ok s held\<close> says that the blocks \<open>held\<close>, pairs of an address and a
  size, are allocated in the state \<open>s\<close>; \<open>small\<close> are the sizes served.
\<close>

locale kernel_heap =
  fixes malloc :: "nat \<Rightarrow> 'h \<Rightarrow> (nat option \<times> 'h) option"
    and mfree :: "nat option \<Rightarrow> 'h \<Rightarrow> 'h option"
    and ok :: "'h \<Rightarrow> (nat \<times> nat) list \<Rightarrow> bool"
    and small :: "nat \<Rightarrow> bool"
  assumes malloc_ok: "ok s held \<Longrightarrow> small n \<Longrightarrow>
      \<exists>r t. malloc n s = Some (r, t) \<and> (case r of None \<Rightarrow> ok t held | Some a \<Rightarrow> 0 < a \<and> ok t ((a, n) # held))"
    and mfree_ok: "ok s (h1 @ (a, n) # h2) \<Longrightarrow> \<exists>t. mfree (Some a) s = Some t \<and> ok t (h1 @ h2)"
    and ok_disjoint: "ok s held \<Longrightarrow> held_disjoint held"
begin

lemma malloc_cases:
  assumes "ok s held" "small n" "malloc n s = Some (r, t)"
  obtains "r = None" "ok t held" | a where "r = Some a" "0 < a" "ok t ((a, n) # held)"
  using malloc_ok [OF assms(1,2)] assms(3) by (auto split: option.splits)

lemma mfree_hd: "ok s ((a, n) # held) \<Longrightarrow> \<exists>t. mfree (Some a) s = Some t \<and> ok t held"
  using mfree_ok [of s "[]"] by simp

lemma malloc_fresh:
  assumes "ok s held" "small n" "malloc n s = Some (Some a, t)" "(b, m) \<in> set held"
  shows "{a..<a + n} \<inter> {b..<b + m} = {}"
proof -
  have "ok t ((a, n) # held)" using malloc_ok [OF assms(1,2)] assms(3) by simp
  then have "held_disjoint ((a, n) # held)" by (rule ok_disjoint)
  then have "block (a, n) \<inter> held_set held = {}" by simp
  moreover have "block (b, m) \<subseteq> held_set held" using assms(4) unfolding held_set_def by blast
  ultimately have "block (a, n) \<inter> block (b, m) = {}" by blast
  then show ?thesis by (simp add: block_def)
qed

end

text \<open>Runs of a client: allocations of small blocks and releases of blocks it holds.\<close>

inductive heap_run :: "(nat \<Rightarrow> 'h \<Rightarrow> (nat option \<times> 'h) option) \<Rightarrow> (nat option \<Rightarrow> 'h \<Rightarrow> 'h option) \<Rightarrow> (nat \<Rightarrow> bool) \<Rightarrow>
    'h \<Rightarrow> 'h \<Rightarrow> (nat \<times> nat) list \<Rightarrow> bool" for malloc mfree small s0 where
  heap_start: "heap_run malloc mfree small s0 s0 []"
| heap_malloc: "heap_run malloc mfree small s0 s held \<Longrightarrow> small n \<Longrightarrow> malloc n s = Some (r, t) \<Longrightarrow>
    heap_run malloc mfree small s0 t (case r of None \<Rightarrow> held | Some a \<Rightarrow> (a, n) # held)"
| heap_free_step: "heap_run malloc mfree small s0 s (h1 @ (a, n) # h2) \<Longrightarrow> mfree (Some a) s = Some t \<Longrightarrow>
    heap_run malloc mfree small s0 t (h1 @ h2)"

context kernel_heap
begin

lemma heap_run_ok: "heap_run malloc mfree small s0 s held \<Longrightarrow> ok s0 [] \<Longrightarrow> ok s held"
proof (induction rule: heap_run.induct)
  case (heap_malloc s held n r t)
  then show ?case using malloc_ok [of s held n] by (auto split: option.splits)
next
  case (heap_free_step s h1 a n h2 t)
  then show ?case using mfree_ok [of s h1 a n h2] by auto
qed

lemma heap_run_safe:
  assumes "heap_run malloc mfree small s0 s held" "ok s0 []"
  shows "held_disjoint held \<and> (\<forall>n. small n \<longrightarrow> malloc n s \<noteq> None) \<and> (\<forall>a n. (a, n) \<in> set held \<longrightarrow> mfree (Some a) s \<noteq> None)"
proof -
  have k: "ok s held" by (rule heap_run_ok [OF assms])
  have "mfree (Some a) s \<noteq> None" if m: "(a, n) \<in> set held" for a n
  proof -
    obtain h1 h2 where "held = h1 @ (a, n) # h2" using m by (meson split_list)
    then show ?thesis using mfree_ok [of s h1 a n h2] k by auto
  qed
  moreover have "malloc n s \<noteq> None" if "small n" for n using malloc_ok [OF k that] by auto
  ultimately show ?thesis using ok_disjoint [OF k] by blast
qed

end

subsection \<open>kmalloc and kfree provide it\<close>

definition chunk :: "nat \<times> nat \<Rightarrow> nat set" where "chunk b = unit_bytes (fst b - 16) (snd b + 16)"

definition kheap :: "hpst \<Rightarrow> (nat \<times> nat) list \<Rightarrow> bool" where
  "kheap s held \<longleftrightarrow> (\<exists>F H. heap_ok s F H \<and>
     (\<forall>b\<in>set held. arena s + 32 < fst b \<and> 0 < snd b \<and> un (fst b - 16) s = SLOB_UNITS (snd b + 16) \<and>
        chunk b \<inter> (H \<union> page_bytes F) = {})) \<and>
     bigblocks s = None \<and> sorted_wrt (\<lambda>x y. chunk x \<inter> chunk y = {}) held"

definition kmalloc_small :: "nat \<Rightarrow> bool" where "kmalloc_small n \<longleftrightarrow> 0 < n \<and> n < PGSIZE - 2 * SLOB_UNIT"

lemma heap_above_arena: "heap_ok s F H \<Longrightarrow> x \<in> H \<union> page_bytes F \<Longrightarrow> arena s + 16 < x"
  by (fastforce simp: heap_ok_def heap_free_def span_def slob_inv_def page_bytes_def)

lemma same_headers_chunk:
  assumes "same_headers s A t" "arena s + 32 < fst b" "chunk b \<inter> A = {}" "0 < snd b"
  shows "un (fst b - 16) t = un (fst b - 16) s" "arena t = arena s"
proof -
  have "fst b - 16 \<in> chunk b" using assms(4) by (simp add: chunk_def unit_bytes_def SLOB_UNITS_def SLOB_UNIT_def)
  then show "un (fst b - 16) t = un (fst b - 16) s" using assms by (auto simp: same_headers_def)
qed (use assms in \<open>simp add: same_headers_def\<close>)

lemma kmalloc_ok:
  assumes k: "kheap s held" and n: "kmalloc_small n"
  shows "\<exists>r t. kmalloc n s = Some (r, t) \<and> (case r of None \<Rightarrow> kheap t held | Some a \<Rightarrow> 0 < a \<and> kheap t ((a, n) # held))"
proof -
  obtain F H where h: "heap_ok s F H" and hb: "\<forall>b\<in>set held. arena s + 32 < fst b \<and> 0 < snd b \<and>
      un (fst b - 16) s = SLOB_UNITS (snd b + 16) \<and> chunk b \<inter> (H \<union> page_bytes F) = {}"
    and bb: "bigblocks s = None" "sorted_wrt (\<lambda>x y. chunk x \<inter> chunk y = {}) held" using k by (auto simp: kheap_def)
  have nn: "2 \<le> SLOB_UNITS (n + SLOB_UNIT)" "n + SLOB_UNIT + SLOB_UNIT < PGSIZE" "n < PGSIZE - SLOB_UNIT"
    using n by (auto simp: SLOB_UNITS_def SLOB_UNIT_def kmalloc_small_def PGSIZE_def)
  obtain r t F' H' where t: "slob_alloc (n + SLOB_UNIT) 0 s = Some (r, t)" "alloc_done s F H (n + SLOB_UNIT) r t F' H'"
    using slob_alloc_ok [OF h nn(1,2)] by blast
  have km: "kmalloc n s = Some (map_option (\<lambda>m. slob_plus m 1) r, t)" using t(1) nn(3) by (simp add: kmalloc_def)
  show ?thesis
  proof (cases r)
    case None
    then show ?thesis using km t(2) k by (auto simp: alloc_done_def)
  next
    case (Some c)
    note T = t(2) [unfolded alloc_done_def Some, simplified]
    have sp: "slob_plus c 1 = c + 16" by (simp add: slob_plus_eq)
    have ch: "chunk (c + 16, n) = unit_bytes c (n + SLOB_UNIT)" by (simp add: chunk_def SLOB_UNIT_def)
    have cin: "c \<in> unit_bytes c (n + SLOB_UNIT)" using nn(1) by (simp add: unit_bytes_def)
    have sub: "page_bytes F' \<subseteq> page_bytes F" "page_bytes (F - F') \<subseteq> page_bytes F" using T by (auto simp: page_bytes_def)
    have ac: "arena s + 16 < c" using heap_above_arena [OF h, of c] T cin sub by blast
    have new: "unit_bytes c (n + SLOB_UNIT) \<subseteq> H \<union> page_bytes F" using T sub by blast
    have dF: "unit_bytes c (n + SLOB_UNIT) \<inter> page_bytes F' = {}"
      using T h sub page_bytes_disjoint [of "F - F'" F'] unfolding heap_ok_def by blast
    have "\<forall>b\<in>set ((c + 16, n) # held). arena t + 32 < fst b \<and> 0 < snd b \<and> un (fst b - 16) t = SLOB_UNITS (snd b + 16) \<and>
        chunk b \<inter> (H' \<union> page_bytes F') = {}"
    proof (intro ballI)
      fix b assume b: "b \<in> set ((c + 16, n) # held)"
      show "arena t + 32 < fst b \<and> 0 < snd b \<and> un (fst b - 16) t = SLOB_UNITS (snd b + 16) \<and> chunk b \<inter> (H' \<union> page_bytes F') = {}"
      proof (cases "b = (c + 16, n)")
        case True
        then show ?thesis using T ac n dF ch by (auto simp: same_headers_def kmalloc_small_def SLOB_UNIT_def)
      next
        case False
        then have o: "arena s + 32 < fst b" "0 < snd b" "un (fst b - 16) s = SLOB_UNITS (snd b + 16)" "chunk b \<inter> (H \<union> page_bytes F) = {}"
          using b hb by auto
        then show ?thesis using T same_headers_chunk [of s "H \<union> page_bytes F" t b] sub by auto
      qed
    qed
    moreover have "sorted_wrt (\<lambda>x y. chunk x \<inter> chunk y = {}) ((c + 16, n) # held)"
      using bb(2) hb new ch by fastforce
    ultimately have "kheap t ((c + 16, n) # held)" using T bb(1) unfolding kheap_def by metis
    then show ?thesis using km Some sp by auto
  qed
qed

lemma kfree_ok:
  assumes k: "kheap s (h1 @ (a, n) # h2)"
  shows "\<exists>t. kfree (Some a) s = Some t \<and> kheap t (h1 @ h2)"
proof -
  obtain F H where h: "heap_ok s F H" and hb: "\<forall>b\<in>set (h1 @ (a, n) # h2). arena s + 32 < fst b \<and> 0 < snd b \<and>
      un (fst b - 16) s = SLOB_UNITS (snd b + 16) \<and> chunk b \<inter> (H \<union> page_bytes F) = {}"
    and bb: "bigblocks s = None" "sorted_wrt (\<lambda>x y. chunk x \<inter> chunk y = {}) (h1 @ (a, n) # h2)" using k by (auto simp: kheap_def)
  have A: "arena s + 32 < a" "0 < n" "un (a - 16) s = SLOB_UNITS (n + 16)" "chunk (a, n) \<inter> (H \<union> page_bytes F) = {}" using hb by auto
  have sp: "slob_plus a (- 1) = a - 16" using A(1) by (simp add: slob_plus_def SLOB_UNIT_def)
  have kf: "kfree (Some a) s = slob_free (Some (a - 16)) 0 s"
    using bb(1) by (simp add: kfree_def sp) (simp add: big_find.simps)
  have span: "span (a - 16) s = chunk (a, n)" using A by (simp add: span_def chunk_def unit_bytes_def)
  have u: "1 \<le> un (a - 16) s" using A(2,3) by (simp add: SLOB_UNITS_def SLOB_UNIT_def)
  obtain t where t: "slob_free (Some (a - 16)) 0 s = Some t" "heap_ok t F (H \<union> chunk (a, n))" "bigblocks t = bigblocks s"
    "same_headers s (H \<union> chunk (a, n)) t"
    using slob_free_ok [OF h u] A(1,4) unfolding span by fastforce
  have dis: "chunk b \<inter> chunk (a, n) = {}" if "b \<in> set (h1 @ h2)" for b
    using bb(2) that by (auto simp: sorted_wrt_append)
  have "\<forall>b\<in>set (h1 @ h2). arena t + 32 < fst b \<and> 0 < snd b \<and> un (fst b - 16) t = SLOB_UNITS (snd b + 16) \<and>
      chunk b \<inter> (H \<union> chunk (a, n) \<union> page_bytes F) = {}"
  proof (intro ballI)
    fix b assume b: "b \<in> set (h1 @ h2)"
    then have o: "arena s + 32 < fst b" "0 < snd b" "un (fst b - 16) s = SLOB_UNITS (snd b + 16)" "chunk b \<inter> (H \<union> page_bytes F) = {}"
      using hb by auto
    have "chunk b \<inter> (H \<union> chunk (a, n)) = {}" using o(4) dis [OF b] by blast
    then show "arena t + 32 < fst b \<and> 0 < snd b \<and> un (fst b - 16) t = SLOB_UNITS (snd b + 16) \<and>
      chunk b \<inter> (H \<union> chunk (a, n) \<union> page_bytes F) = {}"
      using same_headers_chunk [OF t(4) o(1) _ o(2)] o dis [OF b] by auto
  qed
  moreover have "sorted_wrt (\<lambda>x y. chunk x \<inter> chunk y = {}) (h1 @ h2)" using bb(2) by (auto simp: sorted_wrt_append)
  ultimately have "kheap t (h1 @ h2)" using t(2,3) bb(1) unfolding kheap_def by metis
  then show ?thesis using kf t(1) by simp
qed

lemma kheap_disjoint: "kheap s held \<Longrightarrow> held_disjoint held"
proof -
  have sub: "{a..<a + n} \<subseteq> chunk (a, n)" if "16 \<le> a" for a n :: nat
  proof -
    have "int n + 16 \<le> 16 * SLOB_UNITS (n + 16)" by (simp add: SLOB_UNITS_def SLOB_UNIT_def)
    then show ?thesis using that by (auto simp: chunk_def unit_bytes_def)
  qed
  show "held_disjoint held" if k: "kheap s held"
  proof -
    have p: "16 \<le> fst b \<and> 0 < snd b" if "b \<in> set held" for b using k that by (auto simp: kheap_def)
    have "sorted_wrt (\<lambda>x y. chunk x \<inter> chunk y = {}) held" using k by (simp add: kheap_def)
    then show ?thesis using p
    proof (induction held)
      case (Cons b held)
      obtain a n where b: "b = (a, n)" by (cases b)
      have "{a..<a + n} \<inter> {a'..<a' + n'} = {}" if m: "(a', n') \<in> set held" for a' n'
        using sub [of a n] sub [of a' n'] Cons.prems m b by fastforce
      then have "block b \<inter> held_set held = {}" by (force simp: held_set_def block_def b)
      moreover have "0 < snd b" using Cons.prems by simp
      moreover have "held_disjoint held" using Cons by auto
      ultimately show ?case by simp
    qed simp
  qed
qed

interpretation kheap: kernel_heap kmalloc kfree kheap kmalloc_small
  by unfold_locales (fact kmalloc_ok kfree_ok kheap_disjoint)+


subsection \<open>Properties\<close>

definition fresh_heap :: hpst where
  "fresh_heap = \<lparr>vm = one_page, slobs = (\<lambda>_. \<lparr>units = 1, snext = 4096\<rparr>), slobfree = 4096,
     bigs = (\<lambda>_. \<lparr>border = 0, bpages = 0, bnext = None\<rparr>), bigblocks = None, arena = 4096\<rparr>"

lemma fresh_heap_ok: "kheap fresh_heap []"
proof -
  have "slob_inv fresh_heap []" by (simp add: slob_inv_def fresh_heap_def nx_def un_def)
  then have "heap_ok fresh_heap {0, 1, 5, 6, 7} {}"
    using one_page_mem by (auto simp: heap_ok_def intro!: exI [of _ "[]"]) (simp_all add: fresh_heap_def nbase_def PGSIZE_def)
  then show ?thesis by (auto simp: kheap_def) (simp add: fresh_heap_def)
qed

text \<open>
  C25: in every run of allocations of 1 to 4063 bytes and releases of held blocks, the blocks held are
  pairwise disjoint, the next allocation returns (a block or \<open>NULL\<close>), and the next release of a held block
  returns: neither the search through the circular list nor the growth of the heap runs forever or panics.
\<close>

theorem kmalloc_run_safe:
  assumes "heap_run kmalloc kfree kmalloc_small s0 s held" "kheap s0 []"
  shows "held_disjoint held \<and> (\<forall>n. kmalloc_small n \<longrightarrow> kmalloc n s \<noteq> None) \<and>
    (\<forall>a n. (a, n) \<in> set held \<longrightarrow> kfree (Some a) s \<noteq> None)"
  by (rule kheap.heap_run_safe [OF assms])

theorem kmalloc_run_safe_witness:
  "\<exists>r t. kmalloc 24 fresh_heap = Some (r, t) \<and> kmalloc 100 t \<noteq> None \<and> (\<forall>a. r = Some a \<longrightarrow> kfree (Some a) t \<noteq> None)"
proof -
  have k: "kmalloc_small 24" "kmalloc_small 100" by (simp_all add: kmalloc_small_def PGSIZE_def SLOB_UNIT_def)
  obtain r t where t: "kmalloc 24 fresh_heap = Some (r, t)" using kheap.malloc_ok [OF fresh_heap_ok k(1)] by auto
  have "heap_run kmalloc kfree kmalloc_small fresh_heap t (case r of None \<Rightarrow> [] | Some a \<Rightarrow> [(a, 24)])"
    using heap_run.heap_malloc [where malloc = kmalloc and small = kmalloc_small, OF heap_run.heap_start k(1) t] by simp
  from kmalloc_run_safe [OF this fresh_heap_ok] show ?thesis using t k(2) by (auto split: option.splits)
qed

text \<open>
  C26: sizes that \<open>kmalloc\<close> does not serve. A size from 4064 to 4079 passes the test against
  \<open>PAGE_SIZE - SLOB_UNIT\<close> and then fails the assertion of \<open>slob_alloc\<close>, which counts the header a second time;
  and \<open>find_order\<close> halves with truncation, so that a request of \<open>2 ^ k\<close> pages and fewer than \<open>2 ^ k\<close> bytes
  more is given \<open>2 ^ k\<close> pages.
\<close>

lemma find_order_loop_short: "0 < r \<Longrightarrow> r < 2 ^ k \<Longrightarrow> find_order_loop (4096 * 2 ^ k + r) m = m + k"
proof (induction k arbitrary: r m)
  case (Suc k)
  have "4096 < 4096 * 2 ^ Suc k + r" using Suc.prems(1) one_le_power [of "2 :: int" "Suc k"] by linarith
  moreover have "drop_bit 1 (4096 * 2 ^ Suc k + r) = 4096 * 2 ^ k + r div 2" by (simp add: drop_bit_eq_div)
  ultimately have step: "find_order_loop (4096 * 2 ^ Suc k + r) m = find_order_loop (4096 * 2 ^ k + r div 2) (m + 1)"
    by (subst find_order_loop.simps) simp
  show ?case
  proof (cases "r div 2 = 0")
    case True
    have "find_order_loop (4096 * 2 ^ k) (m + 1) = m + 1 + k" for m
    proof (induction k arbitrary: m)
      case (Suc k)
      have "4096 < 4096 * (2 :: int) ^ Suc k" using one_less_power [of "2 :: int" "Suc k"] by linarith
      moreover have "drop_bit 1 (4096 * 2 ^ Suc k :: int) = 4096 * 2 ^ k" by (simp add: drop_bit_eq_div)
      ultimately show ?case using Suc.IH [of "m + 1"] by (subst find_order_loop.simps) simp
    qed (subst find_order_loop.simps, simp)
    then show ?thesis using step True by simp
  next
    case False
    then have "0 < r div 2" "r div 2 < 2 ^ k" using Suc.prems by auto
    then show ?thesis using step Suc.IH [of "r div 2" "m + 1"] by simp
  qed
qed simp

theorem kmalloc_size_gaps:
  assumes "4064 \<le> n" "n < 4080" "0 < r" "r < 2 ^ k"
  shows "kmalloc n s = None \<and> find_order (4096 * 2 ^ k + r) = k \<and> 2 ^ find_order (4096 * 2 ^ k + r) * int PGSIZE < 4096 * 2 ^ k + r"
proof -
  have "kmalloc n s = None" using assms(1,2) by (simp add: kmalloc_def slob_alloc_def PGSIZE_def SLOB_UNIT_def kassert_def)
  then show ?thesis using find_order_loop_short [OF assms(3,4), of 0] assms(3) by (simp add: find_order_def PGSIZE_def)
qed

theorem kmalloc_size_gaps_witness: "kmalloc 4070 fresh_heap = None \<and> find_order 8193 = 1"
  using kmalloc_size_gaps [of 4070 1 1 fresh_heap] by simp

end
