(* ===== verification/Kern_String.thy ===== *)
theory Kern_String
  imports Kernel_Prelude
begin

section \<open>Strings and memory blocks (libs/string.c)\<close>

text \<open>
  Memory is a map from addresses to bytes; \<open>char\<close> is unsigned, as it is on RISC-V, and a pointer never wraps
  around. A loop that looks for the end of a string does not return when there is none: \<open>None\<close>.
\<close>

type_synonym bytes = "nat \<Rightarrow> 8 word"

subsection \<open>Operations\<close>

definition chr :: "string \<Rightarrow> 8 word" where "chr c = of_char (hd c)"

partial_function (option) strlen_loop :: "nat \<Rightarrow> nat \<Rightarrow> bytes \<Rightarrow> nat option" where
  "strlen_loop s cnt m = (if m s \<noteq> 0 then strlen_loop (s + 1) (cnt + 1) m else Some cnt)"

definition strlen :: "nat \<Rightarrow> bytes \<Rightarrow> nat option" where "strlen s m = strlen_loop s 0 m"

function strnlen_loop :: "nat \<Rightarrow> nat \<Rightarrow> nat \<Rightarrow> bytes \<Rightarrow> nat" where
  "strnlen_loop s len cnt m = (if cnt < len \<and> m s \<noteq> 0 then strnlen_loop (s + 1) len (cnt + 1) m else cnt)"
  by auto
termination by (relation "measure (\<lambda>(s, len, cnt, m). len - cnt)") auto

declare strnlen_loop.simps [simp del]

definition strnlen :: "nat \<Rightarrow> nat \<Rightarrow> bytes \<Rightarrow> nat" where "strnlen s len m = strnlen_loop s len 0 m"

partial_function (option) strcpy_loop :: "nat \<Rightarrow> nat \<Rightarrow> bytes \<Rightarrow> bytes option" where
  "strcpy_loop p src m =
     (let m = m(p := m src) in if m p \<noteq> 0 then strcpy_loop (p + 1) (src + 1) m else Some m)"

definition strcpy :: "nat \<Rightarrow> nat \<Rightarrow> bytes \<Rightarrow> (nat \<times> bytes) option" where
  "strcpy dst src m = do { m \<leftarrow> strcpy_loop dst src m; Some (dst, m) }"

fun strncpy_loop :: "nat \<Rightarrow> nat \<Rightarrow> nat \<Rightarrow> bytes \<Rightarrow> bytes" where
  "strncpy_loop p src 0 m = m"
| "strncpy_loop p src (Suc len) m =
     (let m' = m(p := m src) in strncpy_loop (p + 1) (if m' p \<noteq> 0 then src + 1 else src) len m')"

definition strncpy :: "nat \<Rightarrow> nat \<Rightarrow> nat \<Rightarrow> bytes \<Rightarrow> nat \<times> bytes" where
  "strncpy dst src len m = (dst, strncpy_loop dst src len m)"

definition strcat :: "nat \<Rightarrow> nat \<Rightarrow> bytes \<Rightarrow> (nat \<times> bytes) option" where
  "strcat dst src m = do { n \<leftarrow> strlen dst m; strcpy (dst + n) src m }"

partial_function (option) strcmp :: "nat \<Rightarrow> nat \<Rightarrow> bytes \<Rightarrow> int option" where
  "strcmp s1 s2 m =
     (if m s1 \<noteq> 0 \<and> m s1 = m s2 then strcmp (s1 + 1) (s2 + 1) m else Some (uint (m s1) - uint (m s2)))"

fun strncmp :: "nat \<Rightarrow> nat \<Rightarrow> nat \<Rightarrow> bytes \<Rightarrow> int" where
  "strncmp s1 s2 0 m = 0"
| "strncmp s1 s2 (Suc n) m =
     (if m s1 \<noteq> 0 \<and> m s1 = m s2 then strncmp (s1 + 1) (s2 + 1) n m else uint (m s1) - uint (m s2))"

partial_function (option) strchr :: "nat \<Rightarrow> 8 word \<Rightarrow> bytes \<Rightarrow> nat option option" where
  "strchr s c m = (if m s \<noteq> 0 then if m s = c then Some (Some s) else strchr (s + 1) c m else Some None)"

partial_function (option) strfind :: "nat \<Rightarrow> 8 word \<Rightarrow> bytes \<Rightarrow> nat option" where
  "strfind s c m = (if m s \<noteq> 0 then if m s = c then Some s else strfind (s + 1) c m else Some s)"

text \<open>\<open>strtol\<close>: the white space, the digit of a character, and the loop over the digits. \<open>long\<close> wraps around.\<close>

partial_function (option) skip_white :: "nat \<Rightarrow> bytes \<Rightarrow> nat option" where
  "skip_white s m = (if m s = chr '' '' \<or> m s = 9 then skip_white (s + 1) m else Some s)"

definition digit_of :: "8 word \<Rightarrow> int option" where
  "digit_of c =
     (if c \<ge> chr ''0'' \<and> c \<le> chr ''9'' then Some (uint c - uint (chr ''0''))
      else if c \<ge> chr ''a'' \<and> c \<le> chr ''z'' then Some (uint c - uint (chr ''a'') + 10)
      else if c \<ge> chr ''A'' \<and> c \<le> chr ''Z'' then Some (uint c - uint (chr ''A'') + 10)
      else None)"

partial_function (option) digits_loop :: "nat \<Rightarrow> 64 word \<Rightarrow> int \<Rightarrow> bytes \<Rightarrow> (nat \<times> 64 word) option" where
  "digits_loop s val base m = (case digit_of (m s) of
     None \<Rightarrow> Some (s, val)
   | Some dig \<Rightarrow> if dig \<ge> base then Some (s, val)
                 else digits_loop (s + 1) (val * word_of_int base + word_of_int dig) base m)"

text \<open>The result and the value of \<open>*endptr\<close>.\<close>

definition strtol :: "nat \<Rightarrow> int \<Rightarrow> bytes \<Rightarrow> (int \<times> nat) option" where
  "strtol s base m = do {
     s \<leftarrow> skip_white s m;
     let (s, neg) = (if m s = chr ''+'' then (s + 1, False) else if m s = chr ''-'' then (s + 1, True) else (s, False));
     let (s, base) =
       (if (base = 0 \<or> base = 16) \<and> m s = chr ''0'' \<and> m (s + 1) = chr ''x'' then (s + 2, 16)
        else if base = 0 \<and> m s = chr ''0'' then (s + 1, 8)
        else if base = 0 then (s, 10)
        else (s, base));
     (s, val) \<leftarrow> digits_loop s 0 base m;
     Some (sint (if neg then - val else val), s)
   }"

fun memset_loop :: "nat \<Rightarrow> 8 word \<Rightarrow> nat \<Rightarrow> bytes \<Rightarrow> bytes" where
  "memset_loop p c 0 m = m"
| "memset_loop p c (Suc n) m = memset_loop (p + 1) c n (m(p := c))"

definition memset :: "nat \<Rightarrow> 8 word \<Rightarrow> nat \<Rightarrow> bytes \<Rightarrow> nat \<times> bytes" where
  "memset s c n m = (s, memset_loop s c n m)"

fun copy_up :: "nat \<Rightarrow> nat \<Rightarrow> nat \<Rightarrow> bytes \<Rightarrow> bytes" where
  "copy_up d s 0 m = m"
| "copy_up d s (Suc n) m = copy_up (d + 1) (s + 1) n (m(d := m s))"

fun copy_down :: "nat \<Rightarrow> nat \<Rightarrow> nat \<Rightarrow> bytes \<Rightarrow> bytes" where
  "copy_down d s 0 m = m"
| "copy_down d s (Suc n) m = (let d = d - 1; s = s - 1 in copy_down d s n (m(d := m s)))"

definition memmove :: "nat \<Rightarrow> nat \<Rightarrow> nat \<Rightarrow> bytes \<Rightarrow> nat \<times> bytes" where
  "memmove dst src n m =
     (dst, if src < dst \<and> src + n > dst then copy_down (dst + n) (src + n) n m else copy_up dst src n m)"

definition memcpy :: "nat \<Rightarrow> nat \<Rightarrow> nat \<Rightarrow> bytes \<Rightarrow> nat \<times> bytes" where
  "memcpy dst src n m = (dst, copy_up dst src n m)"

fun memcmp :: "nat \<Rightarrow> nat \<Rightarrow> nat \<Rightarrow> bytes \<Rightarrow> int" where
  "memcmp s1 s2 0 m = 0"
| "memcmp s1 s2 (Suc n) m = (if m s1 \<noteq> m s2 then uint (m s1) - uint (m s2) else memcmp (s1 + 1) (s2 + 1) n m)"

subsection \<open>Blocks\<close>

text \<open>The block copied at once, as an assignment of all bytes from the old memory.\<close>

definition block_copy :: "nat \<Rightarrow> nat \<Rightarrow> nat \<Rightarrow> bytes \<Rightarrow> bytes" where
  "block_copy dst src n m = (\<lambda>a. if dst \<le> a \<and> a < dst + n then m (src + (a - dst)) else m a)"

lemma copy_up_block: "\<not> (s < d \<and> d < s + n) \<Longrightarrow> copy_up d s n m = block_copy d s n m"
proof (induction n arbitrary: d s m)
  case (Suc n)
  have "copy_up d s (Suc n) m = block_copy (d + 1) (s + 1) n (m(d := m s))"
    unfolding copy_up.simps by (rule Suc.IH) (use Suc.prems in auto)
  also have "\<dots> = block_copy d s (Suc n) m"
  proof
    fix a
    consider "a = d" | "a < d" | "d < a" "a < d + Suc n" | "d + Suc n \<le> a" by linarith
    then show "block_copy (d + 1) (s + 1) n (m(d := m s)) a = block_copy d s (Suc n) m a"
    proof cases
      case 3
      then have "s + 1 + (a - (d + 1)) = s + (a - d)" "s + (a - d) \<noteq> d" using Suc.prems by auto
      then show ?thesis using 3 by (simp add: block_copy_def)
    qed (auto simp: block_copy_def)
  qed
  finally show ?case .
qed (auto simp: block_copy_def fun_eq_iff)

lemma copy_down_block: "s \<le> d \<Longrightarrow> copy_down (d + n) (s + n) n m = block_copy d s n m"
proof (induction n arbitrary: m)
  case (Suc n)
  have "copy_down (d + Suc n) (s + Suc n) (Suc n) m = block_copy d s n (m(d + n := m (s + n)))"
    using Suc by (simp add: Let_def)
  also have "\<dots> = block_copy d s (Suc n) m"
    using Suc.prems by (auto simp: block_copy_def fun_eq_iff less_Suc_eq)
  finally show ?case .
qed (auto simp: block_copy_def fun_eq_iff)

text \<open>
  C27: \<open>memmove\<close> is the simultaneous copy of the block, for every overlap of source and destination: byte \<open>i\<close> of
  the destination is byte \<open>i\<close> the source had, and nothing else changes. \<open>memcpy\<close> is that as well, unless the
  destination starts inside the source.
\<close>

theorem memmove_simultaneous:
  "memmove dst src n m = (dst, block_copy dst src n m) \<and>
   (dst \<le> src \<or> src + n \<le> dst \<longrightarrow> memcpy dst src n m = memmove dst src n m)"
proof -
  have "memmove dst src n m = (dst, block_copy dst src n m)"
    using copy_up_block [of src dst n m] copy_down_block [of src dst n m] by (auto simp: memmove_def)
  then show ?thesis using copy_up_block [of src dst n m] by (auto simp: memcpy_def)
qed

theorem memmove_simultaneous_witness:
  "memmove 101 100 3 (\<lambda>a. word_of_nat a) = (101, (\<lambda>a. word_of_nat a)(101 := 100, 102 := 101, 103 := 102)) \<and>
   memcpy 100 101 3 (\<lambda>a. word_of_nat a) = memmove 100 101 3 (\<lambda>a. word_of_nat a)"
proof -
  have "block_copy 101 100 3 (\<lambda>a. word_of_nat a) = (\<lambda>a. word_of_nat a :: 8 word)(101 := 100, 102 := 101, 103 := 102)"
  proof
    fix a
    have "101 \<le> a \<and> a < 101 + 3 \<longleftrightarrow> a = 101 \<or> a = 102 \<or> a = 103" for a :: nat by auto
    then show "block_copy 101 100 3 (\<lambda>a. word_of_nat a) a = ((\<lambda>a. word_of_nat a :: 8 word)(101 := 100, 102 := 101, 103 := 102)) a"
      by (auto simp: block_copy_def)
  qed
  then show ?thesis using memmove_simultaneous [of 101 100 3] memmove_simultaneous [of 100 101 3] by simp
qed

end
