(* ===== verification/Printfmt.thy ===== *)
theory Printfmt
  imports Kern_String
begin

section \<open>Formatted output and random numbers (libs/printfmt.c, libs/rand.c)\<close>

text \<open>
  \<open>vprintfmt\<close> is modelled over a \<open>putch\<close> that acts on an output state of any type. The format and the string
  arguments are in a memory of bytes that the output does not change. The variable arguments are a list of
  64-bit slots, as the calling convention of RV64 passes them; taking one from an empty list is undefined
  and gives \<open>None\<close>. Widths are unbounded integers.
\<close>

subsection \<open>Error strings\<close>

definition MAXERROR :: int where "MAXERROR = 24"

definition error_string :: "int \<Rightarrow> string option" where
  "error_string e =
     (if e = 1 then Some ''unspecified error'' else if e = 2 then Some ''bad process''
      else if e = 3 then Some ''invalid parameter'' else if e = 4 then Some ''out of memory''
      else if e = 5 then Some ''out of processes'' else if e = 6 then Some ''segmentation fault''
      else if e = 8 then Some ''invalid elf file'' else if e = 9 then Some ''process is killed''
      else if e = 10 then Some ''panic failure'' else if e = 13 then Some ''no such device''
      else if e = 14 then Some ''device not available'' else if e = 15 then Some ''device/file is busy''
      else if e = 16 then Some ''no such file or directory'' else if e = 17 then Some ''is a directory''
      else if e = 18 then Some ''not a directory'' else if e = 19 then Some ''cross device link''
      else if e = 20 then Some ''unimplemented feature'' else if e = 21 then Some ''illegal seek''
      else if e = 22 then Some ''too many files are open'' else if e = 23 then Some ''file or directory already exists''
      else if e = 24 then Some ''directory is not empty'' else None)"

text \<open>A memory that holds the string \<open>f\<close> at 0 and the string \<open>p\<close> at 64, each with its terminator.\<close>

definition text_at :: "string \<Rightarrow> nat \<Rightarrow> 8 word" where
  "text_at f a = (if a < length f then of_char (f ! a) else 0)"

definition two_texts :: "string \<Rightarrow> string \<Rightarrow> bytes" where
  "two_texts f p a = (if a < 64 then text_at f a else text_at p (a - 64))"

subsection \<open>Numbers\<close>

function pad_loop :: "(int \<Rightarrow> 'd \<Rightarrow> 'd) \<Rightarrow> int \<Rightarrow> int \<Rightarrow> 'd \<Rightarrow> 'd" where
  "pad_loop putch width padc d =
     (let width = width - 1 in if width > 0 then pad_loop putch width padc (putch padc d) else d)"
  by auto
termination by (relation "measure (\<lambda>(_, w, _, _). nat w)") auto

declare pad_loop.simps [simp del]

definition digit_char :: "nat \<Rightarrow> int" where
  "digit_char k = uint (of_char (''0123456789abcdef'' ! k) :: 8 word)"

text \<open>\<open>do_div\<close> by 0 is undefined; every caller passes 8, 10 or 16.\<close>

partial_function (option) printnum ::
    "(int \<Rightarrow> 'd \<Rightarrow> 'd) \<Rightarrow> nat \<Rightarrow> nat \<Rightarrow> int \<Rightarrow> int \<Rightarrow> 'd \<Rightarrow> 'd option" where
  "printnum putch num base width padc d = do {
     kassert (base \<noteq> 0);
     let result = num div base;
     let k = num mod base;
     d \<leftarrow> (if num \<ge> base then printnum putch result base (width - 1) padc d
          else Some (pad_loop putch width padc d));
     Some (putch (digit_char k) d)
   }"

definition va_arg :: "64 word list \<Rightarrow> (64 word \<times> 64 word list) option" where
  "va_arg ap = (case ap of [] \<Rightarrow> None | a # ap \<Rightarrow> Some (a, ap))"

definition getuint :: "64 word list \<Rightarrow> int \<Rightarrow> (nat \<times> 64 word list) option" where
  "getuint ap lflag = do {
     (a, ap) \<leftarrow> va_arg ap;
     Some (if lflag \<ge> 2 then unat a else if lflag \<noteq> 0 then unat a else unat (ucast a :: 32 word), ap)
   }"

definition va_int :: "64 word \<Rightarrow> int" where "va_int a = sint (ucast a :: 32 word)"

definition getint :: "64 word list \<Rightarrow> int \<Rightarrow> (int \<times> 64 word list) option" where
  "getint ap lflag = do {
     (a, ap) \<leftarrow> va_arg ap;
     Some (if lflag \<ge> 2 then sint a else if lflag \<noteq> 0 then sint a else va_int a, ap)
   }"

subsection \<open>Escape sequences\<close>

record flags =
  padc :: int
  width :: int
  precision :: int
  lflag :: int
  altflag :: int

definition ch :: "string \<Rightarrow> int" where "ch c = uint (of_char (hd c) :: 8 word)"

text \<open>The loop over literal characters: \<open>None\<close> in the result is the end of the format.\<close>

partial_function (option) literal_loop ::
    "(int \<Rightarrow> 'd \<Rightarrow> 'd) \<Rightarrow> bytes \<Rightarrow> nat \<Rightarrow> 'd \<Rightarrow> (nat option \<times> 'd) option" where
  "literal_loop putch m fmt d =
     (if uint (m fmt) \<noteq> ch ''%''
      then if m fmt = 0 then Some (None, d) else literal_loop putch m (fmt + 1) (putch (uint (m fmt)) d)
      else Some (Some (fmt + 1), d))"

text \<open>The width field, entered after its first digit \<open>c\<close> with \<open>fmt\<close> behind it.\<close>

partial_function (option) width_loop :: "bytes \<Rightarrow> nat \<Rightarrow> int \<Rightarrow> int \<Rightarrow> (int \<times> nat) option" where
  "width_loop m fmt c prec =
     (let prec = prec * 10 + c - ch ''0''; c = uint (m fmt)
      in if c < ch ''0'' \<or> c > ch ''9'' then Some (prec, fmt) else width_loop m (fmt + 1) c prec)"

definition process_precision :: "flags \<Rightarrow> flags" where
  "process_precision fl = (if width fl < 0 then fl\<lparr>width := precision fl, precision := - 1\<rparr> else fl)"

text \<open>\<open>reswitch\<close>: the flags up to the conversion character.\<close>

partial_function (option) reswitch ::
    "bytes \<Rightarrow> nat \<Rightarrow> 64 word list \<Rightarrow> flags \<Rightarrow> (int \<times> nat \<times> 64 word list \<times> flags) option" where
  "reswitch m fmt ap fl = do {
     let c = uint (m fmt);
     let fmt = fmt + 1;
     (if c = ch ''-'' then reswitch m fmt ap (fl\<lparr>padc := ch ''-''\<rparr>)
      else if c = ch ''0'' then reswitch m fmt ap (fl\<lparr>padc := ch ''0''\<rparr>)
      else if ch ''1'' \<le> c \<and> c \<le> ch ''9''
      then do { (p, fmt) \<leftarrow> width_loop m fmt c 0; reswitch m fmt ap (process_precision (fl\<lparr>precision := p\<rparr>)) }
      else if c = ch ''*''
      then do { (a, ap) \<leftarrow> va_arg ap; reswitch m fmt ap (process_precision (fl\<lparr>precision := va_int a\<rparr>)) }
      else if c = ch ''.'' then reswitch m fmt ap (if width fl < 0 then fl\<lparr>width := 0\<rparr> else fl)
      else if c = ch ''#'' then reswitch m fmt ap (fl\<lparr>altflag := 1\<rparr>)
      else if c = ch ''l'' then reswitch m fmt ap (fl\<lparr>lflag := lflag fl + 1\<rparr>)
      else Some (c, fmt, ap, fl))
   }"

text \<open>The three loops of the conversion of a string at \<open>p\<close>.\<close>

function pad_left :: "(int \<Rightarrow> 'd \<Rightarrow> 'd) \<Rightarrow> int \<Rightarrow> int \<Rightarrow> 'd \<Rightarrow> int \<times> 'd" where
  "pad_left putch w pc d = (if w > 0 then pad_left putch (w - 1) pc (putch pc d) else (w, d))"
  by auto
termination by (relation "measure (\<lambda>(_, w, _, _). nat w)") auto

declare pad_left.simps [simp del]

partial_function (option) chars_loop ::
    "(int \<Rightarrow> 'd \<Rightarrow> 'd) \<Rightarrow> bytes \<Rightarrow> nat \<Rightarrow> int \<Rightarrow> int \<Rightarrow> int \<Rightarrow> 'd \<Rightarrow> (int \<times> 'd) option" where
  "chars_loop putch m p prec alt w d =
     (let c = uint (m p); prec' = (if c \<noteq> 0 \<and> \<not> prec < 0 then prec - 1 else prec)
      in if c \<noteq> 0 \<and> (prec < 0 \<or> prec' \<ge> 0)
         then chars_loop putch m (p + 1) prec' alt (w - 1)
                (if alt \<noteq> 0 \<and> (c < ch '' '' \<or> c > ch ''~'') then putch (ch ''?'') d else putch c d)
         else Some (w, d))"

definition string_out :: "(int \<Rightarrow> 'd \<Rightarrow> 'd) \<Rightarrow> bytes \<Rightarrow> nat \<Rightarrow> flags \<Rightarrow> 'd \<Rightarrow> 'd option" where
  "string_out putch m p fl d = do {
     let r = (if width fl > 0 \<and> padc fl \<noteq> ch ''-''
              then pad_left putch (width fl - int (strnlen p (if precision fl < 0 then 2 ^ 64 - 1 else nat (precision fl)) m)) (padc fl) d
              else (width fl, d));
     (w, d) \<leftarrow> chars_loop putch m p (precision fl) (altflag fl) (fst r) (snd r);
     Some (snd (pad_left putch w (ch '' '') d))
   }"

definition string_conv :: "(int \<Rightarrow> 'd \<Rightarrow> 'd) \<Rightarrow> bytes \<Rightarrow> nat \<Rightarrow> flags \<Rightarrow> 'd \<Rightarrow> 'd option" where
  "string_conv putch m p fl d =
     (if p = 0 then string_out putch (text_at ''(null)'') 0 fl d else string_out putch m p fl d)"

text \<open>The default case goes back to the character behind the last \<open>%\<close>.\<close>

partial_function (option) back_loop :: "bytes \<Rightarrow> nat \<Rightarrow> nat option" where
  "back_loop m fmt = (if uint (m (fmt - 1)) \<noteq> ch ''%'' then back_loop m (fmt - 1) else Some fmt)"

definition convert :: "(int \<Rightarrow> 'd \<Rightarrow> 'd) \<Rightarrow> bytes \<Rightarrow> int \<Rightarrow> nat \<Rightarrow> 64 word list \<Rightarrow> flags \<Rightarrow> 'd \<Rightarrow>
    (nat \<times> 64 word list \<times> 'd) option" where
  "convert putch m c fmt ap fl d =
     (if c = ch ''c'' then do { (a, ap) \<leftarrow> va_arg ap; Some (fmt, ap, putch (va_int a) d) }
      else if c = ch ''s'' then do {
        (a, ap) \<leftarrow> va_arg ap;
        d \<leftarrow> string_conv putch m (unat a) fl d;
        Some (fmt, ap, d)
      }
      else if c = ch ''d'' then do {
        (n, ap) \<leftarrow> getint ap (lflag fl);
        let (num, d) = (if n < 0 then (unat (- word_of_int n :: 64 word), putch (ch ''-'') d) else (nat n, d));
        d \<leftarrow> printnum putch num 10 (width fl) (padc fl) d;
        Some (fmt, ap, d)
      }
      else if c = ch ''u'' then do {
        (n, ap) \<leftarrow> getuint ap (lflag fl);
        d \<leftarrow> printnum putch n 10 (width fl) (padc fl) d;
        Some (fmt, ap, d)
      }
      else if c = ch ''o'' then do {
        (n, ap) \<leftarrow> getuint ap (lflag fl);
        d \<leftarrow> printnum putch n 8 (width fl) (padc fl) d;
        Some (fmt, ap, d)
      }
      else if c = ch ''p'' then do {
        (a, ap) \<leftarrow> va_arg ap;
        d \<leftarrow> printnum putch (unat a) 16 (width fl) (padc fl) (putch (ch ''x'') (putch (ch ''0'') d));
        Some (fmt, ap, d)
      }
      else if c = ch ''x'' then do {
        (n, ap) \<leftarrow> getuint ap (lflag fl);
        d \<leftarrow> printnum putch n 16 (width fl) (padc fl) d;
        Some (fmt, ap, d)
      }
      else if c = ch ''%'' then Some (fmt, ap, putch c d)
      else do { fmt \<leftarrow> back_loop m (fmt - 1); Some (fmt, ap, putch (ch ''%'') d) })"

text \<open>
  The main loop. Only \<open>%e\<close> comes back to \<open>vprintfmt\<close>, through \<open>printfmt\<close>, with a format and an argument list
  of its own.
\<close>

definition err_text :: "int \<Rightarrow> bytes \<times> 64 word list" where
  "err_text e = (case if e > MAXERROR then None else error_string e of
     None \<Rightarrow> (text_at ''error %d'', [word_of_int e])
   | Some p \<Rightarrow> (two_texts ''%s'' p, [64]))"

definition start_flags :: flags where
  "start_flags = \<lparr>padc = ch '' '', width = - 1, precision = - 1, lflag = 0, altflag = 0\<rparr>"

partial_function (option) vprintfmt ::
    "(int \<Rightarrow> 'd \<Rightarrow> 'd) \<Rightarrow> bytes \<Rightarrow> nat \<Rightarrow> 64 word list \<Rightarrow> 'd \<Rightarrow> 'd option" where
  "vprintfmt putch m fmt ap d = do {
     (f, d) \<leftarrow> literal_loop putch m fmt d;
     (case f of None \<Rightarrow> Some d | Some fmt \<Rightarrow> do {
        (c, fmt, ap, fl) \<leftarrow> reswitch m fmt ap start_flags;
        (if c = ch ''e'' then do {
           (a, ap) \<leftarrow> va_arg ap;
           let e = (if va_int a < 0 then - va_int a else va_int a);
           d \<leftarrow> vprintfmt putch (fst (err_text e)) 0 (snd (err_text e)) d;
           vprintfmt putch m fmt ap d
         }
         else do { (fmt, ap, d) \<leftarrow> convert putch m c fmt ap fl d; vprintfmt putch m fmt ap d })
      })
   }"

subsection \<open>Printing to a buffer\<close>

record sprintbuf =
  buf :: nat
  ebuf :: nat
  cnt :: int
  smem :: bytes  \<comment> \<open>the memory the buffer is in\<close>

definition sprintputch :: "int \<Rightarrow> sprintbuf \<Rightarrow> sprintbuf" where
  "sprintputch c b =
     (let b = b\<lparr>cnt := cnt b + 1\<rparr>
      in if buf b < ebuf b then b\<lparr>smem := (smem b)(buf b := word_of_int c), buf := buf b + 1\<rparr> else b)"

definition vsnprintf :: "nat \<Rightarrow> nat \<Rightarrow> bytes \<Rightarrow> nat \<Rightarrow> 64 word list \<Rightarrow> bytes \<Rightarrow> (int \<times> bytes) option" where
  "vsnprintf str size' m fmt ap mem =
     (let b = \<lparr>buf = str, ebuf = u64 (str + size' + (2 ^ 64 - 1)), cnt = 0, smem = mem\<rparr>
      in if str = 0 \<or> buf b > ebuf b then Some (- E_INVAL, mem)
         else do {
           b \<leftarrow> vprintfmt sprintputch m fmt ap b;
           Some (cnt b, (smem b)(buf b := 0))
         })"

subsection \<open>rand.c\<close>

definition RAND_MAX :: nat where "RAND_MAX = 2147483647"

definition rand :: "64 word \<Rightarrow> int \<times> 64 word" where
  "rand next =
     (let next = and (next * 0x5DEECE66D + 0xB) (push_bit 48 1 - 1); result = drop_bit 12 next
      in (sint (word_of_nat (unat result mod (RAND_MAX + 1)) :: 32 word), next))"

definition srand :: "32 word \<Rightarrow> 64 word" where "srand seed = ucast seed"


subsection \<open>Numbers read back\<close>

function digs :: "nat \<Rightarrow> nat \<Rightarrow> nat list" where
  "digs base num = (if 2 \<le> base \<and> base \<le> num then digs base (num div base) else []) @ [num mod base]"
  by auto
termination by (relation "measure snd") auto

declare digs.simps [simp del]

lemma digs_nonempty [simp]: "digs base num \<noteq> []"
  by (subst digs.simps) simp

lemma printnum_digs:
  assumes "2 \<le> base"
  shows "printnum putch num base w pc d =
    Some (fold putch (map digit_char (digs base num)) (pad_loop putch (w - int (length (digs base num) - 1)) pc d))"
proof (induction num arbitrary: w rule: less_induct)
  case (less num)
  show ?case
  proof (cases "base \<le> num")
    case True
    then have "num div base < num" using assms by simp
    then have ih: "printnum putch (num div base) base (w - 1) pc d = Some (fold putch (map digit_char (digs base (num div base)))
        (pad_loop putch (w - 1 - int (length (digs base (num div base)) - 1)) pc d))" by (rule less)
    obtain n where "length (digs base (num div base)) = Suc n"
      using digs_nonempty by (metis Suc_pred length_greater_0_conv)
    then have "w - 1 - int (length (digs base (num div base)) - 1) = w - int (length (digs base num) - 1)"
      using True assms by (subst (2) digs.simps) simp
    moreover have "digs base num = digs base (num div base) @ [num mod base]" using True assms by (subst digs.simps) simp
    ultimately show ?thesis using True assms ih by (subst printnum.simps) (simp add: Let_def)
  next
    case False
    then show ?thesis using assms by (subst printnum.simps, subst digs.simps, subst digs.simps) (simp add: Let_def)
  qed
qed

lemma digs_less: "0 < base \<Longrightarrow> k \<in> set (digs base num) \<Longrightarrow> k < base"
proof (induction base num rule: digs.induct)
  case (1 base num)
  from 1(3) have "k \<in> set (if 2 \<le> base \<and> base \<le> num then digs base (num div base) else []) \<or> k = num mod base"
    by (subst (asm) digs.simps) auto
  then show ?case using 1 by (auto split: if_splits)
qed

lemma digs_value: "2 \<le> base \<Longrightarrow> foldl (\<lambda>v k. v * base + k) 0 (digs base num) = num"
proof (induction base num rule: digs.induct)
  case (1 base num)
  then show ?case by (subst digs.simps) auto
qed

lemma all_below_16: "(\<forall>k<16. P k) \<longleftrightarrow> (\<forall>k\<in>set [0..<16]. P (k :: nat))"
  by auto

lemma digit_chars: "k < 16 \<Longrightarrow> digit_of (word_of_int (digit_char k)) = Some (int k) \<and> 0 < digit_char k \<and> digit_char k < 256 \<and>
    digit_char k \<noteq> 9 \<and> digit_char k \<noteq> 32 \<and> digit_char k \<noteq> 43 \<and> digit_char k \<noteq> 45 \<and> digit_char k \<noteq> 120"
proof -
  have "\<forall>k<16. digit_of (word_of_int (digit_char k)) = Some (int k) \<and> 0 < digit_char k \<and> digit_char k < 256 \<and>
    digit_char k \<noteq> 9 \<and> digit_char k \<noteq> 32 \<and> digit_char k \<noteq> 43 \<and> digit_char k \<noteq> 45 \<and> digit_char k \<noteq> 120"
    unfolding all_below_16 by code_simp
  then show "k < 16 \<Longrightarrow> ?thesis" by blast
qed


text \<open>A string of digits in memory.\<close>

definition digits_at :: "bytes \<Rightarrow> nat \<Rightarrow> nat list \<Rightarrow> bool" where
  "digits_at m s ks \<longleftrightarrow> (\<forall>i<length ks. m (s + i) = word_of_int (digit_char (ks ! i))) \<and> m (s + length ks) = 0"

lemma digits_at_Cons: "digits_at m s (k # ks) \<longleftrightarrow> m s = word_of_int (digit_char k) \<and> digits_at m (s + 1) ks"
  by (auto simp: digits_at_def less_Suc_eq_0_disj)

lemma digit_of_0: "digit_of 0 = None" by (simp add: digit_of_def chr_def)

lemma digits_loop_digs:
  assumes "base \<le> 16" "\<And>k. k \<in> set ks \<Longrightarrow> k < base" "digits_at m s ks"
  shows "digits_loop s (word_of_nat v) (int base) m =
    Some (s + length ks, word_of_nat (foldl (\<lambda>v k. v * base + k) v ks))"
  using assms(2,3)
proof (induction ks arbitrary: s v)
  case Nil
  then show ?case by (subst digits_loop.simps) (simp add: digits_at_def digit_of_0)
next
  case (Cons k ks)
  have "k < base" using Cons.prems(1) by simp
  then have k: "k < base" "k < 16" using assms(1) by auto
  have d: "digit_of (m s) = Some (int k)" using Cons.prems(2) digit_chars [OF k(2)] by (simp add: digits_at_Cons)
  have "word_of_nat v * word_of_int (int base) + word_of_int (int k) = (word_of_nat (v * base + k) :: 64 word)" by simp
  moreover have "digits_loop s (word_of_nat v) (int base) m =
      digits_loop (s + 1) (word_of_nat v * word_of_int (int base) + word_of_int (int k)) (int base) m"
    using k(1) by (subst digits_loop.simps) (simp add: d)
  ultimately show ?case
    using Cons.IH [of "s + 1" "v * base + k"] Cons.prems by (simp add: digits_at_Cons del: of_nat_add of_nat_mult)
qed

lemma strtol_digs:
  assumes b: "2 \<le> base" "base \<le> 16" and n: "num < 2 ^ 63" and m: "digits_at m s (digs base num)"
  shows "strtol s (int base) m = Some (int num, s + length (digs base num))"
proof -
  obtain k ks where ks: "digs base num = k # ks" using digs_nonempty by (metis list.exhaust)
  have lt: "k' < base" if "k' \<in> set (digs base num)" for k' using digs_less [of base k' num] b that by simp
  have ch: "0 < digit_char k' \<and> digit_char k' < 256 \<and> digit_char k' \<notin> {9, 32, 43, 45, 120}" if "k' \<in> set (digs base num)" for k'
    using digit_chars [of k'] lt [OF that] b(2) by auto
  have m0: "m s = word_of_int (digit_char k)" using m ks by (simp add: digits_at_Cons)
  have u0: "uint (m s) = digit_char k" using m0 ch [of k] ks by (simp add: uint_word_of_int)
  have u1: "uint (m (s + 1)) \<noteq> 120"
  proof (cases ks)
    case Nil
    then show ?thesis using m ks by (simp add: digits_at_def)
  next
    case (Cons k1 ks1)
    then have "m (s + 1) = word_of_int (digit_char k1)" using m ks by (simp add: digits_at_Cons)
    then show ?thesis using ch [of k1] ks Cons by (simp add: uint_word_of_int)
  qed
  have ne: "m s \<noteq> 9" "m s \<noteq> chr '' ''" "m s \<noteq> chr ''+''" "m s \<noteq> chr ''-''" "m (s + 1) \<noteq> chr ''x''"
    using u0 u1 ch [of k] ks by (auto simp: chr_def)
  have "skip_white s m = Some s" using ne by (subst skip_white.simps) simp
  moreover have "digits_loop s 0 (int base) m = Some (s + length (digs base num), word_of_nat num)"
    using digits_loop_digs [OF b(2) lt m, of 0] by (simp add: digs_value [OF b(1)])
  moreover have "sint (word_of_nat num :: 64 word) = int num" using n by (simp add: signed_of_nat signed_take_bit_int_eq_self)
  ultimately show ?thesis using b ne by (simp add: strtol_def)
qed


text \<open>
  C28: the digits \<open>printnum\<close> prints for a number below \<open>2 ^ 63\<close> in a base from 2 to 16, put in memory as a
  string, are read back by \<open>strtol\<close> as the same number, with the end pointer at the terminator.
\<close>

theorem printnum_strtol:
  assumes "2 \<le> base" "base \<le> 16" "num < 2 ^ 63" "w \<le> 1"
  shows "\<exists>ds. printnum (\<lambda>c d. d @ [c]) num base w pc [] = Some ds \<and>
    (\<forall>m s. (\<forall>i<length ds. m (s + i) = word_of_int (ds ! i)) \<longrightarrow> m (s + length ds) = 0 \<longrightarrow>
       strtol s (int base) m = Some (int num, s + length ds))"
proof -
  let ?ds = "map digit_char (digs base num)"
  have f: "fold (\<lambda>c d. d @ [c]) xs d = d @ xs" for xs d :: "int list" by (induction xs arbitrary: d) auto
  have "printnum (\<lambda>c d. d @ [c]) num base w pc [] = Some ?ds"
    using printnum_digs [OF assms(1), of "\<lambda>c d. d @ [c]" num w pc "[]"] assms(4) by (simp add: f pad_loop.simps)
  moreover have "strtol s (int base) m = Some (int num, s + length ?ds)"
    if "\<forall>i<length ?ds. m (s + i) = word_of_int (?ds ! i)" "m (s + length ?ds) = 0" for m s
    using strtol_digs [OF assms(1,2,3), of m s] that by (simp add: digits_at_def)
  ultimately show ?thesis by blast
qed

theorem printnum_strtol_witness:
  "strtol 0 16 (\<lambda>a. if a = 0 then 50 else if a = 1 then 97 else 0) = Some (42, 2)"
proof -
  obtain ds where p: "printnum (\<lambda>c d. d @ [c]) 42 16 0 32 [] = Some ds"
    and r: "\<And>m s. (\<forall>i<length ds. m (s + i) = word_of_int (ds ! i)) \<Longrightarrow> m (s + length ds) = 0 \<Longrightarrow>
      strtol s (int 16) m = Some (int 42, s + length ds)"
    using printnum_strtol [of 16 42 0 32] by auto
  have "printnum (\<lambda>c d. d @ [c]) 42 16 0 32 [] = Some [50, 97]"
    by (simp add: printnum.simps [of _ 42] printnum.simps [of _ 2] Let_def pad_loop.simps digit_char_def)
  then have "ds = [50, 97]" using p by simp
  then show ?thesis using r [of "\<lambda>a. if a = 0 then 50 else if a = 1 then 97 else 0" 0] by (simp add: less_Suc_eq nth_Cons')
qed

subsection \<open>Output through putch only\<close>

definition keeps_prop :: "('d \<Rightarrow> bool) \<Rightarrow> (int \<Rightarrow> 'd \<Rightarrow> 'd) \<Rightarrow> bool" where
  "keeps_prop P putch \<longleftrightarrow> (\<forall>c d. P d \<longrightarrow> P (putch c d))"

lemma keeps_propD: "keeps_prop P putch \<Longrightarrow> P d \<Longrightarrow> P (putch c d)"
  by (simp add: keeps_prop_def)

lemma pad_loop_inv: "keeps_prop P putch \<Longrightarrow> P d \<Longrightarrow> P (pad_loop putch w pc d)"
proof (induction putch w pc d rule: pad_loop.induct)
  case (1 putch w pc d)
  then show ?case by (subst pad_loop.simps) (auto simp: Let_def keeps_propD)
qed

lemma pad_left_inv: "keeps_prop P putch \<Longrightarrow> P d \<Longrightarrow> P (snd (pad_left putch w pc d))"
proof (induction putch w pc d rule: pad_left.induct)
  case (1 putch w pc d)
  then show ?case by (subst pad_left.simps) (auto simp: keeps_propD)
qed

lemma printnum_inv:
  assumes "printnum putch num base w pc d = Some d'"
  shows "keeps_prop P putch \<longrightarrow> P d \<longrightarrow> P d'"
proof (rule printnum.raw_induct [where P = "\<lambda>putch num base w pc d y. keeps_prop P putch \<longrightarrow> P d \<longrightarrow> P y", OF _ assms], goal_cases)
  case (1 rec putch num base w pc d y)
  show ?case
  proof (cases "base \<le> num")
    case True
    then obtain d1 where "rec putch (num div base) base (w - 1) pc d = Some d1" "y = putch (digit_char (num mod base)) d1"
      using 1(2) by (auto simp: Let_def bind_eq_Some_conv split: if_splits)
    then show ?thesis using 1(1) keeps_propD [of P putch] by metis
  next
    case False
    then have "y = putch (digit_char (num mod base)) (pad_loop putch w pc d)"
      using 1(2) by (auto simp: Let_def split: if_splits)
    then show ?thesis using keeps_propD [of P putch] pad_loop_inv [of P putch d w pc] by metis
  qed
qed

lemma literal_loop_inv:
  assumes "literal_loop putch m fmt d = Some r"
  shows "keeps_prop P putch \<longrightarrow> P d \<longrightarrow> P (snd r)"
proof (rule literal_loop.raw_induct [where P = "\<lambda>putch m fmt d r. keeps_prop P putch \<longrightarrow> P d \<longrightarrow> P (snd r)", OF _ assms], goal_cases)
  case (1 rec putch m fmt d y)
  then show ?case by (metis (no_types, lifting) keeps_propD option.inject snd_conv)
qed

lemma chars_loop_inv:
  assumes "chars_loop putch m p prec alt w d = Some r"
  shows "keeps_prop P putch \<longrightarrow> P d \<longrightarrow> P (snd r)"
proof (rule chars_loop.raw_induct [where P = "\<lambda>putch m p prec alt w d r. keeps_prop P putch \<longrightarrow> P d \<longrightarrow> P (snd r)", OF _ assms], goal_cases)
  case (1 rec putch m p prec alt w d y)
  show ?case
  proof (cases "rec putch m (p + 1) (if uint (m p) \<noteq> 0 \<and> \<not> prec < 0 then prec - 1 else prec) alt (w - 1)
      (if alt \<noteq> 0 \<and> (uint (m p) < ch '' '' \<or> uint (m p) > ch ''~'') then putch (ch ''?'') d else putch (uint (m p)) d) = Some y")
    case True
    have "P (if b then putch c1 d else putch c2 d)" if "keeps_prop P putch" "P d" for b c1 c2
      using keeps_propD [OF that] by simp
    then show ?thesis using 1(1) [OF True] by blast
  next
    case False
    then have "y = (w, d)" using 1(2) by (auto simp: Let_def split: if_splits)
    then show ?thesis by simp
  qed
qed

lemma string_out_inv:
  assumes "string_out putch m p fl d = Some d'" "keeps_prop P putch" "P d"
  shows "P d'"
proof -
  define r where "r = (if width fl > 0 \<and> padc fl \<noteq> ch ''-''
    then pad_left putch (width fl - int (strnlen p (if precision fl < 0 then 2 ^ 64 - 1 else nat (precision fl)) m)) (padc fl) d
    else (width fl, d))"
  obtain w d2 where d2: "chars_loop putch m p (precision fl) (altflag fl) (fst r) (snd r) = Some (w, d2)"
    and d': "d' = snd (pad_left putch w (ch '' '') d2)"
    using assms(1) unfolding string_out_def Let_def r_def [symmetric] by (auto simp: bind_eq_Some_conv)
  have "P (snd r)" using assms(3) pad_left_inv [OF assms(2,3)] by (simp add: r_def)
  then have "P d2" using chars_loop_inv [OF d2, of P] assms(2) by simp
  then show ?thesis using pad_left_inv [OF assms(2)] d' by blast
qed

lemma string_conv_inv:
  "string_conv putch m p fl d = Some d' \<Longrightarrow> keeps_prop P putch \<Longrightarrow> P d \<Longrightarrow> P d'"
  using string_out_inv by (auto simp: string_conv_def split: if_splits)

text \<open>Structural rules for what an operation that may fail does to the output.\<close>

definition out_ok :: "('d \<Rightarrow> bool) \<Rightarrow> ('a \<times> 'b \<times> 'd) option \<Rightarrow> bool" where
  "out_ok P e \<longleftrightarrow> (\<forall>r. e = Some r \<longrightarrow> P (snd (snd r)))"

lemma out_ok_rules:
  "out_ok P e1 \<Longrightarrow> out_ok P e2 \<Longrightarrow> out_ok P (if b then e1 else e2)"
  "(\<And>v. x = Some v \<Longrightarrow> out_ok P (f v)) \<Longrightarrow> out_ok P (x \<bind> f)"
  "P y \<Longrightarrow> out_ok P (Some (g, a, y))"
  "(\<And>u v. z = (u, v) \<Longrightarrow> out_ok P (h u v)) \<Longrightarrow> out_ok P (case z of (u, v) \<Rightarrow> h u v)"
  by (auto simp: out_ok_def bind_eq_Some_conv split: prod.splits)

lemma convert_inv:
  assumes "convert putch m c fmt ap fl d = Some (fmt', ap', d')" "keeps_prop P putch" "P d"
  shows "P d'"
proof -
  have pn: "P y" if "printnum putch num base w pc x = Some y" "P x" for num base w pc x y
    using printnum_inv [OF that(1), of P] that(2) assms(2) by simp
  note put = keeps_propD [OF assms(2)] and st = string_conv_inv [OF _ assms(2,3)]
  have "out_ok P (convert putch m c fmt ap fl d)"
    unfolding convert_def Let_def
    by (intro out_ok_rules) (auto intro: put st pn [OF _ put [OF put [OF assms(3)]]] pn [OF _ put [OF assms(3)]] pn [OF _ assms(3)] assms(3) split: if_splits)
  then show ?thesis using assms(1) by (auto simp: out_ok_def)
qed

lemma vprintfmt_inv:
  assumes "vprintfmt putch m fmt ap d = Some d'"
  shows "keeps_prop P putch \<longrightarrow> P d \<longrightarrow> P d'"
proof (rule vprintfmt.raw_induct [where P = "\<lambda>putch m fmt ap d r. keeps_prop P putch \<longrightarrow> P d \<longrightarrow> P r", OF _ assms], goal_cases)
  case (1 rec putch m fmt ap d y)
  show ?case
  proof (intro impI)
    assume k: "keeps_prop P putch" "P d"
    obtain f d1 where l: "literal_loop putch m fmt d = Some (f, d1)" using 1(2) by (auto simp: bind_eq_Some_conv)
    have p1: "P d1" using literal_loop_inv [OF l, of P] k by simp
    show "P y"
    proof (cases f)
      case None
      then show ?thesis using 1(2) l p1 by simp
    next
      case (Some fmt1)
      then obtain c fmt2 ap2 fl where "reswitch m fmt1 ap start_flags = Some (c, fmt2, ap2, fl)"
        using 1(2) l by (auto simp: bind_eq_Some_conv)
      note S = 1(2) [unfolded l Some, simplified, unfolded this, simplified]
      show ?thesis
      proof (cases "c = ch ''e''")
        case True
        then obtain a ap3 d2 b1 where "rec putch (fst b1) 0 (snd b1) d1 = Some d2" "rec putch m fmt2 ap3 d2 = Some y"
          using S by (auto simp: bind_eq_Some_conv Let_def)
        then show ?thesis using 1(1) k p1 by blast
      next
        case False
        then obtain fmt3 ap3 d2 where "convert putch m c fmt2 ap2 fl d1 = Some (fmt3, ap3, d2)" "rec putch m fmt3 ap3 d2 = Some y"
          using S by (auto simp: bind_eq_Some_conv)
        then show ?thesis using 1(1) k convert_inv [of putch m c fmt2 ap2 fl d1 fmt3 ap3 d2 P] p1 by blast
      qed
    qed
  qed
qed





end
