(* ===== verification/Vmm.thy ===== *)
theory Vmm
  imports Kernel_Heap Kern_String Proc_Table Sync
begin

unbundle bit_operations_syntax

section \<open>Virtual memory areas (kern/mm/vmm.c, kern/mm/vmm.h)\<close>

text \<open>
  The state of the kernel above the process table and the heap: \<open>ks\<close> is the state of the process subsystem,
  \<open>hp\<close> the heap with the physical memory, \<open>mms\<close> and \<open>vmas\<close> hold the \<open>mm_struct\<close> and the \<open>vma_struct\<close> at an
  address given by \<open>kmalloc\<close>, \<open>vlinks\<close> the links of their lists. The \<open>mm_sem\<close> of the \<open>mm_struct\<close> at \<open>mp\<close> is the
  semaphore named by its address \<open>mp + 56\<close>. A \<open>pde_t *\<close> is the number of the frame of the directory. \<open>ubytes\<close>
  are the bytes at the virtual addresses, as seen through the current page table.
\<close>

subsection \<open>State\<close>

datatype vm_le = Mmap_list nat | Vma_link nat

fun le2vma :: "vm_le \<Rightarrow> nat" where
  "le2vma (Vma_link v) = v"

record vma_struct =
  vm_mm :: nat
  vm_start :: nat
  vm_end :: nat
  vm_flags :: "32 word"

record mm_struct =
  mmap_cache :: "nat option"
  mm_pgdir :: nat
  map_count :: int
  mm_count :: int
  locked_by :: int

record sys =
  ks :: kst
  hp :: hpst
  mms :: "nat \<Rightarrow> mm_struct"
  vmas :: "nat \<Rightarrow> vma_struct"
  vlinks :: "vm_le links"
  ubytes :: bytes

definition VM_READ :: "32 word" where "VM_READ = 0x00000001"
definition VM_WRITE :: "32 word" where "VM_WRITE = 0x00000002"
definition VM_EXEC :: "32 word" where "VM_EXEC = 0x00000004"
definition VM_STACK :: "32 word" where "VM_STACK = 0x00000008"

definition SIZEOF_MM :: nat where "SIZEOF_MM = 88"
definition SIZEOF_VMA :: nat where "SIZEOF_VMA = 48"
definition mm_sem :: "nat \<Rightarrow> nat" where "mm_sem mp = mp + 56"

definition upd_mm :: "nat \<Rightarrow> (mm_struct \<Rightarrow> mm_struct) \<Rightarrow> sys \<Rightarrow> sys" where
  "upd_mm a f s = s\<lparr>mms := (mms s)(a := f (mms s a))\<rparr>"

definition upd_vma :: "nat \<Rightarrow> (vma_struct \<Rightarrow> vma_struct) \<Rightarrow> sys \<Rightarrow> sys" where
  "upd_vma a f s = s\<lparr>vmas := (vmas s)(a := f (vmas s a))\<rparr>"

definition upd_vlinks :: "(vm_le links \<Rightarrow> vm_le links) \<Rightarrow> sys \<Rightarrow> sys" where
  "upd_vlinks f s = s\<lparr>vlinks := f (vlinks s)\<rparr>"

text \<open>An operation of the process subsystem, of the heap and of the physical memory on the whole state.\<close>

definition on_ks :: "(kst \<Rightarrow> kst kresult) \<Rightarrow> sys \<Rightarrow> sys kresult" where
  "on_ks f s = do { k \<leftarrow> f (ks s); Some (s\<lparr>ks := k\<rparr>) }"

definition on_vm :: "(vmst \<Rightarrow> ('a \<times> vmst) kresult) \<Rightarrow> sys \<Rightarrow> ('a \<times> sys) kresult" where
  "on_vm f s = do { (r, m) \<leftarrow> f (vm (hp s)); Some (r, s\<lparr>hp := (hp s)\<lparr>vm := m\<rparr>\<rparr>) }"

definition on_vm' :: "(vmst \<Rightarrow> vmst kresult) \<Rightarrow> sys \<Rightarrow> sys kresult" where
  "on_vm' f s = do { m \<leftarrow> f (vm (hp s)); Some (s\<lparr>hp := (hp s)\<lparr>vm := m\<rparr>\<rparr>) }"

definition sys_kmalloc :: "nat \<Rightarrow> sys \<Rightarrow> (nat option \<times> sys) kresult" where
  "sys_kmalloc n s = do { (a, h) \<leftarrow> kmalloc n (hp s); Some (a, s\<lparr>hp := h\<rparr>) }"

definition sys_kfree :: "nat option \<Rightarrow> sys \<Rightarrow> sys kresult" where
  "sys_kfree a s = do { h \<leftarrow> kfree a (hp s); Some (s\<lparr>hp := h\<rparr>) }"

subsection \<open>Counts and the lock\<close>

definition set_mm_count :: "nat \<Rightarrow> int \<Rightarrow> sys \<Rightarrow> sys" where
  "set_mm_count mp val = upd_mm mp (\<lambda>d. d\<lparr>mm_count := val\<rparr>)"

definition mm_count_inc :: "nat \<Rightarrow> sys \<Rightarrow> int \<times> sys" where
  "mm_count_inc mp s = (let s = upd_mm mp (\<lambda>d. d\<lparr>mm_count := mm_count d + 1\<rparr>) s in (mm_count (mms s mp), s))"

definition mm_count_dec :: "nat \<Rightarrow> sys \<Rightarrow> int \<times> sys" where
  "mm_count_dec mp s = (let s = upd_mm mp (\<lambda>d. d\<lparr>mm_count := mm_count d - 1\<rparr>) s in (mm_count (mms s mp), s))"

text \<open>
  \<open>lock_mm\<close> with the \<open>wait_t\<close> of its \<open>down\<close> at \<open>w\<close>: \<open>Inl\<close> when the lock was free, \<open>Inr\<close> when the caller is blocked
  in \<open>schedule\<close>; it then goes on with \<open>lock_mm_resume\<close>.
\<close>

definition lock_mm_done :: "nat \<Rightarrow> sys \<Rightarrow> sys" where
  "lock_mm_done mp s = (case current (ks s) of
     Some c \<Rightarrow> upd_mm mp (\<lambda>d. d\<lparr>locked_by := pid (procs (ks s) c)\<rparr>) s
   | None \<Rightarrow> s)"

definition lock_mm :: "sched_class \<Rightarrow> nat \<Rightarrow> nat option \<Rightarrow> sys \<Rightarrow> (sys + sys) kresult" where
  "lock_mm cls w mp s = (case mp of
     None \<Rightarrow> Some (Inl s)
   | Some mp \<Rightarrow> do {
       r \<leftarrow> down cls (mm_sem mp) w (ks s);
       Some (case r of Inl k \<Rightarrow> Inl (lock_mm_done mp (s\<lparr>ks := k\<rparr>)) | Inr k \<Rightarrow> Inr (s\<lparr>ks := k\<rparr>))
     })"

definition lock_mm_resume :: "nat \<Rightarrow> nat \<Rightarrow> sys \<Rightarrow> sys kresult" where
  "lock_mm_resume w mp s = do { s \<leftarrow> on_ks (down_finish (mm_sem mp) w) s; Some (lock_mm_done mp s) }"

definition unlock_mm :: "sched_class \<Rightarrow> nat option \<Rightarrow> sys \<Rightarrow> sys kresult" where
  "unlock_mm cls mp s = (case mp of
     None \<Rightarrow> Some s
   | Some mp \<Rightarrow> do {
       s \<leftarrow> on_ks (up cls (mm_sem mp)) s;
       Some (upd_mm mp (\<lambda>d. d\<lparr>locked_by := 0\<rparr>) s)
     })"

subsection \<open>Creating and finding areas\<close>

definition mm_create :: "sys \<Rightarrow> (nat option \<times> sys) kresult" where
  "mm_create s = do {
     (mp, s) \<leftarrow> sys_kmalloc SIZEOF_MM s;
     (case mp of
        None \<Rightarrow> Some (None, s)
      | Some mp \<Rightarrow> do {
          let s = upd_vlinks (list_init (Mmap_list mp)) s;
          let s = upd_mm mp (\<lambda>d. d\<lparr>mmap_cache := None, mm_pgdir := 0, map_count := 0\<rparr>) s;
          let s = set_mm_count mp 0 s;
          Some (Some mp, s\<lparr>ks := sem_init (mm_sem mp) 1 (ks s)\<rparr>)
        })
   }"

definition vma_create :: "nat \<Rightarrow> nat \<Rightarrow> 32 word \<Rightarrow> sys \<Rightarrow> (nat option \<times> sys) kresult" where
  "vma_create start end' vflags s = do {
     (vma, s) \<leftarrow> sys_kmalloc SIZEOF_VMA s;
     (case vma of
        None \<Rightarrow> Some (None, s)
      | Some vma \<Rightarrow> Some (Some vma, upd_vma vma (\<lambda>d. d\<lparr>vm_start := start, vm_end := end', vm_flags := vflags\<rparr>) s))
   }"

definition in_vma :: "nat \<Rightarrow> nat \<Rightarrow> sys \<Rightarrow> bool" where
  "in_vma addr vma s \<longleftrightarrow> vm_start (vmas s vma) \<le> addr \<and> addr < vm_end (vmas s vma)"

partial_function (option) find_vma_loop :: "vm_le \<Rightarrow> vm_le \<Rightarrow> nat \<Rightarrow> sys \<Rightarrow> nat option option" where
  "find_vma_loop list le addr s =
     (let le = list_next le (vlinks s)
      in if le \<noteq> list
         then if in_vma addr (le2vma le) s then Some (Some (le2vma le)) else find_vma_loop list le addr s
         else Some None)"

definition find_vma :: "nat option \<Rightarrow> nat \<Rightarrow> sys \<Rightarrow> (nat option \<times> sys) kresult" where
  "find_vma mp addr s = (case mp of
     None \<Rightarrow> Some (None, s)
   | Some mp \<Rightarrow> do {
       vma \<leftarrow> (case mmap_cache (mms s mp) of
                Some v \<Rightarrow> if in_vma addr v s then Some (Some v)
                          else find_vma_loop (Mmap_list mp) (Mmap_list mp) addr s
              | None \<Rightarrow> find_vma_loop (Mmap_list mp) (Mmap_list mp) addr s);
       Some (vma, if vma \<noteq> None then upd_mm mp (\<lambda>d. d\<lparr>mmap_cache := vma\<rparr>) s else s)
     })"

definition check_vma_overlap :: "nat \<Rightarrow> nat \<Rightarrow> sys \<Rightarrow> unit kresult" where
  "check_vma_overlap prev next s = do {
     kassert (vm_start (vmas s prev) < vm_end (vmas s prev));
     kassert (vm_end (vmas s prev) \<le> vm_start (vmas s next));
     kassert (vm_start (vmas s next) < vm_end (vmas s next))
   }"

partial_function (option) insert_vma_loop :: "vm_le \<Rightarrow> vm_le \<Rightarrow> vm_le \<Rightarrow> nat \<Rightarrow> sys \<Rightarrow> vm_le option" where
  "insert_vma_loop list le le_prev vma s =
     (let le = list_next le (vlinks s)
      in if le \<noteq> list
         then if vm_start (vmas s (le2vma le)) > vm_start (vmas s vma) then Some le_prev
              else insert_vma_loop list le le vma s
         else Some le_prev)"

definition insert_vma_struct :: "nat \<Rightarrow> nat \<Rightarrow> sys \<Rightarrow> sys kresult" where
  "insert_vma_struct mp vma s = do {
     kassert (vm_start (vmas s vma) < vm_end (vmas s vma));
     let list = Mmap_list mp;
     le_prev \<leftarrow> insert_vma_loop list list list vma s;
     let le_next = list_next le_prev (vlinks s);
     (if le_prev \<noteq> list then check_vma_overlap (le2vma le_prev) vma s else Some ());
     (if le_next \<noteq> list then check_vma_overlap vma (le2vma le_next) s else Some ());
     let s = upd_vma vma (\<lambda>d. d\<lparr>vm_mm := mp\<rparr>) s;
     let s = upd_vlinks (list_add_after le_prev (Vma_link vma)) s;
     Some (upd_mm mp (\<lambda>d. d\<lparr>map_count := map_count d + 1\<rparr>) s)
   }"

subsection \<open>Tearing down and mapping\<close>

partial_function (option) mm_destroy_loop :: "vm_le \<Rightarrow> sys \<Rightarrow> sys kresult" where
  "mm_destroy_loop list s = do {
     let le = list_next list (vlinks s);
     (if le \<noteq> list
      then do {
        let s = upd_vlinks (list_del le) s;
        s \<leftarrow> sys_kfree (Some (le2vma le)) s;
        mm_destroy_loop list s
      }
      else Some s)
   }"

definition mm_destroy :: "nat \<Rightarrow> sys \<Rightarrow> sys kresult" where
  "mm_destroy mp s = do {
     kassert (mm_count (mms s mp) = 0);
     s \<leftarrow> mm_destroy_loop (Mmap_list mp) s;
     sys_kfree (Some mp) s
   }"

text \<open>The second component of the result is the value of \<open>*vma_store\<close>, if it was assigned.\<close>

definition mm_map :: "nat option \<Rightarrow> nat \<Rightarrow> nat \<Rightarrow> 32 word \<Rightarrow> sys \<Rightarrow> (int \<times> nat option \<times> sys) kresult" where
  "mm_map mp addr len vflags s =
     (let start = ROUNDDOWN addr PGSIZE; end' = ROUNDUP (u64 (addr + len)) PGSIZE
      in if \<not> USER_ACCESS start end' then Some (- E_INVAL, None, s)
         else do {
           mp \<leftarrow> mp;
           (vma, s) \<leftarrow> find_vma (Some mp) start s;
           (if case vma of None \<Rightarrow> False | Some v \<Rightarrow> end' > vm_start (vmas s v) then Some (- E_INVAL, None, s)
            else do {
              (vma, s) \<leftarrow> vma_create start end' vflags s;
              (case vma of
                 None \<Rightarrow> Some (- E_NO_MEM, None, s)
               | Some vma \<Rightarrow> do { s \<leftarrow> insert_vma_struct mp vma s; Some (0, Some vma, s) })
            })
         })"

partial_function (option) dup_mmap_loop :: "nat \<Rightarrow> vm_le \<Rightarrow> vm_le \<Rightarrow> nat \<Rightarrow> sys \<Rightarrow> (int \<times> sys) kresult" where
  "dup_mmap_loop to list le from_pgdir s = do {
     let le = list_prev le (vlinks s);
     (if le \<noteq> list
      then do {
        let v = vmas s (le2vma le);
        (nvma, s) \<leftarrow> vma_create (vm_start v) (vm_end v) (vm_flags v) s;
        (case nvma of
           None \<Rightarrow> Some (- E_NO_MEM, s)
         | Some nvma \<Rightarrow> do {
             s \<leftarrow> insert_vma_struct to nvma s;
             (r, s) \<leftarrow> on_vm (copy_range (mm_pgdir (mms s to)) from_pgdir (vm_start v) (vm_end v)) s;
             (if r \<noteq> 0 then Some (- E_NO_MEM, s) else dup_mmap_loop to list le from_pgdir s)
           })
      }
      else Some (0, s))
   }"

definition dup_mmap :: "nat option \<Rightarrow> nat option \<Rightarrow> sys \<Rightarrow> (int \<times> sys) kresult" where
  "dup_mmap to from s = do {
     to \<leftarrow> to;
     from \<leftarrow> from;
     dup_mmap_loop to (Mmap_list from) (Mmap_list from) (mm_pgdir (mms s from)) s
   }"

text \<open>Both loops of \<open>exit_mmap\<close>; \<open>f\<close> is \<open>unmap_range\<close>, then \<open>exit_range\<close>.\<close>

partial_function (option) exit_mmap_loop ::
    "(nat \<Rightarrow> nat \<Rightarrow> nat \<Rightarrow> vmst \<Rightarrow> vmst kresult) \<Rightarrow> nat \<Rightarrow> vm_le \<Rightarrow> vm_le \<Rightarrow> sys \<Rightarrow> sys kresult" where
  "exit_mmap_loop f pgd list le s = do {
     let le = list_next le (vlinks s);
     (if le \<noteq> list
      then do {
        s \<leftarrow> on_vm' (f pgd (vm_start (vmas s (le2vma le))) (vm_end (vmas s (le2vma le)))) s;
        exit_mmap_loop f pgd list le s
      }
      else Some s)
   }"

definition exit_mmap :: "nat option \<Rightarrow> sys \<Rightarrow> sys kresult" where
  "exit_mmap mp s = do {
     mp \<leftarrow> mp;
     kassert (mm_count (mms s mp) = 0);
     let pgd = mm_pgdir (mms s mp);
     s \<leftarrow> exit_mmap_loop unmap_range pgd (Mmap_list mp) (Mmap_list mp) s;
     exit_mmap_loop exit_range pgd (Mmap_list mp) (Mmap_list mp) s
   }"

subsection \<open>Access to user memory\<close>

partial_function (option) user_mem_loop :: "nat \<Rightarrow> nat \<Rightarrow> nat \<Rightarrow> bool \<Rightarrow> sys \<Rightarrow> (bool \<times> sys) kresult" where
  "user_mem_loop mp start end' write s =
     (if start < end'
      then do {
        (vma, s) \<leftarrow> find_vma (Some mp) start s;
        (case vma of
           None \<Rightarrow> Some (False, s)
         | Some v \<Rightarrow>
             if start < vm_start (vmas s v) then Some (False, s)
             else if vm_flags (vmas s v) AND (if write then VM_WRITE else VM_READ) = 0 then Some (False, s)
             else if write \<and> vm_flags (vmas s v) AND VM_STACK \<noteq> 0 \<and> start < u64 (vm_start (vmas s v) + PGSIZE)
             then Some (False, s)
             else user_mem_loop mp (vm_end (vmas s v)) end' write s)
      }
      else Some (True, s))"

definition user_mem_check :: "nat option \<Rightarrow> nat \<Rightarrow> nat \<Rightarrow> bool \<Rightarrow> sys \<Rightarrow> (bool \<times> sys) kresult" where
  "user_mem_check mp addr len write s = (case mp of
     Some mp \<Rightarrow>
       if \<not> USER_ACCESS addr (u64 (addr + len)) then Some (False, s)
       else user_mem_loop mp addr (u64 (addr + len)) write s
   | None \<Rightarrow> Some (KERN_ACCESS addr (u64 (addr + len)), s))"

definition upd_bytes :: "(bytes \<Rightarrow> nat \<times> bytes) \<Rightarrow> sys \<Rightarrow> sys" where
  "upd_bytes f s = s\<lparr>ubytes := snd (f (ubytes s))\<rparr>"

definition copy_from_user :: "nat option \<Rightarrow> nat \<Rightarrow> nat \<Rightarrow> nat \<Rightarrow> bool \<Rightarrow> sys \<Rightarrow> (bool \<times> sys) kresult" where
  "copy_from_user mp dst src len writable s = do {
     (ok, s) \<leftarrow> user_mem_check mp src len writable s;
     Some (if \<not> ok then (False, s) else (True, upd_bytes (memcpy dst src len) s))
   }"

definition copy_to_user :: "nat option \<Rightarrow> nat \<Rightarrow> nat \<Rightarrow> nat \<Rightarrow> sys \<Rightarrow> (bool \<times> sys) kresult" where
  "copy_to_user mp dst src len s = do {
     (ok, s) \<leftarrow> user_mem_check mp dst len True s;
     Some (if \<not> ok then (False, s) else (True, upd_bytes (memcpy dst src len) s))
   }"

partial_function (option) copy_string_loop ::
    "nat option \<Rightarrow> nat \<Rightarrow> nat \<Rightarrow> nat \<Rightarrow> nat \<Rightarrow> sys \<Rightarrow> (bool \<times> sys) kresult" where
  "copy_string_loop mp dst src maxn part s = do {
     let part = (if part > maxn then maxn else part);
     (ok, s) \<leftarrow> user_mem_check mp src part False s;
     (if \<not> ok then Some (False, s)
      else let alen = strnlen src part (ubytes s)
           in if alen < part then Some (True, upd_bytes (memcpy dst src (alen + 1)) s)
              else if part = maxn then Some (False, s)
              else copy_string_loop mp (dst + part) (src + part) (maxn - part) PGSIZE (upd_bytes (memcpy dst src part) s))
   }"

definition copy_string :: "nat option \<Rightarrow> nat \<Rightarrow> nat \<Rightarrow> nat \<Rightarrow> sys \<Rightarrow> (bool \<times> sys) kresult" where
  "copy_string mp dst src maxn s =
     copy_string_loop mp dst src maxn (sub64 (ROUNDDOWN (u64 (src + PGSIZE)) PGSIZE) src) s"

definition do_pgfault :: "nat option \<Rightarrow> 32 word \<Rightarrow> nat \<Rightarrow> sys \<Rightarrow> int" where
  "do_pgfault mp error_code addr s = - E_INVAL"

end
