(* ===== verification/Vmm_Proofs.thy ===== *)
theory Vmm_Proofs
  imports Vmm
begin

unbundle bit_operations_syntax

section \<open>The areas of an address space\<close>

text \<open>
  \<open>vma_list s mp vs\<close>: the list of the \<open>mm_struct\<close> at \<open>mp\<close> holds the areas \<open>vs\<close>, which are non-empty, sorted and
  disjoint, the cache is one of them and \<open>map_count\<close> is their number. Lookup, insertion, mapping and the
  check of user memory are characterised over it.
\<close>

definition vma_list :: "sys \<Rightarrow> nat \<Rightarrow> nat list \<Rightarrow> bool" where
  "vma_list s mp vs \<longleftrightarrow> dlist (vlinks s) (Mmap_list mp) (map Vma_link vs) \<and>
     (\<forall>v\<in>set vs. vm_start (vmas s v) < vm_end (vmas s v)) \<and>
     sorted_wrt (\<lambda>v w. vm_end (vmas s v) \<le> vm_start (vmas s w)) vs \<and>
     (\<forall>v. mmap_cache (mms s mp) = Some v \<longrightarrow> v \<in> set vs) \<and> map_count (mms s mp) = int (length vs)"

named_theorems sys_simps \<open>reading back the whole state\<close>

lemma sys_fields [sys_simps]:
  "mms (upd_mm a f s) = (mms s)(a := f (mms s a))" "vmas (upd_mm a f s) = vmas s" "vlinks (upd_mm a f s) = vlinks s"
  "hp (upd_mm a f s) = hp s" "ks (upd_mm a f s) = ks s" "ubytes (upd_mm a f s) = ubytes s"
  "mms (upd_vma a g s) = mms s" "vmas (upd_vma a g s) = (vmas s)(a := g (vmas s a))" "vlinks (upd_vma a g s) = vlinks s"
  "hp (upd_vma a g s) = hp s" "ks (upd_vma a g s) = ks s" "ubytes (upd_vma a g s) = ubytes s"
  "mms (upd_vlinks h s) = mms s" "vmas (upd_vlinks h s) = vmas s" "vlinks (upd_vlinks h s) = h (vlinks s)"
  "hp (upd_vlinks h s) = hp s" "ks (upd_vlinks h s) = ks s" "ubytes (upd_vlinks h s) = ubytes s"
  by (simp_all add: upd_mm_def upd_vma_def upd_vlinks_def)

lemma vma_list_distinct: "vma_list s mp vs \<Longrightarrow> distinct vs"
  by (auto simp: vma_list_def dlist_def distinct_map)

text \<open>Areas of the list are disjoint: an address is in at most one.\<close>

lemma vma_apart:
  assumes "vma_list s mp vs" "v \<in> set vs" "w \<in> set vs" "v \<noteq> w"
  shows "vm_end (vmas s v) \<le> vm_start (vmas s w) \<or> vm_end (vmas s w) \<le> vm_start (vmas s v)"
proof -
  have so: "sorted_wrt (\<lambda>v w. vm_end (vmas s v) \<le> vm_start (vmas s w)) vs" using assms(1) by (simp add: vma_list_def)
  obtain i j where ij: "i < length vs" "vs ! i = v" "j < length vs" "vs ! j = w" using assms(2,3) by (auto simp: in_set_conv_nth)
  then have "i < j \<or> j < i" using \<open>v \<noteq> w\<close> by (metis linorder_neqE_nat)
  then show ?thesis using sorted_wrt_nth_less [OF so] ij by blast
qed

lemma vma_unique:
  "vma_list s mp vs \<Longrightarrow> v \<in> set vs \<Longrightarrow> w \<in> set vs \<Longrightarrow> in_vma a v s \<Longrightarrow> in_vma a w s \<Longrightarrow> v = w"
  using vma_apart [of s mp vs v w] by (fastforce simp: in_vma_def)

subsection \<open>Lookup\<close>

lemma find_vma_loop_ok:
  assumes "dlist (vlinks s) (Mmap_list mp) (map Vma_link (as @ bs))"
  shows "find_vma_loop (Mmap_list mp) (last (Mmap_list mp # map Vma_link as)) addr s = Some (find (\<lambda>v. in_vma addr v s) bs)"
  using assms
proof (induction bs arbitrary: as)
  case Nil
  then show ?case
    using ll.succ_holds [of "vlinks s" "Mmap_list mp" "map Vma_link as" "[]"] by (subst find_vma_loop.simps) simp
next
  case (Cons b bs)
  have nx: "list_next (last (Mmap_list mp # map Vma_link as)) (vlinks s) = Vma_link b"
    using ll.succ_holds [of "vlinks s" "Mmap_list mp" "map Vma_link as" "map Vma_link (b # bs)"] Cons.prems by simp
  show ?case
  proof (cases "in_vma addr b s")
    case True
    then show ?thesis using nx by (subst find_vma_loop.simps) simp
  next
    case False
    moreover have "last (Mmap_list mp # map Vma_link (as @ [b])) = Vma_link b" by simp
    ultimately show ?thesis using nx Cons.IH [of "as @ [b]"] Cons.prems by (subst find_vma_loop.simps) simp
  qed
qed

lemma find_vma_ok:
  assumes l: "vma_list s mp vs"
  shows "\<exists>t. find_vma (Some mp) addr s = Some (find (\<lambda>v. in_vma addr v s) vs, t) \<and> vma_list t mp vs \<and>
    t = (case find (\<lambda>v. in_vma addr v s) vs of None \<Rightarrow> s | Some v \<Rightarrow> upd_mm mp (\<lambda>d. d\<lparr>mmap_cache := Some v\<rparr>) s)"
proof -
  let ?r = "find (\<lambda>v. in_vma addr v s) vs"
  define t where "t = (case ?r of None \<Rightarrow> s | Some v \<Rightarrow> upd_mm mp (\<lambda>d. d\<lparr>mmap_cache := Some v\<rparr>) s)"
  have loop: "find_vma_loop (Mmap_list mp) (Mmap_list mp) addr s = Some ?r"
    using find_vma_loop_ok [of s mp "[]" vs addr] l by (simp add: vma_list_def)
  have hit: "?r = Some v" if c: "mmap_cache (mms s mp) = Some v" "in_vma addr v s" for v
  proof -
    have v: "v \<in> set vs" using l c(1) by (simp add: vma_list_def)
    then obtain w where w: "?r = Some w" using c(2) by (cases ?r) (auto simp: find_None_iff)
    then have "w \<in> set vs" "in_vma addr w s" by (auto simp: find_Some_iff)
    then show ?thesis using vma_unique [OF l v _ c(2)] w by simp
  qed
  have "(case mmap_cache (mms s mp) of
      Some v \<Rightarrow> if in_vma addr v s then Some (Some v) else find_vma_loop (Mmap_list mp) (Mmap_list mp) addr s
    | None \<Rightarrow> find_vma_loop (Mmap_list mp) (Mmap_list mp) addr s) = Some ?r"
    using loop hit by (auto split: option.splits)
  then have "find_vma (Some mp) addr s = Some (?r, t)"
    by (cases ?r) (simp_all add: find_vma_def t_def)
  moreover have "vma_list t mp vs"
  proof (cases ?r)
    case (Some v)
    then have "v \<in> set vs" by (auto simp: find_Some_iff)
    then show ?thesis using l Some by (auto simp: t_def vma_list_def sys_simps)
  qed (use l in \<open>simp add: t_def\<close>)
  ultimately show ?thesis by (auto simp: t_def)
qed

subsection \<open>Insertion\<close>

definition apart :: "vma_struct \<Rightarrow> vma_struct \<Rightarrow> bool" where
  "apart v w \<longleftrightarrow> vm_end v \<le> vm_start w \<or> vm_end w \<le> vm_start v"

lemma insert_vma_loop_ok:
  assumes "dlist (vlinks s) (Mmap_list mp) (map Vma_link (as @ bs))"
  shows "insert_vma_loop (Mmap_list mp) (last (Mmap_list mp # map Vma_link as)) (last (Mmap_list mp # map Vma_link as)) v s =
    Some (last (Mmap_list mp # map Vma_link (as @ takeWhile (\<lambda>w. vm_start (vmas s w) \<le> vm_start (vmas s v)) bs)))"
  using assms
proof (induction bs arbitrary: as)
  case Nil
  then show ?case
    using ll.succ_holds [of "vlinks s" "Mmap_list mp" "map Vma_link as" "[]"] by (subst insert_vma_loop.simps) simp
next
  case (Cons b bs)
  have nx: "list_next (last (Mmap_list mp # map Vma_link as)) (vlinks s) = Vma_link b"
    using ll.succ_holds [of "vlinks s" "Mmap_list mp" "map Vma_link as" "map Vma_link (b # bs)"] Cons.prems by simp
  show ?case
  proof (cases "vm_start (vmas s b) \<le> vm_start (vmas s v)")
    case True
    moreover have "last (Mmap_list mp # map Vma_link (as @ [b])) = Vma_link b" by simp
    ultimately show ?thesis using nx Cons.IH [of "as @ [b]"] Cons.prems by (subst insert_vma_loop.simps) simp
  next
    case False
    then show ?thesis using nx by (subst insert_vma_loop.simps) simp
  qed
qed

text \<open>
  The neighbours decide: the new area is apart from all areas when it is apart from the last one that starts
  at or before it and from the first one that starts after it.
\<close>

lemma neighbours_decide:
  assumes so: "sorted_wrt (\<lambda>v w. vm_end (f v) \<le> vm_start (f w)) (as @ bs)" and ne: "\<forall>v\<in>set (as @ bs). vm_start (f v) < vm_end (f v)"
    and x: "vm_start x < vm_end x"
    and sp: "\<forall>a\<in>set as. vm_start (f a) \<le> vm_start x" "\<forall>b\<in>set bs. vm_start x < vm_start (f b)"
  shows "(\<forall>v\<in>set (as @ bs). apart (f v) x) \<longleftrightarrow>
    (as \<noteq> [] \<longrightarrow> vm_end (f (last as)) \<le> vm_start x) \<and> (bs \<noteq> [] \<longrightarrow> vm_end x \<le> vm_start (f (hd bs)))"
proof (rule iffI, goal_cases)
  case 1
  have "vm_end (f (last as)) \<le> vm_start x" if "as \<noteq> []"
  proof -
    have m: "last as \<in> set as" by (rule last_in_set [OF that])
    then have "apart (f (last as)) x" "vm_start (f (last as)) \<le> vm_start x" using 1 sp(1) by auto
    then show ?thesis using x by (auto simp: apart_def)
  qed
  moreover have "vm_end x \<le> vm_start (f (hd bs))" if "bs \<noteq> []"
  proof -
    have m: "hd bs \<in> set bs" by (rule hd_in_set [OF that])
    then have "apart (f (hd bs)) x" "vm_start x < vm_start (f (hd bs))" "vm_start (f (hd bs)) < vm_end (f (hd bs))"
      using 1 sp(2) ne by auto
    then show ?thesis by (auto simp: apart_def)
  qed
  ultimately show ?case by blast
next
  case 2
  have "apart (f v) x" if v: "v \<in> set as" for v
  proof (cases "v = last as")
    case True
    then show ?thesis using 2 v by (auto simp: apart_def)
  next
    case False
    then obtain cs where "as = cs @ [last as]" "v \<in> set cs" using v by (cases as rule: rev_cases) auto
    then have "vm_end (f v) \<le> vm_start (f (last as))" using so by (metis sorted_wrt_append list.set_intros(1) append_assoc)
    moreover have "last as \<in> set as" using v by (metis empty_iff empty_set last_in_set)
    ultimately show ?thesis using sp(1) by (auto simp: apart_def intro: order_trans)
  qed
  moreover have "apart (f v) x" if v: "v \<in> set bs" for v
  proof (cases "v = hd bs")
    case False
    then obtain cs where "bs = hd bs # cs" "v \<in> set cs" using v by (cases bs) auto
    then have "vm_end (f (hd bs)) \<le> vm_start (f v)" using so by (metis sorted_wrt_append sorted_wrt.simps(2))
    moreover have "hd bs \<in> set bs" using v by (metis empty_iff empty_set hd_in_set)
    then have "vm_start (f (hd bs)) < vm_end (f (hd bs))" using ne by simp
    moreover have "vm_end x \<le> vm_start (f (hd bs))" using 2 v by auto
    ultimately show ?thesis by (auto simp: apart_def)
  qed (use 2 v in \<open>auto simp: apart_def\<close>)
  ultimately show ?case by auto
qed


text \<open>
  \<open>insert_vma_struct\<close> either links the area at its place or, when it is empty or overlaps an area of the list,
  stops at an assertion.
\<close>

definition fresh_vma :: "sys \<Rightarrow> nat list \<Rightarrow> nat \<Rightarrow> bool" where
  "fresh_vma s vs v \<longleftrightarrow> v \<notin> set vs"

lemma sorted_starts:
  assumes "vma_list s mp vs"
  shows "sorted_wrt (\<lambda>v w. vm_start (vmas s v) < vm_start (vmas s w)) vs"
proof -
  have "sorted_wrt (\<lambda>v w. vm_end (vmas s v) \<le> vm_start (vmas s w)) vs" "\<forall>v\<in>set vs. vm_start (vmas s v) < vm_end (vmas s v)"
    using assms by (simp_all add: vma_list_def)
  then show ?thesis by (induction vs) (auto intro: less_le_trans)
qed

lemma takeWhile_starts:
  fixes a :: nat
  assumes "vma_list s mp vs"
  defines "as \<equiv> takeWhile (\<lambda>w. vm_start (vmas s w) \<le> a) vs" and "bs \<equiv> dropWhile (\<lambda>w. vm_start (vmas s w) \<le> a) vs"
  shows "vs = as @ bs" "\<forall>w\<in>set as. vm_start (vmas s w) \<le> a" "\<forall>w\<in>set bs. a < vm_start (vmas s w)"
proof -
  show e: "vs = as @ bs" by (simp add: as_def bs_def)
  show "\<forall>w\<in>set as. vm_start (vmas s w) \<le> a" by (auto simp: as_def dest: set_takeWhileD)
  have so: "sorted_wrt (\<lambda>v w. vm_start (vmas s v) < vm_start (vmas s w)) (as @ bs)" using sorted_starts [OF assms(1)] e by simp
  show "\<forall>w\<in>set bs. a < vm_start (vmas s w)"
  proof (cases bs)
    case (Cons b cs)
    then have "\<not> vm_start (vmas s b) \<le> a" using hd_dropWhile [of "\<lambda>w. vm_start (vmas s w) \<le> a" vs] by (simp add: bs_def)
    then show ?thesis using so Cons by (auto simp: sorted_wrt_append intro: less_trans)
  qed simp
qed

lemma insert_vma_struct_ok:
  assumes l: "vma_list s mp vs" and v: "v \<notin> set vs"
  shows "case insert_vma_struct mp v s of
      None \<Rightarrow> \<not> (vm_start (vmas s v) < vm_end (vmas s v)) \<or> (\<exists>w\<in>set vs. \<not> apart (vmas s w) (vmas s v))
    | Some t \<Rightarrow> vm_start (vmas s v) < vm_end (vmas s v) \<and> (\<forall>w\<in>set vs. apart (vmas s w) (vmas s v)) \<and>
        (\<exists>as bs. vs = as @ bs \<and> vma_list t mp (as @ v # bs)) \<and>
        (\<forall>w. vm_start (vmas t w) = vm_start (vmas s w) \<and> vm_end (vmas t w) = vm_end (vmas s w) \<and> vm_flags (vmas t w) = vm_flags (vmas s w)) \<and>
        hp t = hp s \<and> ks t = ks s \<and> ubytes t = ubytes s \<and> mm_pgdir (mms t mp) = mm_pgdir (mms s mp)"
proof (cases "vm_start (vmas s v) < vm_end (vmas s v)")
  case False
  then show ?thesis by (simp add: insert_vma_struct_def)
next
  case vne: True
  let ?a = "vm_start (vmas s v)"
  define as where "as = takeWhile (\<lambda>w. vm_start (vmas s w) \<le> ?a) vs"
  define bs where "bs = dropWhile (\<lambda>w. vm_start (vmas s w) \<le> ?a) vs"
  note tw = takeWhile_starts [OF l, of ?a, folded as_def bs_def]
  have dl: "dlist (vlinks s) (Mmap_list mp) (map Vma_link as @ map Vma_link bs)" using l tw(1) by (simp add: vma_list_def)
  define prev where "prev = last (Mmap_list mp # map Vma_link as)"
  have loop: "insert_vma_loop (Mmap_list mp) (Mmap_list mp) (Mmap_list mp) v s = Some prev"
    using insert_vma_loop_ok [of s mp "[]" vs v] l by (simp add: vma_list_def prev_def as_def)
  have nxt: "list_next prev (vlinks s) = hd (map Vma_link bs @ [Mmap_list mp])"
    using ll.succ_holds [OF dl] by (simp add: prev_def)
  have pe: "prev = Mmap_list mp \<longleftrightarrow> as = []" "as \<noteq> [] \<Longrightarrow> prev = Vma_link (last as)"
    by (auto simp: prev_def last_map)
  have ne: "hd (map Vma_link bs @ [Mmap_list mp]) = Mmap_list mp \<longleftrightarrow> bs = []" "bs \<noteq> [] \<Longrightarrow> hd (map Vma_link bs @ [Mmap_list mp]) = Vma_link (hd bs)"
    by (cases bs; simp)+
  have nev: "\<forall>w\<in>set (as @ bs). vm_start (vmas s w) < vm_end (vmas s w)" using l tw(1) by (simp add: vma_list_def)
  have so: "sorted_wrt (\<lambda>v w. vm_end (vmas s v) \<le> vm_start (vmas s w)) (as @ bs)" using l tw(1) by (simp add: vma_list_def)
  have dec: "(\<forall>w\<in>set vs. apart (vmas s w) (vmas s v)) \<longleftrightarrow>
      (as \<noteq> [] \<longrightarrow> vm_end (vmas s (last as)) \<le> ?a) \<and> (bs \<noteq> [] \<longrightarrow> vm_end (vmas s v) \<le> vm_start (vmas s (hd bs)))"
    using neighbours_decide [OF so nev vne tw(2,3)] tw(1) by simp
  define t where "t = upd_mm mp (\<lambda>d. d\<lparr>map_count := map_count d + 1\<rparr>)
    (upd_vlinks (list_add_after prev (Vma_link v)) (upd_vma v (\<lambda>d. d\<lparr>vm_mm := mp\<rparr>) s))"
  have as_ne: "as \<noteq> [] \<Longrightarrow> vm_start (vmas s (last as)) < vm_end (vmas s (last as))" "bs \<noteq> [] \<Longrightarrow> vm_start (vmas s (hd bs)) < vm_end (vmas s (hd bs))"
    using nev by auto
  have ins: "insert_vma_struct mp v s = (if \<forall>w\<in>set vs. apart (vmas s w) (vmas s v) then Some t else None)"
    unfolding dec insert_vma_struct_def Let_def loop Option.bind.bind_lunit nxt
    using vne as_ne pe ne
    by (cases "as = []"; cases "bs = []") (simp_all add: check_vma_overlap_def t_def kassert_def)
  have f: "vm_start (vmas t w) = vm_start (vmas s w)" "vm_end (vmas t w) = vm_end (vmas s w)" "vm_flags (vmas t w) = vm_flags (vmas s w)" for w
    by (auto simp: t_def sys_simps)
  have "vma_list t mp (as @ v # bs)" if ap: "\<forall>w\<in>set vs. apart (vmas s w) (vmas s v)"
  proof -
    have "Vma_link v \<notin> set (Mmap_list mp # map Vma_link as @ map Vma_link bs)" using v tw(1) by auto
    from ll.add_after_holds [OF dl this] have "dlist (vlinks t) (Mmap_list mp) (map Vma_link as @ Vma_link v # map Vma_link bs)"
      by (simp add: t_def sys_simps prev_def)
    moreover have "vm_end (vmas s w) \<le> ?a" if "w \<in> set as" for w
    proof -
      have "apart (vmas s w) (vmas s v)" "vm_start (vmas s w) \<le> ?a" using ap tw(1,2) that by auto
      then show ?thesis using vne by (auto simp: apart_def)
    qed
    moreover have "vm_end (vmas s v) \<le> vm_start (vmas s w)" if "w \<in> set bs" for w
    proof -
      have "apart (vmas s w) (vmas s v)" "?a < vm_start (vmas s w)" "vm_start (vmas s w) < vm_end (vmas s w)"
        using ap tw(1,3) nev that by auto
      then show ?thesis by (auto simp: apart_def)
    qed
    moreover have "mmap_cache (mms t mp) = mmap_cache (mms s mp)" "map_count (mms t mp) = map_count (mms s mp) + 1"
      by (simp_all add: t_def sys_simps)
    ultimately show ?thesis using l so vne nev tw(1) by (auto simp: vma_list_def f sorted_wrt_append)
  qed
  moreover have "hp t = hp s" "ks t = ks s" "ubytes t = ubytes s" "mm_pgdir (mms t mp) = mm_pgdir (mms s mp)"
    by (simp_all add: t_def sys_simps)
  ultimately show ?thesis using vne f tw(1) unfolding ins by auto
qed


subsection \<open>Mapping a range\<close>

lemma vma_create_ok:
  assumes "kheap (hp s) held"
  shows "\<exists>r t. vma_create start end' vf s = Some (r, t) \<and> ks t = ks s \<and> mms t = mms s \<and> vlinks t = vlinks s \<and> ubytes t = ubytes s \<and>
    (case r of
       None \<Rightarrow> kheap (hp t) held \<and> vmas t = vmas s
     | Some v \<Rightarrow> kheap (hp t) ((v, SIZEOF_VMA) # held) \<and> (\<forall>w. w \<noteq> v \<longrightarrow> vmas t w = vmas s w) \<and>
         vm_start (vmas t v) = start \<and> vm_end (vmas t v) = end' \<and> vm_flags (vmas t v) = vf)"
proof -
  have "kmalloc_small SIZEOF_VMA" by (simp add: kmalloc_small_def SIZEOF_VMA_def PGSIZE_def SLOB_UNIT_def)
  from kheap.malloc_ok [OF assms this] obtain r h where "kmalloc SIZEOF_VMA (hp s) = Some (r, h)"
    "case r of None \<Rightarrow> kheap h held | Some a \<Rightarrow> 0 < a \<and> kheap h ((a, SIZEOF_VMA) # held)" by blast
  then show ?thesis
    by (cases r) (auto simp: vma_create_def sys_kmalloc_def sys_simps)
qed

lemma vma_list_cong:
  assumes "vma_list s mp vs" "vlinks t = vlinks s" "\<And>v. v \<in> set vs \<Longrightarrow> vmas t v = vmas s v" "mms t mp = mms s mp"
  shows "vma_list t mp vs"
proof -
  have "sorted_wrt (\<lambda>v w. vm_end (vmas s v) \<le> vm_start (vmas s w)) vs" using assms(1) by (simp add: vma_list_def)
  then have "sorted_wrt (\<lambda>v w. vm_end (vmas t v) \<le> vm_start (vmas t w)) vs"
    by (rule sorted_wrt_mono_rel [rotated]) (simp add: assms(3))
  then show ?thesis using assms by (simp add: vma_list_def)
qed

text \<open>The areas of an address space are blocks of the heap.\<close>

definition vmas_held :: "nat list \<Rightarrow> (nat \<times> nat) list \<Rightarrow> bool" where
  "vmas_held vs held \<longleftrightarrow> (\<forall>v\<in>set vs. (v, SIZEOF_VMA) \<in> set held)"

lemma fresh_not_held:
  assumes "kheap h ((v, SIZEOF_VMA) # held)" "vmas_held vs held"
  shows "v \<notin> set vs"
proof
  assume "v \<in> set vs"
  then have "(v, SIZEOF_VMA) \<in> set held" using assms(2) by (simp add: vmas_held_def)
  then have "v \<in> held_set held"
    by (auto simp: held_set_def block_def SIZEOF_VMA_def intro!: bexI [of _ "(v, 48)"])
  moreover have "held_disjoint ((v, SIZEOF_VMA) # held)" by (rule kheap.ok_disjoint [OF assms(1)])
  ultimately show False by (auto simp: block_def SIZEOF_VMA_def disjoint_iff)
qed

definition map_start :: "nat \<Rightarrow> nat" where "map_start addr = ROUNDDOWN addr PGSIZE"
definition map_end :: "nat \<Rightarrow> nat \<Rightarrow> nat" where "map_end addr len = ROUNDUP (u64 (addr + len)) PGSIZE"

text \<open>The range meets the area \<open>w\<close>.\<close>

definition meets :: "sys \<Rightarrow> nat \<Rightarrow> nat \<Rightarrow> nat \<Rightarrow> bool" where
  "meets s a b w \<longleftrightarrow> vm_start (vmas s w) < b \<and> a < vm_end (vmas s w)"

definition mapped_area :: "sys \<Rightarrow> nat \<Rightarrow> nat list \<Rightarrow> (nat \<times> nat) list \<Rightarrow> nat \<Rightarrow> nat \<Rightarrow> 32 word \<Rightarrow> nat \<Rightarrow> sys \<Rightarrow> bool" where
  "mapped_area s mp vs held a b vf v t \<longleftrightarrow> (\<exists>as bs. vs = as @ bs \<and> vma_list t mp (as @ v # bs)) \<and>
     vm_start (vmas t v) = a \<and> vm_end (vmas t v) = b \<and> vm_flags (vmas t v) = vf \<and> kheap (hp t) ((v, SIZEOF_VMA) # held) \<and>
     (\<forall>w\<in>set vs. vm_start (vmas t w) = vm_start (vmas s w) \<and> vm_end (vmas t w) = vm_end (vmas s w) \<and> vm_flags (vmas t w) = vm_flags (vmas s w))"

lemma mm_map_free:
  assumes l: "vma_list s mp vs" and h: "kheap (hp s) held" "vmas_held vs held"
    and u: "USER_ACCESS (map_start addr) (map_end addr len)" and f: "\<forall>w\<in>set vs. \<not> in_vma (map_start addr) w s"
  shows "mm_map (Some mp) addr len vf s = None \<and> (\<exists>w\<in>set vs. meets s (map_start addr) (map_end addr len) w) \<or>
    (\<exists>r t. mm_map (Some mp) addr len vf s = Some (r, t) \<and>
      (r = - E_NO_MEM \<and> fst t = None \<and> vma_list (snd t) mp vs \<or>
       (\<exists>v. r = 0 \<and> fst t = Some v \<and> (\<forall>w\<in>set vs. \<not> meets s (map_start addr) (map_end addr len) w) \<and>
          mapped_area s mp vs held (map_start addr) (map_end addr len) vf v (snd t))))"
proof -
  let ?a = "map_start addr" and ?b = "map_end addr len"
  have ab: "?a < ?b" using u by (simp add: USER_ACCESS_def)
  have fn: "find (\<lambda>v. in_vma ?a v s) vs = None" using f by (auto simp: find_None_iff)
  then have fv: "find_vma (Some mp) ?a s = Some (None, s)" using find_vma_ok [OF l, of ?a] by auto
  obtain r t where r: "vma_create ?a ?b vf s = Some (r, t)" "mms t = mms s" "vlinks t = vlinks s"
    "case r of None \<Rightarrow> kheap (hp t) held \<and> vmas t = vmas s
     | Some v \<Rightarrow> kheap (hp t) ((v, SIZEOF_VMA) # held) \<and> (\<forall>w. w \<noteq> v \<longrightarrow> vmas t w = vmas s w) \<and>
         vm_start (vmas t v) = ?a \<and> vm_end (vmas t v) = ?b \<and> vm_flags (vmas t v) = vf"
    using vma_create_ok [OF h(1), of ?a ?b vf] by blast
  show ?thesis
  proof (cases r)
    case None
    then have "mm_map (Some mp) addr len vf s = Some (- E_NO_MEM, None, t)"
      using r(1) fv u by (simp add: mm_map_def Let_def map_start_def map_end_def)
    moreover have "vma_list t mp vs" by (rule vma_list_cong [OF l r(3)]) (use r None in auto)
    ultimately show ?thesis by auto
  next
    case (Some v)
    then have v: "kheap (hp t) ((v, SIZEOF_VMA) # held)" "\<forall>w. w \<noteq> v \<longrightarrow> vmas t w = vmas s w"
      "vm_start (vmas t v) = ?a" "vm_end (vmas t v) = ?b" "vm_flags (vmas t v) = vf" using r(4) by auto
    have nv: "v \<notin> set vs" by (rule fresh_not_held [OF v(1) h(2)])
    have o: "vmas t w = vmas s w" if "w \<in> set vs" for w using v(2) nv that by auto
    have lt: "vma_list t mp vs" by (rule vma_list_cong [OF l r(3)]) (use r o in auto)
    have e: "mm_map (Some mp) addr len vf s = do { s \<leftarrow> insert_vma_struct mp v t; Some (0, Some v, s) }"
      using r(1) fv u Some by (simp add: mm_map_def Let_def map_start_def map_end_def)
    have ap: "apart (vmas t w) (vmas t v) \<longleftrightarrow> \<not> meets s ?a ?b w" if "w \<in> set vs" for w
      using o [OF that] v(3,4) by (auto simp: apart_def meets_def)
    show ?thesis
    proof (cases "insert_vma_struct mp v t")
      case None
      then show ?thesis using insert_vma_struct_ok [OF lt nv] ap v(3,4) ab e by auto
    next
      case (Some x)
      then show ?thesis
        using insert_vma_struct_ok [OF lt nv] ap v o e by (auto simp: mapped_area_def)
    qed
  qed
qed


subsection \<open>Checking user memory\<close>

text \<open>The area \<open>v\<close>, entered at \<open>a\<close>, allows the access.\<close>

definition allows :: "sys \<Rightarrow> bool \<Rightarrow> nat \<Rightarrow> nat \<Rightarrow> bool" where
  "allows s write a v \<longleftrightarrow> vm_flags (vmas s v) AND (if write then VM_WRITE else VM_READ) \<noteq> 0 \<and>
     \<not> (write \<and> vm_flags (vmas s v) AND VM_STACK \<noteq> 0 \<and> a < u64 (vm_start (vmas s v) + PGSIZE))"

text \<open>Every byte of \<open>[start, end')\<close> is in an area that allows the access, entered where the range enters it.\<close>

definition covered :: "sys \<Rightarrow> nat list \<Rightarrow> bool \<Rightarrow> nat \<Rightarrow> nat \<Rightarrow> bool" where
  "covered s vs write start end' \<longleftrightarrow> (\<forall>a. start \<le> a \<longrightarrow> a < end' \<longrightarrow>
     (\<exists>v\<in>set vs. in_vma a v s \<and> allows s write (max start (vm_start (vmas s v))) v))"

lemma covered_step:
  assumes l: "vma_list s mp vs" and v: "v \<in> set vs" "in_vma start v s" and e: "start < end'"
  shows "covered s vs write start end' \<longleftrightarrow> allows s write start v \<and> covered s vs write (vm_end (vmas s v)) end'"
proof -
  have sv: "vm_start (vmas s v) \<le> start" "start < vm_end (vmas s v)" using v(2) by (auto simp: in_vma_def)
  have later: "max start (vm_start (vmas s w)) = max (vm_end (vmas s v)) (vm_start (vmas s w))"
    if "w \<in> set vs" "in_vma a w s" "vm_end (vmas s v) \<le> a" for a w
  proof -
    have "w \<noteq> v" using that by (auto simp: in_vma_def)
    then have "vm_end (vmas s v) \<le> vm_start (vmas s w)" using vma_apart [OF l v(1) that(1)] that(2,3) sv by (auto simp: in_vma_def)
    then show ?thesis using sv by simp
  qed
  show ?thesis
  proof (intro iffI conjI)
    assume c: "covered s vs write start end'"
    then obtain w where "w \<in> set vs" "in_vma start w s" "allows s write (max start (vm_start (vmas s w))) w"
      using e by (auto simp: covered_def)
    then show "allows s write start v" using vma_unique [OF l v(1) _ v(2)] sv by (metis max.absorb1)
    show "covered s vs write (vm_end (vmas s v)) end'"
      unfolding covered_def
    proof (intro allI impI)
      fix a assume a: "vm_end (vmas s v) \<le> a" "a < end'"
      then have "start \<le> a" using sv by simp
      then obtain w where w: "w \<in> set vs" "in_vma a w s" "allows s write (max start (vm_start (vmas s w))) w"
        using c a(2) by (auto simp: covered_def)
      then show "\<exists>w\<in>set vs. in_vma a w s \<and> allows s write (max (vm_end (vmas s v)) (vm_start (vmas s w))) w"
        using later [OF w(1,2) a(1)] by auto
    qed
  next
    assume c: "allows s write start v \<and> covered s vs write (vm_end (vmas s v)) end'"
    have "\<exists>w\<in>set vs. in_vma a w s \<and> allows s write (max start (vm_start (vmas s w))) w" if a: "start \<le> a" "a < end'" for a
    proof (cases "a < vm_end (vmas s v)")
      case True
      then have "in_vma a v s" using a sv by (simp add: in_vma_def)
      then show ?thesis using c v(1) sv by (metis max.absorb1)
    next
      case False
      then have b: "vm_end (vmas s v) \<le> a" by simp
      then obtain w where w: "w \<in> set vs" "in_vma a w s" "allows s write (max (vm_end (vmas s v)) (vm_start (vmas s w))) w"
        using c a(2) by (auto simp: covered_def)
      then show ?thesis using later [OF w(1,2) b] by auto
    qed
    then show "covered s vs write start end'" by (simp add: covered_def)
  qed
qed

lemma covered_cong: "vmas t = vmas s \<Longrightarrow> covered t vs write a b = covered s vs write a b"
  by (simp add: covered_def in_vma_def allows_def)

definition same_but_cache :: "sys \<Rightarrow> sys \<Rightarrow> bool" where
  "same_but_cache s t \<longleftrightarrow> ks t = ks s \<and> hp t = hp s \<and> vmas t = vmas s \<and> vlinks t = vlinks s \<and> ubytes t = ubytes s"

lemma user_mem_loop_ok:
  "vma_list s mp vs \<Longrightarrow> \<exists>t. user_mem_loop mp start end' write s = Some (covered s vs write start end', t) \<and>
    vma_list t mp vs \<and> same_but_cache s t"
proof (induction "end' - start" arbitrary: s start rule: less_induct)
  case less
  show ?case
  proof (cases "start < end'")
    case False
    then show ?thesis using less.prems by (subst user_mem_loop.simps) (auto simp: covered_def same_but_cache_def)
  next
    case lt: True
    let ?f = "find (\<lambda>v. in_vma start v s) vs"
    obtain t where t: "find_vma (Some mp) start s = Some (?f, t)" "vma_list t mp vs"
      "t = (case ?f of None \<Rightarrow> s | Some v \<Rightarrow> upd_mm mp (\<lambda>d. d\<lparr>mmap_cache := Some v\<rparr>) s)"
      using find_vma_ok [OF less.prems, of start] by auto
    have sb: "same_but_cache s t" using t(3) by (auto simp: same_but_cache_def sys_simps split: option.splits)
    then have vt: "vmas t = vmas s" by (simp add: same_but_cache_def)
    show ?thesis
    proof (cases ?f)
      case None
      then have "\<not> covered s vs write start end'" using lt by (auto simp: find_None_iff covered_def)
      then show ?thesis using None t lt sb by (subst user_mem_loop.simps) simp
    next
      case (Some v)
      then have v: "v \<in> set vs" "in_vma start v s" by (auto simp: find_Some_iff)
      then have sv: "vm_start (vmas t v) \<le> start" "start < vm_end (vmas t v)" by (auto simp: in_vma_def vt)
      have cov: "covered s vs write start end' \<longleftrightarrow> allows t write start v \<and> covered s vs write (vm_end (vmas t v)) end'"
        using covered_step [OF less.prems v lt, of "write"] by (simp add: vt allows_def)
      have step: "user_mem_loop mp start end' write s =
          (if allows t write start v then user_mem_loop mp (vm_end (vmas t v)) end' write t else Some (False, t))"
        using t(1) Some lt sv by (subst user_mem_loop.simps) (auto simp: allows_def)
      show ?thesis
      proof (cases "allows t write start v")
        case True
        have "end' - vm_end (vmas t v) < end' - start" using lt sv by simp
        then obtain u where "user_mem_loop mp (vm_end (vmas t v)) end' write t = Some (covered t vs write (vm_end (vmas t v)) end', u)"
          "vma_list u mp vs" "same_but_cache t u" using less.hyps t(2) by blast
        then show ?thesis using step True cov sb covered_cong [OF vt] by (auto simp: same_but_cache_def)
      next
        case False
        then show ?thesis using step cov sb t(2) by auto
      qed
    qed
  qed
qed


subsection \<open>Properties\<close>

definition area :: "sys \<Rightarrow> nat \<Rightarrow> nat \<times> nat \<times> 32 word" where
  "area s v = (vm_start (vmas s v), vm_end (vmas s v), vm_flags (vmas s v))"

definition areas :: "sys \<Rightarrow> nat list \<Rightarrow> (nat \<times> nat \<times> 32 word) set" where "areas s vs = area s ` set vs"


definition demo_areas :: sys where
  "demo_areas = \<lparr>ks = demo_kst, hp = fresh_heap,
     mms = (\<lambda>_. \<lparr>mmap_cache = Some 300, mm_pgdir = 0, map_count = 2, mm_count = 1, locked_by = 0\<rparr>),
     vmas = (\<lambda>v. if v = 200 then \<lparr>vm_mm = 100, vm_start = 0x200000, vm_end = 0x202000, vm_flags = 3\<rparr>
       else if v = 300 then \<lparr>vm_mm = 100, vm_start = 0x202000, vm_end = 0x208000, vm_flags = 11\<rparr>
       else \<lparr>vm_mm = 0, vm_start = 0x400000, vm_end = 0x500000, vm_flags = 3\<rparr>),
     vlinks = \<lparr>nxt = (\<lambda>e. if e = Mmap_list 100 then Vma_link 200 else if e = Vma_link 200 then Vma_link 300 else Mmap_list 100),
       prv = (\<lambda>e. if e = Mmap_list 100 then Vma_link 300 else if e = Vma_link 300 then Vma_link 200 else Mmap_list 100)\<rparr>,
     ubytes = (\<lambda>_. 0)\<rparr>"

lemma demo_areas_list: "vma_list demo_areas 100 [200, 300]"
  by (simp add: vma_list_def demo_areas_def dlist_def)


text \<open>
  C31: the outcomes of \<open>mm_map\<close> on a well-formed address space. A range outside user space and a range that starts
  inside an area are refused with \<open>- E_INVAL\<close> and nothing changes but the cache; otherwise the call ends with
  \<open>- E_NO_MEM\<close> and the areas as they were, or maps exactly the rounded range with the given flags, which then
  overlaps no area, or panics, which it does only when the range overlaps an area that starts behind its first
  page: the overlap test looks at the first address alone.
\<close>

theorem mm_map_outcomes:
  assumes "vma_list s mp vs" "kheap (hp s) held" "vmas_held vs held"
  shows "(\<not> USER_ACCESS (map_start addr) (map_end addr len) \<longrightarrow> mm_map (Some mp) addr len vf s = Some (- E_INVAL, None, s)) \<and>
    (USER_ACCESS (map_start addr) (map_end addr len) \<and> (\<exists>w\<in>set vs. in_vma (map_start addr) w s) \<longrightarrow>
      (\<exists>t. mm_map (Some mp) addr len vf s = Some (- E_INVAL, None, t) \<and> vma_list t mp vs \<and> same_but_cache s t)) \<and>
    (USER_ACCESS (map_start addr) (map_end addr len) \<and> (\<forall>w\<in>set vs. \<not> in_vma (map_start addr) w s) \<longrightarrow>
      mm_map (Some mp) addr len vf s = None \<and> (\<exists>w\<in>set vs. meets s (map_start addr) (map_end addr len) w) \<or>
      (\<exists>r t. mm_map (Some mp) addr len vf s = Some (r, t) \<and>
        (r = - E_NO_MEM \<and> fst t = None \<and> vma_list (snd t) mp vs \<or>
         (\<exists>v. r = 0 \<and> fst t = Some v \<and> (\<forall>w\<in>set vs. \<not> meets s (map_start addr) (map_end addr len) w) \<and>
            mapped_area s mp vs held (map_start addr) (map_end addr len) vf v (snd t)))))"
proof (intro conjI impI, goal_cases)
  case 1
  then show ?case by (simp add: mm_map_def Let_def map_start_def map_end_def)
next
  case 2
  let ?a = "map_start addr"
  obtain w where w: "find (\<lambda>v. in_vma ?a v s) vs = Some w"
    using 2 by (cases "find (\<lambda>v. in_vma ?a v s) vs") (auto simp: find_None_iff)
  obtain t where t: "find_vma (Some mp) ?a s = Some (Some w, t)" "vma_list t mp vs" "t = upd_mm mp (\<lambda>d. d\<lparr>mmap_cache := Some w\<rparr>) s"
    using find_vma_ok [OF assms(1), of ?a] w by auto
  have "vm_start (vmas t w) \<le> ?a" using w t(3) by (auto simp: find_Some_iff in_vma_def sys_simps)
  moreover have "?a < map_end addr len" using 2 by (simp add: USER_ACCESS_def)
  ultimately have "mm_map (Some mp) addr len vf s = Some (- E_INVAL, None, t)"
    using t(1) 2 by (simp add: mm_map_def Let_def map_start_def map_end_def)
  moreover have "same_but_cache s t" by (simp add: t(3) same_but_cache_def sys_simps)
  ultimately show ?case using t(2) by blast
next
  case 3
  then show ?case by (intro mm_map_free [OF assms]) auto
qed

theorem mm_map_outcomes_witness:
  "mm_map (Some 100) 0x100000 0x1000 3 (demo_areas\<lparr>vlinks := list_init (Mmap_list 100) (vlinks demo_areas), mms := (\<lambda>_. \<lparr>mmap_cache = None, mm_pgdir = 0, map_count = 0, mm_count = 1, locked_by = 0\<rparr>)\<rparr>)
    = Some (- E_INVAL, None, demo_areas\<lparr>vlinks := list_init (Mmap_list 100) (vlinks demo_areas), mms := (\<lambda>_. \<lparr>mmap_cache = None, mm_pgdir = 0, map_count = 0, mm_count = 1, locked_by = 0\<rparr>)\<rparr>)"
  (is "_ = Some (_, _, ?s)")
proof -
  have "vma_list ?s 100 []" using ll.init_holds [of "Mmap_list 100"] by (simp add: vma_list_def)
  moreover have "kheap (hp ?s) []" using fresh_heap_ok by (simp add: demo_areas_def)
  moreover have "vmas_held [] []" by (simp add: vmas_held_def)
  moreover have "\<not> USER_ACCESS (map_start 0x100000) (map_end 0x100000 0x1000)"
    by (simp add: USER_ACCESS_def map_start_def ROUNDDOWN_def PGSIZE_def USERBASE_def)
  ultimately show ?thesis using mm_map_outcomes [of ?s 100 "[]" "[]" "0x100000" "0x1000" 3] by blast
qed

text \<open>
  C32: \<open>user_mem_check\<close> decides access to a range of user memory. It always returns, it is true exactly when the
  range is in user space and every byte of it is in an area with the permission asked for (and, for a write
  into a stack, the range enters the area above its first page), and it changes nothing but the cache.
\<close>

theorem user_mem_check_decides:
  assumes "vma_list s mp vs"
  shows "\<exists>t. user_mem_check (Some mp) addr len write s =
      Some (USER_ACCESS addr (u64 (addr + len)) \<and> covered s vs write addr (u64 (addr + len)), t) \<and>
    vma_list t mp vs \<and> same_but_cache s t"
  using user_mem_loop_ok [OF assms, of addr "u64 (addr + len)" "write"] assms
  by (cases "USER_ACCESS addr (u64 (addr + len))") (auto simp: user_mem_check_def same_but_cache_def)

theorem user_mem_check_decides_witness:
  "\<exists>t. user_mem_check (Some 100) 0x201000 0x3000 False demo_areas = Some (True, t) \<and> same_but_cache demo_areas t"
proof -
  have "covered demo_areas [200, 300] False 0x201000 0x204000"
  proof (unfold covered_def, intro allI impI)
    fix a :: nat assume a: "0x201000 \<le> a" "a < 0x204000"
    have "VM_READ AND 3 \<noteq> 0" "VM_READ AND 11 \<noteq> 0" by (simp_all add: VM_READ_def)
    then have r: "allows demo_areas False x 200" "allows demo_areas False x 300" for x
      by (simp_all add: allows_def demo_areas_def and.commute)
    show "\<exists>v\<in>set [200, 300]. in_vma a v demo_areas \<and> allows demo_areas False (max 0x201000 (vm_start (vmas demo_areas v))) v"
      using a r by (cases "a < 0x202000") (auto simp: in_vma_def demo_areas_def)
  qed
  moreover have "USER_ACCESS 0x201000 0x204000" by (simp add: USER_ACCESS_def USERBASE_def USERTOP_def)
  moreover have "u64 (0x201000 + 0x3000) = 0x204000" by simp
  ultimately show ?thesis using user_mem_check_decides [OF demo_areas_list, of "0x201000" "0x3000" False] by auto
qed

end
