(* ===== verification/Fs_State.thy ===== *)
theory Fs_State
  imports Vmm_Proofs
begin

unbundle bit_operations_syntax

section \<open>The state of the file system\<close>

text \<open>
  The structures of kern/fs: \<open>inode\<close>, \<open>fs\<close> with its \<open>sfs_fs\<close>, \<open>bitmap\<close>, \<open>vfs_dev_t\<close>, \<open>files_struct\<close> and
  the IDE devices, each at the address \<open>kmalloc\<close> gave, above the state \<open>sys\<close> of processes, heap and memory. What
  the code reads from the disk into memory stays bytes of \<open>ubytes\<close>: the blocks, the \<open>sfs_disk_inode\<close> and
  \<open>sfs_disk_entry\<close> structures, the words of a bitmap and the super block, which is the start of its \<open>fs\<close>.

  The model follows one process through the file system. A \<open>down\<close> that would block, and an \<open>up\<close> that would wake
  another process, are outside it and give \<open>None\<close>, as a failed assertion does; \<open>fs_down_down\<close> and \<open>fs_up_up\<close>
  show that otherwise they are the \<open>down\<close> and \<open>up\<close> of the semaphores.
\<close>

subsection \<open>Structures\<close>

datatype dev_ops = Stdin | Stdout | Disk0

record device =
  d_blocks :: nat
  d_blocksize :: nat
  d_ops :: dev_ops

record sfs_inode =
  sin_din :: nat
  sin_ino :: "32 word"
  dirty :: bool
  reclaim_count :: int

datatype in_info = Device_info device | Sfs_inode_info sfs_inode

datatype inode_ops = Dev_node_ops | Sfs_node_dirops | Sfs_node_fileops

record inode =
  in_info :: in_info
  ref_count :: int
  open_count :: int
  in_fs :: "nat option"
  in_ops :: inode_ops

record sfs_fs =
  sfs_dev :: nat
  freemap :: nat
  super_dirty :: bool
  sfs_buffer :: nat
  hash_list :: nat

record bitmap =
  nbits :: "32 word"
  nwords :: "32 word"
  bmap :: nat

record vfs_dev =
  devname :: nat
  devnode :: "nat option"
  vdev_fs :: "nat option"
  mountable :: bool

datatype fd_status = FD_NONE | FD_INIT | FD_OPENED | FD_CLOSED

record file_struct =
  fstatus :: fd_status
  readable :: bool
  writable :: bool
  file_fd :: int
  fpos :: int
  fnode :: "nat option"
  fopen_cnt :: int

record files_struct =
  pwd :: "nat option"
  fd_array :: "nat \<Rightarrow> file_struct"
  files_cnt :: int

record ide_device =
  ide_valid :: bool
  ide_size :: nat
  iobase :: nat

record iobuf =
  io_base :: nat
  io_offset :: int
  io_len :: nat
  io_resid :: nat

datatype fs_le =
    Inode_list nat | Inode_link nat
  | Sfs_hash nat nat | Sfs_hash_link nat
  | Vdev_list | Vdev_link nat

fun le2node :: "fs_le \<Rightarrow> nat" where
  "le2node (Inode_link n) = n"
| "le2node (Sfs_hash_link n) = n"

fun le2vdev :: "fs_le \<Rightarrow> nat" where
  "le2vdev (Vdev_link v) = v"

record fst =
  sy :: sys
  inodes :: "nat \<Rightarrow> inode"
  sfss :: "nat \<Rightarrow> sfs_fs"
  bitmaps :: "nat \<Rightarrow> bitmap"
  vdevs :: "nat \<Rightarrow> vfs_dev"
  flinks :: "fs_le links"
  bootfs_node :: "nat option"
  files :: "nat \<Rightarrow> files_struct"
  ide_devices :: "nat \<Rightarrow> ide_device"
  disk0_buffer :: nat
  stdin_buffer :: "nat \<Rightarrow> 8 word"
  p_rpos :: int
  p_wpos :: int
  console :: "8 word list"

text \<open>
  Sizes of the structures, and the addresses of the semaphores embedded in them; those in static storage have
  addresses below every address of the heap.
\<close>

definition SIZEOF_INODE :: nat where "SIZEOF_INODE = 120"
definition SIZEOF_FS :: nat where "SIZEOF_FS = 216"
definition SIZEOF_BITMAP :: nat where "SIZEOF_BITMAP = 16"
definition SIZEOF_VDEV :: nat where "SIZEOF_VDEV = 48"
definition SIZEOF_FILES :: nat where "SIZEOF_FILES = 48"
definition SIZEOF_FILE :: nat where "SIZEOF_FILE = 56"
definition SIZEOF_LIST_ENTRY :: nat where "SIZEOF_LIST_ENTRY = 16"
definition SIZEOF_DIN :: nat where "SIZEOF_DIN = 64"
definition SIZEOF_ENTRY :: nat where "SIZEOF_ENTRY = 260"
definition SIZEOF_SUPER :: nat where "SIZEOF_SUPER = 44"

definition sin_sem :: "nat \<Rightarrow> nat" where "sin_sem inode = inode + 32"
definition fs_sem :: "nat \<Rightarrow> nat" where "fs_sem fs = fs + 80"
definition io_sem :: "nat \<Rightarrow> nat" where "io_sem fs = fs + 104"
definition mutex_sem :: "nat \<Rightarrow> nat" where "mutex_sem fs = fs + 128"
definition files_sem :: "nat \<Rightarrow> nat" where "files_sem fp = fp + 24"
definition bootfs_sem :: nat where "bootfs_sem = 1"
definition vdev_list_sem :: nat where "vdev_list_sem = 2"
definition disk0_sem :: nat where "disk0_sem = 3"
definition stdin_wait_queue :: nat where "stdin_wait_queue = 4"

subsection \<open>Access to the state\<close>

definition mem :: "fst \<Rightarrow> bytes" where "mem s = ubytes (sy s)"

definition upd_mem :: "(bytes \<Rightarrow> bytes) \<Rightarrow> fst \<Rightarrow> fst" where
  "upd_mem f s = s\<lparr>sy := (sy s)\<lparr>ubytes := f (ubytes (sy s))\<rparr>\<rparr>"

definition upd_inode :: "nat \<Rightarrow> (inode \<Rightarrow> inode) \<Rightarrow> fst \<Rightarrow> fst" where
  "upd_inode a f s = s\<lparr>inodes := (inodes s)(a := f (inodes s a))\<rparr>"

definition upd_sfs :: "nat \<Rightarrow> (sfs_fs \<Rightarrow> sfs_fs) \<Rightarrow> fst \<Rightarrow> fst" where
  "upd_sfs a f s = s\<lparr>sfss := (sfss s)(a := f (sfss s a))\<rparr>"

definition upd_bitmap :: "nat \<Rightarrow> (bitmap \<Rightarrow> bitmap) \<Rightarrow> fst \<Rightarrow> fst" where
  "upd_bitmap a f s = s\<lparr>bitmaps := (bitmaps s)(a := f (bitmaps s a))\<rparr>"

definition upd_vdev :: "nat \<Rightarrow> (vfs_dev \<Rightarrow> vfs_dev) \<Rightarrow> fst \<Rightarrow> fst" where
  "upd_vdev a f s = s\<lparr>vdevs := (vdevs s)(a := f (vdevs s a))\<rparr>"

definition upd_files :: "nat \<Rightarrow> (files_struct \<Rightarrow> files_struct) \<Rightarrow> fst \<Rightarrow> fst" where
  "upd_files a f s = s\<lparr>files := (files s)(a := f (files s a))\<rparr>"

definition upd_flinks :: "(fs_le links \<Rightarrow> fs_le links) \<Rightarrow> fst \<Rightarrow> fst" where
  "upd_flinks f s = s\<lparr>flinks := f (flinks s)\<rparr>"

definition on_sys :: "(sys \<Rightarrow> ('a \<times> sys) kresult) \<Rightarrow> fst \<Rightarrow> ('a \<times> fst) kresult" where
  "on_sys f s = do { (r, y) \<leftarrow> f (sy s); Some (r, s\<lparr>sy := y\<rparr>) }"

definition on_sys' :: "(sys \<Rightarrow> sys kresult) \<Rightarrow> fst \<Rightarrow> fst kresult" where
  "on_sys' f s = do { y \<leftarrow> f (sy s); Some (s\<lparr>sy := y\<rparr>) }"

definition fs_kmalloc :: "nat \<Rightarrow> fst \<Rightarrow> (nat option \<times> fst) kresult" where
  "fs_kmalloc n = on_sys (sys_kmalloc n)"

definition fs_kfree :: "nat option \<Rightarrow> fst \<Rightarrow> fst kresult" where
  "fs_kfree a = on_sys' (sys_kfree a)"

definition fs_sem_init :: "nat \<Rightarrow> int \<Rightarrow> fst \<Rightarrow> fst" where
  "fs_sem_init q v s = s\<lparr>sy := (sy s)\<lparr>ks := sem_init q v (ks (sy s))\<rparr>\<rparr>"

text \<open>\<open>down\<close> and \<open>up\<close> of a semaphore nobody waits for.\<close>

definition fs_down :: "nat \<Rightarrow> fst \<Rightarrow> fst kresult" where
  "fs_down q s =
     (let k = ks (sy s) in
      if sem_value k q > 0 then Some (s\<lparr>sy := (sy s)\<lparr>ks := set_sem q (sem_value k q - 1) k\<rparr>\<rparr>) else None)"

definition fs_up :: "nat \<Rightarrow> fst \<Rightarrow> fst kresult" where
  "fs_up q s =
     (let k = ks (sy s) in
      if wait_queue_first q k = None then Some (s\<lparr>sy := (sy s)\<lparr>ks := set_sem q (sem_value k q + 1) k\<rparr>\<rparr>) else None)"

lemma fs_down_down:
  "fs_down q s = Some s' \<Longrightarrow> down cls q w (ks (sy s)) = Some (Inl (ks (sy s'))) \<and> s' = s\<lparr>sy := (sy s)\<lparr>ks := ks (sy s')\<rparr>\<rparr>"
  by (auto simp: fs_down_def down_def down_begin_def Let_def split: if_splits)

lemma fs_up_up:
  "fs_up q s = Some s' \<Longrightarrow> up cls q (ks (sy s)) = Some (ks (sy s')) \<and> s' = s\<lparr>sy := (sy s)\<lparr>ks := ks (sy s')\<rparr>\<rparr>"
  by (auto simp: fs_up_def up_def priv_up_def Let_def split: if_splits)

subsection \<open>Words in memory\<close>

text \<open>Integers are little-endian.\<close>

definition rd16 :: "nat \<Rightarrow> bytes \<Rightarrow> 16 word" where
  "rd16 a m = ucast (m a) OR push_bit 8 (ucast (m (a + 1)))"

definition rd32 :: "nat \<Rightarrow> bytes \<Rightarrow> 32 word" where
  "rd32 a m = ucast (m a) OR push_bit 8 (ucast (m (a + 1))) OR push_bit 16 (ucast (m (a + 2)))
     OR push_bit 24 (ucast (m (a + 3)))"

definition wr32 :: "nat \<Rightarrow> 32 word \<Rightarrow> bytes \<Rightarrow> bytes" where
  "wr32 a v m = m(a := ucast v, a + 1 := ucast (drop_bit 8 v), a + 2 := ucast (drop_bit 16 v),
     a + 3 := ucast (drop_bit 24 v))"

definition rd64 :: "nat \<Rightarrow> bytes \<Rightarrow> 64 word" where
  "rd64 a m = ucast (rd32 a m) OR push_bit 32 (ucast (rd32 (a + 4) m))"

definition wr64 :: "nat \<Rightarrow> 64 word \<Rightarrow> bytes \<Rightarrow> bytes" where
  "wr64 a v m = wr32 (a + 4) (ucast (drop_bit 32 v)) (wr32 a (ucast v) m)"

lemma rd32_wr32 [simp]: "rd32 a (wr32 a v m) = v"
proof (rule bit_word_eqI)
  fix n assume "n < LENGTH(32)"
  then consider "n < 8" | "8 \<le> n" "n < 16" | "16 \<le> n" "n < 24" | "24 \<le> n" "n < 32" by force
  then show "bit (rd32 a (wr32 a v m)) n = bit v n"
    by cases (auto simp: rd32_def wr32_def bit_simps)
qed

lemma rd32_wr32_other: "b + 4 \<le> a \<or> a + 4 \<le> b \<Longrightarrow> rd32 b (wr32 a v m) = rd32 b m"
  by (auto simp: rd32_def wr32_def)

lemma wr32_other: "b < a \<or> a + 4 \<le> b \<Longrightarrow> wr32 a v m b = m b"
  by (auto simp: wr32_def)

lemma rd32_cong:
  assumes "\<And>i. i < 4 \<Longrightarrow> m (a + i) = m' (a' + i)"
  shows "rd32 a m = rd32 a' m'"
  using assms [of 0] assms [of 1] assms [of 2] assms [of 3] by (simp add: rd32_def)

subsection \<open>I/O buffers (kern/fs/iobuf.c)\<close>

definition iobuf_init :: "nat \<Rightarrow> nat \<Rightarrow> int \<Rightarrow> iobuf" where
  "iobuf_init base len offset = \<lparr>io_base = base, io_offset = offset, io_len = len, io_resid = len\<rparr>"

definition iobuf_used :: "iobuf \<Rightarrow> nat" where
  "iobuf_used iob = sub64 (io_len iob) (io_resid iob)"

definition iobuf_skip :: "iobuf \<Rightarrow> nat \<Rightarrow> iobuf kresult" where
  "iobuf_skip iob n = do {
     kassert (io_resid iob \<ge> n);
     Some (iob\<lparr>io_base := io_base iob + n, io_offset := io_offset iob + int n, io_resid := io_resid iob - n\<rparr>)
   }"

text \<open>The result, the value of \<open>*copiedp\<close>, the buffer and the memory.\<close>

definition iobuf_move :: "iobuf \<Rightarrow> nat \<Rightarrow> nat \<Rightarrow> bool \<Rightarrow> bytes \<Rightarrow> (int \<times> nat \<times> iobuf \<times> bytes) kresult" where
  "iobuf_move iob data len m2b m = do {
     let alen = (if io_resid iob > len then len else io_resid iob);
     (len', iob', m') \<leftarrow>
       (if alen > 0
        then do {
          let (dst, src) = (if m2b then (io_base iob, data) else (data, io_base iob));
          iob' \<leftarrow> iobuf_skip iob alen;
          Some (len - alen, iob', snd (memmove dst src alen m))
        }
        else Some (len, iob, m));
     Some (if len' = 0 then 0 else - E_NO_MEM, alen, iob', m')
   }"

definition iobuf_move_zeros :: "iobuf \<Rightarrow> nat \<Rightarrow> bytes \<Rightarrow> (int \<times> nat \<times> iobuf \<times> bytes) kresult" where
  "iobuf_move_zeros iob len m = do {
     let alen = (if io_resid iob > len then len else io_resid iob);
     (len', iob', m') \<leftarrow>
       (if alen > 0
        then do {
          iob' \<leftarrow> iobuf_skip iob alen;
          Some (len - alen, iob', snd (memset (io_base iob) 0 alen m))
        }
        else Some (len, iob, m));
     Some (if len' = 0 then 0 else - E_NO_MEM, alen, iob', m')
   }"

definition fs_move :: "iobuf \<Rightarrow> nat \<Rightarrow> nat \<Rightarrow> bool \<Rightarrow> fst \<Rightarrow> (int \<times> nat \<times> iobuf \<times> fst) kresult" where
  "fs_move iob data len m2b s = do {
     (r, copied, iob, m) \<leftarrow> iobuf_move iob data len m2b (mem s);
     Some (r, copied, iob, upd_mem (\<lambda>_. m) s)
   }"

subsection \<open>A state for the witnesses\<close>

definition demo_fst :: fst where
  "demo_fst =
     \<lparr>sy = demo_areas\<lparr>ubytes := (\<lambda>_. 0)\<rparr>,
      inodes = (\<lambda>_. \<lparr>in_info = Device_info \<lparr>d_blocks = 0, d_blocksize = 1, d_ops = Stdout\<rparr>,
        ref_count = 1, open_count = 0, in_fs = None, in_ops = Dev_node_ops\<rparr>),
      sfss = (\<lambda>_. \<lparr>sfs_dev = 0, freemap = 0, super_dirty = False, sfs_buffer = 0, hash_list = 0\<rparr>),
      bitmaps = (\<lambda>_. \<lparr>nbits = 40, nwords = 2, bmap = 1000\<rparr>),
      vdevs = (\<lambda>_. \<lparr>devname = 0, devnode = None, vdev_fs = None, mountable = False\<rparr>),
      flinks = \<lparr>nxt = (\<lambda>e. e), prv = (\<lambda>e. e)\<rparr>,
      bootfs_node = None,
      files = (\<lambda>_. \<lparr>pwd = None, fd_array = (\<lambda>i. \<lparr>fstatus = FD_NONE, readable = False, writable = False,
        file_fd = int i, fpos = 0, fnode = None, fopen_cnt = 0\<rparr>), files_cnt = 1\<rparr>),
      ide_devices = (\<lambda>_. \<lparr>ide_valid = False, ide_size = 0, iobase = 0\<rparr>),
      disk0_buffer = 0, stdin_buffer = (\<lambda>_. 0), p_rpos = 0, p_wpos = 0, console = []\<rparr>"

end
