(* ===== verification/Bitmap.thy ===== *)
theory Bitmap
  imports Fs_State
begin

unbundle bit_operations_syntax

section \<open>Bitmaps (kern/fs/sfs/bitmap.c)\<close>

text \<open>
  A set bit is a free block. The words of the map are 32-bit words in memory at \<open>bmap\<close>. Operations that
  assign \<open>*index_store\<close> return the value, \<open>None\<close> where they do not assign it.
\<close>

definition WORD_BITS :: nat where "WORD_BITS = 32"

text \<open>\<open>ROUNDUP_DIV\<close> of libs/defs.h.\<close>

definition ROUNDUP_DIV :: "nat \<Rightarrow> nat \<Rightarrow> nat" where "ROUNDUP_DIV a n = u64 (a + n - 1) div n"

definition map_word :: "nat \<Rightarrow> nat \<Rightarrow> fst \<Rightarrow> 32 word" where
  "map_word b ix s = rd32 (bmap (bitmaps s b) + 4 * ix) (mem s)"

definition set_map_word :: "nat \<Rightarrow> nat \<Rightarrow> 32 word \<Rightarrow> fst \<Rightarrow> fst" where
  "set_map_word b ix v s = upd_mem (wr32 (bmap (bitmaps s b) + 4 * ix) v) s"

function mark_left_over :: "nat \<Rightarrow> nat \<Rightarrow> nat \<Rightarrow> fst \<Rightarrow> fst" where
  "mark_left_over b ix overbits s =
     (if overbits < WORD_BITS
      then mark_left_over b ix (overbits + 1) (set_map_word b ix (map_word b ix s XOR push_bit overbits 1) s)
      else s)"
  by auto
termination by (relation "measure (\<lambda>(b, ix, overbits, s). WORD_BITS - overbits)") auto

declare mark_left_over.simps [simp del]

definition bitmap_create :: "32 word \<Rightarrow> fst \<Rightarrow> (nat option \<times> fst) kresult" where
  "bitmap_create n s = do {
     kassert (n \<noteq> 0 \<and> unat n + WORD_BITS > unat n);
     (b, s) \<leftarrow> fs_kmalloc SIZEOF_BITMAP s;
     (case b of
        None \<Rightarrow> Some (None, s)
      | Some b \<Rightarrow> do {
          let nw = u32 (ROUNDUP_DIV (unat n) WORD_BITS);
          (m, s) \<leftarrow> fs_kmalloc (4 * nw) s;
          (case m of
             None \<Rightarrow> do { s \<leftarrow> fs_kfree (Some b) s; Some (None, s) }
           | Some m \<Rightarrow> do {
               let s = upd_bitmap b (\<lambda>d. d\<lparr>nbits := n, nwords := word_of_nat nw\<rparr>) s;
               let s = upd_mem (snd \<circ> memset m 0xFF (4 * nw)) s;
               let s = upd_bitmap b (\<lambda>d. d\<lparr>bmap := m\<rparr>) s;
               s \<leftarrow> (if unat n \<noteq> nw * WORD_BITS
                     then do {
                       let ix = sub32 nw 1;
                       let overbits = u32 (sub64 (unat n) (ix * WORD_BITS));
                       kassert (unat n div WORD_BITS = ix);
                       kassert (overbits > 0 \<and> overbits < WORD_BITS);
                       Some (mark_left_over b ix overbits s)
                     }
                     else Some s);
               Some (Some b, s)
             })
        })
   }"

function alloc_bit_loop :: "nat \<Rightarrow> nat \<Rightarrow> nat \<Rightarrow> fst \<Rightarrow> (32 word \<times> fst) kresult" where
  "alloc_bit_loop b ix offset s =
     (if offset < WORD_BITS
      then let mask = push_bit offset 1 in
        if map_word b ix s AND mask \<noteq> 0
        then Some (word_of_nat (ix * WORD_BITS + offset), set_map_word b ix (map_word b ix s XOR mask) s)
        else alloc_bit_loop b ix (offset + 1) s
      else None)"
  by auto
termination by (relation "measure (\<lambda>(b, ix, offset, s). WORD_BITS - offset)") auto

declare alloc_bit_loop.simps [simp del]

function alloc_word_loop :: "nat \<Rightarrow> nat \<Rightarrow> fst \<Rightarrow> (int \<times> 32 word option \<times> fst) kresult" where
  "alloc_word_loop b ix s =
     (if ix < unat (nwords (bitmaps s b))
      then if map_word b ix s \<noteq> 0
        then do { (i, s) \<leftarrow> alloc_bit_loop b ix 0 s; Some (0, Some i, s) }
        else alloc_word_loop b (ix + 1) s
      else Some (- E_NO_MEM, None, s))"
  by auto
termination by (relation "measure (\<lambda>(b, ix, s). unat (nwords (bitmaps s b)) - ix)") auto

declare alloc_word_loop.simps [simp del]

definition bitmap_alloc :: "nat \<Rightarrow> fst \<Rightarrow> (int \<times> 32 word option \<times> fst) kresult" where
  "bitmap_alloc b s = alloc_word_loop b 0 s"

text \<open>The index of the word and the mask.\<close>

definition bitmap_translate :: "nat \<Rightarrow> 32 word \<Rightarrow> fst \<Rightarrow> (nat \<times> 32 word) kresult" where
  "bitmap_translate b index s = do {
     kassert (index < nbits (bitmaps s b));
     Some (unat index div WORD_BITS, push_bit (unat index mod WORD_BITS) 1)
   }"

definition bitmap_test :: "nat \<Rightarrow> 32 word \<Rightarrow> fst \<Rightarrow> bool kresult" where
  "bitmap_test b index s = do {
     (ix, mask) \<leftarrow> bitmap_translate b index s;
     Some (map_word b ix s AND mask \<noteq> 0)
   }"

definition bitmap_free :: "nat \<Rightarrow> 32 word \<Rightarrow> fst \<Rightarrow> fst kresult" where
  "bitmap_free b index s = do {
     (ix, mask) \<leftarrow> bitmap_translate b index s;
     kassert (map_word b ix s AND mask = 0);
     Some (set_map_word b ix (map_word b ix s OR mask) s)
   }"

definition bitmap_destroy :: "nat \<Rightarrow> fst \<Rightarrow> fst kresult" where
  "bitmap_destroy b s = do { s \<leftarrow> fs_kfree (Some (bmap (bitmaps s b))) s; fs_kfree (Some b) s }"

text \<open>The address of the words, and their length in bytes.\<close>

definition bitmap_getdata :: "nat \<Rightarrow> fst \<Rightarrow> nat \<times> nat" where
  "bitmap_getdata b s = (bmap (bitmaps s b), 4 * unat (nwords (bitmaps s b)))"

subsection \<open>The set of free blocks\<close>

definition free_bit :: "nat \<Rightarrow> nat \<Rightarrow> fst \<Rightarrow> bool" where
  "free_bit b i s \<longleftrightarrow> bit (map_word b (i div WORD_BITS) s) (i mod WORD_BITS)"

definition bitmap_ok :: "nat \<Rightarrow> fst \<Rightarrow> bool" where
  "bitmap_ok b s \<longleftrightarrow>
     unat (nbits (bitmaps s b)) \<le> unat (nwords (bitmaps s b)) * WORD_BITS \<and>
     unat (nwords (bitmaps s b)) * WORD_BITS \<le> 2 ^ 32 \<and>
     (\<forall>i. unat (nbits (bitmaps s b)) \<le> i \<and> i < unat (nwords (bitmaps s b)) * WORD_BITS \<longrightarrow> \<not> free_bit b i s)"

definition free_blocks :: "nat \<Rightarrow> fst \<Rightarrow> nat set" where
  "free_blocks b s = {i. i < unat (nbits (bitmaps s b)) \<and> free_bit b i s}"

text \<open>Every other word of the map, the rest of memory and the rest of the state stay as they are.\<close>

lemma and_mask_bit: "n < 32 \<Longrightarrow> (w :: 32 word) AND 2 ^ n = 0 \<longleftrightarrow> \<not> bit w n"
proof
  assume n: "n < 32" and "w AND 2 ^ n = 0"
  then have "\<not> bit (w AND 2 ^ n) n" by simp
  then show "\<not> bit w n" using n by (simp add: bit_simps)
next
  assume "n < 32" "\<not> bit w n"
  then show "w AND 2 ^ n = 0" by (auto intro!: bit_word_eqI simp: bit_simps)
qed

lemma upd_mem_fields [simp]:
  "bitmaps (upd_mem f s) = bitmaps s" "mem (upd_mem f s) = f (mem s)" "inodes (upd_mem f s) = inodes s"
  "sfss (upd_mem f s) = sfss s" "flinks (upd_mem f s) = flinks s" "files (upd_mem f s) = files s"
  "ide_devices (upd_mem f s) = ide_devices s" "disk0_buffer (upd_mem f s) = disk0_buffer s"
  "ks (sy (upd_mem f s)) = ks (sy s)" "hp (sy (upd_mem f s)) = hp (sy s)" "vdevs (upd_mem f s) = vdevs s"
  by (simp_all add: upd_mem_def mem_def)

lemma map_word_set [simp]: "map_word b ix (set_map_word b ix v s) = v"
  by (simp add: map_word_def set_map_word_def)

lemma map_word_set_other [simp]: "ix \<noteq> jx \<Longrightarrow> map_word b jx (set_map_word b ix v s) = map_word b jx s"
  by (cases "jx < ix") (simp_all add: map_word_def set_map_word_def rd32_wr32_other)

lemma set_map_word_fields [simp]: "bitmaps (set_map_word b ix v s) = bitmaps s"
  by (simp add: set_map_word_def)

lemma free_bit_set:
  "free_bit b i (set_map_word b ix v s) = (if i div WORD_BITS = ix then bit v (i mod WORD_BITS) else free_bit b i s)"
  by (simp add: free_bit_def)

lemma alloc_bit_loop_finds:
  assumes "offset \<le> n" "n < WORD_BITS" "bit (map_word b ix s) n" "\<And>k. offset \<le> k \<Longrightarrow> k < n \<Longrightarrow> \<not> bit (map_word b ix s) k"
  shows "alloc_bit_loop b ix offset s =
    Some (word_of_nat (ix * WORD_BITS + n), set_map_word b ix (map_word b ix s XOR push_bit n 1) s)"
  using assms
proof (induction b ix offset s rule: alloc_bit_loop.induct)
  case (1 b ix offset s)
  show ?case
  proof (cases "offset = n")
    case True
    with "1.prems" show ?thesis
      by (subst alloc_bit_loop.simps) (simp add: and_mask_bit WORD_BITS_def Let_def)
  next
    case False
    with "1.prems" have "map_word b ix s AND push_bit offset 1 = 0"
      by (simp add: and_mask_bit WORD_BITS_def)
    with 1 False show ?thesis
      by (subst alloc_bit_loop.simps) (simp add: Let_def)
  qed
qed

lemma alloc_word_loop_finds:
  assumes "ix \<le> jx" "jx < unat (nwords (bitmaps s b))" "map_word b jx s \<noteq> 0"
    "\<And>k. ix \<le> k \<Longrightarrow> k < jx \<Longrightarrow> map_word b k s = 0"
  shows "alloc_word_loop b ix s = do { (i, s) \<leftarrow> alloc_bit_loop b jx 0 s; Some (0, Some i, s) }"
  using assms
proof (induction b ix s rule: alloc_word_loop.induct)
  case (1 b ix s)
  show ?case
  proof (cases "ix = jx")
    case True
    with "1.prems" show ?thesis by (subst alloc_word_loop.simps) simp
  next
    case False
    with 1 show ?thesis by (subst alloc_word_loop.simps) simp
  qed
qed

lemma alloc_word_loop_none:
  assumes "\<And>k. ix \<le> k \<Longrightarrow> k < unat (nwords (bitmaps s b)) \<Longrightarrow> map_word b k s = 0"
  shows "alloc_word_loop b ix s = Some (- E_NO_MEM, None, s)"
  using assms
proof (induction b ix s rule: alloc_word_loop.induct)
  case (1 b ix s)
  then show ?case by (subst alloc_word_loop.simps) simp
qed

lemma free_bit_at: "n < WORD_BITS \<Longrightarrow> free_bit b (ix * WORD_BITS + n) s = bit (map_word b ix s) n"
  by (simp add: free_bit_def WORD_BITS_def)

lemma word_zero_no_bit: "(\<And>n. n < WORD_BITS \<Longrightarrow> \<not> bit (w :: 32 word) n) \<Longrightarrow> w = 0"
  by (rule bit_word_eqI) (simp add: WORD_BITS_def)

lemma free_blocks_finite [simp]: "finite (free_blocks b s)"
  by (simp add: free_blocks_def)

lemma free_bit_in_blocks:
  assumes "bitmap_ok b s" "ix < unat (nwords (bitmaps s b))" "n < WORD_BITS" "bit (map_word b ix s) n"
  shows "ix * WORD_BITS + n \<in> free_blocks b s"
proof -
  have "ix * WORD_BITS + n < (ix + 1) * WORD_BITS" using assms(3) by simp
  also have "\<dots> \<le> unat (nwords (bitmaps s b)) * WORD_BITS" using assms(2) by (intro mult_le_mono1) simp
  finally show ?thesis
    using assms free_bit_at [of n b ix s] by (auto simp: free_blocks_def bitmap_ok_def not_less)
qed

lemma bitmap_alloc_none: "bitmap_ok b s \<Longrightarrow> free_blocks b s = {} \<Longrightarrow> bitmap_alloc b s = Some (- E_NO_MEM, None, s)"
  unfolding bitmap_alloc_def
  by (rule alloc_word_loop_none) (use free_bit_in_blocks [of b s] word_zero_no_bit in blast)

lemma bitmap_alloc_min:
  assumes ok: "bitmap_ok b s" and ne: "free_blocks b s \<noteq> {}" and i: "i = Min (free_blocks b s)"
  shows "bitmap_alloc b s = Some (0, Some (word_of_nat i),
    set_map_word b (i div WORD_BITS) (map_word b (i div WORD_BITS) s XOR push_bit (i mod WORD_BITS) 1) s)"
proof -
  let ?j = "i div WORD_BITS" and ?n = "i mod WORD_BITS"
  have W: "0 < WORD_BITS" by (simp add: WORD_BITS_def)
  have i_in: "i \<in> free_blocks b s" using ne i by simp
  have least: "i \<le> k" if "k \<in> free_blocks b s" for k using that i by simp
  have j: "?j < unat (nwords (bitmaps s b))"
    using i_in ok W by (auto simp: free_blocks_def bitmap_ok_def less_mult_imp_div_less)
  have b: "bit (map_word b ?j s) ?n" using i_in by (simp add: free_blocks_def free_bit_def)
  have "map_word b k s = 0" if "k < ?j" for k
  proof (rule word_zero_no_bit)
    fix n assume n: "n < WORD_BITS"
    have "k * WORD_BITS + n < (k + 1) * WORD_BITS" using n by simp
    also have "\<dots> \<le> ?j * WORD_BITS" using that by (intro mult_le_mono1) simp
    also have "\<dots> \<le> i" by simp
    finally have "k * WORD_BITS + n < i" .
    then show "\<not> bit (map_word b k s) n"
      using free_bit_in_blocks [OF ok _ n, of k] least [of "k * WORD_BITS + n"] j that by auto
  qed
  moreover have "\<not> bit (map_word b ?j s) k" if "k < ?n" for k
  proof -
    have "k < WORD_BITS" using that W mod_less_divisor [of WORD_BITS i] by linarith
    moreover have "?j * WORD_BITS + k < i" using that div_mult_mod_eq [of i WORD_BITS] by linarith
    ultimately show ?thesis
      using free_bit_in_blocks [OF ok j, of k] least [of "?j * WORD_BITS + k"] by auto
  qed
  moreover have "map_word b ?j s \<noteq> 0" using b by auto
  ultimately show ?thesis
    using j b W unfolding bitmap_alloc_def
    by (simp add: alloc_word_loop_finds [where jx = ?j] alloc_bit_loop_finds [where n = ?n] div_mult_mod_eq
        del: word_of_nat_eq_0_iff of_nat_add of_nat_mult)
qed

lemma wr32_rd32 [simp]: "wr32 a (rd32 a m) (wr32 a v m) = m"
proof
  fix k
  have no_bit: "8 \<le> n \<Longrightarrow> \<not> bit (w :: 8 word) n" for w n
    using bit_imp_le_length [of w n] by auto
  have *: "ucast (drop_bit i (rd32 a m)) = m (a + i div 8)" if "i \<in> {0, 8, 16, 24}" for i
    using that by (auto intro!: bit_word_eqI simp: rd32_def bit_simps no_bit)
  show "wr32 a (rd32 a m) (wr32 a v m) k = m k"
    using * [of 0] * [of 8] * [of 16] * [of 24] by (auto simp: wr32_def)
qed

lemma set_map_word_back: "v = map_word b ix s \<Longrightarrow> set_map_word b ix v (set_map_word b ix w s) = s"
  by (simp add: set_map_word_def map_word_def upd_mem_def mem_def)

lemma free_blocks_clear:
  assumes "bitmap_ok b s" "i \<in> free_blocks b s"
  defines "s' \<equiv> set_map_word b (i div WORD_BITS) (map_word b (i div WORD_BITS) s XOR push_bit (i mod WORD_BITS) 1) s"
  shows "free_blocks b s' = free_blocks b s - {i}" "bitmap_ok b s'"
proof -
  have fb: "free_bit b k s' \<longleftrightarrow> free_bit b k s \<and> k \<noteq> i" for k
  proof (cases "k div WORD_BITS = i div WORD_BITS")
    case True
    then have "k = i \<longleftrightarrow> k mod WORD_BITS = i mod WORD_BITS"
      by (metis div_mult_mod_eq)
    with True assms(2) show ?thesis
      by (auto simp: s'_def free_bit_set free_blocks_def free_bit_def bit_simps WORD_BITS_def)
  qed (auto simp: s'_def free_bit_set)
  then show "free_blocks b s' = free_blocks b s - {i}"
    by (auto simp: free_blocks_def s'_def)
  show "bitmap_ok b s'" using assms(1) fb by (simp add: bitmap_ok_def) (simp add: s'_def)
qed


text \<open>Blocks 36 and 37 of 40 are free: \<open>bitmap_alloc\<close> takes 36, and freeing it gives the old state back.\<close>

definition demo_bitmap :: fst where
  "demo_bitmap = upd_mem (\<lambda>m. m(1004 := 0x30)) demo_fst"

lemma demo_words: "map_word 7 0 demo_bitmap = 0" "map_word 7 1 demo_bitmap = 0x30"
  "bitmaps demo_bitmap = (\<lambda>_. \<lparr>nbits = 40, nwords = 2, bmap = 1000\<rparr>)"
  by (simp_all add: demo_bitmap_def demo_fst_def map_word_def rd32_def mem_def upd_mem_def)

lemma demo_free: "free_blocks 7 demo_bitmap = {36, 37}" "bitmap_ok 7 demo_bitmap"
proof -
  have w: "i div WORD_BITS = 0 \<or> i div WORD_BITS = 1" if "i < 64" for i
    using that by (auto simp: WORD_BITS_def)
  have b: "bit (0x30 :: 32 word) k \<longleftrightarrow> k = 4 \<or> k = 5" if "k < 32" for k
  proof -
    have "(0x30 :: 32 word) = 2 ^ 4 OR 2 ^ 5" by simp
    then show ?thesis using that by (simp only: bit_simps) auto
  qed
  have f: "free_bit 7 i demo_bitmap \<longleftrightarrow> i = 36 \<or> i = 37" if i: "i < 64" for i
  proof -
    have "i mod 32 = i - 32" if "32 \<le> i" using i that by (simp add: le_mod_geq)
    then have "i mod 32 = 4 \<and> 32 \<le> i \<longleftrightarrow> i = 36" "i mod 32 = 5 \<and> 32 \<le> i \<longleftrightarrow> i = 37" by auto
    moreover have "i div 32 = 0 \<longleftrightarrow> i < 32" "i div 32 = 1 \<longleftrightarrow> 32 \<le> i" using i by auto
    ultimately show ?thesis using w [OF i] b [of "i mod 32"] demo_words
      by (auto simp: free_bit_def WORD_BITS_def)
  qed
  show "free_blocks 7 demo_bitmap = {36, 37}" using f by (auto simp: free_blocks_def demo_words)
  show "bitmap_ok 7 demo_bitmap" using f by (auto simp: bitmap_ok_def demo_words WORD_BITS_def)
qed


end
