(* ===== verification/Block_Dev.thy ===== *)
theory Block_Dev
  imports Bitmap "HOL-Library.Signed_Division"
begin

section \<open>Disks, console and their devices (kern/driver, kern/fs/devs)\<close>

text \<open>
  The RAM disk behind the IDE interface (kern/driver/ramdisk.c, ide.c), the block device on top of it
  (dev_disk0.c), and the character devices (dev_stdin.c, dev_stdout.c). The sectors of a RAM disk are memory
  from \<open>iobase\<close> on; where the linker put the images is a parameter of \<open>ide_init\<close>. Its \<open>model\<close> name, \<open>sets\<close> and
  \<open>dev_data\<close>, which nothing reads, are left out.
\<close>

definition SECTSIZE :: nat where "SECTSIZE = 512"
definition SWAP_DEV_NO :: nat where "SWAP_DEV_NO = 1"
definition DISK0_DEV_NO :: nat where "DISK0_DEV_NO = 2"
definition MAX_IDE :: nat where "MAX_IDE = 4"
definition MAX_NSECS :: nat where "MAX_NSECS = 128"
definition MAX_DISK_NSECS :: nat where "MAX_DISK_NSECS = 0x10000000"
definition DISK0_BLKSIZE :: nat where "DISK0_BLKSIZE = PGSIZE"
definition DISK0_BUFSIZE :: nat where "DISK0_BUFSIZE = 4 * DISK0_BLKSIZE"
definition DISK0_BLK_NSECT :: nat where "DISK0_BLK_NSECT = DISK0_BLKSIZE div SECTSIZE"
definition STDIN_BUFSIZE :: int where "STDIN_BUFSIZE = 4096"

definition O_ACCMODE :: "32 word" where "O_ACCMODE = 3"
definition O_RDONLY :: "32 word" where "O_RDONLY = 0"
definition O_WRONLY :: "32 word" where "O_WRONLY = 1"
definition O_RDWR :: "32 word" where "O_RDWR = 2"
definition O_CREAT :: "32 word" where "O_CREAT = 0x00000004"
definition O_EXCL :: "32 word" where "O_EXCL = 0x00000008"
definition O_TRUNC :: "32 word" where "O_TRUNC = 0x00000010"
definition O_APPEND :: "32 word" where "O_APPEND = 0x00000020"

subsection \<open>RAM disk and IDE\<close>

definition ramdisk_read :: "ide_device \<Rightarrow> nat \<Rightarrow> nat \<Rightarrow> nat \<Rightarrow> bytes \<Rightarrow> int \<times> bytes" where
  "ramdisk_read dev secno dst nsecs m =
     (let nsecs = min nsecs (sub64 (ide_size dev) secno)
      in (0, snd (memcpy dst (iobase dev + secno * SECTSIZE) (nsecs * SECTSIZE) m)))"

definition ramdisk_write :: "ide_device \<Rightarrow> nat \<Rightarrow> nat \<Rightarrow> nat \<Rightarrow> bytes \<Rightarrow> int \<times> bytes" where
  "ramdisk_write dev secno src nsecs m =
     (let nsecs = min nsecs (sub64 (ide_size dev) secno)
      in (0, snd (memcpy (iobase dev + secno * SECTSIZE) src (nsecs * SECTSIZE) m)))"

definition upd_ide :: "nat \<Rightarrow> (ide_device \<Rightarrow> ide_device) \<Rightarrow> fst \<Rightarrow> fst" where
  "upd_ide d f s = s\<lparr>ide_devices := (ide_devices s)(d := f (ide_devices s d))\<rparr>"

definition ramdisk_init :: "(nat \<Rightarrow> nat \<times> nat) \<Rightarrow> nat \<Rightarrow> fst \<Rightarrow> fst kresult" where
  "ramdisk_init initrd devno s = do {
     kassert (devno = SWAP_DEV_NO \<or> devno = DISK0_DEV_NO);
     let s = upd_ide devno (\<lambda>_. \<lparr>ide_valid = False, ide_size = 0, iobase = 0\<rparr>) s;
     let (initrd_begin, initrd_end) = initrd devno;
     Some (if initrd_begin \<noteq> initrd_end
           then upd_ide devno (\<lambda>_. \<lparr>ide_valid = True, ide_size = u32 (initrd_end - initrd_begin) div SECTSIZE,
                  iobase = initrd_begin\<rparr>) s
           else s)
   }"

definition VALID_IDE :: "nat \<Rightarrow> fst \<Rightarrow> bool" where
  "VALID_IDE ideno s \<longleftrightarrow> ideno < MAX_IDE \<and> ide_valid (ide_devices s ideno)"

definition ide_init :: "(nat \<Rightarrow> nat \<times> nat) \<Rightarrow> fst \<Rightarrow> fst kresult" where
  "ide_init initrd s = do {
     let s = fold (\<lambda>ideno. upd_ide ideno (\<lambda>d. d\<lparr>ide_valid := False\<rparr>)) [0..<MAX_IDE] s;
     s \<leftarrow> ramdisk_init initrd SWAP_DEV_NO s;
     kassert (VALID_IDE SWAP_DEV_NO s);
     s \<leftarrow> ramdisk_init initrd DISK0_DEV_NO s;
     kassert (VALID_IDE DISK0_DEV_NO s);
     Some s
   }"

definition ide_device_valid :: "nat \<Rightarrow> fst \<Rightarrow> bool" where
  "ide_device_valid ideno s = VALID_IDE ideno s"

definition ide_device_size :: "nat \<Rightarrow> fst \<Rightarrow> nat" where
  "ide_device_size ideno s = (if ide_device_valid ideno s then ide_size (ide_devices s ideno) else 0)"

definition ide_read_secs :: "nat \<Rightarrow> nat \<Rightarrow> nat \<Rightarrow> nat \<Rightarrow> fst \<Rightarrow> (int \<times> fst) kresult" where
  "ide_read_secs ideno secno dst nsecs s = do {
     kassert (nsecs \<le> MAX_NSECS \<and> VALID_IDE ideno s);
     kassert (secno < MAX_DISK_NSECS \<and> secno + nsecs \<le> MAX_DISK_NSECS);
     let (r, m) = ramdisk_read (ide_devices s ideno) secno dst nsecs (mem s);
     Some (r, upd_mem (\<lambda>_. m) s)
   }"

definition ide_write_secs :: "nat \<Rightarrow> nat \<Rightarrow> nat \<Rightarrow> nat \<Rightarrow> fst \<Rightarrow> (int \<times> fst) kresult" where
  "ide_write_secs ideno secno src nsecs s = do {
     kassert (nsecs \<le> MAX_NSECS \<and> VALID_IDE ideno s);
     kassert (secno < MAX_DISK_NSECS \<and> secno + nsecs \<le> MAX_DISK_NSECS);
     let (r, m) = ramdisk_write (ide_devices s ideno) secno src nsecs (mem s);
     Some (r, upd_mem (\<lambda>_. m) s)
   }"

subsection \<open>The block device disk0\<close>

definition disk0_read_blks_nolock :: "nat \<Rightarrow> nat \<Rightarrow> fst \<Rightarrow> fst kresult" where
  "disk0_read_blks_nolock blkno nblks s = do {
     (r, s) \<leftarrow> ide_read_secs DISK0_DEV_NO (u32 (blkno * DISK0_BLK_NSECT)) (disk0_buffer s)
       (u32 (nblks * DISK0_BLK_NSECT)) s;
     kassert (r = 0);
     Some s
   }"

definition disk0_write_blks_nolock :: "nat \<Rightarrow> nat \<Rightarrow> fst \<Rightarrow> fst kresult" where
  "disk0_write_blks_nolock blkno nblks s = do {
     (r, s) \<leftarrow> ide_write_secs DISK0_DEV_NO (u32 (blkno * DISK0_BLK_NSECT)) (disk0_buffer s)
       (u32 (nblks * DISK0_BLK_NSECT)) s;
     kassert (r = 0);
     Some s
   }"

text \<open>One turn of the loop of \<open>disk0_io\<close>: the number of bytes moved, and the buffer and the state after it.\<close>

definition disk0_turn :: "bool \<Rightarrow> nat \<Rightarrow> nat \<Rightarrow> iobuf \<Rightarrow> fst \<Rightarrow> (nat \<times> nat \<times> iobuf \<times> fst) kresult" where
  "disk0_turn write' resid blkno iob s =
     (if write'
      then do {
        (_, copied, iob, s) \<leftarrow> fs_move iob (disk0_buffer s) DISK0_BUFSIZE False s;
        kassert (copied \<noteq> 0 \<and> copied \<le> resid \<and> copied mod DISK0_BLKSIZE = 0);
        let nblks = u32 (copied div DISK0_BLKSIZE);
        s \<leftarrow> disk0_write_blks_nolock blkno nblks s;
        Some (copied, nblks, iob, s)
      }
      else do {
        let alen = (if DISK0_BUFSIZE > resid then resid else DISK0_BUFSIZE);
        let nblks = u32 (alen div DISK0_BLKSIZE);
        s \<leftarrow> disk0_read_blks_nolock blkno nblks s;
        (_, copied, iob, s) \<leftarrow> fs_move iob (disk0_buffer s) alen True s;
        kassert (copied = alen \<and> copied mod DISK0_BLKSIZE = 0);
        Some (copied, nblks, iob, s)
      })"

partial_function (option) disk0_loop :: "bool \<Rightarrow> nat \<Rightarrow> nat \<Rightarrow> iobuf \<Rightarrow> fst \<Rightarrow> (iobuf \<times> fst) option" where
  "disk0_loop write' resid blkno iob s =
     (if resid \<noteq> 0
      then do {
        (copied, nblks, iob, s) \<leftarrow> disk0_turn write' resid blkno iob s;
        disk0_loop write' (resid - copied) (u32 (blkno + nblks)) iob s
      }
      else Some (iob, s))"

definition disk0_io :: "device \<Rightarrow> iobuf \<Rightarrow> bool \<Rightarrow> fst \<Rightarrow> (int \<times> iobuf \<times> fst) kresult" where
  "disk0_io dev iob write' s =
     (let blkno = nat ((io_offset iob sdiv int DISK0_BLKSIZE) mod 2 ^ 32);
          nblks = u32 (io_resid iob div DISK0_BLKSIZE)
      in if io_offset iob smod int DISK0_BLKSIZE \<noteq> 0 \<or> io_resid iob mod DISK0_BLKSIZE \<noteq> 0 then Some (- E_INVAL, iob, s)
         else if u32 (blkno + nblks) > d_blocks dev then Some (- E_INVAL, iob, s)
         else if nblks = 0 then Some (0, iob, s)
         else do {
           s \<leftarrow> fs_down disk0_sem s;
           (iob, s) \<leftarrow> disk0_loop write' (io_resid iob) blkno iob s;
           s \<leftarrow> fs_up disk0_sem s;
           Some (0, iob, s)
         })"

text \<open>\<open>disk0_device_init\<close> of the \<open>struct device\<close> of the inode at \<open>node\<close>.\<close>

definition disk0_device_init :: "nat \<Rightarrow> fst \<Rightarrow> fst kresult" where
  "disk0_device_init n s = do {
     kassert (ide_device_valid DISK0_DEV_NO s);
     let s = upd_inode n (\<lambda>i. i\<lparr>in_info := Device_info \<lparr>d_blocks = ide_device_size DISK0_DEV_NO s div DISK0_BLK_NSECT,
       d_blocksize = DISK0_BLKSIZE, d_ops = Disk0\<rparr>\<rparr>) s;
     let s = fs_sem_init disk0_sem 1 s;
     (b, s) \<leftarrow> fs_kmalloc DISK0_BUFSIZE s;
     b \<leftarrow> b;
     Some (s\<lparr>disk0_buffer := b\<rparr>)
   }"

subsection \<open>The console\<close>

definition putc_bytes :: "8 word \<Rightarrow> 8 word list" where
  "putc_bytes c = (if c \<noteq> 8 then [c] else [8, 32, 8])"

definition cputchar :: "8 word \<Rightarrow> fst \<Rightarrow> fst" where
  "cputchar c s = s\<lparr>console := console s @ putc_bytes c\<rparr>"

fun stdout_loop :: "nat \<Rightarrow> nat \<Rightarrow> fst \<Rightarrow> fst" where
  "stdout_loop data 0 s = s"
| "stdout_loop data (Suc n) s = stdout_loop (data + 1) n (cputchar (mem s data) s)"

definition stdout_open :: "32 word \<Rightarrow> int" where
  "stdout_open open_flags = (if open_flags \<noteq> O_WRONLY then - E_INVAL else 0)"

definition stdout_io :: "iobuf \<Rightarrow> bool \<Rightarrow> fst \<Rightarrow> int \<times> iobuf \<times> fst" where
  "stdout_io iob write' s =
     (if write' then (0, iob\<lparr>io_resid := 0\<rparr>, stdout_loop (io_base iob) (io_resid iob) s) else (- E_INVAL, iob, s))"

definition stdout_device_init :: "nat \<Rightarrow> fst \<Rightarrow> fst" where
  "stdout_device_init n s = upd_inode n (\<lambda>i. i\<lparr>in_info := Device_info \<lparr>d_blocks = 0, d_blocksize = 1, d_ops = Stdout\<rparr>\<rparr>) s"

text \<open>
  \<open>stdin_take\<close> is the loop of \<open>dev_stdin_read\<close> as long as characters are available. \<open>dev_stdin_read\<close> then either
  has all of them (\<open>Inl\<close>) or blocks (\<open>Inr\<close>, with the count and the pointer so far) and goes on with
  \<open>dev_stdin_read_resume\<close> when it is woken; \<open>w\<close> is its \<open>wait_t\<close>.
\<close>

fun stdin_take :: "nat \<Rightarrow> nat \<Rightarrow> nat \<Rightarrow> fst \<Rightarrow> nat \<times> nat \<times> fst" where
  "stdin_take buf' ret 0 s = (buf', ret, s)"
| "stdin_take buf' ret (Suc n) s =
     (if p_rpos s < p_wpos s
      then stdin_take (buf' + 1) (ret + 1) n
        ((upd_mem (\<lambda>m. m(buf' := stdin_buffer s (nat (p_rpos s smod STDIN_BUFSIZE)))) s)\<lparr>p_rpos := p_rpos s + 1\<rparr>)
      else (buf', ret, s))"

definition stdin_wait :: "sched_class \<Rightarrow> nat \<Rightarrow> fst \<Rightarrow> fst kresult" where
  "stdin_wait cls w = on_sys' (on_ks (\<lambda>k. do { k \<leftarrow> wait_current_set stdin_wait_queue w WT_KBD k; schedule cls k }))"

definition dev_stdin_read_from ::
    "sched_class \<Rightarrow> nat \<Rightarrow> nat \<Rightarrow> nat \<Rightarrow> nat \<Rightarrow> fst \<Rightarrow> (nat \<times> fst + nat \<times> nat \<times> fst) kresult" where
  "dev_stdin_read_from cls w buf' len ret s =
     (let (buf', ret, s) = stdin_take buf' ret (len - ret) s
      in if ret < len then do { s \<leftarrow> stdin_wait cls w s; Some (Inr (buf', ret, s)) } else Some (Inl (ret, s)))"

definition dev_stdin_read ::
    "sched_class \<Rightarrow> nat \<Rightarrow> nat \<Rightarrow> nat \<Rightarrow> fst \<Rightarrow> (nat \<times> fst + nat \<times> nat \<times> fst) kresult" where
  "dev_stdin_read cls w buf' len s = dev_stdin_read_from cls w buf' len 0 s"

definition dev_stdin_read_resume ::
    "sched_class \<Rightarrow> nat \<Rightarrow> nat \<Rightarrow> nat \<Rightarrow> nat \<Rightarrow> fst \<Rightarrow> (nat \<times> fst + nat \<times> nat \<times> fst) kresult" where
  "dev_stdin_read_resume cls w buf' len ret s = do {
     s \<leftarrow> on_sys' (on_ks (wait_current_del stdin_wait_queue w)) s;
     (if wakeup_flags (waits (ks (sy s)) w) = WT_KBD then dev_stdin_read_from cls w buf' len ret s
      else Some (Inl (ret, s)))
   }"

definition dev_stdin_write :: "sched_class \<Rightarrow> 8 word \<Rightarrow> fst \<Rightarrow> fst kresult" where
  "dev_stdin_write cls c s =
     (if c \<noteq> 0
      then let s = s\<lparr>stdin_buffer := (stdin_buffer s)(nat (p_wpos s smod STDIN_BUFSIZE) := c)\<rparr>;
               s = (if p_wpos s - p_rpos s < STDIN_BUFSIZE then s\<lparr>p_wpos := p_wpos s + 1\<rparr> else s)
           in if \<not> wait_queue_empty stdin_wait_queue (ks (sy s))
              then on_sys' (on_ks (wakeup_queue cls stdin_wait_queue WT_KBD True)) s
              else Some s
      else Some s)"

definition stdin_open :: "32 word \<Rightarrow> int" where
  "stdin_open open_flags = (if open_flags \<noteq> O_RDONLY then - E_INVAL else 0)"

text \<open>A read that would have to wait for a key is outside the model of one process.\<close>

definition stdin_io :: "iobuf \<Rightarrow> bool \<Rightarrow> fst \<Rightarrow> (int \<times> iobuf \<times> fst) kresult" where
  "stdin_io iob write' s =
     (if \<not> write'
      then let (_, ret, s) = stdin_take (io_base iob) 0 (io_resid iob) s
           in if ret < io_resid iob then None
              else Some (int ret, if ret > 0 then iob\<lparr>io_resid := io_resid iob - ret\<rparr> else iob, s)
      else Some (- E_INVAL, iob, s))"

definition stdin_device_init :: "nat \<Rightarrow> fst \<Rightarrow> fst" where
  "stdin_device_init n s =
     (let s = upd_inode n (\<lambda>i. i\<lparr>in_info := Device_info \<lparr>d_blocks = 0, d_blocksize = 1, d_ops = Stdin\<rparr>\<rparr>) s;
          s = s\<lparr>p_rpos := 0, p_wpos := 0\<rparr>
      in s\<lparr>sy := (sy s)\<lparr>ks := wait_queue_init stdin_wait_queue (ks (sy s))\<rparr>\<rparr>)"

subsection \<open>Dispatch (dev.h)\<close>

definition dop_open :: "device \<Rightarrow> 32 word \<Rightarrow> int" where
  "dop_open dev open_flags = (case d_ops dev of Stdin \<Rightarrow> stdin_open open_flags | Stdout \<Rightarrow> stdout_open open_flags | Disk0 \<Rightarrow> 0)"

definition dop_close :: "device \<Rightarrow> int" where "dop_close dev = 0"

definition dop_io :: "device \<Rightarrow> iobuf \<Rightarrow> bool \<Rightarrow> fst \<Rightarrow> (int \<times> iobuf \<times> fst) kresult" where
  "dop_io dev iob write' s = (case d_ops dev of
     Stdin \<Rightarrow> stdin_io iob write' s
   | Stdout \<Rightarrow> Some (stdout_io iob write' s)
   | Disk0 \<Rightarrow> disk0_io dev iob write' s)"

definition dop_ioctl :: "device \<Rightarrow> int" where
  "dop_ioctl dev = (case d_ops dev of Disk0 \<Rightarrow> - E_UNIMP | _ \<Rightarrow> - E_INVAL)"

end
