(* ===== verification/Sfs_Io.thy ===== *)
theory Sfs_Io
  imports Block_Dev
begin

unbundle bit_operations_syntax

section \<open>Block input and output of the Simple File System (kern/fs/sfs/sfs_io.c, sfs_lock.c, sfs.h)\<close>

text \<open>
  \<open>sfs\<close> is the address of a \<open>struct fs\<close> and of the \<open>sfs_fs\<close> in it; its super block is kept in memory there.
  A read into, or a write from, a local \<open>uint32_t\<close> has the value as result or argument.
\<close>

definition SFS_MAGIC :: "32 word" where "SFS_MAGIC = 0x2f8dbe2a"
definition SFS_BLKSIZE :: nat where "SFS_BLKSIZE = PGSIZE"
definition SFS_NDIRECT :: nat where "SFS_NDIRECT = 12"
definition SFS_MAX_INFO_LEN :: nat where "SFS_MAX_INFO_LEN = 31"
definition SFS_MAX_FNAME_LEN :: nat where "SFS_MAX_FNAME_LEN = 255"
definition SFS_MAX_FILE_SIZE :: nat where "SFS_MAX_FILE_SIZE = 1024 * 1024 * 128"
definition SFS_BLKN_SUPER :: "32 word" where "SFS_BLKN_SUPER = 0"
definition SFS_BLKN_ROOT :: "32 word" where "SFS_BLKN_ROOT = 1"
definition SFS_BLKN_FREEMAP :: "32 word" where "SFS_BLKN_FREEMAP = 2"
definition SFS_BLKBITS :: nat where "SFS_BLKBITS = SFS_BLKSIZE * 8"
definition SFS_BLK_NENTRY :: nat where "SFS_BLK_NENTRY = SFS_BLKSIZE div 4"
definition SFS_TYPE_FILE :: "16 word" where "SFS_TYPE_FILE = 1"
definition SFS_TYPE_DIR :: "16 word" where "SFS_TYPE_DIR = 2"
definition SFS_TYPE_LINK :: "16 word" where "SFS_TYPE_LINK = 3"

text \<open>The fields of \<open>struct sfs_super\<close>.\<close>

definition super_magic :: "nat \<Rightarrow> fst \<Rightarrow> 32 word" where "super_magic sfs s = rd32 sfs (mem s)"
definition super_blocks :: "nat \<Rightarrow> fst \<Rightarrow> 32 word" where "super_blocks sfs s = rd32 (sfs + 4) (mem s)"
definition super_unused :: "nat \<Rightarrow> fst \<Rightarrow> 32 word" where "super_unused sfs s = rd32 (sfs + 8) (mem s)"
definition set_super_unused :: "nat \<Rightarrow> 32 word \<Rightarrow> fst \<Rightarrow> fst" where "set_super_unused sfs v = upd_mem (wr32 (sfs + 8) v)"

definition sfs_freemap_bits :: "nat \<Rightarrow> fst \<Rightarrow> nat" where
  "sfs_freemap_bits sfs s = u32 (ROUNDUP (unat (super_blocks sfs s)) SFS_BLKBITS)"

definition sfs_freemap_blocks :: "nat \<Rightarrow> fst \<Rightarrow> nat" where
  "sfs_freemap_blocks sfs s = u32 (ROUNDUP_DIV (unat (super_blocks sfs s)) SFS_BLKBITS)"

subsection \<open>Locks\<close>

definition lock_sfs_fs :: "nat \<Rightarrow> fst \<Rightarrow> fst kresult" where "lock_sfs_fs sfs = fs_down (fs_sem sfs)"
definition lock_sfs_io :: "nat \<Rightarrow> fst \<Rightarrow> fst kresult" where "lock_sfs_io sfs = fs_down (io_sem sfs)"
definition unlock_sfs_fs :: "nat \<Rightarrow> fst \<Rightarrow> fst kresult" where "unlock_sfs_fs sfs = fs_up (fs_sem sfs)"
definition unlock_sfs_io :: "nat \<Rightarrow> fst \<Rightarrow> fst kresult" where "unlock_sfs_io sfs = fs_up (io_sem sfs)"

subsection \<open>Blocks\<close>

fun device_info :: "in_info \<Rightarrow> device option" where
  "device_info (Device_info d) = Some d"
| "device_info (Sfs_inode_info i) = None"

definition sfs_rwblock_nolock :: "nat \<Rightarrow> nat \<Rightarrow> 32 word \<Rightarrow> bool \<Rightarrow> bool \<Rightarrow> fst \<Rightarrow> (int \<times> fst) kresult" where
  "sfs_rwblock_nolock sfs buf' blkno write' check s = do {
     kassert ((blkno \<noteq> 0 \<or> \<not> check) \<and> blkno < super_blocks sfs s);
     dev \<leftarrow> device_info (in_info (inodes s (sfs_dev (sfss s sfs))));
     (r, _, s) \<leftarrow> dop_io dev (iobuf_init buf' SFS_BLKSIZE (uint (blkno * word_of_nat SFS_BLKSIZE))) write' s;
     Some (r, s)
   }"

fun sfs_rwblock_loop :: "nat \<Rightarrow> nat \<Rightarrow> 32 word \<Rightarrow> nat \<Rightarrow> bool \<Rightarrow> fst \<Rightarrow> (int \<times> fst) kresult" where
  "sfs_rwblock_loop sfs buf' blkno 0 write' s = Some (0, s)"
| "sfs_rwblock_loop sfs buf' blkno (Suc nblks) write' s = do {
     (r, s) \<leftarrow> sfs_rwblock_nolock sfs buf' blkno write' True s;
     (if r \<noteq> 0 then Some (r, s) else sfs_rwblock_loop sfs (buf' + SFS_BLKSIZE) (blkno + 1) nblks write' s)
   }"

definition sfs_rwblock :: "nat \<Rightarrow> nat \<Rightarrow> 32 word \<Rightarrow> nat \<Rightarrow> bool \<Rightarrow> fst \<Rightarrow> (int \<times> fst) kresult" where
  "sfs_rwblock sfs buf' blkno nblks write' s = do {
     s \<leftarrow> lock_sfs_io sfs s;
     (r, s) \<leftarrow> sfs_rwblock_loop sfs buf' blkno nblks write' s;
     s \<leftarrow> unlock_sfs_io sfs s;
     Some (r, s)
   }"

definition sfs_rblock :: "nat \<Rightarrow> nat \<Rightarrow> 32 word \<Rightarrow> nat \<Rightarrow> fst \<Rightarrow> (int \<times> fst) kresult" where
  "sfs_rblock sfs buf' blkno nblks s = sfs_rwblock sfs buf' blkno nblks False s"

definition sfs_wblock :: "nat \<Rightarrow> nat \<Rightarrow> 32 word \<Rightarrow> nat \<Rightarrow> fst \<Rightarrow> (int \<times> fst) kresult" where
  "sfs_wblock sfs buf' blkno nblks s = sfs_rwblock sfs buf' blkno nblks True s"

subsection \<open>Parts of a block\<close>

text \<open>
  \<open>sfs_rbuf\<close> and \<open>sfs_wbuf\<close> with the copy between the buffer of the file system, at the given address, and the
  caller as a parameter.
\<close>

definition sfs_rbuf_with :: "(nat \<Rightarrow> fst \<Rightarrow> fst) \<Rightarrow> nat \<Rightarrow> nat \<Rightarrow> 32 word \<Rightarrow> nat \<Rightarrow> fst \<Rightarrow> (int \<times> fst) kresult" where
  "sfs_rbuf_with copy sfs len blkno offset s = do {
     kassert (offset < SFS_BLKSIZE \<and> offset + len \<le> SFS_BLKSIZE);
     s \<leftarrow> lock_sfs_io sfs s;
     (r, s) \<leftarrow> sfs_rwblock_nolock sfs (sfs_buffer (sfss s sfs)) blkno False True s;
     let s = (if r = 0 then copy (sfs_buffer (sfss s sfs) + offset) s else s);
     s \<leftarrow> unlock_sfs_io sfs s;
     Some (r, s)
   }"

definition sfs_wbuf_with :: "(nat \<Rightarrow> fst \<Rightarrow> fst) \<Rightarrow> nat \<Rightarrow> nat \<Rightarrow> 32 word \<Rightarrow> nat \<Rightarrow> fst \<Rightarrow> (int \<times> fst) kresult" where
  "sfs_wbuf_with copy sfs len blkno offset s = do {
     kassert (offset < SFS_BLKSIZE \<and> offset + len \<le> SFS_BLKSIZE);
     s \<leftarrow> lock_sfs_io sfs s;
     (r, s) \<leftarrow> sfs_rwblock_nolock sfs (sfs_buffer (sfss s sfs)) blkno False True s;
     (r, s) \<leftarrow> (if r = 0
                then let s = copy (sfs_buffer (sfss s sfs) + offset) s
                     in sfs_rwblock_nolock sfs (sfs_buffer (sfss s sfs)) blkno True True s
                else Some (r, s));
     s \<leftarrow> unlock_sfs_io sfs s;
     Some (r, s)
   }"

definition sfs_rbuf :: "nat \<Rightarrow> nat \<Rightarrow> nat \<Rightarrow> 32 word \<Rightarrow> nat \<Rightarrow> fst \<Rightarrow> (int \<times> fst) kresult" where
  "sfs_rbuf sfs buf' len = sfs_rbuf_with (\<lambda>a. upd_mem (snd \<circ> memcpy buf' a len)) sfs len"

definition sfs_wbuf :: "nat \<Rightarrow> nat \<Rightarrow> nat \<Rightarrow> 32 word \<Rightarrow> nat \<Rightarrow> fst \<Rightarrow> (int \<times> fst) kresult" where
  "sfs_wbuf sfs buf' len = sfs_wbuf_with (\<lambda>a. upd_mem (snd \<circ> memcpy a buf' len)) sfs len"

definition sfs_rbuf_u32 :: "nat \<Rightarrow> 32 word \<Rightarrow> nat \<Rightarrow> fst \<Rightarrow> (int \<times> 32 word \<times> fst) kresult" where
  "sfs_rbuf_u32 sfs blkno offset s = do {
     (r, s) \<leftarrow> sfs_rbuf_with (\<lambda>_ s. s) sfs 4 blkno offset s;
     Some (r, rd32 (sfs_buffer (sfss s sfs) + offset) (mem s), s)
   }"

definition sfs_wbuf_u32 :: "nat \<Rightarrow> 32 word \<Rightarrow> 32 word \<Rightarrow> nat \<Rightarrow> fst \<Rightarrow> (int \<times> fst) kresult" where
  "sfs_wbuf_u32 sfs v = sfs_wbuf_with (\<lambda>a. upd_mem (wr32 a v)) sfs 4"

definition sfs_sync_super :: "nat \<Rightarrow> fst \<Rightarrow> (int \<times> fst) kresult" where
  "sfs_sync_super sfs s = do {
     s \<leftarrow> lock_sfs_io sfs s;
     let buf' = sfs_buffer (sfss s sfs);
     let s = upd_mem (snd \<circ> memset buf' 0 SFS_BLKSIZE) s;
     let s = upd_mem (snd \<circ> memcpy buf' sfs SIZEOF_SUPER) s;
     (r, s) \<leftarrow> sfs_rwblock_nolock sfs buf' SFS_BLKN_SUPER True False s;
     s \<leftarrow> unlock_sfs_io sfs s;
     Some (r, s)
   }"

definition sfs_sync_freemap :: "nat \<Rightarrow> fst \<Rightarrow> (int \<times> fst) kresult" where
  "sfs_sync_freemap sfs s =
     sfs_wblock sfs (prod.fst (bitmap_getdata (freemap (sfss s sfs)) s)) SFS_BLKN_FREEMAP (sfs_freemap_blocks sfs s) s"

text \<open>\<open>sfs_clear_block\<close> returns the uninitialised \<open>ret\<close> when \<open>nblks\<close> is 0; no caller does that.\<close>

fun clear_block_loop :: "nat \<Rightarrow> 32 word \<Rightarrow> nat \<Rightarrow> int \<Rightarrow> fst \<Rightarrow> (int \<times> fst) kresult" where
  "clear_block_loop sfs blkno 0 ret s = Some (ret, s)"
| "clear_block_loop sfs blkno (Suc nblks) ret s = do {
     (r, s) \<leftarrow> sfs_rwblock_nolock sfs (sfs_buffer (sfss s sfs)) blkno True True s;
     (if r \<noteq> 0 then Some (r, s) else clear_block_loop sfs (blkno + 1) nblks r s)
   }"

definition sfs_clear_block :: "nat \<Rightarrow> 32 word \<Rightarrow> nat \<Rightarrow> fst \<Rightarrow> (int \<times> fst) kresult" where
  "sfs_clear_block sfs blkno nblks s = do {
     kassert (nblks \<noteq> 0);
     s \<leftarrow> lock_sfs_io sfs s;
     let s = upd_mem (snd \<circ> memset (sfs_buffer (sfss s sfs)) 0 SFS_BLKSIZE) s;
     (r, s) \<leftarrow> clear_block_loop sfs blkno nblks 0 s;
     s \<leftarrow> unlock_sfs_io sfs s;
     Some (r, s)
   }"

end
