(* ===== verification/Sfs_Inode.thy ===== *)
theory Sfs_Inode
  imports Sfs_Io
begin

unbundle bit_operations_syntax

section \<open>Inodes and the blocks of a file (kern/fs/vfs/inode.c, kern/fs/sfs/sfs_inode.c)\<close>

text \<open>
  The counters of an inode, and of sfs_inode.c what works below the VFS dispatch: the table of loaded inodes, the
  map from the blocks of a file to blocks of the disk, reading and writing, truncation and directory slots. A
  \<open>struct sfs_inode *\<close> is the address of the inode it is part of.
\<close>

subsection \<open>Inodes\<close>

definition MAX_INODE_COUNT :: int where "MAX_INODE_COUNT = 0x10000"

datatype in_type = inode_type_device_info | inode_type_sfs_inode_info

fun in_type_of :: "in_info \<Rightarrow> in_type" where
  "in_type_of (Device_info d) = inode_type_device_info"
| "in_type_of (Sfs_inode_info i) = inode_type_sfs_inode_info"

text \<open>The contents of a new inode are set by its creator before they are read; they are zero until then.\<close>

fun blank_info :: "in_type \<Rightarrow> in_info" where
  "blank_info inode_type_device_info = Device_info \<lparr>d_blocks = 0, d_blocksize = 0, d_ops = Stdin\<rparr>"
| "blank_info inode_type_sfs_inode_info = Sfs_inode_info \<lparr>sin_din = 0, sin_ino = 0, dirty = False, reclaim_count = 0\<rparr>"

definition alloc_inode :: "in_type \<Rightarrow> fst \<Rightarrow> (nat option \<times> fst) kresult" where
  "alloc_inode ty s = do {
     (n, s) \<leftarrow> fs_kmalloc SIZEOF_INODE s;
     (case n of
        None \<Rightarrow> Some (None, s)
      | Some n \<Rightarrow> Some (Some n, upd_inode n (\<lambda>i. i\<lparr>in_info := blank_info ty\<rparr>) s))
   }"

definition inode_ref_inc :: "nat \<Rightarrow> fst \<Rightarrow> int \<times> fst" where
  "inode_ref_inc n s = (let s = upd_inode n (\<lambda>i. i\<lparr>ref_count := ref_count i + 1\<rparr>) s in (ref_count (inodes s n), s))"

definition inode_open_inc :: "nat \<Rightarrow> fst \<Rightarrow> int \<times> fst" where
  "inode_open_inc n s = (let s = upd_inode n (\<lambda>i. i\<lparr>open_count := open_count i + 1\<rparr>) s in (open_count (inodes s n), s))"

definition inode_init :: "nat \<Rightarrow> inode_ops \<Rightarrow> nat option \<Rightarrow> fst \<Rightarrow> fst" where
  "inode_init n ops fs s =
     (let s = upd_inode n (\<lambda>i. i\<lparr>ref_count := 0, open_count := 0, in_ops := ops, in_fs := fs\<rparr>) s
      in snd (inode_ref_inc n s))"

definition inode_kill :: "nat \<Rightarrow> fst \<Rightarrow> fst kresult" where
  "inode_kill n s = do {
     kassert (ref_count (inodes s n) = 0);
     kassert (open_count (inodes s n) = 0);
     fs_kfree (Some n) s
   }"

text \<open>The magic number of the operations is right in each of the three tables of the code.\<close>

definition inode_check :: "nat \<Rightarrow> fst \<Rightarrow> unit kresult" where
  "inode_check n s = (let i = inodes s n in do {
     kassert (ref_count i \<ge> open_count i \<and> open_count i \<ge> 0);
     kassert (ref_count i < MAX_INODE_COUNT \<and> open_count i < MAX_INODE_COUNT)
   })"

subsection \<open>The inodes of the file system\<close>

fun the_sin :: "in_info \<Rightarrow> sfs_inode" where "the_sin (Sfs_inode_info i) = i"

definition sin :: "nat \<Rightarrow> fst \<Rightarrow> sfs_inode" where "sin n s = the_sin (in_info (inodes s n))"

text \<open>A write through a \<open>struct sfs_inode *\<close>; the code has asserted before that the inode is of that type.\<close>

fun map_sin :: "(sfs_inode \<Rightarrow> sfs_inode) \<Rightarrow> in_info \<Rightarrow> in_info" where
  "map_sin f (Sfs_inode_info i) = Sfs_inode_info (f i)"
| "map_sin f (Device_info d) = Device_info d"

definition upd_sin :: "nat \<Rightarrow> (sfs_inode \<Rightarrow> sfs_inode) \<Rightarrow> fst \<Rightarrow> fst" where
  "upd_sin n f = upd_inode n (\<lambda>i. i\<lparr>in_info := map_sin f (in_info i)\<rparr>)"

text \<open>The assertion of \<open>vop_info(node, sfs_inode)\<close>, and that of \<open>fsop_info(vop_fs(node), sfs)\<close>.\<close>

definition sfs_info :: "nat \<Rightarrow> fst \<Rightarrow> unit kresult" where
  "sfs_info n s = kassert (in_type_of (in_info (inodes s n)) = inode_type_sfs_inode_info)"

definition node_fs :: "nat \<Rightarrow> fst \<Rightarrow> nat kresult" where "node_fs n s = in_fs (inodes s n)"

text \<open>The fields of \<open>struct sfs_disk_inode\<close> at address \<open>d\<close>.\<close>

definition din_size :: "nat \<Rightarrow> fst \<Rightarrow> 32 word" where "din_size d s = rd32 d (mem s)"
definition din_type :: "nat \<Rightarrow> fst \<Rightarrow> 16 word" where "din_type d s = rd16 (d + 4) (mem s)"
definition din_nlinks :: "nat \<Rightarrow> fst \<Rightarrow> 16 word" where "din_nlinks d s = rd16 (d + 6) (mem s)"
definition din_blocks :: "nat \<Rightarrow> fst \<Rightarrow> 32 word" where "din_blocks d s = rd32 (d + 8) (mem s)"
definition din_direct :: "nat \<Rightarrow> nat \<Rightarrow> fst \<Rightarrow> 32 word" where "din_direct d i s = rd32 (d + 12 + 4 * i) (mem s)"
definition din_indirect :: "nat \<Rightarrow> fst \<Rightarrow> 32 word" where "din_indirect d s = rd32 (d + 60) (mem s)"

definition set_din_size :: "nat \<Rightarrow> 32 word \<Rightarrow> fst \<Rightarrow> fst" where "set_din_size d v = upd_mem (wr32 d v)"
definition set_din_blocks :: "nat \<Rightarrow> 32 word \<Rightarrow> fst \<Rightarrow> fst" where "set_din_blocks d v = upd_mem (wr32 (d + 8) v)"
definition set_din_direct :: "nat \<Rightarrow> nat \<Rightarrow> 32 word \<Rightarrow> fst \<Rightarrow> fst" where
  "set_din_direct d i v = upd_mem (wr32 (d + 12 + 4 * i) v)"
definition set_din_indirect :: "nat \<Rightarrow> 32 word \<Rightarrow> fst \<Rightarrow> fst" where "set_din_indirect d v = upd_mem (wr32 (d + 60) v)"

definition mark_dirty :: "nat \<Rightarrow> fst \<Rightarrow> fst" where "mark_dirty n = upd_sin n (\<lambda>i. i\<lparr>dirty := True\<rparr>)"

definition lock_sin :: "nat \<Rightarrow> fst \<Rightarrow> fst kresult" where "lock_sin n = fs_down (sin_sem n)"
definition unlock_sin :: "nat \<Rightarrow> fst \<Rightarrow> fst kresult" where "unlock_sin n = fs_up (sin_sem n)"

definition sfs_get_ops :: "16 word \<Rightarrow> inode_ops kresult" where
  "sfs_get_ops type =
     (if type = SFS_TYPE_DIR then Some Sfs_node_dirops else if type = SFS_TYPE_FILE then Some Sfs_node_fileops else kpanic)"

definition sfs_hash_list :: "nat \<Rightarrow> 32 word \<Rightarrow> fst \<Rightarrow> fs_le" where
  "sfs_hash_list sfs inum s = Sfs_hash (hash_list (sfss s sfs)) (unat (hash32 inum 10))"

definition sfs_set_links :: "nat \<Rightarrow> nat \<Rightarrow> fst \<Rightarrow> fst" where
  "sfs_set_links sfs n s =
     (let s = upd_flinks (list_add (Inode_list sfs) (Inode_link n)) s
      in upd_flinks (list_add (sfs_hash_list sfs (sin_ino (sin n s)) s) (Sfs_hash_link n)) s)"

definition sfs_remove_links :: "nat \<Rightarrow> fst \<Rightarrow> fst" where
  "sfs_remove_links n s = upd_flinks (list_del (Sfs_hash_link n)) (upd_flinks (list_del (Inode_link n)) s)"

definition sfs_block_inuse :: "nat \<Rightarrow> 32 word \<Rightarrow> fst \<Rightarrow> bool kresult" where
  "sfs_block_inuse sfs inum s =
     (if inum \<noteq> 0 \<and> inum < super_blocks sfs s then do { b \<leftarrow> bitmap_test (freemap (sfss s sfs)) inum s; Some (\<not> b) }
      else kpanic)"

definition assert_inuse :: "nat \<Rightarrow> 32 word \<Rightarrow> fst \<Rightarrow> unit kresult" where
  "assert_inuse sfs inum s = do { b \<leftarrow> sfs_block_inuse sfs inum s; kassert b }"

text \<open>The result and the value of \<open>*ino_store\<close>.\<close>

definition sfs_block_alloc :: "nat \<Rightarrow> fst \<Rightarrow> (int \<times> 32 word option \<times> fst) kresult" where
  "sfs_block_alloc sfs s = do {
     (r, i, s) \<leftarrow> bitmap_alloc (freemap (sfss s sfs)) s;
     (if r \<noteq> 0 then Some (r, i, s)
      else do {
        i \<leftarrow> i;
        kassert (super_unused sfs s > 0);
        let s = set_super_unused sfs (super_unused sfs s - 1) s;
        let s = upd_sfs sfs (\<lambda>d. d\<lparr>super_dirty := True\<rparr>) s;
        assert_inuse sfs i s;
        (r, s) \<leftarrow> sfs_clear_block sfs i 1 s;
        Some (r, Some i, s)
      })
   }"

definition sfs_block_free :: "nat \<Rightarrow> 32 word \<Rightarrow> fst \<Rightarrow> fst kresult" where
  "sfs_block_free sfs inum s = do {
     assert_inuse sfs inum s;
     s \<leftarrow> bitmap_free (freemap (sfss s sfs)) inum s;
     let s = set_super_unused sfs (super_unused sfs s + 1) s;
     Some (upd_sfs sfs (\<lambda>d. d\<lparr>super_dirty := True\<rparr>) s)
   }"

definition sfs_create_inode :: "nat \<Rightarrow> nat \<Rightarrow> 32 word \<Rightarrow> fst \<Rightarrow> (int \<times> nat option \<times> fst) kresult" where
  "sfs_create_inode sfs d inum s = do {
     (n, s) \<leftarrow> alloc_inode inode_type_sfs_inode_info s;
     (case n of
        None \<Rightarrow> Some (- E_NO_MEM, None, s)
      | Some n \<Rightarrow> do {
          ops \<leftarrow> sfs_get_ops (din_type d s);
          let s = inode_init n ops (Some sfs) s;
          let s = upd_sin n (\<lambda>_. \<lparr>sin_din = d, sin_ino = inum, dirty = False, reclaim_count = 1\<rparr>) s;
          let s = fs_sem_init (sin_sem n) 1 s;
          Some (0, Some n, s)
        })
   }"

partial_function (option) lookup_sfs_loop :: "fs_le \<Rightarrow> fs_le \<Rightarrow> 32 word \<Rightarrow> fst \<Rightarrow> (nat option \<times> fst) option" where
  "lookup_sfs_loop list le inum s =
     (let le = list_next le (flinks s) in
      if le \<noteq> list
      then if sin_ino (sin (le2node le) s) = inum
        then let (r, s) = inode_ref_inc (le2node le) s
             in Some (Some (le2node le),
                  if r = 1 then upd_sin (le2node le) (\<lambda>i. i\<lparr>reclaim_count := reclaim_count i + 1\<rparr>) s else s)
        else lookup_sfs_loop list le inum s
      else Some (None, s))"

definition lookup_sfs_nolock :: "nat \<Rightarrow> 32 word \<Rightarrow> fst \<Rightarrow> (nat option \<times> fst) kresult" where
  "lookup_sfs_nolock sfs inum s = lookup_sfs_loop (sfs_hash_list sfs inum s) (sfs_hash_list sfs inum s) inum s"

text \<open>The part of \<open>sfs_load_inode\<close> between taking and releasing the lock.\<close>

definition load_inode_locked :: "nat \<Rightarrow> 32 word \<Rightarrow> fst \<Rightarrow> (int \<times> nat option \<times> fst) kresult" where
  "load_inode_locked sfs inum s = do {
     (n, s) \<leftarrow> lookup_sfs_nolock sfs inum s;
     (if n \<noteq> None then Some (0, n, s)
      else do {
        (d, s) \<leftarrow> fs_kmalloc SIZEOF_DIN s;
        (case d of
           None \<Rightarrow> Some (- E_NO_MEM, None, s)
         | Some d \<Rightarrow> do {
             assert_inuse sfs inum s;
             (r, s) \<leftarrow> sfs_rbuf sfs d SIZEOF_DIN inum 0 s;
             (if r \<noteq> 0 then do { s \<leftarrow> fs_kfree (Some d) s; Some (r, None, s) }
              else do {
                kassert (din_nlinks d s \<noteq> 0);
                (r, n, s) \<leftarrow> sfs_create_inode sfs d inum s;
                (if r \<noteq> 0 then do { s \<leftarrow> fs_kfree (Some d) s; Some (r, None, s) }
                 else do { n \<leftarrow> n; Some (0, Some n, sfs_set_links sfs n s) })
              })
           })
      })
   }"

definition sfs_load_inode :: "nat \<Rightarrow> 32 word \<Rightarrow> fst \<Rightarrow> (int \<times> nat option \<times> fst) kresult" where
  "sfs_load_inode sfs inum s = do {
     s \<leftarrow> lock_sfs_fs sfs s;
     (r, n, s) \<leftarrow> load_inode_locked sfs inum s;
     s \<leftarrow> unlock_sfs_fs sfs s;
     Some (r, n, s)
   }"

end
