(* ===== verification/Sfs_File.thy ===== *)
theory Sfs_File
  imports Sfs_Inode
begin

unbundle bit_operations_syntax

section \<open>The blocks of a file (kern/fs/sfs/sfs_inode.c)\<close>

text \<open>
  \<open>n\<close> is the inode, \<open>d\<close> its \<open>sfs_disk_inode\<close> in memory. A function that assigns \<open>*ino_store\<close> returns the value.
\<close>

subsection \<open>Block map\<close>

text \<open>The indirect block: the result, \<open>*entp\<close> and \<open>*ino_store\<close>.\<close>

definition sub_alloc :: "nat \<Rightarrow> 32 word \<Rightarrow> 32 word \<Rightarrow> nat \<Rightarrow> fst \<Rightarrow> (int \<times> 32 word \<times> 32 word \<times> fst) kresult" where
  "sub_alloc sfs ent0 ent offset s = do {
     (r, i, s) \<leftarrow> sfs_block_alloc sfs s;
     (r, i, s) \<leftarrow>
       (if r \<noteq> 0 then Some (r, 0, s)
        else do {
          i \<leftarrow> i;
          (r, s) \<leftarrow> sfs_wbuf_u32 sfs i ent offset s;
          (if r \<noteq> 0 then do { s \<leftarrow> sfs_block_free sfs i s; Some (r, i, s) } else Some (0, i, s))
        });
     (if r = 0 then Some (0, ent, i, s)
      else do {
        s \<leftarrow> (if ent \<noteq> ent0 then sfs_block_free sfs ent s else Some s);
        Some (r, ent0, 0, s)
      })
   }"

definition sfs_bmap_get_sub_nolock ::
    "nat \<Rightarrow> 32 word \<Rightarrow> nat \<Rightarrow> bool \<Rightarrow> fst \<Rightarrow> (int \<times> 32 word \<times> 32 word \<times> fst) kresult" where
  "sfs_bmap_get_sub_nolock sfs ent0 index create s = do {
     kassert (index < SFS_BLK_NENTRY);
     let offset = index * 4;
     (if ent0 \<noteq> 0
      then do {
        (r, i, s) \<leftarrow> sfs_rbuf_u32 sfs ent0 offset s;
        (if r \<noteq> 0 then Some (r, ent0, 0, s)
         else if i \<noteq> 0 \<or> \<not> create then Some (0, ent0, i, s)
         else sub_alloc sfs ent0 ent0 offset s)
      }
      else if \<not> create then Some (0, ent0, 0, s)
      else do {
        (r, ent, s) \<leftarrow> sfs_block_alloc sfs s;
        (if r \<noteq> 0 then Some (r, ent0, 0, s)
         else do { ent \<leftarrow> ent; sub_alloc sfs ent0 ent offset s })
      })
   }"

definition sfs_bmap_get_nolock :: "nat \<Rightarrow> nat \<Rightarrow> nat \<Rightarrow> bool \<Rightarrow> fst \<Rightarrow> (int \<times> 32 word \<times> fst) kresult" where
  "sfs_bmap_get_nolock sfs n index create s = do {
     let d = sin_din (sin n s);
     (r, i, s) \<leftarrow>
       (if index < SFS_NDIRECT
        then if din_direct d index s = 0 \<and> create
          then do {
            (r, i, s) \<leftarrow> sfs_block_alloc sfs s;
            (if r \<noteq> 0 then Some (r, 0, s)
             else do { i \<leftarrow> i; Some (0, i, mark_dirty n (set_din_direct d index i s)) })
          }
          else Some (0, din_direct d index s, s)
        else if index - SFS_NDIRECT < SFS_BLK_NENTRY
        then do {
          (r, ent, i, s) \<leftarrow> sfs_bmap_get_sub_nolock sfs (din_indirect d s) (index - SFS_NDIRECT) create s;
          (if r \<noteq> 0 then Some (r, 0, s)
           else if ent \<noteq> din_indirect d s
           then do {
             kassert (din_indirect d s = 0);
             Some (0, i, mark_dirty n (set_din_indirect d ent s))
           }
           else Some (0, i, s))
        }
        else kpanic);
     (if r \<noteq> 0 then Some (r, 0, s)
      else do {
        (if i = 0 then Some () else assert_inuse sfs i s);
        Some (0, i, s)
      })
   }"

definition sfs_bmap_free_sub_nolock :: "nat \<Rightarrow> 32 word \<Rightarrow> nat \<Rightarrow> fst \<Rightarrow> (int \<times> fst) kresult" where
  "sfs_bmap_free_sub_nolock sfs ent index s = do {
     assert_inuse sfs ent s;
     kassert (index < SFS_BLK_NENTRY);
     (r, i, s) \<leftarrow> sfs_rbuf_u32 sfs ent (index * 4) s;
     (if r \<noteq> 0 then Some (r, s)
      else if i \<noteq> 0
      then do {
        (r, s) \<leftarrow> sfs_wbuf_u32 sfs 0 ent (index * 4) s;
        (if r \<noteq> 0 then Some (r, s) else do { s \<leftarrow> sfs_block_free sfs i s; Some (0, s) })
      }
      else Some (0, s))
   }"

definition sfs_bmap_free_nolock :: "nat \<Rightarrow> nat \<Rightarrow> nat \<Rightarrow> fst \<Rightarrow> (int \<times> fst) kresult" where
  "sfs_bmap_free_nolock sfs n index s =
     (let d = sin_din (sin n s) in
      if index < SFS_NDIRECT
      then if din_direct d index s \<noteq> 0
        then do {
          s \<leftarrow> sfs_block_free sfs (din_direct d index s) s;
          Some (0, mark_dirty n (set_din_direct d index 0 s))
        }
        else Some (0, s)
      else if index - SFS_NDIRECT < SFS_BLK_NENTRY \<and> din_indirect d s \<noteq> 0
      then sfs_bmap_free_sub_nolock sfs (din_indirect d s) (index - SFS_NDIRECT) s
      else Some (0, s))"

definition sfs_bmap_load_nolock :: "nat \<Rightarrow> nat \<Rightarrow> nat \<Rightarrow> fst \<Rightarrow> (int \<times> 32 word \<times> fst) kresult" where
  "sfs_bmap_load_nolock sfs n index s = do {
     let d = sin_din (sin n s);
     kassert (index \<le> unat (din_blocks d s));
     let create = (index = unat (din_blocks d s));
     (r, i, s) \<leftarrow> sfs_bmap_get_nolock sfs n index create s;
     (if r \<noteq> 0 then Some (r, 0, s)
      else do {
        assert_inuse sfs i s;
        Some (0, i, if create then set_din_blocks d (din_blocks d s + 1) s else s)
      })
   }"

definition sfs_bmap_truncate_nolock :: "nat \<Rightarrow> nat \<Rightarrow> fst \<Rightarrow> (int \<times> fst) kresult" where
  "sfs_bmap_truncate_nolock sfs n s = do {
     let d = sin_din (sin n s);
     kassert (din_blocks d s \<noteq> 0);
     (r, s) \<leftarrow> sfs_bmap_free_nolock sfs n (unat (din_blocks d s - 1)) s;
     (if r \<noteq> 0 then Some (r, s)
      else Some (0, mark_dirty n (set_din_blocks d (din_blocks d s - 1) s)))
   }"

subsection \<open>Reading and writing\<close>

definition sfs_buf_op :: "bool \<Rightarrow> nat \<Rightarrow> nat \<Rightarrow> nat \<Rightarrow> 32 word \<Rightarrow> nat \<Rightarrow> fst \<Rightarrow> (int \<times> fst) kresult" where
  "sfs_buf_op write' = (if write' then sfs_wbuf else sfs_rbuf)"

definition sfs_block_op :: "bool \<Rightarrow> nat \<Rightarrow> nat \<Rightarrow> 32 word \<Rightarrow> nat \<Rightarrow> fst \<Rightarrow> (int \<times> fst) kresult" where
  "sfs_block_op write' = (if write' then sfs_wblock else sfs_rblock)"

text \<open>One block: find it, then apply the operation to it. \<open>blkno\<close> is the number of the block in the file.\<close>

definition io_block :: "nat \<Rightarrow> nat \<Rightarrow> nat \<Rightarrow> (32 word \<Rightarrow> fst \<Rightarrow> (int \<times> fst) kresult) \<Rightarrow> fst \<Rightarrow> (int \<times> fst) kresult" where
  "io_block sfs n blkno op s = do {
     (r, i, s) \<leftarrow> sfs_bmap_load_nolock sfs n blkno s;
     (if r \<noteq> 0 then Some (r, s) else op i s)
   }"

text \<open>The local variables of \<open>sfs_io_nolock\<close> that its three phases change.\<close>

record io_pos =
  io_data :: nat
  io_off :: nat
  io_alen :: nat
  io_blkno :: nat

definition io_advance :: "nat \<Rightarrow> io_pos \<Rightarrow> io_pos" where
  "io_advance size' p = p\<lparr>io_data := io_data p + size', io_off := io_off p + size', io_alen := io_alen p + size',
     io_blkno := io_blkno p + 1\<rparr>"

definition io_head :: "nat \<Rightarrow> nat \<Rightarrow> bool \<Rightarrow> nat \<Rightarrow> io_pos \<Rightarrow> fst \<Rightarrow> (int \<times> io_pos \<times> fst) kresult" where
  "io_head sfs n write' endpos p s =
     (let blkoff = io_off p mod SFS_BLKSIZE;
          nblks = endpos div SFS_BLKSIZE - io_blkno p
      in if blkoff \<noteq> 0
         then do {
           let size' = (if nblks \<noteq> 0 then SFS_BLKSIZE - blkoff else endpos - io_off p);
           (r, s) \<leftarrow> io_block sfs n (io_blkno p) (\<lambda>i. sfs_buf_op write' sfs (io_data p) size' i blkoff) s;
           Some (r, if r \<noteq> 0 then p else io_advance size' p, s)
         }
         else Some (0, p, s))"

partial_function (option) io_blocks ::
    "nat \<Rightarrow> nat \<Rightarrow> bool \<Rightarrow> nat \<Rightarrow> io_pos \<Rightarrow> fst \<Rightarrow> (int \<times> io_pos \<times> fst) option" where
  "io_blocks sfs n write' endpos p s =
     (if io_off p + SFS_BLKSIZE \<le> endpos
      then do {
        (r, s) \<leftarrow> io_block sfs n (io_blkno p) (\<lambda>i. sfs_block_op write' sfs (io_data p) i 1) s;
        (if r \<noteq> 0 then Some (r, p, s) else io_blocks sfs n write' endpos (io_advance SFS_BLKSIZE p) s)
      }
      else Some (0, p, s))"

definition io_tail :: "nat \<Rightarrow> nat \<Rightarrow> bool \<Rightarrow> nat \<Rightarrow> io_pos \<Rightarrow> fst \<Rightarrow> (int \<times> io_pos \<times> fst) kresult" where
  "io_tail sfs n write' endpos p s =
     (if io_off p < endpos
      then do {
        let size' = endpos - io_off p;
        (r, s) \<leftarrow> io_block sfs n (io_blkno p) (\<lambda>i. sfs_buf_op write' sfs (io_data p) size' i 0) s;
        Some (r, if r \<noteq> 0 then p else p\<lparr>io_alen := io_alen p + size'\<rparr>, s)
      }
      else Some (0, p, s))"

definition io_phases :: "nat \<Rightarrow> nat \<Rightarrow> bool \<Rightarrow> nat \<Rightarrow> io_pos \<Rightarrow> fst \<Rightarrow> (int \<times> io_pos \<times> fst) kresult" where
  "io_phases sfs n write' endpos p s = do {
     (r, p, s) \<leftarrow> io_head sfs n write' endpos p s;
     (if r \<noteq> 0 then Some (r, p, s)
      else do {
        (r, p, s) \<leftarrow> io_blocks sfs n write' endpos p s;
        (if r \<noteq> 0 then Some (r, p, s) else io_tail sfs n write' endpos p s)
      })
   }"

text \<open>The sum of an \<open>off_t\<close> and a \<open>size_t\<close>, converted back to \<open>off_t\<close>.\<close>

definition add_off :: "int \<Rightarrow> nat \<Rightarrow> int" where "add_off a b = sint (word_of_int (a + int b) :: 64 word)"

text \<open>The result, the value of \<open>*alenp\<close> and the state.\<close>

definition sfs_io_nolock :: "nat \<Rightarrow> nat \<Rightarrow> nat \<Rightarrow> int \<Rightarrow> nat \<Rightarrow> bool \<Rightarrow> fst \<Rightarrow> (int \<times> nat \<times> fst) kresult" where
  "sfs_io_nolock sfs n buf' offset alen write' s = do {
     let d = sin_din (sin n s);
     kassert (din_type d s \<noteq> SFS_TYPE_DIR);
     let endpos = add_off offset alen;
     (if offset < 0 \<or> offset \<ge> int SFS_MAX_FILE_SIZE \<or> offset > endpos then Some (- E_INVAL, 0, s)
      else if offset = endpos then Some (0, 0, s)
      else do {
        let start = nat offset;
        let endpos = min (nat endpos) SFS_MAX_FILE_SIZE;
        (if \<not> write' \<and> start \<ge> unat (din_size d s) then Some (0, 0, s)
         else do {
           let endpos = (if write' then endpos else min endpos (unat (din_size d s)));
           (r, p, s) \<leftarrow> io_phases sfs n write' endpos
             \<lparr>io_data = buf', io_off = start, io_alen = 0, io_blkno = start div SFS_BLKSIZE\<rparr> s;
           let finalpos = start + io_alen p;
           Some (r, io_alen p,
             if write' \<and> io_alen p \<noteq> 0 \<and> finalpos > unat (din_size d s)
             then mark_dirty n (set_din_size d (word_of_nat finalpos) s) else s)
         })
      })
   }"

definition sfs_io :: "nat \<Rightarrow> iobuf \<Rightarrow> bool \<Rightarrow> fst \<Rightarrow> (int \<times> iobuf \<times> fst) kresult" where
  "sfs_io n iob write' s = do {
     sfs \<leftarrow> node_fs n s;
     sfs_info n s;
     s \<leftarrow> lock_sin n s;
     (r, alen, s) \<leftarrow> sfs_io_nolock sfs n (io_base iob) (io_offset iob) (io_resid iob) write' s;
     iob \<leftarrow> (if alen \<noteq> 0 then iobuf_skip iob alen else Some iob);
     s \<leftarrow> unlock_sin n s;
     Some (r, iob, s)
   }"

definition sfs_read :: "nat \<Rightarrow> iobuf \<Rightarrow> fst \<Rightarrow> (int \<times> iobuf \<times> fst) kresult" where "sfs_read n iob = sfs_io n iob False"
definition sfs_write :: "nat \<Rightarrow> iobuf \<Rightarrow> fst \<Rightarrow> (int \<times> iobuf \<times> fst) kresult" where "sfs_write n iob = sfs_io n iob True"

subsection \<open>Length and stable storage\<close>

definition sfs_fsync :: "nat \<Rightarrow> fst \<Rightarrow> (int \<times> fst) kresult" where
  "sfs_fsync n s = do {
     sfs \<leftarrow> node_fs n s;
     sfs_info n s;
     (if dirty (sin n s)
      then do {
        s \<leftarrow> lock_sin n s;
        (r, s) \<leftarrow> (if dirty (sin n s)
          then do {
            let s = upd_sin n (\<lambda>i. i\<lparr>dirty := False\<rparr>) s;
            (r, s) \<leftarrow> sfs_wbuf sfs (sin_din (sin n s)) SIZEOF_DIN (sin_ino (sin n s)) 0 s;
            Some (r, if r \<noteq> 0 then mark_dirty n s else s)
          }
          else Some (0, s));
        s \<leftarrow> unlock_sin n s;
        Some (r, s)
      }
      else Some (0, s))
   }"

fun grow_loop :: "nat \<Rightarrow> nat \<Rightarrow> nat \<Rightarrow> nat \<Rightarrow> fst \<Rightarrow> (int \<times> fst) kresult" where
  "grow_loop sfs n nblks 0 s = Some (0, s)"
| "grow_loop sfs n nblks (Suc k) s = do {
     (r, _, s) \<leftarrow> sfs_bmap_load_nolock sfs n nblks s;
     (if r \<noteq> 0 then Some (r, s) else grow_loop sfs n (nblks + 1) k s)
   }"

fun shrink_loop :: "nat \<Rightarrow> nat \<Rightarrow> nat \<Rightarrow> fst \<Rightarrow> (int \<times> fst) kresult" where
  "shrink_loop sfs n 0 s = Some (0, s)"
| "shrink_loop sfs n (Suc k) s = do {
     (r, s) \<leftarrow> sfs_bmap_truncate_nolock sfs n s;
     (if r \<noteq> 0 then Some (r, s) else shrink_loop sfs n k s)
   }"

definition sfs_truncfile :: "nat \<Rightarrow> int \<Rightarrow> fst \<Rightarrow> (int \<times> fst) kresult" where
  "sfs_truncfile n len s =
     (if len < 0 \<or> len > int SFS_MAX_FILE_SIZE then Some (- E_INVAL, s)
      else do {
        sfs \<leftarrow> node_fs n s;
        sfs_info n s;
        let d = sin_din (sin n s);
        let tblks = ROUNDUP_DIV (nat len) SFS_BLKSIZE;
        (if unat (din_size d s) = nat len
         then do { kassert (tblks = unat (din_blocks d s)); Some (0, s) }
         else do {
           s \<leftarrow> lock_sin n s;
           let nblks = unat (din_blocks d s);
           (r, s) \<leftarrow> (if nblks < tblks then grow_loop sfs n nblks (tblks - nblks) s
                      else shrink_loop sfs n (nblks - tblks) s);
           s \<leftarrow> (if r \<noteq> 0 then Some s
                 else do {
                   kassert (unat (din_blocks d s) = tblks);
                   Some (mark_dirty n (set_din_size d (word_of_int len) s))
                 });
           s \<leftarrow> unlock_sin n s;
           Some (r, s)
         })
      })"

subsection \<open>Directory slots\<close>

definition entry_name :: "nat \<Rightarrow> nat" where "entry_name de = de + 4"
definition entry_ino :: "nat \<Rightarrow> fst \<Rightarrow> 32 word" where "entry_ino de s = rd32 de (mem s)"

definition sfs_dirent_read_nolock :: "nat \<Rightarrow> nat \<Rightarrow> nat \<Rightarrow> nat \<Rightarrow> fst \<Rightarrow> (int \<times> fst) kresult" where
  "sfs_dirent_read_nolock sfs n slot de s = do {
     let d = sin_din (sin n s);
     kassert (din_type d s = SFS_TYPE_DIR \<and> slot < unat (din_blocks d s));
     (r, i, s) \<leftarrow> sfs_bmap_load_nolock sfs n slot s;
     (if r \<noteq> 0 then Some (r, s)
      else do {
        assert_inuse sfs i s;
        (r, s) \<leftarrow> sfs_rbuf sfs de SIZEOF_ENTRY i 0 s;
        (if r \<noteq> 0 then Some (r, s)
         else Some (0, upd_mem (\<lambda>m. m(entry_name de + SFS_MAX_FNAME_LEN := 0)) s))
      })
   }"

text \<open>The result with the slot and the inode number, where found, and the last empty slot seen.\<close>

partial_function (option) dirent_search_loop ::
    "nat \<Rightarrow> nat \<Rightarrow> nat \<Rightarrow> nat \<Rightarrow> nat \<Rightarrow> nat \<Rightarrow> nat \<Rightarrow> fst \<Rightarrow> (int \<times> (nat \<times> 32 word) option \<times> nat \<times> fst) option" where
  "dirent_search_loop sfs n name de i nslots vac s =
     (if i < nslots
      then do {
        (r, s) \<leftarrow> sfs_dirent_read_nolock sfs n i de s;
        (if r \<noteq> 0 then Some (r, None, vac, s)
         else if entry_ino de s = 0 then dirent_search_loop sfs n name de (i + 1) nslots i s
         else do {
           c \<leftarrow> strcmp name (entry_name de) (mem s);
           (if c = 0 then Some (0, Some (i, entry_ino de s), vac, s)
            else dirent_search_loop sfs n name de (i + 1) nslots vac s)
         })
      }
      else Some (- E_NOENT, None, vac, s))"

definition sfs_dirent_search_nolock ::
    "nat \<Rightarrow> nat \<Rightarrow> nat \<Rightarrow> fst \<Rightarrow> (int \<times> (nat \<times> 32 word) option \<times> nat \<times> fst) kresult" where
  "sfs_dirent_search_nolock sfs n name s = do {
     len \<leftarrow> strlen name (mem s);
     kassert (len \<le> SFS_MAX_FNAME_LEN);
     (de, s) \<leftarrow> fs_kmalloc SIZEOF_ENTRY s;
     (case de of
        None \<Rightarrow> Some (- E_NO_MEM, None, 0, s)
      | Some de \<Rightarrow> do {
          let nslots = unat (din_blocks (sin_din (sin n s)) s);
          (r, found, vac, s) \<leftarrow> dirent_search_loop sfs n name de 0 nslots nslots s;
          s \<leftarrow> fs_kfree (Some de) s;
          Some (r, found, vac, s)
        })
   }"

partial_function (option) findino_loop :: "nat \<Rightarrow> nat \<Rightarrow> 32 word \<Rightarrow> nat \<Rightarrow> nat \<Rightarrow> nat \<Rightarrow> fst \<Rightarrow> (int \<times> fst) option" where
  "findino_loop sfs n inum de i nslots s =
     (if i < nslots
      then do {
        (r, s) \<leftarrow> sfs_dirent_read_nolock sfs n i de s;
        (if r \<noteq> 0 then Some (r, s)
         else if entry_ino de s = inum then Some (0, s)
         else findino_loop sfs n inum de (i + 1) nslots s)
      }
      else Some (- E_NOENT, s))"

definition sfs_dirent_findino_nolock :: "nat \<Rightarrow> nat \<Rightarrow> 32 word \<Rightarrow> nat \<Rightarrow> fst \<Rightarrow> (int \<times> fst) kresult" where
  "sfs_dirent_findino_nolock sfs n inum de s =
     findino_loop sfs n inum de 0 (unat (din_blocks (sin_din (sin n s)) s)) s"

partial_function (option) getdirentry_loop :: "nat \<Rightarrow> nat \<Rightarrow> nat \<Rightarrow> nat \<Rightarrow> nat \<Rightarrow> nat \<Rightarrow> fst \<Rightarrow> (int \<times> fst) option" where
  "getdirentry_loop sfs n slot de i nslots s =
     (if i < nslots
      then do {
        (r, s) \<leftarrow> sfs_dirent_read_nolock sfs n i de s;
        (if r \<noteq> 0 then Some (r, s)
         else if entry_ino de s \<noteq> 0
         then if slot = 0 then Some (0, s) else getdirentry_loop sfs n (slot - 1) de (i + 1) nslots s
         else getdirentry_loop sfs n slot de (i + 1) nslots s)
      }
      else Some (- E_NOENT, s))"

definition sfs_getdirentry_sub_nolock :: "nat \<Rightarrow> nat \<Rightarrow> nat \<Rightarrow> nat \<Rightarrow> fst \<Rightarrow> (int \<times> fst) kresult" where
  "sfs_getdirentry_sub_nolock sfs n slot de s =
     getdirentry_loop sfs n slot de 0 (unat (din_blocks (sin_din (sin n s)) s)) s"

text \<open>\<open>sfs_lookup_once\<close>: the entry, then its inode.\<close>

definition sfs_lookup_once :: "nat \<Rightarrow> nat \<Rightarrow> nat \<Rightarrow> fst \<Rightarrow> (int \<times> nat option \<times> fst) kresult" where
  "sfs_lookup_once sfs n name s = do {
     s \<leftarrow> lock_sin n s;
     (r, found, _, s) \<leftarrow> sfs_dirent_search_nolock sfs n name s;
     s \<leftarrow> unlock_sin n s;
     (if r = 0 then do { (_, inum) \<leftarrow> found; sfs_load_inode sfs inum s } else Some (r, None, s))
   }"

end
