(* ===== verification/Vop.thy ===== *)
theory Vop
  imports Sfs_File
begin

unbundle bit_operations_syntax

section \<open>The operations of an inode (kern/fs/vfs/inode.h, kern/fs/devs/dev.c, kern/fs/sfs/sfs_inode.c)\<close>

text \<open>
  \<open>vop_xxx\<close> is the macro of inode.h: the assertion that the table of the inode has the operation, \<open>inode_check\<close>,
  and the call. The tables are \<open>dev_node_ops\<close>, \<open>sfs_node_dirops\<close> and \<open>sfs_node_fileops\<close>; an operation a table does
  not have is a failed assertion, \<open>None\<close>.
\<close>

record stat =
  st_mode :: "32 word"
  st_nlinks :: nat
  st_blocks :: nat
  st_size :: nat

definition S_IFMT :: "32 word" where "S_IFMT = 0x7000"
definition S_IFREG :: "32 word" where "S_IFREG = 0x1000"
definition S_IFDIR :: "32 word" where "S_IFDIR = 0x2000"
definition S_IFLNK :: "32 word" where "S_IFLNK = 0x3000"
definition S_IFCHR :: "32 word" where "S_IFCHR = 0x4000"
definition S_IFBLK :: "32 word" where "S_IFBLK = 0x5000"
definition S_ISDIR :: "32 word \<Rightarrow> bool" where "S_ISDIR mode \<longleftrightarrow> mode AND S_IFMT = S_IFDIR"

subsection \<open>Devices (dev.c)\<close>

definition dev_info :: "nat \<Rightarrow> fst \<Rightarrow> device kresult" where
  "dev_info n s = device_info (in_info (inodes s n))"

definition dev_open :: "nat \<Rightarrow> 32 word \<Rightarrow> fst \<Rightarrow> int kresult" where
  "dev_open n open_flags s =
     (if open_flags AND (O_CREAT OR O_TRUNC OR O_EXCL OR O_APPEND) \<noteq> 0 then Some (- E_INVAL)
      else do { dev \<leftarrow> dev_info n s; Some (dop_open dev open_flags) })"

definition dev_close :: "nat \<Rightarrow> fst \<Rightarrow> int kresult" where
  "dev_close n s = do { dev \<leftarrow> dev_info n s; Some (dop_close dev) }"

definition dev_read :: "nat \<Rightarrow> iobuf \<Rightarrow> fst \<Rightarrow> (int \<times> iobuf \<times> fst) kresult" where
  "dev_read n iob s = do { dev \<leftarrow> dev_info n s; dop_io dev iob False s }"

definition dev_write :: "nat \<Rightarrow> iobuf \<Rightarrow> fst \<Rightarrow> (int \<times> iobuf \<times> fst) kresult" where
  "dev_write n iob s = do { dev \<leftarrow> dev_info n s; dop_io dev iob True s }"

definition dev_ioctl :: "nat \<Rightarrow> fst \<Rightarrow> int kresult" where
  "dev_ioctl n s = do { dev \<leftarrow> dev_info n s; Some (dop_ioctl dev) }"

definition dev_gettype :: "nat \<Rightarrow> fst \<Rightarrow> (int \<times> 32 word) kresult" where
  "dev_gettype n s = do { dev \<leftarrow> dev_info n s; Some (0, if d_blocks dev > 0 then S_IFBLK else S_IFCHR) }"

definition dev_tryseek :: "nat \<Rightarrow> int \<Rightarrow> fst \<Rightarrow> int kresult" where
  "dev_tryseek n pos s = do {
     dev \<leftarrow> dev_info n s;
     Some (if d_blocks dev > 0 \<and> pos \<ge> 0 \<and> nat pos mod d_blocksize dev = 0 \<and> nat pos < d_blocks dev * d_blocksize dev
           then 0 else - E_INVAL)
   }"

definition dev_lookup :: "nat \<Rightarrow> nat \<Rightarrow> fst \<Rightarrow> (int \<times> nat option \<times> fst) kresult" where
  "dev_lookup n path s =
     Some (if mem s path \<noteq> 0 then (- E_NOENT, None, s) else (0, Some n, snd (inode_ref_inc n s)))"

definition dev_create_inode :: "fst \<Rightarrow> (nat option \<times> fst) kresult" where
  "dev_create_inode s = do {
     (n, s) \<leftarrow> alloc_inode inode_type_device_info s;
     Some (n, case n of None \<Rightarrow> s | Some n \<Rightarrow> inode_init n Dev_node_ops None s)
   }"

subsection \<open>Operations of sfs_inode.c that need no other inode\<close>

definition sfs_opendir :: "32 word \<Rightarrow> int" where
  "sfs_opendir open_flags =
     (if open_flags AND O_ACCMODE \<noteq> O_RDONLY then - E_ISDIR
      else if open_flags AND O_APPEND \<noteq> 0 then - E_ISDIR else 0)"

definition sfs_openfile :: "32 word \<Rightarrow> int" where "sfs_openfile open_flags = 0"

definition sfs_gettype :: "nat \<Rightarrow> fst \<Rightarrow> (int \<times> 32 word) kresult" where
  "sfs_gettype n s = do {
     sfs_info n s;
     let t = din_type (sin_din (sin n s)) s;
     (if t = SFS_TYPE_DIR then Some (0, S_IFDIR)
      else if t = SFS_TYPE_FILE then Some (0, S_IFREG)
      else if t = SFS_TYPE_LINK then Some (0, S_IFLNK)
      else kpanic)
   }"

subsection \<open>Dispatch\<close>

definition vop_open :: "nat \<Rightarrow> 32 word \<Rightarrow> fst \<Rightarrow> int kresult" where
  "vop_open n open_flags s = do {
     inode_check n s;
     (case in_ops (inodes s n) of
        Dev_node_ops \<Rightarrow> dev_open n open_flags s
      | Sfs_node_dirops \<Rightarrow> Some (sfs_opendir open_flags)
      | Sfs_node_fileops \<Rightarrow> Some (sfs_openfile open_flags))
   }"

definition vop_read :: "nat \<Rightarrow> iobuf \<Rightarrow> fst \<Rightarrow> (int \<times> iobuf \<times> fst) kresult" where
  "vop_read n iob s = do {
     inode_check n s;
     (case in_ops (inodes s n) of
        Dev_node_ops \<Rightarrow> dev_read n iob s
      | Sfs_node_dirops \<Rightarrow> kpanic
      | Sfs_node_fileops \<Rightarrow> sfs_read n iob s)
   }"

definition vop_write :: "nat \<Rightarrow> iobuf \<Rightarrow> fst \<Rightarrow> (int \<times> iobuf \<times> fst) kresult" where
  "vop_write n iob s = do {
     inode_check n s;
     (case in_ops (inodes s n) of
        Dev_node_ops \<Rightarrow> dev_write n iob s
      | Sfs_node_dirops \<Rightarrow> kpanic
      | Sfs_node_fileops \<Rightarrow> sfs_write n iob s)
   }"

definition vop_gettype :: "nat \<Rightarrow> fst \<Rightarrow> (int \<times> 32 word) kresult" where
  "vop_gettype n s = do {
     inode_check n s;
     (case in_ops (inodes s n) of
        Dev_node_ops \<Rightarrow> dev_gettype n s
      | Sfs_node_dirops \<Rightarrow> sfs_gettype n s
      | Sfs_node_fileops \<Rightarrow> sfs_gettype n s)
   }"

definition vop_fsync :: "nat \<Rightarrow> fst \<Rightarrow> (int \<times> fst) kresult" where
  "vop_fsync n s = do {
     inode_check n s;
     (case in_ops (inodes s n) of
        Dev_node_ops \<Rightarrow> kpanic
      | Sfs_node_dirops \<Rightarrow> sfs_fsync n s
      | Sfs_node_fileops \<Rightarrow> sfs_fsync n s)
   }"

definition vop_truncate :: "nat \<Rightarrow> int \<Rightarrow> fst \<Rightarrow> (int \<times> fst) kresult" where
  "vop_truncate n len s = do {
     inode_check n s;
     (case in_ops (inodes s n) of
        Dev_node_ops \<Rightarrow> kpanic
      | Sfs_node_dirops \<Rightarrow> kpanic
      | Sfs_node_fileops \<Rightarrow> sfs_truncfile n len s)
   }"

definition sfs_tryseek :: "nat \<Rightarrow> int \<Rightarrow> fst \<Rightarrow> (int \<times> fst) kresult" where
  "sfs_tryseek n pos s =
     (if pos < 0 \<or> pos \<ge> int SFS_MAX_FILE_SIZE then Some (- E_INVAL, s)
      else do {
        sfs_info n s;
        (if pos > uint (din_size (sin_din (sin n s)) s) then vop_truncate n pos s else Some (0, s))
      })"

definition vop_tryseek :: "nat \<Rightarrow> int \<Rightarrow> fst \<Rightarrow> (int \<times> fst) kresult" where
  "vop_tryseek n pos s = do {
     inode_check n s;
     (case in_ops (inodes s n) of
        Dev_node_ops \<Rightarrow> do { r \<leftarrow> dev_tryseek n pos s; Some (r, s) }
      | Sfs_node_dirops \<Rightarrow> kpanic
      | Sfs_node_fileops \<Rightarrow> sfs_tryseek n pos s)
   }"

definition no_stat :: stat where "no_stat = \<lparr>st_mode = 0, st_nlinks = 0, st_blocks = 0, st_size = 0\<rparr>"

definition dev_fstat :: "nat \<Rightarrow> fst \<Rightarrow> (int \<times> stat) kresult" where
  "dev_fstat n s = do {
     (r, mode) \<leftarrow> vop_gettype n s;
     (if r \<noteq> 0 then Some (r, no_stat)
      else do {
        dev \<leftarrow> dev_info n s;
        Some (0, \<lparr>st_mode = mode, st_nlinks = 1, st_blocks = d_blocks dev, st_size = u64 (d_blocks dev * d_blocksize dev)\<rparr>)
      })
   }"

definition sfs_fstat :: "nat \<Rightarrow> fst \<Rightarrow> (int \<times> stat) kresult" where
  "sfs_fstat n s = do {
     (r, mode) \<leftarrow> vop_gettype n s;
     (if r \<noteq> 0 then Some (r, no_stat)
      else do {
        sfs_info n s;
        let d = sin_din (sin n s);
        Some (0, \<lparr>st_mode = mode, st_nlinks = unat (din_nlinks d s), st_blocks = unat (din_blocks d s),
          st_size = unat (din_size d s)\<rparr>)
      })
   }"

definition vop_fstat :: "nat \<Rightarrow> fst \<Rightarrow> (int \<times> stat) kresult" where
  "vop_fstat n s = do {
     inode_check n s;
     (case in_ops (inodes s n) of
        Dev_node_ops \<Rightarrow> dev_fstat n s
      | Sfs_node_dirops \<Rightarrow> sfs_fstat n s
      | Sfs_node_fileops \<Rightarrow> sfs_fstat n s)
   }"

definition vop_ioctl :: "nat \<Rightarrow> fst \<Rightarrow> int kresult" where
  "vop_ioctl n s = do {
     inode_check n s;
     (case in_ops (inodes s n) of
        Dev_node_ops \<Rightarrow> dev_ioctl n s
      | Sfs_node_dirops \<Rightarrow> kpanic
      | Sfs_node_fileops \<Rightarrow> kpanic)
   }"

text \<open>No table has \<open>vop_create\<close>.\<close>

definition vop_create :: "nat \<Rightarrow> nat \<Rightarrow> bool \<Rightarrow> fst \<Rightarrow> (int \<times> nat option \<times> fst) kresult" where
  "vop_create n name excl s = kpanic"

definition sfs_close :: "nat \<Rightarrow> fst \<Rightarrow> (int \<times> fst) kresult" where "sfs_close n s = vop_fsync n s"

definition vop_close :: "nat \<Rightarrow> fst \<Rightarrow> (int \<times> fst) kresult" where
  "vop_close n s = do {
     inode_check n s;
     (case in_ops (inodes s n) of
        Dev_node_ops \<Rightarrow> do { r \<leftarrow> dev_close n s; Some (r, s) }
      | Sfs_node_dirops \<Rightarrow> sfs_close n s
      | Sfs_node_fileops \<Rightarrow> sfs_close n s)
   }"

subsection \<open>Releasing an inode\<close>

text \<open>\<open>sfs_reclaim\<close> up to the release of the lock: whether the inode is to go, and the result otherwise.\<close>

definition reclaim_locked :: "nat \<Rightarrow> fst \<Rightarrow> (bool \<times> int \<times> fst) kresult" where
  "reclaim_locked n s = do {
     kassert (reclaim_count (sin n s) > 0);
     let s = upd_sin n (\<lambda>i. i\<lparr>reclaim_count := reclaim_count i - 1\<rparr>) s;
     (if reclaim_count (sin n s) \<noteq> 0 \<or> ref_count (inodes s n) \<noteq> 0 then Some (False, - E_BUSY, s)
      else do {
        (r, s) \<leftarrow> (if din_nlinks (sin_din (sin n s)) s = 0 then vop_truncate n 0 s else Some (0, s));
        (if r \<noteq> 0 then Some (False, r, s)
         else do {
           (r, s) \<leftarrow> (if dirty (sin n s) then vop_fsync n s else Some (0, s));
           (if r \<noteq> 0 then Some (False, r, s) else Some (True, 0, sfs_remove_links n s))
         })
      })
   }"

definition sfs_reclaim :: "nat \<Rightarrow> fst \<Rightarrow> (int \<times> fst) kresult" where
  "sfs_reclaim n s = do {
     sfs \<leftarrow> node_fs n s;
     sfs_info n s;
     s \<leftarrow> lock_sfs_fs sfs s;
     (gone, r, s) \<leftarrow> reclaim_locked n s;
     s \<leftarrow> unlock_sfs_fs sfs s;
     (if \<not> gone then Some (r, s)
      else do {
        let d = sin_din (sin n s);
        s \<leftarrow> (if din_nlinks d s = 0
              then do {
                s \<leftarrow> sfs_block_free sfs (sin_ino (sin n s)) s;
                (if din_indirect d s \<noteq> 0 then sfs_block_free sfs (din_indirect d s) s else Some s)
              }
              else Some s);
        s \<leftarrow> fs_kfree (Some d) s;
        s \<leftarrow> inode_kill n s;
        Some (0, s)
      })
   }"

definition vop_reclaim :: "nat \<Rightarrow> fst \<Rightarrow> (int \<times> fst) kresult" where
  "vop_reclaim n s = do {
     inode_check n s;
     (case in_ops (inodes s n) of
        Dev_node_ops \<Rightarrow> kpanic
      | Sfs_node_dirops \<Rightarrow> sfs_reclaim n s
      | Sfs_node_fileops \<Rightarrow> sfs_reclaim n s)
   }"

definition inode_ref_dec :: "nat \<Rightarrow> fst \<Rightarrow> (int \<times> fst) kresult" where
  "inode_ref_dec n s = do {
     kassert (ref_count (inodes s n) > 0);
     let s = upd_inode n (\<lambda>i. i\<lparr>ref_count := ref_count i - 1\<rparr>) s;
     let count = ref_count (inodes s n);
     (if count = 0 then do { (_, s) \<leftarrow> vop_reclaim n s; Some (count, s) } else Some (count, s))
   }"

definition inode_open_dec :: "nat \<Rightarrow> fst \<Rightarrow> (int \<times> fst) kresult" where
  "inode_open_dec n s = do {
     kassert (open_count (inodes s n) > 0);
     let s = upd_inode n (\<lambda>i. i\<lparr>open_count := open_count i - 1\<rparr>) s;
     let count = open_count (inodes s n);
     (if count = 0 then do { (_, s) \<leftarrow> vop_close n s; Some (count, s) } else Some (count, s))
   }"

definition vop_ref_inc :: "nat \<Rightarrow> fst \<Rightarrow> fst" where "vop_ref_inc n s = snd (inode_ref_inc n s)"
definition vop_open_inc :: "nat \<Rightarrow> fst \<Rightarrow> fst" where "vop_open_inc n s = snd (inode_open_inc n s)"

definition vop_ref_dec :: "nat \<Rightarrow> fst \<Rightarrow> fst kresult" where
  "vop_ref_dec n s = do { (_, s) \<leftarrow> inode_ref_dec n s; Some s }"

definition vop_open_dec :: "nat \<Rightarrow> fst \<Rightarrow> fst kresult" where
  "vop_open_dec n s = do { (_, s) \<leftarrow> inode_open_dec n s; Some s }"

subsection \<open>Directories\<close>

definition sfs_lookup :: "nat \<Rightarrow> nat \<Rightarrow> fst \<Rightarrow> (int \<times> nat option \<times> fst) kresult" where
  "sfs_lookup n path s = do {
     sfs \<leftarrow> node_fs n s;
     kassert (mem s path \<noteq> 0 \<and> mem s path \<noteq> chr ''/'');
     let s = vop_ref_inc n s;
     sfs_info n s;
     (if din_type (sin_din (sin n s)) s \<noteq> SFS_TYPE_DIR
      then do { s \<leftarrow> vop_ref_dec n s; Some (- E_NOTDIR, None, s) }
      else do {
        (r, sub, s) \<leftarrow> sfs_lookup_once sfs n path s;
        s \<leftarrow> vop_ref_dec n s;
        Some (if r \<noteq> 0 then (r, None, s) else (0, sub, s))
      })
   }"

definition vop_lookup :: "nat \<Rightarrow> nat \<Rightarrow> fst \<Rightarrow> (int \<times> nat option \<times> fst) kresult" where
  "vop_lookup n path s = do {
     inode_check n s;
     (case in_ops (inodes s n) of
        Dev_node_ops \<Rightarrow> dev_lookup n path s
      | Sfs_node_dirops \<Rightarrow> sfs_lookup n path s
      | Sfs_node_fileops \<Rightarrow> kpanic)
   }"

definition sfs_dentry_size :: nat where "sfs_dentry_size = SFS_MAX_FNAME_LEN + 1"

definition sfs_getdirentry :: "nat \<Rightarrow> iobuf \<Rightarrow> fst \<Rightarrow> (int \<times> iobuf \<times> fst) kresult" where
  "sfs_getdirentry n iob s = do {
     (de, s) \<leftarrow> fs_kmalloc SIZEOF_ENTRY s;
     (case de of
        None \<Rightarrow> Some (- E_NO_MEM, iob, s)
      | Some de \<Rightarrow> do {
          sfs \<leftarrow> node_fs n s;
          sfs_info n s;
          let offset = io_offset iob;
          (if offset < 0 \<or> nat offset mod sfs_dentry_size \<noteq> 0
           then do { s \<leftarrow> fs_kfree (Some de) s; Some (- E_INVAL, iob, s) }
           else if nat offset div sfs_dentry_size > unat (din_blocks (sin_din (sin n s)) s)
           then do { s \<leftarrow> fs_kfree (Some de) s; Some (- E_NOENT, iob, s) }
           else do {
             s \<leftarrow> lock_sin n s;
             (r, s) \<leftarrow> sfs_getdirentry_sub_nolock sfs n (nat offset div sfs_dentry_size) de s;
             s \<leftarrow> unlock_sin n s;
             (r, iob, s) \<leftarrow> (if r \<noteq> 0 then Some (r, iob, s)
               else do {
                 (r, _, iob, s) \<leftarrow> fs_move iob (entry_name de) sfs_dentry_size True s;
                 Some (r, iob, s)
               });
             s \<leftarrow> fs_kfree (Some de) s;
             Some (r, iob, s)
           })
        })
   }"

definition vop_getdirentry :: "nat \<Rightarrow> iobuf \<Rightarrow> fst \<Rightarrow> (int \<times> iobuf \<times> fst) kresult" where
  "vop_getdirentry n iob s = do {
     inode_check n s;
     (case in_ops (inodes s n) of
        Dev_node_ops \<Rightarrow> kpanic
      | Sfs_node_dirops \<Rightarrow> sfs_getdirentry n iob s
      | Sfs_node_fileops \<Rightarrow> kpanic)
   }"

text \<open>
  The loop of \<open>sfs_namefile\<close>, from the inode up to the root: the name of each directory is put in front of what
  ends at \<open>ptr\<close>. \<open>dotdot\<close> is the address of the literal \<open>".."\<close>.
\<close>

partial_function (option) namefile_loop ::
    "nat \<Rightarrow> nat \<Rightarrow> nat \<Rightarrow> nat \<Rightarrow> nat \<Rightarrow> nat \<Rightarrow> fst \<Rightarrow> (int \<times> nat \<times> nat \<times> fst) option" where
  "namefile_loop dotdot sfs n de ptr resid s = do {
     (r, up', s) \<leftarrow> sfs_lookup_once sfs n dotdot s;
     (if r \<noteq> 0 then do { s \<leftarrow> vop_ref_dec n s; Some (r, ptr, resid, s) }
      else do {
        up' \<leftarrow> up';
        let inum = sin_ino (sin n s);
        s \<leftarrow> vop_ref_dec n s;
        (if n = up' then do { s \<leftarrow> vop_ref_dec n s; Some (0, ptr, resid, s) }
         else do {
           sfs_info up' s;
           kassert (inum \<noteq> sin_ino (sin up' s) \<and> din_type (sin_din (sin up' s)) s = SFS_TYPE_DIR);
           s \<leftarrow> lock_sin up' s;
           (r, s) \<leftarrow> sfs_dirent_findino_nolock sfs up' inum de s;
           s \<leftarrow> unlock_sin up' s;
           (if r \<noteq> 0 then do { s \<leftarrow> vop_ref_dec up' s; Some (r, ptr, resid, s) }
            else do {
              len \<leftarrow> strlen (entry_name de) (mem s);
              let alen = len + 1;
              (if alen > resid then do { s \<leftarrow> vop_ref_dec up' s; Some (- E_NO_MEM, ptr, resid, s) }
               else do {
                 let s = upd_mem (snd \<circ> memcpy (ptr - alen) (entry_name de) (alen - 1)) s;
                 let s = upd_mem (\<lambda>m. m(ptr - 1 := chr ''/'')) s;
                 namefile_loop dotdot sfs up' de (ptr - alen) (resid - alen) s
               })
            })
         })
      })
   }"

definition sfs_namefile :: "nat \<Rightarrow> nat \<Rightarrow> iobuf \<Rightarrow> fst \<Rightarrow> (int \<times> iobuf \<times> fst) kresult" where
  "sfs_namefile dotdot n iob s =
     (if io_resid iob \<le> 2 then Some (- E_NO_MEM, iob, s)
      else do {
        (de, s) \<leftarrow> fs_kmalloc SIZEOF_ENTRY s;
        (case de of
           None \<Rightarrow> Some (- E_NO_MEM, iob, s)
         | Some de \<Rightarrow> do {
             sfs \<leftarrow> node_fs n s;
             sfs_info n s;
             let s = vop_ref_inc n s;
             (r, ptr, resid, s) \<leftarrow> namefile_loop dotdot sfs n de (io_base iob + io_resid iob) (io_resid iob - 2) s;
             (if r \<noteq> 0 then do { s \<leftarrow> fs_kfree (Some de) s; Some (r, iob, s) }
              else do {
                let alen = io_resid iob - resid - 2;
                let s = upd_mem (snd \<circ> memmove (io_base iob + 1) ptr alen) s;
                let s = upd_mem (\<lambda>m. m(io_base iob := chr ''/'', io_base iob + 1 + alen := 0)) s;
                iob \<leftarrow> iobuf_skip iob alen;
                s \<leftarrow> fs_kfree (Some de) s;
                Some (0, iob, s)
              })
           })
      })"

definition vop_namefile :: "nat \<Rightarrow> nat \<Rightarrow> iobuf \<Rightarrow> fst \<Rightarrow> (int \<times> iobuf \<times> fst) kresult" where
  "vop_namefile dotdot n iob s = do {
     inode_check n s;
     (case in_ops (inodes s n) of
        Dev_node_ops \<Rightarrow> kpanic
      | Sfs_node_dirops \<Rightarrow> sfs_namefile dotdot n iob s
      | Sfs_node_fileops \<Rightarrow> kpanic)
   }"

end
