(* ===== verification/Sfs_Fs.thy ===== *)
theory Sfs_Fs
  imports Vop
begin

unbundle bit_operations_syntax

section \<open>The file system as a whole (kern/fs/sfs/sfs_fs.c)\<close>

text \<open>
  Mounting, synchronising and unmounting. The function pointers of \<open>struct fs\<close> always are these functions, so
  \<open>fsop_sync\<close>, \<open>fsop_get_root\<close>, \<open>fsop_unmount\<close> and \<open>fsop_cleanup\<close> are \<open>sfs_sync\<close> and so on.
\<close>

definition SFS_HLIST_SIZE :: nat where "SFS_HLIST_SIZE = 1024"

partial_function (option) sync_inodes_loop :: "fs_le \<Rightarrow> fs_le \<Rightarrow> fst \<Rightarrow> fst option" where
  "sync_inodes_loop list le s =
     (let le = list_next le (flinks s) in
      if le \<noteq> list then do { (_, s) \<leftarrow> vop_fsync (le2node le) s; sync_inodes_loop list le s } else Some s)"

definition sfs_sync :: "nat \<Rightarrow> fst \<Rightarrow> (int \<times> fst) kresult" where
  "sfs_sync sfs s = do {
     s \<leftarrow> lock_sfs_fs sfs s;
     s \<leftarrow> sync_inodes_loop (Inode_list sfs) (Inode_list sfs) s;
     s \<leftarrow> unlock_sfs_fs sfs s;
     (if super_dirty (sfss s sfs)
      then do {
        let s = upd_sfs sfs (\<lambda>d. d\<lparr>super_dirty := False\<rparr>) s;
        (r, s) \<leftarrow> sfs_sync_super sfs s;
        (if r \<noteq> 0 then Some (r, upd_sfs sfs (\<lambda>d. d\<lparr>super_dirty := True\<rparr>) s)
         else do {
           (r, s) \<leftarrow> sfs_sync_freemap sfs s;
           Some (if r \<noteq> 0 then (r, upd_sfs sfs (\<lambda>d. d\<lparr>super_dirty := True\<rparr>) s) else (0, s))
         })
      }
      else Some (0, s))
   }"

definition sfs_get_root :: "nat \<Rightarrow> fst \<Rightarrow> (nat \<times> fst) kresult" where
  "sfs_get_root sfs s = do {
     (r, n, s) \<leftarrow> sfs_load_inode sfs SFS_BLKN_ROOT s;
     kassert (r = 0);
     n \<leftarrow> n;
     Some (n, s)
   }"

definition sfs_unmount :: "nat \<Rightarrow> fst \<Rightarrow> (int \<times> fst) kresult" where
  "sfs_unmount sfs s =
     (if \<not> list_empty (Inode_list sfs) (flinks s) then Some (- E_BUSY, s)
      else do {
        kassert (\<not> super_dirty (sfss s sfs));
        s \<leftarrow> bitmap_destroy (freemap (sfss s sfs)) s;
        s \<leftarrow> fs_kfree (Some (sfs_buffer (sfss s sfs))) s;
        s \<leftarrow> fs_kfree (Some (hash_list (sfss s sfs))) s;
        s \<leftarrow> fs_kfree (Some sfs) s;
        Some (0, s)
      })"

fun cleanup_loop :: "nat \<Rightarrow> nat \<Rightarrow> fst \<Rightarrow> fst kresult" where
  "cleanup_loop sfs 0 s = Some s"
| "cleanup_loop sfs (Suc k) s = do {
     (r, s) \<leftarrow> sfs_sync sfs s;
     (if r = 0 then Some s else cleanup_loop sfs k s)
   }"

definition sfs_cleanup :: "nat \<Rightarrow> fst \<Rightarrow> fst kresult" where "sfs_cleanup sfs s = cleanup_loop sfs 32 s"

subsection \<open>Mounting\<close>

definition sfs_init_read :: "nat \<Rightarrow> 32 word \<Rightarrow> nat \<Rightarrow> fst \<Rightarrow> (int \<times> fst) kresult" where
  "sfs_init_read dn blkno blk_buffer s = do {
     dev \<leftarrow> dev_info dn s;
     (r, _, s) \<leftarrow> dop_io dev (iobuf_init blk_buffer SFS_BLKSIZE (uint (blkno * word_of_nat SFS_BLKSIZE))) False s;
     Some (r, s)
   }"

fun init_freemap_loop :: "nat \<Rightarrow> 32 word \<Rightarrow> nat \<Rightarrow> nat \<Rightarrow> fst \<Rightarrow> (int \<times> fst) kresult" where
  "init_freemap_loop dn blkno 0 data s = Some (0, s)"
| "init_freemap_loop dn blkno (Suc nblks) data s = do {
     (r, s) \<leftarrow> sfs_init_read dn blkno data s;
     (if r \<noteq> 0 then Some (r, s) else init_freemap_loop dn (blkno + 1) nblks (data + SFS_BLKSIZE) s)
   }"

definition sfs_init_freemap :: "nat \<Rightarrow> nat \<Rightarrow> 32 word \<Rightarrow> nat \<Rightarrow> fst \<Rightarrow> (int \<times> fst) kresult" where
  "sfs_init_freemap dn b blkno nblks s = do {
     let (data, len) = bitmap_getdata b s;
     kassert (len = nblks * SFS_BLKSIZE);
     init_freemap_loop dn blkno nblks data s
   }"

fun count_free_loop :: "nat \<Rightarrow> nat \<Rightarrow> nat \<Rightarrow> nat \<Rightarrow> fst \<Rightarrow> nat kresult" where
  "count_free_loop b i 0 unused s = Some unused"
| "count_free_loop b i (Suc k) unused s = do {
     t \<leftarrow> bitmap_test b (word_of_nat i) s;
     count_free_loop b (i + 1) k (if t then unused + 1 else unused) s
   }"

text \<open>
  The stages of \<open>sfs_do_mount\<close>; each gives back what it allocated when a later one fails, as the labels of the
  function do. The last stage loads the map of free blocks.
\<close>

definition mount_freemap :: "nat \<Rightarrow> nat \<Rightarrow> fst \<Rightarrow> (int \<times> fst) kresult" where
  "mount_freemap dn sfs s = do {
     let bits = sfs_freemap_bits sfs s;
     (b, s) \<leftarrow> bitmap_create (word_of_nat bits) s;
     (case b of
        None \<Rightarrow> Some (- E_NO_MEM, s)
      | Some b \<Rightarrow> do {
          let s = upd_sfs sfs (\<lambda>d. d\<lparr>freemap := b\<rparr>) s;
          (r, s) \<leftarrow> sfs_init_freemap dn b SFS_BLKN_FREEMAP (sfs_freemap_blocks sfs s) s;
          (if r \<noteq> 0 then do { s \<leftarrow> bitmap_destroy b s; Some (r, s) }
           else do {
             unused \<leftarrow> count_free_loop b 0 bits 0 s;
             kassert (unused = unat (super_unused sfs s));
             let s = upd_sfs sfs (\<lambda>d. d\<lparr>super_dirty := False\<rparr>) s;
             let s = fs_sem_init (mutex_sem sfs) 1 (fs_sem_init (io_sem sfs) 1 (fs_sem_init (fs_sem sfs) 1 s));
             Some (0, upd_flinks (list_init (Inode_list sfs)) s)
           })
        })
   }"

definition mount_hash :: "nat \<Rightarrow> nat \<Rightarrow> fst \<Rightarrow> (int \<times> fst) kresult" where
  "mount_hash dn sfs s = do {
     (hl, s) \<leftarrow> fs_kmalloc (SIZEOF_LIST_ENTRY * SFS_HLIST_SIZE) s;
     (case hl of
        None \<Rightarrow> Some (- E_NO_MEM, s)
      | Some hl \<Rightarrow> do {
          let s = upd_sfs sfs (\<lambda>d. d\<lparr>hash_list := hl\<rparr>) s;
          let s = fold (\<lambda>i. upd_flinks (list_init (Sfs_hash hl i))) [0..<SFS_HLIST_SIZE] s;
          (r, s) \<leftarrow> mount_freemap dn sfs s;
          (if r \<noteq> 0 then do { s \<leftarrow> fs_kfree (Some hl) s; Some (r, s) } else Some (0, s))
        })
   }"

definition mount_super :: "nat \<Rightarrow> nat \<Rightarrow> nat \<Rightarrow> fst \<Rightarrow> (int \<times> fst) kresult" where
  "mount_super dn sfs buf' s = do {
     dev \<leftarrow> dev_info dn s;
     (r, s) \<leftarrow> sfs_init_read dn SFS_BLKN_SUPER buf' s;
     (if r \<noteq> 0 then Some (r, s)
      else if super_magic buf' s \<noteq> SFS_MAGIC then Some (- E_INVAL, s)
      else if unat (super_blocks buf' s) > d_blocks dev then Some (- E_INVAL, s)
      else do {
        let s = upd_mem (\<lambda>m. m(buf' + 12 + SFS_MAX_INFO_LEN := 0)) s;
        let s = upd_mem (snd \<circ> memcpy sfs buf' SIZEOF_SUPER) s;
        mount_hash dn sfs s
      })
   }"

text \<open>\<open>dn\<close> is the inode of the device; the second result is \<open>*fs_store\<close>, if assigned.\<close>

definition sfs_do_mount :: "nat \<Rightarrow> fst \<Rightarrow> (int \<times> nat option \<times> fst) kresult" where
  "sfs_do_mount dn s = do {
     dev \<leftarrow> dev_info dn s;
     (if d_blocksize dev \<noteq> SFS_BLKSIZE then Some (- E_NA_DEV, None, s)
      else do {
        (sfs, s) \<leftarrow> fs_kmalloc SIZEOF_FS s;
        (case sfs of
           None \<Rightarrow> Some (- E_NO_MEM, None, s)
         | Some sfs \<Rightarrow> do {
             let s = upd_sfs sfs (\<lambda>d. d\<lparr>sfs_dev := dn\<rparr>) s;
             (buf', s) \<leftarrow> fs_kmalloc SFS_BLKSIZE s;
             (r, s) \<leftarrow> (case buf' of
                None \<Rightarrow> Some (- E_NO_MEM, s)
              | Some b \<Rightarrow> do {
                  let s = upd_sfs sfs (\<lambda>d. d\<lparr>sfs_buffer := b\<rparr>) s;
                  (r, s) \<leftarrow> mount_super dn sfs b s;
                  (if r \<noteq> 0 then do { s \<leftarrow> fs_kfree (Some b) s; Some (r, s) } else Some (0, s))
                });
             (if r \<noteq> 0 then do { s \<leftarrow> fs_kfree (Some sfs) s; Some (r, None, s) } else Some (0, Some sfs, s))
           })
      })
   }"

end
