(* ===== verification/Vfs.thy ===== *)
theory Vfs
  imports Sfs_Fs
begin

unbundle bit_operations_syntax

section \<open>The virtual file system (kern/fs/vfs)\<close>

text \<open>
  The list of devices (vfsdev.c), the boot file system (vfs.c), the current directory (vfspath.c), the lookup of a
  path (vfslookup.c), opening and closing (vfsfile.c). Paths are strings in memory, which the lookup may change. A
  function that assigns \<open>*node_store\<close> returns the value.
\<close>

definition FS_MAX_DNAME_LEN :: nat where "FS_MAX_DNAME_LEN = 31"

subsection \<open>Devices (vfsdev.c)\<close>

definition lock_vdev_list :: "fst \<Rightarrow> fst kresult" where "lock_vdev_list = fs_down vdev_list_sem"
definition unlock_vdev_list :: "fst \<Rightarrow> fst kresult" where "unlock_vdev_list = fs_up vdev_list_sem"

definition vfs_devlist_init :: "fst \<Rightarrow> fst" where
  "vfs_devlist_init s = fs_sem_init vdev_list_sem 1 (upd_flinks (list_init Vdev_list) s)"

partial_function (option) vfs_cleanup_loop :: "fs_le \<Rightarrow> fst \<Rightarrow> fst option" where
  "vfs_cleanup_loop le s =
     (let le = list_next le (flinks s) in
      if le \<noteq> Vdev_list
      then do {
        s \<leftarrow> (if vdev_fs (vdevs s (le2vdev le)) = None then Some s
              else do { f \<leftarrow> vdev_fs (vdevs s (le2vdev le)); sfs_cleanup f s });
        vfs_cleanup_loop le s
      }
      else Some s)"

definition vfs_cleanup :: "fst \<Rightarrow> fst kresult" where
  "vfs_cleanup s =
     (if list_empty Vdev_list (flinks s) then Some s
      else do { s \<leftarrow> lock_vdev_list s; s \<leftarrow> vfs_cleanup_loop Vdev_list s; unlock_vdev_list s })"

text \<open>The device whose name is the string at \<open>name\<close>; \<open>ok\<close> is a further condition on it.\<close>

partial_function (option) vdev_find :: "(vfs_dev \<Rightarrow> bool) \<Rightarrow> nat \<Rightarrow> fs_le \<Rightarrow> fst \<Rightarrow> nat option option" where
  "vdev_find ok name le s =
     (let le = list_next le (flinks s) in
      if le \<noteq> Vdev_list
      then if ok (vdevs s (le2vdev le))
        then do {
          c \<leftarrow> strcmp name (devname (vdevs s (le2vdev le))) (mem s);
          (if c = 0 then Some (Some (le2vdev le)) else vdev_find ok name le s)
        }
        else vdev_find ok name le s
      else Some None)"

definition vfs_get_root :: "nat \<Rightarrow> fst \<Rightarrow> (int \<times> nat option \<times> fst) kresult" where
  "vfs_get_root name s =
     (if list_empty Vdev_list (flinks s) then Some (- E_NO_DEV, None, s)
      else do {
        s \<leftarrow> lock_vdev_list s;
        v \<leftarrow> vdev_find (\<lambda>_. True) name Vdev_list s;
        (r, n, s) \<leftarrow> (case v of
           None \<Rightarrow> Some (- E_NO_DEV, None, s)
         | Some v \<Rightarrow> (case vdev_fs (vdevs s v) of
             Some f \<Rightarrow> do { (n, s) \<leftarrow> sfs_get_root f s; Some (0, Some n, s) }
           | None \<Rightarrow>
               if \<not> mountable (vdevs s v)
               then do { n \<leftarrow> devnode (vdevs s v); Some (0, Some n, vop_ref_inc n s) }
               else Some (- E_NA_DEV, None, s)));
        s \<leftarrow> unlock_vdev_list s;
        Some (r, n, s)
      })"

partial_function (option) vfs_get_devname_loop :: "nat \<Rightarrow> fs_le \<Rightarrow> fst \<Rightarrow> nat option option" where
  "vfs_get_devname_loop f le s =
     (let le = list_next le (flinks s) in
      if le \<noteq> Vdev_list
      then if vdev_fs (vdevs s (le2vdev le)) = Some f then Some (Some (devname (vdevs s (le2vdev le))))
           else vfs_get_devname_loop f le s
      else Some None)"

definition vfs_get_devname :: "nat \<Rightarrow> fst \<Rightarrow> nat option kresult" where
  "vfs_get_devname f s = vfs_get_devname_loop f Vdev_list s"

definition check_devname_conflict :: "nat \<Rightarrow> fst \<Rightarrow> bool kresult" where
  "check_devname_conflict name s = do { v \<leftarrow> vdev_find (\<lambda>_. True) name Vdev_list s; Some (v = None) }"

text \<open>\<open>strdup\<close> of kern/libs/string.c.\<close>

definition strdup :: "nat \<Rightarrow> fst \<Rightarrow> (nat option \<times> fst) kresult" where
  "strdup src s = do {
     len \<leftarrow> strlen src (mem s);
     (dst, s) \<leftarrow> fs_kmalloc (len + 1) s;
     Some (case dst of
        None \<Rightarrow> (None, s)
      | Some dst \<Rightarrow> (Some dst, upd_mem (\<lambda>m. (snd (memcpy dst src len m))(dst + len := 0)) s))
   }"

definition vfs_do_add :: "nat \<Rightarrow> nat option \<Rightarrow> nat option \<Rightarrow> bool \<Rightarrow> fst \<Rightarrow> (int \<times> fst) kresult" where
  "vfs_do_add name node' f mount s = do {
     kassert (case node' of None \<Rightarrow> \<not> mount | Some n \<Rightarrow> in_type_of (in_info (inodes s n)) = inode_type_device_info);
     len \<leftarrow> strlen name (mem s);
     (if len > FS_MAX_DNAME_LEN then Some (- E_TOO_BIG, s)
      else do {
        (s_devname, s) \<leftarrow> strdup name s;
        (case s_devname of
           None \<Rightarrow> Some (- E_NO_MEM, s)
         | Some dname \<Rightarrow> do {
             (v, s) \<leftarrow> fs_kmalloc SIZEOF_VDEV s;
             (case v of
                None \<Rightarrow> do { s \<leftarrow> fs_kfree (Some dname) s; Some (- E_NO_MEM, s) }
              | Some v \<Rightarrow> do {
                  s \<leftarrow> lock_vdev_list s;
                  ok \<leftarrow> check_devname_conflict dname s;
                  (if \<not> ok
                   then do {
                     s \<leftarrow> unlock_vdev_list s;
                     s \<leftarrow> fs_kfree (Some v) s;
                     s \<leftarrow> fs_kfree (Some dname) s;
                     Some (- E_EXISTS, s)
                   }
                   else do {
                     let s = upd_vdev v (\<lambda>_. \<lparr>devname = dname, devnode = node', vdev_fs = f, mountable = mount\<rparr>) s;
                     let s = upd_flinks (list_add Vdev_list (Vdev_link v)) s;
                     s \<leftarrow> unlock_vdev_list s;
                     Some (0, s)
                   })
                })
           })
      })
   }"

definition vfs_add_fs :: "nat \<Rightarrow> nat option \<Rightarrow> fst \<Rightarrow> (int \<times> fst) kresult" where
  "vfs_add_fs name f s = vfs_do_add name None f False s"

definition vfs_add_dev :: "nat \<Rightarrow> nat option \<Rightarrow> bool \<Rightarrow> fst \<Rightarrow> (int \<times> fst) kresult" where
  "vfs_add_dev name node' mount s = vfs_do_add name node' None mount s"

definition find_mount :: "nat \<Rightarrow> fst \<Rightarrow> (int \<times> nat option) kresult" where
  "find_mount name s = do {
     v \<leftarrow> vdev_find mountable name Vdev_list s;
     Some (if v = None then - E_NO_DEV else 0, v)
   }"

text \<open>The only \<open>mountfunc\<close> of the kernel is \<open>sfs_do_mount\<close>.\<close>

definition mount_found :: "nat \<Rightarrow> fst \<Rightarrow> (int \<times> fst) kresult" where
  "mount_found v s =
     (if vdev_fs (vdevs s v) \<noteq> None then Some (- E_BUSY, s)
      else do {
        kassert (mountable (vdevs s v));
        dn \<leftarrow> devnode (vdevs s v);
        kassert (in_type_of (in_info (inodes s dn)) = inode_type_device_info);
        (r, f, s) \<leftarrow> sfs_do_mount dn s;
        (if r = 0 then do { kassert (f \<noteq> None); Some (0, upd_vdev v (\<lambda>d. d\<lparr>vdev_fs := f\<rparr>) s) } else Some (r, s))
      })"

definition vfs_mount :: "nat \<Rightarrow> fst \<Rightarrow> (int \<times> fst) kresult" where
  "vfs_mount name s = do {
     s \<leftarrow> lock_vdev_list s;
     (r, v) \<leftarrow> find_mount name s;
     (r, s) \<leftarrow> (case v of None \<Rightarrow> Some (r, s) | Some v \<Rightarrow> mount_found v s);
     s \<leftarrow> unlock_vdev_list s;
     Some (r, s)
   }"

definition unmount_found :: "nat \<Rightarrow> fst \<Rightarrow> (int \<times> fst) kresult" where
  "unmount_found v s = (case vdev_fs (vdevs s v) of
     None \<Rightarrow> Some (- E_INVAL, s)
   | Some f \<Rightarrow> do {
       kassert (mountable (vdevs s v));
       (r, s) \<leftarrow> sfs_sync f s;
       (if r \<noteq> 0 then Some (r, s)
        else do {
          (r, s) \<leftarrow> sfs_unmount f s;
          Some (r, if r = 0 then upd_vdev v (\<lambda>d. d\<lparr>vdev_fs := None\<rparr>) s else s)
        })
     })"

definition vfs_unmount :: "nat \<Rightarrow> fst \<Rightarrow> (int \<times> fst) kresult" where
  "vfs_unmount name s = do {
     s \<leftarrow> lock_vdev_list s;
     (r, v) \<leftarrow> find_mount name s;
     (r, s) \<leftarrow> (case v of None \<Rightarrow> Some (r, s) | Some v \<Rightarrow> unmount_found v s);
     s \<leftarrow> unlock_vdev_list s;
     Some (r, s)
   }"

partial_function (option) unmount_all_loop :: "fs_le \<Rightarrow> fst \<Rightarrow> fst option" where
  "unmount_all_loop le s =
     (let le = list_next le (flinks s) in
      if le \<noteq> Vdev_list
      then do {
        s \<leftarrow> (if mountable (vdevs s (le2vdev le)) \<and> vdev_fs (vdevs s (le2vdev le)) \<noteq> None
              then do { (_, s) \<leftarrow> unmount_found (le2vdev le) s; Some s }
              else Some s);
        unmount_all_loop le s
      }
      else Some s)"

definition vfs_unmount_all :: "fst \<Rightarrow> (int \<times> fst) kresult" where
  "vfs_unmount_all s =
     (if list_empty Vdev_list (flinks s) then Some (0, s)
      else do {
        s \<leftarrow> lock_vdev_list s;
        s \<leftarrow> unmount_all_loop Vdev_list s;
        s \<leftarrow> unlock_vdev_list s;
        Some (0, s)
      })"

subsection \<open>The current directory (vfspath.c)\<close>

definition cur_files :: "fst \<Rightarrow> nat kresult" where
  "cur_files s = do { c \<leftarrow> current (ks (sy s)); filesp (procs (ks (sy s)) c) }"

definition get_cwd_nolock :: "fst \<Rightarrow> nat option kresult" where
  "get_cwd_nolock s = do { fp \<leftarrow> cur_files s; Some (pwd (files s fp)) }"

definition set_cwd_nolock :: "nat option \<Rightarrow> fst \<Rightarrow> fst kresult" where
  "set_cwd_nolock d s = do { fp \<leftarrow> cur_files s; Some (upd_files fp (\<lambda>f. f\<lparr>pwd := d\<rparr>) s) }"

definition lock_files :: "nat \<Rightarrow> fst \<Rightarrow> fst kresult" where "lock_files fp = fs_down (files_sem fp)"
definition unlock_files :: "nat \<Rightarrow> fst \<Rightarrow> fst kresult" where "unlock_files fp = fs_up (files_sem fp)"
definition lock_cfs :: "fst \<Rightarrow> fst kresult" where "lock_cfs s = do { fp \<leftarrow> cur_files s; lock_files fp s }"
definition unlock_cfs :: "fst \<Rightarrow> fst kresult" where "unlock_cfs s = do { fp \<leftarrow> cur_files s; unlock_files fp s }"

definition vfs_get_curdir :: "fst \<Rightarrow> (int \<times> nat option \<times> fst) kresult" where
  "vfs_get_curdir s = do {
     n \<leftarrow> get_cwd_nolock s;
     Some (case n of Some n \<Rightarrow> (0, Some n, vop_ref_inc n s) | None \<Rightarrow> (- E_NOENT, None, s))
   }"

definition change_dir :: "nat option \<Rightarrow> nat option \<Rightarrow> fst \<Rightarrow> fst kresult" where
  "change_dir dir old_dir s = do {
     s \<leftarrow> set_cwd_nolock dir s;
     (case old_dir of Some o' \<Rightarrow> vop_ref_dec o' s | None \<Rightarrow> Some s)
   }"

definition vfs_set_curdir :: "nat option \<Rightarrow> fst \<Rightarrow> (int \<times> fst) kresult" where
  "vfs_set_curdir dir s = do {
     s \<leftarrow> lock_cfs s;
     old_dir \<leftarrow> get_cwd_nolock s;
     (r, s) \<leftarrow>
       (if old_dir = dir then Some (0, s)
        else (case dir of
           None \<Rightarrow> do { s \<leftarrow> change_dir dir old_dir s; Some (0, s) }
         | Some d \<Rightarrow> do {
             (r, type) \<leftarrow> vop_gettype d s;
             (if r \<noteq> 0 then Some (r, s)
              else if \<not> S_ISDIR type then Some (- E_NOTDIR, s)
              else do { s \<leftarrow> change_dir dir old_dir (vop_ref_inc d s); Some (0, s) })
           }));
     s \<leftarrow> unlock_cfs s;
     Some (r, s)
   }"

subsection \<open>The boot file system (vfs.c)\<close>

definition vfs_init :: "fst \<Rightarrow> fst" where "vfs_init s = vfs_devlist_init (fs_sem_init bootfs_sem 1 s)"

definition lock_bootfs :: "fst \<Rightarrow> fst kresult" where "lock_bootfs = fs_down bootfs_sem"
definition unlock_bootfs :: "fst \<Rightarrow> fst kresult" where "unlock_bootfs = fs_up bootfs_sem"

definition change_bootfs :: "nat option \<Rightarrow> fst \<Rightarrow> fst kresult" where
  "change_bootfs n s = do {
     s \<leftarrow> lock_bootfs s;
     let old = bootfs_node s;
     let s = s\<lparr>bootfs_node := n\<rparr>;
     s \<leftarrow> unlock_bootfs s;
     (case old of Some o' \<Rightarrow> vop_ref_dec o' s | None \<Rightarrow> Some s)
   }"

definition vfs_get_bootfs :: "fst \<Rightarrow> (int \<times> nat option \<times> fst) kresult" where
  "vfs_get_bootfs s = do {
     (n, s) \<leftarrow>
       (if bootfs_node s = None then Some (None, s)
        else do {
          s \<leftarrow> lock_bootfs s;
          let n = bootfs_node s;
          let s = (case n of Some b \<Rightarrow> vop_ref_inc b s | None \<Rightarrow> s);
          s \<leftarrow> unlock_bootfs s;
          Some (n, s)
        });
     Some (if n = None then - E_NOENT else 0, n, s)
   }"

subsection \<open>Paths (vfslookup.c)\<close>

text \<open>The position of the first colon or slash, if it comes before the end; \<open>True\<close> for a colon.\<close>

partial_function (option) path_scan :: "nat \<Rightarrow> nat \<Rightarrow> bytes \<Rightarrow> (nat \<times> bool) option option" where
  "path_scan path i m =
     (if m (path + i) = 0 then Some None
      else if m (path + i) = chr '':'' then Some (Some (i, True))
      else if m (path + i) = chr ''/'' then Some (Some (i, False))
      else path_scan path (i + 1) m)"

partial_function (option) skip_slashes :: "nat \<Rightarrow> bytes \<Rightarrow> nat option" where
  "skip_slashes p m = (if m p = chr ''/'' then skip_slashes (p + 1) m else Some p)"

text \<open>The result, \<open>*subpath\<close> and \<open>*node_store\<close>.\<close>

definition get_device :: "nat \<Rightarrow> fst \<Rightarrow> (int \<times> nat \<times> nat option \<times> fst) kresult" where
  "get_device path s = do {
     stop \<leftarrow> path_scan path 0 (mem s);
     (if case stop of None \<Rightarrow> True | Some (i, colon) \<Rightarrow> \<not> colon \<and> i \<noteq> 0
      then do { (r, n, s) \<leftarrow> vfs_get_curdir s; Some (r, path, n, s) }
      else do {
        (i, colon) \<leftarrow> stop;
        (if colon \<and> i > 0
         then do {
           let s = upd_mem (\<lambda>m. m(path + i := 0)) s;
           sub \<leftarrow> skip_slashes (path + i + 1) (mem s);
           (r, n, s) \<leftarrow> vfs_get_root path s;
           Some (r, sub, n, s)
         }
         else do {
           (r, n, s) \<leftarrow>
             (if mem s path = chr ''/'' then vfs_get_bootfs s
              else do {
                kassert (mem s path = chr '':'');
                (r, n, s) \<leftarrow> vfs_get_curdir s;
                (case n of
                   None \<Rightarrow> Some (r, None, s)
                 | Some n \<Rightarrow> do {
                     f \<leftarrow> in_fs (inodes s n);
                     (root, s) \<leftarrow> sfs_get_root f s;
                     s \<leftarrow> vop_ref_dec n s;
                     Some (0, Some root, s)
                   })
              });
           (if r \<noteq> 0 then Some (r, path, None, s)
            else do { sub \<leftarrow> skip_slashes (path + 1) (mem s); Some (0, sub, n, s) })
         })
      })
   }"

definition vfs_lookup :: "nat \<Rightarrow> fst \<Rightarrow> (int \<times> nat option \<times> fst) kresult" where
  "vfs_lookup path s = do {
     (r, path, n, s) \<leftarrow> get_device path s;
     (if r \<noteq> 0 then Some (r, None, s)
      else do {
        n \<leftarrow> n;
        (if mem s path \<noteq> 0
         then do {
           (r, sub, s) \<leftarrow> vop_lookup n path s;
           s \<leftarrow> vop_ref_dec n s;
           Some (r, sub, s)
         }
         else Some (0, Some n, s))
      })
   }"

text \<open>The result, \<open>*node_store\<close> and \<open>*endp\<close>.\<close>

definition vfs_lookup_parent :: "nat \<Rightarrow> fst \<Rightarrow> (int \<times> nat option \<times> nat \<times> fst) kresult" where
  "vfs_lookup_parent path s = do {
     (r, path, n, s) \<leftarrow> get_device path s;
     Some (r, n, path, s)
   }"

definition vfs_chdir :: "nat \<Rightarrow> fst \<Rightarrow> (int \<times> fst) kresult" where
  "vfs_chdir path s = do {
     (r, n, s) \<leftarrow> vfs_lookup path s;
     (if r \<noteq> 0 then Some (r, s)
      else do {
        n \<leftarrow> n;
        (r, s) \<leftarrow> vfs_set_curdir (Some n) s;
        s \<leftarrow> vop_ref_dec n s;
        Some (r, s)
      })
   }"

definition vfs_set_bootfs :: "nat option \<Rightarrow> fst \<Rightarrow> (int \<times> fst) kresult" where
  "vfs_set_bootfs fsname s = (case fsname of
     None \<Rightarrow> do { s \<leftarrow> change_bootfs None s; Some (0, s) }
   | Some name \<Rightarrow> do {
       c \<leftarrow> strchr name (chr '':'') (mem s);
       (if case c of None \<Rightarrow> True | Some c' \<Rightarrow> mem s (c' + 1) \<noteq> 0 then Some (- E_INVAL, s)
        else do {
          (r, s) \<leftarrow> vfs_chdir name s;
          (if r \<noteq> 0 then Some (r, s)
           else do {
             (r, n, s) \<leftarrow> vfs_get_curdir s;
             (if r \<noteq> 0 then Some (r, s) else do { s \<leftarrow> change_bootfs n s; Some (0, s) })
           })
        })
     })"

text \<open>\<open>colon\<close> is the address of the local variable that holds the character.\<close>

definition vfs_getcwd :: "nat \<Rightarrow> nat \<Rightarrow> iobuf \<Rightarrow> fst \<Rightarrow> (int \<times> iobuf \<times> fst) kresult" where
  "vfs_getcwd dotdot colon iob s = do {
     (r, n, s) \<leftarrow> vfs_get_curdir s;
     (case n of
        None \<Rightarrow> Some (r, iob, s)
      | Some n \<Rightarrow> do {
          f \<leftarrow> in_fs (inodes s n);
          name \<leftarrow> vfs_get_devname f s;
          name \<leftarrow> name;
          len \<leftarrow> strlen name (mem s);
          (r, _, iob, s) \<leftarrow> fs_move iob name len True s;
          (r, iob, s) \<leftarrow>
            (if r \<noteq> 0 then Some (r, iob, s)
             else do {
               let s = upd_mem (\<lambda>m. m(colon := chr '':'')) s;
               (r, _, iob, s) \<leftarrow> fs_move iob colon 1 True s;
               (if r \<noteq> 0 then Some (r, iob, s) else vop_namefile dotdot n iob s)
             });
          s \<leftarrow> vop_ref_dec n s;
          Some (r, iob, s)
        })
   }"

subsection \<open>Opening and closing (vfsfile.c)\<close>

text \<open>
  The part of \<open>vfs_open\<close> that finds or creates the inode. The result of \<open>vop_create\<close> is not looked at there, and
  \<open>node\<close> keeps its value when it was not assigned; \<open>vop_create\<close> is in no table.
\<close>

definition open_lookup :: "nat \<Rightarrow> bool \<Rightarrow> bool \<Rightarrow> fst \<Rightarrow> (int \<times> nat option \<times> fst) kresult" where
  "open_lookup path create excl s = do {
     (r, n, s) \<leftarrow> vfs_lookup path s;
     (if r \<noteq> 0
      then if r = - 16 \<and> create
        then do {
          (r, dir, name, s) \<leftarrow> vfs_lookup_parent path s;
          (if r \<noteq> 0 then Some (r, None, s)
           else do { dir \<leftarrow> dir; (_, n, s) \<leftarrow> vop_create dir name excl s; Some (0, n, s) })
        }
        else Some (r, None, s)
      else if excl \<and> create then Some (- E_EXISTS, None, s)
      else Some (0, n, s))
   }"

text \<open>The rest of \<open>vfs_open\<close>, on the inode it found.\<close>

definition open_node :: "nat \<Rightarrow> 32 word \<Rightarrow> bool \<Rightarrow> fst \<Rightarrow> (int \<times> nat option \<times> fst) kresult" where
  "open_node n open_flags create s = do {
     r \<leftarrow> vop_open n open_flags s;
     (if r \<noteq> 0 then do { s \<leftarrow> vop_ref_dec n s; Some (r, None, s) }
      else do {
        let s = vop_open_inc n s;
        (r, s) \<leftarrow> (if open_flags AND O_TRUNC \<noteq> 0 \<or> create then vop_truncate n 0 s else Some (0, s));
        (if r \<noteq> 0 then do { s \<leftarrow> vop_open_dec n s; s \<leftarrow> vop_ref_dec n s; Some (r, None, s) }
         else Some (0, Some n, s))
      })
   }"

definition vfs_open :: "nat \<Rightarrow> 32 word \<Rightarrow> fst \<Rightarrow> (int \<times> nat option \<times> fst) kresult" where
  "vfs_open path open_flags s =
     (let acc = open_flags AND O_ACCMODE;
          can_write = (acc = O_WRONLY \<or> acc = O_RDWR);
          excl = (open_flags AND O_EXCL \<noteq> 0);
          create = (open_flags AND O_CREAT \<noteq> 0)
      in if \<not> (acc = O_RDONLY \<or> can_write) then Some (- E_INVAL, None, s)
         else if open_flags AND O_TRUNC \<noteq> 0 \<and> \<not> can_write then Some (- E_INVAL, None, s)
         else do {
           (r, n, s) \<leftarrow> open_lookup path create excl s;
           (if r \<noteq> 0 then Some (r, None, s) else do { n \<leftarrow> n; open_node n open_flags create s })
         })"

definition vfs_close :: "nat \<Rightarrow> fst \<Rightarrow> (int \<times> fst) kresult" where
  "vfs_close n s = do { s \<leftarrow> vop_open_dec n s; s \<leftarrow> vop_ref_dec n s; Some (0, s) }"

definition vfs_unlink :: int where "vfs_unlink = - E_UNIMP"
definition vfs_rename :: int where "vfs_rename = - E_UNIMP"
definition vfs_link :: int where "vfs_link = - E_UNIMP"
definition vfs_symlink :: int where "vfs_symlink = - E_UNIMP"
definition vfs_readlink :: int where "vfs_readlink = - E_UNIMP"
definition vfs_mkdir :: int where "vfs_mkdir = - E_UNIMP"

end
