(* ===== verification/File_Table.thy ===== *)
theory File_Table
  imports Vfs
begin

unbundle bit_operations_syntax

section \<open>Open files (kern/fs/file.c, kern/fs/fs.c)\<close>

text \<open>
  The table of open files of a process. A \<open>struct file *\<close> is the address \<open>fp\<close> of its \<open>files_struct\<close> and the index
  \<open>i\<close> in the table. The operations of file.c work on the table of the current process.
\<close>

definition FILES_STRUCT_BUFSIZE :: nat where "FILES_STRUCT_BUFSIZE = PGSIZE - SIZEOF_FILES"
definition FILES_STRUCT_NENTRY :: nat where "FILES_STRUCT_NENTRY = FILES_STRUCT_BUFSIZE div SIZEOF_FILE"
definition NO_FD :: int where "NO_FD = - 0x9527"
definition LSEEK_SET :: int where "LSEEK_SET = 0"
definition LSEEK_CUR :: int where "LSEEK_CUR = 1"
definition LSEEK_END :: int where "LSEEK_END = 2"

definition testfd :: "int \<Rightarrow> bool" where "testfd fd \<longleftrightarrow> fd \<ge> 0 \<and> fd < int FILES_STRUCT_NENTRY"

definition file_at :: "nat \<Rightarrow> nat \<Rightarrow> fst \<Rightarrow> file_struct" where "file_at fp i s = fd_array (files s fp) i"

definition upd_file :: "nat \<Rightarrow> nat \<Rightarrow> (file_struct \<Rightarrow> file_struct) \<Rightarrow> fst \<Rightarrow> fst" where
  "upd_file fp i f = upd_files fp (\<lambda>t. t\<lparr>fd_array := (fd_array t)(i := f (fd_array t i))\<rparr>)"

subsection \<open>Slots (file.c)\<close>

definition fopen_count_inc :: "nat \<Rightarrow> nat \<Rightarrow> fst \<Rightarrow> int \<times> fst" where
  "fopen_count_inc fp i s =
     (let s = upd_file fp i (\<lambda>f. f\<lparr>fopen_cnt := fopen_cnt f + 1\<rparr>) s in (fopen_cnt (file_at fp i s), s))"

definition fopen_count_dec :: "nat \<Rightarrow> nat \<Rightarrow> fst \<Rightarrow> int \<times> fst" where
  "fopen_count_dec fp i s =
     (let s = upd_file fp i (\<lambda>f. f\<lparr>fopen_cnt := fopen_cnt f - 1\<rparr>) s in (fopen_cnt (file_at fp i s), s))"

definition get_fd_array :: "fst \<Rightarrow> nat kresult" where
  "get_fd_array s = do {
     fp \<leftarrow> cur_files s;
     kassert (files_cnt (files s fp) > 0);
     Some fp
   }"

definition fd_array_init :: "nat \<Rightarrow> fst \<Rightarrow> fst" where
  "fd_array_init fp = fold (\<lambda>i. upd_file fp i (\<lambda>f. f\<lparr>fopen_cnt := 0, fstatus := FD_NONE, file_fd := int i\<rparr>))
     [0..<FILES_STRUCT_NENTRY]"

definition fd_array_alloc :: "int \<Rightarrow> fst \<Rightarrow> (int \<times> nat option \<times> fst) kresult" where
  "fd_array_alloc fd s = do {
     fp \<leftarrow> get_fd_array s;
     let (r, i) =
       (if fd = NO_FD
        then case find (\<lambda>i. fstatus (file_at fp i s) = FD_NONE) [0..<FILES_STRUCT_NENTRY] of
            Some i \<Rightarrow> (0, Some i)
          | None \<Rightarrow> (- E_MAX_OPEN, None)
        else if testfd fd
        then if fstatus (file_at fp (nat fd) s) = FD_NONE then (0, Some (nat fd)) else (- E_BUSY, None)
        else (- E_INVAL, None));
     (case i of
        None \<Rightarrow> Some (r, None, s)
      | Some i \<Rightarrow> do {
          kassert (fopen_cnt (file_at fp i s) = 0);
          Some (0, Some i, upd_file fp i (\<lambda>f. f\<lparr>fstatus := FD_INIT, fnode := None\<rparr>) s)
        })
   }"

definition fd_array_free :: "nat \<Rightarrow> nat \<Rightarrow> fst \<Rightarrow> fst kresult" where
  "fd_array_free fp i s = do {
     kassert (fstatus (file_at fp i s) = FD_INIT \<or> fstatus (file_at fp i s) = FD_CLOSED);
     kassert (fopen_cnt (file_at fp i s) = 0);
     s \<leftarrow> (if fstatus (file_at fp i s) = FD_CLOSED
           then do { n \<leftarrow> fnode (file_at fp i s); (_, s) \<leftarrow> vfs_close n s; Some s }
           else Some s);
     Some (upd_file fp i (\<lambda>f. f\<lparr>fstatus := FD_NONE\<rparr>) s)
   }"

definition fd_array_acquire :: "nat \<Rightarrow> nat \<Rightarrow> fst \<Rightarrow> fst kresult" where
  "fd_array_acquire fp i s = do {
     kassert (fstatus (file_at fp i s) = FD_OPENED);
     Some (snd (fopen_count_inc fp i s))
   }"

definition fd_array_release :: "nat \<Rightarrow> nat \<Rightarrow> fst \<Rightarrow> fst kresult" where
  "fd_array_release fp i s = do {
     kassert (fstatus (file_at fp i s) = FD_OPENED \<or> fstatus (file_at fp i s) = FD_CLOSED);
     kassert (fopen_cnt (file_at fp i s) > 0);
     let (c, s) = fopen_count_dec fp i s;
     (if c = 0 then fd_array_free fp i s else Some s)
   }"

definition fd_array_open :: "nat \<Rightarrow> nat \<Rightarrow> fst \<Rightarrow> fst kresult" where
  "fd_array_open fp i s = do {
     kassert (fstatus (file_at fp i s) = FD_INIT \<and> fnode (file_at fp i s) \<noteq> None);
     let s = upd_file fp i (\<lambda>f. f\<lparr>fstatus := FD_OPENED\<rparr>) s;
     Some (snd (fopen_count_inc fp i s))
   }"

definition fd_array_close :: "nat \<Rightarrow> nat \<Rightarrow> fst \<Rightarrow> fst kresult" where
  "fd_array_close fp i s = do {
     kassert (fstatus (file_at fp i s) = FD_OPENED);
     kassert (fopen_cnt (file_at fp i s) > 0);
     let s = upd_file fp i (\<lambda>f. f\<lparr>fstatus := FD_CLOSED\<rparr>) s;
     let (c, s) = fopen_count_dec fp i s;
     (if c = 0 then fd_array_free fp i s else Some s)
   }"

definition fd_array_dup :: "nat \<Rightarrow> nat \<Rightarrow> nat \<Rightarrow> nat \<Rightarrow> fst \<Rightarrow> fst kresult" where
  "fd_array_dup to i from j s = do {
     let f = file_at from j s;
     kassert (fstatus (file_at to i s) = FD_INIT \<and> fstatus f = FD_OPENED);
     let s = upd_file to i (\<lambda>t. t\<lparr>fpos := fpos f, readable := readable f, writable := writable f\<rparr>) s;
     n \<leftarrow> fnode f;
     let s = vop_open_inc n (vop_ref_inc n s);
     let s = upd_file to i (\<lambda>t. t\<lparr>fnode := Some n\<rparr>) s;
     fd_array_open to i s
   }"

definition fd2file :: "int \<Rightarrow> fst \<Rightarrow> (int \<times> (nat \<times> nat) option) kresult" where
  "fd2file fd s =
     (if testfd fd
      then do {
        fp \<leftarrow> get_fd_array s;
        let f = file_at fp (nat fd) s;
        Some (if fstatus f = FD_OPENED \<and> file_fd f = fd then (0, Some (fp, nat fd)) else (- E_INVAL, None))
      }
      else Some (- E_INVAL, None))"

definition file_testfd :: "int \<Rightarrow> bool \<Rightarrow> bool \<Rightarrow> fst \<Rightarrow> bool kresult" where
  "file_testfd fd rd wr s = do {
     (r, f) \<leftarrow> fd2file fd s;
     Some (case f of
        None \<Rightarrow> False
      | Some (fp, i) \<Rightarrow> (rd \<longrightarrow> readable (file_at fp i s)) \<and> (wr \<longrightarrow> writable (file_at fp i s)))
   }"

subsection \<open>Opening and closing\<close>

definition file_open :: "nat \<Rightarrow> 32 word \<Rightarrow> fst \<Rightarrow> (int \<times> fst) kresult" where
  "file_open path open_flags s =
     (let acc = open_flags AND O_ACCMODE;
          rd = (acc = O_RDONLY \<or> acc = O_RDWR);
          wr = (acc = O_WRONLY \<or> acc = O_RDWR)
      in if \<not> rd \<and> \<not> wr then Some (- E_INVAL, s)
         else do {
           fp \<leftarrow> get_fd_array s;
           (r, i, s) \<leftarrow> fd_array_alloc NO_FD s;
           (case i of
              None \<Rightarrow> Some (r, s)
            | Some i \<Rightarrow> do {
                (r, n, s) \<leftarrow> vfs_open path open_flags s;
                (if r \<noteq> 0 then do { s \<leftarrow> fd_array_free fp i s; Some (r, s) }
                 else do {
                   n \<leftarrow> n;
                   let s = upd_file fp i (\<lambda>f. f\<lparr>fpos := 0\<rparr>) s;
                   (r, st) \<leftarrow> (if open_flags AND O_APPEND \<noteq> 0 then vop_fstat n s else Some (0, no_stat));
                   (if r \<noteq> 0
                    then do { (_, s) \<leftarrow> vfs_close n s; s \<leftarrow> fd_array_free fp i s; Some (r, s) }
                    else do {
                      let s = upd_file fp i (\<lambda>f. f\<lparr>fpos := int (st_size st), fnode := Some n, readable := rd, writable := wr\<rparr>) s;
                      s \<leftarrow> fd_array_open fp i s;
                      Some (file_fd (file_at fp i s), s)
                    })
                 })
              })
         })"

definition file_close :: "int \<Rightarrow> fst \<Rightarrow> (int \<times> fst) kresult" where
  "file_close fd s = do {
     (r, f) \<leftarrow> fd2file fd s;
     (case f of
        None \<Rightarrow> Some (r, s)
      | Some (fp, i) \<Rightarrow> do { s \<leftarrow> fd_array_close fp i s; Some (0, s) })
   }"

definition file_dup :: "int \<Rightarrow> int \<Rightarrow> fst \<Rightarrow> (int \<times> fst) kresult" where
  "file_dup fd1 fd2 s = do {
     (r, f) \<leftarrow> fd2file fd1 s;
     (case f of
        None \<Rightarrow> Some (r, s)
      | Some (fp, j) \<Rightarrow> do {
          (r, i, s) \<leftarrow> fd_array_alloc fd2 s;
          (case i of
             None \<Rightarrow> Some (r, s)
           | Some i \<Rightarrow> do { s \<leftarrow> fd_array_dup fp i fp j s; Some (file_fd (file_at fp i s), s) })
        })
   }"

subsection \<open>Reading, writing and seeking\<close>

text \<open>\<open>file_read\<close> and \<open>file_write\<close>: the result, the value of \<open>*copied_store\<close> and the state.\<close>

definition file_io ::
    "(file_struct \<Rightarrow> bool) \<Rightarrow> (nat \<Rightarrow> iobuf \<Rightarrow> fst \<Rightarrow> (int \<times> iobuf \<times> fst) kresult) \<Rightarrow>
     int \<Rightarrow> nat \<Rightarrow> nat \<Rightarrow> fst \<Rightarrow> (int \<times> nat \<times> fst) kresult" where
  "file_io allowed vop fd base len s = do {
     (r, f) \<leftarrow> fd2file fd s;
     (case f of
        None \<Rightarrow> Some (r, 0, s)
      | Some (fp, i) \<Rightarrow>
          if \<not> allowed (file_at fp i s) then Some (- E_INVAL, 0, s)
          else do {
            s \<leftarrow> fd_array_acquire fp i s;
            n \<leftarrow> fnode (file_at fp i s);
            (r, iob, s) \<leftarrow> vop n (iobuf_init base len (fpos (file_at fp i s))) s;
            let copied = iobuf_used iob;
            let s = (if fstatus (file_at fp i s) = FD_OPENED
                     then upd_file fp i (\<lambda>f. f\<lparr>fpos := add_off (fpos f) copied\<rparr>) s else s);
            s \<leftarrow> fd_array_release fp i s;
            Some (r, copied, s)
          })
   }"

definition file_read :: "int \<Rightarrow> nat \<Rightarrow> nat \<Rightarrow> fst \<Rightarrow> (int \<times> nat \<times> fst) kresult" where
  "file_read = file_io readable vop_read"

definition file_write :: "int \<Rightarrow> nat \<Rightarrow> nat \<Rightarrow> fst \<Rightarrow> (int \<times> nat \<times> fst) kresult" where
  "file_write = file_io writable vop_write"

definition seek_to :: "nat \<Rightarrow> nat \<Rightarrow> nat \<Rightarrow> int \<Rightarrow> int \<Rightarrow> fst \<Rightarrow> (int \<times> int) kresult" where
  "seek_to fp i n pos whence s =
     (if whence = LSEEK_SET then Some (0, pos)
      else if whence = LSEEK_CUR then Some (0, pos + fpos (file_at fp i s))
      else if whence = LSEEK_END
      then do { (r, st) \<leftarrow> vop_fstat n s; Some (r, if r = 0 then add_off pos (st_size st) else pos) }
      else Some (- E_INVAL, pos))"

definition file_seek :: "int \<Rightarrow> int \<Rightarrow> int \<Rightarrow> fst \<Rightarrow> (int \<times> fst) kresult" where
  "file_seek fd pos whence s = do {
     (r, f) \<leftarrow> fd2file fd s;
     (case f of
        None \<Rightarrow> Some (r, s)
      | Some (fp, i) \<Rightarrow> do {
          s \<leftarrow> fd_array_acquire fp i s;
          n \<leftarrow> fnode (file_at fp i s);
          (r, pos) \<leftarrow> seek_to fp i n pos whence s;
          (r, s) \<leftarrow>
            (if r = 0
             then do {
               (r, s) \<leftarrow> vop_tryseek n pos s;
               Some (r, if r = 0 then upd_file fp i (\<lambda>f. f\<lparr>fpos := pos\<rparr>) s else s)
             }
             else Some (r, s));
          s \<leftarrow> fd_array_release fp i s;
          Some (r, s)
        })
   }"

definition file_fstat :: "int \<Rightarrow> fst \<Rightarrow> (int \<times> stat \<times> fst) kresult" where
  "file_fstat fd s = do {
     (r, f) \<leftarrow> fd2file fd s;
     (case f of
        None \<Rightarrow> Some (r, no_stat, s)
      | Some (fp, i) \<Rightarrow> do {
          s \<leftarrow> fd_array_acquire fp i s;
          n \<leftarrow> fnode (file_at fp i s);
          (r, st) \<leftarrow> vop_fstat n s;
          s \<leftarrow> fd_array_release fp i s;
          Some (r, st, s)
        })
   }"

definition file_fsync :: "int \<Rightarrow> fst \<Rightarrow> (int \<times> fst) kresult" where
  "file_fsync fd s = do {
     (r, f) \<leftarrow> fd2file fd s;
     (case f of
        None \<Rightarrow> Some (r, s)
      | Some (fp, i) \<Rightarrow> do {
          s \<leftarrow> fd_array_acquire fp i s;
          n \<leftarrow> fnode (file_at fp i s);
          (r, s) \<leftarrow> vop_fsync n s;
          s \<leftarrow> fd_array_release fp i s;
          Some (r, s)
        })
   }"

text \<open>A \<open>struct dirent\<close> at \<open>de\<close>: the offset, then the name.\<close>

definition dirent_name :: "nat \<Rightarrow> nat" where "dirent_name de = de + 8"

definition file_getdirentry :: "int \<Rightarrow> nat \<Rightarrow> fst \<Rightarrow> (int \<times> fst) kresult" where
  "file_getdirentry fd de s = do {
     (r, f) \<leftarrow> fd2file fd s;
     (case f of
        None \<Rightarrow> Some (r, s)
      | Some (fp, i) \<Rightarrow> do {
          s \<leftarrow> fd_array_acquire fp i s;
          n \<leftarrow> fnode (file_at fp i s);
          (r, iob, s) \<leftarrow> vop_getdirentry n (iobuf_init (dirent_name de) (SFS_MAX_FNAME_LEN + 1) (sint (rd64 de (mem s)))) s;
          let s = (if r = 0
                   then upd_mem (wr64 de (rd64 de (mem s) + word_of_nat (iobuf_used iob))) s else s);
          s \<leftarrow> fd_array_release fp i s;
          Some (r, s)
        })
   }"

subsection \<open>Tables (fs.c)\<close>

definition files_count_inc :: "nat \<Rightarrow> fst \<Rightarrow> int \<times> fst" where
  "files_count_inc fp s =
     (let s = upd_files fp (\<lambda>t. t\<lparr>files_cnt := files_cnt t + 1\<rparr>) s in (files_cnt (files s fp), s))"

definition files_count_dec :: "nat \<Rightarrow> fst \<Rightarrow> int \<times> fst" where
  "files_count_dec fp s =
     (let s = upd_files fp (\<lambda>t. t\<lparr>files_cnt := files_cnt t - 1\<rparr>) s in (files_cnt (files s fp), s))"

definition files_create :: "fst \<Rightarrow> (nat option \<times> fst) kresult" where
  "files_create s = do {
     (fp, s) \<leftarrow> fs_kmalloc (SIZEOF_FILES + FILES_STRUCT_BUFSIZE) s;
     Some (case fp of
        None \<Rightarrow> (None, s)
      | Some fp \<Rightarrow>
          (let s = upd_files fp (\<lambda>t. t\<lparr>pwd := None, files_cnt := 0\<rparr>) s;
               s = fs_sem_init (files_sem fp) 1 s
           in (Some fp, fd_array_init fp s)))
   }"

fun destroy_loop :: "nat \<Rightarrow> nat list \<Rightarrow> fst \<Rightarrow> fst kresult" where
  "destroy_loop fp [] s = Some s"
| "destroy_loop fp (i # is) s = do {
     s \<leftarrow> (if fstatus (file_at fp i s) = FD_OPENED then fd_array_close fp i s else Some s);
     kassert (fstatus (file_at fp i s) = FD_NONE);
     destroy_loop fp is s
   }"

definition files_destroy :: "nat \<Rightarrow> fst \<Rightarrow> fst kresult" where
  "files_destroy fp s = do {
     kassert (files_cnt (files s fp) = 0);
     s \<leftarrow> (case pwd (files s fp) of Some d \<Rightarrow> vop_ref_dec d s | None \<Rightarrow> Some s);
     s \<leftarrow> destroy_loop fp [0..<FILES_STRUCT_NENTRY] s;
     fs_kfree (Some fp) s
   }"

fun closeall_loop :: "nat \<Rightarrow> nat list \<Rightarrow> fst \<Rightarrow> fst kresult" where
  "closeall_loop fp [] s = Some s"
| "closeall_loop fp (i # is) s = do {
     s \<leftarrow> (if fstatus (file_at fp i s) = FD_OPENED then fd_array_close fp i s else Some s);
     closeall_loop fp is s
   }"

definition files_closeall :: "nat \<Rightarrow> fst \<Rightarrow> fst kresult" where
  "files_closeall fp s = do {
     kassert (files_cnt (files s fp) > 0);
     closeall_loop fp [2..<FILES_STRUCT_NENTRY] s
   }"

fun dup_loop :: "nat \<Rightarrow> nat \<Rightarrow> nat list \<Rightarrow> fst \<Rightarrow> fst kresult" where
  "dup_loop to from [] s = Some s"
| "dup_loop to from (i # is) s = do {
     s \<leftarrow> (if fstatus (file_at from i s) = FD_OPENED
           then fd_array_dup to i from i (upd_file to i (\<lambda>f. f\<lparr>fstatus := FD_INIT\<rparr>) s)
           else Some s);
     dup_loop to from is s
   }"

definition dup_files :: "nat \<Rightarrow> nat \<Rightarrow> fst \<Rightarrow> (int \<times> fst) kresult" where
  "dup_files to from s = do {
     kassert (files_cnt (files s to) = 0 \<and> files_cnt (files s from) > 0);
     let s = upd_files to (\<lambda>t. t\<lparr>pwd := pwd (files s from)\<rparr>) s;
     let s = (case pwd (files s to) of Some d \<Rightarrow> vop_ref_inc d s | None \<Rightarrow> s);
     s \<leftarrow> dup_loop to from [0..<FILES_STRUCT_NENTRY] s;
     Some (0, s)
   }"

subsection \<open>Start and end\<close>

text \<open>The addresses of the names in the initialisation of the devices are parameters.\<close>

definition add_device :: "nat \<Rightarrow> bool \<Rightarrow> (nat \<Rightarrow> fst \<Rightarrow> fst kresult) \<Rightarrow> fst \<Rightarrow> fst kresult" where
  "add_device name mount init s = do {
     (n, s) \<leftarrow> dev_create_inode s;
     n \<leftarrow> n;
     s \<leftarrow> init n s;
     (r, s) \<leftarrow> vfs_add_dev name (Some n) mount s;
     kassert (r = 0);
     Some s
   }"

definition dev_init_stdin :: "nat \<Rightarrow> fst \<Rightarrow> fst kresult" where
  "dev_init_stdin name = add_device name False (\<lambda>n s. Some (stdin_device_init n s))"

definition dev_init_stdout :: "nat \<Rightarrow> fst \<Rightarrow> fst kresult" where
  "dev_init_stdout name = add_device name False (\<lambda>n s. Some (stdout_device_init n s))"

definition dev_init_disk0 :: "nat \<Rightarrow> fst \<Rightarrow> fst kresult" where
  "dev_init_disk0 name = add_device name True disk0_device_init"

definition dev_init :: "nat \<Rightarrow> nat \<Rightarrow> nat \<Rightarrow> fst \<Rightarrow> fst kresult" where
  "dev_init stdin_name stdout_name disk0_name s = do {
     s \<leftarrow> dev_init_stdin stdin_name s;
     s \<leftarrow> dev_init_stdout stdout_name s;
     dev_init_disk0 disk0_name s
   }"

definition sfs_init :: "nat \<Rightarrow> fst \<Rightarrow> fst kresult" where
  "sfs_init disk0_name s = do {
     (r, s) \<leftarrow> vfs_mount disk0_name s;
     kassert (r = 0);
     Some s
   }"

definition fs_init :: "nat \<Rightarrow> nat \<Rightarrow> nat \<Rightarrow> fst \<Rightarrow> fst kresult" where
  "fs_init stdin_name stdout_name disk0_name s = do {
     s \<leftarrow> dev_init stdin_name stdout_name disk0_name (vfs_init s);
     sfs_init disk0_name s
   }"

definition fs_cleanup :: "fst \<Rightarrow> fst kresult" where "fs_cleanup = vfs_cleanup"

end
