(* ===== verification/Sysfile.thy ===== *)
theory Sysfile
  imports File_Table
begin

unbundle bit_operations_syntax

section \<open>The file system calls (kern/fs/sysfile.c)\<close>

text \<open>
  Each call checks and copies its user memory under the lock of the \<open>mm_struct\<close> of the caller, then calls file.c or
  the virtual file system. Local structures whose address is passed on are at the address \<open>loc\<close>.
\<close>

definition IOBUF_SIZE :: nat where "IOBUF_SIZE = 4096"
definition FS_MAX_FPATH_LEN :: nat where "FS_MAX_FPATH_LEN = 4095"
definition SIZEOF_STAT :: nat where "SIZEOF_STAT = 32"
definition SIZEOF_DIRENT :: nat where "SIZEOF_DIRENT = 264"

definition cur_mm :: "fst \<Rightarrow> nat option kresult" where
  "cur_mm s = do { c \<leftarrow> current (ks (sy s)); Some (mm (procs (ks (sy s)) c)) }"

text \<open>\<open>lock_mm\<close> and \<open>unlock_mm\<close> when nobody else has the lock.\<close>

definition fs_lock_mm :: "nat option \<Rightarrow> fst \<Rightarrow> fst kresult" where
  "fs_lock_mm mp s = (case mp of
     None \<Rightarrow> Some s
   | Some mp \<Rightarrow> do { s \<leftarrow> fs_down (mm_sem mp) s; Some (s\<lparr>sy := lock_mm_done mp (sy s)\<rparr>) })"

definition fs_unlock_mm :: "nat option \<Rightarrow> fst \<Rightarrow> fst kresult" where
  "fs_unlock_mm mp s = (case mp of
     None \<Rightarrow> Some s
   | Some mp \<Rightarrow> do { s \<leftarrow> fs_up (mm_sem mp) s; Some (s\<lparr>sy := upd_mm mp (\<lambda>d. d\<lparr>locked_by := 0\<rparr>) (sy s)\<rparr>) })"

lemma fs_lock_mm_lock_mm:
  "fs_lock_mm mp s = Some s' \<Longrightarrow> lock_mm cls w mp (sy s) = Some (Inl (sy s'))"
  by (auto simp: fs_lock_mm_def lock_mm_def fs_down_def down_def down_begin_def Let_def split: option.splits if_splits)

lemma fs_unlock_mm_unlock_mm:
  "fs_unlock_mm mp s = Some s' \<Longrightarrow> unlock_mm cls mp (sy s) = Some (sy s')"
  by (auto simp: fs_unlock_mm_def unlock_mm_def fs_up_def up_def priv_up_def on_ks_def Let_def split: option.splits if_splits)

definition copy_path :: "nat \<Rightarrow> fst \<Rightarrow> (int \<times> nat option \<times> fst) kresult" where
  "copy_path from s = do {
     mp \<leftarrow> cur_mm s;
     (b, s) \<leftarrow> fs_kmalloc (FS_MAX_FPATH_LEN + 1) s;
     (case b of
        None \<Rightarrow> Some (- E_NO_MEM, None, s)
      | Some b \<Rightarrow> do {
          s \<leftarrow> fs_lock_mm mp s;
          (ok, s) \<leftarrow> on_sys (copy_string mp b from (FS_MAX_FPATH_LEN + 1)) s;
          s \<leftarrow> fs_unlock_mm mp s;
          (if \<not> ok then do { s \<leftarrow> fs_kfree (Some b) s; Some (- E_INVAL, None, s) } else Some (0, Some b, s))
        })
   }"

text \<open>A call on the copy of a path, which is released afterwards.\<close>

definition with_path :: "nat \<Rightarrow> (nat \<Rightarrow> fst \<Rightarrow> (int \<times> fst) kresult) \<Rightarrow> fst \<Rightarrow> (int \<times> fst) kresult" where
  "with_path user_path f s = do {
     (r, path, s) \<leftarrow> copy_path user_path s;
     (case path of
        None \<Rightarrow> Some (r, s)
      | Some path \<Rightarrow> do {
          (r, s) \<leftarrow> f path s;
          s \<leftarrow> fs_kfree (Some path) s;
          Some (r, s)
        })
   }"

definition sysfile_open :: "nat \<Rightarrow> 32 word \<Rightarrow> fst \<Rightarrow> (int \<times> fst) kresult" where
  "sysfile_open user_path open_flags = with_path user_path (\<lambda>path. file_open path open_flags)"

definition sysfile_close :: "int \<Rightarrow> fst \<Rightarrow> (int \<times> fst) kresult" where "sysfile_close fd = file_close fd"

text \<open>One turn of \<open>sysfile_read\<close>: the result, the bytes moved to the user and whether the loop ends.\<close>

definition read_turn :: "int \<Rightarrow> nat option \<Rightarrow> nat \<Rightarrow> nat \<Rightarrow> nat \<Rightarrow> fst \<Rightarrow> (int \<times> nat \<times> bool \<times> fst) kresult" where
  "read_turn fd mp buf' base len s = do {
     let alen = (if IOBUF_SIZE > len then len else IOBUF_SIZE);
     (r, alen, s) \<leftarrow> file_read fd buf' alen s;
     (r, moved, s) \<leftarrow>
       (if alen \<noteq> 0
        then do {
          s \<leftarrow> fs_lock_mm mp s;
          (ok, s) \<leftarrow> on_sys (copy_to_user mp base buf' alen) s;
          kassert (ok \<longrightarrow> len \<ge> alen);
          s \<leftarrow> fs_unlock_mm mp s;
          Some (if ok then r else if r = 0 then - E_INVAL else r, if ok then alen else 0, s)
        }
        else Some (r, 0, s));
     Some (r, moved, r \<noteq> 0 \<or> alen = 0, s)
   }"

partial_function (option) sysfile_read_loop ::
    "int \<Rightarrow> nat option \<Rightarrow> nat \<Rightarrow> nat \<Rightarrow> nat \<Rightarrow> nat \<Rightarrow> int \<Rightarrow> fst \<Rightarrow> (int \<times> nat \<times> fst) option" where
  "sysfile_read_loop fd mp buf' base len copied ret s =
     (if len \<noteq> 0
      then do {
        (r, moved, stop, s) \<leftarrow> read_turn fd mp buf' base len s;
        (if stop then Some (r, copied + moved, s)
         else sysfile_read_loop fd mp buf' (base + moved) (len - moved) (copied + moved) r s)
      }
      else Some (ret, copied, s))"

text \<open>The \<open>size_t\<close> count is returned as an \<open>int\<close>.\<close>

definition as_int :: "nat \<Rightarrow> int" where "as_int n = sint (word_of_nat n :: 32 word)"

definition sysfile_read :: "int \<Rightarrow> nat \<Rightarrow> nat \<Rightarrow> fst \<Rightarrow> (int \<times> fst) kresult" where
  "sysfile_read fd base len s = do {
     mp \<leftarrow> cur_mm s;
     (if len = 0 then Some (0, s)
      else do {
        ok \<leftarrow> file_testfd fd True False s;
        (if \<not> ok then Some (- E_INVAL, s)
         else do {
           (b, s) \<leftarrow> fs_kmalloc IOBUF_SIZE s;
           (case b of
              None \<Rightarrow> Some (- E_NO_MEM, s)
            | Some b \<Rightarrow> do {
                (r, copied, s) \<leftarrow> sysfile_read_loop fd mp b base len 0 0 s;
                s \<leftarrow> fs_kfree (Some b) s;
                Some (if copied \<noteq> 0 then as_int copied else r, s)
              })
         })
      })
   }"

definition write_turn :: "int \<Rightarrow> nat option \<Rightarrow> nat \<Rightarrow> nat \<Rightarrow> nat \<Rightarrow> fst \<Rightarrow> (int \<times> nat \<times> bool \<times> fst) kresult" where
  "write_turn fd mp buf' base len s = do {
     let alen = (if IOBUF_SIZE > len then len else IOBUF_SIZE);
     s \<leftarrow> fs_lock_mm mp s;
     (ok, s) \<leftarrow> on_sys (copy_from_user mp buf' base alen False) s;
     s \<leftarrow> fs_unlock_mm mp s;
     (if \<not> ok then Some (- E_INVAL, 0, True, s)
      else do {
        (r, alen, s) \<leftarrow> file_write fd buf' alen s;
        kassert (alen \<noteq> 0 \<longrightarrow> len \<ge> alen);
        Some (r, alen, r \<noteq> 0 \<or> alen = 0, s)
      })
   }"

partial_function (option) sysfile_write_loop ::
    "int \<Rightarrow> nat option \<Rightarrow> nat \<Rightarrow> nat \<Rightarrow> nat \<Rightarrow> nat \<Rightarrow> int \<Rightarrow> fst \<Rightarrow> (int \<times> nat \<times> fst) option" where
  "sysfile_write_loop fd mp buf' base len copied ret s =
     (if len \<noteq> 0
      then do {
        (r, moved, stop, s) \<leftarrow> write_turn fd mp buf' base len s;
        (if stop then Some (r, copied + moved, s)
         else sysfile_write_loop fd mp buf' (base + moved) (len - moved) (copied + moved) r s)
      }
      else Some (ret, copied, s))"

definition sysfile_write :: "int \<Rightarrow> nat \<Rightarrow> nat \<Rightarrow> fst \<Rightarrow> (int \<times> fst) kresult" where
  "sysfile_write fd base len s = do {
     mp \<leftarrow> cur_mm s;
     (if len = 0 then Some (0, s)
      else do {
        ok \<leftarrow> file_testfd fd False True s;
        (if \<not> ok then Some (- E_INVAL, s)
         else do {
           (b, s) \<leftarrow> fs_kmalloc IOBUF_SIZE s;
           (case b of
              None \<Rightarrow> Some (- E_NO_MEM, s)
            | Some b \<Rightarrow> do {
                (r, copied, s) \<leftarrow> sysfile_write_loop fd mp b base len 0 0 s;
                s \<leftarrow> fs_kfree (Some b) s;
                Some (if copied \<noteq> 0 then as_int copied else r, s)
              })
         })
      })
   }"

definition sysfile_seek :: "int \<Rightarrow> int \<Rightarrow> int \<Rightarrow> fst \<Rightarrow> (int \<times> fst) kresult" where
  "sysfile_seek fd pos whence = file_seek fd pos whence"

definition put_stat :: "nat \<Rightarrow> stat \<Rightarrow> bytes \<Rightarrow> bytes" where
  "put_stat a st m =
     wr64 (a + 24) (word_of_nat (st_size st)) (wr64 (a + 16) (word_of_nat (st_blocks st))
       (wr64 (a + 8) (word_of_nat (st_nlinks st)) (wr32 (a + 4) 0 (wr32 a (st_mode st) m))))"

definition sysfile_fstat :: "nat \<Rightarrow> int \<Rightarrow> nat \<Rightarrow> fst \<Rightarrow> (int \<times> fst) kresult" where
  "sysfile_fstat loc fd user_stat s = do {
     mp \<leftarrow> cur_mm s;
     (r, st, s) \<leftarrow> file_fstat fd s;
     (if r \<noteq> 0 then Some (r, s)
      else do {
        let s = upd_mem (put_stat loc st) s;
        s \<leftarrow> fs_lock_mm mp s;
        (ok, s) \<leftarrow> on_sys (copy_to_user mp user_stat loc SIZEOF_STAT) s;
        s \<leftarrow> fs_unlock_mm mp s;
        Some (if \<not> ok then - E_INVAL else 0, s)
      })
   }"

definition sysfile_fsync :: "int \<Rightarrow> fst \<Rightarrow> (int \<times> fst) kresult" where "sysfile_fsync fd = file_fsync fd"

definition sysfile_chdir :: "nat \<Rightarrow> fst \<Rightarrow> (int \<times> fst) kresult" where
  "sysfile_chdir user_path = with_path user_path vfs_chdir"

text \<open>\<open>sysfile_link\<close> and \<open>sysfile_rename\<close>, which differ in the call on the two paths only.\<close>

definition with_paths :: "nat \<Rightarrow> nat \<Rightarrow> int \<Rightarrow> fst \<Rightarrow> (int \<times> fst) kresult" where
  "with_paths path1 path2 result s = do {
     (r, old, s) \<leftarrow> copy_path path1 s;
     (case old of
        None \<Rightarrow> Some (r, s)
      | Some old \<Rightarrow> do {
          (r, new, s) \<leftarrow> copy_path path2 s;
          (case new of
             None \<Rightarrow> do { s \<leftarrow> fs_kfree (Some old) s; Some (r, s) }
           | Some new \<Rightarrow> do {
               s \<leftarrow> fs_kfree (Some old) s;
               s \<leftarrow> fs_kfree (Some new) s;
               Some (result, s)
             })
        })
   }"

definition sysfile_link :: "nat \<Rightarrow> nat \<Rightarrow> fst \<Rightarrow> (int \<times> fst) kresult" where
  "sysfile_link path1 path2 = with_paths path1 path2 vfs_link"

definition sysfile_rename :: "nat \<Rightarrow> nat \<Rightarrow> fst \<Rightarrow> (int \<times> fst) kresult" where
  "sysfile_rename path1 path2 = with_paths path1 path2 vfs_rename"

definition sysfile_unlink :: "nat \<Rightarrow> fst \<Rightarrow> (int \<times> fst) kresult" where
  "sysfile_unlink user_path = with_path user_path (\<lambda>path s. Some (vfs_unlink, s))"

definition sysfile_getcwd :: "nat \<Rightarrow> nat \<Rightarrow> nat \<Rightarrow> nat \<Rightarrow> fst \<Rightarrow> (int \<times> fst) kresult" where
  "sysfile_getcwd dotdot loc buf' len s = do {
     mp \<leftarrow> cur_mm s;
     (if len = 0 then Some (- E_INVAL, s)
      else do {
        s \<leftarrow> fs_lock_mm mp s;
        (ok, s) \<leftarrow> on_sys (user_mem_check mp buf' len True) s;
        (r, s) \<leftarrow> (if ok then do { (r, _, s) \<leftarrow> vfs_getcwd dotdot loc (iobuf_init buf' len 0) s; Some (r, s) }
                   else Some (- E_INVAL, s));
        s \<leftarrow> fs_unlock_mm mp s;
        Some (r, s)
      })
   }"

definition sysfile_getdirentry :: "int \<Rightarrow> nat \<Rightarrow> fst \<Rightarrow> (int \<times> fst) kresult" where
  "sysfile_getdirentry fd user_dirent s = do {
     mp \<leftarrow> cur_mm s;
     (de, s) \<leftarrow> fs_kmalloc SIZEOF_DIRENT s;
     (case de of
        None \<Rightarrow> Some (- E_NO_MEM, s)
      | Some de \<Rightarrow> do {
          s \<leftarrow> fs_lock_mm mp s;
          (ok, s) \<leftarrow> on_sys (copy_from_user mp de user_dirent 8 True) s;
          s \<leftarrow> fs_unlock_mm mp s;
          (r, s) \<leftarrow> (if \<not> ok then Some (- E_INVAL, s) else file_getdirentry fd de s);
          (r, s) \<leftarrow>
            (if r \<noteq> 0 then Some (r, s)
             else do {
               s \<leftarrow> fs_lock_mm mp s;
               (ok, s) \<leftarrow> on_sys (copy_to_user mp user_dirent de SIZEOF_DIRENT) s;
               s \<leftarrow> fs_unlock_mm mp s;
               Some (if \<not> ok then - E_INVAL else 0, s)
             });
          s \<leftarrow> fs_kfree (Some de) s;
          Some (r, s)
        })
   }"

definition sysfile_dup :: "int \<Rightarrow> int \<Rightarrow> fst \<Rightarrow> (int \<times> fst) kresult" where "sysfile_dup fd1 fd2 = file_dup fd1 fd2"
definition sysfile_pipe :: int where "sysfile_pipe = - E_UNIMP"
definition sysfile_mkfifo :: int where "sysfile_mkfifo = - E_UNIMP"

end
