(* ===== verification/Fs_Relation.thy ===== *)
theory Fs_Relation
  imports Sysfile
begin

section \<open>What no file operation changes\<close>

text \<open>
  A relation between the states before and after, proved once for every operation of the file system from what it
  does to the inode table, to the console and to the process subsystem: the locale \<open>fs_relation\<close>. Its interpretations
  are the typing of inodes, what has been printed, and the process table.
\<close>

definition same_shape :: "inode \<Rightarrow> inode \<Rightarrow> bool" where
  "same_shape i j \<longleftrightarrow> in_ops i = in_ops j \<and> in_fs i = in_fs j \<and> in_type_of (in_info i) = in_type_of (in_info j)"

definition node_typed :: "inode \<Rightarrow> bool" where
  "node_typed i \<longleftrightarrow>
     (if in_ops i = Dev_node_ops then in_type_of (in_info i) = inode_type_device_info \<and> in_fs i = None
      else in_type_of (in_info i) = inode_type_sfs_inode_info \<and> in_fs i \<noteq> None)"

named_theorems fs_ops \<open>operations with a result\<close>
named_theorems fs_pure \<open>operations that only return a state\<close>

lemmas fs_vcg = bind_eq_Some_conv Let_def kassert_def o_def
lemmas fs_splits = if_splits option.splits prod.splits sum.splits inode_ops.splits dev_ops.splits

subsection \<open>Operations that leave the processes alone\<close>

text \<open>\<open>quiet\<close>: only semaphore values and the heads of wait queues have changed.\<close>

definition quiet :: "kst \<Rightarrow> kst \<Rightarrow> bool" where
  "quiet k k' \<longleftrightarrow> k\<lparr>sem_value := sem_value k', klinks := klinks k'\<rparr> = k' \<and>
     (\<forall>e. (\<forall>q. e \<noteq> Wait_head q) \<longrightarrow> nxt (klinks k') e = nxt (klinks k) e \<and> prv (klinks k') e = prv (klinks k) e)"

lemma quiet_refl [simp]: "quiet k k"
  by (simp add: quiet_def)

lemma quiet_trans: "quiet i j \<Longrightarrow> quiet j k \<Longrightarrow> quiet i k"
  by (cases i; cases j; cases k) (simp add: quiet_def)

lemma quiet_sem: "quiet k k' \<Longrightarrow> quiet k (set_sem q v k')" "quiet k k' \<Longrightarrow> quiet k (sem_init q v k')"
  "quiet k k' \<Longrightarrow> quiet k (wait_queue_init q k')"
  by (cases k; cases k'; simp add: quiet_def set_sem_def sem_init_def wait_queue_init_def upd_klinks_def list_init_def
      set_nxt_def set_prv_def)+

named_theorems sys_kept \<open>operations on \<open>sys\<close> keep the processes\<close>

lemma sys_heap_kept [sys_kept]:
  "sys_kmalloc n y = Some (r, z) \<Longrightarrow> ks z = ks y" "sys_kfree a y = Some z \<Longrightarrow> ks z = ks y"
  "on_vm g y = Some (v, z) \<Longrightarrow> ks z = ks y" "on_vm' g' y = Some z \<Longrightarrow> ks z = ks y"
  by (auto simp: sys_kmalloc_def sys_kfree_def on_vm_def on_vm'_def bind_eq_Some_conv)

lemma find_vma_kept [sys_kept]: "find_vma mp a y = Some (r, z) \<Longrightarrow> ks z = ks y"
  by (auto simp: find_vma_def upd_mm_def bind_eq_Some_conv split: option.splits if_splits)

lemma user_mem_loop_kept [sys_kept]:
  assumes "user_mem_loop mp a e w y = Some (ok, z)"
  shows "ks z = ks y"
proof -
  have "ks (snd r) = ks y" if "user_mem_loop mp a e w y = Some r" for mp a e w y r
    apply (rule user_mem_loop.raw_induct [where P = "\<lambda>mp a e w y r. ks (snd r) = ks y", OF _ that])
    subgoal premises prems for f mp a e w y r
      using prems(2) by (auto simp: bind_eq_Some_conv split: if_splits option.splits dest!: prems(1) sys_kept)
    done
  from this [OF assms] show ?thesis by simp
qed

lemma user_mem_check_kept [sys_kept]: "user_mem_check mp a n w y = Some (ok, z) \<Longrightarrow> ks z = ks y"
  by (auto simp: user_mem_check_def split: option.splits if_splits dest: sys_kept)

lemma copy_user_kept [sys_kept]:
  "copy_from_user mp d a n w y = Some (ok, z) \<Longrightarrow> ks z = ks y" "copy_to_user mp d a n y = Some (ok, z) \<Longrightarrow> ks z = ks y"
  by (auto simp: copy_from_user_def copy_to_user_def upd_bytes_def bind_eq_Some_conv split: if_splits dest!: sys_kept)

lemma copy_string_kept [sys_kept]:
  assumes "copy_string mp d a n y = Some (ok, z)"
  shows "ks z = ks y"
proof -
  have "ks (snd r) = ks y" if "copy_string_loop mp d a n p y = Some r" for mp d a n p y r
    apply (rule copy_string_loop.raw_induct [where P = "\<lambda>mp d a n p y r. ks (snd r) = ks y", OF _ that])
    subgoal premises prems for f mp d a n p y r
      using prems(2) by (auto simp: bind_eq_Some_conv Let_def upd_bytes_def split: if_splits dest!: prems(1) sys_kept)
    done
  from this assms show ?thesis unfolding copy_string_def by fastforce
qed

subsection \<open>The relation\<close>

locale fs_relation =
  fixes R :: "fst \<Rightarrow> fst \<Rightarrow> bool"
  assumes refl: "R s s"
    and frame: "R s t \<Longrightarrow> inodes u = inodes t \<Longrightarrow> console u = console t \<Longrightarrow> quiet (ks (sy t)) (ks (sy u)) \<Longrightarrow> R s u"
    and print: "R s t \<Longrightarrow> R s (t\<lparr>console := console t @ cs\<rparr>)"
    and node: "R s t \<Longrightarrow> same_shape (f (inodes t n)) (inodes t n) \<or> node_typed (f (inodes t n)) \<Longrightarrow> R s (upd_inode n f t)"
begin

text \<open>Updates.\<close>

lemma sy_R: "R u s \<Longrightarrow> quiet (ks (sy s)) (ks y) \<Longrightarrow> R u (s\<lparr>sy := y\<rparr>)"
  by (erule frame) simp_all

lemma bootfs_R [fs_pure]: "R u s \<Longrightarrow> R u (s\<lparr>bootfs_node := b\<rparr>)"
  and buffer_R [fs_pure]: "R u s \<Longrightarrow> R u (s\<lparr>disk0_buffer := d\<rparr>)"
  and rpos_R [fs_pure]: "R u s \<Longrightarrow> R u (s\<lparr>p_rpos := p\<rparr>)"
  and wpos_R [fs_pure]: "R u s \<Longrightarrow> R u (s\<lparr>p_wpos := p\<rparr>)"
  and stdin_R [fs_pure]: "R u s \<Longrightarrow> R u (s\<lparr>stdin_buffer := c\<rparr>)"
  and upd_mem_R [fs_pure]: "R u s \<Longrightarrow> R u (upd_mem g s)"
  and upd_sfs_R [fs_pure]: "R u s \<Longrightarrow> R u (upd_sfs n g1 s)"
  and upd_bitmap_R [fs_pure]: "R u s \<Longrightarrow> R u (upd_bitmap n g2 s)"
  and upd_vdev_R [fs_pure]: "R u s \<Longrightarrow> R u (upd_vdev n g3 s)"
  and upd_files_R [fs_pure]: "R u s \<Longrightarrow> R u (upd_files n g4 s)"
  and upd_flinks_R [fs_pure]: "R u s \<Longrightarrow> R u (upd_flinks g5 s)"
  and upd_ide_R [fs_pure]: "R u s \<Longrightarrow> R u (upd_ide n g6 s)"
  and upd_file_R [fs_pure]: "R u s \<Longrightarrow> R u (upd_file n i g7 s)"
  by (erule frame; simp add: upd_mem_def upd_sfs_def upd_bitmap_def upd_vdev_def upd_files_def upd_flinks_def
      upd_ide_def upd_file_def)+

lemma counts_R [fs_pure]:
  "R u s \<Longrightarrow> R u (upd_inode n (\<lambda>i. i\<lparr>ref_count := c (ref_count i)\<rparr>) s)"
  "R u s \<Longrightarrow> R u (upd_inode n (\<lambda>i. i\<lparr>open_count := c (open_count i)\<rparr>) s)"
  by (erule node; simp add: same_shape_def)+

lemma upd_sin_R [fs_pure]: "R u s \<Longrightarrow> R u (upd_sin n f s)"
proof -
  have "in_type_of (map_sin f i) = in_type_of i" for i by (cases i) auto
  then show "R u s \<Longrightarrow> R u (upd_sin n f s)" unfolding upd_sin_def by (elim node) (simp add: same_shape_def)
qed

lemma on_sys_R:
  assumes "on_sys f s = Some (r, t)" "R u s" "\<And>y r z. f y = Some (r, z) \<Longrightarrow> ks z = ks y"
  shows "R u t"
  using assms by (auto simp: on_sys_def bind_eq_Some_conv intro!: sy_R)

lemma on_sys_ops_R [fs_ops]:
  "on_sys (copy_string mp d a n) s = Some (r, t) \<Longrightarrow> R u s \<Longrightarrow> R u t"
  "on_sys (copy_to_user mp d a n) s = Some (r, t) \<Longrightarrow> R u s \<Longrightarrow> R u t"
  "on_sys (copy_from_user mp d a n w) s = Some (r, t) \<Longrightarrow> R u s \<Longrightarrow> R u t"
  "on_sys (user_mem_check mp a n w) s = Some (r, t) \<Longrightarrow> R u s \<Longrightarrow> R u t"
  by (erule on_sys_R; simp add: sys_kept)+

lemma fold_R: "R u s \<Longrightarrow> (\<And>x t. R u t \<Longrightarrow> R u (f x t)) \<Longrightarrow> R u (fold f xs s)"
  by (induction xs arbitrary: s) auto

text \<open>An inode is made with a table, a type and a file system that fit.\<close>

lemma upd_inode_twice: "upd_inode n g (upd_inode n f s) = upd_inode n (\<lambda>i. g (f i)) s"
  by (simp add: upd_inode_def)

lemma cputchar_R [fs_pure]: "R u s \<Longrightarrow> R u (cputchar c s)"
  by (simp add: cputchar_def print)

lemma stdout_loop_R [fs_pure]: "R u s \<Longrightarrow> R u (stdout_loop a n s)"
  by (induction a n s rule: stdout_loop.induct) (auto intro!: fs_pure)

lemma stdout_io_R [fs_ops]: "stdout_io iob w s = (r, i, t) \<Longrightarrow> R u s \<Longrightarrow> R u t"
  by (auto simp: stdout_io_def split: if_splits intro!: fs_pure)

lemma stdin_take_R [fs_ops]: "stdin_take a k n s = (r, i, t) \<Longrightarrow> R u s \<Longrightarrow> R u t"
  by (induction a k n s rule: stdin_take.induct) (auto split: if_splits intro!: fs_pure)

lemma pairs_R [fs_ops]:
  "inode_ref_inc n s = (c, t) \<Longrightarrow> R u s \<Longrightarrow> R u t" "inode_open_inc n s = (c, t) \<Longrightarrow> R u s \<Longrightarrow> R u t"
  "fopen_count_inc n i s = (c, t) \<Longrightarrow> R u s \<Longrightarrow> R u t" "fopen_count_dec n i s = (c, t) \<Longrightarrow> R u s \<Longrightarrow> R u t"
  "files_count_inc n s = (c, t) \<Longrightarrow> R u s \<Longrightarrow> R u t" "files_count_dec n s = (c, t) \<Longrightarrow> R u s \<Longrightarrow> R u t"
  by (auto simp: inode_ref_inc_def inode_open_inc_def fopen_count_inc_def fopen_count_dec_def files_count_inc_def
      files_count_dec_def Let_def intro!: fs_pure)

lemma pairs_snd_R [fs_pure]:
  "R u s \<Longrightarrow> R u (snd (inode_ref_inc n s))" "R u s \<Longrightarrow> R u (snd (inode_open_inc n s))"
  "R u s \<Longrightarrow> R u (snd (fopen_count_inc n i s))"
  by (auto simp: inode_ref_inc_def inode_open_inc_def fopen_count_inc_def Let_def intro!: fs_pure)


text \<open>Fs_State\<close>

lemma fs_kmalloc_R [fs_ops]: "fs_kmalloc x1 s = Some (r1, t) \<Longrightarrow> R u s \<Longrightarrow> R u t"
  unfolding fs_kmalloc_def by (erule on_sys_R) (simp_all add: sys_kept)

lemma fs_kfree_R [fs_ops]: "fs_kfree x1 s = Some t \<Longrightarrow> R u s \<Longrightarrow> R u t"
  by (auto simp: fs_kfree_def on_sys'_def bind_eq_Some_conv sys_kept intro!: sy_R)

lemma fs_sem_init_R [fs_pure]: "R u s \<Longrightarrow> R u (fs_sem_init x1 x2 s)"
  by (simp add: fs_sem_init_def sy_R quiet_sem)

lemma fs_down_R [fs_ops]: "fs_down x1 s = Some t \<Longrightarrow> R u s \<Longrightarrow> R u t"
  by (auto simp: fs_down_def Let_def split: if_splits intro!: sy_R quiet_sem)

lemma fs_up_R [fs_ops]: "fs_up x1 s = Some t \<Longrightarrow> R u s \<Longrightarrow> R u t"
  by (auto simp: fs_up_def Let_def split: if_splits intro!: sy_R quiet_sem)

lemma fs_move_R [fs_ops]: "fs_move x1 x2 x3 x4 s = Some (r1, r2, r3, t) \<Longrightarrow> R u s \<Longrightarrow> R u t"
  by (auto simp: fs_move_def fs_vcg split: fs_splits elim!: fs_ops intro!: fs_pure)

text \<open>Bitmap\<close>

lemma set_map_word_R [fs_pure]: "R u s \<Longrightarrow> R u (set_map_word x1 x2 x3 s)"
  by (auto simp: set_map_word_def fs_vcg split: fs_splits elim!: fs_ops intro!: fs_pure)

lemma mark_left_over_R [fs_pure]: "R u s \<Longrightarrow> R u (mark_left_over b ix o' s)"
  by (induction b ix o' s rule: mark_left_over.induct, subst mark_left_over.simps)
    (auto simp: Let_def intro!: fs_pure)

lemma bitmap_create_R [fs_ops]: "bitmap_create x1 s = Some (r1, t) \<Longrightarrow> R u s \<Longrightarrow> R u t"
  by (auto simp: bitmap_create_def fs_vcg split: fs_splits elim!: fs_ops intro!: fs_pure)

lemma alloc_bit_loop_R [fs_ops]: "alloc_bit_loop b ix k s = Some (r, t) \<Longrightarrow> R u s \<Longrightarrow> R u t"
  by (induction b ix k s rule: alloc_bit_loop.induct, subst (asm) (2) alloc_bit_loop.simps)
    (auto simp: Let_def split: if_splits intro!: fs_pure)

lemma alloc_word_loop_R [fs_ops]: "alloc_word_loop b ix s = Some (r, i, t) \<Longrightarrow> R u s \<Longrightarrow> R u t"
  by (induction b ix s rule: alloc_word_loop.induct, subst (asm) (2) alloc_word_loop.simps)
    (auto simp: fs_vcg split: if_splits elim!: fs_ops intro!: fs_pure)

lemma bitmap_alloc_R [fs_ops]: "bitmap_alloc x1 s = Some (r1, r2, t) \<Longrightarrow> R u s \<Longrightarrow> R u t"
  by (auto simp: bitmap_alloc_def fs_vcg split: fs_splits elim!: fs_ops intro!: fs_pure)

lemma bitmap_free_R [fs_ops]: "bitmap_free x1 x2 s = Some t \<Longrightarrow> R u s \<Longrightarrow> R u t"
  by (auto simp: bitmap_free_def fs_vcg split: fs_splits elim!: fs_ops intro!: fs_pure)

lemma bitmap_destroy_R [fs_ops]: "bitmap_destroy x1 s = Some t \<Longrightarrow> R u s \<Longrightarrow> R u t"
  by (auto simp: bitmap_destroy_def fs_vcg split: fs_splits elim!: fs_ops intro!: fs_pure)

text \<open>Block_Dev\<close>

lemma ramdisk_init_R [fs_ops]: "ramdisk_init x1 x2 s = Some t \<Longrightarrow> R u s \<Longrightarrow> R u t"
  by (auto simp: ramdisk_init_def fs_vcg split: fs_splits elim!: fs_ops intro!: fs_pure)

lemma ide_init_R [fs_ops]: "ide_init x s = Some t \<Longrightarrow> R u s \<Longrightarrow> R u t"
  by (auto simp: ide_init_def fs_vcg split: if_splits elim!: fs_ops intro!: fs_pure fold_R)

lemma ide_read_secs_R [fs_ops]: "ide_read_secs x1 x2 x3 x4 s = Some (r1, t) \<Longrightarrow> R u s \<Longrightarrow> R u t"
  by (auto simp: ide_read_secs_def fs_vcg split: fs_splits elim!: fs_ops intro!: fs_pure)

lemma ide_write_secs_R [fs_ops]: "ide_write_secs x1 x2 x3 x4 s = Some (r1, t) \<Longrightarrow> R u s \<Longrightarrow> R u t"
  by (auto simp: ide_write_secs_def fs_vcg split: fs_splits elim!: fs_ops intro!: fs_pure)

lemma disk0_read_blks_nolock_R [fs_ops]: "disk0_read_blks_nolock x1 x2 s = Some t \<Longrightarrow> R u s \<Longrightarrow> R u t"
  by (auto simp: disk0_read_blks_nolock_def fs_vcg split: fs_splits elim!: fs_ops intro!: fs_pure)

lemma disk0_write_blks_nolock_R [fs_ops]: "disk0_write_blks_nolock x1 x2 s = Some t \<Longrightarrow> R u s \<Longrightarrow> R u t"
  by (auto simp: disk0_write_blks_nolock_def fs_vcg split: fs_splits elim!: fs_ops intro!: fs_pure)

lemma disk0_turn_R [fs_ops]: "disk0_turn x1 x2 x3 x4 s = Some (r1, r2, r3, t) \<Longrightarrow> R u s \<Longrightarrow> R u t"
  by (auto simp: disk0_turn_def fs_vcg split: fs_splits elim!: fs_ops intro!: fs_pure)

lemma disk0_loop_R [fs_ops]:
  assumes "disk0_loop x1 x2 x3 x4 s = Some (r1, t)" "R u s"
  shows "R u t"
proof -
  have "R u s \<longrightarrow> R u (snd y)" if "disk0_loop x1 x2 x3 x4 s = Some y" for x1 x2 x3 x4 s y
    apply (rule disk0_loop.raw_induct [where P = "\<lambda>x1 x2 x3 x4 s y. R u s \<longrightarrow> R u (snd y)", OF _ that])
    subgoal premises prems for f x1 x2 x3 x4 s y
      using prems(2) by (auto simp: fs_vcg split: if_splits option.splits prod.splits
        elim!: fs_ops prems(1) [THEN mp] intro!: fs_pure)
    done
  from this [OF assms(1)] assms(2) show ?thesis by simp
qed

lemma disk0_io_R [fs_ops]: "disk0_io x1 x2 x3 s = Some (r1, r2, t) \<Longrightarrow> R u s \<Longrightarrow> R u t"
  by (auto simp: disk0_io_def fs_vcg split: fs_splits elim!: fs_ops intro!: fs_pure)

lemma stdin_io_R [fs_ops]: "stdin_io x1 x2 s = Some (r1, r2, t) \<Longrightarrow> R u s \<Longrightarrow> R u t"
  by (auto simp: stdin_io_def fs_vcg split: fs_splits elim!: fs_ops intro!: fs_pure)

text \<open>A device is initialised in a node that has just been made for it.\<close>

lemma device_info_R:
  "R u s \<Longrightarrow> in_ops (inodes s n) = Dev_node_ops \<Longrightarrow> in_fs (inodes s n) = None \<Longrightarrow>
   R u (upd_inode n (\<lambda>i. i\<lparr>in_info := Device_info d\<rparr>) s)"
  by (erule node) (simp add: node_typed_def)

lemma device_inits_R:
  assumes "R u s" "in_ops (inodes s n) = Dev_node_ops" "in_fs (inodes s n) = None"
  shows "R u (stdin_device_init n s)" "R u (stdout_device_init n s)" "disk0_device_init n s = Some t \<Longrightarrow> R u t"
  using device_info_R [OF assms]
  by (auto simp: stdin_device_init_def stdout_device_init_def disk0_device_init_def fs_vcg split: if_splits
      elim!: fs_ops intro!: fs_pure sy_R quiet_sem)

lemma dop_io_R [fs_ops]: "dop_io x1 x2 x3 s = Some (r1, r2, t) \<Longrightarrow> R u s \<Longrightarrow> R u t"
  by (auto simp: dop_io_def fs_vcg split: fs_splits elim!: fs_ops intro!: fs_pure)

text \<open>Sfs_Io\<close>

lemma set_super_unused_R [fs_pure]: "R u s \<Longrightarrow> R u (set_super_unused x1 x2 s)"
  by (auto simp: set_super_unused_def fs_vcg split: fs_splits elim!: fs_ops intro!: fs_pure)

lemma lock_sfs_fs_R [fs_ops]: "lock_sfs_fs x1 s = Some t \<Longrightarrow> R u s \<Longrightarrow> R u t"
  by (auto simp: lock_sfs_fs_def fs_vcg split: fs_splits elim!: fs_ops intro!: fs_pure)

lemma lock_sfs_io_R [fs_ops]: "lock_sfs_io x1 s = Some t \<Longrightarrow> R u s \<Longrightarrow> R u t"
  by (auto simp: lock_sfs_io_def fs_vcg split: fs_splits elim!: fs_ops intro!: fs_pure)

lemma unlock_sfs_fs_R [fs_ops]: "unlock_sfs_fs x1 s = Some t \<Longrightarrow> R u s \<Longrightarrow> R u t"
  by (auto simp: unlock_sfs_fs_def fs_vcg split: fs_splits elim!: fs_ops intro!: fs_pure)

lemma unlock_sfs_io_R [fs_ops]: "unlock_sfs_io x1 s = Some t \<Longrightarrow> R u s \<Longrightarrow> R u t"
  by (auto simp: unlock_sfs_io_def fs_vcg split: fs_splits elim!: fs_ops intro!: fs_pure)

lemma sfs_rwblock_nolock_R [fs_ops]: "sfs_rwblock_nolock x1 x2 x3 x4 x5 s = Some (r1, t) \<Longrightarrow> R u s \<Longrightarrow> R u t"
  by (auto simp: sfs_rwblock_nolock_def fs_vcg split: fs_splits elim!: fs_ops intro!: fs_pure)

lemma sfs_rwblock_loop_R [fs_ops]: "sfs_rwblock_loop x1 x2 x3 x4 x5 s = Some (r1, t) \<Longrightarrow> R u s \<Longrightarrow> R u t"
proof (induction x4 arbitrary: x1 x2 x3 x5 s)
  case (Suc k)
  from Suc.prems show ?case by (auto simp: fs_vcg split: if_splits option.splits elim!: fs_ops Suc.IH intro!: fs_pure)
qed (auto)

lemma sfs_rwblock_R [fs_ops]: "sfs_rwblock x1 x2 x3 x4 x5 s = Some (r1, t) \<Longrightarrow> R u s \<Longrightarrow> R u t"
  by (auto simp: sfs_rwblock_def fs_vcg split: fs_splits elim!: fs_ops intro!: fs_pure)

lemma sfs_rblock_R [fs_ops]: "sfs_rblock x1 x2 x3 x4 s = Some (r1, t) \<Longrightarrow> R u s \<Longrightarrow> R u t"
  by (auto simp: sfs_rblock_def fs_vcg split: fs_splits elim!: fs_ops intro!: fs_pure)

lemma sfs_wblock_R [fs_ops]: "sfs_wblock x1 x2 x3 x4 s = Some (r1, t) \<Longrightarrow> R u s \<Longrightarrow> R u t"
  by (auto simp: sfs_wblock_def fs_vcg split: fs_splits elim!: fs_ops intro!: fs_pure)

lemma sfs_rbuf_with_R:
  assumes "sfs_rbuf_with copy x2 x3 x4 x5 s = Some (r, t)" "R u s" and copy: "\<And>a s. R u s \<Longrightarrow> R u (copy a s)"
  shows "R u t"
  using assms(1,2) by (auto simp: sfs_rbuf_with_def fs_vcg split: if_splits elim!: fs_ops intro!: fs_pure copy)

lemma sfs_wbuf_with_R:
  assumes "sfs_wbuf_with copy x2 x3 x4 x5 s = Some (r, t)" "R u s" and copy: "\<And>a s. R u s \<Longrightarrow> R u (copy a s)"
  shows "R u t"
  using assms(1,2) by (auto simp: sfs_wbuf_with_def fs_vcg split: if_splits elim!: fs_ops intro!: fs_pure copy)

lemma sfs_rbuf_R [fs_ops]: "sfs_rbuf x1 x2 x3 x4 x5 s = Some (r, t) \<Longrightarrow> R u s \<Longrightarrow> R u t"
  unfolding sfs_rbuf_def by (erule sfs_rbuf_with_R) (auto intro!: fs_pure)

lemma sfs_wbuf_R [fs_ops]: "sfs_wbuf x1 x2 x3 x4 x5 s = Some (r, t) \<Longrightarrow> R u s \<Longrightarrow> R u t"
  unfolding sfs_wbuf_def by (erule sfs_wbuf_with_R) (auto intro!: fs_pure)

lemma sfs_rbuf_u32_R [fs_ops]: "sfs_rbuf_u32 x1 x2 x3 s = Some (r, i, t) \<Longrightarrow> R u s \<Longrightarrow> R u t"
  by (auto simp: sfs_rbuf_u32_def fs_vcg elim!: sfs_rbuf_with_R)

lemma sfs_wbuf_u32_R [fs_ops]: "sfs_wbuf_u32 x1 x2 x3 x4 s = Some (r, t) \<Longrightarrow> R u s \<Longrightarrow> R u t"
  unfolding sfs_wbuf_u32_def by (erule sfs_wbuf_with_R) (auto intro!: fs_pure)

lemma sfs_sync_super_R [fs_ops]: "sfs_sync_super x1 s = Some (r1, t) \<Longrightarrow> R u s \<Longrightarrow> R u t"
  by (auto simp: sfs_sync_super_def fs_vcg split: fs_splits elim!: fs_ops intro!: fs_pure)

lemma sfs_sync_freemap_R [fs_ops]: "sfs_sync_freemap x1 s = Some (r1, t) \<Longrightarrow> R u s \<Longrightarrow> R u t"
  by (auto simp: sfs_sync_freemap_def fs_vcg split: fs_splits elim!: fs_ops intro!: fs_pure)

lemma clear_block_loop_R [fs_ops]: "clear_block_loop x1 x2 x3 x4 s = Some (r1, t) \<Longrightarrow> R u s \<Longrightarrow> R u t"
proof (induction x3 arbitrary: x1 x2 x4 s)
  case (Suc k)
  from Suc.prems show ?case by (auto simp: fs_vcg split: if_splits option.splits elim!: fs_ops Suc.IH intro!: fs_pure)
qed (auto)

lemma sfs_clear_block_R [fs_ops]: "sfs_clear_block x1 x2 x3 s = Some (r1, t) \<Longrightarrow> R u s \<Longrightarrow> R u t"
  by (auto simp: sfs_clear_block_def fs_vcg split: fs_splits elim!: fs_ops intro!: fs_pure)

text \<open>Sfs_Inode\<close>

lemma inode_kill_R [fs_ops]: "inode_kill x1 s = Some t \<Longrightarrow> R u s \<Longrightarrow> R u t"
  by (auto simp: inode_kill_def fs_vcg split: fs_splits elim!: fs_ops intro!: fs_pure)

lemma set_din_size_R [fs_pure]: "R u s \<Longrightarrow> R u (set_din_size x1 x2 s)"
  by (auto simp: set_din_size_def fs_vcg split: fs_splits elim!: fs_ops intro!: fs_pure)

lemma set_din_blocks_R [fs_pure]: "R u s \<Longrightarrow> R u (set_din_blocks x1 x2 s)"
  by (auto simp: set_din_blocks_def fs_vcg split: fs_splits elim!: fs_ops intro!: fs_pure)

lemma set_din_direct_R [fs_pure]: "R u s \<Longrightarrow> R u (set_din_direct x1 x2 x3 s)"
  by (auto simp: set_din_direct_def fs_vcg split: fs_splits elim!: fs_ops intro!: fs_pure)

lemma set_din_indirect_R [fs_pure]: "R u s \<Longrightarrow> R u (set_din_indirect x1 x2 s)"
  by (auto simp: set_din_indirect_def fs_vcg split: fs_splits elim!: fs_ops intro!: fs_pure)

lemma mark_dirty_R [fs_pure]: "R u s \<Longrightarrow> R u (mark_dirty x1 s)"
  by (auto simp: mark_dirty_def fs_vcg split: fs_splits elim!: fs_ops intro!: fs_pure)

lemma lock_sin_R [fs_ops]: "lock_sin x1 s = Some t \<Longrightarrow> R u s \<Longrightarrow> R u t"
  by (auto simp: lock_sin_def fs_vcg split: fs_splits elim!: fs_ops intro!: fs_pure)

lemma unlock_sin_R [fs_ops]: "unlock_sin x1 s = Some t \<Longrightarrow> R u s \<Longrightarrow> R u t"
  by (auto simp: unlock_sin_def fs_vcg split: fs_splits elim!: fs_ops intro!: fs_pure)

lemma sfs_set_links_R [fs_pure]: "R u s \<Longrightarrow> R u (sfs_set_links x1 x2 s)"
  by (auto simp: sfs_set_links_def fs_vcg split: fs_splits elim!: fs_ops intro!: fs_pure)

lemma sfs_remove_links_R [fs_pure]: "R u s \<Longrightarrow> R u (sfs_remove_links x1 s)"
  by (auto simp: sfs_remove_links_def fs_vcg split: fs_splits elim!: fs_ops intro!: fs_pure)

lemma sfs_block_alloc_R [fs_ops]: "sfs_block_alloc x1 s = Some (r1, r2, t) \<Longrightarrow> R u s \<Longrightarrow> R u t"
  by (auto simp: sfs_block_alloc_def fs_vcg split: fs_splits elim!: fs_ops intro!: fs_pure)

lemma sfs_block_free_R [fs_ops]: "sfs_block_free x1 x2 s = Some t \<Longrightarrow> R u s \<Longrightarrow> R u t"
  by (auto simp: sfs_block_free_def fs_vcg split: fs_splits elim!: fs_ops intro!: fs_pure)

lemma new_inode_R: "R u s \<Longrightarrow> (\<And>i. node_typed (f i)) \<Longrightarrow> R u (upd_inode n f s)"
  by (erule node) simp

lemma upd_sin_twice: "upd_sin n g (upd_inode n f s) = upd_inode n (\<lambda>i. (f i)\<lparr>in_info := map_sin g (in_info (f i))\<rparr>) s"
  by (simp add: upd_sin_def upd_inode_twice)

lemma sfs_create_inode_R [fs_ops]:
  assumes "sfs_create_inode x1 x2 x3 s = Some (r, n, t)" "R u s"
  shows "R u t"
proof -
  from assms obtain k s1 where k: "fs_kmalloc SIZEOF_INODE s = Some (k, s1)"
    by (auto simp: sfs_create_inode_def alloc_inode_def fs_vcg)
  then have "R u s1" using assms(2) by (elim fs_ops)
  then show ?thesis using assms(1) k
    by (cases k) (auto simp: sfs_create_inode_def alloc_inode_def inode_init_def inode_ref_inc_def upd_inode_twice
      upd_sin_twice sfs_get_ops_def Let_def node_typed_def split: if_splits intro!: fs_pure new_inode_R)
qed

lemma lookup_sfs_loop_R [fs_ops]:
  assumes "lookup_sfs_loop x1 x2 x3 s = Some (r1, t)" "R u s"
  shows "R u t"
proof -
  have "R u s \<longrightarrow> R u (snd y)" if "lookup_sfs_loop x1 x2 x3 s = Some y" for x1 x2 x3 s y
    apply (rule lookup_sfs_loop.raw_induct [where P = "\<lambda>x1 x2 x3 s y. R u s \<longrightarrow> R u (snd y)", OF _ that])
    subgoal premises prems for f x1 x2 x3 s y
      using prems(2) by (auto simp: fs_vcg split: if_splits option.splits prod.splits
        elim!: fs_ops prems(1) [THEN mp] intro!: fs_pure)
    done
  from this [OF assms(1)] assms(2) show ?thesis by simp
qed

lemma lookup_sfs_nolock_R [fs_ops]: "lookup_sfs_nolock x1 x2 s = Some (r1, t) \<Longrightarrow> R u s \<Longrightarrow> R u t"
  by (auto simp: lookup_sfs_nolock_def fs_vcg split: fs_splits elim!: fs_ops intro!: fs_pure)

lemma load_inode_locked_R [fs_ops]: "load_inode_locked x1 x2 s = Some (r1, r2, t) \<Longrightarrow> R u s \<Longrightarrow> R u t"
  by (auto simp: load_inode_locked_def fs_vcg split: fs_splits elim!: fs_ops intro!: fs_pure)

lemma sfs_load_inode_R [fs_ops]: "sfs_load_inode x1 x2 s = Some (r1, r2, t) \<Longrightarrow> R u s \<Longrightarrow> R u t"
  by (auto simp: sfs_load_inode_def fs_vcg split: fs_splits elim!: fs_ops intro!: fs_pure)

text \<open>Sfs_File\<close>

lemma sub_alloc_R [fs_ops]: "sub_alloc x1 x2 x3 x4 s = Some (r1, r2, r3, t) \<Longrightarrow> R u s \<Longrightarrow> R u t"
  by (auto simp: sub_alloc_def fs_vcg split: fs_splits elim!: fs_ops intro!: fs_pure)

lemma sfs_bmap_get_sub_nolock_R [fs_ops]: "sfs_bmap_get_sub_nolock x1 x2 x3 x4 s = Some (r1, r2, r3, t) \<Longrightarrow> R u s \<Longrightarrow> R u t"
  by (auto simp: sfs_bmap_get_sub_nolock_def fs_vcg split: fs_splits elim!: fs_ops intro!: fs_pure)

lemma sfs_bmap_get_nolock_R [fs_ops]: "sfs_bmap_get_nolock x1 x2 x3 x4 s = Some (r1, r2, t) \<Longrightarrow> R u s \<Longrightarrow> R u t"
  by (auto simp: sfs_bmap_get_nolock_def fs_vcg split: fs_splits elim!: fs_ops intro!: fs_pure)

lemma sfs_bmap_free_sub_nolock_R [fs_ops]: "sfs_bmap_free_sub_nolock x1 x2 x3 s = Some (r1, t) \<Longrightarrow> R u s \<Longrightarrow> R u t"
  by (auto simp: sfs_bmap_free_sub_nolock_def fs_vcg split: fs_splits elim!: fs_ops intro!: fs_pure)

lemma sfs_bmap_free_nolock_R [fs_ops]: "sfs_bmap_free_nolock x1 x2 x3 s = Some (r1, t) \<Longrightarrow> R u s \<Longrightarrow> R u t"
  by (auto simp: sfs_bmap_free_nolock_def fs_vcg split: fs_splits elim!: fs_ops intro!: fs_pure)

lemma sfs_bmap_load_nolock_R [fs_ops]: "sfs_bmap_load_nolock x1 x2 x3 s = Some (r1, r2, t) \<Longrightarrow> R u s \<Longrightarrow> R u t"
  by (auto simp: sfs_bmap_load_nolock_def fs_vcg split: fs_splits elim!: fs_ops intro!: fs_pure)

lemma sfs_bmap_truncate_nolock_R [fs_ops]: "sfs_bmap_truncate_nolock x1 x2 s = Some (r1, t) \<Longrightarrow> R u s \<Longrightarrow> R u t"
  by (auto simp: sfs_bmap_truncate_nolock_def fs_vcg split: fs_splits elim!: fs_ops intro!: fs_pure)

lemma sfs_buf_op_R [fs_ops]: "sfs_buf_op w x1 x2 x3 x4 x5 s = Some (r, t) \<Longrightarrow> R u s \<Longrightarrow> R u t"
  by (auto simp: sfs_buf_op_def split: if_splits elim!: fs_ops)

lemma sfs_block_op_R [fs_ops]: "sfs_block_op w x1 x2 x3 x4 s = Some (r, t) \<Longrightarrow> R u s \<Longrightarrow> R u t"
  by (auto simp: sfs_block_op_def split: if_splits elim!: fs_ops)

lemma io_block_R:
  assumes "io_block x1 x2 x3 g s = Some (r, t)" "R u s" and g: "\<And>i s r t. g i s = Some (r, t) \<Longrightarrow> R u s \<Longrightarrow> R u t"
  shows "R u t"
  using assms(1,2) by (auto simp: io_block_def fs_vcg split: if_splits elim!: fs_ops g)

lemma io_block_ops_R [fs_ops]:
  "io_block x1 x2 x3 (\<lambda>i. sfs_buf_op w x1 a k i d) s = Some (r, t) \<Longrightarrow> R u s \<Longrightarrow> R u t"
  "io_block x1 x2 x3 (\<lambda>i. sfs_block_op w x1 a i k) s = Some (r, t) \<Longrightarrow> R u s \<Longrightarrow> R u t"
  by (erule io_block_R; auto elim!: fs_ops)+

lemma io_head_R [fs_ops]: "io_head x1 x2 x3 x4 x5 s = Some (r1, r2, t) \<Longrightarrow> R u s \<Longrightarrow> R u t"
  by (auto simp: io_head_def fs_vcg split: fs_splits elim!: fs_ops intro!: fs_pure)

lemma io_blocks_R [fs_ops]:
  assumes "io_blocks x1 x2 x3 x4 x5 s = Some (r1, r2, t)" "R u s"
  shows "R u t"
proof -
  have "R u s \<longrightarrow> R u (snd (snd y))" if "io_blocks x1 x2 x3 x4 x5 s = Some y" for x1 x2 x3 x4 x5 s y
    apply (rule io_blocks.raw_induct [where P = "\<lambda>x1 x2 x3 x4 x5 s y. R u s \<longrightarrow> R u (snd (snd y))", OF _ that])
    subgoal premises prems for f x1 x2 x3 x4 x5 s y
      using prems(2) by (auto simp: fs_vcg split: if_splits option.splits prod.splits
        elim!: fs_ops prems(1) [THEN mp] intro!: fs_pure)
    done
  from this [OF assms(1)] assms(2) show ?thesis by simp
qed

lemma io_tail_R [fs_ops]: "io_tail x1 x2 x3 x4 x5 s = Some (r1, r2, t) \<Longrightarrow> R u s \<Longrightarrow> R u t"
  by (auto simp: io_tail_def fs_vcg split: fs_splits elim!: fs_ops intro!: fs_pure)

lemma io_phases_R [fs_ops]: "io_phases x1 x2 x3 x4 x5 s = Some (r1, r2, t) \<Longrightarrow> R u s \<Longrightarrow> R u t"
  by (auto simp: io_phases_def fs_vcg split: fs_splits elim!: fs_ops intro!: fs_pure)

lemma sfs_io_nolock_R [fs_ops]: "sfs_io_nolock x1 x2 x3 x4 x5 x6 s = Some (r1, r2, t) \<Longrightarrow> R u s \<Longrightarrow> R u t"
  by (auto simp: sfs_io_nolock_def fs_vcg split: fs_splits elim!: fs_ops intro!: fs_pure)

lemma sfs_io_R [fs_ops]: "sfs_io x1 x2 x3 s = Some (r1, r2, t) \<Longrightarrow> R u s \<Longrightarrow> R u t"
  by (auto simp: sfs_io_def fs_vcg split: fs_splits elim!: fs_ops intro!: fs_pure)

lemma sfs_read_R [fs_ops]: "sfs_read x1 x2 s = Some (r1, r2, t) \<Longrightarrow> R u s \<Longrightarrow> R u t"
  by (auto simp: sfs_read_def fs_vcg split: fs_splits elim!: fs_ops intro!: fs_pure)

lemma sfs_write_R [fs_ops]: "sfs_write x1 x2 s = Some (r1, r2, t) \<Longrightarrow> R u s \<Longrightarrow> R u t"
  by (auto simp: sfs_write_def fs_vcg split: fs_splits elim!: fs_ops intro!: fs_pure)

lemma sfs_fsync_R [fs_ops]: "sfs_fsync x1 s = Some (r1, t) \<Longrightarrow> R u s \<Longrightarrow> R u t"
  by (auto simp: sfs_fsync_def fs_vcg split: fs_splits elim!: fs_ops intro!: fs_pure)

lemma grow_loop_R [fs_ops]: "grow_loop x1 x2 x3 x4 s = Some (r1, t) \<Longrightarrow> R u s \<Longrightarrow> R u t"
proof (induction x4 arbitrary: x1 x2 x3 s)
  case (Suc k)
  from Suc.prems show ?case by (auto simp: fs_vcg split: if_splits option.splits elim!: fs_ops Suc.IH intro!: fs_pure)
qed (auto)

lemma shrink_loop_R [fs_ops]: "shrink_loop x1 x2 x3 s = Some (r1, t) \<Longrightarrow> R u s \<Longrightarrow> R u t"
proof (induction x3 arbitrary: x1 x2 s)
  case (Suc k)
  from Suc.prems show ?case by (auto simp: fs_vcg split: if_splits option.splits elim!: fs_ops Suc.IH intro!: fs_pure)
qed (auto)

lemma sfs_truncfile_R [fs_ops]: "sfs_truncfile x1 x2 s = Some (r1, t) \<Longrightarrow> R u s \<Longrightarrow> R u t"
  by (auto simp: sfs_truncfile_def fs_vcg split: fs_splits elim!: fs_ops intro!: fs_pure)

lemma sfs_dirent_read_nolock_R [fs_ops]: "sfs_dirent_read_nolock x1 x2 x3 x4 s = Some (r1, t) \<Longrightarrow> R u s \<Longrightarrow> R u t"
  by (auto simp: sfs_dirent_read_nolock_def fs_vcg split: fs_splits elim!: fs_ops intro!: fs_pure)

lemma dirent_search_loop_R [fs_ops]:
  assumes "dirent_search_loop x1 x2 x3 x4 x5 x6 x7 s = Some (r1, r2, r3, t)" "R u s"
  shows "R u t"
proof -
  have "R u s \<longrightarrow> R u (snd (snd (snd y)))" if "dirent_search_loop x1 x2 x3 x4 x5 x6 x7 s = Some y" for x1 x2 x3 x4 x5 x6 x7 s y
    apply (rule dirent_search_loop.raw_induct [where P = "\<lambda>x1 x2 x3 x4 x5 x6 x7 s y. R u s \<longrightarrow> R u (snd (snd (snd y)))", OF _ that])
    subgoal premises prems for f x1 x2 x3 x4 x5 x6 x7 s y
      using prems(2) by (auto simp: fs_vcg split: if_splits option.splits prod.splits
        elim!: fs_ops prems(1) [THEN mp] intro!: fs_pure)
    done
  from this [OF assms(1)] assms(2) show ?thesis by simp
qed

lemma sfs_dirent_search_nolock_R [fs_ops]: "sfs_dirent_search_nolock x1 x2 x3 s = Some (r1, r2, r3, t) \<Longrightarrow> R u s \<Longrightarrow> R u t"
  by (auto simp: sfs_dirent_search_nolock_def fs_vcg split: fs_splits elim!: fs_ops intro!: fs_pure)

lemma findino_loop_R [fs_ops]:
  assumes "findino_loop x1 x2 x3 x4 x5 x6 s = Some (r1, t)" "R u s"
  shows "R u t"
proof -
  have "R u s \<longrightarrow> R u (snd y)" if "findino_loop x1 x2 x3 x4 x5 x6 s = Some y" for x1 x2 x3 x4 x5 x6 s y
    apply (rule findino_loop.raw_induct [where P = "\<lambda>x1 x2 x3 x4 x5 x6 s y. R u s \<longrightarrow> R u (snd y)", OF _ that])
    subgoal premises prems for f x1 x2 x3 x4 x5 x6 s y
      using prems(2) by (auto simp: fs_vcg split: if_splits option.splits prod.splits
        elim!: fs_ops prems(1) [THEN mp] intro!: fs_pure)
    done
  from this [OF assms(1)] assms(2) show ?thesis by simp
qed

lemma sfs_dirent_findino_nolock_R [fs_ops]: "sfs_dirent_findino_nolock x1 x2 x3 x4 s = Some (r1, t) \<Longrightarrow> R u s \<Longrightarrow> R u t"
  by (auto simp: sfs_dirent_findino_nolock_def fs_vcg split: fs_splits elim!: fs_ops intro!: fs_pure)

lemma getdirentry_loop_R [fs_ops]:
  assumes "getdirentry_loop x1 x2 x3 x4 x5 x6 s = Some (r1, t)" "R u s"
  shows "R u t"
proof -
  have "R u s \<longrightarrow> R u (snd y)" if "getdirentry_loop x1 x2 x3 x4 x5 x6 s = Some y" for x1 x2 x3 x4 x5 x6 s y
    apply (rule getdirentry_loop.raw_induct [where P = "\<lambda>x1 x2 x3 x4 x5 x6 s y. R u s \<longrightarrow> R u (snd y)", OF _ that])
    subgoal premises prems for f x1 x2 x3 x4 x5 x6 s y
      using prems(2) by (auto simp: fs_vcg split: if_splits option.splits prod.splits
        elim!: fs_ops prems(1) [THEN mp] intro!: fs_pure)
    done
  from this [OF assms(1)] assms(2) show ?thesis by simp
qed

lemma sfs_getdirentry_sub_nolock_R [fs_ops]: "sfs_getdirentry_sub_nolock x1 x2 x3 x4 s = Some (r1, t) \<Longrightarrow> R u s \<Longrightarrow> R u t"
  by (auto simp: sfs_getdirentry_sub_nolock_def fs_vcg split: fs_splits elim!: fs_ops intro!: fs_pure)

lemma sfs_lookup_once_R [fs_ops]: "sfs_lookup_once x1 x2 x3 s = Some (r1, r2, t) \<Longrightarrow> R u s \<Longrightarrow> R u t"
  by (auto simp: sfs_lookup_once_def fs_vcg split: fs_splits elim!: fs_ops intro!: fs_pure)

text \<open>Vop\<close>

lemma dev_read_R [fs_ops]: "dev_read x1 x2 s = Some (r1, r2, t) \<Longrightarrow> R u s \<Longrightarrow> R u t"
  by (auto simp: dev_read_def fs_vcg split: fs_splits elim!: fs_ops intro!: fs_pure)

lemma dev_write_R [fs_ops]: "dev_write x1 x2 s = Some (r1, r2, t) \<Longrightarrow> R u s \<Longrightarrow> R u t"
  by (auto simp: dev_write_def fs_vcg split: fs_splits elim!: fs_ops intro!: fs_pure)

lemma dev_lookup_R [fs_ops]: "dev_lookup x1 x2 s = Some (r1, r2, t) \<Longrightarrow> R u s \<Longrightarrow> R u t"
  by (auto simp: dev_lookup_def fs_vcg split: fs_splits elim!: fs_ops intro!: fs_pure)

lemma dev_create_inode_R:
  assumes "dev_create_inode s = Some (Some n, t)" "R u s"
  shows "R u t" "in_ops (inodes t n) = Dev_node_ops" "in_fs (inodes t n) = None"
proof -
  from assms obtain k s1 where k: "fs_kmalloc SIZEOF_INODE s = Some (k, s1)"
    by (auto simp: dev_create_inode_def alloc_inode_def fs_vcg)
  then have u: "R u s1" using assms(2) by (elim fs_ops)
  from assms(1) k obtain t_def: "t = inode_init n Dev_node_ops None
      (upd_inode n (\<lambda>i. i\<lparr>in_info := blank_info inode_type_device_info\<rparr>) s1)"
    by (cases k) (auto simp: dev_create_inode_def alloc_inode_def)
  show "R u t" using u unfolding t_def
    by (auto simp: inode_init_def inode_ref_inc_def upd_inode_twice Let_def node_typed_def intro!: new_inode_R)
  show "in_ops (inodes t n) = Dev_node_ops" "in_fs (inodes t n) = None"
    by (simp_all add: t_def inode_init_def inode_ref_inc_def upd_inode_def Let_def)
qed

lemma vop_read_R [fs_ops]: "vop_read x1 x2 s = Some (r1, r2, t) \<Longrightarrow> R u s \<Longrightarrow> R u t"
  by (auto simp: vop_read_def fs_vcg split: fs_splits elim!: fs_ops intro!: fs_pure)

lemma vop_write_R [fs_ops]: "vop_write x1 x2 s = Some (r1, r2, t) \<Longrightarrow> R u s \<Longrightarrow> R u t"
  by (auto simp: vop_write_def fs_vcg split: fs_splits elim!: fs_ops intro!: fs_pure)

lemma vop_fsync_R [fs_ops]: "vop_fsync x1 s = Some (r1, t) \<Longrightarrow> R u s \<Longrightarrow> R u t"
  by (auto simp: vop_fsync_def fs_vcg split: fs_splits elim!: fs_ops intro!: fs_pure)

lemma vop_truncate_R [fs_ops]: "vop_truncate x1 x2 s = Some (r1, t) \<Longrightarrow> R u s \<Longrightarrow> R u t"
  by (auto simp: vop_truncate_def fs_vcg split: fs_splits elim!: fs_ops intro!: fs_pure)

lemma sfs_tryseek_R [fs_ops]: "sfs_tryseek x1 x2 s = Some (r1, t) \<Longrightarrow> R u s \<Longrightarrow> R u t"
  by (auto simp: sfs_tryseek_def fs_vcg split: fs_splits elim!: fs_ops intro!: fs_pure)

lemma vop_tryseek_R [fs_ops]: "vop_tryseek x1 x2 s = Some (r1, t) \<Longrightarrow> R u s \<Longrightarrow> R u t"
  by (auto simp: vop_tryseek_def fs_vcg split: fs_splits elim!: fs_ops intro!: fs_pure)

lemma sfs_close_R [fs_ops]: "sfs_close x1 s = Some (r1, t) \<Longrightarrow> R u s \<Longrightarrow> R u t"
  by (auto simp: sfs_close_def fs_vcg split: fs_splits elim!: fs_ops intro!: fs_pure)

lemma vop_close_R [fs_ops]: "vop_close x1 s = Some (r1, t) \<Longrightarrow> R u s \<Longrightarrow> R u t"
  by (auto simp: vop_close_def fs_vcg split: fs_splits elim!: fs_ops intro!: fs_pure)

lemma reclaim_locked_R [fs_ops]: "reclaim_locked x1 s = Some (r1, r2, t) \<Longrightarrow> R u s \<Longrightarrow> R u t"
  by (auto simp: reclaim_locked_def fs_vcg split: fs_splits elim!: fs_ops intro!: fs_pure)

lemma sfs_reclaim_R [fs_ops]: "sfs_reclaim x1 s = Some (r1, t) \<Longrightarrow> R u s \<Longrightarrow> R u t"
  by (auto simp: sfs_reclaim_def fs_vcg split: fs_splits elim!: fs_ops intro!: fs_pure)

lemma vop_reclaim_R [fs_ops]: "vop_reclaim x1 s = Some (r1, t) \<Longrightarrow> R u s \<Longrightarrow> R u t"
  by (auto simp: vop_reclaim_def fs_vcg split: fs_splits elim!: fs_ops intro!: fs_pure)

lemma inode_ref_dec_R [fs_ops]: "inode_ref_dec x1 s = Some (r1, t) \<Longrightarrow> R u s \<Longrightarrow> R u t"
  by (auto simp: inode_ref_dec_def fs_vcg split: fs_splits elim!: fs_ops intro!: fs_pure)

lemma inode_open_dec_R [fs_ops]: "inode_open_dec x1 s = Some (r1, t) \<Longrightarrow> R u s \<Longrightarrow> R u t"
  by (auto simp: inode_open_dec_def fs_vcg split: fs_splits elim!: fs_ops intro!: fs_pure)

lemma vop_ref_inc_R [fs_pure]: "R u s \<Longrightarrow> R u (vop_ref_inc x1 s)"
  by (auto simp: vop_ref_inc_def fs_vcg split: fs_splits elim!: fs_ops intro!: fs_pure)

lemma vop_open_inc_R [fs_pure]: "R u s \<Longrightarrow> R u (vop_open_inc x1 s)"
  by (auto simp: vop_open_inc_def fs_vcg split: fs_splits elim!: fs_ops intro!: fs_pure)

lemma vop_ref_dec_R [fs_ops]: "vop_ref_dec x1 s = Some t \<Longrightarrow> R u s \<Longrightarrow> R u t"
  by (auto simp: vop_ref_dec_def fs_vcg split: fs_splits elim!: fs_ops intro!: fs_pure)

lemma vop_open_dec_R [fs_ops]: "vop_open_dec x1 s = Some t \<Longrightarrow> R u s \<Longrightarrow> R u t"
  by (auto simp: vop_open_dec_def fs_vcg split: fs_splits elim!: fs_ops intro!: fs_pure)

lemma sfs_lookup_R [fs_ops]: "sfs_lookup x1 x2 s = Some (r1, r2, t) \<Longrightarrow> R u s \<Longrightarrow> R u t"
  by (auto simp: sfs_lookup_def fs_vcg split: fs_splits elim!: fs_ops intro!: fs_pure)

lemma vop_lookup_R [fs_ops]: "vop_lookup x1 x2 s = Some (r1, r2, t) \<Longrightarrow> R u s \<Longrightarrow> R u t"
  by (auto simp: vop_lookup_def fs_vcg split: fs_splits elim!: fs_ops intro!: fs_pure)

lemma sfs_getdirentry_R [fs_ops]: "sfs_getdirentry x1 x2 s = Some (r1, r2, t) \<Longrightarrow> R u s \<Longrightarrow> R u t"
  by (auto simp: sfs_getdirentry_def fs_vcg split: fs_splits elim!: fs_ops intro!: fs_pure)

lemma vop_getdirentry_R [fs_ops]: "vop_getdirentry x1 x2 s = Some (r1, r2, t) \<Longrightarrow> R u s \<Longrightarrow> R u t"
  by (auto simp: vop_getdirentry_def fs_vcg split: fs_splits elim!: fs_ops intro!: fs_pure)

lemma namefile_loop_R [fs_ops]:
  assumes "namefile_loop x1 x2 x3 x4 x5 x6 s = Some (r1, r2, r3, t)" "R u s"
  shows "R u t"
proof -
  have "R u s \<longrightarrow> R u (snd (snd (snd y)))" if "namefile_loop x1 x2 x3 x4 x5 x6 s = Some y" for x1 x2 x3 x4 x5 x6 s y
    apply (rule namefile_loop.raw_induct [where P = "\<lambda>x1 x2 x3 x4 x5 x6 s y. R u s \<longrightarrow> R u (snd (snd (snd y)))", OF _ that])
    subgoal premises prems for f x1 x2 x3 x4 x5 x6 s y
      using prems(2) by (auto simp: fs_vcg split: if_splits option.splits prod.splits
        elim!: fs_ops prems(1) [THEN mp] intro!: fs_pure)
    done
  from this [OF assms(1)] assms(2) show ?thesis by simp
qed

lemma sfs_namefile_R [fs_ops]: "sfs_namefile x1 x2 x3 s = Some (r1, r2, t) \<Longrightarrow> R u s \<Longrightarrow> R u t"
  by (auto simp: sfs_namefile_def fs_vcg split: fs_splits elim!: fs_ops intro!: fs_pure)

lemma vop_namefile_R [fs_ops]: "vop_namefile x1 x2 x3 s = Some (r1, r2, t) \<Longrightarrow> R u s \<Longrightarrow> R u t"
  by (auto simp: vop_namefile_def fs_vcg split: fs_splits elim!: fs_ops intro!: fs_pure)

text \<open>Sfs_Fs\<close>

lemma sync_inodes_loop_R [fs_ops]:
  assumes "sync_inodes_loop x1 x2 s = Some t" "R u s"
  shows "R u t"
proof -
  have "R u s \<longrightarrow> R u y" if "sync_inodes_loop x1 x2 s = Some y" for x1 x2 s y
    apply (rule sync_inodes_loop.raw_induct [where P = "\<lambda>x1 x2 s y. R u s \<longrightarrow> R u y", OF _ that])
    subgoal premises prems for f x1 x2 s y
      using prems(2) by (auto simp: fs_vcg split: if_splits option.splits prod.splits
        elim!: fs_ops prems(1) [THEN mp] intro!: fs_pure)
    done
  from this [OF assms(1)] assms(2) show ?thesis by simp
qed

lemma sfs_sync_R [fs_ops]: "sfs_sync x1 s = Some (r1, t) \<Longrightarrow> R u s \<Longrightarrow> R u t"
  by (auto simp: sfs_sync_def fs_vcg split: fs_splits elim!: fs_ops intro!: fs_pure)

lemma sfs_get_root_R [fs_ops]: "sfs_get_root x1 s = Some (r1, t) \<Longrightarrow> R u s \<Longrightarrow> R u t"
  by (auto simp: sfs_get_root_def fs_vcg split: fs_splits elim!: fs_ops intro!: fs_pure)

lemma sfs_unmount_R [fs_ops]: "sfs_unmount x1 s = Some (r1, t) \<Longrightarrow> R u s \<Longrightarrow> R u t"
  by (auto simp: sfs_unmount_def fs_vcg split: fs_splits elim!: fs_ops intro!: fs_pure)

lemma cleanup_loop_R [fs_ops]: "cleanup_loop x1 x2 s = Some t \<Longrightarrow> R u s \<Longrightarrow> R u t"
proof (induction x2 arbitrary: x1 s)
  case (Suc k)
  from Suc.prems show ?case by (auto simp: fs_vcg split: if_splits option.splits elim!: fs_ops Suc.IH intro!: fs_pure)
qed (auto)

lemma sfs_cleanup_R [fs_ops]: "sfs_cleanup x1 s = Some t \<Longrightarrow> R u s \<Longrightarrow> R u t"
  by (auto simp: sfs_cleanup_def fs_vcg split: fs_splits elim!: fs_ops intro!: fs_pure)

lemma sfs_init_read_R [fs_ops]: "sfs_init_read x1 x2 x3 s = Some (r1, t) \<Longrightarrow> R u s \<Longrightarrow> R u t"
  by (auto simp: sfs_init_read_def fs_vcg split: fs_splits elim!: fs_ops intro!: fs_pure)

lemma init_freemap_loop_R [fs_ops]: "init_freemap_loop x1 x2 x3 x4 s = Some (r1, t) \<Longrightarrow> R u s \<Longrightarrow> R u t"
proof (induction x3 arbitrary: x1 x2 x4 s)
  case (Suc k)
  from Suc.prems show ?case by (auto simp: fs_vcg split: if_splits option.splits elim!: fs_ops Suc.IH intro!: fs_pure)
qed (auto)

lemma sfs_init_freemap_R [fs_ops]: "sfs_init_freemap x1 x2 x3 x4 s = Some (r1, t) \<Longrightarrow> R u s \<Longrightarrow> R u t"
  by (auto simp: sfs_init_freemap_def fs_vcg split: fs_splits elim!: fs_ops intro!: fs_pure)

lemma mount_freemap_R [fs_ops]: "mount_freemap x1 x2 s = Some (r1, t) \<Longrightarrow> R u s \<Longrightarrow> R u t"
  by (auto simp: mount_freemap_def fs_vcg split: fs_splits elim!: fs_ops intro!: fs_pure)

lemma mount_hash_R [fs_ops]: "mount_hash x1 x2 s = Some (r, t) \<Longrightarrow> R u s \<Longrightarrow> R u t"
  by (auto simp: mount_hash_def fs_vcg split: if_splits option.splits prod.splits elim!: fs_ops intro!: fs_pure fold_R)

lemma mount_super_R [fs_ops]: "mount_super x1 x2 x3 s = Some (r1, t) \<Longrightarrow> R u s \<Longrightarrow> R u t"
  by (auto simp: mount_super_def fs_vcg split: fs_splits elim!: fs_ops intro!: fs_pure)

lemma sfs_do_mount_R [fs_ops]: "sfs_do_mount x1 s = Some (r1, r2, t) \<Longrightarrow> R u s \<Longrightarrow> R u t"
  by (auto simp: sfs_do_mount_def fs_vcg split: fs_splits elim!: fs_ops intro!: fs_pure)

text \<open>Vfs\<close>

lemma lock_vdev_list_R [fs_ops]: "lock_vdev_list s = Some t \<Longrightarrow> R u s \<Longrightarrow> R u t"
  by (auto simp: lock_vdev_list_def fs_vcg split: fs_splits elim!: fs_ops intro!: fs_pure)

lemma unlock_vdev_list_R [fs_ops]: "unlock_vdev_list s = Some t \<Longrightarrow> R u s \<Longrightarrow> R u t"
  by (auto simp: unlock_vdev_list_def fs_vcg split: fs_splits elim!: fs_ops intro!: fs_pure)

lemma vfs_devlist_init_R [fs_pure]: "R u s \<Longrightarrow> R u (vfs_devlist_init s)"
  by (auto simp: vfs_devlist_init_def fs_vcg split: fs_splits elim!: fs_ops intro!: fs_pure)

lemma vfs_cleanup_loop_R [fs_ops]:
  assumes "vfs_cleanup_loop x1 s = Some t" "R u s"
  shows "R u t"
proof -
  have "R u s \<longrightarrow> R u y" if "vfs_cleanup_loop x1 s = Some y" for x1 s y
    apply (rule vfs_cleanup_loop.raw_induct [where P = "\<lambda>x1 s y. R u s \<longrightarrow> R u y", OF _ that])
    subgoal premises prems for f x1 s y
      using prems(2) by (auto simp: fs_vcg split: if_splits option.splits prod.splits
        elim!: fs_ops prems(1) [THEN mp] intro!: fs_pure)
    done
  from this [OF assms(1)] assms(2) show ?thesis by simp
qed

lemma vfs_cleanup_R [fs_ops]: "vfs_cleanup s = Some t \<Longrightarrow> R u s \<Longrightarrow> R u t"
  by (auto simp: vfs_cleanup_def fs_vcg split: fs_splits elim!: fs_ops intro!: fs_pure)

lemma vfs_get_root_R [fs_ops]: "vfs_get_root x1 s = Some (r1, r2, t) \<Longrightarrow> R u s \<Longrightarrow> R u t"
  by (auto simp: vfs_get_root_def fs_vcg split: fs_splits elim!: fs_ops intro!: fs_pure)

lemma strdup_R [fs_ops]: "strdup x1 s = Some (r1, t) \<Longrightarrow> R u s \<Longrightarrow> R u t"
  by (auto simp: strdup_def fs_vcg split: fs_splits elim!: fs_ops intro!: fs_pure)

lemma vfs_do_add_R [fs_ops]: "vfs_do_add x1 x2 x3 x4 s = Some (r1, t) \<Longrightarrow> R u s \<Longrightarrow> R u t"
  by (auto simp: vfs_do_add_def fs_vcg split: fs_splits elim!: fs_ops intro!: fs_pure)

lemma vfs_add_fs_R [fs_ops]: "vfs_add_fs x1 x2 s = Some (r1, t) \<Longrightarrow> R u s \<Longrightarrow> R u t"
  by (auto simp: vfs_add_fs_def fs_vcg split: fs_splits elim!: fs_ops intro!: fs_pure)

lemma vfs_add_dev_R [fs_ops]: "vfs_add_dev x1 x2 x3 s = Some (r1, t) \<Longrightarrow> R u s \<Longrightarrow> R u t"
  by (auto simp: vfs_add_dev_def fs_vcg split: fs_splits elim!: fs_ops intro!: fs_pure)

lemma mount_found_R [fs_ops]: "mount_found x1 s = Some (r1, t) \<Longrightarrow> R u s \<Longrightarrow> R u t"
  by (auto simp: mount_found_def fs_vcg split: fs_splits elim!: fs_ops intro!: fs_pure)

lemma vfs_mount_R [fs_ops]: "vfs_mount x1 s = Some (r1, t) \<Longrightarrow> R u s \<Longrightarrow> R u t"
  by (auto simp: vfs_mount_def fs_vcg split: fs_splits elim!: fs_ops intro!: fs_pure)

lemma unmount_found_R [fs_ops]: "unmount_found x1 s = Some (r1, t) \<Longrightarrow> R u s \<Longrightarrow> R u t"
  by (auto simp: unmount_found_def fs_vcg split: fs_splits elim!: fs_ops intro!: fs_pure)

lemma vfs_unmount_R [fs_ops]: "vfs_unmount x1 s = Some (r1, t) \<Longrightarrow> R u s \<Longrightarrow> R u t"
  by (auto simp: vfs_unmount_def fs_vcg split: fs_splits elim!: fs_ops intro!: fs_pure)

lemma unmount_all_loop_R [fs_ops]:
  assumes "unmount_all_loop x1 s = Some t" "R u s"
  shows "R u t"
proof -
  have "R u s \<longrightarrow> R u y" if "unmount_all_loop x1 s = Some y" for x1 s y
    apply (rule unmount_all_loop.raw_induct [where P = "\<lambda>x1 s y. R u s \<longrightarrow> R u y", OF _ that])
    subgoal premises prems for f x1 s y
      using prems(2) by (auto simp: fs_vcg split: if_splits option.splits prod.splits
        elim!: fs_ops prems(1) [THEN mp] intro!: fs_pure)
    done
  from this [OF assms(1)] assms(2) show ?thesis by simp
qed

lemma vfs_unmount_all_R [fs_ops]: "vfs_unmount_all s = Some (r1, t) \<Longrightarrow> R u s \<Longrightarrow> R u t"
  by (auto simp: vfs_unmount_all_def fs_vcg split: fs_splits elim!: fs_ops intro!: fs_pure)

lemma set_cwd_nolock_R [fs_ops]: "set_cwd_nolock x1 s = Some t \<Longrightarrow> R u s \<Longrightarrow> R u t"
  by (auto simp: set_cwd_nolock_def fs_vcg split: fs_splits elim!: fs_ops intro!: fs_pure)

lemma lock_files_R [fs_ops]: "lock_files x1 s = Some t \<Longrightarrow> R u s \<Longrightarrow> R u t"
  by (auto simp: lock_files_def fs_vcg split: fs_splits elim!: fs_ops intro!: fs_pure)

lemma unlock_files_R [fs_ops]: "unlock_files x1 s = Some t \<Longrightarrow> R u s \<Longrightarrow> R u t"
  by (auto simp: unlock_files_def fs_vcg split: fs_splits elim!: fs_ops intro!: fs_pure)

lemma lock_cfs_R [fs_ops]: "lock_cfs s = Some t \<Longrightarrow> R u s \<Longrightarrow> R u t"
  by (auto simp: lock_cfs_def fs_vcg split: fs_splits elim!: fs_ops intro!: fs_pure)

lemma unlock_cfs_R [fs_ops]: "unlock_cfs s = Some t \<Longrightarrow> R u s \<Longrightarrow> R u t"
  by (auto simp: unlock_cfs_def fs_vcg split: fs_splits elim!: fs_ops intro!: fs_pure)

lemma vfs_get_curdir_R [fs_ops]: "vfs_get_curdir s = Some (r1, r2, t) \<Longrightarrow> R u s \<Longrightarrow> R u t"
  by (auto simp: vfs_get_curdir_def fs_vcg split: fs_splits elim!: fs_ops intro!: fs_pure)

lemma change_dir_R [fs_ops]: "change_dir x1 x2 s = Some t \<Longrightarrow> R u s \<Longrightarrow> R u t"
  by (auto simp: change_dir_def fs_vcg split: fs_splits elim!: fs_ops intro!: fs_pure)

lemma vfs_set_curdir_R [fs_ops]: "vfs_set_curdir x1 s = Some (r1, t) \<Longrightarrow> R u s \<Longrightarrow> R u t"
  by (auto simp: vfs_set_curdir_def fs_vcg split: fs_splits elim!: fs_ops intro!: fs_pure)

lemma vfs_init_R [fs_pure]: "R u s \<Longrightarrow> R u (vfs_init s)"
  by (auto simp: vfs_init_def fs_vcg split: fs_splits elim!: fs_ops intro!: fs_pure)

lemma lock_bootfs_R [fs_ops]: "lock_bootfs s = Some t \<Longrightarrow> R u s \<Longrightarrow> R u t"
  by (auto simp: lock_bootfs_def fs_vcg split: fs_splits elim!: fs_ops intro!: fs_pure)

lemma unlock_bootfs_R [fs_ops]: "unlock_bootfs s = Some t \<Longrightarrow> R u s \<Longrightarrow> R u t"
  by (auto simp: unlock_bootfs_def fs_vcg split: fs_splits elim!: fs_ops intro!: fs_pure)

lemma change_bootfs_R [fs_ops]: "change_bootfs x1 s = Some t \<Longrightarrow> R u s \<Longrightarrow> R u t"
  by (auto simp: change_bootfs_def fs_vcg split: fs_splits elim!: fs_ops intro!: fs_pure)

lemma vfs_get_bootfs_R [fs_ops]: "vfs_get_bootfs s = Some (r1, r2, t) \<Longrightarrow> R u s \<Longrightarrow> R u t"
  by (auto simp: vfs_get_bootfs_def fs_vcg split: fs_splits elim!: fs_ops intro!: fs_pure)

lemma get_device_R [fs_ops]:
  assumes "get_device x1 s = Some (r, p, n, t)" "R u s"
  shows "R u t"
proof -
  from assms(1) obtain stop where stop: "path_scan x1 0 (mem s) = Some stop" by (auto simp: get_device_def fs_vcg)
  show ?thesis
  proof (cases "case stop of None \<Rightarrow> True | Some (i, colon) \<Rightarrow> \<not> colon \<and> i \<noteq> 0")
    case True
    then show ?thesis using assms stop by (auto simp: get_device_def fs_vcg elim!: fs_ops)
  next
    case False
    then obtain i colon where "stop = Some (i, colon)" "\<not> (\<not> colon \<and> i \<noteq> 0)" by (cases stop) auto
    then show ?thesis using assms stop
      by (cases "colon \<and> i > 0"; cases "mem s x1 = chr ''/''")
        (auto simp: get_device_def fs_vcg split: if_splits option.splits elim!: fs_ops intro!: fs_pure)
  qed
qed

lemma vfs_lookup_R [fs_ops]: "vfs_lookup x1 s = Some (r1, r2, t) \<Longrightarrow> R u s \<Longrightarrow> R u t"
  by (auto simp: vfs_lookup_def fs_vcg split: fs_splits elim!: fs_ops intro!: fs_pure)

lemma vfs_lookup_parent_R [fs_ops]: "vfs_lookup_parent x1 s = Some (r1, r2, r3, t) \<Longrightarrow> R u s \<Longrightarrow> R u t"
  by (auto simp: vfs_lookup_parent_def fs_vcg split: fs_splits elim!: fs_ops intro!: fs_pure)

lemma vfs_chdir_R [fs_ops]: "vfs_chdir x1 s = Some (r1, t) \<Longrightarrow> R u s \<Longrightarrow> R u t"
  by (auto simp: vfs_chdir_def fs_vcg split: fs_splits elim!: fs_ops intro!: fs_pure)

lemma vfs_set_bootfs_R [fs_ops]: "vfs_set_bootfs x1 s = Some (r1, t) \<Longrightarrow> R u s \<Longrightarrow> R u t"
  by (auto simp: vfs_set_bootfs_def fs_vcg split: fs_splits elim!: fs_ops intro!: fs_pure)

lemma vfs_getcwd_R [fs_ops]: "vfs_getcwd x1 x2 x3 s = Some (r1, r2, t) \<Longrightarrow> R u s \<Longrightarrow> R u t"
  by (auto simp: vfs_getcwd_def fs_vcg split: fs_splits elim!: fs_ops intro!: fs_pure)

lemma open_lookup_R [fs_ops]: "open_lookup x1 x2 x3 s = Some (r1, r2, t) \<Longrightarrow> R u s \<Longrightarrow> R u t"
  by (auto simp: open_lookup_def vop_create_def fs_vcg split: if_splits elim!: fs_ops)

lemma open_node_R [fs_ops]: "open_node x1 x2 x3 s = Some (r1, r2, t) \<Longrightarrow> R u s \<Longrightarrow> R u t"
  by (auto simp: open_node_def fs_vcg split: fs_splits elim!: fs_ops intro!: fs_pure)

lemma vfs_open_R [fs_ops]: "vfs_open x1 x2 s = Some (r1, r2, t) \<Longrightarrow> R u s \<Longrightarrow> R u t"
  by (auto simp: vfs_open_def fs_vcg split: fs_splits elim!: fs_ops intro!: fs_pure)

lemma vfs_close_R [fs_ops]: "vfs_close x1 s = Some (r1, t) \<Longrightarrow> R u s \<Longrightarrow> R u t"
  by (auto simp: vfs_close_def fs_vcg split: fs_splits elim!: fs_ops intro!: fs_pure)

text \<open>File_Table\<close>

lemma fd_array_init_R [fs_pure]: "R u s \<Longrightarrow> R u (fd_array_init fp s)"
  by (auto simp: fd_array_init_def intro!: fold_R fs_pure)

lemma fd_array_alloc_R [fs_ops]: "fd_array_alloc x1 s = Some (r1, r2, t) \<Longrightarrow> R u s \<Longrightarrow> R u t"
  by (auto simp: fd_array_alloc_def fs_vcg split: fs_splits elim!: fs_ops intro!: fs_pure)

lemma fd_array_free_R [fs_ops]: "fd_array_free x1 x2 s = Some t \<Longrightarrow> R u s \<Longrightarrow> R u t"
  by (auto simp: fd_array_free_def fs_vcg split: fs_splits elim!: fs_ops intro!: fs_pure)

lemma fd_array_acquire_R [fs_ops]: "fd_array_acquire x1 x2 s = Some t \<Longrightarrow> R u s \<Longrightarrow> R u t"
  by (auto simp: fd_array_acquire_def fs_vcg split: fs_splits elim!: fs_ops intro!: fs_pure)

lemma fd_array_release_R [fs_ops]: "fd_array_release x1 x2 s = Some t \<Longrightarrow> R u s \<Longrightarrow> R u t"
  by (auto simp: fd_array_release_def fs_vcg split: fs_splits elim!: fs_ops intro!: fs_pure)

lemma fd_array_open_R [fs_ops]: "fd_array_open x1 x2 s = Some t \<Longrightarrow> R u s \<Longrightarrow> R u t"
  by (auto simp: fd_array_open_def fs_vcg split: fs_splits elim!: fs_ops intro!: fs_pure)

lemma fd_array_close_R [fs_ops]: "fd_array_close x1 x2 s = Some t \<Longrightarrow> R u s \<Longrightarrow> R u t"
  by (auto simp: fd_array_close_def fs_vcg split: fs_splits elim!: fs_ops intro!: fs_pure)

lemma fd_array_dup_R [fs_ops]: "fd_array_dup x1 x2 x3 x4 s = Some t \<Longrightarrow> R u s \<Longrightarrow> R u t"
  by (auto simp: fd_array_dup_def fs_vcg split: fs_splits elim!: fs_ops intro!: fs_pure)

lemma file_open_R [fs_ops]: "file_open x1 x2 s = Some (r1, t) \<Longrightarrow> R u s \<Longrightarrow> R u t"
  by (auto simp: file_open_def fs_vcg split: fs_splits elim!: fs_ops intro!: fs_pure)

lemma file_close_R [fs_ops]: "file_close x1 s = Some (r1, t) \<Longrightarrow> R u s \<Longrightarrow> R u t"
  by (auto simp: file_close_def fs_vcg split: fs_splits elim!: fs_ops intro!: fs_pure)

lemma file_dup_R [fs_ops]: "file_dup x1 x2 s = Some (r1, t) \<Longrightarrow> R u s \<Longrightarrow> R u t"
  by (auto simp: file_dup_def fs_vcg split: fs_splits elim!: fs_ops intro!: fs_pure)

lemma file_io_R:
  assumes "file_io al g fd b l s = Some (r, c, t)" "R u s"
    and g: "\<And>n i s r j t. g n i s = Some (r, j, t) \<Longrightarrow> R u s \<Longrightarrow> R u t"
  shows "R u t"
  using assms(1,2) by (auto simp: file_io_def fs_vcg split: if_splits option.splits prod.splits
      elim!: fs_ops g intro!: fs_pure)

lemma file_read_R [fs_ops]: "file_read x1 x2 x3 s = Some (r, c, t) \<Longrightarrow> R u s \<Longrightarrow> R u t"
  unfolding file_read_def by (erule file_io_R) (auto elim!: fs_ops)

lemma file_write_R [fs_ops]: "file_write x1 x2 x3 s = Some (r, c, t) \<Longrightarrow> R u s \<Longrightarrow> R u t"
  unfolding file_write_def by (erule file_io_R) (auto elim!: fs_ops)

lemma file_seek_R [fs_ops]: "file_seek x1 x2 x3 s = Some (r1, t) \<Longrightarrow> R u s \<Longrightarrow> R u t"
  by (auto simp: file_seek_def fs_vcg split: fs_splits elim!: fs_ops intro!: fs_pure)

lemma file_fstat_R [fs_ops]: "file_fstat x1 s = Some (r1, r2, t) \<Longrightarrow> R u s \<Longrightarrow> R u t"
  by (auto simp: file_fstat_def fs_vcg split: fs_splits elim!: fs_ops intro!: fs_pure)

lemma file_fsync_R [fs_ops]: "file_fsync x1 s = Some (r1, t) \<Longrightarrow> R u s \<Longrightarrow> R u t"
  by (auto simp: file_fsync_def fs_vcg split: fs_splits elim!: fs_ops intro!: fs_pure)

lemma file_getdirentry_R [fs_ops]: "file_getdirentry x1 x2 s = Some (r1, t) \<Longrightarrow> R u s \<Longrightarrow> R u t"
  by (auto simp: file_getdirentry_def fs_vcg split: fs_splits elim!: fs_ops intro!: fs_pure)

lemma files_create_R [fs_ops]: "files_create s = Some (r1, t) \<Longrightarrow> R u s \<Longrightarrow> R u t"
  by (auto simp: files_create_def fs_vcg split: fs_splits elim!: fs_ops intro!: fs_pure)

lemma destroy_loop_R [fs_ops]: "destroy_loop x1 x2 s = Some t \<Longrightarrow> R u s \<Longrightarrow> R u t"
proof (induction x2 arbitrary: x1 s)
  case (Cons i js)
  from Cons.prems show ?case by (auto simp: fs_vcg split: if_splits option.splits elim!: fs_ops Cons.IH intro!: fs_pure)
qed (auto)

lemma files_destroy_R [fs_ops]: "files_destroy x1 s = Some t \<Longrightarrow> R u s \<Longrightarrow> R u t"
  by (auto simp: files_destroy_def fs_vcg split: fs_splits elim!: fs_ops intro!: fs_pure)

lemma closeall_loop_R [fs_ops]: "closeall_loop x1 x2 s = Some t \<Longrightarrow> R u s \<Longrightarrow> R u t"
proof (induction x2 arbitrary: x1 s)
  case (Cons i js)
  from Cons.prems show ?case by (auto simp: fs_vcg split: if_splits option.splits elim!: fs_ops Cons.IH intro!: fs_pure)
qed (auto)

lemma files_closeall_R [fs_ops]: "files_closeall x1 s = Some t \<Longrightarrow> R u s \<Longrightarrow> R u t"
  by (auto simp: files_closeall_def fs_vcg split: fs_splits elim!: fs_ops intro!: fs_pure)

lemma dup_loop_R [fs_ops]: "dup_loop x1 x2 x3 s = Some t \<Longrightarrow> R u s \<Longrightarrow> R u t"
proof (induction x3 arbitrary: x1 x2 s)
  case (Cons i js)
  from Cons.prems show ?case by (auto simp: fs_vcg split: if_splits option.splits elim!: fs_ops Cons.IH intro!: fs_pure)
qed (auto)

lemma dup_files_R [fs_ops]: "dup_files x1 x2 s = Some (r1, t) \<Longrightarrow> R u s \<Longrightarrow> R u t"
  by (auto simp: dup_files_def fs_vcg split: fs_splits elim!: fs_ops intro!: fs_pure)

lemma add_device_R:
  assumes "add_device name m g s = Some t" "R u s"
    and g: "\<And>n s t. g n s = Some t \<Longrightarrow> R u s \<Longrightarrow> in_ops (inodes s n) = Dev_node_ops \<Longrightarrow> in_fs (inodes s n) = None \<Longrightarrow> R u t"
  shows "R u t"
  using assms(1,2) by (auto simp: add_device_def fs_vcg split: if_splits dest: dev_create_inode_R elim!: fs_ops g)

lemma dev_inits_R [fs_ops]:
  "dev_init_stdin x s = Some t \<Longrightarrow> R u s \<Longrightarrow> R u t" "dev_init_stdout x s = Some t \<Longrightarrow> R u s \<Longrightarrow> R u t"
  "dev_init_disk0 x s = Some t \<Longrightarrow> R u s \<Longrightarrow> R u t"
  unfolding dev_init_stdin_def dev_init_stdout_def dev_init_disk0_def
  by (erule add_device_R; auto intro: device_inits_R)+

lemma dev_init_R [fs_ops]: "dev_init x1 x2 x3 s = Some t \<Longrightarrow> R u s \<Longrightarrow> R u t"
  by (auto simp: dev_init_def fs_vcg split: fs_splits elim!: fs_ops intro!: fs_pure)

lemma sfs_init_R [fs_ops]: "sfs_init x1 s = Some t \<Longrightarrow> R u s \<Longrightarrow> R u t"
  by (auto simp: sfs_init_def fs_vcg split: fs_splits elim!: fs_ops intro!: fs_pure)

lemma fs_init_R [fs_ops]: "fs_init x1 x2 x3 s = Some t \<Longrightarrow> R u s \<Longrightarrow> R u t"
  by (auto simp: fs_init_def fs_vcg split: fs_splits elim!: fs_ops intro!: fs_pure)

lemma fs_cleanup_R [fs_ops]: "fs_cleanup s = Some t \<Longrightarrow> R u s \<Longrightarrow> R u t"
  by (auto simp: fs_cleanup_def fs_vcg split: fs_splits elim!: fs_ops intro!: fs_pure)

text \<open>Sysfile\<close>

lemma fs_lock_mm_R [fs_ops]: "fs_lock_mm x1 s = Some t \<Longrightarrow> R u s \<Longrightarrow> R u t"
  by (auto simp: fs_lock_mm_def lock_mm_done_def upd_mm_def fs_vcg split: option.splits elim!: fs_ops intro!: sy_R)

lemma fs_unlock_mm_R [fs_ops]: "fs_unlock_mm x1 s = Some t \<Longrightarrow> R u s \<Longrightarrow> R u t"
  by (auto simp: fs_unlock_mm_def upd_mm_def fs_vcg split: option.splits elim!: fs_ops intro!: sy_R)

lemma copy_path_R [fs_ops]: "copy_path x1 s = Some (r1, r2, t) \<Longrightarrow> R u s \<Longrightarrow> R u t"
  by (auto simp: copy_path_def fs_vcg split: fs_splits elim!: fs_ops intro!: fs_pure)

lemma with_path_R:
  assumes "with_path p g s = Some (r, t)" "R u s" and g: "\<And>a s r t. g a s = Some (r, t) \<Longrightarrow> R u s \<Longrightarrow> R u t"
  shows "R u t"
  using assms(1,2) by (auto simp: with_path_def fs_vcg split: if_splits option.splits elim!: fs_ops g)

lemma sysfile_open_R [fs_ops]: "sysfile_open x1 x2 s = Some (r, t) \<Longrightarrow> R u s \<Longrightarrow> R u t"
  unfolding sysfile_open_def by (erule with_path_R) (auto elim!: fs_ops)

lemma sysfile_close_R [fs_ops]: "sysfile_close x1 s = Some (r1, t) \<Longrightarrow> R u s \<Longrightarrow> R u t"
  by (auto simp: sysfile_close_def fs_vcg split: fs_splits elim!: fs_ops intro!: fs_pure)

lemma read_turn_R [fs_ops]: "read_turn x1 x2 x3 x4 x5 s = Some (r1, r2, r3, t) \<Longrightarrow> R u s \<Longrightarrow> R u t"
  by (auto simp: read_turn_def fs_vcg split: fs_splits elim!: fs_ops intro!: fs_pure)

lemma sysfile_read_loop_R [fs_ops]:
  assumes "sysfile_read_loop x1 x2 x3 x4 x5 x6 x7 s = Some (r1, r2, t)" "R u s"
  shows "R u t"
proof -
  have "R u s \<longrightarrow> R u (snd (snd y))" if "sysfile_read_loop x1 x2 x3 x4 x5 x6 x7 s = Some y" for x1 x2 x3 x4 x5 x6 x7 s y
    apply (rule sysfile_read_loop.raw_induct [where P = "\<lambda>x1 x2 x3 x4 x5 x6 x7 s y. R u s \<longrightarrow> R u (snd (snd y))", OF _ that])
    subgoal premises prems for f x1 x2 x3 x4 x5 x6 x7 s y
      using prems(2) by (auto simp: fs_vcg split: if_splits option.splits prod.splits
        elim!: fs_ops prems(1) [THEN mp] intro!: fs_pure)
    done
  from this [OF assms(1)] assms(2) show ?thesis by simp
qed

lemma sysfile_read_R [fs_ops]: "sysfile_read x1 x2 x3 s = Some (r1, t) \<Longrightarrow> R u s \<Longrightarrow> R u t"
  by (auto simp: sysfile_read_def fs_vcg split: fs_splits elim!: fs_ops intro!: fs_pure)

lemma write_turn_R [fs_ops]: "write_turn x1 x2 x3 x4 x5 s = Some (r1, r2, r3, t) \<Longrightarrow> R u s \<Longrightarrow> R u t"
  by (auto simp: write_turn_def fs_vcg split: fs_splits elim!: fs_ops intro!: fs_pure)

lemma sysfile_write_loop_R [fs_ops]:
  assumes "sysfile_write_loop x1 x2 x3 x4 x5 x6 x7 s = Some (r1, r2, t)" "R u s"
  shows "R u t"
proof -
  have "R u s \<longrightarrow> R u (snd (snd y))" if "sysfile_write_loop x1 x2 x3 x4 x5 x6 x7 s = Some y" for x1 x2 x3 x4 x5 x6 x7 s y
    apply (rule sysfile_write_loop.raw_induct [where P = "\<lambda>x1 x2 x3 x4 x5 x6 x7 s y. R u s \<longrightarrow> R u (snd (snd y))", OF _ that])
    subgoal premises prems for f x1 x2 x3 x4 x5 x6 x7 s y
      using prems(2) by (auto simp: fs_vcg split: if_splits option.splits prod.splits
        elim!: fs_ops prems(1) [THEN mp] intro!: fs_pure)
    done
  from this [OF assms(1)] assms(2) show ?thesis by simp
qed

lemma sysfile_write_R [fs_ops]: "sysfile_write x1 x2 x3 s = Some (r1, t) \<Longrightarrow> R u s \<Longrightarrow> R u t"
  by (auto simp: sysfile_write_def fs_vcg split: fs_splits elim!: fs_ops intro!: fs_pure)

lemma sysfile_seek_R [fs_ops]: "sysfile_seek x1 x2 x3 s = Some (r1, t) \<Longrightarrow> R u s \<Longrightarrow> R u t"
  by (auto simp: sysfile_seek_def fs_vcg split: fs_splits elim!: fs_ops intro!: fs_pure)

lemma sysfile_fstat_R [fs_ops]: "sysfile_fstat x1 x2 x3 s = Some (r1, t) \<Longrightarrow> R u s \<Longrightarrow> R u t"
  by (auto simp: sysfile_fstat_def fs_vcg split: fs_splits elim!: fs_ops intro!: fs_pure)

lemma sysfile_fsync_R [fs_ops]: "sysfile_fsync x1 s = Some (r1, t) \<Longrightarrow> R u s \<Longrightarrow> R u t"
  by (auto simp: sysfile_fsync_def fs_vcg split: fs_splits elim!: fs_ops intro!: fs_pure)

lemma sysfile_chdir_R [fs_ops]: "sysfile_chdir x1 s = Some (r, t) \<Longrightarrow> R u s \<Longrightarrow> R u t"
  unfolding sysfile_chdir_def by (erule with_path_R) (auto elim!: fs_ops)

lemma with_paths_R [fs_ops]: "with_paths x1 x2 x3 s = Some (r1, t) \<Longrightarrow> R u s \<Longrightarrow> R u t"
  by (auto simp: with_paths_def fs_vcg split: fs_splits elim!: fs_ops intro!: fs_pure)

lemma sysfile_link_R [fs_ops]: "sysfile_link x1 x2 s = Some (r1, t) \<Longrightarrow> R u s \<Longrightarrow> R u t"
  by (auto simp: sysfile_link_def fs_vcg split: fs_splits elim!: fs_ops intro!: fs_pure)

lemma sysfile_rename_R [fs_ops]: "sysfile_rename x1 x2 s = Some (r1, t) \<Longrightarrow> R u s \<Longrightarrow> R u t"
  by (auto simp: sysfile_rename_def fs_vcg split: fs_splits elim!: fs_ops intro!: fs_pure)

lemma sysfile_unlink_R [fs_ops]: "sysfile_unlink x1 s = Some (r, t) \<Longrightarrow> R u s \<Longrightarrow> R u t"
  unfolding sysfile_unlink_def by (erule with_path_R) auto

lemma sysfile_getcwd_R [fs_ops]: "sysfile_getcwd x1 x2 x3 x4 s = Some (r1, t) \<Longrightarrow> R u s \<Longrightarrow> R u t"
  by (auto simp: sysfile_getcwd_def fs_vcg split: fs_splits elim!: fs_ops intro!: fs_pure)

lemma sysfile_getdirentry_R [fs_ops]: "sysfile_getdirentry x1 x2 s = Some (r1, t) \<Longrightarrow> R u s \<Longrightarrow> R u t"
  by (auto simp: sysfile_getdirentry_def fs_vcg split: fs_splits elim!: fs_ops intro!: fs_pure)

lemma sysfile_dup_R [fs_ops]: "sysfile_dup x1 x2 s = Some (r1, t) \<Longrightarrow> R u s \<Longrightarrow> R u t"
  by (auto simp: sysfile_dup_def fs_vcg split: fs_splits elim!: fs_ops intro!: fs_pure)

end

end
