(* ===== verification/Fs_Types.thy ===== *)
theory Fs_Types
  imports Fs_Relation
begin

section \<open>Typing of the inodes\<close>

text \<open>
  Two interpretations of \<open>fs_relation\<close>, and the steps the file system can take: the system calls, and what
  fork, exit, exec, the start and the end of the system call in it.
\<close>

inductive fs_step :: "fst \<Rightarrow> fst \<Rightarrow> bool" where
  fs_open: "sysfile_open path open_flags s = Some (r, t) \<Longrightarrow> fs_step s t"
| fs_close: "sysfile_close fd s = Some (r, t) \<Longrightarrow> fs_step s t"
| fs_read: "sysfile_read fd base len s = Some (r, t) \<Longrightarrow> fs_step s t"
| fs_write: "sysfile_write fd base len s = Some (r, t) \<Longrightarrow> fs_step s t"
| fs_seek: "sysfile_seek fd pos whence s = Some (r, t) \<Longrightarrow> fs_step s t"
| fs_fstat: "sysfile_fstat loc fd user_stat s = Some (r, t) \<Longrightarrow> fs_step s t"
| fs_fsync: "sysfile_fsync fd s = Some (r, t) \<Longrightarrow> fs_step s t"
| fs_chdir: "sysfile_chdir path s = Some (r, t) \<Longrightarrow> fs_step s t"
| fs_link: "sysfile_link path1 path2 s = Some (r, t) \<Longrightarrow> fs_step s t"
| fs_rename: "sysfile_rename path1 path2 s = Some (r, t) \<Longrightarrow> fs_step s t"
| fs_unlink: "sysfile_unlink path s = Some (r, t) \<Longrightarrow> fs_step s t"
| fs_getcwd: "sysfile_getcwd dotdot loc buf' len s = Some (r, t) \<Longrightarrow> fs_step s t"
| fs_getdirentry: "sysfile_getdirentry fd user_dirent s = Some (r, t) \<Longrightarrow> fs_step s t"
| fs_dup: "sysfile_dup fd1 fd2 s = Some (r, t) \<Longrightarrow> fs_step s t"
| fs_new_files: "files_create s = Some (fp, t) \<Longrightarrow> fs_step s t"
| fs_copy_files: "dup_files to from s = Some (r, t) \<Longrightarrow> fs_step s t"
| fs_close_all: "files_closeall fp s = Some t \<Longrightarrow> fs_step s t"
| fs_destroy: "files_destroy fp s = Some t \<Longrightarrow> fs_step s t"
| fs_start: "fs_init stdin_name stdout_name disk0_name s = Some t \<Longrightarrow> fs_step s t"
| fs_boot: "vfs_set_bootfs name s = Some (r, t) \<Longrightarrow> fs_step s t"
| fs_unmount: "vfs_unmount_all s = Some (r, t) \<Longrightarrow> fs_step s t"
| fs_end: "fs_cleanup s = Some t \<Longrightarrow> fs_step s t"
| fs_key: "dev_stdin_write cls c s = Some t \<Longrightarrow> fs_step s t"
| fs_other: "fs_step s (s\<lparr>sy := y\<rparr>)"  \<comment> \<open>the rest of the kernel and the user programs\<close>

inductive_cases fs_stepE: "fs_step s t"

text \<open>The relations that do not look at the processes.\<close>

locale fs_relation_any = fs_relation +
  assumes any: "R s t \<Longrightarrow> R s (t\<lparr>sy := y\<rparr>)"
begin

lemma dev_stdin_write_R: "dev_stdin_write cls c s = Some t \<Longrightarrow> R u s \<Longrightarrow> R u t"
  by (auto simp: dev_stdin_write_def on_sys'_def fs_vcg split: if_splits intro!: any fs_pure)

lemma fs_step_R: "fs_step s t \<Longrightarrow> R u s \<Longrightarrow> R u t"
  by (erule fs_stepE) (elim fs_ops | auto intro!: any elim!: dev_stdin_write_R)+

lemma fs_steps_R: "fs_step\<^sup>*\<^sup>* s t \<Longrightarrow> R s t"
  by (induction rule: rtranclp_induct) (auto intro: refl fs_step_R)

end

definition keeps_types :: "fst \<Rightarrow> fst \<Rightarrow> bool" where
  "keeps_types s t \<longleftrightarrow> (\<forall>n. same_shape (inodes t n) (inodes s n) \<or> node_typed (inodes t n))"

definition printed :: "fst \<Rightarrow> fst \<Rightarrow> bool" where
  "printed s t \<longleftrightarrow> take (length (console s)) (console t) = console s"

lemma same_shape_typed: "same_shape i j \<Longrightarrow> node_typed j \<Longrightarrow> node_typed i"
  by (simp add: same_shape_def node_typed_def)

lemma same_shape_trans: "same_shape i j \<Longrightarrow> same_shape j k \<Longrightarrow> same_shape i k"
  by (simp add: same_shape_def)

interpretation types: fs_relation_any keeps_types
proof
  fix s t :: fst and f n
  show "keeps_types s s" by (simp add: keeps_types_def same_shape_def)
  show "keeps_types s t \<Longrightarrow> inodes u = inodes t \<Longrightarrow> console u = console t \<Longrightarrow> quiet (ks (sy t)) (ks (sy u)) \<Longrightarrow> keeps_types s u" for u
    by (simp add: keeps_types_def)
  show "keeps_types s t \<Longrightarrow> keeps_types s (t\<lparr>sy := y\<rparr>)" for y by (simp add: keeps_types_def)
  show "keeps_types s t \<Longrightarrow> keeps_types s (t\<lparr>console := console t @ cs\<rparr>)" for cs by (simp add: keeps_types_def)
  show "keeps_types s (upd_inode n f t)"
    if "keeps_types s t" "same_shape (f (inodes t n)) (inodes t n) \<or> node_typed (f (inodes t n))"
    unfolding keeps_types_def
  proof (intro allI)
    fix m
    from that(1) have m: "same_shape (inodes t m) (inodes s m) \<or> node_typed (inodes t m)" by (simp add: keeps_types_def)
    show "same_shape (inodes (upd_inode n f t) m) (inodes s m) \<or> node_typed (inodes (upd_inode n f t) m)"
      using m that(2) same_shape_typed same_shape_trans by (cases "m = n") (auto simp: upd_inode_def)
  qed
qed

interpretation prints: fs_relation_any printed
proof
  fix s t u :: fst and cs f n
  show "printed s s" by (simp add: printed_def)
  show "printed s t \<Longrightarrow> inodes u = inodes t \<Longrightarrow> console u = console t \<Longrightarrow> quiet (ks (sy t)) (ks (sy u)) \<Longrightarrow> printed s u"
    by (simp add: printed_def)
  show "printed s t \<Longrightarrow> printed s (t\<lparr>sy := y\<rparr>)" for y by (simp add: printed_def)
  show "printed s (t\<lparr>console := console t @ cs\<rparr>)" if "printed s t"
  proof -
    from that have "length (console s) \<le> length (console t)" unfolding printed_def
      by (metis length_take min.cobounded2 min.commute nat_le_linear take_all)
    with that show ?thesis by (simp add: printed_def)
  qed
  show "printed s t \<Longrightarrow> printed s (upd_inode n f t)" by (simp add: printed_def upd_inode_def)
qed

text \<open>A state whose process 0 has descriptor 0 open for reading and writing on inode 0, the console.\<close>

definition demo_open :: fst where
  "demo_open = demo_fst
     \<lparr>sy := (sy demo_fst)\<lparr>ks := demo_kst\<lparr>procs := (\<lambda>_. demo_proc\<lparr>filesp := Some 0\<rparr>)\<rparr>\<rparr>,
      files := (\<lambda>_. \<lparr>pwd = None,
        fd_array = (\<lambda>i. \<lparr>fstatus = (if i = 0 then FD_OPENED else FD_NONE), readable = True, writable = True,
          file_fd = int i, fpos = 0, fnode = (if i = 0 then Some 0 else None), fopen_cnt = (if i = 0 then 1 else 0)\<rparr>),
        files_cnt = 1\<rparr>)\<rparr>"

lemmas fd_defs = get_fd_array_def cur_files_def testfd_def fd2file_def FILES_STRUCT_NENTRY_def FILES_STRUCT_BUFSIZE_def
  SIZEOF_FILES_def SIZEOF_FILE_def PGSIZE_def file_at_def fd_array_alloc_def fd_array_dup_def fd_array_open_def
  fopen_count_inc_def NO_FD_def upd_file_def upd_files_def vop_ref_inc_def vop_open_inc_def inode_ref_inc_def
  inode_open_inc_def upd_inode_def

lemma demo_dup:
  "\<exists>t. sysfile_dup 0 NO_FD demo_open = Some (1, t) \<and> ref_count (inodes t 0) = 2"
proof -
  have f: "find (\<lambda>i. (if i = 0 then FD_OPENED else FD_NONE) = FD_NONE) [0..<72] = Some (1::nat)"
    by (simp add: upt_rec)
  show ?thesis
    by (simp add: sysfile_dup_def file_dup_def fd_defs demo_open_def demo_fst_def demo_areas_def demo_kst_def
      demo_proc_def f Let_def)
qed

text \<open>
  C34: typing of the inodes. Whatever sequence of file-system operations is executed, errors included, an inode whose
  table of operations fits its type and its file system keeps fitting them, so that \<open>vop_info\<close> and \<open>vop_fs\<close>, which
  panic on the wrong kind of inode, never do so for the table that calls them; and what was printed stays printed.
\<close>

theorem inodes_stay_typed:
  assumes "fs_step\<^sup>*\<^sup>* s t" "node_typed (inodes s n)"
  shows "node_typed (inodes t n) \<and> take (length (console s)) (console t) = console s \<and>
    (if in_ops (inodes t n) = Dev_node_ops then \<exists>d. dev_info n t = Some d
     else sfs_info n t = Some () \<and> (\<exists>f. node_fs n t = Some f))"
proof -
  from types.fs_steps_R [OF assms(1)] assms(2) have t: "node_typed (inodes t n)"
    unfolding keeps_types_def using same_shape_typed by blast
  have "\<exists>d. dev_info n t = Some d" if "in_type_of (in_info (inodes t n)) = inode_type_device_info"
    using that by (cases "in_info (inodes t n)") (auto simp: dev_info_def)
  with t prints.fs_steps_R [OF assms(1)] show ?thesis
    by (auto simp: node_typed_def printed_def sfs_info_def node_fs_def)
qed

theorem inodes_stay_typed_witness:
  "\<exists>t. fs_step demo_open t \<and> node_typed (inodes t 0) \<and> ref_count (inodes t 0) = 2"
proof -
  obtain t where t: "sysfile_dup 0 NO_FD demo_open = Some (1, t)" and two: "ref_count (inodes t 0) = 2"
    using demo_dup by blast
  then have "fs_step demo_open t" by (intro fs_dup)
  moreover have "node_typed (inodes demo_open 0)" by (simp add: demo_open_def demo_fst_def node_typed_def)
  ultimately show ?thesis using inodes_stay_typed [of demo_open t 0] two by blast
qed

end
