(* ===== verification/Fs_Limits.thy ===== *)
theory Fs_Limits
  imports Fs_Types
begin

unbundle bit_operations_syntax

section \<open>Where the file system panics: missing operations and the size of a file\<close>

subsection \<open>Tables without the operation\<close>

lemma fd2file_opened:
  assumes "fd2file fd s = Some (0, Some (fp, i))"
  shows "fstatus (file_at fp i s) = FD_OPENED"
  using assms by (auto simp: fd2file_def Let_def bind_eq_Some_conv split: if_splits)

text \<open>Taking the slot of an open file leaves the inode and the rest of the slot.\<close>

lemma acquire_opened:
  assumes "fstatus (file_at fp i s) = FD_OPENED"
  obtains t where "fd_array_acquire fp i s = Some t" "inodes t = inodes s" "fnode (file_at fp i t) = fnode (file_at fp i s)"
    "mem t = mem s"
proof
  show "fd_array_acquire fp i s = Some (snd (fopen_count_inc fp i s))" using assms by (simp add: fd_array_acquire_def)
qed (simp_all add: fopen_count_inc_def upd_file_def upd_files_def file_at_def mem_def Let_def)

lemma inode_check_cong: "inodes t = inodes s \<Longrightarrow> inode_check n t = inode_check n s"
  by (simp add: inode_check_def)

text \<open>
  the operations missing in a table. A directory can be opened for reading, but reading or seeking on the
  descriptor panics; so do \<open>fsync\<close> and \<open>getdirentry\<close> on a device and \<open>getdirentry\<close> on a file: the descriptor is checked,
  the table is not. Every one of these calls can be made by a user program.
\<close>

lemma missing_operations_panic:
  assumes fd: "fd2file fd s = Some (0, Some (fp, i))" and n: "fnode (file_at fp i s) = Some n"
    and ok: "inode_check n s = Some ()"
  shows "case in_ops (inodes s n) of
      Sfs_node_dirops \<Rightarrow> vop_open n O_RDONLY s = Some 0 \<and> file_seek fd pos LSEEK_SET s = None \<and>
        (readable (file_at fp i s) \<longrightarrow> file_read fd base len s = None)
    | Sfs_node_fileops \<Rightarrow> file_getdirentry fd de s = None
    | Dev_node_ops \<Rightarrow> file_getdirentry fd de s = None \<and> file_fsync fd s = None"
proof -
  obtain t where t: "fd_array_acquire fp i s = Some t" "inodes t = inodes s"
    "fnode (file_at fp i t) = Some n" "mem t = mem s"
    using acquire_opened [OF fd2file_opened [OF fd]] n by metis
  have "inode_check n t = Some ()" using ok inode_check_cong t(2) by metis
  then show ?thesis using ok fd t
    by (cases "in_ops (inodes s n)")
      (simp_all add: file_seek_def file_read_def file_io_def file_getdirentry_def file_fsync_def seek_to_def
        vop_open_def vop_read_def vop_tryseek_def vop_getdirentry_def vop_fsync_def sfs_opendir_def O_RDONLY_def
        O_ACCMODE_def)
qed

subsection \<open>The number of blocks of a file\<close>

definition SFS_MAX_BLOCKS :: nat where "SFS_MAX_BLOCKS = SFS_NDIRECT + SFS_BLK_NENTRY"

lemma max_blocks: "SFS_MAX_BLOCKS = 1036" "SFS_BLKSIZE = 4096"
  by (simp_all add: SFS_MAX_BLOCKS_def SFS_NDIRECT_def SFS_BLK_NENTRY_def SFS_BLKSIZE_def PGSIZE_def)

lemma bmap_get_limit: "SFS_MAX_BLOCKS \<le> ix \<Longrightarrow> sfs_bmap_get_nolock sfs n ix create s = None"
  by (auto simp: sfs_bmap_get_nolock_def SFS_MAX_BLOCKS_def SFS_BLK_NENTRY_def SFS_BLKSIZE_def PGSIZE_def Let_def)

lemma bmap_load_limit: "SFS_MAX_BLOCKS \<le> ix \<Longrightarrow> sfs_bmap_load_nolock sfs n ix s = None"
  by (simp add: sfs_bmap_load_nolock_def bmap_get_limit Let_def kassert_def)

lemma grow_limit: "grow_loop sfs n nblks k s = Some (0, t) \<Longrightarrow> nblks \<le> SFS_MAX_BLOCKS \<Longrightarrow> nblks + k \<le> SFS_MAX_BLOCKS"
proof (induction k arbitrary: nblks s)
  case (Suc k)
  have "nblks < SFS_MAX_BLOCKS"
    using Suc.prems(1) bmap_load_limit by (cases "SFS_MAX_BLOCKS \<le> nblks") auto
  moreover from Suc.prems(1) obtain s' where "grow_loop sfs n (nblks + 1) k s' = Some (0, t)"
    by (auto simp: bind_eq_Some_conv split: if_splits)
  ultimately show ?case using Suc.IH by fastforce
qed simp

lemma div_up_bound:
  assumes "m \<le> SFS_MAX_FILE_SIZE" "ROUNDUP_DIV m SFS_BLKSIZE \<le> SFS_MAX_BLOCKS"
  shows "m \<le> SFS_MAX_BLOCKS * SFS_BLKSIZE"
proof -
  have "u64 (m + 4095) = m + 4095" using assms(1) by (simp add: u64_def SFS_MAX_FILE_SIZE_def)
  then have "(m + 4095) div 4096 \<le> 1036" using assms(2) by (simp add: ROUNDUP_DIV_def max_blocks add.commute)
  then show ?thesis by (simp add: max_blocks)
qed

lemma sint_small: "0 \<le> k \<Longrightarrow> k < 2 ^ 63 \<Longrightarrow> sint (word_of_int k :: 64 word) = k"
  by (simp add: signed_of_int signed_take_bit_int_eq_self)

lemma io_block_limit: "SFS_MAX_BLOCKS \<le> blkno \<Longrightarrow> io_block sfs n blkno op s = None"
  by (simp add: io_block_def bmap_load_limit)

lemma io_phases_limit:
  assumes "SFS_MAX_BLOCKS * SFS_BLKSIZE \<le> start" "start < endpos"
  shows "io_phases sfs n w endpos \<lparr>io_data = b, io_off = start, io_alen = 0, io_blkno = start div SFS_BLKSIZE\<rparr> s = None"
proof -
  have "SFS_MAX_BLOCKS \<le> start div SFS_BLKSIZE" using assms(1) by (simp add: max_blocks)
  note no = io_block_limit [OF this]
  show ?thesis using assms(2)
    by (simp add: io_phases_def io_head_def io_tail_def io_blocks.simps [of _ _ _ _ "io_pos_ext _ _ _ _ _"] no Let_def)
qed

lemma truncfile_limit:
  assumes blocks: "unat (din_blocks (sin_din (sin n s)) s) \<le> SFS_MAX_BLOCKS"
    and t: "sfs_truncfile n len s = Some (0, t)"
  shows "0 \<le> len \<and> nat len \<le> SFS_MAX_FILE_SIZE \<and> ROUNDUP_DIV (nat len) SFS_BLKSIZE \<le> SFS_MAX_BLOCKS"
proof -
  let ?d = "sin_din (sin n s)" and ?k = "ROUNDUP_DIV (nat len) SFS_BLKSIZE"
  have len: "0 \<le> len" "nat len \<le> SFS_MAX_FILE_SIZE" using t by (auto simp: sfs_truncfile_def E_INVAL_def split: if_splits)
  have "?k \<le> SFS_MAX_BLOCKS"
  proof (cases "unat (din_size ?d s) = nat len")
    case True
    with t len have "?k = unat (din_blocks ?d s)"
      by (auto simp: sfs_truncfile_def Let_def bind_eq_Some_conv kassert_def split: if_splits)
    with blocks show ?thesis by simp
  next
    case False
    show ?thesis
    proof (rule ccontr)
      assume big: "\<not> ?k \<le> SFS_MAX_BLOCKS"
      have same: "din_blocks ?d s1 = din_blocks ?d s" if "lock_sin n s = Some s1" for s1
        using that by (auto simp: lock_sin_def fs_down_def din_blocks_def mem_def Let_def split: if_splits)
      have less: "unat (din_blocks ?d s) < ?k" using blocks big by simp
      have "\<not> int SFS_MAX_FILE_SIZE < len" using len by linarith
      note cond = False this len(1)
      from t cond obtain sfs s1 where pre: "node_fs n s = Some sfs" "sfs_info n s = Some ()" "lock_sin n s = Some s1"
        by (auto simp: sfs_truncfile_def Let_def bind_eq_Some_conv)
      from same [OF pre(3)] less have less1: "unat (din_blocks ?d s1) < ?k" by simp
      from t cond pre less1 obtain s2 where "grow_loop sfs n (unat (din_blocks ?d s1)) (?k - unat (din_blocks ?d s1)) s1 = Some (0, s2)"
        by (auto simp: sfs_truncfile_def Let_def bind_eq_Some_conv split: if_splits)
      then have "grow_loop sfs n (unat (din_blocks ?d s)) (?k - unat (din_blocks ?d s)) s1 = Some (0, s2)"
        using same [OF pre(3)] by simp
      from grow_limit [OF this blocks] less big show False by simp
    qed
  qed
  with len show ?thesis by simp
qed

text \<open>
  C36: the size of a file. A file has at most 12 + 1024 blocks, 4,243,456 bytes, although the code checks lengths
  against 128 megabytes: truncation to a larger length never succeeds, and on a file with all its blocks it panics, as does
  every write that starts beyond them.
\<close>

theorem file_size_limit:
  assumes blocks: "unat (din_blocks (sin_din (sin n s)) s) \<le> SFS_MAX_BLOCKS"
  shows "(sfs_truncfile n len s = Some (0, t) \<longrightarrow> len \<le> 4243456) \<and>
    (unat (din_blocks (sin_din (sin n s)) s) = SFS_MAX_BLOCKS \<and> 4243456 < len \<and> len \<le> int SFS_MAX_FILE_SIZE \<longrightarrow>
       sfs_truncfile n len s = None) \<and>
    (4243456 \<le> offset \<and> offset < int SFS_MAX_FILE_SIZE \<and> 0 < alen \<and> alen < 2 ^ 62 \<longrightarrow>
       sfs_io_nolock sfs n buf' offset alen True s = None)"
proof (intro conjI impI)
  assume "sfs_truncfile n len s = Some (0, t)"
  from truncfile_limit [OF blocks this] show "len \<le> 4243456" using div_up_bound [of "nat len"] by (auto simp: max_blocks)
next
  assume full: "unat (din_blocks (sin_din (sin n s)) s) = SFS_MAX_BLOCKS \<and> 4243456 < len \<and> len \<le> int SFS_MAX_FILE_SIZE"
  then have k: "SFS_MAX_BLOCKS < ROUNDUP_DIV (nat len) SFS_BLKSIZE"
    using div_up_bound [of "nat len"] by (fastforce simp: max_blocks)
  then obtain j where j: "ROUNDUP_DIV (nat len) SFS_BLKSIZE - SFS_MAX_BLOCKS = Suc j"
    by (metis Suc_diff_Suc)
  have "din_blocks d s1 = din_blocks d s" if "lock_sin n s = Some s1" for d s1
    using that by (auto simp: lock_sin_def fs_down_def din_blocks_def mem_def Let_def split: if_splits)
  with full k j show "sfs_truncfile n len s = None"
    by (auto simp: sfs_truncfile_def Let_def kassert_def bmap_load_limit split: option.splits bind_splits)
next
  assume off: "4243456 \<le> offset \<and> offset < int SFS_MAX_FILE_SIZE \<and> 0 < alen \<and> alen < 2 ^ 62"
  have "add_off offset alen = offset + int alen"
    using off unfolding add_off_def by (intro sint_small) (auto simp: SFS_MAX_FILE_SIZE_def)
  moreover have "io_phases sfs n True (min (nat (offset + int alen)) SFS_MAX_FILE_SIZE)
      \<lparr>io_data = buf', io_off = nat offset, io_alen = 0, io_blkno = nat offset div SFS_BLKSIZE\<rparr> s = None"
    using off by (intro io_phases_limit) (auto simp: max_blocks)
  ultimately show "sfs_io_nolock sfs n buf' offset alen True s = None"
    using off by (simp add: sfs_io_nolock_def Let_def)
qed

text \<open>A file with all its blocks: inode 0, its \<open>sfs_disk_inode\<close> at 5000.\<close>

definition demo_file :: fst where
  "demo_file = upd_mem (wr32 5008 1036) (upd_inode 0 (\<lambda>i. i\<lparr>in_ops := Sfs_node_fileops, in_fs := Some 5,
     in_info := Sfs_inode_info \<lparr>sin_din = 5000, sin_ino = 3, dirty = False, reclaim_count = 1\<rparr>\<rparr>) demo_open)"

theorem file_size_limit_witness:
  "sfs_truncfile 0 5000000 demo_file = None \<and> sfs_io_nolock 5 0 0 4243456 1 True demo_file = None"
proof -
  have "din_blocks (sin_din (sin 0 demo_file)) demo_file = 1036"
    by (simp add: demo_file_def din_blocks_def sin_def upd_inode_def upd_mem_def mem_def)
  then have b: "unat (din_blocks (sin_din (sin 0 demo_file)) demo_file) = SFS_MAX_BLOCKS" by (simp add: max_blocks)
  from file_size_limit [OF eq_refl [OF b], of 5000000 demo_file 4243456 1 5 0] b show ?thesis
    by (simp add: SFS_MAX_FILE_SIZE_def)
qed

end
