(* ===== verification/Fs_Blocks.thy ===== *)
theory Fs_Blocks
  imports Fs_Limits
begin

unbundle bit_operations_syntax

section \<open>Blocks on the disk\<close>

text \<open>
  What a block read and a block write of the Simple File System do to memory, through the buffer of disk0, the IDE
  interface and the RAM disk.
\<close>

subsection \<open>Taking and giving back a semaphore around a change of memory\<close>

definition taken :: "nat \<Rightarrow> fst \<Rightarrow> fst" where
  "taken q s = s\<lparr>sy := (sy s)\<lparr>ks := set_sem q (sem_value (ks (sy s)) q - 1) (ks (sy s))\<rparr>\<rparr>"

definition sem_free :: "nat \<Rightarrow> fst \<Rightarrow> bool" where
  "sem_free q s \<longleftrightarrow> 0 < sem_value (ks (sy s)) q \<and> wait_queue_first q (ks (sy s)) = None"

lemma fs_down_taken: "sem_free q s \<Longrightarrow> fs_down q s = Some (taken q s)"
  by (simp add: sem_free_def fs_down_def taken_def Let_def)

lemma fs_up_taken: "sem_free q s \<Longrightarrow> fs_up q (upd_mem g (taken q s)) = Some (upd_mem g s)"
  by (auto simp: sem_free_def fs_up_def taken_def upd_mem_def set_sem_def wait_queue_first_def Let_def split: if_splits)

lemma taken_same [simp]:
  "mem (taken q s) = mem s" "inodes (taken q s) = inodes s" "sfss (taken q s) = sfss s"
  "ide_devices (taken q s) = ide_devices s" "disk0_buffer (taken q s) = disk0_buffer s"
  "q' \<noteq> q \<Longrightarrow> sem_free q' (taken q s) = sem_free q' s"
  by (simp_all add: taken_def mem_def sem_free_def set_sem_def wait_queue_first_def)

lemma upd_mem_same [simp]:
  "mem (upd_mem g s) = g (mem s)" "inodes (upd_mem g s) = inodes s" "sfss (upd_mem g s) = sfss s"
  "ide_devices (upd_mem g s) = ide_devices s" "disk0_buffer (upd_mem g s) = disk0_buffer s"
  "sem_free q (upd_mem g s) = sem_free q s" "upd_mem g' (upd_mem g s) = upd_mem (\<lambda>m. g' (g m)) s"
  by (simp_all add: upd_mem_def mem_def sem_free_def)

subsection \<open>The disk in memory\<close>

text \<open>The address of block \<open>c\<close>, and what the code needs of the disk that holds the file system \<open>sfs\<close>.\<close>

definition disk_at :: "nat \<Rightarrow> fst \<Rightarrow> nat" where
  "disk_at c s = iobase (ide_devices s DISK0_DEV_NO) + c * 4096"

definition apart :: "nat \<Rightarrow> nat \<Rightarrow> nat \<Rightarrow> nat \<Rightarrow> bool" where
  "apart a n b k \<longleftrightarrow> a + n \<le> b \<or> b + k \<le> a"

definition disk_ok :: "device \<Rightarrow> fst \<Rightarrow> bool" where
  "disk_ok d s \<longleftrightarrow> d_ops d = Disk0 \<and> d_blocks d \<le> 2 ^ 20 \<and> VALID_IDE DISK0_DEV_NO s \<and>
     d_blocks d * 8 \<le> ide_size (ide_devices s DISK0_DEV_NO) \<and> ide_size (ide_devices s DISK0_DEV_NO) < 2 ^ 32 \<and>
     apart (disk_at 0 s) (d_blocks d * 4096) (disk0_buffer s) DISK0_BUFSIZE"

text \<open>The two transfers.\<close>

definition read_block :: "nat \<Rightarrow> nat \<Rightarrow> fst \<Rightarrow> bytes \<Rightarrow> bytes" where
  "read_block a c s m = block_copy a (disk0_buffer s) 4096 (block_copy (disk0_buffer s) (disk_at c s) 4096 m)"

definition write_block :: "nat \<Rightarrow> nat \<Rightarrow> fst \<Rightarrow> bytes \<Rightarrow> bytes" where
  "write_block a c s m = block_copy (disk_at c s) (disk0_buffer s) 4096 (block_copy (disk0_buffer s) a 4096 m)"

lemma memmove_block: "snd (memmove d s n m) = block_copy d s n m"
  by (auto simp: memmove_def copy_up_block copy_down_block)

lemma memcpy_block: "\<not> (s < d \<and> d < s + n) \<Longrightarrow> snd (memcpy d s n m) = block_copy d s n m"
  by (simp add: memcpy_def copy_up_block)

lemmas disk_sizes = DISK0_BLKSIZE_def DISK0_BUFSIZE_def DISK0_BLK_NSECT_def SECTSIZE_def PGSIZE_def MAX_NSECS_def
  MAX_DISK_NSECS_def SFS_BLKSIZE_def

lemma sectors:
  assumes "disk_ok d s" "c < d_blocks d"
  shows "u32 (c * 8) = c * 8" "min 8 (sub64 (ide_size (ide_devices s DISK0_DEV_NO)) (c * 8)) = 8" "c * 8 + 8 \<le> 0x10000000"
proof -
  have c: "c * 8 + 8 \<le> ide_size (ide_devices s DISK0_DEV_NO)" "c < 2 ^ 20" using assms by (auto simp: disk_ok_def)
  then show "u32 (c * 8) = c * 8" "c * 8 + 8 \<le> 0x10000000" by (auto simp: u32_def)
  have "ide_size (ide_devices s DISK0_DEV_NO) < 2 ^ 32" using assms by (simp add: disk_ok_def)
  then have "sub64 (ide_size (ide_devices s DISK0_DEV_NO)) (c * 8) = ide_size (ide_devices s DISK0_DEV_NO) - c * 8"
    using c by (simp add: sub64_def mod_if)
  then show "min 8 (sub64 (ide_size (ide_devices s DISK0_DEV_NO)) (c * 8)) = 8" using c by simp
qed

lemma disk_same [simp]:
  "disk_at c (taken q s) = disk_at c s" "disk_at c (upd_mem g s) = disk_at c s"
  "disk_ok d (taken q s) = disk_ok d s" "disk_ok d (upd_mem g s) = disk_ok d s"
  by (simp_all add: disk_at_def disk_ok_def VALID_IDE_def)

lemma disk_overlap:
  assumes "disk_ok d s" "c < d_blocks d"
  shows "apart (disk_at c s) 4096 (disk0_buffer s) 4096"
proof -
  have "c * 4096 + 4096 \<le> d_blocks d * 4096" using assms(2) by linarith
  then show ?thesis using assms(1) by (auto simp: disk_ok_def apart_def disk_at_def disk_sizes)
qed

lemma ide_one_block:
  assumes d: "disk_ok d s" and c: "c < d_blocks d"
  shows "disk0_read_blks_nolock c 1 s = Some (upd_mem (block_copy (disk0_buffer s) (disk_at c s) 4096) s)"
    "disk0_write_blks_nolock c 1 s = Some (upd_mem (block_copy (disk_at c s) (disk0_buffer s) 4096) s)"
proof -
  note k = sectors [OF d c]
  have v: "VALID_IDE DISK0_DEV_NO s" using d by (simp add: disk_ok_def)
  have "iobase (ide_devices s DISK0_DEV_NO) + c * 8 * 512 = disk_at c s" by (simp add: disk_at_def)
  moreover have "snd (memcpy (disk0_buffer s) (disk_at c s) 4096 m) = block_copy (disk0_buffer s) (disk_at c s) 4096 m"
    "snd (memcpy (disk_at c s) (disk0_buffer s) 4096 m) = block_copy (disk_at c s) (disk0_buffer s) 4096 m" for m
    using disk_overlap [OF d c] by (auto simp: apart_def intro!: memcpy_block)
  ultimately show "disk0_read_blks_nolock c 1 s = Some (upd_mem (block_copy (disk0_buffer s) (disk_at c s) 4096) s)"
    "disk0_write_blks_nolock c 1 s = Some (upd_mem (block_copy (disk_at c s) (disk0_buffer s) 4096) s)"
    using k v by (simp_all add: disk0_read_blks_nolock_def disk0_write_blks_nolock_def ide_read_secs_def ide_write_secs_def
      ramdisk_read_def ramdisk_write_def disk_sizes kassert_def upd_mem_def mem_def Let_def)
qed

lemma fs_move_block:
  assumes "io_resid iob = 4096" "n \<ge> 4096"
  shows "\<exists>r iob'. fs_move iob a n m2b s = Some (r, 4096, iob',
      upd_mem (if m2b then block_copy (io_base iob) a 4096 else block_copy a (io_base iob) 4096) s) \<and> io_resid iob' = 0"
  using assms by (simp add: fs_move_def iobuf_move_def iobuf_skip_def kassert_def memmove_block upd_mem_def mem_def)

lemma disk0_turn_block:
  assumes d: "disk_ok d s" and c: "c < d_blocks d" and iob: "io_resid iob = 4096"
  shows "\<exists>iob'. disk0_turn w 4096 c iob s =
    Some (4096, 1, iob', upd_mem ((if w then write_block else read_block) (io_base iob) c s) s)"
proof (cases w)
  case True
  from fs_move_block [of iob 16384 "disk0_buffer s" False s] iob obtain r iob' where
    "fs_move iob (disk0_buffer s) 16384 False s =
      Some (r, 4096, iob', upd_mem (block_copy (disk0_buffer s) (io_base iob) 4096) s)" by auto
  then show ?thesis using True ide_one_block(2) [of d "upd_mem (block_copy (disk0_buffer s) (io_base iob) 4096) s" c] d c
    by (simp add: disk0_turn_def disk_sizes write_block_def [abs_def] kassert_def u32_def)
next
  case False
  from fs_move_block [of iob 4096 "disk0_buffer s" True "upd_mem (block_copy (disk0_buffer s) (disk_at c s) 4096) s"] iob
  obtain r iob' where
    "fs_move iob (disk0_buffer s) 4096 True (upd_mem (block_copy (disk0_buffer s) (disk_at c s) 4096) s) =
      Some (r, 4096, iob', upd_mem (block_copy (io_base iob) (disk0_buffer s) 4096)
        (upd_mem (block_copy (disk0_buffer s) (disk_at c s) 4096) s))" by auto
  then show ?thesis using False ide_one_block(1) [OF d c]
    by (simp add: disk0_turn_def disk_sizes read_block_def [abs_def] kassert_def u32_def)
qed

lemma disk0_one_block:
  assumes d: "disk_ok d s" "sem_free disk0_sem s" and c: "c < d_blocks d"
  shows "\<exists>iob. disk0_io d (iobuf_init a 4096 (int c * 4096)) w s =
    Some (0, iob, upd_mem ((if w then write_block else read_block) a c s) s)"
proof -
  let ?iob = "iobuf_init a 4096 (int c * 4096)" and ?g = "(if w then write_block else read_block) a c s"
  have g: "(if w then write_block else read_block) a c (taken disk0_sem s) = ?g"
    by (auto simp: write_block_def read_block_def fun_eq_iff)
  have "c < 2 ^ 20" "d_ops d = Disk0" using d c by (auto simp: disk_ok_def)
  then have off: "nat ((io_offset ?iob sdiv int DISK0_BLKSIZE) mod 2 ^ 32) = c" "io_offset ?iob smod int DISK0_BLKSIZE = 0"
    by (simp_all add: iobuf_init_def disk_sizes signed_divide_int_def signed_modulo_int_def sgn_if)
  from disk0_turn_block [of d "taken disk0_sem s" c ?iob w] d c g obtain iob' where
    turn: "disk0_turn w 4096 c ?iob (taken disk0_sem s) = Some (4096, 1, iob', upd_mem ?g (taken disk0_sem s))"
    by (auto simp: iobuf_init_def)
  have "disk0_loop w 4096 c ?iob (taken disk0_sem s) = Some (iob', upd_mem ?g (taken disk0_sem s))"
    by (subst disk0_loop.simps) (simp add: turn disk0_loop.simps [of w 0])
  moreover have "u32 (c + 1) \<le> d_blocks d" "u32 (4096 div 4096) = 1" using c \<open>c < 2 ^ 20\<close> by (simp_all add: u32_def)
  ultimately show ?thesis using off d(2) fs_down_taken fs_up_taken
    by (simp add: disk0_io_def iobuf_init_def disk_sizes Let_def)
qed

text \<open>The same through \<open>sfs_rwblock\<close>, for one block.\<close>

definition sfs_disk :: "nat \<Rightarrow> fst \<Rightarrow> device \<Rightarrow> bool" where
  "sfs_disk sfs s d \<longleftrightarrow> in_info (inodes s (sfs_dev (sfss s sfs))) = Device_info d \<and> disk_ok d s \<and>
     unat (super_blocks sfs s) \<le> d_blocks d \<and> sem_free disk0_sem s \<and> sem_free (io_sem sfs) s"

lemma sfs_rwblock_one:
  assumes d: "sfs_disk sfs s d" and c: "c \<noteq> 0" "c < super_blocks sfs s"
  shows "sfs_rwblock sfs a c 1 w s = Some (0, upd_mem ((if w then write_block else read_block) a (unat c) s) s)"
proof -
  let ?g = "(if w then write_block else read_block) a (unat c) s"
  have uc: "unat c < d_blocks d" using d c(2) by (auto simp: sfs_disk_def word_less_nat_alt)
  then have "unat c < 2 ^ 20" using d by (auto simp: sfs_disk_def disk_ok_def)
  then have "int (unat c) < int (2 ^ 20)" by (simp only: of_nat_less_iff)
  then have "uint c * uint (4096 :: 32 word) < 2 ^ LENGTH(32)" by simp
  then have "uint (c * 4096) = uint c * uint (4096 :: 32 word)" by (rule iffD1 [OF uint_mult_lem])
  then have off: "uint (c * word_of_nat SFS_BLKSIZE) = int (unat c) * 4096" by (simp add: disk_sizes)
  have g: "(if w then write_block else read_block) a (unat c) (taken (io_sem sfs) s) = ?g"
    by (auto simp: write_block_def read_block_def fun_eq_iff)
  have ne: "disk0_sem \<noteq> io_sem sfs" by (simp add: disk0_sem_def io_sem_def)
  from disk0_one_block [of d "taken (io_sem sfs) s" "unat c" a w] d uc g ne obtain iob where
    "disk0_io d (iobuf_init a 4096 (int (unat c) * 4096)) w (taken (io_sem sfs) s) =
      Some (0, iob, upd_mem ?g (taken (io_sem sfs) s))" by (auto simp: sfs_disk_def)
  then have "sfs_rwblock_nolock sfs a c w True (taken (io_sem sfs) s) = Some (0, upd_mem ?g (taken (io_sem sfs) s))"
    using d c off by (simp add: sfs_rwblock_nolock_def sfs_disk_def super_blocks_def dop_io_def disk_ok_def disk_sizes kassert_def)
  then show ?thesis using d fs_down_taken fs_up_taken
    by (simp add: sfs_rwblock_def lock_sfs_io_def unlock_sfs_io_def sfs_disk_def)
qed

subsection \<open>Reading what was written\<close>

text \<open>A page at \<open>a\<close> outside the disk, its buffer and the super block.\<close>

definition user_page :: "nat \<Rightarrow> nat \<Rightarrow> fst \<Rightarrow> device \<Rightarrow> bool" where
  "user_page a sfs s d \<longleftrightarrow> apart a 4096 (disk_at 0 s) (d_blocks d * 4096) \<and> apart a 4096 (disk0_buffer s) DISK0_BUFSIZE"

definition super_apart :: "nat \<Rightarrow> fst \<Rightarrow> device \<Rightarrow> bool" where
  "super_apart sfs s d \<longleftrightarrow> apart sfs SIZEOF_SUPER (disk_at 0 s) (d_blocks d * 4096) \<and>
     apart sfs SIZEOF_SUPER (disk0_buffer s) DISK0_BUFSIZE"

text \<open>
  C37: block I/O. A write of a block followed by a read of any block returns: the block written holds the page that was
  written, every other block what it held before. The calls go through the locks, the buffer of the block device, the
  sector arithmetic of the IDE interface and the RAM disk.
\<close>

theorem block_write_read:
  assumes d: "sfs_disk sfs s d" "super_apart sfs s d" and a: "user_page a sfs s d" and b: "user_page b sfs s d"
    and c: "c \<noteq> 0" "c < super_blocks sfs s" and e: "e \<noteq> 0" "e < super_blocks sfs s"
  shows "\<exists>t u. sfs_wblock sfs a c 1 s = Some (0, t) \<and> sfs_rblock sfs b e 1 t = Some (0, u) \<and>
    (\<forall>i<4096. mem u (b + i) = (if e = c then mem s (a + i) else mem s (disk_at (unat e) s + i)))"
proof -
  let ?t = "upd_mem (write_block a (unat c) s) s"
  have w: "sfs_wblock sfs a c 1 s = Some (0, ?t)" using sfs_rwblock_one [OF d(1) c, of a True] by (simp add: sfs_wblock_def)
  have n: "unat c < d_blocks d" "unat e < d_blocks d" using d(1) c e by (auto simp: sfs_disk_def word_less_nat_alt)
  then have room: "unat c * 4096 + 4096 \<le> d_blocks d * 4096" "unat e * 4096 + 4096 \<le> d_blocks d * 4096" by linarith+
  have buf: "apart (disk_at 0 s) (d_blocks d * 4096) (disk0_buffer s) DISK0_BUFSIZE" using d(1) by (simp add: sfs_disk_def disk_ok_def)
  have super: "mem ?t (sfs + 4 + i) = mem s (sfs + 4 + i)" if "i < 4" for i
    using that d(2) room(1) by (auto simp: super_apart_def write_block_def block_copy_def apart_def disk_at_def SIZEOF_SUPER_def disk_sizes)
  have "super_blocks sfs ?t = super_blocks sfs s" unfolding super_blocks_def by (intro rd32_cong super)
  then have "sfs_disk sfs ?t d" "e < super_blocks sfs ?t" using d(1) e by (simp_all add: sfs_disk_def)
  from sfs_rwblock_one [OF this(1) e(1) this(2), of b False]
  have r: "sfs_rblock sfs b e 1 ?t = Some (0, upd_mem (read_block b (unat e) ?t) ?t)" by (simp add: sfs_rblock_def)
  have "mem (upd_mem (read_block b (unat e) ?t) ?t) (b + i) = (if e = c then mem s (a + i) else mem s (disk_at (unat e) s + i))"
    if "i < 4096" for i
  proof -
    have "mem (upd_mem (read_block b (unat e) ?t) ?t) (b + i) = mem ?t (disk_at (unat e) s + i)"
      using that by (simp add: read_block_def block_copy_def)
    also have "\<dots> = (if e = c then mem s (a + i) else mem s (disk_at (unat e) s + i))"
    proof (cases "e = c")
      case True
      then show ?thesis using that by (simp add: write_block_def block_copy_def)
    next
      case False
      then have "unat e \<noteq> unat c" by (metis unsigned_word_eqI)
      then have "unat e * 4096 + 4096 \<le> unat c * 4096 \<or> unat c * 4096 + 4096 \<le> unat e * 4096" by linarith
      then show ?thesis using False that buf room(2)
        by (auto simp: write_block_def block_copy_def apart_def disk_at_def disk_sizes)
    qed
    finally show ?thesis .
  qed
  with w r show ?thesis by blast
qed

text \<open>A file system at 64 on a disk of five blocks, of which it uses four; a page of sevens at \<open>0x300000\<close>.\<close>

definition demo_device :: device where "demo_device = \<lparr>d_blocks = 5, d_blocksize = 4096, d_ops = Disk0\<rparr>"

definition demo_disk :: fst where
  "demo_disk = upd_mem (\<lambda>m. wr32 68 4 (\<lambda>a. if 0x300000 \<le> a \<and> a < 0x301000 then 7 else 0)) (demo_fst
     \<lparr>sy := (sy demo_fst)\<lparr>ks := demo_kst\<lparr>sem_value := (\<lambda>_. 1)\<rparr>\<rparr>,
      inodes := (\<lambda>_. \<lparr>in_info = Device_info demo_device, ref_count = 1, open_count = 0, in_fs = None, in_ops = Dev_node_ops\<rparr>),
      ide_devices := (\<lambda>_. \<lparr>ide_valid = True, ide_size = 40, iobase = 0x100000\<rparr>),
      disk0_buffer := 0x200000\<rparr>)"

lemma demo_disk_ok:
  "sfs_disk 64 demo_disk demo_device" "super_apart 64 demo_disk demo_device"
  "user_page 0x300000 64 demo_disk demo_device" "user_page 0x400000 64 demo_disk demo_device" "super_blocks 64 demo_disk = 4"
proof -
  have "super_blocks 64 demo_disk = 4" by (simp add: super_blocks_def demo_disk_def)
  moreover have free: "sem_free q demo_disk" for q
    by (simp add: demo_disk_def demo_fst_def demo_kst_def sem_free_def wait_queue_first_def list_next_def)
  moreover have "disk0_buffer demo_disk = 0x200000" "disk_at c demo_disk = 0x100000 + c * 4096"
    "ide_devices demo_disk d = \<lparr>ide_valid = True, ide_size = 40, iobase = 0x100000\<rparr>"
    "in_info (inodes demo_disk n) = Device_info demo_device" for c d n
    by (simp_all add: demo_disk_def demo_fst_def disk_at_def)
  ultimately show "sfs_disk 64 demo_disk demo_device" "super_apart 64 demo_disk demo_device"
    "user_page 0x300000 64 demo_disk demo_device" "user_page 0x400000 64 demo_disk demo_device" "super_blocks 64 demo_disk = 4"
    by (simp_all add: sfs_disk_def disk_ok_def super_apart_def user_page_def apart_def demo_device_def VALID_IDE_def
      DISK0_DEV_NO_def MAX_IDE_def disk_sizes SIZEOF_SUPER_def)
qed

theorem block_write_read_witness:
  "\<exists>t u. sfs_wblock 64 0x300000 2 1 demo_disk = Some (0, t) \<and> sfs_rblock 64 0x400000 2 1 t = Some (0, u) \<and>
     mem u 0x400000 = 7"
proof -
  have "mem demo_disk 0x300000 = 7" by (simp add: demo_disk_def wr32_def)
  with block_write_read [OF demo_disk_ok(1-4), of 2 2] show ?thesis
    by (auto simp: demo_disk_ok(5) dest!: spec [of _ 0])
qed

end
