(* ===== verification/Proc_Memory.thy ===== *)
theory Proc_Memory
  imports Sysfile Timer
begin

unbundle bit_operations_syntax

section \<open>Creating, ending and reaping processes (kern/process/proc.c)\<close>

text \<open>
  The operations of proc.c that join the process table with memory and files. What the linker decides is a record
  \<open>kimage\<close>: the frame of the boot page directory, the entry points \<open>forkret\<close> and \<open>kernel_thread_entry\<close>, and the boot
  stack. A trap frame is 36 words of 64 bits in memory, first the 32 registers, then \<open>status\<close>, \<open>epc\<close>, \<open>tval\<close>, \<open>cause\<close>.
  A function that calls \<open>schedule\<close> is split there; a result \<open>Inr\<close> means that another process runs now.
\<close>

record kimage =
  boot_pgdir :: nat
  forkret :: nat
  kernel_thread_entry :: nat
  bootstack :: nat

definition SIZEOF_PROC :: nat where "SIZEOF_PROC = 336"
definition SIZEOF_TF :: nat where "SIZEOF_TF = 288"
definition KSTACKPAGE :: nat where "KSTACKPAGE = 2"
definition KSTACKSIZE :: nat where "KSTACKSIZE = KSTACKPAGE * PGSIZE"
definition CLONE_VM :: "32 word" where "CLONE_VM = 0x00000100"
definition CLONE_FS :: "32 word" where "CLONE_FS = 0x00000800"
definition SSTATUS_SIE :: "64 word" where "SSTATUS_SIE = 0x00000002"
definition SSTATUS_SPIE :: "64 word" where "SSTATUS_SPIE = 0x00000020"
definition SSTATUS_SPP :: "64 word" where "SSTATUS_SPP = 0x00000100"

definition tf_gpr :: "nat \<Rightarrow> nat \<Rightarrow> nat" where "tf_gpr tfp r = tfp + 8 * r"
definition tf_sp :: "nat \<Rightarrow> nat" where "tf_sp tfp = tf_gpr tfp 2"
definition tf_gp :: "nat \<Rightarrow> nat" where "tf_gp tfp = tf_gpr tfp 3"
definition tf_s0 :: "nat \<Rightarrow> nat" where "tf_s0 tfp = tf_gpr tfp 8"
definition tf_s1 :: "nat \<Rightarrow> nat" where "tf_s1 tfp = tf_gpr tfp 9"
definition tf_a :: "nat \<Rightarrow> nat \<Rightarrow> nat" where "tf_a tfp i = tf_gpr tfp (10 + i)"
definition tf_status :: "nat \<Rightarrow> nat" where "tf_status tfp = tf_gpr tfp 32"
definition tf_epc :: "nat \<Rightarrow> nat" where "tf_epc tfp = tf_gpr tfp 33"
definition tf_tval :: "nat \<Rightarrow> nat" where "tf_tval tfp = tf_gpr tfp 34"
definition tf_cause :: "nat \<Rightarrow> nat" where "tf_cause tfp = tf_gpr tfp 35"

definition fs_ks :: "fst \<Rightarrow> kst" where "fs_ks s = ks (sy s)"
definition upd_ks :: "(kst \<Rightarrow> kst) \<Rightarrow> fst \<Rightarrow> fst" where "upd_ks f s = s\<lparr>sy := (sy s)\<lparr>ks := f (ks (sy s))\<rparr>\<rparr>"

definition in_ks :: "(kst \<Rightarrow> ('a \<times> kst) kresult) \<Rightarrow> fst \<Rightarrow> ('a \<times> fst) kresult" where
  "in_ks f s = do { (r, k) \<leftarrow> f (ks (sy s)); Some (r, upd_ks (\<lambda>_. k) s) }"

definition in_ks' :: "(kst \<Rightarrow> kst kresult) \<Rightarrow> fst \<Rightarrow> fst kresult" where
  "in_ks' f s = do { k \<leftarrow> f (ks (sy s)); Some (upd_ks (\<lambda>_. k) s) }"

definition set_proc :: "nat \<Rightarrow> (proc_struct \<Rightarrow> proc_struct) \<Rightarrow> fst \<Rightarrow> fst" where
  "set_proc p f = upd_ks (upd_proc p f)"

definition the_proc :: "nat \<Rightarrow> fst \<Rightarrow> proc_struct" where "the_proc p s = procs (ks (sy s)) p"

definition current_proc :: "fst \<Rightarrow> nat kresult" where "current_proc s = current (ks (sy s))"

subsection \<open>Kernel stacks and page directories\<close>

definition new_proc :: "kimage \<Rightarrow> fst \<Rightarrow> (nat option \<times> fst) kresult" where
  "new_proc ki s = do {
     (p, s) \<leftarrow> fs_kmalloc SIZEOF_PROC s;
     in_ks (\<lambda>k. Some (alloc_proc (boot_pgdir ki * PGSIZE) p k)) s
   }"

definition on_mem :: "(vmst \<Rightarrow> ('a \<times> vmst) kresult) \<Rightarrow> fst \<Rightarrow> ('a \<times> fst) kresult" where
  "on_mem f = on_sys (on_vm f)"

definition alloc_pages :: "nat \<Rightarrow> vmst \<Rightarrow> (nat option \<times> vmst) kresult" where
  "alloc_pages n s = do { (page, p) \<leftarrow> default_alloc_pages n (pm s); Some (page, s\<lparr>pm := p\<rparr>) }"

definition free_pages :: "nat \<Rightarrow> nat \<Rightarrow> vmst \<Rightarrow> vmst kresult" where
  "free_pages page n s = do { p \<leftarrow> default_free_pages page n (pm s); Some (s\<lparr>pm := p\<rparr>) }"

definition setup_kstack :: "nat \<Rightarrow> fst \<Rightarrow> (int \<times> fst) kresult" where
  "setup_kstack proc s = do {
     (page, s) \<leftarrow> on_mem (alloc_pages KSTACKPAGE) s;
     (case page of
        Some page \<Rightarrow> do {
          f \<leftarrow> page2kva page (vm (hp (sy s)));
          Some (0, set_proc proc (\<lambda>d. d\<lparr>kstack := f * PGSIZE\<rparr>) s)
        }
      | None \<Rightarrow> Some (- E_NO_MEM, s))
   }"

definition put_kstack :: "nat \<Rightarrow> fst \<Rightarrow> fst kresult" where
  "put_kstack proc s = do {
     page \<leftarrow> pa2page (kstack (the_proc proc s)) (vm (hp (sy s)));
     on_sys' (on_vm' (free_pages page KSTACKPAGE)) s
   }"

definition setup_pgdir :: "kimage \<Rightarrow> nat \<Rightarrow> fst \<Rightarrow> (int \<times> fst) kresult" where
  "setup_pgdir ki mp s = do {
     (page, s) \<leftarrow> on_mem alloc_page s;
     (case page of
        None \<Rightarrow> Some (- E_NO_MEM, s)
      | Some page \<Rightarrow> do {
          pgd \<leftarrow> page2kva page (vm (hp (sy s)));
          s \<leftarrow> on_sys' (on_vm' (\<lambda>m. Some (set_frame pgd (frame m (boot_pgdir ki)) m))) s;
          Some (0, s\<lparr>sy := upd_mm mp (\<lambda>d. d\<lparr>mm_pgdir := pgd\<rparr>) (sy s)\<rparr>)
        })
   }"

definition put_pgdir :: "nat \<Rightarrow> fst \<Rightarrow> fst kresult" where
  "put_pgdir mp s = do {
     page \<leftarrow> pa2page (mm_pgdir (mms (sy s) mp) * PGSIZE) (vm (hp (sy s)));
     on_sys' (on_vm' (free_page page)) s
   }"

text \<open>\<open>exit_mmap\<close>, \<open>put_pgdir\<close> and \<open>mm_destroy\<close> when the last user of the \<open>mm_struct\<close> is gone; the code has this three times.\<close>

definition release_mm :: "nat \<Rightarrow> fst \<Rightarrow> fst kresult" where
  "release_mm mp s = do {
     let (c, y) = mm_count_dec mp (sy s);
     let s = s\<lparr>sy := y\<rparr>;
     (if c = 0
      then do {
        s \<leftarrow> on_sys' (exit_mmap (Some mp)) s;
        s \<leftarrow> put_pgdir mp s;
        on_sys' (mm_destroy mp) s
      }
      else Some s)
   }"

subsection \<open>fork\<close>

text \<open>\<open>good_mm\<close> of \<open>copy_mm\<close>.\<close>

definition share_mm :: "nat \<Rightarrow> nat \<Rightarrow> fst \<Rightarrow> fst" where
  "share_mm mp proc s =
     (let s = s\<lparr>sy := snd (mm_count_inc mp (sy s))\<rparr>
      in set_proc proc (\<lambda>d. d\<lparr>mm := Some mp, pgdir := mm_pgdir (mms (sy s) mp) * PGSIZE\<rparr>) s)"

definition copy_mm :: "kimage \<Rightarrow> 32 word \<Rightarrow> nat \<Rightarrow> fst \<Rightarrow> (int \<times> fst) kresult" where
  "copy_mm ki clone_flags proc s = do {
     oldmm \<leftarrow> cur_mm s;
     (case oldmm of
        None \<Rightarrow> Some (0, s)
      | Some old \<Rightarrow>
          if clone_flags AND CLONE_VM \<noteq> 0 then Some (0, share_mm old proc s)
          else do {
            (mp, s) \<leftarrow> on_sys mm_create s;
            (case mp of
               None \<Rightarrow> Some (- E_NO_MEM, s)
             | Some mp \<Rightarrow> do {
                 (r, s) \<leftarrow> setup_pgdir ki mp s;
                 (if r \<noteq> 0 then do { s \<leftarrow> on_sys' (mm_destroy mp) s; Some (- E_NO_MEM, s) }
                  else do {
                    s \<leftarrow> fs_lock_mm oldmm s;
                    (r, s) \<leftarrow> on_sys (dup_mmap (Some mp) oldmm) s;
                    s \<leftarrow> fs_unlock_mm oldmm s;
                    (if r \<noteq> 0
                     then do {
                       s \<leftarrow> on_sys' (exit_mmap (Some mp)) s;
                       s \<leftarrow> put_pgdir mp s;
                       s \<leftarrow> on_sys' (mm_destroy mp) s;
                       Some (r, s)
                     }
                     else Some (0, share_mm mp proc s))
                  })
               })
          })
   }"

text \<open>\<open>sp\<close> is the stack pointer of the caller, 0 for a kernel thread; \<open>tfp\<close> the trap frame to copy.\<close>

definition copy_thread :: "kimage \<Rightarrow> nat \<Rightarrow> nat \<Rightarrow> nat \<Rightarrow> fst \<Rightarrow> fst" where
  "copy_thread ki proc sp tfp s =
     (let new = kstack (the_proc proc s) + KSTACKSIZE - SIZEOF_TF;
          s = set_proc proc (\<lambda>d. d\<lparr>tf := Some new\<rparr>) s;
          s = upd_mem (snd \<circ> memcpy new tfp SIZEOF_TF) s;
          s = upd_mem (wr64 (tf_a new 0) 0) s;
          s = upd_mem (wr64 (tf_sp new) (word_of_nat (if sp = 0 then new else sp))) s
      in set_proc proc (\<lambda>d. d\<lparr>ctx := (ctx d)\<lparr>ctx_ra := forkret ki, ctx_sp := new\<rparr>\<rparr>) s)"

definition share_files :: "nat \<Rightarrow> nat \<Rightarrow> fst \<Rightarrow> fst" where
  "share_files fp proc s = set_proc proc (\<lambda>d. d\<lparr>filesp := Some fp\<rparr>) (snd (files_count_inc fp s))"

definition copy_files :: "32 word \<Rightarrow> nat \<Rightarrow> fst \<Rightarrow> (int \<times> fst) kresult" where
  "copy_files clone_flags proc s = do {
     old \<leftarrow> cur_files s;
     (if clone_flags AND CLONE_FS \<noteq> 0 then Some (0, share_files old proc s)
      else do {
        (fp, s) \<leftarrow> files_create s;
        (case fp of
           None \<Rightarrow> Some (- E_NO_MEM, s)
         | Some fp \<Rightarrow> do {
             (r, s) \<leftarrow> dup_files fp old s;
             (if r \<noteq> 0 then do { s \<leftarrow> files_destroy fp s; Some (r, s) } else Some (0, share_files fp proc s))
           })
      })
   }"

definition put_files :: "nat \<Rightarrow> fst \<Rightarrow> fst kresult" where
  "put_files proc s = (case filesp (the_proc proc s) of
     None \<Rightarrow> Some s
   | Some fp \<Rightarrow> (let (c, s) = files_count_dec fp s in if c = 0 then files_destroy fp s else Some s))"

text \<open>The part of \<open>do_fork\<close> after everything has been allocated, and the label \<open>bad_fork_cleanup_fs\<close>.\<close>

definition fork_publish :: "kimage \<Rightarrow> sched_class \<Rightarrow> nat \<Rightarrow> nat \<Rightarrow> nat \<Rightarrow> fst \<Rightarrow> (int \<times> fst) kresult" where
  "fork_publish ki cls proc stack tfp s = do {
     let s = copy_thread ki proc stack tfp s;
     (n, s) \<leftarrow> in_ks get_pid s;
     let s = set_proc proc (\<lambda>d. d\<lparr>pid := n\<rparr>) s;
     cur \<leftarrow> current_proc s;
     let s = upd_ks (set_proc_name proc (pname (the_proc cur s))) s;
     let s = upd_ks (hash_proc proc) s;
     s \<leftarrow> in_ks' (set_links proc) s;
     s \<leftarrow> in_ks' (wakeup_proc cls proc) s;
     Some (pid (the_proc proc s), s)
   }"

definition fork_cleanup_fs :: "nat \<Rightarrow> fst \<Rightarrow> fst kresult" where
  "fork_cleanup_fs proc s = do {
     s \<leftarrow> put_files proc s;
     (case mm (the_proc proc s) of
        None \<Rightarrow> Some s
      | Some mp \<Rightarrow> do { s \<leftarrow> release_mm mp s; Some (set_proc proc (\<lambda>d. d\<lparr>mm := None\<rparr>) s) })
   }"

text \<open>The steps of \<open>do_fork\<close> on a new descriptor, each with the label it jumps to on failure.\<close>

definition fork_steps ::
    "kimage \<Rightarrow> sched_class \<Rightarrow> 32 word \<Rightarrow> nat \<Rightarrow> nat \<Rightarrow> nat \<Rightarrow> fst \<Rightarrow> (int \<times> fst) kresult" where
  "fork_steps ki cls clone_flags stack tfp proc s = do {
     (r, s) \<leftarrow> setup_kstack proc s;
     (if r \<noteq> 0 then do { s \<leftarrow> fs_kfree (Some proc) s; Some (r, s) }
      else do {
        (r, s) \<leftarrow> copy_mm ki clone_flags proc s;
        (if r \<noteq> 0 then do { s \<leftarrow> put_kstack proc s; s \<leftarrow> fs_kfree (Some proc) s; Some (r, s) }
         else do {
           (r, s) \<leftarrow> copy_files clone_flags proc s;
           (if r \<noteq> 0
            then do {
              s \<leftarrow> fork_cleanup_fs proc s;
              s \<leftarrow> put_kstack proc s;
              s \<leftarrow> fs_kfree (Some proc) s;
              Some (r, s)
            }
            else fork_publish ki cls proc stack tfp s)
         })
      })
   }"

definition do_fork :: "kimage \<Rightarrow> sched_class \<Rightarrow> 32 word \<Rightarrow> nat \<Rightarrow> nat \<Rightarrow> fst \<Rightarrow> (int \<times> fst) kresult" where
  "do_fork ki cls clone_flags stack tfp s =
     (if nr_process (ks (sy s)) \<ge> MAX_PROCESS then Some (- E_NO_FREE_PROC, s)
      else do {
        (p, s) \<leftarrow> new_proc ki s;
        (case p of
           None \<Rightarrow> Some (- E_NO_MEM, s)
         | Some proc \<Rightarrow> do {
             cur \<leftarrow> current_proc s;
             let s = set_proc proc (\<lambda>d. d\<lparr>parent := Some cur\<rparr>) s;
             let s = set_proc cur (\<lambda>d. d\<lparr>wait_state := 0\<rparr>) s;
             fork_steps ki cls clone_flags stack tfp proc s
           })
      })"

text \<open>\<open>kernel_thread\<close> with its trap frame at \<open>tfp\<close>; \<open>sstatus\<close> is the value of the control register.\<close>

definition kernel_thread ::
    "kimage \<Rightarrow> sched_class \<Rightarrow> 64 word \<Rightarrow> nat \<Rightarrow> nat \<Rightarrow> nat \<Rightarrow> 32 word \<Rightarrow> fst \<Rightarrow> (int \<times> fst) kresult" where
  "kernel_thread ki cls sstatus tfp fn arg clone_flags s =
     (let s = upd_mem (snd \<circ> memset tfp 0 SIZEOF_TF) s;
          s = upd_mem (wr64 (tf_s0 tfp) (word_of_nat fn)) s;
          s = upd_mem (wr64 (tf_s1 tfp) (word_of_nat arg)) s;
          s = upd_mem (wr64 (tf_status tfp) ((sstatus OR SSTATUS_SPP OR SSTATUS_SPIE) AND NOT SSTATUS_SIE)) s;
          s = upd_mem (wr64 (tf_epc tfp) (word_of_nat (kernel_thread_entry ki))) s
      in do_fork ki cls (clone_flags OR CLONE_VM) 0 tfp s)"

subsection \<open>exit and wait\<close>

text \<open>\<open>do_exit\<close>: the state in which the next process runs. It never returns to its caller.\<close>

definition exit_memory :: "kimage \<Rightarrow> nat \<Rightarrow> fst \<Rightarrow> fst kresult" where
  "exit_memory ki cur s = (case mm (the_proc cur s) of
     None \<Rightarrow> Some s
   | Some mp \<Rightarrow> do {
       let s = upd_ks (\<lambda>k. k\<lparr>satp := boot_pgdir ki * PGSIZE\<rparr>) s;
       s \<leftarrow> release_mm mp s;
       let s = set_proc cur (\<lambda>d. d\<lparr>mm := None\<rparr>) s;
       put_files cur s
     })"

definition do_exit :: "kimage \<Rightarrow> sched_class \<Rightarrow> int \<Rightarrow> fst \<Rightarrow> fst kresult" where
  "do_exit ki cls error_code s = do {
     cur \<leftarrow> current_proc s;
     kassert (Some cur \<noteq> idleproc (ks (sy s)));
     kassert (Some cur \<noteq> initproc (ks (sy s)));
     s \<leftarrow> exit_memory ki cur s;
     let s = set_proc cur (\<lambda>d. d\<lparr>state := PROC_ZOMBIE, exit_code := error_code\<rparr>) s;
     s \<leftarrow> in_ks' (exit_notify cls) s;
     in_ks' (schedule cls) s
   }"

definition wait_found :: "nat \<Rightarrow> nat option \<Rightarrow> fst \<Rightarrow> fst kresult" where
  "wait_found proc code_store s = do {
     kassert (Some proc \<noteq> idleproc (ks (sy s)) \<and> Some proc \<noteq> initproc (ks (sy s)));
     let s = (case code_store of
                Some a \<Rightarrow> upd_mem (wr32 a (word_of_int (exit_code (the_proc proc s)))) s
              | None \<Rightarrow> s);
     let s = upd_ks (unhash_proc proc) s;
     s \<leftarrow> in_ks' (remove_links proc) s;
     s \<leftarrow> put_kstack proc s;
     fs_kfree (Some proc) s
   }"

text \<open>From the label \<open>repeat\<close>: the call returns, or the process sleeps until a child ends.\<close>

definition wait_pass :: "sched_class \<Rightarrow> int \<Rightarrow> nat option \<Rightarrow> fst \<Rightarrow> (int \<times> fst + fst) kresult" where
  "wait_pass cls n code_store s = do {
     (found, haskid) \<leftarrow> wait_search n (ks (sy s));
     (case found of
        Some proc \<Rightarrow> do { s \<leftarrow> wait_found proc code_store s; Some (Inl (0, s)) }
      | None \<Rightarrow>
          if haskid
          then do {
            cur \<leftarrow> current_proc s;
            let s = set_proc cur (\<lambda>d. d\<lparr>state := PROC_SLEEPING, wait_state := WT_CHILD\<rparr>) s;
            s \<leftarrow> in_ks' (schedule cls) s;
            Some (Inr s)
          }
          else Some (Inl (- E_BAD_PROC, s)))
   }"

definition do_wait :: "sched_class \<Rightarrow> int \<Rightarrow> nat option \<Rightarrow> fst \<Rightarrow> (int \<times> fst + fst) kresult" where
  "do_wait cls n code_store s = do {
     mp \<leftarrow> cur_mm s;
     (case code_store of
        Some a \<Rightarrow> do {
          (ok, s) \<leftarrow> on_sys (user_mem_check mp a 4 True) s;
          (if \<not> ok then Some (Inl (- E_INVAL, s)) else wait_pass cls n code_store s)
        }
      | None \<Rightarrow> wait_pass cls n code_store s)
   }"

text \<open>When the sleeping process runs again.\<close>

definition do_wait_resume :: "kimage \<Rightarrow> sched_class \<Rightarrow> int \<Rightarrow> nat option \<Rightarrow> fst \<Rightarrow> (int \<times> fst + fst) kresult" where
  "do_wait_resume ki cls n code_store s = do {
     cur \<leftarrow> current_proc s;
     (if pflags (the_proc cur s) AND PF_EXITING \<noteq> 0
      then do { s \<leftarrow> do_exit ki cls (- E_KILLED) s; Some (Inr s) }
      else wait_pass cls n code_store s)
   }"

subsection \<open>Start and end\<close>

definition lab6_set_priority :: "32 word \<Rightarrow> kst \<Rightarrow> kst kresult" where
  "lab6_set_priority priority s = do {
     cur \<leftarrow> current s;
     Some (upd_proc cur (\<lambda>d. d\<lparr>lab6_priority := (if priority = 0 then 1 else priority)\<rparr>) s)
   }"

text \<open>
  \<open>proc_init\<close>. The control register, the address of the temporary trap frame and that of \<open>init_main\<close> are parameters.
\<close>

definition proc_init :: "kimage \<Rightarrow> sched_class \<Rightarrow> 64 word \<Rightarrow> nat \<Rightarrow> nat \<Rightarrow> fst \<Rightarrow> fst kresult" where
  "proc_init ki cls sstatus tfp init_main s = do {
     let s = upd_ks (upd_klinks (list_init Proc_list)) s;
     let s = fold (\<lambda>i. upd_ks (upd_klinks (list_init (Hash_list i)))) [0..<HASH_LIST_SIZE] s;
     (p, s) \<leftarrow> new_proc ki s;
     idle \<leftarrow> p;
     let s = upd_ks (\<lambda>k. k\<lparr>idleproc := Some idle\<rparr>) s;
     let s = set_proc idle (\<lambda>d. d\<lparr>pid := 0, state := PROC_RUNNABLE, kstack := bootstack ki, need_resched := True\<rparr>) s;
     (fp, s) \<leftarrow> files_create s;
     fp \<leftarrow> fp;
     let s = share_files fp idle s;
     let s = upd_ks (set_proc_name idle ''idle'') s;
     let s = upd_ks (\<lambda>k. k\<lparr>nr_process := nr_process k + 1, current := Some idle\<rparr>) s;
     (n, s) \<leftarrow> kernel_thread ki cls sstatus tfp init_main 0 0 s;
     kassert (n > 0);
     ini \<leftarrow> find_proc n (ks (sy s));
     let s = upd_ks (\<lambda>k. k\<lparr>initproc := ini\<rparr>) s;
     ini \<leftarrow> ini;
     let s = upd_ks (set_proc_name ini ''init'') s;
     kassert (pid (the_proc idle s) = 0);
     kassert (pid (the_proc ini s) = 1);
     Some s
   }"

text \<open>
  \<open>init_main\<close>: its start, with the address of the literal \<open>"disk0:"\<close>, one turn of its loop (\<open>Inr\<close> when it waits), and
  its end.
\<close>

definition init_main_start ::
    "kimage \<Rightarrow> sched_class \<Rightarrow> 64 word \<Rightarrow> nat \<Rightarrow> nat \<Rightarrow> nat \<Rightarrow> fst \<Rightarrow> fst kresult" where
  "init_main_start ki cls sstatus tfp user_main disk0_name s = do {
     (r, s) \<leftarrow> vfs_set_bootfs (Some disk0_name) s;
     kassert (r = 0);
     (n, s) \<leftarrow> kernel_thread ki cls sstatus tfp user_main 0 0 s;
     kassert (n > 0);
     Some s
   }"

definition init_main_end :: "fst \<Rightarrow> fst kresult" where
  "init_main_end s = do {
     s \<leftarrow> fs_cleanup s;
     ini \<leftarrow> initproc (ks (sy s));
     kassert (cptr (the_proc ini s) = None \<and> yptr (the_proc ini s) = None \<and> optr (the_proc ini s) = None);
     kassert (nr_process (ks (sy s)) = 2);
     kassert (list_next Proc_list (klinks (ks (sy s))) = List_link ini);
     kassert (list_prev Proc_list (klinks (ks (sy s))) = List_link ini);
     Some s
   }"

end
