(* ===== verification/Fork_Proofs.thy ===== *)
theory Fork_Proofs
  imports Proc_Memory Fs_Limits
begin

unbundle bit_operations_syntax

section \<open>Fork\<close>

text \<open>
  The third interpretation of \<open>fs_relation\<close>: no file operation touches the process table. With it, fork either
  fails and leaves the table as it was, or gets to the point where the child is published.
\<close>

definition quiet_fs :: "fst \<Rightarrow> fst \<Rightarrow> bool" where "quiet_fs s t \<longleftrightarrow> quiet (ks (sy s)) (ks (sy t))"

interpretation quiet: fs_relation quiet_fs
  by unfold_locales (auto simp: quiet_fs_def upd_inode_def intro: quiet_trans)

text \<open>\<open>kept p k k'\<close>: only process \<open>p\<close>, its run-queue entry, the semaphores and their queue heads have changed.\<close>

definition kept :: "nat \<Rightarrow> kst \<Rightarrow> kst \<Rightarrow> bool" where
  "kept p k k' \<longleftrightarrow> (\<forall>q. q \<noteq> p \<longrightarrow> procs k' q = procs k q) \<and>
     (\<forall>e. e \<noteq> Run_link p \<and> (\<forall>q. e \<noteq> Wait_head q) \<longrightarrow> nxt (klinks k') e = nxt (klinks k) e \<and> prv (klinks k') e = prv (klinks k) e) \<and>
     run_q k' = run_q k \<and> current k' = current k \<and> idleproc k' = idleproc k \<and> initproc k' = initproc k \<and>
     satp k' = satp k \<and> timers k' = timers k \<and> waits k' = waits k \<and>
     nr_process k' = nr_process k \<and> last_pid k' = last_pid k \<and> next_safe k' = next_safe k"

definition K :: "nat \<Rightarrow> kst \<Rightarrow> fst \<Rightarrow> bool" where "K p k s \<longleftrightarrow> kept p k (ks (sy s))"

named_theorems fork_ops \<open>steps of fork\<close>

lemma sy_K: "K p k s \<Longrightarrow> ks y = ks (sy s) \<Longrightarrow> K p k (s\<lparr>sy := y\<rparr>)" by (simp add: K_def)

lemma upd_files_K: "K p k s \<Longrightarrow> K p k (upd_files f g s)" by (simp add: K_def upd_files_def)

lemma quiet_K:
  assumes "quiet_fs s t" "K p k s"
  shows "K p k t"
proof -
  obtain v l where "ks (sy t) = (ks (sy s))\<lparr>sem_value := v, klinks := l\<rparr>"
    and "\<forall>e. (\<forall>q. e \<noteq> Wait_head q) \<longrightarrow> nxt l e = nxt (klinks (ks (sy s))) e \<and> prv l e = prv (klinks (ks (sy s))) e"
    using assms(1) unfolding quiet_fs_def quiet_def by metis
  with assms(2) show ?thesis by (simp add: K_def kept_def)
qed

lemma set_proc_K: "K p k s \<Longrightarrow> K p k (set_proc p f s)"
  by (simp add: K_def kept_def set_proc_def upd_ks_def upd_proc_def)

lemma quiet_steps_K [fork_ops]:
  "fs_kmalloc n s = Some (r, t) \<Longrightarrow> K p k s \<Longrightarrow> K p k t" "fs_kfree a s = Some t \<Longrightarrow> K p k s \<Longrightarrow> K p k t"
  "files_create s = Some (f, t) \<Longrightarrow> K p k s \<Longrightarrow> K p k t" "dup_files b c s = Some (i, t) \<Longrightarrow> K p k s \<Longrightarrow> K p k t"
  "files_destroy c s = Some t \<Longrightarrow> K p k s \<Longrightarrow> K p k t" "files_count_inc c s = (d, t) \<Longrightarrow> K p k s \<Longrightarrow> K p k t"
  "files_count_dec c s = (d, t) \<Longrightarrow> K p k s \<Longrightarrow> K p k t" "fs_lock_mm mp s = Some t \<Longrightarrow> K p k s \<Longrightarrow> K p k t"
  "fs_unlock_mm mp s = Some t \<Longrightarrow> K p k s \<Longrightarrow> K p k t"
  by (erule quiet_K [rotated], erule fs_ops, rule quiet.refl)+

text \<open>The operations of vmm.c.\<close>

lemma insert_vma_kept [sys_kept]: "insert_vma_struct mp v y = Some z \<Longrightarrow> ks z = ks y"
  by (auto simp: insert_vma_struct_def upd_mm_def upd_vma_def upd_vlinks_def bind_eq_Some_conv Let_def split: if_splits)

lemma vma_create_kept [sys_kept]: "vma_create a e f y = Some (v, z) \<Longrightarrow> ks z = ks y"
  by (auto simp: vma_create_def upd_vma_def bind_eq_Some_conv sys_kept split: option.splits)

lemma dup_mmap_kept [sys_kept]:
  assumes "dup_mmap to from y = Some (r, z)"
  shows "ks z = ks y"
proof -
  have "ks (snd r) = ks y" if "dup_mmap_loop a l e d y = Some r" for a l e d y r
    apply (rule dup_mmap_loop.raw_induct [where P = "\<lambda>a l e d y r. ks (snd r) = ks y", OF _ that])
    subgoal premises prems for f a l e d y r
      using prems(2) by (auto simp: bind_eq_Some_conv Let_def split: if_splits option.splits dest!: prems(1) sys_kept)
    done
  from this assms show ?thesis unfolding dup_mmap_def by (fastforce simp: bind_eq_Some_conv)
qed

lemma exit_mmap_kept [sys_kept]:
  assumes "exit_mmap mp y = Some z"
  shows "ks z = ks y"
proof -
  have loop: "ks r = ks y" if "exit_mmap_loop g d l e y = Some r" for g d l e y r
    apply (rule exit_mmap_loop.raw_induct [where P = "\<lambda>g d l e y r. ks r = ks y", OF _ that])
    subgoal premises prems for f g d l e y r
      using prems(2) by (auto simp: bind_eq_Some_conv Let_def split: if_splits dest!: prems(1) sys_kept)
    done
  from assms show ?thesis by (auto simp: exit_mmap_def bind_eq_Some_conv Let_def split: if_splits dest!: loop)
qed

lemma mm_destroy_kept [sys_kept]:
  assumes "mm_destroy mp y = Some z"
  shows "ks z = ks y"
proof -
  have loop: "ks r = ks y" if "mm_destroy_loop l y = Some r" for l y r
    apply (rule mm_destroy_loop.raw_induct [where P = "\<lambda>l y r. ks r = ks y", OF _ that])
    subgoal premises prems for f l y r
      using prems(2) by (auto simp: bind_eq_Some_conv Let_def upd_vlinks_def split: if_splits dest!: prems(1) sys_kept)
    done
  from assms show ?thesis by (auto simp: mm_destroy_def bind_eq_Some_conv sys_kept split: if_splits dest!: loop)
qed

lemma on_sys_K:
  "on_sys f s = Some (r, t) \<Longrightarrow> K p k s \<Longrightarrow> (\<And>y r z. f y = Some (r, z) \<Longrightarrow> ks z = ks y) \<Longrightarrow> K p k t"
  by (auto simp: on_sys_def bind_eq_Some_conv intro!: sy_K)

lemma on_sys'_K:
  "on_sys' f s = Some t \<Longrightarrow> K p k s \<Longrightarrow> (\<And>y z. f y = Some z \<Longrightarrow> ks z = ks y) \<Longrightarrow> K p k t"
  by (auto simp: on_sys'_def bind_eq_Some_conv intro!: sy_K)

lemma sys_steps_K [fork_ops]:
  "on_mem g s = Some (r, t) \<Longrightarrow> K p k s \<Longrightarrow> K p k t"
  "on_sys (dup_mmap a b) s = Some (i, t) \<Longrightarrow> K p k s \<Longrightarrow> K p k t"
  unfolding on_mem_def by (erule on_sys_K; simp add: sys_kept)+

lemma sys_steps'_K [fork_ops]:
  "on_sys' (on_vm' g) s = Some t \<Longrightarrow> K p k s \<Longrightarrow> K p k t" "on_sys' (exit_mmap mp) s = Some t \<Longrightarrow> K p k s \<Longrightarrow> K p k t"
  "on_sys' (mm_destroy m) s = Some t \<Longrightarrow> K p k s \<Longrightarrow> K p k t"
  by (erule on_sys'_K; simp add: sys_kept)+

lemma mm_create_K [fork_ops]: "on_sys mm_create s = Some (r, t) \<Longrightarrow> K p k s \<Longrightarrow> K p k t"
proof -
  assume a: "on_sys mm_create s = Some (r, t)" and K: "K p k s"
  have "quiet (ks y) (ks z)" if "mm_create y = Some (r, z)" for y z
    using that by (auto simp: mm_create_def set_mm_count_def upd_mm_def upd_vlinks_def bind_eq_Some_conv Let_def sys_kept
      split: option.splits intro!: quiet_sem)
  with a have "quiet_fs s t" by (auto simp: on_sys_def quiet_fs_def bind_eq_Some_conv)
  from quiet_K [OF this K] show "K p k t" .
qed

lemma put_kstack_K [fork_ops]: "put_kstack a s = Some t \<Longrightarrow> K p k s \<Longrightarrow> K p k t"
  by (auto simp: put_kstack_def bind_eq_Some_conv elim!: fork_ops)

lemma put_pgdir_K [fork_ops]: "put_pgdir a s = Some t \<Longrightarrow> K p k s \<Longrightarrow> K p k t"
  by (auto simp: put_pgdir_def bind_eq_Some_conv elim!: fork_ops)

lemma release_mm_K [fork_ops]: "release_mm a s = Some t \<Longrightarrow> K p k s \<Longrightarrow> K p k t"
  by (auto simp: release_mm_def mm_count_dec_def upd_mm_def bind_eq_Some_conv Let_def split: if_splits
      elim!: fork_ops intro!: sy_K)

text \<open>The steps that may change the new descriptor.\<close>

lemma setup_kstack_K [fork_ops]:
  "setup_kstack p s = Some (r, t) \<Longrightarrow> K p k s \<Longrightarrow> K p k t"
  by (auto simp: setup_kstack_def bind_eq_Some_conv split: option.splits elim!: fork_ops intro!: set_proc_K)

lemma setup_kstack_result: "setup_kstack p s = Some (r, t) \<Longrightarrow> r = 0 \<or> r = - E_NO_MEM"
  by (auto simp: setup_kstack_def bind_eq_Some_conv split: option.splits)

lemma setup_pgdir_K [fork_ops]: "setup_pgdir ki mp s = Some (r, t) \<Longrightarrow> K p k s \<Longrightarrow> K p k t"
  by (auto simp: setup_pgdir_def upd_mm_def bind_eq_Some_conv split: option.splits elim!: fork_ops intro!: sy_K)

lemma share_mm_K: "K p k s \<Longrightarrow> K p k (share_mm mp p s)"
  by (auto simp: share_mm_def mm_count_inc_def upd_mm_def Let_def intro!: set_proc_K sy_K upd_files_K)

lemma share_files_K: "K p k s \<Longrightarrow> K p k (share_files fp p s)"
  by (auto simp: share_files_def files_count_inc_def Let_def intro!: set_proc_K upd_files_K)

lemma dup_mmap_result: "dup_mmap to from y = Some (r, z) \<Longrightarrow> r = 0 \<or> r = - E_NO_MEM"
proof -
  assume a: "dup_mmap to from y = Some (r, z)"
  have "prod.fst r = 0 \<or> prod.fst r = - E_NO_MEM" if "dup_mmap_loop a l e d y = Some r" for a l e d y r
    apply (rule dup_mmap_loop.raw_induct [where P = "\<lambda>a l e d y r. prod.fst r = 0 \<or> prod.fst r = - E_NO_MEM", OF _ that])
    subgoal premises prems for f a l e d y r
      using prems(2) by (auto simp: bind_eq_Some_conv Let_def split: if_splits option.splits dest!: prems(1))
    done
  from this a show ?thesis unfolding dup_mmap_def by (fastforce simp: bind_eq_Some_conv)
qed

lemma copy_mm_K [fork_ops]:
  "copy_mm ki cf p s = Some (r, t) \<Longrightarrow> K p k s \<Longrightarrow> K p k t"
  by (auto simp: copy_mm_def bind_eq_Some_conv split: option.splits if_splits elim!: fork_ops intro!: share_mm_K)

lemma copy_mm_result: "copy_mm ki cf p s = Some (r, t) \<Longrightarrow> r = 0 \<or> r = - E_NO_MEM"
  by (auto simp: copy_mm_def on_sys_def bind_eq_Some_conv split: option.splits if_splits dest: dup_mmap_result)

lemma copy_files_K [fork_ops]:
  "copy_files cf p s = Some (r, t) \<Longrightarrow> K p k s \<Longrightarrow> K p k t"
  by (auto simp: copy_files_def bind_eq_Some_conv split: option.splits if_splits elim!: fork_ops intro!: share_files_K)

lemma copy_files_result: "copy_files cf p s = Some (r, t) \<Longrightarrow> r = 0 \<or> r = - E_NO_MEM"
  by (auto simp: copy_files_def dup_files_def bind_eq_Some_conv Let_def split: option.splits if_splits)

lemma fork_cleanup_K [fork_ops]: "fork_cleanup_fs p s = Some t \<Longrightarrow> K p k s \<Longrightarrow> K p k t"
  by (auto simp: fork_cleanup_fs_def put_files_def bind_eq_Some_conv split: option.splits if_splits prod.splits
      elim!: fork_ops intro!: set_proc_K)

lemma fork_steps_outcome:
  assumes "fork_steps ki cls cf stack tfp p s = Some (r, t)" "K p k s"
  shows "r = - E_NO_MEM \<and> K p k t \<or> (\<exists>u. fork_publish ki cls p stack tfp u = Some (r, t) \<and> K p k u)"
proof -
  from assms(1) obtain r1 s1 where 1: "setup_kstack p s = Some (r1, s1)" by (auto simp: fork_steps_def bind_eq_Some_conv)
  with assms(2) have K1: "K p k s1" by (auto elim: fork_ops)
  show ?thesis
  proof (cases "r1 = 0")
    case False
    with 1 assms(1) K1 setup_kstack_result [OF 1] show ?thesis
      by (auto simp: fork_steps_def bind_eq_Some_conv elim!: fork_ops)
  next
    case True
    with 1 assms(1) obtain r2 s2 where 2: "copy_mm ki cf p s1 = Some (r2, s2)"
      by (auto simp: fork_steps_def bind_eq_Some_conv)
    with K1 have K2: "K p k s2" by (auto elim: fork_ops)
    show ?thesis
    proof (cases "r2 = 0")
      case False
      with 1 2 True assms(1) K2 copy_mm_result [OF 2] show ?thesis
        by (auto simp: fork_steps_def bind_eq_Some_conv elim!: fork_ops)
    next
      case r2: True
      with 1 2 True assms(1) obtain r3 s3 where 3: "copy_files cf p s2 = Some (r3, s3)"
        by (auto simp: fork_steps_def bind_eq_Some_conv)
      with K2 have K3: "K p k s3" by (auto elim: fork_ops)
      show ?thesis
        using 1 2 3 True r2 assms(1) K3 copy_files_result [OF 3]
        by (cases "r3 = 0") (auto simp: fork_steps_def bind_eq_Some_conv elim!: fork_ops)
    qed
  qed
qed


definition demo_full :: fst where
  "demo_full = demo_open\<lparr>sy := (sy demo_open)\<lparr>ks := (ks (sy demo_open))\<lparr>nr_process := MAX_PROCESS\<rparr>\<rparr>\<rparr>"


subsection \<open>The trap frame of the child\<close>

lemma rd64_wr64 [simp]: "rd64 a (wr64 a v m) = v"
proof -
  have "rd32 a (wr64 a v m) = ucast v" "rd32 (a + 4) (wr64 a v m) = ucast (drop_bit 32 v)"
    by (simp_all add: wr64_def rd32_wr32_other)
  then show ?thesis unfolding rd64_def
  proof (intro bit_word_eqI)
    fix n assume "n < LENGTH(64)"
    then show "bit (ucast (rd32 a (wr64 a v m)) OR push_bit 32 (ucast (rd32 (a + 4) (wr64 a v m))) :: 64 word) n = bit v n"
      using \<open>rd32 a (wr64 a v m) = ucast v\<close> \<open>rd32 (a + 4) (wr64 a v m) = ucast (drop_bit 32 v)\<close>
      by (cases "n < 32") (auto simp: bit_simps)
  qed
qed

lemma rd64_cong: "(\<And>i. i < 8 \<Longrightarrow> m (a + i) = m' (b + i)) \<Longrightarrow> rd64 a m = rd64 b m'"
proof -
  assume e: "\<And>i. i < 8 \<Longrightarrow> m (a + i) = m' (b + i)"
  have "rd32 a m = rd32 b m'" by (rule rd32_cong) (simp add: e)
  moreover have "rd32 (a + 4) m = rd32 (b + 4) m'"
    by (rule rd32_cong) (use e [of "4 + i" for i] in \<open>simp add: add.assoc\<close>)
  ultimately show ?thesis by (simp add: rd64_def)
qed

lemma wr64_other: "b < a \<or> a + 8 \<le> b \<Longrightarrow> wr64 a v m b = m b"
  by (auto simp: wr64_def wr32_other)

lemma rd64_wr64_other: "b + 8 \<le> a \<or> a + 8 \<le> b \<Longrightarrow> rd64 b (wr64 a v m) = rd64 b m"
  by (rule rd64_cong) (auto intro!: wr64_other)

text \<open>
  C39: what the child sees. When fork publishes the child, the trap frame at the top of its kernel stack is that of the
  parent, register by register, except that \<open>a0\<close>, the result of fork, is 0 and \<open>sp\<close> is the stack the caller asked for, or the
  frame itself for a kernel thread; no other byte of memory is touched.
\<close>

theorem child_trap_frame:
  assumes pub: "fork_publish ki cls p stack tfp u = Some (r, t)"
    and new: "new = kstack (the_proc p u) + KSTACKSIZE - SIZEOF_TF"
    and apart: "tfp + SIZEOF_TF \<le> new \<or> new + SIZEOF_TF \<le> tfp"
  shows "rd64 (tf_a new 0) (mem t) = 0 \<and> rd64 (tf_sp new) (mem t) = word_of_nat (if stack = 0 then new else stack) \<and>
    (\<forall>k<36. k \<noteq> 2 \<and> k \<noteq> 10 \<longrightarrow> rd64 (tf_gpr new k) (mem t) = rd64 (tf_gpr tfp k) (mem u)) \<and>
    (\<forall>a. a < new \<or> new + SIZEOF_TF \<le> a \<longrightarrow> mem t a = mem u a)"
proof -
  let ?c = "block_copy new tfp SIZEOF_TF (mem u)" and ?v = "word_of_nat (if stack = 0 then new else stack)"
  have copy: "snd (memcpy new tfp SIZEOF_TF m) = block_copy new tfp SIZEOF_TF m" for m
    using apart by (auto simp: memcpy_def SIZEOF_TF_def intro!: copy_up_block)
  have keep [simp]: "mem (upd_ks f s) = mem s" "mem (set_proc q g s) = mem s" for f s q g
    by (simp_all add: mem_def upd_ks_def set_proc_def)
  have keep' [simp]: "in_ks f s = Some (v, s') \<Longrightarrow> mem s' = mem s" "in_ks' h s = Some s' \<Longrightarrow> mem s' = mem s" for f h s v s'
    by (auto simp: in_ks_def in_ks'_def bind_eq_Some_conv)
  have "mem t = mem (copy_thread ki p stack tfp u)"
    using pub by (auto simp: fork_publish_def Let_def bind_eq_Some_conv)
  also have "\<dots> = wr64 (tf_sp new) ?v (wr64 (tf_a new 0) 0 ?c)"
    unfolding copy_thread_def Let_def new [symmetric] by (simp add: copy mem_def upd_mem_def set_proc_def upd_ks_def)
  finally have m: "mem t = wr64 (tf_sp new) ?v (wr64 (tf_a new 0) 0 ?c)" .
  have "rd64 (tf_gpr new k) (mem t) = rd64 (tf_gpr tfp k) (mem u)" if k: "k < 36" "k \<noteq> 2" "k \<noteq> 10" for k
  proof -
    have "8 * k + 8 \<le> 16 \<or> 24 \<le> 8 * k" "8 * k + 8 \<le> 80 \<or> 88 \<le> 8 * k" using k by linarith+
    then have "new + 8 * k + 8 \<le> new + 16 \<or> new + 16 + 8 \<le> new + 8 * k"
      "new + 8 * k + 8 \<le> new + 80 \<or> new + 80 + 8 \<le> new + 8 * k" by linarith+
    then have "rd64 (tf_gpr new k) (mem t) = rd64 (tf_gpr new k) ?c" unfolding m
      by (simp add: tf_sp_def tf_a_def tf_gpr_def rd64_wr64_other)
    also have "\<dots> = rd64 (tf_gpr tfp k) (mem u)"
      using k by (intro rd64_cong) (auto simp: block_copy_def tf_gpr_def SIZEOF_TF_def add.assoc)
    finally show ?thesis .
  qed
  moreover have "mem t a = mem u a" if "a < new \<or> new + SIZEOF_TF \<le> a" for a
    using that by (auto simp: m tf_sp_def tf_a_def tf_gpr_def SIZEOF_TF_def wr64_other block_copy_def)
  ultimately show ?thesis by (simp add: m rd64_wr64_other tf_sp_def tf_a_def tf_gpr_def)
qed

text \<open>Process 7 is the new child of process 0; its kernel stack is at 8192, the frame of the parent at 20000.\<close>

definition demo_child :: fst where
  "demo_child = upd_mem (wr64 (tf_gpr 20000 12) 99) (demo_open\<lparr>sy := (sy demo_open)\<lparr>ks := demo_kst\<lparr>procs := (\<lambda>p. if p = 7
     then demo_proc\<lparr>state := PROC_UNINIT, parent := Some 0, kstack := 8192\<rparr> else demo_proc)\<rparr>\<rparr>\<rparr>)"

lemma set_links_runs:
  assumes "parent (procs k p) = Some q"
  shows "\<exists>k'. set_links p k = Some k' \<and> state (procs k' p) = state (procs k p) \<and> pid (procs k' p) = pid (procs k p) \<and>
    list_empty (Run_link p) (klinks k') = list_empty (Run_link p) (klinks k)"
  using assms by (simp add: set_links_def upd_proc_def upd_klinks_def list_add_def list_add_after_def priv_list_add_def list_empty_def
      list_next_def set_nxt_def set_prv_def Let_def split: option.splits)

lemma wakeup_new_runs:
  assumes "state (procs k p) = PROC_UNINIT" "list_empty (Run_link p) (klinks k)"
  shows "\<exists>k'. wakeup_proc default_sched_class p k = Some k' \<and> pid (procs k' p) = pid (procs k p)"
  using assms by (simp add: wakeup_proc_def sched_class_enqueue_def default_sched_class_def RR_enqueue_def upd_proc_def
      upd_klinks_def upd_rq_def Let_def)

lemma copy_thread_ks:
  "\<exists>f c. ks (sy (copy_thread ki p sp tfp s)) = upd_proc p (\<lambda>d. d\<lparr>tf := f, ctx := c d\<rparr>) (ks (sy s))"
  by (rule exI [of _ "Some (kstack (the_proc p s) + KSTACKSIZE - SIZEOF_TF)"], rule exI [of _ "\<lambda>d. (ctx d)\<lparr>ctx_ra := forkret ki,
      ctx_sp := kstack (the_proc p s) + KSTACKSIZE - SIZEOF_TF\<rparr>"])
    (simp add: copy_thread_def Let_def set_proc_def upd_ks_def upd_mem_def upd_proc_def)

lemma demo_publish: "\<exists>t. fork_publish ki default_sched_class 7 5000 20000 demo_child = Some (2, t)"
proof -
  let ?c = "copy_thread ki 7 5000 20000 demo_child"
  obtain f c where "ks (sy ?c) = upd_proc 7 (\<lambda>d. d\<lparr>tf := f, ctx := c d\<rparr>) (ks (sy demo_child))"
    using copy_thread_ks by blast
  then have k: "current (ks (sy ?c)) = Some 0" "last_pid (ks (sy ?c)) = 1" "next_safe (ks (sy ?c)) = MAX_PID"
    "parent (procs (ks (sy ?c)) 7) = Some 0" "state (procs (ks (sy ?c)) 7) = PROC_UNINIT"
    "nxt (klinks (ks (sy ?c))) (Run_link 7) = Run_link 7"
    by (simp_all add: demo_child_def demo_open_def upd_mem_def upd_proc_def demo_kst_def)
  then have get: "get_pid (ks (sy ?c)) = Some (2, (ks (sy ?c))\<lparr>last_pid := 2\<rparr>)"
    by (simp add: get_pid_def MAX_PID_def MAX_PROCESS_def)
  let ?s1 = "set_proc 7 (\<lambda>d. d\<lparr>pid := 2\<rparr>) (upd_ks (\<lambda>_. (ks (sy ?c))\<lparr>last_pid := 2\<rparr>) ?c)"
  let ?s2 = "upd_ks (hash_proc 7) (upd_ks (set_proc_name 7 (pname (the_proc 0 ?s1))) ?s1)"
  have s1: "current_proc ?s1 = Some 0" using k by (simp add: current_proc_def set_proc_def upd_ks_def upd_proc_def)
  have s2: "parent (procs (ks (sy ?s2)) 7) = Some 0" "state (procs (ks (sy ?s2)) 7) = PROC_UNINIT"
    "pid (procs (ks (sy ?s2)) 7) = 2" "list_empty (Run_link 7) (klinks (ks (sy ?s2)))"
    using k by (simp_all add: set_proc_def upd_ks_def upd_proc_def hash_proc_def set_proc_name_def upd_klinks_def
      list_add_def list_add_after_def priv_list_add_def list_empty_def list_next_def set_nxt_def set_prv_def)
  obtain k3 where k3: "set_links 7 (ks (sy ?s2)) = Some k3" "state (procs k3 7) = PROC_UNINIT" "pid (procs k3 7) = 2"
    "list_empty (Run_link 7) (klinks k3)" using set_links_runs [OF s2(1)] s2 by auto
  obtain k4 where k4: "wakeup_proc default_sched_class 7 k3 = Some k4" "pid (procs k4 7) = 2"
    using wakeup_new_runs [OF k3(2,4)] k3(3) by auto
  show ?thesis unfolding fork_publish_def Let_def
    by (simp only: in_ks_def get bind.bind_lunit prod.case s1 in_ks'_def k3(1))
      (use k4 in \<open>simp add: upd_ks_def the_proc_def\<close>)
qed

theorem child_trap_frame_witness:
  "\<forall>ki. \<exists>t. fork_publish ki default_sched_class 7 5000 20000 demo_child = Some (2, t) \<and>
     rd64 (tf_a 16096 0) (mem t) = 0 \<and> rd64 (tf_sp 16096) (mem t) = 5000 \<and> rd64 (tf_gpr 16096 12) (mem t) = 99"
proof
  fix ki
  obtain t where t: "fork_publish ki default_sched_class 7 5000 20000 demo_child = Some (2, t)" using demo_publish by blast
  have n: "16096 = kstack (the_proc 7 demo_child) + KSTACKSIZE - SIZEOF_TF" and a: "20000 + SIZEOF_TF \<le> 16096 \<or> 16096 + SIZEOF_TF \<le> (20000::nat)"
    by (simp_all add: demo_child_def demo_open_def the_proc_def upd_mem_def KSTACKSIZE_def KSTACKPAGE_def PGSIZE_def SIZEOF_TF_def)
  have "rd64 (tf_gpr 20000 12) (mem demo_child) = 99" by (simp add: demo_child_def upd_mem_def mem_def)
  with child_trap_frame [OF t n a] t show "\<exists>t. fork_publish ki default_sched_class 7 5000 20000 demo_child = Some (2, t) \<and>
     rd64 (tf_a 16096 0) (mem t) = 0 \<and> rd64 (tf_sp 16096) (mem t) = 5000 \<and> rd64 (tf_gpr 16096 12) (mem t) = 99"
    by auto
qed

end
