(* ===== verification/Monitor.thy ===== *)
theory Monitor
  imports Vmm
begin

section \<open>Monitors and the dining philosophers (kern/sync/monitor.c, kern/sync/check_sync.c)\<close>

text \<open>
  Condition variables over semaphores. The \<open>monitor_t\<close> and the \<open>condvar_t\<close> are at their addresses; the semaphores inside
  are named by their addresses. A function that calls \<open>down\<close> is split there: its result is \<open>Inl\<close> when it has returned
  and \<open>Inr\<close> when the caller sleeps inside, and a second function, named \<open>resume\<close>, goes on when the caller runs again.
  The kernel is not preempted (\<open>trap\<close> calls \<open>schedule\<close> only on the way back to user mode), so nothing else runs between
  two such points. \<open>w\<close> is the address of the \<open>wait_t\<close> of a \<open>down\<close>. The messages of \<open>cprintf\<close> are left out.
\<close>

subsection \<open>State\<close>

record condvar =
  cv_count :: int
  cv_owner :: nat

record monitor =
  next_count :: int
  mon_cv :: "nat option"

datatype phi_state = THINKING | HUNGRY | EATING

record monst =
  msys :: sys
  monitors :: "nat \<Rightarrow> monitor"
  condvars :: "nat \<Rightarrow> condvar"
  state_condvar :: "nat \<Rightarrow> phi_state"
  state_sema :: "nat \<Rightarrow> phi_state"

definition SIZEOF_CONDVAR :: nat where "SIZEOF_CONDVAR = 40"
definition mon_mutex :: "nat \<Rightarrow> nat" where "mon_mutex mtp = mtp"
definition mon_next :: "nat \<Rightarrow> nat" where "mon_next mtp = mtp + 24"
definition cv_sem :: "nat \<Rightarrow> nat" where "cv_sem cvp = cvp"
definition cv_at :: "nat \<Rightarrow> nat \<Rightarrow> nat" where "cv_at cvs i = cvs + SIZEOF_CONDVAR * i"

definition upd_monitor :: "nat \<Rightarrow> (monitor \<Rightarrow> monitor) \<Rightarrow> monst \<Rightarrow> monst" where
  "upd_monitor a f s = s\<lparr>monitors := (monitors s)(a := f (monitors s a))\<rparr>"

definition upd_condvar :: "nat \<Rightarrow> (condvar \<Rightarrow> condvar) \<Rightarrow> monst \<Rightarrow> monst" where
  "upd_condvar a f s = s\<lparr>condvars := (condvars s)(a := f (condvars s a))\<rparr>"

definition upd_mks :: "(kst \<Rightarrow> kst) \<Rightarrow> monst \<Rightarrow> monst" where
  "upd_mks f s = s\<lparr>msys := (msys s)\<lparr>ks := f (ks (msys s))\<rparr>\<rparr>"

definition mon_up :: "sched_class \<Rightarrow> nat \<Rightarrow> monst \<Rightarrow> monst kresult" where
  "mon_up cls q s = do { k \<leftarrow> up cls q (ks (msys s)); Some (upd_mks (\<lambda>_. k) s) }"

definition mon_down :: "sched_class \<Rightarrow> nat \<Rightarrow> nat \<Rightarrow> monst \<Rightarrow> (monst + monst) kresult" where
  "mon_down cls q w s = do {
     r \<leftarrow> down cls q w (ks (msys s));
     Some (case r of Inl k \<Rightarrow> Inl (upd_mks (\<lambda>_. k) s) | Inr k \<Rightarrow> Inr (upd_mks (\<lambda>_. k) s))
   }"

definition mon_down_finish :: "nat \<Rightarrow> nat \<Rightarrow> monst \<Rightarrow> monst kresult" where
  "mon_down_finish q w s = do { k \<leftarrow> down_finish q w (ks (msys s)); Some (upd_mks (\<lambda>_. k) s) }"

subsection \<open>Monitors (monitor.c)\<close>

definition condvar_init :: "nat \<Rightarrow> nat \<Rightarrow> nat \<Rightarrow> monst \<Rightarrow> monst" where
  "condvar_init mtp cvs i s =
     (let s = upd_condvar (cv_at cvs i) (\<lambda>d. d\<lparr>cv_count := 0\<rparr>) s;
          s = upd_mks (sem_init (cv_sem (cv_at cvs i)) 0) s
      in upd_condvar (cv_at cvs i) (\<lambda>d. d\<lparr>cv_owner := mtp\<rparr>) s)"

definition monitor_init :: "nat \<Rightarrow> nat \<Rightarrow> monst \<Rightarrow> monst kresult" where
  "monitor_init mtp num_cv s = do {
     kassert (num_cv > 0);
     let s = upd_monitor mtp (\<lambda>d. d\<lparr>next_count := 0, mon_cv := None\<rparr>) s;
     let s = upd_mks (sem_init (mon_mutex mtp) 1) s;
     let s = upd_mks (sem_init (mon_next mtp) 0) s;
     (a, y) \<leftarrow> sys_kmalloc (SIZEOF_CONDVAR * num_cv) (msys s);
     let s = upd_monitor mtp (\<lambda>d. d\<lparr>mon_cv := a\<rparr>) (s\<lparr>msys := y\<rparr>);
     cvs \<leftarrow> a;
     Some (fold (condvar_init mtp cvs) [0..<num_cv] s)
   }"

definition monitor_free :: "nat \<Rightarrow> monst \<Rightarrow> monst kresult" where
  "monitor_free mtp s = do { y \<leftarrow> sys_kfree (mon_cv (monitors s mtp)) (msys s); Some (s\<lparr>msys := y\<rparr>) }"

text \<open>Leaving a monitor, in \<open>cond_wait\<close> and at the end of every routine of a monitor.\<close>

definition monitor_leave :: "sched_class \<Rightarrow> nat \<Rightarrow> monst \<Rightarrow> monst kresult" where
  "monitor_leave cls mtp s =
     (if next_count (monitors s mtp) > 0 then mon_up cls (mon_next mtp) s else mon_up cls (mon_mutex mtp) s)"

definition next_count_add :: "int \<Rightarrow> nat \<Rightarrow> monst \<Rightarrow> monst" where
  "next_count_add n mtp = upd_monitor mtp (\<lambda>d. d\<lparr>next_count := next_count d + n\<rparr>)"

definition cv_count_add :: "int \<Rightarrow> nat \<Rightarrow> monst \<Rightarrow> monst" where
  "cv_count_add n cvp = upd_condvar cvp (\<lambda>d. d\<lparr>cv_count := cv_count d + n\<rparr>)"

definition cond_signal :: "sched_class \<Rightarrow> nat \<Rightarrow> nat \<Rightarrow> monst \<Rightarrow> (monst + monst) kresult" where
  "cond_signal cls w cvp s =
     (if cv_count (condvars s cvp) > 0
      then do {
        let mtp = cv_owner (condvars s cvp);
        let s = next_count_add 1 mtp s;
        s \<leftarrow> mon_up cls (cv_sem cvp) s;
        r \<leftarrow> mon_down cls (mon_next mtp) w s;
        Some (case r of Inl s \<Rightarrow> Inl (next_count_add (- 1) mtp s) | Inr s \<Rightarrow> Inr s)
      }
      else Some (Inl s))"

definition cond_signal_resume :: "nat \<Rightarrow> nat \<Rightarrow> monst \<Rightarrow> monst kresult" where
  "cond_signal_resume w cvp s = do {
     let mtp = cv_owner (condvars s cvp);
     s \<leftarrow> mon_down_finish (mon_next mtp) w s;
     Some (next_count_add (- 1) mtp s)
   }"

definition cond_wait :: "sched_class \<Rightarrow> nat \<Rightarrow> nat \<Rightarrow> monst \<Rightarrow> (monst + monst) kresult" where
  "cond_wait cls w cvp s = do {
     let s = cv_count_add 1 cvp s;
     s \<leftarrow> monitor_leave cls (cv_owner (condvars s cvp)) s;
     r \<leftarrow> mon_down cls (cv_sem cvp) w s;
     Some (case r of Inl s \<Rightarrow> Inl (cv_count_add (- 1) cvp s) | Inr s \<Rightarrow> Inr s)
   }"

definition cond_wait_resume :: "nat \<Rightarrow> nat \<Rightarrow> monst \<Rightarrow> monst kresult" where
  "cond_wait_resume w cvp s = do {
     s \<leftarrow> mon_down_finish (cv_sem cvp) w s;
     Some (cv_count_add (- 1) cvp s)
   }"

subsection \<open>Philosophers with a monitor (check_sync.c)\<close>

definition N_phi :: nat where "N_phi = 5"
definition LEFT :: "nat \<Rightarrow> nat" where "LEFT i = (i + N_phi - 1) mod N_phi"
definition RIGHT :: "nat \<Rightarrow> nat" where "RIGHT i = (i + 1) mod N_phi"

text \<open>Where a philosopher sleeps: in \<open>down\<close> of the mutex, in \<open>cond_signal\<close> or in \<open>cond_wait\<close>.\<close>

datatype phi_point = Take_mutex | Take_signal | Take_wait | Put_mutex | Put_left | Put_right

definition set_phi :: "nat \<Rightarrow> phi_state \<Rightarrow> monst \<Rightarrow> monst" where
  "set_phi i v s = s\<lparr>state_condvar := (state_condvar s)(i := v)\<rparr>"

definition phi_can_eat :: "nat \<Rightarrow> monst \<Rightarrow> bool" where
  "phi_can_eat i s \<longleftrightarrow> state_condvar s i = HUNGRY \<and> state_condvar s (LEFT i) \<noteq> EATING \<and> state_condvar s (RIGHT i) \<noteq> EATING"

definition phi_cv :: "nat \<Rightarrow> nat \<Rightarrow> monst \<Rightarrow> nat kresult" where
  "phi_cv mtp i s = do { cvs \<leftarrow> mon_cv (monitors s mtp); Some (cv_at cvs i) }"

definition phi_test_condvar :: "sched_class \<Rightarrow> nat \<Rightarrow> nat \<Rightarrow> nat \<Rightarrow> monst \<Rightarrow> (monst + monst) kresult" where
  "phi_test_condvar cls mtp w i s =
     (if phi_can_eat i s
      then do {
        let s = set_phi i EATING s;
        cvp \<leftarrow> phi_cv mtp i s;
        cond_signal cls w cvp s
      }
      else Some (Inl s))"

type_synonym phi_result = "(monst + phi_point \<times> monst) kresult"

definition phi_leave :: "sched_class \<Rightarrow> nat \<Rightarrow> monst \<Rightarrow> phi_result" where
  "phi_leave cls mtp s = do { s \<leftarrow> monitor_leave cls mtp s; Some (Inl s) }"

definition phi_then :: "(monst + monst) kresult \<Rightarrow> phi_point \<Rightarrow> (monst \<Rightarrow> phi_result) \<Rightarrow> phi_result" where
  "phi_then r pt f = do { r \<leftarrow> r; (case r of Inl s \<Rightarrow> f s | Inr s \<Rightarrow> Some (Inr (pt, s))) }"

definition take_tested :: "sched_class \<Rightarrow> nat \<Rightarrow> nat \<Rightarrow> nat \<Rightarrow> monst \<Rightarrow> phi_result" where
  "take_tested cls mtp w i s =
     (if state_condvar s i = HUNGRY
      then do {
        cvp \<leftarrow> phi_cv mtp i s;
        phi_then (cond_wait cls w cvp s) Take_wait (phi_leave cls mtp)
      }
      else phi_leave cls mtp s)"

definition take_entered :: "sched_class \<Rightarrow> nat \<Rightarrow> nat \<Rightarrow> nat \<Rightarrow> monst \<Rightarrow> phi_result" where
  "take_entered cls mtp w i s =
     phi_then (phi_test_condvar cls mtp w i (set_phi i HUNGRY s)) Take_signal (take_tested cls mtp w i)"

definition phi_take_forks_condvar :: "sched_class \<Rightarrow> nat \<Rightarrow> nat \<Rightarrow> nat \<Rightarrow> monst \<Rightarrow> phi_result" where
  "phi_take_forks_condvar cls mtp w i s =
     phi_then (mon_down cls (mon_mutex mtp) w s) Take_mutex (take_entered cls mtp w i)"

definition put_left_tested :: "sched_class \<Rightarrow> nat \<Rightarrow> nat \<Rightarrow> nat \<Rightarrow> monst \<Rightarrow> phi_result" where
  "put_left_tested cls mtp w i s = phi_then (phi_test_condvar cls mtp w (RIGHT i) s) Put_right (phi_leave cls mtp)"

definition put_entered :: "sched_class \<Rightarrow> nat \<Rightarrow> nat \<Rightarrow> nat \<Rightarrow> monst \<Rightarrow> phi_result" where
  "put_entered cls mtp w i s =
     phi_then (phi_test_condvar cls mtp w (LEFT i) (set_phi i THINKING s)) Put_left (put_left_tested cls mtp w i)"

definition phi_put_forks_condvar :: "sched_class \<Rightarrow> nat \<Rightarrow> nat \<Rightarrow> nat \<Rightarrow> monst \<Rightarrow> phi_result" where
  "phi_put_forks_condvar cls mtp w i s =
     phi_then (mon_down cls (mon_mutex mtp) w s) Put_mutex (put_entered cls mtp w i)"

text \<open>Philosopher \<open>i\<close>, asleep at a point with the \<open>wait_t\<close> at \<open>w\<close>, runs again; \<open>w'\<close> is that of its next \<open>down\<close>.\<close>

fun phi_resume :: "sched_class \<Rightarrow> nat \<Rightarrow> phi_point \<Rightarrow> nat \<Rightarrow> nat \<Rightarrow> nat \<Rightarrow> monst \<Rightarrow> phi_result" where
  "phi_resume cls mtp Take_mutex w w' i s = do {
     s \<leftarrow> mon_down_finish (mon_mutex mtp) w s;
     take_entered cls mtp w' i s }"
| "phi_resume cls mtp Take_signal w w' i s = do {
     cvp \<leftarrow> phi_cv mtp i s;
     s \<leftarrow> cond_signal_resume w cvp s;
     take_tested cls mtp w' i s }"
| "phi_resume cls mtp Take_wait w w' i s = do {
     cvp \<leftarrow> phi_cv mtp i s;
     s \<leftarrow> cond_wait_resume w cvp s;
     phi_leave cls mtp s }"
| "phi_resume cls mtp Put_mutex w w' i s = do {
     s \<leftarrow> mon_down_finish (mon_mutex mtp) w s;
     put_entered cls mtp w' i s }"
| "phi_resume cls mtp Put_left w w' i s = do {
     cvp \<leftarrow> phi_cv mtp (LEFT i) s;
     s \<leftarrow> cond_signal_resume w cvp s;
     put_left_tested cls mtp w' i s }"
| "phi_resume cls mtp Put_right w w' i s = do {
     cvp \<leftarrow> phi_cv mtp (RIGHT i) s;
     s \<leftarrow> cond_signal_resume w cvp s;
     phi_leave cls mtp s }"

subsection \<open>Philosophers with semaphores (check_sync.c)\<close>

text \<open>\<open>mutex\<close> and \<open>ss i\<close> are the addresses of the semaphores. A \<open>take\<close> sleeps in \<open>down\<close> of the mutex or of its own semaphore.\<close>

datatype sema_point = Sema_mutex | Sema_self

definition phi_test_sema :: "sched_class \<Rightarrow> (nat \<Rightarrow> nat) \<Rightarrow> nat \<Rightarrow> monst \<Rightarrow> monst kresult" where
  "phi_test_sema cls ss i s =
     (if state_sema s i = HUNGRY \<and> state_sema s (LEFT i) \<noteq> EATING \<and> state_sema s (RIGHT i) \<noteq> EATING
      then mon_up cls (ss i) (s\<lparr>state_sema := (state_sema s)(i := EATING)\<rparr>)
      else Some s)"

definition take_sema_entered ::
    "sched_class \<Rightarrow> nat \<Rightarrow> (nat \<Rightarrow> nat) \<Rightarrow> nat \<Rightarrow> nat \<Rightarrow> monst \<Rightarrow> (monst + sema_point \<times> monst) kresult" where
  "take_sema_entered cls mutex ss w i s = do {
     let s = s\<lparr>state_sema := (state_sema s)(i := HUNGRY)\<rparr>;
     s \<leftarrow> phi_test_sema cls ss i s;
     s \<leftarrow> mon_up cls mutex s;
     r \<leftarrow> mon_down cls (ss i) w s;
     Some (case r of Inl s \<Rightarrow> Inl s | Inr s \<Rightarrow> Inr (Sema_self, s))
   }"

definition phi_take_forks_sema ::
    "sched_class \<Rightarrow> nat \<Rightarrow> (nat \<Rightarrow> nat) \<Rightarrow> nat \<Rightarrow> nat \<Rightarrow> monst \<Rightarrow> (monst + sema_point \<times> monst) kresult" where
  "phi_take_forks_sema cls mutex ss w i s = do {
     r \<leftarrow> mon_down cls mutex w s;
     (case r of Inl s \<Rightarrow> take_sema_entered cls mutex ss w i s | Inr s \<Rightarrow> Some (Inr (Sema_mutex, s)))
   }"

definition put_sema_entered :: "sched_class \<Rightarrow> nat \<Rightarrow> (nat \<Rightarrow> nat) \<Rightarrow> nat \<Rightarrow> monst \<Rightarrow> monst kresult" where
  "put_sema_entered cls mutex ss i s = do {
     let s = s\<lparr>state_sema := (state_sema s)(i := THINKING)\<rparr>;
     s \<leftarrow> phi_test_sema cls ss (LEFT i) s;
     s \<leftarrow> phi_test_sema cls ss (RIGHT i) s;
     mon_up cls mutex s
   }"

definition phi_put_forks_sema ::
    "sched_class \<Rightarrow> nat \<Rightarrow> (nat \<Rightarrow> nat) \<Rightarrow> nat \<Rightarrow> nat \<Rightarrow> monst \<Rightarrow> (monst + monst) kresult" where
  "phi_put_forks_sema cls mutex ss w i s = do {
     r \<leftarrow> mon_down cls mutex w s;
     (case r of Inl s \<Rightarrow> do { s \<leftarrow> put_sema_entered cls mutex ss i s; Some (Inl s) } | Inr s \<Rightarrow> Some (Inr s))
   }"

end
