(* ===== verification/Sem_Set.thy ===== *)
theory Sem_Set
  imports Sync
begin

section \<open>Several semaphores used by the same processes\<close>

text \<open>
  \<open>Sync\<close> treats one semaphore. Here the processes \<open>who i\<close>, \<open>i \<in> I\<close>, use the semaphores in \<open>Q\<close>: \<open>B i\<close> gives the
  semaphore and the \<open>wait_t\<close> of the \<open>down\<close> in which process \<open>i\<close> sleeps, \<open>wsf q\<close> the waits queued at \<open>q\<close>. The invariant
  \<open>sems_inv\<close> says that every queue is well formed and holds waits of its own sleepers only, and that a sleeper no
  longer queued has been granted its semaphore and is runnable.
\<close>

definition sleeper :: "nat set \<Rightarrow> (nat \<Rightarrow> nat) \<Rightarrow> (nat \<Rightarrow> (nat \<times> nat) option) \<Rightarrow> kst \<Rightarrow> nat \<Rightarrow> nat \<Rightarrow> bool" where
  "sleeper I who B s q w \<longleftrightarrow> (\<exists>i\<in>I. B i = Some (q, w) \<and> wproc (waits s w) = Some (who i))"

definition queued :: "(nat \<Rightarrow> (nat \<times> nat) option) \<Rightarrow> (nat \<Rightarrow> nat list) \<Rightarrow> nat \<Rightarrow> bool" where
  "queued B wsf i \<longleftrightarrow> (\<exists>q w. B i = Some (q, w) \<and> w \<in> set (wsf q))"

definition free_wait :: "kst \<Rightarrow> nat \<Rightarrow> bool" where
  "free_wait s w \<longleftrightarrow> dlist (klinks s) (Wait_link w) [] \<and> wakeup_flags (waits s w) = WT_KSEM"

definition sleepers_ok :: "nat set \<Rightarrow> nat set \<Rightarrow> (nat \<Rightarrow> nat) \<Rightarrow> (nat \<Rightarrow> (nat \<times> nat) option) \<Rightarrow> bool" where
  "sleepers_ok Q I who B \<longleftrightarrow> inj_on who I \<and>
     (\<forall>i\<in>I. \<forall>q w. B i = Some (q, w) \<longrightarrow> q \<in> Q \<and> (\<forall>j\<in>I. \<forall>r. B j = Some (r, w) \<longrightarrow> i = j))"

definition sems_inv :: "(kst \<Rightarrow> nat set \<Rightarrow> bool) \<Rightarrow> (nat \<Rightarrow> kst \<Rightarrow> bool) \<Rightarrow> nat set \<Rightarrow> nat set \<Rightarrow> nat set \<Rightarrow>
    (nat \<Rightarrow> nat) \<Rightarrow> (nat \<Rightarrow> (nat \<times> nat) option) \<Rightarrow> (nat \<Rightarrow> nat list) \<Rightarrow> kst \<Rightarrow> bool" where
  "sems_inv ready detached A Q I who B wsf s \<longleftrightarrow>
     sched_inv ready detached A s \<and> sleepers_ok Q I who B \<and>
     (\<forall>c. current s = Some c \<longrightarrow> state (procs s c) = PROC_RUNNABLE) \<and>
     (\<forall>q\<in>Q. sem_inv A s q (wsf q) \<and> (\<forall>w\<in>set (wsf q). sleeper I who B s q w)) \<and>
     (\<forall>i\<in>I. \<not> queued B wsf i \<longrightarrow> state (procs s (who i)) = PROC_RUNNABLE \<and> (\<forall>q w. B i = Some (q, w) \<longrightarrow> free_wait s w))"

lemma sems_invD:
  assumes "sems_inv ready detached A Q I who B wsf s"
  shows "sched_inv ready detached A s" "sleepers_ok Q I who B"
    "current s = Some c \<Longrightarrow> state (procs s c) = PROC_RUNNABLE"
    "q \<in> Q \<Longrightarrow> sem_inv A s q (wsf q)" "q \<in> Q \<Longrightarrow> w \<in> set (wsf q) \<Longrightarrow> sleeper I who B s q w"
    "i \<in> I \<Longrightarrow> \<not> queued B wsf i \<Longrightarrow> state (procs s (who i)) = PROC_RUNNABLE"
    "i \<in> I \<Longrightarrow> \<not> queued B wsf i \<Longrightarrow> B i = Some (q, w) \<Longrightarrow> free_wait s w"
  using assms by (auto simp: sems_inv_def)

lemma sleepers_okD:
  assumes "sleepers_ok Q I who B"
  shows "i \<in> I \<Longrightarrow> j \<in> I \<Longrightarrow> who i = who j \<Longrightarrow> i = j" "i \<in> I \<Longrightarrow> B i = Some (q, w) \<Longrightarrow> q \<in> Q"
    "i \<in> I \<Longrightarrow> j \<in> I \<Longrightarrow> B i = Some (q, w) \<Longrightarrow> B j = Some (r, w) \<Longrightarrow> i = j"
  using assms by (auto simp: sleepers_ok_def dest: inj_onD)

text \<open>A wait belongs to one queue.\<close>

lemma queue_of_wait:
  assumes "sems_inv ready detached A Q I who B wsf s" "q \<in> Q" "r \<in> Q" "w \<in> set (wsf q)" "w \<in> set (wsf r)"
  shows "q = r"
  using sems_invD(5) [OF assms(1,2,4)] sems_invD(5) [OF assms(1,3,5)] sleepers_okD(3) [OF sems_invD(2) [OF assms(1)]]
  unfolding sleeper_def by (metis prod.inject option.inject)

text \<open>How \<open>queued\<close> changes when the first of a queue is woken, when a process falls asleep and when it returns.\<close>

lemma queued_wake:
  assumes r: "sems_inv ready detached A Q I who B wsf s" and q: "q \<in> Q" "wsf q \<noteq> []"
  obtains j w where "j \<in> I" "B j = Some (q, w)" "w \<in> set (wsf q)"
    "\<And>i. i \<in> I \<Longrightarrow> queued B (wsf(q := tl (wsf q))) i \<longleftrightarrow> queued B wsf i \<and> i \<noteq> j"
proof -
  obtain w ws where ws: "wsf q = w # ws" using q(2) by (cases "wsf q") auto
  obtain j where j: "j \<in> I" "B j = Some (q, w)" using sems_invD(5) [OF r q(1), of w] ws by (auto simp: sleeper_def)
  have d: "w \<notin> set ws" using sem_inv_distinct [OF sems_invD(4) [OF r q(1)]] ws by simp
  have "queued B (wsf(q := tl (wsf q))) i \<longleftrightarrow> queued B wsf i \<and> i \<noteq> j" if "i \<in> I" for i
  proof (cases "B i")
    case (Some a)
    then obtain p v where "B i = Some (p, v)" by (cases a) auto
    then show ?thesis
      using sleepers_okD(3) [OF sems_invD(2) [OF r] that j(1) _ j(2), of p] j d ws by (auto simp: queued_def)
  qed (simp add: queued_def)
  then show thesis using that j ws by simp
qed

lemma queued_block:
  assumes "\<And>j p. j \<in> I \<Longrightarrow> B j \<noteq> Some (p, w)" "j \<in> I"
  shows "queued (B(i := Some (q, w))) (wsf(q := wsf q @ [w])) j \<longleftrightarrow> j = i \<or> queued B wsf j"
  using assms by (auto simp: queued_def split: if_splits)

lemma queued_finish: "queued (B(i := None)) wsf j \<longleftrightarrow> j \<noteq> i \<and> queued B wsf j"
  by (auto simp: queued_def)

lemma sem_inv_frame:
  assumes "sem_inv A s q ws" and "wait_list_is t q ws" and "sem_value t q = sem_value s q"
    and "\<And>w. w \<in> set ws \<Longrightarrow> waits t w = waits s w"
    and "\<And>w p. w \<in> set ws \<Longrightarrow> wproc (waits s w) = Some p \<Longrightarrow>
      state (procs t p) = state (procs s p) \<and> wait_state (procs t p) = wait_state (procs s p)"
  shows "sem_inv A t q ws"
proof -
  have eq: "map (\<lambda>w. wproc (waits t w)) ws = map (\<lambda>w. wproc (waits s w)) ws" using assms(4) by simp
  have "waiter t q w A" if "w \<in> set ws" for w
    using assms(1) that assms(4,5) [OF that] by (auto simp: sem_inv_def waiter_def)
  then show ?thesis using assms(1-3) unfolding sem_inv_def eq by simp
qed

text \<open>What an operation at \<open>q\<close> may touch, seen from another semaphore.\<close>

definition frame_at :: "nat \<Rightarrow> nat set \<Rightarrow> kst \<Rightarrow> kst \<Rightarrow> bool" where
  "frame_at q W s t \<longleftrightarrow>
     (\<forall>d zs. foreign (d # zs) \<longrightarrow> away q W (d # zs) \<longrightarrow> dlist (klinks s) d zs \<longrightarrow> dlist (klinks t) d zs)"

lemma frame_queue:
  "frame_at q W s t \<Longrightarrow> wait_list_is s r ws \<Longrightarrow> r \<noteq> q \<Longrightarrow> set ws \<inter> W = {} \<Longrightarrow> wait_list_is t r ws"
  unfolding frame_at_def wait_list_is_def
  by (erule allE, erule allE, erule impE, rule foreign_wait) (auto simp: away_def)

lemma frame_free:
  "frame_at q W s t \<Longrightarrow> free_wait s w \<Longrightarrow> w \<notin> W \<Longrightarrow> waits t w = waits s w \<Longrightarrow> free_wait t w"
  unfolding frame_at_def free_wait_def
  by (erule allE [of _ "Wait_link w"], erule allE [of _ "[]"]) (auto simp: away_def)

context sched_class
begin

abbreviation minv :: "nat set \<Rightarrow> nat set \<Rightarrow> nat set \<Rightarrow> (nat \<Rightarrow> nat) \<Rightarrow> (nat \<Rightarrow> (nat \<times> nat) option) \<Rightarrow>
    (nat \<Rightarrow> nat list) \<Rightarrow> kst \<Rightarrow> bool" where
  "minv \<equiv> sems_inv ready detached"

lemma minv_pass:
  assumes r: "minv A Q I who B wsf s" and q: "q \<in> Q" "sem_value s q > 0"
  shows "down cls q w s = Some (Inl (set_sem q (sem_value s q - 1) s))"
    "minv A Q I who B wsf (set_sem q (sem_value s q - 1) s)"
proof -
  note d = down_passes [OF sems_invD(1) [OF r] sems_invD(4) [OF r q(1)] q(2)]
  show "down cls q w s = Some (Inl (set_sem q (sem_value s q - 1) s))" by (rule d)
  let ?t = "set_sem q (sem_value s q - 1) s"
  have "sem_inv A ?t p (wsf p)" if "p \<in> Q" for p
    using d(3) sems_invD(4) [OF r that] by (cases "p = q") (auto simp: sem_inv_def wait_list_is_def waiter_def kst_simps)
  then show "minv A Q I who B wsf ?t"
    using r d(2) by (auto simp: sems_inv_def sleeper_def free_wait_def kst_simps)
qed

lemma minv_up:
  assumes r: "minv A Q I who B wsf s" and q: "q \<in> Q"
  shows "\<exists>t. up cls q s = Some t \<and> minv A Q I who B (wsf(q := tl (wsf q))) t \<and> current t = current s \<and>
    idleproc t = idleproc s \<and>
    sem_value t = (sem_value s)(q := (if wsf q = [] then sem_value s q + 1 else sem_value s q))"
proof -
  note rd = sems_invD [OF r]
  note ok = sleepers_okD [OF rd(2)]
  obtain t where t: "up cls q s = Some t" "inv A t" "current t = current s" "idleproc t = idleproc s"
    "sem_inv A t q (tl (wsf q))" "\<forall>p. p \<noteq> q \<longrightarrow> sem_value t p = sem_value s p"
    "case wsf q of
       [] \<Rightarrow> sem_value t q = sem_value s q + 1 \<and> procs t = procs s \<and> waits t = waits s
     | w # _ \<Rightarrow> sem_value t q = sem_value s q \<and> dlist (klinks t) (Wait_link w) [] \<and>
         wakeup_flags (waits t w) = WT_KSEM \<and> (\<forall>v. wproc (waits t v) = wproc (waits s v)) \<and>
         (\<forall>v. v \<noteq> w \<longrightarrow> waits t v = waits s v) \<and>
         (\<forall>p. state (procs t p) = (if wproc (waits s w) = Some p then PROC_RUNNABLE else state (procs s p)) \<and>
           wait_state (procs t p) = (if wproc (waits s w) = Some p then 0 else wait_state (procs s p)))"
    "frame_at q (set (wsf q)) s t"
    using up_inv [OF rd(1) rd(4) [OF q]] unfolding frame_at_def by blast
  have wp: "wproc (waits t v) = wproc (waits s v)" for v using t(7) by (cases "wsf q") auto
  have same: "waits t v = waits s v" if "v \<notin> set (wsf q)" for v using t(7) that by (cases "wsf q") auto
  have st: "state (procs t p) = state (procs s p) \<and> wait_state (procs t p) = wait_state (procs s p)"
    if "\<And>v. v \<in> set (wsf q) \<Longrightarrow> wproc (waits s v) \<noteq> Some p" for p
    using t(7) that by (cases "wsf q") auto
  have run: "state (procs t p) = PROC_RUNNABLE" if "state (procs s p) = PROC_RUNNABLE" for p
    using t(7) that by (cases "wsf q") auto
  let ?W = "wsf(q := tl (wsf q))"
  have "sem_inv A t p (?W p) \<and> (\<forall>w\<in>set (?W p). sleeper I who B t p w)" if p: "p \<in> Q" for p
  proof (cases "p = q")
    case True
    moreover have "w \<in> set (wsf q)" if "w \<in> set (tl (wsf q))" for w using that by (cases "wsf q") auto
    ultimately show ?thesis using t(5) rd(5) [OF q] wp by (simp add: sleeper_def)
  next
    case False
    have dis: "w \<notin> set (wsf q)" if "w \<in> set (wsf p)" for w using queue_of_wait [OF r p q that] False by blast
    have "sem_inv A t p (wsf p)"
    proof (rule sem_inv_frame [OF rd(4) [OF p]])
      show "wait_list_is t p (wsf p)"
        using frame_queue [OF t(8) _ False] rd(4) [OF p] dis by (auto simp: sem_inv_def)
      show "state (procs t pr) = state (procs s pr) \<and> wait_state (procs t pr) = wait_state (procs s pr)"
        if w: "w \<in> set (wsf p)" "wproc (waits s w) = Some pr" for w pr
      proof (rule st)
        fix v assume v: "v \<in> set (wsf q)"
        show "wproc (waits s v) \<noteq> Some pr"
          using rd(5) [OF q v] rd(5) [OF p w(1)] w(2) False ok(1) unfolding sleeper_def
          by (metis Pair_inject option.inject)
      qed
    qed (use t(6) False same dis in auto)
    then show ?thesis using False rd(5) [OF p] wp by (simp add: sleeper_def)
  qed
  moreover have "state (procs t (who i)) = PROC_RUNNABLE \<and> (\<forall>p w. B i = Some (p, w) \<longrightarrow> free_wait t w)"
    if i: "i \<in> I" "\<not> queued B ?W i" for i
  proof (cases "queued B wsf i")
    case False
    have "w \<notin> set (wsf q)" if "B i = Some (p, w)" for p w
      using rd(5) [OF q, of w] ok(3) [OF i(1) _ that] False that by (auto simp: sleeper_def queued_def)
    then show ?thesis
      using run rd(6) [OF i(1) False] rd(7) [OF i(1) False] frame_free [OF t(8)] same by blast
  next
    case True
    then obtain w where w: "B i = Some (q, w)" "w \<in> set (wsf q)" "w \<notin> set (tl (wsf q))"
      using i(2) by (auto simp: queued_def split: if_splits)
    then obtain ws where ws: "wsf q = w # ws" by (cases "wsf q") auto
    have "wproc (waits s w) = Some (who i)"
      using rd(5) [OF q w(2)] ok(3) [OF i(1) _ w(1)] by (auto simp: sleeper_def)
    then show ?thesis using t(7) ws w(1) by (auto simp: free_wait_def)
  qed
  ultimately have "minv A Q I who B ?W t"
    using t(2,3) rd(2,3) run by (auto simp: sems_inv_def simp del: fun_upd_apply)
  moreover have "sem_value t = (sem_value s)(q := (if wsf q = [] then sem_value s q + 1 else sem_value s q))"
    using t(6,7) by (auto split: list.splits)
  ultimately show ?thesis using t by blast
qed

lemma minv_block:
  assumes r: "minv A Q I who B wsf s" and q: "q \<in> Q" "sem_value s q = 0" and i: "i \<in> I" "B i = None"
    and c: "current s = Some (who i)" "Some (who i) \<noteq> idleproc s" and w: "\<And>j p. j \<in> I \<Longrightarrow> B j \<noteq> Some (p, w)"
  shows "\<exists>t. down cls q w s = Some (Inr t) \<and> minv A Q I who (B(i := Some (q, w))) (wsf(q := wsf q @ [w])) t \<and>
    idleproc t = idleproc s \<and> sem_value t = sem_value s"
proof -
  note rd = sems_invD [OF r]
  note ok = sleepers_okD [OF rd(2)]
  let ?B = "B(i := Some (q, w))" and ?W = "wsf(q := wsf q @ [w])"
  have wn: "w \<notin> set (wsf p)" if "p \<in> Q" for p using rd(5) [OF that] w by (auto simp: sleeper_def)
  have cA: "who i \<in> A" using rd(1) c(1) by (auto simp: sched_inv_def)
  obtain t n where t: "down cls q w s = Some (Inr t)" "inv A t" "sem_inv A t q (wsf q @ [w])" "current t = Some n"
    "state (procs t n) = PROC_RUNNABLE" "idleproc t = idleproc s" "wproc (waits t w) = Some (who i)"
    "\<forall>v. v \<noteq> w \<longrightarrow> waits t v = waits s v" "sem_value t = sem_value s"
    "\<forall>p. p \<noteq> who i \<longrightarrow> state (procs t p) = state (procs s p) \<and> wait_state (procs t p) = wait_state (procs s p)"
    "frame_at q (set (w # wsf q)) s t"
    using down_blocks [OF rd(1) rd(4) [OF q(1)] c(1) cA c(2) rd(3) [OF c(1)] wn [OF q(1)] q(2)]
    unfolding frame_at_def by blast
  have ow: "wproc (waits t v) = wproc (waits s v)" if "p \<in> Q" "v \<in> set (wsf p)" for p v
    using t(8) wn [OF that(1)] that(2) by auto
  have sl: "sleeper I who ?B t p v" if "p \<in> Q" "v \<in> set (wsf p)" for p v
    using rd(5) [OF that] ow [OF that] i(2) unfolding sleeper_def
    by (metis fun_upd_other option.distinct(1))
  have "sem_inv A t p (?W p) \<and> (\<forall>v\<in>set (?W p). sleeper I who ?B t p v)" if p: "p \<in> Q" for p
  proof (cases "p = q")
    case True
    moreover have "sleeper I who ?B t q w" using i(1) t(7) by (auto simp: sleeper_def)
    ultimately show ?thesis using t(3) sl [OF q(1)] by auto
  next
    case False
    have dis: "v \<notin> set (w # wsf q)" if "v \<in> set (wsf p)" for v
      using queue_of_wait [OF r p q(1) that] False wn [OF p] that by auto
    have "sem_inv A t p (wsf p)"
    proof (rule sem_inv_frame [OF rd(4) [OF p]])
      show "wait_list_is t p (wsf p)"
        using frame_queue [OF t(11) _ False] rd(4) [OF p] dis by (auto simp: sem_inv_def)
      show "state (procs t pr) = state (procs s pr) \<and> wait_state (procs t pr) = wait_state (procs s pr)"
        if "v \<in> set (wsf p)" "wproc (waits s v) = Some pr" for v pr
        using sleeper_not_current [OF rd(4) [OF p] rd(3) [OF c(1)] that(1)] that(2) t(10) by auto
    qed (use t(8,9) dis in auto)
    then show ?thesis using False sl [OF p] by simp
  qed
  moreover have "state (procs t (who j)) = PROC_RUNNABLE \<and> (\<forall>p v. ?B j = Some (p, v) \<longrightarrow> free_wait t v)"
    if j: "j \<in> I" "\<not> queued ?B ?W j" for j
  proof -
    have ji: "j \<noteq> i" using j(2) by (auto simp: queued_def)
    have nq: "\<not> queued B wsf j" using j(2) ji by (auto simp: queued_def split: if_splits)
    have "who j \<noteq> who i" using ok(1) [OF j(1) i(1)] ji by auto
    moreover have "free_wait t v" if v: "B j = Some (p, v)" for p v
    proof (rule frame_free [OF t(11) rd(7) [OF j(1) nq v]])
      show "v \<notin> set (w # wsf q)"
        using rd(5) [OF q(1), of v] ok(3) [OF j(1) _ v] nq v w [OF j(1)] by (auto simp: sleeper_def queued_def)
      show "waits t v = waits s v" using t(8) w [OF j(1), of p] v by auto
    qed
    ultimately show ?thesis using t(10) rd(6) [OF j(1) nq] ji by auto
  qed
  moreover have "sleepers_ok Q I who ?B"
    using rd(2) q(1) w unfolding sleepers_ok_def by (auto split: if_splits)
  ultimately have "minv A Q I who ?B ?W t"
    using t(2,4,5) by (auto simp: sems_inv_def simp del: fun_upd_apply)
  then show ?thesis using t by blast
qed

lemma minv_finish:
  assumes r: "minv A Q I who B wsf s" and i: "i \<in> I" "B i = Some (q, w)" and c: "current s = Some (who i)"
  shows "down_finish q w s = Some s" "\<not> queued B wsf i" "minv A Q I who (B(i := None)) wsf s"
proof -
  note rd = sems_invD [OF r]
  note ok = sleepers_okD [OF rd(2)]
  have q: "q \<in> Q" by (rule ok(2) [OF i])
  have nw: "w \<notin> set (wsf q)"
  proof
    assume w: "w \<in> set (wsf q)"
    have "wproc (waits s w) = Some (who i)" using rd(5) [OF q w] ok(3) [OF i(1) _ i(2)] by (auto simp: sleeper_def)
    then show False using sleeper_not_current [OF rd(4) [OF q] rd(3) [OF c] w] by simp
  qed
  then show nq: "\<not> queued B wsf i" using i(2) by (auto simp: queued_def)
  have "free_wait s w" by (rule rd(7) [OF i(1) nq i(2)])
  then have "granted s (wsf q) w" using nw by (simp add: free_wait_def granted_def)
  then show "down_finish q w s = Some s" by (rule granted_finish)
  have "sleeper I who (B(i := None)) s p v" if "p \<in> Q" "v \<in> set (wsf p)" for p v
  proof -
    note pv = that
    obtain j where j: "j \<in> I" "B j = Some (p, v)" "wproc (waits s v) = Some (who j)"
      using rd(5) [OF pv] by (auto simp: sleeper_def)
    moreover have "j \<noteq> i" using j(2) pv(2) nq by (auto simp: queued_def)
    ultimately show ?thesis by (auto simp: sleeper_def)
  qed
  moreover have "queued (B(i := None)) wsf j = (j \<noteq> i \<and> queued B wsf j)" for j by (auto simp: queued_def)
  moreover have "sleepers_ok Q I who (B(i := None))" using rd(2) unfolding sleepers_ok_def by (auto split: if_splits)
  ultimately show "minv A Q I who (B(i := None)) wsf s"
    using r rd(6) [OF i(1) nq] by (auto simp: sems_inv_def)
qed

lemma minv_schedule:
  assumes r: "minv A Q I who B wsf s"
  shows "\<exists>t. schedule cls s = Some t \<and> minv A Q I who B wsf t \<and> idleproc t = idleproc s \<and> sem_value t = sem_value s"
proof -
  note rd = sems_invD [OF r]
  obtain t n where t: "schedule cls s = Some t" "inv A t" "current t = Some n" "state (procs t n) = PROC_RUNNABLE"
    "keeps s t" "idleproc t = idleproc s"
    "\<forall>p. state (procs t p) = state (procs s p) \<and> wait_state (procs t p) = wait_state (procs s p)"
    using schedule_inv [OF rd(1)] by blast
  note k = keepsD [OF t(5)]
  have "sem_inv A t p (wsf p)" if "p \<in> Q" for p
    using sem_inv_frame [OF rd(4) [OF that], of t] keeps_wait_list [OF t(5)] rd(4) [OF that] t(7) k(2,3)
    by (auto simp: sem_inv_def)
  moreover have "free_wait t w" if "free_wait s w" for w
    using that k(2) k(4) [OF foreign_wait(2)] by (simp add: free_wait_def)
  ultimately have "minv A Q I who B wsf t"
    using r t(2-4,7) k(2) by (auto simp: sems_inv_def sleeper_def)
  then show ?thesis using t k(3) by blast
qed

end

end
