(* ===== verification/Philosophers.thy ===== *)
theory Philosophers
  imports Monitor Sem_Set Vmm_Proofs
begin

section \<open>The dining philosophers never starve each other and never share a fork\<close>

text \<open>
  Five processes run \<open>phi_take_forks_condvar\<close> and \<open>phi_put_forks_condvar\<close> on one monitor. \<open>phi_run\<close> are their
  interleavings: a step of the current process up to its next sleep or its return, or a switch of processes. The invariant
  has two layers: \<open>sems_inv\<close> for the queues of the seven semaphores, and \<open>phi_core\<close> with \<open>phi_phase\<close> for the monitor:
  there is always exactly one token, in the mutex or with one process that has been granted a semaphore.
\<close>

datatype phi_pc = Thinks | Eats | Asleep phi_point nat

record table =
  mt :: nat
  cvs :: nat
  who :: "nat \<Rightarrow> nat"

definition phi_sem :: "table \<Rightarrow> nat \<Rightarrow> phi_point \<Rightarrow> nat" where
  "phi_sem e i pt = (case pt of
     Take_mutex \<Rightarrow> mon_mutex (mt e) | Put_mutex \<Rightarrow> mon_mutex (mt e)
   | Take_signal \<Rightarrow> mon_next (mt e) | Put_left \<Rightarrow> mon_next (mt e) | Put_right \<Rightarrow> mon_next (mt e)
   | Take_wait \<Rightarrow> cv_sem (cv_at (cvs e) i))"

definition phi_sems :: "table \<Rightarrow> nat set" where
  "phi_sems e = {mon_mutex (mt e), mon_next (mt e)} \<union> (\<lambda>i. cv_sem (cv_at (cvs e) i)) ` {..<N_phi}"

definition phi_blocked :: "table \<Rightarrow> (nat \<Rightarrow> phi_pc) \<Rightarrow> nat \<Rightarrow> (nat \<times> nat) option" where
  "phi_blocked e pcs i = (case pcs i of Asleep pt w \<Rightarrow> Some (phi_sem e i pt, w) | _ \<Rightarrow> None)"

definition fresh_wait :: "nat \<Rightarrow> nat \<Rightarrow> (nat \<Rightarrow> phi_pc) \<Rightarrow> bool" where
  "fresh_wait w i pcs \<longleftrightarrow> (\<forall>j<N_phi. j \<noteq> i \<longrightarrow> (\<forall>pt. pcs j \<noteq> Asleep pt w))"

definition moved :: "phi_pc \<Rightarrow> nat \<Rightarrow> monst + phi_point \<times> monst \<Rightarrow> phi_pc" where
  "moved d w r = (case r of Inl _ \<Rightarrow> d | Inr (pt, _) \<Rightarrow> Asleep pt w)"

definition moved_to :: "monst + phi_point \<times> monst \<Rightarrow> monst" where
  "moved_to r = (case r of Inl t \<Rightarrow> t | Inr (_, t) \<Rightarrow> t)"

definition after_point :: "phi_point \<Rightarrow> phi_pc" where
  "after_point pt = (if pt \<in> {Take_mutex, Take_signal, Take_wait} then Eats else Thinks)"

text \<open>The next step of philosopher \<open>i\<close> with the \<open>wait_t\<close> at \<open>w\<close>: what it does and where it is when it returns.\<close>

definition phi_step :: "sched_class \<Rightarrow> table \<Rightarrow> nat \<Rightarrow> nat \<Rightarrow> phi_pc \<Rightarrow> monst \<Rightarrow> phi_result" where
  "phi_step cls e w i pc s = (case pc of
     Thinks \<Rightarrow> phi_take_forks_condvar cls (mt e) w i s
   | Eats \<Rightarrow> phi_put_forks_condvar cls (mt e) w i s
   | Asleep pt v \<Rightarrow> phi_resume cls (mt e) pt v w i s)"

definition phi_next :: "phi_pc \<Rightarrow> phi_pc" where
  "phi_next pc = (case pc of Thinks \<Rightarrow> Eats | Eats \<Rightarrow> Thinks | Asleep pt _ \<Rightarrow> after_point pt)"

inductive phi_run :: "sched_class \<Rightarrow> table \<Rightarrow> monst \<Rightarrow> monst \<Rightarrow> (nat \<Rightarrow> phi_pc) \<Rightarrow> bool" for cls e s0 where
  phi_start: "phi_run cls e s0 s0 (\<lambda>_. Thinks)"
| phi_move: "phi_run cls e s0 s pcs \<Longrightarrow> i < N_phi \<Longrightarrow> current (ks (msys s)) = Some (who e i) \<Longrightarrow> fresh_wait w i pcs \<Longrightarrow>
    phi_step cls e w i (pcs i) s = Some r \<Longrightarrow>
    phi_run cls e s0 (moved_to r) (pcs(i := moved (phi_next (pcs i)) w r))"
| phi_switch: "phi_run cls e s0 s pcs \<Longrightarrow> schedule cls (ks (msys s)) = Some k \<Longrightarrow>
    phi_run cls e s0 (upd_mks (\<lambda>_. k) s) pcs"

subsection \<open>The table\<close>

lemma neighbours:
  assumes "i < N_phi"
  shows "LEFT (RIGHT i) = i" "RIGHT (LEFT i) = i" "LEFT i \<noteq> i" "RIGHT i \<noteq> i" "LEFT i \<noteq> RIGHT i" "LEFT i < N_phi" "RIGHT i < N_phi"
proof -
  have "i \<in> {0, 1, 2, 3, 4}" using assms by (auto simp: N_phi_def)
  then show "LEFT (RIGHT i) = i" "RIGHT (LEFT i) = i" "LEFT i \<noteq> i" "RIGHT i \<noteq> i" "LEFT i \<noteq> RIGHT i" "LEFT i < N_phi" "RIGHT i < N_phi"
    by (auto simp: LEFT_def RIGHT_def N_phi_def)
qed

definition table_apart :: "table \<Rightarrow> bool" where
  "table_apart e \<longleftrightarrow> cvs e \<ge> mt e + 64 \<or> cvs e + SIZEOF_CONDVAR * N_phi \<le> mt e"

lemma table_apartD:
  assumes "table_apart e" "i < N_phi"
  shows "cv_sem (cv_at (cvs e) i) \<noteq> mon_mutex (mt e)" "cv_sem (cv_at (cvs e) i) \<noteq> mon_next (mt e)"
    "j < N_phi \<Longrightarrow> cv_at (cvs e) i = cv_at (cvs e) j \<longleftrightarrow> i = j"
proof -
  have "SIZEOF_CONDVAR * i \<le> SIZEOF_CONDVAR * (N_phi - 1)" using assms(2) by (intro mult_left_mono) auto
  then show "cv_sem (cv_at (cvs e) i) \<noteq> mon_mutex (mt e)" "cv_sem (cv_at (cvs e) i) \<noteq> mon_next (mt e)"
    using assms by (auto simp: table_apart_def cv_at_def cv_sem_def mon_mutex_def mon_next_def SIZEOF_CONDVAR_def N_phi_def)
  show "j < N_phi \<Longrightarrow> cv_at (cvs e) i = cv_at (cvs e) j \<longleftrightarrow> i = j"
    by (auto simp: cv_at_def SIZEOF_CONDVAR_def)
qed

lemma mutex_not_next [simp]: "mon_mutex p \<noteq> mon_next p" "mon_next p \<noteq> mon_mutex p"
  by (auto simp: mon_mutex_def mon_next_def)

lemma monst_fields [simp]:
  "msys (upd_mks f s) = (msys s)\<lparr>ks := f (ks (msys s))\<rparr>" "monitors (upd_mks f s) = monitors s"
  "condvars (upd_mks f s) = condvars s" "state_condvar (upd_mks f s) = state_condvar s"
  "msys (set_phi i v s) = msys s" "monitors (set_phi i v s) = monitors s" "condvars (set_phi i v s) = condvars s"
  "state_condvar (set_phi i v s) = (state_condvar s)(i := v)"
  "msys (next_count_add n m s) = msys s" "condvars (next_count_add n m s) = condvars s"
  "state_condvar (next_count_add n m s) = state_condvar s"
  "monitors (next_count_add n m s) = (monitors s)(m := (monitors s m)\<lparr>next_count := next_count (monitors s m) + n\<rparr>)"
  "msys (cv_count_add n c s) = msys s" "monitors (cv_count_add n c s) = monitors s"
  "state_condvar (cv_count_add n c s) = state_condvar s"
  "condvars (cv_count_add n c s) = (condvars s)(c := (condvars s c)\<lparr>cv_count := cv_count (condvars s c) + n\<rparr>)"
  by (simp_all add: upd_mks_def set_phi_def next_count_add_def upd_monitor_def cv_count_add_def upd_condvar_def)

lemma phi_blocked_upd:
  "phi_blocked e (pcs(i := Asleep pt w)) = (phi_blocked e pcs)(i := Some (phi_sem e i pt, w))"
  "pc \<in> {Thinks, Eats} \<Longrightarrow> phi_blocked e (pcs(i := pc)) = (phi_blocked e pcs)(i := None)"
  by (auto simp: phi_blocked_def fun_eq_iff)

subsection \<open>The invariant of the monitor\<close>

definition waits_cv :: "(nat \<Rightarrow> phi_pc) \<Rightarrow> nat \<Rightarrow> bool" where
  "waits_cv pcs i \<longleftrightarrow> (\<exists>w. pcs i = Asleep Take_wait w)"

definition signals :: "(nat \<Rightarrow> phi_pc) \<Rightarrow> nat \<Rightarrow> bool" where
  "signals pcs i \<longleftrightarrow> (\<exists>w. pcs i = Asleep Put_left w \<or> pcs i = Asleep Put_right w)"

definition enters :: "(nat \<Rightarrow> phi_pc) \<Rightarrow> nat \<Rightarrow> bool" where
  "enters pcs i \<longleftrightarrow> (\<exists>w. pcs i = Asleep Take_mutex w \<or> pcs i = Asleep Put_mutex w)"

text \<open>The entry of \<open>state_condvar\<close> of a philosopher; \<open>q\<close> says whether it is queued.\<close>

definition phi_shows :: "bool \<Rightarrow> phi_pc \<Rightarrow> phi_state" where
  "phi_shows q pc = (case pc of
     Thinks \<Rightarrow> THINKING | Eats \<Rightarrow> EATING
   | Asleep pt _ \<Rightarrow> (case pt of
       Put_mutex \<Rightarrow> EATING | Take_wait \<Rightarrow> (if q then HUNGRY else EATING) | _ \<Rightarrow> THINKING))"

text \<open>Why a queued philosopher is hungry.\<close>

definition reason :: "(nat \<Rightarrow> phi_pc) \<Rightarrow> (nat \<Rightarrow> phi_state) \<Rightarrow> nat \<Rightarrow> bool" where
  "reason pcs st i \<longleftrightarrow> st (LEFT i) = EATING \<or> st (RIGHT i) = EATING \<or> (\<exists>w. pcs (LEFT i) = Asleep Put_left w)"

text \<open>\<open>R\<close> are the processes running inside the monitor (none or one), \<open>E\<close> those still to be tested by it.\<close>

definition phi_core :: "(kst \<Rightarrow> nat set \<Rightarrow> bool) \<Rightarrow> (nat \<Rightarrow> kst \<Rightarrow> bool) \<Rightarrow> nat set \<Rightarrow> table \<Rightarrow> nat set \<Rightarrow> nat set \<Rightarrow>
    (nat \<Rightarrow> nat list) \<Rightarrow> (nat \<Rightarrow> phi_pc) \<Rightarrow> monst \<Rightarrow> bool" where
  "phi_core ready detached A e R E wsf pcs s \<longleftrightarrow>
     sems_inv ready detached A (phi_sems e) {..<N_phi} (who e) (phi_blocked e pcs) wsf (ks (msys s)) \<and>
     mon_cv (monitors s (mt e)) = Some (cvs e) \<and>
     sem_value (ks (msys s)) (mon_next (mt e)) = 0 \<and>
     (\<forall>i<N_phi. Some (who e i) \<noteq> idleproc (ks (msys s)) \<and> cv_owner (condvars s (cv_at (cvs e) i)) = mt e \<and>
       sem_value (ks (msys s)) (cv_sem (cv_at (cvs e) i)) = 0 \<and> (\<forall>w. pcs i \<noteq> Asleep Take_signal w) \<and>
       (state_condvar s i = EATING \<longrightarrow> state_condvar s (RIGHT i) \<noteq> EATING) \<and>
       (i \<notin> R \<longrightarrow> cv_count (condvars s (cv_at (cvs e) i)) = (if waits_cv pcs i then 1 else 0) \<and>
         state_condvar s i = phi_shows (queued (phi_blocked e pcs) wsf i) (pcs i)) \<and>
       (i \<notin> E \<longrightarrow> waits_cv pcs i \<longrightarrow> queued (phi_blocked e pcs) wsf i \<longrightarrow> reason pcs (state_condvar s) i))"

datatype phase = Free | Entering nat | Woken nat nat | Back nat | Inside | Inside_with nat

definition granted_set :: "table \<Rightarrow> (nat \<Rightarrow> nat list) \<Rightarrow> (nat \<Rightarrow> phi_pc) \<Rightarrow> nat set" where
  "granted_set e wsf pcs = {i. i < N_phi \<and> phi_blocked e pcs i \<noteq> None \<and> \<not> queued (phi_blocked e pcs) wsf i}"

definition phi_phase :: "table \<Rightarrow> phase \<Rightarrow> (nat \<Rightarrow> nat list) \<Rightarrow> (nat \<Rightarrow> phi_pc) \<Rightarrow> monst \<Rightarrow> bool" where
  "phi_phase e ph wsf pcs s \<longleftrightarrow>
     sem_value (ks (msys s)) (mon_mutex (mt e)) = (if ph = Free then 1 else 0) \<and>
     (let g = granted_set e wsf pcs; z = {i. i < N_phi \<and> signals pcs i}; n = next_count (monitors s (mt e)) in
      case ph of
        Free \<Rightarrow> g = {} \<and> z = {} \<and> n = 0
      | Entering i \<Rightarrow> g = {i} \<and> z = {} \<and> n = 0 \<and> enters pcs i
      | Woken i k \<Rightarrow> g = {i} \<and> z = {k} \<and> n = 1 \<and> i \<noteq> k \<and> waits_cv pcs i
      | Back k \<Rightarrow> g = {k} \<and> z = {k} \<and> n = 1
      | Inside \<Rightarrow> g = {} \<and> z = {} \<and> n = 0
      | Inside_with k \<Rightarrow> g = {} \<and> z = {k} \<and> n = 1)"

lemma phi_coreD:
  assumes "phi_core ready detached A e R E wsf pcs s"
  shows "sems_inv ready detached A (phi_sems e) {..<N_phi} (who e) (phi_blocked e pcs) wsf (ks (msys s))"
    "mon_cv (monitors s (mt e)) = Some (cvs e)" "sem_value (ks (msys s)) (mon_next (mt e)) = 0"
    "i < N_phi \<Longrightarrow> Some (who e i) \<noteq> idleproc (ks (msys s))"
    "i < N_phi \<Longrightarrow> cv_owner (condvars s (cv_at (cvs e) i)) = mt e"
    "i < N_phi \<Longrightarrow> sem_value (ks (msys s)) (cv_sem (cv_at (cvs e) i)) = 0"
    "i < N_phi \<Longrightarrow> pcs i \<noteq> Asleep Take_signal w"
    "i < N_phi \<Longrightarrow> state_condvar s i = EATING \<Longrightarrow> state_condvar s (RIGHT i) \<noteq> EATING"
    "i < N_phi \<Longrightarrow> i \<notin> R \<Longrightarrow> cv_count (condvars s (cv_at (cvs e) i)) = (if waits_cv pcs i then 1 else 0)"
    "i < N_phi \<Longrightarrow> i \<notin> R \<Longrightarrow> state_condvar s i = phi_shows (queued (phi_blocked e pcs) wsf i) (pcs i)"
    "i < N_phi \<Longrightarrow> i \<notin> E \<Longrightarrow> waits_cv pcs i \<Longrightarrow> queued (phi_blocked e pcs) wsf i \<Longrightarrow> reason pcs (state_condvar s) i"
  using assms by (auto simp: phi_core_def)

lemma sems_in [simp]:
  "mon_mutex (mt e) \<in> phi_sems e" "mon_next (mt e) \<in> phi_sems e" "i < N_phi \<Longrightarrow> cv_sem (cv_at (cvs e) i) \<in> phi_sems e"
  by (auto simp: phi_sems_def)

text \<open>Who sleeps where.\<close>

lemma phi_blocked_at:
  assumes "table_apart e" "i < N_phi" "pcs i \<noteq> Asleep Take_signal w"
  shows "phi_blocked e pcs i = Some (mon_mutex (mt e), w) \<Longrightarrow> enters pcs i"
    "phi_blocked e pcs i = Some (mon_next (mt e), w) \<Longrightarrow> signals pcs i"
    "j < N_phi \<Longrightarrow> phi_blocked e pcs i = Some (cv_sem (cv_at (cvs e) j), w) \<Longrightarrow> i = j \<and> waits_cv pcs i"
  using table_apartD [OF assms(1)] assms(2,3)
  by (auto simp: phi_blocked_def phi_sem_def enters_def signals_def waits_cv_def cv_sem_def split: phi_pc.splits phi_point.splits)


lemma phi_shows_queued: "\<not> waits_cv pcs i \<Longrightarrow> phi_shows q (pcs i) = phi_shows r (pcs i)"
  by (auto simp: phi_shows_def waits_cv_def split: phi_pc.splits phi_point.splits)

lemma enters_only [simp]: "enters pcs i \<Longrightarrow> \<not> waits_cv pcs i" "enters pcs i \<Longrightarrow> \<not> signals pcs i"
  and signals_only [simp]: "signals pcs i \<Longrightarrow> \<not> waits_cv pcs i"
  by (auto simp: enters_def waits_cv_def signals_def)

lemma granted_wake:
  assumes "granted_set e wsf pcs = {}" "j < N_phi" "phi_blocked e pcs j = Some a"
    "\<And>i. i < N_phi \<Longrightarrow> queued (phi_blocked e pcs) W i \<longleftrightarrow> queued (phi_blocked e pcs) wsf i \<and> i \<noteq> j"
  shows "granted_set e W pcs = {j}"
  using assms by (auto simp: granted_set_def)

lemma core_ks:
  assumes c: "phi_core ready detached A e R E wsf pcs s"
    and "sems_inv ready detached A (phi_sems e) {..<N_phi} (who e) (phi_blocked e pcs) wsf' k"
    and "idleproc k = idleproc (ks (msys s))" "sem_value k (mon_next (mt e)) = 0"
    and "\<And>i. i < N_phi \<Longrightarrow> sem_value k (cv_sem (cv_at (cvs e) i)) = 0"
    and q: "\<And>i. i < N_phi \<Longrightarrow> waits_cv pcs i \<Longrightarrow> queued (phi_blocked e pcs) wsf' i = queued (phi_blocked e pcs) wsf i"
  shows "phi_core ready detached A e R E wsf' pcs (upd_mks (\<lambda>_. k) s)"
proof -
  have "phi_shows (queued (phi_blocked e pcs) wsf' i) (pcs i) = phi_shows (queued (phi_blocked e pcs) wsf i) (pcs i)"
    if "i < N_phi" for i
    using q [OF that] phi_shows_queued by (cases "waits_cv pcs i") auto
  then show ?thesis using assms phi_coreD [OF c] by (simp add: phi_core_def)
qed

definition outside :: "phase \<Rightarrow> bool" where
  "outside ph \<longleftrightarrow> (case ph of Inside \<Rightarrow> False | Inside_with _ \<Rightarrow> False | _ \<Rightarrow> True)"

definition side :: "phi_point \<Rightarrow> nat \<Rightarrow> nat" where
  "side pt i = (if pt = Put_left then LEFT i else RIGHT i)"

definition to_test :: "phi_point \<Rightarrow> nat \<Rightarrow> nat set" where
  "to_test pt i = (if pt = Put_left then {LEFT i, RIGHT i} else {RIGHT i})"

context sched_class
begin

abbreviation core :: "nat set \<Rightarrow> table \<Rightarrow> nat set \<Rightarrow> nat set \<Rightarrow> (nat \<Rightarrow> nat list) \<Rightarrow> (nat \<Rightarrow> phi_pc) \<Rightarrow> monst \<Rightarrow> bool" where
  "core \<equiv> phi_core ready detached"

text \<open>Leaving the monitor: the token goes to the mutex or to the first process at it, or back to the signalling process.\<close>

lemma leave_empty:
  assumes a: "table_apart e" and c: "core A e R E wsf pcs s" and ph: "phi_phase e Inside wsf pcs s"
  shows "\<exists>t wsf' ph'. monitor_leave cls (mt e) s = Some t \<and> core A e R E wsf' pcs t \<and> phi_phase e ph' wsf' pcs t \<and>
    (ph' = Free \<or> (\<exists>j. ph' = Entering j)) \<and> current (ks (msys t)) = current (ks (msys s)) \<and>
    state_condvar t = state_condvar s \<and> condvars t = condvars s"
proof -
  let ?q = "mon_mutex (mt e)" and ?B = "phi_blocked e pcs"
  note cd = phi_coreD [OF c]
  obtain k where k: "up cls ?q (ks (msys s)) = Some k"
    "minv A (phi_sems e) {..<N_phi} (who e) ?B (wsf(?q := tl (wsf ?q))) k" "current k = current (ks (msys s))"
    "idleproc k = idleproc (ks (msys s))"
    "sem_value k = (sem_value (ks (msys s)))(?q := (if wsf ?q = [] then 1 else 0))"
    using minv_up [OF cd(1) sems_in(1)] ph by (auto simp: phi_phase_def)
  let ?W = "wsf(?q := tl (wsf ?q))" and ?t = "upd_mks (\<lambda>_. k) s"
  have l: "monitor_leave cls (mt e) s = Some ?t" using k(1) ph by (simp add: monitor_leave_def mon_up_def phi_phase_def Let_def)
  have v: "sem_value k (mon_next (mt e)) = 0" "\<And>i. i < N_phi \<Longrightarrow> sem_value k (cv_sem (cv_at (cvs e) i)) = 0"
    using k(5) cd(3,6) table_apartD(1) [OF a] by simp_all
  show ?thesis
  proof (cases "wsf ?q = []")
    case True
    then have W: "?W = wsf" by auto
    have "core A e R E wsf pcs ?t" using core_ks [OF c k(2)] k(4) v W by simp
    moreover have "phi_phase e Free wsf pcs ?t" using ph k(5) True by (simp add: phi_phase_def granted_set_def Let_def)
    ultimately show ?thesis using l k(3) by (intro exI [of _ ?t] exI [of _ wsf] exI [of _ Free]) simp
  next
    case False
    obtain j w where j: "j < N_phi" "?B j = Some (?q, w)" "w \<in> set (wsf ?q)"
      "\<And>i. i < N_phi \<Longrightarrow> queued ?B ?W i \<longleftrightarrow> queued ?B wsf i \<and> i \<noteq> j"
      by (rule queued_wake [OF cd(1) sems_in(1) False]) auto
    have e: "enters pcs j" using phi_blocked_at(1) [OF a j(1) cd(7) [OF j(1)] j(2)] .
    have "core A e R E ?W pcs ?t" using e by (intro core_ks [OF c k(2) k(4) v]) (auto simp: j(4))
    moreover have "granted_set e ?W pcs = {j}"
      using ph by (intro granted_wake [OF _ j(1,2,4)]) (simp_all add: phi_phase_def Let_def)
    then have "phi_phase e (Entering j) ?W pcs ?t" using ph k(5) False e by (simp add: phi_phase_def Let_def)
    ultimately show ?thesis using l k(3) by (intro exI [of _ ?t] exI [of _ ?W] exI [of _ "Entering j"]) simp
  qed
qed

lemma leave_signalled:
  assumes a: "table_apart e" and c: "core A e R E wsf pcs s" and ph: "phi_phase e (Inside_with m) wsf pcs s"
  shows "\<exists>t wsf'. monitor_leave cls (mt e) s = Some t \<and> core A e R E wsf' pcs t \<and> phi_phase e (Back m) wsf' pcs t \<and>
    current (ks (msys t)) = current (ks (msys s)) \<and> state_condvar t = state_condvar s \<and> condvars t = condvars s"
proof -
  let ?q = "mon_next (mt e)" and ?B = "phi_blocked e pcs"
  note cd = phi_coreD [OF c]
  have m: "m < N_phi" "signals pcs m" using ph by (auto simp: phi_phase_def Let_def)
  obtain w where w: "?B m = Some (?q, w)" using m(2) by (auto simp: signals_def phi_blocked_def phi_sem_def)
  have "queued ?B wsf m" using ph w m(1) by (auto simp: phi_phase_def granted_set_def Let_def)
  then have ne: "wsf ?q \<noteq> []" using w by (auto simp: queued_def)
  obtain k where k: "up cls ?q (ks (msys s)) = Some k"
    "minv A (phi_sems e) {..<N_phi} (who e) ?B (wsf(?q := tl (wsf ?q))) k" "current k = current (ks (msys s))"
    "idleproc k = idleproc (ks (msys s))" "sem_value k = sem_value (ks (msys s))"
    using minv_up [OF cd(1) sems_in(2)] ne cd(3) fun_upd_idem [of "sem_value (ks (msys s))" ?q 0, OF cd(3)] by auto
  let ?W = "wsf(?q := tl (wsf ?q))" and ?t = "upd_mks (\<lambda>_. k) s"
  have l: "monitor_leave cls (mt e) s = Some ?t" using k(1) ph by (simp add: monitor_leave_def mon_up_def phi_phase_def Let_def)
  obtain j v where j: "j < N_phi" "?B j = Some (?q, v)" "v \<in> set (wsf ?q)"
    "\<And>i. i < N_phi \<Longrightarrow> queued ?B ?W i \<longleftrightarrow> queued ?B wsf i \<and> i \<noteq> j"
    by (rule queued_wake [OF cd(1) sems_in(2) ne]) auto
  have s: "signals pcs j" using phi_blocked_at(2) [OF a j(1) cd(7) [OF j(1)] j(2)] .
  then have jm: "j = m" using ph j(1) by (auto simp: phi_phase_def Let_def)
  have "core A e R E ?W pcs ?t" using s k(5) cd(3,6) by (intro core_ks [OF c k(2) k(4)]) (auto simp: j(4))
  moreover have "granted_set e ?W pcs = {m}"
    using ph unfolding jm [symmetric] by (intro granted_wake [OF _ j(1,2,4)]) (simp_all add: phi_phase_def Let_def)
  then have "phi_phase e (Back m) ?W pcs ?t" using ph k(5) by (simp add: phi_phase_def Let_def)
  ultimately show ?thesis using l k(3) by (intro exI [of _ ?t] exI [of _ ?W]) simp
qed

text \<open>A philosopher that has left the monitor; \<open>d\<close> is where it is then.\<close>

lemma return_ok:
  assumes c: "core A e {i} {} wsf pcs s" and p: "pcs i = Thinks" "i < N_phi" and d: "d \<in> {Thinks, Eats}"
    and st: "state_condvar s i = phi_shows False d" and n: "cv_count (condvars s (cv_at (cvs e) i)) = 0"
  shows "core A e {} {} wsf (pcs(i := d)) s" "phi_phase e ph wsf (pcs(i := d)) s = phi_phase e ph wsf pcs s"
proof -
  note cd = phi_coreD [OF c]
  have B: "phi_blocked e (pcs(i := d)) = phi_blocked e pcs"
    using d p by (auto simp: phi_blocked_def fun_eq_iff)
  have nq: "\<not> queued (phi_blocked e pcs) wsf i" using p by (simp add: queued_def phi_blocked_def)
  have w: "waits_cv (pcs(i := d)) l = waits_cv pcs l" "signals (pcs(i := d)) l = signals pcs l"
    "enters (pcs(i := d)) l = enters pcs l" "reason (pcs(i := d)) st l = reason pcs st l" for l st
    using d p by (auto simp: waits_cv_def signals_def enters_def reason_def)
  have "state_condvar s l = phi_shows (queued (phi_blocked e pcs) wsf l) ((pcs(i := d)) l)" if "l < N_phi" for l
    using st nq cd(10) [OF that] by (cases "l = i") auto
  moreover have "cv_count (condvars s (cv_at (cvs e) l)) = (if waits_cv pcs l then 1 else 0)" if "l < N_phi" for l
    using n cd(9) [OF that] p by (cases "l = i") (auto simp: waits_cv_def)
  moreover have "(pcs(i := d)) l \<noteq> Asleep Take_signal v" if "l < N_phi" for l v using cd(7) [OF that] d by auto
  ultimately show "core A e {} {} wsf (pcs(i := d)) s"
    using cd unfolding phi_core_def B w by (simp del: fun_upd_apply)
  show "phi_phase e ph wsf (pcs(i := d)) s = phi_phase e ph wsf pcs s"
    unfolding phi_phase_def granted_set_def B w ..
qed

definition phi_inv :: "nat set \<Rightarrow> table \<Rightarrow> (nat \<Rightarrow> phi_pc) \<Rightarrow> monst \<Rightarrow> bool" where
  "phi_inv A e pcs s \<longleftrightarrow> (\<exists>wsf ph. core A e {} {} wsf pcs s \<and> phi_phase e ph wsf pcs s \<and> outside ph)"

definition goes_on :: "nat set \<Rightarrow> table \<Rightarrow> (nat \<Rightarrow> phi_pc) \<Rightarrow> nat \<Rightarrow> phi_pc \<Rightarrow> nat \<Rightarrow> phi_result \<Rightarrow> bool" where
  "goes_on A e pcs i d w res \<longleftrightarrow> (\<exists>r. res = Some r \<and> phi_inv A e (pcs(i := moved d w r)) (moved_to r))"

lemma phi_leave_ok:
  assumes a: "table_apart e" and c: "core A e {i} {} wsf pcs s" and ph: "phi_phase e Inside wsf pcs s"
    and r: "pcs i = Thinks" "i < N_phi" "d \<in> {Thinks, Eats}" "state_condvar s i = phi_shows False d"
      "cv_count (condvars s (cv_at (cvs e) i)) = 0"
  shows "goes_on A e pcs i d w (phi_leave cls (mt e) s)"
proof -
  obtain t wsf' ph' where t: "monitor_leave cls (mt e) s = Some t" "core A e {i} {} wsf' pcs t"
    "phi_phase e ph' wsf' pcs t" "ph' = Free \<or> (\<exists>j. ph' = Entering j)"
    "state_condvar t = state_condvar s" "condvars t = condvars s"
    using leave_empty [OF a c ph] by blast
  note ro = return_ok [OF t(2) r(1-3)]
  have "core A e {} {} wsf' (pcs(i := d)) t" "phi_phase e ph' wsf' (pcs(i := d)) t"
    using ro t(3,5,6) r(4,5) by auto
  moreover have "outside ph'" using t(4) by (auto simp: outside_def)
  ultimately show ?thesis
    using t(1) unfolding goes_on_def phi_inv_def by (auto simp: phi_leave_def moved_def moved_to_def)
qed

lemma phi_leave_signalled_ok:
  assumes a: "table_apart e" and c: "core A e {i} {} wsf pcs s" and ph: "phi_phase e (Inside_with m) wsf pcs s"
    and r: "pcs i = Thinks" "i < N_phi" "d \<in> {Thinks, Eats}" "state_condvar s i = phi_shows False d"
      "cv_count (condvars s (cv_at (cvs e) i)) = 0"
  shows "goes_on A e pcs i d w (phi_leave cls (mt e) s)"
proof -
  obtain t wsf' where t: "monitor_leave cls (mt e) s = Some t" "core A e {i} {} wsf' pcs t"
    "phi_phase e (Back m) wsf' pcs t" "state_condvar t = state_condvar s" "condvars t = condvars s"
    using leave_signalled [OF a c ph] by blast
  note ro = return_ok [OF t(2) r(1-3)]
  have "core A e {} {} wsf' (pcs(i := d)) t" "phi_phase e (Back m) wsf' (pcs(i := d)) t"
    using ro t(3,4,5) r(4,5) by auto
  moreover have "outside (Back m)" by (simp add: outside_def)
  ultimately show ?thesis
    using t(1) unfolding goes_on_def phi_inv_def by (auto simp: phi_leave_def moved_def moved_to_def)
qed

end

lemma upd_mks_twice [simp]: "upd_mks f (upd_mks g s) = upd_mks (\<lambda>k. f (g k)) s"
  by (simp add: upd_mks_def)

text \<open>\<open>cond_signal\<close> does not look at \<open>state_condvar\<close>.\<close>

lemma upd_mks_set_phi [simp]:
  "upd_mks f (set_phi i v s) = set_phi i v (upd_mks f s)" "next_count_add n m (set_phi i v s) = set_phi i v (next_count_add n m s)"
  by (simp_all add: upd_mks_def set_phi_def next_count_add_def upd_monitor_def)

lemma signal_set:
  "cond_signal cls w c (set_phi i v s) = map_option (map_sum (set_phi i v) (set_phi i v)) (cond_signal cls w c s)"
  by (auto simp: cond_signal_def mon_up_def mon_down_def Let_def split: option.splits sum.splits bind_splits)

lemma shows_hungry: "phi_shows q pc = HUNGRY \<longleftrightarrow> q \<and> (\<exists>w. pc = Asleep Take_wait w)"
  by (auto simp: phi_shows_def split: phi_pc.splits phi_point.splits)

lemma not_fresh: "fresh_wait w i pcs \<Longrightarrow> pcs i = Thinks \<Longrightarrow> j \<in> {..<N_phi} \<Longrightarrow> phi_blocked e pcs j \<noteq> Some (p, w)"
  by (cases "j = i") (auto simp: fresh_wait_def phi_blocked_def split: phi_pc.splits)

context sched_class
begin

text \<open>
  Testing a neighbour \<open>j\<close> inside \<open>phi_put_forks_condvar\<close>: either \<open>j\<close> is not waiting or cannot eat, and nothing
  changes, or it is waiting on its condition, and gets the token while the caller sleeps.
\<close>

lemma signal_neighbour:
  assumes a: "table_apart e" and c: "core A e {i} E wsf pcs s" and ph: "phi_phase e Inside wsf pcs s"
    and i: "i < N_phi" "pcs i = Thinks" "current (ks (msys s)) = Some (who e i)" "fresh_wait w i pcs"
    and j: "j < N_phi" "j \<noteq> i" "waits_cv pcs j" "queued (phi_blocked e pcs) wsf j"
    and pt: "pt = Put_left \<or> pt = Put_right"
  obtains k wsf' where
    "cond_signal cls w (cv_at (cvs e) j) s = Some (Inr (upd_mks (\<lambda>_. k) (next_count_add 1 (mt e) s)))"
    "minv A (phi_sems e) {..<N_phi} (who e) (phi_blocked e (pcs(i := Asleep pt w))) wsf' k"
    "idleproc k = idleproc (ks (msys s))" "sem_value k = sem_value (ks (msys s))"
    "\<And>l. l < N_phi \<Longrightarrow> queued (phi_blocked e (pcs(i := Asleep pt w))) wsf' l \<longleftrightarrow>
       l = i \<or> queued (phi_blocked e pcs) wsf l \<and> l \<noteq> j"
proof -
  let ?q = "cv_sem (cv_at (cvs e) j)" and ?n = "mon_next (mt e)" and ?B = "phi_blocked e pcs"
  note cd = phi_coreD [OF c]
  obtain v where v: "?B j = Some (?q, v)" using j(3) by (auto simp: waits_cv_def phi_blocked_def phi_sem_def)
  have ne: "wsf ?q \<noteq> []" using j(4) v by (auto simp: queued_def)
  obtain k where k: "up cls ?q (ks (msys s)) = Some k" "minv A (phi_sems e) {..<N_phi} (who e) ?B (wsf(?q := tl (wsf ?q))) k"
    "current k = current (ks (msys s))" "idleproc k = idleproc (ks (msys s))" "sem_value k = sem_value (ks (msys s))"
    using minv_up [OF cd(1) sems_in(3) [OF j(1)]] ne cd(6) [OF j(1)] fun_upd_idem [of "sem_value (ks (msys s))" ?q 0] by auto
  let ?W = "wsf(?q := tl (wsf ?q))"
  obtain m u where m: "m < N_phi" "?B m = Some (?q, u)" "\<And>l. l < N_phi \<Longrightarrow> queued ?B ?W l \<longleftrightarrow> queued ?B wsf l \<and> l \<noteq> m"
    by (rule queued_wake [OF cd(1) sems_in(3) [OF j(1)] ne]) auto
  have mj: "m = j" using phi_blocked_at(3) [OF a m(1) cd(7) [OF m(1)] j(1) m(2)] by simp
  have Bi: "?B i = None" using i(2) by (simp add: phi_blocked_def)
  obtain k' where k': "down cls ?n w k = Some (Inr k')"
    "minv A (phi_sems e) {..<N_phi} (who e) (?B(i := Some (?n, w))) (?W(?n := ?W ?n @ [w])) k'"
    "idleproc k' = idleproc k" "sem_value k' = sem_value k"
    using minv_block [OF k(2) sems_in(2) _ _ Bi _ _ not_fresh [OF i(4,2)]] k(3,4,5) cd(3) cd(4) [OF i(1)] i(1,3) by auto
  have B': "phi_blocked e (pcs(i := Asleep pt w)) = ?B(i := Some (?n, w))"
    using pt by (auto simp: phi_blocked_upd phi_sem_def)
  have "cond_signal cls w (cv_at (cvs e) j) s = Some (Inr (upd_mks (\<lambda>_. k') (next_count_add 1 (mt e) s)))"
    using cd(5) [OF j(1)] cd(9) [OF j(1)] j(2,3) k(1) k'(1)
    by (simp add: cond_signal_def mon_up_def mon_down_def Let_def)
  moreover have "queued (?B(i := Some (?n, w))) (?W(?n := ?W ?n @ [w])) l \<longleftrightarrow> l = i \<or> queued ?B wsf l \<and> l \<noteq> j"
    if "l < N_phi" for l
    using queued_block [of "{..<N_phi}" ?B w l i ?n ?W, OF not_fresh [OF i(4,2)]] m(3) [OF that] mj that by auto
  ultimately show thesis
    using k'(2-4) k(4,5) by (intro that [of k' "?W(?n := ?W ?n @ [w])"]) (simp_all only: B')
qed

lemma phi_cv_core: "core A e R E wsf pcs s \<Longrightarrow> phi_cv (mt e) i s = Some (cv_at (cvs e) i)"
  using phi_coreD(2) by (simp add: phi_cv_def)

lemma phi_cv_set [simp]: "phi_cv m i (set_phi j v s) = phi_cv m i s"
  by (simp add: phi_cv_def)

text \<open>A neighbour that is signalled eats from then on, and the caller sleeps until it gives the token back.\<close>

lemma signalled_ok:
  assumes c: "core A e {i} (to_test pt i) wsf pcs s" and ph: "phi_phase e Inside wsf pcs s"
    and i: "i < N_phi" "pcs i = Thinks" "state_condvar s i = THINKING"
    and n: "cv_count (condvars s (cv_at (cvs e) i)) = 0"
    and pt: "pt = Put_left \<or> pt = Put_right" and j: "j = side pt i" "phi_can_eat j s"
    and m: "minv A (phi_sems e) {..<N_phi} (who e) (phi_blocked e (pcs(i := Asleep pt w))) wsf' k"
      "idleproc k = idleproc (ks (msys s))" "sem_value k = sem_value (ks (msys s))"
      "\<And>l. l < N_phi \<Longrightarrow> queued (phi_blocked e (pcs(i := Asleep pt w))) wsf' l \<longleftrightarrow>
         l = i \<or> queued (phi_blocked e pcs) wsf l \<and> l \<noteq> j"
  shows "phi_inv A e (pcs(i := Asleep pt w)) (upd_mks (\<lambda>_. k) (next_count_add 1 (mt e) (set_phi j EATING s)))"
proof -
  let ?p = "pcs(i := Asleep pt w)" and ?t = "upd_mks (\<lambda>_. k) (next_count_add 1 (mt e) (set_phi j EATING s))"
  note cd = phi_coreD [OF c]
  note nb = neighbours
  have jN: "j < N_phi" "j \<noteq> i" using j(1) nb [OF i(1)] by (auto simp: side_def)
  have jw: "waits_cv pcs j" "queued (phi_blocked e pcs) wsf j"
    using j(2) cd(10) [OF jN(1)] jN(2) by (auto simp: phi_can_eat_def shows_hungry waits_cv_def dest!: sym [of HUNGRY])
  have w: "waits_cv ?p l \<longleftrightarrow> waits_cv pcs l" "signals ?p l \<longleftrightarrow> l = i \<or> signals pcs l" for l
    using pt i(2) by (auto simp: waits_cv_def signals_def)
  have shown: "state_condvar ?t l = phi_shows (queued (phi_blocked e ?p) wsf' l) (?p l)" if l: "l < N_phi" for l
  proof -
    consider "l = i" | "l = j" | "l \<noteq> i" "l \<noteq> j" by blast
    then show ?thesis
    proof cases
      case 2
      then show ?thesis using m(4) [OF l] jN jw(1) by (auto simp: waits_cv_def phi_shows_def)
    next
      case 3
      then show ?thesis using m(4) [OF l] cd(10) [OF l] by simp
    qed (use pt i(3) jN(2) in \<open>auto simp: phi_shows_def\<close>)
  qed
  have apart: "state_condvar ?t (RIGHT l) \<noteq> EATING" if l: "l < N_phi" "state_condvar ?t l = EATING" for l
    using j(2) cd(8) [OF l(1)] l(2) nb [OF l(1)] by (auto simp: phi_can_eat_def split: if_splits)
  have why: "reason ?p (state_condvar ?t) l"
    if l: "l < N_phi" "waits_cv ?p l" "queued (phi_blocked e ?p) wsf' l" for l
  proof (cases "l \<in> to_test pt i")
    case True
    have "l \<noteq> j" using l(2) m(4) [OF l(1)] l(3) w(1) i(2) by (auto simp: waits_cv_def)
    then have "pt = Put_left" "l = RIGHT i" using True j(1) pt by (auto simp: to_test_def side_def split: if_splits)
    then show ?thesis using nb(1) [OF i(1)] by (simp add: reason_def)
  next
    case False
    have "queued (phi_blocked e pcs) wsf l" using l(2,3) m(4) [OF l(1)] w(1) i(2) by (auto simp: waits_cv_def)
    then show ?thesis
      using cd(11) [OF l(1) False] l(2) w(1) i(2) by (auto simp: reason_def)
  qed
  have count: "cv_count (condvars ?t (cv_at (cvs e) l)) = (if waits_cv ?p l then 1 else 0)" if "l < N_phi" for l
    using n cd(9) [OF that] w(1) i(2) pt by (cases "l = i") (auto simp: waits_cv_def)
  have "core A e {} {} wsf' ?p ?t"
    using m(1-3) cd(2-7) shown apart why count pt unfolding phi_core_def
    by (simp del: fun_upd_apply) (auto simp: fun_upd_apply)
  moreover have "granted_set e wsf' ?p = {j}"
  proof -
    have "phi_blocked e pcs j \<noteq> None" using jw(2) by (auto simp: queued_def)
    then show ?thesis
      using ph jN m(4) by (auto simp: phi_phase_def granted_set_def Let_def phi_blocked_upd)
  qed
  then have "phi_phase e (Woken j i) wsf' ?p ?t"
    using ph m(3) jN jw(1) w i(1) by (auto simp: phi_phase_def Let_def simp del: fun_upd_apply) (auto simp: fun_upd_apply)
  ultimately show ?thesis unfolding phi_inv_def outside_def by force
qed

lemma test_neighbour:
  assumes a: "table_apart e" and c: "core A e {i} (to_test pt i) wsf pcs s" and ph: "phi_phase e Inside wsf pcs s"
    and i: "i < N_phi" "pcs i = Thinks" "current (ks (msys s)) = Some (who e i)" "fresh_wait w i pcs"
    and st: "state_condvar s i = THINKING" and n: "cv_count (condvars s (cv_at (cvs e) i)) = 0"
    and pt: "pt = Put_left \<or> pt = Put_right" and j: "j = side pt i"
  shows "phi_test_condvar cls (mt e) w j s = Some (Inl s) \<and> core A e {i} (to_test pt i - {j}) wsf pcs s \<or>
    (\<exists>t. phi_test_condvar cls (mt e) w j s = Some (Inr t) \<and> phi_inv A e (pcs(i := Asleep pt w)) t)"
proof (cases "phi_can_eat j s")
  case False
  note cd = phi_coreD [OF c]
  have jN: "j < N_phi" "j \<noteq> i" using j neighbours [OF i(1)] by (auto simp: side_def)
  have "reason pcs (state_condvar s) j" if "waits_cv pcs j" "queued (phi_blocked e pcs) wsf j"
    using False cd(10) [OF jN(1)] that jN(2) by (auto simp: phi_can_eat_def reason_def shows_hungry waits_cv_def phi_shows_def)
  then have "core A e {i} (to_test pt i - {j}) wsf pcs s" using c unfolding phi_core_def by auto
  then show ?thesis using False by (simp add: phi_test_condvar_def)
next
  case True
  note cd = phi_coreD [OF c]
  have jN: "j < N_phi" "j \<noteq> i" using j neighbours [OF i(1)] by (auto simp: side_def)
  have jw: "waits_cv pcs j" "queued (phi_blocked e pcs) wsf j"
    using True cd(10) [OF jN(1)] jN(2) by (auto simp: phi_can_eat_def shows_hungry waits_cv_def dest!: sym [of HUNGRY])
  obtain k wsf' where k:
    "cond_signal cls w (cv_at (cvs e) j) s = Some (Inr (upd_mks (\<lambda>_. k) (next_count_add 1 (mt e) s)))"
    "minv A (phi_sems e) {..<N_phi} (who e) (phi_blocked e (pcs(i := Asleep pt w))) wsf' k"
    "idleproc k = idleproc (ks (msys s))" "sem_value k = sem_value (ks (msys s))"
    "\<And>l. l < N_phi \<Longrightarrow> queued (phi_blocked e (pcs(i := Asleep pt w))) wsf' l \<longleftrightarrow>
       l = i \<or> queued (phi_blocked e pcs) wsf l \<and> l \<noteq> j"
    using signal_neighbour [OF a c ph i jN jw pt] by blast
  have "cond_signal cls w (cv_at (cvs e) j) (set_phi j EATING s) =
      Some (Inr (upd_mks (\<lambda>_. k) (next_count_add 1 (mt e) (set_phi j EATING s))))"
    using signal_set k(1) by simp
  then have "phi_test_condvar cls (mt e) w j s = Some (Inr (upd_mks (\<lambda>_. k) (next_count_add 1 (mt e) (set_phi j EATING s))))"
    using True phi_cv_core [OF c] by (simp add: phi_test_condvar_def Let_def)
  then show ?thesis using signalled_ok [OF c ph i(1,2) st n pt j True k(2-5)] by blast
qed

text \<open>Changing the own entry of \<open>state_condvar\<close> while inside.\<close>

lemma core_set_more:
  assumes c: "core A e {i} E wsf pcs s" and i: "i < N_phi" "state_condvar s i \<noteq> EATING"
    and v: "v = EATING \<longrightarrow> state_condvar s (LEFT i) \<noteq> EATING \<and> state_condvar s (RIGHT i) \<noteq> EATING"
  shows "core A e {i} E wsf pcs (set_phi i v s)"
proof -
  note cd = phi_coreD [OF c]
  have "reason pcs ((state_condvar s)(i := v)) l" if "reason pcs (state_condvar s) l" for l
    using that i(2) by (auto simp: reason_def)
  moreover have "((state_condvar s)(i := v)) (RIGHT l) \<noteq> EATING" if "l < N_phi" "((state_condvar s)(i := v)) l = EATING" for l
    using that v cd(8) [OF that(1)] neighbours [OF that(1)] by (auto split: if_splits)
  ultimately show ?thesis using cd unfolding phi_core_def by (simp del: fun_upd_apply) (auto simp: fun_upd_apply)
qed

lemma core_set_less:
  assumes c: "core A e {i} E wsf pcs s" and i: "i < N_phi" "v \<noteq> EATING" "LEFT i \<in> E" "RIGHT i \<in> E"
  shows "core A e {i} E wsf pcs (set_phi i v s)"
proof -
  note cd = phi_coreD [OF c]
  have "reason pcs ((state_condvar s)(i := v)) l" if "l < N_phi" "l \<notin> E" "reason pcs (state_condvar s) l" for l
    using that(2,3) i(3,4) neighbours [OF that(1)] by (auto simp: reason_def)
  moreover have "((state_condvar s)(i := v)) (RIGHT l) \<noteq> EATING" if "l < N_phi" "((state_condvar s)(i := v)) l = EATING" for l
    using that i(2) cd(8) [OF that(1)] by (auto split: if_splits)
  ultimately show ?thesis using cd unfolding phi_core_def by (simp del: fun_upd_apply) (auto simp: fun_upd_apply)
qed

lemma core_weaken: "core A e R E wsf pcs s \<Longrightarrow> R \<subseteq> R' \<Longrightarrow> E \<subseteq> E' \<Longrightarrow> core A e R' E' wsf pcs s"
  unfolding phi_core_def by blast

lemma phase_set [simp]: "phi_phase e ph wsf pcs (set_phi i v s) = phi_phase e ph wsf pcs s"
  "phi_phase e ph wsf pcs (cv_count_add n c s) = phi_phase e ph wsf pcs s"
  by (simp_all add: phi_phase_def)

text \<open>Falling asleep at the mutex or on the own condition.\<close>

lemma fall_asleep:
  assumes a: "table_apart e" and c: "core A e {i} {} wsf pcs s" and ph: "phi_phase e ph wsf pcs s"
    and i: "i < N_phi" "pcs i = Thinks" "current (ks (msys s)) = Some (who e i)" "fresh_wait w i pcs"
    and pt: "pt \<in> {Take_mutex, Put_mutex, Take_wait}" "sem_value (ks (msys s)) (phi_sem e i pt) = 0"
    and st: "state_condvar s i = phi_shows True (Asleep pt w)" "pt = Take_wait \<Longrightarrow> reason pcs (state_condvar s) i"
    and n: "cv_count (condvars s (cv_at (cvs e) i)) = (if pt = Take_wait then 1 else 0)"
  shows "\<exists>t wsf'. mon_down cls (phi_sem e i pt) w s = Some (Inr t) \<and> core A e {} {} wsf' (pcs(i := Asleep pt w)) t \<and>
    phi_phase e ph wsf' (pcs(i := Asleep pt w)) t"
proof -
  let ?q = "phi_sem e i pt" and ?B = "phi_blocked e pcs" and ?p = "pcs(i := Asleep pt w)"
  let ?W = "wsf(?q := wsf ?q @ [w])"
  note cd = phi_coreD [OF c]
  have q: "?q \<in> phi_sems e" using pt(1) i(1) by (auto simp: phi_sem_def)
  have Bi: "?B i = None" using i(2) by (simp add: phi_blocked_def)
  obtain k where k: "down cls ?q w (ks (msys s)) = Some (Inr k)"
    "minv A (phi_sems e) {..<N_phi} (who e) (?B(i := Some (?q, w))) ?W k"
    "idleproc k = idleproc (ks (msys s))" "sem_value k = sem_value (ks (msys s))"
    using minv_block [OF cd(1) q pt(2) _ Bi i(3) cd(4) [OF i(1)] not_fresh [OF i(4,2)]] i(1) by auto
  let ?t = "upd_mks (\<lambda>_. k) s"
  have B': "phi_blocked e ?p = ?B(i := Some (?q, w))" by (rule phi_blocked_upd)
  have qu: "queued (phi_blocked e ?p) ?W l \<longleftrightarrow> l = i \<or> queued ?B wsf l" if "l < N_phi" for l
    using queued_block [of "{..<N_phi}" ?B w l i ?q wsf, OF not_fresh [OF i(4,2)]] that B' by auto
  have w: "signals ?p l = signals pcs l" "l \<noteq> i \<Longrightarrow> waits_cv ?p l = waits_cv pcs l" "l \<noteq> i \<Longrightarrow> enters ?p l = enters pcs l"
    "reason ?p st l = reason pcs st l" "waits_cv ?p i \<longleftrightarrow> pt = Take_wait" "\<not> waits_cv pcs i" "\<not> enters pcs i" for l st
    using pt(1) i(2) by (auto simp: waits_cv_def signals_def enters_def reason_def)
  have "state_condvar s l = phi_shows (queued (phi_blocked e ?p) ?W l) (?p l)" if "l < N_phi" for l
    using st(1) cd(10) [OF that] qu [OF that] by (cases "l = i") auto
  moreover have "cv_count (condvars s (cv_at (cvs e) l)) = (if waits_cv ?p l then 1 else 0)" if "l < N_phi" for l
    using n w(2) [of l] w(5) cd(9) [OF that] by (cases "l = i") auto
  moreover have "reason ?p (state_condvar s) l"
    if "l < N_phi" "waits_cv ?p l" "queued (phi_blocked e ?p) ?W l" for l
    using st(2) cd(11) [OF that(1)] that(2,3) w(2) [of l] w(5) w(4) qu [OF that(1)] by (cases "l = i") auto
  moreover have "?p l \<noteq> Asleep Take_signal v" if "l < N_phi" for l v using cd(7) [OF that] pt(1) by auto
  ultimately have "core A e {} {} ?W ?p ?t"
    using k(2-4) cd unfolding phi_core_def B' by (simp del: fun_upd_apply)
  moreover have "phi_phase e ph ?W ?p ?t"
  proof -
    have "granted_set e ?W ?p = granted_set e wsf pcs"
      using qu Bi by (auto simp: granted_set_def B' split: if_splits)
    moreover have "enters pcs l \<Longrightarrow> enters ?p l" "waits_cv pcs l \<Longrightarrow> waits_cv ?p l" for l
      using w(2,3,6,7) by (cases "l = i"; simp)+
    ultimately show ?thesis
      using ph k(4) w(1) by (cases ph) (simp_all add: phi_phase_def Let_def del: fun_upd_apply)
  qed
  ultimately show ?thesis using k(1) by (auto simp: mon_down_def)
qed

lemma core_count:
  assumes "core A e {i} E wsf pcs s" "table_apart e" "i < N_phi"
  shows "core A e {i} E wsf pcs (cv_count_add n (cv_at (cvs e) i) s)"
proof -
  have "cv_at (cvs e) l = cv_at (cvs e) i \<longleftrightarrow> l = i" if "l < N_phi" for l
    using table_apartD(3) [OF assms(2) that assms(3)] .
  then show ?thesis using phi_coreD [OF assms(1)] unfolding phi_core_def by simp
qed

text \<open>\<open>phi_take_forks_condvar\<close> from the point where it has the mutex.\<close>

lemma wait_ok:
  assumes a: "table_apart e" and c: "core A e {i} {} wsf pcs s" and ph: "phi_phase e Inside wsf pcs s"
    and i: "i < N_phi" "pcs i = Thinks" "current (ks (msys s)) = Some (who e i)" "fresh_wait w i pcs"
    and st: "state_condvar s i = HUNGRY" "reason pcs (state_condvar s) i"
    and n: "cv_count (condvars s (cv_at (cvs e) i)) = 0"
  shows "goes_on A e pcs i Eats w (take_tested cls (mt e) w i s)"
proof -
  let ?s = "cv_count_add 1 (cv_at (cvs e) i) s"
  note c1 = core_count [OF c a i(1), of 1]
  obtain t wsf' ph' where t: "monitor_leave cls (mt e) ?s = Some t" "core A e {i} {} wsf' pcs t"
    "phi_phase e ph' wsf' pcs t" "ph' = Free \<or> (\<exists>j. ph' = Entering j)"
    "current (ks (msys t)) = current (ks (msys s))" "state_condvar t = state_condvar s" "condvars t = condvars ?s"
    using leave_empty [OF a c1] ph by auto
  have q: "phi_sem e i Take_wait = cv_sem (cv_at (cvs e) i)" by (simp add: phi_sem_def)
  obtain u wsf2 where u: "mon_down cls (cv_sem (cv_at (cvs e) i)) w t = Some (Inr u)"
    "core A e {} {} wsf2 (pcs(i := Asleep Take_wait w)) u" "phi_phase e ph' wsf2 (pcs(i := Asleep Take_wait w)) u"
    using fall_asleep [OF a t(2,3) i(1,2) _ i(4), of Take_wait] t(5-7) i(3) st n phi_coreD(6) [OF t(2) i(1)]
    unfolding q by (auto simp: phi_shows_def)
  have "cond_wait cls w (cv_at (cvs e) i) s = Some (Inr u)"
    using t(1) u(1) phi_coreD(5) [OF c i(1)] by (simp add: cond_wait_def Let_def)
  then have "take_tested cls (mt e) w i s = Some (Inr (Take_wait, u))"
    using st(1) phi_cv_core [OF c] by (simp add: take_tested_def phi_then_def)
  moreover have "outside ph'" using t(4) by (auto simp: outside_def)
  ultimately show ?thesis using u(2,3) unfolding goes_on_def phi_inv_def by (auto simp: moved_def moved_to_def)
qed

lemma take_entered_ok:
  assumes a: "table_apart e" and c: "core A e {i} {} wsf pcs s" and ph: "phi_phase e Inside wsf pcs s"
    and i: "i < N_phi" "pcs i = Thinks" "current (ks (msys s)) = Some (who e i)" "fresh_wait w i pcs"
    and st: "state_condvar s i = THINKING" and n: "cv_count (condvars s (cv_at (cvs e) i)) = 0"
  shows "goes_on A e pcs i Eats w (take_entered cls (mt e) w i s)"
proof -
  let ?s = "set_phi i HUNGRY s"
  have c1: "core A e {i} {} wsf pcs ?s" using core_set_more [OF c i(1)] st by simp
  show ?thesis
  proof (cases "phi_can_eat i ?s")
    case True
    let ?t = "set_phi i EATING ?s"
    have c2: "core A e {i} {} wsf pcs ?t" using core_set_more [OF c1 i(1)] True by (simp add: phi_can_eat_def)
    have "phi_test_condvar cls (mt e) w i ?s = Some (Inl ?t)"
      using True phi_cv_core [OF c] n by (simp add: phi_test_condvar_def cond_signal_def)
    then have "take_entered cls (mt e) w i s = phi_leave cls (mt e) ?t"
      by (simp add: take_entered_def phi_then_def take_tested_def)
    then show ?thesis using phi_leave_ok [OF a c2 _ i(2,1)] ph n by (simp add: phi_shows_def)
  next
    case False
    have "reason pcs (state_condvar ?s) i" using False by (auto simp: phi_can_eat_def reason_def)
    moreover have "take_entered cls (mt e) w i s = take_tested cls (mt e) w i ?s"
      using False by (simp add: take_entered_def phi_then_def phi_test_condvar_def)
    ultimately show ?thesis using wait_ok [OF a c1 _ i(1,2) _ i(4)] ph i(3) n by simp
  qed
qed

text \<open>\<open>phi_put_forks_condvar\<close> from the points where it tests its neighbours.\<close>

lemma asleep_goes_on:
  "r = Some (Inr (pt, t)) \<Longrightarrow> phi_inv A e (pcs(i := Asleep pt w)) t \<Longrightarrow> goes_on A e pcs i d w r"
  by (simp add: goes_on_def moved_def moved_to_def)

lemma put_left_tested_ok:
  assumes a: "table_apart e" and c: "core A e {i} {RIGHT i} wsf pcs s" and ph: "phi_phase e Inside wsf pcs s"
    and i: "i < N_phi" "pcs i = Thinks" "current (ks (msys s)) = Some (who e i)" "fresh_wait w i pcs"
    and st: "state_condvar s i = THINKING" and n: "cv_count (condvars s (cv_at (cvs e) i)) = 0"
  shows "goes_on A e pcs i Thinks w (put_left_tested cls (mt e) w i s)"
proof -
  have c': "core A e {i} (to_test Put_right i) wsf pcs s" using c by (simp add: to_test_def)
  consider "phi_test_condvar cls (mt e) w (RIGHT i) s = Some (Inl s)" "core A e {i} {} wsf pcs s"
    | t where "phi_test_condvar cls (mt e) w (RIGHT i) s = Some (Inr t)" "phi_inv A e (pcs(i := Asleep Put_right w)) t"
    using test_neighbour [OF a c' ph i st n, of "RIGHT i"] by (auto simp: side_def to_test_def)
  then show ?thesis
  proof cases
    case 1
    then show ?thesis
      using phi_leave_ok [OF a 1(2) ph i(2,1)] st n by (simp add: put_left_tested_def phi_then_def phi_shows_def)
  next
    case 2
    then show ?thesis by (intro asleep_goes_on [OF _ 2(2)]) (simp add: put_left_tested_def phi_then_def)
  qed
qed

lemma put_entered_ok:
  assumes a: "table_apart e" and c: "core A e {i} {} wsf pcs s" and ph: "phi_phase e Inside wsf pcs s"
    and i: "i < N_phi" "pcs i = Thinks" "current (ks (msys s)) = Some (who e i)" "fresh_wait w i pcs"
    and n: "cv_count (condvars s (cv_at (cvs e) i)) = 0"
  shows "goes_on A e pcs i Thinks w (put_entered cls (mt e) w i s)"
proof -
  let ?s = "set_phi i THINKING s"
  have "core A e {i} (to_test Put_left i) wsf pcs ?s"
    using core_set_less [OF core_weaken [OF c subset_refl, of "{LEFT i, RIGHT i}"] i(1)] by (auto simp: to_test_def)
  note tn = test_neighbour [OF a this _ i(1,2), of w "LEFT i"]
  consider "phi_test_condvar cls (mt e) w (LEFT i) ?s = Some (Inl ?s)" "core A e {i} {RIGHT i} wsf pcs ?s"
    | t where "phi_test_condvar cls (mt e) w (LEFT i) ?s = Some (Inr t)" "phi_inv A e (pcs(i := Asleep Put_left w)) t"
    using tn ph i(3,4) n neighbours [OF i(1)] by (auto simp: side_def to_test_def insert_Diff_if)
  then show ?thesis
  proof cases
    case 1
    then show ?thesis
      using put_left_tested_ok [OF a 1(2) _ i(1,2) _ i(4)] ph i(3) n by (simp add: put_entered_def phi_then_def)
  next
    case 2
    then show ?thesis by (intro asleep_goes_on [OF _ 2(2)]) (simp add: put_entered_def phi_then_def)
  qed
qed

text \<open>A philosopher about to call a routine of the monitor.\<close>

lemma run_start:
  assumes c: "core A e {} {} wsf pcs s" and i: "i < N_phi" "pcs i \<in> {Thinks, Eats}"
  shows "core A e {i} {} wsf (pcs(i := Thinks)) s" "phi_phase e ph wsf (pcs(i := Thinks)) s = phi_phase e ph wsf pcs s"
    "cv_count (condvars s (cv_at (cvs e) i)) = 0" "state_condvar s i = phi_shows q (pcs i)"
proof -
  note cd = phi_coreD [OF c]
  have B: "phi_blocked e (pcs(i := Thinks)) = phi_blocked e pcs"
    using i(2) by (auto simp: phi_blocked_def fun_eq_iff)
  have w: "waits_cv (pcs(i := Thinks)) l = waits_cv pcs l" "signals (pcs(i := Thinks)) l = signals pcs l"
    "enters (pcs(i := Thinks)) l = enters pcs l" "reason (pcs(i := Thinks)) st l = reason pcs st l" "\<not> waits_cv pcs i" for l st
    using i(2) by (auto simp: waits_cv_def signals_def enters_def reason_def)
  show "core A e {i} {} wsf (pcs(i := Thinks)) s" using cd unfolding phi_core_def B w by simp
  show "phi_phase e ph wsf (pcs(i := Thinks)) s = phi_phase e ph wsf pcs s" unfolding phi_phase_def granted_set_def B w ..
  show "cv_count (condvars s (cv_at (cvs e) i)) = 0" using cd(9) [OF i(1)] w(5) by simp
  show "state_condvar s i = phi_shows q (pcs i)" using cd(10) [OF i(1)] i(2) by (auto simp: phi_shows_def)
qed

text \<open>\<open>down\<close> of the mutex passes when the monitor is free.\<close>

lemma mutex_pass:
  assumes c: "core A e R E wsf pcs s" and ph: "phi_phase e Free wsf pcs s"
  obtains k where "mon_down cls (mon_mutex (mt e)) w s = Some (Inl (upd_mks (\<lambda>_. k) s))"
    "core A e R E wsf pcs (upd_mks (\<lambda>_. k) s)" "phi_phase e Inside wsf pcs (upd_mks (\<lambda>_. k) s)"
    "current k = current (ks (msys s))"
proof -
  let ?q = "mon_mutex (mt e)"
  note cd = phi_coreD [OF c]
  have v: "sem_value (ks (msys s)) ?q = 1" using ph by (simp add: phi_phase_def)
  let ?k = "set_sem ?q 0 (ks (msys s))"
  have d: "down cls ?q w (ks (msys s)) = Some (Inl ?k)"
    and m: "minv A (phi_sems e) {..<N_phi} (who e) (phi_blocked e pcs) wsf ?k"
    using minv_pass [OF cd(1) sems_in(1)] v by simp_all
  have "core A e R E wsf pcs (upd_mks (\<lambda>_. ?k) s)"
    using core_ks [OF c m] cd(3,6) by (auto simp: set_sem_def)
  moreover have "phi_phase e Inside wsf pcs (upd_mks (\<lambda>_. ?k) s)"
    using ph by (simp add: phi_phase_def kst_simps)
  ultimately show thesis using d by (intro that [of ?k]) (simp_all add: mon_down_def set_sem_def)
qed

lemma enter_ok:
  assumes a: "table_apart e" and c: "core A e {} {} wsf pcs s" and ph: "phi_phase e ph wsf pcs s" "outside ph"
    and i: "i < N_phi" "pcs i \<in> {Thinks, Eats}" "current (ks (msys s)) = Some (who e i)" "fresh_wait w i pcs"
    and pt: "pt = (if pcs i = Thinks then Take_mutex else Put_mutex)"
    and f: "\<And>wsf t. core A e {i} {} wsf (pcs(i := Thinks)) t \<Longrightarrow> phi_phase e Inside wsf (pcs(i := Thinks)) t \<Longrightarrow>
      current (ks (msys t)) = Some (who e i) \<Longrightarrow> state_condvar t i = phi_shows False (pcs i) \<Longrightarrow>
      cv_count (condvars t (cv_at (cvs e) i)) = 0 \<Longrightarrow> goes_on A e (pcs(i := Thinks)) i d w (f t)"
  shows "goes_on A e pcs i d w (phi_then (mon_down cls (mon_mutex (mt e)) w s) pt f)"
proof -
  let ?p = "pcs(i := Thinks)"
  note rs = run_start [OF c i(1,2)]
  have w': "fresh_wait w i ?p" using i(4) by (simp add: fresh_wait_def)
  have twice: "goes_on A e ?p i d w r = goes_on A e pcs i d w r" for r by (simp add: goes_on_def)
  show ?thesis
  proof (cases "ph = Free")
    case True
    obtain k where k: "mon_down cls (mon_mutex (mt e)) w s = Some (Inl (upd_mks (\<lambda>_. k) s))"
      "core A e {i} {} wsf ?p (upd_mks (\<lambda>_. k) s)" "phi_phase e Inside wsf ?p (upd_mks (\<lambda>_. k) s)"
      "current k = current (ks (msys s))"
      using mutex_pass [OF rs(1)] rs(2) ph(1) True by metis
    show ?thesis using f [OF k(2,3)] k(1,4) i(3) rs(3) rs(4) [of False] twice by (simp add: phi_then_def)
  next
    case False
    have v: "sem_value (ks (msys s)) (phi_sem e i pt) = 0"
      using ph(1) False pt by (auto simp: phi_phase_def phi_sem_def)
    have "state_condvar s i = phi_shows True (Asleep pt w)" "pt \<noteq> Take_wait" "pt \<in> {Take_mutex, Put_mutex, Take_wait}"
      using rs(4) [of True] pt i(2) by (auto simp: phi_shows_def)
    then obtain t wsf' where t: "mon_down cls (phi_sem e i pt) w s = Some (Inr t)"
      "core A e {} {} wsf' (?p(i := Asleep pt w)) t" "phi_phase e ph wsf' (?p(i := Asleep pt w)) t"
      using fall_asleep [OF a rs(1) ph(1)[folded rs(2)] i(1) _ i(3) w' _ v] rs(3) by auto
    have "phi_sem e i pt = mon_mutex (mt e)" using pt by (simp add: phi_sem_def)
    then have "phi_then (mon_down cls (mon_mutex (mt e)) w s) pt f = Some (Inr (pt, t))"
      using t(1) by (simp add: phi_then_def)
    moreover have "phi_inv A e (pcs(i := Asleep pt w)) t" using t(2,3) ph(2) by (auto simp: phi_inv_def)
    ultimately show ?thesis by (rule asleep_goes_on)
  qed
qed

text \<open>A sleeper that has become current holds the token; it leaves its \<open>down\<close> and is inside.\<close>

lemma run_resume:
  assumes c: "core A e {} {} wsf pcs s" and i: "i < N_phi" "pcs i = Asleep pt v" "current (ks (msys s)) = Some (who e i)"
  shows "mon_down_finish (phi_sem e i pt) v s = Some s" "\<not> queued (phi_blocked e pcs) wsf i"
    "core A e {i} (if pt = Put_left then {RIGHT i} else {}) wsf (pcs(i := Thinks)) s"
    "granted_set e wsf (pcs(i := Thinks)) = granted_set e wsf pcs - {i}"
proof -
  let ?B = "phi_blocked e pcs" and ?p = "pcs(i := Thinks)"
  note cd = phi_coreD [OF c]
  have B: "?B i = Some (phi_sem e i pt, v)" using i(2) by (simp add: phi_blocked_def)
  have B': "phi_blocked e ?p = ?B(i := None)" by (simp add: phi_blocked_upd)
  have f: "down_finish (phi_sem e i pt) v (ks (msys s)) = Some (ks (msys s))" "\<not> queued ?B wsf i"
    "minv A (phi_sems e) {..<N_phi} (who e) (phi_blocked e ?p) wsf (ks (msys s))"
    using minv_finish [OF cd(1) _ B i(3)] i(1) unfolding B' by auto
  show "mon_down_finish (phi_sem e i pt) v s = Some s" using f(1) by (simp add: mon_down_finish_def upd_mks_def)
  show "\<not> queued ?B wsf i" by (rule f)
  have q: "queued (phi_blocked e ?p) wsf l \<longleftrightarrow> l \<noteq> i \<and> queued ?B wsf l" for l unfolding B' by (rule queued_finish)
  show "granted_set e wsf ?p = granted_set e wsf pcs - {i}" by (auto simp: granted_set_def q [unfolded B'] B')
  have w: "l \<noteq> i \<Longrightarrow> waits_cv ?p l = waits_cv pcs l" "\<not> waits_cv ?p i" for l by (auto simp: waits_cv_def)
  have "reason ?p (state_condvar s) l"
    if l: "l < N_phi" "l \<notin> (if pt = Put_left then {RIGHT i} else {})" "waits_cv ?p l" "queued (phi_blocked e ?p) wsf l" for l
  proof -
    have li: "l \<noteq> i" using l(4) q by simp
    then have "reason pcs (state_condvar s) l" using cd(11) [OF l(1)] l(3,4) w(1) q by simp
    moreover have "LEFT l = i \<Longrightarrow> pt \<noteq> Put_left" using l(2) neighbours(2) [OF l(1)] by auto
    ultimately show ?thesis using i(2) by (auto simp: reason_def)
  qed
  then show "core A e {i} (if pt = Put_left then {RIGHT i} else {}) wsf ?p s"
    using cd f(3) w(1) q unfolding phi_core_def by (simp del: fun_upd_apply) (auto simp: fun_upd_apply)
qed

text \<open>Who holds the token after having slept.\<close>

lemma token:
  assumes ph: "phi_phase e ph wsf pcs s" and i: "i < N_phi" "pcs i = Asleep pt v" "\<not> queued (phi_blocked e pcs) wsf i"
    and pt: "pt \<noteq> Take_signal"
  shows "enters pcs i \<Longrightarrow> ph = Entering i" "signals pcs i \<Longrightarrow> ph = Back i"
    "pt = Take_wait \<Longrightarrow> outside ph \<Longrightarrow> \<exists>k. ph = Woken i k"
proof -
  define g z where "g = granted_set e wsf pcs" and "z = {l. l < N_phi \<and> signals pcs l}"
  have g: "i \<in> g" using i by (simp add: g_def granted_set_def phi_blocked_def)
  have z: "i \<in> z \<longleftrightarrow> signals pcs i" using i(1) by (simp add: z_def)
  note p = ph [unfolded phi_phase_def Let_def, folded g_def z_def]
  show "enters pcs i \<Longrightarrow> ph = Entering i" using p g z by (cases ph) auto
  show "signals pcs i \<Longrightarrow> ph = Back i" using p g z by (cases ph) auto
  assume pt: "pt = Take_wait" "outside ph"
  then have "\<not> enters pcs i" "\<not> signals pcs i" using i(2) by (auto simp: enters_def signals_def)
  then show "\<exists>k. ph = Woken i k" using p g z pt(2) by (cases ph) (auto simp: outside_def)
qed

lemma resume_ok:
  assumes a: "table_apart e" and c: "core A e {} {} wsf pcs s" and ph: "phi_phase e ph wsf pcs s" "outside ph"
    and i: "i < N_phi" "pcs i = Asleep pt v" "current (ks (msys s)) = Some (who e i)" "fresh_wait w i pcs"
  shows "goes_on A e pcs i (after_point pt) w (phi_resume cls (mt e) pt v w i s)"
proof -
  let ?p = "pcs(i := Thinks)"
  note cd = phi_coreD [OF c]
  note rr = run_resume [OF c i(1-3)]
  note tk = token [OF ph(1) i(1,2) rr(2)]
  have w': "fresh_wait w i ?p" using i(4) by (simp add: fresh_wait_def)
  have twice: "goes_on A e ?p i d w r = goes_on A e pcs i d w r" for d r by (simp add: goes_on_def)
  have st: "state_condvar s i = phi_shows False (Asleep pt v)" using cd(10) [OF i(1)] i(2) rr(2) by simp
  have n: "cv_count (condvars s (cv_at (cvs e) i)) = (if pt = Take_wait then 1 else 0)"
    using cd(9) [OF i(1)] i(2) by (auto simp: waits_cv_def)
  have sg: "signals ?p l \<longleftrightarrow> l \<noteq> i \<and> signals pcs l" for l by (auto simp: signals_def)
  have pN: "?p i = Thinks" by simp
  note nb = neighbours [OF i(1)]
  consider "pt = Take_mutex \<or> pt = Put_mutex" | "pt = Take_wait" | "pt = Put_left \<or> pt = Put_right"
    using cd(7) [OF i(1), of v] i(2) by (cases pt) auto
  then show ?thesis
  proof cases
    case 1
    then have e: "enters pcs i" "ph = Entering i" using tk(1) i(2) by (auto simp: enters_def)
    then have in_: "phi_phase e Inside wsf ?p s" using ph(1) rr(4) sg by (simp add: phi_phase_def Let_def)
    have c1: "core A e {i} {} wsf ?p s" using rr(3) 1 by auto
    have n0: "cv_count (condvars s (cv_at (cvs e) i)) = 0" using n 1 by auto
    from 1 show ?thesis
    proof
      assume pt: "pt = Take_mutex"
      then have "goes_on A e ?p i Eats w (take_entered cls (mt e) w i s)"
        using take_entered_ok [OF a c1 in_ i(1) pN i(3) w' _ n0] st by (simp add: phi_shows_def)
      then show ?thesis using pt rr(1) twice by (simp add: phi_sem_def after_point_def)
    next
      assume pt: "pt = Put_mutex"
      then have "goes_on A e ?p i Thinks w (put_entered cls (mt e) w i s)"
        using put_entered_ok [OF a c1 in_ i(1) pN i(3) w' n0] by simp
      then show ?thesis using pt rr(1) twice by (simp add: phi_sem_def after_point_def)
    qed
  next
    case 2
    then obtain k where k: "ph = Woken i k" using tk(3) ph(2) by auto
    have ki: "k \<noteq> i" using ph(1) k by (auto simp: phi_phase_def Let_def)
    let ?s = "cv_count_add (- 1) (cv_at (cvs e) i) s"
    have "{l. l < N_phi \<and> signals ?p l} = {k}" using ph(1) k ki sg by (auto simp: phi_phase_def Let_def)
    then have in_: "phi_phase e (Inside_with k) wsf ?p ?s" using ph(1) k rr(4) by (simp add: phi_phase_def Let_def)
    have c1: "core A e {i} {} wsf ?p ?s" using core_count [OF rr(3) a i(1)] 2 by simp
    have "goes_on A e ?p i Eats w (phi_leave cls (mt e) ?s)"
      using st 2 n by (intro phi_leave_signalled_ok [OF a c1 in_ pN i(1)]) (auto simp: phi_shows_def)
    then show ?thesis
      using 2 rr(1) twice phi_cv_core [OF c] by (simp add: phi_sem_def after_point_def cond_wait_resume_def)
  next
    case 3
    then have "signals pcs i" "ph = Back i" using tk(2) i(2) by (auto simp: signals_def)
    then have b: "ph = Back i" "{l. l < N_phi \<and> signals ?p l} = {}" using ph(1) sg by (auto simp: phi_phase_def Let_def)
    let ?s = "next_count_add (- 1) (mt e) s"
    have in_: "phi_phase e Inside wsf ?p ?s" using ph(1) b rr(4) by (simp add: phi_phase_def Let_def)
    have ks: "core A e R E wsf ?p ?s = core A e R E wsf ?p s" for R E by (simp add: phi_core_def)
    have n0: "cv_count (condvars ?s (cv_at (cvs e) i)) = 0" using n 3 by auto
    have st0: "state_condvar ?s i = THINKING" using st 3 by (auto simp: phi_shows_def)
    have fin: "cond_signal_resume v (cv_at (cvs e) l) s = Some ?s" if "l < N_phi" for l
      using rr(1) 3 cd(5) [OF that] by (auto simp: cond_signal_resume_def phi_sem_def)
    from 3 show ?thesis
    proof
      assume pt: "pt = Put_left"
      then have "goes_on A e ?p i Thinks w (put_left_tested cls (mt e) w i ?s)"
        using put_left_tested_ok [OF a _ in_ i(1) pN _ w' st0 n0] rr(3) i(3) ks by simp
      then show ?thesis using pt fin [OF nb(6)] twice phi_cv_core [OF c] by (simp add: after_point_def)
    next
      assume pt: "pt = Put_right"
      then have "goes_on A e ?p i Thinks w (phi_leave cls (mt e) ?s)"
        using rr(3) st0 ks pt
        by (intro phi_leave_ok [OF a _ in_ pN i(1) _ _ n0]) (auto simp: phi_shows_def simp del: fun_upd_apply)
      then show ?thesis using pt fin [OF nb(7)] twice phi_cv_core [OF c] by (simp add: after_point_def)
    qed
  qed
qed

lemma step_ok:
  assumes a: "table_apart e" and v: "phi_inv A e pcs s"
    and i: "i < N_phi" "current (ks (msys s)) = Some (who e i)" "fresh_wait w i pcs"
  shows "goes_on A e pcs i (phi_next (pcs i)) w (phi_step cls e w i (pcs i) s)"
proof -
  obtain wsf ph where c: "core A e {} {} wsf pcs s" "phi_phase e ph wsf pcs s" "outside ph" using v by (auto simp: phi_inv_def)
  have w': "fresh_wait w i (pcs(i := Thinks))" using i(3) by (simp add: fresh_wait_def)
  show ?thesis
  proof (cases "pcs i")
    case Thinks
    have "goes_on A e pcs i Eats w (phi_then (mon_down cls (mon_mutex (mt e)) w s) Take_mutex (take_entered cls (mt e) w i))"
      using Thinks i take_entered_ok [OF a _ _ i(1) _ _ w'] by (intro enter_ok [OF a c]) (auto simp: phi_shows_def)
    then show ?thesis using Thinks by (simp add: phi_step_def phi_next_def phi_take_forks_condvar_def)
  next
    case Eats
    have "goes_on A e pcs i Thinks w (phi_then (mon_down cls (mon_mutex (mt e)) w s) Put_mutex (put_entered cls (mt e) w i))"
      using Eats i put_entered_ok [OF a _ _ i(1) _ _ w'] by (intro enter_ok [OF a c]) auto
    then show ?thesis using Eats by (simp add: phi_step_def phi_next_def phi_put_forks_condvar_def)
  next
    case (Asleep pt u)
    then show ?thesis using resume_ok [OF a c i(1) _ i(2,3)] by (simp add: phi_step_def phi_next_def)
  qed
qed

lemma switch_ok:
  assumes v: "phi_inv A e pcs s"
  shows "\<exists>k. schedule cls (ks (msys s)) = Some k \<and> phi_inv A e pcs (upd_mks (\<lambda>_. k) s)"
proof -
  obtain wsf ph where c: "core A e {} {} wsf pcs s" "phi_phase e ph wsf pcs s" "outside ph" using v by (auto simp: phi_inv_def)
  note cd = phi_coreD [OF c(1)]
  obtain k where k: "schedule cls (ks (msys s)) = Some k" "minv A (phi_sems e) {..<N_phi} (who e) (phi_blocked e pcs) wsf k"
    "idleproc k = idleproc (ks (msys s))" "sem_value k = sem_value (ks (msys s))"
    using minv_schedule [OF cd(1)] by blast
  have "core A e {} {} wsf pcs (upd_mks (\<lambda>_. k) s)" using core_ks [OF c(1) k(2,3)] k(4) cd(3,6) by simp
  moreover have "phi_phase e ph wsf pcs (upd_mks (\<lambda>_. k) s)" using c(2) k(4) by (simp add: phi_phase_def)
  ultimately show ?thesis using k(1) c(3) by (auto simp: phi_inv_def)
qed

lemma phi_run_inv:
  assumes "phi_run cls e s0 s pcs" "table_apart e" "phi_inv A e (\<lambda>_. Thinks) s0"
  shows "phi_inv A e pcs s"
  using assms(1)
proof induction
  case (phi_move s pcs i w r)
  then show ?case using step_ok [OF assms(2) phi_move.IH phi_move.hyps(2-4)] by (simp add: goes_on_def del: fun_upd_apply)
next
  case (phi_switch s pcs k)
  then show ?case using switch_ok [OF phi_switch.IH] by simp
qed (rule assms(3))

text \<open>Somebody can always run.\<close>

lemma somebody_awake:
  assumes v: "phi_inv A e pcs s"
  shows "\<exists>i<N_phi. state (procs (ks (msys s)) (who e i)) = PROC_RUNNABLE"
proof -
  obtain wsf ph where c: "core A e {} {} wsf pcs s" and ph: "phi_phase e ph wsf pcs s" "outside ph"
    using v by (auto simp: phi_inv_def)
  note cd = phi_coreD [OF c]
  let ?B = "phi_blocked e pcs"
  have "\<exists>i<N_phi. \<not> queued ?B wsf i"
  proof (cases "ph = Free")
    case False
    then obtain i where "i \<in> granted_set e wsf pcs" using ph by (cases ph) (auto simp: phi_phase_def outside_def Let_def)
    then show ?thesis by (auto simp: granted_set_def)
  next
    case True
    have me: "wsf (mon_mutex (mt e)) = []"
      using ph(1) True sems_invD(4) [OF cd(1) sems_in(1)] by (auto simp: phi_phase_def sem_inv_def)
    have ns: "\<not> signals pcs i" if "i < N_phi" for i using ph(1) True that by (auto simp: phi_phase_def Let_def)
    show ?thesis
    proof (rule ccontr)
      assume "\<not> (\<exists>i<N_phi. \<not> queued ?B wsf i)"
      then have q: "queued ?B wsf i" if "i < N_phi" for i using that by blast
      have w: "waits_cv pcs i" if i: "i < N_phi" for i
        using q [OF i] me ns [OF i] cd(7) [OF i]
        by (auto simp: queued_def phi_blocked_def phi_sem_def waits_cv_def signals_def split: phi_pc.splits phi_point.splits)
      have "state_condvar s i = HUNGRY" if "i < N_phi" for i
        using cd(10) [OF that] q [OF that] w [OF that] by (auto simp: waits_cv_def phi_shows_def)
      moreover have z: "0 < N_phi" by (simp add: N_phi_def)
      moreover have "reason pcs (state_condvar s) 0" using cd(11) [OF z] w [OF z] q [OF z] by simp
      ultimately show False
        using neighbours(6,7) [OF z] w [of "LEFT 0"] by (auto simp: reason_def waits_cv_def)
    qed
  qed
  then show ?thesis using sems_invD(6) [OF cd(1)] by auto
qed

lemma no_shared_fork:
  assumes v: "phi_inv A e pcs s" and i: "i < N_phi" "pcs i = Eats"
  shows "pcs (LEFT i) \<noteq> Eats \<and> pcs (RIGHT i) \<noteq> Eats"
proof -
  obtain wsf ph where c: "core A e {} {} wsf pcs s" using v by (auto simp: phi_inv_def)
  note cd = phi_coreD [OF c]
  have e: "state_condvar s j = EATING" if "j < N_phi" "pcs j = Eats" for j using cd(10) [OF that(1)] that(2) by (simp add: phi_shows_def)
  show ?thesis using e cd(8) neighbours [OF i(1)] i by metis
qed

end

subsection \<open>The initial state\<close>

lemma sem_init_fields [simp]:
  "procs (sem_init q n s) = procs s" "current (sem_init q n s) = current s" "idleproc (sem_init q n s) = idleproc s"
  "sem_value (sem_init q n s) = (sem_value s)(q := n)"
  by (simp_all add: sem_init_def wait_queue_init_def kst_simps)

lemma sem_init_queue: "wait_list_is s r [] \<or> r = q \<Longrightarrow> wait_list_is (sem_init q n s) r []"
proof (cases "r = q")
  case False
  assume "wait_list_is s r [] \<or> r = q"
  then have d: "dlist (klinks s) (Wait_head r) []" using False by (simp add: wait_list_is_def)
  have "Wait_head r \<noteq> Wait_head q" using False by simp
  then have "dlist (list_init (Wait_head q) (klinks s)) (Wait_head r) []"
    by (intro ll.holds_frame [OF d]) (simp add: ll.init_same)
  then show ?thesis by (simp add: wait_list_is_def sem_init_def wait_queue_init_def kst_simps)
qed (use sem_init_sem_inv [of 0 "{}" q s] in
    \<open>simp add: sem_inv_def wait_list_is_def sem_init_def wait_queue_init_def kst_simps ll.init_holds\<close>)

text \<open>\<open>set_up e n s t\<close>: \<open>t\<close> is \<open>s\<close> with the monitor and its first \<open>n\<close> condition variables initialised.\<close>

definition set_up :: "(kst \<Rightarrow> nat set \<Rightarrow> bool) \<Rightarrow> (nat \<Rightarrow> kst \<Rightarrow> bool) \<Rightarrow> nat set \<Rightarrow> table \<Rightarrow> nat \<Rightarrow> monst \<Rightarrow> monst \<Rightarrow> bool" where
  "set_up ready detached A e n s t \<longleftrightarrow>
     (let k = ks (msys t); k0 = ks (msys s) in
      sched_inv ready detached A k \<and> procs k = procs k0 \<and> current k = current k0 \<and> idleproc k = idleproc k0 \<and>
      state_condvar t = state_condvar s \<and> next_count (monitors t (mt e)) = 0 \<and> mon_cv (monitors t (mt e)) = Some (cvs e) \<and>
      sem_value k (mon_mutex (mt e)) = 1 \<and> sem_value k (mon_next (mt e)) = 0 \<and>
      wait_list_is k (mon_mutex (mt e)) [] \<and> wait_list_is k (mon_next (mt e)) [] \<and>
      (\<forall>i<n. sem_value k (cv_sem (cv_at (cvs e) i)) = 0 \<and> wait_list_is k (cv_sem (cv_at (cvs e) i)) [] \<and>
        cv_count (condvars t (cv_at (cvs e) i)) = 0 \<and> cv_owner (condvars t (cv_at (cvs e) i)) = mt e))"

lemma set_up_next:
  assumes "kernel_class cls ready detached" "table_apart e" "set_up ready detached A e n s t" "n < N_phi"
  shows "set_up ready detached A e (Suc n) s (condvar_init (mt e) (cvs e) n t)"
proof -
  have d: "cv_at (cvs e) i \<noteq> cv_at (cvs e) n" if "i < n" for i
    using table_apartD(3) [OF assms(2), of i n] that assms(4) by auto
  have m: "cv_at (cvs e) n \<noteq> mon_mutex (mt e)" "cv_at (cvs e) n \<noteq> mon_next (mt e)"
    using table_apartD(1,2) [OF assms(2,4)] by (simp_all add: cv_sem_def)
  show ?thesis
    using assms(3) d m sem_init_inv [OF assms(1)]
    by (auto simp: set_up_def condvar_init_def Let_def upd_condvar_def cv_sem_def less_Suc_eq intro!: sem_init_queue)
qed

lemma set_up_all:
  assumes "kernel_class cls ready detached" "table_apart e" "set_up ready detached A e 0 s t" "n \<le> N_phi"
  shows "set_up ready detached A e n s (fold (condvar_init (mt e) (cvs e)) [0..<n] t)"
  using assms(4) by (induction n) (auto intro: assms(3) set_up_next [OF assms(1,2)])

lemma monitor_init_sets_up:
  assumes "kernel_class cls ready detached" "table_apart e" "sched_inv ready detached A (ks (msys s))"
    and "monitor_init (mt e) N_phi s = Some t" "mon_cv (monitors t (mt e)) = Some (cvs e)"
  shows "set_up ready detached A e N_phi s t"
proof -
  have keep: "monitors (fold (condvar_init m c) is u) = monitors u" for m c "is" u
    by (induction "is" arbitrary: u) (simp_all add: condvar_init_def Let_def upd_condvar_def)
  define u where "u = upd_mks (sem_init (mon_next (mt e)) 0)
    (upd_mks (sem_init (mon_mutex (mt e)) 1) (upd_monitor (mt e) (\<lambda>d. d\<lparr>next_count := 0, mon_cv := None\<rparr>) s))"
  obtain a y where y: "sys_kmalloc (SIZEOF_CONDVAR * N_phi) (msys u) = Some (a, y)"
    and t: "Some t = (case a of None \<Rightarrow> None | Some c \<Rightarrow>
      Some (fold (condvar_init (mt e) c) [0..<N_phi] (upd_monitor (mt e) (\<lambda>d. d\<lparr>mon_cv := a\<rparr>) (u\<lparr>msys := y\<rparr>))))"
    using assms(4) by (auto simp: monitor_init_def u_def Let_def split: bind_splits option.splits if_splits)
  obtain c where a: "a = Some c" using t by (cases a) auto
  have c: "c = cvs e" using assms(5) t a by (simp add: keep upd_monitor_def)
  have ky: "ks y = ks (msys u)" using y by (auto simp: sys_kmalloc_def split: bind_splits)
  have "set_up ready detached A e 0 s (upd_monitor (mt e) (\<lambda>d. d\<lparr>mon_cv := a\<rparr>) (u\<lparr>msys := y\<rparr>))"
    using ky a c sem_init_inv [OF assms(1) sem_init_inv [OF assms(1,3)]]
    by (simp add: set_up_def u_def Let_def upd_monitor_def sem_init_queue)
  then show ?thesis using set_up_all [OF assms(1,2) _ order_refl] t a c by simp
qed

text \<open>The process of each philosopher is runnable and not the idle process, and thinks.\<close>

definition seated :: "table \<Rightarrow> monst \<Rightarrow> bool" where
  "seated e s \<longleftrightarrow> inj_on (who e) {..<N_phi} \<and>
     (\<forall>i<N_phi. Some (who e i) \<noteq> idleproc (ks (msys s)) \<and> state (procs (ks (msys s)) (who e i)) = PROC_RUNNABLE \<and>
       state_condvar s i = THINKING) \<and>
     (\<forall>c. current (ks (msys s)) = Some c \<longrightarrow> state (procs (ks (msys s)) c) = PROC_RUNNABLE)"

lemma initial_phi_inv:
  assumes "kernel_class cls ready detached" "seated e s" "set_up ready detached A e N_phi s t"
  shows "sched_class.phi_inv ready detached A e (\<lambda>_. Thinks) t"
proof -
  note sc = four_classes [OF assms(1)]
  have B: "phi_blocked e (\<lambda>_. Thinks) i = None" for i by (simp add: phi_blocked_def)
  have nq: "\<not> queued (phi_blocked e (\<lambda>_. Thinks)) wsf i" for wsf i by (simp add: queued_def B)
  have "sems_inv ready detached A (phi_sems e) {..<N_phi} (who e) (phi_blocked e (\<lambda>_. Thinks)) (\<lambda>_. []) (ks (msys t))"
    using assms(2,3) by (auto simp: sems_inv_def sleepers_ok_def B nq seated_def set_up_def Let_def sem_inv_def phi_sems_def)
  then have "phi_core ready detached A e {} {} (\<lambda>_. []) (\<lambda>_. Thinks) t"
    using assms(2,3) by (auto simp: phi_core_def nq seated_def set_up_def Let_def waits_cv_def phi_shows_def)
  moreover have "phi_phase e Free (\<lambda>_. []) (\<lambda>_. Thinks) t"
    using assms(3) by (simp add: phi_phase_def granted_set_def B set_up_def Let_def signals_def)
  ultimately show ?thesis unfolding sched_class.phi_inv_def [OF sc] by (force simp: outside_def)
qed

subsection \<open>The property\<close>

text \<open>A state with idle process 0 running, five philosophers waiting in the run list, and room in the heap.\<close>

definition demo_table :: table where "demo_table = \<lparr>mt = 16, cvs = 8208, who = Suc\<rparr>"

definition demo_dinner :: monst where
  "demo_dinner =
     \<lparr>msys = demo_areas
        \<lparr>ks := demo_kst
           \<lparr>procs := (\<lambda>p. if p = 0 then demo_proc else if p \<le> 5 then demo_proc\<lparr>rq := Some the_rq\<rparr>
              else demo_proc\<lparr>state := PROC_SLEEPING\<rparr>),
            klinks := \<lparr>nxt = (\<lambda>e. case e of Run_list \<Rightarrow> Run_link 1
                | Run_link p \<Rightarrow> if 0 < p \<and> p < 5 then Run_link (Suc p) else if p = 5 then Run_list else e | _ \<Rightarrow> e),
              prv = (\<lambda>e. case e of Run_list \<Rightarrow> Run_link 5
                | Run_link p \<Rightarrow> if p = 1 then Run_list else if 0 < p \<and> p \<le> 5 then Run_link (p - 1) else e | _ \<Rightarrow> e)\<rparr>,
            run_q := \<lparr>proc_num = 5, max_time_slice = 5, lab6_run_pool = None\<rparr>\<rparr>,
         hp := fresh_heap\<lparr>slobs := (\<lambda>a. if a = 4096 then \<lparr>units = 1, snext = 8192\<rparr> else \<lparr>units = 256, snext = 4096\<rparr>)\<rparr>\<rparr>,
      monitors = (\<lambda>_. \<lparr>next_count = 0, mon_cv = None\<rparr>), condvars = (\<lambda>_. \<lparr>cv_count = 0, cv_owner = 0\<rparr>),
      state_condvar = (\<lambda>_. THINKING), state_sema = (\<lambda>_. THINKING)\<rparr>"

lemma demo_dinner_runs: "run_list_is (ks (msys demo_dinner)) [1, 2, 3, 4, 5]"
  by (simp add: run_list_is_def demo_dinner_def demo_areas_def dlist_def demo_kst_def)


lemma demo_dinner_ok:
  "sched_inv rr_ready rr_detached {0..5} (ks (msys demo_dinner))" "seated demo_table demo_dinner" "table_apart demo_table"
proof -
  let ?k = "ks (msys demo_dinner)"
  have w: "waiting_set {0..5} ?k = {1, 2, 3, 4, 5}"
    by (auto simp: waiting_set_def demo_dinner_def demo_kst_def demo_proc_def)
  have "rr_ready ?k {1, 2, 3, 4, 5}" using demo_dinner_runs by (auto simp: rr_ready_def intro!: exI [of _ "[1, 2, 3, 4, 5]"])
  moreover have "rr_detached 0 ?k" by (simp add: rr_detached_def dlist_def demo_dinner_def)
  moreover have "p = 0" if "p \<in> {0..5}" "p \<notin> {1, 2, 3, 4, 5}" for p :: nat using that by auto
  moreover have "current ?k = Some 0" "idleproc ?k = Some 0" "state (procs ?k 0) = PROC_RUNNABLE"
    by (simp_all add: demo_dinner_def demo_kst_def demo_proc_def)
  moreover have "card {0..5 :: nat} < 2 ^ 32" by simp
  ultimately show "sched_inv rr_ready rr_detached {0..5} ?k"
    unfolding sched_inv_def w by (metis atLeastAtMost_iff finite_atLeastAtMost le_numeral_extra(3) zero_le)
  show "seated demo_table demo_dinner"
    by (auto simp: seated_def demo_table_def demo_dinner_def demo_kst_def demo_proc_def N_phi_def)
  show "table_apart demo_table" by (simp add: table_apart_def demo_table_def)
qed

lemma demo_monitor: "\<exists>t. monitor_init 16 N_phi demo_dinner = Some t \<and> mon_cv (monitors t 16) = Some 8208"
proof -
  let ?y = "msys (upd_mks (sem_init (mon_next 16) 0) (upd_mks (sem_init (mon_mutex 16) 1)
    (upd_monitor 16 (\<lambda>d. d\<lparr>next_count := 0, mon_cv := None\<rparr>) demo_dinner)))"
  have h: "hp ?y = hp (msys demo_dinner)" by (simp add: upd_monitor_def)
  have "\<exists>h'. kmalloc 200 (hp (msys demo_dinner)) = Some (Some 8208, h')"
    by (simp add: kmalloc_def slob_alloc_def Let_def demo_dinner_def fresh_heap_def PGSIZE_def SLOB_UNIT_def SLOB_UNITS_def
        nx_def un_def slob_plus_def slob_scan.simps [of _ _ _ 8192])
  then obtain y where y: "sys_kmalloc (SIZEOF_CONDVAR * N_phi) ?y = Some (Some 8208, y)"
    unfolding sys_kmalloc_def h by (auto simp: SIZEOF_CONDVAR_def N_phi_def)
  have keep: "monitors (fold (condvar_init m c) is u) = monitors u" for m c "is" u
    by (induction "is" arbitrary: u) (simp_all add: condvar_init_def Let_def upd_condvar_def)
  show ?thesis
    using y by (simp add: monitor_init_def Let_def keep) (simp add: upd_monitor_def N_phi_def)
qed

text \<open>
  C40: five processes dine with the monitor. In every interleaving of their steps, under each of the four scheduling
  classes, two neighbours never eat at the same time, at least one of the five processes is runnable (no deadlock), and
  the next step of the current philosopher, or of the scheduler, hits no assertion.
\<close>

theorem philosophers_safe:
  assumes "kernel_class cls ready detached" and "sched_inv ready detached A (ks (msys s0))"
    and "seated e s0" and "table_apart e"
    and "monitor_init (mt e) N_phi s0 = Some s1" and "mon_cv (monitors s1 (mt e)) = Some (cvs e)"
    and "phi_run cls e s1 s pcs"
  shows "(\<forall>i<N_phi. pcs i = Eats \<longrightarrow> pcs (LEFT i) \<noteq> Eats \<and> pcs (RIGHT i) \<noteq> Eats) \<and>
    (\<exists>i<N_phi. state (procs (ks (msys s)) (who e i)) = PROC_RUNNABLE) \<and>
    schedule cls (ks (msys s)) \<noteq> None \<and>
    (\<forall>i<N_phi. \<forall>w. current (ks (msys s)) = Some (who e i) \<and> fresh_wait w i pcs \<longrightarrow> phi_step cls e w i (pcs i) s \<noteq> None)"
proof -
  note sc = four_classes [OF assms(1)]
  have i: "sched_class.phi_inv ready detached A e pcs s"
    using sched_class.phi_run_inv [OF sc assms(7,4)]
      initial_phi_inv [OF assms(1,3) monitor_init_sets_up [OF assms(1,4,2,5,6)]] by blast
  show ?thesis
    using sched_class.no_shared_fork [OF sc i] sched_class.somebody_awake [OF sc i] sched_class.switch_ok [OF sc i]
      sched_class.step_ok [OF sc assms(4) i] unfolding sched_class.goes_on_def [OF sc] by blast
qed

theorem philosophers_safe_witness:
  "\<exists>s1 s i r. monitor_init 16 N_phi demo_dinner = Some s1 \<and> phi_run default_sched_class demo_table s1 s (\<lambda>_. Thinks) \<and>
     i < N_phi \<and> current (ks (msys s)) = Some (Suc i) \<and> phi_step default_sched_class demo_table 7 i Thinks s = Some r"
proof -
  obtain s1 where s1: "monitor_init (mt demo_table) N_phi demo_dinner = Some s1" "mon_cv (monitors s1 16) = Some 8208"
    using demo_monitor by (auto simp: demo_table_def)
  have c: "mon_cv (monitors s1 (mt demo_table)) = Some (cvs demo_table)" using s1(2) by (simp add: demo_table_def)
  note ok = philosophers_safe [OF kernel_class_rr demo_dinner_ok s1(1) c]
  have su: "set_up rr_ready rr_detached {0..5} demo_table N_phi demo_dinner s1"
    by (rule monitor_init_sets_up [OF kernel_class_rr demo_dinner_ok(3,1) s1(1) c])
  have e: "procs (ks (msys s1)) = procs (ks (msys demo_dinner))" "idleproc (ks (msys s1)) = Some 0"
    "sched_inv rr_ready rr_detached {0..5} (ks (msys s1))"
    using su by (simp_all add: set_up_def Let_def demo_dinner_def demo_kst_def)
  have r: "runnable_set {0..5} (ks (msys s1)) = {1, 2, 3, 4, 5}"
    unfolding runnable_set_def e by (auto simp: demo_dinner_def demo_kst_def demo_proc_def)
  obtain k n where k: "schedule default_sched_class (ks (msys s1)) = Some k" "current k = Some n" "n \<in> {1, 2, 3, 4, 5}"
    using rr.schedule_inv [OF e(3)] unfolding r by auto
  let ?s = "upd_mks (\<lambda>_. k) s1"
  have run: "phi_run default_sched_class demo_table s1 ?s (\<lambda>_. Thinks)" by (rule phi_switch [OF phi_start k(1)])
  have n: "n - 1 < N_phi" "current (ks (msys ?s)) = Some (who demo_table (n - 1))" "fresh_wait 7 (n - 1) (\<lambda>_. Thinks)"
    using k(2,3) by (auto simp: N_phi_def demo_table_def fresh_wait_def)
  have "phi_step default_sched_class demo_table 7 (n - 1) Thinks ?s \<noteq> None" using ok [OF run] n by blast
  then show ?thesis using s1(1) run n by (auto simp: demo_table_def)
qed

end
