(* ===== verification/Exec.thy ===== *)
theory Exec
  imports Proc_Memory Printfmt
begin

unbundle bit_operations_syntax

section \<open>Loading a program (kern/process/proc.c, libs/elf.h)\<close>

text \<open>
  \<open>load_icode\<close>, \<open>copy_kargv\<close> and \<open>do_execve\<close>. Local structures that the code fills through \<open>sysfile_read\<close> are at addresses
  given as parameters: \<open>elf\<close> and \<open>ph\<close> for the two headers, \<open>local_name\<close> for the name; \<open>gp_name\<close> and \<open>null_fmt\<close> are the
  addresses of the literals \<open>"__global_pointer$"\<close> and \<open>"<null> %d"\<close>. \<open>sstatus\<close> is the value of the control register.

  A page filled through its kernel address changes both views of physical memory, the bytes and the words of its frame;
  \<open>sync_frames\<close> writes the bytes of a range into the frames. \<open>lsatp\<close> changes what is seen at the user addresses:
  \<open>show_user\<close> puts the bytes of the mapped frames there.
\<close>

subsection \<open>Headers\<close>

definition ELF_MAGIC :: "32 word" where "ELF_MAGIC = 0x464C457F"
definition ELF_PT_LOAD :: "32 word" where "ELF_PT_LOAD = 1"
definition ELF_PF_X :: "32 word" where "ELF_PF_X = 1"
definition ELF_PF_W :: "32 word" where "ELF_PF_W = 2"
definition ELF_PF_R :: "32 word" where "ELF_PF_R = 4"
definition SHT_SYMTAB :: "32 word" where "SHT_SYMTAB = 2"
definition SIZEOF_ELFHDR :: nat where "SIZEOF_ELFHDR = 64"
definition SIZEOF_PROGHDR :: nat where "SIZEOF_PROGHDR = 56"
definition SIZEOF_SHDR :: nat where "SIZEOF_SHDR = 64"
definition SIZEOF_SYM :: nat where "SIZEOF_SYM = 24"
definition USTACKTOP :: nat where "USTACKTOP = USERTOP"
definition USTACKPAGE :: nat where "USTACKPAGE = 256"
definition USTACKSIZE :: nat where "USTACKSIZE = USTACKPAGE * PGSIZE"
definition EXEC_MAX_ARG_NUM :: int where "EXEC_MAX_ARG_NUM = 32"
definition EXEC_MAX_ARG_LEN :: nat where "EXEC_MAX_ARG_LEN = 4095"

definition n32 :: "nat \<Rightarrow> bytes \<Rightarrow> nat" where "n32 a m = unat (rd32 a m)"
definition n64 :: "nat \<Rightarrow> bytes \<Rightarrow> nat" where "n64 a m = unat (rd64 a m)"

definition e_magic :: "nat \<Rightarrow> bytes \<Rightarrow> 32 word" where "e_magic h m = rd32 h m"
definition e_entry :: "nat \<Rightarrow> bytes \<Rightarrow> 64 word" where "e_entry h m = rd64 (h + 24) m"
definition e_phoff :: "nat \<Rightarrow> bytes \<Rightarrow> nat" where "e_phoff h m = n64 (h + 32) m"
definition e_shoff :: "nat \<Rightarrow> bytes \<Rightarrow> nat" where "e_shoff h m = n64 (h + 40) m"
definition e_phnum :: "nat \<Rightarrow> bytes \<Rightarrow> nat" where "e_phnum h m = unat (rd16 (h + 56) m)"
definition e_shentsize :: "nat \<Rightarrow> bytes \<Rightarrow> nat" where "e_shentsize h m = unat (rd16 (h + 58) m)"
definition e_shnum :: "nat \<Rightarrow> bytes \<Rightarrow> nat" where "e_shnum h m = unat (rd16 (h + 60) m)"

definition p_type :: "nat \<Rightarrow> bytes \<Rightarrow> 32 word" where "p_type h m = rd32 h m"
definition p_flags :: "nat \<Rightarrow> bytes \<Rightarrow> 32 word" where "p_flags h m = rd32 (h + 4) m"
definition p_offset :: "nat \<Rightarrow> bytes \<Rightarrow> nat" where "p_offset h m = n64 (h + 8) m"
definition p_va :: "nat \<Rightarrow> bytes \<Rightarrow> nat" where "p_va h m = n64 (h + 16) m"
definition p_filesz :: "nat \<Rightarrow> bytes \<Rightarrow> nat" where "p_filesz h m = n64 (h + 32) m"
definition p_memsz :: "nat \<Rightarrow> bytes \<Rightarrow> nat" where "p_memsz h m = n64 (h + 40) m"

definition sh_type :: "nat \<Rightarrow> bytes \<Rightarrow> 32 word" where "sh_type h m = rd32 (h + 4) m"
definition sh_offset :: "nat \<Rightarrow> bytes \<Rightarrow> nat" where "sh_offset h m = n64 (h + 24) m"
definition sh_size :: "nat \<Rightarrow> bytes \<Rightarrow> nat" where "sh_size h m = n64 (h + 32) m"
definition sh_link :: "nat \<Rightarrow> bytes \<Rightarrow> nat" where "sh_link h m = n32 (h + 40) m"
definition sh_entsize :: "nat \<Rightarrow> bytes \<Rightarrow> nat" where "sh_entsize h m = n64 (h + 56) m"

definition st_name :: "nat \<Rightarrow> bytes \<Rightarrow> nat" where "st_name h m = n32 h m"
definition st_value :: "nat \<Rightarrow> bytes \<Rightarrow> 64 word" where "st_value h m = rd64 (h + 8) m"

subsection \<open>The two views of a page\<close>

definition frame_bytes :: "vmst \<Rightarrow> bytes" where
  "frame_bytes m x = ucast (drop_bit (8 * (x mod 8)) (frame m (x div PGSIZE) (x mod PGSIZE div 8)))"

definition sync_frames :: "nat \<Rightarrow> nat \<Rightarrow> fst \<Rightarrow> fst" where
  "sync_frames a n s =
     (let m = vm (hp (sy s));
          seen = (\<lambda>x. if a \<le> x \<and> x < a + n then mem s x else frame_bytes m x);
          m = m\<lparr>frame := (\<lambda>f i. rd64 (f * PGSIZE + 8 * i) seen)\<rparr>
      in s\<lparr>sy := (sy s)\<lparr>hp := (hp (sy s))\<lparr>vm := m\<rparr>\<rparr>\<rparr>)"

definition user_frame :: "nat \<Rightarrow> nat \<Rightarrow> vmst \<Rightarrow> nat option" where
  "user_frame pgd la m = do { (page, m) \<leftarrow> get_page pgd la m; page \<leftarrow> page; page2kva page m }"

definition show_user :: "nat \<Rightarrow> fst \<Rightarrow> fst" where
  "show_user pgd s =
     (let m = vm (hp (sy s)) in
      upd_mem (\<lambda>old a. if a < USERTOP
        then (case user_frame pgd a m of Some f \<Rightarrow> frame_bytes m (f * PGSIZE + PGOFF a) | None \<Rightarrow> old a)
        else old a) s)"

subsection \<open>Reading the file\<close>

definition load_icode_read :: "int \<Rightarrow> nat \<Rightarrow> nat \<Rightarrow> nat \<Rightarrow> fst \<Rightarrow> (int \<times> fst) kresult" where
  "load_icode_read fd buf' len offset s = do {
     (r, s) \<leftarrow> sysfile_seek fd (sint (word_of_nat offset :: 64 word)) LSEEK_SET s;
     (if r \<noteq> 0 then Some (r, s)
      else do {
        (r, s) \<leftarrow> sysfile_read fd buf' len s;
        Some (if (word_of_int r :: 64 word) \<noteq> word_of_nat len then (if r < 0 then r else - 1) else 0, s)
      })
   }"

subsection \<open>The global pointer\<close>

text \<open>The search of one symbol table, from symbol \<open>j\<close> on with \<open>n\<close> symbols left; the result is \<open>gp\<close>.\<close>

fun find_symbol :: "nat \<Rightarrow> nat \<Rightarrow> nat \<Rightarrow> nat \<Rightarrow> nat \<Rightarrow> bytes \<Rightarrow> 64 word option" where
  "find_symbol gp_name syms strtab j 0 m = Some 0"
| "find_symbol gp_name syms strtab j (Suc n) m = do {
     let sym = syms + SIZEOF_SYM * j;
     r \<leftarrow> strcmp (strtab + st_name sym m) gp_name m;
     (if r = 0 then Some (st_value sym m) else find_symbol gp_name syms strtab (j + 1) n m)
   }"

text \<open>One section: the result code and \<open>gp\<close>. Symbols and strings are released on every path.\<close>

definition scan_section :: "nat \<Rightarrow> int \<Rightarrow> nat \<Rightarrow> nat \<Rightarrow> fst \<Rightarrow> (int \<times> 64 word \<times> fst) kresult" where
  "scan_section gp_name fd shdrs i s = do {
     let sh = shdrs + SIZEOF_SHDR * i;
     (if sh_type sh (mem s) \<noteq> SHT_SYMTAB \<or> sh_entsize sh (mem s) \<noteq> SIZEOF_SYM then Some (0, 0, s)
      else do {
        let str_sh = shdrs + SIZEOF_SHDR * sh_link sh (mem s);
        let symtbl_size = sh_size sh (mem s);
        let strtbl_size = sh_size str_sh (mem s);
        (syms, s) \<leftarrow> fs_kmalloc symtbl_size s;
        (strtab, s) \<leftarrow> (if syms = None then Some (None, s) else fs_kmalloc strtbl_size s);
        (case (syms, strtab) of
           (Some sy', Some st) \<Rightarrow> do {
             (r, s) \<leftarrow> load_icode_read fd sy' symtbl_size (sh_offset sh (mem s)) s;
             (r, s) \<leftarrow> (if r \<noteq> 0 then Some (r, s) else load_icode_read fd st strtbl_size (sh_offset str_sh (mem s)) s);
             gp \<leftarrow> (if r \<noteq> 0 then Some 0 else find_symbol gp_name sy' st 0 (symtbl_size div SIZEOF_SYM) (mem s));
             s \<leftarrow> fs_kfree syms s;
             s \<leftarrow> fs_kfree strtab s;
             Some (r, gp, s)
           }
         | _ \<Rightarrow> do {
             s \<leftarrow> fs_kfree syms s;
             s \<leftarrow> fs_kfree strtab s;
             Some (- E_NO_MEM, 0, s)
           })
      })
   }"

fun scan_sections :: "nat \<Rightarrow> int \<Rightarrow> nat \<Rightarrow> nat list \<Rightarrow> fst \<Rightarrow> (int \<times> 64 word \<times> fst) kresult" where
  "scan_sections gp_name fd shdrs [] s = Some (0, 0, s)"
| "scan_sections gp_name fd shdrs (i # is) s = do {
     (r, gp, s) \<leftarrow> scan_section gp_name fd shdrs i s;
     (if r \<noteq> 0 \<or> gp \<noteq> 0 then Some (r, gp, s) else scan_sections gp_name fd shdrs is s)
   }"

definition find_gp :: "nat \<Rightarrow> int \<Rightarrow> nat \<Rightarrow> fst \<Rightarrow> (int \<times> 64 word \<times> fst) kresult" where
  "find_gp gp_name fd elf s =
     (let m = mem s in
      if e_shoff elf m \<noteq> 0 \<and> e_shnum elf m \<noteq> 0 \<and> e_shentsize elf m = SIZEOF_SHDR
      then do {
        let shnum = e_shnum elf m;
        (shdrs, s) \<leftarrow> fs_kmalloc (shnum * SIZEOF_SHDR) s;
        (case shdrs of
           None \<Rightarrow> Some (- E_NO_MEM, 0, s)
         | Some shdrs \<Rightarrow> do {
             (r, s) \<leftarrow> load_icode_read fd shdrs (shnum * SIZEOF_SHDR) (e_shoff elf m) s;
             (r, gp, s) \<leftarrow> (if r \<noteq> 0 then Some (r, 0, s) else scan_sections gp_name fd shdrs [0..<shnum] s);
             s \<leftarrow> fs_kfree (Some shdrs) s;
             Some (r, gp, s)
           })
      }
      else Some (0, 0, s))"

subsection \<open>Segments\<close>

definition segment_flags :: "32 word \<Rightarrow> 32 word \<times> 64 word" where
  "segment_flags pf =
     (let (vf, perm) = (0, PTE_U);
          (vf, perm) = (if pf AND ELF_PF_X \<noteq> 0 then (vf OR VM_EXEC, perm OR PTE_X OR PTE_R) else (vf, perm));
          (vf, perm) = (if pf AND ELF_PF_W \<noteq> 0 then (vf OR VM_WRITE, perm OR PTE_W OR PTE_R) else (vf, perm))
      in (if pf AND ELF_PF_R \<noteq> 0 then (vf OR VM_READ, perm OR PTE_R) else (vf, perm)))"

definition mm_dir :: "nat \<Rightarrow> fst \<Rightarrow> nat" where "mm_dir mp s = mm_pgdir (mms (sy s) mp)"

text \<open>A new zeroed page at \<open>la\<close>; its kernel address, or \<open>None\<close> when there is no memory.\<close>

definition zero_page_at :: "nat \<Rightarrow> nat \<Rightarrow> 64 word \<Rightarrow> fst \<Rightarrow> (nat option \<times> fst) kresult" where
  "zero_page_at mp la perm s = do {
     (page, s) \<leftarrow> on_mem (pgdir_alloc_page (mm_dir mp s) la perm) s;
     (case page of
        None \<Rightarrow> Some (None, s)
      | Some page \<Rightarrow> do {
          f \<leftarrow> page2kva page (vm (hp (sy s)));
          let kva = f * PGSIZE;
          let s = upd_mem (snd \<circ> memset kva 0 PGSIZE) s;
          Some (Some kva, sync_frames kva PGSIZE s)
        })
   }"

text \<open>The pages of a segment, from \<open>la\<close> on.\<close>

definition load_page :: "int \<Rightarrow> nat \<Rightarrow> nat \<Rightarrow> nat \<Rightarrow> nat \<Rightarrow> 64 word \<Rightarrow> nat \<Rightarrow> fst \<Rightarrow> (int \<times> fst) kresult" where
  "load_page fd mp va offset file_end perm la s = do {
     (kva, s) \<leftarrow> zero_page_at mp la perm s;
     (case kva of
        None \<Rightarrow> Some (- E_NO_MEM, s)
      | Some kva \<Rightarrow>
          if la < file_end
          then do {
            let size' = file_end - la;
            let copy = PGSIZE - PGOFF la;
            let copy = (if size' < copy then size' else copy);
            (r, s) \<leftarrow> load_icode_read fd (kva + PGOFF la) copy (u64 (offset + (la - va))) s;
            Some (r, sync_frames (kva + PGOFF la) copy s)
          }
          else Some (0, s))
   }"

partial_function (option) load_pages ::
    "int \<Rightarrow> nat \<Rightarrow> nat \<Rightarrow> nat \<Rightarrow> nat \<Rightarrow> nat \<Rightarrow> 64 word \<Rightarrow> nat \<Rightarrow> fst \<Rightarrow> (int \<times> fst) option" where
  "load_pages fd mp va offset file_end mem_end perm la s =
     (if la < mem_end
      then do {
        (r, s) \<leftarrow> load_page fd mp va offset file_end perm la s;
        (if r \<noteq> 0 then Some (r, s)
         else load_pages fd mp va offset file_end mem_end perm (la + PGSIZE) s)
      }
      else Some (0, s))"

definition load_segment :: "int \<Rightarrow> nat \<Rightarrow> nat \<Rightarrow> fst \<Rightarrow> (int \<times> fst) kresult" where
  "load_segment fd mp ph s =
     (let m = mem s; va = p_va ph m; filesz = p_filesz ph m; memsz = p_memsz ph m; offset = p_offset ph m in
      if p_type ph m \<noteq> ELF_PT_LOAD then Some (0, s)
      else if filesz > memsz then Some (- E_INVAL, s)
      else if \<not> USER_ACCESS va (u64 (va + memsz)) then Some (- E_INVAL, s)
      else do {
        let (vf, perm) = segment_flags (p_flags ph m);
        (r, _, y) \<leftarrow> mm_map (Some mp) va memsz vf (sy s);
        let s = s\<lparr>sy := y\<rparr>;
        (if r \<noteq> 0 then Some (r, s)
         else load_pages fd mp va offset (va + filesz) (va + memsz) perm va s)
      })"

fun load_segments :: "int \<Rightarrow> nat \<Rightarrow> nat \<Rightarrow> nat \<Rightarrow> nat list \<Rightarrow> fst \<Rightarrow> (int \<times> fst) kresult" where
  "load_segments fd mp elf ph [] s = Some (0, s)"
| "load_segments fd mp elf ph (i # is) s = do {
     (r, s) \<leftarrow> load_icode_read fd ph SIZEOF_PROGHDR (u64 (e_phoff elf (mem s) + i * SIZEOF_PROGHDR)) s;
     (if r \<noteq> 0 then Some (r, s)
      else do {
        (r, s) \<leftarrow> load_segment fd mp ph s;
        (if r \<noteq> 0 then Some (r, s) else load_segments fd mp elf ph is s)
      })
   }"

subsection \<open>The user stack\<close>

fun stack_pages :: "nat \<Rightarrow> nat list \<Rightarrow> fst \<Rightarrow> (int \<times> fst) kresult" where
  "stack_pages mp [] s = Some (0, s)"
| "stack_pages mp (i # is) s = do {
     (kva, s) \<leftarrow> zero_page_at mp (USTACKTOP - USTACKSIZE + i * PGSIZE) (PTE_U OR PTE_R OR PTE_W) s;
     (if kva = None then Some (- E_NO_MEM, s) else stack_pages mp is s)
   }"

definition map_stack :: "nat \<Rightarrow> fst \<Rightarrow> (int \<times> fst) kresult" where
  "map_stack mp s = do {
     (r, _, y) \<leftarrow> mm_map (Some mp) (USTACKTOP - USTACKSIZE) USTACKSIZE (VM_READ OR VM_WRITE OR VM_STACK) (sy s);
     let s = s\<lparr>sy := y\<rparr>;
     (if r \<noteq> 0 then Some (r, s) else stack_pages mp [0..<USTACKPAGE] s)
   }"

text \<open>
  The kernel address of a user address, and a copy to it. The code computes the address of the first byte only: a block
  that crosses the end of its page is written into the frame that follows in physical memory.
\<close>

definition user_kva :: "nat \<Rightarrow> nat \<Rightarrow> fst \<Rightarrow> nat kresult" where
  "user_kva mp la s = do { f \<leftarrow> user_frame (mm_dir mp s) la (vm (hp (sy s))); Some (f * PGSIZE + PGOFF la) }"

definition put_user :: "nat \<Rightarrow> nat \<Rightarrow> nat \<Rightarrow> (nat \<Rightarrow> bytes \<Rightarrow> bytes) \<Rightarrow> fst \<Rightarrow> fst kresult" where
  "put_user mp la len f s = do {
     a \<leftarrow> user_kva mp la s;
     Some (sync_frames a len (upd_mem (f a) s))
   }"

text \<open>The strings, last one first; the result is the code, the stack pointer and the addresses of the strings.\<close>

fun push_strings :: "nat \<Rightarrow> nat list \<Rightarrow> nat \<Rightarrow> nat list \<Rightarrow> fst \<Rightarrow> (int \<times> nat \<times> nat list \<times> fst) kresult" where
  "push_strings mp [] sp uargv s = Some (0, sp, uargv, s)"
| "push_strings mp (karg # rest) sp uargv s = do {
     n \<leftarrow> strlen karg (mem s);
     let len = n + 1;
     let sp = sub64 sp len;
     (if sp < USTACKTOP - USTACKSIZE then Some (- E_NO_MEM, sp, uargv, s)
      else do {
        s \<leftarrow> put_user mp sp len (\<lambda>a. snd \<circ> memcpy a karg len) s;
        push_strings mp rest sp (sp # uargv) s
      })
   }"

fun put_pointers :: "nat \<Rightarrow> nat \<Rightarrow> nat list \<Rightarrow> fst \<Rightarrow> fst kresult" where
  "put_pointers mp dst [] s = put_user mp dst 8 (\<lambda>a. wr64 a 0) s"
| "put_pointers mp dst (u # us) s = do {
     s \<leftarrow> put_user mp dst 8 (\<lambda>a. wr64 a (word_of_nat u)) s;
     put_pointers mp (dst + 8) us s
   }"

text \<open>The result is the code, \<open>sp\<close>, \<open>argv_user\<close> and the state; \<open>kargv\<close> are the arguments in order.\<close>

definition push_args :: "nat \<Rightarrow> nat list \<Rightarrow> fst \<Rightarrow> (int \<times> nat \<times> nat \<times> fst) kresult" where
  "push_args mp kargv s = do {
     (r, sp, uargv, s) \<leftarrow> push_strings mp (rev kargv) USTACKTOP [] s;
     (if r \<noteq> 0 then Some (r, sp, 0, s)
      else do {
        let sp = ROUNDDOWN sp 8;
        let sp = sp - sp mod 16;
        let sp = sub64 sp ((length kargv + 1) * 8);
        let argv_user = sp;
        s \<leftarrow> put_pointers mp argv_user uargv s;
        let sp = sub64 sp 4;
        s \<leftarrow> put_user mp sp 4 (\<lambda>a. wr32 a (word_of_nat (length kargv))) s;
        let sp = sub64 sp 0x80;
        let sp = sp - sp mod 16;
        Some (0, sp, argv_user, s)
      })
   }"

subsection \<open>load_icode\<close>

definition exec_tf :: "nat \<Rightarrow> 64 word \<Rightarrow> nat \<Rightarrow> nat \<Rightarrow> nat \<Rightarrow> 64 word \<Rightarrow> 64 word \<Rightarrow> bytes \<Rightarrow> bytes" where
  "exec_tf tfp sstatus sp argc argv_user gp entry' m =
     (let m = snd (memset tfp 0 SIZEOF_TF m);
          m = wr64 (tf_sp tfp) (word_of_nat sp) m;
          m = wr64 (tf_a tfp 0) (word_of_nat argc) m;
          m = wr64 (tf_a tfp 1) (word_of_nat argv_user) m;
          m = (if gp \<noteq> 0 then wr64 (tf_gp tfp) gp m else m);
          m = wr64 (tf_status tfp) ((sstatus OR SSTATUS_SPIE) AND NOT SSTATUS_SPP) m
      in wr64 (tf_epc tfp) entry' m)"

text \<open>The new address space of the current process, and its trap frame.\<close>

definition install_image ::
    "64 word \<Rightarrow> nat \<Rightarrow> nat \<Rightarrow> nat \<Rightarrow> nat \<Rightarrow> nat \<Rightarrow> 64 word \<Rightarrow> 64 word \<Rightarrow> fst \<Rightarrow> fst kresult" where
  "install_image sstatus mp cur sp argc argv_user gp entry' s = do {
     let s = s\<lparr>sy := set_mm_count mp 1 (sy s)\<rparr>;
     let pgd = mm_dir mp s;
     let s = set_proc cur (\<lambda>d. d\<lparr>mm := Some mp, pgdir := pgd * PGSIZE\<rparr>) s;
     let s = show_user pgd (upd_ks (\<lambda>k. k\<lparr>satp := pgd * PGSIZE\<rparr>) s);
     tfp \<leftarrow> tf (the_proc cur s);
     Some (upd_mem (exec_tf tfp sstatus sp argc argv_user gp entry') s)
   }"

text \<open>Everything after \<open>setup_pgdir\<close>; the label \<open>bad_cleanup_mmap\<close>, then \<open>bad_mm\<close>.\<close>

definition undo_image :: "nat \<Rightarrow> fst \<Rightarrow> fst kresult" where
  "undo_image mp s = do {
     s \<leftarrow> on_sys' (exit_mmap (Some mp)) s;
     s \<leftarrow> put_pgdir mp s;
     on_sys' (mm_destroy mp) s
   }"

definition build_image ::
    "64 word \<Rightarrow> nat \<Rightarrow> nat \<Rightarrow> int \<Rightarrow> nat list \<Rightarrow> nat \<Rightarrow> 64 word \<Rightarrow> fst \<Rightarrow> (int \<times> fst) kresult" where
  "build_image sstatus elf ph fd kargv mp gp s = do {
     (r, s) \<leftarrow> load_segments fd mp elf ph [0..<e_phnum elf (mem s)] s;
     (r, s) \<leftarrow> (if r \<noteq> 0 then Some (r, s) else map_stack mp s);
     (r, sp, argv_user, s) \<leftarrow> (if r \<noteq> 0 then Some (r, 0, 0, s) else push_args mp kargv s);
     (if r \<noteq> 0 then do { s \<leftarrow> undo_image mp s; Some (r, s) }
      else do {
        cur \<leftarrow> current_proc s;
        s \<leftarrow> install_image sstatus mp cur sp (length kargv) argv_user gp (e_entry elf (mem s)) s;
        Some (0, s)
      })
   }"

definition load_icode ::
    "kimage \<Rightarrow> 64 word \<Rightarrow> nat \<Rightarrow> nat \<Rightarrow> nat \<Rightarrow> int \<Rightarrow> nat list \<Rightarrow> fst \<Rightarrow> (int \<times> fst) kresult" where
  "load_icode ki sstatus elf ph gp_name fd kargv s = do {
     (r, s) \<leftarrow> load_icode_read fd elf SIZEOF_ELFHDR 0 s;
     (r, s) \<leftarrow>
       (if r \<noteq> 0 \<or> e_magic elf (mem s) \<noteq> ELF_MAGIC then Some (r, s)
        else do {
          (mp, s) \<leftarrow> on_sys mm_create s;
          (case mp of
             None \<Rightarrow> Some (- E_NO_MEM, s)
           | Some mp \<Rightarrow> do {
               (r, s) \<leftarrow> setup_pgdir ki mp s;
               (r, gp, s) \<leftarrow> (if r \<noteq> 0 then Some (r, 0, s) else find_gp gp_name fd elf s);
               (if r \<noteq> 0 then do { s \<leftarrow> on_sys' (mm_destroy mp) s; Some (r, s) }
                else build_image sstatus elf ph fd kargv mp gp s)
             })
        });
     (_, s) \<leftarrow> sysfile_close fd s;
     Some (r, s)
   }"

subsection \<open>do_execve\<close>

fun put_kargv :: "nat list \<Rightarrow> fst \<Rightarrow> fst kresult" where
  "put_kargv [] s = Some s"
| "put_kargv (k # ks') s = do { s \<leftarrow> put_kargv ks' s; fs_kfree (Some k) s }"

text \<open>The copies made so far are \<open>done'\<close>; \<open>is\<close> are the arguments left.\<close>

fun copy_args :: "nat option \<Rightarrow> nat \<Rightarrow> nat list \<Rightarrow> nat list \<Rightarrow> fst \<Rightarrow> (int \<times> nat list \<times> fst) kresult" where
  "copy_args mp argv done' [] s = Some (0, done', s)"
| "copy_args mp argv done' (i # is) s = do {
     (b, s) \<leftarrow> fs_kmalloc (EXEC_MAX_ARG_LEN + 1) s;
     (case b of
        None \<Rightarrow> do { s \<leftarrow> put_kargv done' s; Some (- E_NO_MEM, [], s) }
      | Some b \<Rightarrow> do {
          (ok, s) \<leftarrow> on_sys (copy_string mp b (n64 (argv + 8 * i) (mem s)) (EXEC_MAX_ARG_LEN + 1)) s;
          (if \<not> ok then do { s \<leftarrow> fs_kfree (Some b) s; s \<leftarrow> put_kargv done' s; Some (- E_INVAL, [], s) }
           else copy_args mp argv (done' @ [b]) is s)
        })
   }"

definition copy_kargv :: "nat option \<Rightarrow> nat \<Rightarrow> nat \<Rightarrow> fst \<Rightarrow> (int \<times> nat list \<times> fst) kresult" where
  "copy_kargv mp argc argv s = do {
     (ok, s) \<leftarrow> on_sys (user_mem_check mp argv (8 * argc) False) s;
     (if \<not> ok then Some (- E_INVAL, [], s) else copy_args mp argv [] [0..<argc] s)
   }"

definition string_at :: "nat \<Rightarrow> nat \<Rightarrow> bytes \<Rightarrow> string" where
  "string_at a n m = map (\<lambda>i. char_of (unat (m (a + i)))) [0..<strnlen a n m]"

text \<open>The name of the process, on the stack at \<open>local_name\<close>: a copy of the argument, or a text made from the pid.\<close>

definition copy_name :: "nat \<Rightarrow> nat \<Rightarrow> nat option \<Rightarrow> nat option \<Rightarrow> fst \<Rightarrow> (bool \<times> fst) kresult" where
  "copy_name local_name null_fmt mp name s = do {
     cur \<leftarrow> current_proc s;
     let s = upd_mem (snd \<circ> memset local_name 0 (PROC_NAME_LEN + 1)) s;
     (case name of
        None \<Rightarrow> do {
          (_, m) \<leftarrow> vsnprintf local_name (PROC_NAME_LEN + 1) (mem s) null_fmt [word_of_int (pid (the_proc cur s))] (mem s);
          Some (True, upd_mem (\<lambda>_. m) s)
        }
      | Some name \<Rightarrow> on_sys (copy_string mp local_name name (PROC_NAME_LEN + 1)) s)
   }"

text \<open>\<open>execve_exit\<close>: the process ends, and another one runs.\<close>

definition execve_exit :: "kimage \<Rightarrow> sched_class \<Rightarrow> nat list \<Rightarrow> int \<Rightarrow> fst \<Rightarrow> (int \<times> fst + fst) kresult" where
  "execve_exit ki cls kargv r s = do {
     s \<leftarrow> put_kargv kargv s;
     s \<leftarrow> do_exit ki cls r s;
     Some (Inr s)
   }"

definition drop_mm :: "kimage \<Rightarrow> nat \<Rightarrow> nat option \<Rightarrow> fst \<Rightarrow> fst kresult" where
  "drop_mm ki cur mp s = (case mp of
     None \<Rightarrow> Some s
   | Some mp \<Rightarrow> do {
       let s = upd_ks (\<lambda>k. k\<lparr>satp := boot_pgdir ki * PGSIZE\<rparr>) s;
       s \<leftarrow> release_mm mp s;
       Some (set_proc cur (\<lambda>d. d\<lparr>mm := None\<rparr>) s)
     })"

text \<open>The addresses of the local structures and literals.\<close>

record exec_locals =
  x_elf :: nat
  x_ph :: nat
  x_name :: nat
  x_gp_name :: nat
  x_null_fmt :: nat

definition exec_image ::
    "kimage \<Rightarrow> sched_class \<Rightarrow> 64 word \<Rightarrow> exec_locals \<Rightarrow> nat option \<Rightarrow> nat list \<Rightarrow> nat \<Rightarrow> fst \<Rightarrow> (int \<times> fst + fst) kresult" where
  "exec_image ki cls sstatus x mp kargv path s = do {
     cur \<leftarrow> current_proc s;
     fp \<leftarrow> filesp (the_proc cur s);
     s \<leftarrow> files_closeall fp s;
     (fd, s) \<leftarrow> sysfile_open path O_RDONLY s;
     (if fd < 0 then execve_exit ki cls kargv fd s
      else do {
        s \<leftarrow> drop_mm ki cur mp s;
        (r, s) \<leftarrow> load_icode ki sstatus (x_elf x) (x_ph x) (x_gp_name x) fd kargv s;
        (if r \<noteq> 0 then execve_exit ki cls kargv r s
         else do {
           s \<leftarrow> put_kargv kargv s;
           Some (Inl (0, upd_ks (set_proc_name cur (string_at (x_name x) (PROC_NAME_LEN + 1) (mem s))) s))
         })
      })
   }"

definition do_execve ::
    "kimage \<Rightarrow> sched_class \<Rightarrow> 64 word \<Rightarrow> exec_locals \<Rightarrow> nat option \<Rightarrow> int \<Rightarrow> nat \<Rightarrow> fst \<Rightarrow> (int \<times> fst + fst) kresult" where
  "do_execve ki cls sstatus x name argc argv s = do {
     mp \<leftarrow> cur_mm s;
     (if \<not> (argc \<ge> 1 \<and> argc \<le> EXEC_MAX_ARG_NUM) then Some (Inl (- E_INVAL, s))
      else do {
        s \<leftarrow> fs_lock_mm mp s;
        (ok, s) \<leftarrow> copy_name (x_name x) (x_null_fmt x) mp name s;
        (if \<not> ok then do { s \<leftarrow> fs_unlock_mm mp s; Some (Inl (- E_INVAL, s)) }
         else do {
           (r, kargv, s) \<leftarrow> copy_kargv mp (nat argc) argv s;
           (if r \<noteq> 0 then do { s \<leftarrow> fs_unlock_mm mp s; Some (Inl (r, s)) }
            else do {
              let path = n64 argv (mem s);
              s \<leftarrow> fs_unlock_mm mp s;
              exec_image ki cls sstatus x mp kargv path s
            })
         })
      })
   }"

text \<open>\<open>kernel_execve\<close>, up to the jump to \<open>__trapret\<close>.\<close>

partial_function (option) count_argv :: "nat \<Rightarrow> nat \<Rightarrow> bytes \<Rightarrow> nat option" where
  "count_argv argv argc m = (if rd64 (argv + 8 * argc) m \<noteq> 0 then count_argv argv (argc + 1) m else Some argc)"

definition kernel_execve ::
    "kimage \<Rightarrow> sched_class \<Rightarrow> 64 word \<Rightarrow> exec_locals \<Rightarrow> nat \<Rightarrow> nat \<Rightarrow> fst \<Rightarrow> (int \<times> fst + fst) kresult" where
  "kernel_execve ki cls sstatus x name argv s = do {
     argc \<leftarrow> count_argv argv 0 (mem s);
     cur \<leftarrow> current_proc s;
     old \<leftarrow> tf (the_proc cur s);
     let new = kstack (the_proc cur s) + KSTACKSIZE - SIZEOF_TF;
     let s = upd_mem (snd \<circ> memcpy new old SIZEOF_TF) s;
     let s = set_proc cur (\<lambda>d. d\<lparr>tf := Some new\<rparr>) s;
     do_execve ki cls sstatus x (Some name) (int argc) argv s
   }"

end
