(* ===== verification/Trap.thy ===== *)
theory Trap
  imports Exec
begin

unbundle bit_operations_syntax

section \<open>System calls and traps (kern/syscall/syscall.c, kern/trap/trap.c)\<close>

text \<open>
  The handler of a trap frame at an address, with the table of system calls. \<open>ticks\<close> is the counter of clock.c. A result
  \<open>Inl\<close> means that the same process goes on, \<open>Inr\<close> that it has slept or ended and another one runs; a call that slept
  goes on with the \<open>resume\<close> function of its operation and then \<open>syscall_return\<close> and \<open>trap_tail\<close>. What the hardware and
  the stack provide are fields of \<open>trap_env\<close>: the character polled from the serial port (0 for none), the control
  register, and addresses of local structures. The messages of \<open>cprintf\<close> and the dumps of registers are left out.
\<close>

subsection \<open>State and constants\<close>

record trap_state =
  fsys :: fst
  ticks :: nat

record trap_env =
  te_image :: kimage
  te_class :: sched_class
  te_sstatus :: "64 word"
  te_exec :: exec_locals
  te_stat :: nat
  te_dotdot :: nat
  te_cwd :: nat
  te_timer :: nat
  te_getc :: "8 word"

type_synonym call_result = "(int \<times> trap_state + trap_state) kresult"

definition SYS_exit :: int where "SYS_exit = 1"
definition SYS_fork :: int where "SYS_fork = 2"
definition SYS_wait :: int where "SYS_wait = 3"
definition SYS_exec :: int where "SYS_exec = 4"
definition SYS_yield :: int where "SYS_yield = 10"
definition SYS_sleep :: int where "SYS_sleep = 11"
definition SYS_kill :: int where "SYS_kill = 12"
definition SYS_gettime :: int where "SYS_gettime = 17"
definition SYS_getpid :: int where "SYS_getpid = 18"
definition SYS_putc :: int where "SYS_putc = 30"
definition SYS_pgdir :: int where "SYS_pgdir = 31"
definition SYS_open :: int where "SYS_open = 100"
definition SYS_close :: int where "SYS_close = 101"
definition SYS_read :: int where "SYS_read = 102"
definition SYS_write :: int where "SYS_write = 103"
definition SYS_seek :: int where "SYS_seek = 104"
definition SYS_fstat :: int where "SYS_fstat = 110"
definition SYS_fsync :: int where "SYS_fsync = 111"
definition SYS_getcwd :: int where "SYS_getcwd = 121"
definition SYS_getdirentry :: int where "SYS_getdirentry = 128"
definition SYS_dup :: int where "SYS_dup = 130"
definition SYS_lab6_set_priority :: int where "SYS_lab6_set_priority = 255"

definition IRQ_S_TIMER :: nat where "IRQ_S_TIMER = 5"
definition CAUSE_MISALIGNED_STORE :: "64 word" where "CAUSE_MISALIGNED_STORE = 6"
definition CAUSE_USER_ECALL :: "64 word" where "CAUSE_USER_ECALL = 8"
definition CAUSE_SUPERVISOR_ECALL :: "64 word" where "CAUSE_SUPERVISOR_ECALL = 9"
definition CAUSE_FETCH_PAGE_FAULT :: "64 word" where "CAUSE_FETCH_PAGE_FAULT = 0xc"
definition CAUSE_LOAD_PAGE_FAULT :: "64 word" where "CAUSE_LOAD_PAGE_FAULT = 0xd"
definition CAUSE_STORE_PAGE_FAULT :: "64 word" where "CAUSE_STORE_PAGE_FAULT = 0xf"

subsection \<open>System calls\<close>

text \<open>Conversions of an argument: \<open>int\<close>, \<open>unsigned int\<close>, \<open>size_t\<close> and a pointer that may be \<open>NULL\<close>.\<close>

definition arg_int :: "64 word \<Rightarrow> int" where "arg_int a = sint (ucast a :: 32 word)"
definition arg_u32 :: "64 word \<Rightarrow> 32 word" where "arg_u32 a = ucast a"
definition arg_nat :: "64 word \<Rightarrow> nat" where "arg_nat a = unat a"
definition arg_ptr :: "64 word \<Rightarrow> nat option" where "arg_ptr a = (if a = 0 then None else Some (unat a))"

text \<open>A call on the file system, on the process table, or one that may switch to another process.\<close>

definition call_fs :: "(fst \<Rightarrow> (int \<times> fst) kresult) \<Rightarrow> trap_state \<Rightarrow> call_result" where
  "call_fs f t = do { (r, s) \<leftarrow> f (fsys t); Some (Inl (r, t\<lparr>fsys := s\<rparr>)) }"

definition call_ks :: "(kst \<Rightarrow> (int \<times> kst) kresult) \<Rightarrow> trap_state \<Rightarrow> call_result" where
  "call_ks f = call_fs (in_ks f)"

definition call_switch :: "(fst \<Rightarrow> (int \<times> fst + fst) kresult) \<Rightarrow> trap_state \<Rightarrow> call_result" where
  "call_switch f t = do {
     r \<leftarrow> f (fsys t);
     Some (case r of Inl (v, s) \<Rightarrow> Inl (v, t\<lparr>fsys := s\<rparr>) | Inr s \<Rightarrow> Inr (t\<lparr>fsys := s\<rparr>))
   }"

type_synonym call = "trap_env \<Rightarrow> (nat \<Rightarrow> 64 word) \<Rightarrow> trap_state \<Rightarrow> call_result"

definition sys_exit :: call where
  "sys_exit e arg = call_switch (\<lambda>s. do { s \<leftarrow> do_exit (te_image e) (te_class e) (arg_int (arg 0)) s; Some (Inr s) })"

definition sys_fork :: call where
  "sys_fork e arg = call_fs (\<lambda>s. do {
     cur \<leftarrow> current_proc s;
     tfp \<leftarrow> tf (the_proc cur s);
     do_fork (te_image e) (te_class e) 0 (n64 (tf_sp tfp) (mem s)) tfp s
   })"

definition sys_wait :: call where
  "sys_wait e arg = call_switch (do_wait (te_class e) (arg_int (arg 0)) (arg_ptr (arg 1)))"

definition sys_exec :: call where
  "sys_exec e arg =
     call_switch (do_execve (te_image e) (te_class e) (te_sstatus e) (te_exec e) (arg_ptr (arg 0)) (arg_int (arg 1)) (arg_nat (arg 2)))"

definition sys_yield :: call where "sys_yield e arg = call_ks do_yield"
definition sys_kill :: call where "sys_kill e arg = call_ks (do_kill (te_class e) (arg_int (arg 0)))"

definition sys_getpid :: call where
  "sys_getpid e arg = call_fs (\<lambda>s. do { cur \<leftarrow> current_proc s; Some (pid (the_proc cur s), s) })"

definition sys_putc :: call where "sys_putc e arg = call_fs (\<lambda>s. Some (0, cputchar (ucast (arg 0)) s))"
definition sys_pgdir :: call where "sys_pgdir e arg = call_fs (\<lambda>s. Some (0, s))"

definition sys_gettime :: call where
  "sys_gettime e arg t = Some (Inl (sint (word_of_nat (ticks t) * 10 :: 32 word), t))"

definition sys_lab6_set_priority :: call where
  "sys_lab6_set_priority e arg = call_ks (\<lambda>k. do { k \<leftarrow> lab6_set_priority (arg_u32 (arg 0)) k; Some (0, k) })"

definition sys_sleep :: call where
  "sys_sleep e arg = call_switch (\<lambda>s. do {
     let time = unat (arg_u32 (arg 0));
     s \<leftarrow> in_ks' (do_sleep (te_class e) (te_timer e) time) s;
     Some (if time = 0 then Inl (0, s) else Inr s)
   })"

definition sys_open :: call where "sys_open e arg = call_fs (sysfile_open (arg_nat (arg 0)) (arg_u32 (arg 1)))"
definition sys_close :: call where "sys_close e arg = call_fs (sysfile_close (arg_int (arg 0)))"

definition sys_read :: call where
  "sys_read e arg = call_fs (sysfile_read (arg_int (arg 0)) (arg_nat (arg 1)) (arg_nat (arg 2)))"

definition sys_write :: call where
  "sys_write e arg = call_fs (sysfile_write (arg_int (arg 0)) (arg_nat (arg 1)) (arg_nat (arg 2)))"

definition sys_seek :: call where
  "sys_seek e arg = call_fs (sysfile_seek (arg_int (arg 0)) (sint (arg 1)) (arg_int (arg 2)))"

definition sys_fstat :: call where
  "sys_fstat e arg = call_fs (sysfile_fstat (te_stat e) (arg_int (arg 0)) (arg_nat (arg 1)))"

definition sys_fsync :: call where "sys_fsync e arg = call_fs (sysfile_fsync (arg_int (arg 0)))"

definition sys_getcwd :: call where
  "sys_getcwd e arg = call_fs (sysfile_getcwd (te_dotdot e) (te_cwd e) (arg_nat (arg 0)) (arg_nat (arg 1)))"

definition sys_getdirentry :: call where
  "sys_getdirentry e arg = call_fs (sysfile_getdirentry (arg_int (arg 0)) (arg_nat (arg 1)))"

definition sys_dup :: call where "sys_dup e arg = call_fs (sysfile_dup (arg_int (arg 0)) (arg_int (arg 1)))"

text \<open>The array \<open>syscalls\<close>; an entry that is \<open>NULL\<close> or outside the array is \<open>None\<close>.\<close>

definition syscalls :: "int \<Rightarrow> call option" where
  "syscalls = map_of
     [(SYS_exit, sys_exit), (SYS_fork, sys_fork), (SYS_wait, sys_wait), (SYS_exec, sys_exec), (SYS_yield, sys_yield),
      (SYS_kill, sys_kill), (SYS_getpid, sys_getpid), (SYS_putc, sys_putc), (SYS_pgdir, sys_pgdir),
      (SYS_gettime, sys_gettime), (SYS_lab6_set_priority, sys_lab6_set_priority), (SYS_sleep, sys_sleep),
      (SYS_open, sys_open), (SYS_close, sys_close), (SYS_read, sys_read), (SYS_write, sys_write), (SYS_seek, sys_seek),
      (SYS_fstat, sys_fstat), (SYS_fsync, sys_fsync), (SYS_getcwd, sys_getcwd), (SYS_getdirentry, sys_getdirentry),
      (SYS_dup, sys_dup)]"

definition upd_fsys :: "(fst \<Rightarrow> fst) \<Rightarrow> trap_state \<Rightarrow> trap_state" where "upd_fsys f t = t\<lparr>fsys := f (fsys t)\<rparr>"

text \<open>The result goes to \<open>a0\<close> of the frame the call came with.\<close>

definition syscall_return :: "nat \<Rightarrow> int \<Rightarrow> trap_state \<Rightarrow> trap_state" where
  "syscall_return tfp v = upd_fsys (upd_mem (wr64 (tf_a tfp 0) (word_of_int v)))"

definition syscall :: "trap_env \<Rightarrow> trap_state \<Rightarrow> (trap_state + trap_state) kresult" where
  "syscall e t = do {
     cur \<leftarrow> current_proc (fsys t);
     tfp \<leftarrow> tf (the_proc cur (fsys t));
     let m = mem (fsys t);
     f \<leftarrow> syscalls (arg_int (rd64 (tf_a tfp 0) m));
     r \<leftarrow> f e (\<lambda>i. rd64 (tf_a tfp (i + 1)) m) t;
     Some (case r of Inl (v, t) \<Rightarrow> Inl (syscall_return tfp v t) | Inr t \<Rightarrow> Inr t)
   }"

subsection \<open>Traps\<close>

definition trap_in_kernel :: "nat \<Rightarrow> fst \<Rightarrow> bool" where
  "trap_in_kernel tfp s \<longleftrightarrow> rd64 (tf_status tfp) (mem s) AND SSTATUS_SPP \<noteq> 0"

definition exits :: "trap_env \<Rightarrow> int \<Rightarrow> trap_state \<Rightarrow> (trap_state + trap_state) kresult" where
  "exits e r t = do { s \<leftarrow> do_exit (te_image e) (te_class e) r (fsys t); Some (Inr (t\<lparr>fsys := s\<rparr>)) }"

definition pgfault_handler :: "trap_env \<Rightarrow> nat \<Rightarrow> trap_state \<Rightarrow> (trap_state + trap_state) kresult" where
  "pgfault_handler e tfp t = do {
     let s = fsys t;
     kassert (\<not> trap_in_kernel tfp s);
     mp \<leftarrow> cur_mm s;
     kassert (mp \<noteq> None);
     let ret = do_pgfault mp 0 (n64 (tf_tval tfp) (mem s)) (sy s);
     (if ret \<noteq> 0 then exits e (- E_KILLED) t else Some (Inl t))
   }"

text \<open>The clock interrupt; the other interrupts only print a message.\<close>

definition timer_interrupt :: "trap_env \<Rightarrow> trap_state \<Rightarrow> trap_state kresult" where
  "timer_interrupt e t = do {
     let t = t\<lparr>ticks := u64 (ticks t + 1)\<rparr>;
     s \<leftarrow> in_ks' (run_timer_list (te_class e)) (fsys t);
     s \<leftarrow> dev_stdin_write (te_class e) (te_getc e) s;
     Some (t\<lparr>fsys := s\<rparr>)
   }"

definition interrupt_handler :: "trap_env \<Rightarrow> nat \<Rightarrow> trap_state \<Rightarrow> trap_state kresult" where
  "interrupt_handler e tfp t =
     (let cause = unat (drop_bit 1 (push_bit 1 (rd64 (tf_cause tfp) (mem (fsys t)))))
      in if cause = IRQ_S_TIMER then timer_interrupt e t else Some t)"

text \<open>The frame is moved past the instruction before the call; the causes not listed only print a message.\<close>

definition ecall :: "trap_env \<Rightarrow> nat \<Rightarrow> trap_state \<Rightarrow> (trap_state + trap_state) kresult" where
  "ecall e tfp t = syscall e (upd_fsys (upd_mem (\<lambda>m. wr64 (tf_epc tfp) (rd64 (tf_epc tfp) m + 4) m)) t)"

definition exception_handler :: "trap_env \<Rightarrow> nat \<Rightarrow> trap_state \<Rightarrow> (trap_state + trap_state) kresult" where
  "exception_handler e tfp t =
     (let cause = rd64 (tf_cause tfp) (mem (fsys t)) in
      if cause = CAUSE_MISALIGNED_STORE then None
      else if cause = CAUSE_USER_ECALL \<or> cause = CAUSE_SUPERVISOR_ECALL then ecall e tfp t
      else if cause \<in> {CAUSE_FETCH_PAGE_FAULT, CAUSE_LOAD_PAGE_FAULT, CAUSE_STORE_PAGE_FAULT} then pgfault_handler e tfp t
      else Some (Inl t))"

definition trap_dispatch :: "trap_env \<Rightarrow> nat \<Rightarrow> trap_state \<Rightarrow> (trap_state + trap_state) kresult" where
  "trap_dispatch e tfp t =
     (if sint (rd64 (tf_cause tfp) (mem (fsys t))) < 0
      then do { t \<leftarrow> interrupt_handler e tfp t; Some (Inl t) }
      else exception_handler e tfp t)"

text \<open>The part of \<open>trap\<close> after the dispatch, for the frame \<open>otf\<close> that was current before.\<close>

definition trap_tail :: "trap_env \<Rightarrow> nat option \<Rightarrow> bool \<Rightarrow> trap_state \<Rightarrow> (trap_state + trap_state) kresult" where
  "trap_tail e otf in_kernel t = do {
     cur \<leftarrow> current_proc (fsys t);
     let t = upd_fsys (set_proc cur (\<lambda>d. d\<lparr>tf := otf\<rparr>)) t;
     (if in_kernel then Some (Inl t)
      else if pflags (the_proc cur (fsys t)) AND PF_EXITING \<noteq> 0 then exits e (- E_KILLED) t
      else if need_resched (the_proc cur (fsys t))
      then do { s \<leftarrow> in_ks' (schedule (te_class e)) (fsys t); Some (Inr (t\<lparr>fsys := s\<rparr>)) }
      else Some (Inl t))
   }"

definition trap :: "trap_env \<Rightarrow> nat \<Rightarrow> trap_state \<Rightarrow> (trap_state + trap_state) kresult" where
  "trap e tfp t = (case current_proc (fsys t) of
     None \<Rightarrow> trap_dispatch e tfp t
   | Some cur \<Rightarrow> do {
       let otf = tf (the_proc cur (fsys t));
       let t = upd_fsys (set_proc cur (\<lambda>d. d\<lparr>tf := Some tfp\<rparr>)) t;
       let in_kernel = trap_in_kernel tfp (fsys t);
       r \<leftarrow> trap_dispatch e tfp t;
       (case r of Inl t \<Rightarrow> trap_tail e otf in_kernel t | Inr t \<Rightarrow> Some (Inr t))
     })"

end
