(* ===== verification/Cow.thy ===== *)
theory Cow
  imports Vmm Page_Table_Properties
begin

unbundle bit_operations_syntax

section \<open>Copy on write (src/lab5/kern/mm/pmm.c, src/lab5/kern/mm/vmm.c, src/lab5/kern/trap/trap.c)\<close>

text \<open>
  In lab 5 a fork shares the pages: \<open>copy_range\<close> has a parameter \<open>share\<close>, \<open>dup_mmap\<close> passes 1, and a store to a page
  without \<open>PTE_W\<close> goes to \<open>do_pgfault\<close>. The other functions of the page tables and of the areas are those of lab 8, so
  the state is the same. The messages of \<open>cprintf\<close> are left out.
\<close>

subsection \<open>Sharing and copying a range\<close>

definition share_page :: "nat \<Rightarrow> nat \<times> nat \<Rightarrow> nat \<Rightarrow> vmst \<Rightarrow> (int \<times> vmst) kresult" where
  "share_page to ptep start s = do {
     let perm = entry ptep s AND PTE_USER;
     page \<leftarrow> pte2page (entry ptep s) s;
     let perm_no_write = perm AND NOT PTE_W;
     let s = set_entry ptep (pte_create (page2ppn page) (PTE_V OR perm_no_write)) s;
     (nptep, s) \<leftarrow> get_pte to start True s;
     (if nptep = None then Some (- E_NO_MEM, s)
      else do {
        (r, s) \<leftarrow> page_insert to page start perm_no_write s;
        Some (if r \<noteq> 0 then - E_NO_MEM else 0, s)
      })
   }"

definition eager_page :: "nat \<Rightarrow> nat \<times> nat \<Rightarrow> nat \<Rightarrow> vmst \<Rightarrow> (int \<times> vmst) kresult" where
  "eager_page to ptep start s = do {
     let perm = entry ptep s AND PTE_USER;
     page \<leftarrow> pte2page (entry ptep s) s;
     (nptep, s) \<leftarrow> get_pte to start True s;
     (if nptep = None then Some (- E_NO_MEM, s)
      else do {
        (np, s) \<leftarrow> alloc_page s;
        npage \<leftarrow> np;
        src \<leftarrow> page2kva page s;
        dst \<leftarrow> page2kva npage s;
        let s = set_frame dst (frame s src) s;
        (r, s) \<leftarrow> page_insert to npage start perm s;
        (if r \<noteq> 0 then do { s \<leftarrow> free_page npage s; Some (- E_NO_MEM, s) } else Some (0, s))
      })
   }"

partial_function (option) cow_copy_loop :: "bool \<Rightarrow> nat \<Rightarrow> nat \<Rightarrow> nat \<Rightarrow> nat \<Rightarrow> vmst \<Rightarrow> (int \<times> vmst) kresult" where
  "cow_copy_loop share to from start end' s = do {
     (ptep, s) \<leftarrow> get_pte from start False s;
     (case ptep of
        None \<Rightarrow>
          (let start = ROUNDDOWN (u64 (start + PTSIZE)) PTSIZE in
           if start \<noteq> 0 \<and> start < end' then cow_copy_loop share to from start end' s else Some (0, s))
      | Some e \<Rightarrow> do {
          (r, s) \<leftarrow> (if valid (entry e s)
                     then if share then share_page to e start s else eager_page to e start s
                     else Some (0, s));
          (if r \<noteq> 0 then Some (r, s)
           else let start = u64 (start + PGSIZE) in
             if start \<noteq> 0 \<and> start < end' then cow_copy_loop share to from start end' s else Some (0, s))
        })
   }"

definition cow_copy_range :: "nat \<Rightarrow> nat \<Rightarrow> nat \<Rightarrow> nat \<Rightarrow> bool \<Rightarrow> vmst \<Rightarrow> (int \<times> vmst) kresult" where
  "cow_copy_range to from start end' share s = do {
     kassert (start mod PGSIZE = 0 \<and> end' mod PGSIZE = 0);
     kassert (USER_ACCESS start end');
     cow_copy_loop share to from start end' s
   }"

partial_function (option) cow_dup_loop :: "nat \<Rightarrow> vm_le \<Rightarrow> vm_le \<Rightarrow> nat \<Rightarrow> sys \<Rightarrow> (int \<times> sys) kresult" where
  "cow_dup_loop to list le from_pgdir s = do {
     let le = list_prev le (vlinks s);
     (if le \<noteq> list
      then do {
        let v = vmas s (le2vma le);
        (nvma, s) \<leftarrow> vma_create (vm_start v) (vm_end v) (vm_flags v) s;
        (case nvma of
           None \<Rightarrow> Some (- E_NO_MEM, s)
         | Some nvma \<Rightarrow> do {
             s \<leftarrow> insert_vma_struct to nvma s;
             let share = True;
             (r, s) \<leftarrow> on_vm (cow_copy_range (mm_pgdir (mms s to)) from_pgdir (vm_start v) (vm_end v) share) s;
             (if r \<noteq> 0 then Some (- E_NO_MEM, s) else cow_dup_loop to list le from_pgdir s)
           })
      }
      else Some (0, s))
   }"

definition cow_dup_mmap :: "nat option \<Rightarrow> nat option \<Rightarrow> sys \<Rightarrow> (int \<times> sys) kresult" where
  "cow_dup_mmap to from s = do {
     to \<leftarrow> to;
     from \<leftarrow> from;
     cow_dup_loop to (Mmap_list from) (Mmap_list from) (mm_pgdir (mms s from)) s
   }"

subsection \<open>Page faults\<close>

text \<open>\<open>do_pgfault\<close> after the check of the area. \<open>pte2page\<close> never returns \<open>NULL\<close>.\<close>

definition cow_fault :: "nat \<Rightarrow> nat \<Rightarrow> vmst \<Rightarrow> (int \<times> vmst) kresult" where
  "cow_fault pgd la s = do {
     (ptep, s) \<leftarrow> get_pte pgd la False s;
     (case ptep of
        None \<Rightarrow> Some (- E_INVAL, s)
      | Some e \<Rightarrow>
          let perm = entry e s AND PTE_USER in
          if \<not> valid (entry e s) then Some (- E_INVAL, s)
          else if entry e s AND PTE_W \<noteq> 0 then Some (0, s)
          else if entry e s AND PTE_U = 0 then Some (- E_INVAL, s)
          else do {
            old \<leftarrow> pte2page (entry e s) s;
            (if page_ref old (pm s) > 1
             then do {
               (newp, s) \<leftarrow> alloc_page s;
               (case newp of
                  None \<Rightarrow> Some (- E_NO_MEM, s)
                | Some newp \<Rightarrow> do {
                    dst \<leftarrow> page2kva newp s;
                    src \<leftarrow> page2kva old s;
                    let s = set_frame dst (frame s src) s;
                    (r, s) \<leftarrow> page_insert pgd newp la (perm OR PTE_W) s;
                    (if r \<noteq> 0 then do { s \<leftarrow> free_page newp s; Some (- E_NO_MEM, s) } else Some (0, s))
                  })
             }
             else Some (0, set_entry e (pte_create (page2ppn old) (PTE_V OR (perm OR PTE_W))) s))
          })
   }"

definition cow_do_pgfault :: "nat option \<Rightarrow> 32 word \<Rightarrow> nat \<Rightarrow> sys \<Rightarrow> (int \<times> sys) kresult" where
  "cow_do_pgfault mp error_code addr s = (case mp of
     None \<Rightarrow> Some (- E_INVAL, s)
   | Some m \<Rightarrow> do {
       let la = ROUNDDOWN addr PGSIZE;
       (vma, s) \<leftarrow> find_vma mp la s;
       (if (case vma of None \<Rightarrow> True | Some v \<Rightarrow> vm_flags (vmas s v) AND VM_WRITE = 0) then Some (- E_INVAL, s)
        else on_vm (cow_fault (mm_pgdir (mms s m)) la) s)
     })"

text \<open>
  The case \<open>CAUSE_STORE_PAGE_FAULT\<close> of \<open>exception_handler\<close>, for a trap whose frame has \<open>tval\<close>: an error of \<open>do_pgfault\<close>
  is only printed, and the trap returns to the instruction that faulted.
\<close>

definition store_page_fault :: "bool \<Rightarrow> nat \<Rightarrow> sys \<Rightarrow> sys kresult" where
  "store_page_fault in_kernel tval s = (case current (ks s) of
     None \<Rightarrow> Some s
   | Some cur \<Rightarrow>
       let mp = mm (procs (ks s) cur) in
       if mp \<noteq> None \<and> \<not> in_kernel
       then do { (r, s) \<leftarrow> cow_do_pgfault mp 0 tval s; Some s }
       else Some s)"

end
