(* ===== verification/Cow_Spaces.thy ===== *)
theory Cow_Spaces
  imports Cow
begin

unbundle bit_operations_syntax

section \<open>Address spaces that share pages\<close>

text \<open>
  \<open>spaces_ok\<close>: the address spaces of \<open>R\<close> have trees of tables of their own. \<open>cow_inv\<close>: besides, the reference count of a
  page is at least the number of its mappings, and a page mapped with \<open>PTE_W\<close> is mapped once. \<open>view s r la\<close> is what the
  process with directory \<open>r\<close> reads in the page at \<open>la\<close>.
\<close>

definition upage :: "nat \<Rightarrow> bool" where "upage la \<longleftrightarrow> la < USERTOP \<and> PGSIZE dvd la"

definition target :: "vmst \<Rightarrow> nat \<Rightarrow> nat \<Rightarrow> nat" where "target s r la = PPN (PTE_ADDR (pte_at s r la))"

definition view :: "vmst \<Rightarrow> nat \<Rightarrow> nat \<Rightarrow> (nat \<Rightarrow> 64 word) option" where
  "view s r la = (if valid (pte_at s r la) then Some (\<lambda>b. entry (target s r la, b) s) else None)"

definition writable :: "vmst \<Rightarrow> nat \<Rightarrow> nat \<Rightarrow> bool" where
  "writable s r la \<longleftrightarrow> valid (pte_at s r la) \<and> pte_at s r la AND PTE_W \<noteq> 0"

definition mappers :: "vmst \<Rightarrow> nat set \<Rightarrow> nat \<Rightarrow> (nat \<times> nat) set" where
  "mappers s R q = {(r, la). r \<in> R \<and> upage la \<and> mapped s r la = Some q}"

definition spaces_ok :: "vmst \<Rightarrow> nat set \<Rightarrow> nat set \<Rightarrow> bool" where
  "spaces_ok s F R \<longleftrightarrow> vm_mem s F \<and> finite R \<and> (\<forall>r\<in>R. pt_ok s F r) \<and>
     (\<forall>r\<in>R. \<forall>r'\<in>R. r \<noteq> r' \<longrightarrow> tables s r \<inter> tables s r' = {})"

definition in_use :: "vmst \<Rightarrow> nat set \<Rightarrow> nat set \<Rightarrow> nat \<Rightarrow> bool" where
  "in_use s F R q \<longleftrightarrow> q + nbase < npage s \<and> q \<notin> F \<and> (\<forall>r\<in>R. q + nbase \<notin> tables s r)"

definition cow_inv :: "vmst \<Rightarrow> nat set \<Rightarrow> nat set \<Rightarrow> bool" where
  "cow_inv s F R \<longleftrightarrow> spaces_ok s F R \<and>
     (\<forall>r\<in>R. \<forall>la. upage la \<longrightarrow> valid (pte_at s r la) \<longrightarrow> (\<exists>q. target s r la = q + nbase \<and> in_use s F R q)) \<and>
     (\<forall>q. mappers s R q \<noteq> {} \<longrightarrow> int (card (mappers s R q)) \<le> page_ref q (pm s)) \<and>
     (\<forall>r\<in>R. \<forall>la q. upage la \<longrightarrow> writable s r la \<longrightarrow> mapped s r la = Some q \<longrightarrow> mappers s R q = {(r, la)})"

lemma upage_bound: "upage la \<Longrightarrow> la < 2 ^ 39"
  by (simp add: upage_def USERTOP_def)

lemma same_upage: "upage la \<Longrightarrow> upage la' \<Longrightarrow> same_page la la' \<longleftrightarrow> la = la'"
  using upage_bound [of la] upage_bound [of la'] by (auto simp: same_page_iff upage_def PGSIZE_def elim!: dvdE)

lemma mappers_fin: "finite R \<Longrightarrow> finite (mappers s R q)"
  by (rule finite_subset [of _ "R \<times> {..<USERTOP}"]) (auto simp: mappers_def upage_def)

subsection \<open>Entries with fewer or more rights\<close>

lemma user_perm_bits: "perm_bits (PTE_V OR (user_perm v AND NOT PTE_W))" "perm_bits (PTE_V OR (user_perm v OR PTE_W))"
proof -
  have m: "NOT (0x3FF :: 64 word) = - 1024" by simp
  have u: "PTE_USER AND - 1024 = 0" "PTE_V AND - 1024 = 0" "PTE_W AND - 1024 = 0"
    by (simp_all add: PTE_USER_def PTE_V_def PTE_R_def PTE_W_def PTE_X_def PTE_U_def)
  have p: "(user_perm v AND x) AND - 1024 = 0" for x
  proof -
    have "(user_perm v AND x) AND - 1024 = (PTE_USER AND - 1024) AND (v AND x)"
      unfolding user_perm_def by (simp only: ac_simps)
    then show ?thesis by (simp add: u)
  qed
  show "perm_bits (PTE_V OR (user_perm v AND NOT PTE_W))"
    unfolding perm_bits_def m bit.conj_disj_distrib2 u(2) p by simp
  show "perm_bits (PTE_V OR (user_perm v OR PTE_W))"
    unfolding perm_bits_def m bit.conj_disj_distrib2 u(2,3) using p [of "- 1"] by simp
qed

lemma pte_create_write:
  assumes "perm_bits t" "ppn < 2 ^ 44"
  shows "pte_create ppn t AND PTE_W = t AND PTE_W"
proof -
  have w: "PTE_W = 0x3FF AND PTE_W" "PTE_V AND PTE_W = 0" by (simp_all add: PTE_W_def PTE_V_def)
  have "pte_create ppn t AND PTE_W = (pte_create ppn t AND 0x3FF) AND PTE_W"
    by (subst w(1)) (simp only: and.assoc)
  also have "\<dots> = (PTE_V OR t) AND PTE_W" using pte_create_roundtrip [OF assms] by simp
  finally show ?thesis by (simp add: bit.conj_disj_distrib2 w(2))
qed

lemma rights:
  assumes "ppn < 2 ^ 44"
  shows "pte_create ppn (PTE_V OR (user_perm v AND NOT PTE_W)) AND PTE_W = 0"
    "pte_create ppn (PTE_V OR (user_perm v OR PTE_W)) AND PTE_W \<noteq> 0"
proof -
  have w: "PTE_V AND PTE_W = 0" "PTE_W AND PTE_W = PTE_W" "PTE_W \<noteq> 0" by (simp_all add: PTE_W_def PTE_V_def)
  show "pte_create ppn (PTE_V OR (user_perm v AND NOT PTE_W)) AND PTE_W = 0"
    by (simp add: pte_create_write [OF user_perm_bits(1) assms] bit.conj_disj_distrib2 w and.assoc)
  have "(x OR PTE_W) AND PTE_W = PTE_W" for x by (simp add: bit.conj_disj_distrib2 w)
  then have "((PTE_V OR user_perm v) OR PTE_W) AND PTE_W = PTE_W" .
  then show "pte_create ppn (PTE_V OR (user_perm v OR PTE_W)) AND PTE_W \<noteq> 0"
    using pte_create_write [OF user_perm_bits(2) assms, of v] w(3) by (simp only: or.assoc) simp
qed

subsection \<open>Steps on the trees of tables\<close>

lemma leaf_set:
  assumes "spaces_ok s F R" "r \<in> R" "leaf s r la = Some e" "t = set_entry e v s"
  shows "spaces_ok t F R" "pm t = pm s" "npage t = npage s"
    "r' \<in> R \<Longrightarrow> tables t r' = tables s r'"
    "r' \<in> R \<Longrightarrow> pte_at t r' la' = (if r' = r \<and> same_page la la' then v else pte_at s r' la')"
    "r' \<in> R \<Longrightarrow> leaf t r' la' = leaf s r' la'"
    "g \<notin> tables s r \<Longrightarrow> entry (g, b) t = entry (g, b) s"
proof -
  have m: "vm_mem s F" and pt: "pt_ok s F r" and d: "r' \<in> R \<Longrightarrow> r' \<noteq> r \<Longrightarrow> tables s r' \<inter> tables s r = {}" for r'
    using assms(1,2) by (auto simp: spaces_ok_def)
  note I = insert_tail [OF m pt assms(3,4)]
  note sl = set_leaf [OF pt assms(3), where v = v, folded assms(4)]
  show en: "g \<notin> tables s r \<Longrightarrow> entry (g, b) t = entry (g, b) s" for g b by (fact I(7))
  have o: "tables t r' = tables s r'" "pte_at t r' la = pte_at s r' la" "leaf t r' la = leaf s r' la" "pt_ok t F r'"
    if "r' \<in> R" "r' \<noteq> r" for r' la
  proof -
    have "\<forall>g\<in>tables s r'. \<forall>b. entry (g, b) t = entry (g, b) s" using d [OF that] en by blast
    from other_space [OF this I(4)] show "tables t r' = tables s r'" "pte_at t r' la = pte_at s r' la" "leaf t r' la = leaf s r' la" "pt_ok t F r'"
      using assms(1) that(1) by (auto simp: spaces_ok_def)
  qed
  show "pm t = pm s" "npage t = npage s" by (fact I)+
  show tb: "r' \<in> R \<Longrightarrow> tables t r' = tables s r'" for r' using o(1) I(3) by (cases "r' = r") auto
  show "r' \<in> R \<Longrightarrow> pte_at t r' la' = (if r' = r \<and> same_page la la' then v else pte_at s r' la')"
    using o(2) I(5) by (cases "r' = r") auto
  show "r' \<in> R \<Longrightarrow> leaf t r' la' = leaf s r' la'"
    using o(3) sl(1) [OF pth] by (cases "r' = r") (auto simp: leaf_def)
  show "spaces_ok t F R"
    using assms(1) I(1,2) o(4) tb by (auto simp: spaces_ok_def)
qed

lemma grow_spaces:
  assumes "spaces_ok s F R" "to \<in> R" "vm_grow s F u F' to"
  shows "spaces_ok u F' R" "r \<in> R \<Longrightarrow> pte_at u r la = pte_at s r la"
    "r \<in> R \<Longrightarrow> tables u r \<subseteq> tables s r \<union> page_frames (F - F')"
    "g \<notin> page_frames F \<Longrightarrow> g \<notin> tables s to \<Longrightarrow> entry (g, b) u = entry (g, b) s"
    "r \<in> R \<Longrightarrow> r \<noteq> to \<Longrightarrow> leaf u r la = leaf s r la" "r \<in> R \<Longrightarrow> tables s r \<subseteq> tables u r"
proof -
  note U = vm_growD [OF assms(3)]
  have pt: "pt_ok s F r" if "r \<in> R" for r using assms(1) that by (simp add: spaces_ok_def)
  have nf: "g \<notin> page_frames F" if "g \<in> tables s r" "r \<in> R" for g r
    using tables_range [OF pt [OF that(2)] that(1)] by (auto simp: page_frames_def)
  have o: "tables u r = tables s r" "pte_at u r la = pte_at s r la" "leaf u r la = leaf s r la" "pt_ok u F' r"
    if "r \<in> R" "r \<noteq> to" for r la
  proof -
    have "\<forall>g\<in>tables s r. \<forall>b. entry (g, b) u = entry (g, b) s"
      using U(7) nf [OF _ that(1)] assms(1,2) that unfolding spaces_ok_def by blast
    from other_space [OF this U(4)] show "tables u r = tables s r" "pte_at u r la = pte_at s r la" "leaf u r la = leaf s r la" "pt_ok u F' r"
      using pt [OF that(1)] U(3) by auto
  qed
  show "r \<in> R \<Longrightarrow> pte_at u r la = pte_at s r la" using o(2) U(10) by (cases "r = to") auto
  show tb: "r \<in> R \<Longrightarrow> tables u r \<subseteq> tables s r \<union> page_frames (F - F')" for r using o(1) U(6) by (cases "r = to") auto
  show "g \<notin> page_frames F \<Longrightarrow> g \<notin> tables s to \<Longrightarrow> entry (g, b) u = entry (g, b) s" by (rule U(7))
  show "r \<in> R \<Longrightarrow> r \<noteq> to \<Longrightarrow> leaf u r la = leaf s r la" by (fact o(3))
  show "tables s r \<subseteq> tables u r" if "r \<in> R"
  proof (cases "r = to")
    case True
    then show ?thesis using U(5) by (auto simp: tables_def)
  qed (use o(1) that in auto)
  have "tables u r \<inter> tables u r' = {}" if rr: "r \<in> R" "r' \<in> R" "r \<noteq> r'" for r r'
  proof -
    have d: "tables s r \<inter> tables s r' = {}" using assms(1) rr by (simp add: spaces_ok_def)
    have n: "tables s x \<inter> page_frames (F - F') = {}" if "x \<in> R" for x using nf [OF _ that] by (auto simp: page_frames_def)
    consider "tables u r = tables s r" | "tables u r' = tables s r'" using o(1) rr by metis
    then show ?thesis
    proof cases
      case 1
      then show ?thesis using tb [OF rr(2)] n [OF rr(1)] d by blast
    next
      case 2
      then show ?thesis using tb [OF rr(1)] n [OF rr(2)] d by blast
    qed
  qed
  then show "spaces_ok u F' R"
    using assms(1) U(1,2) o(4) by (auto simp: spaces_ok_def)
qed

lemma same_spaces:
  assumes "spaces_ok s F R" "vm_mem t F'" "F' \<subseteq> F" "npage t = npage s"
    "\<forall>r\<in>R. \<forall>g\<in>tables s r. \<forall>b. entry (g, b) t = entry (g, b) s"
  shows "spaces_ok t F' R" "r \<in> R \<Longrightarrow> tables t r = tables s r" "r \<in> R \<Longrightarrow> pte_at t r la = pte_at s r la"
    "r \<in> R \<Longrightarrow> leaf t r la = leaf s r la"
proof -
  have o: "tables t r = tables s r" "pte_at t r la = pte_at s r la" "leaf t r la = leaf s r la" "pt_ok t F' r" if "r \<in> R" for r la
  proof -
    have "\<forall>g\<in>tables s r. \<forall>b. entry (g, b) t = entry (g, b) s" using assms(5) that by blast
    from other_space [OF this assms(4)] show "tables t r = tables s r" "pte_at t r la = pte_at s r la" "leaf t r la = leaf s r la" "pt_ok t F' r"
      using assms(1,3) that by (auto simp: spaces_ok_def)
  qed
  then show "r \<in> R \<Longrightarrow> tables t r = tables s r" "r \<in> R \<Longrightarrow> pte_at t r la = pte_at s r la" "r \<in> R \<Longrightarrow> leaf t r la = leaf s r la"
    by simp_all
  show "spaces_ok t F' R" using assms(1,2) o by (auto simp: spaces_ok_def)
qed

subsection \<open>Steps on the mappings\<close>

lemma cow_target:
  "cow_inv s F R \<Longrightarrow> r \<in> R \<Longrightarrow> upage la \<Longrightarrow> valid (pte_at s r la) \<Longrightarrow> \<exists>q. target s r la = q + nbase \<and> in_use s F R q"
  unfolding cow_inv_def by blast

lemma cow_mapped:
  assumes "cow_inv s F R" "r \<in> R" "upage la" "mapped s r la = Some q"
  shows "valid (pte_at s r la)" "target s r la = q + nbase" "in_use s F R q" "view s r la = Some (\<lambda>b. entry (q + nbase, b) s)"
    "int (card (mappers s R q)) \<le> page_ref q (pm s)" "1 \<le> page_ref q (pm s)" "(r, la) \<in> mappers s R q"
proof -
  show v: "valid (pte_at s r la)" using assms(4) by (auto simp: mapped_def split: if_splits)
  then obtain p where p: "target s r la = p + nbase" "in_use s F R p" using cow_target [OF assms(1-3)] by auto
  then show "target s r la = q + nbase" "in_use s F R q"
    using assms(4) v by (auto simp: mapped_def target_def split: if_splits)
  then show "view s r la = Some (\<lambda>b. entry (q + nbase, b) s)" using v by (simp add: view_def)
  show i: "(r, la) \<in> mappers s R q" using assms(2-4) by (simp add: mappers_def)
  then show c: "int (card (mappers s R q)) \<le> page_ref q (pm s)" using assms(1) by (auto simp: cow_inv_def)
  have "finite (mappers s R q)" using assms(1) by (intro mappers_fin) (simp add: cow_inv_def spaces_ok_def)
  then have "card (mappers s R q) \<noteq> 0" using i by auto
  then show "1 \<le> page_ref q (pm s)" using c by linarith
qed

lemma view_eq_None: "view s r la = None \<longleftrightarrow> mapped s r la = None"
  by (simp add: view_def mapped_def)

text \<open>
  One entry is rewritten so that the page \<open>la\<close> of \<open>r\<close> is mapped to \<open>n\<close>, and the counts follow. Demoting an entry,
  giving a right back, mapping a shared page and replacing a page by its copy are all of this kind.
\<close>

lemma cow_update:
  assumes inv: "cow_inv s F R" and r: "r \<in> R" and la: "upage la"
    and t: "spaces_ok t F R" "npage t = npage s" "\<And>r'. r' \<in> R \<Longrightarrow> tables t r' = tables s r'"
    and p: "\<And>r' la'. r' \<in> R \<Longrightarrow> upage la' \<Longrightarrow> pte_at t r' la' = (if r' = r \<and> la' = la then v else pte_at s r' la')"
    and e: "\<And>g b. g \<notin> tables s r \<Longrightarrow> entry (g, b) t = entry (g, b) s"
    and v: "valid v" "PPN (PTE_ADDR v) = n + nbase" "in_use s F R n"
    and ref: "\<And>x. x \<noteq> n \<Longrightarrow> page_ref x (pm t) = page_ref x (pm s) - (if mapped s r la = Some x then 1 else 0)"
    and refn: "int (card (mappers s R n - {(r, la)})) + 1 \<le> page_ref n (pm t)"
    and w: "v AND PTE_W \<noteq> 0 \<longrightarrow> mappers s R n \<subseteq> {(r, la)}"
    and o: "\<And>r' la'. (r', la') \<in> mappers s R n - {(r, la)} \<Longrightarrow> \<not> writable s r' la'"
  shows "cow_inv t F R" "\<And>r' la'. r' \<in> R \<Longrightarrow> upage la' \<Longrightarrow>
      view t r' la' = (if r' = r \<and> la' = la then Some (\<lambda>b. entry (n + nbase, b) s) else view s r' la')"
    "\<And>x. mappers t R x = (mappers s R x - {(r, la)}) \<union> (if x = n then {(r, la)} else {})"
proof -
  have mp: "mapped t r' la' = (if r' = r \<and> la' = la then Some n else mapped s r' la')" if "r' \<in> R" "upage la'" for r' la'
    using p [OF that] v by (cases "r' = r \<and> la' = la") (auto simp: mapped_def)
  then show M: "mappers t R x = (mappers s R x - {(r, la)}) \<union> (if x = n then {(r, la)} else {})" for x
    using r la by (auto simp: mappers_def split: if_splits)
  have fin: "finite (mappers s R x)" for x using inv by (intro mappers_fin) (simp add: cow_inv_def spaces_ok_def)
  have use: "in_use t F R x = in_use s F R x" for x using t(2,3) by (simp add: in_use_def)
  have ent: "entry (x + nbase, b) t = entry (x + nbase, b) s" if "in_use s F R x" for x b
    using that r by (intro e) (simp add: in_use_def)
  have old: "\<exists>q. target s r' la' = q + nbase \<and> in_use s F R q" if "r' \<in> R" "upage la'" "valid (pte_at s r' la')" for r' la'
    by (rule cow_target [OF inv that])
  show view: "view t r' la' = (if r' = r \<and> la' = la then Some (\<lambda>b. entry (n + nbase, b) s) else view s r' la')"
    if "r' \<in> R" "upage la'" for r' la'
  proof (cases "r' = r \<and> la' = la")
    case True
    then show ?thesis using p [OF that] v ent [OF v(3)] by (simp add: view_def target_def)
  next
    case False
    then show ?thesis using p [OF that] old [OF that] ent by (auto simp: view_def target_def fun_eq_iff)
  qed
  have cnt: "int (card (mappers t R x)) \<le> page_ref x (pm t)" if "mappers t R x \<noteq> {}" for x
  proof (cases "x = n")
    case True
    have "card (mappers t R n) = card (insert (r, la) (mappers s R n - {(r, la)}))" by (rule arg_cong [of _ _ card]) (auto simp: M)
    also have "\<dots> = card (mappers s R n - {(r, la)}) + 1" using fin [of n] by (subst card_insert_disjoint) auto
    finally have "card (mappers t R n) = card (mappers s R n - {(r, la)}) + 1" .
    then show ?thesis using refn True by simp
  next
    case False
    then have "mappers s R x \<noteq> {}" using that M by auto
    then have c: "int (card (mappers s R x)) \<le> page_ref x (pm s)" using inv by (simp add: cow_inv_def)
    have i: "(r, la) \<in> mappers s R x \<longleftrightarrow> mapped s r la = Some x" using r la by (simp add: mappers_def)
    have m: "mappers t R x = mappers s R x - {(r, la)}" using False by (simp add: M)
    show ?thesis
    proof (cases "mapped s r la = Some x")
      case True
      have "card (mappers s R x - {(r, la)}) = card (mappers s R x) - 1" "card (mappers s R x) \<noteq> 0"
        using True i fin [of x] by auto
      then show ?thesis unfolding m ref [OF False] using True c by simp
    next
      case no: False
      then have "(r, la) \<notin> mappers s R x" using i by simp
      then show ?thesis unfolding m ref [OF False] using c no by simp
    qed
  qed
  have own: "mappers t R x = {(r', la')}" if "r' \<in> R" "upage la'" "writable t r' la'" "mapped t r' la' = Some x" for r' la' x
  proof (cases "r' = r \<and> la' = la")
    case True
    then have "x = n" "v AND PTE_W \<noteq> 0" using that mp p by (auto simp: writable_def)
    then show ?thesis using True w M by auto
  next
    case False
    then have s: "mapped s r' la' = Some x" "writable s r' la'" using that mp p by (auto simp: writable_def)
    then have "mappers s R x = {(r', la')}" using inv that(1,2) by (auto simp: cow_inv_def)
    moreover have "x \<noteq> n" using o [of r' la'] s that(1,2) False by (auto simp: mappers_def)
    ultimately show ?thesis using False by (auto simp: M)
  qed
  have tgt: "\<exists>q. target t r' la' = q + nbase \<and> in_use t F R q" if "r' \<in> R" "upage la'" "valid (pte_at t r' la')" for r' la'
    using p [OF that(1,2)] that old v by (cases "r' = r \<and> la' = la") (auto simp: target_def use)
  show "cow_inv t F R" unfolding cow_inv_def using t(1) tgt cnt own by blast
qed

text \<open>A step that leaves the mappings: growing the tables, taking a free page.\<close>

lemma cow_keep:
  assumes inv: "cow_inv s F R" and t: "spaces_ok t F' R" "npage t = npage s" "F' \<subseteq> F"
    and tb: "\<forall>r\<in>R. tables t r \<subseteq> tables s r \<union> page_frames (F - F')"
    and pte: "\<forall>r\<in>R. \<forall>la. pte_at t r la = pte_at s r la"
    and ref: "\<forall>x. x \<notin> F \<longrightarrow> page_ref x (pm t) = page_ref x (pm s)"
  shows "cow_inv t F' R" "\<And>x. mappers t R x = mappers s R x" "\<And>r la. r \<in> R \<Longrightarrow> mapped t r la = mapped s r la"
    "\<And>q. in_use s F R q \<Longrightarrow> in_use t F' R q"
proof -
  have p: "pte_at t r la = pte_at s r la" if "r \<in> R" for r la using pte that by blast
  show mp: "\<And>r la. r \<in> R \<Longrightarrow> mapped t r la = mapped s r la" by (simp add: mapped_def p)
  then show M: "\<And>x. mappers t R x = mappers s R x" by (auto simp: mappers_def)
  show use: "in_use t F' R q" if "in_use s F R q" for q
    using that t(2,3) tb by (fastforce simp: in_use_def page_frames_def)
  have old: "\<exists>q. target s r' la' = q + nbase \<and> in_use s F R q" if "r' \<in> R" "upage la'" "valid (pte_at s r' la')" for r' la'
    by (rule cow_target [OF inv that])
  have cnt: "int (card (mappers t R x)) \<le> page_ref x (pm t)" if "mappers t R x \<noteq> {}" for x
  proof -
    have "mappers s R x \<noteq> {}" using that unfolding M .
    then obtain r la where m: "r \<in> R" "upage la" "mapped s r la = Some x" unfolding mappers_def by blast
    note c = cow_mapped [OF inv m]
    have "x \<notin> F" using c(3) by (simp add: in_use_def)
    then show ?thesis using c(5) by (simp add: M ref)
  qed
  have wr: "writable t r la = writable s r la" if "r \<in> R" for r la by (simp add: writable_def p [OF that])
  have "\<forall>r\<in>R. \<forall>la q. upage la \<longrightarrow> writable t r la \<longrightarrow> mapped t r la = Some q \<longrightarrow> mappers t R q = {(r, la)}"
    using inv by (simp add: cow_inv_def M mp wr)
  moreover have "\<exists>q. target t r la = q + nbase \<and> in_use t F' R q" if "r \<in> R" "upage la" "valid (pte_at t r la)" for r la
    using old [OF that(1,2)] that p [OF that(1)] use by (auto simp: target_def)
  ultimately show "cow_inv t F' R" using t(1) cnt unfolding cow_inv_def by blast
qed

lemma cow_same:
  assumes inv: "cow_inv s F R" and t: "spaces_ok t F' R" "npage t = npage s" "F' \<subseteq> F"
    and tb: "\<forall>r\<in>R. tables t r \<subseteq> tables s r \<union> page_frames (F - F')"
    and pte: "\<forall>r\<in>R. \<forall>la. pte_at t r la = pte_at s r la"
    and e: "\<forall>q b. in_use s F R q \<longrightarrow> entry (q + nbase, b) t = entry (q + nbase, b) s"
    and ref: "\<forall>x. x \<notin> F \<longrightarrow> page_ref x (pm t) = page_ref x (pm s)"
  shows "cow_inv t F' R" "\<And>r la. r \<in> R \<Longrightarrow> upage la \<Longrightarrow> view t r la = view s r la"
    "\<And>x. mappers t R x = mappers s R x" "\<And>r la. r \<in> R \<Longrightarrow> mapped t r la = mapped s r la"
    "\<And>q. in_use s F R q \<Longrightarrow> in_use t F' R q"
proof -
  note K = cow_keep [OF inv t tb pte ref]
  show "cow_inv t F' R" "\<And>x. mappers t R x = mappers s R x" "\<And>r la. r \<in> R \<Longrightarrow> mapped t r la = mapped s r la"
    "\<And>q. in_use s F R q \<Longrightarrow> in_use t F' R q" by (fact K)+
  have p: "pte_at t r la = pte_at s r la" if "r \<in> R" for r la using pte that by blast
  show "view t r la = view s r la" if rl: "r \<in> R" "upage la" for r la
  proof (cases "valid (pte_at s r la)")
    case True
    then obtain q where "target s r la = q + nbase" "in_use s F R q" using cow_target [OF inv rl] by auto
    then show ?thesis using e p [OF rl(1), of la] True by (simp add: view_def target_def)
  qed (simp add: view_def p [OF rl(1)])
qed

end
