(* ===== verification/Cow_Proofs.thy ===== *)
theory Cow_Proofs
  imports Cow_Spaces
begin

unbundle bit_operations_syntax

section \<open>Copy on write keeps the memories of the processes apart\<close>

text \<open>An update of the descriptors followed by a write to an entry, as in \<open>page_insert\<close>.\<close>

lemma pm_leaf_set:
  assumes "spaces_ok u F R" "r \<in> R" "leaf u r la = Some e" "vm_mem (upd_pm g u) F" "t = set_entry e v (upd_pm g u)"
  shows "spaces_ok t F R" "npage t = npage u" "r' \<in> R \<Longrightarrow> tables t r' = tables u r'" "pm t = g (pm u)"
    "r' \<in> R \<Longrightarrow> pte_at t r' la' = (if r' = r \<and> same_page la la' then v else pte_at u r' la')"
    "g' \<notin> tables u r \<Longrightarrow> entry (g', b) t = entry (g', b) u"
proof -
  have n: "npage (upd_pm g u) = npage u" "\<And>d. entry d (upd_pm g u) = entry d u" by (simp_all add: vm_fields)
  have all: "\<forall>r\<in>R. \<forall>f\<in>tables u r. \<forall>b. entry (f, b) (upd_pm g u) = entry (f, b) u" by (simp add: n(2))
  note S = same_spaces [OF assms(1,4) subset_refl n(1) all]
  have l: "leaf (upd_pm g u) r la = Some e" using S(4) [OF assms(2)] assms(3) by simp
  note L = leaf_set [OF S(1) assms(2) l assms(5)]
  show "spaces_ok t F R" "npage t = npage u" "pm t = g (pm u)" using L(1-3) n(1) by (simp_all add: vm_fields)
  show "r' \<in> R \<Longrightarrow> tables t r' = tables u r'" using L(4) S(2) by simp
  show "r' \<in> R \<Longrightarrow> pte_at t r' la' = (if r' = r \<and> same_page la la' then v else pte_at u r' la')" using L(5) S(3) by simp
  show "g' \<notin> tables u r \<Longrightarrow> entry (g', b) t = entry (g', b) u" using L(7) S(2) [OF assms(2)] n(2) by simp
qed

lemma spaces_mem: "spaces_ok s F R \<Longrightarrow> vm_mem s F" "spaces_ok s F R \<Longrightarrow> r \<in> R \<Longrightarrow> pt_ok s F r"
  by (simp_all add: spaces_ok_def)

lemma cow_spaces: "cow_inv s F R \<Longrightarrow> spaces_ok s F R"
  by (simp add: cow_inv_def)

subsection \<open>Sharing one page\<close>

definition shared_pte :: "64 word \<Rightarrow> 64 word" where
  "shared_pte v = pte_create (PPN (PTE_ADDR v)) (PTE_V OR (user_perm v AND NOT PTE_W))"

lemma shared_pte:
  assumes "PPN (PTE_ADDR v) = q + nbase" "q + nbase < npage s" "vm_mem s F"
  shows "valid (shared_pte v)" "PPN (PTE_ADDR (shared_pte v)) = q + nbase" "shared_pte v AND PTE_W = 0"
proof -
  have "q + nbase < 2 ^ 44" using assms(2,3) by (simp add: vm_mem_def)
  then show "valid (shared_pte v)" "PPN (PTE_ADDR (shared_pte v)) = q + nbase" "shared_pte v AND PTE_W = 0"
    using pte_create_addr(2,3) [OF user_perm_bits(1)] rights(1) by (simp_all add: shared_pte_def assms(1))
qed

lemma other_mappers:
  assumes "cow_inv s F R" "r \<in> R" "upage la" "mapped s r la = Some q" "(r', la') \<in> mappers s R q - {(r, la)}"
  shows "\<not> writable s r' la'"
proof
  assume w: "writable s r' la'"
  have "r' \<in> R" "upage la'" "mapped s r' la' = Some q" using assms(5) by (auto simp: mappers_def)
  then have "mappers s R q = {(r', la')}" using assms(1) w by (simp add: cow_inv_def)
  then show False using cow_mapped(7) [OF assms(1-4)] assms(5) by auto
qed

text \<open>Taking \<open>PTE_W\<close> away.\<close>

lemma cow_demote:
  assumes inv: "cow_inv s F R" and r: "r \<in> R" "upage la" "mapped s r la = Some q" and l: "leaf s r la = Some e"
    and t: "t = set_entry e (shared_pte (pte_at s r la)) s"
  shows "cow_inv t F R" "\<And>r' la'. r' \<in> R \<Longrightarrow> upage la' \<Longrightarrow> view t r' la' = view s r' la'"
    "\<And>r' la'. r' \<in> R \<Longrightarrow> upage la' \<Longrightarrow>
      pte_at t r' la' = (if r' = r \<and> la' = la then shared_pte (pte_at s r la) else pte_at s r' la')"
    "\<And>x. mappers t R x = mappers s R x" "pm t = pm s" "npage t = npage s" "in_use t F R q"
    "\<And>x. mappers t R x = mappers s R x" "\<And>r' la'. r' \<in> R \<Longrightarrow> leaf t r' la' = leaf s r' la'"
proof -
  note M = cow_mapped [OF inv r] and sp = cow_spaces [OF inv]
  note L = leaf_set [OF sp r(1) l t]
  have q: "PPN (PTE_ADDR (pte_at s r la)) = q + nbase" "q + nbase < npage s" using M(2,3) by (simp_all add: target_def in_use_def)
  note S = shared_pte [OF q spaces_mem(1) [OF sp]]
  show p: "pte_at t r' la' = (if r' = r \<and> la' = la then shared_pte (pte_at s r la) else pte_at s r' la')"
    if "r' \<in> R" "upage la'" for r' la' using L(5) [OF that(1)] same_upage [OF r(2) that(2)] by auto
  have fin: "finite (mappers s R q)" using sp by (intro mappers_fin) (simp add: spaces_ok_def)
  have c: "int (card (mappers s R q - {(r, la)})) + 1 \<le> page_ref q (pm t)"
    using card_Suc_Diff1 [OF fin M(7)] M(5) L(2) by simp
  have U: "cow_inv t F R" "\<And>r' la'. r' \<in> R \<Longrightarrow> upage la' \<Longrightarrow>
      view t r' la' = (if r' = r \<and> la' = la then Some (\<lambda>b. entry (q + nbase, b) s) else view s r' la')"
    "\<And>x. mappers t R x = (mappers s R x - {(r, la)}) \<union> (if x = q then {(r, la)} else {})"
    by (rule cow_update [OF inv r(1,2) L(1,3,4) p L(7) S(1,2) M(3) _ c];
      use r(3) L(2) S(3) other_mappers [OF inv r] in \<open>simp\<close>)+
  show "cow_inv t F R" by (fact U(1))
  show "view t r' la' = view s r' la'" if "r' \<in> R" "upage la'" for r' la' using U(2) [OF that] M(4) by auto
  show "mappers t R x = mappers s R x" for x using U(3) [of x] r by (auto simp: mappers_def)
  then show "mappers t R x = mappers s R x" for x .
  show "pm t = pm s" "npage t = npage s" by (fact L)+
  show "in_use t F R q" using M(3) L(3,4) by (simp add: in_use_def)
  show "\<And>r' la'. r' \<in> R \<Longrightarrow> leaf t r' la' = leaf s r' la'" by (fact L(6))
qed

text \<open>Mapping a page that is in use and not writable anywhere.\<close>

lemma cow_map:
  assumes inv: "cow_inv s F R" and r: "r \<in> R" "upage la" "mapped s r la = None" and l: "leaf s r la = Some e"
    and q: "in_use s F R q" "int (card (mappers s R q)) \<le> page_ref q (pm s)" "\<forall>(r', la')\<in>mappers s R q. \<not> writable s r' la'"
    and v: "valid v" "PPN (PTE_ADDR v) = q + nbase" "v AND PTE_W = 0"
    and t: "t = set_entry e v (upd_pm (set_page_ref q (page_ref q (pm s) + 1)) s)"
  shows "cow_inv t F R" "\<And>r' la'. r' \<in> R \<Longrightarrow> upage la' \<Longrightarrow>
      view t r' la' = (if r' = r \<and> la' = la then Some (\<lambda>b. entry (q + nbase, b) s) else view s r' la')"
    "\<And>r' la'. r' \<in> R \<Longrightarrow> upage la' \<Longrightarrow> pte_at t r' la' = (if r' = r \<and> la' = la then v else pte_at s r' la')"
    "npage t = npage s" "\<And>x. page_ref x (pm t) = page_ref x (pm s) + (if x = q then 1 else 0)"
proof -
  note sp = cow_spaces [OF inv]
  have nF: "q \<notin> F" using q(1) by (simp add: in_use_def)
  have m: "vm_mem (upd_pm (set_page_ref q (page_ref q (pm s) + 1)) s) F"
    by (rule upd_ref_ok(1) [OF spaces_mem(1) [OF sp] spaces_mem(2) [OF sp r(1)] nF refl])
  note L = pm_leaf_set [OF sp r(1) l m t]
  show p: "pte_at t r' la' = (if r' = r \<and> la' = la then v else pte_at s r' la')"
    if "r' \<in> R" "upage la'" for r' la' using L(5) [OF that(1)] same_upage [OF r(2) that(2)] by auto
  show ref: "page_ref x (pm t) = page_ref x (pm s) + (if x = q then 1 else 0)" for x
    by (simp add: L(4) page_ref_def set_ref_ref)
  show "npage t = npage s" by (fact L(2))
  have no: "(r, la) \<notin> mappers s R q" using r(3) by (simp add: mappers_def)
  have c: "int (card (mappers s R q - {(r, la)})) + 1 \<le> page_ref q (pm t)" using q(2) no by (simp add: ref)
  show "cow_inv t F R" "\<And>r' la'. r' \<in> R \<Longrightarrow> upage la' \<Longrightarrow>
      view t r' la' = (if r' = r \<and> la' = la then Some (\<lambda>b. entry (q + nbase, b) s) else view s r' la')"
    by (rule cow_update [OF inv r(1,2) L(1,2,3) p L(6) v(1,2) q(1) _ c]; use r(3) ref v(3) q(3) in \<open>auto\<close>)+
qed

definition share_done :: "vmst \<Rightarrow> nat set \<Rightarrow> nat set \<Rightarrow> nat \<Rightarrow> nat \<Rightarrow> nat set \<Rightarrow> vmst \<Rightarrow> nat set \<Rightarrow> bool" where
  "share_done s F R to from A t F' \<longleftrightarrow> cow_inv t F' R \<and> F' \<subseteq> F \<and> npage t = npage s \<and>
     (\<forall>r\<in>R. \<forall>la. upage la \<longrightarrow>
        view t r la = (if r = to \<and> la \<in> A \<and> mapped s from la \<noteq> None then view s from la else view s r la) \<and>
        pte_at t r la = (if (r = to \<or> r = from) \<and> la \<in> A \<and> mapped s from la \<noteq> None
          then shared_pte (pte_at s from la) else pte_at s r la))"

lemma share_page_ok:
  assumes inv: "cow_inv s F R" and R: "to \<in> R" "from \<in> R" "to \<noteq> from" and la: "upage la"
    and q: "mapped s from la = Some q" and e: "leaf s from la = Some e" and nm: "mapped s to la = None" and c: "2 < card F"
  shows "\<exists>t F'. share_page to e la s = Some (0, t) \<and> share_done s F R to from {la} t F' \<and> card F \<le> card F' + 2"
proof -
  let ?v = "pte_at s from la"
  define w where "w = set_entry e (shared_pte ?v) s"
  note Q = cow_mapped [OF inv R(2) la q]
  note W = cow_demote [OF inv R(2) la q e w_def]
  note sp = cow_spaces [OF W(1)]
  obtain u F' where u: "get_pte to la True w = Some (leaf u to la, u)" "vm_grow w F u F' to"
    "leaf u to la = None \<longrightarrow> F' = {}" "card (F - F') \<le> 2"
    using get_pte_ok [OF spaces_mem(1) [OF sp] spaces_mem(2) [OF sp R(1)], of la True]
    unfolding simp_thms by (elim exE conjE) (rule that; assumption)
  note G = vm_growD [OF u(2)] and S = grow_spaces [OF sp R(1) u(2)]
  have fin: "finite F" using spaces_mem(1) [OF sp] ff.rep_finite [of "pm w" F] by (simp add: vm_mem_def)
  have cF: "card F \<le> card F' + 2" using u(4) card_Diff_subset [of F' F] G(3) fin finite_subset [OF G(3)] by auto
  then obtain ne where ne: "leaf u to la = Some ne" using u(3) c by fastforce
  have out: "q' \<notin> F \<Longrightarrow> q' + nbase \<notin> page_frames F" for q' by (auto simp: page_frames_def)
  have ent: "\<forall>q' b. in_use w F R q' \<longrightarrow> entry (q' + nbase, b) u = entry (q' + nbase, b) w"
    using R(1) out by (intro allI impI S(4)) (auto simp: in_use_def)
  have ref: "\<forall>x. x \<notin> F \<longrightarrow> page_ref x (pm u) = page_ref x (pm w)" using G(8) by (simp add: page_ref_def)
  have keep: "\<forall>r\<in>R. tables u r \<subseteq> tables w r \<union> page_frames (F - F')" "\<forall>r\<in>R. \<forall>la. pte_at u r la = pte_at w r la"
    using S(2,3) by simp_all
  note U = cow_same [OF W(1) S(1) G(4,3) keep ent ref]
  have qF: "q \<notin> F" using Q(3) by (simp add: in_use_def)
  have ppn: "PPN (PTE_ADDR ?v) = q + nbase" "q + nbase < npage s" using Q(2,3) by (simp_all add: target_def in_use_def)
  have m0: "vm_mem s F" using inv by (simp add: cow_inv_def spaces_ok_def)
  note V = shared_pte [OF ppn m0]
  have pu: "pte_at u r' la' = (if r' = from \<and> la' = la then shared_pte ?v else pte_at s r' la')" if "r' \<in> R" "upage la'" for r' la'
    using S(2) [OF that(1)] W(3) [OF that] by simp
  have nmu: "mapped u to la = None" using pu [OF R(1) la] R(3) nm by (simp add: mapped_def split: if_splits)
  have nw: "\<not> writable u r' la'" if that: "(r', la') \<in> mappers u R q" for r' la'
  proof (cases "(r', la') = (from, la)")
    case True
    then show ?thesis using pu [OF R(2) la] V(3) by (simp add: writable_def)
  next
    case False
    then have "(r', la') \<in> mappers s R q - {(from, la)}" using that by (simp add: U(3) W(4))
    then have "\<not> writable s r' la'" "r' \<in> R" "upage la'"
      using other_mappers [OF inv R(2) la q] by (auto simp: mappers_def)
    then show ?thesis using pu [of r' la'] False by (auto simp: writable_def split: if_splits)
  qed
  then have nwall: "\<forall>(r', la')\<in>mappers u R q. \<not> writable u r' la'" by auto
  define t where "t = set_entry ne (shared_pte ?v) (upd_pm (set_page_ref q (page_ref q (pm u) + 1)) u)"
  have cnt: "int (card (mappers u R q)) \<le> page_ref q (pm u)" using Q(5) ref qF by (simp add: U(3) W(4,5))
  note T = cow_map [OF U(1) R(1) la nmu ne U(5) [OF W(7)] cnt nwall V(1,2) _ t_def]
  have V3: "shared_pte ?v AND PTE_W = 0" by (fact V(3))
  have eu: "\<not> valid (entry ne u)" using nmu leaf_entry [OF ne] by (simp add: mapped_def split: if_splits)
  have gu: "get_pte to la True u = Some (Some ne, u)"
    using get_pte_ok [OF G(1,2), of la True] ne by auto
  have sv: "pte_create (page2ppn q) (PTE_V OR ((?v AND PTE_USER) AND NOT PTE_W)) = shared_pte ?v"
    by (simp add: shared_pte_def page2ppn_def ppn(1) user_perm_def)
  have ins: "page_insert to q la ((?v AND PTE_USER) AND NOT PTE_W) u = Some (0, t)"
    using gu eu sv by (simp add: page_insert_def ref_inc t_def Let_def vm_fields)
  have pq: "pte2page (entry e s) s = Some q" using pte_page [OF ppn(1) Q(1) ppn(2)] by (simp add: leaf_entry [OF e])
  have "share_page to e la s = Some (0, t)"
    using pq u(1) ne ins sv by (simp add: share_page_def leaf_entry [OF e] Let_def flip: w_def)
  moreover have "share_done s F R to from {la} t F'"
  proof -
    have "view t r' la' = (if r' = to \<and> la' = la then view s from la else view s r' la')" if "r' \<in> R" "upage la'" for r' la'
    proof -
      have "Some (\<lambda>b. entry (q + nbase, b) u) = view s from la"
        using cow_mapped(4) [OF U(1) R(2) la, of q] U(2) [OF R(2) la] W(2) [OF R(2) la] U(4) [OF R(2)] pu [OF R(2) la] V(1,2)
        by (simp add: mapped_def)
      then show ?thesis using T(2) [OF V3 that] U(2) [OF that] W(2) [OF that] by auto
    qed
    moreover have "pte_at t r' la' = (if (r' = to \<or> r' = from) \<and> la' = la then shared_pte ?v else pte_at s r' la')"
      if "r' \<in> R" "upage la'" for r' la' using T(3) [OF V3 that] pu [OF that] by auto
    ultimately show ?thesis using T(1) [OF V3] T(4) [OF V3] G(3,4) W(6) q by (simp add: share_done_def)
  qed
  ultimately show ?thesis using cF by blast
qed

subsection \<open>Sharing a range\<close>

lemma upage_dvd: "upage la \<Longrightarrow> 4096 dvd la"
  by (simp add: upage_def PGSIZE_def)

lemma share_done_refl:
  assumes "cow_inv s F R" "\<And>la. upage la \<Longrightarrow> la \<in> A \<Longrightarrow> mapped s from la = None"
  shows "share_done s F R to from A s F"
  using assms by (auto simp: share_done_def)

lemma share_done_more:
  assumes "share_done s F R to from A t F'" "A \<subseteq> B" "\<And>la. upage la \<Longrightarrow> la \<in> B \<Longrightarrow> la \<notin> A \<Longrightarrow> mapped s from la = None"
  shows "share_done s F R to from B t F'"
proof -
  have "(la \<in> B \<and> mapped s from la \<noteq> None) = (la \<in> A \<and> mapped s from la \<noteq> None)" if "upage la" for la
    using assms(2) assms(3) [of la] that by (cases "la \<in> A") auto
  then show ?thesis using assms(1) by (simp add: share_done_def del: not_None_eq)
qed

lemma share_done_trans:
  assumes a: "share_done s F R to from A t F1" and b: "share_done t F1 R to from B u F2" and R: "from \<in> R" "to \<noteq> from" and d: "A \<inter> B = {}"
  shows "share_done s F R to from (A \<union> B) u F2"
proof -
  have A: "view t r la = (if r = to \<and> la \<in> A \<and> mapped s from la \<noteq> None then view s from la else view s r la)"
    "pte_at t r la = (if (r = to \<or> r = from) \<and> la \<in> A \<and> mapped s from la \<noteq> None then shared_pte (pte_at s from la) else pte_at s r la)"
    if "r \<in> R" "upage la" for r la using a that by (simp_all add: share_done_def)
  have B: "view u r la = (if r = to \<and> la \<in> B \<and> mapped t from la \<noteq> None then view t from la else view t r la)"
    "pte_at u r la = (if (r = to \<or> r = from) \<and> la \<in> B \<and> mapped t from la \<noteq> None then shared_pte (pte_at t from la) else pte_at t r la)"
    if "r \<in> R" "upage la" for r la using b that by (simp_all add: share_done_def)
  have f: "view t from la = view s from la" if "upage la" for la using A(1) [OF R(1) that] R(2) by simp
  then have m: "mapped t from la = None \<longleftrightarrow> mapped s from la = None" if "upage la" for la
    using that by (simp flip: view_eq_None)
  have p: "la \<in> B \<Longrightarrow> pte_at t from la = pte_at s from la" if "upage la" for la using A(2) [OF R(1) that] d by auto
  have V: "view u r la = (if r = to \<and> la \<in> A \<union> B \<and> mapped s from la \<noteq> None then view s from la else view s r la)"
    if "r \<in> R" "upage la" for r la
    unfolding B(1) [OF that] A(1) [OF that] f [OF that(2)] m [OF that(2)] by auto
  have P: "pte_at u r la = (if (r = to \<or> r = from) \<and> la \<in> A \<union> B \<and> mapped s from la \<noteq> None then shared_pte (pte_at s from la) else pte_at s r la)"
    if "r \<in> R" "upage la" for r la
    unfolding B(2) [OF that] m [OF that(2)] using p [OF that(2)] A(2) [OF that] d by auto
  show ?thesis using a b V P by (auto simp: share_done_def)
qed

lemma valid_pages_card:
  assumes "valid (pte_at s r start)" "start < end'" "4096 dvd start" "4096 dvd end'"
    and "\<And>la. start < la \<Longrightarrow> la < end' \<Longrightarrow> 4096 dvd la \<Longrightarrow> valid (pte_at t r la) = valid (pte_at s r la)"
  shows "card (valid_pages s r start end') = Suc (card (valid_pages t r (start + 4096) end'))"
proof -
  have "valid_pages t r (start + 4096) end' = valid_pages s r start end' - {start}"
    using assms(5) next_page [OF assms(3)] by (fastforce simp: valid_pages_def)
  moreover have "start \<in> valid_pages s r start end'" using assms by (simp add: valid_pages_def)
  ultimately show ?thesis using card_Suc_Diff1 [OF valid_pages_fin] by metis
qed

lemma share_loop_ok:
  assumes "cow_inv s F R" and R: "to \<in> R" "from \<in> R" "to \<noteq> from"
    and "\<And>la. upage la \<Longrightarrow> start \<le> la \<Longrightarrow> la < end' \<Longrightarrow> mapped s to la = None"
    and "2 * card (valid_pages s from start end') < card F" "4096 dvd start" "4096 dvd end'" "start < end'" "end' \<le> USERTOP"
  shows "\<exists>t F'. cow_copy_loop True to from start end' s = Some (0, t) \<and> share_done s F R to from {start..<end'} t F'"
  using assms(1,5-)
proof (induction "end' - start" arbitrary: s F start rule: less_induct)
  case less
  note inv = less.prems(1) and nm = less.prems(2) and al = less.prems(4,5) and se = less.prems(6) and et = less.prems(7)
  note sp = cow_spaces [OF inv]
  have s39: "start < 2 ^ 39" using se et by (simp add: USERTOP_def)
  have us: "upage start" using al(1) se et by (simp add: upage_def PGSIZE_def)
  have skip: ?case if n: "cow_copy_loop True to from start end' s =
      (if nx \<noteq> 0 \<and> nx < end' then cow_copy_loop True to from nx end' s else Some (0, s))"
    and nx: "start < nx" "4096 dvd nx"
    and un: "\<And>la. start \<le> la \<Longrightarrow> la < nx \<Longrightarrow> 4096 dvd la \<Longrightarrow> \<not> valid (pte_at s from la)" for nx
  proof -
    have no: "mapped s from la = None" if "upage la" "la \<in> {start..<end'}" "la \<notin> {nx..<end'}" for la
      using un [of la] that by (simp add: mapped_def upage_def PGSIZE_def)
    show ?thesis
    proof (cases "nx < end'")
      case True
      have "valid_pages s from nx end' = valid_pages s from start end'" using un nx(1) by (intro valid_pages_skip) auto
      then obtain t F' where t: "cow_copy_loop True to from nx end' s = Some (0, t)" "share_done s F R to from {nx..<end'} t F'"
        using less.hyps [OF _ inv, of nx] nm nx al(2) True et less.prems(3) by (fastforce simp: less_imp_le)
      have "share_done s F R to from {start..<end'} t F'"
        by (rule share_done_more [OF t(2) _ no]) (use nx in auto)
      then show ?thesis using n t(1) True nx by auto
    next
      case False
      have "share_done s F R to from {start..<end'} s F" by (rule share_done_refl [OF inv no]) (use False in auto)
      then show ?thesis using n False by auto
    qed
  qed
  have get: "get_pte from start False s = Some (leaf s from start, s)"
    using get_pte_ok [OF spaces_mem(1) [OF sp] spaces_mem(2) [OF sp R(2)], of start False] by auto
  have sg: "u64 (start + PGSIZE) = start + 4096" using s39 by (simp add: PGSIZE_def)
  show ?case
  proof (cases "leaf s from start")
    case None
    let ?nx = "start div 2 ^ 21 * 2 ^ 21 + 2 ^ 21"
    have "\<not> valid (pte_at s from la)" if "start \<le> la" "la < ?nx" "4096 dvd la" for la
      by (rule no_leaf_block [OF None]) (use that in \<open>simp add: div_nat_eqI dividend_less_div_times\<close>)
    moreover have "cow_copy_loop True to from start end' s =
        (if ?nx \<noteq> 0 \<and> ?nx < end' then cow_copy_loop True to from ?nx end' s else Some (0, s))"
      unfolding next_block [OF al(1) s39, symmetric] by (subst cow_copy_loop.simps) (simp add: get None)
    moreover have "start < ?nx" "4096 dvd ?nx" by (simp_all add: dividend_less_div_times dvd_mult)
    ultimately show ?thesis by (intro skip) assumption+
  next
    case (Some e)
    show ?thesis
    proof (cases "mapped s from start")
      case None
      then have nv: "\<not> valid (pte_at s from start)" by (simp add: mapped_def split: if_splits)
      have "\<not> valid (pte_at s from la)" if "start \<le> la" "la < start + 4096" "4096 dvd la" for la
        using next_page [OF al(1) that(3,1,2)] nv by simp
      moreover have "cow_copy_loop True to from start end' s =
        (if start + 4096 \<noteq> 0 \<and> start + 4096 < end' then cow_copy_loop True to from (start + 4096) end' s else Some (0, s))"
        by (subst cow_copy_loop.simps) (simp add: get Some leaf_entry [OF Some] nv sg)
      moreover have "start < start + 4096" "4096 dvd start + 4096" using al(1) by simp_all
      ultimately show ?thesis by (intro skip [of "start + 4096"]) simp_all
    next
      case q: (Some q)
      have v: "valid (pte_at s from start)" using q by (simp add: mapped_def split: if_splits)
      have "start \<in> valid_pages s from start end'" using v se al by (simp add: valid_pages_def)
      then have "card (valid_pages s from start end') \<noteq> 0" by auto
      then have c3: "2 < card F" using less.prems(3) by linarith
      obtain t F1 where t: "share_page to e start s = Some (0, t)" "share_done s F R to from {start} t F1" "card F \<le> card F1 + 2"
        using share_page_ok [OF inv R us q Some nm [OF us order_refl se] c3] by blast
      have step: "cow_copy_loop True to from start end' s =
          (if start + 4096 < end' then cow_copy_loop True to from (start + 4096) end' t else Some (0, t))"
        by (subst cow_copy_loop.simps) (simp add: get Some leaf_entry [OF Some] v sg t(1))
      note T = t(2) [unfolded share_done_def]
      have gap: "la = start \<or> start + 4096 \<le> la" if "upage la" "start \<le> la" for la
        using next_page [OF al(1) _ that(2)] that(1) by (metis not_le upage_dvd)
      have one: "share_done s F R to from {start..<end'} u F2" if "share_done s F R to from ({start} \<union> {start + 4096..<end'}) u F2" for u F2
      proof (rule share_done_more [OF that])
        show "{start} \<union> {start + 4096..<end'} \<subseteq> {start..<end'}" using se by auto
        show "mapped s from la = None" if "upage la" "la \<in> {start..<end'}" "la \<notin> {start} \<union> {start + 4096..<end'}" for la
          using gap [OF that(1)] that(2,3) by simp
      qed
      show ?thesis
      proof (cases "start + 4096 < end'")
        case False
        then have "{start} = {start} \<union> {start + 4096..<end'}" by simp
        then show ?thesis using step t(2) one [of t F1] False by (auto intro: exI [of _ F1])
      next
        case True
        have far: "upage la \<Longrightarrow> la \<noteq> start \<Longrightarrow> r \<in> R \<Longrightarrow> pte_at t r la = pte_at s r la" for r la using T by auto
        have ul: "upage la" if "la < end'" "4096 dvd la" for la using that et by (simp add: upage_def PGSIZE_def)
        have vp: "valid (pte_at t from la) = valid (pte_at s from la)" if "start < la" "la < end'" "4096 dvd la" for la
          using far [OF ul [OF that(2,3)] _ R(2)] that(1) by simp
        have cd: "2 * card (valid_pages t from (start + 4096) end') < card F1"
          using valid_pages_card [OF v se al vp] less.prems(3) t(3) by simp
        have un: "mapped t to la = None" if "upage la" "start + 4096 \<le> la" "la < end'" for la
          using nm [OF that(1)] that far [OF that(1) _ R(1)] by (auto simp: mapped_def split: if_splits)
        have inv1: "cow_inv t F1 R" using T by simp
        have "\<exists>u F2. cow_copy_loop True to from (start + 4096) end' t = Some (0, u) \<and>
            share_done t F1 R to from {start + 4096..<end'} u F2"
          by (rule less.hyps [OF _ inv1 un cd]) (use al True et in simp_all)
        then obtain u F2 where u: "cow_copy_loop True to from (start + 4096) end' t = Some (0, u)"
          "share_done t F1 R to from {start + 4096..<end'} u F2" by blast
        have "share_done s F R to from ({start} \<union> {start + 4096..<end'}) u F2"
          by (rule share_done_trans [OF t(2) u(2) R(2,3)]) auto
        then show ?thesis using step u(1) True one by auto
      qed
    qed
  qed
qed

subsection \<open>A store of the user\<close>

text \<open>The hardware writes the word \<open>b\<close> of the page mapped at \<open>la\<close>, when the entry has \<open>PTE_W\<close>.\<close>

definition user_store :: "nat \<Rightarrow> nat \<Rightarrow> nat \<Rightarrow> 64 word \<Rightarrow> vmst \<Rightarrow> vmst" where
  "user_store r la b v s = set_entry (target s r la, b) v s"

definition store_seen :: "vmst \<Rightarrow> nat set \<Rightarrow> nat \<Rightarrow> nat \<Rightarrow> nat \<Rightarrow> 64 word \<Rightarrow> vmst \<Rightarrow> bool" where
  "store_seen s R r la b v t \<longleftrightarrow> (\<forall>r'\<in>R. \<forall>la'. upage la' \<longrightarrow>
     view t r' la' = (if r' = r \<and> la' = la then map_option (\<lambda>f. f(b := v)) (view s r la) else view s r' la'))"

lemma cow_store:
  assumes inv: "cow_inv s F R" and r: "r \<in> R" "upage la" "writable s r la"
  shows "cow_inv (user_store r la b v s) F R" "store_seen s R r la b v (user_store r la b v s)"
proof -
  obtain q where q: "mapped s r la = Some q" using r(3) by (auto simp: writable_def mapped_def)
  note Q = cow_mapped [OF inv r(1,2) q] and sp = cow_spaces [OF inv]
  have one: "mappers s R q = {(r, la)}" using inv r q by (simp add: cow_inv_def)
  define t where "t = user_store r la b v s"
  have t: "t = set_entry (q + nbase, b) v s" by (simp add: t_def user_store_def Q(2))
  have f: "npage t = npage s" "pm t = pm s" by (simp_all add: t vm_fields)
  have e: "entry (g, c) t = (if g = q + nbase \<and> c = b then v else entry (g, c) s)" for g c by (simp add: t vm_fields)
  have tb: "\<forall>r'\<in>R. \<forall>g\<in>tables s r'. \<forall>c. entry (g, c) t = entry (g, c) s" using Q(3) by (auto simp: e in_use_def)
  have m: "vm_mem t F" using spaces_mem(1) [OF sp] by (simp add: vm_mem_def f)
  note S = same_spaces [OF sp m subset_refl f(1) tb]
  have keep: "\<forall>r\<in>R. tables t r \<subseteq> tables s r \<union> page_frames (F - F)" "\<forall>r\<in>R. \<forall>la. pte_at t r la = pte_at s r la"
    "\<forall>x. x \<notin> F \<longrightarrow> page_ref x (pm t) = page_ref x (pm s)" using S(2,3) f(2) by simp_all
  show "cow_inv (user_store r la b v s) F R"
    unfolding t_def [symmetric] by (rule cow_keep(1) [OF inv S(1) f(1) subset_refl keep])
  have "view t r' la' = (if r' = r \<and> la' = la then map_option (\<lambda>f. f(b := v)) (view s r la) else view s r' la')"
    if rl: "r' \<in> R" "upage la'" for r' la'
  proof (cases "mapped s r' la'")
    case None
    then show ?thesis using q keep(2) rl(1) by (auto simp: view_def mapped_def)
  next
    case (Some p)
    note P = cow_mapped [OF inv rl Some]
    have "p = q \<longleftrightarrow> r' = r \<and> la' = la" using P(7) one Q(7) Some q by (auto simp: mappers_def)
    moreover have "view t r' la' = Some (\<lambda>c. entry (p + nbase, c) t)"
      using P(1,2) keep(2) rl(1) by (simp add: view_def target_def)
    ultimately show ?thesis using P(4) Q(4) by (auto simp: e fun_eq_iff)
  qed
  then show "store_seen s R r la b v (user_store r la b v s)" by (simp add: store_seen_def flip: t_def)
qed

subsection \<open>Page faults\<close>

definition writable_pte :: "nat \<Rightarrow> 64 word \<Rightarrow> 64 word" where
  "writable_pte n v = pte_create (n + nbase) (PTE_V OR (user_perm v OR PTE_W))"

lemma writable_pte:
  assumes "n + nbase < npage s" "vm_mem s F"
  shows "valid (writable_pte n v)" "PPN (PTE_ADDR (writable_pte n v)) = n + nbase" "writable_pte n v AND PTE_W \<noteq> 0"
proof -
  have "n + nbase < 2 ^ 44" using assms by (simp add: vm_mem_def)
  then show "valid (writable_pte n v)" "PPN (PTE_ADDR (writable_pte n v)) = n + nbase" "writable_pte n v AND PTE_W \<noteq> 0"
    using pte_create_addr(2,3) [OF user_perm_bits(2)] rights(2) by (simp_all add: writable_pte_def)
qed

text \<open>The outcome of a fault that was handled.\<close>

definition fault_handled :: "vmst \<Rightarrow> nat set \<Rightarrow> nat \<Rightarrow> nat \<Rightarrow> vmst \<Rightarrow> nat set \<Rightarrow> bool" where
  "fault_handled s R r la t F' \<longleftrightarrow> cow_inv t F' R \<and> writable t r la \<and>
     (\<forall>r'\<in>R. \<forall>la'. upage la' \<longrightarrow> view t r' la' = view s r' la')"

text \<open>The last mapping of a page gets the right to write back.\<close>

lemma cow_promote:
  assumes inv: "cow_inv s F R" and r: "r \<in> R" "upage la" "mapped s r la = Some q" and l: "leaf s r la = Some e"
    and one: "\<not> page_ref q (pm s) > 1" and t: "t = set_entry e (writable_pte q (pte_at s r la)) s"
  shows "fault_handled s R r la t F"
proof -
  note M = cow_mapped [OF inv r] and sp = cow_spaces [OF inv]
  note L = leaf_set [OF sp r(1) l t]
  have "q + nbase < npage s" using M(3) by (simp add: in_use_def)
  note V = writable_pte [OF this spaces_mem(1) [OF sp]]
  have p: "pte_at t r' la' = (if r' = r \<and> la' = la then writable_pte q (pte_at s r la) else pte_at s r' la')"
    if "r' \<in> R" "upage la'" for r' la' using L(5) [OF that(1)] same_upage [OF r(2) that(2)] by auto
  have fin: "finite (mappers s R q)" using sp by (intro mappers_fin) (simp add: spaces_ok_def)
  have "card (mappers s R q) \<le> 1" using M(5) one by linarith
  then have "card (mappers s R q - {(r, la)}) = 0" using card_Suc_Diff1 [OF fin M(7)] by simp
  then have "mappers s R q - {(r, la)} = {}" using fin by simp
  then have sole: "mappers s R q = {(r, la)}" using M(7) by blast
  have c: "int (card (mappers s R q - {(r, la)})) + 1 \<le> page_ref q (pm t)" using M(6) L(2) by (simp add: sole)
  have U: "cow_inv t F R" "\<And>r' la'. r' \<in> R \<Longrightarrow> upage la' \<Longrightarrow>
      view t r' la' = (if r' = r \<and> la' = la then Some (\<lambda>b. entry (q + nbase, b) s) else view s r' la')"
    by (rule cow_update [OF inv r(1,2) L(1,3,4) p L(7) V(1,2) M(3) _ c]; use r(3) L(2) sole in \<open>simp\<close>)+
  have "writable t r la" using p [OF r(1,2)] V(1,3) by (simp add: writable_def)
  then show ?thesis using U M(4) by (simp add: fault_handled_def)
qed

lemma set_entry_twice: "set_entry e v (set_entry e w s) = set_entry e v s"
  by (simp add: set_entry_def)

lemma upd_pm_twice: "upd_pm f (upd_pm g s) = upd_pm (f \<circ> g) s"
  by (simp add: upd_pm_def)

text \<open>\<open>page_insert\<close> over a page that stays in use.\<close>

lemma page_insert_over:
  assumes m: "vm_mem x F" "pt_ok x F r" and l: "leaf x r la = Some e"
    and q: "valid (pte_at x r la)" "PPN (PTE_ADDR (pte_at x r la)) = q + nbase" "q + nbase < npage x" "q \<notin> F" "page_ref q (pm x) > 1"
    and n: "n \<noteq> q" "n \<notin> F"
  defines "g \<equiv> set_page_ref q (page_ref q (pm x) - 1) \<circ> set_page_ref n (page_ref n (pm x) + 1)"
  shows "page_insert r n la perm x = Some (0, set_entry e (pte_create (n + nbase) (PTE_V OR perm)) (upd_pm g x))"
    "vm_mem (upd_pm g x) F" "page_ref y (g (pm x)) = page_ref y (pm x) + (if y = n then 1 else if y = q then - 1 else 0)"
proof -
  define y1 where "y1 = upd_pm (set_page_ref n (page_ref n (pm x) + 1)) x"
  note Y1 = upd_ref_ok [OF m n(2) y1_def]
  define y2 where "y2 = upd_pm (set_page_ref q (page_ref q (pm y1) - 1)) y1"
  note Y2 = upd_ref_ok [OF Y1(1,2) q(4) y2_def]
  have rq: "page_ref q (pm y1) = page_ref q (pm x)" using Y1(8) n(1) by (simp add: page_ref_def)
  have g: "y2 = upd_pm g x" by (simp add: y2_def y1_def upd_pm_twice g_def flip: rq)
  then show "vm_mem (upd_pm g x) F" using Y2(1) by simp
  show "page_ref y (g (pm x)) = page_ref y (pm x) + (if y = n then 1 else if y = q then - 1 else 0)"
    using n(1) by (simp add: g_def page_ref_def set_ref_ref)
  have get: "get_pte r la True x = Some (Some e, x)" using get_pte_ok [OF m, of la True] l by auto
  have v: "valid (entry e y1)" "pte2page (entry e y1) y1 = Some q"
    using q(1) pte_page [OF q(2,1), of y1] q(3) by (simp_all add: Y1(6,7) leaf_entry [OF l])
  have r2: "page_ref q (pm y2) \<noteq> 0" using Y2(8) rq q(5) by (simp add: page_ref_def)
  have "page_remove_pte e y1 = Some (set_entry e 0 y2)"
    using v r2 by (simp add: page_remove_pte_def ref_dec Let_def flip: y2_def)
  then show "page_insert r n la perm x = Some (0, set_entry e (pte_create (n + nbase) (PTE_V OR perm)) (upd_pm g x))"
    using get v n(1) by (simp add: page_insert_def ref_inc page2ppn_def set_entry_twice g flip: y1_def)
qed

text \<open>A page with other mappings is replaced by a copy.\<close>

lemma cow_copy:
  assumes inv: "cow_inv s F R" and r: "r \<in> R" "upage la" "mapped s r la = Some q" and l: "leaf s r la = Some e"
    and n: "n \<in> F" and w: "ff_rep (pm w) (F - {n})" "frame w = frame s" "npage w = npage s"
      "\<forall>y. ref (pages (pm w) y) = ref (pages (pm s) y)"
    and many: "page_ref q (pm s) > 1" and x: "x = set_frame (n + nbase) (frame w (q + nbase)) w"
  shows "\<exists>t. page_insert r n la (user_perm (pte_at s r la) OR PTE_W) x = Some (0, t) \<and> fault_handled s R r la t (F - {n})"
proof -
  let ?F = "F - {n}"
  note M = cow_mapped [OF inv r] and sp = cow_spaces [OF inv] and m = spaces_mem(1) [OF cow_spaces [OF inv]]
  have nb: "n + nbase < npage s" "page_ref n (pm s) = 0" using m n by (simp_all add: vm_mem_def page_ref_def)
  have nt: "n + nbase \<notin> tables s r'" if "r' \<in> R" for r'
    using tables_range [OF spaces_mem(2) [OF sp that], of "n + nbase"] n by auto
  have nq: "n \<noteq> q" using M(3) n by (auto simp: in_use_def)
  have f: "npage x = npage s" "pm x = pm w" by (simp_all add: x vm_fields w)
  have ex: "entry (g, b) x = (if g = n + nbase then entry (q + nbase, b) s else entry (g, b) s)" for g b
    using w(2) by (simp add: x vm_fields) (simp add: entry_def)
  have ref: "page_ref y (pm x) = page_ref y (pm s)" for y using w(4) f(2) by (simp add: page_ref_def)
  have mx: "vm_mem x ?F" using m w f by (auto simp: vm_mem_def)
  have tb: "\<forall>r'\<in>R. \<forall>g\<in>tables s r'. \<forall>b. entry (g, b) x = entry (g, b) s" using nt by (auto simp: ex)
  note S = same_spaces [OF sp mx _ f(1) tb]
  have sub: "?F \<subseteq> F" by blast
  have "in_use s F R p \<Longrightarrow> p \<noteq> n" for p using n by (auto simp: in_use_def)
  then have ents: "\<forall>p b. in_use s F R p \<longrightarrow> entry (p + nbase, b) x = entry (p + nbase, b) s" by (auto simp: ex)
  have keep: "\<forall>r\<in>R. tables x r \<subseteq> tables s r \<union> page_frames (F - ?F)" "\<forall>r\<in>R. \<forall>la. pte_at x r la = pte_at s r la"
    using S(2,3) [OF sub] by auto
  have refs: "\<forall>y. y \<notin> F \<longrightarrow> page_ref y (pm x) = page_ref y (pm s)" by (simp add: ref)
  note X = cow_same [OF inv S(1) [OF sub] f(1) sub keep ents refs]
  let ?v = "pte_at s r la"
  have qx: "valid (pte_at x r la)" "PPN (PTE_ADDR (pte_at x r la)) = q + nbase" "q + nbase < npage x" "q \<notin> ?F" "page_ref q (pm x) > 1"
    using M(1-3) keep(2) r(1) f(1) many by (auto simp: target_def in_use_def ref)
  have lx: "leaf x r la = Some e" using S(4) [OF sub r(1)] l by simp
  have nF: "n \<notin> ?F" by simp
  note P = page_insert_over [OF mx spaces_mem(2) [OF S(1) [OF sub] r(1)] lx qx nq nF]
  define g where "g = set_page_ref q (page_ref q (pm x) - 1) \<circ> set_page_ref n (page_ref n (pm x) + 1)"
  define t where "t = set_entry e (writable_pte n ?v) (upd_pm g x)"
  have ins: "page_insert r n la (user_perm ?v OR PTE_W) x = Some (0, t)"
    using P(1) [of "user_perm ?v OR PTE_W"] by (simp add: t_def g_def writable_pte_def)
  note L = pm_leaf_set [OF S(1) [OF sub] r(1) lx P(2) [folded g_def] t_def]
  note V = writable_pte [OF nb(1) m]
  have p: "pte_at t r' la' = (if r' = r \<and> la' = la then writable_pte n ?v else pte_at x r' la')"
    if "r' \<in> R" "upage la'" for r' la' using L(5) [OF that(1)] same_upage [OF r(2) that(2)] by auto
  have none: "mappers x R n = {}"
  proof (rule ccontr)
    assume "mappers x R n \<noteq> {}"
    then obtain r' la' where rl: "r' \<in> R" "upage la'" "mapped s r' la' = Some n"
      unfolding X(3) unfolding mappers_def by blast
    then show False using cow_mapped(3) [OF inv rl] n by (simp add: in_use_def)
  qed
  have use: "in_use x ?F R n" using nb(1) f(1) nt S(2) [OF sub] by (simp add: in_use_def)
  have rt: "page_ref y (pm t) = page_ref y (pm x) + (if y = n then 1 else if y = q then - 1 else 0)" for y
    using P(3) by (simp add: L(4) g_def)
  have mq: "mapped x r la = Some q" using X(4) [OF r(1)] r(3) by simp
  have c: "int (card (mappers x R n - {(r, la)})) + 1 \<le> page_ref n (pm t)" by (simp add: none rt ref nb(2))
  have U: "cow_inv t ?F R" "\<And>r' la'. r' \<in> R \<Longrightarrow> upage la' \<Longrightarrow>
      view t r' la' = (if r' = r \<and> la' = la then Some (\<lambda>b. entry (n + nbase, b) x) else view x r' la')"
    by (rule cow_update [OF X(1) r(1,2) L(1-3) p L(6) V(1,2) use _ c]; use none rt mq in \<open>simp\<close>)+
  have "view t r' la' = view s r' la'" if "r' \<in> R" "upage la'" for r' la'
    using U(2) [OF that] X(2) [OF that] M(4) by (auto simp: ex)
  moreover have "writable t r la" using p [OF r(1,2)] V(1,3) by (simp add: writable_def)
  ultimately show ?thesis using ins U(1) by (auto simp: fault_handled_def)
qed

lemma cow_fault_ok:
  assumes inv: "cow_inv s F R" and r: "r \<in> R" "upage la"
  shows "\<exists>ret t F'. cow_fault r la s = Some (ret, t) \<and>
    (if ret = 0 then fault_handled s R r la t F'
     else t = s \<and> (ret = - E_NO_MEM \<and> F = {} \<or> ret = - E_INVAL \<and> (mapped s r la = None \<or> pte_at s r la AND PTE_U = 0)))"
proof -
  note sp = cow_spaces [OF inv]
  have get: "get_pte r la False s = Some (leaf s r la, s)"
    using get_pte_ok [OF spaces_mem(1) [OF sp] spaces_mem(2) [OF sp r(1)], of la False] by auto
  have E: "- E_INVAL \<noteq> 0" "- E_NO_MEM \<noteq> 0" by (simp_all add: E_INVAL_def E_NO_MEM_def)
  show ?thesis
  proof (cases "mapped s r la")
    case None
    then have "\<not> valid (pte_at s r la)" by (simp add: mapped_def split: if_splits)
    then have "cow_fault r la s = Some (- E_INVAL, s)"
      using get by (simp add: cow_fault_def leaf_entry split: option.splits)
    then show ?thesis using None E(1) by auto
  next
    case (Some q)
    note M = cow_mapped [OF inv r Some]
    obtain e where l: "leaf s r la = Some e" using pte_at_valid_leaf [OF M(1)] by auto
    let ?v = "pte_at s r la"
    have pq: "pte2page ?v s = Some q" using pte_page [of ?v q s] M(1-3) by (simp add: target_def in_use_def)
    note start = cow_fault_def get l leaf_entry [OF l] M(1) Let_def
    consider "?v AND PTE_W \<noteq> 0" | "?v AND PTE_W = 0" "?v AND PTE_U = 0"
      | "?v AND PTE_W = 0" "?v AND PTE_U \<noteq> 0" "page_ref q (pm s) > 1" | "?v AND PTE_W = 0" "?v AND PTE_U \<noteq> 0" "\<not> page_ref q (pm s) > 1"
      by blast
    then show ?thesis
    proof cases
      case 1
      then have "cow_fault r la s = Some (0, s)" by (simp add: start)
      moreover have "fault_handled s R r la s F" using inv 1 M(1) by (simp add: fault_handled_def writable_def)
      ultimately show ?thesis by auto
    next
      case 2
      then have "cow_fault r la s = Some (- E_INVAL, s)" by (simp add: start)
      then show ?thesis using 2 E(1) by auto
    next
      case 3
      have ff: "ff_rep (pm s) F" using spaces_mem(1) [OF sp] by (simp add: vm_mem_def)
      show ?thesis
      proof (cases "F = {}")
        case True
        then have "alloc_page s = Some (None, s)" using alloc_page_ok [OF ff] by auto
        then have "cow_fault r la s = Some (- E_NO_MEM, s)" using 3 pq by (simp add: start)
        then show ?thesis using True E(2) by auto
      next
        case False
        then obtain n w where n: "n \<in> F" and w: "alloc_page s = Some (Some n, w)" "ff_rep (pm w) (F - {n})" "frame w = frame s"
          "npage w = npage s" "\<forall>y. ref (pages (pm w) y) = ref (pages (pm s) y)"
          using alloc_page_ok [OF ff] by auto
        define x where "x = set_frame (n + nbase) (frame w (q + nbase)) w"
        obtain t where t: "page_insert r n la (user_perm ?v OR PTE_W) x = Some (0, t)" "fault_handled s R r la t (F - {n})"
          using cow_copy [OF inv r Some l n w(2-5) 3(3) x_def] by auto
        have mw: "vm_mem w (F - {n})" using spaces_mem(1) [OF sp] w by (simp add: vm_mem_def)
        have "n + nbase < npage w" "q + nbase < npage w"
          using spaces_mem(1) [OF sp] n w(4) M(3) by (auto simp: vm_mem_def in_use_def)
        then have k: "page2kva n w = Some (n + nbase)" "page2kva q w = Some (q + nbase)"
          using page2kva_ok [OF mw] by simp_all
        have "cow_fault r la s = Some (0, t)"
          using 3 pq w(1) k t(1) by (simp add: start user_perm_def flip: x_def)
        then show ?thesis using t(2) by auto
      qed
    next
      case 4
      have "cow_fault r la s = Some (0, set_entry e (writable_pte q ?v) s)"
        using 4 pq by (simp add: start writable_pte_def page2ppn_def user_perm_def)
      moreover have "fault_handled s R r la (set_entry e (writable_pte q ?v) s) F"
        by (rule cow_promote [OF inv r Some l 4(3) refl])
      ultimately show ?thesis by auto
    qed
  qed
qed

end
