(* ===== verification/Cow_Properties.thy ===== *)
theory Cow_Properties
  imports Cow_Proofs Vmm_Proofs
begin

unbundle bit_operations_syntax

section \<open>Properties of copy on write\<close>

lemma one_page_upages: "upage la \<Longrightarrow> valid (pte_at one_page (nbase + 8) la) \<longleftrightarrow> la = USERBASE"
  "\<not> valid (pte_at one_page (nbase + 9) la)"
proof -
  show "\<not> valid (pte_at one_page (nbase + 9) la)" by (simp add: one_page_pte(2) valid_def)
  assume u: "upage la"
  have b: "upage USERBASE" by (simp add: upage_def USERBASE_def USERTOP_def PGSIZE_def)
  have v: "valid (pte_at one_page (nbase + 8) USERBASE)" by (simp add: one_page_pte(1) low_page_entry)
  have "same_page USERBASE la" if h: "valid (pte_at one_page (nbase + 8) la)"
  proof -
    have "node one_page (nbase + 8) (path_of la) \<noteq> None" using h by (auto simp: pte_at_def valid_def split: option.splits)
    then obtain f where f: "node one_page (nbase + 8) (path_of la) = Some f" by blast
    then have e: "valid (entry (f, PTX la) one_page)" using h by (simp add: pte_at_def)
    have "path_of la = [0, 1] \<and> f = nbase + 3"
      using one_page_node [OF pth, of la f] f by (auto simp: path_of_def)
    moreover from this have "PTX la = 0"
      using e by (simp add: entry_def one_page_def valid_def split: if_splits)
    ultimately show ?thesis by (simp add: same_page_def one_page_path)
  qed
  then show "valid (pte_at one_page (nbase + 8) la) \<longleftrightarrow> la = USERBASE"
    using v same_upage [OF b u] by auto
qed

lemma one_page_cow: "cow_inv one_page {0, 1, 5, 6, 7} {nbase + 8, nbase + 9}"
proof -
  let ?F = "{0, 1, 5, 6, 7}" and ?R = "{nbase + 8, nbase + 9}"
  have sp: "spaces_ok one_page ?F ?R" using one_page_mem one_page_ok by (simp add: spaces_ok_def)
  have use: "in_use one_page ?F ?R 4" by (simp add: in_use_def one_page_ok) (simp add: one_page_def)
  have tg: "target one_page (nbase + 8) USERBASE = 4 + nbase" by (simp add: target_def one_page_pte low_page_entry)
  have mp: "mapped one_page r la = Some q \<longleftrightarrow> r = nbase + 8 \<and> la = USERBASE \<and> q = 4" if "r \<in> ?R" "upage la" for r la q
    using that one_page_upages(1) [OF that(2)] one_page_upages(2) tg
    by (auto simp: mapped_def target_def)
  have b: "upage USERBASE" by (simp add: upage_def USERBASE_def USERTOP_def PGSIZE_def)
  have ms: "mappers one_page ?R q = (if q = 4 then {(nbase + 8, USERBASE)} else {})" for q
    using mp b by (auto simp: mappers_def)
  have ref: "page_ref 4 (pm one_page) = 1" by (simp add: one_page_def page_ref_def set_ref_ref)
  have "\<exists>q. target one_page r la = q + nbase \<and> in_use one_page ?F ?R q"
    if "r \<in> ?R" "upage la" "valid (pte_at one_page r la)" for r la
    using that one_page_upages tg use by (cases "r = nbase + 9") auto
  moreover have "mappers one_page ?R q = {(r, la)}" if "r \<in> ?R" "upage la" "mapped one_page r la = Some q" for r la q
  proof -
    have "r = nbase + 8 \<and> la = USERBASE \<and> q = 4" using mp [OF that(1,2), of q] that(3) by blast
    then show ?thesis by (simp add: ms)
  qed
  ultimately show ?thesis using sp ms ref unfolding cow_inv_def by (auto split: if_splits)
qed



text \<open>The area that \<open>do_pgfault\<close> looks for.\<close>

definition writable_area :: "sys \<Rightarrow> nat list \<Rightarrow> nat \<Rightarrow> bool" where
  "writable_area y vs la \<longleftrightarrow> (\<exists>v\<in>set vs. in_vma la v y \<and> vm_flags (vmas y v) AND VM_WRITE \<noteq> 0)"

lemma find_writable:
  assumes "vma_list y m vs"
  shows "writable_area y vs la \<longleftrightarrow> (case find (\<lambda>v. in_vma la v y) vs of None \<Rightarrow> False | Some v \<Rightarrow> vm_flags (vmas y v) AND VM_WRITE \<noteq> 0)"
proof (cases "find (\<lambda>v. in_vma la v y) vs")
  case None
  then have "\<forall>v\<in>set vs. \<not> in_vma la v y" by (auto simp: find_None_iff)
  then show ?thesis by (simp add: None writable_area_def)
next
  case (Some v)
  then have v: "v \<in> set vs" "in_vma la v y" by (auto simp: find_Some_iff)
  have "w = v" if "w \<in> set vs" "in_vma la w y" for w using vma_unique [OF assms v(1) that(1) v(2) that(2)] by simp
  then have "writable_area y vs la \<longleftrightarrow> vm_flags (vmas y v) AND VM_WRITE \<noteq> 0" using v unfolding writable_area_def by metis
  then show ?thesis by (simp only: Some option.case)
qed


definition cow_areas :: sys where
  "cow_areas = demo_areas\<lparr>mms := (\<lambda>_. \<lparr>mmap_cache = Some 300, mm_pgdir = nbase + 8, map_count = 2, mm_count = 1, locked_by = 0\<rparr>)\<rparr>"

lemma cow_areas_list: "vma_list cow_areas 100 [200, 300]"
  using demo_areas_list by (simp add: vma_list_def cow_areas_def demo_areas_def)


end
