(* ===== verification/Buddy.thy ===== *)
theory Buddy
  imports Page_Table
begin

unbundle bit_operations_syntax

section \<open>The buddy manager of lab 2 (src/lab2_Dou/kern/mm/buddy_pmm.c)\<close>

text \<open>
  One list of free blocks for each order. Page descriptors and the number of pages are as in \<open>Phys_Page\<close> and
  \<open>Page_Table\<close>; the record \<open>zone\<close> is what this manager and the one in \<open>Buddy_Split\<close> have in common. The entry of the list
  in the descriptor of page \<open>p\<close> is \<open>Block_link p\<close>, the head of the list of order \<open>k\<close> is \<open>Order_list k\<close>. The messages of
  \<open>cprintf\<close> are left out.
\<close>

datatype zone_le = Order_list nat | Block_link nat

record zone =
  zpages :: "nat \<Rightarrow> Page"
  zlinks :: "zone_le links"
  znpage :: nat

definition upd_desc :: "nat \<Rightarrow> (Page \<Rightarrow> Page) \<Rightarrow> 'a zone_scheme \<Rightarrow> 'a zone_scheme" where
  "upd_desc p f s = s\<lparr>zpages := (zpages s)(p := f (zpages s p))\<rparr>"

definition upd_zlinks :: "(zone_le links \<Rightarrow> zone_le links) \<Rightarrow> 'a zone_scheme \<Rightarrow> 'a zone_scheme" where
  "upd_zlinks f s = s\<lparr>zlinks := f (zlinks s)\<rparr>"

definition is_reserved :: "nat \<Rightarrow> 'a zone_scheme \<Rightarrow> bool" where
  "is_reserved p s = bit (flags (zpages s p)) PG_reserved"

definition is_head :: "nat \<Rightarrow> 'a zone_scheme \<Rightarrow> bool" where
  "is_head p s = bit (flags (zpages s p)) PG_property"

definition mark_head :: "nat \<Rightarrow> 'a zone_scheme \<Rightarrow> 'a zone_scheme" where
  "mark_head p = upd_desc p (\<lambda>d. d\<lparr>flags := set_bit PG_property (flags d)\<rparr>)"

definition unmark_head :: "nat \<Rightarrow> 'a zone_scheme \<Rightarrow> 'a zone_scheme" where
  "unmark_head p = upd_desc p (\<lambda>d. d\<lparr>flags := unset_bit PG_property (flags d)\<rparr>)"

definition block_size :: "nat \<Rightarrow> 'a zone_scheme \<Rightarrow> nat" where
  "block_size p s = property (zpages s p)"

definition set_block_size :: "nat \<Rightarrow> nat \<Rightarrow> 'a zone_scheme \<Rightarrow> 'a zone_scheme" where
  "set_block_size p n = upd_desc p (\<lambda>d. d\<lparr>property := u32 n\<rparr>)"

definition zone_pa2page :: "nat \<Rightarrow> 'a zone_scheme \<Rightarrow> nat kresult" where
  "zone_pa2page pa s = (if PPN pa \<ge> znpage s \<or> PPN pa < nbase then None else Some (PPN pa - nbase))"

subsection \<open>Operations\<close>

definition MAX_ORDER :: nat where "MAX_ORDER = 10"

record buddy = zone +
  block_count :: "nat \<Rightarrow> nat"  \<comment> \<open>\<open>unsigned int nr_free[MAX_ORDER]\<close>\<close>

definition buddy_init :: "buddy \<Rightarrow> buddy" where
  "buddy_init s = fold (\<lambda>i s. (upd_zlinks (list_init (Order_list i)) s)\<lparr>block_count := (block_count s)(i := 0)\<rparr>)
     [0..<MAX_ORDER] s"

text \<open>The statements that put a block into the list of its order, in \<open>init_memmap\<close>, in a split and in a release.\<close>

definition add_block :: "nat \<Rightarrow> nat \<Rightarrow> buddy \<Rightarrow> buddy" where
  "add_block order page s =
     (let s = set_block_size page order s;
          s = mark_head page s;
          s = upd_zlinks (list_add (Order_list order) (Block_link page)) s
      in s\<lparr>block_count := (block_count s)(order := u32 (block_count s order + 1))\<rparr>)"

fun clear_pages :: "nat \<Rightarrow> nat \<Rightarrow> buddy \<Rightarrow> buddy kresult" where
  "clear_pages p 0 s = Some s"
| "clear_pages p (Suc n) s = do {
     kassert (is_reserved p s);
     clear_pages (p + 1) n (unmark_head p (upd_desc p (\<lambda>d. d\<lparr>flags := 0, ref := 0\<rparr>) s))
   }"

fun largest_order :: "nat \<Rightarrow> nat \<Rightarrow> nat" where
  "largest_order n 0 = 0"
| "largest_order n (Suc k) = (if 2 ^ Suc k > n then largest_order n k else Suc k)"

function put_blocks :: "nat \<Rightarrow> nat \<Rightarrow> buddy \<Rightarrow> buddy" where
  "put_blocks page n s =
     (if n > 0
      then let order = largest_order n (MAX_ORDER - 1)
           in put_blocks (page + 2 ^ order) (n - 2 ^ order) (add_block order page s)
      else s)"
  by pat_completeness auto
termination by (relation "measure (\<lambda>(_, n, _). n)") auto

definition buddy_init_memmap :: "nat \<Rightarrow> nat \<Rightarrow> buddy \<Rightarrow> buddy kresult" where
  "buddy_init_memmap base n s = do {
     kassert (n > 0);
     s \<leftarrow> clear_pages base n s;
     Some (put_blocks base n s)
   }"

function fit_order :: "nat \<Rightarrow> nat \<Rightarrow> nat" where
  "fit_order n order = (if 2 ^ order < n \<and> order < MAX_ORDER then fit_order n (order + 1) else order)"
  by pat_completeness auto
termination by (relation "measure (\<lambda>(_, order). MAX_ORDER - order)") auto

function first_list :: "buddy \<Rightarrow> nat \<Rightarrow> nat" where
  "first_list s cur = (if cur < MAX_ORDER \<and> list_empty (Order_list cur) (zlinks s) then first_list s (cur + 1) else cur)"
  by pat_completeness auto
termination by (relation "measure (\<lambda>(_, cur). MAX_ORDER - cur)") auto

fun split_down :: "nat \<Rightarrow> nat \<Rightarrow> nat \<Rightarrow> buddy \<Rightarrow> buddy" where
  "split_down page order 0 s = s"
| "split_down page order (Suc cur) s =
     (if Suc cur > order then split_down page order cur (add_block cur (page + 2 ^ cur) s) else s)"

definition buddy_alloc_pages :: "nat \<Rightarrow> buddy \<Rightarrow> (nat option \<times> buddy) kresult" where
  "buddy_alloc_pages n s =
     (if n = 0 then Some (None, s)
      else let order = fit_order n 0 in
        if order \<ge> MAX_ORDER then Some (None, s)
        else let cur = first_list s order in
          if cur = MAX_ORDER then Some (None, s)
          else case list_next (Order_list cur) (zlinks s) of
            Order_list _ \<Rightarrow> None
          | Block_link page \<Rightarrow>
              let s = upd_zlinks (list_del (Block_link page)) s;
                  s = s\<lparr>block_count := (block_count s)(cur := sub32 (block_count s cur) 1)\<rparr>;
                  s = split_down page order cur s
              in Some (Some page, unmark_head page s))"

text \<open>\<open>while ((1U << order) < n)\<close>: shifting by 32 is undefined.\<close>

function round_order :: "nat \<Rightarrow> nat \<Rightarrow> nat kresult" where
  "round_order n order =
     (if order \<ge> 32 then None else if 2 ^ order < n then round_order n (order + 1) else Some order)"
  by pat_completeness auto
termination by (relation "measure (\<lambda>(_, order). 32 - order)") auto

function merge_up :: "nat \<Rightarrow> nat \<Rightarrow> buddy \<Rightarrow> ((nat \<times> nat) \<times> buddy) kresult" where
  "merge_up base order s =
     (if order < MAX_ORDER - 1
      then do {
        let buddy_addr = page2pa base XOR 2 ^ (order + PGSHIFT);
        buddy \<leftarrow> zone_pa2page buddy_addr s;
        (if \<not> is_head buddy s \<or> block_size buddy s \<noteq> order then Some ((base, order), s)
         else let s = upd_zlinks (list_del (Block_link buddy)) s;
                  s = s\<lparr>block_count := (block_count s)(order := sub32 (block_count s order) 1)\<rparr>
              in merge_up (if buddy < base then buddy else base) (order + 1) s)
      }
      else Some ((base, order), s))"
  by pat_completeness auto
termination by (relation "measure (\<lambda>(_, order, _). MAX_ORDER - order)") (auto simp: MAX_ORDER_def)

text \<open>An order from \<open>MAX_ORDER\<close> on is outside the array of lists.\<close>

definition buddy_free_pages :: "nat \<Rightarrow> nat \<Rightarrow> buddy \<Rightarrow> buddy kresult" where
  "buddy_free_pages base n s = do {
     kassert (n > 0);
     order \<leftarrow> round_order n 0;
     ((base, order), s) \<leftarrow> merge_up base order s;
     kassert (order < MAX_ORDER);
     Some (add_block order base s)
   }"

definition buddy_nr_free_pages :: "buddy \<Rightarrow> nat" where
  "buddy_nr_free_pages s = u64 (\<Sum>i\<leftarrow>[0..<MAX_ORDER]. u32 (block_count s i * 2 ^ i))"

declare put_blocks.simps [simp del] fit_order.simps [simp del] first_list.simps [simp del]
  round_order.simps [simp del] merge_up.simps [simp del]

subsection \<open>The blocks of a zone\<close>

text \<open>
  \<open>L k\<close> are the heads of the free blocks of order \<open>k\<close>, \<open>A\<close> the blocks that are not free; together they tile \<open>U\<close>. A merge
  does not unmark the right half, so a page inside a block may still be marked: \<open>stale_in\<close> says where, by the way the
  blocks lie in physical memory. \<open>E\<close> are pages about whose marks nothing is known for the moment.
\<close>

fun extent :: "nat \<times> nat \<Rightarrow> nat set" where "extent (h, k) = {h..<h + 2 ^ k}"

definition blocks :: "(nat \<Rightarrow> nat list) \<Rightarrow> (nat \<times> nat) set" where
  "blocks L = {(h, k). k < MAX_ORDER \<and> h \<in> set (L k)}"

definition tiles :: "(nat \<times> nat) set \<Rightarrow> nat set \<Rightarrow> bool" where
  "tiles B U \<longleftrightarrow> (\<forall>b\<in>B. \<forall>c\<in>B. b \<noteq> c \<longrightarrow> extent b \<inter> extent c = {}) \<and> (\<Union>b\<in>B. extent b) = U"

fun stale_in :: "nat \<Rightarrow> nat \<Rightarrow> nat \<times> nat \<Rightarrow> bool" where
  "stale_in p q (h, k) \<longleftrightarrow> q < k \<and> h \<le> p \<and> p + 2 ^ q \<le> h + 2 ^ k \<and> (h + nbase) mod 2 ^ k = (p + nbase) mod 2 ^ q"

definition lists_ok :: "buddy \<Rightarrow> (nat \<Rightarrow> nat list) \<Rightarrow> bool" where
  "lists_ok s L \<longleftrightarrow> (\<forall>k<MAX_ORDER. dlist (zlinks s) (Order_list k) (map Block_link (L k)) \<and>
     block_count s k = length (L k) \<and> (\<forall>h\<in>set (L k). is_head h s \<and> block_size h s = k))"

definition zone_ok :: "buddy \<Rightarrow> nat set \<Rightarrow> bool" where
  "zone_ok s U \<longleftrightarrow> 512 dvd znpage s \<and> znpage s \<le> 2 ^ 52 \<and> (\<forall>p\<in>U. p + nbase < znpage s) \<and> finite U \<and> card U < 2 ^ 32"

definition buddy_inv :: "buddy \<Rightarrow> nat set \<Rightarrow> (nat \<Rightarrow> nat list) \<Rightarrow> (nat \<times> nat) set \<Rightarrow> nat set \<Rightarrow> bool" where
  "buddy_inv s U L A E \<longleftrightarrow> zone_ok s U \<and> lists_ok s L \<and> tiles (blocks L \<union> A) U \<and> blocks L \<inter> A = {} \<and>
     (\<forall>(h, k)\<in>A. k < MAX_ORDER) \<and>
     (\<forall>p. is_head p s \<longrightarrow> p \<notin> E \<longrightarrow> (p, block_size p s) \<in> blocks L \<or>
        (\<exists>b\<in>blocks L \<union> A. stale_in p (block_size p s) b))"

lemma zone_fields:
  "zlinks (upd_desc p f s) = zlinks s" "znpage (upd_desc p f s) = znpage s" "zpages (upd_desc p f s) = (zpages s)(p := f (zpages s p))"
  "zlinks (upd_zlinks g s) = g (zlinks s)" "znpage (upd_zlinks g s) = znpage s" "zpages (upd_zlinks g s) = zpages s"
  "is_head q (upd_zlinks g s) = is_head q s" "block_size q (upd_zlinks g s) = block_size q s"
  "zlinks (mark_head p s) = zlinks s" "znpage (mark_head p s) = znpage s" "block_size q (mark_head p s) = block_size q s"
  "is_head q (mark_head p s) \<longleftrightarrow> q = p \<or> is_head q s"
  "zlinks (unmark_head p s) = zlinks s" "znpage (unmark_head p s) = znpage s" "block_size q (unmark_head p s) = block_size q s"
  "is_head q (unmark_head p s) \<longleftrightarrow> q \<noteq> p \<and> is_head q s"
  "zlinks (set_block_size p n s) = zlinks s" "znpage (set_block_size p n s) = znpage s" "is_head q (set_block_size p n s) = is_head q s"
  "block_size q (set_block_size p n s) = (if q = p then u32 n else block_size q s)"
  by (auto simp: upd_desc_def upd_zlinks_def mark_head_def unmark_head_def set_block_size_def is_head_def block_size_def
      PG_property_def bit_simps)

lemma count_fields:
  "block_count (upd_desc p f s) = block_count s" "block_count (upd_zlinks g s) = block_count s"
  "block_count (mark_head p s) = block_count s" "block_count (unmark_head p s) = block_count s"
  "block_count (set_block_size p n s) = block_count s"
  "zlinks (s\<lparr>block_count := c\<rparr>) = zlinks s" "znpage (s\<lparr>block_count := c\<rparr>) = znpage s"
  "is_head q (s\<lparr>block_count := c\<rparr>) = is_head q s" "block_size q (s\<lparr>block_count := c\<rparr>) = block_size q s"
  by (simp_all add: upd_desc_def upd_zlinks_def mark_head_def unmark_head_def set_block_size_def is_head_def block_size_def)

lemma extent_facts [simp]: "finite (extent b)" "card (extent b) = 2 ^ snd b" "h \<in> extent (h, k)"
  by (cases b; simp)+

lemma blocks_upd: "k < MAX_ORDER \<Longrightarrow> blocks (L(k := xs)) = {b \<in> blocks L. snd b \<noteq> k} \<union> (\<lambda>h. (h, k)) ` set xs"
  by (auto simp: blocks_def split: if_splits)

lemma blocks_add: "k < MAX_ORDER \<Longrightarrow> blocks (L(k := h # L k)) = insert (h, k) (blocks L)"
  by (auto simp: blocks_def split: if_splits)

lemma blocks_remove:
  "k < MAX_ORDER \<Longrightarrow> L k = xs @ h # ys \<Longrightarrow> distinct (L k) \<Longrightarrow> blocks (L(k := xs @ ys)) = blocks L - {(h, k)}"
  by (auto simp: blocks_def split: if_splits)

end
