(* ===== verification/Buddy_Proofs.thy ===== *)
theory Buddy_Proofs
  imports Buddy
begin

unbundle bit_operations_syntax

section \<open>The buddy manager keeps its blocks apart\<close>

subsection \<open>The buddy of a block\<close>

text \<open>\<open>mate x k\<close> is the page that the code finds for the block of order \<open>k\<close> at page \<open>x\<close>.\<close>

definition mate :: "nat \<Rightarrow> nat \<Rightarrow> nat" where
  "mate x k = ((x + nbase) XOR 2 ^ k) - nbase"

lemma nat_bit_xor: "(n :: nat) XOR 2 ^ k = (if bit n k then n - 2 ^ k else n + 2 ^ k)"
proof -
  have add: "m XOR 2 ^ k = m + 2 ^ k" if h: "\<not> bit m k" for m :: nat
  proof (rule sym, rule disjunctive_add_eq_xor, rule bit_eqI)
    fix j show "bit (m AND 2 ^ k) j = bit 0 j" using h by (auto simp: bit_simps)
  qed
  show ?thesis
  proof (cases "bit n k")
    case True
    have "n = (n XOR 2 ^ k) XOR 2 ^ k" by (simp add: xor.assoc)
    also have "\<dots> = (n XOR 2 ^ k) + 2 ^ k" using True by (intro add) (simp add: bit_simps)
    finally show ?thesis using True by simp
  qed (simp add: add)
qed

lemma bit_mod: "bit (n :: nat) k \<longleftrightarrow> 2 ^ k \<le> n mod 2 ^ Suc k"
proof -
  have d: "n mod 2 ^ Suc k = n mod 2 ^ k + 2 ^ k * (n div 2 ^ k mod 2)"
    using mod_mult2_eq [of n "2 ^ k" 2] by (simp add: mult.commute)
  have l: "n mod 2 ^ k < 2 ^ k" by simp
  show ?thesis
  proof (cases "even (n div 2 ^ k)")
    case True
    then show ?thesis using l unfolding d bit_iff_odd even_iff_mod_2_eq_zero not_le [symmetric] by auto
  next
    case False
    then show ?thesis unfolding d bit_iff_odd odd_iff_mod_2_eq_one by simp
  qed
qed

lemma mod_pow_eq: "j \<le> k \<Longrightarrow> (n :: nat) mod 2 ^ k mod 2 ^ j = n mod 2 ^ j"
  by (simp add: mod_mod_cancel le_imp_power_dvd)

lemma nbase_dvd: "k \<le> 9 \<Longrightarrow> 2 ^ k dvd nbase"
proof -
  assume "k \<le> 9"
  then have "(2 :: nat) ^ k dvd 2 ^ 9" by (rule le_imp_power_dvd)
  moreover have "(2 :: nat) ^ 9 dvd nbase" by (simp add: nbase_def PGSIZE_def)
  ultimately show ?thesis by (rule dvd_trans)
qed

lemma mate_cases:
  assumes "k < 9"
  obtains "bit (x + nbase) k" "mate x k + 2 ^ k = x" | "\<not> bit (x + nbase) k" "mate x k = x + 2 ^ k"
proof (cases "bit (x + nbase) k")
  case True
  obtain m where m: "nbase = 2 ^ Suc k * m" using nbase_dvd [of "Suc k"] assms by (auto elim: dvdE)
  have "2 ^ k \<le> (x + nbase) mod 2 ^ Suc k" using True bit_mod by blast
  then have "2 ^ k \<le> x mod 2 ^ Suc k" by (simp add: m)
  then have "2 ^ k \<le> x" by (meson le_trans mod_less_eq_dividend)
  then show ?thesis using that(1) True by (simp add: mate_def nat_bit_xor)
next
  case False
  then show ?thesis using that(2) by (simp add: mate_def nat_bit_xor)
qed

lemma mate_eq: "k < 9 \<Longrightarrow> mate x k + nbase = (x + nbase) XOR 2 ^ k"
  by (rule mate_cases [of k x]) (auto simp: nat_bit_xor)

lemma mate_bit: "k < 9 \<Longrightarrow> bit (mate x k + nbase) k \<longleftrightarrow> \<not> bit (x + nbase) k"
  by (simp add: mate_eq bit_simps)

lemma mate_mate: "k < 9 \<Longrightarrow> mate (mate x k) k = x"
  unfolding mate_def [of "mate x k"] by (simp add: mate_eq xor.assoc)

lemma mate_found:
  assumes "k < 9" "x + nbase < znpage s" "512 dvd znpage s" "znpage s \<le> 2 ^ 52"
  shows "zone_pa2page (page2pa x XOR 2 ^ (k + PGSHIFT)) s = Some (mate x k)"
proof -
  have n: "x + nbase < 2 ^ 52" using assms(2,4) by linarith
  have "page2pa x = push_bit 12 (x + nbase)"
    using n by (simp add: page2pa_def page2ppn_def PGSHIFT_def push_bit_eq_mult u64_def)
  moreover have "(2 :: nat) ^ (k + PGSHIFT) = push_bit 12 (2 ^ k)" by (simp add: PGSHIFT_def push_bit_eq_mult power_add)
  ultimately have "page2pa x XOR 2 ^ (k + PGSHIFT) = push_bit 12 ((x + nbase) XOR 2 ^ k)" by (simp only: push_bit_xor)
  then have p: "PPN (page2pa x XOR 2 ^ (k + PGSHIFT)) = (x + nbase) XOR 2 ^ k"
    by (simp add: PPN_def PTXSHIFT_def drop_bit_push_bit)
  have "nbase \<le> (x + nbase) XOR 2 ^ k \<and> (x + nbase) XOR 2 ^ k < znpage s"
    using assms(1)
  proof (cases rule: mate_cases [of k x])
    case 1
    then have "(x + nbase) XOR 2 ^ k = x + nbase - 2 ^ k" by (simp add: nat_bit_xor)
    then show ?thesis using 1(2) assms(2) by linarith
  next
    case 2
    have "(2 :: nat) ^ Suc k dvd 2 ^ 9" using assms(1) by (intro le_imp_power_dvd) simp
    then have "2 ^ Suc k dvd znpage s" using assms(3) by (auto intro: dvd_trans)
    then obtain m where m: "znpage s = 2 ^ Suc k * m" by (auto elim: dvdE)
    let ?X = "x + nbase"
    have "?X div 2 ^ Suc k < m" using assms(2) by (simp add: m less_mult_imp_div_less mult.commute)
    then have "2 ^ Suc k * (?X div 2 ^ Suc k) + 2 ^ Suc k \<le> 2 ^ Suc k * m"
      by (metis Suc_leI mult_Suc_right add.commute mult_le_mono2)
    moreover have "?X mod 2 ^ Suc k < 2 ^ k" using 2(1) bit_mod [of ?X k] by simp
    ultimately have "?X + 2 ^ k < znpage s"
      using mult_div_mod_eq [of "2 ^ Suc k" ?X] unfolding m power_Suc by linarith
    then show ?thesis using 2(1) by (simp add: nat_bit_xor)
  qed
  then show ?thesis using p by (simp add: zone_pa2page_def mate_def)
qed

subsection \<open>Lists of blocks\<close>

lemma lists_okD:
  assumes "lists_ok s L" "k < MAX_ORDER"
  shows "dlist (zlinks s) (Order_list k) (map Block_link (L k))" "block_count s k = length (L k)" "distinct (L k)"
    "h \<in> set (L k) \<Longrightarrow> is_head h s" "h \<in> set (L k) \<Longrightarrow> block_size h s = k"
  using assms dlist_distinct [of "zlinks s" "Order_list k" "map Block_link (L k)"]
  by (auto simp: lists_ok_def distinct_map)

lemma lists_apart:
  assumes "lists_ok s L" "k < MAX_ORDER" "j < MAX_ORDER" "j \<noteq> k" "set hs \<subseteq> set (L k)"
    "z \<in> set (Order_list j # map Block_link (L j))"
  shows "z \<notin> set (Order_list k # map Block_link hs)"
  using lists_okD(5) [OF assms(1,2)] lists_okD(5) [OF assms(1,3)] assms(4-6) by fastforce

lemma lists_del:
  assumes "lists_ok s L" "k < MAX_ORDER" "L k = xs @ y # ys" "length (L k) < 2 ^ 32"
    and t: "zlinks t = list_del (Block_link y) (zlinks s)" "block_count t = (block_count s)(k := sub32 (block_count s k) 1)"
      "\<And>q. is_head q t = is_head q s" "\<And>q. block_size q t = block_size q s"
  shows "lists_ok t (L(k := xs @ ys))"
  unfolding lists_ok_def
proof (intro allI impI)
  fix j assume j: "j < MAX_ORDER"
  note K = lists_okD [OF assms(1,2)] and J = lists_okD [OF assms(1) j]
  let ?t = "list_del (Block_link y) (zlinks s)"
  have l: "dlist (zlinks s) (Order_list k) (map Block_link xs @ Block_link y # map Block_link ys)" using K(1) assms(3) by simp
  have "dlist ?t (Order_list j) (map Block_link ((L(k := xs @ ys)) j))"
  proof (cases "j = k")
    case True
    then show ?thesis using list_del_dlist [OF l] by simp
  next
    case False
    have "nxt ?t z = nxt (zlinks s) z \<and> prv ?t z = prv (zlinks s) z" if "z \<in> set (Order_list j # map Block_link (L j))" for z
    proof -
      have "set (xs @ ys) \<subseteq> set (L k)" using assms(3) by auto
      then have "z \<notin> set (Order_list k # map Block_link xs @ map Block_link ys)"
        using lists_apart [OF assms(1,2) j False _ that, of "xs @ ys"] by simp
      then show ?thesis using list_del_frame [OF l] by blast
    qed
    then show ?thesis using dlist_frame [OF J(1)] False by simp
  qed
  moreover have "block_count t j = length ((L(k := xs @ ys)) j)"
    using assms(3,4) K(2) J(2) by (auto simp: t(2) sub32_id)
  ultimately show "dlist (zlinks t) (Order_list j) (map Block_link ((L(k := xs @ ys)) j)) \<and>
    block_count t j = length ((L(k := xs @ ys)) j) \<and> (\<forall>h\<in>set ((L(k := xs @ ys)) j). is_head h t \<and> block_size h t = j)"
    using J K assms(3) by (auto simp: t split: if_splits)
qed

lemma lists_add:
  assumes "lists_ok s L" "k < MAX_ORDER" "\<And>j. j < MAX_ORDER \<Longrightarrow> y \<notin> set (L j)" "length (L k) + 1 < 2 ^ 32"
  shows "lists_ok (add_block k y s) (L(k := y # L k))"
  unfolding lists_ok_def
proof (intro allI impI)
  fix j assume j: "j < MAX_ORDER"
  note K = lists_okD [OF assms(1,2)] and J = lists_okD [OF assms(1) j]
  let ?u = "zlinks s" and ?t = "list_add_after (Order_list k) (Block_link y) (zlinks s)"
  have l: "dlist ?u (Order_list k) ([] @ map Block_link (L k))" using K(1) by simp
  have t: "zlinks (add_block k y s) = ?t" by (simp add: add_block_def zone_fields count_fields Let_def list_add_def)
  have "dlist ?t (Order_list j) (map Block_link ((L(k := y # L k)) j))"
  proof (cases "j = k")
    case True
    have "Block_link y \<notin> set (Order_list k # [] @ map Block_link (L k))" using assms(2,3) by auto
    then show ?thesis using list_add_after_dlist [OF l] True by simp
  next
    case False
    have "nxt ?t z = nxt ?u z \<and> prv ?t z = prv ?u z" if "z \<in> set (Order_list j # map Block_link (L j))" for z
    proof -
      have "z \<noteq> Block_link y" using that assms(3) [OF j] by auto
      then have "z \<notin> set (Block_link y # Order_list k # [] @ map Block_link (L k))"
        using lists_apart [OF assms(1,2) j False _ that, of "L k"] by simp
      then show ?thesis using list_add_after_frame [OF l] by (metis append_Nil last_ConsL list.map(1))
    qed
    then show ?thesis using dlist_frame [OF J(1)] False by simp
  qed
  then show "dlist (zlinks (add_block k y s)) (Order_list j) (map Block_link ((L(k := y # L k)) j)) \<and>
    block_count (add_block k y s) j = length ((L(k := y # L k)) j) \<and>
    (\<forall>h\<in>set ((L(k := y # L k)) j). is_head h (add_block k y s) \<and> block_size h (add_block k y s) = j)"
    unfolding t using J K assms(2-4) j
    by (auto simp: add_block_def zone_fields count_fields Let_def MAX_ORDER_def)
qed

subsection \<open>Tilings\<close>

lemma tiles_replace:
  assumes "tiles (insert b B) U" "b \<notin> B" "(\<Union>c\<in>C. extent c) = extent b" "\<forall>c\<in>C. \<forall>d\<in>C. c \<noteq> d \<longrightarrow> extent c \<inter> extent d = {}"
  shows "tiles (B \<union> C) U"
proof -
  have "extent c \<inter> extent d = {}" if "c \<in> C" "d \<in> B" for c d
  proof -
    have "extent b \<inter> extent d = {}" using assms(1,2) that(2) by (auto simp: tiles_def)
    then show ?thesis using assms(3) that(1) by blast
  qed
  then show ?thesis using assms unfolding tiles_def by (auto 0 3)
qed

lemma tiles_merge:
  assumes "tiles (B \<union> C) U" "B \<inter> C = {}" "(\<Union>c\<in>C. extent c) = extent b"
  shows "tiles (insert b B) U"
proof -
  have T: "\<forall>c\<in>B \<union> C. \<forall>d\<in>B \<union> C. c \<noteq> d \<longrightarrow> extent c \<inter> extent d = {}" "(\<Union>c\<in>B \<union> C. extent c) = U"
    using assms(1) unfolding tiles_def by (rule conjunct1, rule conjunct2)
  have "extent b \<inter> extent d = {}" if d: "d \<in> B" for d
  proof -
    have "extent c \<inter> extent d = {}" if c: "c \<in> C" for c
    proof -
      have "c \<noteq> d" using c d assms(2) by blast
      then show ?thesis using T(1) c d by simp
    qed
    then show ?thesis unfolding assms(3) [symmetric] by blast
  qed
  moreover have "extent c \<inter> extent d = {}" if "c \<in> B" "d \<in> B" "c \<noteq> d" for c d
    using T(1) that by simp
  ultimately have "\<forall>c\<in>insert b B. \<forall>d\<in>insert b B. c \<noteq> d \<longrightarrow> extent c \<inter> extent d = {}" by blast
  moreover have "(\<Union>c\<in>insert b B. extent c) = U" using T(2) unfolding UN_Un UN_insert assms(3) by (simp only: Un_commute)
  ultimately show ?thesis by (simp only: tiles_def)
qed

lemma tiles_apart: "tiles B U \<Longrightarrow> b \<in> B \<Longrightarrow> c \<in> B \<Longrightarrow> extent b \<inter> extent c \<noteq> {} \<Longrightarrow> b = c"
  by (auto simp: tiles_def)

lemma tiles_sub: "tiles B U \<Longrightarrow> b \<in> B \<Longrightarrow> extent b \<subseteq> U"
  by (auto simp: tiles_def)

lemma buddy_invD:
  assumes "buddy_inv s U L A E"
  shows "zone_ok s U" "lists_ok s L" "tiles (blocks L \<union> A) U" "blocks L \<inter> A = {}" "(h, k) \<in> A \<Longrightarrow> k < MAX_ORDER"
    "is_head p s \<Longrightarrow> p \<notin> E \<Longrightarrow> (p, block_size p s) \<in> blocks L \<or> (\<exists>b\<in>blocks L \<union> A. stale_in p (block_size p s) b)"
  using assms by (auto simp: buddy_inv_def)

lemma inv_page: "buddy_inv s U L (insert (x, k) A) E \<Longrightarrow> x + nbase < znpage s"
  using tiles_sub [of "blocks L \<union> insert (x, k) A" U "(x, k)"] extent_facts(3) [of x k]
  by (force dest: buddy_invD(1,3) simp: zone_ok_def simp del: extent.simps extent_facts)

lemma same_head: "buddy_inv s U L A E \<Longrightarrow> (h, k) \<in> blocks L \<union> A \<Longrightarrow> (h, j) \<in> blocks L \<union> A \<Longrightarrow> j = k"
  using tiles_apart [of "blocks L \<union> A" U "(h, k)" "(h, j)"] by (auto dest: buddy_invD(3))

lemma free_length:
  assumes "buddy_inv s U L A E" "k < MAX_ORDER"
  shows "length (L k) \<le> card U" "length (L k) < 2 ^ 32" "(h, j) \<in> A \<Longrightarrow> length (L k) + 1 < 2 ^ 32"
proof -
  note I = buddy_invD [OF assms(1)]
  have sub: "set (L k) \<subseteq> U" using assms(2) tiles_sub [OF I(3)] by (fastforce simp: blocks_def)
  have U: "finite U" "card U < 2 ^ 32" using I(1) by (auto simp: zone_ok_def)
  have d: "card (set (L k)) = length (L k)" using lists_okD(3) [OF I(2) assms(2)] by (rule distinct_card)
  show le: "length (L k) \<le> card U" using card_mono [OF U(1) sub] d by simp
  then show "length (L k) < 2 ^ 32" using U(2) by simp
  assume h: "(h, j) \<in> A"
  then have "h \<in> U" using tiles_sub [OF I(3), of "(h, j)"] by auto
  moreover have "h \<notin> set (L k)" using h same_head [OF assms(1), of h k j] I(4) assms(2) by (auto simp: blocks_def)
  ultimately have "card (insert h (set (L k))) \<le> card U" using sub U(1) by (intro card_mono) auto
  then have "length (L k) + 1 \<le> card U" using \<open>h \<notin> set (L k)\<close> d by simp
  then show "length (L k) + 1 < 2 ^ 32" using U(2) by simp
qed

subsection \<open>Steps of the operations\<close>

lemma inv_take:
  assumes I: "buddy_inv s U L A E" and k: "k < MAX_ORDER" and L: "L k = xs @ y # ys"
    and t: "t = (upd_zlinks (list_del (Block_link y)) s)\<lparr>block_count := (block_count s)(k := sub32 (block_count s k) 1)\<rparr>"
  shows "buddy_inv t U (L(k := xs @ ys)) (insert (y, k) A) (insert y E)"
proof -
  note D = buddy_invD [OF I]
  have f: "is_head q t = is_head q s" "block_size q t = block_size q s" "znpage t = znpage s" for q
    by (simp_all add: t zone_fields count_fields)
  have y: "(y, k) \<in> blocks L" using k L by (simp add: blocks_def)
  have b: "blocks (L(k := xs @ ys)) = blocks L - {(y, k)}" using k L lists_okD(3) [OF D(2) k] by (rule blocks_remove)
  have "lists_ok t (L(k := xs @ ys))"
    by (rule lists_del [OF D(2) k L free_length(2) [OF I k]]) (simp_all add: t zone_fields count_fields)
  moreover have "blocks (L(k := xs @ ys)) \<union> insert (y, k) A = blocks L \<union> A" using b y by auto
  ultimately show ?thesis
    unfolding buddy_inv_def zone_ok_def f using D(1,3,4,5,6) y k b by (auto simp: zone_ok_def)
qed

lemma inv_add:
  assumes I: "buddy_inv s U L (insert (y, k) A) E" and y: "(y, k) \<notin> A"
  shows "buddy_inv (add_block k y s) U (L(k := y # L k)) A (E - {y})"
proof -
  note D = buddy_invD [OF I]
  have k: "k < MAX_ORDER" using D(5) by blast
  then have u: "u32 k = k" by (simp add: MAX_ORDER_def)
  have n: "(y, j) \<notin> blocks L" for j using same_head [OF I, of y k j] D(4) by auto
  have f: "is_head q (add_block k y s) \<longleftrightarrow> q = y \<or> is_head q s" "block_size q (add_block k y s) = (if q = y then k else block_size q s)"
    "znpage (add_block k y s) = znpage s" for q
    by (simp_all add: add_block_def zone_fields count_fields Let_def u)
  have b: "blocks (L(k := y # L k)) = insert (y, k) (blocks L)" by (rule blocks_add [OF k])
  have "lists_ok (add_block k y s) (L(k := y # L k))"
    by (rule lists_add [OF D(2) k _ free_length(3) [OF I k, of y k]]) (use n in \<open>auto simp: blocks_def\<close>)
  moreover have "blocks (L(k := y # L k)) \<union> A = blocks L \<union> insert (y, k) A" by (simp add: b)
  ultimately show ?thesis
    unfolding buddy_inv_def zone_ok_def f using D(1,3,4,5,6) y b by (auto simp: zone_ok_def)
qed

lemma extent_halves: "extent (h, k) \<union> extent (h + 2 ^ k, k) = extent (h, Suc k)"
  by (auto simp: mult_2)

lemma mod_Suc_pow: "(x :: nat) mod 2 ^ Suc k = x mod 2 ^ k + (if bit x k then 2 ^ k else 0)"
proof -
  have d: "x mod 2 ^ Suc k = x mod 2 ^ k + 2 ^ k * (x div 2 ^ k mod 2)"
    using mod_mult2_eq [of x "2 ^ k" 2] by (simp add: mult.commute)
  then show ?thesis unfolding bit_iff_odd by (cases "even (x div 2 ^ k)") (simp_all add: odd_iff_mod_2_eq_one even_iff_mod_2_eq_zero)
qed

lemma stale_grow:
  assumes "stale_in p q (h, k)" "m = min h h'" "h' = mate h k" "k < 9"
  shows "stale_in p q (m, Suc k)"
  using assms(4)
proof (cases rule: mate_cases [of k h])
  case 1
  have m: "m + 2 ^ k = h" using 1 assms(2,3) by simp
  then have a: "(m + nbase) + 2 ^ k = h + nbase" by simp
  have "m = mate h k" using m 1(2) by simp
  then have "\<not> bit (m + nbase) k" using 1(1) mate_bit [OF assms(4)] by simp
  then have "(m + nbase) mod 2 ^ Suc k = (m + nbase) mod 2 ^ k" by (simp only: mod_Suc_pow if_False add_0_right)
  also have "\<dots> = (h + nbase) mod 2 ^ k" unfolding a [symmetric] by simp
  finally show ?thesis using assms(1) m by (auto simp: mult_2)
next
  case 2
  have m: "m = h" using 2 assms(2,3) by simp
  have "(m + nbase) mod 2 ^ Suc k = (h + nbase) mod 2 ^ k" using 2(1) by (simp only: m mod_Suc_pow if_False add_0_right)
  then show ?thesis using assms(1) m by (auto simp: mult_2)
qed

lemma stale_mate:
  assumes "k < 9" "m = min h (mate h k)"
  shows "stale_in (mate h k) k (m, Suc k)"
  using assms(1)
proof (cases rule: mate_cases [of k h])
  case 1
  have m: "m = mate h k" using 1 assms(2) by simp
  have a: "(m + nbase) + 2 ^ k = h + nbase" using 1 m by simp
  have "\<not> bit (m + nbase) k" using 1(1) m mate_bit [OF assms(1)] by simp
  then have "(m + nbase) mod 2 ^ Suc k = (m + nbase) mod 2 ^ k" by (simp only: mod_Suc_pow if_False add_0_right)
  then show ?thesis using m by (simp add: mult_2)
next
  case 2
  have m: "m = h" using 2 assms(2) by simp
  have "(m + nbase) mod 2 ^ Suc k = (h + nbase) mod 2 ^ k" using 2(1) by (simp only: m mod_Suc_pow if_False add_0_right)
  moreover have "(mate h k + nbase) mod 2 ^ k = (h + nbase) mod 2 ^ k" using 2(2) by (metis add.commute add.left_commute mod_add_self1)
  ultimately show ?thesis using m 2 by (simp add: mult_2)
qed

lemma inv_merge:
  assumes I: "buddy_inv s U L (insert (y, k) (insert (x, k) A)) {y}" and y: "y = mate x k" and k: "k < 9"
    and A: "(x, k) \<notin> A" "(y, k) \<notin> A" and q: "block_size y s = k" and m: "m = min x y"
  shows "buddy_inv s U L (insert (m, Suc k) A) {}" "(m, Suc k) \<notin> A"
proof -
  note D = buddy_invD [OF I]
  have e: "(\<Union>c\<in>{(x, k), (y, k)}. extent c) = extent (m, Suc k)"
    using k
  proof (cases rule: mate_cases [of k x])
    case 1
    then have "m = y" "x = m + 2 ^ k" using m y by simp_all
    then show ?thesis using extent_halves [of m k] by auto
  next
    case 2
    then have "m = x" "y = m + 2 ^ k" using m y by simp_all
    then show ?thesis using extent_halves [of m k] by auto
  qed
  have T: "tiles ((blocks L \<union> A) \<union> {(x, k), (y, k)}) U" using D(3) by (simp add: Un_commute insert_commute)
  have d: "(blocks L \<union> A) \<inter> {(x, k), (y, k)} = {}" using D(4) A by auto
  have t: "tiles (insert (m, Suc k) (blocks L \<union> A)) U" by (rule tiles_merge [OF T d e])
  have m': "m = x \<or> m = y" using m by auto
  have n: "(m, Suc k) \<notin> blocks L \<union> A"
    using same_head [OF I, of m "Suc k" k] m' by auto
  then show "(m, Suc k) \<notin> A" by blast
  have xy: "x = mate y k" unfolding y by (rule mate_mate [OF k, symmetric])
  have g: "stale_in p q (m, Suc k)" if "stale_in p q b" "b = (x, k) \<or> b = (y, k)" for p q b
    using that stale_grow [of p q x k m y] stale_grow [of p q y k m x] m y xy k by (metis min.commute)
  have f: "(p, block_size p s) \<in> blocks L \<or> (\<exists>b\<in>blocks L \<union> insert (m, Suc k) A. stale_in p (block_size p s) b)"
    if h: "is_head p s" for p
  proof (cases "p = y")
    case True
    have "stale_in p (block_size p s) (m, Suc k)" unfolding True q using stale_mate [OF k, of m x] m y by simp
    then show ?thesis by blast
  next
    case False
    then show ?thesis using D(6) [OF h] g [of p "block_size p s"] by blast
  qed
  have "\<forall>(h, j)\<in>insert (m, Suc k) A. j < MAX_ORDER" using D(5) k by (auto simp: MAX_ORDER_def)
  moreover have "blocks L \<inter> insert (m, Suc k) A = {}" using D(4) n by blast
  moreover have "tiles (blocks L \<union> insert (m, Suc k) A) U" using t by simp
  ultimately show "buddy_inv s U L (insert (m, Suc k) A) {}"
    using D(1,2) f by (simp only: buddy_inv_def) blast
qed

text \<open>A block is split into its halves; then the right half becomes free.\<close>

lemma stale_halves:
  assumes "stale_in p q (h, Suc k)" "p \<noteq> h" "p \<noteq> h + 2 ^ k"
  shows "stale_in p q (h, k) \<or> stale_in p q (h + 2 ^ k, k)"
proof -
  let ?P = "p + nbase" and ?H = "h + nbase"
  have A: "q \<le> k" "h \<le> p" "p + 2 ^ q \<le> h + 2 ^ Suc k" "?H mod 2 ^ Suc k = ?P mod 2 ^ q" using assms(1) by auto
  have "?H mod 2 ^ q = ?P mod 2 ^ q" using A(1,4) mod_pow_eq [of q "Suc k" ?H] by simp
  then have "2 ^ q dvd (?P - ?H)" by (metis mod_eq_dvd_iff_nat A(2) add_le_mono1)
  then obtain d where "p - h = 2 ^ q * d" by (auto elim: dvdE)
  then have d: "p = h + 2 ^ q * d" using A(2) by linarith
  have j: "?H mod 2 ^ k = ?P mod 2 ^ q" 
  proof -
    have "(2 :: nat) ^ q \<le> 2 ^ k" using A(1) by simp
    moreover have "?P mod 2 ^ q < 2 ^ q" by simp
    ultimately have "?P mod 2 ^ q < 2 ^ k" by (rule order_less_le_trans [rotated])
    then show ?thesis using A(4) mod_pow_eq [of k "Suc k" ?H] by simp
  qed
  have k: "(2 :: nat) ^ k = 2 ^ q * 2 ^ (k - q)" using A(1) by (simp flip: power_add)
  show ?thesis
  proof (cases "p < h + 2 ^ k")
    case True
    then have "d < 2 ^ (k - q)" unfolding d k by simp
    then have "2 ^ q * d + 2 ^ q \<le> 2 ^ q * 2 ^ (k - q)" by (metis Suc_leI mult_Suc_right add.commute mult_le_mono2)
    then have e: "p + 2 ^ q \<le> h + 2 ^ k" unfolding d k by simp
    moreover have "q \<noteq> k"
    proof
      assume "q = k"
      then show False using e A(2) assms(2) by simp
    qed
    ultimately show ?thesis using A j by simp
  next
    case False
    have "q \<noteq> k"
    proof
      assume "q = k"
      then show False using A(3) False assms(3) by simp
    qed
    moreover have "(h + 2 ^ k + nbase) mod 2 ^ k = ?H mod 2 ^ k" by (metis add.commute add.left_commute mod_add_self1)
    ultimately show ?thesis using A j False by simp
  qed
qed

lemma inv_split:
  assumes I: "buddy_inv s U L (insert (h, Suc k) A) {h}" and A: "(h, Suc k) \<notin> A"
  shows "buddy_inv s U L (insert (h + 2 ^ k, k) (insert (h, k) A)) {h, h + 2 ^ k}" "(h, k) \<notin> A" "(h + 2 ^ k, k) \<notin> A"
proof -
  note D = buddy_invD [OF I]
  let ?C = "{(h, k), (h + 2 ^ k, k)}"
  have b: "(h, Suc k) \<in> blocks L \<union> insert (h, Suc k) A" by simp
  have n: "c \<notin> blocks L \<union> A" if "c \<in> ?C" for c
  proof
    assume c: "c \<in> blocks L \<union> A"
    have "extent c \<inter> extent (h, Suc k) \<noteq> {}" using that by auto
    then have "c = (h, Suc k)" using tiles_apart [OF D(3) _ b, of c] c by blast
    then show False using that by auto
  qed
  then show "(h, k) \<notin> A" "(h + 2 ^ k, k) \<notin> A" by auto
  have T: "tiles (insert (h, Suc k) (blocks L \<union> A)) U" using D(3) by simp
  have "(h, Suc k) \<notin> blocks L \<union> A" using D(4) A by blast
  moreover have "(\<Union>c\<in>?C. extent c) = extent (h, Suc k)" using extent_halves [of h k] by simp
  moreover have "\<forall>c\<in>?C. \<forall>d\<in>?C. c \<noteq> d \<longrightarrow> extent c \<inter> extent d = {}" by auto
  ultimately have "tiles ((blocks L \<union> A) \<union> ?C) U" by (rule tiles_replace [OF T])
  then have t: "tiles (blocks L \<union> insert (h + 2 ^ k, k) (insert (h, k) A)) U" by (simp add: insert_commute)
  have f: "(p, block_size p s) \<in> blocks L \<or> (\<exists>b\<in>blocks L \<union> insert (h + 2 ^ k, k) (insert (h, k) A). stale_in p (block_size p s) b)"
    if h: "is_head p s" "p \<notin> {h, h + 2 ^ k}" for p
    using D(6) [OF h(1)] h(2) stale_halves [of p "block_size p s" h k] by blast
  have "Suc k < MAX_ORDER" using D(5) by blast
  then have "\<forall>(h, j)\<in>insert (h + 2 ^ k, k) (insert (h, k) A). j < MAX_ORDER" using D(5) by auto
  moreover have "blocks L \<inter> insert (h + 2 ^ k, k) (insert (h, k) A) = {}" using D(4) n by blast
  ultimately show "buddy_inv s U L (insert (h + 2 ^ k, k) (insert (h, k) A)) {h, h + 2 ^ k}"
    using D(1,2) f t by (simp only: buddy_inv_def) blast
qed

text \<open>A marked mate of the right order is free.\<close>

lemma inv_mate_free:
  assumes I: "buddy_inv s U L (insert (x, k) A) {}" and k: "k < 9"
    and y: "is_head (mate x k) s" "block_size (mate x k) s = k"
  shows "mate x k \<in> set (L k)"
proof (rule ccontr)
  note D = buddy_invD [OF I]
  let ?y = "mate x k"
  assume "?y \<notin> set (L k)"
  then have "(?y, k) \<notin> blocks L" by (simp add: blocks_def)
  then have "\<exists>b\<in>blocks L \<union> insert (x, k) A. stale_in ?y k b" using D(6) [OF y(1)] unfolding y(2) by blast
  then obtain h j where b: "(h, j) \<in> blocks L \<union> insert (x, k) A" "stale_in ?y k (h, j)" by (metis surj_pair)
  have S: "k < j" "h \<le> ?y" "?y + 2 ^ k \<le> h + 2 ^ j" "(h + nbase) mod 2 ^ j = (?y + nbase) mod 2 ^ k" using b(2) by auto
  have "(h, j) \<noteq> (x, k)" using S(1) by auto
  then have "extent (h, j) \<inter> extent (x, k) = {}" using tiles_apart [OF D(3) b(1), of "(x, k)"] by blast
  then have "max h x \<notin> extent (h, j) \<or> max h x \<notin> extent (x, k)" by blast
  then have d: "h + 2 ^ j \<le> x \<or> x + 2 ^ k \<le> h" by (cases "h \<le> x") auto
  have low: "z mod 2 ^ j < 2 ^ k \<Longrightarrow> \<not> bit z k" for z :: nat
    using S(1) bit_mod [of z k] mod_pow_eq [of "Suc k" j z] mod_less_eq_dividend [of "z mod 2 ^ j" "2 ^ Suc k"] by simp
  have pos: "0 < (2 :: nat) ^ k" by simp
  show False
    using k
  proof (cases rule: mate_cases [of k x])
    case 1
    have "x = h + 2 ^ j" using d S(2,3) 1(2) pos by linarith
    then have "x + nbase = (h + nbase) + 2 ^ j" by simp
    then have "(x + nbase) mod 2 ^ j = (h + nbase) mod 2 ^ j" by (simp only: mod_add_self2)
    then show False using low [of "x + nbase"] 1(1) S(4) by simp
  next
    case 2
    have "h = ?y" using d S(2,3) 2(2) pos by linarith
    then show False using low [of "h + nbase"] S(4) mate_bit [OF k, of x] 2(1) by simp
  qed
qed

subsection \<open>Allocation\<close>

lemma fit_order_spec:
  "order \<le> fit_order n order" "fit_order n order < MAX_ORDER \<Longrightarrow> n \<le> 2 ^ fit_order n order"
  "order \<le> MAX_ORDER \<Longrightarrow> fit_order n order \<le> MAX_ORDER" "order \<le> j \<Longrightarrow> j < fit_order n order \<Longrightarrow> 2 ^ j < n"
proof -
  show "order \<le> fit_order n order"
    by (induction n order rule: fit_order.induct) (subst fit_order.simps, auto)
  show "fit_order n order < MAX_ORDER \<Longrightarrow> n \<le> 2 ^ fit_order n order"
    by (induction n order rule: fit_order.induct) (metis fit_order.simps not_le)
  show "order \<le> MAX_ORDER \<Longrightarrow> fit_order n order \<le> MAX_ORDER"
    by (induction n order rule: fit_order.induct) (subst fit_order.simps, auto)
  show "order \<le> j \<Longrightarrow> j < fit_order n order \<Longrightarrow> 2 ^ j < n"
  proof (induction n order rule: fit_order.induct)
    case (1 n order)
    have "2 ^ order < n \<and> order < MAX_ORDER" using 1(2,3) by (metis fit_order.simps not_le)
    then show ?case using 1 fit_order.simps [of n order] by (cases "j = order") auto
  qed
qed

lemma round_order_fit: "fit_order n order < MAX_ORDER \<Longrightarrow> round_order n order = Some (fit_order n order)"
proof (induction n order rule: fit_order.induct)
  case (1 n order)
  have o: "order < MAX_ORDER" using 1(2) fit_order_spec(1) [of order n] by linarith
  then have "order < 32" by (simp add: MAX_ORDER_def)
  then show ?case using 1 o by (subst round_order.simps, subst fit_order.simps) (auto simp: fit_order.simps [of n order])
qed

lemma first_list_spec:
  "order \<le> MAX_ORDER \<Longrightarrow> order \<le> first_list s order \<and> first_list s order \<le> MAX_ORDER"
  "order \<le> j \<Longrightarrow> j < first_list s order \<Longrightarrow> list_empty (Order_list j) (zlinks s)"
  "first_list s order < MAX_ORDER \<Longrightarrow> \<not> list_empty (Order_list (first_list s order)) (zlinks s)"
proof -
  show "order \<le> MAX_ORDER \<Longrightarrow> order \<le> first_list s order \<and> first_list s order \<le> MAX_ORDER"
  proof (induction s order rule: first_list.induct)
    case (1 s order)
    then show ?case by (subst (1 2) first_list.simps) (auto simp: Suc_le_eq)
  qed
  show "order \<le> j \<Longrightarrow> j < first_list s order \<Longrightarrow> list_empty (Order_list j) (zlinks s)"
  proof (induction s order rule: first_list.induct)
    case (1 s order)
    have "order < MAX_ORDER \<and> list_empty (Order_list order) (zlinks s)" using 1(2,3) by (metis first_list.simps not_le)
    then show ?case using 1 first_list.simps [of s order] by (cases "j = order") auto
  qed
  show "first_list s order < MAX_ORDER \<Longrightarrow> \<not> list_empty (Order_list (first_list s order)) (zlinks s)"
    by (induction s order rule: first_list.induct) (metis first_list.simps)
qed

lemma split_down_ok:
  "buddy_inv s U L (insert (h, c) A) {h} \<Longrightarrow> (h, c) \<notin> A \<Longrightarrow> k \<le> c \<Longrightarrow>
   \<exists>L'. buddy_inv (split_down h k c s) U L' (insert (h, k) A) {h} \<and> (h, k) \<notin> A"
proof (induction c arbitrary: s L)
  case (Suc c)
  show ?case
  proof (cases "k < Suc c")
    case True
    note S = inv_split [OF Suc.prems(1,2)]
    have "(h + 2 ^ c, c) \<notin> insert (h, c) A" using S(3) by simp
    from inv_add [OF S(1) this]
    have "buddy_inv (add_block c (h + 2 ^ c) s) U (L(c := (h + 2 ^ c) # L c)) (insert (h, c) A) {h}" by (simp add: insert_Diff_if)
    then show ?thesis using Suc.IH S(2) True by simp
  next
    case False
    then have "k = Suc c" using Suc.prems(3) by simp
    then show ?thesis using Suc.prems by auto
  qed
qed auto

lemma inv_unmark:
  assumes I: "buddy_inv s U L (insert (h, k) A) {h}"
  shows "buddy_inv (unmark_head h s) U L (insert (h, k) A) {}"
proof -
  note D = buddy_invD [OF I]
  have "h \<notin> set (L j)" if "j < MAX_ORDER" for j
    using same_head [OF I, of h k j] D(4) that by (auto simp: blocks_def)
  then have "lists_ok (unmark_head h s) L" using D(2) by (auto simp: lists_ok_def zone_fields count_fields)
  then show ?thesis using D(1,3,4,5,6) by (auto simp: buddy_inv_def zone_ok_def zone_fields)
qed

lemma buddy_alloc_ok:
  assumes I: "buddy_inv s U L A {}"
  shows "buddy_alloc_pages n s = Some (None, s) \<and> (n = 0 \<or> fit_order n 0 = MAX_ORDER \<or> (\<forall>k<MAX_ORDER. fit_order n 0 \<le> k \<longrightarrow> L k = [])) \<or>
    (\<exists>p t L'. buddy_alloc_pages n s = Some (Some p, t) \<and> fit_order n 0 < MAX_ORDER \<and>
       (p, fit_order n 0) \<notin> A \<and> buddy_inv t U L' (insert (p, fit_order n 0) A) {})"
proof -
  note D = buddy_invD [OF I]
  let ?o = "fit_order n 0" and ?c = "first_list s (fit_order n 0)"
  have emp: "list_empty (Order_list k) (zlinks s) \<longleftrightarrow> L k = []" if "k < MAX_ORDER" for k
    using list_empty_iff [OF lists_okD(1) [OF D(2) that]] by simp
  have o: "?o \<le> MAX_ORDER" by (rule fit_order_spec) simp
  note F = first_list_spec(1) [OF o] 
  consider "n = 0" | "n \<noteq> 0" "?o = MAX_ORDER" | "n \<noteq> 0" "?o < MAX_ORDER" "?c = MAX_ORDER" | "n \<noteq> 0" "?o < MAX_ORDER" "?c < MAX_ORDER"
    using o F [of s] by linarith
  then show ?thesis
  proof cases
    case 3
    then have "L k = []" if "k < MAX_ORDER" "?o \<le> k" for k
      using first_list_spec(2) [of ?o k s] emp [OF that(1)] that by simp
    then show ?thesis using 3 by (simp add: buddy_alloc_pages_def)
  next
    case 4
    then have "L ?c \<noteq> []" using first_list_spec(3) emp by blast
    then obtain p ps where p: "L ?c = p # ps" by (cases "L ?c") auto
    have "list_next (Order_list ?c) (zlinks s) = Block_link p"
      using list_next_dlist [of "zlinks s" "Order_list ?c" "[]" "map Block_link (L ?c)"] lists_okD(1) [OF D(2) 4(3)] p by simp
    moreover define u where "u = (upd_zlinks (list_del (Block_link p)) s)\<lparr>block_count := (block_count s)(?c := sub32 (block_count s ?c) 1)\<rparr>"
    ultimately have e: "buddy_alloc_pages n s = Some (Some p, unmark_head p (split_down p ?o ?c u))"
      using 4 by (simp add: buddy_alloc_pages_def Let_def upd_zlinks_def)
    have "(p, ?c) \<notin> A" using D(4) 4(3) p by (auto simp: blocks_def)
    moreover have "buddy_inv u U (L(?c := [] @ ps)) (insert (p, ?c) A) {p}"
      using p by (intro inv_take [OF I 4(3)]) (simp_all add: u_def)
    ultimately obtain L' where L': "buddy_inv (split_down p ?o ?c u) U L' (insert (p, ?o) A) {p}" "(p, ?o) \<notin> A"
      using split_down_ok [of u U _ p ?c A ?o] F [of s] by blast
    then show ?thesis using e 4 inv_unmark [OF L'(1)] by blast
  qed (simp_all add: buddy_alloc_pages_def)
qed

subsection \<open>Release\<close>

lemma merge_up_ok:
  "buddy_inv s U L (insert (x, k) A) {} \<Longrightarrow> (x, k) \<notin> A \<Longrightarrow>
   \<exists>m j t L'. merge_up x k s = Some ((m, j), t) \<and> buddy_inv t U L' (insert (m, j) A) {} \<and> (m, j) \<notin> A"
proof (induction "MAX_ORDER - k" arbitrary: x k s L rule: less_induct)
  case less
  note I = less.prems(1) and D = buddy_invD [OF less.prems(1)]
  show ?case
  proof (cases "k < MAX_ORDER - 1 \<and> is_head (mate x k) s \<and> block_size (mate x k) s = k")
    case False
    then have "merge_up x k s = Some ((x, k), s)"
    proof (cases "k < MAX_ORDER - 1")
      case True
      have x: "x + nbase < znpage s" by (rule inv_page [OF I])
      have "zone_pa2page (page2pa x XOR 2 ^ (k + PGSHIFT)) s = Some (mate x k)"
        by (rule mate_found [OF _ x]) (use True D(1) in \<open>simp_all add: zone_ok_def MAX_ORDER_def\<close>)
      then show ?thesis using True False by (subst merge_up.simps) auto
    qed (subst merge_up.simps, simp)
    then show ?thesis using less.prems by blast
  next
    case True
    then have k: "k < 9" by (simp add: MAX_ORDER_def)
    let ?y = "mate x k"
    have x: "x + nbase < znpage s" by (rule inv_page [OF I])
    have f: "zone_pa2page (page2pa x XOR 2 ^ (k + PGSHIFT)) s = Some ?y"
      by (rule mate_found [OF k x]) (use D(1) in \<open>simp_all add: zone_ok_def\<close>)
    have y: "?y \<in> set (L k)" using inv_mate_free [OF I k] True by blast
    then obtain xs ys where L: "L k = xs @ ?y # ys" by (meson split_list)
    have km: "k < MAX_ORDER" using k by (simp add: MAX_ORDER_def)
    have ny: "(?y, k) \<notin> A" using D(4) km y by (auto simp: blocks_def)
    define t where "t = (upd_zlinks (list_del (Block_link ?y)) s)\<lparr>block_count := (block_count s)(k := sub32 (block_count s k) 1)\<rparr>"
    have "block_size ?y t = k" using True by (simp add: t_def zone_fields count_fields)
    note M = inv_merge [OF inv_take [OF I km L t_def] refl k less.prems(2) ny this refl]
    have "merge_up x k s = merge_up (min x ?y) (k + 1) t"
      using True f by (subst merge_up.simps) (auto simp: t_def Let_def upd_zlinks_def min_def)
    then show ?thesis using less.hyps [of "Suc k" t _ "min x ?y"] M km by simp
  qed
qed

lemma buddy_free_ok:
  assumes I: "buddy_inv s U L (insert (p, fit_order n 0) A) {}" and n: "0 < n" "fit_order n 0 < MAX_ORDER" "(p, fit_order n 0) \<notin> A"
  shows "\<exists>t L'. buddy_free_pages p n s = Some t \<and> buddy_inv t U L' A {}"
proof -
  obtain m j t L' where M: "merge_up p (fit_order n 0) s = Some ((m, j), t)" "buddy_inv t U L' (insert (m, j) A) {}" "(m, j) \<notin> A"
    using merge_up_ok [OF I n(3)] by blast
  have "j < MAX_ORDER" using buddy_invD(5) [OF M(2)] by blast
  then show ?thesis
    using inv_add [OF M(2,3)] M(1) n round_order_fit [OF n(2)] by (auto simp: buddy_free_pages_def)
qed

subsection \<open>Initialisation\<close>

lemma fold_init:
  "set ks \<subseteq> {..<MAX_ORDER} \<Longrightarrow> distinct ks \<Longrightarrow>
   t = fold (\<lambda>i s. (upd_zlinks (list_init (Order_list i)) s)\<lparr>block_count := (block_count s)(i := 0)\<rparr>) ks s \<Longrightarrow>
   (\<forall>i\<in>set ks. dlist (zlinks t) (Order_list i) [] \<and> block_count t i = 0) \<and>
   (\<forall>z. z \<notin> Order_list ` set ks \<longrightarrow> nxt (zlinks t) z = nxt (zlinks s) z \<and> prv (zlinks t) z = prv (zlinks s) z) \<and>
   (\<forall>i. i \<notin> set ks \<longrightarrow> block_count t i = block_count s i) \<and> znpage t = znpage s \<and> zpages t = zpages s"
proof (induction ks arbitrary: s)
  case (Cons k ks)
  define u where "u = (upd_zlinks (list_init (Order_list k)) s)\<lparr>block_count := (block_count s)(k := 0)\<rparr>"
  have u: "dlist (zlinks u) (Order_list k) []" "block_count u k = 0" "znpage u = znpage s" "zpages u = zpages s"
    using list_init_dlist by (simp_all add: u_def zone_fields)
  have "t = fold (\<lambda>i s. (upd_zlinks (list_init (Order_list i)) s)\<lparr>block_count := (block_count s)(i := 0)\<rparr>) ks u"
    unfolding u_def Cons.prems(3) by (simp only: fold_simps)
  note T = Cons.IH [OF _ _ this]
  have "nxt (zlinks u) z = nxt (zlinks s) z \<and> prv (zlinks u) z = prv (zlinks s) z" if "z \<noteq> Order_list k" for z
    using list_init_frame [OF that, of "zlinks s"] by (simp add: u_def zone_fields)
  moreover have "dlist (zlinks t) (Order_list k) []"
    using T Cons.prems(1,2) by (intro dlist_frame [OF u(1)]) auto
  ultimately show ?case using T u Cons.prems(1,2) by (auto simp: u_def)
qed simp

lemma buddy_init_lists:
  "lists_ok (buddy_init s) (\<lambda>_. [])" "znpage (buddy_init s) = znpage s" "zpages (buddy_init s) = zpages s"
proof -
  have "set [0..<MAX_ORDER] \<subseteq> {..<MAX_ORDER}" "distinct [0..<MAX_ORDER]" by auto
  note F = fold_init [OF this refl, of s, folded buddy_init_def]
  show "lists_ok (buddy_init s) (\<lambda>_. [])" using F by (auto simp: lists_ok_def)
  show "znpage (buddy_init s) = znpage s" "zpages (buddy_init s) = zpages s" using F by blast+
qed

lemma clear_pages_ok:
  "\<forall>q\<in>{p..<p + n}. is_reserved q s \<Longrightarrow>
   \<exists>t. clear_pages p n s = Some t \<and> zlinks t = zlinks s \<and> block_count t = block_count s \<and> znpage t = znpage s \<and>
     (\<forall>q. is_head q t \<longrightarrow> is_head q s)"
proof (induction n arbitrary: p s)
  case (Suc n)
  define u where "u = unmark_head p (upd_desc p (\<lambda>d. d\<lparr>flags := 0, ref := 0\<rparr>) s)"
  have "is_reserved q u = is_reserved q s" if "q \<noteq> p" for q
    using that by (simp add: u_def is_reserved_def unmark_head_def upd_desc_def)
  then have "\<forall>q\<in>{p + 1..<p + 1 + n}. is_reserved q u" using Suc.prems by auto
  from Suc.IH [OF this] obtain t where t: "clear_pages (p + 1) n u = Some t" "zlinks t = zlinks u" "block_count t = block_count u"
    "znpage t = znpage u" "\<forall>q. is_head q t \<longrightarrow> is_head q u" by blast
  moreover have "is_head q u \<Longrightarrow> is_head q s" for q by (auto simp: u_def is_head_def unmark_head_def upd_desc_def split: if_splits)
  moreover have "zlinks u = zlinks s" "block_count u = block_count s" "znpage u = znpage s" by (simp_all add: u_def zone_fields count_fields)
  moreover have "is_reserved p s" using Suc.prems by auto
  ultimately show ?case by (auto simp flip: u_def)
qed auto

lemma largest_order_spec: "largest_order n k \<le> k \<and> (0 < n \<longrightarrow> 2 ^ largest_order n k \<le> n)"
  by (induction k) auto

lemma zone_ok_mono: "zone_ok s U \<Longrightarrow> V \<subseteq> U \<Longrightarrow> znpage t = znpage s \<Longrightarrow> zone_ok t V"
  unfolding zone_ok_def using card_mono [of U V] finite_subset [of V U] by auto

lemma inv_grow:
  assumes I: "buddy_inv s U L A {}" and k: "k < MAX_ORDER" and U: "U \<inter> extent (h, k) = {}" "zone_ok s (U \<union> extent (h, k))"
  shows "buddy_inv s (U \<union> extent (h, k)) L (insert (h, k) A) {}" "(h, k) \<notin> A"
proof -
  note D = buddy_invD [OF I]
  have d: "extent b \<inter> extent (h, k) = {}" if "b \<in> blocks L \<union> A" for b using tiles_sub [OF D(3) that] U(1) by blast
  have n: "(h, k) \<notin> blocks L \<union> A" using d [of "(h, k)"] extent_facts(3) [of h k] by blast
  then show "(h, k) \<notin> A" by blast
  have T: "\<forall>b\<in>blocks L \<union> A. \<forall>c\<in>blocks L \<union> A. b \<noteq> c \<longrightarrow> extent b \<inter> extent c = {}" "(\<Union>b\<in>blocks L \<union> A. extent b) = U"
    using D(3) unfolding tiles_def by (rule conjunct1, rule conjunct2)
  have "\<forall>b\<in>insert (h, k) (blocks L \<union> A). \<forall>c\<in>insert (h, k) (blocks L \<union> A). b \<noteq> c \<longrightarrow> extent b \<inter> extent c = {}"
    using T(1) d by (metis Int_commute insert_iff)
  moreover have "(\<Union>b\<in>insert (h, k) (blocks L \<union> A). extent b) = U \<union> extent (h, k)" unfolding UN_insert T(2) by (rule Un_commute)
  ultimately have "tiles (blocks L \<union> insert (h, k) A) (U \<union> extent (h, k))" by (simp only: tiles_def Un_insert_right)
  then show "buddy_inv s (U \<union> extent (h, k)) L (insert (h, k) A) {}"
    using D(2,4,5,6) U(2) k n unfolding buddy_inv_def by (auto simp del: extent.simps)
qed

lemma put_blocks_ok:
  "buddy_inv s {b..<p} L {} {} \<Longrightarrow> b \<le> p \<Longrightarrow> zone_ok s {b..<p + n} \<Longrightarrow> \<exists>L'. buddy_inv (put_blocks p n s) {b..<p + n} L' {} {}"
proof (induction p n s arbitrary: L rule: put_blocks.induct)
  case (1 p n s)
  show ?case
  proof (cases "n > 0")
    case True
    define k where "k = largest_order n (MAX_ORDER - 1)"
    have k: "k < MAX_ORDER" "2 ^ k \<le> n" using largest_order_spec [of n "MAX_ORDER - 1"] True by (auto simp: k_def MAX_ORDER_def)
    have e: "{b..<p} \<inter> extent (p, k) = {}" "{b..<p} \<union> extent (p, k) = {b..<p + 2 ^ k}" using "1.prems"(2) by auto
    have "zone_ok s ({b..<p} \<union> extent (p, k))" unfolding e(2) using k(2) by (intro zone_ok_mono [OF "1.prems"(3)]) auto
    note G = inv_grow [OF "1.prems"(1) k(1) e(1) this, unfolded e(2)]
    have A: "buddy_inv (add_block k p s) {b..<p + 2 ^ k} (L(k := p # L k)) {} {}" using inv_add [OF G] by simp
    have "zone_ok (add_block k p s) {b..<p + n}"
      by (rule zone_ok_mono [OF "1.prems"(3)]) (simp_all add: add_block_def Let_def zone_fields count_fields)
    moreover have "put_blocks p n s = put_blocks (p + 2 ^ k) (n - 2 ^ k) (add_block k p s)"
      using put_blocks.simps [of p n s] True by (simp add: k_def Let_def)
    ultimately show ?thesis using "1.IH" [OF True k_def A] "1.prems"(2) k(2) by simp
  next
    case False
    then show ?thesis using "1.prems" by (subst put_blocks.simps) auto
  qed
qed

lemma buddy_memmap_ok:
  assumes "\<forall>p. \<not> is_head p s" "\<forall>p\<in>{b..<b + n}. is_reserved p s" "zone_ok s {b..<b + n}" "0 < n"
  shows "\<exists>t L. buddy_init_memmap b n (buddy_init s) = Some t \<and> buddy_inv t {b..<b + n} L {} {}"
proof -
  note J = buddy_init_lists [of s]
  have "\<forall>p\<in>{b..<b + n}. is_reserved p (buddy_init s)" using assms(2) J(3) by (simp add: is_reserved_def)
  from clear_pages_ok [OF this] obtain t where t: "clear_pages b n (buddy_init s) = Some t" "zlinks t = zlinks (buddy_init s)"
    "block_count t = block_count (buddy_init s)" "znpage t = znpage s" "\<forall>q. is_head q t \<longrightarrow> is_head q (buddy_init s)"
    unfolding J(2) by blast
  have z: "zone_ok t V" if "V \<subseteq> {b..<b + n}" for V by (rule zone_ok_mono [OF assms(3) that t(4)])
  have "\<not> is_head q t" for q using t(5) assms(1) J(3) by (auto simp: is_head_def)
  moreover have "lists_ok t (\<lambda>_. [])" using J(1) t(2,3) by (simp add: lists_ok_def)
  ultimately have "buddy_inv t {b..<b} (\<lambda>_. []) {} {}" using z by (simp add: buddy_inv_def blocks_def tiles_def)
  then show ?thesis using put_blocks_ok [of t b b "\<lambda>_. []" n] z t(1) assms(4) by (auto simp: buddy_init_memmap_def)
qed

subsection \<open>Runs\<close>

lemma sum_list_upt: "(\<Sum>i\<leftarrow>[0..<n]. f i) = (\<Sum>i<n. f i)" for f :: "nat \<Rightarrow> nat"
  by (simp add: interv_sum_list_conv_sum_set_nat atLeast0LessThan)

lemma card_tiles:
  assumes "tiles B U" "finite B"
  shows "card U = (\<Sum>b\<in>B. 2 ^ snd b)"
proof -
  have "card (\<Union>b\<in>B. extent b) = (\<Sum>b\<in>B. card (extent b))"
    using assms by (intro card_UN_disjoint) (auto simp: tiles_def simp del: extent.simps)
  then show ?thesis using assms(1) by (simp add: tiles_def)
qed

lemma finite_blocks [simp]: "finite (blocks L)"
proof -
  have "blocks L = (\<lambda>(k, h). (h, k)) ` (SIGMA k:{..<MAX_ORDER}. set (L k))" by (auto simp: blocks_def)
  then show ?thesis by simp
qed

lemma sum_blocks:
  assumes "\<forall>k<MAX_ORDER. distinct (L k)"
  shows "(\<Sum>b\<in>blocks L. 2 ^ snd b) = (\<Sum>k<MAX_ORDER. length (L k) * 2 ^ k :: nat)"
proof -
  have b: "blocks L = (\<lambda>(k, h). (h, k)) ` (SIGMA k:{..<MAX_ORDER}. set (L k))" by (auto simp: blocks_def)
  have "(\<Sum>b\<in>blocks L. 2 ^ snd b) = (\<Sum>(k, h)\<in>(SIGMA k:{..<MAX_ORDER}. set (L k)). 2 ^ k :: nat)"
    unfolding b by (subst sum.reindex) (auto simp: inj_on_def intro!: sum.cong)
  also have "\<dots> = (\<Sum>k<MAX_ORDER. \<Sum>h\<in>set (L k). 2 ^ k)" by (rule sum.Sigma [symmetric]) auto
  also have "\<dots> = (\<Sum>k<MAX_ORDER. length (L k) * 2 ^ k)"
    using assms by (intro sum.cong) (auto simp: distinct_card)
  finally show ?thesis .
qed

lemma buddy_count:
  assumes I: "buddy_inv s U L A {}" and A: "finite A"
  shows "buddy_nr_free_pages s + (\<Sum>b\<in>A. 2 ^ snd b) = card U"
proof -
  note D = buddy_invD [OF I]
  have c: "card U = (\<Sum>k<MAX_ORDER. length (L k) * 2 ^ k) + (\<Sum>b\<in>A. 2 ^ snd b)"
    using card_tiles [OF D(3)] A D(4) lists_okD(3) [OF D(2)] by (simp add: sum.union_disjoint sum_blocks)
  have U: "card U < 2 ^ 32" using D(1) by (simp add: zone_ok_def)
  have l: "length (L k) * 2 ^ k \<le> card U" if "k < MAX_ORDER" for k
    using member_le_sum [of k "{..<MAX_ORDER}" "\<lambda>k. length (L k) * 2 ^ k"] that c by simp
  have "(\<Sum>i\<leftarrow>[0..<MAX_ORDER]. u32 (block_count s i * 2 ^ i)) = (\<Sum>k<MAX_ORDER. length (L k) * 2 ^ k)"
    unfolding sum_list_upt
  proof (intro sum.cong refl)
    fix k assume "k \<in> {..<MAX_ORDER}"
    then have k: "k < MAX_ORDER" by simp
    have "length (L k) * 2 ^ k < 2 ^ 32" by (rule le_less_trans [OF l [OF k] U])
    then show "u32 (block_count s k * 2 ^ k) = length (L k) * 2 ^ k" using lists_okD(2) [OF D(2) k] by (simp only: u32_id)
  qed
  then show ?thesis using c U by (simp add: buddy_nr_free_pages_def)
qed

definition buddy_block :: "nat \<times> nat \<Rightarrow> nat \<times> nat" where
  "buddy_block c = (fst c, fit_order (snd c) 0)"

definition granted :: "nat \<times> nat \<Rightarrow> nat \<times> nat" where
  "granted c = (fst c, 2 ^ fit_order (snd c) 0)"

lemma block_granted: "block (granted c) = extent (buddy_block c)"
  by (simp add: granted_def buddy_block_def block_def)

lemma buddy_run_inv:
  assumes "pmm_run buddy_alloc_pages buddy_free_pages (\<lambda>_ _. True) s0 s held" and "buddy_inv s0 U L0 {} {}"
  shows "\<exists>L. buddy_inv s U L (buddy_block ` set held) {} \<and> distinct (map buddy_block held) \<and>
    (\<forall>c\<in>set held. 0 < snd c \<and> fit_order (snd c) 0 < MAX_ORDER)"
  using assms
proof induction
  case run_start
  then show ?case by auto
next
  case (run_alloc s held n r t)
  then obtain L where L: "buddy_inv s U L (buddy_block ` set held) {}" "distinct (map buddy_block held)"
    "\<forall>c\<in>set held. 0 < snd c \<and> fit_order (snd c) 0 < MAX_ORDER" by blast
  from buddy_alloc_ok [OF L(1), of n] run_alloc.hyps(3) show ?case
  proof (elim disjE exE conjE)
    fix p u L' assume a: "buddy_alloc_pages n s = Some (Some p, u)" "fit_order n 0 < MAX_ORDER"
      "(p, fit_order n 0) \<notin> buddy_block ` set held" "buddy_inv u U L' (insert (p, fit_order n 0) (buddy_block ` set held)) {}"
    then have "r = Some p" "t = u" using run_alloc.hyps(3) by simp_all
    moreover have "buddy_block (p, n) = (p, fit_order n 0)" by (simp add: buddy_block_def)
    ultimately show ?thesis using a(2-) L(2,3) run_alloc.hyps(2) by auto
  qed (use L in auto)
next
  case (run_free s as p n bs t)
  let ?A = "buddy_block ` set (as @ bs)"
  obtain L where L: "buddy_inv s U L (buddy_block ` set (as @ (p, n) # bs)) {}" "distinct (map buddy_block (as @ (p, n) # bs))"
    "\<forall>c\<in>set (as @ (p, n) # bs). 0 < snd c \<and> fit_order (snd c) 0 < MAX_ORDER" using run_free.IH run_free.prems by blast
  have b: "buddy_block (p, n) = (p, fit_order n 0)" by (simp add: buddy_block_def)
  have "buddy_inv s U L (insert (p, fit_order n 0) ?A) {}" using L(1) by (simp add: b)
  moreover have "(p, fit_order n 0) \<notin> ?A" using L(2) by (auto simp: b)
  ultimately have "\<exists>u L'. buddy_free_pages p n s = Some u \<and> buddy_inv u U L' ?A {}"
    using L(3) by (intro buddy_free_ok) auto
  then show ?case using L(2,3) run_free.hyps(3) by auto
qed

lemma granted_disjoint:
  "tiles (B \<union> buddy_block ` set held) U \<Longrightarrow> distinct (map buddy_block held) \<Longrightarrow> held_disjoint (map granted held)"
proof (induction held arbitrary: B)
  case (Cons c held)
  have "tiles (insert (buddy_block c) B \<union> buddy_block ` set held) U" using Cons.prems(1) by simp
  then have "held_disjoint (map granted held)" using Cons.IH [of "insert (buddy_block c) B"] Cons.prems(2) by simp
  moreover have "block (granted c) \<inter> held_set (map granted held) = {}"
    using Cons.prems unfolding held_set_def tiles_def by (auto simp: block_granted simp del: extent.simps)
  moreover have "0 < snd (granted c)" by (simp add: granted_def)
  ultimately show ?case by simp
qed simp

text \<open>
  C10: From memory that no one uses, \<open>buddy_init_memmap\<close> returns, and in every run of allocations and of releases of blocks
  that the client holds: the blocks handed out, rounded up to a power of two, cover what was asked for, are disjoint and lie
  in the memory that was given; the count of free pages and these blocks add up to that memory, so that merging loses
  nothing; every further allocation and every release of a held block returns.
\<close>

theorem buddy_run_safe:
  assumes "\<forall>p. \<not> is_head p s" "\<forall>p\<in>{b..<b + n}. is_reserved p s" "zone_ok s {b..<b + n}" "0 < n"
  shows "\<exists>s0. buddy_init_memmap b n (buddy_init s) = Some s0 \<and>
    (\<forall>t held. pmm_run buddy_alloc_pages buddy_free_pages (\<lambda>_ _. True) s0 t held \<longrightarrow>
       (\<forall>c\<in>set held. snd c \<le> snd (granted c)) \<and>
       held_disjoint (map granted held) \<and> held_set (map granted held) \<subseteq> {b..<b + n} \<and>
       buddy_nr_free_pages t + sum_list (map (snd \<circ> granted) held) = n \<and>
       (\<forall>m. buddy_alloc_pages m t \<noteq> None) \<and> (\<forall>c\<in>set held. buddy_free_pages (fst c) (snd c) t \<noteq> None))"
proof -
  obtain s0 L0 where s0: "buddy_init_memmap b n (buddy_init s) = Some s0" "buddy_inv s0 {b..<b + n} L0 {} {}"
    using buddy_memmap_ok [OF assms] by blast
  have "(\<forall>c\<in>set held. snd c \<le> snd (granted c)) \<and> held_disjoint (map granted held) \<and> held_set (map granted held) \<subseteq> {b..<b + n} \<and>
     buddy_nr_free_pages t + sum_list (map (snd \<circ> granted) held) = n \<and>
     (\<forall>m. buddy_alloc_pages m t \<noteq> None) \<and> (\<forall>c\<in>set held. buddy_free_pages (fst c) (snd c) t \<noteq> None)"
    if r: "pmm_run buddy_alloc_pages buddy_free_pages (\<lambda>_ _. True) s0 t held" for t held
  proof -
    obtain L where L: "buddy_inv t {b..<b + n} L (buddy_block ` set held) {}" "distinct (map buddy_block held)"
      "\<forall>c\<in>set held. 0 < snd c \<and> fit_order (snd c) 0 < MAX_ORDER"
      using buddy_run_inv [OF r s0(2)] by blast
    note D = buddy_invD [OF L(1)]
    have d: "held_disjoint (map granted held)" by (rule granted_disjoint [OF D(3) L(2)])
    have "snd c \<le> snd (granted c)" if "c \<in> set held" for c using L(3) that fit_order_spec(2) by (simp add: granted_def)
    moreover have "held_set (map granted held) \<subseteq> {b..<b + n}"
    proof -
      have "block (granted c) \<subseteq> {b..<b + n}" if "c \<in> set held" for c
        unfolding block_granted using that by (intro tiles_sub [OF D(3)]) simp
      then show ?thesis by (simp add: held_set_def UN_subset_iff)
    qed
    moreover have "(\<Sum>b\<in>buddy_block ` set held. 2 ^ snd b) = sum_list (map (snd \<circ> granted) held)"
      using L(2) sum_list_distinct_conv_sum_set [of "map buddy_block held" "\<lambda>b. (2 :: nat) ^ snd b"]
      by (simp add: comp_def buddy_block_def granted_def)
    then have "buddy_nr_free_pages t + sum_list (map (snd \<circ> granted) held) = n" using buddy_count [OF L(1)] by simp
    moreover have "buddy_alloc_pages m t \<noteq> None" for m using buddy_alloc_ok [OF L(1), of m] by auto
    moreover have "buddy_free_pages (fst c) (snd c) t \<noteq> None" if c: "c \<in> set held" for c
    proof -
      let ?A = "buddy_block ` set held - {(fst c, fit_order (snd c) 0)}"
      have "insert (fst c, fit_order (snd c) 0) ?A = buddy_block ` set held" using c by (force simp: buddy_block_def)
      then show ?thesis using buddy_free_ok [of t "{b..<b + n}" L "fst c" "snd c" ?A] L(1,3) c by auto
    qed
    ultimately show ?thesis using d by blast
  qed
  then show ?thesis using s0(1) by blast
qed

theorem buddy_run_safe_witness:
  "\<exists>s s0. buddy_init_memmap 3 7 (buddy_init s) = Some s0 \<and> buddy_nr_free_pages s0 = 7 \<and> buddy_alloc_pages 3 s0 \<noteq> None"
proof -
  define s :: buddy where "s = \<lparr>zpages = \<lambda>_. \<lparr>ref = 0, flags = set_bit PG_reserved 0, property = 0\<rparr>,
    zlinks = \<lparr>nxt = \<lambda>a. a, prv = \<lambda>a. a\<rparr>, znpage = nbase + 512, block_count = \<lambda>_. 0\<rparr>"
  have "\<forall>p. \<not> is_head p s" "\<forall>p\<in>{3..<3 + 7}. is_reserved p s"
    by (simp_all add: s_def is_head_def is_reserved_def PG_property_def PG_reserved_def bit_simps)
  moreover have "zone_ok s {3..<3 + 7}" by (simp add: s_def zone_ok_def nbase_def PGSIZE_def)
  moreover have "(0 :: nat) < 7" by simp
  ultimately obtain s0 where "buddy_init_memmap 3 7 (buddy_init s) = Some s0"
    "buddy_nr_free_pages s0 = 7 \<and> (\<forall>m. buddy_alloc_pages m s0 \<noteq> None)"
    using buddy_run_safe [of s 3 7] run_start by fastforce
  then show ?thesis by blast
qed

end
