(* ===== verification/Buddy_Split.thy ===== *)
theory Buddy_Split
  imports Buddy_Proofs
begin

unbundle bit_operations_syntax

section \<open>The buddy manager that hands out any number of pages (src/Lab2_Challenge1_buddy_pmm.c)\<close>

text \<open>
  A second buddy manager. Its blocks are aligned, it gives back what it does not need of a block, and it splits the pages
  released into blocks. The members of a free block are those of \<open>Buddy\<close>, but \<open>property\<close> holds the number of pages.
  The functions that test the manager (\<open>check_each_list_block\<close>, \<open>buddy_own_check\<close>) are left out.
\<close>

definition BUDDY_MAX_ORDER :: nat where "BUDDY_MAX_ORDER = 16"

record split_buddy = zone +
  free_total :: nat  \<comment> \<open>\<open>buddy_area.nr_free\<close>, a \<open>size_t\<close>\<close>

definition ORDER_OF_PAGES :: "nat \<Rightarrow> nat" where "ORDER_OF_PAGES ord = push_bit ord 1"

text \<open>The loop of \<open>find_upper_number\<close>; for numbers above \<open>2 ^ 63\<close> it does not end.\<close>

partial_function (option) upper_loop :: "nat \<Rightarrow> nat \<Rightarrow> nat \<Rightarrow> nat kresult" where
  "upper_loop v k n = (if v < n then upper_loop (u64 (push_bit 1 v)) (k + 1) n else Some k)"

definition find_upper_number :: "nat \<Rightarrow> nat kresult" where "find_upper_number n = upper_loop 1 0 n"

definition turn_page_to_pfn :: "nat \<Rightarrow> nat" where "turn_page_to_pfn p = drop_bit PGSHIFT (page2pa p)"

definition push_block :: "nat \<Rightarrow> nat \<Rightarrow> split_buddy \<Rightarrow> split_buddy kresult" where
  "push_block p order s = do {
     kassert (order \<le> BUDDY_MAX_ORDER);
     Some (upd_zlinks (list_add (Order_list order) (Block_link p)) (mark_head p (set_block_size p (ORDER_OF_PAGES order) s)))
   }"

definition pop_block :: "nat \<Rightarrow> split_buddy \<Rightarrow> (nat option \<times> split_buddy) kresult" where
  "pop_block order s =
     (let le = Order_list order in
      if list_empty le (zlinks s) then Some (None, s)
      else case list_next le (zlinks s) of
        Order_list _ \<Rightarrow> None
      | Block_link p \<Rightarrow>
          let s = upd_zlinks (list_del (Block_link p)) s;
              s = unmark_head p s
          in Some (Some p, set_block_size p 0 s))"

text \<open>\<open>remove_block_exact\<close> has no caller.\<close>

partial_function (option) remove_loop :: "zone_le \<Rightarrow> nat \<Rightarrow> nat \<Rightarrow> split_buddy \<Rightarrow> (int \<times> split_buddy) kresult" where
  "remove_loop le p order s =
     (let le = list_next le (zlinks s) in
      if le = Order_list order then Some (0, s)
      else case le of
        Order_list _ \<Rightarrow> None
      | Block_link q \<Rightarrow>
          if q = p then Some (1, set_block_size q 0 (unmark_head q (upd_zlinks (list_del le) s)))
          else remove_loop le p order s)"

definition remove_block_exact :: "nat \<Rightarrow> nat \<Rightarrow> split_buddy \<Rightarrow> (int \<times> split_buddy) kresult" where
  "remove_block_exact p order s = do { kassert (order \<le> BUDDY_MAX_ORDER); remove_loop (Order_list order) p order s }"

definition split_init :: "split_buddy \<Rightarrow> split_buddy" where
  "split_init s = (fold (\<lambda>ord. upd_zlinks (list_init (Order_list ord))) [0..<BUDDY_MAX_ORDER + 1] s)\<lparr>free_total := 0\<rparr>"

fun reset_pages :: "nat \<Rightarrow> nat \<Rightarrow> split_buddy \<Rightarrow> split_buddy kresult" where
  "reset_pages p 0 s = Some s"
| "reset_pages p (Suc n) s = do {
     kassert (is_reserved p s);
     reset_pages (p + 1) n (upd_desc p (\<lambda>d. d\<lparr>flags := 0, property := 0, ref := 0\<rparr>) s)
   }"

text \<open>The largest order that fits into \<open>n\<close> pages and to which \<open>pfn\<close> is aligned, searched upwards from \<open>k\<close>.\<close>

function aligned_order :: "nat \<Rightarrow> nat \<Rightarrow> nat \<Rightarrow> nat" where
  "aligned_order k n pfn =
     (if k + 1 \<le> BUDDY_MAX_ORDER \<and> ORDER_OF_PAGES (k + 1) \<le> n \<and> pfn AND (ORDER_OF_PAGES (k + 1) - 1) = 0
      then aligned_order (k + 1) n pfn else k)"
  by pat_completeness auto
termination by (relation "measure (\<lambda>(k, _, _). BUDDY_MAX_ORDER - k)") auto

declare aligned_order.simps [simp del]

function carve_blocks :: "nat \<Rightarrow> nat \<Rightarrow> nat \<Rightarrow> split_buddy \<Rightarrow> split_buddy kresult" where
  "carve_blocks base pfn n s =
     (if n > 0
      then do {
        let k = aligned_order 0 n pfn;
        s \<leftarrow> push_block base k s;
        let blk = ORDER_OF_PAGES k;
        carve_blocks (base + blk) (pfn + blk) (n - blk) (s\<lparr>free_total := u64 (free_total s + blk)\<rparr>)
      }
      else Some s)"
  by pat_completeness auto
termination by (relation "measure (\<lambda>(_, _, n, _). n)") (auto simp: ORDER_OF_PAGES_def push_bit_eq_mult)

declare carve_blocks.simps [simp del]

definition split_init_memmap :: "nat \<Rightarrow> nat \<Rightarrow> split_buddy \<Rightarrow> split_buddy kresult" where
  "split_init_memmap base n s = do {
     kassert (n > 0);
     s \<leftarrow> reset_pages base n s;
     carve_blocks base (turn_page_to_pfn base) n s
   }"

text \<open>\<open>buddy_of\<close> may point before the array of pages.\<close>

definition buddy_of :: "nat \<Rightarrow> nat \<Rightarrow> int" where
  "buddy_of p ord = (let s = ORDER_OF_PAGES ord; p_pfn = turn_page_to_pfn p; buddy_pfn = p_pfn XOR s
     in int p + (int buddy_pfn - int p_pfn))"

definition check_if_head_page :: "nat \<Rightarrow> nat \<Rightarrow> bool" where
  "check_if_head_page p s_pages \<longleftrightarrow> turn_page_to_pfn p mod s_pages = 0"

function merge_block :: "nat \<Rightarrow> nat \<Rightarrow> nat \<Rightarrow> split_buddy \<Rightarrow> ((nat \<times> nat) \<times> split_buddy) kresult" where
  "merge_block p ord s st =
     (if ord < BUDDY_MAX_ORDER
      then let b = buddy_of p ord in
        if b < 0 \<or> b \<ge> int (znpage st) then Some ((p, ord), st)
        else let q = nat b in
          if \<not> is_head q st \<or> block_size q st \<noteq> s then Some ((p, ord), st)
          else do {
            let st = upd_zlinks (list_del (Block_link q)) st;
            let st = unmark_head q st;
            let p = (if q < p then q else p);
            let s = push_bit 1 s;
            let ord = ord + 1;
            kassert (check_if_head_page p s);
            merge_block p ord s (mark_head p (set_block_size p s st))
          }
      else Some ((p, ord), st))"
  by pat_completeness auto
termination by (relation "measure (\<lambda>(_, ord, _, _). BUDDY_MAX_ORDER - ord)") auto

declare merge_block.simps [simp del]

definition free_one_block_and_merge :: "nat \<Rightarrow> nat \<Rightarrow> split_buddy \<Rightarrow> split_buddy kresult" where
  "free_one_block_and_merge p ord st = do {
     let s = ORDER_OF_PAGES ord;
     kassert (check_if_head_page p s);
     ((p, ord), st) \<leftarrow> merge_block p ord s (mark_head p (set_block_size p s st));
     Some (upd_zlinks (list_add (Order_list ord) (Block_link p)) st)
   }"

fun release_pages :: "nat \<Rightarrow> nat \<Rightarrow> split_buddy \<Rightarrow> split_buddy kresult" where
  "release_pages p 0 s = Some s"
| "release_pages p (Suc n) s = do {
     kassert (\<not> is_reserved p s);
     kassert (\<not> is_head p s);
     release_pages (p + 1) n (upd_desc p (\<lambda>d. d\<lparr>ref := 0\<rparr>) s)
   }"

function release_blocks :: "nat \<Rightarrow> nat \<Rightarrow> nat \<Rightarrow> split_buddy \<Rightarrow> split_buddy kresult" where
  "release_blocks base base_pfn remaining_n s =
     (if remaining_n > 0
      then do {
        let k = aligned_order 0 remaining_n base_pfn;
        s \<leftarrow> free_one_block_and_merge base k s;
        let blk = ORDER_OF_PAGES k;
        release_blocks (base + blk) (base_pfn + blk) (remaining_n - blk) s
      }
      else Some s)"
  by pat_completeness auto
termination by (relation "measure (\<lambda>(_, _, n, _). n)") (auto simp: ORDER_OF_PAGES_def push_bit_eq_mult)

declare release_blocks.simps [simp del]

definition split_free_pages :: "nat \<Rightarrow> nat \<Rightarrow> split_buddy \<Rightarrow> split_buddy kresult" where
  "split_free_pages base n s = do {
     kassert (n > 0);
     s \<leftarrow> release_pages base n s;
     s \<leftarrow> release_blocks base (turn_page_to_pfn base) n s;
     Some (s\<lparr>free_total := u64 (free_total s + n)\<rparr>)
   }"

text \<open>A block of order 0 is taken whole; for another number of pages the order becomes negative.\<close>

fun split_block :: "nat \<Rightarrow> nat \<Rightarrow> nat \<Rightarrow> split_buddy \<Rightarrow> (nat \<times> split_buddy) kresult" where
  "split_block head 0 n s = (if n = ORDER_OF_PAGES 0 then Some (head, s) else None)"
| "split_block head (Suc ord) n s =
     (let whole = ORDER_OF_PAGES (Suc ord) in
      if n = whole then Some (head, s)
      else let half = drop_bit 1 whole; left = head; right = head + half in
        if n \<le> half then do { s \<leftarrow> push_block right ord s; split_block left ord n s }
        else do { (_, s) \<leftarrow> split_block right ord (n - half) s; Some (head, s) })"

function find_block :: "nat \<Rightarrow> split_buddy \<Rightarrow> ((nat \<times> nat) option \<times> split_buddy) kresult" where
  "find_block curr_order s =
     (if curr_order \<le> BUDDY_MAX_ORDER
      then if \<not> list_empty (Order_list curr_order) (zlinks s)
        then do { (blk, s) \<leftarrow> pop_block curr_order s; Some (map_option (\<lambda>b. (b, curr_order)) blk, s) }
        else find_block (curr_order + 1) s
      else Some (None, s))"
  by pat_completeness auto
termination by (relation "measure (\<lambda>(k, _). BUDDY_MAX_ORDER + 1 - k)") auto

declare find_block.simps [simp del]

definition split_alloc_pages :: "nat \<Rightarrow> split_buddy \<Rightarrow> (nat option \<times> split_buddy) kresult" where
  "split_alloc_pages n s = do {
     kassert (n > 0);
     (if n > free_total s then Some (None, s)
      else do {
        need \<leftarrow> find_upper_number n;
        (blk, s) \<leftarrow> find_block need s;
        (case blk of
           None \<Rightarrow> Some (None, s)
         | Some (blk, curr_order) \<Rightarrow> do {
             (result, s) \<leftarrow> split_block blk curr_order n s;
             Some (Some result, s\<lparr>free_total := sub64 (free_total s) n\<rparr>)
           })
      })
   }"

definition split_nr_free_pages :: "split_buddy \<Rightarrow> nat" where "split_nr_free_pages s = free_total s"

end
