(* ===== verification/Buddy_Split_Proofs.thy ===== *)
theory Buddy_Split_Proofs
  imports Buddy_Split
begin

unbundle bit_operations_syntax

section \<open>What the splitting buddy manager hands out, and where its releases fail\<close>

subsection \<open>Free blocks\<close>

text \<open>\<open>split_rep s U\<close>: the free lists hold disjoint blocks that cover the pages of \<open>U\<close>, and the count is right.\<close>

definition links_ok :: "zone_le links \<Rightarrow> (nat \<Rightarrow> nat list) \<Rightarrow> bool" where
  "links_ok h L \<longleftrightarrow> (\<forall>k\<le>BUDDY_MAX_ORDER. dlist h (Order_list k) (map Block_link (L k))) \<and>
     (\<forall>k\<le>BUDDY_MAX_ORDER. \<forall>j\<le>BUDDY_MAX_ORDER. j \<noteq> k \<longrightarrow> set (L j) \<inter> set (L k) = {})"

lemma links_add:
  assumes S: "links_ok g L" and k: "k \<le> BUDDY_MAX_ORDER" and new: "\<forall>j\<le>BUDDY_MAX_ORDER. h \<notin> set (L j)"
  shows "links_ok (list_add (Order_list k) (Block_link h) g) (L(k := h # L k))"
proof -
  let ?t = "list_add_after (Order_list k) (Block_link h) g"
  have l: "dlist g (Order_list k) ([] @ map Block_link (L k))" using S k by (simp add: links_ok_def)
  have "dlist ?t (Order_list j) (map Block_link ((L(k := h # L k)) j))" if j: "j \<le> BUDDY_MAX_ORDER" for j
  proof (cases "j = k")
    case True
    have "Block_link h \<notin> set (Order_list k # [] @ map Block_link (L k))" using new k by auto
    then show ?thesis using list_add_after_dlist [OF l] True by simp
  next
    case False
    have d: "dlist g (Order_list j) (map Block_link (L j))" "set (L j) \<inter> set (L k) = {}" using S j k False by (auto simp: links_ok_def)
    have "nxt ?t z = nxt g z \<and> prv ?t z = prv g z" if z: "z \<in> set (Order_list j # map Block_link (L j))" for z
    proof -
      have "z \<notin> set (Block_link h # Order_list k # [] @ map Block_link (L k))" using z new j d(2) False by auto
      then show ?thesis using list_add_after_frame [OF l] by (metis append_Nil last_ConsL list.map(1))
    qed
    then show ?thesis using dlist_frame [OF d(1)] False by simp
  qed
  then show ?thesis using S new k unfolding links_ok_def list_add_def by auto
qed

lemma links_del:
  assumes S: "links_ok g L" and k: "k \<le> BUDDY_MAX_ORDER" and h: "L k = h # hs"
  shows "links_ok (list_del (Block_link h) g) (L(k := hs))"
proof -
  let ?t = "list_del (Block_link h) g"
  have "dlist g (Order_list k) (map Block_link (L k))" using S k by (simp add: links_ok_def)
  then have l: "dlist g (Order_list k) ([] @ Block_link h # map Block_link hs)" using h by simp
  have "dlist ?t (Order_list j) (map Block_link ((L(k := hs)) j))" if j: "j \<le> BUDDY_MAX_ORDER" for j
  proof (cases "j = k")
    case True
    then show ?thesis using list_del_dlist [OF l] by simp
  next
    case False
    have d: "dlist g (Order_list j) (map Block_link (L j))" "set (L j) \<inter> set (L k) = {}" using S j k False by (auto simp: links_ok_def)
    have "nxt ?t z = nxt g z \<and> prv ?t z = prv g z" if z: "z \<in> set (Order_list j # map Block_link (L j))" for z
    proof -
      have "z \<notin> set (Order_list k # [] @ map Block_link hs)" using z d(2) h False by auto
      then show ?thesis using list_del_frame [OF l] by blast
    qed
    then show ?thesis using dlist_frame [OF d(1)] False by simp
  qed
  moreover have "set ((L(k := hs)) i) \<inter> set ((L(k := hs)) j) = {}" if ij: "i \<le> BUDDY_MAX_ORDER" "j \<le> BUDDY_MAX_ORDER" "i \<noteq> j" for i j
  proof -
    have sub: "set ((L(k := hs)) m) \<subseteq> set (L m)" for m using h by auto
    have "set (L i) \<inter> set (L j) = {}" using S ij unfolding links_ok_def by blast
    then show ?thesis using sub [of i] sub [of j] by blast
  qed
  ultimately show ?thesis unfolding links_ok_def by blast
qed

definition split_blocks :: "(nat \<Rightarrow> nat list) \<Rightarrow> (nat \<times> nat) set" where
  "split_blocks L = {(h, k). k \<le> BUDDY_MAX_ORDER \<and> h \<in> set (L k)}"

definition split_lists :: "split_buddy \<Rightarrow> (nat \<Rightarrow> nat list) \<Rightarrow> nat set \<Rightarrow> bool" where
  "split_lists s L U \<longleftrightarrow> links_ok (zlinks s) L \<and> tiles (split_blocks L) U"

definition split_rep :: "split_buddy \<Rightarrow> nat set \<Rightarrow> bool" where
  "split_rep s U \<longleftrightarrow> (\<exists>L. split_lists s L U) \<and> finite U \<and> free_total s = card U \<and> card U < 2 ^ 63"

lemma split_listsD:
  assumes "split_lists s L U" "k \<le> BUDDY_MAX_ORDER"
  shows "dlist (zlinks s) (Order_list k) (map Block_link (L k))" "distinct (L k)"
    "h \<in> set (L k) \<Longrightarrow> extent (h, k) \<subseteq> U" "tiles (split_blocks L) U"
  using assms dlist_distinct [of "zlinks s" "Order_list k" "map Block_link (L k)"] tiles_sub [of "split_blocks L" U "(h, k)"]
  by (auto simp: split_lists_def links_ok_def distinct_map split_blocks_def simp del: extent.simps)

lemma split_push:
  assumes S: "split_lists s L U" and k: "k \<le> BUDDY_MAX_ORDER" and U: "extent (h, k) \<inter> U = {}"
  shows "\<exists>t. push_block h k s = Some t \<and> split_lists t (L(k := h # L k)) (U \<union> extent (h, k)) \<and> free_total t = free_total s"
proof -
  define t where "t = upd_zlinks (list_add (Order_list k) (Block_link h)) (mark_head h (set_block_size h (ORDER_OF_PAGES k) s))"
  have new: "h \<notin> set (L j)" if "j \<le> BUDDY_MAX_ORDER" for j
    using split_listsD(3) [OF S that, of h] U extent_facts(3) [of h] by blast
  have zt: "zlinks t = list_add (Order_list k) (Block_link h) (zlinks s)" by (simp add: t_def zone_fields)
  have "links_ok (zlinks t) (L(k := h # L k))" unfolding zt using S new by (intro links_add k) (auto simp: split_lists_def)
  moreover have "split_blocks (L(k := h # L k)) = insert (h, k) (split_blocks L)" using k by (auto simp: split_blocks_def split: if_splits)
  moreover have "tiles (insert (h, k) (split_blocks L)) (U \<union> extent (h, k))"
  proof -
    have T: "\<forall>b\<in>split_blocks L. \<forall>c\<in>split_blocks L. b \<noteq> c \<longrightarrow> extent b \<inter> extent c = {}" "(\<Union>b\<in>split_blocks L. extent b) = U"
      using split_listsD(4) [OF S k] unfolding tiles_def by (rule conjunct1, rule conjunct2)
    have "extent b \<inter> extent (h, k) = {}" if "b \<in> split_blocks L" for b using that T(2) U by blast
    then have "\<forall>b\<in>insert (h, k) (split_blocks L). \<forall>c\<in>insert (h, k) (split_blocks L). b \<noteq> c \<longrightarrow> extent b \<inter> extent c = {}"
      using T(1) by (metis Int_commute insert_iff)
    moreover have "(\<Union>b\<in>insert (h, k) (split_blocks L). extent b) = U \<union> extent (h, k)" unfolding UN_insert T(2) by (rule Un_commute)
    ultimately show ?thesis by (simp only: tiles_def)
  qed
  ultimately have "split_lists t (L(k := h # L k)) (U \<union> extent (h, k))" unfolding split_lists_def by simp
  moreover have "free_total t = free_total s" by (simp add: t_def upd_zlinks_def mark_head_def set_block_size_def upd_desc_def)
  ultimately show ?thesis using k by (simp add: push_block_def t_def)
qed

lemma split_pop:
  assumes S: "split_lists s L U" and k: "k \<le> BUDDY_MAX_ORDER" and h: "L k = h # hs"
  shows "\<exists>t. pop_block k s = Some (Some h, t) \<and> split_lists t (L(k := hs)) (U - extent (h, k)) \<and> extent (h, k) \<subseteq> U \<and>
    free_total t = free_total s"
proof -
  define t where "t = set_block_size h 0 (unmark_head h (upd_zlinks (list_del (Block_link h)) s))"
  note K = split_listsD(1) [OF S k]
  have p: "pop_block k s = Some (Some h, t)"
    using list_empty_iff [OF K] list_next_dlist [of "zlinks s" "Order_list k" "[]" "map Block_link (L k)"] K h
    by (simp add: pop_block_def t_def Let_def)
  have "links_ok (zlinks t) (L(k := hs))" using links_del [of "zlinks s" L k h hs] S k h by (simp add: split_lists_def t_def zone_fields)
  moreover have b: "split_blocks L = insert (h, k) (split_blocks (L(k := hs)))" "(h, k) \<notin> split_blocks (L(k := hs))"
    using k h split_listsD(2) [OF S k] by (auto simp: split_blocks_def split: if_splits)
  moreover have "tiles (split_blocks (L(k := hs))) (U - extent (h, k))"
  proof -
    have T: "\<forall>b\<in>split_blocks L. \<forall>c\<in>split_blocks L. b \<noteq> c \<longrightarrow> extent b \<inter> extent c = {}" "(\<Union>b\<in>split_blocks L. extent b) = U"
      using split_listsD(4) [OF S k] unfolding tiles_def by (rule conjunct1, rule conjunct2)
    have "extent b \<inter> extent (h, k) = {}" if "b \<in> split_blocks (L(k := hs))" for b using T(1) b that by (metis insertI1 insertI2)
    then have "(\<Union>b\<in>split_blocks (L(k := hs)). extent b) = U - extent (h, k)" using T(2) unfolding b(1) UN_insert by blast
    then show ?thesis using T(1) unfolding tiles_def b(1) by blast
  qed
  ultimately have "split_lists t (L(k := hs)) (U - extent (h, k))" unfolding split_lists_def by simp
  moreover have "extent (h, k) \<subseteq> U" using split_listsD(3) [OF S k, of h] h by simp
  moreover have "free_total t = free_total s" by (simp add: t_def upd_zlinks_def unmark_head_def set_block_size_def upd_desc_def)
  ultimately show ?thesis using p by blast
qed

subsection \<open>Allocation is exact\<close>

lemma order_pages: "ORDER_OF_PAGES k = 2 ^ k" by (simp add: ORDER_OF_PAGES_def push_bit_eq_mult)

lemma upper_loop_ok:
  "n \<le> 2 ^ 63 \<Longrightarrow> v = 2 ^ k \<Longrightarrow> k \<le> 63 \<Longrightarrow> \<exists>m. upper_loop v k n = Some m \<and> n \<le> 2 ^ m"
proof (induction "63 - k" arbitrary: k v)
  case 0
  then have "k = 63" by simp
  then show ?case using 0 by (subst upper_loop.simps) auto
next
  case (Suc d)
  have k: "k < 63" using Suc.hyps(2) by simp
  then have "(2 :: nat) ^ Suc k < 2 ^ 64" by (intro power_strict_increasing) auto
  then have "u64 (push_bit 1 v) = 2 ^ (k + 1)" using Suc.prems by (simp add: push_bit_eq_mult u64_def)
  moreover have "d = 63 - (k + 1)" using Suc.hyps(2) by simp
  ultimately show ?case using Suc.hyps(1) [of "k + 1" "2 ^ (k + 1)"] Suc.prems k by (subst upper_loop.simps) auto
qed

lemma upper_loop_least_aux:
  "n \<le> 2 ^ 63 \<Longrightarrow> v = 2 ^ k \<Longrightarrow> k \<le> 63 \<Longrightarrow> upper_loop v k n = Some m \<Longrightarrow> k \<le> j \<Longrightarrow> j < m \<Longrightarrow> 2 ^ j < n"
proof (induction "63 - k" arbitrary: k v)
  case 0
  then have "k = 63" by simp
  then show ?case using 0 by (subst (asm) upper_loop.simps) (auto split: if_splits)
next
  case (Suc d)
  have k: "k < 63" using Suc.hyps(2) by simp
  then have "(2 :: nat) ^ Suc k < 2 ^ 64" by (intro power_strict_increasing) auto
  then have u: "u64 (push_bit 1 v) = 2 ^ (k + 1)" using Suc.prems by (simp add: push_bit_eq_mult u64_def)
  have d: "d = 63 - (k + 1)" using Suc.hyps(2) by simp
  show ?case
  proof (cases "v < n")
    case True
    then have "upper_loop (2 ^ (k + 1)) (k + 1) n = Some m" using Suc.prems(4) u upper_loop.simps [of v k n] by simp
    then show ?thesis using Suc.hyps(1) [OF d _ refl] Suc.prems(1,2,5,6) k True by (cases "j = k") auto
  next
    case False
    then have "m = k" using Suc.prems(4) upper_loop.simps [of v k n] by simp
    then show ?thesis using Suc.prems(5,6) by simp
  qed
qed

lemma upper_loop_least: "find_upper_number n = Some m \<Longrightarrow> n \<le> 2 ^ 63 \<Longrightarrow> j < m \<Longrightarrow> 2 ^ j < n"
  using upper_loop_least_aux [of n 1 0 m j] by (simp add: find_upper_number_def)

lemma split_block_ok:
  "split_lists s L U \<Longrightarrow> extent (h, k) \<inter> U = {} \<Longrightarrow> k \<le> BUDDY_MAX_ORDER \<Longrightarrow> 0 < n \<Longrightarrow> n \<le> 2 ^ k \<Longrightarrow>
   \<exists>t L'. split_block h k n s = Some (h, t) \<and> split_lists t L' (U \<union> {h + n..<h + 2 ^ k}) \<and> free_total t = free_total s"
proof (induction k arbitrary: h n s L U)
  case 0
  then have "n = 1" by simp
  then show ?case using 0 by (auto simp: order_pages)
next
  case (Suc k)
  have half: "drop_bit 1 (ORDER_OF_PAGES (Suc k)) = 2 ^ k" by (simp add: order_pages drop_bit_eq_div)
  have e: "extent (h, k) \<inter> U = {}" "extent (h + 2 ^ k, k) \<inter> U = {}" using Suc.prems(2) extent_halves [of h k] by blast+
  consider "n = 2 ^ Suc k" | "n \<noteq> 2 ^ Suc k" "n \<le> 2 ^ k" | "n \<noteq> 2 ^ Suc k" "2 ^ k < n" by linarith
  then show ?case
  proof cases
    case 1
    then show ?thesis using Suc.prems by (auto simp: order_pages)
  next
    case 2
    obtain u where u: "push_block (h + 2 ^ k) k s = Some u" "split_lists u (L(k := (h + 2 ^ k) # L k)) (U \<union> extent (h + 2 ^ k, k))"
      "free_total u = free_total s"
      using split_push [OF Suc.prems(1) _ e(2)] Suc.prems(3) by (meson Suc_leD)
    have "extent (h, k) \<inter> (U \<union> extent (h + 2 ^ k, k)) = {}" using e(1) by auto
    from Suc.IH [OF u(2) this _ Suc.prems(4) 2(2)] obtain t L' where t: "split_block h k n u = Some (h, t)"
      "split_lists t L' (U \<union> extent (h + 2 ^ k, k) \<union> {h + n..<h + 2 ^ k})" "free_total t = free_total u" using Suc.prems(3) by auto
    have "U \<union> extent (h + 2 ^ k, k) \<union> {h + n..<h + 2 ^ k} = U \<union> {h + n..<h + 2 ^ Suc k}" using 2 by auto
    then show ?thesis using t u 2 half by (auto simp: order_pages Let_def)
  next
    case 3
    then have "0 < n - 2 ^ k" "n - 2 ^ k \<le> 2 ^ k" using Suc.prems(5) by auto
    from Suc.IH [OF Suc.prems(1) e(2) _ this] obtain t L' where t: "split_block (h + 2 ^ k) k (n - 2 ^ k) s = Some (h + 2 ^ k, t)"
      "split_lists t L' (U \<union> {h + 2 ^ k + (n - 2 ^ k)..<h + 2 ^ k + 2 ^ k})" "free_total t = free_total s" using Suc.prems(3) by auto
    have "h + 2 ^ k + (n - 2 ^ k) = h + n" "h + 2 ^ k + 2 ^ k = h + 2 ^ Suc k" using 3 by auto
    then have l: "split_lists t L' (U \<union> {h + n..<h + 2 ^ Suc k})" using t(2) by (simp only:)
    have "split_block h (Suc k) n s = Some (h, t)" using t(1) 3 half by (simp add: order_pages Let_def)
    then show ?thesis using l t(3) by blast
  qed
qed

lemma split_block_step:
  "0 < k \<Longrightarrow> split_block h k n s = (if n = 2 ^ k then Some (h, s)
     else if n \<le> 2 ^ (k - 1) then do { s \<leftarrow> push_block (h + 2 ^ (k - 1)) (k - 1) s; split_block h (k - 1) n s }
     else do { (_, s) \<leftarrow> split_block (h + 2 ^ (k - 1)) (k - 1) (n - 2 ^ (k - 1)) s; Some (h, s) })"
  by (cases k) (simp_all add: order_pages drop_bit_eq_div Let_def)

lemma find_block_ok:
  "split_lists s L U \<Longrightarrow>
   find_block k s = Some (None, s) \<and> (\<forall>j\<le>BUDDY_MAX_ORDER. k \<le> j \<longrightarrow> L j = []) \<or>
   (\<exists>h j t L'. find_block k s = Some (Some (h, j), t) \<and> k \<le> j \<and> j \<le> BUDDY_MAX_ORDER \<and> extent (h, j) \<subseteq> U \<and>
      split_lists t L' (U - extent (h, j)) \<and> free_total t = free_total s)"
proof (induction "BUDDY_MAX_ORDER + 1 - k" arbitrary: k)
  case 0
  then show ?case by (subst (1 2) find_block.simps) auto
next
  case (Suc d)
  have k: "k \<le> BUDDY_MAX_ORDER" using Suc.hyps(2) by simp
  have e: "list_empty (Order_list k) (zlinks s) \<longleftrightarrow> L k = []" using list_empty_iff [OF split_listsD(1) [OF Suc.prems k]] by simp
  show ?case
  proof (cases "L k")
    case Nil
    then have f: "find_block k s = find_block (k + 1) s" using e k by (subst find_block.simps) simp
    have "d = BUDDY_MAX_ORDER + 1 - (k + 1)" using Suc.hyps(2) by simp
    then consider "find_block (k + 1) s = Some (None, s)" "\<forall>j\<le>BUDDY_MAX_ORDER. k + 1 \<le> j \<longrightarrow> L j = []"
      | "\<exists>h j t L'. find_block (k + 1) s = Some (Some (h, j), t) \<and> k + 1 \<le> j \<and> j \<le> BUDDY_MAX_ORDER \<and> extent (h, j) \<subseteq> U \<and>
          split_lists t L' (U - extent (h, j)) \<and> free_total t = free_total s"
      using Suc.hyps(1) [of "k + 1"] Suc.prems by blast
    then show ?thesis
    proof cases
      case 1
      have "L j = []" if "j \<le> BUDDY_MAX_ORDER" "k \<le> j" for j using 1(2) Nil that by (cases "j = k") auto
      then show ?thesis using 1(1) unfolding f by blast
    next
      case 2
      then show ?thesis unfolding f by (elim exE conjE) (auto dest!: Suc_leD simp del: extent.simps)
    qed
  next
    case (Cons h hs)
    obtain t where t: "pop_block k s = Some (Some h, t)" "split_lists t (L(k := hs)) (U - extent (h, k))" "extent (h, k) \<subseteq> U"
      "free_total t = free_total s" using split_pop [OF Suc.prems k Cons] by blast
    have "find_block k s = Some (Some (h, k), t)" using t(1) e k Cons by (subst find_block.simps) simp
    then show ?thesis using t k by blast
  qed
qed

text \<open>
  C15: \<open>buddy_alloc_pages\<close> of the splitting manager returns. It hands out exactly \<open>n\<close> pages, which were free and are now the
  only ones that no longer are, though it takes a block of a power of two; or it returns \<open>NULL\<close> and nothing has changed, and then fewer
  than \<open>n\<close> pages are free or no free block is large enough.
\<close>

theorem split_alloc_exact:
  assumes "split_rep s U" "0 < n"
  shows "(\<exists>p t. split_alloc_pages n s = Some (Some p, t) \<and> {p..<p + n} \<subseteq> U \<and> split_rep t (U - {p..<p + n})) \<or>
    split_alloc_pages n s = Some (None, s) \<and>
      (split_nr_free_pages s < n \<or> (\<forall>L. split_lists s L U \<longrightarrow> (\<forall>(h, k)\<in>split_blocks L. 2 ^ k < n)))"
proof -
  obtain L where L: "split_lists s L U" and f: "finite U" "free_total s = card U" "card U < 2 ^ 63" using assms(1) by (auto simp: split_rep_def)
  show ?thesis
  proof (cases "n > free_total s")
    case True
    then show ?thesis using assms(2) by (simp add: split_alloc_pages_def split_nr_free_pages_def)
  next
    case False
    then have n: "n \<le> 2 ^ 63" using f by simp
    obtain m where m: "find_upper_number n = Some m" "n \<le> 2 ^ m" using upper_loop_ok [OF n, of 1 0] by (auto simp: find_upper_number_def)
    have low: "2 ^ k < n" if "k < m" for k by (rule upper_loop_least [OF m(1) n that])
    consider "find_block m s = Some (None, s)"
      | h j t L' where "find_block m s = Some (Some (h, j), t)" "m \<le> j" "j \<le> BUDDY_MAX_ORDER" "extent (h, j) \<subseteq> U"
        "split_lists t L' (U - extent (h, j))" "free_total t = free_total s"
      using find_block_ok [OF L, of m] by blast
    then show ?thesis
    proof cases
      case 1
      have "2 ^ k < n" if "split_lists s M U" "(h, k) \<in> split_blocks M" for M h k
      proof -
        have "M j = []" if "j \<le> BUDDY_MAX_ORDER" "m \<le> j" for j
          using find_block_ok [OF \<open>split_lists s M U\<close>, of m] 1 that by auto
        then have "k < m" using that(2) by (force simp: split_blocks_def)
        then show ?thesis by (rule low)
      qed
      moreover have "split_alloc_pages n s = Some (None, s)" using 1 m(1) False assms(2) by (simp add: split_alloc_pages_def)
      ultimately show ?thesis by blast
    next
      case (2 h j t L')
      have "(2 :: nat) ^ m \<le> 2 ^ j" using 2(2) by simp
      then have nj: "n \<le> 2 ^ j" using m(2) by linarith
      have "extent (h, j) \<inter> (U - extent (h, j)) = {}" by blast
      from split_block_ok [OF 2(5) this 2(3) assms(2) nj] obtain u M where u: "split_block h j n t = Some (h, u)"
        "split_lists u M (U - extent (h, j) \<union> {h + n..<h + 2 ^ j})" "free_total u = free_total t" by blast
      have U: "U - extent (h, j) \<union> {h + n..<h + 2 ^ j} = U - {h..<h + n}" "{h..<h + n} \<subseteq> U" using 2(4) nj by auto
      have "card (U - {h..<h + n}) = card U - n" "n \<le> card U"
        using U(2) f(1) card_mono [OF f(1) U(2)] by (simp_all add: card_Diff_subset)
      then have "split_rep (u\<lparr>free_total := sub64 (free_total u) n\<rparr>) (U - {h..<h + n})"
        using u(2,3) 2(6) f U(1) by (auto simp: split_rep_def split_lists_def sub64_id)
      moreover have "split_alloc_pages n s = Some (Some h, u\<lparr>free_total := sub64 (free_total u) n\<rparr>)"
        using 2(1) u(1) m(1) False assms(2) by (simp add: split_alloc_pages_def)
      ultimately show ?thesis using U(2) by blast
    qed
  qed
qed

subsection \<open>A correct client brings the manager down\<close>

text \<open>
  \<open>seen s b H S L n\<close>: of the four pages from \<open>b\<close> on none is reserved and those of \<open>H\<close> are marked, as heads of
  blocks of the sizes \<open>S\<close>; no other page is marked; \<open>n\<close> pages are free, in the lists \<open>L\<close>.
\<close>

definition seen :: "split_buddy \<Rightarrow> nat \<Rightarrow> nat set \<Rightarrow> (nat \<Rightarrow> nat) \<Rightarrow> (nat \<Rightarrow> nat list) \<Rightarrow> nat \<Rightarrow> bool" where
  "seen s b H S L n \<longleftrightarrow> (\<forall>q. is_head q s \<longleftrightarrow> q \<in> H) \<and> (\<forall>q\<in>H. block_size q s = S q) \<and> (\<forall>q\<in>{b..<b + 4}. \<not> is_reserved q s) \<and>
     links_ok (zlinks s) L \<and> free_total s = n \<and> b + 4 \<le> znpage s"

lemma is_reserved_fields:
  "is_reserved q (upd_zlinks g s) = is_reserved q s" "is_reserved q (mark_head p s) = is_reserved q s"
  "is_reserved q (unmark_head p s) = is_reserved q s" "is_reserved q (set_block_size p n s) = is_reserved q s"
  by (auto simp: is_reserved_def upd_zlinks_def mark_head_def unmark_head_def set_block_size_def upd_desc_def PG_reserved_def PG_property_def bit_simps)

lemma free_total_fields:
  "free_total (upd_zlinks g s) = free_total s" "free_total (mark_head p s) = free_total s"
  "free_total (unmark_head p s) = free_total s" "free_total (set_block_size p n s) = free_total s"
  by (simp_all add: upd_zlinks_def mark_head_def unmark_head_def set_block_size_def upd_desc_def)

lemma seen_push:
  assumes "seen s b H S L n" "k \<le> BUDDY_MAX_ORDER" "\<forall>j\<le>BUDDY_MAX_ORDER. h \<notin> set (L j)"
  shows "\<exists>t. push_block h k s = Some t \<and> seen t b (insert h H) (S(h := 2 ^ k)) (L(k := h # L k)) n"
proof -
  have "(2 :: nat) ^ k \<le> 2 ^ 16" using assms(2) unfolding BUDDY_MAX_ORDER_def by (intro power_increasing) auto
  then have "u32 (2 ^ k) = 2 ^ k" by (intro u32_id) simp
  then show ?thesis using assms links_add [of "zlinks s" L k h]
    by (auto simp: seen_def push_block_def zone_fields is_reserved_fields free_total_fields order_pages)
qed

lemma seen_pop:
  assumes "seen s b H S L n" "k \<le> BUDDY_MAX_ORDER" "L k = h # hs"
  shows "\<exists>t. pop_block k s = Some (Some h, t) \<and> seen t b (H - {h}) S (L(k := hs)) n"
proof -
  have l: "dlist (zlinks s) (Order_list k) (map Block_link (L k))" using assms(1,2) by (simp add: seen_def links_ok_def)
  define t where "t = set_block_size h 0 (unmark_head h (upd_zlinks (list_del (Block_link h)) s))"
  have "pop_block k s = Some (Some h, t)"
    using list_empty_iff [OF l] list_next_dlist [of "zlinks s" "Order_list k" "[]" "map Block_link (L k)"] l assms(3)
    by (simp add: pop_block_def t_def Let_def)
  moreover have "seen t b (H - {h}) S (L(k := hs)) n" using assms links_del [of "zlinks s" L k h hs]
    by (auto simp: seen_def t_def zone_fields is_reserved_fields free_total_fields)
  ultimately show ?thesis by blast
qed

lemma seen_empty: "seen s b H S L n \<Longrightarrow> k \<le> BUDDY_MAX_ORDER \<Longrightarrow> list_empty (Order_list k) (zlinks s) \<longleftrightarrow> L k = []"
  using list_empty_iff [of "zlinks s" "Order_list k" "map Block_link (L k)"] by (simp add: seen_def links_ok_def)

lemma seen_mark: "seen s b H S L n \<Longrightarrow> v < 2 ^ 32 \<Longrightarrow> seen (mark_head p (set_block_size p v s)) b (insert p H) (S(p := v)) L n"
  by (auto simp: seen_def zone_fields is_reserved_fields free_total_fields)

lemma seen_link:
  "seen s b H S L n \<Longrightarrow> k \<le> BUDDY_MAX_ORDER \<Longrightarrow> \<forall>j\<le>BUDDY_MAX_ORDER. h \<notin> set (L j) \<Longrightarrow>
   seen (upd_zlinks (list_add (Order_list k) (Block_link h)) s) b H S (L(k := h # L k)) n"
  using links_add [of "zlinks s" L k h] by (auto simp: seen_def zone_fields is_reserved_fields free_total_fields)

lemma seen_unlink:
  "seen s b H S L n \<Longrightarrow> k \<le> BUDDY_MAX_ORDER \<Longrightarrow> L k = q # hs \<Longrightarrow>
   seen (unmark_head q (upd_zlinks (list_del (Block_link q)) s)) b (H - {q}) S (L(k := hs)) n"
  using links_del [of "zlinks s" L k q hs] by (auto simp: seen_def zone_fields is_reserved_fields free_total_fields)

lemma seen_total: "seen s b H S L n \<Longrightarrow> seen (s\<lparr>free_total := m\<rparr>) b H S L m"
  by (simp add: seen_def is_head_def block_size_def is_reserved_def)

lemma seen_ref: "seen s b H S L n \<Longrightarrow> seen (upd_desc p (\<lambda>d. d\<lparr>ref := 0\<rparr>) s) b H S L n"
  by (simp add: seen_def is_head_def block_size_def is_reserved_def upd_desc_def)

text \<open>Page numbers near \<open>b\<close>.\<close>

lemma page_pfn: "p + nbase < 2 ^ 52 \<Longrightarrow> turn_page_to_pfn p = p + nbase"
  by (simp add: turn_page_to_pfn_def page2pa_def page2ppn_def PGSHIFT_def push_bit_eq_mult drop_bit_eq_div u64_def)

lemma buddy_of_eq: "p + nbase < 2 ^ 52 \<Longrightarrow> buddy_of p k = (if bit (p + nbase) k then int p - 2 ^ k else int p + 2 ^ k)"
proof -
  assume p: "p + nbase < 2 ^ 52"
  have "2 ^ k \<le> p + nbase" if "bit (p + nbase) k"
    using that bit_mod [of "p + nbase" k] mod_less_eq_dividend [of "p + nbase" "2 ^ Suc k"] by linarith
  then show ?thesis by (simp add: buddy_of_def page_pfn [OF p] order_pages nat_bit_xor Let_def of_nat_diff)
qed

lemma near_bits:
  assumes "4 dvd b"
  shows "\<not> bit (b + nbase) 0" "\<not> bit (b + nbase) 1" "bit (b + 1 + nbase) 0" "(b + nbase) mod 2 = 0" "(b + nbase) mod 4 = 0"
    "(b + nbase) AND 1 = 0" "(b + nbase) AND 3 = 0"
proof -
  have d: "4 dvd b + nbase" using assms by (simp add: nbase_def PGSIZE_def)
  then show m: "(b + nbase) mod 4 = 0" by simp
  then show m2: "(b + nbase) mod 2 = 0" by (metis d dvd_eq_mod_eq_0 dvd_trans even_numeral)
  then show "\<not> bit (b + nbase) 0" by (simp add: bit_0 even_iff_mod_2_eq_zero)
  have "even (b + nbase)" using m2 by (simp only: even_iff_mod_2_eq_zero)
  then show "bit (b + 1 + nbase) 0" by (simp add: bit_0)
  show "\<not> bit (b + nbase) 1" using m by (simp add: bit_mod)
  have "x AND 1 = x mod 2" "x AND 3 = x mod 4" for x :: nat
    using take_bit_eq_mask [of 1 x] take_bit_eq_mask [of 2 x] by (simp_all add: take_bit_eq_mod mask_eq_exp_minus_1)
  then show "(b + nbase) AND 1 = 0" "(b + nbase) AND 3 = 0" using m m2 by simp_all
qed

lemma find_upper_small: "find_upper_number (Suc 0) = Some 0" "find_upper_number 2 = Some (Suc 0)"
  by (simp_all add: find_upper_number_def upper_loop.simps push_bit_eq_mult)

lemma aligned_one: "aligned_order 0 1 pfn = 0" by (simp add: aligned_order.simps order_pages)

text \<open>Allocating a page from one block of four, then another; and two pages.\<close>

lemma alloc_first:
  assumes S: "seen s b {b} T ((\<lambda>_. [])(2 := [b])) 4"
  shows "\<exists>t. split_alloc_pages 1 s = Some (Some b, t) \<and>
    seen t b {b + 1, b + 2} (T(b + 2 := 2, b + 1 := 1)) ((\<lambda>_. [])(1 := [b + 2], 0 := [b + 1])) 3"
proof -
  let ?L = "((\<lambda>_. [])(2 := [b])) :: nat \<Rightarrow> nat list"
  obtain u where u: "pop_block 2 s = Some (Some b, u)" "seen u b {} T (?L(2 := [])) 4"
    using seen_pop [OF S, of 2 b "[]"] by (auto simp: BUDDY_MAX_ORDER_def)
  have f: "find_block 0 s = Some (Some (b, 2), u)"
    using u(1) seen_empty [OF S, of 0] seen_empty [OF S, of 1] seen_empty [OF S, of 2]
    by (simp add: find_block.simps [of 0] find_block.simps [of "Suc 0"] find_block.simps [of 2] BUDDY_MAX_ORDER_def numeral_2_eq_2 [symmetric])
  obtain v where v: "push_block (b + 2) 1 u = Some v" "seen v b {b + 2} (T(b + 2 := 2 ^ 1)) ((?L(2 := []))(1 := [b + 2])) 4"
    using seen_push [OF u(2), of 1 "b + 2"] by (auto simp: BUDDY_MAX_ORDER_def)
  have "\<forall>j\<le>BUDDY_MAX_ORDER. b + 1 \<notin> set (((?L(2 := []))(1 := [b + 2])) j)" by auto
  then have "\<exists>w. push_block (b + 1) 0 v = Some w \<and>
    seen w b {b + 1, b + 2} (T(b + 2 := 2 ^ 1, b + 1 := 2 ^ 0)) ((?L(2 := []))(1 := [b + 2], 0 := [b + 1])) 4"
    using seen_push [OF v(2), of 0 "b + 1"] by simp
  then obtain w where w: "push_block (b + 1) 0 v = Some w"
    "seen w b {b + 1, b + 2} (T(b + 2 := 2 ^ 1, b + 1 := 2 ^ 0)) ((?L(2 := []))(1 := [b + 2], 0 := [b + 1])) 4" by blast
  have "split_block b 2 1 u = split_block b 1 1 v" by (subst split_block_step) (use v(1) in \<open>simp_all del: split_block.simps\<close>)
  also have "\<dots> = split_block b 0 1 w" by (subst split_block_step) (use w(1) in \<open>simp_all del: split_block.simps\<close>)
  finally have "split_block b 2 1 u = Some (b, w)" by (simp add: order_pages)
  moreover have "free_total s = 4" "free_total w = 4" using S w(2) by (simp_all add: seen_def)
  moreover have "((?L(2 := []))(1 := [b + 2], 0 := [b + 1])) = (\<lambda>_. [])(1 := [b + 2], 0 := [b + 1])" by auto
  ultimately show ?thesis
    using f seen_total [OF w(2), of 3] by (simp add: split_alloc_pages_def find_upper_small sub64_id)
qed

lemma alloc_second:
  assumes S: "seen s b {b + 1, b + 2} T ((\<lambda>_. [])(1 := [b + 2], 0 := [b + 1])) 3"
  shows "\<exists>t. split_alloc_pages 1 s = Some (Some (b + 1), t) \<and> seen t b {b + 2} T ((\<lambda>_. [])(1 := [b + 2])) 2"
proof -
  obtain u where u: "pop_block 0 s = Some (Some (b + 1), u)" "seen u b ({b + 1, b + 2} - {b + 1}) T ((\<lambda>_. [])(1 := [b + 2], 0 := [])) 3"
    using seen_pop [OF S, of 0 "b + 1" "[]"] by auto
  have "find_block 0 s = Some (Some (b + 1, 0), u)" using u(1) seen_empty [OF S, of 0] by (simp add: find_block.simps [of 0])
  moreover have "{b + 1, b + 2} - {b + 1} = {b + 2}" "(\<lambda>_. [])(1 := [b + 2], 0 := []) = (\<lambda>_. [])((1 :: nat) := [b + 2])" by (auto simp: fun_eq_iff)
  moreover have "free_total s = 3" "free_total u = 3" using S u(2) by (simp_all add: seen_def)
  ultimately show ?thesis
    using seen_total [OF u(2), of 2] by (simp add: split_alloc_pages_def find_upper_small order_pages sub64_id)
qed

lemma alloc_pair:
  assumes S: "seen s b {b, b + 1} T ((\<lambda>_. [])(2 := [b])) 4"
  shows "\<exists>t T' L. split_alloc_pages 2 s = Some (Some b, t) \<and> seen t b {b + 1, b + 2} T' L 2"
proof -
  let ?L = "((\<lambda>_. [])(2 := [b])) :: nat \<Rightarrow> nat list"
  obtain u where u: "pop_block 2 s = Some (Some b, u)" "seen u b ({b, b + 1} - {b}) T (?L(2 := [])) 4"
    using seen_pop [OF S, of 2 b "[]"] by (auto simp: BUDDY_MAX_ORDER_def)
  have f: "find_block 1 s = Some (Some (b, 2), u)"
    using u(1) seen_empty [OF S, of 0] seen_empty [OF S, of 1] seen_empty [OF S, of 2]
    by (simp add: find_block.simps [of 0] find_block.simps [of "Suc 0"] find_block.simps [of 2] BUDDY_MAX_ORDER_def numeral_2_eq_2 [symmetric])
  obtain v where v: "push_block (b + 2) 1 u = Some v"
    "seen v b (insert (b + 2) ({b, b + 1} - {b})) (T(b + 2 := 2 ^ 1)) ((?L(2 := []))(1 := [b + 2])) 4"
    using seen_push [OF u(2), of 1 "b + 2"] by (auto simp: BUDDY_MAX_ORDER_def)
  have "insert (b + 2) ({b, b + 1} - {b}) = {b + 1, b + 2}" by auto
  moreover have "split_block b 2 2 u = split_block b 1 2 v" by (subst split_block_step) (use v(1) in \<open>simp_all del: split_block.simps\<close>)
  then have "split_block b 2 2 u = Some (b, v)" by (simp add: split_block_step del: split_block.simps)
  moreover have "free_total s = 4" "free_total v = 4" using S v(2) by (simp_all add: seen_def)
  ultimately show ?thesis
    using f seen_total [OF v(2), of 2] by (auto simp: split_alloc_pages_def find_upper_small sub64_id)
qed

text \<open>Releasing the two pages, the lower one first: the mark of the upper one stays.\<close>

lemma merge_stops: "seen s b H S L n \<Longrightarrow> nat (buddy_of p k) \<notin> H \<Longrightarrow> merge_block p k v s = Some ((p, k), s)"
  by (subst merge_block.simps) (simp add: seen_def Let_def)

lemma merge_goes_on:
  assumes S: "seen s b H S L n" and k: "k < BUDDY_MAX_ORDER" and q: "buddy_of p k = int q" "q < znpage s" "q \<in> H" "S q = v" "L k = [q]"
    and c: "check_if_head_page (min p q) (push_bit 1 v)" "push_bit 1 v < 2 ^ 32"
  shows "\<exists>t. merge_block p k v s = merge_block (min p q) (k + 1) (push_bit 1 v) t \<and>
    seen t b (insert (min p q) (H - {q})) (S(min p q := push_bit 1 v)) (L(k := [])) n \<and> znpage t = znpage s"
proof -
  define u where "u = unmark_head q (upd_zlinks (list_del (Block_link q)) s)"
  define t where "t = mark_head (min p q) (set_block_size (min p q) (push_bit 1 v) u)"
  have "k \<le> BUDDY_MAX_ORDER" using k by simp
  from seen_unlink [OF S this q(5)] have u: "seen u b (H - {q}) S (L(k := [])) n" by (simp add: u_def)
  have "is_head q s" "block_size q s = v" using S q(3,4) by (auto simp: seen_def)
  then have "merge_block p k v s = merge_block (min p q) (k + 1) (push_bit 1 v) t"
    using k q(1,2) c(1) by (subst merge_block.simps) (auto simp: t_def u_def Let_def min_def)
  then show ?thesis using seen_mark [OF u c(2), of "min p q"] by (auto simp: t_def u_def zone_fields)
qed

lemma free_one:
  assumes S: "seen s b H S L n" and p: "p \<in> {b..<b + 4}" "p \<notin> H"
    and m: "free_one_block_and_merge p 0 (upd_desc p (\<lambda>d. d\<lparr>ref := 0\<rparr>) s) = Some t" "free_total t = n"
  shows "split_free_pages p 1 s = Some (t\<lparr>free_total := u64 (n + 1)\<rparr>)"
proof -
  have "\<not> is_reserved p s" "\<not> is_head p s" using S p by (auto simp: seen_def)
  then have "release_pages p 1 s = Some (upd_desc p (\<lambda>d. d\<lparr>ref := 0\<rparr>) s)" by simp
  moreover have "release_blocks p (turn_page_to_pfn p) 1 (upd_desc p (\<lambda>d. d\<lparr>ref := 0\<rparr>) s) = Some t"
    using m by (subst release_blocks.simps, subst release_blocks.simps) (simp add: aligned_one [simplified] order_pages)
  ultimately show ?thesis using m(2) by (simp add: split_free_pages_def)
qed

lemma free_lower:
  assumes S: "seen s b {b + 2} T ((\<lambda>_. [])(1 := [b + 2])) 2" and b: "4 dvd b" "b + 4 + nbase \<le> 2 ^ 52"
  shows "\<exists>t. split_free_pages b 1 s = Some t \<and> seen t b {b, b + 2} (T(b := 1)) ((\<lambda>_. [])(1 := [b + 2], 0 := [b])) 3 \<and> znpage t = znpage s"
proof -
  have pb: "b + nbase < 2 ^ 52" using b(2) by simp
  let ?r = "upd_desc b (\<lambda>d. d\<lparr>ref := 0\<rparr>) s" and ?L = "((\<lambda>_. [])(1 := [b + 2])) :: nat \<Rightarrow> nat list"
  define u where "u = mark_head b (set_block_size b 1 ?r)"
  have u: "seen u b {b, b + 2} (T(b := 1)) ?L 2" using seen_mark [OF seen_ref [OF S], of 1 b b] by (simp add: u_def)
  have "buddy_of b 0 = int (b + 1)" using near_bits(1) [OF b(1)] by (simp add: buddy_of_eq [OF pb])
  then have "nat (buddy_of b 0) \<notin> {b, b + 2}" by (simp only: nat_int) simp
  from merge_stops [OF u this] have m: "merge_block b 0 1 u = Some ((b, 0), u)" .
  define t where "t = upd_zlinks (list_add (Order_list 0) (Block_link b)) u"
  have "\<forall>j\<le>BUDDY_MAX_ORDER. b \<notin> set (?L j)" by auto
  with seen_link [OF u, of 0 b] have t: "seen t b {b, b + 2} (T(b := 1)) (?L(0 := [b])) 2" by (simp add: t_def)
  have "free_one_block_and_merge b 0 ?r = Some t" using m by (simp add: free_one_block_and_merge_def check_if_head_page_def order_pages u_def t_def)
  moreover have "free_total t = 2" using t by (simp add: seen_def)
  ultimately have "split_free_pages b 1 s = Some (t\<lparr>free_total := 3\<rparr>)" using free_one [OF S, of b t] by simp
  moreover have "znpage t = znpage s" by (simp add: t_def u_def zone_fields)
  ultimately show ?thesis using seen_total [OF t, of 3] by auto
qed

lemma free_upper:
  assumes S: "seen s b {b, b + 2} T ((\<lambda>_. [])(1 := [b + 2], 0 := [b])) 3" "T b = 1" "T (b + 2) = 2"
    and b: "4 dvd b" "b + 4 + nbase \<le> 2 ^ 52" "b + 4 \<le> znpage s"
  shows "\<exists>t T'. split_free_pages (b + 1) 1 s = Some t \<and> seen t b {b, b + 1} T' ((\<lambda>_. [])(2 := [b])) 4"
proof -
  have pb: "b + nbase < 2 ^ 52" "b + 1 + nbase < 2 ^ 52" using b(2) by simp_all
  note B = near_bits [OF b(1)]
  let ?r = "upd_desc (b + 1) (\<lambda>d. d\<lparr>ref := 0\<rparr>) s" and ?L = "((\<lambda>_. [])(1 := [b + 2], 0 := [b])) :: nat \<Rightarrow> nat list"
  define u where "u = mark_head (b + 1) (set_block_size (b + 1) 1 ?r)"
  have u: "seen u b (insert (b + 1) {b, b + 2}) (T(b + 1 := 1)) ?L 3" using seen_mark [OF seen_ref [OF S(1)], of 1 "b + 1" "b + 1"] by (simp add: u_def)
  have q: "buddy_of (b + 1) 0 = int b" "buddy_of b 1 = int (b + 2)"
    using B(2,3) by (simp_all only: buddy_of_eq [OF pb(1)] buddy_of_eq [OF pb(2)] if_True if_False simp_thms) simp_all
  have zu: "znpage u = znpage s" by (simp add: u_def zone_fields upd_desc_def)
  have "\<exists>v. merge_block (b + 1) 0 1 u = merge_block (min (b + 1) b) (0 + 1) (push_bit 1 1) v \<and>
    seen v b (insert (min (b + 1) b) (insert (b + 1) {b, b + 2} - {b})) ((T(b + 1 := 1))(min (b + 1) b := push_bit 1 1)) (?L(0 := [])) 3 \<and> znpage v = znpage u"
    by (rule merge_goes_on [OF u])
      (use B(4) b(3) S(2) q(1) in \<open>simp_all add: BUDDY_MAX_ORDER_def zu check_if_head_page_def page_pfn [OF pb(1)]\<close>)
  moreover have "insert (min (b + 1) b) (insert (b + 1) {b, b + 2} - {b}) = {b, b + 1, b + 2}" by auto
  ultimately obtain v where v: "merge_block (b + 1) 0 1 u = merge_block b 1 2 v"
    "seen v b {b, b + 1, b + 2} ((T(b + 1 := 1))(b := 2)) (?L(0 := [])) 3" "znpage v = znpage s" using zu by auto
  have "\<exists>w. merge_block b 1 2 v = merge_block (min b (b + 2)) (1 + 1) (push_bit 1 2) w \<and>
    seen w b (insert (min b (b + 2)) ({b, b + 1, b + 2} - {b + 2})) ((T(b + 1 := 1, b := 2))(min b (b + 2) := push_bit 1 2)) ((?L(0 := []))(1 := [])) 3 \<and>
    znpage w = znpage v"
    by (rule merge_goes_on [OF v(2)])
      (use B(5) b(3) S(3) q(2) in \<open>simp_all add: BUDDY_MAX_ORDER_def v(3) check_if_head_page_def page_pfn [OF pb(1)]\<close>)
  moreover have "insert (min b (b + 2)) ({b, b + 1, b + 2} - {b + 2}) = {b, b + 1}" by auto
  moreover have "(?L(0 := []))(1 := []) = (\<lambda>_. [])" by auto
  moreover have "min b (b + 2) = b" "(1 :: nat) + 1 = 2" "push_bit 1 (2 :: nat) = 4" by simp_all
  ultimately obtain w T' where w: "merge_block b 1 2 v = merge_block b 2 4 w" "seen w b {b, b + 1} T' (\<lambda>_. []) 3"
    by metis
  have "b \<noteq> 0" if "bit (b + nbase) 2" using that by (cases "b = 0") (auto simp: nbase_def PGSIZE_def bit_mod)
  then have "nat (buddy_of b 2) \<notin> {b, b + 1}" unfolding buddy_of_eq [OF pb(1)] by auto
  from merge_stops [OF w(2) this] have m: "merge_block (b + 1) 0 1 u = Some ((b, 2), w)" using v(1) w(1) by simp
  define t where "t = upd_zlinks (list_add (Order_list 2) (Block_link b)) w"
  have t: "seen t b {b, b + 1} T' ((\<lambda>_. [])(2 := [b])) 3" using seen_link [OF w(2), of 2 b] by (simp add: t_def BUDDY_MAX_ORDER_def)
  have "free_one_block_and_merge (b + 1) 0 ?r = Some t"
    using m by (simp add: free_one_block_and_merge_def check_if_head_page_def order_pages u_def t_def)
  moreover have "free_total t = 3" using t by (simp add: seen_def)
  ultimately have "split_free_pages (b + 1) 1 s = Some (t\<lparr>free_total := 4\<rparr>)" using free_one [OF S(1), of "b + 1" t] by simp
  then show ?thesis using seen_total [OF t, of 4] by blast
qed

lemma reset_pages_ok:
  "\<forall>q\<in>{p..<p + n}. is_reserved q s \<Longrightarrow>
   \<exists>t. reset_pages p n s = Some t \<and> zlinks t = zlinks s \<and> free_total t = free_total s \<and> znpage t = znpage s \<and>
     (\<forall>q. is_head q t \<longrightarrow> is_head q s) \<and> (\<forall>q\<in>{p..<p + n}. \<not> is_reserved q t) \<and>
     (\<forall>q. q \<notin> {p..<p + n} \<longrightarrow> is_reserved q t = is_reserved q s)"
proof (induction n arbitrary: p s)
  case (Suc n)
  define u where "u = upd_desc p (\<lambda>d. d\<lparr>flags := 0, property := 0, ref := 0\<rparr>) s"
  have r: "is_reserved q u \<longleftrightarrow> q \<noteq> p \<and> is_reserved q s" for q by (simp add: u_def is_reserved_def upd_desc_def)
  have "\<forall>q\<in>{p + 1..<p + 1 + n}. is_reserved q u" using Suc.prems r by auto
  from Suc.IH [OF this] obtain t where t: "reset_pages (p + 1) n u = Some t" "zlinks t = zlinks u" "free_total t = free_total u"
    "znpage t = znpage u" "\<forall>q. is_head q t \<longrightarrow> is_head q u" "\<forall>q\<in>{p + 1..<p + 1 + n}. \<not> is_reserved q t"
    "\<forall>q. q \<notin> {p + 1..<p + 1 + n} \<longrightarrow> is_reserved q t = is_reserved q u" by blast
  have "is_head q u \<Longrightarrow> is_head q s" for q by (auto simp: u_def is_head_def upd_desc_def split: if_splits)
  moreover have "zlinks u = zlinks s" "free_total u = free_total s" "znpage u = znpage s" by (simp_all add: u_def upd_desc_def)
  moreover have "reset_pages p (Suc n) s = Some t" using Suc.prems t(1) by (auto simp flip: u_def)
  moreover have "\<not> is_reserved q t" if "q \<in> {p..<p + Suc n}" for q using t(6,7) r that by (cases "q = p") auto
  ultimately show ?case using t r by auto
qed auto

lemma split_init_ok: "links_ok (zlinks (split_init s)) (\<lambda>_. [])" "znpage (split_init s) = znpage s" "zpages (split_init s) = zpages s"
proof -
  define t where "t ks = fold (\<lambda>ord. upd_zlinks (list_init (Order_list ord))) ks s" for ks
  have t: "(\<forall>i\<in>set ks. dlist (zlinks (t ks)) (Order_list i) []) \<and> znpage (t ks) = znpage s \<and> zpages (t ks) = zpages s" for ks
  proof (induction ks rule: rev_induct)
    case (snoc k ks)
    have z: "zlinks (t (ks @ [k])) = list_init (Order_list k) (zlinks (t ks))" "znpage (t (ks @ [k])) = znpage (t ks)"
      "zpages (t (ks @ [k])) = zpages (t ks)" by (simp_all add: t_def zone_fields)
    have "dlist (zlinks (t (ks @ [k]))) (Order_list i) []" if "i \<in> set (ks @ [k])" for i
    proof (cases "i = k")
      case True
      then show ?thesis unfolding z(1) by (simp add: list_init_dlist)
    next
      case False
      then have d: "dlist (zlinks (t ks)) (Order_list i) []" using snoc.IH that by auto
      show ?thesis unfolding z(1) by (rule dlist_frame [OF d]) (use False in \<open>simp add: list_init_frame\<close>)
    qed
    then show ?case using z(2,3) snoc.IH by simp
  qed (simp add: t_def)
  have "split_init s = (t [0..<BUDDY_MAX_ORDER + 1])\<lparr>free_total := 0\<rparr>" by (simp add: split_init_def t_def)
  then show "links_ok (zlinks (split_init s)) (\<lambda>_. [])" "znpage (split_init s) = znpage s" "zpages (split_init s) = zpages s"
    using t [of "[0..<BUDDY_MAX_ORDER + 1]"] by (auto simp: links_ok_def)
qed

lemma memmap_four:
  assumes "4 dvd b" "b + 4 + nbase \<le> 2 ^ 52" "b + 4 \<le> znpage s" "\<forall>p. \<not> is_head p s" "\<forall>p\<in>{b..<b + 4}. is_reserved p s"
  shows "\<exists>t T. split_init_memmap b 4 (split_init s) = Some t \<and> seen t b {b} T ((\<lambda>_. [])(2 := [b])) 4 \<and> znpage t = znpage s"
proof -
  have pb: "b + nbase < 2 ^ 52" using assms(2) by simp
  note B = near_bits [OF assms(1)]
  have "\<forall>p\<in>{b..<b + 4}. is_reserved p (split_init s)" using assms(5) split_init_ok(3) by (simp add: is_reserved_def)
  from reset_pages_ok [OF this] obtain u where u: "reset_pages b 4 (split_init s) = Some u" "zlinks u = zlinks (split_init s)"
    "free_total u = free_total (split_init s)" "znpage u = znpage (split_init s)" "\<forall>q. is_head q u \<longrightarrow> is_head q (split_init s)"
    "\<forall>q\<in>{b..<b + 4}. \<not> is_reserved q u" by blast
  have "\<not> is_head q u" for q using u(5) assms(4) split_init_ok(3) [of s] by (auto simp: is_head_def)
  then have S: "seen u b {} (\<lambda>_. 0) (\<lambda>_. []) 0"
    using u split_init_ok [of s] assms(3) by (simp add: seen_def split_init_def)
  obtain v where v: "push_block b 2 u = Some v" "seen v b {b} ((\<lambda>_. 0)(b := 2 ^ 2)) ((\<lambda>_. [])(2 := [b])) 0"
    using seen_push [OF S, of 2 b] by (auto simp: BUDDY_MAX_ORDER_def)
  have step: "aligned_order k 4 (b + nbase) = aligned_order (k + 1) 4 (b + nbase)"
    if "k + 1 \<le> 2" "(b + nbase) AND (2 ^ (k + 1) - 1) = 0" for k
  proof -
    have "(2 :: nat) ^ (k + 1) \<le> 2 ^ 2" using that(1) by (intro power_increasing) auto
    then show ?thesis using that by (subst aligned_order.simps) (simp add: BUDDY_MAX_ORDER_def order_pages)
  qed
  have "aligned_order 0 4 (b + nbase) = aligned_order 1 4 (b + nbase)" using step [of 0] B(6) by simp
  also have "\<dots> = aligned_order (1 + 1) 4 (b + nbase)" by (rule step) (use B(7) in simp_all)
  also have "\<dots> = 2" unfolding one_add_one by (subst aligned_order.simps) (simp add: order_pages)
  finally have a: "aligned_order 0 4 (b + nbase) = 2" .
  have "free_total v = 0" using v(2) by (simp add: seen_def)
  then have "carve_blocks b (turn_page_to_pfn b) 4 u = Some (v\<lparr>free_total := 4\<rparr>)"
    using v(1) by (subst carve_blocks.simps, subst carve_blocks.simps) (simp add: page_pfn [OF pb] a order_pages)
  then have "split_init_memmap b 4 (split_init s) = Some (v\<lparr>free_total := 4\<rparr>)" using u(1) by (simp add: split_init_memmap_def)
  moreover have "znpage v = znpage s" using v(1) u(4) split_init_ok(2) [of s]
    by (auto simp: push_block_def BUDDY_MAX_ORDER_def zone_fields)
  ultimately show ?thesis using seen_total [OF v(2), of 4] by auto
qed

abbreviation split_run :: "split_buddy \<Rightarrow> split_buddy \<Rightarrow> (nat \<times> nat) list \<Rightarrow> bool" where
  "split_run \<equiv> pmm_run split_alloc_pages split_free_pages (\<lambda>_ _. True)"

lemma split_run_take: "split_run s0 s held \<Longrightarrow> 0 < n \<Longrightarrow> split_alloc_pages n s = Some (Some p, t) \<Longrightarrow> split_run s0 t ((p, n) # held)"
  using run_alloc [where alloc = split_alloc_pages and r = "Some p"] by fastforce

lemma split_run_give: "split_run s0 s (as @ (p, n) # bs) \<Longrightarrow> split_free_pages p n s = Some t \<Longrightarrow> split_run s0 t (as @ bs)"
  by (rule run_free) simp_all

text \<open>
  C35: A client that only releases what it holds brings the splitting manager down. With four aligned pages: it takes two
  single pages, releases the lower and then the upper one, and takes two pages. The merge of the released pages has left the
  mark of a free block on the upper one, so releasing the two pages fails an assertion and the kernel panics.
\<close>

theorem split_release_panics:
  assumes "4 dvd b" "b + 4 + nbase \<le> 2 ^ 52" "b + 4 \<le> znpage s" "\<forall>p. \<not> is_head p s" "\<forall>p\<in>{b..<b + 4}. is_reserved p s"
  shows "\<exists>s0 t. split_init_memmap b 4 (split_init s) = Some s0 \<and>
    pmm_run split_alloc_pages split_free_pages (\<lambda>_ _. True) s0 t [(b, 2)] \<and> split_free_pages b 2 t = None"
proof -
  obtain s0 T where s0: "split_init_memmap b 4 (split_init s) = Some s0" "seen s0 b {b} T ((\<lambda>_. [])(2 := [b])) 4"
    using memmap_four [OF assms] by blast
  obtain s1 where s1: "split_alloc_pages 1 s0 = Some (Some b, s1)"
    "seen s1 b {b + 1, b + 2} (T(b + 2 := 2, b + 1 := 1)) ((\<lambda>_. [])(1 := [b + 2], 0 := [b + 1])) 3" using alloc_first [OF s0(2)] by blast
  let ?T = "T(b + 2 := 2, b + 1 := 1)"
  obtain s2 where s2: "split_alloc_pages 1 s1 = Some (Some (b + 1), s2)" "seen s2 b {b + 2} ?T ((\<lambda>_. [])(1 := [b + 2])) 2"
    using alloc_second [OF s1(2)] by blast
  obtain s3 where s3: "split_free_pages b 1 s2 = Some s3" "seen s3 b {b, b + 2} (?T(b := 1)) ((\<lambda>_. [])(1 := [b + 2], 0 := [b])) 3"
    using free_lower [OF s2(2) assms(1,2)] by blast
  have "b + 4 \<le> znpage s3" using s3(2) by (simp add: seen_def)
  then obtain s4 T' where s4: "split_free_pages (b + 1) 1 s3 = Some s4" "seen s4 b {b, b + 1} T' ((\<lambda>_. [])(2 := [b])) 4"
    using free_upper [OF s3(2) _ _ assms(1,2)] by auto
  obtain t T'' L where t: "split_alloc_pages 2 s4 = Some (Some b, t)" "seen t b {b + 1, b + 2} T'' L 2" using alloc_pair [OF s4(2)] by blast
  have "split_run s0 s1 [(b, 1)]" by (rule split_run_take [OF run_start _ s1(1)]) simp
  then have "split_run s0 s2 [(b + 1, 1), (b, 1)]" by (rule split_run_take [OF _ _ s2(1)]) simp
  then have "split_run s0 s3 [(b + 1, 1)]" using split_run_give [of s0 s2 "[(b + 1, 1)]" b 1 "[]" s3] s3(1) by simp
  then have "split_run s0 s4 []" using split_run_give [of s0 s3 "[]" "b + 1" 1 "[]" s4] s4(1) by simp
  then have "split_run s0 t [(b, 2)]" by (rule split_run_take [OF _ _ t(1)]) simp
  moreover have "is_head (b + 1) t" "\<not> is_head b t" using t(2) by (auto simp: seen_def)
  then have "split_free_pages b 2 t = None"
    by (simp add: split_free_pages_def numeral_2_eq_2 is_head_def upd_desc_def)
  ultimately show ?thesis using s0(1) by blast
qed

definition four_pages :: split_buddy where
  "four_pages = \<lparr>zpages = \<lambda>_. \<lparr>ref = 0, flags = set_bit PG_reserved 0, property = 0\<rparr>,
    zlinks = \<lparr>nxt = \<lambda>a. a, prv = \<lambda>a. a\<rparr>, znpage = nbase + 512, free_total = 0\<rparr>"

lemma four_pages_ok: "\<forall>p. \<not> is_head p four_pages" "\<forall>p\<in>{8..<8 + 4}. is_reserved p four_pages"
  "8 + 4 + nbase \<le> 2 ^ 52" "8 + 4 \<le> znpage four_pages"
  by (simp_all add: four_pages_def is_head_def is_reserved_def PG_property_def PG_reserved_def bit_simps nbase_def PGSIZE_def)

theorem split_release_panics_witness:
  "\<exists>s0 t. split_init_memmap 8 4 (split_init four_pages) = Some s0 \<and>
     pmm_run split_alloc_pages split_free_pages (\<lambda>_ _. True) s0 t [(8, 2)] \<and> split_free_pages 8 2 t = None"
  by (rule split_release_panics) (use four_pages_ok in simp_all)

theorem split_alloc_exact_witness:
  "\<exists>s0 p t. split_init_memmap 8 4 (split_init four_pages) = Some s0 \<and> split_alloc_pages 3 s0 = Some (Some p, t) \<and>
     {p..<p + 3} \<subseteq> {8..<12} \<and> split_rep t ({8..<12} - {p..<p + 3})"
proof -
  have "4 dvd (8 :: nat)" by simp
  from memmap_four [OF this four_pages_ok(3,4,1,2)] obtain s0 T where s0: "split_init_memmap 8 4 (split_init four_pages) = Some s0"
    "seen s0 8 {8} T ((\<lambda>_. [])(2 := [8])) 4" by blast
  have b: "split_blocks ((\<lambda>_. [])(2 := [8])) = {(8, 2)}" by (auto simp: split_blocks_def BUDDY_MAX_ORDER_def split: if_splits)
  have "split_lists s0 ((\<lambda>_. [])(2 := [8])) {8..<12}" using s0(2) by (simp add: split_lists_def b tiles_def seen_def)
  then have L: "split_lists s0 ((\<lambda>_. [])(2 := [8])) {8..<12}" "split_rep s0 {8..<12}"
    using s0(2) by (auto simp: split_rep_def seen_def)
  have "(0 :: nat) < 3" by simp
  from split_alloc_exact [OF L(2) this] s0 L(1) b show ?thesis
    by (auto simp: seen_def split_nr_free_pages_def)
qed

end
