(* ===== verification/Slub.thy ===== *)
theory Slub
  imports Buddy_Proofs
begin

unbundle bit_operations_syntax

section \<open>The SLUB heap of lab 2 (src/lab2_Dou/kern/mm/slub.c)\<close>

text \<open>
  Objects of nine sizes in pages with a header, on the buddy manager. The header of the page at kernel address \<open>a\<close> is
  \<open>slabs s a\<close>, its list entry \<open>Slab_link a\<close>, the word \<open>next\<close> of the free object at \<open>o\<close> is \<open>onext s o\<close>; a page that
  is not a slab has a header too, which is whatever its owner wrote. Addresses are those of the code, with
  \<open>va_pa_offset\<close>. The messages and the functions that print or test the state are left out.
\<close>

record slab_page =
  sp_free :: "nat option"
  obj_size :: nat
  sp_nr_free :: nat
  capacity :: nat

record slab_cache =
  cache_size :: nat
  global_free :: "nat option"
  nr_pages :: nat  \<comment> \<open>\<open>unsigned int\<close>\<close>

datatype slub_le = Cache_pages nat | Slab_link nat

record slub =
  bzone :: buddy
  slabs :: "nat \<Rightarrow> slab_page"
  slinks :: "slub_le links"
  onext :: "nat \<Rightarrow> nat option"
  caches :: "nat \<Rightarrow> slab_cache"

definition MAX_BUCKET :: nat where "MAX_BUCKET = 9"
definition bucket_size :: "nat list" where "bucket_size = [8, 16, 32, 64, 128, 256, 512, 1024, 2048]"

definition SIZEOF_SLAB_PAGE :: nat where "SIZEOF_SLAB_PAGE = 48"
definition SIZEOF_POINTER :: nat where "SIZEOF_POINTER = 8"

definition upd_slab :: "nat \<Rightarrow> (slab_page \<Rightarrow> slab_page) \<Rightarrow> slub \<Rightarrow> slub" where
  "upd_slab a f s = s\<lparr>slabs := (slabs s)(a := f (slabs s a))\<rparr>"

definition upd_cache :: "nat \<Rightarrow> (slab_cache \<Rightarrow> slab_cache) \<Rightarrow> slub \<Rightarrow> slub" where
  "upd_cache b f s = s\<lparr>caches := (caches s)(b := f (caches s b))\<rparr>"

definition upd_slinks :: "(slub_le links \<Rightarrow> slub_le links) \<Rightarrow> slub \<Rightarrow> slub" where
  "upd_slinks f s = s\<lparr>slinks := f (slinks s)\<rparr>"

definition set_onext :: "nat \<Rightarrow> nat option \<Rightarrow> slub \<Rightarrow> slub" where
  "set_onext ob v s = s\<lparr>onext := (onext s)(ob := v)\<rparr>"

definition slub_alloc_pages :: "nat \<Rightarrow> slub \<Rightarrow> (nat option \<times> slub) kresult" where
  "slub_alloc_pages n s = do { (p, z) \<leftarrow> buddy_alloc_pages n (bzone s); Some (p, s\<lparr>bzone := z\<rparr>) }"

definition slub_free_pages :: "nat \<Rightarrow> nat \<Rightarrow> slub \<Rightarrow> slub kresult" where
  "slub_free_pages p n s = do { z \<leftarrow> buddy_free_pages p n (bzone s); Some (s\<lparr>bzone := z\<rparr>) }"

text \<open>\<open>(void *)page2pa(p) + va_pa_offset\<close>.\<close>

definition page_va :: "nat \<Rightarrow> nat" where "page_va p = u64 (page2pa p + PHYSICAL_MEMORY_OFFSET)"

fun size_to_bucket_from :: "nat list \<Rightarrow> nat \<Rightarrow> nat \<Rightarrow> nat option" where
  "size_to_bucket_from [] i size' = None"
| "size_to_bucket_from (b # bs) i size' = (if size' \<le> b then Some i else size_to_bucket_from bs (i + 1) size')"

text \<open>\<open>None\<close> is the result -1.\<close>

definition size_to_bucket :: "nat \<Rightarrow> nat option" where
  "size_to_bucket size' = size_to_bucket_from bucket_size 0 size'"

partial_function (option) slab_fill :: "nat \<Rightarrow> nat \<Rightarrow> nat \<Rightarrow> nat \<Rightarrow> slub \<Rightarrow> slub kresult" where
  "slab_fill sp cur end' stride s =
     (if u64 (cur + stride) \<le> end'
      then let s = set_onext cur (sp_free (slabs s sp)) s;
               s = upd_slab sp (\<lambda>d. d\<lparr>sp_free := Some cur\<rparr>) s;
               s = upd_slab sp (\<lambda>d. d\<lparr>sp_nr_free := u64 (sp_nr_free d + 1)\<rparr>) s
           in slab_fill sp (u64 (cur + stride)) end' stride s
      else Some s)"

definition slab_page_init :: "nat \<Rightarrow> nat \<Rightarrow> slub \<Rightarrow> slub kresult" where
  "slab_page_init page size' s = do {
     let s = upd_slab page (\<lambda>d. d\<lparr>sp_free := None, obj_size := size', sp_nr_free := 0\<rparr>) s;
     let s = upd_slinks (list_init (Slab_link page)) s;
     let base = u64 (page + SIZEOF_SLAB_PAGE);
     let end' = u64 (page + PGSIZE);
     let stride = u64 (size' + SIZEOF_POINTER - 1) div SIZEOF_POINTER * SIZEOF_POINTER;
     s \<leftarrow> slab_fill page base end' stride s;
     Some (upd_slab page (\<lambda>d. d\<lparr>capacity := sp_nr_free d\<rparr>) s)
   }"

definition slub_init :: "slub \<Rightarrow> slub" where
  "slub_init s = fold (\<lambda>i s. let s = upd_cache i (\<lambda>c. c\<lparr>cache_size := bucket_size ! i\<rparr>) s;
       s = upd_slinks (list_init (Cache_pages i)) s
     in upd_cache i (\<lambda>c. c\<lparr>global_free := None, nr_pages := 0\<rparr>) s) [0..<MAX_BUCKET] s"

text \<open>The search for a page with a free object, from the entry \<open>le\<close> on.\<close>

partial_function (option) find_slab :: "slub_le \<Rightarrow> nat \<Rightarrow> slub \<Rightarrow> nat option kresult" where
  "find_slab le b s =
     (let le = list_next le (slinks s) in
      if le = Cache_pages b then Some None
      else case le of
        Cache_pages _ \<Rightarrow> None
      | Slab_link sp \<Rightarrow> if sp_free (slabs s sp) \<noteq> None then Some (Some sp) else find_slab le b s)"

definition take_object :: "nat \<Rightarrow> slub \<Rightarrow> (nat option \<times> slub) kresult" where
  "take_object sp s =
     (case sp_free (slabs s sp) of
        None \<Rightarrow> Some (None, s)
      | Some ob \<Rightarrow>
          let s = upd_slab sp (\<lambda>d. d\<lparr>sp_free := onext s ob\<rparr>) s
          in Some (Some ob, upd_slab sp (\<lambda>d. d\<lparr>sp_nr_free := sub64 (sp_nr_free d) 1\<rparr>) s))"

definition slub_kmalloc :: "nat \<Rightarrow> slub \<Rightarrow> (nat option \<times> slub) kresult" where
  "slub_kmalloc size' s =
     (if size' = 0 then Some (None, s)
      else case size_to_bucket size' of
        None \<Rightarrow> do {
          let np = u64 (size' + PGSIZE - 1) div PGSIZE;
          (p, s) \<leftarrow> slub_alloc_pages np s;
          Some (map_option page_va p, s)
        }
      | Some b \<Rightarrow> do {
          found \<leftarrow> find_slab (Cache_pages b) b s;
          (case found of
             Some sp \<Rightarrow> take_object sp s
           | None \<Rightarrow> do {
               (p, s) \<leftarrow> slub_alloc_pages 1 s;
               (case p of
                  None \<Rightarrow> Some (None, s)
                | Some p \<Rightarrow> do {
                    let pagev = page_va p;
                    s \<leftarrow> slab_page_init pagev (cache_size (caches s b)) s;
                    let s = upd_slinks (list_add (Cache_pages b) (Slab_link pagev)) s;
                    let s = upd_cache b (\<lambda>c. c\<lparr>nr_pages := u32 (nr_pages c + 1)\<rparr>) s;
                    take_object pagev s
                  })
             })
        })"

text \<open>The walk that looks for a double free.\<close>

partial_function (option) on_free_list :: "nat option \<Rightarrow> nat \<Rightarrow> slub \<Rightarrow> bool kresult" where
  "on_free_list it ptr s =
     (case it of
        None \<Rightarrow> Some False
      | Some ob \<Rightarrow> if ob = ptr then Some True else on_free_list (onext s ob) ptr s)"

fun drop_page_count :: "nat list \<Rightarrow> nat \<Rightarrow> slub \<Rightarrow> slub" where
  "drop_page_count [] size' s = s"
| "drop_page_count (i # is') size' s =
     (if cache_size (caches s i) = size'
      then if nr_pages (caches s i) > 0 then upd_cache i (\<lambda>c. c\<lparr>nr_pages := sub32 (nr_pages c) 1\<rparr>) s else s
      else drop_page_count is' size' s)"

definition slub_kfree :: "nat option \<Rightarrow> slub \<Rightarrow> slub kresult" where
  "slub_kfree ptr s = (case ptr of
     None \<Rightarrow> Some s
   | Some v \<Rightarrow>
       if v < PHYSICAL_MEMORY_OFFSET then Some s
       else do {
         let pa = v - PHYSICAL_MEMORY_OFFSET;
         p \<leftarrow> zone_pa2page pa (bzone s);
         let sp = page_va p;
         (if obj_size (slabs s sp) = 0 then Some s
          else
            let obj_start = u64 (sp + SIZEOF_SLAB_PAGE); obj_end = u64 (sp + PGSIZE) in
            if v < obj_start \<or> v \<ge> obj_end then Some s
            else do {
              twice \<leftarrow> on_free_list (sp_free (slabs s sp)) v s;
              (if twice then Some s
               else do {
                 let s = set_onext v (sp_free (slabs s sp)) s;
                 let s = upd_slab sp (\<lambda>d. d\<lparr>sp_free := Some v\<rparr>) s;
                 let s = upd_slab sp (\<lambda>d. d\<lparr>sp_nr_free := u64 (sp_nr_free d + 1)\<rparr>) s;
                 (if sp_nr_free (slabs s sp) \<ge> capacity (slabs s sp)
                  then do {
                    let s = upd_slinks (list_del (Slab_link sp)) s;
                    let s = drop_page_count [0..<MAX_BUCKET] (obj_size (slabs s sp)) s;
                    let s = upd_slab sp (\<lambda>d. d\<lparr>sp_free := None, obj_size := 0, sp_nr_free := 0, capacity := 0\<rparr>) s;
                    slub_free_pages p 1 s
                  }
                  else Some s)
               })
            })
       })"

end
