(* ===== verification/Slub_Proofs.thy ===== *)
theory Slub_Proofs
  imports Slub Kernel_Heap
begin

unbundle bit_operations_syntax

section \<open>The SLUB heap keeps its objects apart\<close>

subsection \<open>Pages and objects\<close>

abbreviation bsz :: "nat \<Rightarrow> nat" where "bsz b \<equiv> bucket_size ! b"

lemma MAX_BUCKET_9 [simp]: "MAX_BUCKET = 9" by (simp add: MAX_BUCKET_def)

lemma bucket_cases: "b < 9 \<Longrightarrow> b = 0 \<or> b = 1 \<or> b = 2 \<or> b = 3 \<or> b = 4 \<or> b = 5 \<or> b = 6 \<or> b = 7 \<or> b = (8 :: nat)"
  by linarith

lemma bsz_facts: assumes "b < 9" shows "8 \<le> bsz b" "bsz b \<le> 2048" "(bsz b + 7) div 8 * 8 = bsz b"
  using bucket_cases [OF assms] by (auto simp: bucket_size_def)

lemma size_to_bucket_spec:
  "size_to_bucket n = Some b \<Longrightarrow> b < 9 \<and> n \<le> bsz b" "n \<le> 2048 \<Longrightarrow> \<exists>b. size_to_bucket n = Some b"
  by (auto simp: size_to_bucket_def bucket_size_def split: if_splits)

definition slots :: "nat \<Rightarrow> nat \<Rightarrow> nat set" where
  "slots a b = (\<lambda>i. a + 48 + i * bsz b) ` {..<4048 div bsz b}"

fun ochain :: "(nat \<Rightarrow> nat option) \<Rightarrow> nat option \<Rightarrow> nat list \<Rightarrow> bool" where
  "ochain f it [] \<longleftrightarrow> it = None"
| "ochain f it (x # xs) \<longleftrightarrow> it = Some x \<and> ochain f (f x) xs"

lemma ochain_cong: "(\<And>x. x \<in> set xs \<Longrightarrow> g x = f x) \<Longrightarrow> ochain g it xs = ochain f it xs"
  by (induction xs arbitrary: it) auto

definition slab_rep :: "slub \<Rightarrow> nat \<Rightarrow> nat \<Rightarrow> nat list \<Rightarrow> bool" where
  "slab_rep s a b fs \<longleftrightarrow> obj_size (slabs s a) = bsz b \<and> capacity (slabs s a) = 4048 div bsz b \<and> sp_nr_free (slabs s a) = length fs \<and>
     ochain (onext s) (sp_free (slabs s a)) fs \<and> distinct fs \<and> set fs \<subseteq> slots a b"

definition slub_inv :: "slub \<Rightarrow> (nat \<Rightarrow> nat list) \<Rightarrow> (nat \<Rightarrow> nat list) \<Rightarrow> (nat \<times> nat) set \<Rightarrow> bool" where
  "slub_inv s P fl A \<longleftrightarrow> (\<exists>U L. buddy_inv (bzone s) U L A {}) \<and> znpage (bzone s) < 0xC0000 \<and>
     (\<forall>b<9. cache_size (caches s b) = bsz b \<and> dlist (slinks s) (Cache_pages b) (map Slab_link (P b)) \<and>
        (\<forall>a\<in>set (P b). (\<exists>p. a = page_va p \<and> (p, 0) \<in> A) \<and> slab_rep s a b (fl a))) \<and>
     (\<forall>b<9. \<forall>c<9. b \<noteq> c \<longrightarrow> set (P b) \<inter> set (P c) = {})"

definition slub_ok :: "slub \<Rightarrow> (nat \<times> nat) list \<Rightarrow> bool" where
  "slub_ok s held \<longleftrightarrow> (\<exists>P fl A. slub_inv s P fl A \<and> distinct (map fst held) \<and>
     (\<forall>(x, n)\<in>set held. 0 < n \<and> (\<exists>b a. size_to_bucket n = Some b \<and> a \<in> set (P b) \<and> x \<in> slots a b \<and> x \<notin> set (fl a))))"

lemma slub_invD:
  assumes "slub_inv s P fl A" "b < 9"
  shows "cache_size (caches s b) = bsz b" "dlist (slinks s) (Cache_pages b) (map Slab_link (P b))"
    "a \<in> set (P b) \<Longrightarrow> \<exists>p. a = page_va p \<and> (p, 0) \<in> A" "a \<in> set (P b) \<Longrightarrow> slab_rep s a b (fl a)" "distinct (P b)"
  using assms dlist_distinct [of "slinks s" "Cache_pages b" "map Slab_link (P b)"] by (auto simp: slub_inv_def distinct_map)

text \<open>The kernel address of a page that the buddy manager hands out.\<close>

lemma page_va_eq:
  assumes "p + nbase < n" "n < 0xC0000"
  shows "page_va p = (p + nbase) * 4096 + PHYSICAL_MEMORY_OFFSET" "page_va p + 8192 \<le> 2 ^ 64"
proof -
  have b: "p + nbase + 2 \<le> 0xC0000" using assms by linarith
  have m: "page2pa p = (p + nbase) * 4096" using b by (simp add: page2pa_def page2ppn_def PGSHIFT_def push_bit_eq_mult u64_def)
  have "(p + nbase + 2) * 4096 + PHYSICAL_MEMORY_OFFSET \<le> 0xC0000 * 4096 + PHYSICAL_MEMORY_OFFSET" using b by (intro add_right_mono mult_le_mono1)
  also have "\<dots> = 2 ^ 64" by (simp add: PHYSICAL_MEMORY_OFFSET_def)
  finally have l: "(p + nbase) * 4096 + 8192 + PHYSICAL_MEMORY_OFFSET \<le> 2 ^ 64" by (simp add: algebra_simps)
  then have "(p + nbase) * 4096 + PHYSICAL_MEMORY_OFFSET < 2 ^ 64" by simp
  then show v: "page_va p = (p + nbase) * 4096 + PHYSICAL_MEMORY_OFFSET" unfolding page_va_def m by (rule u64_id)
  show "page_va p + 8192 \<le> 2 ^ 64" unfolding v using l by simp
qed

lemma page_va_apart:
  assumes "p + nbase < n" "q + nbase < n" "n < 0xC0000" "p \<noteq> q"
  shows "page_va p + 4096 \<le> page_va q \<or> page_va q + 4096 \<le> page_va p"
  using assms(4) page_va_eq(1) [OF assms(1,3)] page_va_eq(1) [OF assms(2,3)] by (cases p q rule: linorder_cases) auto

lemma held_page: "buddy_inv z U L A E \<Longrightarrow> (p, 0) \<in> A \<Longrightarrow> p + nbase < znpage z"
  using inv_page [of z U L p 0 A E] by (simp add: insert_absorb)

lemma slab_address:
  assumes "slub_inv s P fl A" "(p, 0) \<in> A"
  shows "page_va p = (p + nbase) * 4096 + PHYSICAL_MEMORY_OFFSET" "page_va p + 8192 \<le> 2 ^ 64" "p + nbase < znpage (bzone s)"
proof -
  obtain U L where I: "buddy_inv (bzone s) U L A {}" "znpage (bzone s) < 0xC0000" using assms(1) by (auto simp: slub_inv_def)
  show n: "p + nbase < znpage (bzone s)" by (rule held_page [OF I(1) assms(2)])
  show "page_va p = (p + nbase) * 4096 + PHYSICAL_MEMORY_OFFSET" "page_va p + 8192 \<le> 2 ^ 64" by (fact page_va_eq [OF n I(2)])+
qed

lemma slab_apart:
  assumes "slub_inv s P fl A" "b < 9" "c < 9" "a \<in> set (P b)" "a' \<in> set (P c)" "a \<noteq> a'"
  shows "a + 4096 \<le> a' \<or> a' + 4096 \<le> a"
proof -
  obtain p q where "a = page_va p" "(p, 0) \<in> A" "a' = page_va q" "(q, 0) \<in> A"
    using slub_invD(3) [OF assms(1,2,4)] slub_invD(3) [OF assms(1,3,5)] by blast
  moreover have "znpage (bzone s) < 0xC0000" using assms(1) by (simp add: slub_inv_def)
  ultimately show ?thesis using page_va_apart [of p "znpage (bzone s)" q] slab_address(3) [OF assms(1)] assms(6) by metis
qed

lemma slots_facts:
  assumes "b < 9" "x \<in> slots a b"
  shows "a + 48 \<le> x" "x + bsz b \<le> a + 4096" "x < a + 4096"
proof -
  obtain i where i: "x = a + 48 + i * bsz b" "i < 4048 div bsz b" using assms(2) by (auto simp: slots_def)
  have "(i + 1) * bsz b \<le> 4048" using i(2) bsz_facts(1) [OF assms(1)] by (simp add: less_eq_div_iff_mult_less_eq Suc_le_eq [symmetric])
  then show "x + bsz b \<le> a + 4096" using i(1) by simp
  then show "x < a + 4096" using bsz_facts(1) [OF assms(1)] by simp
  show "a + 48 \<le> x" using i(1) by simp
qed

lemma slots_apart: "x \<in> slots a b \<Longrightarrow> y \<in> slots a b \<Longrightarrow> x < y \<Longrightarrow> x + bsz b \<le> y"
proof -
  assume "x \<in> slots a b" "y \<in> slots a b" "x < y"
  then obtain i j where x: "x = a + 48 + i * bsz b" "y = a + 48 + j * bsz b" "x < y" by (auto simp: slots_def)
  then have "i * bsz b < j * bsz b" by simp
  then have "i < j" by (simp add: mult_less_cancel2)
  then have "(i + 1) * bsz b \<le> j * bsz b" by (intro mult_le_mono1) simp
  then show ?thesis using x by (simp add: algebra_simps)
qed

lemma slots_card: assumes "b < 9" shows "finite (slots a b)" "card (slots a b) = 4048 div bsz b" "0 < 4048 div bsz b"
proof -
  have p: "0 < bsz b" "bsz b \<le> 4048" using bsz_facts [OF assms] by auto
  have "inj_on (\<lambda>i. a + 48 + i * bsz b) {..<4048 div bsz b}" using p(1) by (auto simp: inj_on_def)
  then show "card (slots a b) = 4048 div bsz b" by (simp add: slots_def card_image)
  show "finite (slots a b)" by (simp add: slots_def)
  show "0 < 4048 div bsz b" using p by (simp add: div_greater_zero_iff)
qed

lemma held_small: assumes "size_to_bucket n = Some b" "0 < n" shows "b < 9" "n \<le> bsz b"
  using size_to_bucket_spec(1) [OF assms(1)] by auto

text \<open>Objects in use do not overlap.\<close>

lemma slub_disjoint: "slub_ok s held \<Longrightarrow> held_disjoint held"
proof -
  assume "slub_ok s held"
  then obtain P fl A where I: "slub_inv s P fl A" "distinct (map fst held)"
    "\<forall>(x, n)\<in>set held. 0 < n \<and> (\<exists>b a. size_to_bucket n = Some b \<and> a \<in> set (P b) \<and> x \<in> slots a b \<and> x \<notin> set (fl a))"
    by (auto simp: slub_ok_def)
  have d: "{x..<x + n} \<inter> {y..<y + m} = {}" if xy: "(x, n) \<in> set held" "(y, m) \<in> set held" "x \<noteq> y" for x n y m
  proof -
    have in_slab: "\<exists>b a. size_to_bucket n = Some b \<and> a \<in> set (P b) \<and> x \<in> slots a b" if "(x, n) \<in> set held" for x n
      using bspec [OF I(3) that] by auto
    obtain b a where "size_to_bucket n = Some b" "a \<in> set (P b)" "x \<in> slots a b" using in_slab [OF xy(1)] by blast
    moreover obtain c a' where "size_to_bucket m = Some c" "a' \<in> set (P c)" "y \<in> slots a' c" using in_slab [OF xy(2)] by blast
    ultimately have h: "size_to_bucket n = Some b" "a \<in> set (P b)" "x \<in> slots a b" "size_to_bucket m = Some c" "a' \<in> set (P c)" "y \<in> slots a' c" by simp_all
    have b: "b < 9" "n \<le> bsz b" "c < 9" "m \<le> bsz c" using size_to_bucket_spec(1) h(1,4) by auto
    note X = slots_facts [OF b(1) h(3)] and Y = slots_facts [OF b(3) h(6)]
    have "x + n \<le> y \<or> y + m \<le> x"
    proof (cases "a = a'")
      case True
      have "b = c"
      proof (rule ccontr)
        assume "b \<noteq> c"
        then have "set (P b) \<inter> set (P c) = {}" using I(1) b(1,3) by (auto simp: slub_inv_def)
        then show False using h(2,5) True by blast
      qed
      then have "x + bsz b \<le> y \<or> y + bsz c \<le> x" using slots_apart [of x a b y] slots_apart [of y a b x] h(3,6) True xy(3) by (cases "x < y") auto
      then show ?thesis using b by linarith
    next
      case False
      then have "a + 4096 \<le> a' \<or> a' + 4096 \<le> a" by (rule slab_apart [OF I(1) b(1,3) h(2,5)])
      then show ?thesis using X Y b by linarith
    qed
    then show ?thesis by auto
  qed
  have "held_disjoint hs" if "set hs \<subseteq> set held" "distinct (map fst hs)" for hs
    using that
  proof (induction hs)
    case (Cons h hs)
    obtain x n where h: "h = (x, n)" by (cases h)
    have "block h \<inter> block k = {}" if k: "k \<in> set hs" for k
    proof -
      obtain y m where y: "k = (y, m)" by (cases k)
      then have "x \<noteq> y" using Cons.prems(2) k h by force
      then show ?thesis using d [of x n y m] Cons.prems(1) k h y by (auto simp: block_def)
    qed
    then have "block h \<inter> held_set hs = {}" by (auto simp: held_set_def)
    moreover have "0 < n" using I(3) Cons.prems(1) h by fastforce
    ultimately show ?case using Cons h by auto
  qed simp
  then show "held_disjoint held" using I(2) by blast
qed

subsection \<open>Steps inside one page\<close>

lemma slub_fields:
  "bzone (upd_slab a f s) = bzone s" "caches (upd_slab a f s) = caches s" "slinks (upd_slab a f s) = slinks s" "onext (upd_slab a f s) = onext s"
  "slabs (upd_slab a f s) = (slabs s)(a := f (slabs s a))"
  "bzone (set_onext x v s) = bzone s" "caches (set_onext x v s) = caches s" "slinks (set_onext x v s) = slinks s"
  "onext (set_onext x v s) = (onext s)(x := v)" "slabs (set_onext x v s) = slabs s"
  "bzone (upd_slinks g s) = bzone s" "caches (upd_slinks g s) = caches s" "slinks (upd_slinks g s) = g (slinks s)"
  "onext (upd_slinks g s) = onext s" "slabs (upd_slinks g s) = slabs s"
  "bzone (upd_cache b h s) = bzone s" "caches (upd_cache b h s) = (caches s)(b := h (caches s b))" "slinks (upd_cache b h s) = slinks s"
  "onext (upd_cache b h s) = onext s" "slabs (upd_cache b h s) = slabs s"
  by (simp_all add: upd_slab_def set_onext_def upd_slinks_def upd_cache_def)

definition page_change :: "slub \<Rightarrow> slub \<Rightarrow> nat \<Rightarrow> bool" where
  "page_change s t a \<longleftrightarrow> bzone t = bzone s \<and> caches t = caches s \<and> slinks t = slinks s \<and>
     (\<forall>a'. a' \<noteq> a \<longrightarrow> slabs t a' = slabs s a') \<and> (\<forall>x. x \<notin> {a..<a + 4096} \<longrightarrow> onext t x = onext s x)"

lemma page_change_trans: "page_change s t a \<Longrightarrow> page_change t u a \<Longrightarrow> page_change s u a"
  by (simp add: page_change_def)

lemma slab_rep_frame:
  assumes "slab_rep s a b fs" "b < 9" "slabs t a = slabs s a" "\<forall>x\<in>slots a b. onext t x = onext s x"
  shows "slab_rep t a b fs"
  using assms ochain_cong [of fs "onext t" "onext s"] by (auto simp: slab_rep_def)

lemma slub_inv_page:
  assumes I: "slub_inv s P fl A" and b: "b < 9" "a \<in> set (P b)" and t: "page_change s t a" "slab_rep t a b fs"
  shows "slub_inv t P (fl(a := fs)) A"
proof -
  have "slab_rep t a' c ((fl(a := fs)) a')" if c: "c < 9" "a' \<in> set (P c)" for a' c
  proof (cases "a' = a")
    case True
    have "c = b"
    proof (rule ccontr)
      assume "c \<noteq> b"
      then have "set (P c) \<inter> set (P b) = {}" using I b(1) c(1) by (auto simp: slub_inv_def)
      then show False using b(2) c(2) True by blast
    qed
    then show ?thesis using True t(2) by simp
  next
    case False
    have o: "a + 4096 \<le> a' \<or> a' + 4096 \<le> a" by (rule slab_apart [OF I b(1) c(1) b(2) c(2)]) (use False in simp)
    have "onext t x = onext s x" if x: "x \<in> slots a' c" for x
    proof -
      have "x \<notin> {a..<a + 4096}" using slots_facts [OF c(1) x] o by auto
      then show ?thesis using t(1) by (simp add: page_change_def)
    qed
    then have "slab_rep t a' c (fl a')"
      using t(1) False by (intro slab_rep_frame [OF slub_invD(4) [OF I c]] c(1)) (auto simp: page_change_def)
    then show ?thesis using False by simp
  qed
  then show ?thesis using I t(1) unfolding slub_inv_def page_change_def by auto
qed

lemma take_object_ok:
  assumes I: "slub_inv s P fl A" and b: "b < 9" "a \<in> set (P b)" and f: "fl a = x # fs"
  shows "\<exists>t. take_object a s = Some (Some x, t) \<and> slub_inv t P (fl(a := fs)) A \<and> x \<in> slots a b \<and> x \<notin> set fs"
proof -
  have R: "slab_rep s a b (x # fs)" using slub_invD(4) [OF I b] f by simp
  define t where "t = upd_slab a (\<lambda>d. d\<lparr>sp_nr_free := sub64 (sp_nr_free d) 1\<rparr>) (upd_slab a (\<lambda>d. d\<lparr>sp_free := onext s x\<rparr>) s)"
  have e: "take_object a s = Some (Some x, t)" using R by (simp add: take_object_def slab_rep_def t_def)
  have "length (x # fs) \<le> card (slots a b)" using R card_mono [OF slots_card(1) [OF b(1)], of "set (x # fs)" a] distinct_card [of "x # fs"]
    by (simp add: slab_rep_def)
  then have "Suc (length fs) \<le> 4048 div bsz b" using slots_card(2) [OF b(1), of a] by simp
  also have "\<dots> \<le> 4048" by (rule div_le_dividend)
  finally have "Suc (length fs) \<le> 4048" .
  then have "sub64 (Suc (length fs)) 1 = length fs" by (subst sub64_id) auto
  then have "slab_rep t a b fs" using R by (auto simp: slab_rep_def t_def slub_fields)
  moreover have "page_change s t a" by (simp add: page_change_def t_def slub_fields)
  ultimately show ?thesis using slub_inv_page [OF I b] e R by (auto simp: slab_rep_def)
qed

subsection \<open>Searching a cache and filling a new page\<close>

lemma find_slab_from:
  "dlist (slinks s) (Cache_pages b) (map Slab_link (xs @ ys)) \<Longrightarrow>
   find_slab (last (Cache_pages b # map Slab_link xs)) b s = Some (find (\<lambda>a. sp_free (slabs s a) \<noteq> None) ys)"
proof (induction ys arbitrary: xs)
  case Nil
  then have "list_next (last (Cache_pages b # map Slab_link xs)) (slinks s) = Cache_pages b"
    using list_next_dlist [of "slinks s" "Cache_pages b" "map Slab_link xs" "[]"] by simp
  then show ?case by (subst find_slab.simps) simp
next
  case (Cons y ys)
  have n: "list_next (last (Cache_pages b # map Slab_link xs)) (slinks s) = Slab_link y"
    using list_next_dlist [of "slinks s" "Cache_pages b" "map Slab_link xs" "map Slab_link (y # ys)"] Cons.prems by simp
  have "find_slab (last (Cache_pages b # map Slab_link (xs @ [y]))) b s = Some (find (\<lambda>a. sp_free (slabs s a) \<noteq> None) ys)"
    using Cons.IH [of "xs @ [y]"] Cons.prems by simp
  then have "find_slab (Slab_link y) b s = Some (find (\<lambda>a. sp_free (slabs s a) \<noteq> None) ys)" by simp
  then show ?case using n by (subst find_slab.simps) (simp add: Let_def)
qed

lemma find_slab_ok:
  assumes I: "slub_inv s P fl A" and b: "b < 9"
  shows "find_slab (Cache_pages b) b s = Some None \<and> (\<forall>a\<in>set (P b). fl a = []) \<or>
    (\<exists>a x fs. find_slab (Cache_pages b) b s = Some (Some a) \<and> a \<in> set (P b) \<and> fl a = x # fs)"
proof -
  have e: "sp_free (slabs s a) = None \<longleftrightarrow> fl a = []" if "a \<in> set (P b)" for a
    using slub_invD(4) [OF I b that] by (cases "fl a") (auto simp: slab_rep_def)
  have f: "find_slab (Cache_pages b) b s = Some (find (\<lambda>a. sp_free (slabs s a) \<noteq> None) (P b))"
    using find_slab_from [of s b "[]" "P b"] slub_invD(2) [OF I b] by simp
  show ?thesis
  proof (cases "find (\<lambda>a. sp_free (slabs s a) \<noteq> None) (P b)")
    case None
    then show ?thesis using f e by (auto simp: find_None_iff)
  next
    case (Some a)
    then have a: "a \<in> set (P b)" "sp_free (slabs s a) \<noteq> None" by (auto simp: find_Some_iff)
    then obtain x fs where "fl a = x # fs" using e [OF a(1)] by (cases "fl a") auto
    then show ?thesis using f Some a(1) by auto
  qed
qed

lemma slab_fill_ok:
  assumes b: "b < 9" and a: "a + 8192 \<le> 2 ^ 64"
  shows "i \<le> 4048 div bsz b \<Longrightarrow> ochain (onext s) (sp_free (slabs s a)) fs \<Longrightarrow> distinct fs \<Longrightarrow>
    set fs = (\<lambda>j. a + 48 + j * bsz b) ` {..<i} \<Longrightarrow> sp_nr_free (slabs s a) = i \<Longrightarrow>
    \<exists>t gs. slab_fill a (a + 48 + i * bsz b) (a + 4096) (bsz b) s = Some t \<and> page_change s t a \<and>
      ochain (onext t) (sp_free (slabs t a)) gs \<and> distinct gs \<and> set gs = slots a b \<and> sp_nr_free (slabs t a) = 4048 div bsz b \<and>
      obj_size (slabs t a) = obj_size (slabs s a)"
proof (induction "4048 div bsz b - i" arbitrary: i fs s)
  case 0
  have p: "8 \<le> bsz b" "bsz b \<le> 2048" using bsz_facts [OF b] by auto
  have i: "i = 4048 div bsz b" using 0 by simp
  have c: "4048 < i * bsz b + bsz b" unfolding i using p(1) dividend_less_div_times [of "bsz b" 4048] by simp
  have "i * bsz b \<le> 4048" unfolding i by simp
  then have "a + 48 + i * bsz b + bsz b < 2 ^ 64" using p(2) a by linarith
  then have "\<not> u64 (a + 48 + i * bsz b + bsz b) \<le> a + 4096" using c by (simp add: u64_id)
  then have e: "slab_fill a (a + 48 + i * bsz b) (a + 4096) (bsz b) s = Some s" by (subst slab_fill.simps) simp
  have "set fs = slots a b" using 0(5) i by (simp add: slots_def)
  then show ?case using e 0 i by (auto simp: page_change_def)
next
  case (Suc d)
  have p: "8 \<le> bsz b" "bsz b \<le> 2048" using bsz_facts [OF b] by auto
  have i: "i < 4048 div bsz b" using Suc.hyps(2) by simp
  have "(i + 1) * bsz b \<le> 4048" using i p(1) by (simp add: less_eq_div_iff_mult_less_eq Suc_le_eq [symmetric])
  then have c: "a + 48 + i * bsz b + bsz b \<le> a + 4096" by simp
  let ?x = "a + 48 + i * bsz b"
  have "?x + bsz b < 2 ^ 64" using c a by linarith
  then have u: "u64 (?x + bsz b) = a + 48 + (i + 1) * bsz b" by (simp add: u64_id)
  have "i < 4048" using i div_le_dividend [of 4048 "bsz b"] by linarith
  then have ui: "u64 (i + 1) = i + 1" by simp
  define t where "t = upd_slab a (\<lambda>d. d\<lparr>sp_nr_free := u64 (sp_nr_free d + 1)\<rparr>) (upd_slab a (\<lambda>d. d\<lparr>sp_free := Some ?x\<rparr>)
    (set_onext ?x (sp_free (slabs s a)) s))"
  have e: "slab_fill a ?x (a + 4096) (bsz b) s = slab_fill a (a + 48 + (i + 1) * bsz b) (a + 4096) (bsz b) t"
    using c u by (subst slab_fill.simps) (simp add: t_def slub_fields Let_def)
  have x: "?x \<notin> set fs" unfolding Suc.prems(4) using p(1) by auto
  have "ochain ((onext s)(?x := sp_free (slabs s a))) (sp_free (slabs s a)) fs"
    using Suc.prems(2) x ochain_cong [of fs "(onext s)(?x := sp_free (slabs s a))" "onext s"] by (metis fun_upd_other)
  then have ch: "ochain (onext t) (sp_free (slabs t a)) (?x # fs)" by (simp add: t_def slub_fields)
  have s2: "set (?x # fs) = (\<lambda>j. a + 48 + j * bsz b) ` {..<i + 1}" using Suc.prems(4) by (auto simp: less_Suc_eq)
  have n: "sp_nr_free (slabs t a) = i + 1" using Suc.prems(5) ui by (simp add: t_def slub_fields)
  have d: "distinct (?x # fs)" using x Suc.prems(3) by simp
  have h: "d = 4048 div bsz b - (i + 1)" "i + 1 \<le> 4048 div bsz b" using Suc.hyps(2) i by auto
  obtain w gs where w: "slab_fill a (a + 48 + (i + 1) * bsz b) (a + 4096) (bsz b) t = Some w" "page_change t w a"
    "ochain (onext w) (sp_free (slabs w a)) gs" "distinct gs" "set gs = slots a b" "sp_nr_free (slabs w a) = 4048 div bsz b"
    "obj_size (slabs w a) = obj_size (slabs t a)"
    using Suc.hyps(1) [OF h ch d s2 n] by blast
  have "?x \<in> {a..<a + 4096}" using c p(1) by simp
  then have "page_change s t a" by (auto simp: page_change_def t_def slub_fields)
  then show ?case using w e page_change_trans [OF _ w(2), of s] by (auto simp: t_def slub_fields)
qed

subsection \<open>The lists of pages\<close>

definition caches_linked :: "slub_le links \<Rightarrow> (nat \<Rightarrow> nat list) \<Rightarrow> bool" where
  "caches_linked g P \<longleftrightarrow> (\<forall>b<9. dlist g (Cache_pages b) (map Slab_link (P b))) \<and> (\<forall>b<9. \<forall>c<9. b \<noteq> c \<longrightarrow> set (P b) \<inter> set (P c) = {})"

lemma caches_add:
  assumes C: "caches_linked g P" and b: "b < 9" and new: "\<forall>c<9. a \<notin> set (P c)"
  shows "caches_linked (list_add (Cache_pages b) (Slab_link a) (list_init (Slab_link a) g)) (P(b := a # P b))"
proof -
  let ?h = "list_init (Slab_link a) g"
  have i: "dlist ?h (Cache_pages c) (map Slab_link (P c))" if c: "c < 9" for c
  proof (rule dlist_frame)
    show "dlist g (Cache_pages c) (map Slab_link (P c))" using C c by (simp add: caches_linked_def)
    fix z assume "z \<in> set (Cache_pages c # map Slab_link (P c))"
    then have "z \<noteq> Slab_link a" using new c by auto
    then show "nxt ?h z = nxt g z \<and> prv ?h z = prv g z" using list_init_frame by metis
  qed
  have l: "dlist ?h (Cache_pages b) ([] @ map Slab_link (P b))" using i [OF b] by simp
  let ?t = "list_add_after (Cache_pages b) (Slab_link a) ?h"
  have "dlist ?t (Cache_pages c) (map Slab_link ((P(b := a # P b)) c))" if c: "c < 9" for c
  proof (cases "c = b")
    case True
    have "Slab_link a \<notin> set (Cache_pages b # [] @ map Slab_link (P b))" using new b by auto
    then show ?thesis using list_add_after_dlist [OF l] True by simp
  next
    case False
    have d: "set (P c) \<inter> set (P b) = {}" using C c b False by (simp add: caches_linked_def)
    have "nxt ?t z = nxt ?h z \<and> prv ?t z = prv ?h z" if z: "z \<in> set (Cache_pages c # map Slab_link (P c))" for z
    proof -
      have "z \<notin> set (Slab_link a # Cache_pages b # [] @ map Slab_link (P b))" using z new c d False by auto
      then show ?thesis using list_add_after_frame [OF l] by (metis append_Nil last_ConsL list.map(1))
    qed
    then show ?thesis using dlist_frame [OF i [OF c]] False by simp
  qed
  then show ?thesis using C new b unfolding caches_linked_def list_add_def by auto
qed

lemma caches_del:
  assumes C: "caches_linked g P" and b: "b < 9" and L: "P b = xs @ a # ys"
  shows "caches_linked (list_del (Slab_link a) g) (P(b := xs @ ys))"
proof -
  let ?t = "list_del (Slab_link a) g"
  have "dlist g (Cache_pages b) (map Slab_link (P b))" using C b by (simp add: caches_linked_def)
  then have l: "dlist g (Cache_pages b) (map Slab_link xs @ Slab_link a # map Slab_link ys)" using L by simp
  have "dlist ?t (Cache_pages c) (map Slab_link ((P(b := xs @ ys)) c))" if c: "c < 9" for c
  proof (cases "c = b")
    case True
    then show ?thesis using list_del_dlist [OF l] by simp
  next
    case False
    have d: "set (P c) \<inter> set (P b) = {}" "dlist g (Cache_pages c) (map Slab_link (P c))" using C c b False by (simp_all add: caches_linked_def)
    have "nxt ?t z = nxt g z \<and> prv ?t z = prv g z" if z: "z \<in> set (Cache_pages c # map Slab_link (P c))" for z
    proof -
      have "z \<notin> set (Cache_pages b # map Slab_link xs @ map Slab_link ys)" using z d(1) L False by auto
      then show ?thesis using list_del_frame [OF l] by blast
    qed
    then show ?thesis using dlist_frame [OF d(2)] False by simp
  qed
  moreover have "set ((P(b := xs @ ys)) i) \<inter> set ((P(b := xs @ ys)) j) = {}" if ij: "i < 9" "j < 9" "i \<noteq> j" for i j
  proof -
    have sub: "set ((P(b := xs @ ys)) m) \<subseteq> set (P m)" for m using L by auto
    have "set (P i) \<inter> set (P j) = {}" using C ij unfolding caches_linked_def by blast
    then show ?thesis using sub [of i] sub [of j] by blast
  qed
  ultimately show ?thesis unfolding caches_linked_def by blast
qed

lemma slub_inv_iff:
  "slub_inv s P fl A \<longleftrightarrow> (\<exists>U L. buddy_inv (bzone s) U L A {}) \<and> znpage (bzone s) < 0xC0000 \<and>
     (\<forall>b<9. cache_size (caches s b) = bsz b) \<and> caches_linked (slinks s) P \<and>
     (\<forall>b<9. \<forall>a\<in>set (P b). (\<exists>p. a = page_va p \<and> (p, 0) \<in> A) \<and> slab_rep s a b (fl a))"
  unfolding slub_inv_def caches_linked_def by blast

subsection \<open>Allocation\<close>

lemma znpage_alloc: "buddy_alloc_pages n z = Some (r, t) \<Longrightarrow> znpage t = znpage z"
proof -
  have "znpage (split_down p k c u) = znpage u" for p k c u
    by (induction p k c u rule: split_down.induct) (auto simp: add_block_def Let_def zone_fields count_fields)
  then show "buddy_alloc_pages n z = Some (r, t) \<Longrightarrow> znpage t = znpage z"
    by (auto simp: buddy_alloc_pages_def Let_def zone_fields count_fields split: if_splits zone_le.splits)
qed

lemma new_slab_ok:
  assumes I: "slub_inv s P fl A" and b: "b < 9" and z: "buddy_inv z U L (insert (p, 0) A) {}" "(p, 0) \<notin> A" "znpage z = znpage (bzone s)"
  shows "\<exists>t u gs. slab_page_init (page_va p) (cache_size (caches s b)) (s\<lparr>bzone := z\<rparr>) = Some t \<and>
    u = upd_cache b (\<lambda>c. c\<lparr>nr_pages := u32 (nr_pages c + 1)\<rparr>) (upd_slinks (list_add (Cache_pages b) (Slab_link (page_va p))) t) \<and>
    slub_inv u (P(b := page_va p # P b)) (fl(page_va p := gs)) (insert (p, 0) A) \<and> gs \<noteq> [] \<and> (\<forall>c<9. page_va p \<notin> set (P c))"
proof -
  let ?a = "page_va p" and ?n = "znpage (bzone s)"
  have n: "?n < 0xC0000" using I by (simp add: slub_inv_iff)
  have pn: "p + nbase < ?n" using held_page [OF z(1), of p] z(3) by simp
  note V = page_va_eq [OF pn n]
  have far: "a + 4096 \<le> ?a \<or> ?a + 4096 \<le> a" if h: "c < 9" "a \<in> set (P c)" for a c
  proof -
    obtain q where q: "a = page_va q" "(q, 0) \<in> A" using slub_invD(3) [OF I h] by blast
    then have "q \<noteq> p" using z(2) by auto
    then show ?thesis using page_va_apart [OF slab_address(3) [OF I q(2)] pn n] q(1) by blast
  qed
  then have new: "\<forall>c<9. ?a \<notin> set (P c)" by fastforce
  define s1 where "s1 = upd_slinks (list_init (Slab_link ?a)) (upd_slab ?a (\<lambda>d. d\<lparr>sp_free := None, obj_size := bsz b, sp_nr_free := 0\<rparr>) (s\<lparr>bzone := z\<rparr>))"
  have "ochain (onext s1) (sp_free (slabs s1 ?a)) []" "sp_nr_free (slabs s1 ?a) = 0" "obj_size (slabs s1 ?a) = bsz b"
    by (simp_all add: s1_def slub_fields)
  then obtain t gs where t: "slab_fill ?a (?a + 48) (?a + 4096) (bsz b) s1 = Some t" "page_change s1 t ?a"
    "ochain (onext t) (sp_free (slabs t ?a)) gs" "distinct gs" "set gs = slots ?a b" "sp_nr_free (slabs t ?a) = 4048 div bsz b"
    "obj_size (slabs t ?a) = bsz b"
    using slab_fill_ok [OF b V(2), of 0 s1 "[]"] by auto
  have st: "u64 (bsz b + SIZEOF_POINTER - 1) div SIZEOF_POINTER * SIZEOF_POINTER = bsz b"
    using bsz_facts [OF b] by (simp add: SIZEOF_POINTER_def add.commute)
  have ad: "u64 (?a + SIZEOF_SLAB_PAGE) = ?a + 48" "u64 (?a + PGSIZE) = ?a + 4096" using V(2) by (simp_all add: SIZEOF_SLAB_PAGE_def PGSIZE_def)
  define t' where "t' = upd_slab ?a (\<lambda>d. d\<lparr>capacity := sp_nr_free d\<rparr>) t"
  have init: "slab_page_init ?a (cache_size (caches s b)) (s\<lparr>bzone := z\<rparr>) = Some t'"
    using t(1) slub_invD(1) [OF I b] st ad by (simp add: slab_page_init_def s1_def t'_def Let_def)
  define u where "u = upd_cache b (\<lambda>c. c\<lparr>nr_pages := u32 (nr_pages c + 1)\<rparr>) (upd_slinks (list_add (Cache_pages b) (Slab_link ?a)) t')"
  have f: "bzone u = z" "slinks u = list_add (Cache_pages b) (Slab_link ?a) (list_init (Slab_link ?a) (slinks s))"
    "\<And>c. cache_size (caches u c) = cache_size (caches s c)" "\<And>a. a \<noteq> ?a \<Longrightarrow> slabs u a = slabs s a"
    "\<And>x. x \<notin> {?a..<?a + 4096} \<Longrightarrow> onext u x = onext s x" "onext u = onext t" "slabs u ?a = (slabs t ?a)\<lparr>capacity := sp_nr_free (slabs t ?a)\<rparr>"
    using t(2) by (auto simp: u_def t'_def s1_def page_change_def slub_fields)
  have "length gs = 4048 div bsz b" using distinct_card [OF t(4)] slots_card(2) [OF b, of ?a] t(5) by simp
  then have own: "slab_rep u ?a b gs" using t f(6,7) by (simp add: slab_rep_def)
  have "slab_rep u a c (fl a)" if c: "c < 9" "a \<in> set (P c)" for a c
  proof (rule slab_rep_frame [OF slub_invD(4) [OF I c] c(1)])
    show "slabs u a = slabs s a" using f(4) far [OF c] by fastforce
    show "\<forall>x\<in>slots a c. onext u x = onext s x"
    proof
      fix x assume x: "x \<in> slots a c"
      have "x \<notin> {?a..<?a + 4096}" using slots_facts(1,3) [OF c(1) x] far [OF c] by auto
      then show "onext u x = onext s x" by (rule f(5))
    qed
  qed
  then have R: "(\<exists>q. a = page_va q \<and> (q, 0) \<in> insert (p, 0) A) \<and> slab_rep u a c ((fl(?a := gs)) a)"
    if c: "c < 9" "a \<in> set ((P(b := ?a # P b)) c)" for a c
  proof (cases "a = ?a")
    case True
    then have "c = b" using c new by (auto split: if_splits)
    then show ?thesis using True own by auto
  next
    case False
    then have ac: "a \<in> set (P c)" using c(2) by (auto split: if_splits)
    then show ?thesis using False \<open>\<And>c a. c < 9 \<Longrightarrow> a \<in> set (P c) \<Longrightarrow> slab_rep u a c (fl a)\<close> [OF c(1) ac] slub_invD(3) [OF I c(1) ac] by auto
  qed
  have "caches_linked (slinks u) (P(b := ?a # P b))" using caches_add [of "slinks s" P b ?a, OF _ b new] I f(2) by (simp add: slub_inv_iff)
  moreover have "cache_size (caches u c) = bsz c" if "c < 9" for c using f(3) slub_invD(1) [OF I that] by simp
  moreover have "\<exists>U L. buddy_inv (bzone u) U L (insert (p, 0) A) {}" "znpage (bzone u) < 0xC0000" using z(1,3) n f(1) by auto
  ultimately have "slub_inv u (P(b := ?a # P b)) (fl(?a := gs)) (insert (p, 0) A)" unfolding slub_inv_iff using R by blast
  moreover have "gs \<noteq> []" using t(5) slots_card(2) [OF b, of ?a] slots_card(3) [OF b] by auto
  ultimately show ?thesis using init new u_def by blast
qed

definition held_in :: "(nat \<Rightarrow> nat list) \<Rightarrow> (nat \<Rightarrow> nat list) \<Rightarrow> (nat \<times> nat) list \<Rightarrow> bool" where
  "held_in P fl held \<longleftrightarrow> distinct (map fst held) \<and>
     (\<forall>(x, n)\<in>set held. 0 < n \<and> (\<exists>b a. size_to_bucket n = Some b \<and> a \<in> set (P b) \<and> x \<in> slots a b \<and> x \<notin> set (fl a)))"

lemma slub_ok_iff: "slub_ok s held \<longleftrightarrow> (\<exists>P fl A. slub_inv s P fl A \<and> held_in P fl held)"
  by (simp add: slub_ok_def held_in_def)

lemma held_inD:
  assumes "held_in P fl held" "(x, n) \<in> set held"
  obtains b a where "0 < n" "size_to_bucket n = Some b" "b < 9" "a \<in> set (P b)" "x \<in> slots a b" "x \<notin> set (fl a)"
proof -
  have "0 < n \<and> (\<exists>b a. size_to_bucket n = Some b \<and> a \<in> set (P b) \<and> x \<in> slots a b \<and> x \<notin> set (fl a))"
    using assms unfolding held_in_def by blast
  then show ?thesis using that size_to_bucket_spec(1) by blast
qed

lemma held_inI:
  assumes "distinct (map fst held)"
    and "\<And>x n. (x, n) \<in> set held \<Longrightarrow> 0 < n \<and> (\<exists>b a. size_to_bucket n = Some b \<and> a \<in> set (P b) \<and> x \<in> slots a b \<and> x \<notin> set (fl a))"
  shows "held_in P fl held"
  using assms unfolding held_in_def by blast

lemma same_slab:
  assumes I: "slub_inv s P fl A" and "b < 9" "c < 9" "a \<in> set (P b)" "a' \<in> set (P c)" "x \<in> slots a b" "x \<in> slots a' c"
  shows "a = a'"
proof (rule ccontr)
  assume "a \<noteq> a'"
  then have "a + 4096 \<le> a' \<or> a' + 4096 \<le> a" by (rule slab_apart [OF I assms(2-5)])
  then show False using slots_facts [OF assms(2,6)] slots_facts [OF assms(3,7)] by linarith
qed

text \<open>The free objects shrink to \<open>fl'\<close>, without one that is handed out.\<close>

lemma held_more:
  assumes H: "held_in P fl held" and n: "0 < n" "size_to_bucket n = Some b" "a \<in> set (P' b)" "x \<in> slots a b" "x \<notin> set (fl' a)"
    and P: "\<And>c. c < 9 \<Longrightarrow> set (P c) \<subseteq> set (P' c)" and f: "\<And>c a. c < 9 \<Longrightarrow> a \<in> set (P c) \<Longrightarrow> set (fl' a) \<subseteq> set (fl a)"
    and new: "\<And>m. (x, m) \<notin> set held"
  shows "held_in P' fl' ((x, n) # held)"
proof -
  have "0 < m \<and> (\<exists>c a'. size_to_bucket m = Some c \<and> a' \<in> set (P' c) \<and> y \<in> slots a' c \<and> y \<notin> set (fl' a'))"
    if "(y, m) \<in> set held" for y m
    by (rule held_inD [OF H that]) (use P f in blast)
  moreover have "x \<notin> fst ` set held" using new by force
  ultimately show ?thesis using H n unfolding held_in_def by auto
qed

lemma fit_order_1: "fit_order 1 0 = 0" "fit_order (Suc 0) 0 = 0" "(0 :: nat) < MAX_ORDER" by (simp_all add: fit_order.simps MAX_ORDER_def)

lemma slub_kmalloc_ok:
  assumes ok: "slub_ok s held" and n: "0 < n" "n \<le> 2048"
  shows "\<exists>r t. slub_kmalloc n s = Some (r, t) \<and> (case r of None \<Rightarrow> slub_ok t held | Some x \<Rightarrow> 0 < x \<and> slub_ok t ((x, n) # held))"
proof -
  obtain P fl A where I: "slub_inv s P fl A" and H: "held_in P fl held" using ok by (auto simp: slub_ok_iff)
  obtain b where sb: "size_to_bucket n = Some b" using size_to_bucket_spec(2) [OF n(2)] by blast
  then have b: "b < 9" using size_to_bucket_spec(1) by blast
  from find_slab_ok [OF I b] show ?thesis
  proof (elim disjE exE conjE)
    fix a x fs assume f: "find_slab (Cache_pages b) b s = Some (Some a)" "a \<in> set (P b)" "fl a = x # fs"
    obtain t where t: "take_object a s = Some (Some x, t)" "slub_inv t P (fl(a := fs)) A" "x \<in> slots a b" "x \<notin> set fs"
      using take_object_ok [OF I b f(2,3)] by blast
    have "(x, m) \<notin> set held" for m
    proof
      assume h: "(x, m) \<in> set held"
      show False by (rule held_inD [OF H h]) (use same_slab [OF I b _ f(2) _ t(3)] f(3) in fastforce)
    qed
    then have "held_in P (fl(a := fs)) ((x, n) # held)"
      using f t(4) by (intro held_more [where P = P and fl = fl and P' = P and fl' = "fl(a := fs)", OF H n(1) sb f(2) t(3)]) auto
    moreover have "0 < x" using slots_facts(1) [OF b t(3)] by simp
    ultimately show ?thesis using t(1,2) f(1) sb n(1) by (auto simp: slub_kmalloc_def slub_ok_iff)
  next
    assume f: "find_slab (Cache_pages b) b s = Some None"
    obtain U L where B: "buddy_inv (bzone s) U L A {}" using I by (auto simp: slub_inv_iff)
    from buddy_alloc_ok [OF B, of 1] show ?thesis
    proof (elim disjE exE conjE)
      fix p z L' assume z: "buddy_alloc_pages 1 (bzone s) = Some (Some p, z)" "(p, fit_order 1 0) \<notin> A"
        "buddy_inv z U L' (insert (p, fit_order 1 0) A) {}"
      note z' = z(3) [unfolded fit_order_1] z(2) [unfolded fit_order_1] znpage_alloc [OF z(1)]
      let ?a = "page_va p"
      obtain t u gs where t: "slab_page_init ?a (cache_size (caches s b)) (s\<lparr>bzone := z\<rparr>) = Some t"
        "u = upd_cache b (\<lambda>c. c\<lparr>nr_pages := u32 (nr_pages c + 1)\<rparr>) (upd_slinks (list_add (Cache_pages b) (Slab_link ?a)) t)"
        "slub_inv u (P(b := ?a # P b)) (fl(?a := gs)) (insert (p, 0) A)" "gs \<noteq> []" "\<forall>c<9. ?a \<notin> set (P c)"
        using new_slab_ok [OF I b z'] by blast
      obtain x xs where gs: "gs = x # xs" using t(4) by (cases gs) auto
      have a: "?a \<in> set ((P(b := ?a # P b)) b)" by simp
      obtain w where w: "take_object ?a u = Some (Some x, w)" "slub_inv w (P(b := ?a # P b)) ((fl(?a := gs))(?a := xs)) (insert (p, 0) A)"
        "x \<in> slots ?a b" "x \<notin> set xs" using take_object_ok [OF t(3) b a, of x xs] gs by (auto simp del: fun_upd_apply simp: fun_upd_same)
      have "(x, m) \<notin> set held" for m
      proof
        assume h: "(x, m) \<in> set held"
        show False
        proof (rule held_inD [OF H h])
          fix c a' assume c: "c < 9" "a' \<in> set (P c)" "x \<in> slots a' c"
          then have "a' \<in> set ((P(b := ?a # P b)) c)" by (cases "c = b") simp_all
          then have "a' = ?a" by (rule same_slab [OF t(3) c(1) b _ a c(3) w(3)])
          then show False using t(5) c(1,2) by blast
        qed
      qed
      then have "held_in (P(b := ?a # P b)) ((fl(?a := gs))(?a := xs)) ((x, n) # held)"
        using t(5) w(4) by (intro held_more [where P = P and fl = fl and P' = "P(b := ?a # P b)" and fl' = "(fl(?a := gs))(?a := xs)", OF H n(1) sb a w(3)]) auto
      moreover have "0 < x" using slots_facts(1) [OF b w(3)] by simp
      ultimately show ?thesis using f z(1) t(1,2) w(1,2) sb n(1) by (auto simp: slub_kmalloc_def slub_alloc_pages_def slub_ok_iff)
    qed (use f sb n ok in \<open>simp_all add: slub_kmalloc_def slub_alloc_pages_def\<close>)
  qed
qed

subsection \<open>Release\<close>

lemma on_free_list_ok: "ochain (onext s) it fs \<Longrightarrow> on_free_list it x s = Some (x \<in> set fs)"
  by (induction fs arbitrary: it) (subst on_free_list.simps, auto)+

lemma drop_page_count_fields:
  "bzone (drop_page_count is' n s) = bzone s \<and> slinks (drop_page_count is' n s) = slinks s \<and> onext (drop_page_count is' n s) = onext s \<and>
   slabs (drop_page_count is' n s) = slabs s \<and> cache_size (caches (drop_page_count is' n s) c) = cache_size (caches s c)"
  by (induction is' n s rule: drop_page_count.induct) (auto simp: slub_fields)

lemma znpage_free: "buddy_free_pages p n z = Some t \<Longrightarrow> znpage t = znpage z"
proof -
  have m: "merge_up b k u = Some (r, v) \<Longrightarrow> znpage v = znpage u" for b k u r v
  proof (induction "MAX_ORDER - k" arbitrary: b k u rule: less_induct)
    case less
    show ?case
    proof (cases "k < MAX_ORDER - 1")
      case True
      then obtain y where y: "zone_pa2page (page2pa b XOR 2 ^ (k + PGSHIFT)) u = Some y"
        using less.prems by (subst (asm) merge_up.simps) (auto simp: bind_eq_Some_conv)
      show ?thesis
      proof (cases "\<not> is_head y u \<or> block_size y u \<noteq> k")
        case True
        then show ?thesis using less.prems y by (subst (asm) merge_up.simps) (auto split: if_splits)
      next
        case False
        let ?u = "(upd_zlinks (list_del (Block_link y)) u)\<lparr>block_count := (block_count u)(k := sub32 (block_count u k) 1)\<rparr>"
        have "merge_up (if y < b then y else b) (k + 1) ?u = Some (r, v)"
          using less.prems y True False by (subst (asm) merge_up.simps) (simp add: Let_def upd_zlinks_def)
        moreover have "MAX_ORDER - (k + 1) < MAX_ORDER - k" using True by simp
        ultimately have "znpage v = znpage ?u" using less.hyps by blast
        then show ?thesis by (simp add: zone_fields count_fields)
      qed
    next
      case False
      then show ?thesis using less.prems by (subst (asm) merge_up.simps) auto
    qed
  qed
  show "buddy_free_pages p n z = Some t \<Longrightarrow> znpage t = znpage z"
    by (auto simp: buddy_free_pages_def bind_eq_Some_conv add_block_def Let_def zone_fields count_fields dest: m split: if_splits)
qed

lemma drop_slab_ok:
  assumes I: "slub_inv s P fl A" and b: "b < 9" and L: "P b = xs @ page_va p # ys" and p: "(p, 0) \<in> A"
  shows "\<exists>t. slub_free_pages p 1 (upd_slab (page_va p) (\<lambda>d. d\<lparr>sp_free := None, obj_size := 0, sp_nr_free := 0, capacity := 0\<rparr>)
      (drop_page_count is' m (upd_slinks (list_del (Slab_link (page_va p))) s))) = Some t \<and> slub_inv t (P(b := xs @ ys)) fl (A - {(p, 0)})"
proof -
  let ?a = "page_va p"
  define u where "u = upd_slab ?a (\<lambda>d. d\<lparr>sp_free := None, obj_size := 0, sp_nr_free := 0, capacity := 0\<rparr>)
      (drop_page_count is' m (upd_slinks (list_del (Slab_link ?a)) s))"
  have f: "bzone u = bzone s" "slinks u = list_del (Slab_link ?a) (slinks s)" "onext u = onext s"
    "\<And>c. cache_size (caches u c) = cache_size (caches s c)" "\<And>a. a \<noteq> ?a \<Longrightarrow> slabs u a = slabs s a"
    using drop_page_count_fields [of is' m "upd_slinks (list_del (Slab_link ?a)) s"] by (auto simp: u_def slub_fields)
  obtain U K where B: "buddy_inv (bzone s) U K A {}" using I by (auto simp: slub_inv_iff)
  have "insert (p, fit_order 1 0) (A - {(p, 0)}) = A" using p by (auto simp: fit_order_1)
  then obtain z K' where z: "buddy_free_pages p 1 (bzone s) = Some z" "buddy_inv z U K' (A - {(p, 0)}) {}"
    using buddy_free_ok [of "bzone s" U K p 1 "A - {(p, 0)}"] B by (auto simp: fit_order_1)
  have nz: "znpage z = znpage (bzone s)" using znpage_free [OF z(1)] .
  define t where "t = u\<lparr>bzone := z\<rparr>"
  have "slub_free_pages p 1 u = Some t" using z(1) f(1) by (simp add: slub_free_pages_def t_def)
  moreover have C: "caches_linked (slinks t) (P(b := xs @ ys))"
    using caches_del [of "slinks s" P b xs ?a ys] I b L f(2) by (simp add: t_def slub_inv_iff)
  moreover have "(\<exists>q. a = page_va q \<and> (q, 0) \<in> A - {(p, 0)}) \<and> slab_rep t a c (fl a)" if c: "c < 9" "a \<in> set ((P(b := xs @ ys)) c)" for a c
  proof -
    have ac: "a \<in> set (P c)" using c(2) L by (auto split: if_splits)
    have ne: "a \<noteq> ?a"
    proof
      assume e: "a = ?a"
      have "c = b"
      proof (rule ccontr)
        assume "c \<noteq> b"
        then have "set (P c) \<inter> set (P b) = {}" using I c(1) b by (auto simp: slub_inv_def)
        then show False using ac e L by auto
      qed
      then show False using c(2) e slub_invD(5) [OF I b] L by auto
    qed
    obtain q where q: "a = page_va q" "(q, 0) \<in> A" using slub_invD(3) [OF I c(1) ac] by blast
    then have "(q, 0) \<in> A - {(p, 0)}" using ne by auto
    moreover have "slab_rep t a c (fl a)"
      using f ne by (intro slab_rep_frame [OF slub_invD(4) [OF I c(1) ac] c(1)]) (auto simp: t_def)
    ultimately show ?thesis using q(1) by blast
  qed
  moreover have "bzone t = z" "\<And>c. cache_size (caches t c) = cache_size (caches s c)" using f by (simp_all add: t_def)
  ultimately have "slub_inv t (P(b := xs @ ys)) fl (A - {(p, 0)})" using I z(2) nz unfolding slub_inv_iff by auto
  then show ?thesis using \<open>slub_free_pages p 1 u = Some t\<close> unfolding u_def by blast
qed

lemma slub_kfree_ok:
  assumes ok: "slub_ok s (h1 @ (x, n) # h2)"
  shows "\<exists>t. slub_kfree (Some x) s = Some t \<and> slub_ok t (h1 @ h2)"
proof -
  obtain P fl A where I: "slub_inv s P fl A" and H: "held_in P fl (h1 @ (x, n) # h2)" using ok by (auto simp: slub_ok_iff)
  have "(x, n) \<in> set (h1 @ (x, n) # h2)" by simp
  then obtain b a where n: "size_to_bucket n = Some b" "b < 9" "a \<in> set (P b)" "x \<in> slots a b" "x \<notin> set (fl a)" by (rule held_inD [OF H])
  obtain p where p: "a = page_va p" "(p, 0) \<in> A" using slub_invD(3) [OF I n(2,3)] by blast
  note V = slab_address [OF I p(2), folded p(1)] and X = slots_facts [OF n(2,4)]
  have R: "slab_rep s a b (fl a)" by (rule slub_invD(4) [OF I n(2,3)])
  have "x - PHYSICAL_MEMORY_OFFSET = (p + nbase) * 4096 + (x - a)" "x - a < 4096" "\<not> x < PHYSICAL_MEMORY_OFFSET" using V(1) X by auto
  then have "(x - PHYSICAL_MEMORY_OFFSET) div 4096 = p + nbase" by (simp only:) simp
  then have "PPN (x - PHYSICAL_MEMORY_OFFSET) = p + nbase" by (simp add: PPN_def PTXSHIFT_def drop_bit_eq_div)
  then have pa: "zone_pa2page (x - PHYSICAL_MEMORY_OFFSET) (bzone s) = Some p" using V(3) by (simp add: zone_pa2page_def)
  have ad: "u64 (a + SIZEOF_SLAB_PAGE) = a + 48" "u64 (a + PGSIZE) = a + 4096" using V(2) by (simp_all add: SIZEOF_SLAB_PAGE_def PGSIZE_def)
  define u where "u = upd_slab a (\<lambda>d. d\<lparr>sp_nr_free := u64 (sp_nr_free d + 1)\<rparr>) (upd_slab a (\<lambda>d. d\<lparr>sp_free := Some x\<rparr>)
    (set_onext x (sp_free (slabs s a)) s))"
  have fin: "finite (slots a b)" "card (slots a b) = 4048 div bsz b" using slots_card [OF n(2)] by auto
  have "length (fl a) \<le> 4048 div bsz b" using R card_mono [OF fin(1), of "set (fl a)"] distinct_card [of "fl a"] fin(2) by (simp add: slab_rep_def)
  then have "length (fl a) \<le> 4048" using div_le_dividend [of 4048 "bsz b"] by linarith
  then have len: "u64 (length (fl a) + 1) = length (fl a) + 1" by simp
  have "ochain ((onext s)(x := sp_free (slabs s a))) (sp_free (slabs s a)) (fl a)"
    using R n(5) ochain_cong [of "fl a" "(onext s)(x := sp_free (slabs s a))" "onext s"] unfolding slab_rep_def by (metis fun_upd_other)
  then have rep: "slab_rep u a b (x # fl a)" using R n(4,5) len by (simp add: slab_rep_def u_def slub_fields)
  have "x \<in> {a..<a + 4096}" using X by simp
  then have "page_change s u a" by (auto simp: page_change_def u_def slub_fields)
  from slub_inv_page [OF I n(2,3) this rep] have J: "slub_inv u P (fl(a := x # fl a)) A" .
  have walk: "on_free_list (sp_free (slabs s a)) x s = Some False" using R n(5) on_free_list_ok [of s "sp_free (slabs s a)" "fl a" x] by (simp add: slab_rep_def)
  have nx: "obj_size (slabs s a) \<noteq> 0" using R bsz_facts [OF n(2)] by (simp add: slab_rep_def)
  let ?fs = "fl(a := x # fl a)"
  have dist: "distinct (map fst (h1 @ (x, n) # h2))" using H unfolding held_in_def by blast
  then have "x \<notin> fst ` set (h1 @ h2)" by auto
  then have out: "y \<noteq> x" if "(y, m) \<in> set (h1 @ h2)" for y m using that image_eqI [of y fst "(y, m)" "set (h1 @ h2)"] by auto
  have H2: "held_in P ?fs (h1 @ h2)"
  proof -
    have "0 < m \<and> (\<exists>c a'. size_to_bucket m = Some c \<and> a' \<in> set (P c) \<and> y \<in> slots a' c \<and> y \<notin> set (?fs a'))"
      if h: "(y, m) \<in> set (h1 @ h2)" for y m
    proof -
      have "(y, m) \<in> set (h1 @ (x, n) # h2)" using h by auto
      then show ?thesis
      proof (rule held_inD [OF H])
        fix c a' assume c: "0 < m" "size_to_bucket m = Some c" "a' \<in> set (P c)" "y \<in> slots a' c" "y \<notin> set (fl a')"
        then have "y \<notin> set (?fs a')" using out [OF h] by auto
        then show ?thesis using c by blast
      qed
    qed
    then show ?thesis using dist by (intro held_inI) auto
  qed
  have "\<not> x < a + 48" "\<not> a + 4096 \<le> x" using X by auto
  then have kf: "slub_kfree (Some x) s = (if capacity (slabs u a) \<le> sp_nr_free (slabs u a)
    then slub_free_pages p 1 (upd_slab a (\<lambda>d. d\<lparr>sp_free := None, obj_size := 0, sp_nr_free := 0, capacity := 0\<rparr>)
      (drop_page_count [0..<MAX_BUCKET] (obj_size (slabs (upd_slinks (list_del (Slab_link a)) u) a)) (upd_slinks (list_del (Slab_link a)) u)))
    else Some u)"
    using \<open>\<not> x < PHYSICAL_MEMORY_OFFSET\<close> pa nx walk
    by (simp add: slub_kfree_def p(1) [symmetric] ad Let_def u_def del: upt_Suc MAX_BUCKET_9)
  have cap: "capacity (slabs u a) \<le> sp_nr_free (slabs u a) \<longleftrightarrow> 4048 div bsz b \<le> length (fl a) + 1" using rep by (simp add: slab_rep_def)
  show ?thesis
  proof (cases "4048 div bsz b \<le> length (fl a) + 1")
    case False
    then have "slub_kfree (Some x) s = Some u" using kf cap by simp
    then show ?thesis using J H2 by (auto simp: slub_ok_iff)
  next
    case True
    obtain xs ys where L: "P b = xs @ page_va p # ys" using n(3) p(1) by (meson split_list)
    obtain t where t: "slub_free_pages p 1 (upd_slab (page_va p) (\<lambda>d. d\<lparr>sp_free := None, obj_size := 0, sp_nr_free := 0, capacity := 0\<rparr>)
      (drop_page_count [0..<MAX_BUCKET] (obj_size (slabs (upd_slinks (list_del (Slab_link (page_va p))) u) (page_va p)))
        (upd_slinks (list_del (Slab_link (page_va p))) u))) = Some t" "slub_inv t (P(b := xs @ ys)) ?fs (A - {(p, 0)})"
      using drop_slab_ok [OF J n(2) L p(2)] by blast
    have "slub_kfree (Some x) s = Some t" unfolding kf using t(1) True cap p(1) by simp
    moreover have "held_in (P(b := xs @ ys)) ?fs (h1 @ h2)"
    proof -
      have "length (x # fl a) = card (set (x # fl a))" using rep distinct_card [of "x # fl a"] by (simp only: slab_rep_def)
      then have "card (slots a b) \<le> card (set (x # fl a))" using True fin(2) by simp
      then have full: "set (x # fl a) = slots a b" using rep by (intro card_seteq [OF fin(1)]) (auto simp: slab_rep_def)
      have K: "a' \<in> set ((P(b := xs @ ys)) c)" if "(y, m) \<in> set (h1 @ h2)" "size_to_bucket m = Some c" "c < 9" "a' \<in> set (P c)" "y \<in> slots a' c" "y \<notin> set (?fs a')" for y m c a'
      proof -
        have "a' \<noteq> a"
        proof
          assume e: "a' = a"
          have "c = b"
          proof (rule ccontr)
            assume "c \<noteq> b"
            then have "set (P c) \<inter> set (P b) = {}" using I that(3) n(2) by (auto simp: slub_inv_def)
            then show False using that(4) n(3) e by blast
          qed
          then show False using that(5,6) full e by auto
        qed
        then show ?thesis using that(4) L p(1) by auto
      qed
      have "0 < m \<and> (\<exists>c a'. size_to_bucket m = Some c \<and> a' \<in> set ((P(b := xs @ ys)) c) \<and> y \<in> slots a' c \<and> y \<notin> set (?fs a'))"
        if h: "(y, m) \<in> set (h1 @ h2)" for y m
        by (rule held_inD [OF H2 h]) (use K [OF h] in blast)
      then show ?thesis using dist by (intro held_inI) auto
    qed
    ultimately show ?thesis using t(2) by (auto simp: slub_ok_iff)
  qed
qed

subsection \<open>SLUB is a kernel heap\<close>

definition slub_small :: "nat \<Rightarrow> bool" where "slub_small n \<longleftrightarrow> 0 < n \<and> n \<le> 2048"

interpretation slub: kernel_heap slub_kmalloc slub_kfree slub_ok slub_small
proof unfold_locales
  fix s held n assume "slub_ok s held" "slub_small n"
  then show "\<exists>r t. slub_kmalloc n s = Some (r, t) \<and> (case r of None \<Rightarrow> slub_ok t held | Some a \<Rightarrow> 0 < a \<and> slub_ok t ((a, n) # held))"
    using slub_kmalloc_ok by (simp add: slub_small_def)
qed (use slub_kfree_ok slub_disjoint in blast)+

lemma znpage_memmap: "buddy_init_memmap b n (buddy_init z) = Some t \<Longrightarrow> znpage t = znpage z"
proof -
  have c: "clear_pages b n u = Some v \<Longrightarrow> znpage v = znpage u" for b n u v
    by (induction b n u rule: clear_pages.induct) (auto simp: zone_fields split: if_splits)
  have p: "znpage (put_blocks b n u) = znpage u" for b n u
  proof (induction b n u rule: put_blocks.induct)
    case (1 b n u)
    then show ?case by (subst put_blocks.simps) (simp add: Let_def add_block_def zone_fields count_fields)
  qed
  show "buddy_init_memmap b n (buddy_init z) = Some t \<Longrightarrow> znpage t = znpage z"
    using buddy_init_lists(2) [of z] c p by (auto simp: buddy_init_memmap_def bind_eq_Some_conv split: if_splits)
qed

lemma fold_caches:
  "distinct is' \<Longrightarrow> t = fold (\<lambda>i s. let s = upd_cache i (\<lambda>c. c\<lparr>cache_size := bsz i\<rparr>) s; s = upd_slinks (list_init (Cache_pages i)) s
     in upd_cache i (\<lambda>c. c\<lparr>global_free := None, nr_pages := 0\<rparr>) s) is' s \<Longrightarrow>
   bzone t = bzone s \<and> (\<forall>i. i \<notin> set is' \<longrightarrow> cache_size (caches t i) = cache_size (caches s i)) \<and>
   (\<forall>i\<in>set is'. cache_size (caches t i) = bsz i \<and> dlist (slinks t) (Cache_pages i) []) \<and>
   (\<forall>z. z \<notin> Cache_pages ` set is' \<longrightarrow> nxt (slinks t) z = nxt (slinks s) z \<and> prv (slinks t) z = prv (slinks s) z)"
proof (induction is' arbitrary: s)
  case (Cons i is')
  define u where "u = upd_cache i (\<lambda>c. c\<lparr>global_free := None, nr_pages := 0\<rparr>)
    (upd_slinks (list_init (Cache_pages i)) (upd_cache i (\<lambda>c. c\<lparr>cache_size := bsz i\<rparr>) s))"
  have u: "bzone u = bzone s" "cache_size (caches u i) = bsz i" "\<And>j. j \<noteq> i \<Longrightarrow> cache_size (caches u j) = cache_size (caches s j)"
    "slinks u = list_init (Cache_pages i) (slinks s)" by (simp_all add: u_def slub_fields)
  have "t = fold (\<lambda>i s. let s = upd_cache i (\<lambda>c. c\<lparr>cache_size := bsz i\<rparr>) s; s = upd_slinks (list_init (Cache_pages i)) s
     in upd_cache i (\<lambda>c. c\<lparr>global_free := None, nr_pages := 0\<rparr>) s) is' u"
    unfolding u_def Cons.prems(2) by (simp only: fold_simps Let_def)
  note T = Cons.IH [OF _ this]
  have fr: "nxt (slinks u) z = nxt (slinks s) z \<and> prv (slinks u) z = prv (slinks s) z" if "z \<noteq> Cache_pages i" for z
    using list_init_frame [OF that, of "slinks s"] u(4) by simp
  have "dlist (slinks u) (Cache_pages i) []" unfolding u(4) by (rule list_init_dlist)
  then have "dlist (slinks t) (Cache_pages i) []" by (rule dlist_frame) (use T Cons.prems(1) in auto)
  then show ?case using T u fr Cons.prems(1) by auto
qed simp

lemma slub_init_ok:
  assumes "buddy_inv (bzone s) U L A {}" "znpage (bzone s) < 0xC0000"
  shows "slub_ok (slub_init s) []"
proof -
  have "distinct [0..<MAX_BUCKET]" by simp
  note F = fold_caches [OF this refl, of s, folded slub_init_def]
  have "slub_inv (slub_init s) (\<lambda>_. []) (\<lambda>_. []) A"
    unfolding slub_inv_def using F assms by (auto simp: MAX_BUCKET_def)
  then show ?thesis by (auto simp: slub_ok_iff held_in_def)
qed

text \<open>
  C21: On memory that the buddy manager has, in every run of allocations of 1 to 2048 bytes and of releases of held objects:
  the held objects are disjoint, and the next allocation and the release of any held object return.
\<close>

theorem slub_run_safe:
  assumes "heap_run slub_kmalloc slub_kfree slub_small (slub_init s) t held"
    and "buddy_inv (bzone s) U L A {}" "znpage (bzone s) < 0xC0000"
  shows "held_disjoint held \<and> (\<forall>n. slub_small n \<longrightarrow> slub_kmalloc n t \<noteq> None) \<and>
    (\<forall>a n. (a, n) \<in> set held \<longrightarrow> slub_kfree (Some a) t \<noteq> None)"
  by (rule slub.heap_run_safe [OF assms(1) slub_init_ok [OF assms(2,3)]])

theorem slub_run_safe_witness:
  "\<exists>s. \<forall>r t. slub_kmalloc 24 (slub_init s) = Some (r, t) \<longrightarrow> slub_kmalloc 100 t \<noteq> None \<and> (\<forall>a. r = Some a \<longrightarrow> slub_kfree (Some a) t \<noteq> None)"
proof -
  define z :: buddy where "z = \<lparr>zpages = \<lambda>_. \<lparr>ref = 0, flags = set_bit PG_reserved 0, property = 0\<rparr>,
    zlinks = \<lparr>nxt = \<lambda>a. a, prv = \<lambda>a. a\<rparr>, znpage = nbase + 512, block_count = \<lambda>_. 0\<rparr>"
  have "\<forall>p. \<not> is_head p z" "\<forall>p\<in>{3..<3 + 7}. is_reserved p z" "zone_ok z {3..<3 + 7}"
    by (simp_all add: z_def is_head_def is_reserved_def PG_property_def PG_reserved_def bit_simps zone_ok_def nbase_def PGSIZE_def)
  from buddy_memmap_ok [OF this] obtain y L where y: "buddy_init_memmap 3 7 (buddy_init z) = Some y" "buddy_inv y {3..<3 + 7} L {} {}" by auto
  have n: "znpage y = nbase + 512" using znpage_memmap [OF y(1)] by (simp add: z_def)
  define s where "s = \<lparr>bzone = y, slabs = \<lambda>_. \<lparr>sp_free = None, obj_size = 0, sp_nr_free = 0, capacity = 0\<rparr>,
    slinks = \<lparr>nxt = \<lambda>a. a, prv = \<lambda>a. a\<rparr>, onext = \<lambda>_. None, caches = \<lambda>_. \<lparr>cache_size = 0, global_free = None, nr_pages = 0\<rparr>\<rparr>"
  have s: "buddy_inv (bzone s) {3..<3 + 7} L {} {}" "znpage (bzone s) < 0xC0000" using y n by (simp_all add: s_def nbase_def PGSIZE_def)
  have k: "slub_small 24" "slub_small 100" by (simp_all add: slub_small_def)
  have "slub_kmalloc 100 t \<noteq> None \<and> (\<forall>a. r = Some a \<longrightarrow> slub_kfree (Some a) t \<noteq> None)"
    if t: "slub_kmalloc 24 (slub_init s) = Some (r, t)" for r t
  proof -
    have "heap_run slub_kmalloc slub_kfree slub_small (slub_init s) t (case r of None \<Rightarrow> [] | Some a \<Rightarrow> [(a, 24)])"
      using heap_run.heap_malloc [where malloc = slub_kmalloc and small = slub_small, OF heap_run.heap_start k(1) t] by simp
    from slub_run_safe [OF this s] show ?thesis using k(2) by (auto split: option.splits)
  qed
  then show ?thesis by blast
qed

subsection \<open>Large requests\<close>

text \<open>\<open>kfree\<close> of the address of a page changes nothing, whatever the page holds: a request above 2048 bytes is never given back.\<close>

lemma slub_kfree_large:
  assumes "p + nbase < znpage (bzone s)" "znpage (bzone s) < 0xC0000"
  shows "slub_kfree (Some (page_va p)) s = Some s"
proof -
  note V = page_va_eq [OF assms]
  obtain v where v: "v = page_va p" by blast
  have "PPN (v - PHYSICAL_MEMORY_OFFSET) = p + nbase" unfolding v V(1) by (simp add: PPN_def PTXSHIFT_def drop_bit_eq_div)
  then have "zone_pa2page (v - PHYSICAL_MEMORY_OFFSET) (bzone s) = Some p" using assms(1) by (simp add: zone_pa2page_def)
  moreover have "u64 (v + SIZEOF_SLAB_PAGE) = v + 48" using V(2) v by (simp add: SIZEOF_SLAB_PAGE_def)
  moreover have "\<not> v < PHYSICAL_MEMORY_OFFSET" using V(1) v by simp
  ultimately show ?thesis by (simp add: slub_kfree_def Let_def v)
qed

end
