(* ===== verification/Spec2Isabelle.thy ===== *)
theory Spec2Isabelle
  imports Best_Fit Timer Proc_Table Page_Table_Properties Kernel_Heap Printfmt Vmm_Proofs Fs_Blocks Fork_Proofs Philosophers Trap Cow_Properties
    Buddy_Split_Proofs Slub_Proofs
begin

text \<open>
  \<^bold>\<open>The uCore kernel of this repository\<close>

  The repository holds the stages lab1 to lab8 of one teaching kernel for RISC-V (Sv39). The final stage,
  src/lab8, contains the others, so the model follows src/lab8/kern and src/lab8/libs; from the other stages it
  takes what the final one has not: the best-fit manager (src/Lab2_best_fit_pmm.c), the FIFO and
  shortest-job-first scheduling classes of lab 6, copy on write of lab 5, and the buddy managers and the SLUB heap of lab 2
  (src/lab2_Dou/kern/mm, src/Lab2_Challenge1_buddy_pmm.c).

  \<^bold>\<open>Parts and how they interact\<close>

  A physical memory manager hands out page frames; the kernel heap (SLOB) and the page tables sit on it. An
  \<open>mm_struct\<close> holds a page directory and a list of areas. Processes are scheduled by a class behind
  \<open>sched_class\<close>; they sleep on wait queues and timers. The file system is layered: system calls, open files, VFS
  (paths, devices, inodes with tables of operations), SFS (on-disk inodes, block maps, directories, free map), and the
  block and console devices. fork, exit, wait and exec join all of these.

  \<^bold>\<open>Conventions\<close>

  \<^item> A function that can panic, fail an assertion, dereference a pointer outside its structure or run forever has a
    result in \<open>'a option\<close>, and \<open>None\<close> stands for all of these; a C error code is an \<open>int\<close>. A theorem that a function
    returns is always stated as \<open>\<exists>\<dots>. f \<dots> = Some \<dots>\<close>.
  \<^item> Loops over pointers are \<open>partial_function (option)\<close>: there is no fuel anywhere, and termination is proved from the
    invariant of the data structure. Loops with a counter are structural recursions or have a termination proof.
  \<^item> Pointers are natural numbers, \<open>NULL\<close> is \<open>None\<close>. Structures are records in maps indexed by their addresses; links
    of list.h are maps shared by all lists, so that an operation writing outside its list is visible. What is accessed as
    bytes (strings, user memory, disk blocks, on-disk inodes, directory slots, trap frames) stays bytes in one memory.
  \<^item> Machine integers keep their width where the code lets them wrap (\<open>32 word\<close> strides and process flags, \<open>64 word\<close>
    page-table entries); the reference counters and sizes that the code only increments are \<open>nat\<close> or \<open>int\<close>, with \<open>unsigned\<close>
    subtraction written out.
  \<^item> \<open>local_intr_save\<close> makes a section atomic, so an operation is one function. A function that calls \<open>schedule()\<close> in the
    middle is split there, because other processes run before it goes on. In the file system the semaphores are taken without
    contention: a \<open>down\<close> that would have to wait is \<open>None\<close>, so the theorems there speak of one process in the file system.

  \<^bold>\<open>Theories\<close>

  \<^item> \<open>Kernel_Prelude\<close>: results, error codes, unsigned subtraction, lemmas on lists. \<open>Kernel_List\<close>: libs/list.h, the
    abstraction of a circular list, the locale \<open>kernel_list\<close> which the clients use.
  \<^item> \<open>Phys_Page\<close>, \<open>Pmm_Manager\<close>, \<open>First_Fit\<close>, \<open>Best_Fit\<close>: page descriptors, the contract of \<open>struct pmm_manager\<close> as a locale on
    the set of free pages, the two managers (kern/mm/default_pmm.c, Lab2_best_fit_pmm.c) and their interpretations: allocation
    takes a fitting block that was free, runs of calls never hand out a page twice.
  \<^item> \<open>Buddy\<close>, \<open>Buddy_Proofs\<close>: the buddy manager that lab 2 installs. Its blocks tile the memory; a merge leaves marks behind, and
    \<open>stale_in\<close> says where, which is why no stale mark is ever taken for a free block. \<open>Buddy_Split\<close>, \<open>Buddy_Split_Proofs\<close>: the other
    buddy manager, which hands out any number of pages; there a stale mark makes a later release panic.
  \<^item> \<open>Slub\<close>, \<open>Slub_Proofs\<close>: the SLUB heap of lab 2 over its buddy manager, a second interpretation of the locale of a heap
    in \<open>Kernel_Heap\<close>.
  \<^item> \<open>Slob\<close>, \<open>Slob_Proofs\<close>, \<open>Kernel_Heap\<close>: kern/mm/kmalloc.c over the page manager, the locale of a heap, its
    interpretation on \<open>kmalloc\<close> and \<open>kfree\<close>; \<open>kmalloc_size_gaps\<close> gives the sizes for which the returned block is too small.
  \<^item> \<open>Page_Table\<close>, \<open>Page_Table_Proofs\<close>, \<open>Page_Table_Properties\<close>: kern/mm/pmm.c and mmu.h: walking, mapping, unmapping, copying and
    releasing ranges over the tree of tables.
  \<^item> \<open>Vmm\<close>, \<open>Vmm_Proofs\<close>: kern/mm/vmm.c; the list of areas refines a set of disjoint areas.
  \<^item> \<open>Proc_Struct\<close>, \<open>Sched\<close>, \<open>Sched_Lists\<close>, \<open>Skew_Heap\<close>, \<open>Stride\<close>: processes, the core scheduler over the locale of a scheduling
    class, round robin, FIFO, SJF, and the stride class on skew heaps (libs/skew_heap.h).
  \<^item> \<open>Timer\<close>, \<open>Sync\<close>, \<open>Proc_Table\<close>: the delta queue of timers, wait queues and semaphores, the table, the hash lists and
    the family tree of processes, pids, \<open>do_kill\<close> and the family part of exit and wait (kern/process/proc.c).
  \<^item> \<open>Kern_String\<close>, \<open>Printfmt\<close>: libs/string.c, libs/printfmt.c, libs/rand.c.
  \<^item> \<open>Fs_State\<close>, \<open>Bitmap\<close>, \<open>Block_Dev\<close>, \<open>Sfs_Io\<close>, \<open>Sfs_Inode\<close>, \<open>Sfs_File\<close>, \<open>Vop\<close>, \<open>Sfs_Fs\<close>, \<open>Vfs\<close>, \<open>File_Table\<close>, \<open>Sysfile\<close>: kern/fs and
    the disk and console devices below it, in the order of the calls: the state and I/O buffers, the free map, RAM disk and
    devices, block I/O, loaded inodes, file contents and directories, the dispatch over the tables of operations, mounting,
    paths and the current directory, the table of open files, the system calls.
  \<^item> \<open>Fs_Relation\<close>: the locale of a relation between states that holds across every operation of the file system once it
    does across the updates of the inode table and the console and changes to semaphores. \<open>Fs_Types\<close> interprets it twice and proves the typing of inodes;
    \<open>Fs_Limits\<close>: operations missing from a table and the size of a file; \<open>Fs_Blocks\<close>: block write and block read.
  \<^item> \<open>Proc_Memory\<close>, \<open>Fork_Proofs\<close>: fork, exit and wait with memory and files (kern/process/proc.c); fork is all or nothing, by
    a third interpretation of the locale, and the trap frame of the child.
  \<^item> \<open>Sem_Set\<close>, \<open>Monitor\<close>, \<open>Philosophers\<close>: semaphores used together, monitors and condition variables (kern/sync/monitor.c), and
    the dining philosophers of kern/sync/check_sync.c: an inductive run of the five threads, its invariant, mutual exclusion
    and no deadlock. The kernel is not preempted, so a thread runs until it sleeps in a \<open>down\<close>.
  \<^item> \<open>Exec\<close>: \<open>load_icode\<close> and \<open>do_execve\<close>. A page is seen as bytes at its kernel address and as the words of its frame;
    \<open>sync_frames\<close> keeps the frames up to date and \<open>show_user\<close> puts them at the user addresses when the page directory changes.
    What a running user program stores is not written back to the frames.
  \<^item> \<open>Cow\<close>, \<open>Cow_Spaces\<close>, \<open>Cow_Proofs\<close>, \<open>Cow_Properties\<close>: src/lab5/kern/mm/pmm.c and vmm.c, where they differ from
    lab 8: fork shares the pages without the right to write, a store to such a page goes to \<open>do_pgfault\<close>. The invariant
    \<open>cow_inv\<close> is over any number of address spaces; \<open>user_store\<close> is the store of the hardware, through the page table and
    not through a translation buffer.
  \<^item> \<open>Trap\<close>: kern/trap/trap.c and kern/syscall/syscall.c: from a trap frame to the operation and back.

  \<^bold>\<open>Not modelled\<close>

  Start-up and assembler (kern/init, entry.S, switch.S, trapentry.S), the console driver, clock, device tree and SBI calls,
  the kernel monitor and stack traces of kern/debug, readline, swapfs (no caller), the self tests (check_*), and the user
  programs and their library, which run outside the kernel. Values these provide are parameters: characters read by
  \<open>cons_getc\<close>, the images of the RAM disk, the addresses of string literals and of local variables.
  A read from the console that has to wait is \<open>None\<close>.
\<close>

end
